(* ===== verification/Concile_Prelude.thy ===== *)
theory Concile_Prelude
  imports Main "HOL-Library.Word" "HOL-Library.List_Lexorder" "HOL-Library.AList"
begin

text \<open>
  Shared vocabulary of the development: three-way comparison results (the source's
  \<^verbatim>\<open>-1 | 0 | 1\<close>), the interface of a comparator as a locale, the lexicographic
  comparison of lists every ordered structure of the program uses, results that may be
  a thrown error, and the two association-list operations that are JavaScript's
  insertion-ordered \<^verbatim>\<open>Map\<close>.
\<close>

unbundle bit_operations_syntax

named_theorems codec_simps \<open>round-trip and layout equations of the codecs\<close>
named_theorems range_simps \<open>membership equations of key ranges\<close>
named_theorems store_simps \<open>frame and lookup equations of the stores\<close>

type_synonym byte = "8 word"
type_synonym bytes = "8 word list"

section \<open>Three-way comparison\<close>

datatype cmp = CLt | CEq | CGt

fun cmp_neg :: "cmp \<Rightarrow> cmp" where
  "cmp_neg CLt = CGt"
| "cmp_neg CEq = CEq"
| "cmp_neg CGt = CLt"

fun cmp_then :: "cmp \<Rightarrow> cmp \<Rightarrow> cmp" where
  "cmp_then CEq d = d"
| "cmp_then c d = c"

definition cmp_of :: "'a::linorder \<Rightarrow> 'a \<Rightarrow> cmp" where
  "cmp_of a b = (if a < b then CLt else if a = b then CEq else CGt)"

text \<open>The results of comparing \<open>a\<close> with \<open>b\<close>, \<open>b\<close> with \<open>c\<close> and \<open>a\<close> with \<open>c\<close> are
  consistent with a total preorder.\<close>

definition cmp_trans3 :: "cmp \<Rightarrow> cmp \<Rightarrow> cmp \<Rightarrow> bool" where
  "cmp_trans3 ab bc ac =
     ((ab \<noteq> CGt \<longrightarrow> bc \<noteq> CGt \<longrightarrow> ac = cmp_then ab bc) \<and>
      (ab \<noteq> CLt \<longrightarrow> bc \<noteq> CLt \<longrightarrow> ac = cmp_then ab bc))"

lemma cmp_neg_neg [simp]: "cmp_neg (cmp_neg c) = c"
  by (cases c) auto

lemma cmp_neg_eq_iff [simp]:
  "cmp_neg c = CLt \<longleftrightarrow> c = CGt" "cmp_neg c = CEq \<longleftrightarrow> c = CEq" "cmp_neg c = CGt \<longleftrightarrow> c = CLt"
  by (cases c; simp)+

lemma cmp_neg_then [simp]: "cmp_neg (cmp_then c d) = cmp_then (cmp_neg c) (cmp_neg d)"
  by (cases c) auto

lemma cmp_then_CEq [simp]: "cmp_then c CEq = c"
  by (cases c) auto

lemma cmp_then_eq_CEq [simp]: "cmp_then c d = CEq \<longleftrightarrow> c = CEq \<and> d = CEq"
  by (cases c) auto

lemma cmp_then_absorb: "c \<noteq> CEq \<Longrightarrow> cmp_then c d = c"
  by (cases c) auto

lemma cmp_then_assoc [simp]: "cmp_then (cmp_then c d) e = cmp_then c (cmp_then d e)"
  by (cases c) auto

lemma cmp_of_simps [simp]:
  "cmp_of a b = CLt \<longleftrightarrow> a < b" "cmp_of a b = CEq \<longleftrightarrow> a = b" "cmp_of a b = CGt \<longleftrightarrow> b < a"
  by (auto simp: cmp_of_def)

lemma cmp_of_lt: "a < b \<Longrightarrow> cmp_of a b = CLt"
  by simp

lemma cmp_of_gt: "b < a \<Longrightarrow> cmp_of a b = CGt"
  by simp

lemma cmp_of_flip: "cmp_of b a = cmp_neg (cmp_of a b)"
  by (auto simp: cmp_of_def)

lemma cmp_of_trans3: "cmp_trans3 (cmp_of a b) (cmp_of b c) (cmp_of a c)"
  by (auto simp: cmp_trans3_def cmp_of_def)

lemma cmp_trans3_then:
  assumes "cmp_trans3 a b c" "cmp_trans3 a' b' c'"
  shows "cmp_trans3 (cmp_then a a') (cmp_then b b') (cmp_then c c')"
  using assms by (cases a; cases b; cases a'; cases b') (auto simp: cmp_trans3_def)

lemma cmp_trans3_simps [simp]:
  "cmp_trans3 c CLt CLt" "cmp_trans3 c CGt CGt" "cmp_trans3 CLt c CLt" "cmp_trans3 CGt c CGt"
  "cmp_trans3 CLt CGt c" "cmp_trans3 CGt CLt c" "cmp_trans3 CEq CEq CEq"
  by (cases c; simp add: cmp_trans3_def)+

section \<open>The comparator interface\<close>

text \<open>What every ordered structure of the program relies on: swapping the arguments
  negates the result, and results compose as in a total preorder. Equal under the
  comparison need not mean identical (\<^verbatim>\<open>+0\<close> and \<^verbatim>\<open>-0\<close> compare equal).\<close>

locale comparator =
  fixes cmp :: "'a \<Rightarrow> 'a \<Rightarrow> cmp"
  assumes flip: "cmp b a = cmp_neg (cmp a b)"
    and trans3: "cmp_trans3 (cmp a b) (cmp b c) (cmp a c)"
begin

lemma refl [simp]: "cmp a a = CEq"
  using flip[of a a] by (cases "cmp a a") auto

lemma eq_sym: "cmp a b = CEq \<longleftrightarrow> cmp b a = CEq"
  using flip[of a b] by simp

lemma lt_iff_gt: "cmp a b = CLt \<longleftrightarrow> cmp b a = CGt"
  using flip[of a b] by simp

lemma lt_trans: "cmp a b = CLt \<Longrightarrow> cmp b c = CLt \<Longrightarrow> cmp a c = CLt"
  using trans3[of a b c] by (simp add: cmp_trans3_def)

lemma le_trans: "cmp a b \<noteq> CGt \<Longrightarrow> cmp b c \<noteq> CGt \<Longrightarrow> cmp a c \<noteq> CGt"
  using trans3[of a b c] by (cases "cmp a b"; cases "cmp b c") (auto simp: cmp_trans3_def)

lemma le_lt_trans: "cmp a b \<noteq> CGt \<Longrightarrow> cmp b c = CLt \<Longrightarrow> cmp a c = CLt"
  using trans3[of a b c] by (cases "cmp a b") (auto simp: cmp_trans3_def)

lemma lt_le_trans: "cmp a b = CLt \<Longrightarrow> cmp b c \<noteq> CGt \<Longrightarrow> cmp a c = CLt"
  using trans3[of a b c] by (cases "cmp b c") (auto simp: cmp_trans3_def)

lemma eq_cong_left: "cmp a b = CEq \<Longrightarrow> cmp a c = cmp b c"
  using trans3[of a b c] by (cases "cmp b c") (auto simp: cmp_trans3_def)

lemma eq_cong_right: "cmp a b = CEq \<Longrightarrow> cmp c a = cmp c b"
  using trans3[of c a b] by (cases "cmp c a") (auto simp: cmp_trans3_def)

lemma total: "cmp a b \<noteq> CGt \<or> cmp b a \<noteq> CGt"
  using flip[of a b] by (cases "cmp a b") auto

end

interpretation linord: comparator "cmp_of :: 'a::linorder \<Rightarrow> 'a \<Rightarrow> cmp"
  by unfold_locales (rule cmp_of_flip, rule cmp_of_trans3)

section \<open>Lexicographic comparison of lists\<close>

text \<open>The loop the source writes again and again: compare element by element up to
  the shorter length, the first difference decides, then the lengths do.\<close>

fun lex_cmp :: "('a \<Rightarrow> 'b \<Rightarrow> cmp) \<Rightarrow> 'a list \<Rightarrow> 'b list \<Rightarrow> cmp" where
  "lex_cmp f [] [] = CEq"
| "lex_cmp f [] (y # ys) = CLt"
| "lex_cmp f (x # xs) [] = CGt"
| "lex_cmp f (x # xs) (y # ys) = cmp_then (f x y) (lex_cmp f xs ys)"

lemma lex_cmp_cong [fundef_cong]:
  assumes "xs = xs'" "ys = ys'" "\<And>x y. x \<in> set xs' \<Longrightarrow> y \<in> set ys' \<Longrightarrow> f x y = g x y"
  shows "lex_cmp f xs ys = lex_cmp g xs' ys'"
proof -
  have "(\<And>x y. x \<in> set xs' \<Longrightarrow> y \<in> set ys' \<Longrightarrow> f x y = g x y) \<Longrightarrow>
        lex_cmp f xs' ys' = lex_cmp g xs' ys'"
    by (induction g xs' ys' rule: lex_cmp.induct) auto
  then show ?thesis using assms by simp
qed

lemma lex_cmp_flip:
  assumes "\<And>x y. x \<in> set xs \<Longrightarrow> y \<in> set ys \<Longrightarrow> f y x = cmp_neg (f x y)"
  shows "lex_cmp f ys xs = cmp_neg (lex_cmp f xs ys)"
  using assms by (induction f xs ys rule: lex_cmp.induct) auto

lemma lex_cmp_trans3:
  assumes "\<And>x y z. x \<in> set xs \<Longrightarrow> y \<in> set ys \<Longrightarrow> z \<in> set zs \<Longrightarrow> cmp_trans3 (f x y) (f y z) (f x z)"
  shows "cmp_trans3 (lex_cmp f xs ys) (lex_cmp f ys zs) (lex_cmp f xs zs)"
  using assms
proof (induction f xs ys arbitrary: zs rule: lex_cmp.induct)
  case (4 f x xs y ys)
  show ?case
  proof (cases zs)
    case Nil
    then show ?thesis
      by (cases "f x y"; cases "lex_cmp f xs ys") (auto simp: cmp_trans3_def)
  next
    case (Cons z zs')
    have "cmp_trans3 (lex_cmp f xs ys) (lex_cmp f ys zs') (lex_cmp f xs zs')"
      using 4 Cons by simp
    then show ?thesis using 4(2)[of x y z] Cons by (auto intro: cmp_trans3_then)
  qed
next
  case (1 f)
  then show ?case by (cases zs) (auto simp: cmp_trans3_def)
next
  case (2 f y ys)
  then show ?case by (cases zs) (auto simp: cmp_trans3_def)
next
  case (3 f x xs)
  then show ?case by (cases zs) (auto simp: cmp_trans3_def)
qed

lemma lex_cmp_append_same [simp]:
  "(\<And>x. x \<in> set p \<Longrightarrow> f x x = CEq) \<Longrightarrow> lex_cmp f (p @ xs) (p @ ys) = lex_cmp f xs ys"
  by (induction p) auto

lemma lex_cmp_eq_length: "lex_cmp f xs ys = CEq \<Longrightarrow> length xs = length ys"
  by (induction f xs ys rule: lex_cmp.induct) auto

lemma lex_cmp_eq_iff:
  "lex_cmp f xs ys = CEq \<longleftrightarrow> list_all2 (\<lambda>x y. f x y = CEq) xs ys"
  by (induction f xs ys rule: lex_cmp.induct) auto

lemma lex_cmp_cmp_of: "lex_cmp cmp_of xs ys = cmp_of xs ys"
proof (induction "cmp_of :: 'a \<Rightarrow> 'a \<Rightarrow> cmp" xs ys rule: lex_cmp.induct)
  case (4 x xs y ys)
  have "cmp_of (x # xs) (y # ys) = cmp_then (cmp_of x y) (cmp_of xs ys)"
    by (auto simp: cmp_of_def)
  with 4 show ?case by (simp only: lex_cmp.simps)
qed (auto simp: cmp_of_def)

lemma cmp_of_append:
  "length xs = length ys \<Longrightarrow> cmp_of (xs @ r) (ys @ r') = cmp_then (cmp_of xs ys) (cmp_of r r')"
  unfolding lex_cmp_cmp_of[symmetric]
  by (induction "cmp_of :: 'a \<Rightarrow> 'a \<Rightarrow> cmp" xs ys rule: lex_cmp.induct) simp_all

lemma cmp_of_Cons: "cmp_of (x # xs) (y # ys) = cmp_then (cmp_of x y) (cmp_of xs ys)"
  unfolding lex_cmp_cmp_of[symmetric] by simp

lemma cmp_of_map_antimono:
  assumes "length xs = length ys" and "\<And>x y. cmp_of (f x) (f y) = cmp_neg (cmp_of x y)"
  shows "cmp_of (map f xs) (map f ys) = cmp_neg (cmp_of xs ys)"
  using assms by (induction xs ys rule: list_induct2) (simp_all add: cmp_of_Cons)

section \<open>Results that may throw\<close>

datatype js_error =
    RangeError string
  | TypeError string
  | VarintError string
  | Base32Error string
  | DocumentIdError string
  | GenericError string
  | OccConflictError
  | HeadroomExceededError string int
  | CommitGuardRejection int string
  | StoreError string
  | ConcileError string

type_synonym 'a result = "js_error + 'a"

definition res_bind :: "'a result \<Rightarrow> ('a \<Rightarrow> 'b result) \<Rightarrow> 'b result" where
  "res_bind r f = (case r of Inl e \<Rightarrow> Inl e | Inr a \<Rightarrow> f a)"

lemma res_bind_simps [simp]: "res_bind (Inl e) f = Inl e" "res_bind (Inr a) f = f a"
  by (simp_all add: res_bind_def)

lemma res_bind_Inr_iff: "res_bind r f = Inr b \<longleftrightarrow> (\<exists>a. r = Inr a \<and> f a = Inr b)"
  by (cases r) auto

lemma res_bind_Inl_iff: "res_bind r f = Inl e \<longleftrightarrow> r = Inl e \<or> (\<exists>a. r = Inr a \<and> f a = Inl e)"
  by (cases r) auto

lemma res_bind_cong [fundef_cong]:
  "r = r' \<Longrightarrow> (\<And>a. r' = Inr a \<Longrightarrow> f a = g a) \<Longrightarrow> res_bind r f = res_bind r' g"
  by (cases r') auto

text \<open>Run a fallible function over a list left to right, stopping at the first error.\<close>

fun res_map :: "('a \<Rightarrow> 'b result) \<Rightarrow> 'a list \<Rightarrow> 'b list result" where
  "res_map f [] = Inr []"
| "res_map f (x # xs) = res_bind (f x) (\<lambda>y. res_bind (res_map f xs) (\<lambda>ys. Inr (y # ys)))"

lemma res_map_cong [fundef_cong]:
  "xs = ys \<Longrightarrow> (\<And>x. x \<in> set ys \<Longrightarrow> f x = g x) \<Longrightarrow> res_map f xs = res_map g ys"
  by (induction xs arbitrary: ys) auto

lemma res_map_Inr_iff:
  "res_map f xs = Inr ys \<longleftrightarrow> list_all2 (\<lambda>x y. f x = Inr y) xs ys"
  by (induction xs arbitrary: ys) (auto simp: res_bind_Inr_iff list_all2_Cons1)

section \<open>Insertion-ordered maps\<close>

text \<open>A JavaScript \<^verbatim>\<open>Map\<close> is an association list with distinct keys in insertion
  order: \<^verbatim>\<open>set\<close> overwrites in place or appends (\<^const>\<open>AList.update\<close>), \<^verbatim>\<open>delete\<close>
  removes the entry (\<^const>\<open>AList.delete\<close>), \<^verbatim>\<open>get\<close> is \<^const>\<open>map_of\<close>.\<close>

type_synonym ('k, 'v) jsmap = "('k \<times> 'v) list"

definition jsmap_ok :: "('k, 'v) jsmap \<Rightarrow> bool" where
  "jsmap_ok m = distinct (map fst m)"

lemma jsmap_ok_Nil [simp]: "jsmap_ok []"
  by (simp add: jsmap_ok_def)

lemma jsmap_ok_update [simp]: "jsmap_ok m \<Longrightarrow> jsmap_ok (AList.update k v m)"
  by (simp add: jsmap_ok_def distinct_update)

lemma jsmap_ok_delete [simp]: "jsmap_ok m \<Longrightarrow> jsmap_ok (AList.delete k m)"
  by (simp add: jsmap_ok_def distinct_delete)

lemma jsmap_get_update [simp]: "map_of (AList.update k v m) k' = (if k' = k then Some v else map_of m k')"
  by (simp add: update_conv')

lemma jsmap_get_delete [simp]: "map_of (AList.delete k m) k' = (if k' = k then None else map_of m k')"
  by (simp add: delete_conv')

lemma jsmap_in_set_iff: "jsmap_ok m \<Longrightarrow> (k, v) \<in> set m \<longleftrightarrow> map_of m k = Some v"
  by (simp add: jsmap_ok_def)

text \<open>Adding an element to a \<^verbatim>\<open>Set\<close> kept in insertion order.\<close>

definition set_add :: "'a \<Rightarrow> 'a list \<Rightarrow> 'a list" where
  "set_add x xs = (if x \<in> set xs then xs else xs @ [x])"

lemma set_set_add [simp]: "set (set_add x xs) = insert x (set xs)"
  by (auto simp: set_add_def)

lemma distinct_set_add [simp]: "distinct xs \<Longrightarrow> distinct (set_add x xs)"
  by (auto simp: set_add_def)

lemma map_of_filter_key:
  "distinct (map fst xs) \<Longrightarrow> map_of (filter P xs) k = (case map_of xs k of None \<Rightarrow> None | Some r \<Rightarrow> if P (k, r) then Some r else None)"
proof (induction xs)
  case (Cons x xs)
  then show ?case by (cases x) (auto split: option.splits simp: map_of_eq_None_iff dest: map_of_SomeD)
qed simp

lemma map_of_map_entry: "map_of (AList.map_entry k f al) = (map_of al)(k := map_option f (map_of al k))"
  by (induction al) (auto simp: fun_eq_iff)

lemma keys_map_entry [simp]: "map fst (AList.map_entry k f al) = map fst al"
  by (induction al) auto

end
