(* ===== verification/Js_Runtime.thy ===== *)
theory Js_Runtime
  imports Concile_Prelude
begin

text \<open>
  The parts of the JavaScript language and its standard library the program relies on:
  strings as UTF-16 code units, \<^verbatim>\<open>TextEncoder\<close>, \<^verbatim>\<open>btoa\<close>/\<^verbatim>\<open>atob\<close>, decimal
  printing and \<^verbatim>\<open>parseInt\<close>, fixed-width byte views of integers, and IEEE-754
  doubles as their 64-bit patterns.
\<close>

section \<open>Strings\<close>

type_synonym jsstring = "16 word list"

definition js :: "string \<Rightarrow> jsstring" where
  "js s = map of_char s"

definition is_high_surrogate :: "16 word \<Rightarrow> bool" where
  "is_high_surrogate u = (0xD800 \<le> u \<and> u \<le> 0xDBFF)"

definition is_low_surrogate :: "16 word \<Rightarrow> bool" where
  "is_low_surrogate u = (0xDC00 \<le> u \<and> u \<le> 0xDFFF)"

text \<open>Code points of a string; an unpaired surrogate becomes U+FFFD, as
  \<^verbatim>\<open>TextEncoder\<close> does.\<close>

fun code_points :: "jsstring \<Rightarrow> nat list" where
  "code_points [] = []"
| "code_points [u] = [if is_high_surrogate u \<or> is_low_surrogate u then 0xFFFD else unat u]"
| "code_points (u # v # us) =
     (if is_high_surrogate u \<and> is_low_surrogate v
      then (0x10000 + (unat u - 0xD800) * 0x400 + (unat v - 0xDC00)) # code_points us
      else (if is_high_surrogate u \<or> is_low_surrogate u then 0xFFFD else unat u)
           # code_points (v # us))"

definition utf8_code_point :: "nat \<Rightarrow> bytes" where
  "utf8_code_point n = map of_nat
     (if n < 0x80 then [n]
      else if n < 0x800 then [0xC0 + n div 64, 0x80 + n mod 64]
      else if n < 0x10000 then [0xE0 + n div 4096, 0x80 + (n div 64) mod 64, 0x80 + n mod 64]
      else [0xF0 + n div 262144, 0x80 + (n div 4096) mod 64, 0x80 + (n div 64) mod 64,
            0x80 + n mod 64])"

definition utf8_encode :: "jsstring \<Rightarrow> bytes" where
  "utf8_encode s = concat (map utf8_code_point (code_points s))"

fun js_split :: "16 word \<Rightarrow> jsstring \<Rightarrow> jsstring list" where
  "js_split c [] = [[]]"
| "js_split c (u # us) =
     (if u = c then [] # js_split c us
      else (case js_split c us of p # ps \<Rightarrow> (u # p) # ps | [] \<Rightarrow> [[u]]))"

lemma js_split_not_Nil [simp]: "js_split c s \<noteq> []"
  by (induction s) (auto split: list.splits)

lemma js_split_no_sep: "c \<notin> set s \<Longrightarrow> js_split c s = [s]"
  by (induction s) auto

lemma js_split_append:
  "c \<notin> set p \<Longrightarrow> js_split c (p @ c # s) = p # js_split c s"
  by (induction p) auto

text \<open>\<^verbatim>\<open>parts.join(sep)\<close>.\<close>

fun js_join :: "16 word \<Rightarrow> jsstring list \<Rightarrow> jsstring" where
  "js_join c [] = []"
| "js_join c [p] = p"
| "js_join c (p # q # ps) = p @ c # js_join c (q # ps)"

lemma js_join_split [simp]: "js_join c (js_split c s) = s"
proof (induction s)
  case (Cons u us)
  obtain p ps where "js_split c us = p # ps" by (cases "js_split c us") auto
  with Cons show ?case by (cases ps) auto
qed simp

text \<open>The strings before and after the first occurrence of a character
  (\<^verbatim>\<open>indexOf\<close> and two \<^verbatim>\<open>slice\<close>s).\<close>

fun js_cut :: "16 word \<Rightarrow> jsstring \<Rightarrow> (jsstring \<times> jsstring) option" where
  "js_cut c [] = None"
| "js_cut c (u # us) = (if u = c then Some ([], us)
     else map_option (\<lambda>(p, q). (u # p, q)) (js_cut c us))"

lemma js_cut_append [simp]: "c \<notin> set p \<Longrightarrow> js_cut c (p @ c # s) = Some (p, s)"
  by (induction p) auto

lemma js_cut_SomeD: "js_cut c s = Some (p, q) \<Longrightarrow> s = p @ c # q \<and> c \<notin> set p"
  by (induction s arbitrary: p) (auto split: if_splits)

section \<open>Decimal numbers\<close>

fun nat_dec :: "nat \<Rightarrow> jsstring" where
  "nat_dec n = (if n < 10 then [48 + of_nat n] else nat_dec (n div 10) @ [48 + of_nat (n mod 10)])"

declare nat_dec.simps [simp del]

definition int_dec :: "int \<Rightarrow> jsstring" where
  "int_dec i = (if i < 0 then 45 # nat_dec (nat (- i)) else nat_dec (nat i))"

definition is_digit :: "16 word \<Rightarrow> bool" where
  "is_digit u = (48 \<le> u \<and> u \<le> 57)"

definition is_js_space :: "16 word \<Rightarrow> bool" where
  "is_js_space u = (u = 32 \<or> (9 \<le> u \<and> u \<le> 13) \<or> u = 0xA0 \<or> u = 0xFEFF \<or> u = 0x1680 \<or>
     (0x2000 \<le> u \<and> u \<le> 0x200A) \<or> u = 0x2028 \<or> u = 0x2029 \<or> u = 0x202F \<or> u = 0x205F \<or> u = 0x3000)"

definition digits_value :: "jsstring \<Rightarrow> nat" where
  "digits_value ds = foldl (\<lambda>n d. n * 10 + unat (d - 48)) 0 ds"

text \<open>\<^verbatim>\<open>Number.parseInt(s, 10)\<close> on integers a double holds exactly; \<open>None\<close> is NaN.\<close>

definition parseInt10 :: "jsstring \<Rightarrow> int option" where
  "parseInt10 s =
     (let t = dropWhile is_js_space s;
          neg = (t \<noteq> [] \<and> hd t = 45);
          u = (if t \<noteq> [] \<and> (hd t = 45 \<or> hd t = 43) then tl t else t);
          ds = takeWhile is_digit u
      in if ds = [] then None
         else Some (if neg then - int (digits_value ds) else int (digits_value ds)))"

lemma unat_of_nat_small: "k < 2 ^ LENGTH('a) \<Longrightarrow> unat (of_nat k :: 'a::len word) = k"
  by (simp add: unat_of_nat take_bit_nat_eq_self)

lemma digit_word:
  assumes "k < 10"
  shows "is_digit (48 + of_nat k) \<and> unat ((48 + of_nat k :: 16 word) - 48) = k"
proof -
  have "(48 + of_nat k :: 16 word) = of_nat (48 + k)" by simp
  then have "unat (48 + of_nat k :: 16 word) = 48 + k"
    using assms unat_of_nat_small[of "48 + k", where 'a = 16] by simp
  then show ?thesis
    using assms unat_of_nat_small[of k, where 'a = 16] by (simp add: is_digit_def word_le_nat_alt)
qed

lemma nat_dec_digits: "u \<in> set (nat_dec n) \<Longrightarrow> is_digit u"
proof (induction n rule: nat_dec.induct)
  case (1 n)
  show ?case
  proof (cases "n < 10")
    case True
    then show ?thesis using "1.prems" digit_word[of n] by (simp add: nat_dec.simps[of n])
  next
    case False
    then show ?thesis using "1.prems" "1.IH" digit_word[of "n mod 10"]
      by (auto simp: nat_dec.simps[of n])
  qed
qed

lemma nat_dec_not_Nil [simp]: "nat_dec n \<noteq> []"
  by (subst nat_dec.simps) simp

lemma digits_value_snoc: "digits_value (ds @ [d]) = digits_value ds * 10 + unat (d - 48)"
  by (simp add: digits_value_def)

lemma digits_value_nat_dec [simp]: "digits_value (nat_dec n) = n"
proof (induction n rule: nat_dec.induct)
  case (1 n)
  show ?case
  proof (cases "n < 10")
    case True
    then have "digits_value (nat_dec n) = digits_value ([] @ [48 + of_nat n])"
      by (simp add: nat_dec.simps[of n])
    then show ?thesis using True digit_word[of n] unfolding digits_value_snoc
      by (simp add: digits_value_def)
  next
    case False
    then have "nat_dec n = nat_dec (n div 10) @ [48 + of_nat (n mod 10)]"
      by (simp add: nat_dec.simps[of n])
    then show ?thesis using False "1.IH" digit_word[of "n mod 10"]
      by (simp add: digits_value_snoc)
  qed
qed

lemma nat_dec_inj [simp]: "nat_dec m = nat_dec n \<longleftrightarrow> m = n"
  by (metis digits_value_nat_dec)

lemma takeWhile_digits [simp]: "takeWhile is_digit (nat_dec n) = nat_dec n"
  by (rule takeWhile_eq_all_conv[THEN iffD2]) (auto dest: nat_dec_digits)

lemma nat_dec_hd: "is_digit (hd (nat_dec n))"
  using nat_dec_digits[of "hd (nat_dec n)" n] by simp

lemma digit_not_special: "is_digit u \<Longrightarrow> \<not> is_js_space u \<and> u \<noteq> 45 \<and> u \<noteq> 43"
  unfolding is_digit_def is_js_space_def by (auto simp: word_le_nat_alt word_unat_eq_iff)

lemma parseInt10_nat_dec [simp]: "parseInt10 (nat_dec n) = Some (int n)"
proof -
  have "dropWhile is_js_space (nat_dec n) = nat_dec n"
    using digit_not_special[OF nat_dec_hd[of n]] nat_dec_not_Nil[of n]
    by (cases "nat_dec n") auto
  then show ?thesis using digit_not_special[OF nat_dec_hd[of n]]
    by (simp add: parseInt10_def Let_def)
qed

section \<open>Base64\<close>

definition b64_char :: "nat \<Rightarrow> 16 word" where
  "b64_char n = of_nat (if n < 26 then 65 + n else if n < 52 then 71 + n
     else if n < 62 then n - 4 else if n = 62 then 43 else 47)"

definition b64_value :: "16 word \<Rightarrow> nat option" where
  "b64_value u = (let c = unat u in
     if 65 \<le> c \<and> c \<le> 90 then Some (c - 65)
     else if 97 \<le> c \<and> c \<le> 122 then Some (c - 71)
     else if 48 \<le> c \<and> c \<le> 57 then Some (c + 4)
     else if c = 43 then Some 62 else if c = 47 then Some 63 else None)"

text \<open>\<^verbatim>\<open>btoa\<close> of a string whose code units are the given bytes.\<close>

fun btoa :: "bytes \<Rightarrow> jsstring" where
  "btoa [] = []"
| "btoa [a] = [b64_char (unat a div 4), b64_char ((unat a mod 4) * 16), 61, 61]"
| "btoa [a, b] = [b64_char (unat a div 4), b64_char ((unat a mod 4) * 16 + unat b div 16),
     b64_char ((unat b mod 16) * 4), 61]"
| "btoa (a # b # c # r) = b64_char (unat a div 4) # b64_char ((unat a mod 4) * 16 + unat b div 16)
     # b64_char ((unat b mod 16) * 4 + unat c div 64) # b64_char (unat c mod 64) # btoa r"

fun sextets_to_bytes :: "nat list \<Rightarrow> bytes" where
  "sextets_to_bytes (a # b # c # d # r) =
     of_nat (a * 4 + b div 16) # of_nat ((b mod 16) * 16 + c div 4) # of_nat ((c mod 4) * 64 + d)
     # sextets_to_bytes r"
| "sextets_to_bytes [a, b, c] = [of_nat (a * 4 + b div 16), of_nat ((b mod 16) * 16 + c div 4)]"
| "sextets_to_bytes [a, b] = [of_nat (a * 4 + b div 16)]"
| "sextets_to_bytes _ = []"

fun b64_values :: "jsstring \<Rightarrow> nat list option" where
  "b64_values [] = Some []"
| "b64_values (u # us) =
     (case b64_value u of None \<Rightarrow> None
      | Some v \<Rightarrow> (case b64_values us of None \<Rightarrow> None | Some vs \<Rightarrow> Some (v # vs)))"

definition strip_padding :: "jsstring \<Rightarrow> jsstring" where
  "strip_padding s =
     (if length s mod 4 = 0 \<and> s \<noteq> [] \<and> last s = 61
      then (let t = butlast s in if t \<noteq> [] \<and> last t = 61 then butlast t else t)
      else s)"

definition is_ascii_space :: "16 word \<Rightarrow> bool" where
  "is_ascii_space u = (u = 9 \<or> u = 10 \<or> u = 12 \<or> u = 13 \<or> u = 32)"

text \<open>\<^verbatim>\<open>atob\<close>: the forgiving base64 decoder of the web platform, which drops ASCII
  whitespace and at most two padding characters and refuses anything else outside the
  alphabet.\<close>

definition atob :: "jsstring \<Rightarrow> bytes result" where
  "atob s =
     (let t = strip_padding (filter (\<lambda>u. \<not> is_ascii_space u) s)
      in if length t mod 4 = 1 then Inl (GenericError ''InvalidCharacterError'')
         else (case b64_values t of None \<Rightarrow> Inl (GenericError ''InvalidCharacterError'')
               | Some vs \<Rightarrow> Inr (sextets_to_bytes vs)))"

lemma unat_b64_char:
  "n < 64 \<Longrightarrow> unat (b64_char n) = (if n < 26 then 65 + n else if n < 52 then 71 + n
     else if n < 62 then n - 4 else if n = 62 then 43 else 47)"
  unfolding b64_char_def by (subst unat_of_nat_small) auto

lemma b64_value_char [simp]: "n < 64 \<Longrightarrow> b64_value (b64_char n) = Some n"
  by (auto simp: b64_value_def unat_b64_char Let_def)

lemma b64_char_plain:
  assumes "n < 64" shows "b64_char n \<noteq> 61" "\<not> is_ascii_space (b64_char n)"
  using assms unat_b64_char[OF assms]
  by (auto simp: is_ascii_space_def word_unat_eq_iff split: if_splits)

lemma byte_bounds: "unat (b :: byte) < 256"
  using unsigned_less[of b] by simp

lemma byte_parts [simp]:
  "unat (b :: byte) div 4 < 64" "(unat b mod 4) * 16 < 64" "(unat b mod 16) * 4 < 64"
  "unat b mod 64 < 64"
  "(unat b mod 4) * 16 + unat (c :: byte) div 16 < 64" "(unat b mod 16) * 4 + unat c div 64 < 64"
proof -
  have "unat b div 4 < 64" "unat c div 16 < 16" "unat c div 64 < 4"
    using byte_bounds[of b] byte_bounds[of c] by simp_all
  moreover have "unat b mod 4 < 4" "unat b mod 16 < 16" "unat b mod 64 < 64" by simp_all
  ultimately show "unat b div 4 < 64" "(unat b mod 4) * 16 < 64" "(unat b mod 16) * 4 < 64"
    "unat b mod 64 < 64" "(unat b mod 4) * 16 + unat c div 16 < 64"
    "(unat b mod 16) * 4 + unat c div 64 < 64"
    by linarith+
qed

text \<open>The characters of an encoding without its padding.\<close>

fun btoa_body :: "bytes \<Rightarrow> nat list" where
  "btoa_body [] = []"
| "btoa_body [a] = [unat a div 4, (unat a mod 4) * 16]"
| "btoa_body [a, b] = [unat a div 4, (unat a mod 4) * 16 + unat b div 16, (unat b mod 16) * 4]"
| "btoa_body (a # b # c # r) = unat a div 4 # ((unat a mod 4) * 16 + unat b div 16)
     # ((unat b mod 16) * 4 + unat c div 64) # (unat c mod 64) # btoa_body r"

lemma btoa_body_small: "\<forall>v \<in> set (btoa_body bs). v < 64"
  by (induction bs rule: btoa_body.induct) simp_all

lemma b64_values_map: "\<forall>v \<in> set vs. v < 64 \<Longrightarrow> b64_values (map b64_char vs) = Some vs"
  by (induction vs) auto

lemma btoa_eq_body:
  "btoa bs = map b64_char (btoa_body bs) @ replicate ((3 - length bs mod 3) mod 3) 61"
  by (induction bs rule: btoa.induct) (auto simp: numeral_2_eq_2)

lemma length_btoa_body: "length (btoa_body bs) = (length bs div 3) * 4 + (if length bs mod 3 = 0 then 0 else length bs mod 3 + 1)"
proof (induction bs rule: btoa_body.induct)
  case (4 a b c r)
  have "(3 + n) div 3 = Suc (n div 3)" for n :: nat by simp
  with 4 show ?case by auto
qed simp_all

lemma byte_join:
  "(of_nat ((unat (a :: byte) div 4) * 4 + ((unat a mod 4) * 16 + k) div 16) :: byte) = a" if "k < 16"
proof -
  have "((unat a mod 4) * 16 + k) div 16 = unat a mod 4" using that by simp
  then show ?thesis by (simp add: div_mult_mod_eq)
qed

lemma byte_join2:
  "(of_nat ((((unat (a :: byte) mod 4) * 16 + unat b div 16) mod 16) * 16
      + ((unat b mod 16) * 4 + k) div 4) :: byte) = b" if "k < 4"
proof -
  have "((unat a mod 4) * 16 + unat b div 16) mod 16 = unat b div 16"
    "((unat b mod 16) * 4 + k) div 4 = unat b mod 16"
    using that byte_bounds[of b] by simp_all
  then show ?thesis by (simp add: div_mult_mod_eq)
qed

lemma byte_join3:
  "(of_nat ((((unat (b :: byte) mod 16) * 4 + unat (c :: byte) div 64) mod 4) * 64 + unat c mod 64) :: byte) = c"
proof -
  have "((unat b mod 16) * 4 + unat c div 64) mod 4 = unat c div 64"
    using byte_bounds[of c] by simp
  then show ?thesis by (simp add: div_mult_mod_eq)
qed

lemma sextets_btoa_body [simp]: "sextets_to_bytes (btoa_body bs) = bs"
proof (induction bs rule: btoa_body.induct)
  case (2 a)
  then show ?case using byte_join[of 0 a] by simp
next
  case (3 a b)
  then show ?case using byte_join[of "unat b div 16" a] byte_join2[of 0 a b] byte_bounds[of b] by simp
next
  case (4 a b c r)
  then show ?case
    using byte_join[of "unat b div 16" a] byte_join2[of "unat c div 64" a b] byte_join3[of b c]
      byte_bounds[of b] byte_bounds[of c] by simp
qed simp

lemma strip_padding_btoa: "strip_padding (btoa bs) = map b64_char (btoa_body bs)"
proof -
  have plain: "v \<in> set (btoa_body bs) \<Longrightarrow> b64_char v \<noteq> 61" for v
    using btoa_body_small b64_char_plain by blast
  consider "length bs mod 3 = 0" | "length bs mod 3 = 1" | "length bs mod 3 = 2" by linarith
  then show ?thesis
  proof cases
    case 1
    then show ?thesis using plain
      by (auto simp: strip_padding_def btoa_eq_body last_map)
  next
    case 2
    moreover from this have "btoa_body bs \<noteq> []" by (auto simp: length_btoa_body simp flip: length_0_conv)
    ultimately show ?thesis
      by (simp add: strip_padding_def btoa_eq_body length_btoa_body numeral_2_eq_2 butlast_append Let_def)
  next
    case 3
    moreover from this have "btoa_body bs \<noteq> []" by (auto simp: length_btoa_body simp flip: length_0_conv)
    ultimately show ?thesis using plain
      by (auto simp: strip_padding_def btoa_eq_body length_btoa_body butlast_append Let_def last_map)
  qed
qed

lemma btoa_no_space: "filter (\<lambda>u. \<not> is_ascii_space u) (btoa bs) = btoa bs"
  using btoa_body_small[of bs] b64_char_plain
  by (auto simp: filter_id_conv btoa_eq_body is_ascii_space_def[of 61])

theorem atob_btoa [simp, codec_simps]: "atob (btoa bs) = Inr bs"
proof -
  have "length (btoa_body bs) mod 4 \<noteq> 1"
    by (simp add: length_btoa_body)
  then show ?thesis
    by (simp add: atob_def btoa_no_space strip_padding_btoa Let_def
        b64_values_map[OF btoa_body_small])
qed

lemma btoa_inj [simp]: "btoa a = btoa b \<longleftrightarrow> a = b"
  by (metis atob_btoa sum.inject(2))

end
