(* ===== verification/Doc_Ids.thy ===== *)
theory Doc_Ids
  imports Js_Runtime
begin

text \<open>
  \<^verbatim>\<open>packages/id-codec/src\<close>: Crockford base32, Fletcher-16, the varint of the table number and
  the developer-facing document id built from them.  The base32 accumulator is a 32-bit word, as
  JavaScript's shifts make it, so the bits it loses at the top are part of the model.
\<close>

section \<open>Base32 (base32.ts)\<close>

definition CROCKFORD_ALPHABET :: jsstring where
  "CROCKFORD_ALPHABET = js ''0123456789abcdefghjkmnpqrstvwxyz''"

definition toUpperCase :: "16 word \<Rightarrow> 16 word" where
  "toUpperCase c = (if 97 \<le> c \<and> c \<le> 122 then c - 32 else c)"

text \<open>The \<^verbatim>\<open>DECODE\<close> table: every letter of the alphabet in both cases, then the
  look-alikes.\<close>

definition DECODE :: "(16 word, nat) jsmap" where
  "DECODE =
     foldl (\<lambda>m (k, v). AList.update k v m) []
       (concat (map (\<lambda>i. [(CROCKFORD_ALPHABET ! i, i), (toUpperCase (CROCKFORD_ALPHABET ! i), i)]) [0..<32])
        @ [(105, 1), (73, 1), (108, 1), (76, 1), (111, 0), (79, 0)])"

text \<open>The inner \<^verbatim>\<open>while (bits >= 5)\<close> loop: the digits it emits and the bits left.\<close>

function b32_flush :: "32 word \<Rightarrow> nat \<Rightarrow> nat list \<times> nat" where
  "b32_flush v bits =
     (if bits \<ge> 5
      then (let d = unat ((drop_bit (bits - 5) v) AND 0x1f);
                (ds, rest) = b32_flush v (bits - 5)
            in (d # ds, rest))
      else ([], bits))"
  by pat_completeness auto

termination
  by (relation "measure snd") auto

fun b32_digits :: "32 word \<Rightarrow> nat \<Rightarrow> bytes \<Rightarrow> nat list" where
  "b32_digits v bits [] = (if bits > 0 then [unat ((push_bit (5 - bits) v) AND 0x1f)] else [])"
| "b32_digits v bits (b # bs) =
     (let v' = (push_bit 8 v) OR ucast b;
          (ds, rest) = b32_flush v' (bits + 8)
      in ds @ b32_digits v' rest bs)"

definition base32Encode :: "bytes \<Rightarrow> jsstring" where
  "base32Encode bs = map (\<lambda>d. CROCKFORD_ALPHABET ! d) (b32_digits 0 0 bs)"

fun b32_decode_loop :: "32 word \<Rightarrow> nat \<Rightarrow> jsstring \<Rightarrow> bytes result" where
  "b32_decode_loop v bits [] =
     (if bits > 0 \<and> v AND (push_bit bits 1 - 1) \<noteq> 0
      then Inl (Base32Error ''non-canonical base32 padding bits'') else Inr [])"
| "b32_decode_loop v bits (ch # text) =
     (case map_of DECODE ch of
        None \<Rightarrow> Inl (Base32Error ''invalid base32 character'')
      | Some d \<Rightarrow>
          (let v' = (push_bit 5 v) OR of_nat d;
               bits' = bits + 5
           in if bits' \<ge> 8
              then res_bind (b32_decode_loop v' (bits' - 8) text)
                     (\<lambda>out. Inr (ucast ((drop_bit (bits' - 8) v') AND 0xff) # out))
              else b32_decode_loop v' bits' text))"

definition base32Decode :: "jsstring \<Rightarrow> bytes result" where
  "base32Decode text = b32_decode_loop 0 0 text"

definition isValidBase32 :: "jsstring \<Rightarrow> bool" where
  "isValidBase32 text = list_all (\<lambda>ch. map_of DECODE ch \<noteq> None) text"

section \<open>Fletcher-16 (checksum.ts)\<close>

fun fletcher_loop :: "nat \<Rightarrow> nat \<Rightarrow> bytes \<Rightarrow> nat \<times> nat" where
  "fletcher_loop sum1 sum2 [] = (sum1, sum2)"
| "fletcher_loop sum1 sum2 (b # bs) =
     (let s1 = (sum1 + unat b) mod 255; s2 = (sum2 + s1) mod 255 in fletcher_loop s1 s2 bs)"

definition fletcher16 :: "bytes \<Rightarrow> nat" where
  "fletcher16 bs = (let (sum1, sum2) = fletcher_loop 0 0 bs in (push_bit 8 sum2) OR sum1)"

definition verifyFletcher16 :: "bytes \<Rightarrow> nat \<Rightarrow> bool" where
  "verifyFletcher16 bs checksum = (fletcher16 bs = checksum)"

section \<open>Varint (varint.ts)\<close>

definition UINT32_MAX :: nat where "UINT32_MAX = 0xffffffff"

fun varint_loop :: "nat \<Rightarrow> bytes" where
  "varint_loop v =
     (let b = of_nat (v mod 128); v' = v div 128
      in if v' > 0 then (b OR 0x80) # varint_loop v' else [b])"

declare varint_loop.simps [simp del]

text \<open>The argument of \<open>varintEncode\<close> is a number; the model takes the integers among them, the
  others fail the same guard.\<close>

definition varintEncode :: "int \<Rightarrow> bytes result" where
  "varintEncode value =
     (if value < 0 \<or> value > int UINT32_MAX then Inl (VarintError ''varint value out of uint32 range'')
      else Inr (varint_loop (nat value)))"

function varint_decode_loop :: "bytes \<Rightarrow> nat \<Rightarrow> nat \<Rightarrow> nat \<Rightarrow> (nat \<times> nat) result" where
  "varint_decode_loop bs pos shift acc =
     (if pos \<ge> length bs then Inl (VarintError ''varint truncated'')
      else (let b = bs ! pos;
                acc' = acc + unat (b AND 0x7f) * 2 ^ shift;
                pos' = pos + 1
            in if b AND 0x80 = 0 then Inr (acc', pos')
               else if shift + 7 > 28 then Inl (VarintError ''varint exceeds uint32'')
               else varint_decode_loop bs pos' (shift + 7) acc'))"
  by pat_completeness auto

termination
  by (relation "measure (\<lambda>(bs, pos, _, _). length bs - pos)") auto

declare varint_decode_loop.simps [simp del]

definition varintDecode :: "bytes \<Rightarrow> nat \<Rightarrow> (nat \<times> nat) result" where
  "varintDecode bs offset =
     res_bind (varint_decode_loop bs offset 0 0) (\<lambda>(value, pos).
       if value > UINT32_MAX then Inl (VarintError ''varint exceeds uint32'')
       else Inr (value, pos - offset))"

definition varintEncodedLength :: "int \<Rightarrow> nat result" where
  "varintEncodedLength value = res_bind (varintEncode value) (\<lambda>bs. Inr (length bs))"

section \<open>Document ids (document-id.ts)\<close>

definition INTERNAL_ID_BYTES :: nat where "INTERNAL_ID_BYTES = 16"
definition CHECKSUM_BYTES :: nat where "CHECKSUM_BYTES = 2"

record internal_document_id =
  tableNumber :: int
  internalId :: bytes

definition encodeDocumentId :: "int \<Rightarrow> bytes \<Rightarrow> jsstring result" where
  "encodeDocumentId tn iid =
     (if length iid \<noteq> INTERNAL_ID_BYTES then Inl (DocumentIdError ''internalId must be 16 bytes'')
      else res_bind (varintEncode tn) (\<lambda>vb.
        (let prefix = vb @ iid;
             checksum = fletcher16 prefix;
             checksumBytes = [of_nat ((drop_bit 8 checksum) AND 0xff), of_nat (checksum AND 0xff)]
         in Inr (base32Encode (prefix @ checksumBytes)))))"

definition encodeInternalDocumentId :: "internal_document_id \<Rightarrow> jsstring result" where
  "encodeInternalDocumentId i = encodeDocumentId (tableNumber i) (internalId i)"

text \<open>\<^verbatim>\<open>crypto.getRandomValues\<close> is the argument \<open>rnd\<close>: the random bytes it fills in.\<close>

definition newDocumentId :: "int \<Rightarrow> bytes \<Rightarrow> internal_document_id" where
  "newDocumentId tn rnd = \<lparr>tableNumber = tn, internalId = take INTERNAL_ID_BYTES rnd\<rparr>"

definition mintEncodedDocumentId :: "int \<Rightarrow> bytes \<Rightarrow> jsstring result" where
  "mintEncodedDocumentId tn rnd = encodeInternalDocumentId (newDocumentId tn rnd)"

definition decodeDocumentId :: "jsstring \<Rightarrow> internal_document_id result" where
  "decodeDocumentId encoded =
     (case base32Decode encoded of
        Inl e \<Rightarrow> Inl (DocumentIdError (case e of Base32Error m \<Rightarrow> m | _ \<Rightarrow> ''invalid base32''))
      | Inr bs \<Rightarrow>
          (case varintDecode bs 0 of
             Inl _ \<Rightarrow> Inl (DocumentIdError ''invalid table number'')
           | Inr (tn, bytesRead) \<Rightarrow>
               (let internalIdEnd = bytesRead + INTERNAL_ID_BYTES
                in if length bs \<noteq> internalIdEnd + CHECKSUM_BYTES then Inl (DocumentIdError ''incorrect id length'')
                   else (let iid = take (internalIdEnd - bytesRead) (drop bytesRead bs);
                             checksum = (push_bit 8 (unat (bs ! internalIdEnd))) OR unat (bs ! (internalIdEnd + 1));
                             prefix = take internalIdEnd bs
                         in if \<not> verifyFletcher16 prefix checksum then Inl (DocumentIdError ''checksum mismatch'')
                            else Inr \<lparr>tableNumber = int tn, internalId = iid\<rparr>))))"

definition tryDecodeDocumentId :: "jsstring \<Rightarrow> internal_document_id option" where
  "tryDecodeDocumentId encoded = (case decodeDocumentId encoded of Inl _ \<Rightarrow> None | Inr d \<Rightarrow> Some d)"

definition isValidDocumentId :: "jsstring \<Rightarrow> int option \<Rightarrow> bool" where
  "isValidDocumentId encoded expectedTableNumber =
     (case tryDecodeDocumentId encoded of
        None \<Rightarrow> False
      | Some d \<Rightarrow> (case expectedTableNumber of None \<Rightarrow> True | Some t \<Rightarrow> tableNumber d = t))"

definition getEncodedLength :: "int \<Rightarrow> nat result" where
  "getEncodedLength tn =
     res_bind (varintEncodedLength tn) (\<lambda>n.
       (let byteLen = n + INTERNAL_ID_BYTES + CHECKSUM_BYTES in Inr ((byteLen * 8 + 4) div 5)))"

text \<open>Map keys: \<^verbatim>\<open>toString(16).padStart(2, "0")\<close> per byte, and \<^verbatim>\<open>Number.parseInt(_, 16)\<close> back.\<close>

definition hex_digit :: "nat \<Rightarrow> 16 word" where
  "hex_digit n = of_nat (if n < 10 then 48 + n else 87 + n)"

definition internalIdToHex :: "bytes \<Rightarrow> jsstring" where
  "internalIdToHex iid = concat (map (\<lambda>b. [hex_digit (unat b div 16), hex_digit (unat b mod 16)]) iid)"

definition hex_value :: "16 word \<Rightarrow> nat option" where
  "hex_value c =
     (if 48 \<le> c \<and> c \<le> 57 then Some (unat c - 48)
      else if 97 \<le> c \<and> c \<le> 102 then Some (unat c - 87)
      else if 65 \<le> c \<and> c \<le> 70 then Some (unat c - 55)
      else None)"

definition parseInt16 :: "jsstring \<Rightarrow> int option" where
  "parseInt16 s =
     (let t = dropWhile is_js_space s;
          neg = (t \<noteq> [] \<and> hd t = 45);
          u = (if t \<noteq> [] \<and> (hd t = 45 \<or> hd t = 43) then tl t else t);
          w = (if take 2 u = [48, 120] \<or> take 2 u = [48, 88] then drop 2 u else u);
          ds = takeWhile (\<lambda>c. hex_value c \<noteq> None) w;
          n = foldl (\<lambda>n c. n * 16 + the (hex_value c)) 0 ds
      in if ds = [] then None else Some (if neg then - int n else int n))"

fun hex_pairs :: "jsstring \<Rightarrow> bytes result" where
  "hex_pairs (a # b # s) =
     (case parseInt16 [a, b] of
        None \<Rightarrow> Inl (DocumentIdError ''invalid hex'')
      | Some n \<Rightarrow> res_bind (hex_pairs s) (\<lambda>out. Inr (of_int n # out)))"
| "hex_pairs _ = Inr []"

definition hexToInternalId :: "jsstring \<Rightarrow> bytes result" where
  "hexToInternalId hex =
     (if length hex mod 2 \<noteq> 0 then Inl (DocumentIdError ''odd-length hex'') else hex_pairs hex)"

definition documentIdKey :: "internal_document_id \<Rightarrow> jsstring" where
  "documentIdKey i = int_dec (tableNumber i) @ [58] @ internalIdToHex (internalId i)"

definition parseDocumentIdKey :: "jsstring \<Rightarrow> internal_document_id result" where
  "parseDocumentIdKey key =
     (case js_cut 58 key of
        None \<Rightarrow> Inl (DocumentIdError ''invalid document id key'')
      | Some (l, r) \<Rightarrow>
          (case parseInt10 l of
             None \<Rightarrow> Inl (DocumentIdError ''invalid table number in key'')
           | Some tn \<Rightarrow> res_bind (hexToInternalId r) (\<lambda>iid. Inr \<lparr>tableNumber = tn, internalId = iid\<rparr>)))"

definition documentIdsEqual :: "internal_document_id \<Rightarrow> internal_document_id \<Rightarrow> bool" where
  "documentIdsEqual a b =
     (if tableNumber a \<noteq> tableNumber b \<or> length (internalId a) \<noteq> length (internalId b) then False
      else list_all2 (=) (internalId a) (internalId b))"

section \<open>Base32 as regrouping of bits\<close>

text \<open>The low \<open>k\<close> bits of a word, most significant first.\<close>

definition to_bits :: "nat \<Rightarrow> 'a::len word \<Rightarrow> bool list" where
  "to_bits k w = map (bit w) (rev [0..<k])"

lemma length_to_bits [simp]: "length (to_bits k w) = k"
  by (simp add: to_bits_def)

lemma to_bits_0 [simp]: "to_bits 0 w = []"
  by (simp add: to_bits_def)

lemma nth_to_bits: "i < k \<Longrightarrow> to_bits k w ! i = bit w (k - 1 - i)"
  by (simp add: to_bits_def rev_nth)

lemma to_bits_shift_in:
  fixes v x :: "32 word"
  assumes "k + m \<le> 32" and "\<And>n. m \<le> n \<Longrightarrow> \<not> bit x n"
  shows "to_bits (k + m) (push_bit m v OR x) = to_bits k v @ to_bits m x"
proof (rule nth_equalityI)
  fix i assume i: "i < length (to_bits (k + m) (push_bit m v OR x))"
  define e where "e = k + m - 1 - i"
  have l: "to_bits (k + m) (push_bit m v OR x) ! i = bit (push_bit m v OR x) e"
    using i by (simp add: nth_to_bits e_def)
  show "to_bits (k + m) (push_bit m v OR x) ! i = (to_bits k v @ to_bits m x) ! i"
  proof (cases "i < k")
    case True
    then have "m \<le> e" "e < 32" "e - m = k - 1 - i" using i assms(1) by (auto simp: e_def)
    then show ?thesis using True assms(2) unfolding l
      by (simp add: nth_append nth_to_bits bit_or_iff bit_push_bit_iff)
  next
    case False
    then have "e < m" "e = m - 1 - (i - k)" using i by (auto simp: e_def)
    then show ?thesis using False i unfolding l
      by (simp add: nth_append nth_to_bits bit_or_iff bit_push_bit_iff)
  qed
qed simp

lemma to_bits_ucast: "to_bits 8 (ucast (b :: byte) :: 32 word) = to_bits 8 b"
  by (rule nth_equalityI) (auto simp: nth_to_bits bit_ucast_iff)

lemma bit_byte_high: "8 \<le> n \<Longrightarrow> \<not> bit (ucast (b :: byte) :: 32 word) n"
  by (auto simp: bit_ucast_iff dest: bit_imp_le_length)

lemma bit_digit_high: "d < 2 ^ m \<Longrightarrow> m \<le> n \<Longrightarrow> \<not> bit (of_nat d :: 32 word) n"
  by (auto simp: bit_of_nat_iff bit_nat_def) (metis div_less dvd_0_right less_le_trans one_le_numeral power_increasing)

lemma to_bits_field:
  fixes v :: "'a::len word"
  assumes "m \<le> k"
  shows "to_bits m (drop_bit (k - m) v AND mask m) = take m (to_bits k v)"
  by (rule nth_equalityI)
    (use assms in \<open>auto simp: nth_to_bits bit_and_iff bit_drop_bit_eq bit_mask_iff dest: bit_imp_le_length\<close>)

lemma to_bits_drop: "m \<le> k \<Longrightarrow> drop m (to_bits k v) = to_bits (k - m) v"
  by (rule nth_equalityI) (auto simp: nth_to_bits)

lemma to_bits_pad:
  fixes v :: "32 word"
  assumes "k \<le> 5"
  shows "to_bits 5 (push_bit (5 - k) v AND mask 5) = to_bits k v @ replicate (5 - k) False"
  by (rule nth_equalityI)
    (use assms in \<open>auto simp: nth_to_bits nth_append bit_and_iff bit_push_bit_iff bit_mask_iff\<close>)

lemma to_bits_inj:
  fixes v w :: "'a::len word"
  assumes "to_bits k v = to_bits k w" and "\<And>n. k \<le> n \<Longrightarrow> \<not> bit v n" and "\<And>n. k \<le> n \<Longrightarrow> \<not> bit w n"
  shows "v = w"
proof (rule bit_eqI)
  fix n
  have "bit v n = bit w n" if "n < k"
    using arg_cong[OF assms(1), of "\<lambda>l. l ! (k - 1 - n)"] that by (simp add: nth_to_bits)
  then show "bit v n = bit w n" using assms(2,3)[of n] by (cases "n < k") auto
qed

lemma mask_numerals: "(0x1f :: 'a::len word) = mask 5" "(0xff :: 'a::len word) = mask 8"
  by (simp_all add: mask_eq_exp_minus_1)

definition digit_bits :: "nat list \<Rightarrow> bool list" where
  "digit_bits ds = concat (map (\<lambda>d. to_bits 5 (of_nat d :: 32 word)) ds)"

definition byte_bits :: "bytes \<Rightarrow> bool list" where
  "byte_bits bs = concat (map (to_bits 8) bs)"

lemma digit_bits_simps [simp]:
  "digit_bits [] = []" "digit_bits (d # ds) = to_bits 5 (of_nat d :: 32 word) @ digit_bits ds"
  "digit_bits (ds @ es) = digit_bits ds @ digit_bits es"
  by (simp_all add: digit_bits_def)

lemma byte_bits_simps [simp]:
  "byte_bits [] = []" "byte_bits (b # bs) = to_bits 8 b @ byte_bits bs"
  by (simp_all add: byte_bits_def)

lemma length_digit_bits [simp]: "length (digit_bits ds) = 5 * length ds"
  by (induction ds) auto

lemma length_byte_bits [simp]: "length (byte_bits bs) = 8 * length bs"
  by (induction bs) auto

lemma digit_lt: "unat (w AND (mask 5 :: 32 word)) < 32"
proof -
  have "w AND (mask 5 :: 32 word) \<le> mask 5" by (rule word_and_le1)
  then have "unat (w AND (mask 5 :: 32 word)) \<le> 31" by (simp add: word_le_nat_alt mask_eq_exp_minus_1)
  then show ?thesis by simp
qed

declare b32_flush.simps [simp del]

lemma b32_flush_spec:
  "b32_flush v bits = (ds, rest) \<Longrightarrow>
     rest < 5 \<and> digit_bits ds @ to_bits rest v = to_bits bits v \<and> (\<forall>d \<in> set ds. d < 32)"
proof (induction v bits arbitrary: ds rest rule: b32_flush.induct)
  case (1 v bits)
  show ?case
  proof (cases "5 \<le> bits")
    case True
    obtain ds' where f: "b32_flush v (bits - 5) = (ds', rest)"
      and ds: "ds = unat (drop_bit (bits - 5) v AND mask 5) # ds'"
      using "1.prems" True by (subst (asm) b32_flush.simps) (auto simp: Let_def mask_numerals split: prod.splits)
    have "to_bits bits v = take 5 (to_bits bits v) @ drop 5 (to_bits bits v)" by simp
    then show ?thesis using "1.IH"[OF True refl f] True digit_lt
      by (simp add: ds to_bits_field to_bits_drop)
  qed (use "1.prems" in \<open>simp add: b32_flush.simps\<close>)
qed

lemma b32_digits_spec:
  "bits < 5 \<Longrightarrow>
     \<exists>p < 5. digit_bits (b32_digits v bits bs) = to_bits bits v @ byte_bits bs @ replicate p False \<and>
       (\<forall>d \<in> set (b32_digits v bits bs). d < 32)"
proof (induction bs arbitrary: v bits)
  case Nil
  show ?case
  proof (cases "bits = 0")
    case False
    then show ?thesis using Nil to_bits_pad[of bits v] digit_lt
      by (intro exI[of _ "5 - bits"]) (simp add: mask_numerals)
  qed auto
next
  case (Cons b bs)
  let ?v = "push_bit 8 v OR ucast b :: 32 word"
  obtain ds rest where f: "b32_flush ?v (bits + 8) = (ds, rest)" by fastforce
  note fs = b32_flush_spec[OF f]
  obtain p where p: "p < 5" "digit_bits (b32_digits ?v rest bs) = to_bits rest ?v @ byte_bits bs @ replicate p False"
      "\<forall>d \<in> set (b32_digits ?v rest bs). d < 32"
    using Cons.IH[of rest ?v] fs by auto
  have "to_bits (bits + 8) ?v = to_bits bits v @ to_bits 8 b"
    using to_bits_shift_in[of bits 8 "ucast b" v] bit_byte_high[of _ b] Cons.prems by (simp add: to_bits_ucast)
  then show ?case using p fs by (intro exI[of _ p]) (auto simp: f Let_def)
qed

lemma DECODE_alphabet: "d < 32 \<Longrightarrow> map_of DECODE (CROCKFORD_ALPHABET ! d) = Some d"
proof -
  have "list_all (\<lambda>d. map_of DECODE (CROCKFORD_ALPHABET ! d) = Some d) [0..<32]" by code_simp
  then show "d < 32 \<Longrightarrow> map_of DECODE (CROCKFORD_ALPHABET ! d) = Some d" by (simp add: list_all_iff)
qed

lemma to_bits_zero: "to_bits k v = replicate k False \<Longrightarrow> v AND mask k = 0"
proof (rule bit_eqI)
  fix n assume z: "to_bits k v = replicate k False"
  have "\<not> bit v n" if "n < k"
    using arg_cong[OF z, of "\<lambda>l. l ! (k - 1 - n)"] that by (simp add: nth_to_bits)
  then show "bit (v AND mask k) n = bit 0 n" by (auto simp: bit_and_iff bit_mask_iff)
qed

lemma b32_decode_spec:
  assumes "bits < 8" and "\<forall>d \<in> set ds. d < 32" and "p < 5"
    and "to_bits bits v @ digit_bits ds = byte_bits out @ replicate p False"
  shows "b32_decode_loop v bits (map (\<lambda>d. CROCKFORD_ALPHABET ! d) ds) = Inr out"
  using assms
proof (induction ds arbitrary: v bits out)
  case Nil
  have "length (to_bits bits v) = length (byte_bits out @ replicate p False)" using Nil by simp
  then have out: "out = []" "bits = p" using Nil(1,3) by (cases out; simp)+
  then show ?case using Nil to_bits_zero[of bits v] by (simp add: mask_eq_exp_minus_1 push_bit_eq_mult)
next
  case (Cons d ds)
  let ?v = "push_bit 5 v OR of_nat d :: 32 word"
  have b: "to_bits (bits + 5) ?v = to_bits bits v @ to_bits 5 (of_nat d :: 32 word)"
    using to_bits_shift_in[of bits 5 "of_nat d" v] bit_digit_high[of d 5] Cons.prems(1,2) by simp
  have eq: "to_bits (bits + 5) ?v @ digit_bits ds = byte_bits out @ replicate p False"
    using Cons.prems(4) b by simp
  show ?case
  proof (cases "8 \<le> bits + 5")
    case True
    have "length (byte_bits out @ replicate p False) \<ge> 8" unfolding eq[symmetric] using True by simp
    then obtain o1 os where out: "out = o1 # os" using Cons.prems(3) by (cases out) auto
    have "take 8 (to_bits (bits + 5) ?v @ digit_bits ds) = to_bits 8 o1" unfolding eq by (simp add: out)
    then have o1: "take 8 (to_bits (bits + 5) ?v) = to_bits 8 o1" using True by simp
    have "to_bits 8 (ucast (drop_bit (bits + 5 - 8) ?v AND mask 8) :: byte) = to_bits 8 o1"
      unfolding o1[symmetric] to_bits_field[OF True, symmetric]
      by (rule nth_equalityI) (auto simp: nth_to_bits bit_ucast_iff)
    then have e: "ucast (drop_bit (bits + 5 - 8) ?v AND mask 8) = o1"
      by (rule to_bits_inj) (auto dest: bit_imp_le_length)
    have "drop 8 (to_bits (bits + 5) ?v @ digit_bits ds) = byte_bits os @ replicate p False"
      unfolding eq by (simp add: out)
    then have "to_bits (bits + 5 - 8) ?v @ digit_bits ds = byte_bits os @ replicate p False"
      using True to_bits_drop[OF True, of ?v] by simp
    then have "b32_decode_loop ?v (bits + 5 - 8) (map (\<lambda>d. CROCKFORD_ALPHABET ! d) ds) = Inr os"
      using Cons.IH[of "bits + 5 - 8" ?v os] Cons.prems by auto
    then show ?thesis using True e Cons.prems(2) by (simp add: DECODE_alphabet Let_def mask_numerals out)
  next
    case False
    then have "b32_decode_loop ?v (bits + 5) (map (\<lambda>d. CROCKFORD_ALPHABET ! d) ds) = Inr out"
      using Cons.IH[of "bits + 5" ?v out] Cons.prems eq by auto
    then show ?thesis using False Cons.prems(2) by (simp add: DECODE_alphabet Let_def)
  qed
qed

lemma base32_roundtrip [codec_simps]: "base32Decode (base32Encode bs) = Inr bs"
  using b32_digits_spec[of 0 0 bs] b32_decode_spec[of 0 "b32_digits 0 0 bs" _ 0 bs]
  by (auto simp: base32Decode_def base32Encode_def)

section \<open>Varint round trip\<close>

lemma varint_byte:
  assumes "m < 128"
  shows "(of_nat m :: byte) AND 0x80 = 0" "unat ((of_nat m :: byte) AND 0x7f) = m"
    "((of_nat m :: byte) OR 0x80) AND 0x80 \<noteq> 0" "unat (((of_nat m :: byte) OR 0x80) AND 0x7f) = m"
proof -
  have "list_all (\<lambda>m. (of_nat m :: byte) AND 0x80 = 0 \<and> unat ((of_nat m :: byte) AND 0x7f) = m \<and>
      ((of_nat m :: byte) OR 0x80) AND 0x80 \<noteq> 0 \<and> unat (((of_nat m :: byte) OR 0x80) AND 0x7f) = m) [0..<128]"
    by code_simp
  then show "(of_nat m :: byte) AND 0x80 = 0" "unat ((of_nat m :: byte) AND 0x7f) = m"
    "((of_nat m :: byte) OR 0x80) AND 0x80 \<noteq> 0" "unat (((of_nat m :: byte) OR 0x80) AND 0x7f) = m"
    using assms by (simp_all add: list_all_iff)
qed

lemma varint_loop_cases:
  "varint_loop v = (if v < 128 then [of_nat v] else (of_nat (v mod 128) OR 0x80) # varint_loop (v div 128))"
  by (subst varint_loop.simps) (auto simp: Let_def div_greater_zero_iff)

lemma varint_decode_loop_at:
  "v * 2 ^ shift < 2 ^ 35 \<Longrightarrow> 7 dvd shift \<Longrightarrow>
     varint_decode_loop (pre @ varint_loop v @ suf) (length pre) shift acc =
       Inr (acc + v * 2 ^ shift, length pre + length (varint_loop v))"
proof (induction v arbitrary: pre shift acc rule: less_induct)
  case (less v)
  show ?case
  proof (cases "v < 128")
    case True
    then show ?thesis
      by (subst varint_decode_loop.simps) (simp add: varint_loop_cases[of v] varint_byte nth_append Let_def)
  next
    case False
    let ?b = "of_nat (v mod 128) OR 0x80 :: byte"
    have "128 * 2 ^ shift \<le> v * 2 ^ shift" using False by simp
    moreover have "(2::nat) ^ (7 + shift) = 128 * 2 ^ shift" by (simp add: power_add)
    ultimately have "(2::nat) ^ (7 + shift) < 2 ^ 35" using less.prems(1) by (metis le_less_trans)
    then have "7 + shift < 35" by (rule power_less_imp_less_exp[rotated]) simp
    then have s: "\<not> 28 < shift + 7" using less.prems(2) by (auto elim!: dvdE)
    have v: "v = v div 128 * 128 + v mod 128" by simp
    have "v div 128 * 2 ^ (shift + 7) \<le> v * 2 ^ shift"
      by (simp add: power_add)
    then have "v div 128 * 2 ^ (shift + 7) < 2 ^ 35" using less.prems(1) by simp
    then have ih: "varint_decode_loop ((pre @ [?b]) @ varint_loop (v div 128) @ suf) (length (pre @ [?b]))
        (shift + 7) (acc + v mod 128 * 2 ^ shift) =
        Inr (acc + v mod 128 * 2 ^ shift + v div 128 * 2 ^ (shift + 7), length (pre @ [?b]) + length (varint_loop (v div 128)))"
      by (intro less.IH) (use False less.prems(2) in auto)
    have vv: "v mod 128 + v div 128 * 128 = v" by simp
    have "v mod 128 * 2 ^ shift + v div 128 * 2 ^ (shift + 7) = (v mod 128 + v div 128 * 128) * 2 ^ shift"
      by (simp only: power_add add_mult_distrib mult.assoc mult.commute[of "2 ^ 7"]) simp
    then have sum: "v mod 128 * 2 ^ shift + v div 128 * 2 ^ (shift + 7) = v * 2 ^ shift"
      unfolding vv .
    show ?thesis
      by (subst varint_decode_loop.simps)
        (use ih sum s False varint_byte[of "v mod 128"] in \<open>simp add: varint_loop_cases[of v] nth_append Let_def add.assoc\<close>)
  qed
qed

lemma varint_roundtrip [codec_simps]:
  assumes "varintEncode v = Inr bs"
  shows "varintDecode (pre @ bs @ suf) (length pre) = Inr (nat v, length bs)"
proof -
  have v: "0 \<le> v" "v \<le> int UINT32_MAX" "bs = varint_loop (nat v)"
    using assms by (auto simp: varintEncode_def split: if_splits)
  then have "nat v * 2 ^ 0 < (2::nat) ^ 35" by (simp add: UINT32_MAX_def nat_less_iff)
  then show ?thesis using varint_decode_loop_at[of "nat v" 0 pre suf 0] v
    by (auto simp: varintDecode_def UINT32_MAX_def nat_le_iff)
qed

lemma length_varint_loop: "v < 128 ^ Suc n \<Longrightarrow> length (varint_loop v) \<le> Suc n"
proof (induction n arbitrary: v)
  case (Suc n)
  have "v div 128 < 128 ^ Suc n" using Suc.prems by (simp add: less_mult_imp_div_less mult.commute)
  then show ?case using Suc.IH[of "v div 128"] by (simp add: varint_loop_cases[of v])
qed (simp add: varint_loop_cases)

lemma varint_length_bounds:
  assumes "varintEncode v = Inr bs" shows "1 \<le> length bs \<and> length bs \<le> 5"
proof -
  have v: "v \<le> int UINT32_MAX" "bs = varint_loop (nat v)"
    using assms by (auto simp: varintEncode_def split: if_splits)
  then have "nat v < 128 ^ Suc 4" by (simp add: UINT32_MAX_def nat_less_iff)
  then show ?thesis using length_varint_loop[of "nat v" 4] v varint_loop_cases[of "nat v"] by auto
qed

section \<open>Fletcher-16\<close>

lemma fletcher_loop_bounds:
  "s1 < 255 \<Longrightarrow> s2 < 255 \<Longrightarrow> fst (fletcher_loop s1 s2 bs) < 255 \<and> snd (fletcher_loop s1 s2 bs) < 255"
  by (induction bs arbitrary: s1 s2) (simp_all add: Let_def)

lemma nat_bit_high: "(b :: nat) < 2 ^ m \<Longrightarrow> m \<le> n \<Longrightarrow> \<not> bit b n"
  by (metis bit_take_bit_iff linorder_not_le take_bit_nat_eq_self)

lemma nat_or_disjoint: "b < 256 \<Longrightarrow> (push_bit 8 a) OR b = a * 256 + (b :: nat)"
proof -
  assume b: "b < 256"
  have "push_bit 8 a + b = push_bit 8 a OR b"
  proof (rule disjunctive_add)
    fix n show "\<not> bit (push_bit 8 a) n \<or> \<not> bit b n"
      using nat_bit_high[of b 8 n] b by (auto simp: bit_push_bit_iff)
  qed
  then show ?thesis by (simp add: push_bit_eq_mult)
qed

lemma fletcher16_parts:
  "fletcher16 bs < 65536" "fletcher16 bs div 256 = snd (fletcher_loop 0 0 bs)" "fletcher16 bs mod 256 = fst (fletcher_loop 0 0 bs)"
  using fletcher_loop_bounds[of 0 0 bs] by (auto simp: fletcher16_def nat_or_disjoint split: prod.splits)

text \<open>Changing one byte to one with another residue modulo 255 always changes the checksum.\<close>

lemma fletcher_loop_append:
  "fletcher_loop a b (xs @ ys) = fletcher_loop (fst (fletcher_loop a b xs)) (snd (fletcher_loop a b xs)) ys"
  by (induction xs arbitrary: a b) (simp_all add: Let_def)

lemma fletcher_sum1: "fst (fletcher_loop a b xs) mod 255 = (a + sum_list (map unat xs)) mod 255"
  by (induction xs arbitrary: a b) (simp_all add: Let_def mod_add_left_eq add.assoc)

lemma mod_add_left_cancel:
  fixes m x y :: nat
  assumes "(s + x) mod m = (s + y) mod m" shows "x mod m = y mod m"
proof -
  have "int (s + x) mod int m = int (s + y) mod int m" using assms by (metis zmod_int)
  then have "int m dvd int (s + x) - int (s + y)" by (simp add: mod_eq_dvd_iff)
  then have "int m dvd int x - int y" by simp
  then have "int x mod int m = int y mod int m" by (simp add: mod_eq_dvd_iff)
  then show ?thesis by (metis zmod_int of_nat_eq_iff)
qed

lemma fletcher_change:
  assumes "unat x mod 255 \<noteq> unat y mod 255"
  shows "fletcher16 (pre @ x # suf) \<noteq> fletcher16 (pre @ y # suf)"
proof
  assume "fletcher16 (pre @ x # suf) = fletcher16 (pre @ y # suf)"
  then have "fst (fletcher_loop 0 0 (pre @ x # suf)) = fst (fletcher_loop 0 0 (pre @ y # suf))"
    by (metis fletcher16_parts(3))
  then have "(sum_list (map unat (pre @ suf)) + unat x) mod 255 = (sum_list (map unat (pre @ suf)) + unat y) mod 255"
    using fletcher_sum1[of 0 0 "pre @ x # suf"] fletcher_sum1[of 0 0 "pre @ y # suf"] by (simp add: ac_simps)
  then have "unat x mod 255 = unat y mod 255" by (rule mod_add_left_cancel)
  then show False using assms by simp
qed

section \<open>Document ids\<close>

lemma checksum_bytes:
  "push_bit 8 (unat (of_nat ((drop_bit 8 (fletcher16 bs)) AND 0xff) :: byte)) OR
     unat (of_nat (fletcher16 bs AND 0xff) :: byte) = fletcher16 bs"
proof -
  have m: "(n :: nat) AND 0xff = n mod 256" for n
    using take_bit_eq_mask[of 8 n] by (simp add: take_bit_eq_mod mask_eq_exp_minus_1)
  have "fletcher16 bs div 256 < 256" using fletcher16_parts(1)[of bs] by (simp add: less_mult_imp_div_less)
  then show ?thesis by (simp add: m drop_bit_eq_div unat_of_nat_small nat_or_disjoint)
qed

lemma encodeDocumentId_Inr:
  assumes "encodeDocumentId tn iid = Inr s"
  obtains vb where "varintEncode tn = Inr vb" "length iid = 16"
    "s = base32Encode (vb @ iid @ [of_nat ((drop_bit 8 (fletcher16 (vb @ iid))) AND 0xff), of_nat (fletcher16 (vb @ iid) AND 0xff)])"
  using assms by (auto simp: encodeDocumentId_def INTERNAL_ID_BYTES_def res_bind_Inr_iff Let_def split: if_splits)

lemma decode_encode:
  assumes "encodeDocumentId tn iid = Inr s"
  shows "decodeDocumentId s = Inr \<lparr>tableNumber = tn, internalId = iid\<rparr>"
proof -
  obtain vb where vb: "varintEncode tn = Inr vb" "length iid = 16" and
    s: "s = base32Encode (vb @ iid @ [of_nat ((drop_bit 8 (fletcher16 (vb @ iid))) AND 0xff), of_nat (fletcher16 (vb @ iid) AND 0xff)])"
    by (rule encodeDocumentId_Inr[OF assms])
  have tn: "0 \<le> tn" using vb(1) by (auto simp: varintEncode_def split: if_splits)
  have "varintDecode (vb @ iid @ r) 0 = Inr (nat tn, length vb)" for r
    using varint_roundtrip[OF vb(1), of "[]" "iid @ r"] by simp
  then show ?thesis using vb(2) tn checksum_bytes[of "vb @ iid"]
    by (simp add: s decodeDocumentId_def base32_roundtrip Let_def INTERNAL_ID_BYTES_def CHECKSUM_BYTES_def
        nth_append verifyFletcher16_def)
qed

text \<open>C39. Every id the encoder produces decodes to the table number and internal id it was made
  from.\<close>

theorem documentId_roundtrip:
  assumes "encodeDocumentId tn iid = Inr s"
  shows "decodeDocumentId s = Inr \<lparr>tableNumber = tn, internalId = iid\<rparr>"
  by (rule decode_encode[OF assms])

theorem documentId_roundtrip_witness:
  "\<exists>s. encodeDocumentId 10001 (replicate 16 7) = Inr s \<and>
     decodeDocumentId s = Inr \<lparr>tableNumber = 10001, internalId = replicate 16 7\<rparr>"
proof -
  obtain s where s: "encodeDocumentId 10001 (replicate 16 7) = Inr s"
    by (auto simp: encodeDocumentId_def INTERNAL_ID_BYTES_def varintEncode_def UINT32_MAX_def Let_def)
  show ?thesis using s documentId_roundtrip[OF s] by blast
qed

lemma length_base32Encode: "length (base32Encode bs) = (length bs * 8 + 4) div 5"
proof -
  obtain p where "p < 5" "digit_bits (b32_digits 0 0 bs) = byte_bits bs @ replicate p False"
    using b32_digits_spec[of 0 0 bs] by auto
  then have "5 * length (b32_digits 0 0 bs) = 8 * length bs + p"
    by (metis length_append length_byte_bits length_digit_bits length_replicate)
  then show ?thesis using \<open>p < 5\<close> by (simp add: base32Encode_def)
qed

text \<open>The length of an encoded id is what \<open>getEncodedLength\<close> computes from the table number,
  and lies between 31 and 37 characters.\<close>

theorem documentId_length:
  assumes "encodeDocumentId tn iid = Inr s"
  shows "getEncodedLength tn = Inr (length s) \<and> 31 \<le> length s \<and> length s \<le> 37"
proof -
  obtain vb where vb: "varintEncode tn = Inr vb" "length iid = 16" and
    s: "s = base32Encode (vb @ iid @ [of_nat ((drop_bit 8 (fletcher16 (vb @ iid))) AND 0xff), of_nat (fletcher16 (vb @ iid) AND 0xff)])"
    by (rule encodeDocumentId_Inr[OF assms])
  have "length s = ((length vb + 18) * 8 + 4) div 5" using vb(2) by (simp add: s length_base32Encode)
  then show ?thesis using varint_length_bounds[OF vb(1)] vb
    by (simp add: getEncodedLength_def varintEncodedLength_def INTERNAL_ID_BYTES_def CHECKSUM_BYTES_def Let_def) linarith
qed

theorem documentId_length_witness:
  "\<exists>s. encodeDocumentId 20 (replicate 16 255) = Inr s \<and>
     getEncodedLength 20 = Inr (length s) \<and> 31 \<le> length s \<and> length s \<le> 37"
proof -
  obtain s where s: "encodeDocumentId 20 (replicate 16 255) = Inr s"
    by (auto simp: encodeDocumentId_def INTERNAL_ID_BYTES_def varintEncode_def UINT32_MAX_def Let_def)
  show ?thesis using s documentId_length[OF s] by blast
qed

lemma decode_checksum_mismatch:
  assumes "varintEncode tn = Inr vb" "length iid = 16"
    and "fletcher16 (vb @ iid) \<noteq> push_bit 8 (unat c1) OR unat c2"
  shows "decodeDocumentId (base32Encode (vb @ iid @ [c1, c2])) = Inl (DocumentIdError ''checksum mismatch'')"
proof -
  have "varintDecode (vb @ iid @ r) 0 = Inr (nat tn, length vb)" for r
    using varint_roundtrip[OF assms(1), of "[]" "iid @ r"] by simp
  then show ?thesis using assms(2,3)
    by (simp add: decodeDocumentId_def base32_roundtrip Let_def INTERNAL_ID_BYTES_def CHECKSUM_BYTES_def
        nth_append verifyFletcher16_def)
qed

text \<open>An id one of whose internal-id bytes was changed to a byte with another residue
  modulo 255 no longer decodes: the checksum rejects it.\<close>

theorem documentId_corruption_rejected:
  assumes "encodeDocumentId tn iid = Inr s" and "base32Decode s = Inr bs" and "varintEncode tn = Inr vb"
    and "i < 16" and "unat y mod 255 \<noteq> unat (iid ! i) mod 255"
  shows "decodeDocumentId (base32Encode (bs[length vb + i := y])) = Inl (DocumentIdError ''checksum mismatch'')"
proof -
  have iid: "length iid = 16" and bs: "bs = vb @ iid @ [of_nat ((drop_bit 8 (fletcher16 (vb @ iid))) AND 0xff), of_nat (fletcher16 (vb @ iid) AND 0xff)]"
    using encodeDocumentId_Inr[OF assms(1)] assms(2,3) base32_roundtrip by (metis Inr_inject)+
  have i: "iid = take i iid @ iid ! i # drop (Suc i) iid" "iid[i := y] = take i iid @ y # drop (Suc i) iid"
    using assms(4) iid by (simp_all add: id_take_nth_drop upd_conv_take_nth_drop)
  have "fletcher16 ((vb @ take i iid) @ y # drop (Suc i) iid) \<noteq> fletcher16 ((vb @ take i iid) @ iid ! i # drop (Suc i) iid)"
    by (rule fletcher_change[OF assms(5)])
  then have "fletcher16 (vb @ iid[i := y]) \<noteq> fletcher16 (vb @ iid)" using i by simp
  moreover have "bs[length vb + i := y] = vb @ iid[i := y] @
      [of_nat ((drop_bit 8 (fletcher16 (vb @ iid))) AND 0xff), of_nat (fletcher16 (vb @ iid) AND 0xff)]"
    using assms(4) iid by (simp add: bs list_update_append)
  ultimately show ?thesis using decode_checksum_mismatch[OF assms(3)] iid checksum_bytes[of "vb @ iid"] by simp
qed

theorem documentId_corruption_rejected_witness:
  "\<exists>s bs vb. encodeDocumentId 3 (replicate 16 7) = Inr s \<and> base32Decode s = Inr bs \<and> varintEncode 3 = Inr vb \<and>
     decodeDocumentId (base32Encode (bs[length vb + 2 := 9])) = Inl (DocumentIdError ''checksum mismatch'')"
proof -
  have v: "varintEncode 3 = Inr [3]"
    by (simp add: varintEncode_def UINT32_MAX_def varint_loop_cases)
  obtain s where s: "encodeDocumentId 3 (replicate 16 7) = Inr s"
    using v by (auto simp: encodeDocumentId_def INTERNAL_ID_BYTES_def Let_def)
  then obtain bs where b: "base32Decode s = Inr bs"
    using encodeDocumentId_Inr base32_roundtrip by metis
  show ?thesis using s b v documentId_corruption_rejected[OF s b v, of 2 9] by auto
qed

text \<open>The residue condition cannot be dropped: 0x00 and 0xff are the same to the checksum.\<close>

lemma fletcher_blind: "fletcher16 (pre @ 0x00 # suf) = fletcher16 (pre @ 0xff # suf)"
  by (simp add: fletcher16_def fletcher_loop_append)

section \<open>Map keys of document ids\<close>

lemma hex_digit_facts:
  assumes "n < 16"
  shows "hex_value (hex_digit n) = Some n" "\<not> is_js_space (hex_digit n)" "hex_digit n \<noteq> 45" "hex_digit n \<noteq> 43"
    "hex_digit n \<noteq> 120" "hex_digit n \<noteq> 88"
proof -
  have u: "unat (hex_digit n) = (if n < 10 then 48 + n else 87 + n)"
    unfolding hex_digit_def using assms by (subst unat_of_nat_small) auto
  have eq: "hex_digit n = c \<longleftrightarrow> unat (hex_digit n) = unat c" for c
    by (rule word_unat_eq_iff)
  show "hex_digit n \<noteq> 45" "hex_digit n \<noteq> 43" "hex_digit n \<noteq> 120" "hex_digit n \<noteq> 88"
    unfolding eq u using assms by auto
  show "hex_value (hex_digit n) = Some n"
    unfolding hex_value_def word_le_nat_alt u using assms by auto
  show "\<not> is_js_space (hex_digit n)"
    unfolding is_js_space_def eq word_le_nat_alt u using assms by auto
qed

lemma hex_byte: "parseInt16 [hex_digit (unat (b :: byte) div 16), hex_digit (unat b mod 16)] = Some (int (unat b))"
proof -
  have "unat b < 16 * 16" using unsigned_less[of b] by simp
  then have "unat b div 16 < 16" by (rule less_mult_imp_div_less)
  then show ?thesis
    using hex_digit_facts[of "unat b div 16"] hex_digit_facts[of "unat b mod 16"] by (simp add: parseInt16_def Let_def)
qed

lemma hex_roundtrip [codec_simps]: "hexToInternalId (internalIdToHex iid) = Inr iid"
proof -
  have "hex_pairs (internalIdToHex iid) = Inr iid"
    by (induction iid) (simp_all add: internalIdToHex_def hex_byte)
  moreover have "even (length (internalIdToHex iid))"
    by (induction iid) (simp_all add: internalIdToHex_def)
  ultimately show ?thesis by (simp add: hexToInternalId_def)
qed

lemma colon_not_dec: "0 \<le> t \<Longrightarrow> 58 \<notin> set (int_dec t)"
  using nat_dec_digits[of 58 "nat t"] by (auto simp: int_dec_def is_digit_def)

text \<open>The \<open>Map\<close> key of a document id identifies it: the key parses back to the id it was made
  from, so equal keys mean equal ids.\<close>

theorem documentIdKey_roundtrip:
  assumes "0 \<le> tableNumber d"
  shows "parseDocumentIdKey (documentIdKey d) = Inr d"
  using assms colon_not_dec[OF assms] hex_roundtrip[of "internalId d"]
  by (simp add: parseDocumentIdKey_def documentIdKey_def int_dec_def)

theorem documentIdKey_roundtrip_witness:
  "parseDocumentIdKey (documentIdKey \<lparr>tableNumber = 10001, internalId = [0, 255]\<rparr>) =
     Inr \<lparr>tableNumber = 10001, internalId = [0, 255]\<rparr>"
  by (rule documentIdKey_roundtrip) simp

lemma documentIdKey_inj:
  "0 \<le> tableNumber a \<Longrightarrow> 0 \<le> tableNumber b \<Longrightarrow> documentIdKey a = documentIdKey b \<longleftrightarrow> a = b"
proof -
  assume a: "0 \<le> tableNumber a" "0 \<le> tableNumber b"
  have p: "parseDocumentIdKey (documentIdKey d) = Inr d" if "0 \<le> tableNumber d" for d
    using that colon_not_dec[OF that] hex_roundtrip[of "internalId d"]
    by (simp add: parseDocumentIdKey_def documentIdKey_def int_dec_def)
  show ?thesis using p[OF a(1)] p[OF a(2)] by (metis Inr_inject)
qed

lemma documentIdsEqual_iff: "documentIdsEqual a b \<longleftrightarrow> a = b"
  by (auto simp: documentIdsEqual_def list_all2_eq[symmetric] intro: internal_document_id.equality)

end
