(* ===== verification/Js_Numbers.thy ===== *)
theory Js_Numbers
  imports Js_Runtime
begin

text \<open>
  Fixed-width byte views of integers (the loops over \<^verbatim>\<open>x & 0xff\<close> and
  \<^verbatim>\<open>x >>= 8\<close>) and IEEE-754 doubles. A double is its 64-bit pattern; its exact value
  is an integer multiple of \<open>2 ^ -1074\<close>, and \<open>f64_scaled\<close> is that multiple (with the
  infinities at \<open>\<plusminus>2 ^ 52 * 2 ^ 2046\<close>, beyond every finite value). The sign of an IEEE
  difference of two non-NaN doubles is the sign of the exact difference, because
  subtraction underflows gradually and overflows to an infinity of the right sign.
\<close>

section \<open>Byte views\<close>

fun le_bytes :: "nat \<Rightarrow> nat \<Rightarrow> bytes" where
  "le_bytes 0 x = []"
| "le_bytes (Suc n) x = of_nat (x mod 256) # le_bytes n (x div 256)"

fun of_le_bytes :: "bytes \<Rightarrow> nat" where
  "of_le_bytes [] = 0"
| "of_le_bytes (b # bs) = unat b + 256 * of_le_bytes bs"

definition be_bytes :: "nat \<Rightarrow> nat \<Rightarrow> bytes" where
  "be_bytes n x = rev (le_bytes n x)"

lemma length_le_bytes [simp]: "length (le_bytes n x) = n"
  by (induction n arbitrary: x) auto

lemma length_be_bytes [simp]: "length (be_bytes n x) = n"
  by (simp add: be_bytes_def)

lemma unat_of_nat_byte [simp]: "unat (of_nat (x mod 256) :: byte) = x mod 256"
  by (rule unat_of_nat_small) simp

lemma of_le_bytes_le_bytes [codec_simps]: "of_le_bytes (le_bytes n x) = x mod 256 ^ n"
proof (induction n arbitrary: x)
  case (Suc n)
  have "x mod 256 ^ Suc n = x mod 256 + 256 * (x div 256 mod 256 ^ n)"
    by (simp add: mod_mult2_eq)
  with Suc show ?case by simp
qed simp

lemma le_bytes_of_le_bytes [codec_simps]: "length bs = n \<Longrightarrow> le_bytes n (of_le_bytes bs) = bs"
proof (induction bs arbitrary: n)
  case (Cons b bs)
  have "(unat b + 256 * of_le_bytes bs) mod 256 = unat b"
    "(unat b + 256 * of_le_bytes bs) div 256 = of_le_bytes bs"
    using byte_bounds[of b] by simp_all
  with Cons show ?case by auto
qed simp

lemma le_bytes_snoc: "le_bytes (Suc n) x = le_bytes n x @ [of_nat (x div 256 ^ n mod 256)]"
proof (induction n arbitrary: x)
  case (Suc n)
  have "le_bytes (Suc (Suc n)) x = of_nat (x mod 256) # le_bytes (Suc n) (x div 256)" by simp
  also have "\<dots> = of_nat (x mod 256) # le_bytes n (x div 256) @ [of_nat (x div 256 div 256 ^ n mod 256)]"
    using Suc by (simp del: le_bytes.simps)
  finally show ?case by (simp add: div_mult2_eq)
qed simp

lemma be_bytes_Suc: "be_bytes (Suc n) x = of_nat (x div 256 ^ n mod 256) # be_bytes n x"
  unfolding be_bytes_def le_bytes_snoc by simp

lemma cmp_of_byte: "cmp_of (of_nat (x mod 256) :: byte) (of_nat (y mod 256)) = cmp_of (x mod 256) (y mod 256)"
  by (auto simp: cmp_of_def word_less_nat_alt word_unat_eq_iff)

lemma cmp_of_digits:
  fixes h h' m r r' :: nat
  assumes "r < m" "r' < m"
  shows "cmp_of (h * m + r) (h' * m + r') = cmp_then (cmp_of h h') (cmp_of r r')"
proof -
  consider "h < h'" | "h = h'" | "h' < h" by linarith
  then show ?thesis
  proof cases
    case 1
    then have "Suc h * m \<le> h' * m" by (intro mult_le_mono1) simp
    then have "h * m + r < h' * m + r'" using assms by simp
    with 1 show ?thesis by (simp add: cmp_of_def)
  next
    case 3
    then have "Suc h' * m \<le> h * m" by (intro mult_le_mono1) simp
    then have "h' * m + r' < h * m + r" using assms by simp
    with 3 show ?thesis by (simp add: cmp_of_def)
  qed (simp add: cmp_of_def)
qed

theorem cmp_be_bytes: "cmp_of (be_bytes n x) (be_bytes n y) = cmp_of (x mod 256 ^ n) (y mod 256 ^ n)"
proof (induction n)
  case 0
  then show ?case by (simp add: be_bytes_def cmp_of_def)
next
  case (Suc n)
  have split: "z mod 256 ^ Suc n = (z div 256 ^ n mod 256) * 256 ^ n + z mod 256 ^ n" for z :: nat
    using mod_mult2_eq[of z "256 ^ n" 256] by (simp add: mult.commute)
  have "cmp_of (be_bytes (Suc n) x) (be_bytes (Suc n) y) =
      cmp_then (cmp_of (x div 256 ^ n mod 256) (y div 256 ^ n mod 256)) (cmp_of (x mod 256 ^ n) (y mod 256 ^ n))"
    unfolding be_bytes_Suc cmp_of_Cons cmp_of_byte Suc ..
  also have "\<dots> = cmp_of (x mod 256 ^ Suc n) (y mod 256 ^ Suc n)"
    unfolding split by (rule cmp_of_digits[symmetric]) simp_all
  finally show ?case .
qed

section \<open>Bit tricks on one byte\<close>

lemma byte_bit7: "bit (unat (b :: byte)) 7 \<longleftrightarrow> 128 \<le> unat b"
proof -
  have "unat b div 128 < 2" using byte_bounds[of b] by simp
  then have "odd (unat b div 128) \<longleftrightarrow> unat b div 128 = 1" by (auto simp: less_2_cases_iff)
  also have "\<dots> \<longleftrightarrow> 128 \<le> unat b" using byte_bounds[of b] by auto
  finally show ?thesis by (simp add: bit_iff_odd)
qed

lemma byte_and_0x80: "(b :: byte) AND 0x80 \<noteq> 0 \<longleftrightarrow> 128 \<le> unat b"
proof -
  have "b AND 0x80 = 0 \<longleftrightarrow> unat (b AND 0x80) = 0" by (simp add: unat_eq_0)
  also have "\<dots> \<longleftrightarrow> unat b AND 2 ^ 7 = 0" by (simp add: unsigned_and_eq)
  also have "\<dots> \<longleftrightarrow> \<not> bit (unat b) 7" by (rule and_exp_eq_0_iff_not_bit)
  finally show ?thesis by (simp add: byte_bit7)
qed

lemma unat_xor_0x80_low: "unat (b :: byte) < 128 \<Longrightarrow> unat (b XOR 0x80) = unat b + 128"
proof -
  assume "unat b < 128"
  moreover have "unat (b XOR 0x80) = flip_bit 7 (unat b)"
    by (simp add: unsigned_xor_eq flip_bit_eq_xor)
  ultimately show ?thesis by (simp add: flip_bit_eq_if set_bit_eq byte_bit7)
qed

lemma unat_xor_0x80: "unat ((b :: byte) XOR 0x80) = (if unat b < 128 then unat b + 128 else unat b - 128)"
proof (cases "unat b < 128")
  case False
  define c where "c = b XOR 0x80"
  have "bit (unat c) 7 \<longleftrightarrow> \<not> bit (unat b) 7"
    using bit_flip_bit_iff[of 7 "unat b" 7]
    by (simp add: c_def unsigned_xor_eq flip_bit_eq_xor)
  then have "unat c < 128" using False by (simp add: byte_bit7)
  then have "unat (c XOR 0x80) = unat c + 128" by (rule unat_xor_0x80_low)
  then show ?thesis using False by (simp add: c_def xor.assoc)
qed (simp add: unat_xor_0x80_low)

lemma unat_xor_0xff: "unat ((b :: byte) XOR 0xff) = 255 - unat b"
proof -
  have ones: "(0xff :: byte) = mask 8" by (simp add: mask_eq_exp_minus_1)
  have "b XOR 0xff = NOT b" unfolding ones by (rule bit_word_eqI) (simp add: bit_simps)
  also have "\<dots> = 255 - b" by (simp add: not_eq_complement)
  also have "\<dots> = of_nat (255 - unat b)" using byte_bounds[of b] by (simp add: of_nat_diff)
  finally show ?thesis using unat_of_nat_small[of "255 - unat b", where 'a = 8] by simp
qed

lemma cmp_xor_0xff: "cmp_of ((a :: byte) XOR 0xff) (b XOR 0xff) = cmp_neg (cmp_of a b)"
  using byte_bounds[of a] byte_bounds[of b]
  by (auto simp: cmp_of_def word_less_nat_alt word_unat_eq_iff unat_xor_0xff)

lemma cmp_xor_0x80:
  "(unat (a :: byte) < 128 \<longleftrightarrow> unat b < 128) \<Longrightarrow> cmp_of (a XOR 0x80) (b XOR 0x80) = cmp_of a b"
  by (auto simp: cmp_of_def word_less_nat_alt word_unat_eq_iff unat_xor_0x80)

section \<open>IEEE-754 doubles\<close>

type_synonym f64 = "64 word"

definition f64_neg :: "f64 \<Rightarrow> bool" where
  "f64_neg w = (2 ^ 63 \<le> unat w)"

definition f64_mag :: "f64 \<Rightarrow> nat" where
  "f64_mag w = unat w mod 2 ^ 63"

definition f64_exp :: "f64 \<Rightarrow> nat" where
  "f64_exp w = f64_mag w div 2 ^ 52"

definition f64_mant :: "f64 \<Rightarrow> nat" where
  "f64_mant w = f64_mag w mod 2 ^ 52"

definition f64_is_nan :: "f64 \<Rightarrow> bool" where
  "f64_is_nan w = (f64_exp w = 2047 \<and> f64_mant w \<noteq> 0)"

definition f64_is_finite :: "f64 \<Rightarrow> bool" where
  "f64_is_finite w = (f64_exp w < 2047)"

definition f64_NaN :: f64 where
  "f64_NaN = 0x7FF8000000000000"

definition f64_neg_zero :: f64 where
  "f64_neg_zero = 0x8000000000000000"

definition scaled_mag :: "nat \<Rightarrow> nat" where
  "scaled_mag m = (let e = m div 2 ^ 52; f = m mod 2 ^ 52
     in if e = 0 then f else (2 ^ 52 + f) * 2 ^ (e - 1))"

definition f64_scaled :: "f64 \<Rightarrow> int" where
  "f64_scaled w = (if f64_neg w then - int (scaled_mag (f64_mag w)) else int (scaled_mag (f64_mag w)))"

lemma scaled_mag_upper: "scaled_mag m < 2 ^ 52 * 2 ^ (m div 2 ^ 52)"
proof (cases "m div 2 ^ 52 = 0")
  case True
  then have "scaled_mag m = m mod 2 ^ 52" by (simp add: scaled_mag_def)
  moreover have "m mod 2 ^ 52 < (2 ^ 52 :: nat)" by simp
  ultimately show ?thesis using True by simp
next
  case False
  define e where "e = m div 2 ^ 52 - 1"
  have e: "m div 2 ^ 52 = Suc e" using False by (simp add: e_def)
  have "scaled_mag m = (2 ^ 52 + m mod 2 ^ 52) * 2 ^ e" using e by (simp add: scaled_mag_def)
  also have "\<dots> < (2 ^ 52 + 2 ^ 52) * 2 ^ e" by (intro mult_strict_right_mono) simp_all
  finally have "scaled_mag m < 2 ^ 52 * 2 ^ Suc e" by simp
  then show ?thesis by (simp only: e)
qed

lemma scaled_mag_lower: "m div 2 ^ 52 \<noteq> 0 \<Longrightarrow> 2 ^ 52 * 2 ^ (m div 2 ^ 52 - 1) \<le> scaled_mag m"
  by (simp add: scaled_mag_def)

lemma scaled_mag_strict_mono:
  assumes "m < m'" shows "scaled_mag m < scaled_mag m'"
proof (cases "m div 2 ^ 52 = m' div 2 ^ 52")
  case True
  have "m mod 2 ^ 52 < m' mod 2 ^ 52"
    using assms True by (metis add_less_cancel_left div_mult_mod_eq)
  with True assms show ?thesis by (simp add: scaled_mag_def Let_def)
next
  case False
  then have less: "m div 2 ^ 52 < m' div 2 ^ 52" using assms div_le_mono[of m m' "2 ^ 52"] by linarith
  have "scaled_mag m < 2 ^ 52 * 2 ^ (m div 2 ^ 52)" by (rule scaled_mag_upper)
  also have "\<dots> \<le> 2 ^ 52 * 2 ^ (m' div 2 ^ 52 - 1)"
    using less by (intro mult_le_mono2 power_increasing) auto
  also have "\<dots> \<le> scaled_mag m'" using less by (intro scaled_mag_lower) auto
  finally show ?thesis .
qed

lemma cmp_scaled_mag: "cmp_of (scaled_mag a) (scaled_mag b) = cmp_of a b"
proof -
  consider "a < b" | "a = b" | "b < a" by linarith
  then show ?thesis
    using scaled_mag_strict_mono[of a b] scaled_mag_strict_mono[of b a]
    by cases (simp_all add: cmp_of_def)
qed

lemma scaled_mag_0: "scaled_mag m = 0 \<longleftrightarrow> m = 0"
  using scaled_mag_strict_mono[of 0 m] by (cases "m = 0") (auto simp: scaled_mag_def)

lemma f64_unat: "unat w = (if f64_neg w then 2 ^ 63 else 0) + f64_mag w"
proof (cases "f64_neg w")
  case True
  have "unat w < 2 ^ 64" using unsigned_less[of w] by simp
  then have "unat w - 2 ^ 63 < 2 ^ 63" by simp
  moreover have "unat w mod 2 ^ 63 = (unat w - 2 ^ 63) mod 2 ^ 63"
    using True unfolding f64_neg_def by (rule le_mod_geq)
  ultimately have "f64_mag w = unat w - 2 ^ 63" unfolding f64_mag_def by simp
  then show ?thesis using True by (simp add: f64_neg_def)
next
  case False
  then have "unat w < 2 ^ 63" by (simp add: f64_neg_def)
  then show ?thesis using False by (simp add: f64_mag_def)
qed

lemma f64_mag_less: "f64_mag w < 2 ^ 63"
  by (simp add: f64_mag_def)

lemma f64_neg_zero_iff: "w = f64_neg_zero \<longleftrightarrow> f64_neg w \<and> f64_mag w = 0"
  using f64_unat[of w] f64_mag_less[of w]
  by (auto simp: word_unat_eq_iff f64_neg_zero_def f64_neg_def f64_mag_def)

lemma f64_nan_mag: "f64_is_nan w \<longleftrightarrow> 2047 * 2 ^ 52 < f64_mag w"
proof -
  have "f64_mag w = f64_exp w * 2 ^ 52 + f64_mant w"
    unfolding f64_exp_def f64_mant_def by (simp only: div_mult_mod_eq)
  moreover have "f64_exp w < 2048" using f64_mag_less[of w] by (simp add: f64_exp_def)
  moreover have "f64_mant w < 2 ^ 52" by (simp add: f64_mant_def)
  ultimately show ?thesis unfolding f64_is_nan_def by auto
qed

lemma f64_neg_NaN [simp]: "\<not> f64_neg f64_NaN"
  by (simp add: f64_neg_def f64_NaN_def)

lemma f64_is_nan_NaN [simp]: "f64_is_nan f64_NaN"
  by (simp add: f64_nan_mag f64_mag_def f64_NaN_def)

end
