(* ===== verification/Js_Values.thy ===== *)
theory Js_Values
  imports Js_Numbers
begin

text \<open>
  The value model of \<^verbatim>\<open>packages/values/src/value.ts\<close> and the JSON transport codec of
  \<^verbatim>\<open>packages/values/src/json.ts\<close>: the canonical total order \<open>compareValues\<close> and the
  round trip of \<open>convexToJson\<close> / \<open>jsonToConvex\<close>. An object is its own-property list in
  the order \<^verbatim>\<open>Object.keys\<close> lists it (array-index keys first, ascending, then
  insertion order).
\<close>

section \<open>Values and their order (value.ts)\<close>

datatype jvalue =
    VNull
  | VBool bool
  | VNum f64
  | VBigInt int
  | VStr jsstring
  | VBytes bytes
  | VArr "jvalue list"
  | VObj "(jsstring \<times> jvalue) list"

datatype json =
    JNull
  | JBool bool
  | JNum f64
  | JStr jsstring
  | JArr "json list"
  | JObj "(jsstring \<times> json) list"

fun typeRank :: "jvalue \<Rightarrow> nat" where
  "typeRank VNull = 0"
| "typeRank (VBool _) = 1"
| "typeRank (VNum _) = 2"
| "typeRank (VBigInt _) = 3"
| "typeRank (VStr _) = 4"
| "typeRank (VBytes _) = 5"
| "typeRank (VArr _) = 6"
| "typeRank (VObj _) = 7"

definition sign :: "int \<Rightarrow> cmp" where
  "sign n = (if n < 0 then CLt else if n > 0 then CGt else CEq)"

definition byte_diff_cmp :: "byte \<Rightarrow> byte \<Rightarrow> cmp" where
  "byte_diff_cmp a b = (let d = uint a - uint b in if d \<noteq> 0 then (if d < 0 then CLt else CGt) else CEq)"

definition compareBytes :: "bytes \<Rightarrow> bytes \<Rightarrow> cmp" where
  "compareBytes a b = lex_cmp byte_diff_cmp a b"

definition compareNumbers :: "f64 \<Rightarrow> f64 \<Rightarrow> cmp" where
  "compareNumbers a b =
     (let aNaN = f64_is_nan a; bNaN = f64_is_nan b
      in if aNaN \<or> bNaN then (if aNaN \<and> bNaN then CEq else if aNaN then CGt else CLt)
         else sign (f64_scaled a - f64_scaled b))"

definition compareKeysUtf8 :: "jsstring \<Rightarrow> jsstring \<Rightarrow> cmp" where
  "compareKeysUtf8 a b = compareBytes (utf8_encode a) (utf8_encode b)"

definition sortedEntries :: "(jsstring \<times> 'v) list \<Rightarrow> (jsstring \<times> 'v) list" where
  "sortedEntries es = sort_key (\<lambda>e. utf8_encode (fst e)) es"

lemma set_sortedEntries [simp]: "set (sortedEntries es) = set es"
  by (simp add: sortedEntries_def)

lemma size_VArr_elem: "x \<in> set xs \<Longrightarrow> size x < size (VArr xs)"
  by (induction xs) auto

lemma size_VObj_elem: "(k, v) \<in> set es \<Longrightarrow> size v < size (VObj es)"
  by (induction es) auto

function compareValues :: "jvalue \<Rightarrow> jvalue \<Rightarrow> cmp" where
  "compareValues a b =
     (let ra = typeRank a; rb = typeRank b
      in if ra \<noteq> rb then (if ra < rb then CLt else CGt)
         else (case a of
             VNull \<Rightarrow> CEq
           | VBool x \<Rightarrow> (case b of VBool y \<Rightarrow> sign (of_bool x - of_bool y) | _ \<Rightarrow> CEq)
           | VNum x \<Rightarrow> (case b of VNum y \<Rightarrow> compareNumbers x y | _ \<Rightarrow> CEq)
           | VBigInt x \<Rightarrow> (case b of VBigInt y \<Rightarrow> (if x < y then CLt else if x > y then CGt else CEq) | _ \<Rightarrow> CEq)
           | VStr x \<Rightarrow> (case b of VStr y \<Rightarrow> compareKeysUtf8 x y | _ \<Rightarrow> CEq)
           | VBytes x \<Rightarrow> (case b of VBytes y \<Rightarrow> compareBytes x y | _ \<Rightarrow> CEq)
           | VArr xs \<Rightarrow> (case b of VArr ys \<Rightarrow> lex_cmp (\<lambda>x y. compareValues x y) xs ys | _ \<Rightarrow> CEq)
           | VObj xo \<Rightarrow> (case b of VObj yo \<Rightarrow>
               lex_cmp (\<lambda>x y. cmp_then (compareKeysUtf8 (fst x) (fst y)) (compareValues (snd x) (snd y)))
                 (sortedEntries xo) (sortedEntries yo) | _ \<Rightarrow> CEq)))"
  by pat_completeness auto
termination
proof (relation "measure (\<lambda>(a, b). size a + size b)"; clarsimp)
  fix xs ys :: "jvalue list" and x y
  assume "x \<in> set xs" "y \<in> set ys"
  then show "size x + size y < Suc (Suc (size_list size xs + size_list size ys))"
    using size_VArr_elem[of x xs] size_VArr_elem[of y ys] by simp
next
  fix xo yo :: "(jsstring \<times> jvalue) list" and k x k' y
  assume "(k, x) \<in> set xo" "(k', y) \<in> set yo"
  then show "size x + size y < Suc (Suc (size_list (size_prod (\<lambda>x. 0) size) xo + size_list (size_prod (\<lambda>x. 0) size) yo))"
    using size_VObj_elem[of k x xo] size_VObj_elem[of k' y yo] by simp
qed

declare compareValues.simps [simp del]

definition valuesEqual :: "jvalue \<Rightarrow> jvalue \<Rightarrow> bool" where
  "valuesEqual a b = (compareValues a b = CEq)"

fun isPlainObject :: "jvalue \<Rightarrow> bool" where
  "isPlainObject (VObj _) = True"
| "isPlainObject _ = False"

lemma byte_diff_cmp_eq: "byte_diff_cmp = cmp_of"
  by (intro ext) (auto simp: byte_diff_cmp_def cmp_of_def word_less_alt word_uint_eq_iff Let_def)

lemma compareBytes_eq: "compareBytes a b = cmp_of a b"
  by (simp add: compareBytes_def byte_diff_cmp_eq lex_cmp_cmp_of)

lemma sign_diff: "sign (a - b) = cmp_of a b"
  by (auto simp: sign_def cmp_of_def)

lemma compareValues_simps [simp]:
  "compareValues VNull VNull = CEq"
  "compareValues (VBool x) (VBool y) = cmp_of x y"
  "compareValues (VNum n) (VNum m) = compareNumbers n m"
  "compareValues (VBigInt i) (VBigInt j) = cmp_of i j"
  "compareValues (VStr s) (VStr t) = compareKeysUtf8 s t"
  "compareValues (VBytes u) (VBytes v) = compareBytes u v"
  "compareValues (VArr xs) (VArr ys) = lex_cmp compareValues xs ys"
  "compareValues (VObj xo) (VObj yo) =
     lex_cmp (\<lambda>x y. cmp_then (compareKeysUtf8 (fst x) (fst y)) (compareValues (snd x) (snd y)))
       (sortedEntries xo) (sortedEntries yo)"
  "typeRank a \<noteq> typeRank b \<Longrightarrow> compareValues a b = cmp_of (typeRank a) (typeRank b)"
  by (simp_all add: compareValues.simps[of VNull] compareValues.simps[of "VBool x"]
      compareValues.simps[of "VNum n"] compareValues.simps[of "VBigInt i"] compareValues.simps[of "VStr s"]
      compareValues.simps[of "VBytes u"] compareValues.simps[of "VArr xs"] compareValues.simps[of "VObj xo"]
      compareValues.simps[of a] cmp_of_def sign_def)

lemma compareNumbers_flip: "compareNumbers b a = cmp_neg (compareNumbers a b)"
  unfolding compareNumbers_def sign_diff Let_def
  using cmp_of_flip[of "f64_scaled a" "f64_scaled b"] by simp

lemma compareNumbers_trans3: "cmp_trans3 (compareNumbers a b) (compareNumbers b c) (compareNumbers a c)"
  unfolding compareNumbers_def sign_diff Let_def
  using cmp_of_trans3[of "f64_scaled a" "f64_scaled b" "f64_scaled c"] by simp

lemma compareKeysUtf8_flip: "compareKeysUtf8 b a = cmp_neg (compareKeysUtf8 a b)"
  unfolding compareKeysUtf8_def compareBytes_eq by (rule cmp_of_flip)

lemma compareKeysUtf8_trans3:
  "cmp_trans3 (compareKeysUtf8 a b) (compareKeysUtf8 b c) (compareKeysUtf8 a c)"
  unfolding compareKeysUtf8_def compareBytes_eq by (rule cmp_of_trans3)

text \<open>Comparing values of different types looks at the types only.\<close>

lemma cmp_trans3_ranks:
  fixes ra rb rc :: nat
  assumes "ra \<noteq> rb \<Longrightarrow> ab = cmp_of ra rb" "rb \<noteq> rc \<Longrightarrow> bc = cmp_of rb rc"
    "ra \<noteq> rc \<Longrightarrow> ac = cmp_of ra rc" "ra = rb \<Longrightarrow> rb = rc \<Longrightarrow> cmp_trans3 ab bc ac"
  shows "cmp_trans3 ab bc ac"
proof (cases "ra = rb \<and> rb = rc")
  case False
  then show ?thesis using assms
    by (cases "ra = rb"; cases "rb = rc"; cases "ra = rc"; cases ab; cases bc; cases ac)
      (auto simp: cmp_trans3_def cmp_of_def split: if_splits)
qed (use assms in auto)

lemma scalar_flip:
  "typeRank a = typeRank b \<Longrightarrow> typeRank a < 6 \<Longrightarrow> compareValues b a = cmp_neg (compareValues a b)"
  by (cases a; cases b; simp add: compareBytes_eq)
    (rule cmp_of_flip compareNumbers_flip compareKeysUtf8_flip)+

lemma scalar_trans3:
  "typeRank a = typeRank b \<Longrightarrow> typeRank b = typeRank c \<Longrightarrow> typeRank a < 6 \<Longrightarrow>
   cmp_trans3 (compareValues a b) (compareValues b c) (compareValues a c)"
  by (cases a; cases b; simp; cases c; simp add: compareBytes_eq)
    (rule cmp_of_trans3 compareNumbers_trans3 compareKeysUtf8_trans3)+

lemma compareValues_trans3_rankI:
  "(typeRank a = typeRank b \<Longrightarrow> typeRank b = typeRank c \<Longrightarrow>
      cmp_trans3 (compareValues a b) (compareValues b c) (compareValues a c)) \<Longrightarrow>
   cmp_trans3 (compareValues a b) (compareValues b c) (compareValues a c)"
  by (rule cmp_trans3_ranks[of "typeRank a" "typeRank b" _ "typeRank c"]) simp_all

lemma compareValues_flip: "compareValues b a = cmp_neg (compareValues a b)"
proof (induction a b rule: compareValues.induct)
  case (1 a b)
  show ?case
  proof (cases "typeRank a = typeRank b")
    case False
    then show ?thesis using cmp_of_flip[of "typeRank a" "typeRank b"] by simp
  next
    case same: True
    show ?thesis
    proof (cases a)
      case (VArr xs)
      then obtain ys where b: "b = VArr ys" using same by (cases b) auto
      have "lex_cmp compareValues ys xs = cmp_neg (lex_cmp compareValues xs ys)"
        by (rule lex_cmp_flip) (use 1(1) VArr b in simp)
      then show ?thesis using VArr b by simp
    next
      case (VObj xo)
      then obtain yo where b: "b = VObj yo" using same by (cases b) auto
      show ?thesis unfolding VObj b compareValues_simps
        by (rule lex_cmp_flip, unfold cmp_neg_then, subst compareKeysUtf8_flip)
          (use 1(2) VObj b in simp)
    qed (use same scalar_flip[of a b] in simp_all)
  qed
qed

lemma compareValues_trans3: "cmp_trans3 (compareValues a b) (compareValues b c) (compareValues a c)"
proof (induction a arbitrary: b c)
  case (VArr xs)
  show ?case
  proof (rule compareValues_trans3_rankI)
    assume "typeRank (VArr xs) = typeRank b" "typeRank b = typeRank c"
    then obtain ys zs where "b = VArr ys" "c = VArr zs" by (cases b; cases c) auto
    then show "cmp_trans3 (compareValues (VArr xs) b) (compareValues b c) (compareValues (VArr xs) c)"
      by (auto intro!: lex_cmp_trans3 VArr)
  qed
next
  case (VObj xo)
  show ?case
  proof (rule compareValues_trans3_rankI)
    assume "typeRank (VObj xo) = typeRank b" "typeRank b = typeRank c"
    then obtain ys zs where "b = VObj ys" "c = VObj zs" by (cases b; cases c) auto
    then show "cmp_trans3 (compareValues (VObj xo) b) (compareValues b c) (compareValues (VObj xo) c)"
      by (auto intro!: lex_cmp_trans3 cmp_trans3_then compareKeysUtf8_trans3 VObj)
  qed
qed (rule compareValues_trans3_rankI, rule scalar_trans3, assumption, assumption, simp)+

interpretation vals: comparator compareValues
  by unfold_locales (rule compareValues_flip, rule compareValues_trans3)

end
