(* ===== verification/Index_Keys.thy ===== *)
theory Index_Keys
  imports Js_Values
begin

text \<open>
  \<^verbatim>\<open>packages/index-key-codec/src/encode.ts\<close>: the order-preserving encoding of
  index-key tuples. The contract every ordered scan of the program depends on is proved
  here: byte order of encoded keys is the canonical value order of the tuples, and the
  byte interval of a prefix holds exactly the keys of the tuples that start with it.
\<close>

section \<open>The encoding\<close>

definition TAG_NULL :: byte where "TAG_NULL = 0x01"
definition TAG_FALSE :: byte where "TAG_FALSE = 0x02"
definition TAG_TRUE :: byte where "TAG_TRUE = 0x03"
definition TAG_NUMBER :: byte where "TAG_NUMBER = 0x04"
definition TAG_BIGINT :: byte where "TAG_BIGINT = 0x05"
definition TAG_STRING :: byte where "TAG_STRING = 0x06"
definition TAG_BYTES :: byte where "TAG_BYTES = 0x07"

lemmas tag_defs = TAG_NULL_def TAG_FALSE_def TAG_TRUE_def TAG_NUMBER_def TAG_BIGINT_def
  TAG_STRING_def TAG_BYTES_def

definition INT64_MIN :: int where "INT64_MIN = - (2 ^ 63)"
definition INT64_MAX :: int where "INT64_MAX = 2 ^ 63 - 1"

fun normalizeValue :: "jvalue \<Rightarrow> jvalue" where
  "normalizeValue (VNum n) = (if n = f64_neg_zero then VNum 0 else VNum n)"
| "normalizeValue v = v"

definition compareKeyBytes :: "bytes \<Rightarrow> bytes \<Rightarrow> cmp" where
  "compareKeyBytes a b = lex_cmp byte_diff_cmp a b"

definition indexKeysEqual :: "bytes \<Rightarrow> bytes \<Rightarrow> bool" where
  "indexKeysEqual a b = (compareKeyBytes a b = CEq)"

definition encodeFloat64 :: "f64 \<Rightarrow> bytes" where
  "encodeFloat64 n =
     (let bs = be_bytes 8 (unat (if f64_is_nan n then f64_NaN else n))
      in if hd bs AND 0x80 \<noteq> 0 then map (\<lambda>b. b XOR 0xff) bs
         else (hd bs XOR 0x80) # tl bs)"

definition encodeInt64 :: "int \<Rightarrow> bytes result" where
  "encodeInt64 v =
     (if v < INT64_MIN \<or> v > INT64_MAX then Inl (RangeError ''bigint out of int64 range'')
      else let bs = be_bytes 8 (nat (v mod 2 ^ 64)) in Inr ((hd bs XOR 0x80) # tl bs))"

fun pushEscaped :: "bytes \<Rightarrow> bytes" where
  "pushEscaped [] = [0x00]"
| "pushEscaped (b # bs) = (if b = 0x00 then [0x00, 0xff] else [b]) @ pushEscaped bs"

definition pushElement :: "jvalue \<Rightarrow> bytes result" where
  "pushElement value =
     (case normalizeValue value of
        VNull \<Rightarrow> Inr [TAG_NULL]
      | VBool v \<Rightarrow> Inr [if v then TAG_TRUE else TAG_FALSE]
      | VNum v \<Rightarrow> Inr (TAG_NUMBER # encodeFloat64 v)
      | VBigInt v \<Rightarrow> res_bind (encodeInt64 v) (\<lambda>bs. Inr (TAG_BIGINT # bs))
      | VStr v \<Rightarrow> Inr (TAG_STRING # pushEscaped (utf8_encode v))
      | VBytes v \<Rightarrow> Inr (TAG_BYTES # pushEscaped v)
      | VArr _ \<Rightarrow> Inl (TypeError ''index key elements must be scalar values'')
      | VObj _ \<Rightarrow> Inl (TypeError ''index key elements must be scalar values''))"

definition encodeIndexKey :: "jvalue list \<Rightarrow> bytes result" where
  "encodeIndexKey values = res_bind (res_map pushElement values) (\<lambda>parts. Inr (concat parts))"

definition indexKeyRangeStart :: "jvalue list \<Rightarrow> bytes result" where
  "indexKeyRangeStart prefix = encodeIndexKey prefix"

definition indexKeyRangeEnd :: "jvalue list \<Rightarrow> bytes option result" where
  "indexKeyRangeEnd prefix =
     (if prefix = [] then Inr None
      else res_bind (encodeIndexKey prefix) (\<lambda>start. Inr (Some (start @ [0xff]))))"

definition compareIndexTuples :: "jvalue list \<Rightarrow> jvalue list \<Rightarrow> cmp result" where
  "compareIndexTuples a b =
     res_bind (encodeIndexKey a) (\<lambda>ka. res_bind (encodeIndexKey b) (\<lambda>kb. Inr (compareKeyBytes ka kb)))"

section \<open>Order of byte strings\<close>

lemma compareKeyBytes_eq: "compareKeyBytes a b = cmp_of a b"
  by (simp add: compareKeyBytes_def byte_diff_cmp_eq lex_cmp_cmp_of)

interpretation keybytes: comparator compareKeyBytes
  unfolding compareKeyBytes_eq by unfold_locales

lemma indexKeysEqual_iff [simp]: "indexKeysEqual a b \<longleftrightarrow> a = b"
  by (simp add: indexKeysEqual_def compareKeyBytes_eq)

section \<open>Numbers\<close>

lemma be_bytes8: "be_bytes 8 x = of_nat (x div 2 ^ 56 mod 256) # be_bytes 7 x"
proof -
  have "be_bytes 8 x = be_bytes (Suc 7) x" by simp
  also have "\<dots> = of_nat (x div 256 ^ 7 mod 256) # be_bytes 7 x" by (rule be_bytes_Suc)
  finally show ?thesis by simp
qed

lemma hd_be_bytes8: "x < 2 ^ 64 \<Longrightarrow> unat (hd (be_bytes 8 x)) = x div 2 ^ 56"
proof -
  assume "x < 2 ^ 64"
  then have "x div 2 ^ 56 < 256" by (simp add: less_mult_imp_div_less)
  then show ?thesis unfolding be_bytes8 by (simp add: mod_less unat_of_nat_small)
qed

lemma hd_be_bytes8_ge: "x < 2 ^ 64 \<Longrightarrow> 128 \<le> unat (hd (be_bytes 8 x)) \<longleftrightarrow> 2 ^ 63 \<le> x"
  by (simp add: hd_be_bytes8 less_eq_div_iff_mult_less_eq)

lemma f64_neg_hd: "128 \<le> unat (hd (be_bytes 8 (unat w))) \<longleftrightarrow> f64_neg w"
  using hd_be_bytes8[of "unat w"] unsigned_less[of w, where 'a = nat] by (auto simp: f64_neg_def)

definition f64_order :: "f64 \<Rightarrow> int" where
  "f64_order w = (if f64_neg w then - 1 - int (f64_mag w) else int (f64_mag w))"

abbreviation f64_canon :: "f64 \<Rightarrow> f64" where
  "f64_canon n \<equiv> if f64_is_nan n then f64_NaN else n"

lemma cmp_be_bytes8_f64: "cmp_of (be_bytes 8 (unat (v :: f64))) (be_bytes 8 (unat (w :: f64))) = cmp_of (unat v) (unat w)"
proof -
  have "unat u mod 256 ^ 8 = unat u" for u :: f64 using unsigned_less[of u, where 'a = nat] by simp
  then show ?thesis by (simp only: cmp_be_bytes)
qed

lemma be_bytes8_Cons: "be_bytes 8 x = hd (be_bytes 8 x) # tl (be_bytes 8 x)"
  by (simp add: be_bytes8)

lemma length_encodeFloat64 [simp]: "length (encodeFloat64 n) = 8"
proof -
  have "length (tl (be_bytes 8 x)) = 7" for x by simp
  then show ?thesis by (simp add: encodeFloat64_def Let_def)
qed

lemma cmp_encodeFloat64:
  "cmp_of (encodeFloat64 a) (encodeFloat64 b) = cmp_of (f64_order (f64_canon a)) (f64_order (f64_canon b))"
proof -
  define v w where "v = f64_canon a" and "w = f64_canon b"
  let ?x = "be_bytes 8 (unat v)" and ?y = "be_bytes 8 (unat w)"
  have enc: "encodeFloat64 a = (if f64_neg v then map (\<lambda>b. b XOR 0xff) ?x else (hd ?x XOR 0x80) # tl ?x)"
    "encodeFloat64 b = (if f64_neg w then map (\<lambda>b. b XOR 0xff) ?y else (hd ?y XOR 0x80) # tl ?y)"
    unfolding encodeFloat64_def Let_def v_def[symmetric] w_def[symmetric] byte_and_0x80 f64_neg_hd by auto
  have x: "?x = hd ?x # tl ?x" and y: "?y = hd ?y # tl ?y" by (rule be_bytes8_Cons)+
  have base: "cmp_of ?x ?y = cmp_of (unat v) (unat w)" by (rule cmp_be_bytes8_f64)
  have uv: "unat v = (if f64_neg v then 2 ^ 63 else 0) + f64_mag v"
    and uw: "unat w = (if f64_neg w then 2 ^ 63 else 0) + f64_mag w" by (rule f64_unat)+
  have hx: "unat (hd ?x) < 128 \<longleftrightarrow> \<not> f64_neg v" and hy: "unat (hd ?y) < 128 \<longleftrightarrow> \<not> f64_neg w"
    using f64_neg_hd[of v] f64_neg_hd[of w] by auto
  consider (nn) "f64_neg v" "f64_neg w" | (np) "f64_neg v" "\<not> f64_neg w"
    | (pn) "\<not> f64_neg v" "f64_neg w" | (pp) "\<not> f64_neg v" "\<not> f64_neg w" by blast
  then have "cmp_of (encodeFloat64 a) (encodeFloat64 b) = cmp_of (f64_order v) (f64_order w)"
  proof cases
    case nn
    then have "cmp_of (encodeFloat64 a) (encodeFloat64 b) = cmp_neg (cmp_of ?x ?y)"
      unfolding enc by (simp add: cmp_of_map_antimono cmp_xor_0xff)
    then show ?thesis unfolding base using nn uv uw by (auto simp: f64_order_def cmp_of_def)
  next
    case pp
    then have "cmp_of (encodeFloat64 a) (encodeFloat64 b) = cmp_then (cmp_of (hd ?x) (hd ?y)) (cmp_of (tl ?x) (tl ?y))"
      unfolding enc using hx hy by (simp add: cmp_of_Cons cmp_xor_0x80)
    also have "\<dots> = cmp_of ?x ?y" by (subst (3) x, subst (3) y) (rule cmp_of_Cons[symmetric])
    finally show ?thesis unfolding base using pp uv uw by (auto simp: f64_order_def cmp_of_def)
  next
    case np
    then have "encodeFloat64 a = (hd ?x XOR 0xff) # map (\<lambda>b. b XOR 0xff) (tl ?x)"
      unfolding enc by (subst (1) x) simp
    moreover have "(hd ?x XOR 0xff) < (hd ?y XOR 0x80)"
      using np hx hy byte_bounds[of "hd ?x"] by (simp add: word_less_nat_alt unat_xor_0xff unat_xor_0x80)
    ultimately have "cmp_of (encodeFloat64 a) (encodeFloat64 b) = CLt"
      using np unfolding enc(2) by (simp add: cmp_of_Cons cmp_of_lt)
    then show ?thesis using np by (simp add: f64_order_def cmp_of_def)
  next
    case pn
    then have "encodeFloat64 b = (hd ?y XOR 0xff) # map (\<lambda>b. b XOR 0xff) (tl ?y)"
      unfolding enc by (subst (1) y) simp
    moreover have "(hd ?y XOR 0xff) < (hd ?x XOR 0x80)"
      using pn hx hy byte_bounds[of "hd ?y"] by (simp add: word_less_nat_alt unat_xor_0xff unat_xor_0x80)
    ultimately have "cmp_of (encodeFloat64 b) (encodeFloat64 a) = CLt"
      using pn unfolding enc(1) by (simp add: cmp_of_Cons cmp_of_lt)
    then have "cmp_of (encodeFloat64 a) (encodeFloat64 b) = CGt"
      using cmp_of_flip[of "encodeFloat64 a" "encodeFloat64 b"] by simp
    then show ?thesis using pn by (simp add: f64_order_def cmp_of_def)
  qed
  then show ?thesis by (simp only: v_def w_def)
qed

lemma f64_order_scaled:
  assumes "v \<noteq> f64_neg_zero" "w \<noteq> f64_neg_zero"
  shows "cmp_of (f64_order v) (f64_order w) = cmp_of (f64_scaled v) (f64_scaled w)"
proof -
  have pos: "f64_neg u \<Longrightarrow> u \<noteq> f64_neg_zero \<Longrightarrow> 0 < scaled_mag (f64_mag u)" for u
    using f64_neg_zero_iff[of u] scaled_mag_0[of "f64_mag u"] by simp
  have mono: "cmp_of (scaled_mag (f64_mag v)) (scaled_mag (f64_mag w)) = cmp_of (f64_mag v) (f64_mag w)"
    by (rule cmp_scaled_mag)
  show ?thesis using assms pos[of v] pos[of w] mono
    by (cases "f64_neg v"; cases "f64_neg w")
      (auto simp: f64_order_def f64_scaled_def cmp_of_def split: if_splits)
qed

lemma f64_order_nan_less: "\<not> f64_is_nan v \<Longrightarrow> f64_order v < f64_order f64_NaN"
proof -
  assume "\<not> f64_is_nan v"
  moreover have "2047 * 2 ^ 52 < f64_mag f64_NaN" using f64_nan_mag[of f64_NaN] by simp
  ultimately show ?thesis using f64_nan_mag[of v] by (auto simp: f64_order_def)
qed

lemma f64_nan_not_neg_zero: "f64_is_nan v \<Longrightarrow> v \<noteq> f64_neg_zero"
  by (auto simp: f64_neg_zero_iff f64_nan_mag)

lemma cmp_encodeFloat64_compareNumbers:
  assumes "a \<noteq> f64_neg_zero" "b \<noteq> f64_neg_zero"
  shows "cmp_of (encodeFloat64 a) (encodeFloat64 b) = compareNumbers a b"
  using assms f64_order_nan_less[of a] f64_order_nan_less[of b] f64_order_scaled[of a b]
  unfolding cmp_encodeFloat64 compareNumbers_def sign_diff Let_def
  by (auto simp: cmp_of_gt cmp_of_lt cmp_of_def[of "f64_order f64_NaN" "f64_order f64_NaN"])

lemma compareNumbers_zero: "compareNumbers f64_neg_zero b = compareNumbers 0 b"
  "compareNumbers a f64_neg_zero = compareNumbers a 0"
proof -
  have "f64_scaled f64_neg_zero = f64_scaled 0" "\<not> f64_is_nan f64_neg_zero" "\<not> f64_is_nan 0"
    by (simp_all add: f64_scaled_def f64_neg_def f64_mag_def f64_neg_zero_def scaled_mag_def f64_nan_mag)
  then show "compareNumbers f64_neg_zero b = compareNumbers 0 b"
    "compareNumbers a f64_neg_zero = compareNumbers a 0" by (simp_all add: compareNumbers_def Let_def)
qed

lemma encodeInt64_Inr:
  "encodeInt64 v = Inr bs \<longleftrightarrow> INT64_MIN \<le> v \<and> v \<le> INT64_MAX \<and>
     bs = (hd (be_bytes 8 (nat (v mod 2 ^ 64))) XOR 0x80) # tl (be_bytes 8 (nat (v mod 2 ^ 64)))"
  by (auto simp: encodeInt64_def Let_def)

lemma int64_bits:
  assumes "INT64_MIN \<le> v" "v \<le> INT64_MAX"
  shows "nat (v mod 2 ^ 64) = (if v < 0 then 2 ^ 63 + nat (v + 2 ^ 63) else nat v)"
proof (cases "v < 0")
  case True
  have "(v + 2 ^ 64) mod 2 ^ 64 = v + 2 ^ 64"
    using True assms by (intro mod_pos_pos_trivial) (auto simp: INT64_MIN_def)
  then have "v mod 2 ^ 64 = v + 2 ^ 64" by simp
  then show ?thesis using True assms by (simp add: INT64_MIN_def nat_add_distrib)
next
  case False
  then have "v mod 2 ^ 64 = v" using assms by (intro mod_pos_pos_trivial) (auto simp: INT64_MAX_def)
  then show ?thesis using False by simp
qed

lemma byte_flip_less: "128 \<le> unat a \<Longrightarrow> unat b < 128 \<Longrightarrow> (a :: byte) XOR 0x80 < b XOR 0x80"
  using byte_bounds[of a] by (simp add: word_less_nat_alt unat_xor_0x80)

lemma cmp_of_nat_shift: "0 \<le> a \<Longrightarrow> 0 \<le> b \<Longrightarrow> cmp_of (c + nat a) (c + nat b) = cmp_of a b"
  by (auto simp: cmp_of_def)

lemma cmp_encodeInt64:
  assumes "encodeInt64 v = Inr a" "encodeInt64 w = Inr b"
  shows "cmp_of a b = cmp_of v w \<and> length a = 8 \<and> length b = 8"
proof -
  let ?m = "nat (v mod 2 ^ 64)" and ?n = "nat (w mod 2 ^ 64)"
  let ?x = "be_bytes 8 ?m" and ?y = "be_bytes 8 ?n"
  have r: "INT64_MIN \<le> v" "v \<le> INT64_MAX" "INT64_MIN \<le> w" "w \<le> INT64_MAX"
    and a: "a = (hd ?x XOR 0x80) # tl ?x" and b: "b = (hd ?y XOR 0x80) # tl ?y"
    using assms by (auto simp: encodeInt64_Inr)
  have small: "?m < 2 ^ 64" "?n < 2 ^ 64" by (simp_all add: nat_less_iff)
  have vm: "?m = (if v < 0 then 2 ^ 63 + nat (v + 2 ^ 63) else nat v)"
    and wn: "?n = (if w < 0 then 2 ^ 63 + nat (w + 2 ^ 63) else nat w)"
    by (rule int64_bits, fact r, fact r)+
  have mv: "2 ^ 63 \<le> ?m \<longleftrightarrow> v < 0" and nw: "2 ^ 63 \<le> ?n \<longleftrightarrow> w < 0"
    unfolding vm wn using r by (simp_all add: INT64_MAX_def not_le, linarith+)
  have hx: "128 \<le> unat (hd ?x) \<longleftrightarrow> v < 0" and hy: "128 \<le> unat (hd ?y) \<longleftrightarrow> w < 0"
    using hd_be_bytes8_ge[OF small(1)] hd_be_bytes8_ge[OF small(2)] mv nw by simp_all
  have base: "cmp_then (cmp_of (hd ?x) (hd ?y)) (cmp_of (tl ?x) (tl ?y)) = cmp_of ?m ?n"
  proof -
    have "cmp_then (cmp_of (hd ?x) (hd ?y)) (cmp_of (tl ?x) (tl ?y)) = cmp_of ?x ?y"
      by (metis be_bytes8_Cons cmp_of_Cons)
    also have "\<dots> = cmp_of ?m ?n" using cmp_be_bytes[of 8 ?m ?n] small by simp
    finally show ?thesis .
  qed
  have "cmp_of a b = cmp_of v w"
  proof (cases "(v < 0) = (w < 0)")
    case True
    then have "unat (hd ?x) < 128 \<longleftrightarrow> unat (hd ?y) < 128" using hx hy by linarith
    then have "cmp_of (hd ?x XOR 0x80) (hd ?y XOR 0x80) = cmp_of (hd ?x) (hd ?y)" by (rule cmp_xor_0x80)
    then have "cmp_of a b = cmp_of ?m ?n" unfolding a b cmp_of_Cons by (simp only: base)
    also have "cmp_of ?m ?n = cmp_of v w"
    proof (cases "v < 0")
      case neg: True
      have "0 \<le> v + 2 ^ 63" "0 \<le> w + 2 ^ 63" using r unfolding INT64_MIN_def by linarith+
      then show ?thesis unfolding vm wn using neg True
        by (simp only: if_True cmp_of_nat_shift) (simp add: cmp_of_def)
    next
      case pos: False
      have "0 \<le> v" "0 \<le> w" using pos True by linarith+
      then show ?thesis unfolding vm wn using pos True cmp_of_nat_shift[of v w 0] by simp
    qed
    finally show ?thesis .
  next
    case False
    have "cmp_of (hd ?x XOR 0x80) (hd ?y XOR 0x80) = cmp_of v w \<and> cmp_of v w \<noteq> CEq"
    proof (cases "v < 0")
      case True
      then have "hd ?x XOR 0x80 < hd ?y XOR 0x80"
        using False hx hy by (intro byte_flip_less) (simp_all only: not_le[symmetric] simp_thms)
      moreover have "v < w" using True False by linarith
      ultimately show ?thesis by (simp only: cmp_of_lt) simp
    next
      case F: False
      then have "hd ?y XOR 0x80 < hd ?x XOR 0x80"
        using False hx hy by (intro byte_flip_less) (simp_all only: not_le[symmetric] simp_thms)
      moreover have "w < v" using F False by linarith
      ultimately show ?thesis by (simp only: cmp_of_gt) simp
    qed
    then have eq: "cmp_of (hd ?x XOR 0x80) (hd ?y XOR 0x80) = cmp_of v w" and ne: "cmp_of v w \<noteq> CEq"
      by blast+
    show ?thesis unfolding a b cmp_of_Cons eq using ne by (rule cmp_then_absorb)
  qed
  moreover have "length a = 8" "length b = 8" unfolding a b by simp_all
  ultimately show ?thesis by simp
qed

section \<open>Strings, bytes and continuations\<close>

text \<open>What may follow an encoded element: nothing, the tag of the next element, or the
  single \<^verbatim>\<open>0xff\<close> of a range end.\<close>

definition continuation :: "bytes \<Rightarrow> bool" where
  "continuation r = (r = [] \<or> unat (hd r) < 255 \<or> r = [0xff])"

lemma pushEscaped_not_Nil [simp]: "pushEscaped bs \<noteq> []"
  by (cases bs) auto

lemma cmp_continuation_escape:
  assumes "continuation r" shows "cmp_of r (0xff # pushEscaped bs @ r') = CLt"
proof (cases r)
  case (Cons x xs)
  then consider "x < 0xff" | "r = [0xff]"
    using assms by (auto simp: continuation_def word_less_nat_alt)
  then show ?thesis
  proof cases
    case 2
    then show ?thesis by (cases bs) (auto simp: cmp_of_def)
  qed (simp add: Cons)
qed simp

lemma cmp_pushEscaped:
  assumes "continuation r" "continuation r'"
  shows "cmp_of (pushEscaped a @ r) (pushEscaped b @ r') = cmp_then (cmp_of a b) (cmp_of r r')"
proof (induction a arbitrary: b)
  case Nil
  show ?case
  proof (cases b)
    case (Cons y ys)
    have "0 < y" if "y \<noteq> 0" using that by (simp add: word_gt_0)
    then show ?thesis using Cons cmp_continuation_escape[OF assms(1), of ys r']
      by (auto simp: cmp_of_Cons cmp_of_lt)
  qed (simp add: cmp_of_Cons)
next
  case (Cons x xs)
  have pos: "z \<noteq> 0 \<Longrightarrow> 0 < z" for z :: byte by (simp add: word_gt_0)
  show ?case
  proof (cases b)
    case Nil
    have "cmp_of (0xff # pushEscaped xs @ r) r' = CGt"
      using cmp_continuation_escape[OF assms(2), of xs r]
        cmp_of_flip[of r' "0xff # pushEscaped xs @ r"] by simp
    then show ?thesis using Nil pos[of x] by (auto simp: cmp_of_Cons cmp_of_gt)
  next
    case (Cons y ys)
    have [simp]: "cmp_of z z = CEq" for z :: byte by simp
    show ?thesis using Cons Cons.IH[of ys] pos[of x] pos[of y]
      by (auto simp: cmp_of_Cons cmp_of_lt cmp_of_gt)
  qed
qed

section \<open>Elements and tuples\<close>

definition tag_of :: "jvalue \<Rightarrow> byte" where
  "tag_of v = (case v of VNull \<Rightarrow> TAG_NULL | VBool b \<Rightarrow> (if b then TAG_TRUE else TAG_FALSE)
     | VNum _ \<Rightarrow> TAG_NUMBER | VBigInt _ \<Rightarrow> TAG_BIGINT | VStr _ \<Rightarrow> TAG_STRING | _ \<Rightarrow> TAG_BYTES)"

lemma pushElement_tag: "pushElement v = Inr e \<Longrightarrow> \<exists>p. e = tag_of v # p"
  by (cases v) (auto simp: pushElement_def tag_of_def res_bind_Inr_iff split: if_splits)

lemma tag_of_less: "unat (tag_of v) < 255"
  by (cases v) (simp_all add: tag_of_def tag_defs)

lemma pushElement_scalar: "pushElement v = Inr e \<Longrightarrow> typeRank v < 6"
  by (cases v) (simp_all add: pushElement_def)

lemma cmp_tag_of:
  assumes "typeRank v \<noteq> typeRank w" "typeRank v < 6" "typeRank w < 6"
  shows "cmp_of (tag_of v) (tag_of w) = compareValues v w"
  using assms by (cases v; cases w; simp add: tag_of_def tag_defs cmp_of_def)

lemma pushElement_continuation: "pushElement v = Inr e \<Longrightarrow> continuation (e @ r)"
  using pushElement_tag[of v e] tag_of_less[of v] by (auto simp: continuation_def)

lemma cmp_pushElement:
  assumes "pushElement v = Inr e" "pushElement w = Inr f" "continuation r" "continuation r'"
  shows "cmp_of (e @ r) (f @ r') = cmp_then (compareValues v w) (cmp_of r r')"
proof (cases "typeRank v = typeRank w")
  case False
  obtain p q where "e = tag_of v # p" "f = tag_of w # q" using pushElement_tag assms(1,2) by meson
  moreover have "cmp_of (tag_of v) (tag_of w) = compareValues v w"
    using False assms(1,2) pushElement_scalar by (intro cmp_tag_of) auto
  moreover have "compareValues v w \<noteq> CEq" using False by simp
  ultimately show ?thesis by (cases "compareValues v w") (simp_all add: cmp_of_Cons cmp_of_lt cmp_of_gt)
next
  case same: True
  show ?thesis
  proof (cases v)
    case VNull
    then show ?thesis using same assms(1,2) by (cases w) (auto simp: pushElement_def cmp_of_Cons)
  next
    case (VBool x)
    then obtain y where "w = VBool y" using same by (cases w) auto
    then show ?thesis using VBool assms(1,2)
      by (cases x; cases y) (auto simp: pushElement_def cmp_of_Cons tag_defs cmp_of_lt cmp_of_gt)
  next
    case (VNum x)
    then obtain y where w: "w = VNum y" using same by (cases w) auto
    define x' y' where "x' = (if x = f64_neg_zero then 0 else x)" and "y' = (if y = f64_neg_zero then 0 else y)"
    have nz: "x' \<noteq> f64_neg_zero" "y' \<noteq> f64_neg_zero"
      by (auto simp: x'_def y'_def f64_neg_zero_def)
    have "e = TAG_NUMBER # encodeFloat64 x'" "f = TAG_NUMBER # encodeFloat64 y'"
      using assms(1,2) VNum w by (auto simp: pushElement_def x'_def y'_def split: if_splits)
    then have "cmp_of (e @ r) (f @ r') = cmp_then (compareNumbers x' y') (cmp_of r r')"
      by (simp add: cmp_of_Cons cmp_of_append cmp_encodeFloat64_compareNumbers nz)
    moreover have "compareNumbers x' y' = compareNumbers x y"
      by (simp add: x'_def y'_def compareNumbers_zero)
    ultimately show ?thesis using VNum w by simp
  next
    case (VBigInt x)
    then obtain y where w: "w = VBigInt y" using same by (cases w) auto
    obtain a b where ab: "encodeInt64 x = Inr a" "encodeInt64 y = Inr b" "e = TAG_BIGINT # a" "f = TAG_BIGINT # b"
      using assms(1,2) VBigInt w by (auto simp: pushElement_def res_bind_Inr_iff)
    then show ?thesis using cmp_encodeInt64[OF ab(1,2)] VBigInt w by (simp add: cmp_of_Cons cmp_of_append)
  next
    case (VStr x)
    then obtain y where "w = VStr y" using same by (cases w) auto
    then show ?thesis using VStr assms
      by (auto simp: pushElement_def cmp_of_Cons cmp_pushEscaped compareKeysUtf8_def compareBytes_eq)
  next
    case (VBytes x)
    then obtain y where "w = VBytes y" using same by (cases w) auto
    then show ?thesis using VBytes assms
      by (auto simp: pushElement_def cmp_of_Cons cmp_pushEscaped compareBytes_eq)
  qed (use assms(1) in \<open>simp_all add: pushElement_def\<close>)
qed

lemma encodeIndexKey_Nil [simp]: "encodeIndexKey [] = Inr []"
  by (simp add: encodeIndexKey_def)

lemma encodeIndexKey_Cons:
  "encodeIndexKey (v # vs) = Inr k \<longleftrightarrow> (\<exists>e k'. pushElement v = Inr e \<and> encodeIndexKey vs = Inr k' \<and> k = e @ k')"
  by (auto simp: encodeIndexKey_def res_bind_Inr_iff)

lemma encodeIndexKey_append:
  "encodeIndexKey (vs @ ws) = Inr k \<longleftrightarrow>
     (\<exists>a b. encodeIndexKey vs = Inr a \<and> encodeIndexKey ws = Inr b \<and> k = a @ b)"
  by (induction vs arbitrary: k) (auto simp: encodeIndexKey_Cons)

lemma encodeIndexKey_continuation:
  "encodeIndexKey vs = Inr k \<Longrightarrow> continuation r \<Longrightarrow> continuation (k @ r)"
  by (cases vs) (auto simp: encodeIndexKey_Cons intro: pushElement_continuation)

text \<open>The general comparison: two encoded tuples, each with its continuation, of which
  the tuples have the same length.\<close>

lemma cmp_encodeIndexKey_continuations:
  assumes "length vs = length ws" "encodeIndexKey vs = Inr a" "encodeIndexKey ws = Inr b"
    "continuation r" "continuation r'"
  shows "cmp_of (a @ r) (b @ r') = cmp_then (lex_cmp compareValues vs ws) (cmp_of r r')"
  using assms
proof (induction vs ws arbitrary: a b rule: list_induct2)
  case (Cons v vs w ws)
  obtain e a' f b' where *: "pushElement v = Inr e" "encodeIndexKey vs = Inr a'" "a = e @ a'"
    "pushElement w = Inr f" "encodeIndexKey ws = Inr b'" "b = f @ b'"
    using Cons.prems(1,2) by (auto simp: encodeIndexKey_Cons)
  have "cmp_of (a @ r) (b @ r') = cmp_then (compareValues v w) (cmp_of (a' @ r) (b' @ r'))"
    using * Cons.prems(3,4) by (simp add: cmp_pushElement encodeIndexKey_continuation)
  also have "\<dots> = cmp_then (compareValues v w) (cmp_then (lex_cmp compareValues vs ws) (cmp_of r r'))"
    using Cons.IH[OF *(2,5) Cons.prems(3,4)] by simp
  finally show ?case by simp
qed simp

text \<open>C29. Byte order of encoded index keys is the canonical order of the tuples they
  encode: for any two tuples the codec accepts, comparing the encoded bytes gives
  exactly the element-wise \<open>compareValues\<close> order, with a proper prefix first.\<close>

theorem encodeIndexKey_order:
  assumes "encodeIndexKey a = Inr ka" and "encodeIndexKey b = Inr kb"
  shows "compareKeyBytes ka kb = lex_cmp compareValues a b"
  unfolding compareKeyBytes_eq
proof -
  have cont: "continuation []" by (simp add: continuation_def)
  show "cmp_of ka kb = lex_cmp compareValues a b"
    using assms
  proof (induction compareValues a b arbitrary: ka kb rule: lex_cmp.induct)
    case (2 y ys)
    then obtain e k where "kb = e @ k" "pushElement y = Inr e" by (auto simp: encodeIndexKey_Cons)
    then show ?case using 2 pushElement_tag[of y e] by (auto simp: encodeIndexKey_def)
  next
    case (3 x xs)
    then obtain e k where "ka = e @ k" "pushElement x = Inr e" by (auto simp: encodeIndexKey_Cons)
    then show ?case using 3 pushElement_tag[of x e] by (auto simp: encodeIndexKey_def)
  next
    case (4 x xs y ys)
    then obtain e k f k' where *: "ka = e @ k" "pushElement x = Inr e" "encodeIndexKey xs = Inr k"
      "kb = f @ k'" "pushElement y = Inr f" "encodeIndexKey ys = Inr k'" by (auto simp: encodeIndexKey_Cons)
    have "continuation k" "continuation k'"
      using encodeIndexKey_continuation[OF *(3) cont] encodeIndexKey_continuation[OF *(6) cont] by simp_all
    then show ?case using * 4(1)[OF *(3,6)] by (simp add: cmp_pushElement)
  qed (simp add: encodeIndexKey_def)
qed

theorem encodeIndexKey_order_witness:
  "compareKeyBytes [TAG_STRING, 97, 0, TAG_NULL] [TAG_STRING, 97, 0, TAG_TRUE] = CLt"
proof -
  have "encodeIndexKey [VStr [97], VNull] = Inr [TAG_STRING, 97, 0, TAG_NULL]"
    "encodeIndexKey [VStr [97], VBool True] = Inr [TAG_STRING, 97, 0, TAG_TRUE]"
    by (simp_all add: encodeIndexKey_def pushElement_def utf8_encode_def utf8_code_point_def
        is_high_surrogate_def is_low_surrogate_def)
  from encodeIndexKey_order[OF this] show ?thesis
    by (simp add: compareKeysUtf8_def compareBytes_eq)
qed

section \<open>Prefix ranges\<close>

lemma encodeIndexKey_cont_lt:
  assumes "encodeIndexKey vs = Inr k" shows "continuation k" "cmp_of k [0xff] = CLt"
proof -
  show "continuation k" using encodeIndexKey_continuation[OF assms, of "[]"] by (simp add: continuation_def)
  show "cmp_of k [0xff] = CLt"
  proof (cases vs)
    case Nil
    then show ?thesis using assms by (simp add: encodeIndexKey_def)
  next
    case (Cons v ws)
    then obtain e k' where k: "k = e @ k'" "pushElement v = Inr e" using assms by (auto simp: encodeIndexKey_Cons)
    then obtain p where "e = tag_of v # p" using pushElement_tag by blast
    then show ?thesis using k tag_of_less[of v] by (simp add: cmp_of_Cons cmp_of_lt word_less_nat_alt)
  qed
qed

lemma cmp_key_prefix:
  assumes "encodeIndexKey t = Inr k" "encodeIndexKey q = Inr s" "length q \<le> length t"
  shows "cmp_of k s \<noteq> CLt \<longleftrightarrow> lex_cmp compareValues (take (length q) t) q \<noteq> CLt"
    and "cmp_of k (s @ [0xff]) = CLt \<longleftrightarrow> lex_cmp compareValues (take (length q) t) q \<noteq> CGt"
    and "cmp_of k (s @ [0xff]) \<noteq> CEq"
proof -
  let ?t1 = "take (length q) t" and ?t2 = "drop (length q) t"
  obtain a b where ab: "encodeIndexKey ?t1 = Inr a" "encodeIndexKey ?t2 = Inr b" "k = a @ b"
    using assms(1) encodeIndexKey_append[of ?t1 ?t2 k] by auto
  note b = encodeIndexKey_cont_lt[OF ab(2)]
  have len: "length ?t1 = length q" using assms(3) by simp
  have 1: "cmp_of (a @ b) (s @ []) = cmp_then (lex_cmp compareValues ?t1 q) (cmp_of b [])"
    by (rule cmp_encodeIndexKey_continuations[OF len ab(1) assms(2) b(1)]) (simp add: continuation_def)
  have 2: "cmp_of (a @ b) (s @ [0xff]) = cmp_then (lex_cmp compareValues ?t1 q) CLt"
    using cmp_encodeIndexKey_continuations[OF len ab(1) assms(2) b(1), of "[0xff]"] b(2)
    by (simp add: continuation_def)
  have "cmp_of b [] \<noteq> CLt" by simp
  then show "cmp_of k s \<noteq> CLt \<longleftrightarrow> lex_cmp compareValues ?t1 q \<noteq> CLt"
    using 1 ab(3) by (cases "lex_cmp compareValues ?t1 q") auto
  show "cmp_of k (s @ [0xff]) = CLt \<longleftrightarrow> lex_cmp compareValues ?t1 q \<noteq> CGt"
    "cmp_of k (s @ [0xff]) \<noteq> CEq"
    unfolding ab(3) 2 by (cases "lex_cmp compareValues ?t1 q"; simp)+
qed

lemma cmp_key_shorter:
  assumes "encodeIndexKey t = Inr k" "encodeIndexKey q = Inr s" "length t < length q"
  shows "cmp_of k s = cmp_then (lex_cmp compareValues t (take (length t) q)) CLt"
    and "cmp_of k (s @ [0xff]) = cmp_then (lex_cmp compareValues t (take (length t) q)) CLt"
proof -
  let ?q1 = "take (length t) q" and ?q2 = "drop (length t) q"
  obtain a b where ab: "encodeIndexKey ?q1 = Inr a" "encodeIndexKey ?q2 = Inr b" "s = a @ b"
    using assms(2) encodeIndexKey_append[of ?q1 ?q2 s] by auto
  obtain v vs where "?q2 = v # vs" using assms(3) by (cases ?q2) auto
  then obtain e k' where "b = e @ k'" "pushElement v = Inr e" using ab(2) by (auto simp: encodeIndexKey_Cons)
  then obtain p where b: "b = tag_of v # p" using pushElement_tag by fastforce
  have cont: "continuation []" "continuation b" "continuation (b @ [0xff])"
    using b tag_of_less[of v] by (auto simp: continuation_def)
  have len: "length t = length ?q1" using assms(3) by simp
  have "cmp_of (k @ []) (a @ b) = cmp_then (lex_cmp compareValues t ?q1) (cmp_of [] b)"
    by (rule cmp_encodeIndexKey_continuations[OF len assms(1) ab(1) cont(1,2)])
  then show "cmp_of k s = cmp_then (lex_cmp compareValues t ?q1) CLt"
    unfolding ab(3) using b by (simp add: cmp_of_lt)
  have "cmp_of (k @ []) (a @ b @ [0xff]) = cmp_then (lex_cmp compareValues t ?q1) (cmp_of [] (b @ [0xff]))"
    by (rule cmp_encodeIndexKey_continuations[OF len assms(1) ab(1) cont(1,3)])
  then show "cmp_of k (s @ [0xff]) = cmp_then (lex_cmp compareValues t ?q1) CLt"
    unfolding ab(3) using b by (simp add: cmp_of_lt)
qed

text \<open>The byte interval from \<open>indexKeyRangeStart\<close> to \<open>indexKeyRangeEnd\<close> of a prefix
  holds an encoded key exactly when the key's tuple begins with that prefix (element by
  element, under the canonical value equality); the empty prefix covers every key.\<close>

theorem indexKeyRange_exact:
  assumes "encodeIndexKey t = Inr k" and "indexKeyRangeStart p = Inr s" and "indexKeyRangeEnd p = Inr e"
  shows "(compareKeyBytes k s \<noteq> CLt \<and> (case e of None \<Rightarrow> True | Some b \<Rightarrow> compareKeyBytes k b = CLt)) \<longleftrightarrow>
    (length p \<le> length t \<and> list_all2 valuesEqual (take (length p) t) p)"
proof -
  have s: "encodeIndexKey p = Inr s" using assms(2) by (simp add: indexKeyRangeStart_def)
  have eq: "list_all2 valuesEqual (take (length p) t) p \<longleftrightarrow> lex_cmp compareValues (take (length p) t) p = CEq"
    unfolding lex_cmp_eq_iff valuesEqual_def ..
  show ?thesis
  proof (cases "p = []")
    case True
    then show ?thesis using assms(3) s by (simp add: indexKeyRangeEnd_def compareKeyBytes_eq)
  next
    case False
    then have e: "e = Some (s @ [0xff])" using assms(3) s by (simp add: indexKeyRangeEnd_def)
    show ?thesis
    proof (cases "length p \<le> length t")
      case True
      show ?thesis using True cmp_key_prefix[OF assms(1) s True]
        unfolding e eq compareKeyBytes_eq by (cases "lex_cmp compareValues (take (length p) t) p") auto
    next
      case False
      then show ?thesis using cmp_key_shorter[OF assms(1) s]
        unfolding e compareKeyBytes_eq by (cases "lex_cmp compareValues t (take (length t) p)") auto
    qed
  qed
qed

theorem indexKeyRange_exact_witness:
  "compareKeyBytes [TAG_STRING, 97, 0, TAG_NULL] [TAG_STRING, 97, 0] \<noteq> CLt \<and>
   compareKeyBytes [TAG_STRING, 97, 0, TAG_NULL] [TAG_STRING, 97, 0, 0xff] = CLt"
proof -
  have enc: "encodeIndexKey [VStr [97], VNull] = Inr [TAG_STRING, 97, 0, TAG_NULL]"
    "indexKeyRangeStart [VStr [97]] = Inr [TAG_STRING, 97, 0]"
    "indexKeyRangeEnd [VStr [97]] = Inr (Some [TAG_STRING, 97, 0, 0xff])"
    by (simp_all add: encodeIndexKey_def pushElement_def utf8_encode_def utf8_code_point_def
        is_high_surrogate_def is_low_surrogate_def indexKeyRangeStart_def indexKeyRangeEnd_def)
  show ?thesis using indexKeyRange_exact[OF enc] by (simp add: valuesEqual_def)
qed

end
