(* ===== verification/Json_Codec.thy ===== *)
theory Json_Codec
  imports Js_Values
begin

text \<open>
  \<^verbatim>\<open>packages/values/src/json.ts\<close>: the tagged JSON transport form of values.
  \<open>obj_set\<close> is JavaScript property assignment on a fresh object (own-property order),
  \<open>obj_ok\<close> says a property list is one an object can have, and the round trip is proved
  for every value whose objects are such lists and whose bigints are int64.
\<close>

section \<open>Own properties\<close>

definition array_index :: "jsstring \<Rightarrow> nat option" where
  "array_index s = (let n = digits_value s
     in if list_all is_digit s \<and> nat_dec n = s \<and> n < 4294967295 then Some n else None)"

definition before_index :: "nat \<Rightarrow> jsstring \<times> 'v \<Rightarrow> bool" where
  "before_index n e = (case array_index (fst e) of Some m \<Rightarrow> m < n | None \<Rightarrow> False)"

text \<open>Assign a property: overwrite in place, or create it at its place in the
  own-property order. The \<^verbatim>\<open>__proto__\<close> branch of the source creates an ordinary own
  property too, so it needs no case of its own.\<close>

definition setObjectKey :: "(jsstring \<times> 'v) list \<Rightarrow> jsstring \<Rightarrow> 'v \<Rightarrow> (jsstring \<times> 'v) list" where
  "setObjectKey obj key v =
     (if key \<in> fst ` set obj then AList.update key v obj
      else (case array_index key of
              None \<Rightarrow> obj @ [(key, v)]
            | Some n \<Rightarrow> takeWhile (before_index n) obj @ (key, v) # dropWhile (before_index n) obj))"

definition obj_from :: "(jsstring \<times> 'v) list \<Rightarrow> (jsstring \<times> 'v) list" where
  "obj_from es = foldl (\<lambda>obj e. setObjectKey obj (fst e) (snd e)) [] es"

text \<open>\<open>k\<close> may stand before \<open>k'\<close> in an own-property list.\<close>

definition key_before :: "jsstring \<Rightarrow> jsstring \<Rightarrow> bool" where
  "key_before k k' = (case array_index k' of
       None \<Rightarrow> True
     | Some m \<Rightarrow> (case array_index k of Some n \<Rightarrow> n < m | None \<Rightarrow> False))"

definition obj_ok :: "(jsstring \<times> 'v) list \<Rightarrow> bool" where
  "obj_ok es = (distinct (map fst es) \<and> sorted_wrt key_before (map fst es))"

lemma setObjectKey_append:
  assumes "obj_ok (es @ [(k, v)])"
  shows "setObjectKey es k v = es @ [(k, v)]"
proof -
  have k: "k \<notin> fst ` set es" and b: "\<And>e. e \<in> set es \<Longrightarrow> key_before (fst e) k"
    using assms by (auto simp: obj_ok_def sorted_wrt_append)
  show ?thesis
  proof (cases "array_index k")
    case None
    then show ?thesis using k by (simp add: setObjectKey_def)
  next
    case (Some n)
    then have "e \<in> set es \<Longrightarrow> before_index n e" for e
      using b[of e] by (auto simp: key_before_def before_index_def split: option.splits)
    then have "takeWhile (before_index n) es = es" "dropWhile (before_index n) es = []"
      by (auto simp: takeWhile_eq_all_conv)
    then show ?thesis using k Some by (simp add: setObjectKey_def)
  qed
qed

lemma obj_from_ok [codec_simps]: "obj_ok es \<Longrightarrow> obj_from es = es"
proof (induction es rule: rev_induct)
  case (snoc e es)
  have "obj_ok es" using snoc.prems by (auto simp: obj_ok_def sorted_wrt_append)
  then show ?case using snoc setObjectKey_append[of es "fst e" "snd e"] by (simp add: obj_from_def)
qed (simp add: obj_from_def)

section \<open>The codec (json.ts)\<close>

definition bytesToBase64 :: "bytes \<Rightarrow> jsstring" where
  "bytesToBase64 bs = btoa bs"

definition base64ToBytes :: "jsstring \<Rightarrow> bytes result" where
  "base64ToBytes b64 = atob b64"

definition int64ToBytes :: "int \<Rightarrow> bytes" where
  "int64ToBytes v = le_bytes 8 (nat (v mod 2 ^ 64))"

definition asIntN64 :: "int \<Rightarrow> int" where
  "asIntN64 x = (let u = x mod 2 ^ 64 in if u < 2 ^ 63 then u else u - 2 ^ 64)"

definition bytesToInt64 :: "bytes \<Rightarrow> int result" where
  "bytesToInt64 bs =
     (if length bs < 8 then Inl (TypeError ''Cannot convert undefined to a BigInt'')
      else Inr (asIntN64 (int (of_le_bytes (take 8 bs)))))"

definition float64ToBytes :: "f64 \<Rightarrow> bytes" where
  "float64ToBytes v = le_bytes 8 (unat v)"

definition bytesToFloat64 :: "bytes \<Rightarrow> f64 result" where
  "bytesToFloat64 bs =
     (if length bs < 8 then Inl (RangeError ''Invalid DataView length'')
      else Inr (of_nat (of_le_bytes (take 8 bs))))"

abbreviation dollar :: "16 word" where
  "dollar \<equiv> 36"

definition escapeKey :: "jsstring \<Rightarrow> jsstring" where
  "escapeKey k = (if k \<noteq> [] \<and> hd k = dollar then dollar # k else k)"

definition unescapeKey :: "jsstring \<Rightarrow> jsstring" where
  "unescapeKey k = (if 2 \<le> length k \<and> hd k = dollar \<and> hd (tl k) = dollar then tl k else k)"

definition tag_integer :: jsstring where "tag_integer = js ''$integer''"
definition tag_float :: jsstring where "tag_float = js ''$float''"
definition tag_bytes :: jsstring where "tag_bytes = js ''$bytes''"

fun convexToJson :: "jvalue \<Rightarrow> json" where
  "convexToJson VNull = JNull"
| "convexToJson (VBool b) = JBool b"
| "convexToJson (VStr s) = JStr s"
| "convexToJson (VNum n) =
     (if f64_is_finite n then JNum n else JObj [(tag_float, JStr (bytesToBase64 (float64ToBytes n)))])"
| "convexToJson (VBigInt i) = JObj [(tag_integer, JStr (bytesToBase64 (int64ToBytes i)))]"
| "convexToJson (VBytes bs) = JObj [(tag_bytes, JStr (bytesToBase64 bs))]"
| "convexToJson (VArr vs) = JArr (map convexToJson vs)"
| "convexToJson (VObj es) = JObj (obj_from (map (\<lambda>(k, v). (escapeKey k, convexToJson v)) es))"

fun jsonToConvex :: "json \<Rightarrow> jvalue result" where
  "jsonToConvex JNull = Inr VNull"
| "jsonToConvex (JBool b) = Inr (VBool b)"
| "jsonToConvex (JNum n) = Inr (VNum n)"
| "jsonToConvex (JStr s) = Inr (VStr s)"
| "jsonToConvex (JArr xs) = res_bind (res_map jsonToConvex xs) (\<lambda>vs. Inr (VArr vs))"
| "jsonToConvex (JObj es) =
     (let plain = res_bind (res_map (\<lambda>e. res_bind (jsonToConvex (snd e)) (\<lambda>v. Inr (unescapeKey (fst e), v))) es)
                    (\<lambda>out. Inr (VObj (obj_from out)))
      in case es of
           [(k, JStr raw)] \<Rightarrow>
             (if k = tag_integer then res_bind (res_bind (base64ToBytes raw) bytesToInt64) (\<lambda>i. Inr (VBigInt i))
              else if k = tag_float then res_bind (res_bind (base64ToBytes raw) bytesToFloat64) (\<lambda>n. Inr (VNum n))
              else if k = tag_bytes then res_bind (base64ToBytes raw) (\<lambda>bs. Inr (VBytes bs))
              else plain)
         | _ \<Rightarrow> plain)"

section \<open>Round trip\<close>

definition int64_range :: "int \<Rightarrow> bool" where
  "int64_range i = (- (2 ^ 63) \<le> i \<and> i < 2 ^ 63)"

fun value_ok :: "jvalue \<Rightarrow> bool" where
  "value_ok (VBigInt i) = int64_range i"
| "value_ok (VArr vs) = list_all value_ok vs"
| "value_ok (VObj es) = (obj_ok es \<and> list_all (\<lambda>e. value_ok (snd e)) es)"
| "value_ok _ = True"

lemma unescape_escape [simp]: "unescapeKey (escapeKey k) = k"
  by (cases k) (auto simp: escapeKey_def unescapeKey_def)

lemma escapeKey_inj [simp]: "escapeKey a = escapeKey b \<longleftrightarrow> a = b"
  by (metis unescape_escape)

lemma not_digit_dollar [simp]: "\<not> is_digit dollar"
  by (simp add: is_digit_def)

lemma array_index_escapeKey [simp]: "array_index (escapeKey k) = array_index k"
  by (cases k) (auto simp: escapeKey_def array_index_def Let_def)

lemma map_fst_escape: "map fst (map (\<lambda>(k, v). (escapeKey k, f v)) es) = map escapeKey (map fst es)"
  by (induction es) auto

lemma key_before_escape [simp]: "key_before (escapeKey a) (escapeKey b) = key_before a b"
  unfolding key_before_def array_index_escapeKey ..

lemma obj_ok_escape: "obj_ok es \<Longrightarrow> obj_ok (map (\<lambda>(k, v). (escapeKey k, f v)) es)"
  unfolding obj_ok_def map_fst_escape distinct_map[of escapeKey] sorted_wrt_map[of _ escapeKey]
  by (simp add: inj_on_def)

lemma escapeKey_not_tag: "escapeKey k \<noteq> tag_integer" "escapeKey k \<noteq> tag_float" "escapeKey k \<noteq> tag_bytes"
  by (cases k; auto simp: escapeKey_def tag_integer_def tag_float_def tag_bytes_def js_def)+

lemma asIntN64_id: "int64_range i \<Longrightarrow> asIntN64 (i mod 2 ^ 64) = i"
proof -
  assume i: "int64_range i"
  show ?thesis
  proof (cases "0 \<le> i")
    case True
    then show ?thesis using i by (simp add: asIntN64_def int64_range_def)
  next
    case False
    then have "(i + 2 ^ 64) mod 2 ^ 64 = i + 2 ^ 64" using i by (intro mod_pos_pos_trivial) (auto simp: int64_range_def)
    then have "i mod 2 ^ 64 = i + 2 ^ 64" by simp
    then show ?thesis using i False by (simp add: asIntN64_def int64_range_def)
  qed
qed

lemma bytesToInt64_int64ToBytes: "bytesToInt64 (int64ToBytes i) = Inr (asIntN64 i)"
proof -
  have "nat (i mod 2 ^ 64) < 2 ^ 64" by (simp add: nat_less_iff)
  then have "nat (i mod 2 ^ 64) mod 256 ^ 8 = nat (i mod 2 ^ 64)" by simp
  then show ?thesis
    by (simp add: bytesToInt64_def int64ToBytes_def of_le_bytes_le_bytes asIntN64_def del: power_numeral)
qed

lemma f64_unat_less: "unat (n :: f64) < 18446744073709551616"
  using unsigned_less[of n] by simp

lemma bytesToFloat64_float64ToBytes: "bytesToFloat64 (float64ToBytes n) = Inr n"
proof -
  have "unat n mod 256 ^ 8 = unat n" using f64_unat_less[of n] by simp
  then show ?thesis by (simp add: bytesToFloat64_def float64ToBytes_def of_le_bytes_le_bytes del: power_numeral)
qed

lemma jsonToConvex_plain:
  assumes "\<And>k raw. es = [(k, JStr raw)] \<Longrightarrow> k \<noteq> tag_integer \<and> k \<noteq> tag_float \<and> k \<noteq> tag_bytes"
  shows "jsonToConvex (JObj es) =
    res_bind (res_map (\<lambda>e. res_bind (jsonToConvex (snd e)) (\<lambda>v. Inr (unescapeKey (fst e), v))) es)
      (\<lambda>out. Inr (VObj (obj_from out)))"
  using assms by (auto simp: Let_def split: list.splits json.splits)

lemma json_roundtrip [codec_simps]: "value_ok v \<Longrightarrow> jsonToConvex (convexToJson v) = Inr v"
proof (induction v)
  case (VNum n)
  then show ?case
    by (simp add: tag_integer_def tag_float_def js_def bytesToBase64_def base64ToBytes_def
        bytesToFloat64_float64ToBytes)
next
  case (VBigInt i)
  then show ?case
    using asIntN64_id[of i] bytesToInt64_int64ToBytes[of i]
    by (simp add: bytesToBase64_def base64ToBytes_def asIntN64_def)
next
  case (VBytes bs)
  then show ?case
    by (simp add: tag_integer_def tag_float_def tag_bytes_def js_def bytesToBase64_def base64ToBytes_def)
next
  case (VArr vs)
  then have "res_map jsonToConvex (map convexToJson vs) = Inr vs"
    by (induction vs) auto
  then show ?case by simp
next
  case (VObj es)
  let ?enc = "map (\<lambda>(k, v). (escapeKey k, convexToJson v)) es"
  have ok: "obj_ok es" "\<And>k v. (k, v) \<in> set es \<Longrightarrow> jsonToConvex (convexToJson v) = Inr v"
    using VObj by (auto simp: list_all_iff)
  have "res_map (\<lambda>e. res_bind (jsonToConvex (snd e)) (\<lambda>v. Inr (unescapeKey (fst e), v))) ?enc = Inr es"
    unfolding res_map_Inr_iff list.rel_map by (rule list.rel_refl_strong) (use ok(2) in auto)
  moreover have "jsonToConvex (JObj ?enc) =
      res_bind (res_map (\<lambda>e. res_bind (jsonToConvex (snd e)) (\<lambda>v. Inr (unescapeKey (fst e), v))) ?enc)
        (\<lambda>out. Inr (VObj (obj_from out)))"
    by (rule jsonToConvex_plain) (auto simp: escapeKey_not_tag)
  moreover have "convexToJson (VObj es) = JObj ?enc"
    using obj_from_ok[OF obj_ok_escape[OF ok(1)]] by simp
  ultimately show ?case using obj_from_ok[OF ok(1)] by (simp only: res_bind_simps)
qed simp_all

text \<open>C38. Decoding the JSON form of a value gives the value back, for every value whose bigints fit
  64 bits and whose objects list their keys as JavaScript does.\<close>

theorem jsonToConvex_convexToJson: "value_ok v \<Longrightarrow> jsonToConvex (convexToJson v) = Inr v"
  by (rule json_roundtrip)

theorem jsonToConvex_convexToJson_witness:
  "jsonToConvex (convexToJson (VArr [VNull, VBigInt (-5), VBytes [1, 2], VObj [(js ''$k'', VBool True)]])) =
     Inr (VArr [VNull, VBigInt (-5), VBytes [1, 2], VObj [(js ''$k'', VBool True)]])"
  by (rule jsonToConvex_convexToJson) (simp add: int64_range_def obj_ok_def)

end
