(* ===== verification/Key_Ranges.thy ===== *)
theory Key_Ranges
  imports Index_Keys Json_Codec
begin

text \<open>
  \<^verbatim>\<open>packages/index-key-codec/src/keyspace.ts\<close>, \<^verbatim>\<open>range.ts\<close> and
  \<^verbatim>\<open>serialize.ts\<close>: keyspaces, half-open key ranges, the \<open>RangeSet\<close> a transaction
  collects, and the wire form of ranges.
\<close>

section \<open>Keyspaces (keyspace.ts)\<close>

datatype keyspace = TableKeyspace jsstring | IndexKeyspace jsstring jsstring

abbreviation colon :: "16 word" where
  "colon \<equiv> 58"

definition tableKeyspaceId :: "jsstring \<Rightarrow> jsstring" where
  "tableKeyspaceId table = js ''table:'' @ table"

definition indexKeyspaceId :: "jsstring \<Rightarrow> jsstring \<Rightarrow> jsstring" where
  "indexKeyspaceId table index = js ''index:'' @ table @ colon # index"

fun keyspaceId :: "keyspace \<Rightarrow> jsstring" where
  "keyspaceId (TableKeyspace table) = js ''table:'' @ table"
| "keyspaceId (IndexKeyspace table index) = js ''index:'' @ table @ colon # index"

definition parseKeyspaceId :: "jsstring \<Rightarrow> keyspace result" where
  "parseKeyspaceId ident =
     (let parts = js_split colon ident
      in if parts ! 0 = js ''table'' \<and> length parts = 2 then Inr (TableKeyspace (parts ! 1))
         else if parts ! 0 = js ''index'' \<and> 3 \<le> length parts
              then Inr (IndexKeyspace (parts ! 1) (js_join colon (drop 2 parts)))
         else Inl (GenericError ''invalid keyspace id''))"

fun keyspace_table :: "keyspace \<Rightarrow> jsstring" where
  "keyspace_table (TableKeyspace t) = t"
| "keyspace_table (IndexKeyspace t i) = t"

definition tableOfKeyspaceId :: "jsstring \<Rightarrow> jsstring result" where
  "tableOfKeyspaceId ident = res_bind (parseKeyspaceId ident) (\<lambda>k. Inr (keyspace_table k))"

lemma js_literal_split:
  "js_split colon (js ''table:'' @ s) = js ''table'' # js_split colon s"
  "js_split colon (js ''index:'' @ s) = js ''index'' # js_split colon s"
  by (simp_all add: js_def)

lemma parse_table [codec_simps]:
  "colon \<notin> set t \<Longrightarrow> parseKeyspaceId (tableKeyspaceId t) = Inr (TableKeyspace t)"
  by (simp add: parseKeyspaceId_def tableKeyspaceId_def js_literal_split js_split_no_sep Let_def)

lemma parse_index [codec_simps]:
  assumes "colon \<notin> set t"
  shows "parseKeyspaceId (indexKeyspaceId t i) = Inr (IndexKeyspace t i)"
proof -
  obtain p ps where "js_split colon i = p # ps" by (cases "js_split colon i") auto
  then show ?thesis using js_join_split[of colon i]
    by (simp add: parseKeyspaceId_def indexKeyspaceId_def js_literal_split js_split_append[OF assms]
        Let_def js_def)
qed

lemma tableOf_table [simp]: "colon \<notin> set t \<Longrightarrow> tableOfKeyspaceId (tableKeyspaceId t) = Inr t"
  by (simp add: tableOfKeyspaceId_def parse_table)

lemma tableOf_index [simp]: "colon \<notin> set t \<Longrightarrow> tableOfKeyspaceId (indexKeyspaceId t i) = Inr t"
  by (simp add: tableOfKeyspaceId_def parse_index)

section \<open>Ranges (range.ts)\<close>

record key_range =
  keyspace :: jsstring
  start :: bytes
  end_of :: "bytes option"

abbreviation mk_range :: "jsstring \<Rightarrow> bytes \<Rightarrow> bytes option \<Rightarrow> key_range" where
  "mk_range ks s e \<equiv> \<lparr>keyspace = ks, start = s, end_of = e\<rparr>"

definition keySuccessor :: "bytes \<Rightarrow> bytes" where
  "keySuccessor key = key @ [0x00]"

definition keyInRange :: "bytes \<Rightarrow> key_range \<Rightarrow> bool" where
  "keyInRange key rng =
     (if compareKeyBytes key (start rng) = CLt then False
      else (case end_of rng of None \<Rightarrow> True | Some e \<Rightarrow> compareKeyBytes key e = CLt))"

definition rangesOverlap :: "key_range \<Rightarrow> key_range \<Rightarrow> bool" where
  "rangesOverlap a b =
     (if keyspace a \<noteq> keyspace b then False
      else (let aStartLtBEnd = (case end_of b of None \<Rightarrow> True | Some e \<Rightarrow> compareKeyBytes (start a) e = CLt);
                bStartLtAEnd = (case end_of a of None \<Rightarrow> True | Some e \<Rightarrow> compareKeyBytes (start b) e = CLt)
            in aStartLtBEnd \<and> bStartLtAEnd))"

text \<open>The keys a range covers, as a set of keyspace-tagged keys.\<close>

definition range_keys :: "key_range \<Rightarrow> (jsstring \<times> bytes) set" where
  "range_keys r = {(ks, k). ks = keyspace r \<and> keyInRange k r}"

definition range_nonempty :: "key_range \<Rightarrow> bool" where
  "range_nonempty r = (case end_of r of None \<Rightarrow> True | Some e \<Rightarrow> compareKeyBytes (start r) e = CLt)"

lemma keyInRange_iff [range_simps]:
  "keyInRange k r \<longleftrightarrow> start r \<le> k \<and> (case end_of r of None \<Rightarrow> True | Some e \<Rightarrow> k < e)"
  by (auto simp: keyInRange_def compareKeyBytes_eq split: option.splits)

lemma rangesOverlap_iff [range_simps]:
  "rangesOverlap a b \<longleftrightarrow> keyspace a = keyspace b \<and>
     (case end_of b of None \<Rightarrow> True | Some e \<Rightarrow> start a < e) \<and>
     (case end_of a of None \<Rightarrow> True | Some e \<Rightarrow> start b < e)"
  by (auto simp: rangesOverlap_def compareKeyBytes_eq Let_def split: option.splits)

lemma range_nonempty_iff [range_simps]:
  "range_nonempty r \<longleftrightarrow> (case end_of r of None \<Rightarrow> True | Some e \<Rightarrow> start r < e)"
  by (auto simp: range_nonempty_def compareKeyBytes_eq split: option.splits)

lemma rangesOverlap_sym: "rangesOverlap a b = rangesOverlap b a"
  by (auto simp: range_simps split: option.splits)

lemma bytes_less_succ: "k < k @ [0 :: byte]"
  by (induction k) auto

lemma bytes_between_succ: "k \<le> k' \<Longrightarrow> k' < k @ [0 :: byte] \<Longrightarrow> k' = k"
proof (induction k arbitrary: k')
  case Nil
  then show ?case by (cases k') (auto simp: word_gt_0)
next
  case (Cons x k)
  then show ?case by (cases k') auto
qed

lemma keyInRange_point [range_simps]:
  "keyInRange k' (mk_range ks k (Some (keySuccessor k))) \<longleftrightarrow> k' = k"
  using bytes_less_succ[of k] bytes_between_succ[of k k'] by (auto simp: keyInRange_iff keySuccessor_def)

lemma range_nonempty_point [simp]: "range_nonempty (mk_range ks k (Some (keySuccessor k)))"
  by (simp add: range_nonempty_iff keySuccessor_def bytes_less_succ)

text \<open>Two non-empty ranges overlap in the code's sense exactly when some key lies in
  both: no spurious invalidation and none missed.\<close>

theorem rangesOverlap_exact:
  assumes "range_nonempty a" and "range_nonempty b"
  shows "rangesOverlap a b \<longleftrightarrow> range_keys a \<inter> range_keys b \<noteq> {}"
proof
  assume o: "rangesOverlap a b"
  let ?k = "max (start a) (start b)"
  have "keyInRange ?k a" "keyInRange ?k b"
    using o assms by (auto simp: range_simps max_def split: option.splits)
  then show "range_keys a \<inter> range_keys b \<noteq> {}"
    using o by (auto simp: range_keys_def rangesOverlap_iff)
next
  assume "range_keys a \<inter> range_keys b \<noteq> {}"
  then obtain k where "keyspace a = keyspace b" "keyInRange k a" "keyInRange k b"
    by (auto simp: range_keys_def)
  then show "rangesOverlap a b" by (auto simp: range_simps split: option.splits)
qed

theorem rangesOverlap_exact_witness:
  "rangesOverlap (mk_range [1] [] None) (mk_range [1] [7] (Some [7, 0])) \<longleftrightarrow>
   range_keys (mk_range [1] [] None) \<inter> range_keys (mk_range [1] [7] (Some [7, 0])) \<noteq> {}"
proof -
  have ne: "range_nonempty (mk_range [1] [] None)" "range_nonempty (mk_range [1] [7] (Some [7, 0]))"
    by (simp_all add: range_nonempty_def compareKeyBytes_def byte_diff_cmp_def)
  show ?thesis by (rule rangesOverlap_exact[OF ne])
qed

text \<open>A shared key is enough for an overlap, with no assumption on the ranges.\<close>

lemma rangesOverlap_of_key:
  "(ks, k) \<in> range_keys a \<Longrightarrow> (ks, k) \<in> range_keys b \<Longrightarrow> rangesOverlap a b"
  by (auto simp: range_keys_def range_simps split: option.splits)

section \<open>Range sets (range.ts)\<close>

type_synonym range_set = "(jsstring, key_range list) jsmap"

definition rs_empty :: range_set where
  "rs_empty = []"

definition rs_add :: "range_set \<Rightarrow> key_range \<Rightarrow> range_set" where
  "rs_add rs rng =
     (case map_of rs (keyspace rng) of
        Some list \<Rightarrow> AList.update (keyspace rng) (list @ [rng]) rs
      | None \<Rightarrow> AList.update (keyspace rng) [rng] rs)"

definition rs_addKey :: "range_set \<Rightarrow> jsstring \<Rightarrow> bytes \<Rightarrow> range_set" where
  "rs_addKey rs ks key = rs_add rs (mk_range ks key (Some (keySuccessor key)))"

definition rs_addKeyspace :: "range_set \<Rightarrow> jsstring \<Rightarrow> range_set" where
  "rs_addKeyspace rs ks = rs_add rs (mk_range ks [] None)"

definition rs_intersectsRange :: "range_set \<Rightarrow> key_range \<Rightarrow> bool" where
  "rs_intersectsRange rs rng =
     (case map_of rs (keyspace rng) of
        None \<Rightarrow> False
      | Some list \<Rightarrow> list_ex (\<lambda>r. rangesOverlap r rng) list)"

definition rs_intersects :: "range_set \<Rightarrow> range_set \<Rightarrow> bool" where
  "rs_intersects rs other =
     list_ex (\<lambda>(ks, list).
       (case map_of other ks of
          None \<Rightarrow> False
        | Some otherList \<Rightarrow> list_ex (\<lambda>a. list_ex (\<lambda>b. rangesOverlap a b) otherList) list)) rs"

definition rs_toArray :: "range_set \<Rightarrow> key_range list" where
  "rs_toArray rs = concat (map snd rs)"

definition rs_keyspaces :: "range_set \<Rightarrow> jsstring list" where
  "rs_keyspaces rs = map fst rs"

definition rs_size :: "range_set \<Rightarrow> nat" where
  "rs_size rs = sum_list (map (\<lambda>e. length (snd e)) rs)"

definition rs_isEmpty :: "range_set \<Rightarrow> bool" where
  "rs_isEmpty rs = (rs_size rs = 0)"

definition writtenTablesFromRanges :: "key_range list \<Rightarrow> jsstring list result" where
  "writtenTablesFromRanges ranges =
     res_bind (res_map (\<lambda>r. tableOfKeyspaceId (keyspace r)) ranges)
       (\<lambda>tables. Inr (foldl (\<lambda>acc t. set_add t acc) [] tables))"

text \<open>Invariant: distinct buckets, each holding only ranges of its own keyspace.\<close>

definition rs_ok :: "range_set \<Rightarrow> bool" where
  "rs_ok rs = (jsmap_ok rs \<and> (\<forall>(ks, list) \<in> set rs. \<forall>r \<in> set list. keyspace r = ks))"

lemma rs_ok_empty [simp]: "rs_ok rs_empty"
  by (simp add: rs_ok_def rs_empty_def)

lemma rs_ok_iff: "rs_ok rs \<longleftrightarrow> jsmap_ok rs \<and> (\<forall>ks l r. map_of rs ks = Some l \<longrightarrow> r \<in> set l \<longrightarrow> keyspace r = ks)"
  unfolding rs_ok_def using jsmap_in_set_iff[of rs] by blast

lemma rs_ok_get: "rs_ok rs \<Longrightarrow> map_of rs ks = Some l \<Longrightarrow> r \<in> set l \<Longrightarrow> keyspace r = ks"
  unfolding rs_ok_iff by blast

lemma rs_toArray_iff:
  assumes "rs_ok rs"
  shows "r \<in> set (rs_toArray rs) \<longleftrightarrow> (\<exists>ks l. map_of rs ks = Some l \<and> r \<in> set l)"
proof -
  have ok: "jsmap_ok rs" using assms by (simp add: rs_ok_def)
  have "r \<in> set (rs_toArray rs) \<longleftrightarrow> (\<exists>ks l. (ks, l) \<in> set rs \<and> r \<in> set l)"
    by (force simp: rs_toArray_def)
  then show ?thesis by (simp only: jsmap_in_set_iff[OF ok])
qed

lemma set_rs_toArray:
  assumes "rs_ok rs"
  shows "set (rs_toArray rs) = {r. \<exists>l. map_of rs (keyspace r) = Some l \<and> r \<in> set l}"
  using rs_toArray_iff[OF assms] rs_ok_get[OF assms] by blast

lemma rs_ok_add [simp]: "rs_ok rs \<Longrightarrow> rs_ok (rs_add rs r)"
  unfolding rs_ok_iff rs_add_def by (auto split: option.splits if_splits)

lemma rs_ok_addKey [simp]: "rs_ok rs \<Longrightarrow> rs_ok (rs_addKey rs ks k)"
  by (simp add: rs_addKey_def)

lemma rs_ok_addKeyspace [simp]: "rs_ok rs \<Longrightarrow> rs_ok (rs_addKeyspace rs ks)"
  by (simp add: rs_addKeyspace_def)

lemma set_rs_add [simp]:
  assumes "rs_ok rs" shows "set (rs_toArray (rs_add rs r)) = insert r (set (rs_toArray rs))"
  unfolding set_rs_toArray[OF assms] set_rs_toArray[OF rs_ok_add[OF assms]]
  by (auto simp: rs_add_def split: option.splits if_splits)

lemma rs_toArray_empty [simp]: "rs_toArray rs_empty = []"
  by (simp add: rs_toArray_def rs_empty_def)

lemma rangesOverlap_keyspace: "rangesOverlap a b \<Longrightarrow> keyspace a = keyspace b"
  by (simp add: rangesOverlap_iff)

lemma rs_intersectsRange_iff:
  assumes "rs_ok rs"
  shows "rs_intersectsRange rs w \<longleftrightarrow> (\<exists>r \<in> set (rs_toArray rs). rangesOverlap r w)"
proof -
  have "rs_intersectsRange rs w \<longleftrightarrow> (\<exists>l. map_of rs (keyspace w) = Some l \<and> (\<exists>r \<in> set l. rangesOverlap r w))"
    by (simp add: rs_intersectsRange_def list_ex_iff split: option.splits)
  also have "\<dots> \<longleftrightarrow> (\<exists>r \<in> set (rs_toArray rs). rangesOverlap r w)"
    unfolding rs_toArray_iff[OF assms] Bex_def
    using rangesOverlap_keyspace[of _ w] rs_ok_get[OF assms] by metis
  finally show ?thesis .
qed

lemma rs_intersects_iff:
  assumes "rs_ok rs" and "rs_ok other"
  shows "rs_intersects rs other \<longleftrightarrow>
    (\<exists>a \<in> set (rs_toArray rs). \<exists>b \<in> set (rs_toArray other). rangesOverlap a b)"
proof -
  have ok: "jsmap_ok rs" using assms by (simp add: rs_ok_def)
  have "rs_intersects rs other \<longleftrightarrow> (\<exists>ks l. (ks, l) \<in> set rs \<and> (\<exists>l'. map_of other ks = Some l' \<and>
      (\<exists>a \<in> set l. \<exists>b \<in> set l'. rangesOverlap a b)))"
    unfolding rs_intersects_def list_ex_iff by (auto split: option.splits) (blast, rule bexI, auto)
  also have "\<dots> \<longleftrightarrow> (\<exists>a \<in> set (rs_toArray rs). \<exists>b \<in> set (rs_toArray other). rangesOverlap a b)"
    (is "?l \<longleftrightarrow> ?r")
  proof
    show "?l \<Longrightarrow> ?r"
      unfolding jsmap_in_set_iff[OF ok] Bex_def rs_toArray_iff[OF assms(1)] rs_toArray_iff[OF assms(2)]
      by blast
  next
    assume ?r
    then obtain a b where ab: "a \<in> set (rs_toArray rs)" "b \<in> set (rs_toArray other)" "rangesOverlap a b"
      by blast
    then obtain l l' where "map_of rs (keyspace a) = Some l" "a \<in> set l"
        "map_of other (keyspace b) = Some l'" "b \<in> set l'"
      using set_rs_toArray assms by auto
    then show ?l
      unfolding jsmap_in_set_iff[OF ok] using ab(3) rangesOverlap_keyspace[OF ab(3)] by (simp, blast)
  qed
  finally show ?thesis .
qed

text \<open>\<open>RangeSet.intersects\<close>, which only compares buckets of the same keyspace,
  answers exactly whether some range of one set overlaps some range of the other.\<close>

theorem rs_intersects_exact:
  assumes "rs_ok rs" and "rs_ok other"
  shows "rs_intersects rs other \<longleftrightarrow>
    (\<exists>a \<in> set (rs_toArray rs). \<exists>b \<in> set (rs_toArray other). rangesOverlap a b)"
  using assms by (rule rs_intersects_iff)

theorem rs_intersects_exact_witness:
  "rs_intersects (rs_addKey rs_empty [1] [7]) (rs_addKeyspace rs_empty [1]) \<longleftrightarrow>
   (\<exists>a \<in> set (rs_toArray (rs_addKey rs_empty [1] [7])).
    \<exists>b \<in> set (rs_toArray (rs_addKeyspace rs_empty [1])). rangesOverlap a b)"
  by (rule rs_intersects_exact) simp_all

section \<open>Wire form (serialize.ts)\<close>

record serialized_key_range =
  s_keyspace :: jsstring
  s_start :: jsstring
  s_end :: "jsstring option"

record write_invalidation =
  wi_tables :: "jsstring list"
  wi_ranges :: "serialized_key_range list"

definition serializeKeyRange :: "key_range \<Rightarrow> serialized_key_range" where
  "serializeKeyRange rng =
     \<lparr>s_keyspace = keyspace rng, s_start = bytesToBase64 (start rng),
      s_end = (case end_of rng of None \<Rightarrow> None | Some e \<Rightarrow> Some (bytesToBase64 e))\<rparr>"

definition deserializeKeyRange :: "serialized_key_range \<Rightarrow> key_range result" where
  "deserializeKeyRange s =
     res_bind (base64ToBytes (s_start s)) (\<lambda>st.
       (case s_end s of
          None \<Rightarrow> Inr (mk_range (s_keyspace s) st None)
        | Some e \<Rightarrow> res_bind (base64ToBytes e) (\<lambda>en. Inr (mk_range (s_keyspace s) st (Some en)))))"

lemma deserialize_serialize [simp, codec_simps]: "deserializeKeyRange (serializeKeyRange r) = Inr r"
  by (cases r) (auto simp: deserializeKeyRange_def serializeKeyRange_def bytesToBase64_def
      base64ToBytes_def split: option.splits)

end
