(* ===== verification/Sharding.thy ===== *)
theory Sharding
  imports Key_Ranges
begin

text \<open>
  \<^verbatim>\<open>packages/id-codec/src/jump-hash.ts\<close>, \<^verbatim>\<open>shard.ts\<close>, \<^verbatim>\<open>storage-id.ts\<close> and
  \<^verbatim>\<open>point-range.ts\<close>: jump consistent hashing of shard keys, the slot/shard-id contract, and the
  storage ids from which a follower rebuilds the ranges a commit wrote.  The one floating-point
  expression of the hash is modelled with the rounding of IEEE doubles: a quotient and a product
  rounded to 53 bits, half to even.  The loop is a \<open>partial_function\<close>, so that it returns is a
  theorem.
\<close>

section \<open>Doubles of the jump formula\<close>

fun bitlen :: "nat \<Rightarrow> nat" where
  "bitlen n = (if n = 0 then 0 else Suc (bitlen (n div 2)))"

declare bitlen.simps [simp del]

definition round_div :: "nat \<Rightarrow> nat \<Rightarrow> nat" where
  "round_div a b =
     (let q = a div b; r = a mod b
      in if 2 * r < b then q else if b < 2 * r then q + 1 else if even q then q else q + 1)"

text \<open>\<open>Math.floor((Number(b) + 1) * (0x80000000 / denom))\<close> for \<open>1 \<le> denom \<le> 2 ^ 31\<close>: the quotient
  lies in \<open>[1, 2 ^ 31]\<close>, so its double is \<open>m / 2 ^ (52 - e)\<close> with \<open>e\<close> its binary exponent.\<close>

definition quot_exp :: "nat \<Rightarrow> nat" where
  "quot_exp denom = bitlen (0x80000000 div denom) - 1"

definition quot_mant :: "nat \<Rightarrow> nat" where
  "quot_mant denom = round_div (0x80000000 * 2 ^ (52 - quot_exp denom)) denom"

definition round53 :: "nat \<Rightarrow> nat" where
  "round53 p = (let s = bitlen p - 53 in round_div p (2 ^ s) * 2 ^ s)"

definition jump_point :: "nat \<Rightarrow> nat \<Rightarrow> nat" where
  "jump_point b1 denom = round53 (b1 * quot_mant denom) div 2 ^ (52 - quot_exp denom)"

section \<open>Jump consistent hash (jump-hash.ts)\<close>

definition LCG_MULT :: "64 word" where "LCG_MULT = 2862933555777941757"

definition jump_next :: "64 word \<Rightarrow> 64 word" where
  "jump_next k = k * LCG_MULT + 1"

definition jump_target :: "64 word \<Rightarrow> int \<Rightarrow> int" where
  "jump_target k b = int (jump_point (nat b + 1) (unat (drop_bit 33 k) + 1))"

partial_function (option) jump_loop :: "64 word \<Rightarrow> int \<Rightarrow> int \<Rightarrow> int \<Rightarrow> int option" where
  "jump_loop k b j n =
     (if j < n then jump_loop (jump_next k) j (jump_target (jump_next k) j) n
      else Some b)"

definition jumpConsistentHash :: "int \<Rightarrow> int \<Rightarrow> int result option" where
  "jumpConsistentHash key buckets =
     (if buckets < 1 then Some (Inl (RangeError ''buckets must be >= 1''))
      else map_option Inr (jump_loop (word_of_int key) (-1) 0 buckets))"

definition fnv1a64 :: "bytes \<Rightarrow> int" where
  "fnv1a64 bs = uint (fold (\<lambda>b h. (h XOR ucast b) * 0x100000001b3) bs (0xcbf29ce484222325 :: 64 word))"

definition DEFAULT_SHARD :: jsstring where "DEFAULT_SHARD = js ''default''"

definition slot_id :: "int \<Rightarrow> jsstring" where
  "slot_id slot = (if slot = 0 then DEFAULT_SHARD else js ''s'' @ int_dec slot)"

definition shardIdForKeyValue :: "jvalue \<Rightarrow> int \<Rightarrow> jsstring result option" where
  "shardIdForKeyValue value numShards =
     (case encodeIndexKey [value] of
        Inl e \<Rightarrow> Some (Inl e)
      | Inr bs \<Rightarrow> map_option (\<lambda>r. res_bind r (\<lambda>slot. Inr (slot_id slot)))
                    (jumpConsistentHash (fnv1a64 bs) (max 1 numShards)))"

definition shardIdList :: "int \<Rightarrow> jsstring list result" where
  "shardIdList numShards =
     (if numShards < 1 then Inl (RangeError ''numShards must be >= 1'')
      else Inr (DEFAULT_SHARD # map (\<lambda>slot. js ''s'' @ int_dec slot) [1..numShards - 1]))"

definition getShardForKey :: "int \<Rightarrow> jsstring option \<Rightarrow> jsstring result option" where
  "getShardForKey numShards shardKey =
     (case shardKey of None \<Rightarrow> Some (Inr DEFAULT_SHARD) | Some k \<Rightarrow> shardIdForKeyValue (VStr k) numShards)"

definition getShardForDocument :: "int \<Rightarrow> jsstring \<Rightarrow> jsstring option \<Rightarrow> jsstring result option" where
  "getShardForDocument numShards table shardKey = getShardForKey numShards shardKey"

definition newJumpShardRouter :: "int \<Rightarrow> int result" where
  "newJumpShardRouter numShards =
     (if numShards < 1 then Inl (RangeError ''numShards must be >= 1'') else Inr numShards)"

section \<open>Termination and range\<close>

lemma bitlen_bounds: "0 < n \<Longrightarrow> 0 < bitlen n \<and> 2 ^ (bitlen n - 1) \<le> n \<and> n < 2 ^ bitlen n"
proof (induction n rule: less_induct)
  case (less n)
  show ?case
  proof (cases "n = 1")
    case False
    then have d: "0 < n div 2" "n div 2 < n" using less.prems by auto
    note ih = less.IH[OF d(2) d(1)]
    have b: "bitlen n = Suc (bitlen (n div 2))" using less.prems by (simp add: bitlen.simps[of n])
    obtain l where l: "bitlen (n div 2) = Suc l" using ih by (cases "bitlen (n div 2)") auto
    show ?thesis using ih unfolding b l by auto
  qed (simp add: bitlen.simps[of "Suc 0"] bitlen.simps[of 0])
qed

lemma round_div_ge: "c * b \<le> a \<Longrightarrow> 0 < b \<Longrightarrow> c \<le> round_div a b"
proof -
  assume "c * b \<le> a" "0 < b"
  then have "c \<le> a div b" by (simp add: less_eq_div_iff_mult_less_eq)
  then show ?thesis by (auto simp: round_div_def Let_def)
qed

text \<open>Rounding never falls below a 53-bit integer times a power of two that was below.\<close>

lemma round53_ge:
  assumes "t * 2 ^ k \<le> p" and "t \<le> 2 ^ 53"
  shows "t * 2 ^ k \<le> round53 p"
proof (cases "bitlen p - 53 \<le> k")
  case True
  let ?s = "bitlen p - 53"
  have e: "t * 2 ^ k = (t * 2 ^ (k - ?s)) * 2 ^ ?s" using True by (simp add: power_add[symmetric])
  have "t * 2 ^ (k - ?s) * 2 ^ ?s \<le> p" using assms(1) unfolding e .
  then have "t * 2 ^ (k - ?s) \<le> round_div p (2 ^ ?s)" by (rule round_div_ge) simp
  then show ?thesis unfolding e round53_def Let_def by (rule mult_le_mono1)
next
  case False
  let ?s = "bitlen p - 53"
  have p: "0 < p" using False by (cases p) (simp_all add: bitlen.simps[of 0])
  have "2 ^ (52 + ?s) \<le> p" using bitlen_bounds[OF p] False by simp
  then have "2 ^ 52 \<le> round_div p (2 ^ ?s)" using round_div_ge[of "2 ^ 52" "2 ^ ?s" p] by (simp add: power_add)
  then have "2 ^ 52 * 2 ^ ?s \<le> round53 p" by (simp add: round53_def Let_def)
  moreover have "t * 2 ^ k \<le> 2 ^ 53 * 2 ^ k" using assms(2) by simp
  moreover have "(2::nat) ^ (53 + k) \<le> 2 ^ (52 + ?s)" using False by (intro power_increasing) auto
  ultimately show ?thesis unfolding power_add by (metis order_trans)
qed

lemma jump_point_progress:
  assumes "b1 \<le> 2 ^ 53" "0 < denom" "denom \<le> 0x80000000"
  shows "b1 \<le> jump_point b1 denom"
proof -
  let ?q = "0x80000000 div denom"
  have q: "0 < ?q" using assms by (simp add: div_greater_zero_iff)
  have "?q \<le> 0x80000000" by (rule div_le_dividend)
  have "2 ^ (52 - quot_exp denom) \<le> quot_mant denom"
    unfolding quot_mant_def using assms by (intro round_div_ge) auto
  then have "b1 * 2 ^ (52 - quot_exp denom) \<le> b1 * quot_mant denom" by simp
  then have "b1 * 2 ^ (52 - quot_exp denom) \<le> round53 (b1 * quot_mant denom)"
    using round53_ge assms(1) by blast
  then show ?thesis by (simp add: jump_point_def less_eq_div_iff_mult_less_eq)
qed

lemma jump_target_progress:
  assumes "0 \<le> b" "b + 1 \<le> 2 ^ 53" shows "b < jump_target k b"
proof -
  have "unat (drop_bit 33 k) = drop_bit 33 (unat k)" by (rule unat_drop_bit_eq)
  also have "\<dots> = unat k div 2 ^ 33" by (rule drop_bit_eq_div)
  finally have "unat (drop_bit 33 k) = unat k div 2 ^ 33" .
  moreover have "unat k < 2 ^ 31 * 2 ^ 33" using unsigned_less[of k, where ?'a = nat] by simp
  ultimately have "unat (drop_bit 33 k) < 2 ^ 31" by (simp only: less_mult_imp_div_less)
  then have "nat b + 1 \<le> jump_point (nat b + 1) (unat (drop_bit 33 k) + 1)"
    using assms by (intro jump_point_progress) auto
  then show ?thesis using assms(1) by (simp add: jump_target_def)
qed

lemma jump_step: "j < n \<Longrightarrow> jump_loop k b j n = jump_loop (jump_next k) j (jump_target (jump_next k) j) n"
  by (subst jump_loop.simps) simp

lemma jump_stop: "\<not> j < n \<Longrightarrow> jump_loop k b j n = Some b"
  by (subst jump_loop.simps) simp

text \<open>Every iteration raises \<open>j\<close>, so the loop returns a bucket below the bound.\<close>

lemma jump_loop_returns:
  assumes "n \<le> 2 ^ 53" "b < j" "b < n" "- 1 \<le> b" "b = - 1 \<longrightarrow> j = 0" "0 < n"
  shows "\<exists>r. jump_loop k b j n = Some r \<and> b \<le> r \<and> 0 \<le> r \<and> r < n"
  using assms
proof (induction "nat (n - j)" arbitrary: k b j rule: less_induct)
  case less
  show ?case
  proof (cases "j < n")
    case True
    let ?k = "jump_next k"
    have "j < jump_target ?k j" using less.prems True by (intro jump_target_progress) auto
    then obtain r where "jump_loop ?k j (jump_target ?k j) n = Some r" "j \<le> r" "0 \<le> r" "r < n"
      using less.hyps[of "jump_target ?k j" j ?k] less.prems True by auto
    then show ?thesis using True less.prems by (auto simp: jump_step)
  next
    case False
    then show ?thesis using less.prems by (auto simp: jump_stop)
  qed
qed

text \<open>C40. \<open>jumpConsistentHash\<close> returns for every bucket count a double counts exactly, and its
  bucket is in range.\<close>

theorem jumpConsistentHash_total:
  assumes "1 \<le> buckets" and "buckets \<le> 2 ^ 53"
  shows "\<exists>slot. jumpConsistentHash key buckets = Some (Inr slot) \<and> 0 \<le> slot \<and> slot < buckets"
  using jump_loop_returns[of buckets "-1" 0 "word_of_int key"] assms
  by (auto simp: jumpConsistentHash_def)

theorem jumpConsistentHash_total_witness:
  "\<exists>slot. jumpConsistentHash 12345 8 = Some (Inr slot) \<and> 0 \<le> slot \<and> slot < 8"
  by (rule jumpConsistentHash_total) simp_all

lemma jump_loop_minimal:
  assumes "n' \<le> 2 ^ 53" "n \<le> n'" "b < j" "b < n" "- 1 \<le> b" "b = - 1 \<longrightarrow> j = 0" "0 < n"
    and "jump_loop k b j n = Some r" "jump_loop k b j n' = Some r'"
  shows "r' = r \<or> n \<le> r'"
  using assms
proof (induction "nat (n - j)" arbitrary: k b j rule: less_induct)
  case less
  show ?case
  proof (cases "j < n")
    case True
    let ?k = "jump_next k"
    have p: "j < jump_target ?k j" using less.prems True by (intro jump_target_progress) auto
    have "jump_loop ?k j (jump_target ?k j) n = Some r" "jump_loop ?k j (jump_target ?k j) n' = Some r'"
      using less.prems(8,9) True less.prems(2) by (simp_all add: jump_step)
    then show ?thesis using less.hyps[of "jump_target ?k j" j ?k] less.prems True p by auto
  next
    case False
    then have r: "r = b" using less.prems(8) by (simp add: jump_stop)
    show ?thesis
    proof (cases "j < n'")
      case True
      let ?k = "jump_next k"
      have p: "j < jump_target ?k j" using less.prems True False by (intro jump_target_progress) auto
      have "jump_loop ?k j (jump_target ?k j) n' = Some r'"
        using less.prems(9) True by (simp add: jump_step)
      moreover obtain x where "jump_loop ?k j (jump_target ?k j) n' = Some x" "j \<le> x"
        using jump_loop_returns[of n' j "jump_target ?k j" ?k] less.prems True False p by auto
      ultimately show ?thesis using False by auto
    next
      case False
      then have "r' = b" using less.prems(9) by (simp add: jump_stop)
      then show ?thesis using r by simp
    qed
  qed
qed

text \<open>Movement-minimality: growing the bucket count leaves a key where it was or moves it to
  one of the new buckets, never between old ones.\<close>

theorem jumpConsistentHash_minimal:
  assumes "1 \<le> n" and "n \<le> n'" and "n' \<le> 2 ^ 53"
    and "jumpConsistentHash key n = Some (Inr slot)" and "jumpConsistentHash key n' = Some (Inr slot')"
  shows "slot' = slot \<or> n \<le> slot' \<and> slot' < n'"
proof -
  have l: "jump_loop (word_of_int key) (-1) 0 n = Some slot" "jump_loop (word_of_int key) (-1) 0 n' = Some slot'"
    using assms by (auto simp: jumpConsistentHash_def)
  have "slot' < n'" using jump_loop_returns[of n' "-1" 0 "word_of_int key"] assms l by auto
  then show ?thesis using jump_loop_minimal[OF assms(3,2) _ _ _ _ _ l] assms(1) by auto
qed

theorem jumpConsistentHash_minimal_witness:
  "\<exists>s s'. jumpConsistentHash 7 2 = Some (Inr s) \<and> jumpConsistentHash 7 4 = Some (Inr s') \<and>
     (s' = s \<or> 2 \<le> s' \<and> s' < 4)"
proof -
  obtain s s' where "jumpConsistentHash 7 2 = Some (Inr s)" "jumpConsistentHash 7 4 = Some (Inr s')"
    using jump_loop_returns[of 2 "-1" 0 "word_of_int 7"] jump_loop_returns[of 4 "-1" 0 "word_of_int 7"]
    by (auto simp: jumpConsistentHash_def)
  then show ?thesis using jumpConsistentHash_minimal[of 2 4 7 s s'] by simp
qed

section \<open>The slot/shard-id contract\<close>

lemma shardIdList_nth:
  assumes "0 \<le> slot" "slot < n" "shardIdList n = Inr ids"
  shows "nat slot < length ids \<and> ids ! nat slot = slot_id slot"
  using assms by (cases "slot = 0") (auto simp: shardIdList_def slot_id_def nth_Cons' split: if_splits)

lemma int_dec_nonneg_inj: "0 \<le> a \<Longrightarrow> 0 \<le> b \<Longrightarrow> int_dec a = int_dec b \<longleftrightarrow> a = b"
  by (simp add: int_dec_def eq_nat_nat_iff)

text \<open>The shard id of a key value is the entry of \<open>shardIdList\<close> at the slot the hash chose,
  and the list has no duplicates, so slots and shard ids name each other.\<close>

theorem shardIdForKeyValue_in_list:
  assumes "encodeIndexKey [v] = Inr key" and "1 \<le> n" and "n \<le> 2 ^ 53" and "shardIdList n = Inr ids"
  shows "\<exists>slot. jumpConsistentHash (fnv1a64 key) n = Some (Inr slot) \<and> nat slot < length ids \<and>
    shardIdForKeyValue v n = Some (Inr (ids ! nat slot)) \<and> length ids = nat n \<and> distinct ids"
proof -
  obtain slot where s: "jumpConsistentHash (fnv1a64 key) n = Some (Inr slot)" "0 \<le> slot" "slot < n"
    using jump_loop_returns[of n "-1" 0 "word_of_int (fnv1a64 key)"] assms(2,3)
    by (auto simp: jumpConsistentHash_def)
  have "distinct ids"
    using assms(2,4) int_dec_nonneg_inj
    by (auto simp: shardIdList_def distinct_map inj_on_def DEFAULT_SHARD_def js_def split: if_splits)
  then show ?thesis using s assms shardIdList_nth[OF s(2,3) assms(4)]
    by (auto simp: shardIdForKeyValue_def shardIdList_def max_def)
qed

theorem shardIdForKeyValue_in_list_witness:
  "\<exists>slot ids. shardIdList 4 = Inr ids \<and> nat slot < length ids \<and>
     shardIdForKeyValue VNull 4 = Some (Inr (ids ! nat slot)) \<and> length ids = 4 \<and> distinct ids"
proof -
  have k: "encodeIndexKey [VNull] = Inr [TAG_NULL]"
    by (simp add: encodeIndexKey_def pushElement_def)
  obtain ids where i: "shardIdList 4 = Inr ids" by (simp add: shardIdList_def)
  show ?thesis using i shardIdForKeyValue_in_list[OF k _ _ i] by auto
qed

section \<open>Routers (shard.ts)\<close>

text \<open>Tier 0: nothing is sharded.\<close>

definition default_resolve :: "jsstring \<Rightarrow> (jsstring \<times> jvalue) list \<Rightarrow> jsstring option" where
  "default_resolve table document = None"

definition simple_getShardForKey :: "jsstring option \<Rightarrow> jsstring" where
  "simple_getShardForKey shardKey = DEFAULT_SHARD"

definition simple_getShardForDocument :: "jsstring \<Rightarrow> jsstring option \<Rightarrow> jsstring" where
  "simple_getShardForDocument table shardKey = DEFAULT_SHARD"

lemma tier0_agrees:
  "getShardForDocument n table (default_resolve table document) =
     Some (Inr (simple_getShardForDocument table (default_resolve table document)))"
  by (simp add: getShardForDocument_def getShardForKey_def default_resolve_def simple_getShardForDocument_def)

section \<open>Storage ids (storage-id.ts)\<close>

definition encodeStorageTableId :: "int \<Rightarrow> jsstring" where
  "encodeStorageTableId tn = int_dec tn"

definition decodeStorageTableId :: "jsstring \<Rightarrow> int result" where
  "decodeStorageTableId tableId =
     (case parseInt10 tableId of
        None \<Rightarrow> Inl (GenericError ''invalid storage table id'')
      | Some n \<Rightarrow> if int_dec n \<noteq> tableId then Inl (GenericError ''invalid storage table id'') else Inr n)"

abbreviation slash :: "16 word" where
  "slash \<equiv> 47"

definition encodeStorageIndexId :: "int \<Rightarrow> jsstring \<Rightarrow> jsstring" where
  "encodeStorageIndexId tn indexName = int_dec tn @ slash # indexName"

definition decodeStorageIndexId :: "jsstring \<Rightarrow> (int \<times> jsstring) result" where
  "decodeStorageIndexId indexId =
     (case js_cut slash indexId of
        None \<Rightarrow> Inl (GenericError ''invalid storage index id'')
      | Some (t, n) \<Rightarrow> res_bind (decodeStorageTableId t) (\<lambda>tn. Inr (tn, n)))"

lemma parseInt10_int_dec [simp]: "parseInt10 (int_dec n) = Some n"
proof (cases "n < 0")
  case True
  have "\<not> is_js_space 45" by (simp add: is_js_space_def)
  then show ?thesis using True by (simp add: int_dec_def parseInt10_def Let_def)
qed (simp add: int_dec_def)

lemma int_dec_inj [simp]: "int_dec a = int_dec b \<longleftrightarrow> a = b"
  by (metis option.inject parseInt10_int_dec)

lemma int_dec_chars: "u \<in> set (int_dec n) \<Longrightarrow> is_digit u \<or> u = 45"
  by (auto simp: int_dec_def dest: nat_dec_digits split: if_splits)

lemma int_dec_no_slash [simp]: "slash \<notin> set (int_dec n)"
  using int_dec_chars[of slash n] by (auto simp: is_digit_def)

lemma int_dec_no_colon [simp]: "colon \<notin> set (int_dec n)"
  using int_dec_chars[of colon n] by (auto simp: is_digit_def)

lemma decodeStorageTableId_iff: "decodeStorageTableId s = Inr n \<longleftrightarrow> s = encodeStorageTableId n"
  by (auto simp: decodeStorageTableId_def encodeStorageTableId_def split: option.splits if_splits)

text \<open>A storage index id decodes to a table number and name exactly when it is their encoding:
  the codec is a bijection, and every other string (a padded number, a missing slash) is rejected.\<close>

theorem storageIndexId_exact:
  "decodeStorageIndexId s = Inr (tn, name) \<longleftrightarrow> s = encodeStorageIndexId tn name"
proof
  assume "decodeStorageIndexId s = Inr (tn, name)"
  then obtain t where "js_cut slash s = Some (t, name)" "t = int_dec tn"
    by (auto simp: decodeStorageIndexId_def res_bind_Inr_iff decodeStorageTableId_iff encodeStorageTableId_def
        split: option.splits)
  then show "s = encodeStorageIndexId tn name"
    by (auto simp: encodeStorageIndexId_def dest: js_cut_SomeD)
next
  assume "s = encodeStorageIndexId tn name"
  then show "decodeStorageIndexId s = Inr (tn, name)"
    by (simp add: decodeStorageIndexId_def encodeStorageIndexId_def decodeStorageTableId_def)
qed

section \<open>Point ranges (point-range.ts)\<close>

definition keyToPointRange :: "jsstring \<Rightarrow> bytes \<Rightarrow> serialized_key_range result" where
  "keyToPointRange indexId key =
     res_bind (decodeStorageIndexId indexId) (\<lambda>(tn, indexName).
       (let ks = indexKeyspaceId (encodeStorageTableId tn) indexName
        in Inr (serializeKeyRange (mk_range ks key (Some (keySuccessor key))))))"

definition docKeyToPointRange :: "jsstring \<Rightarrow> bytes \<Rightarrow> serialized_key_range" where
  "docKeyToPointRange tableId iid =
     (let ks = tableKeyspaceId tableId in serializeKeyRange (mk_range ks iid (Some (keySuccessor iid))))"

lemma rangesOverlap_point [range_simps]:
  "rangesOverlap q (mk_range ks k (Some (keySuccessor k))) \<longleftrightarrow> keyspace q = ks \<and> keyInRange k q"
proof -
  have "start q \<le> k" if "start q < k @ [0]"
    using bytes_between_succ[of k "start q"] that linear[of "start q" k] by auto
  moreover have "start q < k @ [0]" if "start q \<le> k"
    using that bytes_less_succ[of k] by (rule order_le_less_trans)
  ultimately have "start q < k @ [0] \<longleftrightarrow> start q \<le> k" by blast
  then show ?thesis by (auto simp: rangesOverlap_iff keyInRange_iff keySuccessor_def split: option.splits)
qed

text \<open>The point range a follower rebuilds from a stored (index id, key) pair survives the wire
  and overlaps exactly the read ranges of that index's keyspace that contain the key.\<close>

theorem keyToPointRange_exact:
  "\<exists>s r. keyToPointRange (encodeStorageIndexId tn name) key = Inr s \<and> deserializeKeyRange s = Inr r \<and>
     (\<forall>q. rangesOverlap q r \<longleftrightarrow>
        keyspace q = indexKeyspaceId (encodeStorageTableId tn) name \<and> keyInRange key q)"
proof -
  have "decodeStorageIndexId (encodeStorageIndexId tn name) = Inr (tn, name)"
    by (simp add: decodeStorageIndexId_def encodeStorageIndexId_def decodeStorageTableId_def)
  then show ?thesis by (auto simp: keyToPointRange_def Let_def rangesOverlap_point)
qed

lemma docKeyToPointRange_exact:
  "\<exists>r. deserializeKeyRange (docKeyToPointRange t iid) = Inr r \<and>
     (\<forall>q. rangesOverlap q r \<longleftrightarrow> keyspace q = tableKeyspaceId t \<and> keyInRange iid q)"
  by (auto simp: docKeyToPointRange_def Let_def rangesOverlap_point)

end
