(* ===== verification/Query_Engine.thy ===== *)
theory Query_Engine
  imports Doc_Ids Sharding
begin

text \<open>
  \<^verbatim>\<open>packages/query-engine/src/filter.ts\<close>, \<^verbatim>\<open>index-manager.ts\<close> and
  \<^verbatim>\<open>plan.ts\<close>: post-filters, the index entries a document change produces, and the byte
  interval a query scans.  A document is its list of entries; property lookup sees own properties.
\<close>

type_synonym document = "(jsstring \<times> jvalue) list"

section \<open>Filters (filter.ts)\<close>

datatype comparison_op = OpEq | OpNeq | OpLt | OpLte | OpGt | OpGte

datatype filter_expr =
    FCompare comparison_op jsstring jvalue
  | FAnd "filter_expr list"
  | FOr "filter_expr list"
  | FNot filter_expr

fun field_path :: "jvalue \<Rightarrow> jsstring list \<Rightarrow> jvalue option" where
  "field_path cur [] = Some cur"
| "field_path (VObj es) (part # parts) =
     (case map_of es part of None \<Rightarrow> None | Some v \<Rightarrow> field_path v parts)"
| "field_path _ (part # parts) = None"

definition evaluateFieldPath :: "document \<Rightarrow> jsstring \<Rightarrow> jvalue option" where
  "evaluateFieldPath doc path = field_path (VObj doc) (js_split 46 path)"

fun op_holds :: "comparison_op \<Rightarrow> cmp \<Rightarrow> bool" where
  "op_holds OpEq c = (c = CEq)"
| "op_holds OpNeq c = (c \<noteq> CEq)"
| "op_holds OpLt c = (c = CLt)"
| "op_holds OpLte c = (c \<noteq> CGt)"
| "op_holds OpGt c = (c = CGt)"
| "op_holds OpGte c = (c \<noteq> CLt)"

fun evaluateFilter :: "document \<Rightarrow> filter_expr \<Rightarrow> bool" where
  "evaluateFilter doc (FAnd clauses) = list_all (evaluateFilter doc) clauses"
| "evaluateFilter doc (FOr clauses) = list_ex (evaluateFilter doc) clauses"
| "evaluateFilter doc (FNot clause) = (\<not> evaluateFilter doc clause)"
| "evaluateFilter doc (FCompare op field value) =
     (case evaluateFieldPath doc field of
        None \<Rightarrow> False
      | Some fieldValue \<Rightarrow> op_holds op (compareValues fieldValue value))"

section \<open>Index maintenance (index-manager.ts)\<close>

record index_spec =
  is_table :: jsstring
  is_tableNumber :: int
  is_index :: jsstring
  is_fields :: "jsstring list"
  is_indexId :: jsstring

datatype index_value = Deleted | NonClustered internal_document_id

record index_update =
  iu_indexId :: jsstring
  iu_key :: bytes
  iu_value :: index_value

definition key_tuple :: "document \<Rightarrow> jsstring list \<Rightarrow> jvalue list" where
  "key_tuple doc flds =
     map (\<lambda>field. case evaluateFieldPath doc field of None \<Rightarrow> VNull | Some v \<Rightarrow> v) flds
     @ [case map_of doc (js ''_creationTime'') of None \<Rightarrow> VNum 0 | Some VNull \<Rightarrow> VNum 0 | Some v \<Rightarrow> v,
        case map_of doc (js ''_id'') of None \<Rightarrow> VStr [] | Some VNull \<Rightarrow> VStr [] | Some v \<Rightarrow> v]"

definition extractIndexKey :: "document \<Rightarrow> jsstring list \<Rightarrow> bytes result" where
  "extractIndexKey doc flds = encodeIndexKey (key_tuple doc flds)"

definition extract_opt :: "document option \<Rightarrow> jsstring list \<Rightarrow> bytes option result" where
  "extract_opt doc flds =
     (case doc of None \<Rightarrow> Inr None | Some d \<Rightarrow> res_bind (extractIndexKey d flds) (\<lambda>k. Inr (Some k)))"

definition index_diff ::
  "index_spec \<Rightarrow> bytes option \<Rightarrow> bytes option \<Rightarrow> internal_document_id \<Rightarrow> index_update list" where
  "index_diff idx oldKey newKey docId =
     (case oldKey of
        None \<Rightarrow> []
      | Some k \<Rightarrow>
          (if (case newKey of None \<Rightarrow> True | Some k' \<Rightarrow> compareKeyBytes k k' \<noteq> CEq)
           then [\<lparr>iu_indexId = is_indexId idx, iu_key = k, iu_value = Deleted\<rparr>] else []))
     @ (case newKey of
          None \<Rightarrow> []
        | Some k' \<Rightarrow> [\<lparr>iu_indexId = is_indexId idx, iu_key = k', iu_value = NonClustered docId\<rparr>])"

definition computeIndexUpdates ::
  "index_spec list \<Rightarrow> document option \<Rightarrow> document option \<Rightarrow> internal_document_id \<Rightarrow> index_update list result" where
  "computeIndexUpdates indexes oldDoc newDoc docId =
     res_bind (res_map (\<lambda>idx.
         res_bind (extract_opt oldDoc (is_fields idx)) (\<lambda>oldKey.
         res_bind (extract_opt newDoc (is_fields idx)) (\<lambda>newKey.
           Inr (index_diff idx oldKey newKey docId)))) indexes)
       (\<lambda>uss. Inr (concat uss))"

section \<open>Planning (plan.ts)\<close>

datatype query_operator = QEq | QGt | QGte | QLt | QLte

record range_expression =
  re_field :: jsstring
  re_operator :: query_operator
  re_value :: jvalue

record index_interval =
  iv_start :: bytes
  iv_end :: "bytes option"

text \<open>The last bound of each direction wins, as the assignments in the loop have it.\<close>

definition lower_bound :: "range_expression list \<Rightarrow> (jvalue \<times> bool) option" where
  "lower_bound cs = foldl (\<lambda>lower c. case re_operator c of
       QGt \<Rightarrow> Some (re_value c, False) | QGte \<Rightarrow> Some (re_value c, True) | _ \<Rightarrow> lower) None cs"

definition upper_bound :: "range_expression list \<Rightarrow> (jvalue \<times> bool) option" where
  "upper_bound cs = foldl (\<lambda>upper c. case re_operator c of
       QLt \<Rightarrow> Some (re_value c, False) | QLte \<Rightarrow> Some (re_value c, True) | _ \<Rightarrow> upper) None cs"

fun plan_bounds ::
  "jsstring list \<Rightarrow> range_expression list \<Rightarrow> jvalue list \<times> (jvalue \<times> bool) option \<times> (jvalue \<times> bool) option" where
  "plan_bounds [] rng = ([], None, None)"
| "plan_bounds (field # flds) rng =
     (let constraints = filter (\<lambda>r. re_field r = field) rng
      in case find (\<lambda>c. re_operator c = QEq) constraints of
           Some eq \<Rightarrow> (let (prefix, lower, upper) = plan_bounds flds rng
                       in (re_value eq # prefix, lower, upper))
         | None \<Rightarrow> ([], lower_bound constraints, upper_bound constraints))"

definition buildIndexInterval :: "jsstring list \<Rightarrow> range_expression list \<Rightarrow> index_interval result" where
  "buildIndexInterval flds rng =
     (let (prefix, lower, upper) = plan_bounds flds rng
      in res_bind (case lower of
             Some (v, True) \<Rightarrow> encodeIndexKey (prefix @ [v])
           | Some (v, False) \<Rightarrow> res_bind (indexKeyRangeEnd (prefix @ [v]))
                                (\<lambda>e. Inr (case e of Some b \<Rightarrow> b | None \<Rightarrow> []))
           | None \<Rightarrow> indexKeyRangeStart prefix)
         (\<lambda>st. res_bind (case upper of
             Some (v, True) \<Rightarrow> indexKeyRangeEnd (prefix @ [v])
           | Some (v, False) \<Rightarrow> res_bind (encodeIndexKey (prefix @ [v])) (\<lambda>k. Inr (Some k))
           | None \<Rightarrow> indexKeyRangeEnd prefix)
         (\<lambda>en. Inr \<lparr>iv_start = st, iv_end = en\<rparr>)))"

definition keyInInterval :: "bytes \<Rightarrow> index_interval \<Rightarrow> bool" where
  "keyInInterval key iv =
     (compareKeyBytes key (iv_start iv) \<noteq> CLt \<and>
      (case iv_end iv of None \<Rightarrow> True | Some e \<Rightarrow> compareKeyBytes key e = CLt))"

section \<open>The interval is exact\<close>

definition lower_ok :: "(jvalue \<times> bool) option \<Rightarrow> jvalue \<Rightarrow> bool" where
  "lower_ok b v = (case b of None \<Rightarrow> True | Some (w, True) \<Rightarrow> compareValues v w \<noteq> CLt
     | Some (w, False) \<Rightarrow> compareValues v w = CGt)"

definition upper_ok :: "(jvalue \<times> bool) option \<Rightarrow> jvalue \<Rightarrow> bool" where
  "upper_ok b v = (case b of None \<Rightarrow> True | Some (w, True) \<Rightarrow> compareValues v w \<noteq> CGt
     | Some (w, False) \<Rightarrow> compareValues v w = CLt)"

text \<open>What the planner promises of an index tuple: each field's value equals the equality constraint
  up to the first field without one, whose value obeys the bounds.\<close>

fun plan_matches :: "jsstring list \<Rightarrow> range_expression list \<Rightarrow> jvalue list \<Rightarrow> bool" where
  "plan_matches [] rng t = True"
| "plan_matches (field # flds) rng [] = False"
| "plan_matches (field # flds) rng (v # t) =
     (let constraints = filter (\<lambda>r. re_field r = field) rng
      in case find (\<lambda>c. re_operator c = QEq) constraints of
           Some eq \<Rightarrow> compareValues v (re_value eq) = CEq \<and> plan_matches flds rng t
         | None \<Rightarrow> lower_ok (lower_bound constraints) v \<and> upper_ok (upper_bound constraints) v)"

lemma plan_bounds_length: "plan_bounds flds rng = (p, lo, up) \<Longrightarrow>
    length p \<le> length flds \<and> (length p = length flds \<longrightarrow> lo = None \<and> up = None)"
  by (induction flds arbitrary: p) (fastforce simp: Let_def split: option.splits prod.splits)+

lemma plan_matches_bounds:
  assumes "plan_bounds flds rng = (p, lo, up)" "length flds < length t"
  shows "plan_matches flds rng t \<longleftrightarrow>
    lex_cmp compareValues (take (length p) t) p = CEq \<and> lower_ok lo (t ! length p) \<and> upper_ok up (t ! length p)"
  using assms
proof (induction flds arbitrary: p t)
  case Nil
  then show ?case by (simp add: lower_ok_def upper_ok_def)
next
  case (Cons f fs)
  then obtain v t' where t: "t = v # t'" by (cases t) auto
  show ?case using Cons.prems Cons.IH[of _ t']
    by (auto simp: t Let_def split: option.splits prod.splits)
qed

lemma lex_cmp_snoc: "length xs = length ys \<Longrightarrow>
    lex_cmp f (xs @ [x]) (ys @ [y]) = cmp_then (lex_cmp f xs ys) (f x y)"
  by (induction xs ys rule: list_induct2) (simp_all add: cmp_then_assoc)

text \<open>How an encoded tuple compares with the bound of a prefix extended by one value.\<close>

lemma cmp_bound:
  assumes "encodeIndexKey t = Inr k" "encodeIndexKey (p @ [v]) = Inr s" "length p < length t"
  defines "c \<equiv> cmp_then (lex_cmp compareValues (take (length p) t) p) (compareValues (t ! length p) v)"
  shows "cmp_of k s \<noteq> CLt \<longleftrightarrow> c \<noteq> CLt" "cmp_of k s = CLt \<longleftrightarrow> c = CLt"
    "cmp_of k (s @ [0xff]) = CLt \<longleftrightarrow> c \<noteq> CGt" "cmp_of k (s @ [0xff]) \<noteq> CLt \<longleftrightarrow> c = CGt"
proof -
  have "lex_cmp compareValues (take (length (p @ [v])) t) (p @ [v]) = c"
    using assms(3) by (simp add: take_Suc_conv_app_nth lex_cmp_snoc c_def)
  then show "cmp_of k s \<noteq> CLt \<longleftrightarrow> c \<noteq> CLt" "cmp_of k s = CLt \<longleftrightarrow> c = CLt"
    "cmp_of k (s @ [0xff]) = CLt \<longleftrightarrow> c \<noteq> CGt" "cmp_of k (s @ [0xff]) \<noteq> CLt \<longleftrightarrow> c = CGt"
    using cmp_key_prefix[OF assms(1,2)] assms(3) by auto
qed

lemma start_side:
  assumes "encodeIndexKey t = Inr k" "length p < length t"
    and "(case lo of
             Some (v, True) \<Rightarrow> encodeIndexKey (p @ [v])
           | Some (v, False) \<Rightarrow> res_bind (indexKeyRangeEnd (p @ [v]))
                                (\<lambda>e. Inr (case e of Some b \<Rightarrow> b | None \<Rightarrow> []))
           | None \<Rightarrow> indexKeyRangeStart p) = Inr st"
  defines "L \<equiv> lex_cmp compareValues (take (length p) t) p"
  shows "cmp_of k st \<noteq> CLt \<longleftrightarrow> L \<noteq> CLt \<and> (L = CEq \<longrightarrow> lower_ok lo (t ! length p))"
proof (cases lo)
  case None
  then show ?thesis using cmp_key_prefix(1)[OF assms(1), of p st] assms(2,3)
    by (simp add: indexKeyRangeStart_def L_def lower_ok_def)
next
  case (Some b)
  obtain v i where b: "b = (v, i)" by fastforce
  obtain s where s: "encodeIndexKey (p @ [v]) = Inr s" "st = (if i then s else s @ [0xff])"
    using assms(3) Some b by (cases i) (auto simp: indexKeyRangeEnd_def res_bind_Inr_iff)
  show ?thesis using cmp_bound[OF assms(1) s(1) assms(2)]
    unfolding s(2) Some b L_def by (cases i; cases "lex_cmp compareValues (take (length p) t) p") (auto simp: lower_ok_def)
qed

lemma end_side:
  assumes "encodeIndexKey t = Inr k" "length p < length t"
    and "(case up of
             Some (v, True) \<Rightarrow> indexKeyRangeEnd (p @ [v])
           | Some (v, False) \<Rightarrow> res_bind (encodeIndexKey (p @ [v])) (\<lambda>k. Inr (Some k))
           | None \<Rightarrow> indexKeyRangeEnd p) = Inr en"
  defines "L \<equiv> lex_cmp compareValues (take (length p) t) p"
  shows "(case en of None \<Rightarrow> True | Some e \<Rightarrow> cmp_of k e = CLt) \<longleftrightarrow>
    L \<noteq> CGt \<and> (L = CEq \<longrightarrow> upper_ok up (t ! length p))"
proof (cases up)
  case None
  show ?thesis
  proof (cases "p = []")
    case True
    then show ?thesis using None assms(3) by (simp add: indexKeyRangeEnd_def L_def upper_ok_def)
  next
    case False
    then obtain s where "encodeIndexKey p = Inr s" "en = Some (s @ [0xff])"
      using None assms(3) by (auto simp: indexKeyRangeEnd_def res_bind_Inr_iff)
    then show ?thesis using cmp_key_prefix(2)[OF assms(1)] assms(2) None by (simp add: L_def upper_ok_def)
  qed
next
  case (Some b)
  obtain v i where b: "b = (v, i)" by fastforce
  obtain s where s: "encodeIndexKey (p @ [v]) = Inr s" "en = Some (if i then s @ [0xff] else s)"
    using assms(3) Some b by (cases i) (auto simp: indexKeyRangeEnd_def res_bind_Inr_iff)
  show ?thesis using cmp_bound[OF assms(1) s(1) assms(2)]
    unfolding s(2) Some b L_def by (cases i; cases "lex_cmp compareValues (take (length p) t) p") (auto simp: upper_ok_def)
qed

lemma interval_iff:
  assumes "buildIndexInterval flds rng = Inr iv" "encodeIndexKey t = Inr k" "length flds < length t"
  shows "keyInInterval k iv \<longleftrightarrow> plan_matches flds rng t"
proof -
  obtain p lo up where b: "plan_bounds flds rng = (p, lo, up)" by (metis prod_cases3)
  have len: "length p < length t" using plan_bounds_length[OF b] assms(3) by simp
  note parts = assms(1)[unfolded buildIndexInterval_def b Let_def prod.case res_bind_Inr_iff]
  then obtain st en where st: "(case lo of
             Some (v, True) \<Rightarrow> encodeIndexKey (p @ [v])
           | Some (v, False) \<Rightarrow> res_bind (indexKeyRangeEnd (p @ [v]))
                                (\<lambda>e. Inr (case e of Some b \<Rightarrow> b | None \<Rightarrow> []))
           | None \<Rightarrow> indexKeyRangeStart p) = Inr st"
    and en: "(case up of
             Some (v, True) \<Rightarrow> indexKeyRangeEnd (p @ [v])
           | Some (v, False) \<Rightarrow> res_bind (encodeIndexKey (p @ [v])) (\<lambda>k. Inr (Some k))
           | None \<Rightarrow> indexKeyRangeEnd p) = Inr en"
    and iv: "iv = \<lparr>iv_start = st, iv_end = en\<rparr>" by auto
  show ?thesis
    unfolding plan_matches_bounds[OF b assms(3)] keyInInterval_def compareKeyBytes_eq iv index_interval.select_convs
    using start_side[OF assms(2) len st] end_side[OF assms(2) len en]
    by (cases "lex_cmp compareValues (take (length p) t) p") auto
qed

text \<open>The planned byte interval contains the index key of a document exactly when the document's
  index tuple satisfies the constraints the planner consumed: the equality prefix, then the bounds on
  the first field without an equality.\<close>

theorem buildIndexInterval_exact:
  assumes "buildIndexInterval flds rng = Inr iv" and "extractIndexKey doc flds = Inr k"
  shows "keyInInterval k iv \<longleftrightarrow> plan_matches flds rng (key_tuple doc flds)"
  using interval_iff[OF assms(1)] assms(2) by (simp add: extractIndexKey_def key_tuple_def)

theorem buildIndexInterval_exact_witness:
  "\<exists>iv k. buildIndexInterval [[97]] [\<lparr>re_field = [97], re_operator = QGte, re_value = VBool False\<rparr>] = Inr iv \<and>
     extractIndexKey [([97], VBool True)] [[97]] = Inr k \<and>
     (keyInInterval k iv \<longleftrightarrow> plan_matches [[97]] [\<lparr>re_field = [97], re_operator = QGte, re_value = VBool False\<rparr>]
        (key_tuple [([97], VBool True)] [[97]]))"
proof -
  obtain iv where iv: "buildIndexInterval [[97]] [\<lparr>re_field = [97], re_operator = QGte, re_value = VBool False\<rparr>] = Inr iv"
    by (simp add: buildIndexInterval_def lower_bound_def upper_bound_def encodeIndexKey_def pushElement_def
        indexKeyRangeEnd_def)
  obtain k where k: "extractIndexKey [([97], VBool True)] [[97]] = Inr k"
    by (simp add: extractIndexKey_def key_tuple_def evaluateFieldPath_def encodeIndexKey_def pushElement_def js_def)
  show ?thesis using buildIndexInterval_exact[OF iv k] iv k by blast
qed

section \<open>No matching document is missed\<close>

fun constraint_holds :: "query_operator \<Rightarrow> cmp \<Rightarrow> bool" where
  "constraint_holds QEq c = (c = CEq)"
| "constraint_holds QGt c = (c = CGt)"
| "constraint_holds QGte c = (c \<noteq> CLt)"
| "constraint_holds QLt c = (c = CLt)"
| "constraint_holds QLte c = (c \<noteq> CGt)"

definition satisfies :: "jvalue \<Rightarrow> range_expression \<Rightarrow> bool" where
  "satisfies v c = constraint_holds (re_operator c) (compareValues v (re_value c))"

lemma bounds_of_satisfied:
  assumes "\<forall>c \<in> set cs. satisfies v c"
  shows "lower_ok (lower_bound cs) v \<and> upper_ok (upper_bound cs) v"
  using assms
proof (induction cs rule: rev_induct)
  case Nil
  show ?case by (simp add: lower_bound_def upper_bound_def lower_ok_def upper_ok_def)
next
  case (snoc c cs)
  then have "lower_ok (lower_bound cs) v" "upper_ok (upper_bound cs) v" "satisfies v c" by auto
  then show ?case
    by (cases "re_operator c") (auto simp: lower_bound_def upper_bound_def lower_ok_def upper_ok_def satisfies_def)
qed

lemma find_SomeD: "find P xs = Some x \<Longrightarrow> x \<in> set xs \<and> P x"
  by (induction xs) (auto split: if_splits)

lemma plan_matches_complete:
  assumes "length flds \<le> length t" "\<And>i c. i < length flds \<Longrightarrow> c \<in> set rng \<Longrightarrow> re_field c = flds ! i \<Longrightarrow> satisfies (t ! i) c"
  shows "plan_matches flds rng t"
  using assms
proof (induction flds rng t rule: plan_matches.induct)
  case (3 f fs rng v t)
  let ?cs = "filter (\<lambda>r. re_field r = f) rng"
  have all: "\<forall>c \<in> set ?cs. satisfies v c" using "3.prems"(2)[of 0] by auto
  show ?case
  proof (cases "find (\<lambda>c. re_operator c = QEq) ?cs")
    case None
    then show ?thesis using bounds_of_satisfied[OF all] by simp
  next
    case (Some eq)
    then have "eq \<in> set ?cs" "re_operator eq = QEq" by (auto dest: find_SomeD)
    then have "compareValues v (re_value eq) = CEq" using all by (auto simp: satisfies_def)
    moreover have "plan_matches fs rng t"
      using "3.IH"[OF refl Some] "3.prems" "3.prems"(2)[of "Suc _"] by auto
    ultimately show ?thesis using Some by simp
  qed
qed simp_all

text \<open>A document whose indexed fields satisfy every range constraint of the query has its key in
  the interval: the scan never misses a matching document.\<close>

theorem buildIndexInterval_complete:
  assumes "buildIndexInterval flds rng = Inr iv" and "extractIndexKey doc flds = Inr k"
    and "\<forall>i < length flds. \<forall>c \<in> set rng. re_field c = flds ! i \<longrightarrow> satisfies (key_tuple doc flds ! i) c"
  shows "keyInInterval k iv"
proof -
  have "length flds < length (key_tuple doc flds)" by (simp add: key_tuple_def)
  then show ?thesis
    using interval_iff[OF assms(1)] assms(2) plan_matches_complete[of flds "key_tuple doc flds" rng] assms(3)
    by (simp add: extractIndexKey_def)
qed

theorem buildIndexInterval_complete_witness:
  "\<exists>iv k. buildIndexInterval [[97]] [\<lparr>re_field = [97], re_operator = QEq, re_value = VNull\<rparr>] = Inr iv \<and>
     extractIndexKey [([97], VNull)] [[97]] = Inr k \<and> keyInInterval k iv"
proof -
  obtain iv where iv: "buildIndexInterval [[97]] [\<lparr>re_field = [97], re_operator = QEq, re_value = VNull\<rparr>] = Inr iv"
    by (simp add: buildIndexInterval_def encodeIndexKey_def pushElement_def indexKeyRangeEnd_def indexKeyRangeStart_def)
  obtain k where k: "extractIndexKey [([97], VNull)] [[97]] = Inr k"
    by (simp add: extractIndexKey_def key_tuple_def evaluateFieldPath_def encodeIndexKey_def pushElement_def js_def)
  have "keyInInterval k iv"
    by (rule buildIndexInterval_complete[OF iv k])
      (simp add: key_tuple_def evaluateFieldPath_def satisfies_def)
  then show ?thesis using iv k by blast
qed

text \<open>The interval is not exact for the query's constraints: of several lower bounds on a field
  only the last counts, and a constraint on a field after the bounded one counts for nothing, so a
  document violating a constraint can lie in the interval.\<close>

theorem buildIndexInterval_drops_constraint:
  "plan_matches [[97], [98]]
     [\<lparr>re_field = [97], re_operator = QGte, re_value = VBool True\<rparr>,
      \<lparr>re_field = [97], re_operator = QGte, re_value = VBool False\<rparr>,
      \<lparr>re_field = [98], re_operator = QEq, re_value = VNull\<rparr>]
     [VBool False, VBool True] \<and>
   \<not> satisfies (VBool False) \<lparr>re_field = [97], re_operator = QGte, re_value = VBool True\<rparr> \<and>
   \<not> satisfies (VBool True) \<lparr>re_field = [98], re_operator = QEq, re_value = VNull\<rparr>"
  by (simp add: lower_bound_def upper_bound_def lower_ok_def upper_ok_def satisfies_def)

section \<open>Index maintenance keeps every index in step with the document\<close>

text \<open>Index contents as a map from (index id, key) to the document there, and the effect of updates
  applied in order.\<close>

type_synonym index_contents = "jsstring \<times> bytes \<Rightarrow> internal_document_id option"

definition apply_update :: "index_contents \<Rightarrow> index_update \<Rightarrow> index_contents" where
  "apply_update M u =
     M((iu_indexId u, iu_key u) := (case iu_value u of Deleted \<Rightarrow> None | NonClustered d \<Rightarrow> Some d))"

definition apply_updates :: "index_contents \<Rightarrow> index_update list \<Rightarrow> index_contents" where
  "apply_updates M us = foldl apply_update M us"

lemma apply_updates_simps [simp]:
  "apply_updates M [] = M" "apply_updates M (u # us) = apply_updates (apply_update M u) us"
  "apply_updates M (us @ vs) = apply_updates (apply_updates M us) vs"
  by (simp_all add: apply_updates_def)

lemma apply_index_diff:
  "apply_updates M (index_diff idx ok nk d) (i, key) =
     (if i = is_indexId idx then
        (if nk = Some key then Some d else if ok = Some key then None else M (i, key))
      else M (i, key))"
  by (auto simp: index_diff_def apply_update_def compareKeyBytes_eq split: option.splits)

lemma apply_diffs:
  assumes "distinct (map is_indexId idxs)" "list_all2 (\<lambda>idx us. us = index_diff idx (ok idx) (nk idx) d) idxs uss"
  shows "apply_updates M (concat uss) (i, key) =
    (case find (\<lambda>idx. is_indexId idx = i) idxs of
       None \<Rightarrow> M (i, key)
     | Some idx \<Rightarrow> (if nk idx = Some key then Some d else if ok idx = Some key then None else M (i, key)))"
  using assms(2,1)
proof (induction idxs uss arbitrary: M rule: list_all2_induct)
  case (Cons idx idxs us uss)
  have "find (\<lambda>x. is_indexId x = is_indexId idx) idxs = None"
    using Cons.prems by (simp add: find_None_iff) (metis image_eqI)
  then show ?case using Cons by (auto simp: apply_index_diff split: option.splits)
qed simp

lemma find_distinct: "distinct (map is_indexId idxs) \<Longrightarrow> idx \<in> set idxs \<Longrightarrow>
    find (\<lambda>x. is_indexId x = is_indexId idx) idxs = Some idx"
  by (induction idxs) auto

text \<open>C28. Applying the computed updates puts the changed document's new key into every index, takes
  its old key out where it moved or the document is gone, and touches nothing else.\<close>

theorem computeIndexUpdates_correct:
  assumes "distinct (map is_indexId indexes)" and "computeIndexUpdates indexes oldDoc newDoc d = Inr us"
    and "idx \<in> set indexes"
    and "extract_opt oldDoc (is_fields idx) = Inr ok" and "extract_opt newDoc (is_fields idx) = Inr nk"
  shows "apply_updates M us (is_indexId idx, key) =
     (if nk = Some key then Some d else if ok = Some key then None else M (is_indexId idx, key)) \<and>
    (i \<notin> is_indexId ` set indexes \<longrightarrow> apply_updates M us (i, key) = M (i, key))"
proof -
  let ?o = "\<lambda>idx. the_elem {k. extract_opt oldDoc (is_fields idx) = Inr k}"
  let ?n = "\<lambda>idx. the_elem {k. extract_opt newDoc (is_fields idx) = Inr k}"
  have e: "{k. (Inr a :: bytes option result) = Inr k} = {a}" for a by auto
  obtain uss where us: "us = concat uss" and
    "list_all2 (\<lambda>idx us. \<exists>a. extract_opt oldDoc (is_fields idx) = Inr a \<and>
       (\<exists>b. extract_opt newDoc (is_fields idx) = Inr b \<and> index_diff idx a b d = us)) indexes uss"
    using assms(2) by (auto simp: computeIndexUpdates_def res_bind_Inr_iff res_map_Inr_iff)
  then have "list_all2 (\<lambda>idx us. us = index_diff idx (?o idx) (?n idx) d) indexes uss"
    by (auto elim!: list_all2_mono simp: e)
  note ap = apply_diffs[OF assms(1) this]
  have "find (\<lambda>idx. is_indexId idx = i) indexes = None" if "i \<notin> is_indexId ` set indexes"
    using that by (auto simp: find_None_iff)
  then show ?thesis
    using ap[of M "is_indexId idx" key] ap[of M i key] find_distinct[OF assms(1,3)] assms(4,5)
    by (simp add: us e)
qed

theorem computeIndexUpdates_correct_witness:
  "\<exists>us k. computeIndexUpdates [\<lparr>is_table = [], is_tableNumber = 1, is_index = [], is_fields = [[97]], is_indexId = [49]\<rparr>]
      None (Some [([97], VNull)]) \<lparr>tableNumber = 1, internalId = []\<rparr> = Inr us \<and>
    apply_updates (\<lambda>_. None) us ([49], k) = Some \<lparr>tableNumber = 1, internalId = []\<rparr>"
proof -
  let ?i = "\<lparr>is_table = [], is_tableNumber = 1, is_index = [], is_fields = [[97]], is_indexId = [49]\<rparr> :: index_spec"
  let ?d = "\<lparr>tableNumber = 1, internalId = []\<rparr> :: internal_document_id"
  obtain k where k: "extract_opt (Some [([97], VNull)]) [[97]] = Inr (Some k)"
    by (simp add: extract_opt_def extractIndexKey_def key_tuple_def evaluateFieldPath_def encodeIndexKey_def
        pushElement_def js_def)
  obtain us where u: "computeIndexUpdates [?i] None (Some [([97], VNull)]) ?d = Inr us"
    using k by (simp add: computeIndexUpdates_def extract_opt_def[of None])
  have "apply_updates (\<lambda>_. None) us ([49], k) = Some ?d"
    using computeIndexUpdates_correct[OF _ u, of ?i None "Some k" "\<lambda>_. None" k "[]"] k
    by (simp add: extract_opt_def[of None])
  then show ?thesis using u by blast
qed

end
