(* ===== verification/Doc_Store.thy ===== *)
theory Doc_Store
  imports Query_Engine
begin

text \<open>
  The storage seam: \<^verbatim>\<open>packages/docstore/src/types.ts\<close> (the types of the contract),
  \<^verbatim>\<open>timestamp-oracle.ts\<close>, and the append-only MVCC store of
  \<^verbatim>\<open>packages/docstore-sqlite/src/sqlite-docstore.ts\<close> over its documents and indexes tables,
  each SQL statement read as the operation on rows it denotes.  The locale \<open>mvcc_store\<close> states what
  the transactor relies on; it is interpreted on the SQLite model.  Timestamps are integers; commit
  guards, which other packages install, are an argument.
\<close>

section \<open>Types of the contract (types.ts)\<close>

record document_log_entry =
  le_ts :: int
  le_id :: internal_document_id
  le_value :: "document option"
  le_prev_ts :: "int option"

record latest_document =
  ld_ts :: int
  ld_id :: internal_document_id
  ld_value :: document
  ld_prev_ts :: "int option"

datatype scan_order = Asc | Desc
datatype conflict_strategy = ErrorOnConflict | Overwrite

record index_write =
  iw_ts :: int
  iw_update :: index_update

type_synonym commit_meta = "(jsstring \<times> jsstring) list"

record commit_unit =
  cu_documents :: "document_log_entry list"
  cu_indexUpdates :: "index_write list"
  cu_meta :: "commit_meta option"

record commit_guard_unit =
  gu_ts :: int
  gu_meta :: "commit_meta option"

type_synonym commit_guard = "commit_guard_unit list \<Rightarrow> jsstring \<Rightarrow> js_error option"

definition getPrevRevQueryKey :: "internal_document_id \<Rightarrow> int \<Rightarrow> jsstring" where
  "getPrevRevQueryKey i ts = documentIdKey i @ [64] @ int_dec ts"

section \<open>Timestamp oracle (timestamp-oracle.ts)\<close>

record timestamp_oracle =
  or_current :: int
  or_lastCommitted :: int

definition newOracle :: "int \<Rightarrow> timestamp_oracle" where
  "newOracle st = \<lparr>or_current = st, or_lastCommitted = st\<rparr>"

definition allocateTimestamp :: "timestamp_oracle \<Rightarrow> int \<times> timestamp_oracle" where
  "allocateTimestamp o1 = (or_current o1 + 1, o1\<lparr>or_current := or_current o1 + 1\<rparr>)"

definition publishCommitted :: "int \<Rightarrow> timestamp_oracle \<Rightarrow> timestamp_oracle" where
  "publishCommitted ts o1 = (if ts > or_lastCommitted o1 then o1\<lparr>or_lastCommitted := ts\<rparr> else o1)"

definition observeTimestamp :: "int \<Rightarrow> timestamp_oracle \<Rightarrow> timestamp_oracle" where
  "observeTimestamp ts o1 =
     (let o2 = (if ts > or_current o1 then o1\<lparr>or_current := ts\<rparr> else o1)
      in if ts > or_lastCommitted o2 then o2\<lparr>or_lastCommitted := ts\<rparr> else o2)"

lemma publishCommitted_last [simp]: "or_lastCommitted (publishCommitted ts o1) = max (or_lastCommitted o1) ts"
  by (simp add: publishCommitted_def max_def)

lemma observeTimestamp_last [simp]:
  "or_lastCommitted (observeTimestamp ts o1) = max (or_lastCommitted o1) ts"
  "or_current (observeTimestamp ts o1) = max (or_current o1) ts"
  by (auto simp: observeTimestamp_def Let_def max_def)

section \<open>Rows (sqlite-docstore.ts)\<close>

record doc_row =
  dr_table :: jsstring
  dr_iid :: bytes
  dr_ts :: int
  dr_prev :: "int option"
  dr_value :: "json option"
  dr_shard :: jsstring

record idx_row =
  ir_index :: jsstring
  ir_key :: bytes
  ir_ts :: int
  ir_doc :: "(jsstring \<times> bytes) option"
  ir_deleted :: bool
  ir_shard :: jsstring

record doc_store =
  ds_documents :: "doc_row list"
  ds_indexes :: "idx_row list"

definition ds_empty :: doc_store where
  "ds_empty = \<lparr>ds_documents = [], ds_indexes = []\<rparr>"

text \<open>\<^verbatim>\<open>JSON.parse(JSON.stringify(x))\<close>: the text has no negative zero.\<close>

fun json_text :: "json \<Rightarrow> json" where
  "json_text (JNum n) = JNum (if n = f64_neg_zero then 0 else n)"
| "json_text (JArr xs) = JArr (map json_text xs)"
| "json_text (JObj es) = JObj (map (\<lambda>(k, v). (k, json_text v)) es)"
| "json_text j = j"

definition serializeValue :: "document \<Rightarrow> json" where
  "serializeValue value = json_text (convexToJson (VObj value))"

definition parseValue :: "json \<Rightarrow> document result" where
  "parseValue text = res_bind (jsonToConvex text) (\<lambda>v. case v of
       VObj es \<Rightarrow> Inr es | _ \<Rightarrow> Inl (TypeError ''document value is not an object''))"

text \<open>\<^verbatim>\<open>INSERT\<close> fails on a present primary key, \<^verbatim>\<open>INSERT OR REPLACE\<close> replaces.\<close>

definition same_doc_key :: "doc_row \<Rightarrow> doc_row \<Rightarrow> bool" where
  "same_doc_key a b = (dr_table a = dr_table b \<and> dr_iid a = dr_iid b \<and> dr_ts a = dr_ts b)"

definition same_idx_key :: "idx_row \<Rightarrow> idx_row \<Rightarrow> bool" where
  "same_idx_key a b = (ir_index a = ir_index b \<and> ir_key a = ir_key b \<and> ir_ts a = ir_ts b)"

definition insert_doc :: "conflict_strategy \<Rightarrow> doc_row \<Rightarrow> doc_row list \<Rightarrow> doc_row list result" where
  "insert_doc strategy row rows =
     (if list_ex (same_doc_key row) rows
      then (if strategy = Overwrite then Inr (filter (\<lambda>r. \<not> same_doc_key row r) rows @ [row])
            else Inl (StoreError ''UNIQUE constraint failed''))
      else Inr (rows @ [row]))"

definition insert_idx :: "idx_row \<Rightarrow> idx_row list \<Rightarrow> idx_row list" where
  "insert_idx row rows = filter (\<lambda>r. \<not> same_idx_key row r) rows @ [row]"

definition row_of_entry :: "jsstring \<Rightarrow> document_log_entry \<Rightarrow> doc_row" where
  "row_of_entry shardId e =
     \<lparr>dr_table = encodeStorageTableId (tableNumber (le_id e)), dr_iid = internalId (le_id e),
      dr_ts = le_ts e, dr_prev = le_prev_ts e, dr_value = map_option serializeValue (le_value e),
      dr_shard = shardId\<rparr>"

definition row_of_update :: "jsstring \<Rightarrow> index_write \<Rightarrow> idx_row" where
  "row_of_update shardId w =
     \<lparr>ir_index = iu_indexId (iw_update w), ir_key = iu_key (iw_update w), ir_ts = iw_ts w,
      ir_doc = (case iu_value (iw_update w) of Deleted \<Rightarrow> None
                | NonClustered d \<Rightarrow> Some (encodeStorageTableId (tableNumber d), internalId d)),
      ir_deleted = (iu_value (iw_update w) = Deleted), ir_shard = shardId\<rparr>"

fun insert_docs :: "conflict_strategy \<Rightarrow> doc_row list \<Rightarrow> doc_row list \<Rightarrow> doc_row list result" where
  "insert_docs strategy [] rows = Inr rows"
| "insert_docs strategy (r # rs) rows = res_bind (insert_doc strategy r rows) (insert_docs strategy rs)"

definition insertRows ::
  "document_log_entry list \<Rightarrow> index_write list \<Rightarrow> conflict_strategy \<Rightarrow> jsstring \<Rightarrow> doc_store \<Rightarrow> doc_store result" where
  "insertRows documents indexUpdates strategy shardId st =
     res_bind (insert_docs strategy (map (row_of_entry shardId) documents) (ds_documents st)) (\<lambda>docs.
       Inr (st\<lparr>ds_documents := docs,
               ds_indexes := fold insert_idx (map (row_of_update shardId) indexUpdates) (ds_indexes st)\<rparr>))"

text \<open>A throwing statement rolls the transaction back: the old store stays.\<close>

definition ds_write ::
  "document_log_entry list \<Rightarrow> index_write list \<Rightarrow> conflict_strategy \<Rightarrow> jsstring option \<Rightarrow> doc_store \<Rightarrow> doc_store result" where
  "ds_write documents indexUpdates strategy shardId st =
     insertRows documents indexUpdates strategy (case shardId of Some s \<Rightarrow> s | None \<Rightarrow> DEFAULT_SHARD) st"

definition maxTimestamp :: "doc_store \<Rightarrow> int" where
  "maxTimestamp st = (if ds_documents st = [] then 0 else Max (set (map dr_ts (ds_documents st))))"

fun commit_units :: "jsstring \<Rightarrow> commit_unit list \<Rightarrow> doc_store \<Rightarrow> (int list \<times> doc_store) result" where
  "commit_units shard [] st = Inr ([], st)"
| "commit_units shard (u # us) st =
     (let commitTs = maxTimestamp st + 1
      in res_bind (insertRows (map (\<lambda>e. e\<lparr>le_ts := commitTs\<rparr>) (cu_documents u))
                     (map (\<lambda>w. w\<lparr>iw_ts := commitTs\<rparr>) (cu_indexUpdates u)) ErrorOnConflict shard st)
           (\<lambda>st'. res_bind (commit_units shard us st') (\<lambda>(tss, st''). Inr (commitTs # tss, st''))))"

fun run_guards :: "commit_guard list \<Rightarrow> commit_guard_unit list \<Rightarrow> jsstring \<Rightarrow> js_error option" where
  "run_guards [] gus shard = None"
| "run_guards (g # gs) gus shard = (case g gus shard of Some e \<Rightarrow> Some e | None \<Rightarrow> run_guards gs gus shard)"

definition commitWriteBatch ::
  "commit_guard list \<Rightarrow> commit_unit list \<Rightarrow> jsstring option \<Rightarrow> doc_store \<Rightarrow> (int list \<times> doc_store) result" where
  "commitWriteBatch guards units shardId st =
     (let shard = (case shardId of Some s \<Rightarrow> s | None \<Rightarrow> DEFAULT_SHARD)
      in res_bind (commit_units shard units st) (\<lambda>(tss, st').
           (let guardUnits = map2 (\<lambda>ts u. \<lparr>gu_ts = ts, gu_meta = cu_meta u\<rparr>) tss units
            in if guardUnits = [] then Inr (tss, st')
               else (case run_guards guards guardUnits shard of
                       Some e \<Rightarrow> Inl e | None \<Rightarrow> Inr (tss, st')))))"

definition commitWrite ::
  "commit_guard list \<Rightarrow> document_log_entry list \<Rightarrow> index_write list \<Rightarrow> jsstring option \<Rightarrow> commit_meta option \<Rightarrow>
     doc_store \<Rightarrow> (int \<times> doc_store) result" where
  "commitWrite guards documents indexUpdates shardId meta st =
     res_bind (commitWriteBatch guards
         [\<lparr>cu_documents = documents, cu_indexUpdates = indexUpdates, cu_meta = meta\<rparr>] shardId st)
       (\<lambda>(tss, st'). Inr (hd tss, st'))"

section \<open>Reads\<close>

definition newest :: "doc_row list \<Rightarrow> doc_row option" where
  "newest rows = foldl (\<lambda>best r. case best of None \<Rightarrow> Some r
     | Some b \<Rightarrow> Some (if dr_ts r > dr_ts b then r else b)) None rows"

definition visible :: "int option \<Rightarrow> int \<Rightarrow> bool" where
  "visible readTs ts = (case readTs of None \<Rightarrow> True | Some t \<Rightarrow> ts \<le> t)"

definition doc_rows :: "doc_store \<Rightarrow> jsstring \<Rightarrow> bytes \<Rightarrow> int option \<Rightarrow> doc_row list" where
  "doc_rows st t iid readTs =
     filter (\<lambda>r. dr_table r = t \<and> dr_iid r = iid \<and> visible readTs (dr_ts r)) (ds_documents st)"

definition ds_get :: "doc_store \<Rightarrow> internal_document_id \<Rightarrow> int option \<Rightarrow> latest_document option result" where
  "ds_get st i readTimestamp =
     (case newest (doc_rows st (encodeStorageTableId (tableNumber i)) (internalId i) readTimestamp) of
        None \<Rightarrow> Inr None
      | Some row \<Rightarrow>
          (case dr_value row of
             None \<Rightarrow> Inr None
           | Some text \<Rightarrow> res_bind (parseValue text) (\<lambda>v.
               Inr (Some \<lparr>ld_ts = dr_ts row, ld_id = i, ld_value = v, ld_prev_ts = dr_prev row\<rparr>))))"

text \<open>The rows of an index scan: per key in the interval the newest entry at the snapshot.\<close>

definition scan_rows :: "doc_store \<Rightarrow> jsstring \<Rightarrow> int \<Rightarrow> index_interval \<Rightarrow> scan_order \<Rightarrow> idx_row list" where
  "scan_rows st indexId readTs iv order =
     (let visible_rows = filter (\<lambda>r. ir_index r = indexId \<and> keyInInterval (ir_key r) iv \<and> ir_ts r \<le> readTs) (ds_indexes st);
          newest_rows = filter (\<lambda>r. list_all (\<lambda>r'. ir_key r' = ir_key r \<longrightarrow> ir_ts r' \<le> ir_ts r) visible_rows) visible_rows;
          ascending = sort_key ir_key newest_rows
      in if order = Desc then rev ascending else ascending)"

text \<open>What the generator yields, in order, an error where resolving a row throws; consumers stop
  pulling where they like, so errors behind that point do not count.\<close>

type_synonym scan_item = "(bytes \<times> latest_document) result"

fun scan_items :: "doc_store \<Rightarrow> int \<Rightarrow> idx_row list \<Rightarrow> scan_item list" where
  "scan_items st readTs [] = []"
| "scan_items st readTs (r # rs) =
     (case (ir_deleted r, ir_doc r) of
        (False, Some (t, iid)) \<Rightarrow>
          (case res_bind (decodeStorageTableId t) (\<lambda>tn. ds_get st \<lparr>tableNumber = tn, internalId = iid\<rparr> (Some readTs)) of
             Inl e \<Rightarrow> [Inl e]
           | Inr None \<Rightarrow> scan_items st readTs rs
           | Inr (Some d) \<Rightarrow> Inr (ir_key r, d) # scan_items st readTs rs)
      | _ \<Rightarrow> scan_items st readTs rs)"

definition index_scan ::
  "doc_store \<Rightarrow> jsstring \<Rightarrow> jsstring \<Rightarrow> int \<Rightarrow> index_interval \<Rightarrow> scan_order \<Rightarrow> nat option \<Rightarrow> scan_item list" where
  "index_scan st indexId tableId readTs iv order limit =
     (let items = scan_items st readTs (scan_rows st indexId readTs iv order)
      in case limit of None \<Rightarrow> items | Some n \<Rightarrow> take (max 1 n) items)"

section \<open>Values survive storage\<close>

text \<open>Reading back a stored document gives the document with negative zeros made positive, which
  \<open>compareValues\<close> does not distinguish.\<close>

fun norm_zero :: "jvalue \<Rightarrow> jvalue" where
  "norm_zero (VNum n) = VNum (if n = f64_neg_zero then 0 else n)"
| "norm_zero (VArr vs) = VArr (map norm_zero vs)"
| "norm_zero (VObj es) = VObj (map (\<lambda>(k, v). (k, norm_zero v)) es)"
| "norm_zero v = v"

definition norm_doc :: "document \<Rightarrow> document" where
  "norm_doc d = map (\<lambda>(k, v). (k, norm_zero v)) d"

lemma map_fst_norm [simp]: "map fst (map (\<lambda>(k, v). (k, f v)) es) = map fst es"
  by (induction es) auto

lemma zero_finite: "f64_is_finite 0" "f64_is_finite f64_neg_zero"
  by (simp_all add: f64_is_finite_def f64_neg_zero_def f64_exp_def f64_mag_def)

lemma json_text_convexToJson:
  "value_ok v \<Longrightarrow> json_text (convexToJson v) = convexToJson (norm_zero v) \<and> value_ok (norm_zero v)"
proof (induction v)
  case (VNum n)
  then show ?case using zero_finite by auto
next
  case (VArr vs)
  then show ?case by (auto simp: list_all_iff)
next
  case (VObj es)
  have ok: "obj_ok es" and ih: "\<And>k v. (k, v) \<in> set es \<Longrightarrow>
      json_text (convexToJson v) = convexToJson (norm_zero v) \<and> value_ok (norm_zero v)"
    using VObj by (auto simp: list_all_iff)
  have ok': "obj_ok (map (\<lambda>(k, v). (k, norm_zero v)) es)" using ok unfolding obj_ok_def map_fst_norm .
  have eq: "map (\<lambda>(k, v). (k, json_text v)) (map (\<lambda>(k, v). (escapeKey k, convexToJson v)) es) =
      map (\<lambda>(k, v). (escapeKey k, convexToJson v)) (map (\<lambda>(k, v). (k, norm_zero v)) es)"
    using ih by auto
  note a = obj_from_ok[OF obj_ok_escape[OF ok], of convexToJson] obj_from_ok[OF obj_ok_escape[OF ok'], of convexToJson]
  have "json_text (convexToJson (VObj es)) = convexToJson (norm_zero (VObj es))"
    unfolding convexToJson.simps norm_zero.simps json_text.simps a eq ..
  then show ?case using ok' ih by (auto simp: list_all_iff)
qed simp_all

lemma parse_serialize [store_simps]:
  assumes "value_ok (VObj d)" shows "parseValue (serializeValue d) = Inr (norm_doc d)"
  using json_text_convexToJson[OF assms] json_roundtrip[of "norm_zero (VObj d)"]
  by (simp add: parseValue_def serializeValue_def norm_doc_def)

section \<open>Commits append\<close>

definition idx_key :: "idx_row \<Rightarrow> jsstring \<times> bytes \<times> int" where
  "idx_key r = (ir_index r, ir_key r, ir_ts r)"

definition ds_ok :: "doc_store \<Rightarrow> bool" where
  "ds_ok st \<longleftrightarrow> (\<forall>r \<in> set (ds_documents st). 0 < dr_ts r) \<and> (\<forall>r \<in> set (ds_indexes st). ir_ts r \<le> maxTimestamp st) \<and>
    distinct (map idx_key (ds_indexes st))"

lemma ds_ok_empty: "ds_ok ds_empty"
  by (simp add: ds_ok_def ds_empty_def)

lemma maxTimestamp_ge: "r \<in> set (ds_documents st) \<Longrightarrow> dr_ts r \<le> maxTimestamp st"
  by (auto simp: maxTimestamp_def)

lemma maxTimestamp_nonneg: "ds_ok st \<Longrightarrow> 0 \<le> maxTimestamp st"
proof (cases "ds_documents st")
  case (Cons r rs)
  assume "ds_ok st"
  then show ?thesis using maxTimestamp_ge[of r st] Cons by (auto simp: ds_ok_def)
qed (simp add: maxTimestamp_def)

lemma insert_docs_append: "insert_docs ErrorOnConflict rs rows = Inr out \<Longrightarrow> out = rows @ rs"
proof (induction rs arbitrary: rows)
  case (Cons r rs)
  then show ?case using Cons.IH[of "rows @ [r]"] by (auto simp: insert_doc_def split: if_splits)
qed simp

text \<open>One stamped unit: document rows are appended, and index rows at or before an earlier snapshot
  stay as they were.\<close>

lemma insertRows_spec:
  assumes "insertRows docs ups ErrorOnConflict shard st = Inr st'"
    and "\<forall>e \<in> set docs. le_ts e = ts" "\<forall>w \<in> set ups. iw_ts w = ts"
  shows "ds_documents st' = ds_documents st @ map (row_of_entry shard) docs \<and>
    (\<forall>t < ts. filter (\<lambda>r. P r \<and> ir_ts r \<le> t) (ds_indexes st') = filter (\<lambda>r. P r \<and> ir_ts r \<le> t) (ds_indexes st)) \<and>
    (\<forall>r \<in> set (ds_indexes st'). r \<in> set (ds_indexes st) \<or> ir_ts r = ts) \<and>
    (distinct (map idx_key (ds_indexes st)) \<longrightarrow> distinct (map idx_key (ds_indexes st')))"
proof -
  have docs: "ds_documents st' = ds_documents st @ map (row_of_entry shard) docs"
    and idx: "ds_indexes st' = fold insert_idx (map (row_of_update shard) ups) (ds_indexes st)"
    using assms(1) insert_docs_append by (auto simp: insertRows_def res_bind_Inr_iff)
  have "(\<forall>t < ts. filter (\<lambda>r. P r \<and> ir_ts r \<le> t) (fold insert_idx rows ix) = filter (\<lambda>r. P r \<and> ir_ts r \<le> t) ix) \<and>
      (\<forall>r \<in> set (fold insert_idx rows ix). r \<in> set ix \<or> ir_ts r = ts) \<and>
      (distinct (map idx_key ix) \<longrightarrow> distinct (map idx_key (fold insert_idx rows ix)))"
    if "\<forall>r \<in> set rows. ir_ts r = ts" for rows ix
    using that
  proof (induction rows arbitrary: ix)
    case (Cons r rows)
    have "filter (\<lambda>r. P r \<and> ir_ts r \<le> t) (insert_idx r ix) = filter (\<lambda>r. P r \<and> ir_ts r \<le> t) ix" if "t < ts" for t
      using Cons.prems that by (auto simp: insert_idx_def same_idx_key_def intro!: filter_cong)
    moreover have "\<forall>x \<in> set (insert_idx r ix). x \<in> set ix \<or> ir_ts x = ts"
      using Cons.prems by (auto simp: insert_idx_def)
    moreover have "distinct (map idx_key ix) \<Longrightarrow> distinct (map idx_key (insert_idx r ix))"
      by (auto simp: insert_idx_def same_idx_key_def idx_key_def distinct_map inj_on_def)
    ultimately show ?case using Cons.IH[of "insert_idx r ix"] Cons.prems by auto
  qed simp
  from this[of "map (row_of_update shard) ups" "ds_indexes st"]
  show ?thesis using docs idx assms(3) by (auto simp: row_of_update_def)
qed

definition units_rows :: "jsstring \<Rightarrow> int list \<Rightarrow> commit_unit list \<Rightarrow> doc_row list" where
  "units_rows shard tss us =
     concat (map2 (\<lambda>ts u. map (\<lambda>e. row_of_entry shard (e\<lparr>le_ts := ts\<rparr>)) (cu_documents u)) tss us)"

lemma maxTimestamp_append:
  assumes "ds_ok st" "ds_documents st' = ds_documents st @ rows" "\<forall>r \<in> set rows. dr_ts r = maxTimestamp st + 1" "rows \<noteq> []"
  shows "maxTimestamp st' = maxTimestamp st + 1"
proof -
  have "Max (dr_ts ` (set (ds_documents st) \<union> set rows)) = maxTimestamp st + 1"
    using assms(3,4) maxTimestamp_ge[of _ st] by (intro Max_eqI) (force simp: neq_Nil_conv)+
  then show ?thesis using assms(2,4) unfolding maxTimestamp_def[of st'] by (simp add: image_Un)
qed

lemma commit_units_spec:
  assumes "ds_ok st" "\<forall>u \<in> set us. cu_documents u \<noteq> []" "commit_units shard us st = Inr (tss, st')"
  shows "ds_ok st' \<and> tss = map (\<lambda>i. maxTimestamp st + 1 + int i) [0..<length us] \<and>
    maxTimestamp st' = maxTimestamp st + int (length us) \<and>
    ds_documents st' = ds_documents st @ units_rows shard tss us \<and>
    (\<forall>t \<le> maxTimestamp st. filter (\<lambda>r. P r \<and> ir_ts r \<le> t) (ds_indexes st') = filter (\<lambda>r. P r \<and> ir_ts r \<le> t) (ds_indexes st))"
  using assms
proof (induction us arbitrary: st tss)
  case (Cons u us)
  let ?ts = "maxTimestamp st + 1"
  let ?docs = "map (\<lambda>e. e\<lparr>le_ts := ?ts\<rparr>) (cu_documents u)"
  obtain st1 tss' where ins: "insertRows ?docs (map (\<lambda>w. w\<lparr>iw_ts := ?ts\<rparr>) (cu_indexUpdates u)) ErrorOnConflict shard st = Inr st1"
    and rest: "commit_units shard us st1 = Inr (tss', st')" and tss: "tss = ?ts # tss'"
    using Cons.prems(3) by (auto simp: Let_def res_bind_Inr_iff)
  have stamps: "\<forall>e \<in> set ?docs. le_ts e = ?ts" "\<forall>w \<in> set (map (\<lambda>w. w\<lparr>iw_ts := ?ts\<rparr>) (cu_indexUpdates u)). iw_ts w = ?ts"
    by auto
  note sp = insertRows_spec[OF ins stamps]
  have rows: "ds_documents st1 = ds_documents st @ map (row_of_entry shard) ?docs" using sp by blast
  have max1: "maxTimestamp st1 = ?ts"
    by (rule maxTimestamp_append[OF Cons.prems(1) rows]) (use Cons.prems(2) in \<open>auto simp: row_of_entry_def\<close>)
  have ok1: "ds_ok st1"
    using Cons.prems(1) sp maxTimestamp_nonneg[OF Cons.prems(1)] unfolding ds_ok_def max1
    by (fastforce simp: row_of_entry_def)
  have ih: "ds_ok st' \<and> tss' = map (\<lambda>i. maxTimestamp st1 + 1 + int i) [0..<length us] \<and>
    maxTimestamp st' = maxTimestamp st1 + int (length us) \<and>
    ds_documents st' = ds_documents st1 @ units_rows shard tss' us \<and>
    (\<forall>t \<le> maxTimestamp st1. filter (\<lambda>r. P r \<and> ir_ts r \<le> t) (ds_indexes st') = filter (\<lambda>r. P r \<and> ir_ts r \<le> t) (ds_indexes st1))"
    using Cons.IH[OF ok1 _ rest] Cons.prems(2) by simp
  have "tss = map (\<lambda>i. ?ts + int i) [0..<length (u # us)]"
    using ih unfolding tss max1 by (simp add: upt_conv_Cons map_Suc_upt[symmetric] del: upt_Suc)
  moreover have "\<forall>t \<le> maxTimestamp st. filter (\<lambda>r. P r \<and> ir_ts r \<le> t) (ds_indexes st') = filter (\<lambda>r. P r \<and> ir_ts r \<le> t) (ds_indexes st)"
    using ih sp max1 by auto
  moreover have "ds_documents st' = ds_documents st @ units_rows shard tss (u # us)"
    using ih rows by (simp add: units_rows_def tss)
  moreover have "maxTimestamp st' = maxTimestamp st + int (length (u # us))" using ih max1 by simp
  ultimately show ?case using ih by blast
qed (simp add: units_rows_def)

section \<open>The contract the transactor relies on\<close>

locale mvcc_store =
  fixes ok :: "'s \<Rightarrow> bool"
    and good :: "'u \<Rightarrow> bool"
    and max_ts :: "'s \<Rightarrow> int"
    and get_at :: "'s \<Rightarrow> internal_document_id \<Rightarrow> int option \<Rightarrow> 'g"
    and scan_at :: "'s \<Rightarrow> jsstring \<Rightarrow> int \<Rightarrow> index_interval \<Rightarrow> scan_order \<Rightarrow> 'r"
    and commit :: "'u list \<Rightarrow> 's \<Rightarrow> (int list \<times> 's) result"
  assumes commit_ok: "ok st \<Longrightarrow> list_all good us \<Longrightarrow> commit us st = Inr (tss, st') \<Longrightarrow> ok st'"
    and commit_ts: "ok st \<Longrightarrow> list_all good us \<Longrightarrow> commit us st = Inr (tss, st') \<Longrightarrow>
      length tss = length us \<and> sorted_wrt (<) tss \<and> (\<forall>ts \<in> set tss. max_ts st < ts) \<and>
      max_ts st' = (if tss = [] then max_ts st else last tss)"
    and get_stable: "ok st \<Longrightarrow> list_all good us \<Longrightarrow> commit us st = Inr (tss, st') \<Longrightarrow> t \<le> max_ts st \<Longrightarrow>
      get_at st' i (Some t) = get_at st i (Some t)"
    and scan_stable: "ok st \<Longrightarrow> list_all good us \<Longrightarrow> commit us st = Inr (tss, st') \<Longrightarrow> t \<le> max_ts st \<Longrightarrow>
      scan_at st' ix t iv order = scan_at st ix t iv order"
    and get_latest: "ok st \<Longrightarrow> get_at st i None = get_at st i (Some (max_ts st))"
begin

text \<open>A later state: reached by commits.\<close>

inductive later :: "'s \<Rightarrow> 's \<Rightarrow> bool" where
  later_refl: "later st st"
| later_step: "later st st' \<Longrightarrow> list_all good us \<Longrightarrow> commit us st' = Inr (tss, st'') \<Longrightarrow> later st st''"

lemma commit_max_mono:
  assumes "ok st" "list_all good us" "commit us st = Inr (tss, st')" shows "max_ts st \<le> max_ts st'"
proof (cases "tss = []")
  case False
  then have "last tss \<in> set tss" by simp
  then have "max_ts st < last tss" using commit_ts[OF assms] by blast
  then show ?thesis using commit_ts[OF assms] False by (simp add: less_imp_le)
qed (use commit_ts[OF assms] in simp)

lemma later_stable:
  assumes "later st st'" "ok st"
  shows "ok st' \<and> max_ts st \<le> max_ts st' \<and>
    (\<forall>t \<le> max_ts st. get_at st' i (Some t) = get_at st i (Some t) \<and> scan_at st' ix t iv order = scan_at st ix t iv order)"
  using assms
proof (induction rule: later.induct)
  case (later_step st st' us tss st'')
  then show ?case
    using commit_ok[of st' us tss st''] commit_max_mono[of st' us tss st''] get_stable[of st' us tss st'' _ i]
      scan_stable[of st' us tss st'' _ ix iv order] by auto
qed simp

end

definition unit_ok :: "commit_unit \<Rightarrow> bool" where
  "unit_ok u = (cu_documents u \<noteq> [])"

lemma commitWriteBatch_units:
  "commitWriteBatch guards us shardId st = Inr (tss, st') \<Longrightarrow>
   commit_units (case shardId of Some s \<Rightarrow> s | None \<Rightarrow> DEFAULT_SHARD) us st = Inr (tss, st')"
  by (auto simp: commitWriteBatch_def Let_def res_bind_Inr_iff split: if_splits option.splits)

lemma units_rows_ts: "r \<in> set (units_rows shard tss us) \<Longrightarrow> dr_ts r \<in> set tss"
  by (auto simp: units_rows_def row_of_entry_def dest!: set_zip_leftD)

lemma commit_spec:
  assumes "ds_ok st" "list_all unit_ok us" "commitWriteBatch guards us shardId st = Inr (tss, st')"
  shows "ds_ok st' \<and> tss = map (\<lambda>i. maxTimestamp st + 1 + int i) [0..<length us] \<and>
    maxTimestamp st' = maxTimestamp st + int (length us) \<and>
    ds_documents st' = ds_documents st @ units_rows (case shardId of Some s \<Rightarrow> s | None \<Rightarrow> DEFAULT_SHARD) tss us \<and>
    (\<forall>t \<le> maxTimestamp st. filter (\<lambda>r. P r \<and> ir_ts r \<le> t) (ds_indexes st') = filter (\<lambda>r. P r \<and> ir_ts r \<le> t) (ds_indexes st))"
  using commit_units_spec[OF assms(1) _ commitWriteBatch_units[OF assms(3)]] assms(2)
  by (simp add: list_all_iff unit_ok_def)

lemma doc_rows_commit:
  assumes "ds_ok st" "list_all unit_ok us" "commitWriteBatch guards us shardId st = Inr (tss, st')" "t \<le> maxTimestamp st"
  shows "doc_rows st' tb iid (Some t) = doc_rows st tb iid (Some t)"
proof -
  note sp = commit_spec[OF assms(1-3), of "\<lambda>_. True"]
  have "t < dr_ts r" if "r \<in> set (units_rows sh tss us)" for r sh
    using units_rows_ts[OF that] sp assms(4) by auto
  then have "filter (\<lambda>r. dr_table r = tb \<and> dr_iid r = iid \<and> visible (Some t) (dr_ts r)) (units_rows sh tss us) = []" for sh
    by (auto simp: filter_empty_conv visible_def not_le)
  then show ?thesis using sp by (simp add: doc_rows_def)
qed

lemma ds_get_commit:
  assumes "ds_ok st" "list_all unit_ok us" "commitWriteBatch guards us shardId st = Inr (tss, st')" "t \<le> maxTimestamp st"
  shows "ds_get st' i (Some t) = ds_get st i (Some t)"
  unfolding ds_get_def doc_rows_commit[OF assms] ..

lemma scan_rows_commit:
  assumes "ds_ok st" "list_all unit_ok us" "commitWriteBatch guards us shardId st = Inr (tss, st')" "t \<le> maxTimestamp st"
  shows "scan_rows st' ix t iv order = scan_rows st ix t iv order"
  using commit_spec[OF assms(1-3), of "\<lambda>r. ir_index r = ix \<and> keyInInterval (ir_key r) iv"] assms(4)
  by (simp add: scan_rows_def Let_def conj_assoc)

lemma scan_items_cong:
  assumes "\<And>i. ds_get st' i (Some t) = ds_get st i (Some t)"
  shows "scan_items st' t rows = scan_items st t rows"
  by (induction rows) (auto simp: assms split: option.splits sum.splits bool.splits)

lemma index_scan_commit:
  assumes "ds_ok st" "list_all unit_ok us" "commitWriteBatch guards us shardId st = Inr (tss, st')" "t \<le> maxTimestamp st"
  shows "index_scan st' ix tb t iv order lim = index_scan st ix tb t iv order lim"
  unfolding index_scan_def scan_rows_commit[OF assms] scan_items_cong[OF ds_get_commit[OF assms]] ..

lemma doc_rows_latest: "doc_rows st tb iid None = doc_rows st tb iid (Some (maxTimestamp st))"
  using maxTimestamp_ge by (auto simp: doc_rows_def visible_def intro!: filter_cong)

interpretation sqlite: mvcc_store ds_ok unit_ok maxTimestamp ds_get
    "\<lambda>st ix t iv order. index_scan st ix tb t iv order lim" "\<lambda>us. commitWriteBatch guards us shardId"
proof
  fix st st' :: doc_store and us tss
  assume a: "ds_ok st" "list_all unit_ok us" "commitWriteBatch guards us shardId st = Inr (tss, st')"
  note sp = commit_spec[OF a, of "\<lambda>_. True"]
  show "ds_ok st'" using sp by blast
  have t: "tss = map (\<lambda>i. maxTimestamp st + 1 + int i) [0..<length us]" using sp by blast
  have "last tss = maxTimestamp st + int (length us)" if "tss \<noteq> []"
    using that unfolding t by (cases us) (simp_all add: last_map)
  then show "length tss = length us \<and> sorted_wrt (<) tss \<and> (\<forall>ts \<in> set tss. maxTimestamp st < ts) \<and>
      maxTimestamp st' = (if tss = [] then maxTimestamp st else last tss)"
    using sp by (auto simp: sorted_wrt_map sorted_wrt_upt)
  show "t \<le> maxTimestamp st \<Longrightarrow> ds_get st' i (Some t) = ds_get st i (Some t)" for t i
    by (rule ds_get_commit[OF a])
  show "t \<le> maxTimestamp st \<Longrightarrow> index_scan st' ix tb t iv order lim = index_scan st ix tb t iv order lim" for t ix iv order
    by (rule index_scan_commit[OF a])
next
  show "ds_get st i None = ds_get st i (Some (maxTimestamp st))" for st i
    unfolding ds_get_def doc_rows_latest ..
qed

section \<open>Scans of a sub-interval\<close>

fun before :: "scan_order \<Rightarrow> bytes \<Rightarrow> bytes \<Rightarrow> bool" where
  "before Asc a b = (a < b)"
| "before Desc a b = (b < a)"

lemma scan_rows_sub:
  assumes "\<And>k. keyInInterval k iv' \<Longrightarrow> keyInInterval k iv"
  shows "scan_rows st ix t iv' order = filter (\<lambda>r. keyInInterval (ir_key r) iv') (scan_rows st ix t iv order)"
proof -
  let ?vis = "\<lambda>iv. filter (\<lambda>r. ir_index r = ix \<and> keyInInterval (ir_key r) iv \<and> ir_ts r \<le> t) (ds_indexes st)"
  let ?new = "\<lambda>iv. filter (\<lambda>r. list_all (\<lambda>r'. ir_key r' = ir_key r \<longrightarrow> ir_ts r' \<le> ir_ts r) (?vis iv)) (?vis iv)"
  have "?new iv' = filter (\<lambda>r. keyInInterval (ir_key r) iv') (?new iv)"
    using assms by (auto simp: list_all_iff intro!: filter_cong)
  then show ?thesis by (simp add: scan_rows_def Let_def filter_sort[symmetric] rev_filter[symmetric])
qed

lemma scan_rows_in:
  "r \<in> set (scan_rows st ix t iv order) \<Longrightarrow> keyInInterval (ir_key r) iv \<and> ir_ts r \<le> t \<and> ir_index r = ix \<and> r \<in> set (ds_indexes st)"
  by (auto simp: scan_rows_def Let_def split: if_splits)

lemma scan_rows_sorted:
  assumes "distinct (map idx_key (ds_indexes st))"
  shows "sorted_wrt (\<lambda>a b. before order (ir_key a) (ir_key b)) (scan_rows st ix t iv order)"
proof -
  let ?vis = "filter (\<lambda>r. ir_index r = ix \<and> keyInInterval (ir_key r) iv \<and> ir_ts r \<le> t) (ds_indexes st)"
  let ?new = "filter (\<lambda>r. list_all (\<lambda>r'. ir_key r' = ir_key r \<longrightarrow> ir_ts r' \<le> ir_ts r) ?vis) ?vis"
  have "inj_on ir_key (set ?new)"
  proof (rule inj_onI)
    fix a b assume a: "a \<in> set ?new" "b \<in> set ?new" "ir_key a = ir_key b"
    then have "idx_key a = idx_key b" by (auto simp: list_all_iff idx_key_def intro: antisym)
    then show "a = b" using assms a by (auto simp: distinct_map dest: inj_onD)
  qed
  moreover have "distinct ?new" using assms by (auto simp: distinct_map)
  ultimately have "distinct (map ir_key (sort_key ir_key ?new))" by (simp add: distinct_map)
  then have "sorted_wrt (<) (map ir_key (sort_key ir_key ?new))"
    by (simp add: strict_sorted_iff)
  then have "sorted_wrt (\<lambda>a b. ir_key a < ir_key b) (sort_key ir_key ?new)" by (simp add: sorted_wrt_map)
  then show ?thesis by (cases order) (simp_all add: scan_rows_def Let_def sorted_wrt_rev)
qed

definition resolve_row :: "doc_store \<Rightarrow> int \<Rightarrow> idx_row \<Rightarrow> latest_document option result" where
  "resolve_row st t r =
     (case (ir_deleted r, ir_doc r) of
        (False, Some (tb, iid)) \<Rightarrow>
          res_bind (decodeStorageTableId tb) (\<lambda>tn. ds_get st \<lparr>tableNumber = tn, internalId = iid\<rparr> (Some t))
      | _ \<Rightarrow> Inr None)"

lemma scan_items_Cons: "scan_items st t (r # rs) =
    (case resolve_row st t r of Inl e \<Rightarrow> [Inl e] | Inr None \<Rightarrow> scan_items st t rs
     | Inr (Some d) \<Rightarrow> Inr (ir_key r, d) # scan_items st t rs)"
  by (auto simp: resolve_row_def split: option.splits sum.splits bool.splits prod.splits)

declare scan_items.simps(2) [simp del]

lemma scan_items_append:
  "list_all (\<lambda>i. \<not> isl i) (scan_items st t xs) \<Longrightarrow>
   scan_items st t (xs @ ys) = scan_items st t xs @ scan_items st t ys"
  by (induction xs) (auto simp: scan_items_Cons split: option.splits sum.splits)

lemma scan_items_keys:
  "Inr (k, d) \<in> set (scan_items st t rows) \<Longrightarrow> \<exists>r \<in> set rows. ir_key r = k"
  by (induction rows) (auto simp: scan_items_Cons split: option.splits sum.splits)

lemma scan_items_sorted:
  "sorted_wrt (\<lambda>a b. before order (ir_key a) (ir_key b)) rows \<Longrightarrow> scan_items st t rows = map Inr its @ rest \<Longrightarrow>
   sorted_wrt (\<lambda>a b. before order (fst a) (fst b)) its"
proof (induction rows arbitrary: its)
  case (Cons r rows)
  show ?case
  proof (cases "resolve_row st t r")
    case (Inl e)
    then show ?thesis using Cons.prems(2) by (cases its) (auto simp: scan_items_Cons)
  next
    case (Inr od)
    show ?thesis
    proof (cases "od = None \<or> its = []")
      case False
      then obtain d its' where its: "its = (ir_key r, d) # its'" "scan_items st t rows = map Inr its' @ rest"
        using Cons.prems(2) Inr by (cases its) (auto simp: scan_items_Cons)
      have "before order (ir_key r) (fst x)" if "x \<in> set its'" for x
      proof -
        have "Inr (fst x, snd x) \<in> set (scan_items st t rows)" using that unfolding its(2) by simp
        then show ?thesis using scan_items_keys Cons.prems(1) by fastforce
      qed
      then show ?thesis using Cons.IH[OF _ its(2)] Cons.prems(1) by (simp add: its(1))
    qed (use Cons Inr in \<open>auto simp: scan_items_Cons\<close>)
  qed
qed simp

lemma scan_items_filter:
  "scan_items st t rows = map Inr its \<Longrightarrow>
   scan_items st t (filter (\<lambda>r. P (ir_key r)) rows) = map Inr (filter (\<lambda>x. P (fst x)) its)"
  by (induction rows arbitrary: its)
    (auto simp: scan_items_Cons Cons_eq_map_conv split: option.splits sum.splits)

lemma index_scan_sorted:
  assumes "ds_ok st" "index_scan st ix tb t iv order None = map Inr its @ rest"
  shows "sorted_wrt (\<lambda>a b. before order (fst a) (fst b)) its"
  using scan_items_sorted[OF scan_rows_sorted] assms unfolding index_scan_def ds_ok_def by (simp, blast)

lemma index_scan_sub:
  assumes "index_scan st ix tb t iv order None = map Inr its" "\<And>k. keyInInterval k iv' \<Longrightarrow> keyInInterval k iv"
  shows "index_scan st ix tb t iv' order None = map Inr (filter (\<lambda>x. keyInInterval (fst x) iv') its)"
  using scan_items_filter[where P = "\<lambda>k. keyInInterval k iv'"] assms(1) scan_rows_sub[OF assms(2)]
  by (simp add: index_scan_def)

lemma index_scan_keys:
  "Inr (k, d) \<in> set (index_scan st ix tb t iv order None) \<Longrightarrow> keyInInterval k iv"
  using scan_items_keys scan_rows_in by (fastforce simp: index_scan_def)

section \<open>What a commit makes visible\<close>

lemma newest_spec:
  "newest rows = None \<longleftrightarrow> rows = []" "newest rows = Some b \<Longrightarrow> b \<in> set rows \<and> (\<forall>r \<in> set rows. dr_ts r \<le> dr_ts b)"
proof (induction rows arbitrary: b rule: rev_induct)
  case Nil
  show "newest [] = None \<longleftrightarrow> [] = []" "newest [] = Some b \<Longrightarrow> b \<in> set [] \<and> (\<forall>r \<in> set []. dr_ts r \<le> dr_ts b)" for b
    by (simp_all add: newest_def)
next
  case (snoc r rows)
  have st: "newest (rows @ [r]) = (case newest rows of None \<Rightarrow> Some r | Some b \<Rightarrow> Some (if dr_ts r > dr_ts b then r else b))"
    by (simp add: newest_def)
  show "newest (rows @ [r]) = None \<longleftrightarrow> rows @ [r] = []" by (simp add: st split: option.splits)
  show "b \<in> set (rows @ [r]) \<and> (\<forall>x \<in> set (rows @ [r]). dr_ts x \<le> dr_ts b)"
    if h: "newest (rows @ [r]) = Some b" for b
  proof (cases "newest rows")
    case None
    then show ?thesis using snoc(1) h by (simp add: newest_def)
  next
    case (Some b0)
    then show ?thesis using snoc(2)[OF Some] h by (force simp: st split: if_splits)
  qed
qed

lemma newest_snoc: "\<forall>x \<in> set rows. dr_ts x < dr_ts r \<Longrightarrow> newest (rows @ [r]) = Some r"
  using newest_spec(2)[of rows] by (cases "newest rows") (auto simp: newest_def)

lemma filter_unique: "distinct (map f xs) \<Longrightarrow> x \<in> set xs \<Longrightarrow> filter (\<lambda>y. f y = f x) xs = [x]"
proof (induction xs)
  case (Cons a xs)
  show ?case
  proof (cases "a = x")
    case True
    then have "filter (\<lambda>y. f y = f x) xs = []" using Cons.prems by (auto simp: filter_empty_conv) (metis image_eqI)
    then show ?thesis using True by simp
  next
    case False
    then have "f a \<noteq> f x" using Cons.prems by auto
    then show ?thesis using Cons False by auto
  qed
qed simp

lemma storage_ids:
  fixes a b :: internal_document_id
  shows "encodeStorageTableId (tableNumber a) = encodeStorageTableId (tableNumber b) \<and> internalId a = internalId b
    \<longleftrightarrow> a = b"
  by (cases a; cases b) (auto simp: encodeStorageTableId_def)

lemma commitWrite_spec:
  assumes "ds_ok st" "docs \<noteq> []" "commitWrite guards docs ups shardId meta st = Inr (ts, st')"
  shows "ds_ok st' \<and> ts = maxTimestamp st + 1 \<and> maxTimestamp st' = ts \<and>
    ds_documents st' = ds_documents st @ map (\<lambda>e. row_of_entry (case shardId of Some s \<Rightarrow> s | None \<Rightarrow> DEFAULT_SHARD) (e\<lparr>le_ts := ts\<rparr>)) docs"
proof -
  obtain tss where b: "commitWriteBatch guards [\<lparr>cu_documents = docs, cu_indexUpdates = ups, cu_meta = meta\<rparr>] shardId st = Inr (tss, st')"
    and ts: "ts = hd tss" using assms(3) by (auto simp: commitWrite_def res_bind_Inr_iff)
  have "list_all unit_ok [\<lparr>cu_documents = docs, cu_indexUpdates = ups, cu_meta = meta\<rparr>]"
    using assms(2) by (simp add: unit_ok_def)
  from commit_spec[OF assms(1) this b, of "\<lambda>_. True"] show ?thesis by (simp add: ts units_rows_def)
qed

lemma doc_rows_commitWrite:
  assumes "ds_ok st" "docs \<noteq> []" "commitWrite guards docs ups shardId meta st = Inr (ts, st')"
  shows "doc_rows st' (encodeStorageTableId (tableNumber i)) (internalId i) None =
    doc_rows st (encodeStorageTableId (tableNumber i)) (internalId i) None @
    map (\<lambda>e. row_of_entry (case shardId of Some s \<Rightarrow> s | None \<Rightarrow> DEFAULT_SHARD) (e\<lparr>le_ts := ts\<rparr>)) (filter (\<lambda>e. le_id e = i) docs)"
  using commitWrite_spec[OF assms] storage_ids[of _ i]
  by (simp add: doc_rows_def visible_def filter_map o_def row_of_entry_def)

lemma ds_get_commitWrite_other:
  assumes "ds_ok st" "docs \<noteq> []" "commitWrite guards docs ups shardId meta st = Inr (ts, st')" "i \<notin> le_id ` set docs"
  shows "ds_get st' i None = ds_get st i None"
proof -
  have "filter (\<lambda>e. le_id e = i) docs = []" using assms(4) by (auto simp: filter_empty_conv)
  then show ?thesis using doc_rows_commitWrite[OF assms(1-3), of i] by (simp add: ds_get_def)
qed

lemma ds_get_commitWrite_written:
  assumes "ds_ok st" "commitWrite guards docs ups shardId meta st = Inr (ts, st')"
    and "distinct (map le_id docs)" "e \<in> set docs" "\<forall>d. le_value e = Some d \<longrightarrow> value_ok (VObj d)"
  shows "ds_get st' (le_id e) None = Inr (map_option (\<lambda>d. \<lparr>ld_ts = ts, ld_id = le_id e, ld_value = norm_doc d, ld_prev_ts = le_prev_ts e\<rparr>) (le_value e))"
proof -
  have ne: "docs \<noteq> []" using assms(4) by auto
  note sp = commitWrite_spec[OF assms(1) ne assms(2)]
  let ?r = "row_of_entry (case shardId of Some s \<Rightarrow> s | None \<Rightarrow> DEFAULT_SHARD) (e\<lparr>le_ts := ts\<rparr>)"
  have "\<forall>x \<in> set (doc_rows st tb iid None). dr_ts x < dr_ts ?r" for tb iid
    using sp maxTimestamp_ge[of _ st] by (fastforce simp: doc_rows_def row_of_entry_def)
  then have "newest (doc_rows st' (encodeStorageTableId (tableNumber (le_id e))) (internalId (le_id e)) None) = Some ?r"
    using doc_rows_commitWrite[OF assms(1) ne assms(2), of "le_id e"] filter_unique[OF assms(3,4)]
    by (simp add: newest_snoc)
  then show ?thesis using assms(5) parse_serialize
    by (cases "le_value e") (simp_all add: ds_get_def row_of_entry_def)
qed

fun commit_all :: "commit_guard list \<Rightarrow> jsstring option \<Rightarrow> commit_unit list list \<Rightarrow> doc_store \<Rightarrow> doc_store result" where
  "commit_all guards shardId [] st = Inr st"
| "commit_all guards shardId (us # uss) st =
     res_bind (commitWriteBatch guards us shardId st) (\<lambda>(tss, st'). commit_all guards shardId uss st')"

lemma commit_all_later:
  "commit_all guards shardId uss st = Inr st' \<Longrightarrow> list_all (list_all unit_ok) uss \<Longrightarrow> sqlite.later guards shardId st st'"
proof (induction uss arbitrary: st' rule: rev_induct)
  case Nil
  then show ?case by (simp add: sqlite.later_refl)
next
  case (snoc us uss)
  have "commit_all guards shardId (uss @ [us]) st = res_bind (commit_all guards shardId uss st)
      (\<lambda>st1. res_bind (commitWriteBatch guards us shardId st1) (\<lambda>(tss, st'). Inr st'))" for st
    by (induction uss arbitrary: st) (auto simp: res_bind_def split: sum.splits)
  then show ?case using snoc by (auto simp: res_bind_Inr_iff intro: sqlite.later_step)
qed

text \<open>C19. Snapshot reads are immutable: whatever later commits land, a get or an index scan at a
  timestamp the store had reached returns exactly what it returned before them.\<close>

theorem snapshot_reads_stable:
  assumes "ds_ok st" and "list_all (list_all unit_ok) uss" and "commit_all guards shardId uss st = Inr st'"
    and "t \<le> maxTimestamp st"
  shows "ds_get st' i (Some t) = ds_get st i (Some t) \<and>
    index_scan st' ix tb t iv order lim = index_scan st ix tb t iv order lim"
  using sqlite.later_stable[OF commit_all_later[OF assms(3,2)] assms(1)] assms(4) by blast

theorem snapshot_reads_stable_witness:
  "\<exists>st'. commit_all [] None [[\<lparr>cu_documents = [\<lparr>le_ts = 0, le_id = \<lparr>tableNumber = 1, internalId = []\<rparr>,
       le_value = None, le_prev_ts = None\<rparr>], cu_indexUpdates = [], cu_meta = None\<rparr>]] ds_empty = Inr st' \<and>
     ds_get st' \<lparr>tableNumber = 1, internalId = []\<rparr> (Some 0) = ds_get ds_empty \<lparr>tableNumber = 1, internalId = []\<rparr> (Some 0)"
proof -
  let ?u = "[\<lparr>cu_documents = [\<lparr>le_ts = 0, le_id = \<lparr>tableNumber = 1, internalId = []\<rparr>,
       le_value = None, le_prev_ts = None\<rparr>], cu_indexUpdates = [], cu_meta = None\<rparr>] :: commit_unit list"
  obtain st' where c: "commit_all [] None [?u] ds_empty = Inr st'"
    by (simp add: commitWriteBatch_def ds_empty_def insertRows_def insert_doc_def Let_def)
  show ?thesis
    using c snapshot_reads_stable[OF ds_ok_empty _ c, of 0 "\<lparr>tableNumber = 1, internalId = []\<rparr>" "[]" "[]" "\<lparr>iv_start = [], iv_end = None\<rparr>" Asc None]
    by (simp add: unit_ok_def maxTimestamp_def ds_empty_def)
qed

text \<open>A committed write is visible: after a commit the latest revision of every written document
  is the committed one, stamped with the allocated timestamp (none for a tombstone), every other
  document is as before, and the timestamp is the successor of the store's.\<close>

theorem commitWrite_visible:
  assumes "ds_ok st" and "commitWrite guards docs ups shardId meta st = Inr (ts, st')"
    and "distinct (map le_id docs)" and "docs \<noteq> []"
    and "\<forall>e \<in> set docs. \<forall>d. le_value e = Some d \<longrightarrow> value_ok (VObj d)"
  shows "ts = maxTimestamp st + 1 \<and>
    (\<forall>e \<in> set docs. ds_get st' (le_id e) None = Inr (map_option
       (\<lambda>d. \<lparr>ld_ts = ts, ld_id = le_id e, ld_value = norm_doc d, ld_prev_ts = le_prev_ts e\<rparr>) (le_value e))) \<and>
    (\<forall>i. i \<notin> le_id ` set docs \<longrightarrow> ds_get st' i None = ds_get st i None)"
  using commitWrite_spec[OF assms(1,4,2)] ds_get_commitWrite_written[OF assms(1,2,3)]
    ds_get_commitWrite_other[OF assms(1,4,2)] assms(5) by blast

theorem commitWrite_visible_witness:
  "\<exists>ts st'. commitWrite [] [\<lparr>le_ts = 0, le_id = \<lparr>tableNumber = 1, internalId = []\<rparr>, le_value = Some [([97], VNull)],
       le_prev_ts = None\<rparr>] [] None None ds_empty = Inr (ts, st') \<and> ts = 1 \<and>
     ds_get st' \<lparr>tableNumber = 1, internalId = []\<rparr> None =
       Inr (Some \<lparr>ld_ts = ts, ld_id = \<lparr>tableNumber = 1, internalId = []\<rparr>, ld_value = norm_doc [([97], VNull)], ld_prev_ts = None\<rparr>)"
proof -
  let ?e = "\<lparr>le_ts = 0, le_id = \<lparr>tableNumber = 1, internalId = []\<rparr>, le_value = Some [([97], VNull)], le_prev_ts = None\<rparr>
    :: document_log_entry"
  obtain ts st' where c: "commitWrite [] [?e] [] None None ds_empty = Inr (ts, st')"
    by (simp add: commitWrite_def commitWriteBatch_def ds_empty_def insertRows_def insert_doc_def Let_def)
  show ?thesis
    using c commitWrite_visible[OF ds_ok_empty c]
    by (simp add: maxTimestamp_def ds_empty_def obj_ok_def)
qed

end
