(* ===== verification/Query_Runtime.thy ===== *)
theory Query_Runtime
  imports Doc_Store
begin

text \<open>
  \<^verbatim>\<open>packages/query-engine/src/query-runtime.ts\<close>: \<open>collect\<close> and \<open>paginate\<close> over the store's
  index scan, the overlay of a transaction's own writes, and the byte range each records as read.
\<close>

section \<open>Queries and results\<close>

record query =
  q_index :: index_spec
  q_range :: "range_expression list option"
  q_order :: "scan_order option"
  q_filters :: "filter_expr list option"
  q_limit :: "int option"

record index_overlay_entry =
  ov_key :: bytes
  ov_value :: "document option"

record collect_result =
  cr_documents :: "document list"
  cr_readSet :: range_set

record paginated_result =
  pr_page :: "document list"
  pr_nextCursor :: "jsstring option"
  pr_hasMore :: bool
  pr_scanCapped :: bool
  pr_readSet :: range_set
  pr_pageBounds :: serialized_key_range

record page_opts =
  po_cursor :: "jsstring option"
  po_pageSize :: int
  po_maxScan :: "int option"

definition or_default :: "'a option \<Rightarrow> 'a \<Rightarrow> 'a" where
  "or_default x d = (case x of Some v \<Rightarrow> v | None \<Rightarrow> d)"

definition order_of :: "query \<Rightarrow> scan_order" where
  "order_of q = or_default (q_order q) Asc"

definition passes :: "query \<Rightarrow> document \<Rightarrow> bool" where
  "passes q value = list_all (evaluateFilter value) (or_default (q_filters q) [])"

definition query_keyspace :: "index_spec \<Rightarrow> jsstring" where
  "query_keyspace index = indexKeyspaceId (encodeStorageTableId (is_tableNumber index)) (is_index index)"

definition query_interval :: "query \<Rightarrow> index_interval result" where
  "query_interval q = buildIndexInterval (is_fields (q_index q)) (or_default (q_range q) [])"

definition hexKey :: "bytes \<Rightarrow> jsstring" where
  "hexKey b = concat (map (\<lambda>x. [hex_digit (unat x div 16), hex_digit (unat x mod 16)]) b)"

definition scan_of :: "doc_store \<Rightarrow> query \<Rightarrow> int \<Rightarrow> index_interval \<Rightarrow> scan_item list" where
  "scan_of st q readTs iv =
     index_scan st (is_indexId (q_index q)) (encodeStorageTableId (is_tableNumber (q_index q))) readTs iv (order_of q) None"

definition interval_range :: "index_spec \<Rightarrow> index_interval \<Rightarrow> key_range" where
  "interval_range index iv = mk_range (query_keyspace index) (iv_start iv) (iv_end iv)"

definition consumedRange :: "index_spec \<Rightarrow> index_interval \<Rightarrow> scan_order \<Rightarrow> bytes option \<Rightarrow> key_range" where
  "consumedRange index iv order lastScanned =
     (case lastScanned of
        None \<Rightarrow> interval_range index iv
      | Some k \<Rightarrow> (if order = Asc then mk_range (query_keyspace index) (iv_start iv) (Some (keySuccessor k))
                  else mk_range (query_keyspace index) k (iv_end iv)))"

section \<open>Overlay\<close>

fun merge_scan :: "scan_item list \<Rightarrow> (jsstring, bytes \<times> document) jsmap \<Rightarrow> (jsstring, bytes \<times> document) jsmap result" where
  "merge_scan [] m = Inr m"
| "merge_scan (Inl e # items) m = Inl e"
| "merge_scan (Inr (key, doc) # items) m = merge_scan items (AList.update (hexKey key) (key, ld_value doc) m)"

definition overlay_step ::
  "index_interval \<Rightarrow> (jsstring, bytes \<times> document) jsmap \<Rightarrow> index_overlay_entry \<Rightarrow> (jsstring, bytes \<times> document) jsmap" where
  "overlay_step iv m o1 =
     (case ov_value o1 of
        None \<Rightarrow> AList.delete (hexKey (ov_key o1)) m
      | Some v \<Rightarrow> if keyInInterval (ov_key o1) iv then AList.update (hexKey (ov_key o1)) (ov_key o1, v) m else m)"

text \<open>The keys of the merged map are distinct, so the order of equal keys does not arise.\<close>

definition scanWithOverlay ::
  "doc_store \<Rightarrow> query \<Rightarrow> int \<Rightarrow> index_interval \<Rightarrow> index_overlay_entry list \<Rightarrow> (bytes \<times> document) list result" where
  "scanWithOverlay st q readTs iv overlay =
     res_bind (merge_scan (scan_of st q readTs iv) []) (\<lambda>m.
       (let entries = map snd (foldl (overlay_step iv) m overlay)
        in Inr (if order_of q = Asc then sort_key fst entries else rev (sort_key fst entries))))"

section \<open>Collect\<close>

definition limit_reached :: "int option \<Rightarrow> int \<Rightarrow> bool" where
  "limit_reached limit n = (case limit of None \<Rightarrow> False | Some m \<Rightarrow> n \<ge> m)"

fun overlay_collect :: "(document \<Rightarrow> bool) \<Rightarrow> int option \<Rightarrow> (bytes \<times> document) list \<Rightarrow> document list \<Rightarrow> document list" where
  "overlay_collect P limit [] docs = docs"
| "overlay_collect P limit ((k, v) # es) docs =
     (if P v then
        (let docs' = docs @ [v]
         in if limit_reached limit (int (length docs')) then docs'
            else overlay_collect P limit es docs')
      else overlay_collect P limit es docs)"

fun collect_loop ::
  "(document \<Rightarrow> bool) \<Rightarrow> int option \<Rightarrow> scan_item list \<Rightarrow> document list \<Rightarrow> bytes option \<Rightarrow>
     (document list \<times> bytes option \<times> bool) result" where
  "collect_loop P limit [] docs lastScanned = Inr (docs, lastScanned, False)"
| "collect_loop P limit (Inl e # items) docs lastScanned = Inl e"
| "collect_loop P limit (Inr (key, doc) # items) docs lastScanned =
     (if P (ld_value doc) then
        (let docs' = docs @ [ld_value doc]
         in if limit_reached limit (int (length docs')) then Inr (docs', Some key, True)
            else collect_loop P limit items docs' (Some key))
      else collect_loop P limit items docs (Some key))"

definition collect :: "doc_store \<Rightarrow> query \<Rightarrow> int \<Rightarrow> index_overlay_entry list option \<Rightarrow> collect_result result" where
  "collect st q readTs overlay =
     res_bind (query_interval q) (\<lambda>iv.
       if or_default overlay [] \<noteq> [] then
         res_bind (scanWithOverlay st q readTs iv (or_default overlay [])) (\<lambda>merged.
           Inr \<lparr>cr_documents = overlay_collect (passes q) (q_limit q) merged [],
                cr_readSet = rs_add rs_empty (interval_range (q_index q) iv)\<rparr>)
       else
         res_bind (collect_loop (passes q) (q_limit q) (scan_of st q readTs iv) [] None)
           (\<lambda>(documents, lastScanned, hitLimit).
             Inr \<lparr>cr_documents = documents,
                  cr_readSet = rs_add rs_empty
                    (if hitLimit then consumedRange (q_index q) iv (order_of q) lastScanned
                     else interval_range (q_index q) iv)\<rparr>))"

section \<open>Paginate\<close>

record page_state =
  ps_page :: "document list"
  ps_lastIncluded :: "bytes option"
  ps_lastScanned :: "bytes option"
  ps_hasMore :: bool
  ps_scanned :: int
  ps_scanCapped :: bool

definition page_start :: page_state where
  "page_start = \<lparr>ps_page = [], ps_lastIncluded = None, ps_lastScanned = None, ps_hasMore = False,
     ps_scanned = 0, ps_scanCapped = False\<rparr>"

definition page_next :: "(document \<Rightarrow> bool) \<Rightarrow> bytes \<Rightarrow> document \<Rightarrow> page_state \<Rightarrow> page_state" where
  "page_next P key value s =
     (let s1 = s\<lparr>ps_lastScanned := Some key\<rparr>;
          s2 = (if P value then s1\<lparr>ps_page := ps_page s1 @ [value], ps_lastIncluded := Some key\<rparr> else s1)
      in s2\<lparr>ps_scanned := ps_scanned s2 + 1\<rparr>)"

fun page_loop :: "(document \<Rightarrow> bool) \<Rightarrow> int \<Rightarrow> int option \<Rightarrow> scan_item list \<Rightarrow> page_state \<Rightarrow> page_state result" where
  "page_loop P size1 maxScan [] s = Inr s"
| "page_loop P size1 maxScan (Inl e # items) s = Inl e"
| "page_loop P size1 maxScan (Inr (key, doc) # items) s =
     (if P (ld_value doc) \<and> int (length (ps_page s)) \<ge> size1
      then Inr (s\<lparr>ps_lastScanned := Some key, ps_hasMore := True\<rparr>)
      else (let s3 = page_next P key (ld_value doc) s
            in if limit_reached maxScan (ps_scanned s3)
               then Inr (s3\<lparr>ps_hasMore := True,
                            ps_scanCapped := (if int (length (ps_page s3)) < size1 then True else ps_scanCapped s3)\<rparr>)
               else page_loop P size1 maxScan items s3))"

definition resume_interval :: "index_interval \<Rightarrow> scan_order \<Rightarrow> bytes \<Rightarrow> index_interval" where
  "resume_interval base order k =
     (if order = Asc then base\<lparr>iv_start := keySuccessor k\<rparr> else base\<lparr>iv_end := Some k\<rparr>)"

definition page_interval :: "query \<Rightarrow> jsstring option \<Rightarrow> index_interval result" where
  "page_interval q cursor =
     res_bind (query_interval q) (\<lambda>base.
       (case cursor of
          None \<Rightarrow> Inr base
        | Some c \<Rightarrow> (if c = [] then Inr base
                    else res_bind (base64ToBytes c) (\<lambda>k. Inr (resume_interval base (order_of q) k)))))"

definition overlay_page ::
  "query \<Rightarrow> index_interval \<Rightarrow> int \<Rightarrow> (bytes \<times> document) list \<Rightarrow> paginated_result" where
  "overlay_page q iv pageSize merged =
     (let matched = filter (\<lambda>e. passes q (snd e)) merged;
          pageEntries = take (nat pageSize) matched;
          hasMore = (int (length matched) > pageSize);
          lastKey = (if hasMore then Some (fst (last pageEntries)) else None)
      in \<lparr>pr_page = map snd pageEntries, pr_nextCursor = map_option bytesToBase64 lastKey, pr_hasMore = hasMore,
          pr_scanCapped = False, pr_readSet = rs_add rs_empty (interval_range (q_index q) iv),
          pr_pageBounds = serializeKeyRange (interval_range (q_index q) iv)\<rparr>)"

definition scan_page :: "query \<Rightarrow> index_interval \<Rightarrow> page_state \<Rightarrow> paginated_result" where
  "scan_page q iv s =
     (let fullInterval = (\<not> ps_hasMore s \<and> \<not> ps_scanCapped s);
          cursorKey = (if ps_scanCapped s then ps_lastScanned s else if ps_hasMore s then ps_lastIncluded s else None);
          ks = query_keyspace (q_index q);
          bounds = (case ps_lastIncluded s of
                      None \<Rightarrow> interval_range (q_index q) iv
                    | Some k \<Rightarrow> (if \<not> ps_hasMore s then interval_range (q_index q) iv
                                else if order_of q = Asc then mk_range ks (iv_start iv) (Some (keySuccessor k))
                                else mk_range ks k (iv_end iv)))
      in \<lparr>pr_page = ps_page s, pr_nextCursor = map_option bytesToBase64 cursorKey, pr_hasMore = ps_hasMore s,
          pr_scanCapped = ps_scanCapped s,
          pr_readSet = rs_add rs_empty
            (if fullInterval then interval_range (q_index q) iv
             else consumedRange (q_index q) iv (order_of q) (ps_lastScanned s)),
          pr_pageBounds = serializeKeyRange bounds\<rparr>)"

text \<open>The overlay branch reads \<open>pageEntries[pageEntries.length - 1]!\<close>: with a page size below one
  that entry is missing and the access throws.\<close>

definition paginate ::
  "doc_store \<Rightarrow> query \<Rightarrow> int \<Rightarrow> page_opts \<Rightarrow> index_overlay_entry list option \<Rightarrow> paginated_result result" where
  "paginate st q readTs opts overlay =
     res_bind (page_interval q (po_cursor opts)) (\<lambda>iv.
       if or_default overlay [] \<noteq> [] then
         res_bind (scanWithOverlay st q readTs iv (or_default overlay [])) (\<lambda>merged.
           (let matched = filter (\<lambda>e. passes q (snd e)) merged
            in if int (length matched) > po_pageSize opts \<and> take (nat (po_pageSize opts)) matched = []
               then Inl (TypeError ''cannot read properties of undefined'')
               else Inr (overlay_page q iv (po_pageSize opts) merged)))
       else
         res_bind (page_loop (passes q) (po_pageSize opts) (po_maxScan opts) (scan_of st q readTs iv) page_start)
           (\<lambda>s. Inr (scan_page q iv s)))"

section \<open>Collect returns the matching documents in key order\<close>

abbreviation item_values :: "(bytes \<times> latest_document) list \<Rightarrow> document list" where
  "item_values its \<equiv> map (\<lambda>x. ld_value (snd x)) its"

definition limit_take :: "int option \<Rightarrow> 'a list \<Rightarrow> 'a list" where
  "limit_take limit xs = (case limit of None \<Rightarrow> xs | Some n \<Rightarrow> take (nat (max 1 n)) xs)"

definition below_limit :: "int option \<Rightarrow> 'a list \<Rightarrow> bool" where
  "below_limit limit xs = (case limit of None \<Rightarrow> True | Some n \<Rightarrow> int (length xs) < max 1 n)"

lemma limit_take_hit:
  assumes "below_limit limit xs" "limit_reached limit (int (length (xs @ [x])))"
  shows "limit_take limit (xs @ x # ys) = xs @ [x]"
proof -
  obtain n where n: "limit = Some n" using assms(2) by (cases limit) (auto simp: limit_reached_def)
  then have "nat (max 1 n) = Suc (length xs)" using assms by (auto simp: below_limit_def limit_reached_def)
  then show ?thesis by (simp add: limit_take_def n)
qed

lemma limit_take_below: "below_limit limit xs \<Longrightarrow> limit_take limit xs = xs"
  by (auto simp: limit_take_def below_limit_def split: option.splits)

lemma below_limit_snoc: "limit_reached limit (int (length (xs @ [x]))) \<or> below_limit limit (xs @ [x])"
  by (auto simp: below_limit_def limit_reached_def split: option.splits)

lemma collect_loop_spec:
  assumes "below_limit limit docs"
  shows "\<exists>ls hit. collect_loop P limit (map Inr its) docs lastScanned =
    Inr (limit_take limit (docs @ filter P (item_values its)), ls, hit)"
  using assms
proof (induction its arbitrary: docs lastScanned)
  case Nil
  then show ?case by (auto simp: limit_take_below)
next
  case (Cons x its)
  obtain k d where x: "x = (k, d)" by fastforce
  show ?case
    using limit_take_hit[OF Cons.prems, of "ld_value d"] Cons.IH[of "docs @ [ld_value d]" "Some k"] Cons.IH[of docs "Some k"]
      Cons.prems below_limit_snoc[where limit = limit and xs = docs and x = "ld_value d"]
    by (auto simp: x Let_def)
qed

lemma overlay_collect_spec:
  "below_limit limit docs \<Longrightarrow> overlay_collect P limit es docs = limit_take limit (docs @ filter P (map snd es))"
proof (induction es arbitrary: docs)
  case Nil
  then show ?case by (auto simp: limit_take_below)
next
  case (Cons x es)
  obtain k v where x: "x = (k, v)" by fastforce
  show ?case
    using limit_take_hit[OF Cons.prems, of v] Cons.IH[of "docs @ [v]"] Cons.IH[of docs]
      Cons.prems below_limit_snoc[where limit = limit and xs = docs and x = v]
    by (auto simp: x Let_def)
qed

text \<open>C33. \<open>collect\<close> returns the documents of the planned interval that pass the filters, in the key
  order asked for, cut at the limit.  The cut is at one document at least: a limit of zero, which the
  user API's \<open>take(0)\<close> passes on, still returns the first match.\<close>

theorem collect_correct:
  assumes "ds_ok st" and "query_interval q = Inr iv" and "scan_of st q t iv = map Inr its"
  shows "\<exists>r. collect st q t None = Inr r \<and>
    cr_documents r = limit_take (q_limit q) (filter (passes q) (item_values its)) \<and>
    sorted_wrt (\<lambda>a b. before (order_of q) (fst a) (fst b)) its"
proof -
  have "below_limit (q_limit q) []" by (auto simp: below_limit_def split: option.splits)
  then obtain ls hit where "collect_loop (passes q) (q_limit q) (map Inr its) [] None =
      Inr (limit_take (q_limit q) (filter (passes q) (item_values its)), ls, hit)"
    using collect_loop_spec[of "q_limit q" "[]"] by fastforce
  then show ?thesis
    using index_scan_sorted[OF assms(1), of _ _ t iv "order_of q" its "[]"] assms(2,3)
    by (simp add: collect_def or_default_def scan_of_def)
qed

definition sample_query :: query where
  "sample_query = \<lparr>q_index = \<lparr>is_table = [], is_tableNumber = 1, is_index = [], is_fields = [], is_indexId = [49]\<rparr>,
     q_range = None, q_order = None, q_filters = None, q_limit = None\<rparr>"

lemma sample_interval: "query_interval sample_query = Inr \<lparr>iv_start = [], iv_end = None\<rparr>"
  by (simp add: query_interval_def sample_query_def or_default_def buildIndexInterval_def indexKeyRangeStart_def
      indexKeyRangeEnd_def encodeIndexKey_def)

lemma sample_scan: "scan_of ds_empty q t iv = []"
  by (simp add: scan_of_def index_scan_def scan_rows_def ds_empty_def)

theorem collect_correct_witness:
  "\<exists>r. collect ds_empty sample_query 5 None = Inr r \<and> cr_documents r = []"
  using collect_correct[OF ds_ok_empty sample_interval, of 5 "[]"] by (simp add: sample_scan limit_take_def sample_query_def)

section \<open>The recorded read set covers what was read\<close>

definition scan_range :: "doc_store \<Rightarrow> query \<Rightarrow> int \<Rightarrow> key_range \<Rightarrow> scan_item list" where
  "scan_range st q t rng = scan_of st q t \<lparr>iv_start = start rng, iv_end = end_of rng\<rparr>"

definition same_reads :: "doc_store \<Rightarrow> int \<Rightarrow> doc_store \<Rightarrow> int \<Rightarrow> query \<Rightarrow> range_set \<Rightarrow> bool" where
  "same_reads st t st' t' q rs \<longleftrightarrow> (\<forall>rng \<in> set (rs_toArray rs). scan_range st' q t' rng = scan_range st q t rng)"

lemma same_reads_one: "same_reads st t st' t' q (rs_add rs_empty rng) \<longleftrightarrow> scan_range st' q t' rng = scan_range st q t rng"
  by (simp add: same_reads_def)

lemma scan_range_interval [simp]: "scan_range st q t (interval_range idx iv) = scan_of st q t iv"
  by (cases iv) (simp add: scan_range_def interval_range_def)

text \<open>The part of an interval up to a key in scan order.\<close>

definition consumed_iv :: "index_interval \<Rightarrow> scan_order \<Rightarrow> bytes \<Rightarrow> index_interval" where
  "consumed_iv iv order k = (if order = Asc then iv\<lparr>iv_end := Some (keySuccessor k)\<rparr> else iv\<lparr>iv_start := k\<rparr>)"

lemma scan_range_consumed [simp]:
  "scan_range st q t (consumedRange idx iv order (Some k)) = scan_of st q t (consumed_iv iv order k)"
  by (cases iv) (simp add: scan_range_def consumedRange_def consumed_iv_def)

lemma keyInInterval_iff: "keyInInterval k iv \<longleftrightarrow> iv_start iv \<le> k \<and> (case iv_end iv of None \<Rightarrow> True | Some e \<Rightarrow> k < e)"
  by (auto simp: keyInInterval_def compareKeyBytes_eq split: option.splits)

lemma less_succ_iff: "(a :: bytes) < keySuccessor k \<longleftrightarrow> a \<le> k"
  unfolding keySuccessor_def
proof
  assume "a < k @ [0]"
  then show "a \<le> k" using bytes_between_succ[of k a] by (cases "k \<le> a") auto
next
  assume "a \<le> k"
  then show "a < k @ [0]" using bytes_less_succ[of k] by (rule le_less_trans)
qed

lemma in_consumed:
  assumes "keyInInterval k iv"
  shows "keyInInterval a (consumed_iv iv order k) \<longleftrightarrow> keyInInterval a iv \<and> (a = k \<or> before order a k)"
  using assms by (cases order) (auto simp: keyInInterval_iff consumed_iv_def less_succ_iff split: option.splits)

lemma filter_prefix:
  "sorted_wrt R xs \<Longrightarrow> (\<And>a b. a \<in> set xs \<Longrightarrow> b \<in> set xs \<Longrightarrow> R a b \<Longrightarrow> Q b \<Longrightarrow> Q a) \<Longrightarrow> xs = filter Q xs @ filter (\<lambda>x. \<not> Q x) xs"
proof (induction xs)
  case (Cons x xs)
  show ?case
  proof (cases "Q x")
    case True
    then show ?thesis using Cons by auto
  next
    case False
    then have "filter Q xs = []" using Cons.prems by (auto simp: filter_empty_conv)
    then show ?thesis using Cons.IH Cons.prems False by auto
  qed
qed simp

lemma before_trans: "before order a b \<Longrightarrow> before order b c \<Longrightarrow> before order a c"
  by (cases order) auto

lemma scan_rows_split:
  assumes "distinct (map idx_key (ds_indexes st))" "keyInInterval k iv"
  shows "\<exists>rest. scan_rows st ix t iv order = scan_rows st ix t (consumed_iv iv order k) order @ rest \<and>
    (\<forall>r \<in> set rest. \<not> keyInInterval (ir_key r) (consumed_iv iv order k))"
proof -
  let ?rows = "scan_rows st ix t iv order" and ?Q = "\<lambda>r. keyInInterval (ir_key r) (consumed_iv iv order k)"
  have "?rows = filter ?Q ?rows @ filter (\<lambda>r. \<not> ?Q r) ?rows"
  proof (rule filter_prefix[OF scan_rows_sorted[OF assms(1)]])
    fix a b assume "a \<in> set ?rows" "before order (ir_key a) (ir_key b)" "?Q b"
    then show "?Q a" unfolding in_consumed[OF assms(2)] using scan_rows_in[of a] before_trans by metis
  qed
  moreover have "scan_rows st ix t (consumed_iv iv order k) order = filter ?Q ?rows"
    by (rule scan_rows_sub) (simp add: in_consumed[OF assms(2)])
  ultimately show ?thesis by (intro exI[of _ "filter (\<lambda>r. \<not> ?Q r) ?rows"]) simp
qed

lemma scan_items_append_cases:
  "scan_items st t (xs @ ys) = scan_items st t xs \<or>
   scan_items st t (xs @ ys) = scan_items st t xs @ scan_items st t ys"
proof (induction xs)
  case (Cons r xs)
  show ?case
  proof (cases "resolve_row st t r")
    case (Inr od)
    then show ?thesis using Cons by (cases od) (auto simp: scan_items_Cons)
  qed (simp add: scan_items_Cons)
qed simp

lemma last_key_bound:
  assumes "sorted_wrt (\<lambda>a b. before order (fst a) (fst b)) pre" "x \<in> set pre"
  shows "fst x = fst (last pre) \<or> before order (fst x) (fst (last pre))"
  using assms by (induction pre) (auto split: if_splits)

text \<open>Two stores whose scans agree up to a key agree on the items up to that key in the whole scan.\<close>

lemma scan_prefix:
  assumes "ds_ok st" "ds_ok st'" "scan_of st q t iv = map Inr pre @ suf" "pre \<noteq> []"
    and same: "scan_of st' q t' (consumed_iv iv (order_of q) (fst (last pre))) = scan_of st q t (consumed_iv iv (order_of q) (fst (last pre)))"
  shows "\<exists>suf'. scan_of st' q t' iv = map Inr pre @ suf'"
proof -
  let ?k = "fst (last pre)" and ?ix = "is_indexId (q_index q)" and ?o = "order_of q"
  let ?iv' = "consumed_iv iv ?o ?k"
  have items: "scan_items st t (scan_rows st ?ix t iv ?o) = map Inr pre @ suf"
    using assms(3) by (simp add: scan_of_def index_scan_def)
  have "Inr (last pre) \<in> set (scan_of st q t iv)" using assms(3,4) by simp
  then have kin: "keyInInterval ?k iv"
    using index_scan_keys[of ?k "snd (last pre)" st ?ix _ t iv ?o] by (simp add: scan_of_def)
  have sorted: "sorted_wrt (\<lambda>a b. before ?o (fst a) (fst b)) pre"
    using scan_items_sorted[OF scan_rows_sorted items] assms(1) by (simp add: ds_ok_def)
  have inr: "Inr x \<in> set (scan_of st q t iv)" if "x \<in> set pre" for x using that assms(3) by simp
  have inpre: "keyInInterval (fst x) ?iv'" if "x \<in> set pre" for x
    using that inr[OF that] last_key_bound[OF sorted that] index_scan_keys[of "fst x" "snd x" st ?ix _ t iv ?o] in_consumed[OF kin]
    by (simp add: scan_of_def)
  obtain B where B: "scan_rows st ?ix t iv ?o = scan_rows st ?ix t ?iv' ?o @ B" "\<forall>r \<in> set B. \<not> keyInInterval (ir_key r) ?iv'"
    using scan_rows_split[OF _ kin] assms(1) unfolding ds_ok_def by blast
  obtain B' where B': "scan_rows st' ?ix t' iv ?o = scan_rows st' ?ix t' ?iv' ?o @ B'"
    using scan_rows_split[OF _ kin] assms(2) unfolding ds_ok_def by blast
  let ?X = "scan_items st t (scan_rows st ?ix t ?iv' ?o)"
  have X': "scan_items st' t' (scan_rows st' ?ix t' ?iv' ?o) = ?X"
    using same by (simp add: scan_of_def index_scan_def)
  have "\<exists>Z. ?X = map Inr pre @ Z"
  proof (cases "length pre \<le> length ?X")
    case True
    obtain W where "?X @ W = map Inr pre @ suf"
      using scan_items_append_cases[of st t "scan_rows st ?ix t ?iv' ?o" B] items B(1) by (metis append_Nil2)
    then have "take (length pre) ?X = take (length pre) (map Inr pre @ suf)" using True by (metis take_append[of "length pre" ?X W] diff_is_0_eq append_Nil2 take_0)
    then have "take (length pre) ?X = map Inr pre" by simp
    then show ?thesis by (metis append_take_drop_id)
  next
    case False
    have eq: "?X @ scan_items st t B = map Inr pre @ suf"
    proof -
      have "?X \<noteq> map Inr pre @ suf" using False by auto
      then show ?thesis using scan_items_append_cases[of st t "scan_rows st ?ix t ?iv' ?o" B] items B(1) by auto
    qed
    then obtain Z where Z: "?X @ Z = map Inr pre" "scan_items st t B = Z @ suf"
      using False by (auto simp: append_eq_append_conv2)
    have "Z \<noteq> []"
    proof
      assume "Z = []"
      then have "length ?X = length pre" using arg_cong[OF Z(1), of length] by simp
      then show False using False by simp
    qed
    then have "hd Z \<in> set (map Inr pre)" "hd Z \<in> set (scan_items st t B)" unfolding Z(1)[symmetric] Z(2) by simp_all
    then obtain x where "x \<in> set pre" "Inr x \<in> set (scan_items st t B)" by auto
    then show ?thesis using inpre[of x] scan_items_keys[of "fst x" "snd x" st t B] B(2) by auto
  qed
  then obtain Z where Z: "?X = map Inr pre @ Z" by blast
  have "\<exists>W. scan_items st' t' (scan_rows st' ?ix t' ?iv' ?o @ B') = scan_items st' t' (scan_rows st' ?ix t' ?iv' ?o) @ W"
    using scan_items_append_cases[of st' t' "scan_rows st' ?ix t' ?iv' ?o" B'] by auto
  then show ?thesis using B' X' Z by (auto simp: scan_of_def index_scan_def)
qed

lemma collect_loop_stopped:
  "collect_loop P limit items docs ls = Inr (d, last', True) \<Longrightarrow>
   \<exists>pre suf. items = map Inr pre @ suf \<and> pre \<noteq> [] \<and> last' = Some (fst (last pre)) \<and>
     (\<forall>suf'. collect_loop P limit (map Inr pre @ suf') docs ls = Inr (d, last', True))"
proof (induction P limit items docs ls rule: collect_loop.induct)
  case (3 P limit key doc items docs ls)
  show ?case
  proof (cases "P (ld_value doc) \<and> limit_reached limit (int (length (docs @ [ld_value doc])))")
    case True
    then show ?thesis using "3.prems"
      by (intro exI[of _ "[(key, doc)]"] exI[of _ items]) (auto simp: Let_def)
  next
    case False
    then obtain pre suf where "items = map Inr pre @ suf" "pre \<noteq> []" "last' = Some (fst (last pre))"
      "\<forall>suf'. collect_loop P limit (map Inr pre @ suf') (if P (ld_value doc) then docs @ [ld_value doc] else docs) (Some key) = Inr (d, last', True)"
      using "3.prems" "3.IH" by (auto simp: Let_def split: if_splits)
    then show ?thesis using False
      by (intro exI[of _ "(key, doc) # pre"] exI[of _ suf]) (auto simp: Let_def split: if_splits)
  qed
qed simp_all

lemma fresh_page: "\<not> ps_hasMore page_start"
  by (simp add: page_start_def)

lemma page_next_hasMore [simp]: "ps_hasMore (page_next P key v s) = ps_hasMore s"
  "ps_lastScanned (page_next P key v s) = Some key"
  by (simp_all add: page_next_def Let_def)

lemma page_loop_stopped:
  "page_loop P n cap items s = Inr s' \<Longrightarrow> ps_hasMore s' \<Longrightarrow> \<not> ps_hasMore s \<Longrightarrow>
   \<exists>pre suf. items = map Inr pre @ suf \<and> pre \<noteq> [] \<and> ps_lastScanned s' = Some (fst (last pre)) \<and>
     (\<forall>suf'. page_loop P n cap (map Inr pre @ suf') s = Inr s')"
proof (induction P n cap items s rule: page_loop.induct)
  case (3 P n cap key doc items s)
  let ?full = "P (ld_value doc) \<and> int (length (ps_page s)) \<ge> n" and ?s = "page_next P key (ld_value doc) s"
  show ?case
  proof (cases "?full \<or> limit_reached cap (ps_scanned ?s)")
    case True
    then show ?thesis using "3.prems"
      by (intro exI[of _ "[(key, doc)]"] exI[of _ items]) (auto simp: Let_def split: if_splits)
  next
    case False
    then have "page_loop P n cap items ?s = Inr s'" using "3.prems"(1) by (auto simp: Let_def)
    then obtain pre suf where "items = map Inr pre @ suf" "pre \<noteq> []" "ps_lastScanned s' = Some (fst (last pre))"
      "\<forall>suf'. page_loop P n cap (map Inr pre @ suf') ?s = Inr s'"
      using "3.prems" "3.IH"[OF _ refl] False by auto
    then show ?thesis using False
      by (intro exI[of _ "(key, doc) # pre"] exI[of _ suf]) (auto simp: Let_def)
  qed
qed simp_all

lemma scanWithOverlay_cong:
  "scan_of st' q t' iv = scan_of st q t iv \<Longrightarrow> scanWithOverlay st' q t' iv ov = scanWithOverlay st q t iv ov"
  by (simp add: scanWithOverlay_def)

lemma collect_same_reads:
  assumes "ds_ok st" and "ds_ok st'" and "collect st q t overlay = Inr r" and "same_reads st t st' t' q (cr_readSet r)"
  shows "collect st' q t' overlay = Inr r"
proof -
  obtain iv where iv: "query_interval q = Inr iv" using assms(3) by (auto simp: collect_def res_bind_Inr_iff)
  show ?thesis
  proof (cases "or_default overlay [] \<noteq> []")
    case True
    then show ?thesis using assms(3,4) iv by (auto simp: collect_def res_bind_Inr_iff same_reads_one scanWithOverlay_def)
  next
    case False
    then obtain d ls hit where loop: "collect_loop (passes q) (q_limit q) (scan_of st q t iv) [] None = Inr (d, ls, hit)"
      and r: "r = \<lparr>cr_documents = d, cr_readSet = rs_add rs_empty
                    (if hit then consumedRange (q_index q) iv (order_of q) ls else interval_range (q_index q) iv)\<rparr>"
      using assms(3) iv by (auto simp: collect_def res_bind_Inr_iff)
    have "collect_loop (passes q) (q_limit q) (scan_of st' q t' iv) [] None = Inr (d, ls, hit)"
    proof (cases hit)
      case True
      have loop': "collect_loop (passes q) (q_limit q) (scan_of st q t iv) [] None = Inr (d, ls, True)" using loop True by simp
      obtain pre suf where p: "scan_of st q t iv = map Inr pre @ suf" "pre \<noteq> []" "ls = Some (fst (last pre))"
        "\<And>suf'. collect_loop (passes q) (q_limit q) (map Inr pre @ suf') [] None = Inr (d, ls, True)"
        using collect_loop_stopped[OF loop'] by blast
      have "cr_readSet r = rs_add rs_empty (consumedRange (q_index q) iv (order_of q) (Some (fst (last pre))))"
        by (simp add: r True p(3))
      then obtain suf' where "scan_of st' q t' iv = map Inr pre @ suf'"
        using scan_prefix[OF assms(1,2) p(1,2)] assms(4) by (auto simp: same_reads_one)
      then show ?thesis using p(4) True by simp
    qed (use loop assms(4) in \<open>simp add: r same_reads_one\<close>)
    then show ?thesis using False iv by (simp add: collect_def r)
  qed
qed

text \<open>C2. The recorded read set is sound: if another store (or a later timestamp) holds the same index
  entries in the recorded ranges, the query returns the same documents there, with the same read set.
  This is what makes validating and invalidating by ranges correct, the trimmed range of a limited
  scan included.\<close>

theorem collect_read_set_sound:
  assumes "ds_ok st" and "ds_ok st'" and "collect st q t overlay = Inr r" and "same_reads st t st' t' q (cr_readSet r)"
  shows "collect st' q t' overlay = Inr r"
  using assms by (rule collect_same_reads)

theorem collect_read_set_sound_witness:
  "\<exists>r. collect ds_empty sample_query 5 None = Inr r \<and> collect ds_empty sample_query 9 None = Inr r"
proof -
  obtain r where r: "collect ds_empty sample_query 5 None = Inr r"
    by (simp add: collect_def sample_interval or_default_def sample_scan)
  have "same_reads ds_empty 5 ds_empty 9 sample_query (cr_readSet r)"
    by (simp add: same_reads_def scan_range_def sample_scan)
  then show ?thesis using collect_read_set_sound[OF ds_ok_empty ds_ok_empty r] r by blast
qed

lemma paginate_same_reads:
  assumes "ds_ok st" "ds_ok st'" "paginate st q t opts overlay = Inr r" "same_reads st t st' t' q (pr_readSet r)"
  shows "paginate st' q t' opts overlay = Inr r"
proof -
  obtain iv where iv: "page_interval q (po_cursor opts) = Inr iv" using assms(3) by (auto simp: paginate_def res_bind_Inr_iff)
  show ?thesis
  proof (cases "or_default overlay [] \<noteq> []")
    case True
    have "\<exists>m. r = overlay_page q iv (po_pageSize opts) m"
      using assms(3) True iv by (auto simp: paginate_def res_bind_Inr_iff Let_def split: if_splits)
    then have "scan_of st' q t' iv = scan_of st q t iv"
      using assms(4) by (auto simp: overlay_page_def Let_def same_reads_one)
    then show ?thesis using assms(3) True iv by (simp add: paginate_def scanWithOverlay_def)
  next
    case False
    let ?loop = "\<lambda>items. page_loop (passes q) (po_pageSize opts) (po_maxScan opts) items page_start"
    obtain s where loop: "?loop (scan_of st q t iv) = Inr s" and r: "r = scan_page q iv s"
      using assms(3) iv False by (auto simp: paginate_def res_bind_Inr_iff)
    have "?loop (scan_of st' q t' iv) = Inr s"
    proof (cases "ps_hasMore s")
      case True
      obtain pre suf where p: "scan_of st q t iv = map Inr pre @ suf" "pre \<noteq> []" "ps_lastScanned s = Some (fst (last pre))"
        "\<And>suf'. ?loop (map Inr pre @ suf') = Inr s"
        using page_loop_stopped[OF loop True fresh_page] by blast
      have "pr_readSet r = rs_add rs_empty (consumedRange (q_index q) iv (order_of q) (Some (fst (last pre))))"
        by (simp add: r True p(3) scan_page_def Let_def)
      then obtain suf' where "scan_of st' q t' iv = map Inr pre @ suf'"
        using scan_prefix[OF assms(1,2) p(1,2)] assms(4) by (auto simp: same_reads_one)
      then show ?thesis using p(4) by simp
    next
      case more: False
      have "\<not> ps_scanCapped s"
      proof -
        have "page_loop P n cap items s0 = Inr s1 \<Longrightarrow> \<not> ps_hasMore s1 \<Longrightarrow> ps_scanCapped s1 = ps_scanCapped s0" for P n cap items s0 s1
          by (induction P n cap items s0 rule: page_loop.induct) (auto simp: Let_def page_next_def split: if_splits)
        then show ?thesis using loop more by (fastforce simp: page_start_def)
      qed
      then show ?thesis using loop assms(4) more by (simp add: r same_reads_one scan_page_def Let_def)
    qed
    then show ?thesis using False iv by (simp add: paginate_def r)
  qed
qed

text \<open>C20. The same for a page: its documents, cursor and flags depend on the recorded ranges only,
  also where the page was full or the scan was capped.\<close>

theorem paginate_read_set_sound:
  assumes "ds_ok st" and "ds_ok st'" and "paginate st q t opts overlay = Inr r" and "same_reads st t st' t' q (pr_readSet r)"
  shows "paginate st' q t' opts overlay = Inr r"
  using assms by (rule paginate_same_reads)

theorem paginate_read_set_sound_witness:
  "\<exists>r. paginate ds_empty sample_query 5 \<lparr>po_cursor = None, po_pageSize = 2, po_maxScan = Some 7\<rparr> None = Inr r \<and>
     paginate ds_empty sample_query 9 \<lparr>po_cursor = None, po_pageSize = 2, po_maxScan = Some 7\<rparr> None = Inr r"
proof -
  obtain r where r: "paginate ds_empty sample_query 5 \<lparr>po_cursor = None, po_pageSize = 2, po_maxScan = Some 7\<rparr> None = Inr r"
    by (simp add: paginate_def page_interval_def sample_interval or_default_def sample_scan)
  have "same_reads ds_empty 5 ds_empty 9 sample_query (pr_readSet r)"
    by (simp add: same_reads_def scan_range_def sample_scan)
  then show ?thesis using paginate_read_set_sound[OF ds_ok_empty ds_ok_empty r] r by blast
qed

section \<open>Reading the transaction's own writes\<close>

lemma hexKey_inj [simp]: "hexKey a = hexKey b \<longleftrightarrow> a = b"
proof -
  have "hexKey = internalIdToHex" by (simp add: fun_eq_iff hexKey_def internalIdToHex_def)
  then show ?thesis by (metis hex_roundtrip Inr_inject)
qed

definition overlay_view ::
  "index_interval \<Rightarrow> (bytes \<Rightarrow> document option) \<Rightarrow> index_overlay_entry list \<Rightarrow> bytes \<Rightarrow> document option" where
  "overlay_view iv M overlay = foldl (\<lambda>M o1. case ov_value o1 of None \<Rightarrow> M(ov_key o1 := None)
     | Some v \<Rightarrow> if keyInInterval (ov_key o1) iv then M(ov_key o1 \<mapsto> v) else M) M overlay"

text \<open>The merge map represents a map from keys to documents.\<close>

definition merged_for :: "(jsstring, bytes \<times> document) jsmap \<Rightarrow> (bytes \<Rightarrow> document option) \<Rightarrow> bool" where
  "merged_for m M \<longleftrightarrow> jsmap_ok m \<and> (\<forall>h k v. map_of m h = Some (k, v) \<longrightarrow> h = hexKey k) \<and>
     (\<forall>k. map_of m (hexKey k) = map_option (Pair k) (M k))"

lemma merged_for_update: "merged_for m M \<Longrightarrow> merged_for (AList.update (hexKey k) (k, v) m) (M(k \<mapsto> v))"
  by (auto simp: merged_for_def)

lemma merged_for_delete: "merged_for m M \<Longrightarrow> merged_for (AList.delete (hexKey k) m) (M(k := None))"
  by (auto simp: merged_for_def)

lemma merged_for_overlay: "merged_for m M \<Longrightarrow> merged_for (foldl (overlay_step iv) m ov) (overlay_view iv M ov)"
proof (induction ov arbitrary: m M)
  case (Cons o1 ov)
  have "merged_for (overlay_step iv m o1) (overlay_view iv M [o1])"
    using Cons.prems merged_for_update merged_for_delete
    by (auto simp: overlay_step_def overlay_view_def split: option.splits)
  then show ?case using Cons.IH[of "overlay_step iv m o1" "overlay_view iv M [o1]"] by (simp add: overlay_view_def)
qed (simp add: overlay_view_def)

lemma merge_scan_spec:
  assumes "merged_for m M"
  shows "\<exists>m'. merge_scan (map Inr its) m = Inr m' \<and>
    merged_for m' (foldl (\<lambda>M x. M(fst x \<mapsto> ld_value (snd x))) M its)"
  using assms
proof (induction its arbitrary: m M)
  case (Cons x its)
  show ?case using Cons.IH[OF merged_for_update[OF Cons.prems, of "fst x" "ld_value (snd x)"]]
    by (cases x) (simp only: list.map merge_scan.simps foldl.simps fst_conv snd_conv)
qed simp

lemma merged_for_entries:
  assumes "merged_for m M"
  shows "distinct (map fst (map snd m))" "map_of (map snd m) = M"
proof -
  have inm: "(h, k, v) \<in> set m \<longleftrightarrow> map_of m h = Some (k, v)" for h k v
    using assms by (simp add: merged_for_def jsmap_in_set_iff)
  have "hexKey (fst (snd x)) = fst x" if "x \<in> set m" for x
    using that inm[of "fst x" "fst (snd x)" "snd (snd x)"] assms unfolding merged_for_def by (metis prod.collapse)
  then have "map hexKey (map fst (map snd m)) = map fst m" by simp
  then show d: "distinct (map fst (map snd m))" using assms unfolding merged_for_def jsmap_ok_def by (metis distinct_map)
  show "map_of (map snd m) = M"
  proof
    fix k
    have "map_of (map snd m) k = Some v \<longleftrightarrow> M k = Some v" for v
    proof -
      have "map_of (map snd m) k = Some v \<longleftrightarrow> (k, v) \<in> set (map snd m)" using d by simp
      also have "\<dots> \<longleftrightarrow> (\<exists>h. map_of m h = Some (k, v))" by (force simp: inm[symmetric])
      also have "\<dots> \<longleftrightarrow> map_of m (hexKey k) = Some (k, v)" using assms unfolding merged_for_def by metis
      finally show ?thesis using assms by (auto simp: merged_for_def)
    qed
    then show "map_of (map snd m) k = M k" by (metis not_Some_eq)
  qed
qed

lemma foldl_upd_map_of: "distinct (map fst its) \<Longrightarrow>
    foldl (\<lambda>M x. M(fst x \<mapsto> f (snd x))) M its = M ++ map_of (map (\<lambda>x. (fst x, f (snd x))) its)"
proof (induction its arbitrary: M)
  case (Cons x its)
  have "fst x \<notin> dom (map_of (map (\<lambda>x. (fst x, f (snd x))) its))"
    using Cons.prems by (simp add: dom_map_of_conv_image_fst image_image)
  then show ?case using Cons by (simp add: map_add_upd_left del: fun_upd_apply)
qed simp

text \<open>C32. A query inside a mutation sees the committed rows with the transaction's staged index writes
  laid over them: its entries are exactly the overlaid map, one per key, in scan order.\<close>

theorem scanWithOverlay_view:
  assumes "ds_ok st" and "scan_of st q t iv = map Inr its"
  shows "\<exists>es. scanWithOverlay st q t iv overlay = Inr es \<and>
    sorted_wrt (\<lambda>a b. before (order_of q) (fst a) (fst b)) es \<and>
    map_of es = overlay_view iv (map_of (map (\<lambda>x. (fst x, ld_value (snd x))) its)) overlay"
proof -
  have s: "sorted_wrt (\<lambda>a b. before (order_of q) (fst a) (fst b)) its"
    using index_scan_sorted[OF assms(1), where rest = "[]" and its = its] assms(2) unfolding scan_of_def by simp
  have "sorted_wrt (\<lambda>a b. before o1 (fst a) (fst b)) xs \<Longrightarrow> distinct (map fst xs)" for o1 and xs :: "(bytes \<times> 'x) list"
    by (induction xs) (cases o1; fastforce)+
  from this[OF s] have d: "distinct (map fst its)" .
  have "merged_for [] (\<lambda>_. None)" by (simp add: merged_for_def)
  from merge_scan_spec[OF this, of its] obtain m where m: "merge_scan (map Inr its) [] = Inr m"
    "merged_for m (map_of (map (\<lambda>x. (fst x, ld_value (snd x))) its))"
    by (auto simp: foldl_upd_map_of[OF d] map_add_def fun_eq_iff split: option.splits)
  let ?es = "map snd (foldl (overlay_step iv) m overlay)"
  note e = merged_for_entries[OF merged_for_overlay[OF m(2), of iv overlay]]
  let ?r = "if order_of q = Asc then sort_key fst ?es else rev (sort_key fst ?es)"
  have dist: "distinct (map fst (sort_key fst ?es))" using e(1) by (metis distinct_map distinct_sort set_sort)
  then have asc: "sorted_wrt (\<lambda>a b. fst a < fst b) (sort_key fst ?es)"
    using sorted_sort_key[of fst ?es] by (metis strict_sorted_iff sorted_wrt_map)
  then have "sorted_wrt (\<lambda>a b. before (order_of q) (fst a) (fst b)) ?r"
    by (cases "order_of q") (simp_all add: sorted_wrt_rev)
  moreover have "map_of ?r = map_of ?es"
    using map_of_inject_set[of ?r ?es] dist e(1) by (simp add: rev_map[symmetric])
  ultimately show ?thesis using m(1) e(2) by (simp add: scanWithOverlay_def assms(2) Let_def)
qed

theorem scanWithOverlay_view_witness:
  "\<exists>es. scanWithOverlay ds_empty sample_query 5 \<lparr>iv_start = [], iv_end = None\<rparr>
      [\<lparr>ov_key = [7], ov_value = Some []\<rparr>, \<lparr>ov_key = [3], ov_value = Some []\<rparr>, \<lparr>ov_key = [7], ov_value = None\<rparr>] = Inr es \<and>
     map_of es = [[3] \<mapsto> []]"
proof -
  have "keyInInterval k \<lparr>iv_start = [], iv_end = None\<rparr>" for k by (simp add: keyInInterval_iff)
  then show ?thesis
    using scanWithOverlay_view[OF ds_ok_empty, of sample_query 5 "\<lparr>iv_start = [], iv_end = None\<rparr>" "[]"
        "[\<lparr>ov_key = [7], ov_value = Some []\<rparr>, \<lparr>ov_key = [3], ov_value = Some []\<rparr>, \<lparr>ov_key = [7], ov_value = None\<rparr>]"]
    by (auto simp: sample_scan overlay_view_def)
qed

section \<open>Following the cursors\<close>

text \<open>A client that asks for page after page, at one snapshot.\<close>

fun walk_pages :: "nat \<Rightarrow> doc_store \<Rightarrow> query \<Rightarrow> int \<Rightarrow> int \<Rightarrow> int option \<Rightarrow> jsstring option \<Rightarrow> document list result option" where
  "walk_pages 0 st q t pageSize maxScan cursor = None"
| "walk_pages (Suc fuel) st q t pageSize maxScan cursor =
     (case paginate st q t \<lparr>po_cursor = cursor, po_pageSize = pageSize, po_maxScan = maxScan\<rparr> None of
        Inl e \<Rightarrow> Some (Inl e)
      | Inr r \<Rightarrow> if pr_hasMore r
          then map_option (\<lambda>rest. res_bind rest (\<lambda>ds. Inr (pr_page r @ ds)))
                 (walk_pages fuel st q t pageSize maxScan (pr_nextCursor r))
          else Some (Inr (pr_page r)))"

definition stops_at :: "(document \<Rightarrow> bool) \<Rightarrow> (bytes \<times> latest_document) list \<Rightarrow> bytes option \<Rightarrow> document list \<Rightarrow> bool" where
  "stops_at P its key page \<longleftrightarrow>
     (\<exists>a x b. its = a @ x # b \<and> key = Some (fst x) \<and> page = filter P (item_values (a @ [x])))"

lemma page_loop_spec:
  assumes "1 \<le> n" "\<forall>m. cap = Some m \<longrightarrow> ps_scanned s < m" "\<not> ps_hasMore s" "\<not> ps_scanCapped s" "int (length (ps_page s)) \<le> n"
    and "ps_page s = filter P (item_values done)" "ps_page s \<noteq> [] \<Longrightarrow> ps_lastIncluded s \<noteq> None"
    and "\<forall>k. ps_lastIncluded s = Some k \<longrightarrow> (\<exists>a x b. done = a @ x # b \<and> fst x = k \<and> filter P (item_values b) = [])"
  shows "\<exists>s'. page_loop P n cap (map Inr rem) s = Inr s' \<and>
    (if ps_hasMore s'
     then stops_at P (done @ rem) (if ps_scanCapped s' then ps_lastScanned s' else ps_lastIncluded s') (ps_page s')
     else \<not> ps_scanCapped s' \<and> ps_page s' = filter P (item_values (done @ rem)))"
  using assms
proof (induction rem arbitrary: s "done")
  case Nil
  then show ?case by simp
next
  case (Cons it rem)
  obtain k d where it: "it = (k, d)" by fastforce
  let ?s = "page_next P k (ld_value d) s"
  show ?case
  proof (cases "P (ld_value d) \<and> int (length (ps_page s)) \<ge> n")
    case True
    then have "ps_page s \<noteq> []" using Cons.prems(1) by auto
    then obtain k' where k': "ps_lastIncluded s = Some k'" using Cons.prems(7) by auto
    then obtain a x b where x: "done = a @ x # b" "fst x = k'" "filter P (item_values b) = []" using Cons.prems(8) by blast
    have "done @ it # rem = a @ x # (b @ it # rem)" "ps_page s = filter P (item_values (a @ [x]))"
      using x Cons.prems(6) by simp_all
    then have "stops_at P (done @ it # rem) (Some k') (ps_page s)" unfolding stops_at_def x(2)[symmetric] by blast
    then show ?thesis using True Cons.prems(4) k' by (simp add: it)
  next
    case False
    have page: "ps_page ?s = filter P (item_values (done @ [it]))" "int (length (ps_page ?s)) \<le> n"
      using False Cons.prems(5,6) by (auto simp: page_next_def Let_def it)
    have incl: "ps_page ?s \<noteq> [] \<Longrightarrow> ps_lastIncluded ?s \<noteq> None"
      using Cons.prems(7) by (auto simp: page_next_def Let_def)
    have last': "\<forall>k'. ps_lastIncluded ?s = Some k' \<longrightarrow> (\<exists>a x b. done @ [it] = a @ x # b \<and> fst x = k' \<and> filter P (item_values b) = [])"
    proof (cases "P (ld_value d)")
      case True
      then have "ps_lastIncluded ?s = Some (fst it)" by (simp add: page_next_def Let_def it)
      then show ?thesis by (intro allI impI exI[of _ "done"] exI[of _ it] exI[of _ "[]"]) simp
    next
      case no: False
      have "\<exists>a x b. done @ [it] = a @ x # b \<and> fst x = k' \<and> filter P (item_values b) = []" if "ps_lastIncluded ?s = Some k'" for k'
      proof -
        have "ps_lastIncluded s = Some k'" using that no by (simp add: page_next_def Let_def)
        then obtain a x b where "done = a @ x # b" "fst x = k'" "filter P (item_values b) = []" using Cons.prems(8) by blast
        then show ?thesis using no by (intro exI[of _ a] exI[of _ x] exI[of _ "b @ [it]"]) (simp add: it)
      qed
      then show ?thesis by blast
    qed
    show ?thesis
    proof (cases "limit_reached cap (ps_scanned ?s)")
      case True
      let ?s' = "?s\<lparr>ps_hasMore := True, ps_scanCapped := (if int (length (ps_page ?s)) < n then True else ps_scanCapped ?s)\<rparr>"
      have res: "page_loop P n cap (map Inr (it # rem)) s = Inr ?s'" using False True by (auto simp: it Let_def)
      have capd: "ps_scanCapped ?s = False" using Cons.prems(4) by (simp add: page_next_def Let_def)
      have "stops_at P (done @ it # rem) (if ps_scanCapped ?s' then ps_lastScanned ?s' else ps_lastIncluded ?s') (ps_page ?s')"
      proof (cases "int (length (ps_page ?s)) < n")
        case True
        then show ?thesis using page(1) unfolding stops_at_def
          by (intro exI[of _ "done"] exI[of _ it] exI[of _ rem]) (simp add: it)
      next
        case full: False
        then have "ps_page ?s \<noteq> []" using Cons.prems(1) by auto
        then obtain k' where k': "ps_lastIncluded ?s = Some k'" using incl by auto
        then obtain a x b where x: "done @ [it] = a @ x # b" "fst x = k'" "filter P (item_values b) = []" using last' by blast
        have "ps_page ?s = filter P (item_values (a @ x # b))" using page(1) x(1) by metis
        moreover have "done @ it # rem = a @ x # (b @ rem)" using arg_cong[OF x(1), of "\<lambda>l. l @ rem"] by simp
        ultimately show ?thesis using full k' x(2,3) capd unfolding stops_at_def by (intro exI[of _ a] exI[of _ x] exI[of _ "b @ rem"]) simp
      qed
      then show ?thesis using res by (intro exI[of _ ?s']) simp
    next
      case go: False
      have "\<forall>m. cap = Some m \<longrightarrow> ps_scanned ?s < m" using go by (auto simp: limit_reached_def)
      moreover have "\<not> ps_scanCapped ?s" "\<not> ps_hasMore ?s" using Cons.prems(3,4) by (simp_all add: page_next_def Let_def)
      ultimately have "\<exists>s'. page_loop P n cap (map Inr rem) ?s = Inr s' \<and>
        (if ps_hasMore s'
         then stops_at P ((done @ [it]) @ rem) (if ps_scanCapped s' then ps_lastScanned s' else ps_lastIncluded s') (ps_page s')
         else \<not> ps_scanCapped s' \<and> ps_page s' = filter P (item_values ((done @ [it]) @ rem)))"
        using Cons.IH[of ?s "done @ [it]"] Cons.prems(1) page incl last' by blast
      moreover have "page_loop P n cap (map Inr (it # rem)) s = page_loop P n cap (map Inr rem) ?s"
        using False go by (auto simp: it Let_def)
      ultimately show ?thesis by (simp only: append_assoc append_Cons append_Nil)
    qed
  qed
qed

lemma base64_cursor [simp]: "base64ToBytes (bytesToBase64 k) = Inr k" "bytesToBase64 k = [] \<longleftrightarrow> k = []"
proof -
  show r: "base64ToBytes (bytesToBase64 k) = Inr k" for k by (simp add: bytesToBase64_def base64ToBytes_def)
  have "bytesToBase64 [] = []" by (simp add: bytesToBase64_def)
  then show "bytesToBase64 k = [] \<longleftrightarrow> k = []" using r[of k] r[of "[]"] by (metis Inr_inject)
qed

lemma in_resume:
  assumes "keyInInterval k iv"
  shows "keyInInterval a (resume_interval iv order k) \<longleftrightarrow> keyInInterval a iv \<and> before order k a"
proof (cases order)
  case Asc
  have "keySuccessor k \<le> a \<longleftrightarrow> k < a" using less_succ_iff[of a k] by auto
  then show ?thesis using assms Asc by (auto simp: keyInInterval_iff resume_interval_def)
next
  case Desc
  then show ?thesis using assms by (auto simp: keyInInterval_iff resume_interval_def split: option.splits)
qed

lemma scan_resume:
  assumes "ds_ok st" "scan_of st q t iv = map Inr (pre @ rest)" "pre \<noteq> []"
  shows "scan_of st q t (resume_interval iv (order_of q) (fst (last pre))) = map Inr rest"
proof -
  let ?k = "fst (last pre)"
  have "Inr (last pre) \<in> set (scan_of st q t iv)" using assms(2,3) by simp
  then have kin: "keyInInterval ?k iv" using index_scan_keys[of ?k "snd (last pre)"] by (simp add: scan_of_def)
  have s: "sorted_wrt (\<lambda>a b. before (order_of q) (fst a) (fst b)) (pre @ rest)"
    using index_scan_sorted[OF assms(1), where rest = "[]" and its = "pre @ rest"] assms(2) unfolding scan_of_def by simp
  have "filter (\<lambda>x. keyInInterval (fst x) (resume_interval iv (order_of q) ?k)) (pre @ rest) = rest"
  proof -
    have asym: "\<not> (before (order_of q) a b \<and> before (order_of q) b a) \<and> \<not> before (order_of q) a a" for a b by (cases "order_of q") auto
    have "\<not> before (order_of q) ?k (fst x)" if "x \<in> set pre" for x
      using last_key_bound[of "order_of q" pre x] that s asym by (auto simp: sorted_wrt_append)
    moreover have "before (order_of q) ?k (fst x) \<and> keyInInterval (fst x) iv" if "x \<in> set rest" for x
    proof -
      have "Inr x \<in> set (scan_of st q t iv)" using assms(2) that by simp
      then show ?thesis using s that assms(3) index_scan_keys[of "fst x" "snd x"] by (simp add: sorted_wrt_append scan_of_def)
    qed
    ultimately show ?thesis by (auto simp: in_resume[OF kin] filter_empty_conv filter_id_conv)
  qed
  then show ?thesis
    using index_scan_sub[OF assms(2)[unfolded scan_of_def], of "resume_interval iv (order_of q) ?k"]
    by (simp add: in_resume[OF kin] scan_of_def)
qed

lemma paginate_page:
  assumes "page_interval q cursor = Inr iv" "scan_of st q t iv = map Inr rem" "1 \<le> n" "\<forall>m. cap = Some m \<longrightarrow> 1 \<le> m"
  shows "\<exists>r. paginate st q t \<lparr>po_cursor = cursor, po_pageSize = n, po_maxScan = cap\<rparr> None = Inr r \<and>
    (if pr_hasMore r then (\<exists>a x b. rem = a @ x # b \<and> pr_nextCursor r = Some (bytesToBase64 (fst x)) \<and>
        pr_page r = filter (passes q) (item_values (a @ [x])))
     else pr_page r = filter (passes q) (item_values rem))"
proof -
  have "\<forall>m. cap = Some m \<longrightarrow> ps_scanned page_start < m" using assms(4) by (auto simp: page_start_def)
  then obtain s where s: "page_loop (passes q) n cap (map Inr rem) page_start = Inr s"
    "if ps_hasMore s then stops_at (passes q) rem (if ps_scanCapped s then ps_lastScanned s else ps_lastIncluded s) (ps_page s)
     else \<not> ps_scanCapped s \<and> ps_page s = filter (passes q) (item_values rem)"
    using page_loop_spec[OF assms(3), of cap page_start "passes q" "[]" rem] assms(3)
    unfolding append_Nil by (simp add: page_start_def) blast
  have "paginate st q t \<lparr>po_cursor = cursor, po_pageSize = n, po_maxScan = cap\<rparr> None = Inr (scan_page q iv s)"
    using assms(1,2) s(1) by (simp add: paginate_def or_default_def)
  then show ?thesis using s(2)
    by (intro exI[of _ "scan_page q iv s"]) (auto simp: scan_page_def Let_def stops_at_def simp del: split_paired_Ex split: if_splits)
qed

lemma walk_pages_rest:
  assumes "ds_ok st" "query_interval q = Inr iv" "scan_of st q t iv = map Inr (pre @ rem)" "\<forall>x \<in> set (pre @ rem). fst x \<noteq> []"
    and "1 \<le> n" "\<forall>m. cap = Some m \<longrightarrow> 1 \<le> m" "length rem < fuel"
    and "cursor = (if pre = [] then None else Some (bytesToBase64 (fst (last pre))))"
  shows "walk_pages fuel st q t n cap cursor = Some (Inr (filter (passes q) (item_values rem)))"
  using assms(3,4,7,8)
proof (induction fuel arbitrary: pre rem cursor)
  case (Suc fuel)
  obtain iv' where iv': "page_interval q cursor = Inr iv'" "scan_of st q t iv' = map Inr rem"
  proof (cases "pre = []")
    case True
    then show ?thesis using that[of iv] Suc.prems(1,4) assms(2) by (simp add: page_interval_def)
  next
    case False
    then have "fst (last pre) \<noteq> []" using Suc.prems(2) by simp
    then show ?thesis
      using that[of "resume_interval iv (order_of q) (fst (last pre))"] Suc.prems(4) False assms(2)
        scan_resume[OF assms(1) Suc.prems(1) False] by (simp add: page_interval_def)
  qed
  obtain r where r: "paginate st q t \<lparr>po_cursor = cursor, po_pageSize = n, po_maxScan = cap\<rparr> None = Inr r"
    "if pr_hasMore r then (\<exists>a x b. rem = a @ x # b \<and> pr_nextCursor r = Some (bytesToBase64 (fst x)) \<and>
        pr_page r = filter (passes q) (item_values (a @ [x])))
     else pr_page r = filter (passes q) (item_values rem)"
    using paginate_page[OF iv' assms(5,6)] by blast
  show ?case
  proof (cases "pr_hasMore r")
    case True
    then obtain a x b where x: "rem = a @ x # b" "pr_nextCursor r = Some (bytesToBase64 (fst x))"
      "pr_page r = filter (passes q) (item_values (a @ [x]))" using r(2) by auto
    have "walk_pages fuel st q t n cap (pr_nextCursor r) = Some (Inr (filter (passes q) (item_values b)))"
      using Suc.IH[of "pre @ a @ [x]" b "pr_nextCursor r"] Suc.prems(1,2,3) by (simp add: x)
    then show ?thesis using True r(1) x by simp
  qed (use r in simp)
qed simp

text \<open>C30. Pagination is complete and without gaps or repeats, and it ends: following the cursors from the
  first page at one snapshot, for any page size and scan cap of at least one and in either order, the
  pages put together are exactly the documents an unlimited \<open>collect\<close> returns.\<close>

theorem paginate_walk_complete:
  assumes "ds_ok st" and "query_interval q = Inr iv" and "scan_of st q t iv = map Inr its" and "\<forall>x \<in> set its. fst x \<noteq> []"
    and "1 \<le> pageSize" and "\<forall>m. maxScan = Some m \<longrightarrow> 1 \<le> m"
  shows "\<exists>r. collect st (q\<lparr>q_limit := None\<rparr>) t None = Inr r \<and>
    walk_pages (Suc (length its)) st q t pageSize maxScan None = Some (Inr (cr_documents r))"
proof -
  have q: "query_interval (q\<lparr>q_limit := None\<rparr>) = Inr iv" "scan_of st (q\<lparr>q_limit := None\<rparr>) t iv = map Inr its"
    using assms(2,3) by (simp_all add: query_interval_def scan_of_def order_of_def)
  obtain ls hit where "collect_loop (passes q) None (map Inr its) [] None = Inr (filter (passes q) (item_values its), ls, hit)"
    using collect_loop_spec[of None "[]" "passes q" its None] by (auto simp: below_limit_def limit_take_def)
  then have "\<exists>r. collect st (q\<lparr>q_limit := None\<rparr>) t None = Inr r \<and> cr_documents r = filter (passes q) (item_values its)"
    using q by (simp add: collect_def or_default_def passes_def[abs_def])
  then show ?thesis using walk_pages_rest[OF assms(1,2), of t "[]" its pageSize maxScan "Suc (length its)" None] assms(3-6) by auto
qed

theorem paginate_walk_complete_witness:
  "\<exists>r. collect ds_empty (sample_query\<lparr>q_limit := None\<rparr>) 5 None = Inr r \<and>
     walk_pages (Suc (length ([] :: (bytes \<times> latest_document) list))) ds_empty sample_query 5 2 (Some 3) None = Some (Inr (cr_documents r))"
  by (rule paginate_walk_complete[OF ds_ok_empty sample_interval]) (simp_all add: sample_scan)

end
