(* ===== verification/Transactor.thy ===== *)
theory Transactor
  imports Query_Runtime
begin

text \<open>
  \<^verbatim>\<open>packages/transactor/src\<close>: headroom, the uncommitted write buffer, the transaction
  context and the single-commit path of \<open>ShardWriter\<close> (\<^verbatim>\<open>headroom.ts\<close>,
  \<^verbatim>\<open>uncommitted-writes.ts\<close>, \<^verbatim>\<open>shard-writer.ts\<close>).  The commit section runs under the
  writer's mutex, so it is one step of a writer; \<open>commit_land\<close> and \<open>commit_publish\<close> are
  its two halves, before and after the store's answer arrives, between which other transactions run.
  The user's function is an argument.
\<close>

section \<open>Headroom (headroom.ts)\<close>

record headroom_limits =
  hl_maxReads :: int
  hl_maxWrites :: int

definition DEFAULT_HEADROOM :: headroom_limits where
  "DEFAULT_HEADROOM = \<lparr>hl_maxReads = 4096, hl_maxWrites = 4096\<rparr>"

record headroom_tracker =
  ht_limits :: headroom_limits
  ht_reads :: int
  ht_writes :: int

definition newTracker :: "headroom_limits \<Rightarrow> headroom_tracker" where
  "newTracker limits = \<lparr>ht_limits = limits, ht_reads = 0, ht_writes = 0\<rparr>"

text \<open>The counter moves also when the call throws.\<close>

definition countRead :: "headroom_tracker \<Rightarrow> headroom_tracker \<times> js_error option" where
  "countRead h =
     (let h' = h\<lparr>ht_reads := ht_reads h + 1\<rparr>
      in (h', if ht_reads h' > hl_maxReads (ht_limits h)
              then Some (HeadroomExceededError ''reads'' (hl_maxReads (ht_limits h))) else None))"

definition countWrite :: "headroom_tracker \<Rightarrow> headroom_tracker \<times> js_error option" where
  "countWrite h =
     (let h' = h\<lparr>ht_writes := ht_writes h + 1\<rparr>
      in (h', if ht_writes h' > hl_maxWrites (ht_limits h)
              then Some (HeadroomExceededError ''writes'' (hl_maxWrites (ht_limits h))) else None))"

section \<open>Staged writes (uncommitted-writes.ts)\<close>

record local_write =
  lw_id :: internal_document_id
  lw_value :: "document option"

type_synonym uncommitted_writes = "(jsstring, local_write) jsmap"

definition uw_set :: "internal_document_id \<Rightarrow> document option \<Rightarrow> uncommitted_writes \<Rightarrow> uncommitted_writes" where
  "uw_set i v w = AList.update (documentIdKey i) \<lparr>lw_id = i, lw_value = v\<rparr> w"

definition uw_get :: "internal_document_id \<Rightarrow> uncommitted_writes \<Rightarrow> local_write option" where
  "uw_get i w = map_of w (documentIdKey i)"

definition uw_has :: "internal_document_id \<Rightarrow> uncommitted_writes \<Rightarrow> bool" where
  "uw_has i w = (map_of w (documentIdKey i) \<noteq> None)"

definition uw_entries :: "uncommitted_writes \<Rightarrow> local_write list" where
  "uw_entries w = map snd w"

definition uw_size :: "uncommitted_writes \<Rightarrow> nat" where
  "uw_size w = length w"

section \<open>Transaction context\<close>

record txn_ctx =
  tx_snapshotTs :: int
  tx_shardId :: jsstring
  tx_headroom :: headroom_tracker
  tx_reads :: range_set
  tx_validatedReads :: range_set
  tx_writeRanges :: range_set
  tx_staged :: uncommitted_writes
  tx_indexUpdates :: "index_update list"

definition newCtx :: "int \<Rightarrow> jsstring \<Rightarrow> headroom_limits \<Rightarrow> txn_ctx" where
  "newCtx snapshotTs shardId limits =
     \<lparr>tx_snapshotTs = snapshotTs, tx_shardId = shardId, tx_headroom = newTracker limits, tx_reads = rs_empty,
      tx_validatedReads = rs_empty, tx_writeRanges = rs_empty, tx_staged = [], tx_indexUpdates = []\<rparr>"

definition docKeyspace :: "internal_document_id \<Rightarrow> jsstring" where
  "docKeyspace i = tableKeyspaceId (encodeStorageTableId (tableNumber i))"

definition ctx_get :: "doc_store \<Rightarrow> internal_document_id \<Rightarrow> txn_ctx \<Rightarrow> txn_ctx \<times> document option result" where
  "ctx_get st i c =
     (let (h, err) = countRead (tx_headroom c); c1 = c\<lparr>tx_headroom := h\<rparr>
      in case err of
           Some e \<Rightarrow> (c1, Inl e)
         | None \<Rightarrow>
             (let c2 = c1\<lparr>tx_reads := rs_addKey (tx_reads c1) (docKeyspace i) (internalId i),
                          tx_validatedReads := rs_addKey (tx_validatedReads c1) (docKeyspace i) (internalId i)\<rparr>
              in case uw_get i (tx_staged c2) of
                   Some w \<Rightarrow> (c2, Inr (lw_value w))
                 | None \<Rightarrow> (c2, res_bind (ds_get st i (Some (tx_snapshotTs c2))) (\<lambda>d. Inr (map_option ld_value d)))))"

definition ctx_write :: "internal_document_id \<Rightarrow> document option \<Rightarrow> txn_ctx \<Rightarrow> txn_ctx \<times> unit result" where
  "ctx_write i v c =
     (let (h, err) = countWrite (tx_headroom c); c1 = c\<lparr>tx_headroom := h\<rparr>
      in case err of
           Some e \<Rightarrow> (c1, Inl e)
         | None \<Rightarrow> (c1\<lparr>tx_writeRanges := rs_addKey (tx_writeRanges c1) (docKeyspace i) (internalId i),
                        tx_staged := uw_set i v (tx_staged c1)\<rparr>, Inr ()))"

definition ctx_put :: "internal_document_id \<Rightarrow> document \<Rightarrow> txn_ctx \<Rightarrow> txn_ctx \<times> unit result" where
  "ctx_put i v c = ctx_write i (Some v) c"

definition ctx_delete :: "internal_document_id \<Rightarrow> txn_ctx \<Rightarrow> txn_ctx \<times> unit result" where
  "ctx_delete i c = ctx_write i None c"

definition recordRead :: "key_range \<Rightarrow> txn_ctx \<Rightarrow> txn_ctx" where
  "recordRead r c = c\<lparr>tx_reads := rs_add (tx_reads c) r, tx_validatedReads := rs_add (tx_validatedReads c) r\<rparr>"

definition recordReadUnvalidated :: "key_range \<Rightarrow> txn_ctx \<Rightarrow> txn_ctx" where
  "recordReadUnvalidated r c = c\<lparr>tx_reads := rs_add (tx_reads c) r\<rparr>"

definition recordWrite :: "key_range \<Rightarrow> txn_ctx \<Rightarrow> txn_ctx" where
  "recordWrite r c = c\<lparr>tx_writeRanges := rs_add (tx_writeRanges c) r\<rparr>"

definition stageIndexUpdates :: "index_update list \<Rightarrow> txn_ctx \<Rightarrow> txn_ctx" where
  "stageIndexUpdates us c = c\<lparr>tx_indexUpdates := tx_indexUpdates c @ us\<rparr>"

definition overlay_entry :: "uncommitted_writes \<Rightarrow> index_update \<Rightarrow> index_overlay_entry" where
  "overlay_entry staged u =
     (case iu_value u of
        Deleted \<Rightarrow> \<lparr>ov_key = iu_key u, ov_value = None\<rparr>
      | NonClustered d \<Rightarrow>
          \<lparr>ov_key = iu_key u, ov_value = (case uw_get d staged of Some w \<Rightarrow> lw_value w | None \<Rightarrow> None)\<rparr>)"

definition pendingIndexOverlay :: "jsstring \<Rightarrow> txn_ctx \<Rightarrow> index_overlay_entry list" where
  "pendingIndexOverlay indexId c =
     map snd (foldl (\<lambda>byKey u. if iu_indexId u \<noteq> indexId then byKey
                       else AList.update (hexKey (iu_key u)) (overlay_entry (tx_staged c) u) byKey)
                [] (tx_indexUpdates c))"

section \<open>The shard writer\<close>

record recent_commit =
  rc_ts :: int
  rc_writes :: range_set

record shard_writer =
  sw_shardId :: jsstring
  sw_oracle :: timestamp_oracle
  sw_recentCommits :: "recent_commit list"
  sw_activeSnapshots :: "(int, int) jsmap"
  sw_headroom :: headroom_limits

definition newWriter :: "timestamp_oracle \<Rightarrow> jsstring \<Rightarrow> headroom_limits \<Rightarrow> shard_writer" where
  "newWriter oracle shardId limits =
     \<lparr>sw_shardId = shardId, sw_oracle = oracle, sw_recentCommits = [], sw_activeSnapshots = [], sw_headroom = limits\<rparr>"

definition retain :: "int \<Rightarrow> shard_writer \<Rightarrow> shard_writer" where
  "retain ts w = w\<lparr>sw_activeSnapshots :=
     AList.update ts ((case map_of (sw_activeSnapshots w) ts of Some n \<Rightarrow> n | None \<Rightarrow> 0) + 1) (sw_activeSnapshots w)\<rparr>"

definition release :: "int \<Rightarrow> shard_writer \<Rightarrow> shard_writer" where
  "release ts w =
     (let n = (case map_of (sw_activeSnapshots w) ts of Some n \<Rightarrow> n | None \<Rightarrow> 0) - 1
      in if n \<le> 0 then w\<lparr>sw_activeSnapshots := AList.delete ts (sw_activeSnapshots w)\<rparr>
         else w\<lparr>sw_activeSnapshots := AList.update ts n (sw_activeSnapshots w)\<rparr>)"

definition minActiveSnapshot :: "shard_writer \<Rightarrow> int" where
  "minActiveSnapshot w =
     (case foldl (\<lambda>m ts. case m of None \<Rightarrow> Some ts | Some k \<Rightarrow> if ts < k then Some ts else Some k) None
             (map fst (sw_activeSnapshots w)) of
        Some m \<Rightarrow> m | None \<Rightarrow> or_lastCommitted (sw_oracle w))"

definition prune :: "shard_writer \<Rightarrow> shard_writer" where
  "prune w =
     (let m = minActiveSnapshot w
      in if list_ex (\<lambda>c. rc_ts c \<le> m) (sw_recentCommits w)
         then w\<lparr>sw_recentCommits := filter (\<lambda>c. rc_ts c > m) (sw_recentCommits w)\<rparr> else w)"

text \<open>What a commit emits (types.ts).\<close>

record written_doc =
  wd_key :: jsstring
  wd_keyspace :: jsstring
  wd_docId :: jsstring
  wd_newRow :: "json option"
  wd_wasPresent :: bool
  wd_ts :: int

record oplog_delta =
  od_commitTs :: int
  od_shardId :: jsstring
  od_writtenRanges :: "serialized_key_range list"
  od_writtenTables :: "jsstring list"
  od_origin :: "jsstring option"
  od_writtenDocs :: "written_doc list"

record 'v commit_result =
  co_value :: 'v
  co_committed :: bool
  co_commitTs :: int
  co_shardId :: jsstring
  co_oplog :: "oplog_delta option"

definition buildWrittenDocs :: "document_log_entry list \<Rightarrow> int \<Rightarrow> written_doc list result" where
  "buildWrittenDocs entries commitTs =
     res_map (\<lambda>e. res_bind (encodeInternalDocumentId (le_id e)) (\<lambda>d. Inr
         \<lparr>wd_key = bytesToBase64 (internalId (le_id e)), wd_keyspace = docKeyspace (le_id e), wd_docId = d,
          wd_newRow = map_option (\<lambda>v. convexToJson (VObj v)) (le_value e),
          wd_wasPresent = (le_prev_ts e \<noteq> None), wd_ts = commitTs\<rparr>)) entries"

definition build_oplog ::
  "int \<Rightarrow> jsstring \<Rightarrow> range_set \<Rightarrow> jsstring option \<Rightarrow> document_log_entry list \<Rightarrow> oplog_delta result" where
  "build_oplog commitTs shardId writeRanges origin entries =
     res_bind (writtenTablesFromRanges (rs_toArray writeRanges)) (\<lambda>tables.
     res_bind (buildWrittenDocs entries commitTs) (\<lambda>docs.
       Inr \<lparr>od_commitTs = commitTs, od_shardId = shardId,
            od_writtenRanges = map serializeKeyRange (rs_toArray writeRanges), od_writtenTables = tables,
            od_origin = origin, od_writtenDocs = docs\<rparr>))"

section \<open>Commit\<close>

definition ring_conflict :: "recent_commit list \<Rightarrow> int \<Rightarrow> range_set \<Rightarrow> bool" where
  "ring_conflict ring snapshotTs reads = list_ex (\<lambda>c. rc_ts c > snapshotTs \<and> rs_intersects reads (rc_writes c)) ring"

definition log_entries :: "doc_store \<Rightarrow> local_write list \<Rightarrow> document_log_entry list result" where
  "log_entries st ws =
     res_map (\<lambda>w. res_bind (ds_get st (lw_id w) None) (\<lambda>prev.
       Inr \<lparr>le_ts = 0, le_id = lw_id w, le_value = lw_value w, le_prev_ts = map_option ld_ts prev\<rparr>)) ws"

definition index_writes :: "index_update list \<Rightarrow> index_write list" where
  "index_writes us = map (\<lambda>u. \<lparr>iw_ts = 0, iw_update = u\<rparr>) us"

definition commit_land ::
  "commit_guard list \<Rightarrow> recent_commit list \<Rightarrow> txn_ctx \<Rightarrow> int \<Rightarrow> jsstring \<Rightarrow> commit_meta option \<Rightarrow> doc_store \<Rightarrow>
     (document_log_entry list \<times> int \<times> doc_store) result" where
  "commit_land guards ring c snapshotTs shardId meta st =
     (if ring_conflict ring snapshotTs (tx_validatedReads c) then Inl OccConflictError
      else res_bind (log_entries st (uw_entries (tx_staged c))) (\<lambda>entries.
           res_bind (commitWrite guards entries (index_writes (tx_indexUpdates c)) (Some shardId) meta st)
             (\<lambda>(commitTs, st'). Inr (entries, commitTs, st'))))"

text \<open>\<open>onCommitted\<close> is the hook of the sharded transactor; it sees the writer after its own oracle moved.\<close>

definition commit_publish ::
  "(int \<Rightarrow> shard_writer \<Rightarrow> shard_writer) \<Rightarrow> range_set \<Rightarrow> int \<Rightarrow> shard_writer \<Rightarrow> shard_writer" where
  "commit_publish onCommitted writes commitTs w =
     (let w1 = w\<lparr>sw_recentCommits := sw_recentCommits w @ [\<lparr>rc_ts = commitTs, rc_writes = writes\<rparr>]\<rparr>;
          w2 = w1\<lparr>sw_oracle := Doc_Store.publishCommitted commitTs (sw_oracle w1)\<rparr>;
          w3 = onCommitted commitTs w2
      in prune w3)"

text \<open>The whole commit: the writer and the store after it, and its result.  An error of \<open>build_oplog\<close>
  comes after the commit has landed and been published.\<close>

definition commit_txn ::
  "commit_guard list \<Rightarrow> (int \<Rightarrow> shard_writer \<Rightarrow> shard_writer) \<Rightarrow> txn_ctx \<Rightarrow> int \<Rightarrow> jsstring \<Rightarrow> 'v \<Rightarrow>
     commit_meta option \<Rightarrow> jsstring option \<Rightarrow> shard_writer \<times> doc_store \<Rightarrow>
     (shard_writer \<times> doc_store) \<times> 'v commit_result result" where
  "commit_txn guards onCommitted c snapshotTs shardId v meta origin ws =
     (case commit_land guards (sw_recentCommits (fst ws)) c snapshotTs shardId meta (snd ws) of
        Inl e \<Rightarrow> (ws, Inl e)
      | Inr (entries, commitTs, st') \<Rightarrow>
          ((commit_publish onCommitted (tx_writeRanges c) commitTs (fst ws), st'),
           res_bind (build_oplog commitTs shardId (tx_writeRanges c) origin entries) (\<lambda>oplog.
             Inr \<lparr>co_value = v, co_committed = True, co_commitTs = commitTs, co_shardId = shardId, co_oplog = Some oplog\<rparr>)))"

text \<open>One attempt and the retry loop of \<open>runInTransactionSingle\<close>.  \<open>fn\<close> runs the user's function from
  the snapshot's context, together with whatever other transactions do to the writer and the store
  meanwhile.\<close>

record run_options =
  ro_shardId :: "jsstring option"
  ro_maxRetries :: "int option"
  ro_maxReads :: "int option"
  ro_maxWrites :: "int option"
  ro_meta :: "commit_meta option"
  ro_origin :: "jsstring option"

type_synonym 'v txn_fn =
  "nat \<Rightarrow> txn_ctx \<Rightarrow> shard_writer \<times> doc_store \<Rightarrow> (shard_writer \<times> doc_store) \<times> (txn_ctx \<times> 'v) result"

definition run_attempt ::
  "commit_guard list \<Rightarrow> (int \<Rightarrow> shard_writer \<Rightarrow> shard_writer) \<Rightarrow> 'v txn_fn \<Rightarrow> run_options \<Rightarrow> nat \<Rightarrow>
     shard_writer \<times> doc_store \<Rightarrow> (shard_writer \<times> doc_store) \<times> 'v commit_result result" where
  "run_attempt guards onCommitted fn opts attempt ws =
     (let shardId = or_default (ro_shardId opts) (sw_shardId (fst ws));
          limits = \<lparr>hl_maxReads = or_default (ro_maxReads opts) (hl_maxReads (sw_headroom (fst ws))),
                    hl_maxWrites = or_default (ro_maxWrites opts) (hl_maxWrites (sw_headroom (fst ws)))\<rparr>;
          snapshotTs = or_lastCommitted (sw_oracle (fst ws));
          (ws1, r) = fn attempt (newCtx snapshotTs shardId limits) (retain snapshotTs (fst ws), snd ws);
          (ws2, r2) = (case r of
             Inl e \<Rightarrow> (ws1, Inl e)
           | Inr (c, v) \<Rightarrow>
               if uw_size (tx_staged c) = 0
               then (ws1, Inr \<lparr>co_value = v, co_committed = False, co_commitTs = snapshotTs, co_shardId = shardId, co_oplog = None\<rparr>)
               else commit_txn guards onCommitted c snapshotTs shardId v (ro_meta opts) (ro_origin opts) ws1)
      in ((release snapshotTs (fst ws2), snd ws2), r2))"

function run_loop ::
  "commit_guard list \<Rightarrow> (int \<Rightarrow> shard_writer \<Rightarrow> shard_writer) \<Rightarrow> 'v txn_fn \<Rightarrow> run_options \<Rightarrow> nat \<Rightarrow>
     shard_writer \<times> doc_store \<Rightarrow> (shard_writer \<times> doc_store) \<times> 'v commit_result result" where
  "run_loop guards onCommitted fn opts attempt ws =
     (let (ws', r) = run_attempt guards onCommitted fn opts attempt ws
      in if r = Inl OccConflictError \<and> int attempt < or_default (ro_maxRetries opts) 8
         then run_loop guards onCommitted fn opts (attempt + 1) ws' else (ws', r))"
  by pat_completeness auto

termination
  by (relation "measure (\<lambda>(guards, onCommitted, fn, opts, attempt, ws). nat (or_default (ro_maxRetries opts) 8 - int attempt))") auto

declare run_loop.simps [simp del]

definition runInTransactionSingle where
  "runInTransactionSingle guards onCommitted fn opts ws = run_loop guards onCommitted fn opts 0 ws"

section \<open>Snapshots are counted\<close>

definition refs :: "shard_writer \<Rightarrow> int \<Rightarrow> int" where
  "refs w ts = (case map_of (sw_activeSnapshots w) ts of Some n \<Rightarrow> n | None \<Rightarrow> 0)"

definition refs_ok :: "shard_writer \<Rightarrow> bool" where
  "refs_ok w \<longleftrightarrow> jsmap_ok (sw_activeSnapshots w) \<and> (\<forall>ts n. map_of (sw_activeSnapshots w) ts = Some n \<longrightarrow> 0 < n)"

lemma refs_nonneg: "refs_ok w \<Longrightarrow> 0 \<le> refs w ts"
  by (auto simp: refs_def refs_ok_def less_imp_le split: option.splits)

lemma refs_retain [simp]: "refs (retain ts w) = (refs w)(ts := refs w ts + 1)"
  by (auto simp: refs_def retain_def fun_eq_iff)

lemma refs_ok_retain [simp]: "refs_ok w \<Longrightarrow> refs_ok (retain ts w)"
  using refs_nonneg[of w ts] unfolding refs_ok_def retain_def refs_def[symmetric] by auto

lemma refs_release: "refs_ok w \<Longrightarrow> refs (release ts w) = (refs w)(ts := max 0 (refs w ts - 1))"
  by (auto simp: refs_def release_def fun_eq_iff Let_def max_def)

lemma refs_ok_release [simp]: "refs_ok w \<Longrightarrow> refs_ok (release ts w)"
  by (auto simp: refs_ok_def release_def Let_def split: option.splits if_splits)

lemma release_frame [simp]:
  "sw_oracle (release ts w) = sw_oracle w" "sw_recentCommits (release ts w) = sw_recentCommits w"
  "sw_oracle (retain ts w) = sw_oracle w" "sw_recentCommits (retain ts w) = sw_recentCommits w"
  by (simp_all add: release_def retain_def Let_def)

lemma prune_frame [simp]:
  "sw_oracle (prune w) = sw_oracle w" "sw_activeSnapshots (prune w) = sw_activeSnapshots w"
  "refs (prune w) = refs w" "refs_ok (prune w) = refs_ok w"
  by (simp_all add: prune_def Let_def refs_def refs_ok_def fun_eq_iff)

lemma prune_ring: "set (sw_recentCommits (prune w)) = {c \<in> set (sw_recentCommits w). rc_ts c > minActiveSnapshot w}"
  by (auto simp: prune_def Let_def list_ex_iff)

lemma fold_min:
  "(case foldl (\<lambda>m ts. case m of None \<Rightarrow> Some ts | Some k \<Rightarrow> if ts < k then Some ts else Some k) acc xs of
     None \<Rightarrow> acc = None \<and> xs = []
   | Some m \<Rightarrow> (acc = Some m \<or> m \<in> set xs) \<and> (\<forall>x \<in> set xs. m \<le> x) \<and> (case acc of None \<Rightarrow> True | Some a \<Rightarrow> m \<le> (a :: int)))"
proof (induction xs arbitrary: acc)
  case (Cons x xs)
  show ?case using Cons.IH[of "case acc of None \<Rightarrow> Some x | Some k \<Rightarrow> if x < k then Some x else Some k"]
    by (auto split: option.splits if_splits)
qed (simp split: option.splits)

lemma minActiveSnapshot_le: "refs_ok w \<Longrightarrow> 0 < refs w ts \<Longrightarrow> minActiveSnapshot w \<le> ts"
proof -
  assume "refs_ok w" "0 < refs w ts"
  then have "ts \<in> set (map fst (sw_activeSnapshots w))"
    by (auto simp: refs_def split: option.splits dest!: map_of_SomeD) force
  then show ?thesis using fold_min[of None "map fst (sw_activeSnapshots w)"]
    by (auto simp: minActiveSnapshot_def split: option.splits)
qed

text \<open>The user's function and the transactions beside it, and the hook, leave the counts alone.\<close>

definition fn_balanced :: "'v txn_fn \<Rightarrow> bool" where
  "fn_balanced fn \<longleftrightarrow> (\<forall>n c ws. refs_ok (fst ws) \<longrightarrow>
     refs (fst (fst (fn n c ws))) = refs (fst ws) \<and> refs_ok (fst (fst (fn n c ws))))"

definition hook_balanced :: "(int \<Rightarrow> shard_writer \<Rightarrow> shard_writer) \<Rightarrow> bool" where
  "hook_balanced h \<longleftrightarrow> (\<forall>ts w. refs (h ts w) = refs w \<and> refs_ok (h ts w) = refs_ok w)"

lemma commit_publish_frame:
  assumes "hook_balanced onCommitted"
  shows "refs (commit_publish onCommitted ranges ts w) = refs w" "refs_ok (commit_publish onCommitted ranges ts w) = refs_ok w"
  unfolding commit_publish_def Let_def prune_frame
  using assms unfolding hook_balanced_def by (simp_all add: refs_def refs_ok_def fun_eq_iff)

lemma run_attempt_refs:
  assumes fn: "fn_balanced fn"
    and hook: "hook_balanced onCommitted"
    and "refs_ok (fst ws)"
  shows "refs (fst (fst (run_attempt guards onCommitted fn opts n ws))) = refs (fst ws) \<and>
    refs_ok (fst (fst (run_attempt guards onCommitted fn opts n ws)))"
proof -
  let ?s = "or_lastCommitted (sw_oracle (fst ws))"
  obtain c limits shard where fnc: "c = newCtx ?s shard limits" "shard = or_default (ro_shardId opts) (sw_shardId (fst ws))"
    "limits = \<lparr>hl_maxReads = or_default (ro_maxReads opts) (hl_maxReads (sw_headroom (fst ws))),
       hl_maxWrites = or_default (ro_maxWrites opts) (hl_maxWrites (sw_headroom (fst ws)))\<rparr>" by blast
  let ?f = "fn n c (retain ?s (fst ws), snd ws)"
  have w1: "refs (fst (fst ?f)) = refs (retain ?s (fst ws)) \<and> refs_ok (fst (fst ?f))"
    using fn assms(3) unfolding fn_balanced_def by (metis fst_conv refs_ok_retain)
  have w2: "refs (fst (fst (commit_txn guards onCommitted c' ?s shard v meta origin (fst ?f)))) = refs (retain ?s (fst ws)) \<and>
      refs_ok (fst (fst (commit_txn guards onCommitted c' ?s shard v meta origin (fst ?f))))" for c' meta origin and v :: 'a
    using w1 commit_publish_frame[OF hook] by (auto simp: commit_txn_def split: sum.splits prod.splits)
  obtain ws2 r2 where run: "run_attempt guards onCommitted fn opts n ws = ((release ?s (fst ws2), snd ws2), r2)"
    and w2: "refs (fst ws2) = refs (retain ?s (fst ws)) \<and> refs_ok (fst ws2)"
    using w1 w2 unfolding run_attempt_def Let_def fnc[symmetric] by (cases "snd ?f") (auto simp: case_prod_beta)
  have "0 \<le> refs (fst ws) ?s" using refs_nonneg[OF assms(3)] .
  then show ?thesis using w2 unfolding run by (auto simp: refs_release fun_eq_iff)
qed

lemma run_loop_refs:
  assumes fn: "fn_balanced fn"
    and hook: "hook_balanced onCommitted"
  shows "refs_ok (fst ws) \<Longrightarrow> refs (fst (fst (run_loop guards onCommitted fn opts n ws))) = refs (fst ws) \<and>
    refs_ok (fst (fst (run_loop guards onCommitted fn opts n ws)))"
  using assms
proof (induction guards onCommitted fn opts n ws rule: run_loop.induct)
  case (1 guards onCommitted fn opts n ws)
  obtain ws' r where run: "run_attempt guards onCommitted fn opts n ws = (ws', r)" by fastforce
  have step: "refs (fst ws') = refs (fst ws) \<and> refs_ok (fst ws')"
    using run_attempt_refs[OF "1.prems"(2,3,1), where guards = guards and opts = opts and n = n] unfolding run by simp
  show ?case
  proof (cases "r = Inl OccConflictError \<and> int n < or_default (ro_maxRetries opts) 8")
    case True
    then show ?thesis using "1.IH"[OF run[symmetric] refl True _ "1.prems"(2,3)] step
      by (simp add: run_loop.simps[of guards onCommitted fn opts n ws] run)
  next
    case False
    show ?thesis unfolding run_loop.simps[of guards onCommitted fn opts n ws] run prod.case Let_def if_not_P[OF False]
      using step by simp
  qed
qed

text \<open>A transaction leaves the snapshot counts as it found them, on every way out: result, user
  exception, headroom, conflict, retries used up, store or guard error, error after landing.  So an
  idle writer holds no snapshot and can prune its whole ring.\<close>

theorem runInTransaction_releases_snapshot:
  assumes "fn_balanced fn"
    and "hook_balanced onCommitted"
    and "refs_ok (fst ws)"
  shows "refs (fst (fst (runInTransactionSingle guards onCommitted fn opts ws))) = refs (fst ws) \<and>
    refs_ok (fst (fst (runInTransactionSingle guards onCommitted fn opts ws)))"
  unfolding runInTransactionSingle_def using run_loop_refs[OF assms] .

definition sample_opts :: run_options where
  "sample_opts = \<lparr>ro_shardId = None, ro_maxRetries = Some 2, ro_maxReads = None, ro_maxWrites = None, ro_meta = None, ro_origin = None\<rparr>"

theorem runInTransaction_releases_snapshot_witness:
  "refs (fst (fst (runInTransactionSingle [] (\<lambda>_ w. w)
       (\<lambda>n c ws. (ws, if n < 2 then Inl OccConflictError
          else Inr (fst (ctx_put \<lparr>tableNumber = 1, internalId = []\<rparr> [] c), n)))
       sample_opts (newWriter (newOracle 0) DEFAULT_SHARD DEFAULT_HEADROOM, ds_empty)))) 0 = 0"
  using runInTransaction_releases_snapshot[of "\<lambda>n c ws. (ws, if n < 2 then Inl OccConflictError
      else Inr (fst (ctx_put \<lparr>tableNumber = 1, internalId = []\<rparr> [] c), n))" "\<lambda>_ w. w"
      "(newWriter (newOracle 0) DEFAULT_SHARD DEFAULT_HEADROOM, ds_empty)" "[]" sample_opts]
  by (simp add: newWriter_def refs_def refs_ok_def fn_balanced_def hook_balanced_def)

section \<open>Interleaved transactions\<close>

text \<open>A writer with its running transactions.  A commit is two steps, \<open>Land\<close> and \<open>Publish\<close>, under the
  mutex: while one is between them (\<open>oc_inflight\<close>), others may begin, read, write and give up, but
  not commit.  A conflicting or failing transaction drops out; a retry begins anew.\<close>

definition index_keyspace :: "jsstring \<Rightarrow> jsstring" where
  "index_keyspace indexId = (case decodeStorageIndexId indexId of
     Inr (tn, name) \<Rightarrow> indexKeyspaceId (encodeStorageTableId tn) name | Inl _ \<Rightarrow> indexId)"

definition covers :: "range_set \<Rightarrow> jsstring \<Rightarrow> bytes \<Rightarrow> bool" where
  "covers rs ks key \<longleftrightarrow> (\<exists>r \<in> set (rs_toArray rs). (ks, key) \<in> range_keys r)"

text \<open>What the executor guarantees of a transaction it commits: every staged index entry has its key in
  the write ranges, and every entry pointing to a written document is rewritten.\<close>

definition disciplined :: "doc_store \<Rightarrow> txn_ctx \<Rightarrow> bool" where
  "disciplined st c \<longleftrightarrow>
     (\<forall>u \<in> set (tx_indexUpdates c). covers (tx_writeRanges c) (index_keyspace (iu_indexId u)) (iu_key u)) \<and>
     (\<forall>w \<in> set (uw_entries (tx_staged c)). \<forall>r \<in> set (ds_indexes st).
        ir_doc r = Some (encodeStorageTableId (tableNumber (lw_id w)), internalId (lw_id w)) \<longrightarrow> \<not> ir_deleted r \<longrightarrow>
        (\<forall>r' \<in> set (ds_indexes st). ir_index r' = ir_index r \<longrightarrow> ir_key r' = ir_key r \<longrightarrow> ir_ts r' \<le> ir_ts r) \<longrightarrow>
        (\<exists>u \<in> set (tx_indexUpdates c). iu_indexId u = ir_index r \<and> iu_key u = ir_key r))"

record occ_sys =
  oc_store :: doc_store
  oc_writer :: shard_writer
  oc_txns :: "(nat \<times> txn_ctx) list"
  oc_inflight :: "(nat \<times> recent_commit) option"

inductive ctx_step :: "doc_store \<Rightarrow> txn_ctx \<Rightarrow> txn_ctx \<Rightarrow> bool" where
  step_get: "ctx_step st c (fst (ctx_get st i c))"
| step_put: "ctx_step st c (fst (ctx_put i v c))"
| step_delete: "ctx_step st c (fst (ctx_delete i c))"
| step_read: "ctx_step st c (recordRead r c)"
| step_read_unvalidated: "ctx_step st c (recordReadUnvalidated r c)"
| step_write: "ctx_step st c (recordWrite r c)"
| step_stage: "ctx_step st c (stageIndexUpdates us c)"

inductive occ_step :: "commit_guard list \<Rightarrow> occ_sys \<Rightarrow> occ_sys \<Rightarrow> bool" for guards where
  occ_begin: "map_of (oc_txns s) tid = None \<Longrightarrow> ts = or_lastCommitted (sw_oracle (oc_writer s)) \<Longrightarrow>
    occ_step guards s (s\<lparr>oc_writer := retain ts (oc_writer s), oc_txns := (tid, newCtx ts shardId limits) # oc_txns s\<rparr>)"
| occ_op: "map_of (oc_txns s) tid = Some c \<Longrightarrow> (\<forall>rc. oc_inflight s \<noteq> Some (tid, rc)) \<Longrightarrow> ctx_step (oc_store s) c c' \<Longrightarrow>
    occ_step guards s (s\<lparr>oc_txns := AList.update tid c' (oc_txns s)\<rparr>)"
| occ_land: "map_of (oc_txns s) tid = Some c \<Longrightarrow> oc_inflight s = None \<Longrightarrow> tx_staged c \<noteq> [] \<Longrightarrow> disciplined (oc_store s) c \<Longrightarrow>
    commit_land guards (sw_recentCommits (oc_writer s)) c (tx_snapshotTs c) (tx_shardId c) meta (oc_store s)
      = Inr (entries, ts, st') \<Longrightarrow>
    occ_step guards s (s\<lparr>oc_store := st', oc_inflight := Some (tid, \<lparr>rc_ts = ts, rc_writes = tx_writeRanges c\<rparr>)\<rparr>)"
| occ_publish: "oc_inflight s = Some (tid, rc) \<Longrightarrow> map_of (oc_txns s) tid = Some c \<Longrightarrow>
    occ_step guards s (s\<lparr>oc_inflight := None,
      oc_writer := release (tx_snapshotTs c) (commit_publish (\<lambda>_ w. w) (rc_writes rc) (rc_ts rc) (oc_writer s)),
      oc_txns := AList.delete tid (oc_txns s)\<rparr>)"
| occ_leave: "map_of (oc_txns s) tid = Some c \<Longrightarrow> (\<forall>rc. oc_inflight s \<noteq> Some (tid, rc)) \<Longrightarrow>
    occ_step guards s (s\<lparr>oc_writer := release (tx_snapshotTs c) (oc_writer s), oc_txns := AList.delete tid (oc_txns s)\<rparr>)"

definition occ_init :: "jsstring \<Rightarrow> occ_sys" where
  "occ_init shardId = \<lparr>oc_store = ds_empty, oc_writer = newWriter (newOracle 0) shardId DEFAULT_HEADROOM,
     oc_txns = [], oc_inflight = None\<rparr>"

inductive occ_reachable :: "commit_guard list \<Rightarrow> jsstring \<Rightarrow> occ_sys \<Rightarrow> bool" for guards shardId where
  reach_init: "occ_reachable guards shardId (occ_init shardId)"
| reach_step: "occ_reachable guards shardId s \<Longrightarrow> occ_step guards s s' \<Longrightarrow> occ_reachable guards shardId s'"

section \<open>What a landing changes\<close>

lemma fold_insert_idx:
  "set (fold insert_idx rows ix) \<subseteq> set ix \<union> set rows"
  "r \<in> set rows \<Longrightarrow> \<exists>r' \<in> set (fold insert_idx rows ix). same_idx_key r r'"
  "x \<in> set ix \<Longrightarrow> \<forall>r \<in> set rows. \<not> same_idx_key r x \<Longrightarrow> x \<in> set (fold insert_idx rows ix)"
proof -
  have a: "set (fold insert_idx rows ix) \<subseteq> set ix \<union> set rows" for ix
  proof (induction rows arbitrary: ix)
    case (Cons r rows)
    show ?case using Cons.IH[of "insert_idx r ix"] by (auto simp: insert_idx_def)
  qed simp
  have b: "x \<in> set ix \<Longrightarrow> \<exists>x' \<in> set (fold insert_idx rows ix). same_idx_key x x'" for x ix rows
  proof (induction rows arbitrary: ix x)
    case (Cons r rows)
    have "\<exists>x' \<in> set (insert_idx r ix). same_idx_key x x'"
      using Cons.prems by (cases "same_idx_key r x") (auto simp: insert_idx_def same_idx_key_def)
    then obtain x' where x': "x' \<in> set (insert_idx r ix)" "same_idx_key x x'" by blast
    then show ?case using Cons.IH[OF x'(1)] by (auto simp: same_idx_key_def)
  qed (auto simp: same_idx_key_def)
  show "set (fold insert_idx rows ix) \<subseteq> set ix \<union> set rows" by (rule a)
  show "r \<in> set rows \<Longrightarrow> \<exists>r' \<in> set (fold insert_idx rows ix). same_idx_key r r'"
  proof (induction rows arbitrary: ix)
    case (Cons r0 rows)
    show ?case
    proof (cases "r \<in> set rows")
      case False
      then have "r \<in> set (insert_idx r0 ix)" using Cons.prems by (simp add: insert_idx_def)
      then show ?thesis using b by simp
    qed (use Cons.IH in simp)
  qed simp
  show "x \<in> set ix \<Longrightarrow> \<forall>r \<in> set rows. \<not> same_idx_key r x \<Longrightarrow> x \<in> set (fold insert_idx rows ix)"
    by (induction rows arbitrary: ix) (auto simp: insert_idx_def)
qed

definition stamped_rows :: "jsstring \<Rightarrow> index_update list \<Rightarrow> int \<Rightarrow> idx_row list" where
  "stamped_rows shardId us ts = map (\<lambda>u. row_of_update shardId \<lparr>iw_ts = ts, iw_update = u\<rparr>) us"

lemma commit_land_spec:
  assumes "ds_ok st" "tx_staged c \<noteq> []" "commit_land guards ring c snap shardId meta st = Inr (entries, ts, st')"
  shows "\<not> ring_conflict ring snap (tx_validatedReads c)" "ds_ok st'" "ts = maxTimestamp st + 1" "maxTimestamp st' = ts"
    "map le_id entries = map lw_id (uw_entries (tx_staged c))"
    "ds_documents st' = ds_documents st @ map (\<lambda>e. row_of_entry shardId (e\<lparr>le_ts := ts\<rparr>)) entries"
    "ds_indexes st' = fold insert_idx (stamped_rows shardId (tx_indexUpdates c) ts) (ds_indexes st)"
proof -
  show conf: "\<not> ring_conflict ring snap (tx_validatedReads c)" using assms(3) by (auto simp: commit_land_def split: if_splits)
  have e: "log_entries st (uw_entries (tx_staged c)) = Inr entries"
    and cw: "commitWrite guards entries (index_writes (tx_indexUpdates c)) (Some shardId) meta st = Inr (ts, st')"
    using assms(3) conf by (auto simp: commit_land_def res_bind_Inr_iff)
  show ids: "map le_id entries = map lw_id (uw_entries (tx_staged c))"
    using e unfolding log_entries_def res_map_Inr_iff
    by (induction rule: list_all2_induct) (auto simp: res_bind_Inr_iff)
  have "length entries = length (tx_staged c)" using arg_cong[OF ids, of length] by (simp add: uw_entries_def)
  then have ne: "entries \<noteq> []" using assms(2) by auto
  note sp = commitWrite_spec[OF assms(1) ne cw]
  show "ds_ok st'" "ts = maxTimestamp st + 1" "maxTimestamp st' = ts"
    "ds_documents st' = ds_documents st @ map (\<lambda>e. row_of_entry shardId (e\<lparr>le_ts := ts\<rparr>)) entries" using sp by simp_all
  have "ds_indexes st' = fold insert_idx (map (row_of_update shardId) (map (\<lambda>w. w\<lparr>iw_ts := ts\<rparr>) (index_writes (tx_indexUpdates c)))) (ds_indexes st)"
    using cw sp by (auto simp: commitWrite_def res_bind_Inr_iff Let_def insertRows_def dest!: commitWriteBatch_units)
  then show "ds_indexes st' = fold insert_idx (stamped_rows shardId (tx_indexUpdates c) ts) (ds_indexes st)"
    by (simp add: stamped_rows_def index_writes_def o_def)
qed

lemma stamped_rows_ts: "r \<in> set (stamped_rows shardId us ts) \<Longrightarrow> ir_ts r = ts"
  by (auto simp: stamped_rows_def row_of_update_def)

lemma land_index_old:
  assumes "ds_indexes st' = fold insert_idx (stamped_rows shardId us ts) (ds_indexes st)" "ir_ts r \<noteq> ts"
  shows "r \<in> set (ds_indexes st') \<longleftrightarrow> r \<in> set (ds_indexes st)"
proof
  show "r \<in> set (ds_indexes st') \<Longrightarrow> r \<in> set (ds_indexes st)"
    using fold_insert_idx(1) assms stamped_rows_ts unfolding assms(1) by blast
  show "r \<in> set (ds_indexes st) \<Longrightarrow> r \<in> set (ds_indexes st')"
    unfolding assms(1) using assms(2) stamped_rows_ts by (intro fold_insert_idx(3)) (auto simp: same_idx_key_def)
qed

lemma land_index_new:
  assumes "ds_ok st" "ds_indexes st' = fold insert_idx (stamped_rows shardId us ts) (ds_indexes st)" "maxTimestamp st < ts"
    and "r \<in> set (ds_indexes st')" "ir_ts r = ts"
  shows "\<exists>u \<in> set us. ir_index r = iu_indexId u \<and> ir_key r = iu_key u"
proof -
  have "r \<notin> set (ds_indexes st)" using assms(1,3,5) by (auto simp: ds_ok_def)
  then have "r \<in> set (stamped_rows shardId us ts)" using fold_insert_idx(1)[of "stamped_rows shardId us ts" "ds_indexes st"] assms(2,4) by auto
  then show ?thesis by (auto simp: stamped_rows_def row_of_update_def)
qed

lemma land_index_written:
  assumes "ds_indexes st' = fold insert_idx (stamped_rows shardId us ts) (ds_indexes st)" "u \<in> set us"
  shows "\<exists>r \<in> set (ds_indexes st'). ir_index r = iu_indexId u \<and> ir_key r = iu_key u \<and> ir_ts r = ts"
proof -
  have "row_of_update shardId \<lparr>iw_ts = ts, iw_update = u\<rparr> \<in> set (stamped_rows shardId us ts)"
    using assms(2) by (auto simp: stamped_rows_def)
  from fold_insert_idx(2)[OF this] show ?thesis unfolding assms(1) by (fastforce simp: same_idx_key_def row_of_update_def)
qed

section \<open>The invariant\<close>

text \<open>A document an index entry points to has no revision between the entry and its successor: whoever
  rewrites the document rewrites its entries.\<close>

definition index_sound :: "doc_store \<Rightarrow> bool" where
  "index_sound st \<longleftrightarrow> (\<forall>r \<in> set (ds_indexes st). \<forall>x \<in> set (ds_documents st).
     \<not> ir_deleted r \<longrightarrow> ir_doc r = Some (dr_table x, dr_iid x) \<longrightarrow> ir_ts r < dr_ts x \<longrightarrow>
     (\<exists>r' \<in> set (ds_indexes st). ir_index r' = ir_index r \<and> ir_key r' = ir_key r \<and> ir_ts r < ir_ts r' \<and> ir_ts r' \<le> dr_ts x))"

lemma index_sound_land:
  assumes "ds_ok st" "index_sound st" "tx_staged c \<noteq> []" "disciplined st c"
    and "commit_land guards ring c snap shardId meta st = Inr (entries, ts, st')"
  shows "index_sound st'"
  unfolding index_sound_def
proof (intro ballI impI)
  fix r x
  assume r: "r \<in> set (ds_indexes st')" and x: "x \<in> set (ds_documents st')" and live: "\<not> ir_deleted r"
    and doc: "ir_doc r = Some (dr_table x, dr_iid x)" and lt: "ir_ts r < dr_ts x"
  note sp = commit_land_spec[OF assms(1,3,5)]
  have xts: "dr_ts x \<le> ts" using maxTimestamp_ge[OF x] sp(4) by simp
  then have "ir_ts r \<noteq> ts" using lt by simp
  then have rold: "r \<in> set (ds_indexes st)" using land_index_old[OF sp(7)] r by blast
  have keep: "r' \<in> set (ds_indexes st')" if "r' \<in> set (ds_indexes st)" for r'
  proof -
    have "ir_ts r' \<le> maxTimestamp st" using that assms(1) by (simp add: ds_ok_def)
    then show ?thesis using land_index_old[OF sp(7), of r'] that sp(3) by simp
  qed
  show "\<exists>r' \<in> set (ds_indexes st'). ir_index r' = ir_index r \<and> ir_key r' = ir_key r \<and> ir_ts r < ir_ts r' \<and> ir_ts r' \<le> dr_ts x"
  proof (cases "x \<in> set (ds_documents st)")
    case True
    then show ?thesis using assms(2) rold live doc lt keep unfolding index_sound_def by meson
  next
    case False
    then obtain e where e: "e \<in> set entries" "x = row_of_entry shardId (e\<lparr>le_ts := ts\<rparr>)" using x sp(6) by auto
    then have "le_id e \<in> set (map lw_id (uw_entries (tx_staged c)))" unfolding sp(5)[symmetric] by simp
    then obtain w where w: "w \<in> set (uw_entries (tx_staged c))" "lw_id w = le_id e" by auto
    have xt: "dr_ts x = ts" and d: "ir_doc r = Some (encodeStorageTableId (tableNumber (lw_id w)), internalId (lw_id w))"
      using doc e(2) w(2) by (simp_all add: row_of_entry_def)
    show ?thesis
    proof (cases "\<forall>r' \<in> set (ds_indexes st). ir_index r' = ir_index r \<longrightarrow> ir_key r' = ir_key r \<longrightarrow> ir_ts r' \<le> ir_ts r")
      case True
      then obtain u where "u \<in> set (tx_indexUpdates c)" "iu_indexId u = ir_index r" "iu_key u = ir_key r"
        using assms(4) w(1) rold d live unfolding disciplined_def by meson
      then show ?thesis using land_index_written[OF sp(7)] xt lt by fastforce
    next
      case False
      then obtain r' where r': "r' \<in> set (ds_indexes st)" "ir_index r' = ir_index r" "ir_key r' = ir_key r" "ir_ts r < ir_ts r'"
        by (auto simp: not_le)
      have "ir_ts r' \<le> maxTimestamp st" using r'(1) assms(1) by (simp add: ds_ok_def)
      then have "ir_ts r' \<le> dr_ts x" using xt sp(3) by simp
      then show ?thesis using r' keep by blast
    qed
  qed
qed

definition covered_since :: "recent_commit set \<Rightarrow> doc_store \<Rightarrow> int \<Rightarrow> bool" where
  "covered_since E st s \<longleftrightarrow>
     (\<forall>x \<in> set (ds_documents st). s < dr_ts x \<longrightarrow>
        (\<exists>e \<in> E. rc_ts e = dr_ts x \<and> covers (rc_writes e) (tableKeyspaceId (dr_table x)) (dr_iid x))) \<and>
     (\<forall>r \<in> set (ds_indexes st). s < ir_ts r \<longrightarrow>
        (\<exists>e \<in> E. rc_ts e = ir_ts r \<and> covers (rc_writes e) (index_keyspace (ir_index r)) (ir_key r)))"

definition ctx_ok :: "txn_ctx \<Rightarrow> bool" where
  "ctx_ok c \<longleftrightarrow> rs_ok (tx_reads c) \<and> rs_ok (tx_validatedReads c) \<and> rs_ok (tx_writeRanges c) \<and>
     (\<forall>w \<in> set (uw_entries (tx_staged c)). covers (tx_writeRanges c) (docKeyspace (lw_id w)) (internalId (lw_id w)))"

lemma covers_add: "rs_ok rs \<Longrightarrow> covers (rs_add rs r) ks k \<longleftrightarrow> covers rs ks k \<or> (ks, k) \<in> range_keys r"
  by (auto simp: covers_def)

lemma covers_addKey: "rs_ok rs \<Longrightarrow> covers (rs_addKey rs ks' k') ks k \<longleftrightarrow> covers rs ks k \<or> ks = ks' \<and> k = k'"
  by (auto simp: rs_addKey_def covers_add range_keys_def keyInRange_point)

lemma uw_entries_set: "w \<in> set (uw_entries (uw_set i v ws)) \<Longrightarrow> w \<in> set (uw_entries ws) \<or> lw_id w = i"
  by (induction ws) (auto simp: uw_entries_def uw_set_def split: if_splits)

lemma ctx_ok_new: "ctx_ok (newCtx ts shardId limits)"
  by (simp add: ctx_ok_def newCtx_def uw_entries_def)

lemma ctx_write_ok:
  assumes "ctx_ok c" shows "ctx_ok (fst (ctx_write i v c)) \<and> tx_snapshotTs (fst (ctx_write i v c)) = tx_snapshotTs c"
  using assms uw_entries_set[of _ i v "tx_staged c"]
  by (fastforce simp: ctx_ok_def ctx_write_def countWrite_def Let_def covers_addKey)

lemma ctx_step_ok:
  "ctx_step st c c' \<Longrightarrow> ctx_ok c \<Longrightarrow> ctx_ok c' \<and> tx_snapshotTs c' = tx_snapshotTs c"
proof (induction rule: ctx_step.induct)
  case (step_get st c i)
  then show ?case by (simp add: ctx_ok_def ctx_get_def countRead_def Let_def split: option.splits)
next
  case (step_put st c i v)
  then show ?case using ctx_write_ok by (simp add: ctx_put_def)
next
  case (step_delete st c i)
  then show ?case using ctx_write_ok by (simp add: ctx_delete_def)
qed (auto simp: ctx_ok_def recordRead_def recordReadUnvalidated_def recordWrite_def stageIndexUpdates_def covers_add)

text \<open>Validation is exact enough: what a transaction read and validated, nobody wrote since.\<close>

lemma no_conflict_untouched:
  assumes "\<not> ring_conflict ring s reads" "rs_ok reads" "covered_since (set ring) st s" "\<forall>e \<in> set ring. rs_ok (rc_writes e)"
  shows "x \<in> set (ds_documents st) \<Longrightarrow> s < dr_ts x \<Longrightarrow> \<not> covers reads (tableKeyspaceId (dr_table x)) (dr_iid x)"
    and "r \<in> set (ds_indexes st) \<Longrightarrow> s < ir_ts r \<Longrightarrow> \<not> covers reads (index_keyspace (ir_index r)) (ir_key r)"
proof -
  have conflict: False if e: "e \<in> set ring" "s < rc_ts e" and c: "covers (rc_writes e) ks k" "covers reads ks k" for e ks k
  proof -
    obtain a b where "a \<in> set (rs_toArray reads)" "(ks, k) \<in> range_keys a" "b \<in> set (rs_toArray (rc_writes e))" "(ks, k) \<in> range_keys b"
      using c unfolding covers_def by blast
    then have "rs_intersects reads (rc_writes e)"
      unfolding rs_intersects_iff[OF assms(2) assms(4)[rule_format, OF e(1)]] using rangesOverlap_of_key by blast
    then show False using assms(1) e unfolding ring_conflict_def list_ex_iff by blast
  qed
  show "x \<in> set (ds_documents st) \<Longrightarrow> s < dr_ts x \<Longrightarrow> \<not> covers reads (tableKeyspaceId (dr_table x)) (dr_iid x)"
    using assms(3) conflict unfolding covered_since_def by metis
  show "r \<in> set (ds_indexes st) \<Longrightarrow> s < ir_ts r \<Longrightarrow> \<not> covers reads (index_keyspace (ir_index r)) (ir_key r)"
    using assms(3) conflict unfolding covered_since_def by metis
qed

lemma covered_since_mono: "covered_since E st s \<Longrightarrow> E \<subseteq> E' \<Longrightarrow> s \<le> s' \<Longrightarrow> covered_since E' st s'"
  unfolding covered_since_def by (meson le_less_trans subsetD)

lemma covered_since_land:
  assumes "ds_ok st" "covered_since E st s" "tx_staged c \<noteq> []" "disciplined st c" "ctx_ok c"
    and "commit_land guards ring c snap shardId meta st = Inr (entries, ts, st')"
  shows "covered_since (insert \<lparr>rc_ts = ts, rc_writes = tx_writeRanges c\<rparr> E) st' s"
  unfolding covered_since_def
proof (intro conjI ballI impI)
  note sp = commit_land_spec[OF assms(1,3,6)]
  let ?e = "\<lparr>rc_ts = ts, rc_writes = tx_writeRanges c\<rparr>"
  fix x assume x: "x \<in> set (ds_documents st')" "s < dr_ts x"
  show "\<exists>e \<in> insert ?e E. rc_ts e = dr_ts x \<and> covers (rc_writes e) (tableKeyspaceId (dr_table x)) (dr_iid x)"
  proof (cases "x \<in> set (ds_documents st)")
    case True
    then show ?thesis using assms(2) x(2) unfolding covered_since_def by blast
  next
    case False
    then obtain e where e: "e \<in> set entries" "x = row_of_entry shardId (e\<lparr>le_ts := ts\<rparr>)" using x sp(6) by auto
    then have "le_id e \<in> set (map lw_id (uw_entries (tx_staged c)))" unfolding sp(5)[symmetric] by simp
    then obtain w where "w \<in> set (uw_entries (tx_staged c))" "lw_id w = le_id e" by auto
    then have "covers (tx_writeRanges c) (docKeyspace (le_id e)) (internalId (le_id e))"
      using assms(5) unfolding ctx_ok_def by metis
    then show ?thesis by (simp add: e(2) row_of_entry_def docKeyspace_def)
  qed
next
  note sp = commit_land_spec[OF assms(1,3,6)]
  let ?e = "\<lparr>rc_ts = ts, rc_writes = tx_writeRanges c\<rparr>"
  fix r assume r: "r \<in> set (ds_indexes st')" "s < ir_ts r"
  show "\<exists>e \<in> insert ?e E. rc_ts e = ir_ts r \<and> covers (rc_writes e) (index_keyspace (ir_index r)) (ir_key r)"
  proof (cases "ir_ts r = ts")
    case True
    then obtain u where "u \<in> set (tx_indexUpdates c)" "ir_index r = iu_indexId u" "ir_key r = iu_key u"
      using land_index_new[OF assms(1) sp(7) _ r(1)] sp(3) by auto
    then show ?thesis using assms(4) True by (auto simp: disciplined_def)
  next
    case False
    then show ?thesis using land_index_old[OF sp(7) False] r assms(2) unfolding covered_since_def by blast
  qed
qed

definition ring_and :: "recent_commit list \<Rightarrow> (nat \<times> recent_commit) option \<Rightarrow> recent_commit set" where
  "ring_and ring infl = set ring \<union> (case infl of None \<Rightarrow> {} | Some (tid, rc) \<Rightarrow> {rc})"

definition count_at :: "(nat \<times> txn_ctx) list \<Rightarrow> int \<Rightarrow> int" where
  "count_at txns ts = int (length (filter (\<lambda>x. tx_snapshotTs (snd x) = ts) txns))"

abbreviation commits_of :: "occ_sys \<Rightarrow> recent_commit set" where
  "commits_of s \<equiv> ring_and (sw_recentCommits (oc_writer s)) (oc_inflight s)"

abbreviation txn_count :: "occ_sys \<Rightarrow> int \<Rightarrow> int" where
  "txn_count s \<equiv> count_at (oc_txns s)"

abbreviation last_committed :: "occ_sys \<Rightarrow> int" where
  "last_committed s \<equiv> or_lastCommitted (sw_oracle (oc_writer s))"

definition clock_agrees :: "(nat \<times> recent_commit) option \<Rightarrow> int \<Rightarrow> int \<Rightarrow> bool" where
  "clock_agrees infl lastc top_ts = (case infl of None \<Rightarrow> lastc = top_ts
     | Some (tid, rc) \<Rightarrow> rc_ts rc = top_ts \<and> lastc < top_ts)"

abbreviation clock_ok :: "occ_sys \<Rightarrow> bool" where
  "clock_ok s \<equiv> clock_agrees (oc_inflight s) (last_committed s) (maxTimestamp (oc_store s))"

definition occ_inv :: "occ_sys \<Rightarrow> bool" where
  "occ_inv s \<longleftrightarrow> ds_ok (oc_store s) \<and> index_sound (oc_store s) \<and> jsmap_ok (oc_txns s) \<and>
     refs_ok (oc_writer s) \<and> (\<forall>ts. refs (oc_writer s) ts = txn_count s ts) \<and> clock_ok s \<and>
     (\<forall>e \<in> commits_of s. rs_ok (rc_writes e)) \<and>
     (\<forall>(tid, c) \<in> set (oc_txns s). ctx_ok c \<and> covered_since (commits_of s) (oc_store s) (tx_snapshotTs c)) \<and>
     covered_since (commits_of s) (oc_store s) (last_committed s)"

lemma occ_invD:
  assumes "occ_inv s"
  shows "ds_ok (oc_store s)" "index_sound (oc_store s)" "jsmap_ok (oc_txns s)" "refs_ok (oc_writer s)"
    "refs (oc_writer s) ts = txn_count s ts" "clock_ok s" "e \<in> commits_of s \<Longrightarrow> rs_ok (rc_writes e)"
    "map_of (oc_txns s) tid = Some c \<Longrightarrow> ctx_ok c \<and> covered_since (commits_of s) (oc_store s) (tx_snapshotTs c)"
    "covered_since (commits_of s) (oc_store s) (last_committed s)"
  using assms map_of_SomeD[of "oc_txns s" tid c] unfolding occ_inv_def by auto

lemma occ_inv_init: "occ_inv (occ_init shardId)"
  by (simp add: occ_inv_def occ_init_def ds_ok_empty index_sound_def newWriter_def newOracle_def refs_ok_def refs_def
      count_at_def clock_agrees_def ring_and_def covered_since_def) (simp add: ds_empty_def maxTimestamp_def)

lemma set_update: "jsmap_ok m \<Longrightarrow> map_of m k \<noteq> None \<Longrightarrow> x \<in> set (AList.update k v m) \<Longrightarrow> x = (k, v) \<or> x \<in> set m"
  by (cases x) (auto simp: jsmap_in_set_iff split: if_splits)

lemma length_filter_update:
  "map_of m k = Some v \<Longrightarrow> P (k, v') = P (k, v) \<Longrightarrow> length (filter P (AList.update k v' m)) = length (filter P m)"
  by (induction m) (auto split: if_splits)

lemma length_filter_delete:
  assumes "jsmap_ok m" "map_of m k = Some v"
  shows "int (length (filter P (AList.delete k m))) = int (length (filter P m)) - (if P (k, v) then 1 else 0)"
  using assms
proof (induction m)
  case (Cons x m)
  show ?case
  proof (cases "fst x = k")
    case True
    then have "AList.delete k m = m" using Cons.prems(1) by (auto simp: jsmap_ok_def delete_id)
    then show ?thesis using Cons.prems(2) True by (cases x) auto
  next
    case False
    then show ?thesis using Cons by (cases x) (auto simp: jsmap_ok_def)
  qed
qed simp

lemma set_delete_sub: "set (AList.delete k m) \<subseteq> set m"
  by (induction m) auto

lemma occ_inv_begin:
  assumes "occ_inv s" "map_of (oc_txns s) tid = None" "ts = last_committed s"
  shows "occ_inv (s\<lparr>oc_writer := retain ts (oc_writer s), oc_txns := (tid, newCtx ts shardId limits) # oc_txns s\<rparr>)"
proof -
  have "tid \<notin> fst ` set (oc_txns s)" using assms(2) by (simp add: map_of_eq_None_iff)
  then show ?thesis
    using assms(1,3) unfolding occ_inv_def
    by (simp add: count_at_def jsmap_ok_def ctx_ok_new) (simp add: newCtx_def)
qed

lemma occ_inv_op:
  assumes "occ_inv s" "map_of (oc_txns s) tid = Some c" "ctx_step (oc_store s) c c'"
  shows "occ_inv (s\<lparr>oc_txns := AList.update tid c' (oc_txns s)\<rparr>)"
proof -
  have c: "ctx_ok c'" "tx_snapshotTs c' = tx_snapshotTs c" "covered_since (commits_of s) (oc_store s) (tx_snapshotTs c')"
    using ctx_step_ok[OF assms(3)] occ_invD(8)[OF assms(1,2)] by simp_all
  have "\<forall>(t, x) \<in> set (AList.update tid c' (oc_txns s)). ctx_ok x \<and> covered_since (commits_of s) (oc_store s) (tx_snapshotTs x)"
    using set_update[OF occ_invD(3)[OF assms(1)]] assms(1,2) c unfolding occ_inv_def by fastforce
  moreover have "length (filter (\<lambda>x. tx_snapshotTs (snd x) = ts) (AList.update tid c' (oc_txns s))) =
      length (filter (\<lambda>x. tx_snapshotTs (snd x) = ts) (oc_txns s))" for ts
    using length_filter_update[OF assms(2)] c(2) by simp
  ultimately show ?thesis
    using assms(1) unfolding occ_inv_def by (simp add: count_at_def)
qed

lemma occ_inv_land:
  assumes "occ_inv s" "map_of (oc_txns s) tid = Some c" "oc_inflight s = None" "tx_staged c \<noteq> []" "disciplined (oc_store s) c"
    and land: "commit_land guards (sw_recentCommits (oc_writer s)) c (tx_snapshotTs c) (tx_shardId c) meta (oc_store s) = Inr (entries, ts, st')"
  shows "occ_inv (s\<lparr>oc_store := st', oc_inflight := Some (tid, \<lparr>rc_ts = ts, rc_writes = tx_writeRanges c\<rparr>)\<rparr>)"
proof -
  note D = occ_invD[OF assms(1)]
  note sp = commit_land_spec[OF D(1) assms(4) land]
  have cok: "ctx_ok c" using D(8)[OF assms(2)] by simp
  have E: "commits_of (s\<lparr>oc_store := st', oc_inflight := Some (tid, \<lparr>rc_ts = ts, rc_writes = tx_writeRanges c\<rparr>)\<rparr>) =
      insert \<lparr>rc_ts = ts, rc_writes = tx_writeRanges c\<rparr> (commits_of s)"
    using assms(3) by (simp add: ring_and_def)
  note cov = covered_since_land[OF D(1) _ assms(4,5) cok land]
  have "\<forall>(t, x) \<in> set (oc_txns s). ctx_ok x \<and> covered_since (insert \<lparr>rc_ts = ts, rc_writes = tx_writeRanges c\<rparr> (commits_of s)) st' (tx_snapshotTs x)"
    using cov assms(1) unfolding occ_inv_def by fastforce
  moreover have "last_committed s < ts" using D(6) assms(3) sp(3) by (simp add: clock_agrees_def)
  moreover have "rs_ok (tx_writeRanges c)" using cok by (simp add: ctx_ok_def)
  ultimately show ?thesis
    using D cov[OF D(9)] sp(2,4) index_sound_land[OF D(1,2) assms(4,5) land] unfolding occ_inv_def E
    by (simp add: clock_agrees_def)
qed

lemma occ_inv_drop:
  assumes "occ_inv s" "map_of (oc_txns s) tid = Some c" "refs w = refs (oc_writer s)" "refs_ok w" "sw_oracle w = sw_oracle (oc_writer s)"
    and "sw_recentCommits w = sw_recentCommits (oc_writer s)"
  shows "occ_inv (s\<lparr>oc_writer := release (tx_snapshotTs c) w, oc_txns := AList.delete tid (oc_txns s)\<rparr>)"
proof -
  have "1 \<le> txn_count s (tx_snapshotTs c)"
  proof -
    have "(tid, c) \<in> set (filter (\<lambda>x. tx_snapshotTs (snd x) = tx_snapshotTs c) (oc_txns s))" using map_of_SomeD[OF assms(2)] by simp
    then have "0 < length (filter (\<lambda>x. tx_snapshotTs (snd x) = tx_snapshotTs c) (oc_txns s))" by (rule length_pos_if_in_set)
    then show ?thesis by (simp add: count_at_def Suc_le_eq)
  qed
  then have "refs (release (tx_snapshotTs c) w) ts = txn_count (s\<lparr>oc_writer := release (tx_snapshotTs c) w, oc_txns := AList.delete tid (oc_txns s)\<rparr>) ts" for ts
    using length_filter_delete[OF occ_invD(3)[OF assms(1)] assms(2), of "\<lambda>x. tx_snapshotTs (snd x) = ts"]
      refs_release[OF assms(4), of "tx_snapshotTs c"] occ_invD(5)[OF assms(1)] assms(3)
    by (auto simp: count_at_def)
  moreover have "set (AList.delete tid (oc_txns s)) \<subseteq> set (oc_txns s)" by (rule set_delete_sub)
  ultimately show ?thesis
    using assms(1,4,5,6) unfolding occ_inv_def by auto
qed

lemma commit_publish_parts:
  "sw_oracle (commit_publish (\<lambda>_ w. w) writes ts w) = Doc_Store.publishCommitted ts (sw_oracle w)"
  "refs_ok w \<Longrightarrow> 0 < refs w s \<Longrightarrow> e \<in> insert \<lparr>rc_ts = ts, rc_writes = writes\<rparr> (set (sw_recentCommits w)) \<Longrightarrow> s < rc_ts e \<Longrightarrow>
    e \<in> set (sw_recentCommits (commit_publish (\<lambda>_ w. w) writes ts w))"
  "set (sw_recentCommits (commit_publish (\<lambda>_ w. w) writes ts w)) \<subseteq> insert \<lparr>rc_ts = ts, rc_writes = writes\<rparr> (set (sw_recentCommits w))"
proof -
  let ?w3 = "w\<lparr>sw_recentCommits := sw_recentCommits w @ [\<lparr>rc_ts = ts, rc_writes = writes\<rparr>],
    sw_oracle := Doc_Store.publishCommitted ts (sw_oracle w)\<rparr>"
  have p: "commit_publish (\<lambda>_ w. w) writes ts w = prune ?w3" by (simp add: commit_publish_def Let_def)
  have r: "refs ?w3 = refs w" "refs_ok ?w3 = refs_ok w" by (simp_all add: refs_def refs_ok_def fun_eq_iff)
  show "sw_oracle (commit_publish (\<lambda>_ w. w) writes ts w) = Doc_Store.publishCommitted ts (sw_oracle w)" by (simp add: p)
  show "set (sw_recentCommits (commit_publish (\<lambda>_ w. w) writes ts w)) \<subseteq> insert \<lparr>rc_ts = ts, rc_writes = writes\<rparr> (set (sw_recentCommits w))"
    unfolding p prune_ring by auto
  assume "refs_ok w" "0 < refs w s" and e: "e \<in> insert \<lparr>rc_ts = ts, rc_writes = writes\<rparr> (set (sw_recentCommits w))" "s < rc_ts e"
  then have "minActiveSnapshot ?w3 \<le> s" using minActiveSnapshot_le[of ?w3 s] r by simp
  then have "minActiveSnapshot ?w3 < rc_ts e" using e(2) by (rule le_less_trans)
  then show "e \<in> set (sw_recentCommits (commit_publish (\<lambda>_ w. w) writes ts w))" unfolding p prune_ring using e(1) by auto
qed

lemma covered_since_top: "ds_ok st \<Longrightarrow> maxTimestamp st \<le> s \<Longrightarrow> covered_since E st s"
  using maxTimestamp_ge[of _ st] unfolding covered_since_def ds_ok_def by (meson leD le_less_trans order_trans)

lemma occ_inv_publish:
  assumes "occ_inv s" "oc_inflight s = Some (tid, rc)" "map_of (oc_txns s) tid = Some c"
  shows "occ_inv (s\<lparr>oc_writer := commit_publish (\<lambda>_ w. w) (rc_writes rc) (rc_ts rc) (oc_writer s), oc_inflight := None\<rparr>)"
proof -
  let ?w = "commit_publish (\<lambda>_ w. w) (rc_writes rc) (rc_ts rc) (oc_writer s)"
  note D = occ_invD[OF assms(1)]
  have rc: "\<lparr>rc_ts = rc_ts rc, rc_writes = rc_writes rc\<rparr> = rc" by simp
  have E: "commits_of s = insert rc (set (sw_recentCommits (oc_writer s)))" using assms(2) by (simp add: ring_and_def)
  note P = commit_publish_parts[where writes = "rc_writes rc" and ts = "rc_ts rc" and w = "oc_writer s", unfolded rc]
  have hook: "hook_balanced (\<lambda>_ w. w)" by (simp add: hook_balanced_def)
  have top: "rc_ts rc = maxTimestamp (oc_store s)" "last_committed s < rc_ts rc"
    using D(6) assms(2) by (simp_all add: clock_agrees_def)
  have last': "or_lastCommitted (sw_oracle ?w) = maxTimestamp (oc_store s)" unfolding P(1) using top by simp
  have cov: "covered_since (set (sw_recentCommits ?w)) (oc_store s) (tx_snapshotTs x)" if "(t, x) \<in> set (oc_txns s)" for t x
  proof -
    have "0 < length (filter (\<lambda>y. tx_snapshotTs (snd y) = tx_snapshotTs x) (oc_txns s))"
      by (rule length_pos_if_in_set[of "(t, x)"]) (use that in simp)
    then have pos: "0 < refs (oc_writer s) (tx_snapshotTs x)" unfolding D(5) count_at_def by simp
    have "covered_since (commits_of s) (oc_store s) (tx_snapshotTs x)" using assms(1) that unfolding occ_inv_def by auto
    then show ?thesis using P(2)[OF D(4) pos] unfolding covered_since_def E by metis
  qed
  have "covered_since (set (sw_recentCommits ?w)) (oc_store s) (or_lastCommitted (sw_oracle ?w))"
    using covered_since_top[OF D(1)] last' by simp
  moreover have "\<forall>e \<in> set (sw_recentCommits ?w). rs_ok (rc_writes e)" using P(3) D(7) unfolding E by blast
  ultimately show ?thesis
    using D(1-6) cov last' assms(1) commit_publish_frame[OF hook, of "rc_writes rc" "rc_ts rc" "oc_writer s"]
    unfolding occ_inv_def by (auto simp: ring_and_def clock_agrees_def)
qed

lemma occ_inv_step: "occ_step guards s s' \<Longrightarrow> occ_inv s \<Longrightarrow> occ_inv s'"
proof (induction rule: occ_step.induct)
  case (occ_begin s tid ts shardId limits)
  then show ?case by (intro occ_inv_begin) auto
next
  case (occ_op s tid c c')
  then show ?case by (intro occ_inv_op) auto
next
  case (occ_land s tid c meta entries ts st')
  then show ?case by (intro occ_inv_land) auto
next
  case (occ_publish s tid rc c)
  note i = occ_inv_publish[OF occ_publish.prems occ_publish.hyps]
  show ?case using occ_inv_drop[OF i, of tid c "commit_publish (\<lambda>_ w. w) (rc_writes rc) (rc_ts rc) (oc_writer s)"]
      occ_publish.hyps(2) occ_invD(4)[OF i] by simp
next
  case (occ_leave s tid c)
  then show ?case using occ_inv_drop[OF occ_leave.prems occ_leave.hyps(1) refl] occ_invD(4)[OF occ_leave.prems] by simp
qed

lemma occ_inv_reachable: "occ_reachable guards shardId s \<Longrightarrow> occ_inv s"
  by (induction rule: occ_reachable.induct) (auto intro: occ_inv_init occ_inv_step)

section \<open>A committing transaction's reads are current\<close>

lemma get_current:
  assumes "\<forall>x \<in> set (ds_documents st). s < dr_ts x \<longrightarrow> \<not> (dr_table x = encodeStorageTableId (tableNumber i) \<and> dr_iid x = internalId i)"
  shows "ds_get st i (Some s) = ds_get st i None"
proof -
  have "doc_rows st (encodeStorageTableId (tableNumber i)) (internalId i) (Some s) =
      doc_rows st (encodeStorageTableId (tableNumber i)) (internalId i) None"
    using assms by (auto simp: doc_rows_def visible_def not_less[symmetric] intro!: filter_cong)
  then show ?thesis by (simp add: ds_get_def)
qed

lemma get_top: "ds_get st i (Some (maxTimestamp st)) = ds_get st i None"
  by (simp add: ds_get_def doc_rows_latest)

lemma scan_current:
  assumes "ds_ok st" "index_sound st"
    and clean: "\<forall>r \<in> set (ds_indexes st). s < ir_ts r \<longrightarrow> \<not> (ir_index r = ix \<and> keyInInterval (ir_key r) iv)"
  shows "index_scan st ix tb (maxTimestamp st) iv order None = index_scan st ix tb s iv order None"
proof -
  have le: "ir_ts r \<le> maxTimestamp st" if "r \<in> set (ds_indexes st)" for r using that assms(1) by (simp add: ds_ok_def)
  have "(ir_index r = ix \<and> keyInInterval (ir_key r) iv \<and> ir_ts r \<le> maxTimestamp st) \<longleftrightarrow>
      (ir_index r = ix \<and> keyInInterval (ir_key r) iv \<and> ir_ts r \<le> s)" if "r \<in> set (ds_indexes st)" for r
    using clean that le[OF that] by (cases "s < ir_ts r") auto
  then have "filter (\<lambda>r. ir_index r = ix \<and> keyInInterval (ir_key r) iv \<and> ir_ts r \<le> maxTimestamp st) (ds_indexes st) =
      filter (\<lambda>r. ir_index r = ix \<and> keyInInterval (ir_key r) iv \<and> ir_ts r \<le> s) (ds_indexes st)"
    by (intro filter_cong) auto
  then have rows: "scan_rows st ix (maxTimestamp st) iv order = scan_rows st ix s iv order" by (simp add: scan_rows_def)
  have "resolve_row st (maxTimestamp st) r = resolve_row st s r" if r: "r \<in> set (scan_rows st ix s iv order)" for r
  proof (cases "ir_deleted r \<or> ir_doc r = None")
    case False
    then obtain tb0 iid where d: "ir_doc r = Some (tb0, iid)" "\<not> ir_deleted r" by auto
    note ri = scan_rows_in[OF r]
    have "ds_get st \<lparr>tableNumber = tn, internalId = iid\<rparr> (Some s) = ds_get st \<lparr>tableNumber = tn, internalId = iid\<rparr> None"
      if "decodeStorageTableId tb0 = Inr tn" for tn
    proof (rule get_current, intro ballI impI notI)
      fix x assume x: "x \<in> set (ds_documents st)" "s < dr_ts x"
        "dr_table x = encodeStorageTableId (tableNumber \<lparr>tableNumber = tn, internalId = iid\<rparr>) \<and> dr_iid x = internalId \<lparr>tableNumber = tn, internalId = iid\<rparr>"
      then have "ir_doc r = Some (dr_table x, dr_iid x)" using d that decodeStorageTableId_iff by auto
      then obtain r' where r': "r' \<in> set (ds_indexes st)" "ir_index r' = ir_index r" "ir_key r' = ir_key r" "ir_ts r < ir_ts r'"
        using assms(2) ri d x(1,2) unfolding index_sound_def by (meson le_less_trans)
      have "ir_ts r' \<le> s" using clean r' ri by (metis not_le)
      then show False using r r' ri
        by (auto simp: scan_rows_def Let_def list_all_iff split: if_splits)
    qed
    then show ?thesis by (cases "decodeStorageTableId tb0") (simp_all add: resolve_row_def d get_top)
  qed (auto simp: resolve_row_def split: bool.splits option.splits prod.splits)
  then have "scan_items st (maxTimestamp st) rows = scan_items st s rows" if "set rows \<subseteq> set (scan_rows st ix s iv order)" for rows
    using that by (induction rows) (auto simp: scan_items_Cons split: sum.splits option.splits)
  then show ?thesis unfolding index_scan_def rows by simp
qed

definition index_consistent :: "index_spec \<Rightarrow> bool" where
  "index_consistent idx \<longleftrightarrow> is_indexId idx = encodeStorageIndexId (is_tableNumber idx) (is_index idx)"

lemma index_keyspace_query: "index_consistent idx \<Longrightarrow> index_keyspace (is_indexId idx) = query_keyspace idx"
  by (simp add: index_consistent_def index_keyspace_def query_keyspace_def decodeStorageIndexId_def encodeStorageIndexId_def
      decodeStorageTableId_def)

lemma query_current:
  assumes "ds_ok st" "index_sound st" "index_consistent (q_index q)" "collect st q s None = Inr r"
    and sub: "set (rs_toArray (cr_readSet r)) \<subseteq> set (rs_toArray reads)"
    and clean: "\<forall>x \<in> set (ds_indexes st). s < ir_ts x \<longrightarrow> \<not> covers reads (index_keyspace (ir_index x)) (ir_key x)"
  shows "collect st q (maxTimestamp st) None = Inr r"
proof -
  have ks: "keyspace rng = query_keyspace (q_index q)" if "rng \<in> set (rs_toArray (cr_readSet r))" for rng
    using that assms(4) by (auto simp: collect_def or_default_def res_bind_Inr_iff interval_range_def consumedRange_def split: if_splits option.splits)
  have "scan_range st q (maxTimestamp st) rng = scan_range st q s rng" if rng: "rng \<in> set (rs_toArray (cr_readSet r))" for rng
    unfolding scan_range_def scan_of_def
  proof (rule scan_current[OF assms(1,2)], intro ballI impI notI)
    fix x assume x: "x \<in> set (ds_indexes st)" "s < ir_ts x"
      "ir_index x = is_indexId (q_index q) \<and> keyInInterval (ir_key x) \<lparr>iv_start = start rng, iv_end = end_of rng\<rparr>"
    then have "(index_keyspace (ir_index x), ir_key x) \<in> range_keys rng"
      using ks[OF rng] index_keyspace_query[OF assms(3)] by (simp add: range_keys_def keyInRange_iff keyInInterval_iff)
    then have "covers reads (index_keyspace (ir_index x)) (ir_key x)" using rng sub unfolding covers_def by blast
    then show False using clean x(1,2) by blast
  qed
  then have "same_reads st s st (maxTimestamp st) q (cr_readSet r)" by (simp add: same_reads_def)
  then show ?thesis by (rule collect_same_reads[OF assms(1,1,4)])
qed


definition sample_id :: internal_document_id where
  "sample_id = \<lparr>tableNumber = 1, internalId = []\<rparr>"

definition sample_ctx :: txn_ctx where
  "sample_ctx = fst (ctx_put sample_id [] (fst (ctx_get ds_empty sample_id (newCtx 0 DEFAULT_SHARD DEFAULT_HEADROOM))))"

lemma sample_reachable:
  "\<exists>s. occ_reachable [] DEFAULT_SHARD s \<and> map_of (oc_txns s) 0 = Some sample_ctx \<and> oc_inflight s = None \<and>
     oc_store s = ds_empty \<and> sw_recentCommits (oc_writer s) = []"
proof -
  let ?s0 = "occ_init DEFAULT_SHARD" and ?c0 = "newCtx 0 DEFAULT_SHARD DEFAULT_HEADROOM"
  let ?c1 = "fst (ctx_get ds_empty sample_id ?c0)"
  let ?s1 = "?s0\<lparr>oc_writer := retain 0 (oc_writer ?s0), oc_txns := (0, ?c0) # oc_txns ?s0\<rparr>"
  let ?s2 = "?s1\<lparr>oc_txns := AList.update 0 ?c1 (oc_txns ?s1)\<rparr>"
  let ?s3 = "?s2\<lparr>oc_txns := AList.update 0 sample_ctx (oc_txns ?s2)\<rparr>"
  have i: "oc_txns ?s0 = []" "oc_inflight ?s0 = None" "oc_store ?s0 = ds_empty" "last_committed ?s0 = 0"
    "sw_recentCommits (oc_writer ?s0) = []"
    by (simp_all add: occ_init_def newWriter_def newOracle_def)
  have "occ_step [] ?s0 ?s1" by (rule occ_begin) (simp_all add: i)
  moreover have "occ_step [] ?s1 ?s2" by (rule occ_op[of _ _ ?c0]) (simp_all add: i step_get)
  moreover have "occ_step [] ?s2 ?s3"
    by (rule occ_op[of _ _ ?c1]) (simp_all add: i sample_ctx_def step_put)
  ultimately have "occ_reachable [] DEFAULT_SHARD ?s3" by (meson reach_init reach_step)
  then show ?thesis by (intro exI[of _ ?s3]) (simp add: i)
qed


end
