(* ===== verification/Differ.thy ===== *)
theory Differ
  imports Transactor "HOL-Library.Multiset"
begin

text \<open>
  The row differ of the reactive tier, \<^verbatim>\<open>packages/sync/src/change.ts\<close>, \<^verbatim>\<open>classify.ts\<close> and
  \<^verbatim>\<open>commit-differ.ts\<close>: the changes a commit implies for a subscription to one document or to one
  index range, computed from the commit's written documents instead of running the query again.
\<close>

section \<open>Changes and the drift checksum (change.ts)\<close>

datatype change =
    ChAdd jsstring json int "jsstring option"
  | ChRemove jsstring
  | ChEdit jsstring json int "jsstring option"

record row_version =
  rv_row :: json
  rv_ts :: int
  rv_orderKey :: "jsstring option"

type_synonym row_map = "(jsstring, row_version) jsmap"

fun apply_change :: "change \<Rightarrow> row_map \<Rightarrow> row_map" where
  "apply_change (ChRemove key) out = AList.delete key out"
| "apply_change (ChAdd key row ts ok) out = AList.update key \<lparr>rv_row = row, rv_ts = ts, rv_orderKey = ok\<rparr> out"
| "apply_change (ChEdit key row ts ok) out = AList.update key \<lparr>rv_row = row, rv_ts = ts, rv_orderKey = ok\<rparr> out"

definition applyChanges :: "row_map \<Rightarrow> change list \<Rightarrow> row_map" where
  "applyChanges rows changes = fold apply_change changes rows"

definition drift_mix :: "32 word \<Rightarrow> 32 word \<Rightarrow> 32 word" where
  "drift_mix b h = (h XOR b) * 0x01000193"

definition mix_chars :: "jsstring \<Rightarrow> 32 word \<Rightarrow> 32 word" where
  "mix_chars s h = fold (\<lambda>c. drift_mix (ucast (c AND 0xff))) s h"

definition row_hash :: "jsstring \<times> row_version \<Rightarrow> 32 word" where
  "row_hash e =
     (let h = mix_chars (fst e) 0x811c9dc5;
          h = drift_mix 0x00 h;
          h = mix_chars (int_dec (rv_ts (snd e))) h;
          h = drift_mix 0x00 h
      in mix_chars (case rv_orderKey (snd e) of None \<Rightarrow> [] | Some ok \<Rightarrow> ok) h)"

definition hex8 :: "32 word \<Rightarrow> jsstring" where
  "hex8 w = map (\<lambda>i. hex_digit (unat (drop_bit (4 * i) w AND 0xf))) [7, 6, 5, 4, 3, 2, 1, 0]"

definition driftChecksum :: "row_map \<Rightarrow> jsstring" where
  "driftChecksum rows = hex8 (fold (\<lambda>e acc. acc XOR row_hash e) rows 0)"

section \<open>Classification (classify.ts)\<close>

record by_id_read =
  bi_keyspace :: jsstring
  bi_key :: jsstring
  bi_docId :: jsstring

definition starts_with :: "jsstring \<Rightarrow> jsstring \<Rightarrow> bool" where
  "starts_with p s = (take (length p) s = p)"

definition isPointRange :: "serialized_key_range \<Rightarrow> bool result" where
  "isPointRange r =
     (if \<not> starts_with (js ''table:'') (s_keyspace r) then Inr False
      else if s_end r = None then Inr False
      else res_bind (deserializeKeyRange r) (\<lambda>k.
             Inr (case end_of k of None \<Rightarrow> False | Some e \<Rightarrow> compareKeyBytes e (keySuccessor (start k)) = CEq)))"

definition singleDocId :: "jvalue \<Rightarrow> jsstring option" where
  "singleDocId value =
     (case value of
        VNull \<Rightarrow> Some []
      | VObj es \<Rightarrow> (case map_of es (js ''_id'') of Some (VStr i) \<Rightarrow> Some i | _ \<Rightarrow> None)
      | _ \<Rightarrow> None)"

definition classifyByIdRead :: "jvalue \<Rightarrow> serialized_key_range list \<Rightarrow> by_id_read option result" where
  "classifyByIdRead value readRanges =
     (case readRanges of
        [r] \<Rightarrow> res_bind (isPointRange r) (\<lambda>point.
          Inr (if \<not> point then None
               else map_option (\<lambda>docId. \<lparr>bi_keyspace = s_keyspace r, bi_key = s_start r, bi_docId = docId\<rparr>) (singleDocId value)))
      | _ \<Rightarrow> Inr None)"

record page_meta =
  pm_nextCursor :: "jsstring option"
  pm_hasMore :: bool
  pm_scanCapped :: bool

record range_read =
  rr_keyspace :: jsstring
  rr_bounds :: serialized_key_range
  rr_filters :: "filter_expr list"
  rr_order :: scan_order
  rr_fields :: "jsstring list"
  rr_pageMeta :: "page_meta option"

definition rangeReadFromDiffable :: "range_read \<Rightarrow> range_read" where
  "rangeReadFromDiffable d =
     \<lparr>rr_keyspace = rr_keyspace d, rr_bounds = rr_bounds d, rr_filters = rr_filters d, rr_order = rr_order d,
      rr_fields = rr_fields d, rr_pageMeta = None\<rparr>"

definition pageReadFromDiffable :: "range_read \<Rightarrow> page_meta \<Rightarrow> range_read" where
  "pageReadFromDiffable d pageMeta =
     \<lparr>rr_keyspace = rr_keyspace d, rr_bounds = rr_bounds d, rr_filters = rr_filters d, rr_order = rr_order d,
      rr_fields = rr_fields d, rr_pageMeta = Some pageMeta\<rparr>"

section \<open>The differ (commit-differ.ts)\<close>

definition byIdChangesFor :: "by_id_read \<Rightarrow> row_map \<Rightarrow> written_doc option \<Rightarrow> change list \<times> row_map" where
  "byIdChangesFor byId prev wd =
     (case wd of
        None \<Rightarrow> ([], prev)
      | Some wd \<Rightarrow>
          (let change = (case wd_newRow wd of
                 None \<Rightarrow> ChRemove (wd_docId wd)
               | Some row \<Rightarrow>
                   if \<not> wd_wasPresent wd \<or> map_of prev (wd_docId wd) = None
                   then ChAdd (wd_docId wd) row (wd_ts wd) None
                   else ChEdit (wd_docId wd) row (wd_ts wd) None)
           in ([change], applyChanges prev [change])))"

definition byIdResetChanges :: "jsstring \<Rightarrow> json \<Rightarrow> int \<Rightarrow> change list \<times> row_map" where
  "byIdResetChanges docId row ts =
     (if row = JNull then ([], [])
      else ([ChAdd docId row ts None], [(docId, \<lparr>rv_row = row, rv_ts = ts, rv_orderKey = None\<rparr>)]))"

definition toBase64 :: "bytes \<Rightarrow> jsstring" where
  "toBase64 bs = s_start (serializeKeyRange (mk_range [] bs None))"

definition fromBase64 :: "jsstring \<Rightarrow> bytes result" where
  "fromBase64 b64 = res_bind (deserializeKeyRange \<lparr>s_keyspace = [], s_start = b64, s_end = None\<rparr>) (\<lambda>k. Inr (start k))"

text \<open>A JSON row used as an engine document is the same JavaScript object, wire wrappers and all.\<close>

fun json_value :: "json \<Rightarrow> jvalue" where
  "json_value JNull = VNull"
| "json_value (JBool b) = VBool b"
| "json_value (JNum n) = VNum n"
| "json_value (JStr s) = VStr s"
| "json_value (JArr xs) = VArr (map json_value xs)"
| "json_value (JObj es) = VObj (map (\<lambda>(k, v). (k, json_value v)) es)"

definition json_doc :: "json \<Rightarrow> document" where
  "json_doc row = (case json_value row of VObj es \<Rightarrow> es | _ \<Rightarrow> [])"

definition orderKeyFor :: "range_read \<Rightarrow> json \<Rightarrow> jsstring result" where
  "orderKeyFor rng row = res_bind (extractIndexKey (json_doc row) (rr_fields rng)) (\<lambda>key. Inr (toBase64 key))"

definition inBounds :: "range_read \<Rightarrow> jsstring \<Rightarrow> bool result" where
  "inBounds rng orderKeyB64 =
     res_bind (deserializeKeyRange (rr_bounds rng)) (\<lambda>bounds.
     res_bind (fromBase64 orderKeyB64) (\<lambda>key. Inr (keyInRange key bounds)))"

definition passesFilters :: "range_read \<Rightarrow> json \<Rightarrow> bool" where
  "passesFilters rng row = list_all (evaluateFilter (json_doc row)) (rr_filters rng)"

text \<open>\<open>docIdOf\<close> is \<^verbatim>\<open>String(row._id)\<close>.\<close>

fun range_reset :: "(json \<Rightarrow> jsstring) \<Rightarrow> range_read \<Rightarrow> json list \<Rightarrow> int \<Rightarrow> change list \<Rightarrow> row_map \<Rightarrow> (change list \<times> row_map) result" where
  "range_reset docIdOf rng [] ts changes next_rows = Inr (changes, next_rows)"
| "range_reset docIdOf rng (row # rows) ts changes next_rows =
     res_bind (orderKeyFor rng row) (\<lambda>orderKey.
       range_reset docIdOf rng rows ts (changes @ [ChAdd (docIdOf row) row ts (Some orderKey)])
         (AList.update (docIdOf row) \<lparr>rv_row = row, rv_ts = ts, rv_orderKey = Some orderKey\<rparr> next_rows))"

definition rangeResetChanges :: "(json \<Rightarrow> jsstring) \<Rightarrow> range_read \<Rightarrow> json list \<Rightarrow> int \<Rightarrow> (change list \<times> row_map) result" where
  "rangeResetChanges docIdOf rng orderedDocs ts = range_reset docIdOf rng orderedDocs ts [] []"

definition range_change :: "range_read \<Rightarrow> row_map \<Rightarrow> written_doc \<Rightarrow> change list result" where
  "range_change rng prev wd =
     (let key = wd_docId wd; before = (map_of prev key \<noteq> None)
      in case wd_newRow wd of
           None \<Rightarrow> Inr (if before then [ChRemove key] else [])
         | Some row \<Rightarrow>
             res_bind (orderKeyFor rng row) (\<lambda>orderKey.
             res_bind (inBounds rng orderKey) (\<lambda>inside.
               let after = (inside \<and> passesFilters rng row)
               in Inr (if \<not> before \<and> after then [ChAdd key row (wd_ts wd) (Some orderKey)]
                       else if before \<and> after then [ChEdit key row (wd_ts wd) (Some orderKey)]
                       else if before \<and> \<not> after then [ChRemove key] else []))))"

definition rangeChangesFor :: "range_read \<Rightarrow> row_map \<Rightarrow> written_doc list \<Rightarrow> (change list \<times> row_map) result" where
  "rangeChangesFor rng prev writtenDocs =
     res_bind (res_map (range_change rng prev) writtenDocs) (\<lambda>cs. Inr (concat cs, applyChanges prev (concat cs)))"

section \<open>Both sides materialise the same rows\<close>

lemma applyChanges_simps [simp]:
  "applyChanges rows [] = rows" "applyChanges rows (c # cs) = applyChanges (apply_change c rows) cs"
  "applyChanges rows (cs @ ds) = applyChanges (applyChanges rows cs) ds"
  by (simp_all add: applyChanges_def)

lemma jsmap_ok_apply_change [simp]: "jsmap_ok rows \<Longrightarrow> jsmap_ok (apply_change c rows)"
  by (cases c) auto

lemma jsmap_ok_applyChanges [simp]: "jsmap_ok rows \<Longrightarrow> jsmap_ok (applyChanges rows cs)"
  by (induction cs arbitrary: rows) auto

lemma apply_change_cong: "map_of rows = map_of rows' \<Longrightarrow> map_of (apply_change c rows) = map_of (apply_change c rows')"
  by (cases c) (auto simp: fun_eq_iff)

lemma applyChanges_cong: "map_of rows = map_of rows' \<Longrightarrow> map_of (applyChanges rows cs) = map_of (applyChanges rows' cs)"
proof (induction cs arbitrary: rows rows')
  case (Cons c cs)
  show ?case using Cons.IH[OF apply_change_cong[OF Cons.prems]] by simp
qed simp

lemma driftChecksum_cong:
  assumes "jsmap_ok rows" "jsmap_ok rows'" "map_of rows = map_of rows'"
  shows "driftChecksum rows = driftChecksum rows'"
proof -
  have "e \<in> set rows \<longleftrightarrow> e \<in> set rows'" for e
    by (cases e) (simp only: jsmap_in_set_iff[OF assms(1)] jsmap_in_set_iff[OF assms(2)] assms(3))
  then have "set rows = set rows'" by blast
  moreover have "distinct rows" "distinct rows'" using assms(1,2) by (auto simp: jsmap_ok_def distinct_map)
  ultimately have "mset rows = mset rows'" by (simp add: set_eq_iff_mset_eq_distinct)
  then have "fold (\<lambda>e acc. acc XOR row_hash e) rows = fold (\<lambda>e acc. acc XOR row_hash e) rows'"
    by (intro fold_multiset_equiv) (auto simp: fun_eq_iff ac_simps xor.left_commute)
  then show ?thesis by (simp add: driftChecksum_def)
qed

text \<open>A server and a client that hold the same rows, in whatever iteration order, hold the same rows
  after applying the same changes, and compute the same drift checksum.\<close>

theorem diff_sides_agree:
  assumes "jsmap_ok server" "jsmap_ok client" "map_of server = map_of client"
  shows "map_of (applyChanges server cs) = map_of (applyChanges client cs) \<and>
    driftChecksum (applyChanges server cs) = driftChecksum (applyChanges client cs)"
  using applyChanges_cong[OF assms(3)] driftChecksum_cong assms by simp

theorem diff_sides_agree_witness:
  "driftChecksum (applyChanges [([97], \<lparr>rv_row = JNull, rv_ts = 1, rv_orderKey = None\<rparr>), ([98], \<lparr>rv_row = JNull, rv_ts = 2, rv_orderKey = None\<rparr>)]
       [ChRemove [99]]) =
   driftChecksum (applyChanges [([98], \<lparr>rv_row = JNull, rv_ts = 2, rv_orderKey = None\<rparr>), ([97], \<lparr>rv_row = JNull, rv_ts = 1, rv_orderKey = None\<rparr>)]
       [ChRemove [99]])"
  by (rule diff_sides_agree[THEN conjunct2]) (auto simp: jsmap_ok_def fun_eq_iff)

section \<open>A range diff is a re-run\<close>

text \<open>What a written document leaves of its row.\<close>

definition wd_effect :: "range_read \<Rightarrow> written_doc \<Rightarrow> row_version option \<Rightarrow> bool" where
  "wd_effect rng wd r =
     (case wd_newRow wd of
        None \<Rightarrow> r = None
      | Some row \<Rightarrow> (\<exists>ok inside. orderKeyFor rng row = Inr ok \<and> inBounds rng ok = Inr inside \<and>
          r = (if inside \<and> passesFilters rng row
               then Some \<lparr>rv_row = row, rv_ts = wd_ts wd, rv_orderKey = Some ok\<rparr> else None)))"

lemma range_change_step:
  assumes "range_change rng prev wd = Inr c" "map_of m (wd_docId wd) = map_of prev (wd_docId wd)"
  shows "wd_effect rng wd (map_of (applyChanges m c) (wd_docId wd))"
    and "k \<noteq> wd_docId wd \<Longrightarrow> map_of (applyChanges m c) k = map_of m k"
proof -
  have "wd_effect rng wd (map_of (applyChanges m c) (wd_docId wd)) \<and> (k \<noteq> wd_docId wd \<longrightarrow> map_of (applyChanges m c) k = map_of m k)"
  proof (cases "wd_newRow wd")
    case None
    then show ?thesis using assms by (auto simp: range_change_def wd_effect_def Let_def)
  next
    case (Some row)
    obtain ok inside where ok: "orderKeyFor rng row = Inr ok" "inBounds rng ok = Inr inside"
      using assms(1) by (auto simp: range_change_def Let_def Some res_bind_Inr_iff)
    let ?k = "wd_docId wd" and ?after = "inside \<and> passesFilters rng row"
    let ?rv = "\<lparr>rv_row = row, rv_ts = wd_ts wd, rv_orderKey = Some ok\<rparr>"
    have c: "c = (if ?after then [if map_of prev ?k = None then ChAdd ?k row (wd_ts wd) (Some ok) else ChEdit ?k row (wd_ts wd) (Some ok)]
        else if map_of prev ?k = None then [] else [ChRemove ?k])"
      using assms(1) by (auto simp: range_change_def Let_def Some ok)
    then have "map_of (applyChanges m c) = (map_of m)(?k := (if ?after then Some ?rv else None))"
      using assms(2) by (cases "map_of prev ?k = None"; cases ?after) (auto simp: fun_eq_iff)
    then show ?thesis using ok by (simp add: wd_effect_def Some)
  qed
  then show "wd_effect rng wd (map_of (applyChanges m c) (wd_docId wd))"
    and "k \<noteq> wd_docId wd \<Longrightarrow> map_of (applyChanges m c) k = map_of m k" by blast+
qed

lemma range_changes_spec:
  "res_map (range_change rng prev) wds = Inr cs \<Longrightarrow> distinct (map wd_docId wds) \<Longrightarrow>
   (\<forall>wd \<in> set wds. map_of m (wd_docId wd) = map_of prev (wd_docId wd)) \<Longrightarrow>
   (\<forall>k. k \<notin> wd_docId ` set wds \<longrightarrow> map_of (applyChanges m (concat cs)) k = map_of m k) \<and>
   (\<forall>wd \<in> set wds. wd_effect rng wd (map_of (applyChanges m (concat cs)) (wd_docId wd)))"
proof (induction wds arbitrary: cs m)
  case (Cons wd wds)
  obtain c cs' where c: "range_change rng prev wd = Inr c" "res_map (range_change rng prev) wds = Inr cs'" "cs = c # cs'"
    using Cons.prems(1) by (auto simp: res_bind_Inr_iff)
  note st = range_change_step[OF c(1), of m]
  have m: "map_of m (wd_docId wd) = map_of prev (wd_docId wd)" using Cons.prems(3) by simp
  have other: "\<forall>w \<in> set wds. wd_docId w \<noteq> wd_docId wd" using Cons.prems(2) by (auto simp: image_iff)
  have "\<forall>w \<in> set wds. map_of (applyChanges m c) (wd_docId w) = map_of prev (wd_docId w)"
    using st(2)[OF m] other Cons.prems(3) by simp
  from Cons.IH[OF c(2) _ this] show ?case using Cons.prems(2) st[OF m] c(3) by (auto simp: image_iff)
qed simp

text \<open>Documents that the wire form leaves as they are: no integers beyond doubles, no bytes, no
  non-finite numbers and no field name starting with a dollar sign.\<close>

fun json_plain :: "jvalue \<Rightarrow> bool" where
  "json_plain (VNum n) = f64_is_finite n"
| "json_plain (VBigInt _) = False"
| "json_plain (VBytes _) = False"
| "json_plain (VArr vs) = list_all json_plain vs"
| "json_plain (VObj es) = list_all (\<lambda>e. escapeKey (fst e) = fst e \<and> json_plain (snd e)) es"
| "json_plain _ = True"

lemma json_value_convexToJson: "value_ok v \<Longrightarrow> json_plain v \<Longrightarrow> json_value (convexToJson v) = v"
proof (induction v)
  case (VArr vs)
  then show ?case by (auto simp: list_all_iff intro!: map_idI)
next
  case (VObj es)
  have eq: "map (\<lambda>(k, v). (escapeKey k, convexToJson v)) es = map (\<lambda>(k, v). (k, convexToJson v)) es"
    using VObj.prems(2) by (auto simp: list_all_iff)
  have "obj_ok (map (\<lambda>(k, v). (escapeKey k, convexToJson v)) es)" using VObj.prems(1) by (intro obj_ok_escape) simp
  then have "convexToJson (VObj es) = JObj (map (\<lambda>(k, v). (k, convexToJson v)) es)"
    by (simp only: convexToJson.simps obj_from_ok eq)
  moreover have "map ((\<lambda>(k, v). (k, json_value v)) \<circ> (\<lambda>(k, v). (k, convexToJson v))) es = es"
    using VObj.prems VObj.IH by (intro map_idI) (fastforce simp: list_all_iff)
  ultimately show ?case by simp
qed simp_all

definition in_query :: "range_read \<Rightarrow> key_range \<Rightarrow> document \<Rightarrow> bool" where
  "in_query rng bounds doc \<longleftrightarrow>
     (\<exists>k. extractIndexKey doc (rr_fields rng) = Inr k \<and> keyInRange k bounds) \<and> list_all (evaluateFilter doc) (rr_filters rng)"

definition query_row :: "range_read \<Rightarrow> key_range \<Rightarrow> document option \<Rightarrow> json option" where
  "query_row rng bounds doc =
     (case doc of None \<Rightarrow> None | Some d \<Rightarrow> if in_query rng bounds d then Some (convexToJson (VObj d)) else None)"

lemma fromBase64_toBase64 [simp]: "fromBase64 (toBase64 bs) = Inr bs"
proof -
  have "\<lparr>s_keyspace = [], s_start = toBase64 bs, s_end = None\<rparr> = serializeKeyRange (mk_range [] bs None)"
    by (simp add: toBase64_def serializeKeyRange_def)
  then show ?thesis by (simp add: fromBase64_def)
qed

lemma wd_effect_query_row:
  assumes "deserializeKeyRange (rr_bounds rng) = Inr bounds" "wd_effect rng wd r"
    and "wd_newRow wd = map_option (\<lambda>d. convexToJson (VObj d)) doc"
    and "\<And>d. doc = Some d \<Longrightarrow> value_ok (VObj d) \<and> json_plain (VObj d)"
  shows "map_option rv_row r = query_row rng bounds doc"
    and "r = Some rv \<Longrightarrow> \<exists>d key. doc = Some d \<and> extractIndexKey d (rr_fields rng) = Inr key \<and> rv_orderKey rv = Some (toBase64 key)"
proof -
  have "map_option rv_row r = query_row rng bounds doc \<and>
      (r = Some rv \<longrightarrow> (\<exists>d key. doc = Some d \<and> extractIndexKey d (rr_fields rng) = Inr key \<and> rv_orderKey rv = Some (toBase64 key)))"
  proof (cases doc)
    case None
    then show ?thesis using assms(2,3) by (simp add: wd_effect_def query_row_def)
  next
    case (Some d)
    have jd: "json_doc (convexToJson (VObj d)) = d"
      using json_value_convexToJson[of "VObj d"] assms(4)[OF Some] unfolding json_doc_def by simp
    obtain ok inside where e: "orderKeyFor rng (convexToJson (VObj d)) = Inr ok" "inBounds rng ok = Inr inside"
      "r = (if inside \<and> passesFilters rng (convexToJson (VObj d))
            then Some \<lparr>rv_row = convexToJson (VObj d), rv_ts = wd_ts wd, rv_orderKey = Some ok\<rparr> else None)"
      using assms(2,3) Some unfolding wd_effect_def by (simp del: convexToJson.simps) blast
    obtain key where key: "extractIndexKey d (rr_fields rng) = Inr key" "ok = toBase64 key"
      using e(1) unfolding orderKeyFor_def jd by (auto simp: res_bind_Inr_iff)
    have "inside = keyInRange key bounds" using e(2) by (simp add: inBounds_def assms(1) key(2))
    then show ?thesis using key by (auto simp: e(3) Some query_row_def in_query_def passesFilters_def jd simp del: convexToJson.simps)
  qed
  then show "map_option rv_row r = query_row rng bounds doc"
    and "r = Some rv \<Longrightarrow> \<exists>d key. doc = Some d \<and> extractIndexKey d (rr_fields rng) = Inr key \<and> rv_orderKey rv = Some (toBase64 key)"
    by blast+
qed

text \<open>C11. If a range subscription holds exactly the rows its query matches, then after a commit the
  diff leaves it with exactly the rows the query would match now, each written row under its index
  key, provided the written documents are plain JSON on the wire.\<close>

theorem range_diff_is_rerun:
  assumes "deserializeKeyRange (rr_bounds rng) = Inr bounds"
    and "\<forall>k. map_option rv_row (map_of prev k) = query_row rng bounds (docs k)"
    and "distinct (map wd_docId wds)"
    and "\<forall>k. k \<notin> wd_docId ` set wds \<longrightarrow> docs' k = docs k"
    and "\<forall>wd \<in> set wds. wd_newRow wd = map_option (\<lambda>d. convexToJson (VObj d)) (docs' (wd_docId wd))"
    and "\<forall>wd \<in> set wds. \<forall>d. docs' (wd_docId wd) = Some d \<longrightarrow> value_ok (VObj d) \<and> json_plain (VObj d)"
    and "rangeChangesFor rng prev wds = Inr (changes, rows)"
  shows "(\<forall>k. map_option rv_row (map_of rows k) = query_row rng bounds (docs' k)) \<and> rows = applyChanges prev changes \<and>
    (\<forall>wd \<in> set wds. \<forall>rv. map_of rows (wd_docId wd) = Some rv \<longrightarrow>
       (\<exists>d key. docs' (wd_docId wd) = Some d \<and> extractIndexKey d (rr_fields rng) = Inr key \<and> rv_orderKey rv = Some (toBase64 key)))"
proof -
  obtain cs where cs: "res_map (range_change rng prev) wds = Inr cs" "changes = concat cs" "rows = applyChanges prev (concat cs)"
    using assms(7) by (auto simp: rangeChangesFor_def res_bind_Inr_iff)
  note sp = range_changes_spec[OF cs(1) assms(3), of prev, simplified, folded cs(3)]
  have eff: "map_option rv_row (map_of rows (wd_docId wd)) = query_row rng bounds (docs' (wd_docId wd))"
    "\<forall>rv. map_of rows (wd_docId wd) = Some rv \<longrightarrow>
       (\<exists>d key. docs' (wd_docId wd) = Some d \<and> extractIndexKey d (rr_fields rng) = Inr key \<and> rv_orderKey rv = Some (toBase64 key))"
    if "wd \<in> set wds" for wd
    using wd_effect_query_row[OF assms(1), of wd "map_of rows (wd_docId wd)" "docs' (wd_docId wd)"] sp assms(5,6) that by blast+
  have "map_option rv_row (map_of rows k) = query_row rng bounds (docs' k)" for k
    using eff(1) sp assms(2,4) by (cases "k \<in> wd_docId ` set wds") auto
  then show ?thesis using eff(2) cs by simp
qed

lemma obj_from_single [simp]: "obj_from [e] = [e]"
  by (rule obj_from_ok) (simp add: obj_ok_def)

definition sample_range :: range_read where
  "sample_range = \<lparr>rr_keyspace = js ''index:1:n'', rr_bounds = serializeKeyRange (mk_range (js ''index:1:n'') [] None), rr_filters = [],
     rr_order = Asc, rr_fields = [], rr_pageMeta = None\<rparr>"

definition sample_wd :: written_doc where
  "sample_wd = \<lparr>wd_key = js ''YQ=='', wd_keyspace = js ''table:1'', wd_docId = [97], wd_newRow = Some (convexToJson (VObj [([98], VBool True)])),
     wd_wasPresent = False, wd_ts = 7\<rparr>"

theorem range_diff_is_rerun_witness:
  "\<exists>changes rows. rangeChangesFor sample_range [] [sample_wd] = Inr (changes, rows) \<and>
     map_option rv_row (map_of rows [97]) = Some (JObj [([98], JBool True)])"
proof -
  let ?d = "[([98], VBool True)] :: document"
  have e: "escapeKey [98] = [98]" by (simp add: escapeKey_def)
  have c: "convexToJson (VObj ?d) = JObj [([98], JBool True)]" by (simp add: escapeKey_def)
  have jd: "json_doc (convexToJson (VObj ?d)) = ?d" by (simp only: c) (simp add: json_doc_def)
  have key: "extractIndexKey ?d [] = Inr (TAG_NUMBER # encodeFloat64 0 @ TAG_STRING # pushEscaped (utf8_encode []))"
    by (simp add: extractIndexKey_def key_tuple_def encodeIndexKey_def pushElement_def f64_neg_zero_def js_def)
  let ?key = "TAG_NUMBER # encodeFloat64 0 @ TAG_STRING # pushEscaped (utf8_encode [])"
  have wd: "wd_newRow sample_wd = Some (convexToJson (VObj ?d))" "wd_docId sample_wd = [97]"
    by (simp_all add: sample_wd_def del: convexToJson.simps)
  have ok: "orderKeyFor sample_range (convexToJson (VObj ?d)) = Inr (toBase64 ?key)"
    unfolding orderKeyFor_def jd by (simp add: sample_range_def key)
  have ib: "inBounds sample_range (toBase64 ?key) = Inr True"
    by (simp add: inBounds_def sample_range_def keyInRange_def compareKeyBytes_eq)
  have pf: "passesFilters sample_range row" for row by (simp add: passesFilters_def sample_range_def)
  have "range_change sample_range [] sample_wd = Inr [ChAdd [97] (convexToJson (VObj ?d)) (wd_ts sample_wd) (Some (toBase64 ?key))]"
    using ok ib pf by (simp add: range_change_def wd Let_def del: convexToJson.simps)
  then obtain changes rows where r: "rangeChangesFor sample_range [] [sample_wd] = Inr (changes, rows)"
    by (auto simp: rangeChangesFor_def simp del: convexToJson.simps)
  have v: "value_ok (VObj ?d)" "json_plain (VObj ?d)" by (simp_all add: obj_ok_def e)
  have "map_option rv_row (map_of rows [97]) =
      query_row sample_range (mk_range (js ''index:1:n'') [] None) (((\<lambda>_. None)([97 :: 16 word] := Some ?d)) [97])"
    by (rule range_diff_is_rerun[THEN conjunct1, rule_format, where docs = "\<lambda>_. None" and docs' = "(\<lambda>_. None)([97] := Some ?d)" and k = "[97]", OF _ _ _ _ _ _ r])
       (use v wd in \<open>simp_all add: sample_range_def query_row_def del: convexToJson.simps\<close>)
  then show ?thesis using r
    by (simp add: query_row_def in_query_def sample_range_def key keyInRange_def compareKeyBytes_eq c del: convexToJson.simps)
qed

text \<open>C37. The differ reads the wire form of a row as a document: where a field holds a 64-bit integer
  the diff cannot compute the row's place in an index on the field, and a filter on it that the
  document passes rejects the row.\<close>

theorem range_diff_misreads_int64:
  assumes "INT64_MIN \<le> i" "i \<le> INT64_MAX"
  shows "(\<exists>k. extractIndexKey [(js ''n'', VBigInt i)] [js ''n''] = Inr k) \<and>
    (rr_fields rng = [js ''n''] \<longrightarrow> orderKeyFor rng (convexToJson (VObj [(js ''n'', VBigInt i)])) =
       Inl (TypeError ''index key elements must be scalar values'')) \<and>
    evaluateFilter [(js ''n'', VBigInt i)] (FCompare OpEq (js ''n'') (VBigInt i)) \<and>
    (rr_filters rng = [FCompare OpEq (js ''n'') (VBigInt i)] \<longrightarrow>
       \<not> passesFilters rng (convexToJson (VObj [(js ''n'', VBigInt i)])))"
proof -
  have c: "json_doc (convexToJson (VObj [(js ''n'', VBigInt i)])) =
      [(js ''n'', VObj [(tag_integer, VStr (bytesToBase64 (int64ToBytes i)))])]"
    by (simp add: escapeKey_def js_def json_doc_def)
  have p: "evaluateFieldPath [(js ''n'', v)] (js ''n'') = Some v" for v
    by (simp add: evaluateFieldPath_def js_def)
  have k: "key_tuple [(js ''n'', v)] [js ''n''] = [v, VNum 0, VStr []]" for v
    by (simp add: key_tuple_def p) (simp add: js_def)
  show ?thesis using assms
    by (auto simp: extractIndexKey_def k encodeIndexKey_def pushElement_def encodeInt64_def f64_neg_zero_def orderKeyFor_def c Let_def
        passesFilters_def p simp del: convexToJson.simps)
qed

theorem range_diff_misreads_int64_witness:
  "orderKeyFor (sample_range\<lparr>rr_fields := [js ''n'']\<rparr>) (convexToJson (VObj [(js ''n'', VBigInt 1)])) =
     Inl (TypeError ''index key elements must be scalar values'')"
  using range_diff_misreads_int64[of 1 "sample_range\<lparr>rr_fields := [js ''n'']\<rparr>"] by (simp add: INT64_MIN_def INT64_MAX_def)

section \<open>A by-id diff is the raw row\<close>

text \<open>A query that reads one document by id and returns null, or any object with a string
  \<^verbatim>\<open>_id\<close>, is classified by-id, and the next write to the document hands its subscriber the
  document's raw row, whatever the function computes from it.\<close>

theorem byId_diff_shows_raw_row:
  assumes "singleDocId value \<noteq> None" "wd_newRow wd = Some row"
  shows "\<exists>b. classifyByIdRead value [serializeKeyRange (mk_range (js ''table:'' @ t) key (Some (keySuccessor key)))] = Inr (Some b) \<and>
    bi_keyspace b = js ''table:'' @ t \<and> bi_key b = bytesToBase64 key \<and>
    map_option rv_row (map_of (snd (byIdChangesFor b prev (Some wd))) (wd_docId wd)) = Some row"
proof -
  have "starts_with (js ''table:'') (js ''table:'' @ t)" by (simp add: starts_with_def)
  moreover have "s_keyspace (serializeKeyRange (mk_range ks st e)) = ks" "s_start (serializeKeyRange (mk_range ks st e)) = bytesToBase64 st"
    "s_end (serializeKeyRange (mk_range ks st (Some en))) \<noteq> None" for ks st e en
    by (simp_all add: serializeKeyRange_def)
  ultimately have "isPointRange (serializeKeyRange (mk_range (js ''table:'' @ t) key (Some (keySuccessor key)))) = Inr True"
    by (simp add: isPointRange_def compareKeyBytes_eq)
  then show ?thesis using assms
    by (auto simp: classifyByIdRead_def serializeKeyRange_def byIdChangesFor_def)
qed

theorem byId_diff_shows_raw_row_witness:
  "\<exists>b. classifyByIdRead VNull [serializeKeyRange (mk_range (js ''table:'' @ js ''1'') [7] (Some (keySuccessor [7])))] = Inr (Some b) \<and>
    map_option rv_row (map_of (snd (byIdChangesFor b [] (Some sample_wd))) [97]) = wd_newRow sample_wd"
  using byId_diff_shows_raw_row[of VNull sample_wd _ "js ''1''" "[7]" "[]"]
  by (auto simp: singleDocId_def sample_wd_def simp del: convexToJson.simps)

end
