(* ===== verification/Interval_Index.thy ===== *)
theory Interval_Index
  imports Key_Ranges "HOL-Library.Multiset"
begin

text \<open>
  \<^verbatim>\<open>packages/index-key-codec/src/interval-index.ts\<close>: the augmented interval treap behind
  subscription matching.  One treap per keyspace, ordered by (start, end, value key), each
  node caching the largest end of its subtree.  The interface locale \<open>overlap_index\<close> states
  what the subscription manager relies on; it is interpreted on the treap index.
\<close>

section \<open>Nodes\<close>

record 'v entry =
  e_start :: bytes
  e_end :: "bytes option"
  e_value :: 'v
  e_key :: jsstring

datatype 'v treap =
    Null
  | Node "'v treap" "'v entry" "32 word" "bytes option" "'v treap"

definition mix :: "32 word \<Rightarrow> 32 word \<Rightarrow> 32 word" where
  "mix b h = (h XOR b) * 0x01000193"

definition hashPriority :: "bytes \<Rightarrow> bytes option \<Rightarrow> jsstring \<Rightarrow> 32 word" where
  "hashPriority st en key =
     (let h = fold (\<lambda>b. mix (ucast b)) st 0x811c9dc5;
          h = mix 0x00 h;
          h = (case en of None \<Rightarrow> mix 0xff h | Some e \<Rightarrow> fold (\<lambda>b. mix (ucast b)) e h);
          h = mix 0x00 h
      in fold (\<lambda>c. mix (ucast (c AND 0xff))) key h)"

definition maxEnd2 :: "bytes option \<Rightarrow> bytes option \<Rightarrow> bytes option" where
  "maxEnd2 a b =
     (case (a, b) of
        (Some x, Some y) \<Rightarrow> (if compareKeyBytes x y \<noteq> CLt then a else b)
      | _ \<Rightarrow> None)"

definition cmpEntry :: "bytes \<Rightarrow> bytes option \<Rightarrow> jsstring \<Rightarrow> 'v entry \<Rightarrow> cmp" where
  "cmpEntry aStart aEnd aKey n =
     (let cs = compareKeyBytes aStart (e_start n)
      in if cs \<noteq> CEq then cs
         else (let ce = (case (aEnd, e_end n) of
                           (None, None) \<Rightarrow> CEq
                         | (None, Some _) \<Rightarrow> CGt
                         | (Some _, None) \<Rightarrow> CLt
                         | (Some x, Some y) \<Rightarrow> compareKeyBytes x y)
               in if ce \<noteq> CEq then ce
                  else if aKey < e_key n then CLt
                  else if aKey > e_key n then CGt
                  else CEq))"

fun withMaxEnd :: "bytes option \<Rightarrow> 'v treap \<Rightarrow> bytes option" where
  "withMaxEnd m Null = m"
| "withMaxEnd m (Node _ _ _ sub _) = maxEnd2 m sub"

fun recalcMax :: "'v treap \<Rightarrow> 'v treap" where
  "recalcMax Null = Null"
| "recalcMax (Node l e p _ r) = Node l e p (withMaxEnd (withMaxEnd (e_end e) l) r) r"

fun rotateRight :: "'v treap \<Rightarrow> 'v treap" where
  "rotateRight (Node (Node ll le lp lm lr) e p m r) =
     recalcMax (Node ll le lp lm (recalcMax (Node lr e p m r)))"
| "rotateRight n = n"

fun rotateLeft :: "'v treap \<Rightarrow> 'v treap" where
  "rotateLeft (Node l e p m (Node rl re rp rm rr)) =
     recalcMax (Node (recalcMax (Node l e p m rl)) re rp rm rr)"
| "rotateLeft n = n"

fun priorityAbove :: "'v treap \<Rightarrow> 32 word \<Rightarrow> bool" where
  "priorityAbove Null p = False"
| "priorityAbove (Node _ _ q _ _) p = (p < q)"

section \<open>Treap operations\<close>

text \<open>\<open>insertAt\<close> and \<open>removeAt\<close> mutate \<open>this.size\<close> on the way; the model threads it.\<close>

fun insertAt :: "'v entry \<Rightarrow> 'v treap \<Rightarrow> int \<Rightarrow> 'v treap \<times> int" where
  "insertAt x Null sz =
     (Node Null x (hashPriority (e_start x) (e_end x) (e_key x)) (e_end x) Null, sz + 1)"
| "insertAt x (Node l e p m r) sz =
     (let c = cmpEntry (e_start x) (e_end x) (e_key x) e
      in if c = CEq then (Node l e p m r, sz)
         else if c = CLt then
           (let (l', sz') = insertAt x l sz;
                n = Node l' e p m r;
                n = (if priorityAbove l' p then rotateRight n else n)
            in (recalcMax n, sz'))
         else
           (let (r', sz') = insertAt x r sz;
                n = Node l e p m r';
                n = (if priorityAbove r' p then rotateLeft n else n)
            in (recalcMax n, sz')))"

fun nodes :: "'v treap \<Rightarrow> nat" where
  "nodes Null = 0"
| "nodes (Node l _ _ _ r) = Suc (nodes l + nodes r)"

fun left_of :: "'v treap \<Rightarrow> 'v treap" where
  "left_of Null = Null"
| "left_of (Node l _ _ _ _) = l"

fun right_of :: "'v treap \<Rightarrow> 'v treap" where
  "right_of Null = Null"
| "right_of (Node _ _ _ _ r) = r"

fun set_left :: "'v treap \<Rightarrow> 'v treap \<Rightarrow> 'v treap" where
  "set_left Null l = Null"
| "set_left (Node _ e p m r) l = Node l e p m r"

fun set_right :: "'v treap \<Rightarrow> 'v treap \<Rightarrow> 'v treap" where
  "set_right Null r = Null"
| "set_right (Node l e p m _) r = Node l e p m r"

fun priority_of :: "'v treap \<Rightarrow> 32 word" where
  "priority_of Null = 0"
| "priority_of (Node _ _ p _ _) = p"

lemma nodes_recalcMax [simp]: "nodes (recalcMax t) = nodes t"
  by (cases t) auto

lemma nodes_right_rotateRight: "l \<noteq> Null \<Longrightarrow> nodes (right_of (rotateRight (Node l e p m r))) < Suc (nodes l + nodes r)"
  by (cases l) auto

lemma nodes_left_rotateLeft: "r \<noteq> Null \<Longrightarrow> nodes (left_of (rotateLeft (Node l e p m r))) < Suc (nodes l + nodes r)"
  by (cases r) auto

function removeAt :: "bytes \<Rightarrow> bytes option \<Rightarrow> jsstring \<Rightarrow> 'v treap \<Rightarrow> int \<Rightarrow> 'v treap \<times> int" where
  "removeAt st en key Null sz = (Null, sz)"
| "removeAt st en key (Node l e p m r) sz =
     (let c = cmpEntry st en key e
      in if c = CLt then (let (l', sz') = removeAt st en key l sz in (recalcMax (Node l' e p m r), sz'))
         else if c = CGt then (let (r', sz') = removeAt st en key r sz in (recalcMax (Node l e p m r'), sz'))
         else if l = Null then (r, sz - 1)
         else if r = Null then (l, sz - 1)
         else if priority_of l > priority_of r then
           (let n = rotateRight (Node l e p m r);
                (r', sz') = removeAt st en key (right_of n) sz
            in (recalcMax (set_right n r'), sz'))
         else
           (let n = rotateLeft (Node l e p m r);
                (l', sz') = removeAt st en key (left_of n) sz
            in (recalcMax (set_left n l'), sz')))"
  by pat_completeness auto

termination
  by (relation "measure (\<lambda>(_, _, _, t, _). nodes t)")
    (auto simp: nodes_right_rotateRight nodes_left_rotateLeft)

fun collectAt :: "'v treap \<Rightarrow> jsstring \<Rightarrow> key_range \<Rightarrow> 'v list" where
  "collectAt Null ks q = []"
| "collectAt (Node l e p m r) ks q =
     (if (case m of None \<Rightarrow> False | Some x \<Rightarrow> compareKeyBytes x (start q) \<noteq> CGt) then []
      else collectAt l ks q
         @ (if rangesOverlap (mk_range ks (e_start e) (e_end e)) q then [e_value e] else [])
         @ (if (case end_of q of None \<Rightarrow> True | Some x \<Rightarrow> compareKeyBytes (e_start e) x = CLt)
            then collectAt r ks q else []))"

section \<open>The index\<close>

record 'v keyspace_treap =
  root :: "'v treap"
  tr_size :: int

type_synonym 'v interval_index = "(jsstring, 'v keyspace_treap) jsmap"

definition ii_empty :: "'v interval_index" where
  "ii_empty = []"

definition ii_insert :: "('v \<Rightarrow> jsstring) \<Rightarrow> key_range \<Rightarrow> 'v \<Rightarrow> 'v interval_index \<Rightarrow> 'v interval_index" where
  "ii_insert valueKey rng v ix =
     (let tree = (case map_of ix (keyspace rng) of Some t \<Rightarrow> t | None \<Rightarrow> \<lparr>root = Null, tr_size = 0\<rparr>);
          (t, n) = insertAt \<lparr>e_start = start rng, e_end = end_of rng, e_value = v, e_key = valueKey v\<rparr>
                     (root tree) (tr_size tree)
      in AList.update (keyspace rng) \<lparr>root = t, tr_size = n\<rparr> ix)"

definition ii_remove :: "('v \<Rightarrow> jsstring) \<Rightarrow> key_range \<Rightarrow> 'v \<Rightarrow> 'v interval_index \<Rightarrow> 'v interval_index" where
  "ii_remove valueKey rng v ix =
     (case map_of ix (keyspace rng) of
        None \<Rightarrow> ix
      | Some tree \<Rightarrow>
          (let (t, n) = removeAt (start rng) (end_of rng) (valueKey v) (root tree) (tr_size tree)
           in if n = 0 then AList.delete (keyspace rng) ix
              else AList.update (keyspace rng) \<lparr>root = t, tr_size = n\<rparr> ix))"

definition ii_queryOverlaps :: "'v interval_index \<Rightarrow> key_range \<Rightarrow> 'v list" where
  "ii_queryOverlaps ix rng =
     (case map_of ix (keyspace rng) of
        None \<Rightarrow> []
      | Some tree \<Rightarrow> collectAt (root tree) (keyspace rng) rng)"

definition ii_size :: "'v interval_index \<Rightarrow> int" where
  "ii_size ix = sum_list (map (\<lambda>e. tr_size (snd e)) ix)"

section \<open>The order of entries\<close>

fun cmp_end :: "bytes option \<Rightarrow> bytes option \<Rightarrow> cmp" where
  "cmp_end None None = CEq"
| "cmp_end None (Some _) = CGt"
| "cmp_end (Some _) None = CLt"
| "cmp_end (Some x) (Some y) = cmp_of x y"

lemma cmp_end_flip: "cmp_end b a = cmp_neg (cmp_end a b)"
  by (cases a; cases b) (simp_all, rule cmp_of_flip)

lemma cmp_end_trans3: "cmp_trans3 (cmp_end a b) (cmp_end b c) (cmp_end a c)"
  by (cases a; cases b; cases c) (auto simp: cmp_of_trans3)

lemma cmp_end_eq [simp]: "cmp_end a b = CEq \<longleftrightarrow> a = b"
  by (cases a; cases b) auto

abbreviation entry_cmp :: "'v entry \<Rightarrow> 'v entry \<Rightarrow> cmp" where
  "entry_cmp a b \<equiv> cmpEntry (e_start a) (e_end a) (e_key a) b"

lemma cmpEntry_eq:
  "cmpEntry s e k n = cmp_then (cmp_of s (e_start n)) (cmp_then (cmp_end e (e_end n)) (cmp_of k (e_key n)))"
proof -
  have k: "(if k < e_key n then CLt else if e_key n < k then CGt else CEq) = cmp_of k (e_key n)"
    by (auto simp: cmp_of_def)
  have e: "(case (e, e_end n) of (None, None) \<Rightarrow> CEq | (None, Some _) \<Rightarrow> CGt | (Some _, None) \<Rightarrow> CLt
      | (Some x, Some y) \<Rightarrow> compareKeyBytes x y) = cmp_end e (e_end n)"
    by (cases e; cases "e_end n") (auto simp: compareKeyBytes_eq)
  have c: "(if c \<noteq> CEq then c else d) = cmp_then c d" for c d
    by (cases c) auto
  show ?thesis unfolding cmpEntry_def Let_def k e c compareKeyBytes_eq ..
qed

interpretation ents: comparator "entry_cmp :: 'v entry \<Rightarrow> 'v entry \<Rightarrow> cmp"
proof
  fix a b c :: "'v entry"
  show "entry_cmp b a = cmp_neg (entry_cmp a b)"
    unfolding cmpEntry_eq cmp_neg_then cmp_of_flip[of "e_start a"] cmp_end_flip[of "e_end a"]
      cmp_of_flip[of "e_key a"] by simp
  show "cmp_trans3 (entry_cmp a b) (entry_cmp b c) (entry_cmp a c)"
    unfolding cmpEntry_eq by (intro cmp_trans3_then cmp_of_trans3 cmp_end_trans3)
qed

lemma cmpEntry_CEq: "cmpEntry s e k n = CEq \<longleftrightarrow> s = e_start n \<and> e = e_end n \<and> k = e_key n"
  by (simp add: cmpEntry_eq)

lemma entry_cmp_CGt: "entry_cmp a b = CGt \<longleftrightarrow> entry_cmp b a = CLt"
  by (rule ents.lt_iff_gt[symmetric])

lemma entry_lt_start: "entry_cmp a b = CLt \<Longrightarrow> e_start a \<le> e_start b"
  by (cases "cmp_of (e_start a) (e_start b)") (auto simp: cmpEntry_eq)

section \<open>Invariants\<close>

fun inorder :: "'v treap \<Rightarrow> 'v entry list" where
  "inorder Null = []"
| "inorder (Node l e _ _ r) = inorder l @ e # inorder r"

definition bst :: "'v treap \<Rightarrow> bool" where
  "bst t = sorted_wrt (\<lambda>a b. entry_cmp a b = CLt) (inorder t)"

fun max_ok :: "'v treap \<Rightarrow> bool" where
  "max_ok Null = True"
| "max_ok (Node l e p m r) = (max_ok l \<and> max_ok r \<and> m = withMaxEnd (withMaxEnd (e_end e) l) r)"

fun prios :: "'v treap \<Rightarrow> 32 word multiset" where
  "prios Null = {#}"
| "prios (Node l _ p _ r) = add_mset p (prios l + prios r)"

fun heap_ok :: "'v treap \<Rightarrow> bool" where
  "heap_ok Null = True"
| "heap_ok (Node l _ p _ r) = (heap_ok l \<and> heap_ok r \<and> (\<forall>q \<in># prios l + prios r. q \<le> p))"

lemma bst_Node [simp]: "bst (Node l e p m r) \<longleftrightarrow> bst l \<and> bst r \<and>
    (\<forall>x \<in> set (inorder l). entry_cmp x e = CLt) \<and> (\<forall>y \<in> set (inorder r). entry_cmp e y = CLt)"
  by (auto simp: bst_def sorted_wrt_append intro: ents.lt_trans)

lemma bst_Null [simp]: "bst Null"
  by (simp add: bst_def)

lemma inorder_recalcMax [simp]: "inorder (recalcMax t) = inorder t"
  by (cases t) auto

lemma inorder_rotateRight [simp]: "inorder (rotateRight t) = inorder t"
  by (induction t rule: rotateRight.induct) auto

lemma inorder_rotateLeft [simp]: "inorder (rotateLeft t) = inorder t"
  by (induction t rule: rotateLeft.induct) auto

lemma max_ok_recalcMax: "max_ok (left_of t) \<Longrightarrow> max_ok (right_of t) \<Longrightarrow> max_ok (recalcMax t)"
  by (cases t) auto

lemma max_ok_left [simp]: "max_ok t \<Longrightarrow> max_ok (left_of t)" and max_ok_right [simp]: "max_ok t \<Longrightarrow> max_ok (right_of t)"
  by (cases t; simp)+

lemma max_ok_rotateRight: "max_ok l \<Longrightarrow> max_ok r \<Longrightarrow> l \<noteq> Null \<Longrightarrow> max_ok (rotateRight (Node l e p m r))"
  by (cases l) auto

lemma max_ok_rotateLeft: "max_ok l \<Longrightarrow> max_ok r \<Longrightarrow> r \<noteq> Null \<Longrightarrow> max_ok (rotateLeft (Node l e p m r))"
  by (cases r) auto

lemma recalcMax_parts [simp]: "left_of (recalcMax t) = left_of t" "right_of (recalcMax t) = right_of t"
    "prios (recalcMax t) = prios t" "heap_ok (recalcMax t) = heap_ok t"
  by (cases t; simp)+

lemma priorityAbove_NotNull: "priorityAbove t p \<Longrightarrow> t \<noteq> Null"
  by auto

lemma size_inorder: "nodes t = length (inorder t)"
  by (induction t) auto

section \<open>Insertion\<close>

definition has_key :: "'v entry \<Rightarrow> 'v treap \<Rightarrow> bool" where
  "has_key x t = (\<exists>y \<in> set (inorder t). entry_cmp x y = CEq)"

lemma insertAt_eq: "entry_cmp x e = CEq \<Longrightarrow> insertAt x (Node l e p m r) sz = (Node l e p m r, sz)"
  by simp

lemma insertAt_lt:
  assumes "entry_cmp x e = CLt" and "insertAt x l sz = (l', sz')"
  shows "insertAt x (Node l e p m r) sz =
    (recalcMax (if priorityAbove l' p then rotateRight (Node l' e p m r) else Node l' e p m r), sz')"
  using assms by simp

lemma insertAt_gt:
  assumes "entry_cmp x e = CGt" and "insertAt x r sz = (r', sz')"
  shows "insertAt x (Node l e p m r) sz =
    (recalcMax (if priorityAbove r' p then rotateLeft (Node l e p m r') else Node l e p m r'), sz')"
  using assms by (auto simp: Let_def)

text \<open>Insertion follows one path: induction over it, with the three outcomes of the comparison.\<close>

lemma insertAt_induct [case_names Null Eq Lt Gt]:
  assumes "P Null (Node Null x (hashPriority (e_start x) (e_end x) (e_key x)) (e_end x) Null) 1"
    and "\<And>l e p m r. entry_cmp x e = CEq \<Longrightarrow> P (Node l e p m r) (Node l e p m r) 0"
    and "\<And>l e p m r l' d. entry_cmp x e = CLt \<Longrightarrow> P l l' d \<Longrightarrow> P (Node l e p m r)
      (recalcMax (if priorityAbove l' p then rotateRight (Node l' e p m r) else Node l' e p m r)) d"
    and "\<And>l e p m r r' d. entry_cmp x e = CGt \<Longrightarrow> P r r' d \<Longrightarrow> P (Node l e p m r)
      (recalcMax (if priorityAbove r' p then rotateLeft (Node l e p m r') else Node l e p m r')) d"
  shows "\<exists>d. snd (insertAt x t sz) = sz + d \<and> P t (fst (insertAt x t sz)) d"
proof (induction t)
  case Null
  show ?case using assms(1) by simp
next
  case (Node l e p m r)
  show ?case
  proof (cases "entry_cmp x e")
    case CLt
    obtain l' d where ih: "insertAt x l sz = (l', sz + d)" "P l l' d"
      using Node.IH(1) by (metis prod.collapse)
    show ?thesis unfolding insertAt_lt[OF CLt ih(1)] fst_conv snd_conv using assms(3)[OF CLt ih(2)] by blast
  next
    case CEq
    then show ?thesis using assms(2)[OF CEq] insertAt_eq[OF CEq] by simp
  next
    case CGt
    obtain r' d where ih: "insertAt x r sz = (r', sz + d)" "P r r' d"
      using Node.IH(2) by (metis prod.collapse)
    show ?thesis unfolding insertAt_gt[OF CGt ih(1)] fst_conv snd_conv using assms(4)[OF CGt ih(2)] by blast
  qed
qed

text \<open>Inserting keeps the three invariants, adds exactly the new entry unless one with the same
  bounds and key is there, and reports the change of size.\<close>

definition ins_spec :: "'v entry \<Rightarrow> 'v treap \<Rightarrow> 'v treap \<Rightarrow> int \<Rightarrow> bool" where
  "ins_spec x t t' d \<longleftrightarrow>
     t' \<noteq> Null \<and> (max_ok t \<longrightarrow> max_ok t') \<and>
     (if has_key x t then mset (inorder t') = mset (inorder t) \<and> d = 0
      else mset (inorder t') = add_mset x (mset (inorder t)) \<and> d = 1)"

lemma has_key_Null [simp]: "\<not> has_key x Null"
  by (simp add: has_key_def)

lemma has_key_lt:
  assumes "bst (Node l e p m r)" "entry_cmp x e = CLt"
  shows "has_key x (Node l e p m r) = has_key x l"
proof -
  have "entry_cmp x y = CLt" if "y \<in> set (inorder r)" for y
    using assms ents.lt_trans[of x e y] that by simp
  then show ?thesis using assms(2) by (auto simp: has_key_def)
qed

lemma has_key_gt:
  assumes "bst (Node l e p m r)" "entry_cmp x e = CGt"
  shows "has_key x (Node l e p m r) = has_key x r"
proof -
  have "entry_cmp y x = CLt" if "y \<in> set (inorder l)" for y
    using assms ents.lt_trans[of y e x] that by (simp add: entry_cmp_CGt)
  then have "entry_cmp x y = CGt" if "y \<in> set (inorder l)" for y
    using that by (simp add: entry_cmp_CGt)
  then show ?thesis using assms(2) by (auto simp: has_key_def)
qed

lemma recalcMax_Null [simp]: "recalcMax t = Null \<longleftrightarrow> t = Null"
  by (cases t) auto

lemma rotateRight_Null [simp]: "rotateRight t = Null \<longleftrightarrow> t = Null"
  by (induction t rule: rotateRight.induct) auto

lemma rotateLeft_Null [simp]: "rotateLeft t = Null \<longleftrightarrow> t = Null"
  by (induction t rule: rotateLeft.induct) auto

lemma ins_spec_set: "ins_spec x t t' d \<Longrightarrow> set (inorder t') \<subseteq> insert x (set (inorder t))"
  unfolding ins_spec_def by (metis set_mset_add_mset_insert set_mset_mset order_refl subset_insertI)

lemma insertAt_bst_spec:
  "\<exists>d. snd (insertAt x t sz) = sz + d \<and>
     (bst t \<longrightarrow> bst (fst (insertAt x t sz)) \<and> ins_spec x t (fst (insertAt x t sz)) d)"
proof (induction rule: insertAt_induct)
  case Null
  then show ?case by (simp add: ins_spec_def has_key_def)
next
  case (Eq l e p m r)
  then show ?case by (simp add: ins_spec_def has_key_def)
next
  case (Lt l e p m r l' d)
  show ?case
  proof
    assume b: "bst (Node l e p m r)"
    then have ih: "bst l'" "ins_spec x l l' d" using Lt by auto
    let ?t = "recalcMax (if priorityAbove l' p then rotateRight (Node l' e p m r) else Node l' e p m r)"
    have io: "inorder ?t = inorder l' @ e # inorder r" by simp
    have "set (inorder l') \<subseteq> insert x (set (inorder l))" by (rule ins_spec_set[OF ih(2)])
    then have "bst ?t" using b ih(1) Lt(1) unfolding bst_def io by (auto simp: bst_def sorted_wrt_append intro: ents.lt_trans)
    moreover have "ins_spec x (Node l e p m r) ?t d"
      using ih(2) unfolding ins_spec_def io has_key_lt[OF b Lt(1)]
      by (auto intro!: max_ok_recalcMax max_ok_left max_ok_right max_ok_rotateRight)
    ultimately show "bst ?t \<and> ins_spec x (Node l e p m r) ?t d" ..
  qed
next
  case (Gt l e p m r r' d)
  show ?case
  proof
    assume b: "bst (Node l e p m r)"
    then have ih: "bst r'" "ins_spec x r r' d" using Gt by auto
    let ?t = "recalcMax (if priorityAbove r' p then rotateLeft (Node l e p m r') else Node l e p m r')"
    have io: "inorder ?t = inorder l @ e # inorder r'" by simp
    have "set (inorder r') \<subseteq> insert x (set (inorder r))" by (rule ins_spec_set[OF ih(2)])
    then have "bst ?t" using b ih(1) Gt(1) unfolding bst_def io
      by (auto simp: bst_def sorted_wrt_append entry_cmp_CGt intro: ents.lt_trans)
    moreover have "ins_spec x (Node l e p m r) ?t d"
      using ih(2) unfolding ins_spec_def io has_key_gt[OF b Gt(1)]
      by (auto intro!: max_ok_recalcMax max_ok_left max_ok_right max_ok_rotateLeft)
    ultimately show "bst ?t \<and> ins_spec x (Node l e p m r) ?t d" ..
  qed
qed

section \<open>Removal\<close>

abbreviation others :: "bytes \<Rightarrow> bytes option \<Rightarrow> jsstring \<Rightarrow> 'v entry list \<Rightarrow> 'v entry list" where
  "others st en key \<equiv> filter (\<lambda>y. cmpEntry st en key y \<noteq> CEq)"

lemma bst_others:
  fixes l r :: "'v treap"
  assumes "bst (Node l e p m r)"
  shows "cmpEntry st en key e \<noteq> CGt \<Longrightarrow> others st en key (inorder r) = inorder r"
    and "cmpEntry st en key e \<noteq> CLt \<Longrightarrow> others st en key (inorder l) = inorder l"
proof -
  define x where "x = e\<lparr>e_start := st, e_end := en, e_key := key\<rparr>"
  have c: "cmpEntry st en key y = entry_cmp x y" for y by (simp add: x_def)
  { assume "cmpEntry st en key e \<noteq> CGt"
    then have "entry_cmp x y = CLt" if "y \<in> set (inorder r)" for y
      using assms that ents.le_lt_trans[of x e y] by (simp add: c)
    then show "others st en key (inorder r) = inorder r" by (auto simp: c intro!: filter_True) }
  { assume "cmpEntry st en key e \<noteq> CLt"
    then have "entry_cmp e x \<noteq> CGt" using ents.lt_iff_gt[of x e] by (simp add: c)
    then have "entry_cmp y x = CLt" if "y \<in> set (inorder l)" for y
      using assms that ents.lt_le_trans[of y e x] by simp
    then show "others st en key (inorder l) = inorder l"
      by (auto simp: c ents.lt_iff_gt intro!: filter_True) }
qed

lemma inorder_NotNull: "t \<noteq> Null \<Longrightarrow> \<exists>e. inorder t = inorder (left_of t) @ e # inorder (right_of t) \<and>
    (\<forall>l. inorder (set_left t l) = inorder l @ e # inorder (right_of t)) \<and>
    (\<forall>r. inorder (set_right t r) = inorder (left_of t) @ e # inorder r)"
  by (cases t) auto

lemma bst_subtrees: "bst t \<Longrightarrow> bst (left_of t)" "bst t \<Longrightarrow> bst (right_of t)"
  by (cases t; simp)+

lemma others_rotateRight:
  assumes "bst (Node l e p m r)" "cmpEntry st en key e = CEq" "l \<noteq> Null"
  defines "n \<equiv> rotateRight (Node l e p m r)"
  shows "others st en key (inorder (Node l e p m r)) =
    inorder (set_right n t) \<longleftrightarrow> others st en key (inorder (right_of n)) = inorder t"
proof (cases l)
  case (Node ll le lp lm lr)
  have "others st en key (inorder l) = inorder l"
    using bst_others(2)[OF assms(1)] assms(2) by simp
  then have "others st en key (inorder ll) = inorder ll" "cmpEntry st en key le \<noteq> CEq"
    using assms(2) unfolding filter_id_conv Node by auto
  then show ?thesis by (simp add: n_def Node)
qed (use assms in simp)

lemma others_rotateLeft:
  assumes "bst (Node l e p m r)" "cmpEntry st en key e = CEq" "r \<noteq> Null"
  defines "n \<equiv> rotateLeft (Node l e p m r)"
  shows "others st en key (inorder (Node l e p m r)) =
    inorder (set_left n t) \<longleftrightarrow> others st en key (inorder (left_of n)) = inorder t"
proof (cases r)
  case (Node rl re rp rm rr)
  have "others st en key (inorder r) = inorder r"
    using bst_others(1)[OF assms(1)] assms(2) by simp
  then have "others st en key (inorder rr) = inorder rr" "cmpEntry st en key re \<noteq> CEq"
    using assms(2) unfolding filter_id_conv Node by auto
  then show ?thesis by (simp add: n_def Node)
qed (use assms in simp)

lemma removeAt_inorder:
  "bst t \<Longrightarrow> inorder (fst (removeAt st en key t sz)) = others st en key (inorder t)"
proof (induction st en key t sz rule: removeAt.induct)
  case (2 st en key l e p m r sz)
  note oth = bst_others[OF 2(5)]
  show ?case
  proof (cases "cmpEntry st en key e")
    case CLt
    then show ?thesis using 2(1)[OF refl CLt] 2(5) oth by (simp add: split_beta)
  next
    case CGt
    then show ?thesis using 2(2)[OF refl] 2(5) oth by (simp add: split_beta)
  next
    case CEq
    consider "l = Null" | "l \<noteq> Null" "r = Null"
      | (R) "l \<noteq> Null" "r \<noteq> Null" "priority_of r < priority_of l"
      | (L) "l \<noteq> Null" "r \<noteq> Null" "\<not> priority_of r < priority_of l" by blast
    then show ?thesis
    proof cases
      case R
      let ?n = "rotateRight (Node l e p m r)"
      have "bst ?n" using 2(5) by (simp only: bst_def inorder_rotateRight inorder_rotateLeft)
      then have "inorder (fst (removeAt st en key (right_of ?n) sz)) = others st en key (inorder (right_of ?n))"
        using 2(3)[OF refl _ _ R refl] CEq bst_subtrees[of ?n] by simp
      then show ?thesis
        using others_rotateRight[OF 2(5) CEq R(1), THEN iffD2, OF sym, symmetric] CEq R
        by (simp add: split_beta Let_def del: inorder.simps)
    next
      case L
      let ?n = "rotateLeft (Node l e p m r)"
      have "bst ?n" using 2(5) by (simp only: bst_def inorder_rotateRight inorder_rotateLeft)
      then have "inorder (fst (removeAt st en key (left_of ?n) sz)) = others st en key (inorder (left_of ?n))"
        using 2(4)[OF refl _ _ L refl] CEq bst_subtrees[of ?n] by simp
      then show ?thesis
        using others_rotateLeft[OF 2(5) CEq L(2), THEN iffD2, OF sym, symmetric] CEq L
        by (simp add: split_beta Let_def del: inorder.simps)
    qed (use CEq oth in simp_all)
  qed
qed simp

lemma set_parts: "left_of (set_left t l) = (if t = Null then Null else l)" "right_of (set_left t l) = right_of t"
    "right_of (set_right t r) = (if t = Null then Null else r)" "left_of (set_right t r) = left_of t"
  by (cases t; simp)+

lemma removeAt_max_ok: "max_ok t \<Longrightarrow> max_ok (fst (removeAt st en key t sz))"
proof (induction st en key t sz rule: removeAt.induct)
  case (2 st en key l e p m r sz)
  have lr: "max_ok l" "max_ok r" using 2(5) by auto
  show ?case using 2(1-4) lr
    by (auto simp: split_beta Let_def set_parts max_ok_rotateRight max_ok_rotateLeft
        intro!: max_ok_recalcMax)
qed simp

lemma removeAt_size: "snd (removeAt st en key t sz) - int (nodes (fst (removeAt st en key t sz))) = sz - int (nodes t)"
proof (induction st en key t sz rule: removeAt.induct)
  case (2 st en key l e p m r sz)
  have n: "nodes t = Suc (nodes (left_of t) + nodes (right_of t))" if "t \<noteq> Null" for t :: "'a treap"
    using that by (cases t) auto
  have R: "nodes (rotateRight (Node l e p m r)) = nodes (Node l e p m r)" unfolding size_inorder by simp
  have L: "nodes (rotateLeft (Node l e p m r)) = nodes (Node l e p m r)" unfolding size_inorder by simp
  have sl: "nodes (set_left t l) = Suc (nodes l + nodes (right_of t))"
     "nodes (set_right t l) = Suc (nodes (left_of t) + nodes l)" if "t \<noteq> Null" for t l :: "'a treap"
    using that by (cases t; simp)+
  note n' = n[of "rotateRight (Node l e p m r)"] n[of "rotateLeft (Node l e p m r)"]
  show ?case
  proof (cases "cmpEntry st en key e")
    case CEq
    then show ?thesis
      using 2(3)[OF refl _ _ _ _ _ refl] 2(4)[OF refl _ _ _ _ _ refl] R L n'
      by (cases "l = Null"; cases "r = Null"; cases "priority_of r < priority_of l")
        (simp_all add: split_beta Let_def sl)
  qed (use 2(1)[OF refl] 2(2)[OF refl] in \<open>simp_all add: split_beta\<close>)
qed simp

section \<open>The heap order of priorities\<close>

lemma heap_root_max: "heap_ok t \<Longrightarrow> q \<in># prios t \<Longrightarrow> q \<le> priority_of t"
  by (cases t) auto

lemma priorityAbove_iff: "priorityAbove t p \<longleftrightarrow> t \<noteq> Null \<and> p < priority_of t"
  by (cases t) auto

lemma heap_not_above: "heap_ok t \<Longrightarrow> \<not> priorityAbove t p \<Longrightarrow> q \<in># prios t \<Longrightarrow> q \<le> p"
  using heap_root_max[of t q] by (cases t) auto

lemma prios_rotateRight [simp]: "prios (rotateRight t) = prios t"
  by (induction t rule: rotateRight.induct) (simp_all add: add_mset_commute union_ac)

lemma prios_rotateLeft [simp]: "prios (rotateLeft t) = prios t"
  by (induction t rule: rotateLeft.induct) (simp_all add: add_mset_commute union_ac)

text \<open>A freshly inserted entry is the only one that can rise above its ancestors.\<close>

lemma fresh_root:
  assumes "add_mset a A = B \<or> add_mset a A = add_mset x B" and "\<forall>q \<in># B. q \<le> (p :: 'a :: linorder)" and "p < a"
  shows "A = B"
proof -
  have "a \<notin># B" using assms(2,3) by (auto simp: not_le[symmetric])
  then show ?thesis using assms(1) by (auto simp: add_eq_conv_ex)
qed

lemma insertAt_heap:
  fixes x :: "'v entry"
  defines "px \<equiv> hashPriority (e_start x) (e_end x) (e_key x)"
  shows "\<exists>d. snd (insertAt x t sz) = sz + d \<and>
    (prios (fst (insertAt x t sz)) = prios t \<or> prios (fst (insertAt x t sz)) = add_mset px (prios t)) \<and>
    (heap_ok t \<longrightarrow> heap_ok (fst (insertAt x t sz)))"
proof (induction rule: insertAt_induct)
  case (Lt l e p m r l' d)
  have "heap_ok (rotateRight (Node l' e p m r))" if above: "priorityAbove l' p" and hp: "heap_ok (Node l e p m r)"
  proof -
    obtain ll le lp lm lr where l': "l' = Node ll le lp lm lr" using above by (cases l') auto
    have "prios ll + prios lr = prios l"
      by (rule fresh_root[of lp _ _ px p]) (use Lt(2) above hp in \<open>auto simp: l'\<close>)
    then have "\<forall>q \<in># prios ll + prios lr. q \<le> p" "\<forall>q \<in># prios r. q \<le> p" using hp by simp_all
    moreover have "p \<le> lp" using above by (simp add: l')
    moreover have "heap_ok ll" "heap_ok lr" "heap_ok r" using Lt(2) hp by (simp_all add: l')
    ultimately show ?thesis unfolding l' by (auto intro: order_trans)
  qed
  moreover have "heap_ok (Node l' e p m r)" if "\<not> priorityAbove l' p" "heap_ok (Node l e p m r)"
    using that Lt(2) heap_not_above[of l' p] by auto
  ultimately show ?case using Lt(2) by (auto simp: add_mset_commute)
next
  case (Gt l e p m r r' d)
  have "heap_ok (rotateLeft (Node l e p m r'))" if above: "priorityAbove r' p" and hp: "heap_ok (Node l e p m r)"
  proof -
    obtain rl re rp rm rr where r': "r' = Node rl re rp rm rr" using above by (cases r') auto
    have "prios rl + prios rr = prios r"
      by (rule fresh_root[of rp _ _ px p]) (use Gt(2) above hp in \<open>auto simp: r'\<close>)
    then have "\<forall>q \<in># prios rl + prios rr. q \<le> p" "\<forall>q \<in># prios l. q \<le> p" using hp by simp_all
    moreover have "p \<le> rp" using above by (simp add: r')
    moreover have "heap_ok rl" "heap_ok rr" "heap_ok l" using Gt(2) hp by (simp_all add: r')
    ultimately show ?thesis unfolding r' by (auto intro: order_trans)
  qed
  moreover have "heap_ok (Node l e p m r')" if "\<not> priorityAbove r' p" "heap_ok (Node l e p m r)"
    using that Gt(2) heap_not_above[of r' p] by auto
  ultimately show ?case using Gt(2) by (auto simp: add_mset_commute)
qed (simp_all add: px_def)

text \<open>Removing the root's own entry drops exactly the root's priority: rotations move it down
  until it has at most one child.\<close>

lemma removeAt_root_prios:
  "cmpEntry st en key e = CEq \<Longrightarrow>
   prios (fst (removeAt st en key (Node l e p m r) sz)) = prios l + prios r \<and>
   (heap_ok l \<longrightarrow> heap_ok r \<longrightarrow> heap_ok (fst (removeAt st en key (Node l e p m r) sz)))"
proof (induction "nodes l + nodes r" arbitrary: l p m r rule: less_induct)
  case less
  consider "l = Null" | "l \<noteq> Null" "r = Null"
    | (R) ll le lp lm lr where "l = Node ll le lp lm lr" "r \<noteq> Null" "priority_of r < lp"
    | (L) rl re rp rm rr where "l \<noteq> Null" "r = Node rl re rp rm rr" "\<not> rp < priority_of l"
    by (cases l; cases r) auto
  then show ?case
  proof cases
    case R
    let ?r = "fst (removeAt st en key (recalcMax (Node lr e p m r)) sz)"
    have ih: "prios ?r = prios lr + prios r" "heap_ok lr \<longrightarrow> heap_ok r \<longrightarrow> heap_ok ?r"
      using less(1)[of lr r] less(2) R(1) by auto
    have "q \<le> lp" if "heap_ok r" "q \<in># prios r" for q
      using heap_root_max[OF that] R(3) by simp
    then show ?thesis using ih less(2) R by (auto simp: split_beta Let_def)
  next
    case L
    let ?l = "fst (removeAt st en key (recalcMax (Node l e p m rl)) sz)"
    have ih: "prios ?l = prios l + prios rl" "heap_ok l \<longrightarrow> heap_ok rl \<longrightarrow> heap_ok ?l"
      using less(1)[of l rl] less(2) L(2) by auto
    have "q \<le> rp" if "heap_ok l" "q \<in># prios l" for q
      using heap_root_max[OF that] L(3) by simp
    then show ?thesis using ih less(2) L by (auto simp: split_beta Let_def)
  qed (use less(2) in auto)
qed

lemma removeAt_heap:
  "heap_ok t \<Longrightarrow> heap_ok (fst (removeAt st en key t sz)) \<and> prios (fst (removeAt st en key t sz)) \<subseteq># prios t"
proof (induction t)
  case (Node l e p m r)
  show ?case
  proof (cases "cmpEntry st en key e")
    case CEq
    then show ?thesis using removeAt_root_prios[OF CEq, of l p m r sz] Node.prems
      by (auto simp del: removeAt.simps)
  next
    case CLt
    then have "heap_ok (fst (removeAt st en key l sz))" "prios (fst (removeAt st en key l sz)) \<subseteq># prios l"
      using Node by auto
    then show ?thesis using CLt Node.prems by (auto simp: split_beta dest: mset_subset_eqD)
  next
    case CGt
    then have "heap_ok (fst (removeAt st en key r sz))" "prios (fst (removeAt st en key r sz)) \<subseteq># prios r"
      using Node by auto
    then show ?thesis using CGt Node.prems by (auto simp: split_beta dest: mset_subset_eqD)
  qed
qed simp

section \<open>Collection\<close>

definition end_le :: "bytes option \<Rightarrow> bytes option \<Rightarrow> bool" where
  "end_le a b = (case b of None \<Rightarrow> True | Some y \<Rightarrow> (case a of None \<Rightarrow> False | Some x \<Rightarrow> x \<le> y))"

lemma end_le_maxEnd2: "end_le a (maxEnd2 b c) \<longleftrightarrow> end_le a b \<or> end_le a c"
  by (auto simp: end_le_def maxEnd2_def compareKeyBytes_eq split: option.splits)

lemma end_le_refl [simp]: "end_le a a"
  by (auto simp: end_le_def split: option.splits)

fun max_of :: "'v treap \<Rightarrow> bytes option" where
  "max_of Null = Some []"
| "max_of (Node _ _ _ m _) = m"

lemma end_le_withMaxEnd: "end_le a (withMaxEnd b t) \<longleftrightarrow> end_le a b \<or> (t \<noteq> Null \<and> end_le a (max_of t))"
  by (cases t) (auto simp: end_le_maxEnd2)

lemma max_ok_bound: "max_ok t \<Longrightarrow> x \<in> set (inorder t) \<Longrightarrow> end_le (e_end x) (max_of t)"
  by (induction t) (auto simp: end_le_withMaxEnd)

lemma pruned_none:
  assumes "max_ok t" "max_of t = Some y" "y \<le> start q" "x \<in> set (inorder t)"
  shows "\<not> rangesOverlap (mk_range ks (e_start x) (e_end x)) q"
  using max_ok_bound[OF assms(1,4)] assms(2,3)
  by (auto simp: end_le_def rangesOverlap_iff split: option.splits)

lemma right_none:
  assumes "bst (Node l e p m r)" "end_of q = Some y" "y \<le> e_start e" "x \<in> set (inorder r)"
  shows "\<not> rangesOverlap (mk_range ks (e_start x) (e_end x)) q"
  using assms entry_lt_start[of e x] by (auto simp: rangesOverlap_iff)

lemma collectAt_exact:
  "bst t \<Longrightarrow> max_ok t \<Longrightarrow> collectAt t ks q =
     map e_value (filter (\<lambda>x. rangesOverlap (mk_range ks (e_start x) (e_end x)) q) (inorder t))"
proof (induction t)
  case (Node l e p m r)
  let ?ov = "\<lambda>x. rangesOverlap (mk_range ks (e_start x) (e_end x)) q"
  show ?case
  proof (cases "case m of None \<Rightarrow> False | Some x \<Rightarrow> compareKeyBytes x (start q) \<noteq> CGt")
    case True
    then obtain y where y: "m = Some y" "y \<le> start q"
      by (auto simp: compareKeyBytes_eq split: option.splits)
    have "filter ?ov (inorder (Node l e p m r)) = []"
      using pruned_none[OF Node.prems(2) _ y(2)] y(1) by (simp add: filter_empty_conv)
    then show ?thesis using True by simp
  next
    case False
    have "filter ?ov (inorder r) = []" if "\<not> (case end_of q of None \<Rightarrow> True | Some x \<Rightarrow> compareKeyBytes (e_start e) x = CLt)"
      using that right_none[OF Node.prems(1)]
      by (auto simp: compareKeyBytes_eq filter_empty_conv split: option.splits)
    then show ?thesis using Node False by auto
  qed
qed simp

section \<open>The index as a set of entries\<close>

definition tree_ok :: "('v \<Rightarrow> jsstring) \<Rightarrow> 'v keyspace_treap \<Rightarrow> bool" where
  "tree_ok valueKey tr =
     (bst (root tr) \<and> max_ok (root tr) \<and> heap_ok (root tr) \<and> tr_size tr = int (nodes (root tr)) \<and>
      (\<forall>x \<in> set (inorder (root tr)). e_key x = valueKey (e_value x)))"

definition ii_ok :: "('v \<Rightarrow> jsstring) \<Rightarrow> 'v interval_index \<Rightarrow> bool" where
  "ii_ok valueKey ix =
     (jsmap_ok ix \<and> (\<forall>e \<in> set ix. tree_ok valueKey (snd e) \<and> root (snd e) \<noteq> Null))"

definition ii_entries :: "'v interval_index \<Rightarrow> (key_range \<times> 'v) set" where
  "ii_entries ix =
     {(mk_range ks (e_start x) (e_end x), e_value x) | ks tr x.
        map_of ix ks = Some tr \<and> x \<in> set (inorder (root tr))}"

lemma ii_ok_iff: "ii_ok vk ix \<longleftrightarrow> jsmap_ok ix \<and>
    (\<forall>ks tr. map_of ix ks = Some tr \<longrightarrow> tree_ok vk tr \<and> root tr \<noteq> Null)"
proof (cases "jsmap_ok ix")
  case True
  have "(\<forall>e \<in> set ix. tree_ok vk (snd e) \<and> root (snd e) \<noteq> Null) \<longleftrightarrow>
     (\<forall>ks tr. (ks, tr) \<in> set ix \<longrightarrow> tree_ok vk tr \<and> root tr \<noteq> Null)" by force
  then show ?thesis by (simp add: ii_ok_def True jsmap_in_set_iff[OF True])
qed (simp add: ii_ok_def)

lemma tree_ok_empty [simp]: "tree_ok vk \<lparr>root = Null, tr_size = 0\<rparr>"
  by (simp add: tree_ok_def)

lemma nodes_0 [simp]: "nodes t = 0 \<longleftrightarrow> t = Null"
  by (cases t) auto

text \<open>Under an injective value key, entries with equal bounds and key are equal, so insertion
  adds exactly the entry.\<close>

lemma insertAt_tree:
  fixes x :: "'v entry"
  assumes "tree_ok vk tr" and "inj vk" and "e_key x = vk (e_value x)"
    and "insertAt x (root tr) (tr_size tr) = (t, n)"
  shows "tree_ok vk \<lparr>root = t, tr_size = n\<rparr> \<and> t \<noteq> Null \<and> set (inorder t) = insert x (set (inorder (root tr)))"
proof -
  obtain d where sp: "n = tr_size tr + d" "bst t" "ins_spec x (root tr) t d"
    using insertAt_bst_spec[of x "root tr" "tr_size tr"] assms(1,4) by (auto simp: tree_ok_def)
  have hp: "heap_ok t" using insertAt_heap[of x "root tr" "tr_size tr"] assms(1,4) by (auto simp: tree_ok_def)
  have dup: "x \<in> set (inorder (root tr))" if "has_key x (root tr)"
    using that assms(1-3) unfolding has_key_def tree_ok_def cmpEntry_CEq
    by (metis entry.equality injD old.unit.exhaust)
  have sets: "set (inorder t) = insert x (set (inorder (root tr)))"
    using sp(3) dup unfolding ins_spec_def
    by (metis insert_absorb set_mset_add_mset_insert set_mset_mset)
  have "int (length (inorder t)) = int (length (inorder (root tr))) + d"
    using sp(3) unfolding ins_spec_def by (metis add.commute add_0 of_nat_Suc size_add_mset size_mset)
  then show ?thesis using sp hp sets assms(1,3) by (auto simp: tree_ok_def ins_spec_def size_inorder)
qed

lemma removeAt_tree:
  assumes "tree_ok vk tr" and "removeAt st en key (root tr) (tr_size tr) = (t, n)"
  shows "tree_ok vk \<lparr>root = t, tr_size = n\<rparr> \<and> (n = 0 \<longleftrightarrow> t = Null) \<and>
    set (inorder t) = {x \<in> set (inorder (root tr)). \<not> (e_start x = st \<and> e_end x = en \<and> e_key x = key)}"
proof -
  have io: "inorder t = others st en key (inorder (root tr))"
    using removeAt_inorder[of "root tr"] assms by (metis fst_conv tree_ok_def)
  have n: "n = int (nodes t)" using removeAt_size[of st en key "root tr" "tr_size tr"] assms by (auto simp: tree_ok_def)
  have "bst t" using assms(1) by (simp add: bst_def io sorted_wrt_filter tree_ok_def)
  moreover have "max_ok t" "heap_ok t"
    using removeAt_max_ok[of "root tr" st en key "tr_size tr"] removeAt_heap[of "root tr" st en key "tr_size tr"]
      assms by (auto simp: tree_ok_def)
  ultimately show ?thesis using assms(1) by (auto simp: tree_ok_def n io cmpEntry_CEq)
qed

lemma ii_entries_iff: "(r, v) \<in> ii_entries ix \<longleftrightarrow>
    (\<exists>tr x. map_of ix (keyspace r) = Some tr \<and> x \<in> set (inorder (root tr)) \<and>
       r = mk_range (keyspace r) (e_start x) (e_end x) \<and> v = e_value x)"
  by (auto simp: ii_entries_def)

lemma ii_insert_spec:
  assumes "ii_ok vk ix" and "inj vk"
  shows "ii_ok vk (ii_insert vk rng v ix) \<and> ii_entries (ii_insert vk rng v ix) = insert (rng, v) (ii_entries ix)"
proof -
  let ?x = "\<lparr>e_start = start rng, e_end = end_of rng, e_value = v, e_key = vk v\<rparr>"
  define tr where "tr = (case map_of ix (keyspace rng) of Some t \<Rightarrow> t | None \<Rightarrow> \<lparr>root = Null, tr_size = 0\<rparr>)"
  obtain t n where ins: "insertAt ?x (root tr) (tr_size tr) = (t, n)" by fastforce
  have tr: "tree_ok vk tr" using assms(1) by (auto simp: tr_def ii_ok_iff split: option.splits)
  note sp = insertAt_tree[OF tr assms(2) _ ins, simplified]
  have e: "ii_insert vk rng v ix = AList.update (keyspace rng) \<lparr>root = t, tr_size = n\<rparr> ix"
    by (simp add: ii_insert_def tr_def[symmetric] ins)
  have old: "x \<in> set (inorder (root tr)) \<longleftrightarrow>
      (\<exists>tr. map_of ix (keyspace rng) = Some tr \<and> x \<in> set (inorder (root tr)))" for x
    by (auto simp: tr_def split: option.splits)
  have "(r, w) \<in> ii_entries (ii_insert vk rng v ix) \<longleftrightarrow> (r, w) = (rng, v) \<or> (r, w) \<in> ii_entries ix" for r w
    using sp by (auto simp: e ii_entries_iff old)
  then show ?thesis using sp assms(1) by (auto simp: e ii_ok_iff)
qed

lemma ii_remove_spec:
  assumes "ii_ok vk ix" and "inj vk"
  shows "ii_ok vk (ii_remove vk rng v ix) \<and> ii_entries (ii_remove vk rng v ix) = ii_entries ix - {(rng, v)}"
proof (cases "map_of ix (keyspace rng)")
  case None
  then show ?thesis using assms by (auto simp: ii_remove_def ii_entries_iff)
next
  case (Some tr)
  obtain t n where rem: "removeAt (start rng) (end_of rng) (vk v) (root tr) (tr_size tr) = (t, n)" by fastforce
  have tr: "tree_ok vk tr" using assms(1) Some by (auto simp: ii_ok_iff)
  note sp = removeAt_tree[OF tr rem]
  have k: "e_key x = vk v \<longleftrightarrow> e_value x = v" if "x \<in> set (inorder (root tr))" for x
    using tr assms(2) that by (auto simp: tree_ok_def dest: injD)
  have "(r, w) \<in> ii_entries (ii_remove vk rng v ix) \<longleftrightarrow> (r, w) \<noteq> (rng, v) \<and> (r, w) \<in> ii_entries ix" for r w
  proof (cases "keyspace r = keyspace rng")
    case True
    have "(r, w) \<in> ii_entries (ii_remove vk rng v ix) \<longleftrightarrow>
        (\<exists>x \<in> set (inorder t). r = mk_range (keyspace r) (e_start x) (e_end x) \<and> w = e_value x)"
      using sp True by (auto simp: ii_remove_def Some rem ii_entries_iff)
    also have "\<dots> \<longleftrightarrow> (\<exists>x \<in> set (inorder (root tr)). r = mk_range (keyspace r) (e_start x) (e_end x) \<and>
        w = e_value x \<and> (r, w) \<noteq> (rng, v))"
      using sp k True by (cases r; cases rng) (simp, metis)
    finally show ?thesis using True by (auto simp: ii_entries_iff Some)
  next
    case False
    then show ?thesis using sp by (auto simp: ii_remove_def Some rem ii_entries_iff)
  qed
  moreover have "ii_ok vk (ii_remove vk rng v ix)"
    using sp assms(1) by (auto simp: ii_remove_def Some rem ii_ok_iff)
  ultimately show ?thesis by auto
qed

lemma ii_query_spec:
  assumes "ii_ok vk ix"
  shows "set (ii_queryOverlaps ix q) = {v. \<exists>r. (r, v) \<in> ii_entries ix \<and> rangesOverlap r q}"
proof (cases "map_of ix (keyspace q)")
  case None
  then show ?thesis using rangesOverlap_keyspace by (fastforce simp: ii_queryOverlaps_def ii_entries_iff)
next
  case (Some tr)
  then have "bst (root tr)" "max_ok (root tr)" using assms by (auto simp: ii_ok_iff tree_ok_def)
  then have "set (ii_queryOverlaps ix q) =
      {e_value x | x. x \<in> set (inorder (root tr)) \<and> rangesOverlap (mk_range (keyspace q) (e_start x) (e_end x)) q}"
    by (auto simp: ii_queryOverlaps_def Some collectAt_exact)
  also have "\<dots> = {v. \<exists>r. (r, v) \<in> ii_entries ix \<and> rangesOverlap r q}"
    unfolding ii_entries_def using rangesOverlap_keyspace Some
    by (auto dest: rangesOverlap_keyspace) (metis Some option.inject key_range.select_convs(1) rangesOverlap_keyspace)
  finally show ?thesis .
qed

section \<open>The interface the subscription manager uses\<close>

locale overlap_index =
  fixes ok :: "'ix \<Rightarrow> bool"
    and entries :: "'ix \<Rightarrow> (key_range \<times> 'v) set"
    and emp :: 'ix
    and ins :: "key_range \<Rightarrow> 'v \<Rightarrow> 'ix \<Rightarrow> 'ix"
    and rem :: "key_range \<Rightarrow> 'v \<Rightarrow> 'ix \<Rightarrow> 'ix"
    and query :: "'ix \<Rightarrow> key_range \<Rightarrow> 'v list"
  assumes empty_ok: "ok emp" and empty_entries: "entries emp = {}"
    and ins_ok: "ok ix \<Longrightarrow> ok (ins r v ix)"
    and ins_entries: "ok ix \<Longrightarrow> entries (ins r v ix) = insert (r, v) (entries ix)"
    and rem_ok: "ok ix \<Longrightarrow> ok (rem r v ix)"
    and rem_entries: "ok ix \<Longrightarrow> entries (rem r v ix) = entries ix - {(r, v)}"
    and query_exact: "ok ix \<Longrightarrow> set (query ix q) = {v. \<exists>r. (r, v) \<in> entries ix \<and> rangesOverlap r q}"
begin

lemma fold_ins: "ok ix \<Longrightarrow> ok (fold (\<lambda>r. ins r v) rs ix) \<and>
    entries (fold (\<lambda>r. ins r v) rs ix) = (\<lambda>r. (r, v)) ` set rs \<union> entries ix"
  by (induction rs arbitrary: ix) (auto simp: ins_ok ins_entries)

lemma fold_rem: "ok ix \<Longrightarrow> ok (fold (\<lambda>r. rem r v) rs ix) \<and>
    entries (fold (\<lambda>r. rem r v) rs ix) = entries ix - (\<lambda>r. (r, v)) ` set rs"
  by (induction rs arbitrary: ix) (auto simp: rem_ok rem_entries)

text \<open>Removing what was inserted for a value leaves the index as it was for every other value.\<close>

lemma query_rem_all:
  assumes "ok ix" and "\<And>r. (r, v) \<in> entries ix \<Longrightarrow> r \<in> set rs"
  shows "set (query (fold (\<lambda>r. rem r v) rs ix) q) = set (query ix q) - {v}"
  using assms fold_rem[OF assms(1), of v rs] by (auto simp: query_exact)

end

interpretation treaps: overlap_index "ii_ok (\<lambda>k. k)" ii_entries ii_empty
    "ii_insert (\<lambda>k. k)" "ii_remove (\<lambda>k. k)" ii_queryOverlaps
proof
  show "ii_ok (\<lambda>k. k) ii_empty" "ii_entries ii_empty = {}"
    by (auto simp: ii_ok_def ii_empty_def ii_entries_def)
  show "set (ii_queryOverlaps ix q) = {v. \<exists>r. (r, v) \<in> ii_entries ix \<and> rangesOverlap r q}"
    if "ii_ok (\<lambda>k. k) ix" for ix q by (rule ii_query_spec[OF that])
qed (use ii_insert_spec[of "\<lambda>k. k"] ii_remove_spec[of "\<lambda>k. k"] in \<open>simp_all add: inj_def\<close>)

section \<open>Histories\<close>

datatype ix_op = Insert key_range jsstring | Remove key_range jsstring

fun run_op :: "jsstring interval_index \<Rightarrow> ix_op \<Rightarrow> jsstring interval_index" where
  "run_op ix (Insert r v) = ii_insert (\<lambda>k. k) r v ix"
| "run_op ix (Remove r v) = ii_remove (\<lambda>k. k) r v ix"

fun live_op :: "(key_range \<times> jsstring) set \<Rightarrow> ix_op \<Rightarrow> (key_range \<times> jsstring) set" where
  "live_op S (Insert r v) = insert (r, v) S"
| "live_op S (Remove r v) = S - {(r, v)}"

lemma run_ops_spec:
  "ii_ok (\<lambda>k. k) (foldl run_op ii_empty ops) \<and>
   ii_entries (foldl run_op ii_empty ops) = foldl live_op {} ops"
proof (induction ops rule: rev_induct)
  case (snoc op ops)
  then show ?case by (cases op) (auto simp: treaps.ins_ok treaps.ins_entries treaps.rem_ok treaps.rem_entries)
qed (simp add: treaps.empty_ok treaps.empty_entries)

text \<open>C31. Whatever sequence of insertions and removals built the index, an overlap query
  returns exactly the values whose range is still registered and overlaps the query: the pruned
  treap search answers what a linear scan of the live entries would.\<close>

theorem queryOverlaps_exact:
  "set (ii_queryOverlaps (foldl run_op ii_empty ops) q) =
     {v. \<exists>r. (r, v) \<in> foldl live_op {} ops \<and> rangesOverlap r q}"
  using run_ops_spec[of ops] treaps.query_exact by simp

text \<open>After any history, every keyspace's tree is a search tree in entry order, a max-heap in
  the hashed priorities, caches the exact largest end of each subtree and counts its nodes, and no
  empty tree is kept.\<close>

theorem interval_treap_invariant:
  "ii_ok (\<lambda>k. k) (foldl run_op ii_empty ops)"
  using run_ops_spec[of ops] by simp

end
