(* ===== verification/Subscriptions.thy ===== *)
theory Subscriptions
  imports Differ Interval_Index
begin

text \<open>
  Which live queries a write touches: \<^verbatim>\<open>packages/sync/src/subscription-manager.ts\<close> and the range and
  table indexes it shares with \<^verbatim>\<open>resume-registry.ts\<close>.  Both classes keep the same four fields
  (\<open>byTable\<close>, \<open>byRange\<close>, \<open>tableFallbackKeys\<close>, \<open>deserializedRanges\<close>) with the same code; they are one
  record here, and the lemmas about them serve both.
\<close>

section \<open>Read-set indexes\<close>

record read_index =
  rx_byTable :: "(jsstring, jsstring list) jsmap"
  rx_byRange :: "jsstring interval_index"
  rx_tableFallbackKeys :: "jsstring list"
  rx_deserializedRanges :: "(jsstring, key_range list) jsmap"

definition rx_empty :: read_index where
  "rx_empty = \<lparr>rx_byTable = [], rx_byRange = ii_empty, rx_tableFallbackKeys = [], rx_deserializedRanges = []\<rparr>"

definition bucket :: "(jsstring, jsstring list) jsmap \<Rightarrow> jsstring \<Rightarrow> jsstring list" where
  "bucket m t = (case map_of m t of None \<Rightarrow> [] | Some s \<Rightarrow> s)"

definition bucket_add :: "jsstring \<Rightarrow> jsstring \<Rightarrow> (jsstring, jsstring list) jsmap \<Rightarrow> (jsstring, jsstring list) jsmap" where
  "bucket_add key t m = AList.update t (set_add key (bucket m t)) m"

definition bucket_delete :: "jsstring \<Rightarrow> jsstring \<Rightarrow> (jsstring, jsstring list) jsmap \<Rightarrow> (jsstring, jsstring list) jsmap" where
  "bucket_delete key t m = (case map_of m t of None \<Rightarrow> m | Some s \<Rightarrow> AList.update t (removeAll key s) m)"

text \<open>Indexing a read set.  A range that does not decode throws after the tables were indexed.\<close>

definition rx_index :: "jsstring \<Rightarrow> serialized_key_range list \<Rightarrow> jsstring list \<Rightarrow> read_index \<Rightarrow> read_index \<times> js_error option" where
  "rx_index key readRanges tables ix =
     (let ix1 = ix\<lparr>rx_byTable := fold (bucket_add key) tables (rx_byTable ix)\<rparr>
      in if readRanges = [] then (ix1\<lparr>rx_tableFallbackKeys := set_add key (rx_tableFallbackKeys ix1)\<rparr>, None)
         else (case res_map deserializeKeyRange readRanges of
                 Inl e \<Rightarrow> (ix1, Some e)
               | Inr ranges \<Rightarrow>
                   (ix1\<lparr>rx_deserializedRanges := AList.update key ranges (rx_deserializedRanges ix1),
                        rx_byRange := fold (\<lambda>r. ii_insert (\<lambda>k. k) r key) ranges (rx_byRange ix1)\<rparr>, None)))"

definition rx_unindex :: "jsstring \<Rightarrow> jsstring list \<Rightarrow> read_index \<Rightarrow> read_index" where
  "rx_unindex key tables ix =
     (let ix1 = (case map_of (rx_deserializedRanges ix) key of
                   None \<Rightarrow> ix
                 | Some ranges \<Rightarrow>
                     ix\<lparr>rx_byRange := fold (\<lambda>r. ii_remove (\<lambda>k. k) r key) ranges (rx_byRange ix),
                        rx_deserializedRanges := AList.delete key (rx_deserializedRanges ix)\<rparr>)
      in ix1\<lparr>rx_tableFallbackKeys := removeAll key (rx_tableFallbackKeys ix1),
             rx_byTable := fold (bucket_delete key) tables (rx_byTable ix1)\<rparr>)"

definition add_all :: "'a list \<Rightarrow> 'a list \<Rightarrow> 'a list" where
  "add_all ys xs = fold set_add ys xs"

text \<open>The keys a write touches: by range, and through the fallback by table.\<close>

definition rx_match :: "serialized_key_range list \<Rightarrow> jsstring list \<Rightarrow> read_index \<Rightarrow> jsstring list result" where
  "rx_match writeRanges writeTables ix =
     res_bind (res_map deserializeKeyRange writeRanges) (\<lambda>ws.
       Inr (fold (\<lambda>t keys. add_all (filter (\<lambda>k. k \<in> set (rx_tableFallbackKeys ix)) (bucket (rx_byTable ix) t)) keys) writeTables
              (fold (\<lambda>w keys. add_all (ii_queryOverlaps (rx_byRange ix) w) keys) ws [])))"

section \<open>What the indexes hold\<close>

lemma set_add_all [simp]: "set (add_all ys xs) = set ys \<union> set xs"
  by (induction ys arbitrary: xs) (auto simp: add_all_def)

lemma distinct_add_all [simp]: "distinct xs \<Longrightarrow> distinct (add_all ys xs)"
  by (induction ys arbitrary: xs) (auto simp: add_all_def)

lemma bucket_add [simp]: "set (bucket (bucket_add key t m) t') = (if t' = t then insert key (set (bucket m t)) else set (bucket m t'))"
  by (auto simp: bucket_add_def bucket_def)

lemma bucket_delete [simp]: "set (bucket (bucket_delete key t m) t') = (if t' = t then set (bucket m t) - {key} else set (bucket m t'))"
  by (auto simp: bucket_delete_def bucket_def split: option.splits)

lemma bucket_add_all: "set (bucket (fold (bucket_add key) ts m) t) = (if t \<in> set ts then insert key (set (bucket m t)) else set (bucket m t))"
  by (induction ts arbitrary: m) auto

lemma bucket_delete_all: "set (bucket (fold (bucket_delete key) ts m) t) = (if t \<in> set ts then set (bucket m t) - {key} else set (bucket m t))"
  by (induction ts arbitrary: m) auto

text \<open>A read set as the index holds it: its tables, and its decoded ranges, or the fallback.\<close>

datatype read_set = ReadSet (rs_tables: "jsstring set") (rs_ranges: "key_range list option") (rs_fallback: bool)

definition rx_ok :: "(jsstring \<Rightarrow> read_set option) \<Rightarrow> read_index \<Rightarrow> bool" where
  "rx_ok live ix \<longleftrightarrow> ii_ok (\<lambda>k. k) (rx_byRange ix) \<and>
     (\<forall>k t. k \<in> set (bucket (rx_byTable ix) t) \<longleftrightarrow> (\<exists>s. live k = Some s \<and> t \<in> rs_tables s)) \<and>
     (\<forall>k. map_of (rx_deserializedRanges ix) k = (case live k of None \<Rightarrow> None | Some s \<Rightarrow> rs_ranges s)) \<and>
     (\<forall>r k. (r, k) \<in> ii_entries (rx_byRange ix) \<longleftrightarrow> (\<exists>s rs. live k = Some s \<and> rs_ranges s = Some rs \<and> r \<in> set rs)) \<and>
     (\<forall>k. k \<in> set (rx_tableFallbackKeys ix) \<longleftrightarrow> (\<exists>s. live k = Some s \<and> rs_fallback s))"

text \<open>The read set that indexing leaves, also where it throws.\<close>

definition read_set_of :: "serialized_key_range list \<Rightarrow> jsstring list \<Rightarrow> read_set" where
  "read_set_of readRanges tables =
     ReadSet (set tables)
       (if readRanges = [] then None
        else (case res_map deserializeKeyRange readRanges of Inl _ \<Rightarrow> None | Inr ranges \<Rightarrow> Some ranges))
       (readRanges = [])"

lemma rx_ok_empty: "rx_ok (\<lambda>_. None) rx_empty"
  by (simp add: rx_ok_def rx_empty_def treaps.empty_ok treaps.empty_entries bucket_def)

lemma rx_ok_index:
  assumes "rx_ok live ix" "live key = None" "rx_index key readRanges tables ix = (ix', e)"
  shows "rx_ok (live(key \<mapsto> read_set_of readRanges tables)) ix'"
    and "e = (case res_map deserializeKeyRange readRanges of Inl e \<Rightarrow> Some e | Inr _ \<Rightarrow> None)"
proof -
  note ok = assms(1)[unfolded rx_ok_def]
  have "rx_ok (live(key \<mapsto> read_set_of readRanges tables)) ix' \<and>
      e = (case res_map deserializeKeyRange readRanges of Inl e \<Rightarrow> Some e | Inr _ \<Rightarrow> None)"
  proof (cases "readRanges = []")
    case True
    then have ix': "ix' = ix\<lparr>rx_byTable := fold (bucket_add key) tables (rx_byTable ix),
        rx_tableFallbackKeys := set_add key (rx_tableFallbackKeys ix)\<rparr>" "e = None"
      using assms(3) by (simp_all add: rx_index_def Let_def)
    show ?thesis using ok assms(2) True by (auto simp: rx_ok_def ix' bucket_add_all read_set_of_def)
  next
    case False
    show ?thesis
    proof (cases "res_map deserializeKeyRange readRanges")
      case (Inl err)
      then have ix': "ix' = ix\<lparr>rx_byTable := fold (bucket_add key) tables (rx_byTable ix)\<rparr>" "e = Some err"
        using assms(3) False by (simp_all add: rx_index_def Let_def)
      show ?thesis using ok assms(2) False Inl by (auto simp: rx_ok_def ix' bucket_add_all read_set_of_def)
    next
      case (Inr ranges)
      then have ix': "ix' = ix\<lparr>rx_byTable := fold (bucket_add key) tables (rx_byTable ix),
          rx_deserializedRanges := AList.update key ranges (rx_deserializedRanges ix),
          rx_byRange := fold (\<lambda>r. ii_insert (\<lambda>k. k) r key) ranges (rx_byRange ix)\<rparr>" "e = None"
        using assms(3) False by (simp_all add: rx_index_def Let_def)
      show ?thesis using ok assms(2) False Inr treaps.fold_ins[of "rx_byRange ix" key ranges]
        by (auto simp: rx_ok_def ix' bucket_add_all read_set_of_def)
    qed
  qed
  then show "rx_ok (live(key \<mapsto> read_set_of readRanges tables)) ix'"
    and "e = (case res_map deserializeKeyRange readRanges of Inl e \<Rightarrow> Some e | Inr _ \<Rightarrow> None)" by blast+
qed

lemma rx_ok_unindex:
  assumes "rx_ok live ix" "live key = Some s" "rs_tables s = set tables"
  shows "rx_ok (live(key := None)) (rx_unindex key tables ix)"
proof -
  note ok = assms(1)[unfolded rx_ok_def]
  show ?thesis
  proof (cases "rs_ranges s")
    case None
    then have u: "rx_unindex key tables ix = ix\<lparr>rx_tableFallbackKeys := removeAll key (rx_tableFallbackKeys ix),
        rx_byTable := fold (bucket_delete key) tables (rx_byTable ix)\<rparr>"
      using ok assms(2) by (simp add: rx_unindex_def Let_def)
    show ?thesis using ok assms(2,3) None by (auto simp: rx_ok_def u bucket_delete_all)
  next
    case (Some ranges)
    then have u: "rx_unindex key tables ix = ix\<lparr>rx_byRange := fold (\<lambda>r. ii_remove (\<lambda>k. k) r key) ranges (rx_byRange ix),
        rx_deserializedRanges := AList.delete key (rx_deserializedRanges ix),
        rx_tableFallbackKeys := removeAll key (rx_tableFallbackKeys ix),
        rx_byTable := fold (bucket_delete key) tables (rx_byTable ix)\<rparr>"
      using ok assms(2) by (simp add: rx_unindex_def Let_def)
    show ?thesis using ok assms(2,3) Some treaps.fold_rem[of "rx_byRange ix" key ranges]
      by (auto simp: rx_ok_def u bucket_delete_all)
  qed
qed

text \<open>The linear scan the index replaces.\<close>

definition touches :: "key_range list \<Rightarrow> jsstring list \<Rightarrow> read_set \<Rightarrow> bool" where
  "touches ws ts s \<longleftrightarrow>
     (\<exists>rs. rs_ranges s = Some rs \<and> (\<exists>w \<in> set ws. \<exists>r \<in> set rs. rangesOverlap r w)) \<or>
     (rs_fallback s \<and> (\<exists>t \<in> set ts. t \<in> rs_tables s))"

lemma fold_add_all: "set (fold (\<lambda>x keys. add_all (f x) keys) xs acc) = (\<Union>x \<in> set xs. set (f x)) \<union> set acc"
  "distinct acc \<Longrightarrow> distinct (fold (\<lambda>x keys. add_all (f x) keys) xs acc)"
  by (induction xs arbitrary: acc) auto

lemma rx_match_exact:
  assumes "rx_ok live ix" "rx_match writeRanges writeTables ix = Inr keys"
  shows "\<exists>ws. res_map deserializeKeyRange writeRanges = Inr ws \<and> distinct keys \<and>
    set keys = {k. \<exists>s. live k = Some s \<and> touches ws writeTables s}"
proof -
  note ok = assms(1)[unfolded rx_ok_def]
  obtain ws where ws: "res_map deserializeKeyRange writeRanges = Inr ws" and
    keys: "keys = fold (\<lambda>t keys. add_all (filter (\<lambda>k. k \<in> set (rx_tableFallbackKeys ix)) (bucket (rx_byTable ix) t)) keys) writeTables
              (fold (\<lambda>w keys. add_all (ii_queryOverlaps (rx_byRange ix) w) keys) ws [])"
    using assms(2) by (auto simp: rx_match_def res_bind_Inr_iff)
  have "set keys = (\<Union>t \<in> set writeTables. {k \<in> set (bucket (rx_byTable ix) t). k \<in> set (rx_tableFallbackKeys ix)}) \<union>
      (\<Union>w \<in> set ws. {v. \<exists>r. (r, v) \<in> ii_entries (rx_byRange ix) \<and> rangesOverlap r w})"
    using ok by (simp add: keys fold_add_all treaps.query_exact)
  also have "\<dots> = {k. \<exists>s. live k = Some s \<and> touches ws writeTables s}"
    using ok by (fastforce simp: touches_def)
  finally show ?thesis using ws by (simp add: keys fold_add_all)
qed

section \<open>The subscription manager\<close>

record subscription =
  sb_sessionId :: jsstring
  sb_queryId :: int
  sb_udfPath :: jsstring
  sb_args :: json
  sb_tables :: "jsstring list"
  sb_readRanges :: "serialized_key_range list"
  sb_globalTables :: "jsstring list option"
  sb_byId :: "by_id_read option"
  sb_range :: "range_read option"
  sb_resumeKey :: "jsstring option"

definition subKey :: "jsstring \<Rightarrow> int \<Rightarrow> jsstring" where
  "subKey sessionId queryId = sessionId @ 32 # int_dec queryId"

record subscription_manager =
  sm_byKey :: "(jsstring, subscription) jsmap"
  sm_index :: read_index
  sm_byGlobalTable :: "(jsstring, jsstring list) jsmap"

definition newSubscriptionManager :: subscription_manager where
  "newSubscriptionManager = \<lparr>sm_byKey = [], sm_index = rx_empty, sm_byGlobalTable = []\<rparr>"

definition globals_of :: "subscription \<Rightarrow> jsstring list" where
  "globals_of sub = (case sb_globalTables sub of None \<Rightarrow> [] | Some ts \<Rightarrow> ts)"

definition global_delete :: "jsstring \<Rightarrow> jsstring \<Rightarrow> (jsstring, jsstring list) jsmap \<Rightarrow> (jsstring, jsstring list) jsmap" where
  "global_delete key t m =
     (case map_of m t of
        None \<Rightarrow> m
      | Some s \<Rightarrow> if removeAll key s = [] then AList.delete t m else AList.update t (removeAll key s) m)"

definition sm_removeKey :: "jsstring \<Rightarrow> subscription_manager \<Rightarrow> subscription_manager" where
  "sm_removeKey key m =
     (case map_of (sm_byKey m) key of
        None \<Rightarrow> m
      | Some existing \<Rightarrow>
          m\<lparr>sm_index := rx_unindex key (sb_tables existing) (sm_index m),
            sm_byGlobalTable := fold (global_delete key) (globals_of existing) (sm_byGlobalTable m),
            sm_byKey := AList.delete key (sm_byKey m)\<rparr>)"

definition sm_add :: "subscription \<Rightarrow> subscription_manager \<Rightarrow> subscription_manager \<times> js_error option" where
  "sm_add sub m =
     (let key = subKey (sb_sessionId sub) (sb_queryId sub);
          m1 = sm_removeKey key m;
          (ix, e) = rx_index key (sb_readRanges sub) (sb_tables sub) (sm_index m1);
          m2 = m1\<lparr>sm_byKey := AList.update key sub (sm_byKey m1), sm_index := ix\<rparr>
      in (case e of
            Some err \<Rightarrow> (m2, Some err)
          | None \<Rightarrow> (m2\<lparr>sm_byGlobalTable := fold (bucket_add key) (globals_of sub) (sm_byGlobalTable m2)\<rparr>, None)))"

definition sm_remove :: "jsstring \<Rightarrow> int \<Rightarrow> subscription_manager \<Rightarrow> subscription_manager" where
  "sm_remove sessionId queryId m = sm_removeKey (subKey sessionId queryId) m"

definition sm_removeSession :: "jsstring \<Rightarrow> subscription_manager \<Rightarrow> subscription_manager" where
  "sm_removeSession sessionId m =
     fold (\<lambda>key m. if starts_with (sessionId @ [32]) key then sm_removeKey key m else m) (map fst (sm_byKey m)) m"

definition sm_get :: "jsstring \<Rightarrow> int \<Rightarrow> subscription_manager \<Rightarrow> subscription option" where
  "sm_get sessionId queryId m = map_of (sm_byKey m) (subKey sessionId queryId)"

definition findAffectedByRanges ::
  "serialized_key_range list \<Rightarrow> jsstring list \<Rightarrow> subscription_manager \<Rightarrow> subscription list result" where
  "findAffectedByRanges writeRanges writeTables m =
     res_bind (rx_match writeRanges writeTables (sm_index m)) (\<lambda>keys.
       Inr (List.map_filter (map_of (sm_byKey m))
              (fold (\<lambda>t keys. add_all (bucket (sm_byGlobalTable m) t) keys) writeTables keys)))"

definition findAffectedByTables :: "jsstring list \<Rightarrow> subscription_manager \<Rightarrow> subscription list" where
  "findAffectedByTables tables m =
     map snd (fold (\<lambda>t out. fold (\<lambda>key out. case map_of (sm_byKey m) key of None \<Rightarrow> out | Some sub \<Rightarrow> AList.update key sub out)
                              (bucket (rx_byTable (sm_index m)) t) out) tables [])"

definition forSession :: "jsstring \<Rightarrow> subscription_manager \<Rightarrow> subscription list" where
  "forSession sessionId m = map snd (filter (\<lambda>e. starts_with (sessionId @ [32]) (fst e)) (sm_byKey m))"

definition sm_size :: "subscription_manager \<Rightarrow> nat" where
  "sm_size m = length (sm_byKey m)"

definition subscribedGlobalTables :: "subscription_manager \<Rightarrow> jsstring list" where
  "subscribedGlobalTables m = map fst (sm_byGlobalTable m)"

section \<open>The manager implements the linear scan\<close>

definition sub_reads :: "subscription \<Rightarrow> read_set" where
  "sub_reads sub = read_set_of (sb_readRanges sub) (sb_tables sub)"

text \<open>The global tables of a subscription whose read ranges did not decode were never indexed.\<close>

definition live_globals :: "subscription \<Rightarrow> jsstring set" where
  "live_globals sub = (case res_map deserializeKeyRange (sb_readRanges sub) of Inl _ \<Rightarrow> {} | Inr _ \<Rightarrow> set (globals_of sub))"

definition sm_ok :: "(jsstring \<Rightarrow> subscription option) \<Rightarrow> subscription_manager \<Rightarrow> bool" where
  "sm_ok live m \<longleftrightarrow> jsmap_ok (sm_byKey m) \<and> map_of (sm_byKey m) = live \<and>
     rx_ok (\<lambda>k. map_option sub_reads (live k)) (sm_index m) \<and>
     (\<forall>k t. k \<in> set (bucket (sm_byGlobalTable m) t) \<longleftrightarrow> (\<exists>s. live k = Some s \<and> t \<in> live_globals s)) \<and>
     (\<forall>t. map_of (sm_byGlobalTable m) t \<noteq> Some []) \<and>
     (\<forall>k s. live k = Some s \<longrightarrow> subKey (sb_sessionId s) (sb_queryId s) = k)"

lemma global_delete [simp]:
  "set (bucket (global_delete key t m) t') = (if t' = t then set (bucket m t) - {key} else set (bucket m t'))"
proof (cases "map_of m t")
  case (Some l)
  show ?thesis
  proof (cases "removeAll key l = []")
    case True
    then have "set l - {key} = {}" using set_removeAll[of key l] by simp
    then show ?thesis by (simp add: global_delete_def bucket_def Some True)
  qed (auto simp: global_delete_def bucket_def Some)
qed (simp add: global_delete_def bucket_def)

lemma global_delete_all:
  "set (bucket (fold (global_delete key) ts m) t) = (if t \<in> set ts then set (bucket m t) - {key} else set (bucket m t))"
  by (induction ts arbitrary: m) auto

lemma global_no_empty:
  "\<forall>t. map_of m t \<noteq> Some [] \<Longrightarrow> \<forall>t. map_of (fold (global_delete key) ts m) t \<noteq> Some []"
  "\<forall>t. map_of m t \<noteq> Some [] \<Longrightarrow> \<forall>t. map_of (fold (bucket_add key) ts m) t \<noteq> Some []"
proof -
  have "\<forall>t. map_of (global_delete key x m) t \<noteq> Some []" if "\<forall>t. map_of m t \<noteq> Some []" for x m
    using that by (auto simp: global_delete_def split: option.splits)
  then show "\<forall>t. map_of m t \<noteq> Some [] \<Longrightarrow> \<forall>t. map_of (fold (global_delete key) ts m) t \<noteq> Some []"
    by (induction ts arbitrary: m) simp_all
  have "\<forall>t. map_of (bucket_add key x m) t \<noteq> Some []" if "\<forall>t. map_of m t \<noteq> Some []" for x m
    using that by (auto simp: bucket_add_def set_add_def)
  then show "\<forall>t. map_of m t \<noteq> Some [] \<Longrightarrow> \<forall>t. map_of (fold (bucket_add key) ts m) t \<noteq> Some []"
    by (induction ts arbitrary: m) simp_all
qed

lemma sm_ok_new: "sm_ok (\<lambda>_. None) newSubscriptionManager"
  by (simp add: sm_ok_def newSubscriptionManager_def rx_ok_empty bucket_def)

lemma sm_ok_removeKey:
  assumes "sm_ok live m"
  shows "sm_ok (live(key := None)) (sm_removeKey key m)"
proof (cases "live key")
  case None
  then have "live(key := None) = live" "sm_removeKey key m = m"
    using assms by (auto simp: sm_ok_def sm_removeKey_def fun_eq_iff)
  then show ?thesis using assms by simp
next
  case (Some s)
  note ok = assms[unfolded sm_ok_def]
  have mo: "map_of (sm_byKey m) = live" using ok by blast
  have "rx_ok ((\<lambda>k. map_option sub_reads (live k))(key := None)) (rx_unindex key (sb_tables s) (sm_index m))"
    by (rule rx_ok_unindex[of _ _ _ "sub_reads s"]) (use ok Some in \<open>simp_all add: sub_reads_def read_set_of_def\<close>)
  moreover have "(\<lambda>k. map_option sub_reads (live k))(key := None) = (\<lambda>k. map_option sub_reads ((live(key := None)) k))" by auto
  ultimately have ix': "rx_ok (\<lambda>k. map_option sub_reads ((live(key := None)) k)) (rx_unindex key (sb_tables s) (sm_index m))" by simp
  have "live_globals s \<subseteq> set (globals_of s)" by (auto simp: live_globals_def split: sum.splits)
  then have gl: "(k \<in> set (bucket (fold (global_delete key) (globals_of s) (sm_byGlobalTable m)) t)) =
      (\<exists>s'. (live(key := None)) k = Some s' \<and> t \<in> live_globals s')" for k t
    using ok Some by (auto simp: global_delete_all)
  have mo': "map_of (AList.delete key (sm_byKey m)) = live(key := None)" by (auto simp: mo fun_eq_iff)
  have "sm_removeKey key m = m\<lparr>sm_index := rx_unindex key (sb_tables s) (sm_index m),
      sm_byGlobalTable := fold (global_delete key) (globals_of s) (sm_byGlobalTable m), sm_byKey := AList.delete key (sm_byKey m)\<rparr>"
    by (simp add: sm_removeKey_def mo Some)
  then show ?thesis using ok ix' gl global_no_empty(1)[of "sm_byGlobalTable m" key "globals_of s"]
    by (simp add: sm_ok_def mo' del: fun_upd_apply) (simp add: fun_upd_apply)
qed

lemma sm_okI:
  assumes "jsmap_ok (sm_byKey m)" "map_of (sm_byKey m) = live" "rx_ok (\<lambda>k. map_option sub_reads (live k)) (sm_index m)"
    and "\<And>k t. (k \<in> set (bucket (sm_byGlobalTable m) t)) = (\<exists>s. live k = Some s \<and> t \<in> live_globals s)"
    and "\<And>t. map_of (sm_byGlobalTable m) t \<noteq> Some []"
    and "\<And>k s. live k = Some s \<Longrightarrow> subKey (sb_sessionId s) (sb_queryId s) = k"
  shows "sm_ok live m"
  using assms unfolding sm_ok_def by blast

lemma sm_okD:
  assumes "sm_ok live m"
  shows "jsmap_ok (sm_byKey m)" "map_of (sm_byKey m) = live" "rx_ok (\<lambda>k. map_option sub_reads (live k)) (sm_index m)"
    "(k \<in> set (bucket (sm_byGlobalTable m) t)) = (\<exists>s. live k = Some s \<and> t \<in> live_globals s)"
    "map_of (sm_byGlobalTable m) t \<noteq> Some []"
    "live k = Some s \<Longrightarrow> subKey (sb_sessionId s) (sb_queryId s) = k"
  using assms unfolding sm_ok_def by blast+

lemma sm_ok_add:
  assumes "sm_ok live m"
  shows "sm_ok (live(subKey (sb_sessionId sub) (sb_queryId sub) \<mapsto> sub)) (fst (sm_add sub m))"
    and "snd (sm_add sub m) = (case res_map deserializeKeyRange (sb_readRanges sub) of Inl e \<Rightarrow> Some e | Inr _ \<Rightarrow> None)"
proof -
  let ?k = "subKey (sb_sessionId sub) (sb_queryId sub)"
  let ?m = "sm_removeKey ?k m"
  obtain ix e where ix: "rx_index ?k (sb_readRanges sub) (sb_tables sub) (sm_index ?m) = (ix, e)" by fastforce
  note ok = sm_okD[OF sm_ok_removeKey[OF assms, of ?k]]
  have rx: "rx_ok (\<lambda>k. map_option sub_reads ((live(?k := None)) k)) (sm_index ?m)" by (rule ok(3))
  have "(\<lambda>k. map_option sub_reads ((live(?k := None)) k))(?k \<mapsto> read_set_of (sb_readRanges sub) (sb_tables sub)) =
      (\<lambda>k. map_option sub_reads ((live(?k \<mapsto> sub)) k))" by (auto simp: sub_reads_def)
  then have rx': "rx_ok (\<lambda>k. map_option sub_reads ((live(?k \<mapsto> sub)) k)) ix"
    using rx_ok_index(1)[OF rx _ ix] by simp
  note e = rx_ok_index(2)[OF rx _ ix, simplified]
  show "snd (sm_add sub m) = (case res_map deserializeKeyRange (sb_readRanges sub) of Inl e \<Rightarrow> Some e | Inr _ \<Rightarrow> None)"
    by (simp add: sm_add_def Let_def ix e split: sum.splits)
  have byKey: "jsmap_ok (AList.update ?k sub (sm_byKey ?m))" "map_of (AList.update ?k sub (sm_byKey ?m)) = live(?k \<mapsto> sub)"
    using ok(1) by (auto simp: ok(2) fun_eq_iff)
  have keys: "subKey (sb_sessionId s) (sb_queryId s) = k" if "(live(?k \<mapsto> sub)) k = Some s" for k s
    using that ok(6)[of k s] by (auto split: if_splits)
  show "sm_ok (live(?k \<mapsto> sub)) (fst (sm_add sub m))"
  proof (cases "res_map deserializeKeyRange (sb_readRanges sub)")
    case (Inl err)
    then have m': "fst (sm_add sub m) = ?m\<lparr>sm_byKey := AList.update ?k sub (sm_byKey ?m), sm_index := ix\<rparr>"
      by (simp add: sm_add_def Let_def ix e)
    have "live_globals sub = {}" by (simp add: live_globals_def Inl)
    then have "(k \<in> set (bucket (sm_byGlobalTable ?m) t)) = (\<exists>s. (live(?k \<mapsto> sub)) k = Some s \<and> t \<in> live_globals s)" for k t
      unfolding ok(4) by auto
    then show ?thesis unfolding m' using byKey rx' ok(5) by (intro sm_okI[OF _ _ _ _ _ keys]) simp_all
  next
    case (Inr ranges)
    then have m': "fst (sm_add sub m) = ?m\<lparr>sm_byKey := AList.update ?k sub (sm_byKey ?m), sm_index := ix,
        sm_byGlobalTable := fold (bucket_add ?k) (globals_of sub) (sm_byGlobalTable ?m)\<rparr>"
      by (simp add: sm_add_def Let_def ix e)
    have lg: "live_globals sub = set (globals_of sub)" by (simp add: live_globals_def Inr)
    have "(k \<in> set (bucket (fold (bucket_add ?k) (globals_of sub) (sm_byGlobalTable ?m)) t)) =
        (\<exists>s. (live(?k \<mapsto> sub)) k = Some s \<and> t \<in> live_globals s)" for k t
      using lg ok(4)[of _ t] by (auto simp: bucket_add_all)
    moreover have "map_of (fold (bucket_add ?k) (globals_of sub) (sm_byGlobalTable ?m)) t \<noteq> Some []" for t
      using global_no_empty(2)[of "sm_byGlobalTable ?m"] ok(5) by blast
    ultimately show ?thesis unfolding m' using byKey rx' by (intro sm_okI[OF _ _ _ _ _ keys]) simp_all
  qed
qed

lemma sm_ok_removeSession:
  assumes "sm_ok live m"
  shows "sm_ok (\<lambda>k. if starts_with (sessionId @ [32]) k then None else live k) (sm_removeSession sessionId m)"
proof -
  have "sm_ok (\<lambda>k. if starts_with p k \<and> k \<in> set ks then None else live k)
      (fold (\<lambda>key m. if starts_with p key then sm_removeKey key m else m) ks m)" if "sm_ok live m" for ks p m live
    using that
  proof (induction ks arbitrary: live m)
    case (Cons key ks)
    have "sm_ok (if starts_with p key then live(key := None) else live) (if starts_with p key then sm_removeKey key m else m)"
      using Cons.prems sm_ok_removeKey by simp
    note ih = Cons.IH[OF this]
    have "(\<lambda>k. if starts_with p k \<and> k \<in> set ks then None else (if starts_with p key then live(key := None) else live) k) =
        (\<lambda>k. if starts_with p k \<and> k \<in> set (key # ks) then None else live k)" by (auto simp: fun_eq_iff)
    then show ?case using ih by (simp only: fold_simps)
  qed simp
  from this[OF assms, of "sessionId @ [32]" "map fst (sm_byKey m)"]
  have "sm_ok (\<lambda>k. if starts_with (sessionId @ [32]) k \<and> k \<in> set (map fst (sm_byKey m)) then None else live k)
      (sm_removeSession sessionId m)" by (simp only: sm_removeSession_def)
  moreover have "k \<in> set (map fst (sm_byKey m)) \<longleftrightarrow> live k \<noteq> None" for k
    unfolding sm_okD(2)[OF assms, symmetric] by (metis domIff dom_map_of_conv_image_fst set_map)
  then have "(\<lambda>k. if starts_with (sessionId @ [32]) k \<and> k \<in> set (map fst (sm_byKey m)) then None else live k) =
      (\<lambda>k. if starts_with (sessionId @ [32]) k then None else live k)" by (auto simp: fun_eq_iff)
  ultimately show ?thesis by simp
qed

datatype sm_op = SubAdd subscription | SubRemove jsstring int | SubRemoveSession jsstring

fun sm_run :: "subscription_manager \<Rightarrow> sm_op \<Rightarrow> subscription_manager" where
  "sm_run m (SubAdd sub) = fst (sm_add sub m)"
| "sm_run m (SubRemove sessionId queryId) = sm_remove sessionId queryId m"
| "sm_run m (SubRemoveSession sessionId) = sm_removeSession sessionId m"

fun live_run :: "(jsstring \<Rightarrow> subscription option) \<Rightarrow> sm_op \<Rightarrow> (jsstring \<Rightarrow> subscription option)" where
  "live_run live (SubAdd sub) = live(subKey (sb_sessionId sub) (sb_queryId sub) \<mapsto> sub)"
| "live_run live (SubRemove sessionId queryId) = live(subKey sessionId queryId := None)"
| "live_run live (SubRemoveSession sessionId) = (\<lambda>k. if starts_with (sessionId @ [32]) k then None else live k)"

definition live_subs :: "sm_op list \<Rightarrow> jsstring \<Rightarrow> subscription option" where
  "live_subs ops = foldl live_run (\<lambda>_. None) ops"

lemma sm_run_ok: "sm_ok (live_subs ops) (foldl sm_run newSubscriptionManager ops)"
proof (induction ops rule: rev_induct)
  case (snoc op ops)
  then show ?case
    by (cases op) (simp_all add: live_subs_def sm_ok_add sm_ok_removeSession sm_remove_def sm_ok_removeKey del: fun_upd_apply)
qed (simp add: live_subs_def sm_ok_new)

lemma set_map_filter_iff: "y \<in> set (List.map_filter f xs) \<longleftrightarrow> (\<exists>x \<in> set xs. f x = Some y)"
  by (induction xs) (auto simp: map_filter_simps split: option.splits)

lemma findAffected_spec:
  assumes "sm_ok live m" "findAffectedByRanges ranges tables m = Inr subs" "res_map deserializeKeyRange ranges = Inr ws"
  shows "distinct subs \<and> set subs = {s. live (subKey (sb_sessionId s) (sb_queryId s)) = Some s \<and>
    (touches ws tables (sub_reads s) \<or> (\<exists>t \<in> set tables. t \<in> live_globals s))}"
proof -
  note ok = sm_okD[OF assms(1)]
  obtain ks where ks: "rx_match ranges tables (sm_index m) = Inr ks"
    using assms(2) by (auto simp: findAffectedByRanges_def res_bind_Inr_iff)
  let ?keys = "fold (\<lambda>t keys. add_all (bucket (sm_byGlobalTable m) t) keys) tables ks"
  have subs: "subs = List.map_filter live ?keys"
    using assms(2) by (simp add: findAffectedByRanges_def ks ok(2))
  have k: "distinct ks" "set ks = {k. \<exists>s. map_option sub_reads (live k) = Some s \<and> touches ws tables s}"
    using rx_match_exact[OF ok(3) ks] assms(3) by auto
  have keys: "distinct ?keys" "set ?keys = {k. \<exists>s. live k = Some s \<and> (touches ws tables (sub_reads s) \<or> (\<exists>t \<in> set tables. t \<in> live_globals s))}"
    using k(1) by (simp add: fold_add_all) (auto simp: fold_add_all k(2) ok(4))
  have inj: "distinct ks' \<Longrightarrow> distinct (List.map_filter live ks')" for ks'
    by (induction ks') (auto simp: map_filter_simps set_map_filter_iff dest!: ok(6) split: option.splits)
  have "x \<in> set subs \<longleftrightarrow> live (subKey (sb_sessionId x) (sb_queryId x)) = Some x \<and>
      (touches ws tables (sub_reads x) \<or> (\<exists>t \<in> set tables. t \<in> live_globals x))" for x
  proof -
    define Q where "Q s \<longleftrightarrow> touches ws tables (sub_reads s) \<or> (\<exists>t \<in> set tables. t \<in> live_globals s)" for s
    have "x \<in> set subs \<longleftrightarrow> (\<exists>k. live k = Some x \<and> Q x)"
      unfolding subs set_map_filter_iff keys(2) Q_def[symmetric] by auto
    also have "\<dots> \<longleftrightarrow> live (subKey (sb_sessionId x) (sb_queryId x)) = Some x \<and> Q x" using ok(6)[of _ x] by metis
    finally show ?thesis by (simp only: Q_def)
  qed
  then have "set subs = {s. live (subKey (sb_sessionId s) (sb_queryId s)) = Some s \<and>
      (touches ws tables (sub_reads s) \<or> (\<exists>t \<in> set tables. t \<in> live_globals s))}" by blast
  then show ?thesis using inj[OF keys(1)] subs by simp
qed

text \<open>C3. Whatever subscriptions were added, refreshed and removed, a write is answered with exactly the
  live subscriptions a linear scan would find: those with a read range overlapping a written range,
  those without read ranges that read a written table, and those that read a written global table;
  each once.\<close>

theorem findAffectedByRanges_exact:
  assumes "findAffectedByRanges ranges tables (foldl sm_run newSubscriptionManager ops) = Inr subs"
    and "res_map deserializeKeyRange ranges = Inr ws"
  shows "distinct subs \<and> set subs = {s. live_subs ops (subKey (sb_sessionId s) (sb_queryId s)) = Some s \<and>
    (touches ws tables (sub_reads s) \<or> (\<exists>t \<in> set tables. t \<in> live_globals s))}"
  by (rule findAffected_spec[OF sm_run_ok assms])

definition sample_sub :: subscription where
  "sample_sub = \<lparr>sb_sessionId = js ''ws-1'', sb_queryId = 1, sb_udfPath = [], sb_args = JNull, sb_tables = [js ''notes''],
     sb_readRanges = [], sb_globalTables = None, sb_byId = None, sb_range = None, sb_resumeKey = None\<rparr>"

theorem findAffectedByRanges_exact_witness:
  "\<exists>subs. findAffectedByRanges [] [js ''notes''] (foldl sm_run newSubscriptionManager [SubAdd sample_sub]) = Inr subs \<and>
     set subs = {sample_sub}"
proof -
  obtain subs where r: "findAffectedByRanges [] [js ''notes''] (foldl sm_run newSubscriptionManager [SubAdd sample_sub]) = Inr subs"
    by (simp add: findAffectedByRanges_def rx_match_def)
  have "set subs = {s. live_subs [SubAdd sample_sub] (subKey (sb_sessionId s) (sb_queryId s)) = Some s \<and>
      (touches [] [js ''notes''] (sub_reads s) \<or> (\<exists>t \<in> set [js ''notes'']. t \<in> live_globals s))}"
    using findAffectedByRanges_exact[OF r, of "[]"] by simp
  also have "\<dots> = {sample_sub}"
    by (auto simp: live_subs_def touches_def sub_reads_def sample_sub_def read_set_of_def split: if_splits)
  finally show ?thesis using r by blast
qed

section \<open>Sessions\<close>

lemma starts_with_iff: "starts_with p s \<longleftrightarrow> (\<exists>r. s = p @ r)"
proof
  show "starts_with p s \<Longrightarrow> \<exists>r. s = p @ r" unfolding starts_with_def by (metis append_take_drop_id)
qed (auto simp: starts_with_def)

lemma session_prefix:
  assumes "32 \<notin> set sessionId" "32 \<notin> set sessionId'"
  shows "starts_with (sessionId @ [32]) (subKey sessionId' queryId) \<longleftrightarrow> sessionId' = sessionId"
proof
  assume "starts_with (sessionId @ [32]) (subKey sessionId' queryId)"
  then obtain r where "sessionId' @ 32 # int_dec queryId = sessionId @ 32 # r"
    by (auto simp: starts_with_iff subKey_def)
  then show "sessionId' = sessionId" using assms by (metis js_cut_append old.prod.inject option.inject)
qed (auto simp: starts_with_iff subKey_def)

text \<open>With session ids that hold no space, as the server mints them, dropping a session removes
  exactly its subscriptions and listing it finds exactly them.\<close>

theorem removeSession_exact:
  assumes "m = foldl sm_run newSubscriptionManager ops"
    and "\<forall>op \<in> set ops. case op of SubAdd sub \<Rightarrow> 32 \<notin> set (sb_sessionId sub) | _ \<Rightarrow> True" and "32 \<notin> set sessionId"
  shows "map_of (sm_byKey (sm_removeSession sessionId m)) =
      (\<lambda>k. case map_of (sm_byKey m) k of None \<Rightarrow> None | Some s \<Rightarrow> if sb_sessionId s = sessionId then None else Some s) \<and>
    set (forSession sessionId m) = {s. s \<in> snd ` set (sm_byKey m) \<and> sb_sessionId s = sessionId}"
proof -
  have ok: "sm_ok (live_subs ops) m" unfolding assms(1) by (rule sm_run_ok)
  have "\<forall>k s. live_subs ops k = Some s \<longrightarrow> 32 \<notin> set (sb_sessionId s)"
    using assms(2) unfolding live_subs_def
  proof (induction ops rule: rev_induct)
    case (snoc op ops)
    then show ?case by (cases op) auto
  qed simp
  then have pre: "starts_with (sessionId @ [32]) k \<longleftrightarrow> sb_sessionId s = sessionId" if "live_subs ops k = Some s" for k s
    using session_prefix[OF assms(3), of "sb_sessionId s" "sb_queryId s"] sm_okD(6)[OF ok that] that by simp
  have mo: "map_of (sm_byKey m) = live_subs ops" by (rule sm_okD(2)[OF ok])
  have "map_of (sm_byKey (sm_removeSession sessionId m)) = (\<lambda>k. if starts_with (sessionId @ [32]) k then None else live_subs ops k)"
    by (rule sm_okD(2)[OF sm_ok_removeSession[OF ok]])
  moreover have "set (forSession sessionId m) = {s. \<exists>k. live_subs ops k = Some s \<and> starts_with (sessionId @ [32]) k}"
    unfolding forSession_def mo[symmetric] using jsmap_in_set_iff[OF sm_okD(1)[OF ok]] by force
  moreover have "snd ` set (sm_byKey m) = {s. \<exists>k. live_subs ops k = Some s}"
    unfolding mo[symmetric] using jsmap_in_set_iff[OF sm_okD(1)[OF ok]] by force
  ultimately show ?thesis using pre by (auto simp: mo fun_eq_iff split: option.splits)
qed

theorem removeSession_exact_witness:
  "set (forSession (js ''ws-1'') (foldl sm_run newSubscriptionManager [SubAdd sample_sub])) =
     {s. s \<in> snd ` set (sm_byKey (foldl sm_run newSubscriptionManager [SubAdd sample_sub])) \<and> sb_sessionId s = js ''ws-1''}"
  by (rule removeSession_exact[OF refl, THEN conjunct2]) (simp_all add: sample_sub_def js_def)

end
