(* ===== verification/Resume.thy ===== *)
theory Resume
  imports Subscriptions
begin

text \<open>
  \<^verbatim>\<open>packages/sync/src/resume-registry.ts\<close>: for every live query, through which timestamp its result is
  known to be current, so that a reconnecting client can be told its cached result still holds.
\<close>

section \<open>The registry\<close>

definition TTL_MS :: int where
  "TTL_MS = 60000"

text \<open>\<open>argsText\<close> is \<^verbatim>\<open>JSON.stringify(argsJson)\<close>.\<close>

definition regKey :: "jsstring option \<Rightarrow> jsstring \<Rightarrow> jsstring \<Rightarrow> jsstring" where
  "regKey identity path argsText = (case identity of None \<Rightarrow> [] | Some i \<Rightarrow> i) @ 32 # path @ 32 # argsText"

record resume_entry =
  rg_readRanges :: "serialized_key_range list"
  rg_tables :: "jsstring list"
  rg_globalTables :: "jsstring list"
  rg_lastInvalidatedTs :: int
  rg_wasDiffable :: bool
  rg_refCount :: int
  rg_expiresAtMs :: "int option"

record resume_lookup =
  lk_readRanges :: "serialized_key_range list"
  lk_tables :: "jsstring list"
  lk_globalTables :: "jsstring list"
  lk_lastInvalidatedTs :: int
  lk_wasDiffable :: bool

record resume_registry =
  rg_entries :: "(jsstring, resume_entry) jsmap"
  rg_index :: read_index

definition newResumeRegistry :: resume_registry where
  "newResumeRegistry = \<lparr>rg_entries = [], rg_index = rx_empty\<rparr>"

definition rg_unindex :: "jsstring \<Rightarrow> resume_registry \<Rightarrow> resume_registry" where
  "rg_unindex key reg =
     (case map_of (rg_entries reg) key of
        None \<Rightarrow> reg
      | Some existing \<Rightarrow> reg\<lparr>rg_index := rx_unindex key (rg_tables existing) (rg_index reg)\<rparr>)"

definition rg_upsert ::
  "jsstring \<Rightarrow> serialized_key_range list \<Rightarrow> jsstring list \<Rightarrow> int \<Rightarrow> bool \<Rightarrow> jsstring list \<Rightarrow> resume_registry \<Rightarrow>
     resume_registry \<times> js_error option" where
  "rg_upsert key readRanges tables atTs wasDiffable globalTables reg =
     (let existing = map_of (rg_entries reg) key;
          lastInvalidatedTs = max (case existing of None \<Rightarrow> atTs | Some e \<Rightarrow> rg_lastInvalidatedTs e) atTs;
          refCount = (case existing of None \<Rightarrow> 0 | Some e \<Rightarrow> rg_refCount e);
          reg1 = rg_unindex key reg;
          entry = \<lparr>rg_readRanges = readRanges, rg_tables = tables, rg_globalTables = globalTables,
                   rg_lastInvalidatedTs = lastInvalidatedTs, rg_wasDiffable = wasDiffable, rg_refCount = refCount,
                   rg_expiresAtMs = None\<rparr>;
          (ix, e) = rx_index key readRanges tables (rg_index reg1)
      in (reg1\<lparr>rg_entries := AList.update key entry (rg_entries reg1), rg_index := ix\<rparr>, e))"

definition bump :: "int \<Rightarrow> jsstring \<Rightarrow> (jsstring, resume_entry) jsmap \<Rightarrow> (jsstring, resume_entry) jsmap" where
  "bump commitTs key m =
     (case map_of m key of
        None \<Rightarrow> m
      | Some e \<Rightarrow> AList.update key (e\<lparr>rg_lastInvalidatedTs := max (rg_lastInvalidatedTs e) commitTs\<rparr>) m)"

definition advanceOnCommit ::
  "serialized_key_range list \<Rightarrow> jsstring list \<Rightarrow> int \<Rightarrow> resume_registry \<Rightarrow> resume_registry result" where
  "advanceOnCommit writtenRanges writtenTables commitTs reg =
     res_bind (rx_match writtenRanges writtenTables (rg_index reg)) (\<lambda>keys.
       Inr (reg\<lparr>rg_entries := fold (bump commitTs) keys (rg_entries reg)\<rparr>))"

definition rg_lookup :: "jsstring \<Rightarrow> resume_registry \<Rightarrow> resume_lookup option" where
  "rg_lookup key reg =
     map_option (\<lambda>e. \<lparr>lk_readRanges = rg_readRanges e, lk_tables = rg_tables e, lk_globalTables = rg_globalTables e,
                      lk_lastInvalidatedTs = rg_lastInvalidatedTs e, lk_wasDiffable = rg_wasDiffable e\<rparr>)
       (map_of (rg_entries reg) key)"

definition rg_retain :: "jsstring \<Rightarrow> resume_registry \<Rightarrow> resume_registry" where
  "rg_retain key reg =
     (case map_of (rg_entries reg) key of
        None \<Rightarrow> reg
      | Some e \<Rightarrow> reg\<lparr>rg_entries := AList.update key (e\<lparr>rg_refCount := rg_refCount e + 1, rg_expiresAtMs := None\<rparr>) (rg_entries reg)\<rparr>)"

definition rg_release :: "jsstring \<Rightarrow> int \<Rightarrow> resume_registry \<Rightarrow> resume_registry" where
  "rg_release key nowMs reg =
     (case map_of (rg_entries reg) key of
        None \<Rightarrow> reg
      | Some e \<Rightarrow>
          (let e1 = e\<lparr>rg_refCount := rg_refCount e - 1\<rparr>;
               e2 = (if rg_refCount e1 \<le> 0 then e1\<lparr>rg_expiresAtMs := Some (nowMs + TTL_MS)\<rparr> else e1)
           in reg\<lparr>rg_entries := AList.update key e2 (rg_entries reg)\<rparr>))"

definition expired :: "int \<Rightarrow> resume_entry \<Rightarrow> bool" where
  "expired nowMs e = (rg_refCount e \<le> 0 \<and> (case rg_expiresAtMs e of None \<Rightarrow> False | Some t \<Rightarrow> t \<le> nowMs))"

definition rg_sweep :: "int \<Rightarrow> resume_registry \<Rightarrow> resume_registry" where
  "rg_sweep nowMs reg =
     fold (\<lambda>(key, e) reg. if expired nowMs e
             then (rg_unindex key reg)\<lparr>rg_entries := AList.delete key (rg_entries (rg_unindex key reg))\<rparr> else reg)
       (rg_entries reg) reg"

section \<open>Histories\<close>

datatype rg_op =
    RgUpsert jsstring "serialized_key_range list" "jsstring list" int bool "jsstring list"
  | RgAdvance "serialized_key_range list" "jsstring list" int
  | RgRetain jsstring
  | RgRelease jsstring int
  | RgSweep int

text \<open>A commit whose ranges do not decode leaves the registry as it was.\<close>

fun rg_run :: "resume_registry \<Rightarrow> rg_op \<Rightarrow> resume_registry" where
  "rg_run reg (RgUpsert key ranges tables ts diffable globals) = fst (rg_upsert key ranges tables ts diffable globals reg)"
| "rg_run reg (RgAdvance ranges tables ts) = (case advanceOnCommit ranges tables ts reg of Inl _ \<Rightarrow> reg | Inr reg' \<Rightarrow> reg')"
| "rg_run reg (RgRetain key) = rg_retain key reg"
| "rg_run reg (RgRelease key now) = rg_release key now reg"
| "rg_run reg (RgSweep now) = rg_sweep now reg"

text \<open>What happened to a key since it was last registered: its read set, the timestamp it was registered
  at, and the commits since.\<close>

record registration =
  rn_ranges :: "serialized_key_range list"
  rn_tables :: "jsstring list"
  rn_atTs :: int
  rn_commits :: "(serialized_key_range list \<times> jsstring list \<times> int) list"

fun since_run :: "(jsstring \<Rightarrow> registration option) \<Rightarrow> rg_op \<Rightarrow> jsstring \<Rightarrow> registration option" where
  "since_run g (RgUpsert key ranges tables ts diffable globals) =
     g(key \<mapsto> \<lparr>rn_ranges = ranges, rn_tables = tables, rn_atTs = ts, rn_commits = []\<rparr>)"
| "since_run g (RgAdvance ranges tables ts) = (\<lambda>k. map_option (\<lambda>n. n\<lparr>rn_commits := rn_commits n @ [(ranges, tables, ts)]\<rparr>) (g k))"
| "since_run g _ = g"

definition commit_touches :: "registration \<Rightarrow> serialized_key_range list \<times> jsstring list \<times> int \<Rightarrow> bool" where
  "commit_touches n c =
     (case c of (ranges, tables, _) \<Rightarrow>
        (case res_map deserializeKeyRange ranges of
           Inl _ \<Rightarrow> False
         | Inr ws \<Rightarrow> touches ws tables (read_set_of (rn_ranges n) (rn_tables n))))"

definition entry_sound :: "resume_entry \<Rightarrow> registration \<Rightarrow> bool" where
  "entry_sound e n \<longleftrightarrow> rg_readRanges e = rn_ranges n \<and> rg_tables e = rn_tables n \<and> rn_atTs n \<le> rg_lastInvalidatedTs e \<and>
     (\<forall>c \<in> set (rn_commits n). commit_touches n c \<longrightarrow> snd (snd c) \<le> rg_lastInvalidatedTs e)"

definition rg_ok :: "(jsstring \<Rightarrow> registration option) \<Rightarrow> resume_registry \<Rightarrow> bool" where
  "rg_ok g reg \<longleftrightarrow> jsmap_ok (rg_entries reg) \<and>
     rx_ok (\<lambda>k. map_option (\<lambda>e. read_set_of (rg_readRanges e) (rg_tables e)) (map_of (rg_entries reg) k)) (rg_index reg) \<and>
     (\<forall>k e. map_of (rg_entries reg) k = Some e \<longrightarrow> (\<exists>n. g k = Some n \<and> entry_sound e n))"

lemma commit_touches_commits [simp]: "commit_touches (n\<lparr>rn_commits := cs\<rparr>) c = commit_touches n c"
  by (cases c) (simp add: commit_touches_def cong: sum.case_cong)

lemma rg_okD:
  assumes "rg_ok g reg"
  shows "jsmap_ok (rg_entries reg)"
    "rx_ok (\<lambda>k. map_option (\<lambda>e. read_set_of (rg_readRanges e) (rg_tables e)) (map_of (rg_entries reg) k)) (rg_index reg)"
    "map_of (rg_entries reg) k = Some e \<Longrightarrow> \<exists>n. g k = Some n \<and> entry_sound e n"
  using assms unfolding rg_ok_def by blast+

lemma rg_ok_new: "rg_ok (\<lambda>_. None) newResumeRegistry"
  by (simp add: rg_ok_def newResumeRegistry_def rx_ok_empty)

lemma rg_unindex_index:
  assumes "rg_ok g reg"
  shows "rx_ok (\<lambda>k. if k = key then None else map_option (\<lambda>e. read_set_of (rg_readRanges e) (rg_tables e)) (map_of (rg_entries reg) k))
      (rg_index (rg_unindex key reg))" "rg_entries (rg_unindex key reg) = rg_entries reg"
proof -
  let ?live = "\<lambda>k. map_option (\<lambda>e. read_set_of (rg_readRanges e) (rg_tables e)) (map_of (rg_entries reg) k)"
  have "rx_ok (?live(key := None)) (rg_index (rg_unindex key reg))"
  proof (cases "map_of (rg_entries reg) key")
    case None
    then have "?live(key := None) = ?live" by auto
    then show ?thesis using rg_okD(2)[OF assms] None by (simp add: rg_unindex_def)
  next
    case (Some e)
    have "rx_ok (?live(key := None)) (rx_unindex key (rg_tables e) (rg_index reg))"
      by (rule rx_ok_unindex[OF rg_okD(2)[OF assms], of _ "read_set_of (rg_readRanges e) (rg_tables e)"])
         (simp_all add: Some read_set_of_def)
    then show ?thesis by (simp add: rg_unindex_def Some)
  qed
  then show "rx_ok (\<lambda>k. if k = key then None else ?live k) (rg_index (rg_unindex key reg))"
    by (simp only: fun_upd_def)
  show "rg_entries (rg_unindex key reg) = rg_entries reg" by (simp add: rg_unindex_def split: option.splits)
qed

text \<open>Changing an entry without its read set.\<close>

lemma rg_ok_update:
  assumes "rg_ok g reg" "map_of (rg_entries reg) key = Some e"
    and "rg_readRanges e' = rg_readRanges e" "rg_tables e' = rg_tables e" "rg_lastInvalidatedTs e \<le> rg_lastInvalidatedTs e'"
  shows "rg_ok g (reg\<lparr>rg_entries := AList.update key e' (rg_entries reg)\<rparr>)"
proof -
  have "(\<lambda>k. map_option (\<lambda>e. read_set_of (rg_readRanges e) (rg_tables e)) (map_of (AList.update key e' (rg_entries reg)) k)) =
      (\<lambda>k. map_option (\<lambda>e. read_set_of (rg_readRanges e) (rg_tables e)) (map_of (rg_entries reg) k))"
    using assms(2-4) by (auto simp: fun_eq_iff)
  moreover have "\<exists>n. g key = Some n \<and> entry_sound e' n"
    using rg_okD(3)[OF assms(1,2)] assms(3-5) by (fastforce simp: entry_sound_def)
  ultimately show ?thesis using assms(1) unfolding rg_ok_def by auto
qed

lemma rg_ok_upsert:
  assumes "rg_ok g reg"
  shows "rg_ok (since_run g (RgUpsert key ranges tables ts diffable globals)) (fst (rg_upsert key ranges tables ts diffable globals reg))"
proof -
  let ?reg = "rg_unindex key reg"
  obtain ix e where ix: "rx_index key ranges tables (rg_index ?reg) = (ix, e)" by fastforce
  obtain entry where up: "fst (rg_upsert key ranges tables ts diffable globals reg) =
      ?reg\<lparr>rg_entries := AList.update key entry (rg_entries reg), rg_index := ix\<rparr>"
    and entry: "rg_readRanges entry = ranges" "rg_tables entry = tables" "ts \<le> rg_lastInvalidatedTs entry"
    by (simp add: rg_upsert_def Let_def ix rg_unindex_index(2)[OF assms])
  have "rx_ok ((\<lambda>k. if k = key then None else map_option (\<lambda>e. read_set_of (rg_readRanges e) (rg_tables e)) (map_of (rg_entries reg) k))
      (key \<mapsto> read_set_of ranges tables)) ix"
    by (rule rx_ok_index(1)[OF rg_unindex_index(1)[OF assms] _ ix]) simp
  also have "((\<lambda>k. if k = key then None else map_option (\<lambda>e. read_set_of (rg_readRanges e) (rg_tables e)) (map_of (rg_entries reg) k))
      (key \<mapsto> read_set_of ranges tables)) =
      (\<lambda>k. map_option (\<lambda>e. read_set_of (rg_readRanges e) (rg_tables e)) (map_of (AList.update key entry (rg_entries reg)) k))"
    using entry by (auto simp: fun_eq_iff)
  finally show ?thesis unfolding up using rg_okD(1,3)[OF assms] entry
    by (auto simp: rg_ok_def entry_sound_def split: if_splits)
qed

lemma fold_bump: "map_of (fold (bump ts) ks m) k =
    map_option (\<lambda>e. if k \<in> set ks then e\<lparr>rg_lastInvalidatedTs := max (rg_lastInvalidatedTs e) ts\<rparr> else e) (map_of m k)"
proof (induction ks arbitrary: m)
  case (Cons x ks)
  have "map_of (bump ts x m) k =
      map_option (\<lambda>e. if k = x then e\<lparr>rg_lastInvalidatedTs := max (rg_lastInvalidatedTs e) ts\<rparr> else e) (map_of m k)"
    by (cases "map_of m k") (auto simp: bump_def split: option.splits)
  then show ?case by (cases "map_of m k") (simp_all add: Cons.IH)
qed (simp add: option.map_ident)

lemma jsmap_ok_fold_bump: "jsmap_ok m \<Longrightarrow> jsmap_ok (fold (bump ts) ks m)"
proof (induction ks arbitrary: m)
  case (Cons x ks)
  have "jsmap_ok (bump ts x m)" using Cons.prems by (auto simp: bump_def split: option.splits)
  then show ?case using Cons.IH by simp
qed simp

lemma rg_ok_advance:
  assumes "rg_ok g reg"
  shows "rg_ok (since_run g (RgAdvance ranges tables ts)) (rg_run reg (RgAdvance ranges tables ts))"
proof (cases "rx_match ranges tables (rg_index reg)")
  case (Inl err)
  then have "\<exists>e. res_map deserializeKeyRange ranges = Inl e" by (auto simp: rx_match_def res_bind_Inl_iff)
  then have "\<not> commit_touches n (ranges, tables, ts)" for n by (auto simp: commit_touches_def)
  then have snd: "entry_sound e n \<Longrightarrow> entry_sound e (n\<lparr>rn_commits := rn_commits n @ [(ranges, tables, ts)]\<rparr>)" for e n
    by (auto simp: entry_sound_def)
  have "rg_run reg (RgAdvance ranges tables ts) = reg" by (simp add: advanceOnCommit_def Inl)
  then show ?thesis using assms snd unfolding rg_ok_def by fastforce
next
  case (Inr keys)
  let ?bump = "\<lambda>e. e\<lparr>rg_lastInvalidatedTs := max (rg_lastInvalidatedTs e) ts\<rparr>"
  have run: "rg_run reg (RgAdvance ranges tables ts) = reg\<lparr>rg_entries := fold (bump ts) keys (rg_entries reg)\<rparr>"
    by (simp add: advanceOnCommit_def Inr)
  obtain ws where ws: "res_map deserializeKeyRange ranges = Inr ws" and
    keys: "set keys = {k. \<exists>s. map_option (\<lambda>e. read_set_of (rg_readRanges e) (rg_tables e)) (map_of (rg_entries reg) k) = Some s \<and> touches ws tables s}"
    using rx_match_exact[OF rg_okD(2)[OF assms] Inr] by blast
  have same: "(\<lambda>k. map_option (\<lambda>e. read_set_of (rg_readRanges e) (rg_tables e)) (map_of (fold (bump ts) keys (rg_entries reg)) k)) =
      (\<lambda>k. map_option (\<lambda>e. read_set_of (rg_readRanges e) (rg_tables e)) (map_of (rg_entries reg) k))"
    by (auto simp: fun_eq_iff fold_bump option.map_comp comp_def intro!: option.map_cong)
  have "\<exists>n. since_run g (RgAdvance ranges tables ts) k = Some n \<and> entry_sound e' n"
    if k: "map_of (fold (bump ts) keys (rg_entries reg)) k = Some e'" for k e'
  proof -
    obtain e where e: "map_of (rg_entries reg) k = Some e" "e' = (if k \<in> set keys then ?bump e else e)"
      using k by (auto simp: fold_bump)
    obtain n where n: "g k = Some n" "entry_sound e n" using rg_okD(3)[OF assms e(1)] by blast
    have "k \<in> set keys" if "commit_touches n (ranges, tables, ts)"
      using that n(2) e(1) by (simp add: keys commit_touches_def ws entry_sound_def)
    then have "entry_sound e' (n\<lparr>rn_commits := rn_commits n @ [(ranges, tables, ts)]\<rparr>)"
      using n(2) by (auto simp: entry_sound_def e(2) le_max_iff_disj)
    then show ?thesis using n(1) by simp
  qed
  then show ?thesis unfolding run using rg_okD(1,2)[OF assms] by (simp add: rg_ok_def same jsmap_ok_fold_bump del: since_run.simps)
qed

lemma rg_ok_delete:
  assumes "rg_ok g reg"
  shows "rg_ok g ((rg_unindex key reg)\<lparr>rg_entries := AList.delete key (rg_entries (rg_unindex key reg))\<rparr>)"
proof -
  have "(\<lambda>k. map_option (\<lambda>e. read_set_of (rg_readRanges e) (rg_tables e)) (map_of (AList.delete key (rg_entries reg)) k)) =
      (\<lambda>k. if k = key then None else map_option (\<lambda>e. read_set_of (rg_readRanges e) (rg_tables e)) (map_of (rg_entries reg) k))"
    by (auto simp: fun_eq_iff)
  then show ?thesis using rg_unindex_index[OF assms, of key] rg_okD(1,3)[OF assms]
    by (auto simp: rg_ok_def split: if_splits)
qed

lemma rg_ok_run: "rg_ok g reg \<Longrightarrow> rg_ok (since_run g op) (rg_run reg op)"
proof (cases op)
  case (RgRetain key)
  then show "rg_ok g reg \<Longrightarrow> ?thesis" by (auto simp: rg_retain_def intro: rg_ok_update split: option.splits)
next
  case (RgRelease key now)
  then show "rg_ok g reg \<Longrightarrow> ?thesis" by (auto simp: rg_release_def Let_def intro: rg_ok_update split: option.splits)
next
  case (RgSweep now)
  have "rg_ok g (fold (\<lambda>(key, e) reg. if expired now e
      then (rg_unindex key reg)\<lparr>rg_entries := AList.delete key (rg_entries (rg_unindex key reg))\<rparr> else reg) es reg)"
    if "rg_ok g reg" for es using that
  proof (induction es arbitrary: reg)
    case (Cons x es)
    obtain key e where x: "x = (key, e)" by fastforce
    show ?case using Cons.IH[OF Cons.prems] Cons.IH[OF rg_ok_delete[OF Cons.prems, of key]] by (simp add: x)
  qed simp
  then show "rg_ok g reg \<Longrightarrow> ?thesis" by (simp add: RgSweep rg_sweep_def)
qed (simp_all add: rg_ok_upsert rg_ok_advance del: since_run.simps rg_run.simps(2) add: rg_run.simps(1))

lemma rg_ok_runs: "rg_ok (foldl since_run (\<lambda>_. None) ops) (foldl rg_run newResumeRegistry ops)"
  by (induction ops rule: rev_induct) (simp_all add: rg_ok_new rg_ok_run)

text \<open>C18. After any history of registrations, commits, releases and sweeps, an entry that is found has
  the read set it was last registered with, and its timestamp is at least its registration timestamp
  and the timestamp of every commit since then that touches its read set.  So a client whose cached
  result is at least as new has missed no write since the registration.\<close>

theorem resume_entry_current:
  assumes "rg_lookup key (foldl rg_run newResumeRegistry ops) = Some l" "lk_lastInvalidatedTs l \<le> sinceTs"
  shows "\<exists>n. foldl since_run (\<lambda>_. None) ops key = Some n \<and> lk_readRanges l = rn_ranges n \<and> lk_tables l = rn_tables n \<and>
    rn_atTs n \<le> sinceTs \<and> (\<forall>c \<in> set (rn_commits n). commit_touches n c \<longrightarrow> snd (snd c) \<le> sinceTs)"
proof -
  obtain e where e: "map_of (rg_entries (foldl rg_run newResumeRegistry ops)) key = Some e"
    "lk_readRanges l = rg_readRanges e" "lk_tables l = rg_tables e" "lk_lastInvalidatedTs l = rg_lastInvalidatedTs e"
    using assms(1) by (auto simp: rg_lookup_def)
  obtain n where n: "foldl since_run (\<lambda>_. None) ops key = Some n" "entry_sound e n"
    using rg_okD(3)[OF rg_ok_runs e(1)] by blast
  have "lk_readRanges l = rn_ranges n" "lk_tables l = rn_tables n" "rn_atTs n \<le> sinceTs"
    using n(2) assms(2) e(2-4) by (simp_all add: entry_sound_def)
  moreover have "\<forall>c \<in> set (rn_commits n). commit_touches n c \<longrightarrow> snd (snd c) \<le> sinceTs"
    using n(2) assms(2) e(4) unfolding entry_sound_def by fastforce
  ultimately show ?thesis using n(1) by blast
qed

theorem resume_entry_current_witness:
  "\<exists>l n. rg_lookup [113] (foldl rg_run newResumeRegistry [RgUpsert [113] [] [[116]] 3 False [], RgAdvance [] [[116]] 5]) = Some l \<and>
     foldl since_run (\<lambda>_. None) [RgUpsert [113] [] [[116]] 3 False [], RgAdvance [] [[116]] 5] [113] = Some n \<and>
     rn_commits n = [([], [[116]], 5)] \<and> (commit_touches n ([], [[116]], 5) \<longrightarrow> 5 \<le> (5 :: int))"
proof -
  let ?ops = "[RgUpsert [113] [] [[116]] 3 False [], RgAdvance [] [[116]] 5]"
  obtain l where l: "rg_lookup [113] (foldl rg_run newResumeRegistry ?ops) = Some l" "lk_lastInvalidatedTs l \<le> 5"
    by (simp add: rg_upsert_def newResumeRegistry_def rg_unindex_def rx_index_def rx_empty_def advanceOnCommit_def rx_match_def
        add_all_def bucket_def bucket_add_def set_add_def bump_def rg_lookup_def)
  show ?thesis using resume_entry_current[OF l] l(1) by auto
qed

end
