(* ===== verification/Sync_Handler.thy ===== *)
theory Sync_Handler
  imports Resume
begin

text \<open>
  The reactive tier's protocol and handler: \<^verbatim>\<open>packages/sync/src/protocol.ts\<close> and \<^verbatim>\<open>handler.ts\<close>.
  The handler serialises query-set changes and write notifications on one tail, so each is one
  function from the handler's state to the next.  A session object outlives its entry in the session
  map (a queued request still holds it), so it is passed and returned apart; \<open>put_session\<close> is
  what others see of the mutation.  Frames handed to the session's outbound controller are appended to
  \<open>se_sent\<close>.  The functions of the deployed application, the hash and \<^verbatim>\<open>JSON.stringify\<close> are the
  fields of \<open>handler_env\<close>: what they answer at the moment of the step.
\<close>

section \<open>The protocol (protocol.ts)\<close>

record state_version =
  sv_querySet :: int
  sv_ts :: int

definition INITIAL_VERSION :: state_version where
  "INITIAL_VERSION = \<lparr>sv_querySet = 0, sv_ts = 0\<rparr>"

definition versionsEqual :: "state_version \<Rightarrow> state_version \<Rightarrow> bool" where
  "versionsEqual a b = (sv_querySet a = sv_querySet b \<and> sv_ts a = sv_ts b)"

definition compareStateVersion :: "state_version \<Rightarrow> state_version \<Rightarrow> cmp" where
  "compareStateVersion a b =
     (if sv_querySet a \<noteq> sv_querySet b then (if sv_querySet a < sv_querySet b then CLt else CGt)
      else if sv_ts a \<noteq> sv_ts b then (if sv_ts a < sv_ts b then CLt else CGt) else CEq)"

definition isContiguous :: "state_version \<Rightarrow> state_version \<Rightarrow> bool" where
  "isContiguous prevEnd nextStart = versionsEqual prevEnd nextStart"

record query_request =
  rq_queryId :: int
  rq_udfPath :: jsstring
  rq_args :: json
  rq_resultHash :: "jsstring option"
  rq_sinceTs :: "int option"

record client_mutation_ref =
  cm_clientId :: jsstring
  cm_seq :: int

datatype mutation_verdict = Applied | Failed | Stale | Unknown

record client_mutation_verdict =
  cv_clientId :: jsstring
  cv_seq :: int
  cv_verdict :: mutation_verdict
  cv_commitTs :: "int option"
  cv_value :: "json option"
  cv_valueMissing :: bool
  cv_code :: "jsstring option"

datatype diff_reset = ResetRow | ResetRange scan_order | ResetPage scan_order page_meta

datatype state_modification =
    QueryUpdated int json "jsstring option"
  | QueryFailed int js_error
  | QueryRemoved int
  | QueryUnchanged int
  | QueryDiff int "change list" jsstring "diff_reset option" "jsstring option"

text \<open>An error stands for its message.\<close>

datatype server_message =
    Transition state_version state_version "state_modification list"
  | MutationSucceeded jsstring "json option" "int option" bool bool
  | MutationFailed jsstring "js_error + jsstring" "jsstring option"
  | ActionSucceeded jsstring json
  | ActionFailed jsstring js_error
  | ConnectAck bool "client_mutation_verdict list" jsstring
  | Broadcast jsstring json

section \<open>State (handler.ts)\<close>

record session =
  se_sessionId :: jsstring
  se_version :: state_version
  se_identity :: "jsstring option"
  se_privileged :: bool
  se_supportsQueryDiff :: bool
  se_sent :: "server_message list"

record handler =
  hd_sessions :: "(jsstring, session) jsmap"
  hd_subscriptions :: subscription_manager
  hd_pendingFrontiers :: "(jsstring, int) jsmap"
  hd_byIdRowMap :: "(jsstring, row_map) jsmap"
  hd_originResponseGates :: "(int, jsstring) jsmap"
  hd_resumeRegistry :: resume_registry

definition newHandler :: handler where
  "newHandler = \<lparr>hd_sessions = [], hd_subscriptions = newSubscriptionManager, hd_pendingFrontiers = [], hd_byIdRowMap = [],
     hd_originResponseGates = [], hd_resumeRegistry = newResumeRegistry\<rparr>"

record query_result =
  qr_value :: jvalue
  qr_tables :: "jsstring list"
  qr_readRanges :: "serialized_key_range list"
  qr_globalTables :: "jsstring list"
  qr_diffableRange :: "range_read option"
  qr_diffablePage :: "(range_read \<times> page_meta) option"

record handler_env =
  en_runQuery :: "jsstring \<Rightarrow> json \<Rightarrow> jsstring option \<Rightarrow> query_result result"
  en_runAdminQuery :: "jsstring \<Rightarrow> json \<Rightarrow> query_result result"
  en_hashValue :: "json \<Rightarrow> jsstring"
  en_stringify :: "json \<Rightarrow> jsstring"
  en_rowId :: "json \<Rightarrow> jsstring"
  en_now :: int

record sync_invalidation =
  si_tables :: "jsstring list"
  si_ranges :: "serialized_key_range list"
  si_commitTs :: int
  si_writtenDocs :: "written_doc list option"
  si_global :: bool

definition send :: "server_message \<Rightarrow> session \<Rightarrow> session" where
  "send msg se = se\<lparr>se_sent := se_sent se @ [msg]\<rparr>"

definition put_session :: "session \<Rightarrow> handler \<Rightarrow> handler" where
  "put_session se h =
     (case map_of (hd_sessions h) (se_sessionId se) of
        None \<Rightarrow> h
      | Some _ \<Rightarrow> h\<lparr>hd_sessions := AList.update (se_sessionId se) se (hd_sessions h)\<rparr>)"

definition newSession :: "jsstring \<Rightarrow> session" where
  "newSession sessionId =
     \<lparr>se_sessionId = sessionId, se_version = INITIAL_VERSION, se_identity = None, se_privileged = False,
      se_supportsQueryDiff = False, se_sent = []\<rparr>"

definition hd_connect :: "jsstring \<Rightarrow> handler \<Rightarrow> handler" where
  "hd_connect sessionId h = h\<lparr>hd_sessions := AList.update sessionId (newSession sessionId) (hd_sessions h)\<rparr>"

definition registerOriginResponseGate :: "int \<Rightarrow> jsstring option \<Rightarrow> handler \<Rightarrow> handler" where
  "registerOriginResponseGate commitTs origin h =
     (case origin of
        None \<Rightarrow> h
      | Some sid \<Rightarrow>
          (case map_of (hd_sessions h) sid of
             None \<Rightarrow> h
           | Some se \<Rightarrow>
               if \<not> se_supportsQueryDiff se then h
               else if map_of (hd_originResponseGates h) commitTs \<noteq> None then h
               else h\<lparr>hd_originResponseGates := AList.update commitTs sid (hd_originResponseGates h)\<rparr>))"

definition releaseOriginResponseGate :: "int \<Rightarrow> handler \<Rightarrow> handler" where
  "releaseOriginResponseGate commitTs h = h\<lparr>hd_originResponseGates := AList.delete commitTs (hd_originResponseGates h)\<rparr>"

definition clearByIdRowMapForSession :: "jsstring \<Rightarrow> handler \<Rightarrow> handler" where
  "clearByIdRowMapForSession sessionId h =
     h\<lparr>hd_byIdRowMap := filter (\<lambda>e. \<not> starts_with (sessionId @ [32]) (fst e)) (hd_byIdRowMap h)\<rparr>"

definition hd_disconnect :: "int \<Rightarrow> jsstring \<Rightarrow> handler \<Rightarrow> handler" where
  "hd_disconnect now sessionId h =
     (let registry = fold (\<lambda>sub reg. case sb_resumeKey sub of None \<Rightarrow> reg | Some k \<Rightarrow> if k = [] then reg else rg_release k now reg)
                       (forSession sessionId (hd_subscriptions h)) (hd_resumeRegistry h);
          h1 = h\<lparr>hd_resumeRegistry := registry, hd_subscriptions := sm_removeSession sessionId (hd_subscriptions h),
                 hd_sessions := AList.delete sessionId (hd_sessions h),
                 hd_pendingFrontiers := AList.delete sessionId (hd_pendingFrontiers h)\<rparr>;
          h2 = clearByIdRowMapForSession sessionId h1
      in h2\<lparr>hd_originResponseGates := filter (\<lambda>e. snd e \<noteq> sessionId) (hd_originResponseGates h2)\<rparr>)"

definition mutationResponseTs :: "int \<Rightarrow> int option" where
  "mutationResponseTs commitTs = (if commitTs > 0 then Some commitTs else None)"

definition execSub :: "handler_env \<Rightarrow> session \<Rightarrow> jsstring \<Rightarrow> json \<Rightarrow> query_result result" where
  "execSub env se udfPath args =
     (if starts_with (js ''_admin:'') udfPath
      then (if \<not> se_privileged se then Inl (GenericError ''Forbidden: admin subscription requires admin auth'')
            else en_runAdminQuery env udfPath args)
      else en_runQuery env udfPath args (se_identity se))"

text \<open>The rows of a result, iterated; anything that is not an array is not iterable here.\<close>

definition json_rows :: "json \<Rightarrow> json list result" where
  "json_rows j = (case j of JArr xs \<Rightarrow> Inr xs | _ \<Rightarrow> Inl (TypeError ''not iterable''))"

definition page_rows :: "json \<Rightarrow> json list result" where
  "page_rows j = (case j of JObj es \<Rightarrow> (case map_of es (js ''page'') of Some p \<Rightarrow> json_rows p | None \<Rightarrow> Inl (TypeError ''not iterable''))
                          | _ \<Rightarrow> Inl (TypeError ''not iterable''))"

section \<open>Changing the query set\<close>

text \<open>The read shape of a fresh result: its by-id marker, its range or page marker, and whether any.\<close>

definition fresh_range :: "query_result \<Rightarrow> range_read option" where
  "fresh_range r =
     (case qr_diffablePage r of
        Some (d, m) \<Rightarrow> Some (pageReadFromDiffable d m)
      | None \<Rightarrow> map_option rangeReadFromDiffable (qr_diffableRange r))"

definition set_row_map :: "jsstring \<Rightarrow> row_map \<Rightarrow> handler \<Rightarrow> handler" where
  "set_row_map key rows h = h\<lparr>hd_byIdRowMap := AList.update key rows (hd_byIdRowMap h)\<rparr>"

definition unchanged_or :: "query_request \<Rightarrow> jsstring \<Rightarrow> state_modification \<Rightarrow> state_modification" where
  "unchanged_or q hash m = (if rq_resultHash q = Some hash then QueryUnchanged (rq_queryId q) else m)"

text \<open>The answer to a subscription, with the row map it seeds.\<close>

definition answer_query ::
  "handler_env \<Rightarrow> session \<Rightarrow> query_request \<Rightarrow> query_result \<Rightarrow> by_id_read option \<Rightarrow> handler \<Rightarrow> handler \<times> state_modification result" where
  "answer_query env se q r byId h =
     (let json = convexToJson (qr_value r);
          hash = en_hashValue env json;
          key = subKey (se_sessionId se) (rq_queryId q);
          ts = sv_ts (se_version se)
      in case (qr_diffablePage r, qr_diffableRange r, byId, se_supportsQueryDiff se) of
           (Some (d, m), _, _, True) \<Rightarrow>
             (case res_bind (page_rows json) (\<lambda>rows. rangeResetChanges (en_rowId env) (pageReadFromDiffable d m) rows ts) of
                Inl e \<Rightarrow> (h, Inl e)
              | Inr (changes, next_rows) \<Rightarrow>
                  (set_row_map key next_rows h,
                   Inr (unchanged_or q hash (QueryDiff (rq_queryId q) changes (driftChecksum next_rows)
                     (Some (ResetPage (rr_order d) m)) (Some hash)))))
         | (None, Some d, _, True) \<Rightarrow>
             (case res_bind (json_rows json) (\<lambda>rows. rangeResetChanges (en_rowId env) (rangeReadFromDiffable d) rows ts) of
                Inl e \<Rightarrow> (h, Inl e)
              | Inr (changes, next_rows) \<Rightarrow>
                  (set_row_map key next_rows h,
                   Inr (unchanged_or q hash (QueryDiff (rq_queryId q) changes (driftChecksum next_rows)
                     (Some (ResetRange (rr_order d))) (Some hash)))))
         | (None, None, Some b, True) \<Rightarrow>
             (let (changes, next_rows) = byIdResetChanges (bi_docId b) json ts
              in (set_row_map key next_rows h,
                  Inr (unchanged_or q hash (QueryDiff (rq_queryId q) changes (driftChecksum next_rows) (Some ResetRow) (Some hash)))))
         | _ \<Rightarrow> (h, Inr (unchanged_or q hash (QueryUpdated (rq_queryId q) json (Some hash)))))"

definition new_subscription :: "session \<Rightarrow> query_request \<Rightarrow> query_result \<Rightarrow> by_id_read option \<Rightarrow> jsstring \<Rightarrow> subscription" where
  "new_subscription se q r byId rrKey =
     \<lparr>sb_sessionId = se_sessionId se, sb_queryId = rq_queryId q, sb_udfPath = rq_udfPath q, sb_args = rq_args q,
      sb_tables = qr_tables r, sb_readRanges = qr_readRanges r, sb_globalTables = Some (qr_globalTables r), sb_byId = byId,
      sb_range = fresh_range r, sb_resumeKey = Some rrKey\<rparr>"

definition add_subscription :: "subscription \<Rightarrow> handler \<Rightarrow> handler \<times> js_error option" where
  "add_subscription sub h = (let (sm, e) = sm_add sub (hd_subscriptions h) in (h\<lparr>hd_subscriptions := sm\<rparr>, e))"

definition upsert_resume ::
  "jsstring \<Rightarrow> query_result \<Rightarrow> int \<Rightarrow> by_id_read option \<Rightarrow> handler \<Rightarrow> handler \<times> js_error option" where
  "upsert_resume rrKey r ts byId h =
     (let (reg, e) = rg_upsert rrKey (qr_readRanges r) (qr_tables r) ts (fresh_range r \<noteq> None \<or> byId \<noteq> None)
                       (qr_globalTables r) (hd_resumeRegistry h)
      in (h\<lparr>hd_resumeRegistry := reg\<rparr>, e))"

definition retain_resume :: "jsstring \<Rightarrow> handler \<Rightarrow> handler" where
  "retain_resume rrKey h = h\<lparr>hd_resumeRegistry := rg_retain rrKey (hd_resumeRegistry h)\<rparr>"

text \<open>Whether a resubscription may be answered without running its query.\<close>

definition can_skip :: "resume_lookup option \<Rightarrow> int \<Rightarrow> bool" where
  "can_skip entry sinceTs =
     (case entry of
        None \<Rightarrow> False
      | Some e \<Rightarrow> \<not> lk_wasDiffable e \<and> lk_globalTables e = [] \<and> lk_lastInvalidatedTs e \<le> sinceTs)"

definition skipped_subscription :: "session \<Rightarrow> query_request \<Rightarrow> resume_lookup \<Rightarrow> jsstring \<Rightarrow> subscription" where
  "skipped_subscription se q e rrKey =
     \<lparr>sb_sessionId = se_sessionId se, sb_queryId = rq_queryId q, sb_udfPath = rq_udfPath q, sb_args = rq_args q,
      sb_tables = lk_tables e, sb_readRanges = lk_readRanges e, sb_globalTables = Some (lk_globalTables e), sb_byId = None,
      sb_range = None, sb_resumeKey = Some rrKey\<rparr>"

definition fresh_subscribe :: "handler_env \<Rightarrow> session \<Rightarrow> query_request \<Rightarrow> handler \<Rightarrow> handler \<times> state_modification result" where
  "fresh_subscribe env se q h =
     (case execSub env se (rq_udfPath q) (rq_args q) of
        Inl e \<Rightarrow> (h, Inl e)
      | Inr r \<Rightarrow>
          (case classifyByIdRead (qr_value r) (qr_readRanges r) of
             Inl e \<Rightarrow> (h, Inl e)
           | Inr byId \<Rightarrow>
               (let rrKey = regKey (se_identity se) (rq_udfPath q) (en_stringify env (rq_args q))
                in case add_subscription (new_subscription se q r byId rrKey) h of
                     (h1, Some e) \<Rightarrow> (h1, Inl e)
                   | (h1, None) \<Rightarrow>
                       (case upsert_resume rrKey r (sv_ts (se_version se)) byId h1 of
                          (h2, Some e) \<Rightarrow> (h2, Inl e)
                        | (h2, None) \<Rightarrow> answer_query env se q r byId (retain_resume rrKey h2)))))"

definition subscribe_one :: "handler_env \<Rightarrow> session \<Rightarrow> query_request \<Rightarrow> handler \<Rightarrow> handler \<times> state_modification" where
  "subscribe_one env se q h =
     (let rrKey = regKey (se_identity se) (rq_udfPath q) (en_stringify env (rq_args q));
          entry = rg_lookup rrKey (hd_resumeRegistry h);
          (h', res) =
            (case (rq_sinceTs q, entry) of
               (Some sinceTs, Some e) \<Rightarrow>
                 if can_skip entry sinceTs
                 then (case add_subscription (skipped_subscription se q e rrKey) h of
                         (h1, Some err) \<Rightarrow> (h1, Inl err)
                       | (h1, None) \<Rightarrow> (retain_resume rrKey h1, Inr (QueryUnchanged (rq_queryId q))))
                 else fresh_subscribe env se q h
             | _ \<Rightarrow> fresh_subscribe env se q h)
      in (h', case res of Inl e \<Rightarrow> QueryFailed (rq_queryId q) e | Inr m \<Rightarrow> m))"

fun subscribe_all :: "handler_env \<Rightarrow> session \<Rightarrow> query_request list \<Rightarrow> handler \<Rightarrow> handler \<times> state_modification list" where
  "subscribe_all env se [] h = (h, [])"
| "subscribe_all env se (q # qs) h =
     (let (h1, m) = subscribe_one env se q h; (h2, ms) = subscribe_all env se qs h1 in (h2, m # ms))"

definition unsubscribe_one :: "handler_env \<Rightarrow> session \<Rightarrow> int \<Rightarrow> handler \<Rightarrow> handler" where
  "unsubscribe_one env se queryId h =
     (let reg = (case sm_get (se_sessionId se) queryId (hd_subscriptions h) of
                   None \<Rightarrow> hd_resumeRegistry h
                 | Some sub \<Rightarrow> (case sb_resumeKey sub of
                                  None \<Rightarrow> hd_resumeRegistry h
                                | Some k \<Rightarrow> if k = [] then hd_resumeRegistry h else rg_release k (en_now env) (hd_resumeRegistry h)))
      in h\<lparr>hd_resumeRegistry := reg, hd_subscriptions := sm_remove (se_sessionId se) queryId (hd_subscriptions h),
           hd_byIdRowMap := AList.delete (subKey (se_sessionId se) queryId) (hd_byIdRowMap h)\<rparr>)"

text \<open>Moving a session to a new version and sending the bracketed transition.\<close>

definition transition :: "state_version \<Rightarrow> state_modification list \<Rightarrow> session \<Rightarrow> session" where
  "transition endv modifications se = send (Transition (se_version se) endv modifications) (se\<lparr>se_version := endv\<rparr>)"

definition doModifyQuerySet ::
  "handler_env \<Rightarrow> query_request list \<Rightarrow> int list \<Rightarrow> session \<Rightarrow> handler \<Rightarrow> handler \<times> session" where
  "doModifyQuerySet env adds removes se h =
     (let (h1, mods) = subscribe_all env se adds h;
          h2 = fold (unsubscribe_one env se) removes h1;
          se' = transition \<lparr>sv_querySet = sv_querySet (se_version se) + 1, sv_ts = sv_ts (se_version se)\<rparr>
                  (mods @ map QueryRemoved removes) se
      in (put_session se' h2, se'))"

section \<open>Notifying writes\<close>

definition row_map_of :: "jsstring \<Rightarrow> handler \<Rightarrow> row_map" where
  "row_map_of key h = (case map_of (hd_byIdRowMap h) key of None \<Rightarrow> [] | Some m \<Rightarrow> m)"

text \<open>The incremental arm of a range subscription: every write to its table is diffed.\<close>

definition range_diff :: "subscription \<Rightarrow> range_read \<Rightarrow> written_doc list \<Rightarrow> handler \<Rightarrow> handler \<times> state_modification result" where
  "range_diff sub rng writtenDocs h =
     (let key = subKey (sb_sessionId sub) (sb_queryId sub)
      in case res_bind (tableOfKeyspaceId (rr_keyspace rng)) (\<lambda>subTable.
              res_bind (res_map (\<lambda>w. res_bind (tableOfKeyspaceId (wd_keyspace w)) (\<lambda>t. Inr (if t = subTable then [w] else []))) writtenDocs) (\<lambda>wds.
              rangeChangesFor rng (row_map_of key h) (concat wds))) of
           Inl e \<Rightarrow> (h, Inl e)
         | Inr (changes, next_rows) \<Rightarrow>
             (set_row_map key next_rows h, Inr (QueryDiff (sb_queryId sub) changes (driftChecksum next_rows) None None)))"

definition byId_diff :: "subscription \<Rightarrow> by_id_read \<Rightarrow> written_doc list \<Rightarrow> handler \<Rightarrow> handler \<times> state_modification result" where
  "byId_diff sub byId writtenDocs h =
     (let key = subKey (sb_sessionId sub) (sb_queryId sub);
          wd = find (\<lambda>w. wd_keyspace w = bi_keyspace byId \<and> wd_key w = bi_key byId) writtenDocs;
          (changes, next_rows) = byIdChangesFor byId (row_map_of key h) wd
      in (set_row_map key next_rows h, Inr (QueryDiff (sb_queryId sub) changes (driftChecksum next_rows) None None)))"

definition delete_row_map :: "jsstring \<Rightarrow> handler \<Rightarrow> handler" where
  "delete_row_map key h = h\<lparr>hd_byIdRowMap := AList.delete key (hd_byIdRowMap h)\<rparr>"

definition refreshed :: "subscription \<Rightarrow> query_result \<Rightarrow> by_id_read option \<Rightarrow> subscription" where
  "refreshed sub r byId =
     sub\<lparr>sb_tables := qr_tables r, sb_readRanges := qr_readRanges r, sb_globalTables := Some (qr_globalTables r), sb_byId := byId,
         sb_range := fresh_range r\<rparr>"

definition rerun :: "handler_env \<Rightarrow> session \<Rightarrow> sync_invalidation \<Rightarrow> subscription \<Rightarrow> handler \<Rightarrow> handler \<times> state_modification result" where
  "rerun env se wi sub h =
     (case execSub env se (sb_udfPath sub) (sb_args sub) of
        Inl e \<Rightarrow> (h, Inl e)
      | Inr r \<Rightarrow>
          (case classifyByIdRead (qr_value r) (qr_readRanges r) of
             Inl e \<Rightarrow> (h, Inl e)
           | Inr byId \<Rightarrow>
               (case add_subscription (refreshed sub r byId) h of
                  (h1, Some e) \<Rightarrow> (h1, Inl e)
                | (h1, None) \<Rightarrow>
                    (case (case sb_resumeKey sub of
                             None \<Rightarrow> (h1, None)
                           | Some k \<Rightarrow> if k = [] then (h1, None) else upsert_resume k r (si_commitTs wi) byId h1) of
                       (h2, Some e) \<Rightarrow> (h2, Inl e)
                     | (h2, None) \<Rightarrow>
                         (let key = subKey (sb_sessionId sub) (sb_queryId sub);
                              stale = (case sb_byId sub of
                                         None \<Rightarrow> False
                                       | Some old \<Rightarrow> (case byId of
                                                         None \<Rightarrow> True
                                                       | Some b \<Rightarrow> bi_keyspace b \<noteq> bi_keyspace old \<or> bi_key b \<noteq> bi_key old));
                              h3 = (if stale \<or> sb_range sub \<noteq> None then delete_row_map key h2 else h2);
                              json = convexToJson (qr_value r)
                          in (h3, Inr (QueryUpdated (sb_queryId sub) json (Some (en_hashValue env json)))))))))"

definition update_one :: "handler_env \<Rightarrow> session \<Rightarrow> sync_invalidation \<Rightarrow> subscription \<Rightarrow> handler \<Rightarrow> handler \<times> state_modification" where
  "update_one env se wi sub h =
     (let (h', res) =
        (case (sb_range sub, sb_byId sub, si_writtenDocs wi, se_supportsQueryDiff se) of
           (Some rng, _, Some wds, True) \<Rightarrow> range_diff sub rng wds h
         | (None, Some b, Some wds, True) \<Rightarrow> byId_diff sub b wds h
         | _ \<Rightarrow> rerun env se wi sub h)
      in (h', case res of Inl e \<Rightarrow> QueryFailed (sb_queryId sub) e | Inr m \<Rightarrow> m))"

fun update_all :: "handler_env \<Rightarrow> session \<Rightarrow> sync_invalidation \<Rightarrow> subscription list \<Rightarrow> handler \<Rightarrow> handler \<times> state_modification list" where
  "update_all env se wi [] h = (h, [])"
| "update_all env se wi (sub # subs) h =
     (let (h1, m) = update_one env se wi sub h; (h2, ms) = update_all env se wi subs h1 in (h2, m # ms))"

definition sendSessionTransition :: "handler_env \<Rightarrow> sync_invalidation \<Rightarrow> subscription list \<Rightarrow> session \<Rightarrow> handler \<Rightarrow> handler" where
  "sendSessionTransition env wi subs se h =
     (let (h1, mods) = update_all env se wi subs h;
          endv = \<lparr>sv_querySet = sv_querySet (se_version se), sv_ts = (if si_global wi then sv_ts (se_version se) else si_commitTs wi)\<rparr>
      in put_session (transition endv mods se) h1)"

definition emitEmptyFrontier :: "int \<Rightarrow> session \<Rightarrow> session" where
  "emitEmptyFrontier ts se = transition \<lparr>sv_querySet = sv_querySet (se_version se), sv_ts = ts\<rparr> [] se"

type_synonym by_session = "(jsstring, subscription list) jsmap"

definition advanceOriginFrontier :: "jsstring option \<Rightarrow> by_session \<Rightarrow> int \<Rightarrow> handler \<Rightarrow> handler" where
  "advanceOriginFrontier origin bySession commitTs h =
     (case origin of
        None \<Rightarrow> h
      | Some sid \<Rightarrow>
          if sid = [] \<or> map_of bySession sid \<noteq> None then h
          else (case map_of (hd_sessions h) sid of
                  None \<Rightarrow> h
                | Some se \<Rightarrow>
                    if commitTs \<le> sv_ts (se_version se) then h
                    else (let h1 = put_session (emitEmptyFrontier commitTs se) h
                          in h1\<lparr>hd_pendingFrontiers := AList.delete sid (hd_pendingFrontiers h1)\<rparr>)))"

definition sweep_frontier :: "int \<Rightarrow> by_session \<Rightarrow> jsstring \<times> int \<Rightarrow> handler \<Rightarrow> handler" where
  "sweep_frontier drainTs bySession e h =
     (case e of (sessionId, frontierTs) \<Rightarrow>
        if frontierTs > drainTs then h
        else (let h1 = (case map_of (hd_sessions h) sessionId of
                          None \<Rightarrow> h
                        | Some se \<Rightarrow> if sv_ts (se_version se) < frontierTs \<and> map_of bySession sessionId = None
                                       then put_session (emitEmptyFrontier frontierTs se) h else h)
              in h1\<lparr>hd_pendingFrontiers := AList.delete sessionId (hd_pendingFrontiers h1)\<rparr>))"

definition sweepPendingFrontiers :: "int \<Rightarrow> by_session \<Rightarrow> handler \<Rightarrow> handler" where
  "sweepPendingFrontiers drainTs bySession h = fold (sweep_frontier drainTs bySession) (hd_pendingFrontiers h) h"

definition group_subs :: "bool \<Rightarrow> jsstring option \<Rightarrow> subscription list \<Rightarrow> by_session" where
  "group_subs excludeOrigin origin affected =
     fold (\<lambda>sub m. if excludeOrigin \<and> Some (sb_sessionId sub) = origin then m
                     else AList.update (sb_sessionId sub) ((case map_of m (sb_sessionId sub) of None \<Rightarrow> [] | Some l \<Rightarrow> l) @ [sub]) m)
       affected []"

definition origin_diff_capable :: "jsstring option \<Rightarrow> by_session \<Rightarrow> handler \<Rightarrow> bool" where
  "origin_diff_capable origin bySession h =
     (case origin of
        None \<Rightarrow> False
      | Some sid \<Rightarrow> sid \<noteq> [] \<and> map_of bySession sid \<noteq> None \<and>
          (case map_of (hd_sessions h) sid of None \<Rightarrow> False | Some se \<Rightarrow> se_supportsQueryDiff se))"

text \<open>A notification in its three parts: before the first session, the sessions other than a
  diff-capable origin, and, once the gate of its own response is gone, the origin and the frontiers.\<close>

definition notify_begin ::
  "handler_env \<Rightarrow> bool \<Rightarrow> sync_invalidation \<Rightarrow> jsstring option \<Rightarrow> handler \<Rightarrow> (handler \<times> by_session) result" where
  "notify_begin env excludeOrigin wi origin h =
     res_bind (if si_global wi then Inr (hd_resumeRegistry h)
               else advanceOnCommit (si_ranges wi) (si_tables wi) (si_commitTs wi) (hd_resumeRegistry h)) (\<lambda>reg.
     res_bind (findAffectedByRanges (si_ranges wi) (si_tables wi) (hd_subscriptions h)) (\<lambda>affected.
       Inr (h\<lparr>hd_resumeRegistry := rg_sweep (en_now env) reg\<rparr>, group_subs excludeOrigin origin affected)))"

definition notify_session :: "handler_env \<Rightarrow> sync_invalidation \<Rightarrow> jsstring \<times> subscription list \<Rightarrow> handler \<Rightarrow> handler" where
  "notify_session env wi e h =
     (case map_of (hd_sessions h) (fst e) of None \<Rightarrow> h | Some se \<Rightarrow> sendSessionTransition env wi (snd e) se h)"

definition notify_others ::
  "handler_env \<Rightarrow> sync_invalidation \<Rightarrow> bool \<Rightarrow> jsstring option \<Rightarrow> by_session \<Rightarrow> handler \<Rightarrow> handler" where
  "notify_others env wi deferred origin bySession h =
     fold (\<lambda>e h. if deferred \<and> Some (fst e) = origin then h else notify_session env wi e h) bySession h"

definition notify_origin ::
  "handler_env \<Rightarrow> sync_invalidation \<Rightarrow> bool \<Rightarrow> jsstring option \<Rightarrow> by_session \<Rightarrow> handler \<Rightarrow> handler" where
  "notify_origin env wi deferred origin bySession h =
     (if deferred
      then (case origin of None \<Rightarrow> h
            | Some sid \<Rightarrow> (case map_of bySession sid of None \<Rightarrow> h | Some subs \<Rightarrow> notify_session env wi (sid, subs) h))
      else h)"

definition notify_frontiers :: "sync_invalidation \<Rightarrow> jsstring option \<Rightarrow> by_session \<Rightarrow> handler \<Rightarrow> handler" where
  "notify_frontiers wi origin bySession h =
     (if si_global wi then h
      else sweepPendingFrontiers (si_commitTs wi) bySession (advanceOriginFrontier origin bySession (si_commitTs wi) h))"

definition doNotifyWrites ::
  "handler_env \<Rightarrow> bool \<Rightarrow> sync_invalidation \<Rightarrow> jsstring option \<Rightarrow> handler \<Rightarrow> handler result" where
  "doNotifyWrites env excludeOrigin wi origin h =
     res_bind (notify_begin env excludeOrigin wi origin h) (\<lambda>(h1, bySession).
       let deferred = origin_diff_capable origin bySession h1;
           h2 = notify_others env wi deferred origin bySession h1;
           h3 = notify_origin env wi deferred origin bySession h2
       in Inr (notify_frontiers wi origin bySession h3))"

section \<open>Identity, mutations and broadcasts\<close>

definition reauth_one :: "handler_env \<Rightarrow> session \<Rightarrow> subscription \<Rightarrow> handler \<Rightarrow> handler \<times> state_modification" where
  "reauth_one env se sub h =
     (let (h', res) =
        (case execSub env se (sb_udfPath sub) (sb_args sub) of
           Inl e \<Rightarrow> (h, Inl e)
         | Inr r \<Rightarrow>
             (case classifyByIdRead (qr_value r) (qr_readRanges r) of
                Inl e \<Rightarrow> (h, Inl e)
              | Inr byId \<Rightarrow>
                  (let newKey = regKey (se_identity se) (sb_udfPath sub) (en_stringify env (sb_args sub))
                   in case upsert_resume newKey r (sv_ts (se_version se)) byId h of
                        (h1, Some e) \<Rightarrow> (h1, Inl e)
                      | (h1, None) \<Rightarrow>
                          (let h2 = (if sb_resumeKey sub = Some newKey then h1
                                     else (let h1' = retain_resume newKey h1
                                           in case sb_resumeKey sub of
                                                None \<Rightarrow> h1'
                                              | Some old \<Rightarrow> if old = [] then h1'
                                                  else h1'\<lparr>hd_resumeRegistry := rg_release old (en_now env) (hd_resumeRegistry h1')\<rparr>))
                           in case add_subscription ((refreshed sub r byId)\<lparr>sb_resumeKey := Some newKey\<rparr>) h2 of
                                (h3, Some e) \<Rightarrow> (h3, Inl e)
                              | (h3, None) \<Rightarrow>
                                  (let key = subKey (se_sessionId se) (sb_queryId sub);
                                       json = convexToJson (qr_value r)
                                   in case (byId, se_supportsQueryDiff se) of
                                        (Some b, True) \<Rightarrow>
                                          (let (changes, next_rows) = byIdResetChanges (bi_docId b) json (sv_ts (se_version se))
                                           in (set_row_map key next_rows h3,
                                               Inr (QueryDiff (sb_queryId sub) changes (driftChecksum next_rows) (Some ResetRow) None)))
                                      | _ \<Rightarrow> (delete_row_map key h3,
                                               Inr (QueryUpdated (sb_queryId sub) json (Some (en_hashValue env json)))))))))
      in (h', case res of Inl e \<Rightarrow> QueryFailed (sb_queryId sub) e | Inr m \<Rightarrow> m))"

fun reauth_all :: "handler_env \<Rightarrow> session \<Rightarrow> subscription list \<Rightarrow> handler \<Rightarrow> handler \<times> state_modification list" where
  "reauth_all env se [] h = (h, [])"
| "reauth_all env se (sub # subs) h =
     (let (h1, m) = reauth_one env se sub h; (h2, ms) = reauth_all env se subs h1 in (h2, m # ms))"

definition handleSetAuth :: "handler_env \<Rightarrow> jsstring option \<Rightarrow> session \<Rightarrow> handler \<Rightarrow> handler" where
  "handleSetAuth env token se h =
     (let se1 = se\<lparr>se_identity := token\<rparr>;
          (h1, mods) = reauth_all env se1 (forSession (se_sessionId se1) (hd_subscriptions h)) (put_session se1 h)
      in put_session (transition \<lparr>sv_querySet = sv_querySet (se_version se1) + 1, sv_ts = sv_ts (se_version se1)\<rparr> mods se1) h1)"

definition handleSetAdminAuth :: "(jsstring \<Rightarrow> bool) \<Rightarrow> jsstring \<Rightarrow> session \<Rightarrow> handler \<Rightarrow> handler" where
  "handleSetAdminAuth verifyAdmin key se h = put_session (se\<lparr>se_privileged := verifyAdmin key\<rparr>) h"

datatype run_mutation_result =
    MutationRan jvalue "jsstring list" "serialized_key_range list" int bool
  | MutationReplay mutation_verdict "int option" "jvalue option" bool "jsstring option"

record mutation_error =
  me_error :: js_error
  me_retryable :: bool
  me_code :: "jsstring option"
  me_committedTs :: "int option"

text \<open>What one unit's run leaves to do: whether the batch goes on, and the write to notify inline.\<close>

definition stale_code :: "jsstring option \<Rightarrow> mutation_verdict \<Rightarrow> jsstring option" where
  "stale_code code verdict = (case code of Some c \<Rightarrow> Some c | None \<Rightarrow> if verdict = Stale then Some (js ''STALE_CLIENT'') else None)"

definition processMutation ::
  "bool \<Rightarrow> jsstring \<Rightarrow> mutation_error + run_mutation_result \<Rightarrow> session \<Rightarrow> handler \<Rightarrow>
     handler \<times> bool \<times> sync_invalidation option" where
  "processMutation autoNotify requestId outcome se h =
     (case outcome of
        Inl e \<Rightarrow>
          (let h1 = (case me_committedTs e of None \<Rightarrow> h | Some ts \<Rightarrow> releaseOriginResponseGate ts h);
               se1 = send (MutationFailed requestId (Inl (me_error e)) (if me_retryable e then None else me_code e)) se
           in (put_session se1 h1, \<not> me_retryable e, None))
      | Inr (MutationReplay verdict commitTs v missing code) \<Rightarrow>
          (let se1 = (if verdict = Applied
                 then send (MutationSucceeded requestId (if missing then None else map_option convexToJson v)
                        (case commitTs of None \<Rightarrow> None | Some ts \<Rightarrow> mutationResponseTs ts) True missing) se
                 else send (MutationFailed requestId
                        (Inr (case stale_code code verdict of Some c \<Rightarrow> c | None \<Rightarrow> js ''mutation failed'')) (stale_code code verdict)) se)
           in (put_session se1 h, True, None))
      | Inr (MutationRan v tables writeRanges commitTs forwarded) \<Rightarrow>
          (let se1 = send (MutationSucceeded requestId (Some (convexToJson v)) (mutationResponseTs commitTs) False False) se;
               h1 = releaseOriginResponseGate commitTs (put_session se1 h);
               h2 = (if forwarded \<and> commitTs > 0 \<and>
                        (case map_of (hd_pendingFrontiers h1) (se_sessionId se) of None \<Rightarrow> True | Some prev \<Rightarrow> commitTs > prev)
                     then h1\<lparr>hd_pendingFrontiers := AList.update (se_sessionId se) commitTs (hd_pendingFrontiers h1)\<rparr> else h1)
           in (h2, True, if autoNotify then Some \<lparr>si_tables = tables, si_ranges = writeRanges, si_commitTs = commitTs,
                si_writtenDocs = None, si_global = False\<rparr> else None)))"

text \<open>A drained batch: the units in order, up to the first that failed transiently (with the write fan-out
  wired outside the handler, as the runtimes do, so a unit notifies nothing inline).\<close>

fun handleMutationBatch ::
  "(jsstring \<times> (mutation_error + run_mutation_result)) list \<Rightarrow> jsstring \<Rightarrow> handler \<Rightarrow> handler \<times> nat" where
  "handleMutationBatch [] sessionId h = (h, 0)"
| "handleMutationBatch ((requestId, outcome) # units) sessionId h =
     (case map_of (hd_sessions h) sessionId of
        None \<Rightarrow> (h, 0)
      | Some se \<Rightarrow>
          (let (h1, continue, _) = processMutation False requestId outcome se h
           in if continue then (let (h2, n) = handleMutationBatch units sessionId h1 in (h2, Suc n)) else (h1, 1)))"

text \<open>The resume handshake: \<open>classify\<close> and \<open>prune\<close> are the executor's; \<open>deploymentId\<close> is absent
  where it has no receipts.\<close>

definition handleConnect ::
  "bool \<Rightarrow> bool \<Rightarrow> (client_mutation_ref \<Rightarrow> client_mutation_verdict) option \<Rightarrow> jsstring option \<Rightarrow>
     client_mutation_ref list \<Rightarrow> client_mutation_ref list \<Rightarrow> session \<Rightarrow> handler \<Rightarrow> handler" where
  "handleConnect supportsQueryDiff resuming classify deploymentId held ackedThrough se h =
     (let se1 = se\<lparr>se_supportsQueryDiff := supportsQueryDiff\<rparr>
      in case (resuming, classify, deploymentId) of
           (True, Some cls, Some dep) \<Rightarrow>
             (let results = map cls held;
                  recognizedAny = list_ex (\<lambda>v. cv_verdict v \<noteq> Unknown) (results @ map cls ackedThrough);
                  presentedAny = (held \<noteq> [] \<or> ackedThrough \<noteq> [])
              in put_session (send (ConnectAck (if presentedAny then recognizedAny else True) results dep) se1) h)
         | _ \<Rightarrow> put_session se1 h)"

definition publishEphemeral :: "jsstring \<Rightarrow> json \<Rightarrow> jsstring option \<Rightarrow> handler \<Rightarrow> handler" where
  "publishEphemeral topic event from h =
     h\<lparr>hd_sessions := map (\<lambda>(sid, se). (sid, if Some sid = from then se else send (Broadcast topic event) se)) (hd_sessions h)\<rparr>"

end
