(* ===== verification/Optimistic.thy ===== *)
theory Optimistic
  imports Sync_Handler
begin

text \<open>
  Optimistic layers on the client: \<^verbatim>\<open>packages/client/src/mutation-log.ts\<close>, \<^verbatim>\<open>layered-store.ts\<close>,
  \<^verbatim>\<open>optimistic-store.ts\<close> and \<^verbatim>\<open>delivery-policy.ts\<close>.  A subscription keeps what the server answered and,
  beside it, what the application sees: the pending mutations' updaters replayed over the answers.  An
  updater is user code, modelled as a strategy that reads and writes the view it is given.  A delivered
  value is a JavaScript value with its identity, of which only the outermost object's is kept; the
  values an updater sets are new objects.
\<close>

section \<open>JavaScript values with their identity\<close>

record js_ref =
  rf_id :: nat
  rf_val :: jvalue

definition is_object :: "jvalue \<Rightarrow> bool" where
  "is_object v = (case v of VBytes _ \<Rightarrow> True | VArr _ \<Rightarrow> True | VObj _ \<Rightarrow> True | _ \<Rightarrow> False)"

text \<open>\<open>===\<close> on values that may be \<open>undefined\<close>.\<close>

definition same_ref :: "js_ref option \<Rightarrow> js_ref option \<Rightarrow> bool" where
  "same_ref a b =
     (case (a, b) of
        (None, None) \<Rightarrow> True
      | (Some x, Some y) \<Rightarrow>
          (if is_object (rf_val x) \<or> is_object (rf_val y) then rf_id x = rf_id y \<and> rf_val x = rf_val y
           else (case (rf_val x, rf_val y) of
              (VNum n, VNum m) \<Rightarrow> \<not> f64_is_nan n \<and> compareNumbers n m = CEq | _ \<Rightarrow> rf_val x = rf_val y))
      | _ \<Rightarrow> False)"

section \<open>Updaters (optimistic-store.ts)\<close>

datatype view_prog =
    ViewReturn
  | ViewThrow js_error
  | ViewGet jsstring jvalue "jvalue option \<Rightarrow> view_prog"
  | ViewSet jsstring jvalue "jvalue option" view_prog
  | ViewGetAll jsstring "(jvalue \<times> jvalue option) list \<Rightarrow> view_prog"
  | ViewPlaceholderId jsstring "jsstring \<Rightarrow> view_prog"
  | ViewNow "int \<Rightarrow> view_prog"

record seed =
  sd_entropy :: jsstring
  sd_now :: int

type_synonym overlay = "(jsstring, jvalue option) jsmap"

text \<open>What a view shows: the subscriptions by path, arguments and hash, and the server's values.\<close>

record view_env =
  ve_stringify :: "json \<Rightarrow> jsstring"
  ve_subs :: "(jsstring \<times> json \<times> jsstring) list"
  ve_base :: "jsstring \<Rightarrow> jvalue option"

definition queryHash :: "(json \<Rightarrow> jsstring) \<Rightarrow> jsstring \<Rightarrow> json \<Rightarrow> jsstring" where
  "queryHash stringify path argsJson = path @ 58 # stringify argsJson"

definition read_view :: "view_env \<Rightarrow> overlay \<Rightarrow> overlay \<Rightarrow> jsstring \<Rightarrow> jvalue option" where
  "read_view ve ov loc h =
     (case map_of loc h of Some v \<Rightarrow> v | None \<Rightarrow> (case map_of ov h of Some v \<Rightarrow> v | None \<Rightarrow> ve_base ve h))"

definition view_all :: "view_env \<Rightarrow> overlay \<Rightarrow> overlay \<Rightarrow> jsstring \<Rightarrow> (jvalue \<times> jvalue option) list result" where
  "view_all ve ov loc path =
     res_map (\<lambda>(_, args, h). res_bind (jsonToConvex args) (\<lambda>a. Inr (a, read_view ve ov loc h)))
       (filter (\<lambda>(p, _, _). p = path) (ve_subs ve))"

definition placeholder :: "seed \<Rightarrow> jsstring \<Rightarrow> nat \<Rightarrow> jsstring" where
  "placeholder s table n = sd_entropy s @ 58 # table @ 58 # int_dec (int n)"

primrec run_prog ::
  "view_prog \<Rightarrow> view_env \<Rightarrow> seed \<Rightarrow> overlay \<Rightarrow> overlay \<Rightarrow> (jsstring, nat) jsmap \<Rightarrow> overlay result" where
  "run_prog ViewReturn ve s ov loc ord = Inr loc"
| "run_prog (ViewThrow e) ve s ov loc ord = Inl e"
| "run_prog (ViewGet path args k) ve s ov loc ord =
     run_prog (k (read_view ve ov loc (queryHash (ve_stringify ve) path (convexToJson args)))) ve s ov loc ord"
| "run_prog (ViewSet path args v k) ve s ov loc ord =
     run_prog k ve s ov (AList.update (queryHash (ve_stringify ve) path (convexToJson args)) v loc) ord"
| "run_prog (ViewGetAll path k) ve s ov loc ord =
     (case view_all ve ov loc path of Inl e \<Rightarrow> Inl e | Inr xs \<Rightarrow> run_prog (k xs) ve s ov loc ord)"
| "run_prog (ViewPlaceholderId table k) ve s ov loc ord =
     (let n = (case map_of ord table of Some n \<Rightarrow> n | None \<Rightarrow> 0)
      in run_prog (k (placeholder s table n)) ve s ov loc (AList.update table (n + 1) ord))"
| "run_prog (ViewNow k) ve s ov loc ord = run_prog (k (sd_now s)) ve s ov loc ord"

section \<open>The mutation log (mutation-log.ts)\<close>

datatype mutation_status = Unsent | Inflight | Completed int int | Parked

record pending_mutation =
  mu_requestId :: jsstring
  mu_udfPath :: jsstring
  mu_args :: json
  mu_update :: "(jvalue \<Rightarrow> view_prog) option"
  mu_seed :: seed
  mu_touched :: "jsstring list"
  mu_status :: mutation_status
  mu_durable :: bool

type_synonym mutation_log = "(jsstring, pending_mutation) jsmap"

definition log_add :: "pending_mutation \<Rightarrow> mutation_log \<Rightarrow> mutation_log" where
  "log_add e = AList.update (mu_requestId e) e"

definition entriesInOrder :: "mutation_log \<Rightarrow> pending_mutation list" where
  "entriesInOrder log = map snd log"

section \<open>The layered store (layered-store.ts)\<close>

datatype render_mode = RenderById | RenderRange | RenderPage

record client_sub =
  su_queryId :: int
  su_path :: jsstring
  su_args :: json
  su_hash :: jsstring
  su_serverValue :: "js_ref option"
  su_composedValue :: "js_ref option"
  su_answered :: bool
  su_lastHash :: "jsstring option"
  su_diffRows :: "row_map option"
  su_renderMode :: "render_mode option"
  su_orderDir :: "scan_order option"
  su_pageMeta :: "page_meta option"
  su_listeners :: "nat list"

text \<open>A subscription object is known by its query id, which is never reused; \<open>ly_fresh\<close> numbers new objects.\<close>

record layered_store =
  ly_byId :: "(int, client_sub) jsmap"
  ly_byHash :: "(jsstring, int) jsmap"
  ly_fresh :: nat

definition newLayeredStore :: layered_store where
  "newLayeredStore = \<lparr>ly_byId = [], ly_byHash = [], ly_fresh = 0\<rparr>"

definition sub_by_hash :: "jsstring \<Rightarrow> layered_store \<Rightarrow> client_sub option" where
  "sub_by_hash h st = (case map_of (ly_byHash st) h of None \<Rightarrow> None | Some q \<Rightarrow> map_of (ly_byId st) q)"

definition byHash_values :: "layered_store \<Rightarrow> client_sub list" where
  "byHash_values st = List.map_filter (\<lambda>(_, q). map_of (ly_byId st) q) (ly_byHash st)"

definition put_sub :: "client_sub \<Rightarrow> layered_store \<Rightarrow> layered_store" where
  "put_sub sub st = st\<lparr>ly_byId := AList.update (su_queryId sub) sub (ly_byId st)\<rparr>"

definition ly_create :: "int \<Rightarrow> jsstring \<Rightarrow> json \<Rightarrow> jsstring \<Rightarrow> layered_store \<Rightarrow> layered_store" where
  "ly_create queryId path args hash st =
     put_sub \<lparr>su_queryId = queryId, su_path = path, su_args = args, su_hash = hash, su_serverValue = None,
         su_composedValue = None, su_answered = False, su_lastHash = None, su_diffRows = None, su_renderMode = None,
         su_orderDir = None, su_pageMeta = None, su_listeners = []\<rparr>
       (st\<lparr>ly_byHash := AList.update hash queryId (ly_byHash st)\<rparr>)"

definition ly_remove :: "jsstring \<Rightarrow> layered_store \<Rightarrow> layered_store" where
  "ly_remove hash st =
     (case map_of (ly_byHash st) hash of
        None \<Rightarrow> st
      | Some q \<Rightarrow> st\<lparr>ly_byHash := AList.delete hash (ly_byHash st), ly_byId := AList.delete q (ly_byId st)\<rparr>)"

text \<open>A value just decoded is a new object.\<close>

definition alloc :: "jvalue \<Rightarrow> layered_store \<Rightarrow> js_ref \<times> layered_store" where
  "alloc v st = (\<lparr>rf_id = ly_fresh st, rf_val = v\<rparr>, st\<lparr>ly_fresh := ly_fresh st + 1\<rparr>)"

definition setServerValue :: "client_sub \<Rightarrow> jvalue \<Rightarrow> jsstring option \<Rightarrow> layered_store \<Rightarrow> layered_store" where
  "setServerValue sub v hash st =
     (case alloc v st of (r, st') \<Rightarrow>
        put_sub (sub\<lparr>su_serverValue := Some r, su_lastHash := hash, su_answered := True, su_diffRows := None,
          su_renderMode := None, su_orderDir := None, su_pageMeta := None\<rparr>) st')"

definition markAnswered :: "client_sub \<Rightarrow> layered_store \<Rightarrow> layered_store" where
  "markAnswered sub = put_sub (sub\<lparr>su_answered := True\<rparr>)"

definition renderByIdValue :: "row_map \<Rightarrow> jvalue option result" where
  "renderByIdValue rows = (case rows of [] \<Rightarrow> Inr None | (_, rv) # _ \<Rightarrow> res_bind (jsonToConvex (rv_row rv)) (\<lambda>v. Inr (Some v)))"

text \<open>A stable sort by the decoded order keys, which a single row's comparator never decodes.\<close>

definition order_key :: "row_version \<Rightarrow> bytes result" where
  "order_key rv = fromBase64 (or_default (rv_orderKey rv) [])"

definition renderRangeValue :: "row_map \<Rightarrow> scan_order \<Rightarrow> jvalue list result" where
  "renderRangeValue rows dir =
     res_bind (res_map (\<lambda>(_, rv). if length rows < 2 then Inr ([], rv) else res_bind (order_key rv) (\<lambda>k. Inr (k, rv))) rows) (\<lambda>keyed.
       let entries = sort_key fst keyed
       in res_map (\<lambda>(_, rv). jsonToConvex (rv_row rv)) (if dir = Desc then rev entries else entries))"

definition renderPageValue :: "row_map \<Rightarrow> scan_order \<Rightarrow> page_meta \<Rightarrow> jvalue result" where
  "renderPageValue rows dir m =
     res_bind (renderRangeValue rows dir) (\<lambda>page. Inr (VObj
       [(js ''page'', VArr page), (js ''nextCursor'', (case pm_nextCursor m of None \<Rightarrow> VNull | Some c \<Rightarrow> VStr c)),
        (js ''hasMore'', VBool (pm_hasMore m)), (js ''scanCapped'', VBool (pm_scanCapped m))]))"

definition reset_sub :: "diff_reset option \<Rightarrow> client_sub \<Rightarrow> client_sub" where
  "reset_sub reset sub =
     (case reset of
        None \<Rightarrow> sub
      | Some ResetRow \<Rightarrow> sub\<lparr>su_renderMode := Some RenderById\<rparr>
      | Some (ResetRange d) \<Rightarrow> sub\<lparr>su_renderMode := Some RenderRange, su_orderDir := Some d\<rparr>
      | Some (ResetPage d m) \<Rightarrow> sub\<lparr>su_renderMode := Some RenderPage, su_orderDir := Some d, su_pageMeta := Some m\<rparr>)"

definition render_sub :: "client_sub \<Rightarrow> row_map \<Rightarrow> jvalue option result" where
  "render_sub sub rows =
     (case su_renderMode sub of
        Some RenderPage \<Rightarrow>
          (case su_pageMeta sub of
             Some m \<Rightarrow> res_bind (renderPageValue rows (or_default (su_orderDir sub) Asc) m) (\<lambda>v. Inr (Some v))
           | None \<Rightarrow> Inl (TypeError ''Cannot read properties of undefined''))
      | Some RenderRange \<Rightarrow> res_bind (renderRangeValue rows (or_default (su_orderDir sub) Asc)) (\<lambda>vs. Inr (Some (VArr vs)))
      | _ \<Rightarrow> renderByIdValue rows)"

text \<open>The rows are assigned before the value is rendered, which may throw.\<close>

definition applyDiff ::
  "client_sub \<Rightarrow> change list \<Rightarrow> jsstring \<Rightarrow> diff_reset option \<Rightarrow> layered_store \<Rightarrow> layered_store \<times> bool result" where
  "applyDiff sub changes checksum reset st =
     (let sub1 = reset_sub reset sub;
          base = (if reset \<noteq> None then [] else or_default (su_diffRows sub1) []);
          rows = applyChanges base changes;
          sub2 = sub1\<lparr>su_diffRows := Some rows\<rparr>
      in case render_sub sub2 rows of
           Inl e \<Rightarrow> (put_sub sub2 st, Inl e)
         | Inr v \<Rightarrow>
             (let (r, st') = (case v of None \<Rightarrow> (None, st) | Some v \<Rightarrow> (case alloc v st of (r, st') \<Rightarrow> (Some r, st')))
              in (put_sub (sub2\<lparr>su_serverValue := r, su_answered := True\<rparr>) st', Inr (driftChecksum rows \<noteq> checksum))))"

section \<open>Recomposing (layered-store.ts)\<close>

definition view_of :: "(json \<Rightarrow> jsstring) \<Rightarrow> layered_store \<Rightarrow> view_env" where
  "view_of stringify st =
     \<lparr>ve_stringify = stringify, ve_subs = map (\<lambda>sub. (su_path sub, su_args sub, su_hash sub)) (byHash_values st),
      ve_base = (\<lambda>h. case sub_by_hash h st of None \<Rightarrow> None | Some sub \<Rightarrow> map_option rf_val (su_serverValue sub))\<rparr>"

definition invokeUpdate :: "view_env \<Rightarrow> overlay \<Rightarrow> pending_mutation \<Rightarrow> (jvalue \<Rightarrow> view_prog) \<Rightarrow> overlay result" where
  "invokeUpdate ve ov e u = res_bind (jsonToConvex (mu_args e)) (\<lambda>args. run_prog (u args) ve (mu_seed e) ov [] [])"

definition lay :: "overlay \<Rightarrow> overlay \<Rightarrow> overlay" where
  "lay loc ov = fold (\<lambda>(h, v). AList.update h v) loc ov"

text \<open>The overlay, what each updater touched, and the updaters that threw.\<close>

fun replay ::
  "view_env \<Rightarrow> pending_mutation list \<Rightarrow> overlay \<Rightarrow>
     overlay \<times> (jsstring, jsstring list) jsmap \<times> (jsstring \<times> js_error) list" where
  "replay ve [] ov = (ov, [], [])"
| "replay ve (e # es) ov =
     (case mu_update e of
        None \<Rightarrow> replay ve es ov
      | Some u \<Rightarrow>
          (case invokeUpdate ve ov e u of
             Inl err \<Rightarrow> (case replay ve es ov of (ov', ts, ds) \<Rightarrow> (ov', ts, (mu_requestId e, err) # ds))
           | Inr loc \<Rightarrow> (case replay ve es (lay loc ov) of (ov', ts, ds) \<Rightarrow> (ov', (mu_requestId e, map fst loc) # ts, ds))))"

datatype client_event =
    Delivered nat js_ref
  | QueryErrored nat js_error
  | LayerDropped jsstring js_error

definition next_value :: "overlay \<Rightarrow> nat \<Rightarrow> client_sub \<Rightarrow> js_ref option" where
  "next_value ov n sub =
     (case map_of ov (su_hash sub) of
        Some v \<Rightarrow> map_option (\<lambda>v. \<lparr>rf_id = n, rf_val = v\<rparr>) v
      | None \<Rightarrow> su_serverValue sub)"

definition compose_sub :: "overlay \<Rightarrow> jsstring list \<Rightarrow> int \<Rightarrow> layered_store \<times> client_event list \<Rightarrow> layered_store \<times> client_event list" where
  "compose_sub ov force q acc =
     (case acc of (st, evs) \<Rightarrow>
        (case map_of (ly_byId st) q of
           None \<Rightarrow> acc
         | Some sub \<Rightarrow>
             (let v = next_value ov (ly_fresh st) sub;
                  st' = st\<lparr>ly_fresh := ly_fresh st + 1\<rparr>
              in if \<not> same_ref v (su_composedValue sub) \<or> su_hash sub \<in> set force
                 then (put_sub (sub\<lparr>su_composedValue := v\<rparr>) st',
                       evs @ (case v of None \<Rightarrow> [] | Some r \<Rightarrow> map (\<lambda>l. Delivered l r) (su_listeners sub)))
                 else (st', evs))))"

definition compose_all :: "overlay \<Rightarrow> jsstring list \<Rightarrow> layered_store \<Rightarrow> layered_store \<times> client_event list" where
  "compose_all ov force st = fold (compose_sub ov force) (map snd (ly_byHash st)) (st, [])"

definition recompose ::
  "(json \<Rightarrow> jsstring) \<Rightarrow> pending_mutation list \<Rightarrow> jsstring list \<Rightarrow> layered_store \<Rightarrow>
     (layered_store \<times> client_event list) \<times> (jsstring, jsstring list) jsmap \<times> (jsstring \<times> js_error) list" where
  "recompose stringify entries force st =
     (case replay (view_of stringify st) entries [] of (ov, touched, dropped) \<Rightarrow> (compose_all ov force st, touched, dropped))"

section \<open>Closing (delivery-policy.ts)\<close>

record close_disposition =
  cd_reject :: "jsstring list"
  cd_drop :: "jsstring list"
  cd_retain :: "jsstring list"
  cd_park :: "jsstring list"

definition dispose :: "bool \<Rightarrow> pending_mutation \<Rightarrow> close_disposition \<Rightarrow> close_disposition" where
  "dispose armed e d =
     (case mu_status e of
        Unsent \<Rightarrow> d\<lparr>cd_retain := cd_retain d @ [mu_requestId e]\<rparr>
      | Parked \<Rightarrow> d\<lparr>cd_retain := cd_retain d @ [mu_requestId e]\<rparr>
      | Inflight \<Rightarrow>
          (if armed \<and> mu_durable e
           then d\<lparr>cd_park := cd_park d @ [mu_requestId e], cd_drop := cd_drop d @ [mu_requestId e]\<rparr>
           else d\<lparr>cd_reject := cd_reject d @ [mu_requestId e], cd_drop := cd_drop d @ [mu_requestId e]\<rparr>)
      | Completed _ _ \<Rightarrow> d\<lparr>cd_drop := cd_drop d @ [mu_requestId e]\<rparr>)"

definition closeDisposition :: "pending_mutation list \<Rightarrow> bool \<Rightarrow> close_disposition" where
  "closeDisposition entries armed = fold (dispose armed) entries \<lparr>cd_reject = [], cd_drop = [], cd_retain = [], cd_park = []\<rparr>"

end
