(* ===== verification/Optimistic_Client.thy ===== *)
theory Optimistic_Client
  imports Optimistic
begin

text \<open>
  The reconciler and the client around it: \<^verbatim>\<open>packages/client/src/reconcile.ts\<close> and the part of \<^verbatim>\<open>client.ts\<close>
  that a client without a durable outbox runs.  One record holds both objects' fields.  \<open>oc_wire\<close> is what
  was sent on the current connection, \<open>oc_out\<close> what the application was told, \<open>oc_timers\<close> the armed gate
  timers; listeners return.
\<close>

section \<open>State\<close>

datatype client_message =
    MsgConnect
  | MsgModifyQuerySet "query_request list" "int list"
  | MsgMutation jsstring jsstring json
  | MsgSetAuth "jsstring option"

record optimistic_client =
  oc_store :: layered_store
  oc_log :: mutation_log
  oc_observedTs :: int
  oc_timers :: "jsstring list"
  oc_version :: state_version
  oc_resyncing :: bool
  oc_closed :: bool
  oc_resumeSinceTs :: int
  oc_nextQueryId :: int
  oc_nextRequestId :: int
  oc_callbacks :: "jsstring list"
  oc_auth :: "jsstring option option"
  oc_diffCapabilitySent :: bool
  oc_wire :: "client_message list"
  oc_out :: "client_event list"

definition newClient :: optimistic_client where
  "newClient = \<lparr>oc_store = newLayeredStore, oc_log = [], oc_observedTs = 0, oc_timers = [], oc_version = INITIAL_VERSION,
     oc_resyncing = False, oc_closed = False, oc_resumeSinceTs = 0, oc_nextQueryId = 1, oc_nextRequestId = 1,
     oc_callbacks = [], oc_auth = None, oc_diffCapabilitySent = False, oc_wire = [], oc_out = []\<rparr>"

definition oc_send :: "client_message \<Rightarrow> optimistic_client \<Rightarrow> optimistic_client" where
  "oc_send m c = c\<lparr>oc_wire := oc_wire c @ [m]\<rparr>"

definition upd_store :: "(layered_store \<Rightarrow> layered_store) \<Rightarrow> optimistic_client \<Rightarrow> optimistic_client" where
  "upd_store f c = c\<lparr>oc_store := f (oc_store c)\<rparr>"

definition tell :: "client_event list \<Rightarrow> optimistic_client \<Rightarrow> optimistic_client" where
  "tell evs c = c\<lparr>oc_out := oc_out c @ evs\<rparr>"

section \<open>The reconciler (reconcile.ts)\<close>

definition versionCoversCommit :: "int \<Rightarrow> int \<Rightarrow> bool" where
  "versionCoversCommit maxObservedTs commitTs \<longleftrightarrow> commitTs \<le> maxObservedTs \<and> commitTs > 0"

definition log_delete :: "jsstring \<Rightarrow> optimistic_client \<Rightarrow> optimistic_client" where
  "log_delete rid c = c\<lparr>oc_log := AList.delete rid (oc_log c)\<rparr>"

definition clearTimer :: "jsstring \<Rightarrow> optimistic_client \<Rightarrow> optimistic_client" where
  "clearTimer rid c = c\<lparr>oc_timers := removeAll rid (oc_timers c)\<rparr>"

definition armGateTimer :: "jsstring \<Rightarrow> optimistic_client \<Rightarrow> optimistic_client" where
  "armGateTimer rid c = (case clearTimer rid c of c' \<Rightarrow> c'\<lparr>oc_timers := oc_timers c' @ [rid]\<rparr>)"

definition touch_log :: "(jsstring, jsstring list) jsmap \<Rightarrow> mutation_log \<Rightarrow> mutation_log" where
  "touch_log touched = map (\<lambda>(k, e). (k, case map_of touched (mu_requestId e) of None \<Rightarrow> e | Some hs \<Rightarrow> e\<lparr>mu_touched := hs\<rparr>))"

definition drop_layer :: "jsstring \<Rightarrow> optimistic_client \<Rightarrow> optimistic_client" where
  "drop_layer rid c = clearTimer rid (log_delete rid c)"

text \<open>What \<open>rebuild\<close> and \<open>initiate\<close> share: replay, assign what was touched, fire, drop what threw.\<close>

definition run_recompose ::
  "(json \<Rightarrow> jsstring) \<Rightarrow> jsstring list \<Rightarrow> optimistic_client \<Rightarrow> optimistic_client \<times> (jsstring \<times> js_error) list" where
  "run_recompose stringify force c =
     (case recompose stringify (entriesInOrder (oc_log c)) force (oc_store c) of ((st, evs), touched, dropped) \<Rightarrow>
        (fold (\<lambda>(rid, _). drop_layer rid) dropped (tell evs (c\<lparr>oc_store := st, oc_log := touch_log touched (oc_log c)\<rparr>)), dropped))"

definition warn_dropped :: "(jsstring \<times> js_error) list \<Rightarrow> optimistic_client \<Rightarrow> optimistic_client" where
  "warn_dropped ds = tell (map (\<lambda>(rid, e). LayerDropped rid e) ds)"

definition rebuild :: "(json \<Rightarrow> jsstring) \<Rightarrow> jsstring list \<Rightarrow> optimistic_client \<Rightarrow> optimistic_client" where
  "rebuild stringify force c = (case run_recompose stringify force c of (c', dropped) \<Rightarrow> warn_dropped dropped c')"

text \<open>The entry's own error is thrown to the caller; the others' are warned.\<close>

definition initiate :: "(json \<Rightarrow> jsstring) \<Rightarrow> pending_mutation \<Rightarrow> optimistic_client \<Rightarrow> optimistic_client \<times> js_error option" where
  "initiate stringify e c =
     (let c1 = c\<lparr>oc_log := log_add e (oc_log c)\<rparr>
      in if mu_update e = None then (c1, None)
         else (case run_recompose stringify [] c1 of (c2, dropped) \<Rightarrow>
            (warn_dropped (filter (\<lambda>(rid, _). rid \<noteq> mu_requestId e) dropped) c2, map_of (rev dropped) (mu_requestId e))))"

section \<open>Resynchronising (client.ts)\<close>

definition resume_request :: "int \<Rightarrow> client_sub \<Rightarrow> query_request" where
  "resume_request sinceTs sub =
     \<lparr>rq_queryId = su_queryId sub, rq_udfPath = su_path sub, rq_args = su_args sub,
      rq_resultHash = (if su_answered sub \<and> su_serverValue sub \<noteq> None then su_lastHash sub else None), rq_sinceTs = Some sinceTs\<rparr>"

definition resync :: "optimistic_client \<Rightarrow> optimistic_client" where
  "resync c =
     (let c1 = c\<lparr>oc_resyncing := True, oc_version := INITIAL_VERSION\<rparr>;
          subs = map snd (ly_byId (oc_store c1))
      in if subs = [] then c1\<lparr>oc_resyncing := False\<rparr>
         else oc_send (MsgModifyQuerySet (map (resume_request (max (oc_resumeSinceTs c1) (oc_observedTs c1))) subs) []) c1)"

section \<open>Ingesting a transition (reconcile.ts)\<close>

text \<open>One modification, with the hashes to notify although their value stays; a decoding error is thrown.\<close>

definition ingest_diff ::
  "client_sub \<Rightarrow> change list \<Rightarrow> jsstring \<Rightarrow> diff_reset option \<Rightarrow> jsstring option \<Rightarrow> optimistic_client \<Rightarrow> optimistic_client \<times> js_error option" where
  "ingest_diff sub changes checksum reset hash c =
     (if reset = None \<and> su_renderMode sub = None \<and> su_answered sub
      then (resync (upd_store (put_sub (sub\<lparr>su_lastHash := None\<rparr>)) c), None)
      else (case applyDiff sub changes checksum reset (oc_store c) of
         (st, Inl e) \<Rightarrow> (c\<lparr>oc_store := st\<rparr>, Some e)
       | (st, Inr drift) \<Rightarrow>
           (let st' = (case map_of (ly_byId st) (su_queryId sub) of
                  None \<Rightarrow> st | Some s \<Rightarrow> put_sub (s\<lparr>su_lastHash := (if reset \<noteq> None then hash else None)\<rparr>) st);
                c' = c\<lparr>oc_store := st'\<rparr>
            in (if drift then resync c' else c', None))))"

definition ingest_mod ::
  "state_modification \<Rightarrow> jsstring list \<Rightarrow> optimistic_client \<Rightarrow> optimistic_client \<times> jsstring list \<times> js_error option" where
  "ingest_mod m unchanged c =
     (let sub = (\<lambda>q. map_of (ly_byId (oc_store c)) q)
      in case m of
           QueryUpdated q v hash \<Rightarrow>
             (case sub q of
                None \<Rightarrow> (c, unchanged, None)
              | Some s \<Rightarrow> (case jsonToConvex v of
                   Inl e \<Rightarrow> (c, unchanged, Some e)
                 | Inr v \<Rightarrow> (upd_store (setServerValue s v hash) c, unchanged, None)))
         | QueryFailed q e \<Rightarrow>
             (case sub q of
                None \<Rightarrow> (c, unchanged, None)
              | Some s \<Rightarrow> (tell (map (\<lambda>l. QueryErrored l e) (su_listeners s)) (upd_store (markAnswered s) c), unchanged, None))
         | QueryUnchanged q \<Rightarrow>
             (case sub q of
                None \<Rightarrow> (c, unchanged, None)
              | Some s \<Rightarrow> (upd_store (markAnswered s) c, unchanged @ [su_hash s], None))
         | QueryDiff q changes checksum reset hash \<Rightarrow>
             (case sub q of
                None \<Rightarrow> (c, unchanged, None)
              | Some s \<Rightarrow> (case ingest_diff s changes checksum reset hash c of (c', e) \<Rightarrow> (c', unchanged, e)))
         | QueryRemoved _ \<Rightarrow> (c, unchanged, None))"

fun ingest_mods ::
  "state_modification list \<Rightarrow> jsstring list \<Rightarrow> optimistic_client \<Rightarrow> optimistic_client \<times> jsstring list \<times> js_error option" where
  "ingest_mods [] unchanged c = (c, unchanged, None)"
| "ingest_mods (m # ms) unchanged c =
     (case ingest_mod m unchanged c of
        (c', u', Some e) \<Rightarrow> (c', u', Some e)
      | (c', u', None) \<Rightarrow> ingest_mods ms u' c')"

definition gate_open :: "int \<Rightarrow> pending_mutation \<Rightarrow> bool" where
  "gate_open observed e = (case mu_status e of Completed ts _ \<Rightarrow> versionCoversCommit observed ts | _ \<Rightarrow> False)"

definition drop_covered :: "optimistic_client \<Rightarrow> optimistic_client" where
  "drop_covered c = fold (\<lambda>e. if gate_open (oc_observedTs c) e then drop_layer (mu_requestId e) else id) (entriesInOrder (oc_log c)) c"

definition ingestTransition ::
  "(json \<Rightarrow> jsstring) \<Rightarrow> state_modification list \<Rightarrow> int \<Rightarrow> optimistic_client \<Rightarrow> optimistic_client \<times> js_error option" where
  "ingestTransition stringify mods endTs c =
     (case ingest_mods mods [] (c\<lparr>oc_observedTs := max (oc_observedTs c) endTs\<rparr>) of
        (c', _, Some e) \<Rightarrow> (c', Some e)
      | (c', unchanged, None) \<Rightarrow> (rebuild stringify unchanged (drop_covered c'), None))"

section \<open>Answers, timers, close (reconcile.ts)\<close>

definition set_status :: "jsstring \<Rightarrow> mutation_status \<Rightarrow> optimistic_client \<Rightarrow> optimistic_client" where
  "set_status rid s c = c\<lparr>oc_log := AList.map_entry rid (\<lambda>e. e\<lparr>mu_status := s\<rparr>) (oc_log c)\<rparr>"

definition onMutationSuccess :: "(json \<Rightarrow> jsstring) \<Rightarrow> int \<Rightarrow> jsstring \<Rightarrow> int option \<Rightarrow> optimistic_client \<Rightarrow> optimistic_client" where
  "onMutationSuccess stringify now rid ts c =
     (case map_of (oc_log c) rid of
        None \<Rightarrow> c
      | Some e \<Rightarrow>
          if mu_update e = None \<or> mu_touched e = [] then log_delete rid c
          else (case ts of
             None \<Rightarrow> rebuild stringify [] (log_delete rid c)
           | Some t \<Rightarrow>
               if t \<le> 0 \<or> versionCoversCommit (oc_observedTs c) t then rebuild stringify [] (log_delete rid c)
               else armGateTimer rid (set_status rid (Completed t now) c)))"

text \<open>A failure, a verdict after the baseline and the gate's timeout drop the layer.\<close>

definition onMutationFailure :: "(json \<Rightarrow> jsstring) \<Rightarrow> jsstring \<Rightarrow> optimistic_client \<Rightarrow> optimistic_client" where
  "onMutationFailure stringify rid c =
     (if map_of (oc_log c) rid = None then c else rebuild stringify [] (drop_layer rid c))"

definition gate_timeout :: "(json \<Rightarrow> jsstring) \<Rightarrow> jsstring \<Rightarrow> optimistic_client \<Rightarrow> optimistic_client" where
  "gate_timeout stringify rid c =
     (let c1 = clearTimer rid c
      in case map_of (oc_log c1) rid of
           None \<Rightarrow> c1
         | Some e \<Rightarrow> (case mu_status e of
              Completed _ _ \<Rightarrow> rebuild stringify [] (log_delete rid c1)
            | _ \<Rightarrow> c1))"

definition park :: "jsstring \<Rightarrow> optimistic_client \<Rightarrow> optimistic_client" where
  "park rid c = c\<lparr>oc_log := AList.map_entry rid (\<lambda>e. e\<lparr>mu_status := Parked, mu_update := None\<rparr>) (oc_log c)\<rparr>"

definition closeSession :: "(json \<Rightarrow> jsstring) \<Rightarrow> bool \<Rightarrow> optimistic_client \<Rightarrow> optimistic_client \<times> jsstring list \<times> jsstring list" where
  "closeSession stringify armed c =
     (let disp = closeDisposition (entriesInOrder (oc_log c)) armed;
          c1 = fold park (cd_park disp) c;
          c2 = fold (\<lambda>rid. if rid \<in> set (cd_park disp) then id else drop_layer rid) (cd_drop disp) c1
      in (rebuild stringify [] (c2\<lparr>oc_observedTs := 0\<rparr>), cd_reject disp, cd_park disp))"

section \<open>The client (client.ts)\<close>

definition maybeSendDiffCapability :: "optimistic_client \<Rightarrow> optimistic_client" where
  "maybeSendDiffCapability c =
     (if oc_diffCapabilitySent c \<or> oc_closed c then c else oc_send MsgConnect (c\<lparr>oc_diffCapabilitySent := True\<rparr>))"

definition oc_subscribe :: "(json \<Rightarrow> jsstring) \<Rightarrow> jsstring \<Rightarrow> jvalue \<Rightarrow> nat \<Rightarrow> optimistic_client \<Rightarrow> optimistic_client" where
  "oc_subscribe stringify path args listener c =
     (let argsJson = convexToJson args;
          hash = queryHash stringify path argsJson;
          c1 = (if sub_by_hash hash (oc_store c) \<noteq> None then c
                else oc_send (MsgModifyQuerySet [\<lparr>rq_queryId = oc_nextQueryId c, rq_udfPath = path, rq_args = argsJson,
                                 rq_resultHash = None, rq_sinceTs = None\<rparr>] [])
                       (maybeSendDiffCapability (upd_store (ly_create (oc_nextQueryId c) path argsJson hash)
                          (c\<lparr>oc_nextQueryId := oc_nextQueryId c + 1\<rparr>))))
      in case sub_by_hash hash (oc_store c1) of
           None \<Rightarrow> c1
         | Some s \<Rightarrow> tell (case su_composedValue s of None \<Rightarrow> [] | Some r \<Rightarrow> [Delivered listener r])
             (upd_store (put_sub (s\<lparr>su_listeners := List.insert listener (su_listeners s)\<rparr>)) c1))"

definition oc_unsubscribe :: "jsstring \<Rightarrow> nat \<Rightarrow> optimistic_client \<Rightarrow> optimistic_client" where
  "oc_unsubscribe hash listener c =
     (case sub_by_hash hash (oc_store c) of
        None \<Rightarrow> c
      | Some s \<Rightarrow>
          (let rest = removeAll listener (su_listeners s);
               c1 = upd_store (put_sub (s\<lparr>su_listeners := rest\<rparr>)) c
           in if rest = [] then upd_store (ly_remove hash) (oc_send (MsgModifyQuerySet [] [su_queryId s]) c1) else c1))"

text \<open>A throwing updater's error is the caller's; nothing is sent and no promise is made.\<close>

definition oc_mutation ::
  "(json \<Rightarrow> jsstring) \<Rightarrow> seed \<Rightarrow> jsstring \<Rightarrow> jvalue \<Rightarrow> (jvalue \<Rightarrow> view_prog) option \<Rightarrow> optimistic_client \<Rightarrow> optimistic_client \<times> js_error option" where
  "oc_mutation stringify seed path args update c =
     (let rid = int_dec (oc_nextRequestId c);
          e = \<lparr>mu_requestId = rid, mu_udfPath = path, mu_args = convexToJson args, mu_update = update, mu_seed = seed,
               mu_touched = [], mu_status = Unsent, mu_durable = False\<rparr>
      in case initiate stringify e (c\<lparr>oc_nextRequestId := oc_nextRequestId c + 1\<rparr>) of
           (c1, Some err) \<Rightarrow> (c1, Some err)
         | (c1, None) \<Rightarrow>
             (let c2 = c1\<lparr>oc_callbacks := oc_callbacks c1 @ [rid]\<rparr>
              in (if oc_closed c2 then set_status rid Unsent c2
                  else oc_send (MsgMutation rid path (convexToJson args)) (set_status rid Inflight c2), None)))"

definition settle_promise :: "jsstring \<Rightarrow> optimistic_client \<Rightarrow> optimistic_client" where
  "settle_promise rid c = c\<lparr>oc_callbacks := removeAll rid (oc_callbacks c)\<rparr>"

definition onTransition ::
  "(json \<Rightarrow> jsstring) \<Rightarrow> state_version \<Rightarrow> state_version \<Rightarrow> state_modification list \<Rightarrow> optimistic_client \<Rightarrow> optimistic_client" where
  "onTransition stringify startVersion endVersion mods c =
     (if oc_resyncing c
      then (case ingestTransition stringify mods (sv_ts endVersion) c of
              (c', Some _) \<Rightarrow> c' | (c', None) \<Rightarrow> c'\<lparr>oc_version := endVersion, oc_resyncing := False\<rparr>)
      else if \<not> versionsEqual startVersion (oc_version c) then resync c
      else (case ingestTransition stringify mods (sv_ts endVersion) c of
              (c', Some _) \<Rightarrow> c' | (c', None) \<Rightarrow> c'\<lparr>oc_version := endVersion\<rparr>))"

definition onServerMessage :: "(json \<Rightarrow> jsstring) \<Rightarrow> int \<Rightarrow> server_message \<Rightarrow> optimistic_client \<Rightarrow> optimistic_client" where
  "onServerMessage stringify now msg c =
     (case msg of
        Transition startVersion endVersion mods \<Rightarrow> onTransition stringify startVersion endVersion mods c
      | MutationSucceeded rid v ts replayed missing \<Rightarrow>
          (case jsonToConvex (or_default v JNull) of
             Inl _ \<Rightarrow> if rid \<in> set (oc_callbacks c) then settle_promise rid c else onMutationSuccess stringify now rid ts c
           | Inr _ \<Rightarrow> onMutationSuccess stringify now rid ts (settle_promise rid c))
      | MutationFailed rid e code \<Rightarrow> onMutationFailure stringify rid (settle_promise rid c)
      | _ \<Rightarrow> c)"

definition onTransportClosed :: "(json \<Rightarrow> jsstring) \<Rightarrow> optimistic_client \<Rightarrow> optimistic_client" where
  "onTransportClosed stringify c =
     (case closeSession stringify False
             (c\<lparr>oc_closed := True, oc_diffCapabilitySent := False, oc_resumeSinceTs := oc_observedTs c\<rparr>) of
        (c', rejected, _) \<Rightarrow> fold settle_promise rejected c')"

definition flush_entry :: "pending_mutation \<Rightarrow> optimistic_client \<Rightarrow> optimistic_client" where
  "flush_entry e c =
     oc_send (MsgMutation (mu_requestId e) (mu_udfPath e) (mu_args e)) (set_status (mu_requestId e) Inflight c)"

definition unsentInOrder :: "optimistic_client \<Rightarrow> pending_mutation list" where
  "unsentInOrder c = filter (\<lambda>e. mu_status e = Unsent) (entriesInOrder (oc_log c))"

definition onTransportReopened :: "optimistic_client \<Rightarrow> optimistic_client" where
  "onTransportReopened c =
     (let c1 = c\<lparr>oc_closed := False, oc_wire := []\<rparr>;
          c2 = (case oc_auth c1 of None \<Rightarrow> c1 | Some token \<Rightarrow> oc_send (MsgSetAuth token) c1);
          c3 = resync (maybeSendDiffCapability c2)
      in fold flush_entry (unsentInOrder c3) c3)"

definition oc_setAuth :: "jsstring option \<Rightarrow> optimistic_client \<Rightarrow> optimistic_client" where
  "oc_setAuth token c = oc_send (MsgSetAuth token) (c\<lparr>oc_auth := Some token\<rparr>)"

end
