(* ===== verification/Optimistic_Frames.thy ===== *)
theory Optimistic_Frames
  imports Optimistic_Client
begin

text \<open>
  What an application sees: after every rebuild each composed value is the replay of the surviving updaters
  over the server's answers, the same object as the answer where no updater wrote, and listeners are told
  exactly what is shown.
\<close>

section \<open>Replay\<close>

lemma invokeUpdate_cong: "mu_args e = mu_args e' \<Longrightarrow> mu_seed e = mu_seed e' \<Longrightarrow> invokeUpdate ve ov e u = invokeUpdate ve ov e' u"
  by (simp add: invokeUpdate_def)

definition touch_entry :: "(jsstring, jsstring list) jsmap \<Rightarrow> pending_mutation \<Rightarrow> pending_mutation" where
  "touch_entry touched e = (case map_of touched (mu_requestId e) of None \<Rightarrow> e | Some hs \<Rightarrow> e\<lparr>mu_touched := hs\<rparr>)"

lemma touch_entry_frame [simp]:
  "mu_requestId (touch_entry t e) = mu_requestId e" "mu_args (touch_entry t e) = mu_args e" "mu_seed (touch_entry t e) = mu_seed e"
  "mu_update (touch_entry t e) = mu_update e" "mu_status (touch_entry t e) = mu_status e" "mu_udfPath (touch_entry t e) = mu_udfPath e"
  by (simp_all add: touch_entry_def split: option.splits)

lemma touch_log_eq: "touch_log t log = map (\<lambda>(k, e). (k, touch_entry t e)) log"
  by (simp add: touch_log_def touch_entry_def)

lemma replay_touch [simp]: "replay ve (map (touch_entry t) es) ov = replay ve es ov"
proof (induction es arbitrary: ov)
  case (Cons e es)
  have "invokeUpdate ve ov (touch_entry t e) u = invokeUpdate ve ov e u" for u by (rule invokeUpdate_cong) simp_all
  then show ?case using Cons.IH by (simp split: option.split sum.split)
qed simp

lemma replay_dropped: "replay ve es ov = (ov', ts, ds) \<Longrightarrow> fst ` set ds \<subseteq> mu_requestId ` set es"
proof (induction es arbitrary: ov ts ds)
  case (Cons e es)
  show ?case
  proof (cases "mu_update e")
    case None
    then show ?thesis using Cons.prems Cons.IH[of ov ts ds] by auto
  next
    case (Some u)
    show ?thesis
    proof (cases "invokeUpdate ve ov e u")
      case (Inl err)
      obtain ov1 ts1 ds1 where r: "replay ve es ov = (ov1, ts1, ds1)" using prod_cases3 by blast
      then have "fst ` set ds1 \<subseteq> mu_requestId ` set es" "ds = (mu_requestId e, err) # ds1" using Cons.prems Some Inl Cons.IH[of ov ts ds1] by auto
      then show ?thesis by (simp add: subset_insertI2)
    next
      case (Inr loc)
      obtain ov1 ts1 ds1 where r: "replay ve es (lay loc ov) = (ov1, ts1, ds1)" using prod_cases3 by blast
      then show ?thesis using Cons.prems Some Inr Cons.IH[of "lay loc ov" ts1 ds] by auto
    qed
  qed
qed simp

text \<open>An updater that throws contributes nothing: the survivors alone give the same overlay, and none throws.\<close>

lemma replay_survivors:
  "replay ve es ov = (ov', ts, ds) \<Longrightarrow> distinct (map mu_requestId es) \<Longrightarrow> fst ` set ds \<subseteq> D \<Longrightarrow> D \<inter> mu_requestId ` set es \<subseteq> fst ` set ds \<Longrightarrow>
     replay ve (filter (\<lambda>e. mu_requestId e \<notin> D) es) ov = (ov', ts, [])"
proof (induction es arbitrary: ov ts ds)
  case (Cons e es)
  show ?case
  proof (cases "mu_update e")
    case None
    have r: "replay ve es ov = (ov', ts, ds)" using Cons.prems(1) None by simp
    then have "mu_requestId e \<notin> D" using Cons.prems(2,4) replay_dropped[OF r] by auto
    moreover have "D \<inter> mu_requestId ` set es \<subseteq> fst ` set ds" using Cons.prems(4) by auto
    then have "replay ve (filter (\<lambda>e. mu_requestId e \<notin> D) es) ov = (ov', ts, [])" using Cons.IH[OF r] Cons.prems by auto
    ultimately show ?thesis using None by simp
  next
    case (Some u)
    show ?thesis
    proof (cases "invokeUpdate ve ov e u")
      case (Inl err)
      obtain ds' where r: "replay ve es ov = (ov', ts, ds')" and ds: "ds = (mu_requestId e, err) # ds'"
        using Cons.prems(1) Some Inl by (auto split: prod.splits)
      have "D \<inter> mu_requestId ` set es \<subseteq> insert (mu_requestId e) (fst ` set ds')" "mu_requestId e \<notin> mu_requestId ` set es"
        using Cons.prems(2,4) ds by auto
      then have "D \<inter> mu_requestId ` set es \<subseteq> fst ` set ds'" using subset_insert[of "mu_requestId e" "D \<inter> mu_requestId ` set es"] by simp
      then have "replay ve (filter (\<lambda>e. mu_requestId e \<notin> D) es) ov = (ov', ts, [])" using Cons.IH[OF r] Cons.prems ds by auto
      then show ?thesis using Cons.prems(3) ds by simp
    next
      case (Inr loc)
      obtain ts' where r: "replay ve es (lay loc ov) = (ov', ts', ds)" and ts: "ts = (mu_requestId e, map fst loc) # ts'"
        using Cons.prems(1) Some Inr by (auto split: prod.splits)
      then have "mu_requestId e \<notin> D" using Cons.prems(2,4) replay_dropped[OF r] by auto
      moreover have "D \<inter> mu_requestId ` set es \<subseteq> fst ` set ds" using Cons.prems(4) by auto
      then have "replay ve (filter (\<lambda>e. mu_requestId e \<notin> D) es) (lay loc ov) = (ov', ts', [])" using Cons.IH[OF r] Cons.prems by auto
      ultimately show ?thesis using Some Inr ts by simp
    qed
  qed
qed simp

section \<open>Composing\<close>

definition store_ok :: "layered_store \<Rightarrow> bool" where
  "store_ok st \<longleftrightarrow> (\<forall>q s. map_of (ly_byId st) q = Some s \<longrightarrow> su_queryId s = q) \<and> distinct (map fst (ly_byHash st)) \<and>
     (\<forall>(h, q) \<in> set (ly_byHash st). \<exists>s. map_of (ly_byId st) q = Some s \<and> su_hash s = h)"

lemma store_ok_distinct: "store_ok st \<Longrightarrow> distinct (map snd (ly_byHash st))"
proof -
  assume ok: "store_ok st"
  have inj: "h = h'" if "(h, q) \<in> set (ly_byHash st)" "(h', q) \<in> set (ly_byHash st)" for h h' q
  proof -
    have each: "\<exists>s. map_of (ly_byId st) q = Some s \<and> su_hash s = h" if "(h, q) \<in> set (ly_byHash st)" for h q
      using ok that unfolding store_ok_def by blast
    show ?thesis using each[OF that(1)] each[OF that(2)] by auto
  qed
  have "distinct (ly_byHash st)" using ok by (simp add: store_ok_def distinct_map)
  then show ?thesis using inj by (auto simp: distinct_map inj_on_def)
qed

text \<open>What one subscription becomes, and what its listeners are told.\<close>

definition compose_one :: "overlay \<Rightarrow> jsstring list \<Rightarrow> nat \<Rightarrow> client_sub \<Rightarrow> client_sub" where
  "compose_one ov force n s =
     (if \<not> same_ref (next_value ov n s) (su_composedValue s) \<or> su_hash s \<in> set force then s\<lparr>su_composedValue := next_value ov n s\<rparr> else s)"

definition tell_one :: "overlay \<Rightarrow> jsstring list \<Rightarrow> nat \<Rightarrow> client_sub \<Rightarrow> client_event list" where
  "tell_one ov force n s =
     (case if \<not> same_ref (next_value ov n s) (su_composedValue s) \<or> su_hash s \<in> set force then next_value ov n s else None of
        None \<Rightarrow> [] | Some r \<Rightarrow> map (\<lambda>l. Delivered l r) (su_listeners s))"

lemma compose_fold:
  assumes "distinct qs" "\<And>q s. map_of (ly_byId st) q = Some s \<Longrightarrow> su_queryId s = q"
    and "fold (compose_sub ov force) qs (st, evs) = (st', evs')"
  shows "\<exists>N. ly_byHash st' = ly_byHash st \<and>
    (\<forall>q. map_of (ly_byId st') q = (if q \<in> set qs then map_option (compose_one ov force (N q)) (map_of (ly_byId st) q) else map_of (ly_byId st) q)) \<and>
    (\<exists>new. evs' = evs @ new \<and> set new = (\<Union>q \<in> set qs. case map_of (ly_byId st) q of None \<Rightarrow> {} | Some s \<Rightarrow> set (tell_one ov force (N q) s)))"
  using assms
proof (induction qs arbitrary: st evs)
  case (Cons q qs)
  obtain st1 evs1 where one: "compose_sub ov force q (st, evs) = (st1, evs1)" by fastforce
  have rest: "fold (compose_sub ov force) qs (st1, evs1) = (st', evs')" using Cons.prems(3) one by simp
  have st1: "ly_byHash st1 = ly_byHash st"
    "\<And>q'. map_of (ly_byId st1) q' = (if q' = q then map_option (compose_one ov force (ly_fresh st)) (map_of (ly_byId st) q) else map_of (ly_byId st) q')"
    "evs1 = evs @ (case map_of (ly_byId st) q of None \<Rightarrow> [] | Some s \<Rightarrow> tell_one ov force (ly_fresh st) s)"
    using one Cons.prems(2)[of q] by (auto simp: compose_sub_def compose_one_def tell_one_def put_sub_def Let_def update_conv' split: option.splits if_splits)
  have ids: "su_queryId s = q'" if "map_of (ly_byId st1) q' = Some s" for q' s
    using that Cons.prems(2) by (auto simp: st1(2) compose_one_def split: if_splits)
  obtain N new where N: "ly_byHash st' = ly_byHash st1"
      "\<And>q'. map_of (ly_byId st') q' = (if q' \<in> set qs then map_option (compose_one ov force (N q')) (map_of (ly_byId st1) q') else map_of (ly_byId st1) q')"
      "evs' = evs1 @ new" "set new = (\<Union>q \<in> set qs. case map_of (ly_byId st1) q of None \<Rightarrow> {} | Some s \<Rightarrow> set (tell_one ov force (N q) s))"
    using Cons.IH[OF _ ids rest] Cons.prems(1) by auto
  let ?N = "N(q := ly_fresh st)"
  have q: "q \<notin> set qs" using Cons.prems(1) by simp
  have "map_of (ly_byId st') q' = (if q' \<in> set (q # qs) then map_option (compose_one ov force (?N q')) (map_of (ly_byId st) q') else map_of (ly_byId st) q')" for q'
    using q by (auto simp: N(2) st1(2))
  moreover have "(\<Union>q \<in> set qs. case map_of (ly_byId st1) q of None \<Rightarrow> {} | Some s \<Rightarrow> set (tell_one ov force (N q) s)) =
      (\<Union>q \<in> set qs. case map_of (ly_byId st) q of None \<Rightarrow> {} | Some s \<Rightarrow> set (tell_one ov force (?N q) s))"
    by (rule SUP_cong) (use q in \<open>auto simp: st1(2) split: option.splits\<close>)
  then have "set ((case map_of (ly_byId st) q of None \<Rightarrow> [] | Some s \<Rightarrow> tell_one ov force (ly_fresh st) s) @ new) =
      (\<Union>q \<in> set (q # qs). case map_of (ly_byId st) q of None \<Rightarrow> {} | Some s \<Rightarrow> set (tell_one ov force (?N q) s))"
    by (auto simp: N(4) split: option.splits)
  ultimately show ?case using N(1,3) st1(1,3) by (intro exI[of _ ?N]) simp
qed auto

text \<open>What a subscription shows, given what it should: the very value, or one that is \<open>===\<close> to it.\<close>

definition as_shown :: "js_ref option \<Rightarrow> js_ref option \<Rightarrow> bool" where
  "as_shown shown v \<longleftrightarrow> shown = v \<or> same_ref v shown"

lemma compose_one_shown: "as_shown (su_composedValue (compose_one ov force n s)) (next_value ov n s)"
  by (auto simp: as_shown_def compose_one_def)

text \<open>What a replay is over: the subscriptions and the server's values, whatever is shown.\<close>

lemma compose_all_spec:
  assumes ok: "store_ok st" and c: "compose_all ov force st = (st', evs)"
  shows "\<exists>N. ly_byHash st' = ly_byHash st \<and>
    (\<forall>q. map_of (ly_byId st') q = (if q \<in> snd ` set (ly_byHash st) then map_option (compose_one ov force (N q)) (map_of (ly_byId st) q) else map_of (ly_byId st) q)) \<and>
    set evs = (\<Union>q \<in> snd ` set (ly_byHash st). case map_of (ly_byId st) q of None \<Rightarrow> {} | Some s \<Rightarrow> set (tell_one ov force (N q) s))"
proof -
  have "fold (compose_sub ov force) (map snd (ly_byHash st)) (st, []) = (st', evs)" using c by (simp add: compose_all_def)
  then show ?thesis using compose_fold[OF store_ok_distinct[OF ok]] ok by (fastforce simp: store_ok_def)
qed

lemma compose_one_frame [simp]:
  "su_queryId (compose_one ov force n s) = su_queryId s" "su_hash (compose_one ov force n s) = su_hash s"
  "su_path (compose_one ov force n s) = su_path s" "su_args (compose_one ov force n s) = su_args s"
  "su_serverValue (compose_one ov force n s) = su_serverValue s" "su_listeners (compose_one ov force n s) = su_listeners s"
  by (simp_all add: compose_one_def)

lemma map_filter_cong: "(\<And>x. x \<in> set xs \<Longrightarrow> f x = map_option h (g x)) \<Longrightarrow> List.map_filter f xs = map h (List.map_filter g xs)"
  by (induction xs) (auto simp: List.map_filter_simps split: option.splits)

lemma compose_all_frame:
  assumes ok: "store_ok st" and c: "compose_all ov force st = (st', evs)"
  shows "store_ok st'" "view_of stringify st' = view_of stringify st"
proof -
  obtain N where N: "ly_byHash st' = ly_byHash st"
      "\<And>q. map_of (ly_byId st') q = (if q \<in> snd ` set (ly_byHash st) then map_option (compose_one ov force (N q)) (map_of (ly_byId st) q) else map_of (ly_byId st) q)"
    using compose_all_spec[OF ok c] by blast
  show "store_ok st'" using ok unfolding store_ok_def N(1) by (auto simp: N(2) split: if_splits)
  have "sub_by_hash h st' = map_option (\<lambda>s. compose_one ov force (N (su_queryId s)) s) (sub_by_hash h st)" for h
  proof (cases "map_of (ly_byHash st) h")
    case (Some q)
    then have "q \<in> snd ` set (ly_byHash st)" by (force dest: map_of_SomeD)
    then have "sub_by_hash h st' = map_option (compose_one ov force (N q)) (map_of (ly_byId st) q)" using Some by (simp add: sub_by_hash_def N)
    then show ?thesis using ok Some by (cases "map_of (ly_byId st) q") (auto simp: sub_by_hash_def store_ok_def)
  qed (simp add: sub_by_hash_def N(1))
  then have "ve_base (view_of stringify st') = ve_base (view_of stringify st)"
    by (auto simp: view_of_def fun_eq_iff split: option.split)
  moreover have "byHash_values st' = map (\<lambda>s. compose_one ov force (N (su_queryId s)) s) (byHash_values st)"
    unfolding byHash_values_def N(1)
  proof (rule map_filter_cong)
    fix x assume "x \<in> set (ly_byHash st)"
    then have "snd x \<in> snd ` set (ly_byHash st)" by simp
    then show "(case x of (_, q) \<Rightarrow> map_of (ly_byId st') q) =
        map_option (\<lambda>s. compose_one ov force (N (su_queryId s)) s) (case x of (_, q) \<Rightarrow> map_of (ly_byId st) q)"
      using ok by (cases "map_of (ly_byId st) (snd x)") (auto simp: N(2) store_ok_def case_prod_unfold)
  qed
  then have "ve_subs (view_of stringify st') = ve_subs (view_of stringify st)" by (simp add: view_of_def)
  ultimately show "view_of stringify st' = view_of stringify st" by (simp add: view_of_def)
qed

section \<open>A rebuilt client\<close>

definition log_ok :: "mutation_log \<Rightarrow> bool" where
  "log_ok log \<longleftrightarrow> distinct (map fst log) \<and> (\<forall>(k, e) \<in> set log. mu_requestId e = k)"

lemma log_ok_ids: "log_ok log \<Longrightarrow> map mu_requestId (entriesInOrder log) = map fst log"
  by (induction log) (auto simp: log_ok_def entriesInOrder_def)

lemma entries_touch: "entriesInOrder (touch_log t log) = map (touch_entry t) (entriesInOrder log)"
  by (simp add: touch_log_eq entriesInOrder_def case_prod_unfold)

lemma entries_filter:
  "log_ok log \<Longrightarrow> entriesInOrder (filter (\<lambda>(k, _). P k) (touch_log t log)) =
     map (touch_entry t) (filter (\<lambda>e. P (mu_requestId e)) (entriesInOrder log))"
  by (induction log) (auto simp: touch_log_eq entriesInOrder_def log_ok_def)

lemma fold_drop_layer:
  "fold (\<lambda>(rid, _). drop_layer rid) ds c =
     c\<lparr>oc_log := filter (\<lambda>(k, _). k \<notin> fst ` set ds) (oc_log c), oc_timers := filter (\<lambda>k. k \<notin> fst ` set ds) (oc_timers c)\<rparr>"
proof (induction ds arbitrary: c)
  case (Cons d ds)
  obtain rid e where d: "d = (rid, e)" by fastforce
  have "drop_layer rid c = c\<lparr>oc_log := filter (\<lambda>(k, _). k \<noteq> rid) (oc_log c), oc_timers := filter (\<lambda>k. k \<noteq> rid) (oc_timers c)\<rparr>"
    by (simp add: drop_layer_def clearTimer_def log_delete_def AList.delete_eq removeAll_filter_not_eq case_prod_unfold eq_commute)
  moreover have "fold (\<lambda>(rid, _). drop_layer rid) (d # ds) c = fold (\<lambda>(rid, _). drop_layer rid) ds (drop_layer rid c)" by (simp add: d)
  ultimately show ?case unfolding Cons.IH by (simp add: d case_prod_unfold conj_commute)
qed simp

text \<open>What the application sees of a subscription, and what it should see.\<close>

definition composition :: "(json \<Rightarrow> jsstring) \<Rightarrow> optimistic_client \<Rightarrow> overlay \<times> (jsstring \<times> js_error) list" where
  "composition stringify c = (case replay (view_of stringify (oc_store c)) (entriesInOrder (oc_log c)) [] of (ov, _, ds) \<Rightarrow> (ov, ds))"

lemma rebuild_run: "run_recompose stringify force c = (c', ds) \<Longrightarrow> rebuild stringify force c = warn_dropped ds c'"
  by (simp add: rebuild_def)

lemma run_recompose_spec:
  assumes "store_ok (oc_store c)" "log_ok (oc_log c)" "run_recompose stringify force c = (c', ds)"
  shows "\<exists>touched evs ov st. replay (view_of stringify (oc_store c)) (entriesInOrder (oc_log c)) [] = (ov, touched, ds) \<and>
    compose_all ov force (oc_store c) = (st, evs) \<and> composition stringify c' = (ov, []) \<and>
    c' = c\<lparr>oc_store := st, oc_log := filter (\<lambda>(k, _). k \<notin> fst ` set ds) (touch_log touched (oc_log c)),
      oc_timers := filter (\<lambda>k. k \<notin> fst ` set ds) (oc_timers c), oc_out := oc_out c @ evs\<rparr>"
proof -
  let ?ve = "view_of stringify (oc_store c)" and ?es = "entriesInOrder (oc_log c)"
  obtain ov touched where r: "replay ?ve ?es [] = (ov, touched, ds)" and ca: "compose_all ov force (oc_store c) = compose_all ov force (oc_store c)"
    using assms(3) by (auto simp: run_recompose_def recompose_def split: prod.splits)
  obtain st evs where comp: "compose_all ov force (oc_store c) = (st, evs)" by fastforce
  have c': "c' = c\<lparr>oc_store := st, oc_log := filter (\<lambda>(k, _). k \<notin> fst ` set ds) (touch_log touched (oc_log c)),
      oc_timers := filter (\<lambda>k. k \<notin> fst ` set ds) (oc_timers c), oc_out := oc_out c @ evs\<rparr>"
    using assms(3)[symmetric] unfolding run_recompose_def recompose_def by (simp add: r comp fold_drop_layer tell_def)
  have dist: "distinct (map mu_requestId ?es)" using log_ok_ids[OF assms(2)] assms(2) by (simp add: log_ok_def)
  have es: "entriesInOrder (oc_log c') = map (touch_entry touched) (filter (\<lambda>e. mu_requestId e \<notin> fst ` set ds) ?es)"
    using entries_filter[OF assms(2)] by (simp add: c')
  have "replay ?ve (filter (\<lambda>e. mu_requestId e \<notin> fst ` set ds) ?es) [] = (ov, touched, [])"
    by (rule replay_survivors[OF r dist]) auto
  then have last: "composition stringify c' = (ov, [])"
    using compose_all_frame(2)[OF assms(1) comp] unfolding composition_def es by (simp add: c')
  show ?thesis by (intro exI conjI, rule r, rule comp, rule last, rule c')
qed

lemma tell_one_shown: "Delivered l r \<in> set (tell_one ov force n s) \<Longrightarrow> l \<in> set (su_listeners s) \<and> su_composedValue (compose_one ov force n s) = Some r"
  by (auto simp: tell_one_def compose_one_def split: option.splits if_splits)

lemma byHash_valuesE:
  assumes "s \<in> set (byHash_values st)"
  obtains h q where "(h, q) \<in> set (ly_byHash st)" "map_of (ly_byId st) q = Some s"
  using assms by (auto simp: byHash_values_def List.map_filter_def)

lemma byHash_valuesI: "(h, q) \<in> set (ly_byHash st) \<Longrightarrow> map_of (ly_byId st) q = Some s \<Longrightarrow> s \<in> set (byHash_values st)"
  by (force simp: byHash_values_def List.map_filter_def)

text \<open>A rebuilt client: everything shown is the replay of what is left, and so is everything just told.\<close>

definition rebuilt :: "(json \<Rightarrow> jsstring) \<Rightarrow> optimistic_client \<Rightarrow> bool" where
  "rebuilt stringify c \<longleftrightarrow> (\<exists>ov. composition stringify c = (ov, []) \<and>
     (\<forall>s \<in> set (byHash_values (oc_store c)). \<exists>n. as_shown (su_composedValue s) (next_value ov n s)))"

definition told_shown :: "client_event list \<Rightarrow> optimistic_client \<Rightarrow> bool" where
  "told_shown evs c \<longleftrightarrow> (\<forall>l r. Delivered l r \<in> set evs \<longrightarrow>
     (\<exists>s \<in> set (byHash_values (oc_store c)). l \<in> set (su_listeners s) \<and> su_composedValue s = Some r))"

lemma run_recompose_rebuilt:
  assumes ok: "store_ok (oc_store c)" "log_ok (oc_log c)" and run: "run_recompose stringify force c = (c', ds)"
  shows "rebuilt stringify c' \<and> store_ok (oc_store c') \<and> (\<exists>evs. oc_out c' = oc_out c @ evs \<and> told_shown evs c')"
proof -
  obtain touched evs ov st where comp: "compose_all ov force (oc_store c) = (st, evs)" "composition stringify c' = (ov, [])"
      and c': "c' = c\<lparr>oc_store := st, oc_log := filter (\<lambda>(k, _). k \<notin> fst ` set ds) (touch_log touched (oc_log c)),
        oc_timers := filter (\<lambda>k. k \<notin> fst ` set ds) (oc_timers c), oc_out := oc_out c @ evs\<rparr>"
    using run_recompose_spec[OF ok run] by blast
  have out: "oc_out c' = oc_out c @ evs" "oc_store c' = st" by (simp_all add: c')
  note r = comp[folded out(2)]
  obtain N where N: "ly_byHash (oc_store c') = ly_byHash (oc_store c)"
      "\<And>q. map_of (ly_byId (oc_store c')) q = (if q \<in> snd ` set (ly_byHash (oc_store c)) then map_option (compose_one ov force (N q)) (map_of (ly_byId (oc_store c)) q) else map_of (ly_byId (oc_store c)) q)"
      "set evs = (\<Union>q \<in> snd ` set (ly_byHash (oc_store c)). case map_of (ly_byId (oc_store c)) q of None \<Rightarrow> {} | Some s \<Rightarrow> set (tell_one ov force (N q) s))"
    using compose_all_spec[OF ok(1) r(1)] by blast
  have "\<exists>n. as_shown (su_composedValue s) (next_value ov n s)" if s: "s \<in> set (byHash_values (oc_store c'))" for s
  proof -
    obtain h q where q: "(h, q) \<in> set (ly_byHash (oc_store c))" "map_of (ly_byId (oc_store c')) q = Some s"
      using s N(1) by (auto elim: byHash_valuesE)
    then have "q \<in> snd ` set (ly_byHash (oc_store c))" by force
    then obtain s0 where "s = compose_one ov force (N q) s0" using q(2) by (auto simp: N(2))
    moreover have "next_value ov n (compose_one ov force m s0) = next_value ov n s0" for n m by (simp add: next_value_def split: option.split)
    ultimately show ?thesis using compose_one_shown by metis
  qed
  moreover have "\<exists>s \<in> set (byHash_values (oc_store c')). l \<in> set (su_listeners s) \<and> su_composedValue s = Some x" if told: "Delivered l x \<in> set evs" for l x
  proof -
    obtain h q s where q: "(h, q) \<in> set (ly_byHash (oc_store c))" "map_of (ly_byId (oc_store c)) q = Some s" "Delivered l x \<in> set (tell_one ov force (N q) s)"
      using told by (auto simp: N(3) split: option.splits)
    then have "map_of (ly_byId (oc_store c')) q = Some (compose_one ov force (N q) s)" by (force simp: N(2))
    then have "compose_one ov force (N q) s \<in> set (byHash_values (oc_store c'))" using byHash_valuesI q(1) N(1) by metis
    then show ?thesis using tell_one_shown[OF q(3)] by (intro bexI[of _ "compose_one ov force (N q) s"]) simp_all
  qed
  ultimately show ?thesis using r out compose_all_frame(1)[OF ok(1) r(1)] unfolding rebuilt_def told_shown_def by blast
qed

end
