(* ===== verification/Optimistic_Props.thy ===== *)
theory Optimistic_Props
  imports Optimistic_Frames
begin

text \<open>
  Every history of a client without a durable outbox: what is shown after a transition, that every promise is
  accounted for, and how one is not.
\<close>

section \<open>Histories\<close>

inductive oc_step :: "(json \<Rightarrow> jsstring) \<Rightarrow> optimistic_client \<Rightarrow> optimistic_client \<Rightarrow> bool" for stringify where
  step_subscribe: "oc_step stringify c (oc_subscribe stringify path args listener c)"
| step_unsubscribe: "oc_step stringify c (oc_unsubscribe hash listener c)"
| step_mutate: "oc_step stringify c (fst (oc_mutation stringify seed path args update c))"
| step_message: "oc_step stringify c (onServerMessage stringify now msg c)"
| step_timeout: "rid \<in> set (oc_timers c) \<Longrightarrow> oc_step stringify c (gate_timeout stringify rid c)"
| step_auth: "oc_step stringify c (oc_setAuth token c)"
| step_close: "oc_step stringify c (onTransportClosed stringify c)"
| step_reopen: "oc_closed c \<Longrightarrow> oc_step stringify c (onTransportReopened c)"

section \<open>Well-formed clients\<close>

definition sent_ids :: "client_message list \<Rightarrow> jsstring list" where
  "sent_ids ms = List.map_filter (\<lambda>m. case m of MsgMutation rid _ _ \<Rightarrow> Some rid | _ \<Rightarrow> None) ms"

lemma sent_ids_simps [simp]:
  "sent_ids [] = []" "sent_ids (xs @ ys) = sent_ids xs @ sent_ids ys"
  "sent_ids (m # ms) = (case m of MsgMutation rid _ _ \<Rightarrow> [rid] | _ \<Rightarrow> []) @ sent_ids ms"
  by (simp_all add: sent_ids_def List.map_filter_def split: client_message.split)

definition used_id :: "int \<Rightarrow> jsstring \<Rightarrow> bool" where
  "used_id n rid \<longleftrightarrow> (\<exists>m < n. rid = int_dec m)"

definition store_wf :: "optimistic_client \<Rightarrow> bool" where
  "store_wf c \<longleftrightarrow> store_ok (oc_store c) \<and> (\<forall>q \<in> fst ` set (ly_byId (oc_store c)). q < oc_nextQueryId c)"

definition ids_wf :: "optimistic_client \<Rightarrow> bool" where
  "ids_wf c \<longleftrightarrow> log_ok (oc_log c) \<and> distinct (oc_callbacks c) \<and>
     (\<forall>rid \<in> fst ` set (oc_log c) \<union> set (oc_callbacks c) \<union> set (sent_ids (oc_wire c)). used_id (oc_nextRequestId c) rid)"

text \<open>What an operation that only drops layers leaves alone.\<close>

definition mu_core :: "pending_mutation \<Rightarrow> mutation_status \<times> bool" where
  "mu_core e = (mu_status e, mu_update e = None)"

definition core :: "optimistic_client \<Rightarrow> jsstring \<Rightarrow> (mutation_status \<times> bool) option" where
  "core c rid = map_option mu_core (map_of (oc_log c) rid)"

definition drops :: "jsstring set \<Rightarrow> optimistic_client \<Rightarrow> optimistic_client \<Rightarrow> bool" where
  "drops D c c' \<longleftrightarrow> core c' = (\<lambda>rid. if rid \<in> D then None else core c rid) \<and>
     (\<forall>rid \<in> set (oc_timers c). rid \<notin> D \<longrightarrow> rid \<in> set (oc_timers c')) \<and> (log_ok (oc_log c) \<longrightarrow> log_ok (oc_log c')) \<and>
     oc_callbacks c' = oc_callbacks c \<and> sent_ids (oc_wire c') = sent_ids (oc_wire c) \<and> oc_closed c' = oc_closed c \<and>
     oc_nextRequestId c \<le> oc_nextRequestId c' \<and> set (oc_out c) \<subseteq> set (oc_out c')"

lemma drops_refl [simp, intro]: "drops {} c c"
  by (simp add: drops_def)

lemma drops_trans: "drops D c c' \<Longrightarrow> drops E c' c'' \<Longrightarrow> drops (D \<union> E) c c''"
  by (auto simp: drops_def fun_eq_iff)

lemma core_None: "core c rid = None \<longleftrightarrow> rid \<notin> fst ` set (oc_log c)"
  by (simp add: core_def map_of_eq_None_iff)

lemma core_Some: "core c rid = Some (s, u) \<longleftrightarrow> (\<exists>e. map_of (oc_log c) rid = Some e \<and> mu_status e = s \<and> (mu_update e = None) = u)"
  by (auto simp: core_def mu_core_def)

lemma keys_subset: "(\<And>r. core c' r \<noteq> None \<Longrightarrow> core c r \<noteq> None) \<Longrightarrow> fst ` set (oc_log c') \<subseteq> fst ` set (oc_log c)"
proof
  fix r assume "\<And>r. core c' r \<noteq> None \<Longrightarrow> core c r \<noteq> None" "r \<in> fst ` set (oc_log c')"
  then show "r \<in> fst ` set (oc_log c)" using core_None[of c r] core_None[of c' r] by blast
qed

lemma drops_ids: "drops D c c' \<Longrightarrow> ids_wf c \<Longrightarrow> ids_wf c'"
proof -
  assume d: "drops D c c'" and wf: "ids_wf c"
  have "fst ` set (oc_log c') \<subseteq> fst ` set (oc_log c)"
  proof
    fix rid assume "rid \<in> fst ` set (oc_log c')"
    then have "core c' rid \<noteq> None" by (simp add: core_None)
    then have "core c rid \<noteq> None" using d by (simp add: drops_def split: if_splits)
    then show "rid \<in> fst ` set (oc_log c)" by (simp add: core_None)
  qed
  moreover have "used_id (oc_nextRequestId c') rid" if "used_id (oc_nextRequestId c) rid" for rid
    using that d by (force simp: used_id_def drops_def)
  moreover have "log_ok (oc_log c')" "oc_callbacks c' = oc_callbacks c" "sent_ids (oc_wire c') = sent_ids (oc_wire c)"
    using d wf by (simp_all add: drops_def ids_wf_def)
  ultimately show ?thesis using wf unfolding ids_wf_def by (simp add: subset_iff) blast
qed

lemma log_ok_delete: "log_ok log \<Longrightarrow> log_ok (AList.delete rid log)"
  by (auto simp: log_ok_def AList.delete_eq distinct_map_filter)

lemma drops_log_delete: "drops {rid} c (log_delete rid c)"
  by (auto simp: drops_def log_delete_def core_def delete_conv' fun_eq_iff log_ok_delete)

lemma drops_drop_layer: "drops {rid} c (drop_layer rid c)"
  by (auto simp: drops_def drop_layer_def clearTimer_def log_delete_def core_def delete_conv' fun_eq_iff log_ok_delete)

lemma drops_tell [simp, intro]: "drops {} c (tell evs c)"
  by (auto simp: drops_def tell_def core_def)

lemma map_of_touch_filter:
  "log_ok log \<Longrightarrow> map_of (filter (\<lambda>(k, _). k \<notin> D) (touch_log t log)) rid =
     (if rid \<in> D then None else map_option (touch_entry t) (map_of log rid))"
  by (induction log) (auto simp: log_ok_def touch_log_eq)

lemma log_ok_touch_filter: "log_ok log \<Longrightarrow> log_ok (filter P (touch_log t log))"
  by (auto simp: log_ok_def touch_log_eq case_prod_unfold comp_def distinct_map_filter)

text \<open>Rebuilding drops the layers that throw, and says so.\<close>

lemma run_recompose_drops:
  assumes ok: "store_ok (oc_store c)" "log_ok (oc_log c)" and run: "run_recompose stringify force c = (c', ds)"
  shows "drops (fst ` set ds) c c' \<and> fst ` set ds \<subseteq> fst ` set (oc_log c)"
proof -
  obtain touched evs ov st where r: "replay (view_of stringify (oc_store c)) (entriesInOrder (oc_log c)) [] = (ov, touched, ds)"
      and c': "c' = c\<lparr>oc_store := st, oc_log := filter (\<lambda>(k, _). k \<notin> fst ` set ds) (touch_log touched (oc_log c)),
        oc_timers := filter (\<lambda>k. k \<notin> fst ` set ds) (oc_timers c), oc_out := oc_out c @ evs\<rparr>"
    using run_recompose_spec[OF ok run] by blast
  have core: "mu_core (touch_entry touched e) = mu_core e" for e by (simp add: mu_core_def)
  have "drops (fst ` set ds) c c'"
    using ok(2) unfolding drops_def c' core_def by (auto simp: map_of_touch_filter core option.map_comp comp_def log_ok_touch_filter)
  moreover have "fst ` set ds \<subseteq> fst ` set (oc_log c)"
    using replay_dropped[OF r] log_ok_ids[OF ok(2)] by (metis list.set_map)
  ultimately show ?thesis by blast
qed

lemma warn_dropped_in: "rid \<in> fst ` set ds \<Longrightarrow> \<exists>e. LayerDropped rid e \<in> set (oc_out (warn_dropped ds c))"
  by (force simp: warn_dropped_def tell_def)

lemma rebuild_drops:
  assumes ok: "store_ok (oc_store c)" "log_ok (oc_log c)"
  shows "\<exists>D. drops D c (rebuild stringify force c) \<and> (\<forall>rid \<in> D. \<exists>e. LayerDropped rid e \<in> set (oc_out (rebuild stringify force c)))"
proof -
  obtain c' ds where run: "run_recompose stringify force c = (c', ds)" by fastforce
  have "drops (fst ` set ds \<union> {}) c (warn_dropped ds c')"
    by (rule drops_trans) (use run_recompose_drops[OF ok run] in \<open>auto simp: warn_dropped_def\<close>)
  then show ?thesis unfolding rebuild_run[OF run] by (intro exI[of _ "fst ` set ds"]) (use warn_dropped_in in simp)
qed

section \<open>Operations on subscriptions\<close>

lemma put_sub_ok:
  assumes "store_ok st" "map_of (ly_byId st) (su_queryId s) = Some s0" "su_hash s = su_hash s0"
  shows "store_ok (put_sub s st) \<and> fst ` set (ly_byId (put_sub s st)) = fst ` set (ly_byId st)"
proof -
  have "su_queryId s \<in> fst ` set (ly_byId st)" using assms(2) by (force dest: map_of_SomeD)
  then have "fst ` set (ly_byId (put_sub s st)) = fst ` set (ly_byId st)" by (auto simp: put_sub_def dom_update)
  moreover have "store_ok (put_sub s st)" using assms unfolding store_ok_def by (force simp: put_sub_def update_conv')
  ultimately show ?thesis by blast
qed

text \<open>A step that only writes subscriptions, sends no mutation and keeps the log.\<close>

definition quiet :: "optimistic_client \<Rightarrow> optimistic_client \<Rightarrow> bool" where
  "quiet c c' \<longleftrightarrow> oc_log c' = oc_log c \<and> oc_timers c' = oc_timers c \<and> oc_callbacks c' = oc_callbacks c \<and>
     sent_ids (oc_wire c') = sent_ids (oc_wire c) \<and> oc_closed c' = oc_closed c \<and> oc_nextRequestId c' = oc_nextRequestId c \<and>
     oc_observedTs c' = oc_observedTs c \<and> (\<exists>evs. oc_out c' = oc_out c @ evs \<and> (\<forall>l r. Delivered l r \<notin> set evs)) \<and>
     (store_wf c \<longrightarrow> store_wf c')"

lemma quiet_refl [simp, intro]: "quiet c c"
  by (auto simp: quiet_def)

lemma quiet_trans: "quiet c c' \<Longrightarrow> quiet c' c'' \<Longrightarrow> quiet c c''"
  by (auto simp: quiet_def)

lemma quiet_drops: "quiet c c' \<Longrightarrow> drops {} c c'"
  by (auto simp: quiet_def drops_def core_def)

text \<open>Writing a subscription that is there under its own id and hash.\<close>

definition store_kept :: "layered_store \<Rightarrow> layered_store \<Rightarrow> bool" where
  "store_kept st st' \<longleftrightarrow> (store_ok st \<longrightarrow> store_ok st' \<and> fst ` set (ly_byId st') = fst ` set (ly_byId st))"

lemma store_kept_refl [simp, intro]: "store_kept st st"
  by (simp add: store_kept_def)

lemma store_kept_trans: "store_kept st st' \<Longrightarrow> store_kept st' st'' \<Longrightarrow> store_kept st st''"
  by (auto simp: store_kept_def)

lemma store_kept_fresh [simp]: "store_kept st (st\<lparr>ly_fresh := n\<rparr>)" "store_kept (st\<lparr>ly_fresh := n\<rparr>) st' = store_kept st st'"
  by (simp_all add: store_kept_def store_ok_def)

lemma store_kept_put:
  "map_of (ly_byId st) q = Some s0 \<Longrightarrow> su_queryId s = su_queryId s0 \<Longrightarrow> su_hash s = su_hash s0 \<Longrightarrow> store_kept st (put_sub s st)"
proof -
  assume s: "map_of (ly_byId st) q = Some s0" "su_queryId s = su_queryId s0" "su_hash s = su_hash s0"
  show "store_kept st (put_sub s st)"
    unfolding store_kept_def
  proof
    assume ok: "store_ok st"
    then have "map_of (ly_byId st) (su_queryId s) = Some s0" using s by (simp add: store_ok_def)
    then show "store_ok (put_sub s st) \<and> fst ` set (ly_byId (put_sub s st)) = fst ` set (ly_byId st)"
      using put_sub_ok[OF ok] s(3) by blast
  qed
qed

lemma reset_sub_ids [simp]: "su_queryId (reset_sub r x) = su_queryId x" "su_hash (reset_sub r x) = su_hash x"
  by (simp_all add: reset_sub_def split: option.split diff_reset.split)

lemma applyDiff_kept:
  assumes "map_of (ly_byId st) (su_queryId s) = Some s" "applyDiff s changes checksum reset st = (st', r)"
  shows "store_kept st st' \<and> (\<forall>x. map_of (ly_byId st') (su_queryId s) = Some x \<longrightarrow> su_queryId x = su_queryId s \<and> su_hash x = su_hash s)"
proof -
  obtain x n where x: "st' = put_sub x (st\<lparr>ly_fresh := n\<rparr>)" "su_queryId x = su_queryId s" "su_hash x = su_hash s"
  proof -
    let ?rows = "applyChanges (if reset \<noteq> None then [] else or_default (su_diffRows (reset_sub reset s)) []) changes"
    let ?s = "(reset_sub reset s)\<lparr>su_diffRows := Some ?rows\<rparr>"
    have same: "st\<lparr>ly_fresh := ly_fresh st\<rparr> = st" by simp
    consider (throws) e where "render_sub ?s ?rows = Inl e" | (empty) "render_sub ?s ?rows = Inr None" | (shown) v where "render_sub ?s ?rows = Inr (Some v)"
      by (metis not_None_eq sum.exhaust)
    then show thesis
    proof cases
      case throws
      then have "st' = put_sub ?s st" using assms(2) by (simp add: applyDiff_def Let_def)
      then show thesis using that[of ?s "ly_fresh st"] same by simp
    next
      case empty
      then have "st' = put_sub (?s\<lparr>su_serverValue := None, su_answered := True\<rparr>) st" using assms(2) by (simp add: applyDiff_def Let_def)
      then show thesis using that[of "?s\<lparr>su_serverValue := None, su_answered := True\<rparr>" "ly_fresh st"] same by simp
    next
      case (shown v)
      let ?x = "?s\<lparr>su_serverValue := Some \<lparr>rf_id = ly_fresh st, rf_val = v\<rparr>, su_answered := True\<rparr>"
      have "st' = put_sub ?x (st\<lparr>ly_fresh := ly_fresh st + 1\<rparr>)" using assms(2) shown by (simp add: applyDiff_def Let_def alloc_def)
      then show thesis using that[of ?x] by simp
    qed
  qed
  have "store_kept (st\<lparr>ly_fresh := n\<rparr>) (put_sub x (st\<lparr>ly_fresh := n\<rparr>))"
    by (rule store_kept_put[of _ "su_queryId s" s]) (use assms(1) x in simp_all)
  then show ?thesis using x by (simp add: put_sub_def)
qed

lemma quiet_store:
  assumes "store_ok (oc_store c) \<Longrightarrow> store_kept (oc_store c) st"
  shows "quiet c (c\<lparr>oc_store := st\<rparr>)"
  using assms by (auto simp: quiet_def store_kept_def store_wf_def)

lemma resync_quiet [simp, intro]: "quiet c (resync c)"
  by (auto simp: quiet_def resync_def oc_send_def store_wf_def Let_def)

lemma store_ok_id: "store_ok st \<Longrightarrow> map_of (ly_byId st) q = Some s \<Longrightarrow> map_of (ly_byId st) (su_queryId s) = Some s"
  by (auto simp: store_ok_def)

lemma quiet_resync: "quiet c c' \<Longrightarrow> quiet c (resync c')"
  using quiet_trans by blast

lemma ingest_diff_quiet:
  assumes s: "map_of (ly_byId (oc_store c)) q = Some s" and d: "ingest_diff s changes checksum reset hash c = (c', e)"
  shows "quiet c c'"
proof (cases "reset = None \<and> su_renderMode s = None \<and> su_answered s")
  case True
  then have "c' = resync (c\<lparr>oc_store := put_sub (s\<lparr>su_lastHash := None\<rparr>) (oc_store c)\<rparr>)"
    using d by (simp add: ingest_diff_def upd_store_def)
  moreover have "store_kept (oc_store c) (put_sub (s\<lparr>su_lastHash := None\<rparr>) (oc_store c))" by (rule store_kept_put[OF s]) simp_all
  then have "quiet c (c\<lparr>oc_store := put_sub (s\<lparr>su_lastHash := None\<rparr>) (oc_store c)\<rparr>)" by (rule quiet_store)
  ultimately show ?thesis by (simp add: quiet_resync)
next
  case False
  obtain st r where st: "applyDiff s changes checksum reset (oc_store c) = (st, r)" by fastforce
  have kept: "store_kept (oc_store c) st \<and> (\<forall>x. map_of (ly_byId st) (su_queryId s) = Some x \<longrightarrow> su_queryId x = su_queryId s \<and> su_hash x = su_hash s)"
    if "store_ok (oc_store c)" using applyDiff_kept[OF store_ok_id[OF that s] st] .
  show ?thesis
  proof (cases r)
    case (Inl err)
    then have "c' = c\<lparr>oc_store := st\<rparr>" using d st False by (simp add: ingest_diff_def split: if_splits)
    then show ?thesis using quiet_store kept by blast
  next
    case (Inr drift)
    let ?st = "case map_of (ly_byId st) (su_queryId s) of None \<Rightarrow> st | Some x \<Rightarrow> put_sub (x\<lparr>su_lastHash := (if reset \<noteq> None then hash else None)\<rparr>) st"
    have "store_kept st ?st" by (auto split: option.split intro: store_kept_put)
    then have "quiet c (c\<lparr>oc_store := ?st\<rparr>)" by (intro quiet_store) (use kept store_kept_trans in blast)
    moreover have "c' = (if drift then resync (c\<lparr>oc_store := ?st\<rparr>) else c\<lparr>oc_store := ?st\<rparr>)"
      using d st False Inr by (auto simp: ingest_diff_def Let_def split: if_splits)
    ultimately show ?thesis by (simp add: quiet_resync)
  qed
qed

lemma quiet_tell: "quiet c c' \<Longrightarrow> (\<And>l r. Delivered l r \<notin> set evs) \<Longrightarrow> quiet c (tell evs c')"
  by (auto simp: quiet_def tell_def store_wf_def)

lemma ingest_mod_quiet:
  assumes "ingest_mod m u c = (c', u', e)"
  shows "quiet c c'"
proof (cases m)
  case (QueryUpdated q v hash)
  show ?thesis
  proof (cases "map_of (ly_byId (oc_store c)) q")
    case (Some s)
    have "quiet c (upd_store (setServerValue s v' hash) c)" for v'
    proof -
      let ?st = "(oc_store c)\<lparr>ly_fresh := ly_fresh (oc_store c) + 1\<rparr>"
      have "store_kept ?st (put_sub x ?st)" if "su_queryId x = su_queryId s" "su_hash x = su_hash s" for x
        by (rule store_kept_put[of _ q s]) (use Some that in simp_all)
      then have "store_kept (oc_store c) (setServerValue s v' hash (oc_store c))" by (simp add: setServerValue_def alloc_def)
      then show ?thesis unfolding upd_store_def by (rule quiet_store)
    qed
    then show ?thesis using assms QueryUpdated Some by (auto simp: ingest_mod_def Let_def split: sum.splits)
  qed (use assms QueryUpdated in \<open>auto simp: ingest_mod_def\<close>)
next
  case (QueryFailed q err)
  show ?thesis
  proof (cases "map_of (ly_byId (oc_store c)) q")
    case (Some s)
    have "quiet c (upd_store (markAnswered s) c)"
      unfolding upd_store_def markAnswered_def by (rule quiet_store) (rule store_kept_put[OF Some], simp_all)
    then show ?thesis using assms QueryFailed Some by (auto simp: ingest_mod_def Let_def intro!: quiet_tell)
  qed (use assms QueryFailed in \<open>auto simp: ingest_mod_def\<close>)
next
  case (QueryUnchanged q)
  show ?thesis
  proof (cases "map_of (ly_byId (oc_store c)) q")
    case (Some s)
    have "quiet c (upd_store (markAnswered s) c)"
      unfolding upd_store_def markAnswered_def by (rule quiet_store) (rule store_kept_put[OF Some], simp_all)
    then show ?thesis using assms QueryUnchanged Some by (auto simp: ingest_mod_def Let_def)
  qed (use assms QueryUnchanged in \<open>auto simp: ingest_mod_def\<close>)
next
  case (QueryDiff q changes checksum reset hash)
  show ?thesis
    by (cases "map_of (ly_byId (oc_store c)) q")
       (use assms QueryDiff ingest_diff_quiet in \<open>auto simp: ingest_mod_def Let_def split: prod.splits\<close>)
qed (use assms in \<open>auto simp: ingest_mod_def\<close>)

lemma ingest_mods_quiet: "ingest_mods ms u c = (c', u', e) \<Longrightarrow> quiet c c'"
proof (induction ms arbitrary: u c)
  case (Cons m ms)
  obtain c1 u1 e1 where one: "ingest_mod m u c = (c1, u1, e1)" using prod_cases3 by blast
  show ?case
    by (cases e1) (use Cons.IH[of u1 c1] Cons.prems one ingest_mod_quiet[OF one] quiet_trans in \<open>auto\<close>)
qed simp

section \<open>One frame\<close>

lemma rebuild_spec:
  assumes ok: "store_ok (oc_store c)" "log_ok (oc_log c)" and c': "rebuild stringify force c = c'"
  shows "rebuilt stringify c' \<and> store_ok (oc_store c') \<and> log_ok (oc_log c') \<and> oc_observedTs c' = oc_observedTs c \<and>
    oc_nextQueryId c' = oc_nextQueryId c \<and> fst ` set (ly_byId (oc_store c')) = fst ` set (ly_byId (oc_store c)) \<and>
    (\<exists>evs. oc_out c' = oc_out c @ evs \<and> told_shown evs c' \<and>
       (\<exists>D. drops D c c' \<and> (\<forall>rid \<in> D. \<exists>e. LayerDropped rid e \<in> set evs)))"
proof -
  obtain c1 ds where run: "run_recompose stringify force c = (c1, ds)" by fastforce
  have c1: "c' = warn_dropped ds c1" using c' rebuild_run[OF run] by simp
  obtain touched evs ov st where r: "compose_all ov force (oc_store c) = (st, evs)"
      and c1': "c1 = c\<lparr>oc_store := st, oc_log := filter (\<lambda>(k, _). k \<notin> fst ` set ds) (touch_log touched (oc_log c)),
        oc_timers := filter (\<lambda>k. k \<notin> fst ` set ds) (oc_timers c), oc_out := oc_out c @ evs\<rparr>"
    using run_recompose_spec[OF ok run] by blast
  obtain evs1 where reb: "rebuilt stringify c1" "store_ok (oc_store c1)" "oc_out c1 = oc_out c @ evs1" "told_shown evs1 c1"
    using run_recompose_rebuilt[OF ok run] by blast
  have d: "drops (fst ` set ds) c c1" using run_recompose_drops[OF ok run] by blast
  have same: "oc_store c' = oc_store c1" "oc_log c' = oc_log c1" "oc_observedTs c' = oc_observedTs c1" "oc_nextQueryId c' = oc_nextQueryId c1"
      "oc_out c' = oc_out c @ (evs1 @ map (\<lambda>(rid, e). LayerDropped rid e) ds)"
    by (simp_all add: c1 warn_dropped_def tell_def reb(3))
  have "fst ` set (ly_byId st) = fst ` set (ly_byId (oc_store c))"
  proof -
    obtain N where N: "\<And>q. map_of (ly_byId st) q = (if q \<in> snd ` set (ly_byHash (oc_store c)) then map_option (compose_one ov force (N q)) (map_of (ly_byId (oc_store c)) q) else map_of (ly_byId (oc_store c)) q)"
      using compose_all_spec[OF ok(1) r] by blast
    have "map_of (ly_byId st) q = None \<longleftrightarrow> map_of (ly_byId (oc_store c)) q = None" for q by (simp add: N)
    then show ?thesis unfolding map_of_eq_None_iff by blast
  qed
  moreover have "rebuilt stringify c'" using reb(1) by (simp add: rebuilt_def composition_def same)
  moreover have "told_shown (evs1 @ map (\<lambda>(rid, e). LayerDropped rid e) ds) c'" using reb(4) by (auto simp: told_shown_def same)
  moreover have "drops (fst ` set ds \<union> {}) c c'" by (rule drops_trans[OF d]) (simp add: c1 warn_dropped_def)
  moreover have "\<forall>rid \<in> fst ` set ds. \<exists>e. LayerDropped rid e \<in> set (evs1 @ map (\<lambda>(rid, e). LayerDropped rid e) ds)" by force
  moreover have "log_ok (oc_log c')" using d ok(2) by (simp add: drops_def same)
  ultimately show ?thesis using same reb(2) c1' by (intro conjI exI[of _ "evs1 @ map (\<lambda>(rid, e). LayerDropped rid e) ds"] exI[of _ "fst ` set ds"]) simp_all
qed

lemma fold_drop_if:
  "fold (\<lambda>e. if P e then drop_layer (mu_requestId e) else id) es c = fold (\<lambda>(rid, _). drop_layer rid) (map (\<lambda>e. (mu_requestId e, ())) (filter P es)) c"
  by (induction es arbitrary: c) simp_all

lemma drop_covered_eq:
  assumes "log_ok (oc_log c)"
  shows "drop_covered c = c\<lparr>oc_log := filter (\<lambda>(k, e). \<not> gate_open (oc_observedTs c) e) (oc_log c),
    oc_timers := filter (\<lambda>k. k \<notin> mu_requestId ` set (filter (gate_open (oc_observedTs c)) (entriesInOrder (oc_log c)))) (oc_timers c)\<rparr>"
proof -
  let ?G = "mu_requestId ` set (filter (gate_open (oc_observedTs c)) (entriesInOrder (oc_log c)))"
  have "k \<in> ?G \<longleftrightarrow> gate_open (oc_observedTs c) e" if "(k, e) \<in> set (oc_log c)" for k e
  proof
    assume "k \<in> ?G"
    then obtain k' e' where e': "(k', e') \<in> set (oc_log c)" "k = mu_requestId e'" "gate_open (oc_observedTs c) e'" by (auto simp: entriesInOrder_def)
    then have "k' = k" using assms by (auto simp: log_ok_def)
    then show "gate_open (oc_observedTs c) e" using e' that assms by (metis eq_key_imp_eq_value log_ok_def)
  next
    assume "gate_open (oc_observedTs c) e"
    then show "k \<in> ?G" using that assms by (force simp: entriesInOrder_def log_ok_def)
  qed
  then have "filter (\<lambda>(k, _). k \<notin> ?G) (oc_log c) = filter (\<lambda>(k, e). \<not> gate_open (oc_observedTs c) e) (oc_log c)"
    by (intro filter_cong) auto
  then show ?thesis by (simp add: drop_covered_def fold_drop_if fold_drop_layer image_image)
qed

lemma ingest_frame:
  assumes wf: "store_wf c" "log_ok (oc_log c)" and run: "ingestTransition stringify mods endTs c = (c', None)"
  shows "rebuilt stringify c' \<and> (\<exists>evs. oc_out c' = oc_out c @ evs \<and> told_shown evs c' \<and>
     (\<forall>k e. map_of (oc_log c) k = Some e \<and> \<not> gate_open (oc_observedTs c') e \<and> (\<forall>err. LayerDropped k err \<notin> set evs) \<longrightarrow> core c' k = Some (mu_core e))) \<and>
     (\<forall>(k, e) \<in> set (oc_log c'). \<not> gate_open (oc_observedTs c') e) \<and> oc_observedTs c' = max (oc_observedTs c) endTs"
proof -
  let ?c = "c\<lparr>oc_observedTs := max (oc_observedTs c) endTs\<rparr>"
  obtain c1 u where m: "ingest_mods mods [] ?c = (c1, u, None)" and c': "rebuild stringify u (drop_covered c1) = c'"
    using run by (auto simp: ingestTransition_def split: prod.splits option.splits)
  have q: "quiet ?c c1" by (rule ingest_mods_quiet[OF m])
  then obtain evs0 where evs0: "oc_out c1 = oc_out c @ evs0" "\<And>l r. Delivered l r \<notin> set evs0" by (auto simp: quiet_def)
  have log1: "oc_log c1 = oc_log c" "oc_observedTs c1 = max (oc_observedTs c) endTs" using q by (auto simp: quiet_def)
  have "store_wf ?c" using wf(1) by (simp add: store_wf_def)
  then have st1: "store_ok (oc_store c1)" using q by (simp add: quiet_def store_wf_def)
  have ok1: "log_ok (oc_log c1)" using wf(2) log1 by simp
  note dc = drop_covered_eq[OF ok1]
  let ?d = "drop_covered c1"
  have dlog: "oc_log ?d = filter (\<lambda>(k, e). \<not> gate_open (oc_observedTs c1) e) (oc_log c)" by (simp add: dc log1)
  have ok2: "log_ok (oc_log ?d)" using wf(2) unfolding dlog by (auto simp: log_ok_def distinct_map_filter)
  have "store_ok (oc_store ?d)" using st1 by (simp add: dc)
  then obtain evs D where r: "rebuilt stringify c'" "oc_observedTs c' = oc_observedTs ?d" "oc_out c' = oc_out ?d @ evs" "told_shown evs c'"
      "drops D ?d c'" "\<forall>rid \<in> D. \<exists>e. LayerDropped rid e \<in> set evs" "log_ok (oc_log c')"
    using rebuild_spec[OF _ ok2 c'] by blast
  have obs: "oc_observedTs c' = max (oc_observedTs c) endTs" using r(2) log1 by (simp add: dc)
  have out: "oc_out c' = oc_out c @ (evs0 @ evs)" using r(3) evs0 by (simp add: dc)
  have told: "told_shown (evs0 @ evs) c'" using r(4) evs0(2) by (auto simp: told_shown_def)
  have kept: "core c' k = Some (mu_core e)"
    if k: "map_of (oc_log c) k = Some e" "\<not> gate_open (oc_observedTs c') e" "\<forall>err. LayerDropped k err \<notin> set (evs0 @ evs)" for k e
  proof -
    have "map_of (oc_log ?d) k = Some e"
      using k(1,2) wf(2) obs log1 unfolding dlog by (auto simp: map_of_filter_key log_ok_def)
    moreover have "k \<notin> D" using k(3) r(6) by auto
    ultimately show ?thesis using r(5) by (simp add: drops_def core_def)
  qed
  have closed: "\<not> gate_open (oc_observedTs c') e" if "(k, e) \<in> set (oc_log c')" for k e
  proof -
    have "map_of (oc_log c') k = Some e" using that r(7) by (simp add: log_ok_def)
    then have "core c' k = Some (mu_core e)" by (simp add: core_def)
    then have "core ?d k = Some (mu_core e)" using r(5) by (auto simp: drops_def split: if_splits)
    then obtain e' where e': "map_of (oc_log ?d) k = Some e'" "mu_status e' = mu_status e" by (auto simp: core_def mu_core_def)
    then have "(k, e') \<in> set (oc_log ?d)" by (simp add: map_of_SomeD)
    then have "\<not> gate_open (oc_observedTs c1) e'" by (simp add: dlog)
    then show ?thesis using e'(2) obs log1 by (simp add: gate_open_def)
  qed
  show ?thesis using r(1) out told kept closed obs by blast
qed

section \<open>Promises\<close>

text \<open>A pending promise has a log entry, waiting while closed and sent once while open, or its layer was
  dropped; a completed entry keeps its layer and has a timer.\<close>

definition entry_ok :: "optimistic_client \<Rightarrow> jsstring \<Rightarrow> mutation_status \<times> bool \<Rightarrow> bool" where
  "entry_ok c rid x \<longleftrightarrow>
     (case fst x of
        Unsent \<Rightarrow> oc_closed c
      | Inflight \<Rightarrow> \<not> oc_closed c \<and> count_list (sent_ids (oc_wire c)) rid = 1
      | Completed _ _ \<Rightarrow> \<not> snd x \<and> rid \<in> set (oc_timers c)
      | Parked \<Rightarrow> False)"

definition promise_ok :: "optimistic_client \<Rightarrow> bool" where
  "promise_ok c \<longleftrightarrow>
     (\<forall>rid \<in> set (oc_callbacks c). (\<exists>u. core c rid = Some (if oc_closed c then Unsent else Inflight, u)) \<or>
        core c rid = None \<and> (\<exists>err. LayerDropped rid err \<in> set (oc_out c))) \<and>
     (\<forall>rid x. core c rid = Some x \<longrightarrow> entry_ok c rid x)"

definition client_inv :: "optimistic_client \<Rightarrow> bool" where
  "client_inv c \<longleftrightarrow> store_wf c \<and> ids_wf c \<and> promise_ok c"

lemma promise_entry: "promise_ok c \<Longrightarrow> core c rid = Some x \<Longrightarrow> entry_ok c rid x"
  unfolding promise_ok_def by blast

lemma promise_pending:
  assumes "promise_ok c" "rid \<in> set (oc_callbacks c)"
  obtains (waits) u where "core c rid = Some (if oc_closed c then Unsent else Inflight, u)"
    | (dropped) err where "core c rid = None" "LayerDropped rid err \<in> set (oc_out c)"
  using assms unfolding promise_ok_def by blast

lemma promise_okI:
  assumes "\<And>rid x. core c rid = Some x \<Longrightarrow> entry_ok c rid x"
    and "\<And>rid. rid \<in> set (oc_callbacks c) \<Longrightarrow> (\<exists>u. core c rid = Some (if oc_closed c then Unsent else Inflight, u)) \<or>
      core c rid = None \<and> (\<exists>err. LayerDropped rid err \<in> set (oc_out c))"
  shows "promise_ok c"
  using assms unfolding promise_ok_def by blast

lemma entry_ok_drops: "drops D c c' \<Longrightarrow> rid \<notin> D \<Longrightarrow> entry_ok c rid x \<Longrightarrow> entry_ok c' rid x"
  by (auto simp: entry_ok_def drops_def split: mutation_status.splits)

lemma drops_promise:
  assumes d: "drops D c c'" and ok: "promise_ok c"
    and gone: "\<And>rid. rid \<in> D \<Longrightarrow> rid \<notin> set (oc_callbacks c) \<or> (\<exists>err. LayerDropped rid err \<in> set (oc_out c'))"
  shows "promise_ok c'"
proof -
  have "entry_ok c' rid x" if "core c' rid = Some x" for rid x
  proof -
    have "rid \<notin> D" "core c rid = Some x" using that d by (auto simp: drops_def split: if_splits)
    then show ?thesis using entry_ok_drops[OF d] ok unfolding promise_ok_def by blast
  qed
  moreover have "(\<exists>u. core c' rid = Some (if oc_closed c' then Unsent else Inflight, u)) \<or> core c' rid = None \<and> (\<exists>err. LayerDropped rid err \<in> set (oc_out c'))"
    if "rid \<in> set (oc_callbacks c')" for rid
  proof (cases "rid \<in> D")
    case True
    then show ?thesis using gone[OF True] that d by (simp add: drops_def)
  next
    case False
    then have same: "core c' rid = core c rid" "oc_closed c' = oc_closed c" "set (oc_out c) \<subseteq> set (oc_out c')" and "rid \<in> set (oc_callbacks c)"
      using that d by (simp_all add: drops_def)
    from ok this(4) show ?thesis
    proof (cases rule: promise_pending)
      case (waits u)
      then show ?thesis using same by simp
    next
      case (dropped err)
      then have "LayerDropped rid err \<in> set (oc_out c')" using same(3) by blast
      then show ?thesis using dropped(1) same(1) by auto
    qed
  qed
  ultimately show ?thesis by (rule promise_okI)
qed

lemma drops_inv:
  assumes "drops D c c'" "client_inv c" "store_wf c'"
    and "\<And>rid. rid \<in> D \<Longrightarrow> rid \<notin> set (oc_callbacks c) \<or> (\<exists>err. LayerDropped rid err \<in> set (oc_out c'))"
  shows "client_inv c'"
  using assms drops_promise[OF assms(1)] drops_ids[OF assms(1)] unfolding client_inv_def by blast

lemma quiet_inv: "quiet c c' \<Longrightarrow> client_inv c \<Longrightarrow> client_inv c'"
  by (rule drops_inv[OF quiet_drops]) (auto simp: quiet_def client_inv_def)

lemma rebuild_inv:
  assumes "client_inv c"
  shows "client_inv (rebuild stringify force c)"
proof -
  have ok: "store_ok (oc_store c)" "log_ok (oc_log c)" using assms by (simp_all add: client_inv_def store_wf_def ids_wf_def)
  define c' where "c' = rebuild stringify force c"
  obtain evs D where r: "store_ok (oc_store c')" "oc_nextQueryId c' = oc_nextQueryId c"
      "fst ` set (ly_byId (oc_store c')) = fst ` set (ly_byId (oc_store c))" "oc_out c' = oc_out c @ evs" "drops D c c'"
      "\<forall>rid \<in> D. \<exists>e. LayerDropped rid e \<in> set evs"
    using rebuild_spec[OF ok c'_def[symmetric]] by blast
  have "store_wf c'" using r(1-3) assms by (simp add: store_wf_def client_inv_def)
  moreover have "\<exists>err. LayerDropped rid err \<in> set (oc_out c')" if "rid \<in> D" for rid using r(4,6) that by auto
  ultimately show ?thesis unfolding c'_def[symmetric] using drops_inv[OF r(5) assms] by blast
qed

text \<open>A layer whose promise is settled may be dropped.\<close>

lemma log_delete_inv: "client_inv c \<Longrightarrow> rid \<notin> set (oc_callbacks c) \<Longrightarrow> client_inv (log_delete rid c)"
  by (rule drops_inv[OF drops_log_delete]) (auto simp: client_inv_def store_wf_def log_delete_def)

lemma drop_layer_inv: "client_inv c \<Longrightarrow> rid \<notin> set (oc_callbacks c) \<Longrightarrow> client_inv (drop_layer rid c)"
  by (rule drops_inv[OF drops_drop_layer]) (auto simp: client_inv_def store_wf_def log_delete_def drop_layer_def clearTimer_def)

lemma settle_inv: "client_inv c \<Longrightarrow> client_inv (settle_promise rid c)"
proof -
  assume inv: "client_inv c"
  have "core (settle_promise rid c) = core c" by (simp add: fun_eq_iff core_def settle_promise_def)
  moreover have "entry_ok (settle_promise rid c) = entry_ok c" by (intro ext) (simp add: entry_ok_def settle_promise_def split: mutation_status.split)
  ultimately have "promise_ok (settle_promise rid c)"
    using inv promise_entry promise_pending
    by (intro promise_okI) (auto simp: client_inv_def settle_promise_def elim!: promise_pending)
  then show ?thesis using inv by (auto simp: client_inv_def store_wf_def ids_wf_def settle_promise_def distinct_removeAll)
qed

lemma not_waiting: "promise_ok c \<Longrightarrow> core c rid = Some (Completed ts at, u) \<Longrightarrow> rid \<notin> set (oc_callbacks c)"
  by (auto simp: promise_ok_def split: if_splits)

section \<open>Every operation keeps the promises\<close>

lemma drop_covered_inv:
  assumes inv: "client_inv c"
  shows "client_inv (drop_covered c)"
proof -
  have ok: "log_ok (oc_log c)" using inv by (simp add: client_inv_def ids_wf_def)
  have gone: "rid \<notin> set (oc_callbacks c)" if e: "(rid, e) \<in> set (oc_log c)" "gate_open (oc_observedTs c) e" for rid e
  proof -
    have "map_of (oc_log c) rid = Some e" using e ok by (simp add: log_ok_def)
    moreover obtain ts at where "mu_status e = Completed ts at" using e(2) by (auto simp: gate_open_def split: mutation_status.splits)
    ultimately have "core c rid = Some (Completed ts at, mu_update e = None)" by (simp add: core_def mu_core_def)
    then show ?thesis using not_waiting inv by (auto simp: client_inv_def)
  qed
  have "client_inv (fold (\<lambda>e. if gate_open obs e then drop_layer (mu_requestId e) else id) es c')"
    if "client_inv c'" "oc_callbacks c' = oc_callbacks c" "\<And>e. e \<in> set es \<Longrightarrow> gate_open obs e \<Longrightarrow> mu_requestId e \<notin> set (oc_callbacks c)" for es c' obs
    using that
  proof (induction es arbitrary: c')
    case (Cons e es)
    have "client_inv (if gate_open obs e then drop_layer (mu_requestId e) c' else c')" using Cons.prems by (auto intro!: drop_layer_inv)
    moreover have "oc_callbacks (drop_layer rid c') = oc_callbacks c'" for rid by (simp add: drop_layer_def clearTimer_def log_delete_def)
    ultimately show ?case using Cons by (cases "gate_open obs e") simp_all
  qed simp
  moreover have "mu_requestId e \<notin> set (oc_callbacks c)" if "e \<in> set (entriesInOrder (oc_log c))" "gate_open (oc_observedTs c) e" for e
    using that gone ok by (force simp: entriesInOrder_def log_ok_def)
  ultimately show ?thesis unfolding drop_covered_def using inv by blast
qed

lemma observed_inv: "client_inv c \<Longrightarrow> client_inv (c\<lparr>oc_observedTs := t\<rparr>)"
proof -
  assume inv: "client_inv c"
  have "drops {} c (c\<lparr>oc_observedTs := t\<rparr>)" by (simp add: drops_def core_def fun_eq_iff)
  then show ?thesis by (rule drops_inv[OF _ inv]) (use inv in \<open>simp_all add: client_inv_def store_wf_def\<close>)
qed

lemma version_inv: "client_inv c \<Longrightarrow> client_inv (c\<lparr>oc_version := v, oc_resyncing := b\<rparr>)"
proof -
  assume inv: "client_inv c"
  have "drops {} c (c\<lparr>oc_version := v, oc_resyncing := b\<rparr>)" by (simp add: drops_def core_def fun_eq_iff)
  then show ?thesis by (rule drops_inv[OF _ inv]) (use inv in \<open>simp_all add: client_inv_def store_wf_def\<close>)
qed

lemma ingest_inv:
  assumes inv: "client_inv c" and run: "ingestTransition stringify mods endTs c = (c', e)"
  shows "client_inv c'"
proof -
  obtain c1 u e1 where m: "ingest_mods mods [] (c\<lparr>oc_observedTs := max (oc_observedTs c) endTs\<rparr>) = (c1, u, e1)" using prod_cases3 by blast
  have "client_inv c1" by (rule quiet_inv[OF ingest_mods_quiet[OF m]]) (rule observed_inv[OF inv])
  then show ?thesis using run m rebuild_inv drop_covered_inv by (auto simp: ingestTransition_def split: option.splits)
qed

lemma transition_inv: "client_inv c \<Longrightarrow> client_inv (onTransition stringify sv ev mods c)"
proof -
  assume inv: "client_inv c"
  obtain c' e where i: "ingestTransition stringify mods (sv_ts ev) c = (c', e)" by fastforce
  have c': "client_inv c'" by (rule ingest_inv[OF inv i])
  show ?thesis
    using quiet_inv[OF resync_quiet inv] c' version_inv[OF c', where v = ev and b = False] version_inv[OF c', where v = ev and b = "oc_resyncing c'"]
    by (auto simp: onTransition_def i split: option.split)
qed

lemma callbacks_frame [simp]:
  "oc_callbacks (log_delete rid c) = oc_callbacks c" "oc_callbacks (drop_layer rid c) = oc_callbacks c" "oc_callbacks (clearTimer rid c) = oc_callbacks c"
  by (simp_all add: log_delete_def drop_layer_def clearTimer_def)

lemma log_ok_status: "log_ok log \<Longrightarrow> log_ok (AList.map_entry rid (\<lambda>e. e\<lparr>mu_status := s\<rparr>) log)"
  unfolding log_ok_def by (induction log) auto

lemma complete_inv:
  assumes inv: "client_inv c" and rid: "rid \<notin> set (oc_callbacks c)" and e: "map_of (oc_log c) rid = Some e" "mu_update e \<noteq> None"
  shows "client_inv (armGateTimer rid (set_status rid (Completed t now) c))"
proof -
  define c' where "c' = armGateTimer rid (set_status rid (Completed t now) c)"
  have core: "core c' = (core c)(rid \<mapsto> (Completed t now, False))"
    using e by (auto simp: c'_def core_def fun_eq_iff armGateTimer_def clearTimer_def set_status_def map_of_map_entry mu_core_def)
  have f: "oc_callbacks c' = oc_callbacks c" "oc_wire c' = oc_wire c" "oc_closed c' = oc_closed c" "oc_nextRequestId c' = oc_nextRequestId c"
      "oc_out c' = oc_out c" "set (oc_timers c') = insert rid (set (oc_timers c))" "oc_store c' = oc_store c" "oc_nextQueryId c' = oc_nextQueryId c"
    by (auto simp: c'_def armGateTimer_def clearTimer_def set_status_def)
  have keys: "map fst (oc_log c') = map fst (oc_log c)" by (simp add: c'_def armGateTimer_def clearTimer_def set_status_def)
  have log: "log_ok (oc_log c')" using inv log_ok_status by (simp add: c'_def armGateTimer_def clearTimer_def set_status_def client_inv_def ids_wf_def)
  have "ids_wf c'" using inv log f keys unfolding client_inv_def ids_wf_def by (metis list.set_map)
  moreover have "promise_ok c'"
  proof (rule promise_okI)
    fix k x assume "core c' k = Some x"
    then show "entry_ok c' k x" using inv promise_entry[of c k x]
      by (cases "k = rid") (auto simp: core entry_ok_def f client_inv_def split: mutation_status.splits)
  next
    fix k assume k: "k \<in> set (oc_callbacks c')"
    then have "k \<noteq> rid" "k \<in> set (oc_callbacks c)" "promise_ok c" using rid f inv by (auto simp: client_inv_def)
    then show "(\<exists>u. core c' k = Some (if oc_closed c' then Unsent else Inflight, u)) \<or> core c' k = None \<and> (\<exists>err. LayerDropped k err \<in> set (oc_out c'))"
      by (auto simp: core f elim!: promise_pending)
  qed
  moreover have "store_wf c'" using inv f by (simp add: client_inv_def store_wf_def)
  ultimately show ?thesis by (simp add: client_inv_def c'_def)
qed

lemma success_inv: "client_inv c \<Longrightarrow> rid \<notin> set (oc_callbacks c) \<Longrightarrow> client_inv (onMutationSuccess stringify now rid ts c)"
  using complete_inv[of c rid] rebuild_inv log_delete_inv[of c rid] by (auto simp: onMutationSuccess_def split: option.split)

lemma failure_inv: "client_inv c \<Longrightarrow> rid \<notin> set (oc_callbacks c) \<Longrightarrow> client_inv (onMutationFailure stringify rid c)"
  using rebuild_inv drop_layer_inv by (simp add: onMutationFailure_def)

lemma message_inv:
  assumes inv: "client_inv c"
  shows "client_inv (onServerMessage stringify now msg c)"
proof -
  have out: "rid \<notin> set (oc_callbacks (settle_promise rid c))" for rid by (simp add: settle_promise_def)
  have "client_inv (onMutationSuccess stringify now rid ts (settle_promise rid c))" "client_inv (onMutationFailure stringify rid (settle_promise rid c))" for rid ts
    by (rule success_inv[OF settle_inv[OF inv] out], rule failure_inv[OF settle_inv[OF inv] out])
  then show ?thesis using success_inv[OF inv] settle_inv[OF inv] transition_inv[OF inv] inv
    by (cases msg) (simp_all add: onServerMessage_def split: sum.split)
qed

lemma clearTimer_inv:
  assumes inv: "client_inv c" and no: "\<And>ts at u. core c rid \<noteq> Some (Completed ts at, u)"
  shows "client_inv (clearTimer rid c)"
proof -
  have core: "core (clearTimer rid c) = core c" by (simp add: core_def clearTimer_def fun_eq_iff)
  have f: "oc_closed (clearTimer rid c) = oc_closed c" "oc_out (clearTimer rid c) = oc_out c" by (simp_all add: clearTimer_def)
  have "promise_ok (clearTimer rid c)"
  proof (rule promise_okI)
    fix k x assume k: "core (clearTimer rid c) k = Some x"
    then have "entry_ok c k x" using inv promise_entry core by (simp add: client_inv_def)
    moreover have "k \<noteq> rid" if "fst x = Completed ts at" for ts at using k core no that by (cases x) auto
    ultimately show "entry_ok (clearTimer rid c) k x" by (auto simp: entry_ok_def clearTimer_def split: mutation_status.splits)
  next
    fix k assume "k \<in> set (oc_callbacks (clearTimer rid c))"
    then show "(\<exists>u. core (clearTimer rid c) k = Some (if oc_closed (clearTimer rid c) then Unsent else Inflight, u)) \<or>
        core (clearTimer rid c) k = None \<and> (\<exists>err. LayerDropped k err \<in> set (oc_out (clearTimer rid c)))"
      using inv by (auto simp: core f client_inv_def elim!: promise_pending)
  qed
  then show ?thesis using inv by (auto simp: client_inv_def store_wf_def ids_wf_def clearTimer_def)
qed

lemma clear_log: "oc_log (clearTimer rid c) = oc_log c"
  by (simp add: clearTimer_def)

lemma delete_clear: "log_delete rid (clearTimer rid c) = drop_layer rid c"
  by (cases c) (simp add: clearTimer_def log_delete_def drop_layer_def)

lemma timeout_inv:
  assumes inv: "client_inv c"
  shows "client_inv (gate_timeout stringify rid c)"
proof (cases "\<exists>ts at u. core c rid = Some (Completed ts at, u)")
  case True
  then obtain ts at u e where e: "core c rid = Some (Completed ts at, u)" "map_of (oc_log c) rid = Some e" "mu_status e = Completed ts at"
    by (auto simp: core_Some)
  have "gate_timeout stringify rid c = rebuild stringify [] (drop_layer rid c)"
    using e(2,3) by (simp add: gate_timeout_def Let_def delete_clear clear_log)
  then show ?thesis using rebuild_inv[OF drop_layer_inv[OF inv]] not_waiting[OF _ e(1)] inv by (simp add: client_inv_def)
next
  case False
  then have "gate_timeout stringify rid c = clearTimer rid c"
    by (auto simp: gate_timeout_def Let_def clearTimer_def core_def mu_core_def split: option.split mutation_status.split)
  then show ?thesis using clearTimer_inv[OF inv] False by auto
qed

lemma put_sub_inv:
  assumes inv: "client_inv c" and s0: "map_of (ly_byId (oc_store c)) q = Some s0" "su_queryId s = su_queryId s0" "su_hash s = su_hash s0"
  shows "client_inv (upd_store (put_sub s) c)"
  unfolding upd_store_def by (rule quiet_inv[OF quiet_store inv]) (rule store_kept_put[OF s0])

lemma tell_inv: "client_inv c \<Longrightarrow> client_inv (tell evs c)"
  by (rule drops_inv[OF drops_tell]) (auto simp: client_inv_def store_wf_def tell_def)

text \<open>Frames that carry no mutation.\<close>

lemma send_inv: "client_inv c \<Longrightarrow> sent_ids [m] = [] \<Longrightarrow> client_inv (oc_send m c)"
proof -
  assume inv: "client_inv c" and m: "sent_ids [m] = []"
  have "drops {} c (oc_send m c)" using m by (simp add: drops_def core_def oc_send_def fun_eq_iff)
  then show ?thesis by (rule drops_inv[OF _ inv]) (use inv in \<open>simp_all add: client_inv_def store_wf_def oc_send_def\<close>)
qed

lemma auth_inv: "client_inv c \<Longrightarrow> client_inv (oc_setAuth token c)"
proof -
  assume inv: "client_inv c"
  have "drops {} c (c\<lparr>oc_auth := Some token\<rparr>)" by (simp add: drops_def core_def fun_eq_iff)
  then have "client_inv (c\<lparr>oc_auth := Some token\<rparr>)" by (rule drops_inv[OF _ inv]) (use inv in \<open>simp_all add: client_inv_def store_wf_def\<close>)
  then show ?thesis unfolding oc_setAuth_def by (rule send_inv) simp
qed

lemma capability_inv: "client_inv c \<Longrightarrow> client_inv (maybeSendDiffCapability c)"
proof -
  assume inv: "client_inv c"
  have "drops {} c (c\<lparr>oc_diffCapabilitySent := True\<rparr>)" by (simp add: drops_def core_def fun_eq_iff)
  then have "client_inv (c\<lparr>oc_diffCapabilitySent := True\<rparr>)" by (rule drops_inv[OF _ inv]) (use inv in \<open>simp_all add: client_inv_def store_wf_def\<close>)
  then show ?thesis using inv by (simp add: maybeSendDiffCapability_def send_inv)
qed

lemma sub_by_hashE:
  assumes "sub_by_hash h st = Some s"
  obtains q where "map_of (ly_byHash st) h = Some q" "map_of (ly_byId st) q = Some s"
  using assms by (auto simp: sub_by_hash_def split: option.splits)

lemma create_inv:
  assumes inv: "client_inv c" and new: "sub_by_hash hash (oc_store c) = None"
  shows "client_inv (upd_store (ly_create (oc_nextQueryId c) path args hash) (c\<lparr>oc_nextQueryId := oc_nextQueryId c + 1\<rparr>))"
proof -
  let ?st = "ly_create (oc_nextQueryId c) path args hash (oc_store c)" and ?q = "oc_nextQueryId c"
  let ?c = "upd_store (ly_create ?q path args hash) (c\<lparr>oc_nextQueryId := ?q + 1\<rparr>)"
  have ok: "store_ok (oc_store c)" "\<And>q. q \<in> fst ` set (ly_byId (oc_store c)) \<Longrightarrow> q < ?q" using inv by (auto simp: client_inv_def store_wf_def)
  have fresh: "map_of (ly_byId (oc_store c)) ?q = None" using ok(2)[of ?q] by (auto simp: map_of_eq_None_iff)
  have absent: "hash \<notin> fst ` set (ly_byHash (oc_store c))"
  proof
    assume "hash \<in> fst ` set (ly_byHash (oc_store c))"
    then obtain q where q: "(hash, q) \<in> set (ly_byHash (oc_store c))" by force
    then obtain s where "map_of (ly_byId (oc_store c)) q = Some s" using ok(1) unfolding store_ok_def by blast
    moreover have "map_of (ly_byHash (oc_store c)) hash = Some q" using q ok(1) by (simp add: store_ok_def)
    ultimately show False using new by (simp add: sub_by_hash_def)
  qed
  have new_end: "AList.update k v al = al @ [(k, v)]" if "k \<notin> fst ` set al" for k and v :: int and al
    using that by (induction al) auto
  have byHash: "ly_byHash ?st = ly_byHash (oc_store c) @ [(hash, ?q)]" using new_end[OF absent] by (simp add: ly_create_def put_sub_def)
  have byId: "map_of (ly_byId ?st) q = (if q = ?q then Some (the (map_of (ly_byId ?st) ?q)) else map_of (ly_byId (oc_store c)) q)" for q
    by (simp add: ly_create_def put_sub_def update_conv')
  have sub: "\<exists>s. map_of (ly_byId ?st) ?q = Some s \<and> su_queryId s = ?q \<and> su_hash s = hash" by (simp add: ly_create_def put_sub_def update_conv')
  have "store_ok ?st"
    unfolding store_ok_def
  proof (intro conjI allI impI ballI)
    fix q s assume "map_of (ly_byId ?st) q = Some s"
    then show "su_queryId s = q" using sub ok(1) by (cases "q = ?q") (auto simp: byId[of q] store_ok_def)
  next
    show "distinct (map fst (ly_byHash ?st))" using ok(1) absent by (simp add: byHash store_ok_def)
  next
    fix x assume "x \<in> set (ly_byHash ?st)"
    then consider "x = (hash, ?q)" | "x \<in> set (ly_byHash (oc_store c))" by (auto simp: byHash)
    then show "case x of (h, q) \<Rightarrow> \<exists>s. map_of (ly_byId ?st) q = Some s \<and> su_hash s = h"
    proof cases
      case 2
      obtain h q where x: "x = (h, q)" by fastforce
      then obtain s where s: "map_of (ly_byId (oc_store c)) q = Some s" "su_hash s = h" using ok(1) 2 unfolding store_ok_def by blast
      then have "q \<noteq> ?q" using fresh by auto
      then show ?thesis using s by (simp add: x byId[of q])
    qed (use sub in auto)
  qed
  moreover have "fst ` set (ly_byId ?st) = insert ?q (fst ` set (ly_byId (oc_store c)))" by (simp add: ly_create_def put_sub_def dom_update)
  ultimately have "store_wf ?c" using ok(2) by (fastforce simp: store_wf_def upd_store_def)
  moreover have "drops {} c ?c" by (simp add: drops_def core_def upd_store_def fun_eq_iff)
  ultimately show ?thesis using drops_inv[OF _ inv] by blast
qed

lemma store_inv_ok: "client_inv c \<Longrightarrow> store_ok (oc_store c)"
  by (simp add: client_inv_def store_wf_def)

lemma subscribe_inv:
  assumes inv: "client_inv c"
  shows "client_inv (oc_subscribe stringify path args listener c)"
proof -
  let ?h = "queryHash stringify path (convexToJson args)"
  let ?c1 = "if sub_by_hash ?h (oc_store c) \<noteq> None then c
    else oc_send (MsgModifyQuerySet [\<lparr>rq_queryId = oc_nextQueryId c, rq_udfPath = path, rq_args = convexToJson args, rq_resultHash = None, rq_sinceTs = None\<rparr>] [])
      (maybeSendDiffCapability (upd_store (ly_create (oc_nextQueryId c) path (convexToJson args) ?h) (c\<lparr>oc_nextQueryId := oc_nextQueryId c + 1\<rparr>)))"
  define c1 where "c1 = ?c1"
  have c1: "client_inv c1" unfolding c1_def using inv create_inv[OF inv] by (auto intro!: send_inv capability_inv)
  show ?thesis
  proof (cases "sub_by_hash ?h (oc_store c1)")
    case None
    then show ?thesis using c1 unfolding oc_subscribe_def Let_def c1_def[symmetric] by simp
  next
    case (Some s)
    then obtain q where q: "map_of (ly_byId (oc_store c1)) q = Some s" by (rule sub_by_hashE)
    show ?thesis unfolding oc_subscribe_def Let_def c1_def[symmetric] using Some
      by (simp add: tell_inv[OF put_sub_inv[OF c1 q]])
  qed
qed

lemma remove_kept:
  assumes inv: "client_inv c"
  shows "client_inv (upd_store (ly_remove hash) c)"
proof (cases "map_of (ly_byHash (oc_store c)) hash")
  case None
  then have "upd_store (ly_remove hash) c = c" by (simp add: upd_store_def ly_remove_def)
  then show ?thesis using inv by simp
next
  case (Some q)
  let ?st = "ly_remove hash (oc_store c)"
  have ok: "store_ok (oc_store c)" by (rule store_inv_ok[OF inv])
  have st: "ly_byHash ?st = AList.delete hash (ly_byHash (oc_store c))" "ly_byId ?st = AList.delete q (ly_byId (oc_store c))"
    using Some by (simp_all add: ly_remove_def)
  have "store_ok ?st"
    unfolding store_ok_def
  proof (intro conjI allI impI ballI)
    fix q' s assume "map_of (ly_byId ?st) q' = Some s"
    then show "su_queryId s = q'" using ok by (auto simp: st delete_conv' store_ok_def split: if_splits)
  next
    show "distinct (map fst (ly_byHash ?st))" using ok by (simp add: st store_ok_def distinct_delete)
  next
    fix x assume x: "x \<in> set (ly_byHash ?st)"
    obtain h q' where xx: "x = (h, q')" by fastforce
    have h: "h \<noteq> hash" "(h, q') \<in> set (ly_byHash (oc_store c))" using x by (auto simp: st xx AList.delete_eq)
    then obtain s where s: "map_of (ly_byId (oc_store c)) q' = Some s" "su_hash s = h" using ok unfolding store_ok_def by blast
    have "(hash, q) \<in> set (ly_byHash (oc_store c))" using Some by (rule map_of_SomeD)
    then have "\<exists>s. map_of (ly_byId (oc_store c)) q = Some s \<and> su_hash s = hash" using ok unfolding store_ok_def by blast
    then have "q' \<noteq> q" using s h(1) by auto
    then show "case x of (h, q) \<Rightarrow> \<exists>s. map_of (ly_byId ?st) q = Some s \<and> su_hash s = h" using s by (simp add: xx st delete_conv')
  qed
  moreover have "fst ` set (ly_byId ?st) \<subseteq> fst ` set (ly_byId (oc_store c))" by (auto simp: st AList.delete_eq)
  moreover have "\<And>q. q \<in> fst ` set (ly_byId (oc_store c)) \<Longrightarrow> q < oc_nextQueryId c" using inv by (auto simp: client_inv_def store_wf_def)
  ultimately have "store_wf (upd_store (ly_remove hash) c)" unfolding store_wf_def upd_store_def by (metis optimistic_client.select_convs(1,9) optimistic_client.surjective optimistic_client.update_convs(1) subsetD)
  moreover have "drops {} c (upd_store (ly_remove hash) c)" by (simp add: drops_def core_def upd_store_def fun_eq_iff)
  ultimately show ?thesis using drops_inv[OF _ inv] by blast
qed

lemma unsubscribe_inv:
  assumes inv: "client_inv c"
  shows "client_inv (oc_unsubscribe hash listener c)"
proof (cases "sub_by_hash hash (oc_store c)")
  case (Some s)
  then obtain q where q: "map_of (ly_byId (oc_store c)) q = Some s" by (rule sub_by_hashE)
  have "client_inv (upd_store (put_sub (s\<lparr>su_listeners := l\<rparr>)) c)" for l by (rule put_sub_inv[OF inv q]) simp_all
  then show ?thesis using Some by (auto simp: oc_unsubscribe_def Let_def intro!: remove_kept send_inv)
qed (use inv in \<open>simp add: oc_unsubscribe_def\<close>)

lemma log_add_new: "mu_requestId e \<notin> fst ` set log \<Longrightarrow> log_add e log = log @ [(mu_requestId e, e)]"
  unfolding log_add_def by (induction log) auto

lemma log_ok_add: "log_ok log \<Longrightarrow> mu_requestId e \<notin> fst ` set log \<Longrightarrow> log_ok (log_add e log)"
  by (auto simp: log_add_new log_ok_def)

lemma initiate_spec:
  assumes ok: "store_wf c" "log_ok (oc_log c)" and fresh: "mu_requestId e \<notin> fst ` set (oc_log c)"
    and run: "initiate stringify e c = (c', err)"
  shows "store_wf c' \<and> (\<exists>D. drops D (c\<lparr>oc_log := log_add e (oc_log c)\<rparr>) c' \<and> (err \<noteq> None \<longleftrightarrow> mu_requestId e \<in> D) \<and>
    (\<forall>rid \<in> D. rid \<noteq> mu_requestId e \<longrightarrow> (\<exists>x. LayerDropped rid x \<in> set (oc_out c'))))"
proof -
  define c1 where "c1 = c\<lparr>oc_log := log_add e (oc_log c)\<rparr>"
  have log1: "log_ok (oc_log c1)" using log_ok_add[OF ok(2) fresh] by (simp add: c1_def)
  have st1: "store_ok (oc_store c1)" "store_wf c1" using ok(1) by (simp_all add: c1_def store_wf_def)
  show ?thesis
  proof (cases "mu_update e = None")
    case True
    then show ?thesis using run st1(2) by (intro conjI exI[of _ "{}"]) (simp_all add: initiate_def c1_def[symmetric])
  next
    case False
    obtain c2 ds where r: "run_recompose stringify [] c1 = (c2, ds)" by fastforce
    have c': "c' = warn_dropped (filter (\<lambda>(rid, _). rid \<noteq> mu_requestId e) ds) c2" "err = map_of (rev ds) (mu_requestId e)"
      using run False r by (auto simp: initiate_def c1_def[symmetric] Let_def)
    have "drops (fst ` set ds \<union> {}) c1 c'"
      by (rule drops_trans) (use run_recompose_drops[OF st1(1) log1 r] in \<open>auto simp: c' warn_dropped_def\<close>)
    moreover have "err \<noteq> None \<longleftrightarrow> mu_requestId e \<in> fst ` set ds" by (auto simp: c'(2) map_of_eq_None_iff)
    moreover have "\<exists>x. LayerDropped rid x \<in> set (oc_out c')" if rid: "rid \<in> fst ` set ds" "rid \<noteq> mu_requestId e" for rid
    proof -
      have "rid \<in> fst ` set (filter (\<lambda>(rid, _). rid \<noteq> mu_requestId e) ds)" using rid by force
      then show ?thesis unfolding c'(1) by (rule warn_dropped_in)
    qed
    moreover have "store_wf c'"
    proof -
      obtain c3 where c3: "rebuild stringify [] c1 = c3" by blast
      have "oc_store c' = oc_store c3 \<and> oc_nextQueryId c' = oc_nextQueryId c3"
        using c3[symmetric] by (simp add: rebuild_run[OF r] c'(1) warn_dropped_def tell_def)
      moreover have "store_ok (oc_store c3) \<and> oc_nextQueryId c3 = oc_nextQueryId c1 \<and> fst ` set (ly_byId (oc_store c3)) = fst ` set (ly_byId (oc_store c1))"
        using rebuild_spec[OF st1(1) log1 c3] by blast
      ultimately show ?thesis using st1(2) by (simp add: store_wf_def)
    qed
    ultimately show ?thesis unfolding c1_def by (intro conjI exI[of _ "fst ` set ds"]) simp_all
  qed
qed

lemma used_id_fresh: "\<not> used_id n (int_dec n)"
  by (auto simp: used_id_def)

lemma used_id_mono: "used_id n rid \<Longrightarrow> n \<le> m \<Longrightarrow> used_id m rid"
  by (force simp: used_id_def)

lemma mutation_inv:
  assumes inv: "client_inv c"
  shows "client_inv (fst (oc_mutation stringify seed path args update c))"
proof -
  define n where "n = oc_nextRequestId c"
  define rid where "rid = int_dec n"
  define c0 where "c0 = c\<lparr>oc_nextRequestId := n + 1\<rparr>"
  define e where "e = \<lparr>mu_requestId = rid, mu_udfPath = path, mu_args = convexToJson args, mu_update = update, mu_seed = seed,
    mu_touched = [], mu_status = Unsent, mu_durable = False\<rparr>"
  have ids: "ids_wf c" "store_wf c" "promise_ok c" using inv by (simp_all add: client_inv_def)
  have new: "rid \<notin> fst ` set (oc_log c)" "rid \<notin> set (oc_callbacks c)" "rid \<notin> set (sent_ids (oc_wire c))"
    using ids(1) used_id_fresh[of n] unfolding ids_wf_def rid_def n_def by blast+
  have core_rid: "core c rid = None" using new(1) by (simp add: core_None)
  obtain c1 err where i: "initiate stringify e c0 = (c1, err)" by fastforce
  have "store_wf c0" "log_ok (oc_log c0)" "mu_requestId e \<notin> fst ` set (oc_log c0)"
    using ids new by (simp_all add: c0_def store_wf_def ids_wf_def e_def)
  then obtain D where st: "store_wf c1" and d: "drops D (c0\<lparr>oc_log := log_add e (oc_log c0)\<rparr>) c1" and err: "err \<noteq> None \<longleftrightarrow> rid \<in> D"
      and gone: "\<And>r. r \<in> D \<Longrightarrow> r \<noteq> rid \<Longrightarrow> \<exists>x. LayerDropped r x \<in> set (oc_out c1)"
    using initiate_spec[OF _ _ _ i] by (auto simp: e_def)
  have core1: "core (c0\<lparr>oc_log := log_add e (oc_log c0)\<rparr>) = (core c)(rid \<mapsto> (Unsent, update = None))"
    by (auto simp: core_def fun_eq_iff c0_def log_add_def update_conv' e_def mu_core_def)
  have keys1: "log_ok (oc_log c1)" using d log_ok_add[of "oc_log c0" e] ids(1) new(1)
    by (simp add: drops_def c0_def e_def ids_wf_def)
  have frame: "oc_callbacks c1 = oc_callbacks c" "sent_ids (oc_wire c1) = sent_ids (oc_wire c)" "oc_closed c1 = oc_closed c"
      "n + 1 \<le> oc_nextRequestId c1" "set (oc_out c) \<subseteq> set (oc_out c1)" "\<And>r. r \<in> set (oc_timers c) \<Longrightarrow> r \<notin> D \<Longrightarrow> r \<in> set (oc_timers c1)"
    using d by (auto simp: drops_def c0_def)
  have core_c1: "core c1 r = (if r \<in> D then None else if r = rid then Some (Unsent, update = None) else core c r)" for r
    using d core1 by (simp add: drops_def)
  show ?thesis
  proof (cases "rid \<in> D")
    case True
    then have "fst (oc_mutation stringify seed path args update c) = c1"
      using i err by (auto simp: oc_mutation_def Let_def rid_def n_def c0_def e_def)
    moreover have "drops D c c1"
      using core_c1 core_rid frame True keys1 by (auto simp: drops_def fun_eq_iff n_def)
    then have "client_inv c1" by (rule drops_inv[OF _ inv st]) (use gone new(2) in blast)
    ultimately show ?thesis by simp
  next
    case False
    define s where "s = (if oc_closed c then Unsent else Inflight)"
    define c2 where "c2 = set_status rid s (c1\<lparr>oc_callbacks := oc_callbacks c1 @ [rid]\<rparr>)"
    define c3 where "c3 = (if oc_closed c then c2 else oc_send (MsgMutation rid path (convexToJson args)) c2)"
    have c3: "fst (oc_mutation stringify seed path args update c) = c3"
      using i err False frame(3) by (auto simp: oc_mutation_def Let_def rid_def n_def c0_def e_def c3_def c2_def s_def)
    have core3: "core c3 r = (if r = rid then Some (s, update = None) else if r \<in> D then None else core c r)" for r
    proof -
      have "core c3 r = core c2 r" by (simp add: c3_def core_def oc_send_def)
      moreover have "core c2 r = (if r = rid then map_option (\<lambda>x. (s, snd x)) (core c1 r) else core c1 r)"
        by (simp add: c2_def core_def set_status_def map_of_map_entry option.map_comp comp_def mu_core_def)
      ultimately show ?thesis using False by (simp add: core_c1)
    qed
    have f3: "oc_callbacks c3 = oc_callbacks c @ [rid]" "oc_closed c3 = oc_closed c" "oc_nextRequestId c3 = oc_nextRequestId c1"
        "oc_out c3 = oc_out c1" "oc_timers c3 = oc_timers c1" "oc_store c3 = oc_store c1" "oc_nextQueryId c3 = oc_nextQueryId c1"
        "sent_ids (oc_wire c3) = sent_ids (oc_wire c) @ (if oc_closed c then [] else [rid])"
      using frame by (simp_all add: c3_def c2_def set_status_def oc_send_def)
    have log3: "log_ok (oc_log c3)" using log_ok_status[OF keys1] by (simp add: c3_def c2_def set_status_def oc_send_def)
    have entry: "entry_ok c3 r x" if r: "core c3 r = Some x" for r x
    proof (cases "r = rid")
      case True
      then have "x = (s, update = None)" using r by (simp add: core3)
      moreover have "count_list (sent_ids (oc_wire c)) rid = 0" using new(3) by (simp add: count_list_0_iff)
      ultimately show ?thesis using True by (auto simp: entry_ok_def s_def f3)
    next
      case False
      then have r': "r \<notin> D" "core c r = Some x" using r by (auto simp: core3 split: if_splits)
      then have "entry_ok c r x" using promise_entry ids(3) by blast
      then show ?thesis using False r'(1) frame(6) by (auto simp: entry_ok_def f3 split: mutation_status.splits)
    qed
    have pending: "(\<exists>u. core c3 r = Some (if oc_closed c3 then Unsent else Inflight, u)) \<or> core c3 r = None \<and> (\<exists>err. LayerDropped r err \<in> set (oc_out c3))"
      if r: "r \<in> set (oc_callbacks c3)" for r
    proof (cases "r = rid")
      case True
      then show ?thesis by (simp add: core3 s_def f3)
    next
      case not_rid: False
      then have "r \<in> set (oc_callbacks c)" using r f3 by simp
      with ids(3) show ?thesis
      proof (cases rule: promise_pending)
        case (waits u)
        then show ?thesis using not_rid gone[of r] by (auto simp: core3 f3)
      next
        case (dropped x)
        then have "LayerDropped r x \<in> set (oc_out c3)" using frame(5) f3(4) by auto
        then show ?thesis using not_rid dropped by (auto simp: core3)
      qed
    qed
    have used: "used_id (oc_nextRequestId c3) r" if "r \<in> fst ` set (oc_log c3) \<union> set (oc_callbacks c3) \<union> set (sent_ids (oc_wire c3))" for r
    proof (cases "r = rid")
      case True
      then show ?thesis using frame(4) f3(3) by (auto simp: used_id_def rid_def)
    next
      case False
      then have "r \<in> fst ` set (oc_log c) \<union> set (oc_callbacks c) \<union> set (sent_ids (oc_wire c))"
        using that f3 core_None[of c3 r] core_None[of c r] by (auto simp: core3 split: if_splits)
      then have "used_id n r" using ids(1) unfolding ids_wf_def n_def by blast
      then show ?thesis using frame(4) f3(3) used_id_mono by fastforce
    qed
    have "promise_ok c3" using entry pending by (rule promise_okI)
    moreover have "ids_wf c3" using used log3 ids(1) new(2) f3(1) unfolding ids_wf_def by auto
    moreover have "store_wf c3" using st f3 by (simp add: store_wf_def)
    ultimately show ?thesis by (simp add: c3 client_inv_def)
  qed
qed

section \<open>Closing and reopening\<close>

definition ids_with :: "(mutation_status \<Rightarrow> bool) \<Rightarrow> pending_mutation list \<Rightarrow> jsstring list" where
  "ids_with P es = map mu_requestId (filter (\<lambda>e. P (mu_status e)) es)"

definition ended :: "mutation_status \<Rightarrow> bool" where
  "ended s \<longleftrightarrow> s = Inflight \<or> (\<exists>ts at. s = Completed ts at)"

lemma closeDisposition_unarmed:
  "closeDisposition es False = \<lparr>cd_reject = ids_with (\<lambda>s. s = Inflight) es, cd_drop = ids_with ended es,
     cd_retain = ids_with (\<lambda>s. \<not> ended s) es, cd_park = []\<rparr>"
proof -
  have "fold (dispose False) es d = \<lparr>cd_reject = cd_reject d @ ids_with (\<lambda>s. s = Inflight) es, cd_drop = cd_drop d @ ids_with ended es,
     cd_retain = cd_retain d @ ids_with (\<lambda>s. \<not> ended s) es, cd_park = cd_park d\<rparr>" for d
  proof (induction es arbitrary: d)
    case (Cons e es)
    have step: "fold (dispose False) (e # es) d = fold (dispose False) es (dispose False e d)" by simp
    show ?case unfolding step Cons.IH by (cases "mu_status e") (simp_all add: dispose_def ids_with_def ended_def)
  qed (simp add: ids_with_def)
  then show ?thesis by (simp add: closeDisposition_def)
qed

lemma ids_with_core: "log_ok (oc_log c) \<Longrightarrow> rid \<in> set (ids_with P (entriesInOrder (oc_log c))) \<longleftrightarrow> (\<exists>s u. core c rid = Some (s, u) \<and> P s)"
proof -
  assume ok: "log_ok (oc_log c)"
  have "(rid, e) \<in> set (oc_log c) \<longleftrightarrow> map_of (oc_log c) rid = Some e" for e using ok by (simp add: log_ok_def)
  moreover have "rid \<in> set (ids_with P (entriesInOrder (oc_log c))) \<longleftrightarrow> (\<exists>e. (rid, e) \<in> set (oc_log c) \<and> P (mu_status e))"
    using ok by (force simp: ids_with_def entriesInOrder_def log_ok_def)
  ultimately show ?thesis by (auto simp: core_Some)
qed

lemma rebuild_settle: "rebuild stringify force (settle_promise rid c) = settle_promise rid (rebuild stringify force c)"
  by (cases c) (simp add: rebuild_def run_recompose_def warn_dropped_def fold_drop_layer tell_def settle_promise_def split: prod.split)

lemma rebuild_settles: "fold settle_promise rids (rebuild stringify force c) = rebuild stringify force (fold settle_promise rids c)"
  by (induction rids arbitrary: c) (simp_all add: rebuild_settle[symmetric])

lemma fold_settle: "fold settle_promise rids c = c\<lparr>oc_callbacks := filter (\<lambda>r. r \<notin> set rids) (oc_callbacks c)\<rparr>"
proof (induction rids arbitrary: c)
  case (Cons r rids)
  have "filter (\<lambda>x. x \<notin> set rids) (removeAll r xs) = filter (\<lambda>x. x \<noteq> r \<and> x \<notin> set rids) xs" for xs by (induction xs) auto
  moreover have step: "fold settle_promise (r # rids) c = fold settle_promise rids (settle_promise r c)" by simp
  ultimately show ?case unfolding step Cons.IH by (simp add: settle_promise_def)
qed simp

lemma drops_fold: "drops (set rids) c (fold drop_layer rids c)"
proof (induction rids arbitrary: c)
  case (Cons r rids)
  have "drops ({r} \<union> set rids) c (fold drop_layer rids (drop_layer r c))" by (rule drops_trans[OF drops_drop_layer Cons.IH])
  then show ?case by simp
qed simp

lemma fold_drop_layer_frame: "oc_store (fold drop_layer rids c) = oc_store c" "oc_out (fold drop_layer rids c) = oc_out c"
  "oc_nextQueryId (fold drop_layer rids c) = oc_nextQueryId c"
  by (induction rids arbitrary: c) (simp_all add: drop_layer_def clearTimer_def log_delete_def)

text \<open>The client between the two halves of a close: what ended is gone, rejected promises are settled.\<close>

definition closing :: "optimistic_client \<Rightarrow> optimistic_client" where
  "closing c = (case fold drop_layer (ids_with ended (entriesInOrder (oc_log c)))
       (c\<lparr>oc_closed := True, oc_diffCapabilitySent := False, oc_resumeSinceTs := oc_observedTs c\<rparr>) of
     x \<Rightarrow> x\<lparr>oc_observedTs := 0, oc_callbacks := filter (\<lambda>r. r \<notin> set (ids_with (\<lambda>s. s = Inflight) (entriesInOrder (oc_log c)))) (oc_callbacks x)\<rparr>)"

lemma close_eq: "onTransportClosed stringify c = rebuild stringify [] (closing c)"
proof -
  define c0 where "c0 = c\<lparr>oc_closed := True, oc_diffCapabilitySent := False, oc_resumeSinceTs := oc_observedTs c\<rparr>"
  let ?es = "entriesInOrder (oc_log c)"
  have "closing c = fold settle_promise (ids_with (\<lambda>s. s = Inflight) ?es) ((fold drop_layer (ids_with ended ?es) c0)\<lparr>oc_observedTs := 0\<rparr>)"
    by (simp add: closing_def fold_settle c0_def)
  moreover have "oc_log c0 = oc_log c" by (simp add: c0_def)
  ultimately show ?thesis
    by (simp add: onTransportClosed_def closeSession_def c0_def[symmetric] Let_def closeDisposition_unarmed rebuild_settles)
qed

lemma closing_spec:
  assumes "log_ok (oc_log c)"
  shows "(\<forall>r. core (closing c) r = (case core c r of None \<Rightarrow> None | Some (s, u) \<Rightarrow> if ended s then None else Some (s, u))) \<and> oc_closed (closing c) \<and>
    (\<forall>r. r \<in> set (oc_callbacks (closing c)) \<longleftrightarrow> r \<in> set (oc_callbacks c) \<and> (\<forall>u. core c r \<noteq> Some (Inflight, u))) \<and>
    (distinct (oc_callbacks c) \<longrightarrow> distinct (oc_callbacks (closing c))) \<and> sent_ids (oc_wire (closing c)) = sent_ids (oc_wire c) \<and>
    oc_nextRequestId c \<le> oc_nextRequestId (closing c) \<and> oc_out (closing c) = oc_out c \<and> log_ok (oc_log (closing c)) \<and>
    oc_store (closing c) = oc_store c \<and> oc_nextQueryId (closing c) = oc_nextQueryId c"
proof -
  define c0 where "c0 = c\<lparr>oc_closed := True, oc_diffCapabilitySent := False, oc_resumeSinceTs := oc_observedTs c\<rparr>"
  let ?gone = "ids_with ended (entriesInOrder (oc_log c))"
  have d: "drops (set ?gone) c0 (fold drop_layer ?gone c0)" by (rule drops_fold)
  have core0: "core c0 = core c" by (simp add: core_def c0_def fun_eq_iff)
  have closing: "closing c = (case fold drop_layer ?gone c0 of x \<Rightarrow> x\<lparr>oc_observedTs := 0,
      oc_callbacks := filter (\<lambda>r. r \<notin> set (ids_with (\<lambda>s. s = Inflight) (entriesInOrder (oc_log c)))) (oc_callbacks x)\<rparr>)"
    by (simp add: closing_def c0_def)
  have core_x: "core (closing c) = core (fold drop_layer ?gone c0)" by (simp add: closing core_def fun_eq_iff)
  have "core (closing c) r = (case core c r of None \<Rightarrow> None | Some (s, u) \<Rightarrow> if ended s then None else Some (s, u))" for r
    using d ids_with_core[OF assms, of r ended] unfolding core_x by (cases "core c r") (auto simp: drops_def core0)
  moreover have "oc_callbacks (fold drop_layer ?gone c0) = oc_callbacks c" using d by (simp add: drops_def c0_def)
  moreover have "log_ok (oc_log c0)" using assms by (simp add: c0_def)
  ultimately show ?thesis using d ids_with_core[OF assms, where P = "\<lambda>s. s = Inflight"]
    by (auto simp: drops_def closing fold_drop_layer_frame c0_def)
qed

lemma closing_inv:
  assumes inv: "client_inv c"
  shows "client_inv (closing c)"
proof -
  have ok: "log_ok (oc_log c)" "promise_ok c" "ids_wf c" "store_wf c" using inv by (simp_all add: client_inv_def ids_wf_def)
  note f = closing_spec[OF ok(1)]
  note core_x = f[THEN conjunct1, rule_format]
  have fx: "oc_closed (closing c)" "oc_out (closing c) = oc_out c" "sent_ids (oc_wire (closing c)) = sent_ids (oc_wire c)"
      "\<And>r. r \<in> set (oc_callbacks (closing c)) \<longleftrightarrow> r \<in> set (oc_callbacks c) \<and> (\<forall>u. core c r \<noteq> Some (Inflight, u))"
      "oc_nextRequestId c \<le> oc_nextRequestId (closing c)" "log_ok (oc_log (closing c))" "distinct (oc_callbacks (closing c))"
    using f ok(3) by (simp_all add: ids_wf_def)
  have "promise_ok (closing c)"
  proof (rule promise_okI)
    fix r y assume y: "core (closing c) r = Some y"
    obtain s u where su: "y = (s, u)" by fastforce
    then have r: "\<not> ended s" "core c r = Some y" using y core_x[of r] by (auto split: if_splits option.splits)
    have "entry_ok c r (s, u)" using promise_entry[OF ok(2) r(2)] su by simp
    then show "entry_ok (closing c) r y" using r(1) fx(1) unfolding su by (cases s) (simp_all add: entry_ok_def ended_def)
  next
    fix r assume "r \<in> set (oc_callbacks (closing c))"
    then have "r \<in> set (oc_callbacks c)" and no: "\<And>u. core c r \<noteq> Some (Inflight, u)" by (simp_all add: fx)
    with ok(2) show "(\<exists>u. core (closing c) r = Some (if oc_closed (closing c) then Unsent else Inflight, u)) \<or>
        core (closing c) r = None \<and> (\<exists>err. LayerDropped r err \<in> set (oc_out (closing c)))"
    proof (cases rule: promise_pending)
      case (waits u)
      have "oc_closed c"
      proof (rule ccontr)
        assume "\<not> oc_closed c"
        then show False using waits no[of u] by simp
      qed
      then have "core c r = Some (Unsent, u)" using waits by simp
      then have "core (closing c) r = Some (Unsent, u)" unfolding core_x by (simp add: ended_def)
      then show ?thesis unfolding if_P[OF fx(1)] by blast
    next
      case (dropped err)
      then have "core (closing c) r = None" unfolding core_x by simp
      then show ?thesis using dropped(2) unfolding fx(2) by blast
    qed
  qed
  moreover have "ids_wf (closing c)"
  proof -
    have "fst ` set (oc_log (closing c)) \<subseteq> fst ` set (oc_log c)" by (rule keys_subset) (auto simp: core_x split: option.splits)
    then have "used_id (oc_nextRequestId c) r" if "r \<in> fst ` set (oc_log (closing c)) \<union> set (oc_callbacks (closing c)) \<union> set (sent_ids (oc_wire (closing c)))" for r
      using that ok(3) fx(3,4) unfolding ids_wf_def by auto
    then show ?thesis using used_id_mono[OF _ fx(5)] fx(6,7) unfolding ids_wf_def by blast
  qed
  moreover have "store_wf (closing c)" using ok(4) f by (simp add: store_wf_def)
  ultimately show ?thesis by (simp add: client_inv_def)
qed

lemma close_inv: "client_inv c \<Longrightarrow> client_inv (onTransportClosed stringify c)"
  unfolding close_eq by (rule rebuild_inv) (rule closing_inv)

text \<open>Only mutations that were never sent are left.\<close>

lemma close_core:
  assumes inv: "client_inv c" and s: "core (onTransportClosed stringify c) r = Some (s, u)"
  shows "s = Unsent"
proof -
  have "store_ok (oc_store (closing c))" "log_ok (oc_log (closing c))" using closing_inv[OF inv] by (simp_all add: client_inv_def store_wf_def ids_wf_def)
  then obtain D where "drops D (closing c) (onTransportClosed stringify c)" using rebuild_drops unfolding close_eq by blast
  then have x: "core (closing c) r = Some (s, u)" using s by (simp add: drops_def split: if_splits)
  have "log_ok (oc_log c)" using inv by (simp add: client_inv_def ids_wf_def)
  then have "\<not> ended s" using x closing_spec by (auto split: if_splits option.splits)
  moreover have "entry_ok (closing c) r (s, u)" using closing_inv[OF inv] promise_entry[OF _ x] by (simp add: client_inv_def)
  ultimately show ?thesis by (cases s) (auto simp: ended_def entry_ok_def)
qed

lemma count_distinct: "distinct xs \<Longrightarrow> x \<in> set xs \<Longrightarrow> count_list xs x = 1"
  by (induction xs) (auto simp: count_list_0_iff)

lemma flush_spec:
  "distinct (map mu_requestId es) \<Longrightarrow> c' = fold flush_entry es c \<Longrightarrow>
     core c' = (\<lambda>r. if r \<in> mu_requestId ` set es then map_option (\<lambda>x. (Inflight, snd x)) (core c r) else core c r) \<and>
     sent_ids (oc_wire c') = sent_ids (oc_wire c) @ map mu_requestId es \<and> (log_ok (oc_log c) \<longrightarrow> log_ok (oc_log c')) \<and>
     oc_callbacks c' = oc_callbacks c \<and> oc_closed c' = oc_closed c \<and> oc_timers c' = oc_timers c \<and> oc_out c' = oc_out c \<and>
     oc_nextRequestId c' = oc_nextRequestId c \<and> oc_store c' = oc_store c \<and> oc_nextQueryId c' = oc_nextQueryId c"
proof (induction es arbitrary: c)
  case (Cons e es)
  have "core (flush_entry e c) = (\<lambda>r. if r = mu_requestId e then map_option (\<lambda>x. (Inflight, snd x)) (core c r) else core c r)"
    by (auto simp: flush_entry_def core_def oc_send_def set_status_def map_of_map_entry fun_eq_iff mu_core_def option.map_comp comp_def)
  moreover have "log_ok (oc_log (flush_entry e c))" if "log_ok (oc_log c)"
    using log_ok_status[OF that] by (simp add: flush_entry_def oc_send_def set_status_def)
  moreover note Cons.IH[of "flush_entry e c"] Cons.prems
  ultimately show ?case by (auto simp: fun_eq_iff flush_entry_def oc_send_def set_status_def)
qed simp

lemma reopen_inv:
  assumes inv: "client_inv c" and closed: "oc_closed c"
  shows "client_inv (onTransportReopened c)"
proof -
  define c1 where "c1 = c\<lparr>oc_closed := False, oc_wire := []\<rparr>"
  define c2 where "c2 = (case oc_auth c1 of None \<Rightarrow> c1 | Some token \<Rightarrow> oc_send (MsgSetAuth token) c1)"
  define c3 where "c3 = resync (maybeSendDiffCapability c2)"
  define c' where "c' = fold flush_entry (unsentInOrder c3) c3"
  have final: "onTransportReopened c = c'" unfolding onTransportReopened_def Let_def c'_def c3_def c2_def c1_def ..
  have f3: "oc_log c3 = oc_log c" "oc_callbacks c3 = oc_callbacks c" "oc_timers c3 = oc_timers c" "oc_out c3 = oc_out c"
      "\<not> oc_closed c3" "sent_ids (oc_wire c3) = []" "oc_nextRequestId c3 = oc_nextRequestId c" "oc_store c3 = oc_store c" "oc_nextQueryId c3 = oc_nextQueryId c"
    by (auto simp: c3_def c2_def c1_def resync_def maybeSendDiffCapability_def oc_send_def Let_def split: option.split)
  have ok: "log_ok (oc_log c)" "promise_ok c" "ids_wf c" "store_wf c" using inv by (simp_all add: client_inv_def ids_wf_def)
  have un: "map mu_requestId (unsentInOrder c3) = ids_with (\<lambda>s. s = Unsent) (entriesInOrder (oc_log c))" by (simp add: unsentInOrder_def ids_with_def f3)
  have dist: "distinct (map mu_requestId (unsentInOrder c3))"
    unfolding unsentInOrder_def f3(1) by (rule distinct_map_filter) (use log_ok_ids[OF ok(1)] ok(1) in \<open>simp add: log_ok_def\<close>)
  note f = flush_spec[OF dist c'_def, unfolded f3]
  have core3: "core c3 = core c" by (simp add: core_def f3 fun_eq_iff)
  have ids: "r \<in> mu_requestId ` set (unsentInOrder c3) \<longleftrightarrow> (\<exists>u. core c r = Some (Unsent, u))" for r
    using ids_with_core[OF ok(1), of r "\<lambda>s. s = Unsent"] un by (metis list.set_map)
  have core': "core c' r = (case core c r of Some (Unsent, u) \<Rightarrow> Some (Inflight, u) | y \<Rightarrow> y)" for r
    using f[THEN conjunct1] ids[of r] by (auto simp: core3 fun_eq_iff split: option.splits prod.splits mutation_status.splits)
  have f': "\<not> oc_closed c'" "sent_ids (oc_wire c') = map mu_requestId (unsentInOrder c3)" "oc_callbacks c' = oc_callbacks c"
      "oc_timers c' = oc_timers c" "oc_out c' = oc_out c"
    using f f3(5) by simp_all
  have "promise_ok c'"
  proof (rule promise_okI)
    fix r y assume y: "core c' r = Some y"
    show "entry_ok c' r y"
    proof (cases "\<exists>u. core c r = Some (Unsent, u)")
      case True
      then have "r \<in> set (map mu_requestId (unsentInOrder c3))" using ids by simp
      then have "count_list (sent_ids (oc_wire c')) r = 1" using count_distinct[OF dist] f' by simp
      then show ?thesis using True y f'(1) by (auto simp: core' entry_ok_def)
    next
      case False
      then have "core c r = Some y" using y by (auto simp: core' split: option.splits prod.splits mutation_status.splits)
      then have "entry_ok c r y" "fst y \<noteq> Unsent" using promise_entry[OF ok(2)] False by (auto, metis prod.collapse)
      then show ?thesis using closed f'(4) by (auto simp: entry_ok_def split: mutation_status.splits)
    qed
  next
    fix r assume "r \<in> set (oc_callbacks c')"
    then have "r \<in> set (oc_callbacks c)" using f' by simp
    with ok(2) show "(\<exists>u. core c' r = Some (if oc_closed c' then Unsent else Inflight, u)) \<or> core c' r = None \<and> (\<exists>err. LayerDropped r err \<in> set (oc_out c'))"
      by (cases rule: promise_pending) (use closed f'(1,5) in \<open>auto simp: core'\<close>)
  qed
  moreover have "ids_wf c'"
  proof -
    have "fst ` set (oc_log c') \<subseteq> fst ` set (oc_log c)"
      by (rule keys_subset) (auto simp: core' split: option.splits)
    moreover have "set (sent_ids (oc_wire c')) \<subseteq> fst ` set (oc_log c)"
    proof
      fix r assume "r \<in> set (sent_ids (oc_wire c'))"
      then have "core c r \<noteq> None" using ids[of r] f'(2) by auto
      then show "r \<in> fst ` set (oc_log c)" by (simp add: core_None)
    qed
    moreover have "log_ok (oc_log c')" "oc_nextRequestId c' = oc_nextRequestId c" using f ok(1) by simp_all
    ultimately show ?thesis using ok(3) f'(3) unfolding ids_wf_def by (simp add: subset_iff) blast
  qed
  moreover have "store_wf c'" using ok(4) f by (simp add: store_wf_def)
  ultimately show ?thesis unfolding final by (simp add: client_inv_def)
qed

lemma newClient_inv: "client_inv newClient"
  by (simp add: client_inv_def store_wf_def ids_wf_def promise_ok_def newClient_def newLayeredStore_def store_ok_def log_ok_def core_def)

lemma oc_step_inv: "oc_step stringify c c' \<Longrightarrow> client_inv c \<Longrightarrow> client_inv c'"
  by (induction rule: oc_step.induct)
    (auto intro: subscribe_inv unsubscribe_inv mutation_inv message_inv timeout_inv auth_inv close_inv reopen_inv)

lemma reachable_client_inv: "(oc_step stringify)\<^sup>*\<^sup>* newClient c \<Longrightarrow> client_inv c"
  by (induction rule: rtranclp_induct) (auto intro: newClient_inv oc_step_inv)

section \<open>A sample history\<close>

definition sample_stringify :: "json \<Rightarrow> jsstring" where
  "sample_stringify = (\<lambda>_. [])"

definition sample_seed :: seed where
  "sample_seed = \<lparr>sd_entropy = [], sd_now = 0\<rparr>"

definition sample_subscribed :: optimistic_client where
  "sample_subscribed = oc_subscribe sample_stringify [113] VNull 7 newClient"

definition sample_frame :: "state_modification list" where
  "sample_frame = [QueryUpdated 1 (JStr [97]) None]"

definition sample_end :: state_version where
  "sample_end = \<lparr>sv_querySet = 1, sv_ts = 3\<rparr>"

definition sample_answered :: optimistic_client where
  "sample_answered = onServerMessage sample_stringify 0 (Transition INITIAL_VERSION sample_end sample_frame) sample_subscribed"

definition sample_reader :: "jvalue \<Rightarrow> view_prog" where
  "sample_reader = (\<lambda>_. ViewGet [113] VNull (\<lambda>v. case v of None \<Rightarrow> ViewThrow (TypeError ''undefined'') | Some _ \<Rightarrow> ViewReturn))"

definition sample_writer :: "jvalue \<Rightarrow> view_prog" where
  "sample_writer = (\<lambda>_. ViewSet [113] VNull (Some (VStr [98])) ViewReturn)"

definition sample_mutate :: "(jvalue \<Rightarrow> view_prog) \<Rightarrow> optimistic_client \<Rightarrow> optimistic_client" where
  "sample_mutate u c = fst (oc_mutation sample_stringify sample_seed [109] VNull (Some u) c)"

definition sample_acked :: optimistic_client where
  "sample_acked = onServerMessage sample_stringify 0 (MutationSucceeded [49] None (Some 5) False False) (sample_mutate sample_writer sample_answered)"

definition sample_offline :: optimistic_client where
  "sample_offline = sample_mutate sample_reader (onTransportClosed sample_stringify sample_answered)"

definition sample_lost :: optimistic_client where
  "sample_lost = onTransportReopened (sample_mutate sample_writer (oc_unsubscribe [113, 58] 7 sample_offline))"

lemma sample_steps:
  "(oc_step sample_stringify)\<^sup>*\<^sup>* newClient sample_subscribed" "(oc_step sample_stringify)\<^sup>*\<^sup>* newClient sample_answered"
  "(oc_step sample_stringify)\<^sup>*\<^sup>* newClient sample_acked" "(oc_step sample_stringify)\<^sup>*\<^sup>* newClient sample_offline"
  "(oc_step sample_stringify)\<^sup>*\<^sup>* newClient sample_lost"
proof -
  note step = rtranclp.rtrancl_into_rtrancl
  show 1: "(oc_step sample_stringify)\<^sup>*\<^sup>* newClient sample_subscribed"
    unfolding sample_subscribed_def by (intro r_into_rtranclp step_subscribe)
  show 2: "(oc_step sample_stringify)\<^sup>*\<^sup>* newClient sample_answered" unfolding sample_answered_def by (rule step[OF 1 step_message])
  show "(oc_step sample_stringify)\<^sup>*\<^sup>* newClient sample_acked"
    unfolding sample_acked_def sample_mutate_def by (rule step[OF step[OF 2 step_mutate] step_message])
  show 3: "(oc_step sample_stringify)\<^sup>*\<^sup>* newClient sample_offline"
    unfolding sample_offline_def sample_mutate_def by (rule step[OF step[OF 2 step_close] step_mutate])
  show "(oc_step sample_stringify)\<^sup>*\<^sup>* newClient sample_lost"
    unfolding sample_lost_def sample_mutate_def
  proof (rule step[OF step[OF step[OF 3 step_unsubscribe] step_mutate] step_reopen])
    show "oc_closed (fst (oc_mutation sample_stringify sample_seed [109] VNull (Some sample_writer) (oc_unsubscribe [113, 58] 7 sample_offline)))"
      by code_simp
  qed
qed

section \<open>Properties\<close>



text \<open>C10. Whatever the application, the server and the connection do, a promise still pending belongs to a logged
  mutation, which waits while the client is closed and was sent exactly once on the current connection while it
  is open, or to one whose layer was dropped because its updater threw.\<close>

theorem promises_accounted:
  assumes "(oc_step stringify)\<^sup>*\<^sup>* newClient c" and "rid \<in> set (oc_callbacks c)"
  shows "(\<exists>e. map_of (oc_log c) rid = Some e \<and>
      (if oc_closed c then mu_status e = Unsent else mu_status e = Inflight \<and> count_list (sent_ids (oc_wire c)) rid = 1)) \<or>
    (\<exists>err. LayerDropped rid err \<in> set (oc_out c))"
proof -
  have ok: "promise_ok c" using reachable_client_inv[OF assms(1)] by (simp add: client_inv_def)
  then show ?thesis using assms(2)
  proof (cases rule: promise_pending)
    case (waits u)
    then have "entry_ok c rid (if oc_closed c then Unsent else Inflight, u)" by (rule promise_entry[OF ok])
    then show ?thesis using waits by (auto simp: core_Some entry_ok_def split: if_splits)
  qed blast
qed

theorem promises_accounted_witness:
  "[49] \<in> set (oc_callbacks sample_offline) \<and> oc_closed sample_offline \<and>
     (\<exists>e. map_of (oc_log sample_offline) [49] = Some e \<and> mu_status e = Unsent)"
proof -
  have "[49] \<in> set (oc_callbacks sample_offline)" "oc_closed sample_offline" "\<forall>x \<in> set (oc_out sample_offline). case x of LayerDropped _ _ \<Rightarrow> False | _ \<Rightarrow> True"
    by code_simp+
  then show ?thesis using promises_accounted[OF sample_steps(4)] by fastforce
qed

text \<open>C27. A layer that waits for its commit keeps its updater and an armed timer, and none outlives the connection.\<close>

theorem layers_have_timers:
  assumes "(oc_step stringify)\<^sup>*\<^sup>* newClient c"
  shows "(\<forall>rid e ts at. map_of (oc_log c) rid = Some e \<and> mu_status e = Completed ts at \<longrightarrow> mu_update e \<noteq> None \<and> rid \<in> set (oc_timers c)) \<and>
    (\<forall>(rid, e) \<in> set (oc_log (onTransportClosed stringify c)). mu_status e = Unsent)"
proof -
  have inv: "client_inv c" by (rule reachable_client_inv[OF assms])
  have "mu_update e \<noteq> None \<and> rid \<in> set (oc_timers c)" if e: "map_of (oc_log c) rid = Some e" "mu_status e = Completed ts at" for rid e ts at
  proof -
    have "core c rid = Some (Completed ts at, mu_update e = None)" using e by (simp add: core_def mu_core_def)
    then have "entry_ok c rid (Completed ts at, mu_update e = None)" using inv promise_entry by (simp add: client_inv_def)
    then show ?thesis by (simp add: entry_ok_def)
  qed
  moreover have "mu_status e = Unsent" if e: "(rid, e) \<in> set (oc_log (onTransportClosed stringify c))" for rid e
  proof -
    have "log_ok (oc_log (onTransportClosed stringify c))" using close_inv[OF inv] by (simp add: client_inv_def ids_wf_def)
    then have "core (onTransportClosed stringify c) rid = Some (mu_status e, mu_update e = None)" using e by (simp add: core_def mu_core_def log_ok_def)
    then show ?thesis by (rule close_core[OF inv])
  qed
  ultimately show ?thesis by blast
qed

theorem layers_have_timers_witness:
  "\<exists>e. map_of (oc_log sample_acked) [49] = Some e \<and> mu_status e = Completed 5 0 \<and> [49] \<in> set (oc_timers sample_acked)"
proof -
  have "map_option mu_status (map_of (oc_log sample_acked) [49]) = Some (Completed 5 0)" by code_simp
  then show ?thesis using layers_have_timers[OF sample_steps(3)] by blast
qed

text \<open>A mutation made offline is lost when its updater throws in a later replay (here because the view it
  reads was unsubscribed): after the client has reconnected and flushed everything that waited, it has no log
  entry, was not sent, and its promise is still pending.\<close>

lemma offline_mutation_lost:
  "\<exists>c rid. (oc_step sample_stringify)\<^sup>*\<^sup>* newClient c \<and> rid \<in> set (oc_callbacks c) \<and> \<not> oc_closed c \<and>
     map_of (oc_log c) rid = None \<and> rid \<notin> set (sent_ids (oc_wire c)) \<and> unsentInOrder c = [] \<and> sent_ids (oc_wire c) \<noteq> []"
proof -
  have "[49] \<in> set (oc_callbacks sample_lost) \<and> \<not> oc_closed sample_lost \<and> [49] \<notin> set (map fst (oc_log sample_lost)) \<and>
      [49] \<notin> set (sent_ids (oc_wire sample_lost)) \<and> map mu_requestId (unsentInOrder sample_lost) = [] \<and> sent_ids (oc_wire sample_lost) \<noteq> []"
    by code_simp
  then show ?thesis using sample_steps(5) by (fastforce simp: map_of_eq_None_iff)
qed

end
