(* ===== verification/Receipts.thy ===== *)
theory Receipts
  imports Doc_Store Sync_Handler
begin

text \<open>
  Client mutations that may be sent again: \<^verbatim>\<open>packages/runtime-embedded/src/client-dedup.ts\<close>, the receipt
  tables of \<^verbatim>\<open>docstore-sqlite/src/sqlite-docstore.ts\<close> and the part of \<^verbatim>\<open>runtime.ts\<close> that runs a mutation
  with a dedup key on the node that commits it.  A receipt is kept per identity, client and sequence
  number; wall-clock readings and the length in bytes of a JSON text are arguments.
\<close>

section \<open>The receipt tables (sqlite-docstore.ts)\<close>

datatype stored_verdict = StoredApplied | StoredFailed

record client_receipt =
  rp_verdict :: stored_verdict
  rp_commitTs :: int
  rp_value :: "json option"
  rp_errorCode :: "jsstring option"
  rp_createdAt :: int

type_synonym receipt_key = "jsstring \<times> jsstring \<times> int"

record receipt_store =
  rp_rows :: "(receipt_key, client_receipt) jsmap"
  rp_floors :: "(jsstring \<times> jsstring, int \<times> int) jsmap"

definition rp_empty :: receipt_store where
  "rp_empty = \<lparr>rp_rows = [], rp_floors = []\<rparr>"

definition CLIENT_VERDICT_VALUE_CAP_BYTES :: nat where
  "CLIENT_VERDICT_VALUE_CAP_BYTES = 64 * 1024"

definition cappedValueJson :: "(json \<Rightarrow> nat) \<Rightarrow> json option \<Rightarrow> json option" where
  "cappedValueJson bytes v =
     (case v of None \<Rightarrow> None | Some j \<Rightarrow> if bytes j > CLIENT_VERDICT_VALUE_CAP_BYTES then None else Some (json_text j))"

definition getClientVerdict :: "receipt_key \<Rightarrow> receipt_store \<Rightarrow> client_receipt option" where
  "getClientVerdict k rs = map_of (rp_rows rs) k"

definition getClientFloor :: "jsstring \<Rightarrow> jsstring \<Rightarrow> receipt_store \<Rightarrow> int option" where
  "getClientFloor identity client rs = map_option fst (map_of (rp_floors rs) (identity, client))"

definition insert_receipt :: "receipt_key \<Rightarrow> client_receipt \<Rightarrow> receipt_store \<Rightarrow> receipt_store" where
  "insert_receipt k r rs = rs\<lparr>rp_rows := rp_rows rs @ [(k, r)]\<rparr>"

text \<open>\<open>INSERT OR IGNORE\<close>: the first verdict stays.\<close>

datatype verdict_write = WriteApplied int "json option" | WriteFailed int jsstring "json option"

definition recordClientVerdict :: "(json \<Rightarrow> nat) \<Rightarrow> int \<Rightarrow> receipt_key \<Rightarrow> verdict_write \<Rightarrow> receipt_store \<Rightarrow> receipt_store" where
  "recordClientVerdict bytes now k w rs =
     (if getClientVerdict k rs \<noteq> None then rs
      else insert_receipt k
        (case w of
           WriteApplied ts v \<Rightarrow> \<lparr>rp_verdict = StoredApplied, rp_commitTs = ts, rp_value = cappedValueJson bytes v,
             rp_errorCode = None, rp_createdAt = now\<rparr>
         | WriteFailed ts code v \<Rightarrow> \<lparr>rp_verdict = StoredFailed, rp_commitTs = ts, rp_value = cappedValueJson bytes v,
             rp_errorCode = Some code, rp_createdAt = now\<rparr>) rs)"

definition updateClientVerdictValue :: "(json \<Rightarrow> nat) \<Rightarrow> receipt_key \<Rightarrow> json \<Rightarrow> receipt_store \<Rightarrow> receipt_store" where
  "updateClientVerdictValue bytes k v rs =
     rs\<lparr>rp_rows := AList.map_entry k (\<lambda>r. r\<lparr>rp_value := cappedValueJson bytes (Some v)\<rparr>) (rp_rows rs)\<rparr>"

text \<open>The rows a prune deletes: those of the client under either bound.\<close>

definition prunable :: "int option \<Rightarrow> int option \<Rightarrow> int \<Rightarrow> client_receipt \<Rightarrow> bool" where
  "prunable ackedThrough ttlBeforeMs n r \<longleftrightarrow>
     (case ackedThrough of None \<Rightarrow> False | Some a \<Rightarrow> n \<le> a) \<or> (case ttlBeforeMs of None \<Rightarrow> False | Some t \<Rightarrow> rp_createdAt r < t)"

definition maxCandidate :: "int option \<Rightarrow> int option \<Rightarrow> int option" where
  "maxCandidate a b = (case a of None \<Rightarrow> b | Some x \<Rightarrow> (case b of None \<Rightarrow> Some x | Some y \<Rightarrow> Some (max x y)))"

definition max_seq :: "int list \<Rightarrow> int option" where
  "max_seq ns = foldl (\<lambda>m s. case m of None \<Rightarrow> Some s | Some x \<Rightarrow> if s > x then Some s else m) None ns"

definition raise_floor :: "jsstring \<times> jsstring \<Rightarrow> int \<Rightarrow> int \<Rightarrow> receipt_store \<Rightarrow> receipt_store" where
  "raise_floor c n now rs = rs\<lparr>rp_floors := AList.update c
     (case map_of (rp_floors rs) c of None \<Rightarrow> n | Some (x, _) \<Rightarrow> max x n, now) (rp_floors rs)\<rparr>"

definition pruneClientMutations ::
  "int \<Rightarrow> jsstring \<Rightarrow> jsstring \<Rightarrow> int option \<Rightarrow> int option \<Rightarrow> receipt_store \<Rightarrow> receipt_store \<times> int" where
  "pruneClientMutations now identity client ackedThrough ttlBeforeMs rs =
     (let currentFloor = getClientFloor identity client rs;
          dead = (\<lambda>((i, c, n), r). i = identity \<and> c = client \<and> prunable ackedThrough ttlBeforeMs n r);
          rs1 = rs\<lparr>rp_rows := filter (\<lambda>e. \<not> dead e) (rp_rows rs)\<rparr>;
          candidate = maxCandidate ackedThrough (max_seq (map (\<lambda>((_, _, n), _). n) (filter dead (rp_rows rs))));
          base = (case currentFloor of None \<Rightarrow> - 1 | Some f \<Rightarrow> f)
      in case candidate of
           None \<Rightarrow> (rs1, case currentFloor of None \<Rightarrow> 0 | Some f \<Rightarrow> f)
         | Some n \<Rightarrow> if n \<le> base then (rs1, case currentFloor of None \<Rightarrow> 0 | Some f \<Rightarrow> f)
                     else (raise_floor (identity, client) n now rs1, n))"

text \<open>The sweep groups the deleted rows by identity and client, joined by a NUL.\<close>

definition client_text :: "jsstring \<Rightarrow> jsstring \<Rightarrow> jsstring" where
  "client_text identity client = identity @ 0 # client"

definition sweep_group ::
  "(jsstring, (jsstring \<times> jsstring) \<times> int) jsmap \<Rightarrow> receipt_key \<times> client_receipt \<Rightarrow> (jsstring, (jsstring \<times> jsstring) \<times> int) jsmap" where
  "sweep_group m e =
     (case e of ((i, c, n), r) \<Rightarrow>
        (case map_of m (client_text i c) of
           None \<Rightarrow> AList.update (client_text i c) ((i, c), n) m
         | Some (_, x) \<Rightarrow> if n > x then AList.update (client_text i c) ((i, c), n) m else m))"

definition sweepExpiredClientMutations :: "int \<Rightarrow> int \<Rightarrow> receipt_store \<Rightarrow> receipt_store \<times> nat" where
  "sweepExpiredClientMutations now beforeMs rs =
     (let dead = filter (\<lambda>(_, r). rp_createdAt r < beforeMs) (rp_rows rs);
          rs1 = rs\<lparr>rp_rows := filter (\<lambda>(_, r). \<not> rp_createdAt r < beforeMs) (rp_rows rs)\<rparr>
      in if dead = [] then (rs1, 0)
         else (fold (\<lambda>(_, (c, n)). raise_floor c n now) (foldl sweep_group [] dead) rs1, length dead))"

section \<open>Classification (client-dedup.ts)\<close>

record client_replay =
  rv_verdict :: mutation_verdict
  rv_commitTs :: "int option"
  rv_value :: "json option"
  rv_valueMissing :: bool
  rv_code :: "jsstring option"

record dedup_key =
  dk_clientId :: jsstring
  dk_seq :: int

definition identityKey :: "jsstring option \<Rightarrow> jsstring" where
  "identityKey identity = (case identity of None \<Rightarrow> [] | Some i \<Rightarrow> i)"

definition receipt_of :: "jsstring option \<Rightarrow> dedup_key \<Rightarrow> receipt_key" where
  "receipt_of identity d = (identityKey identity, dk_clientId d, dk_seq d)"

definition replayFromRecord :: "client_receipt \<Rightarrow> client_replay" where
  "replayFromRecord r =
     (case rp_verdict r of
        StoredApplied \<Rightarrow> \<lparr>rv_verdict = Applied, rv_commitTs = Some (rp_commitTs r), rv_value = rp_value r,
          rv_valueMissing = (rp_value r = None), rv_code = None\<rparr>
      | StoredFailed \<Rightarrow> \<lparr>rv_verdict = Failed, rv_commitTs = Some (rp_commitTs r), rv_value = None, rv_valueMissing = False,
          rv_code = Some (case rp_errorCode r of None \<Rightarrow> js ''MUTATION_FAILED'' | Some c \<Rightarrow> c)\<rparr>)"

definition stale_replay :: client_replay where
  "stale_replay = \<lparr>rv_verdict = Stale, rv_commitTs = None, rv_value = None, rv_valueMissing = False, rv_code = Some (js ''STALE_CLIENT'')\<rparr>"

text \<open>The two reads of the classification, and both at once.\<close>

definition classify_verdict :: "receipt_key \<Rightarrow> receipt_store \<Rightarrow> client_replay option" where
  "classify_verdict k rs = map_option replayFromRecord (getClientVerdict k rs)"

definition classify_floor :: "receipt_key \<Rightarrow> receipt_store \<Rightarrow> client_replay option" where
  "classify_floor k rs =
     (case k of (i, c, n) \<Rightarrow> (case getClientFloor i c rs of None \<Rightarrow> None | Some f \<Rightarrow> if n \<le> f then Some stale_replay else None))"

definition classifyDedup :: "jsstring option \<Rightarrow> dedup_key \<Rightarrow> receipt_store \<Rightarrow> client_replay option" where
  "classifyDedup identity d rs =
     (case classify_verdict (receipt_of identity d) rs of
        Some r \<Rightarrow> Some r | None \<Rightarrow> classify_floor (receipt_of identity d) rs)"

definition classifyForConnect :: "jsstring option \<Rightarrow> jsstring \<Rightarrow> int \<Rightarrow> receipt_store \<Rightarrow> client_mutation_verdict" where
  "classifyForConnect identity client n rs =
     (case classifyDedup identity \<lparr>dk_clientId = client, dk_seq = n\<rparr> rs of
        None \<Rightarrow> \<lparr>cv_clientId = client, cv_seq = n, cv_verdict = Unknown, cv_commitTs = None, cv_value = None,
          cv_valueMissing = False, cv_code = None\<rparr>
      | Some r \<Rightarrow> \<lparr>cv_clientId = client, cv_seq = n, cv_verdict = rv_verdict r, cv_commitTs = rv_commitTs r,
          cv_value = rv_value r, cv_valueMissing = rv_valueMissing r, cv_code = rv_code r\<rparr>)"

definition dedupCommitMeta :: "jsstring option \<Rightarrow> dedup_key \<Rightarrow> commit_meta option \<Rightarrow> commit_meta" where
  "dedupCommitMeta identity d base =
     setObjectKey (setObjectKey (setObjectKey (or_default base []) (js ''identity'') (identityKey identity))
       (js ''clientId'') (dk_clientId d)) (js ''seq'') (int_dec (dk_seq d))"

text \<open>\<^verbatim>\<open>Number(seq)\<close> of the decimal text of an integer.\<close>

definition readUnitDedup :: "commit_guard_unit \<Rightarrow> (jsstring \<times> jsstring \<times> int option) option" where
  "readUnitDedup u =
     (case gu_meta u of
        None \<Rightarrow> None
      | Some meta \<Rightarrow>
          (case (map_of meta (js ''clientId''), map_of meta (js ''seq'')) of
             (Some c, Some n) \<Rightarrow> Some (or_default (map_of meta (js ''identity'')) [], c, parseInt10 n)
           | _ \<Rightarrow> None))"

text \<open>The guard inserts one receipt per unit that carries a key; a collision names the unit.\<close>

fun receipts_guard :: "int \<Rightarrow> int \<Rightarrow> commit_guard_unit list \<Rightarrow> receipt_store \<Rightarrow> receipt_store result" where
  "receipts_guard now i [] rs = Inr rs"
| "receipts_guard now i (u # us) rs =
     (case readUnitDedup u of
        None \<Rightarrow> receipts_guard now (i + 1) us rs
      | Some (_, _, None) \<Rightarrow> Inl (StoreError ''NOT NULL constraint failed'')
      | Some (identity, client, Some n) \<Rightarrow>
          (if getClientVerdict (identity, client, n) rs \<noteq> None then Inl (CommitGuardRejection i ''CLIENT_MUTATION_DUP'')
           else receipts_guard now (i + 1) us
             (insert_receipt (identity, client, n) \<lparr>rp_verdict = StoredApplied, rp_commitTs = gu_ts u, rp_value = None,
                rp_errorCode = None, rp_createdAt = now\<rparr> rs)))"

definition clientReceiptsGuard :: "int \<Rightarrow> receipt_store \<Rightarrow> commit_guard" where
  "clientReceiptsGuard now rs us shardId =
     (case receipts_guard now 0 us rs of Inl e \<Rightarrow> Some e | Inr _ \<Rightarrow> None)"

text \<open>A commit of the store with the guard in its transaction, before the guards installed later.\<close>

definition commit_receipted ::
  "int \<Rightarrow> commit_guard list \<Rightarrow> commit_unit list \<Rightarrow> jsstring option \<Rightarrow> doc_store \<times> receipt_store \<Rightarrow>
     (int list \<times> doc_store \<times> receipt_store) result" where
  "commit_receipted now guards units shardId st =
     (case st of (docs, rs) \<Rightarrow>
        res_bind (commitWriteBatch (clientReceiptsGuard now rs # guards) units shardId docs) (\<lambda>(tss, docs').
        res_bind (receipts_guard now 0 (map2 (\<lambda>ts u. \<lparr>gu_ts = ts, gu_meta = cu_meta u\<rparr>) tss units) rs) (\<lambda>rs'.
          Inr (tss, docs', rs'))))"

section \<open>Running a mutation with a key (runtime.ts)\<close>

text \<open>How the executor's run of the mutation ended.\<close>

datatype run_outcome =
    RunReturned jvalue bool int
  | RunThrew mutation_error

definition handleDedupError ::
  "(json \<Rightarrow> nat) \<Rightarrow> int \<Rightarrow> receipt_key \<Rightarrow> mutation_error \<Rightarrow> receipt_store \<Rightarrow> receipt_store \<times> client_replay option" where
  "handleDedupError bytes now k e rs =
     (case me_error e of
        CommitGuardRejection i code \<Rightarrow>
          (if code = ''CLIENT_MUTATION_DUP'' then (rs, map_option replayFromRecord (getClientVerdict k rs))
           else if me_retryable e then (rs, None)
           else (recordClientVerdict bytes now k (WriteFailed 0 (or_default (me_code e) (js ''MUTATION_FAILED'')) None) rs, None))
      | _ \<Rightarrow>
          (if me_retryable e then (rs, None)
           else (recordClientVerdict bytes now k (WriteFailed 0 (or_default (me_code e) (js ''MUTATION_FAILED'')) None) rs, None)))"

definition recordZeroWriteApplied :: "(json \<Rightarrow> nat) \<Rightarrow> int \<Rightarrow> receipt_key \<Rightarrow> int \<Rightarrow> jvalue \<Rightarrow> receipt_store \<Rightarrow> receipt_store" where
  "recordZeroWriteApplied bytes now k ts v = recordClientVerdict bytes now k (WriteApplied ts (Some (convexToJson v)))"

text \<open>Best effort: the update may fail, and then nothing happens.\<close>

definition fillWriteMutationValue :: "(json \<Rightarrow> nat) \<Rightarrow> bool \<Rightarrow> receipt_key \<Rightarrow> jvalue \<Rightarrow> receipt_store \<Rightarrow> receipt_store" where
  "fillWriteMutationValue bytes fails k v rs =
     (if fails then rs else updateClientVerdictValue bytes k (convexToJson v) rs)"

definition replayToRunResult :: "client_replay \<Rightarrow> run_mutation_result result" where
  "replayToRunResult r =
     (case rv_value r of
        None \<Rightarrow> Inr (MutationReplay (rv_verdict r) (rv_commitTs r) None (rv_valueMissing r) (rv_code r))
      | Some j \<Rightarrow> res_bind (jsonToConvex j) (\<lambda>v.
          Inr (MutationReplay (rv_verdict r) (rv_commitTs r) (Some v) (rv_valueMissing r) (rv_code r))))"

text \<open>What \<open>runMutation\<close> does once the run is over, and what the client is told.\<close>

datatype dedup_answer = AnswerRan jvalue int | AnswerReplay client_replay | AnswerError mutation_error

definition after_run ::
  "(json \<Rightarrow> nat) \<Rightarrow> int \<Rightarrow> bool \<Rightarrow> receipt_key \<Rightarrow> run_outcome \<Rightarrow> receipt_store \<Rightarrow> receipt_store \<times> dedup_answer" where
  "after_run bytes now fails k outcome rs =
     (case outcome of
        RunThrew e \<Rightarrow>
          (case handleDedupError bytes now k e rs of
             (rs', Some r) \<Rightarrow> (rs', AnswerReplay r) | (rs', None) \<Rightarrow> (rs', AnswerError e))
      | RunReturned v committed ts \<Rightarrow>
          ((if committed then fillWriteMutationValue bytes fails k v rs else recordZeroWriteApplied bytes now k ts v rs),
           AnswerRan v ts))"

end
