(* ===== verification/Exactly_Once.thy ===== *)
theory Exactly_Once
  imports Receipts
begin

text \<open>
  Attempts to run mutations with dedup keys, in any interleaving with each other, with crashes, prunes and
  sweeps: a keyed mutation lands at most once, as long as no receipt is pruned under a running attempt.
\<close>

section \<open>Attempts\<close>

datatype phase = Asked | Missed | Running | Landed int

record attempt =
  at_identity :: "jsstring option"
  at_dedup :: dedup_key
  at_base :: "commit_meta option"
  at_phase :: phase

definition attempt_key :: "attempt \<Rightarrow> receipt_key" where
  "attempt_key a = receipt_of (at_identity a) (at_dedup a)"

text \<open>\<open>os_landed\<close> and \<open>os_answers\<close> record what happened: the keyed units the store committed, with their
  timestamps, and what each attempt told its client.\<close>

record once_sys =
  os_docs :: doc_store
  os_receipts :: receipt_store
  os_attempts :: "(nat, attempt) jsmap"
  os_landed :: "(receipt_key \<times> int) list"
  os_answers :: "(receipt_key \<times> dedup_answer) list"

definition once_init :: once_sys where
  "once_init = \<lparr>os_docs = ds_empty, os_receipts = rp_empty, os_attempts = [], os_landed = [], os_answers = []\<rparr>"

definition set_phase :: "nat \<Rightarrow> phase \<Rightarrow> once_sys \<Rightarrow> once_sys" where
  "set_phase t p s = s\<lparr>os_attempts := AList.map_entry t (\<lambda>a. a\<lparr>at_phase := p\<rparr>) (os_attempts s)\<rparr>"

definition answered :: "nat \<Rightarrow> receipt_key \<Rightarrow> dedup_answer \<Rightarrow> once_sys \<Rightarrow> once_sys" where
  "answered t k x s = s\<lparr>os_attempts := AList.delete t (os_attempts s), os_answers := os_answers s @ [(k, x)]\<rparr>"

definition guard_units :: "int list \<Rightarrow> commit_unit list \<Rightarrow> commit_guard_unit list" where
  "guard_units tss us = map2 (\<lambda>ts u. \<lparr>gu_ts = ts, gu_meta = cu_meta u\<rparr>) tss us"

definition keyed_units :: "commit_guard_unit list \<Rightarrow> (receipt_key \<times> int) list" where
  "keyed_units us = concat (map (\<lambda>u. case readUnitDedup u of Some (i, c, Some n) \<Rightarrow> [((i, c, n), gu_ts u)] | _ \<Rightarrow> []) us)"

text \<open>The unit an attempt commits carries its key; other commits carry none.\<close>

definition unit_of :: "once_sys \<Rightarrow> nat option \<Rightarrow> commit_unit \<Rightarrow> bool" where
  "unit_of s t u =
     (case t of
        None \<Rightarrow> readUnitDedup \<lparr>gu_ts = 0, gu_meta = cu_meta u\<rparr> = None
      | Some t \<Rightarrow> (case map_of (os_attempts s) t of
          None \<Rightarrow> False
        | Some a \<Rightarrow> at_phase a = Running \<and> cu_meta u = Some (dedupCommitMeta (at_identity a) (at_dedup a) (at_base a))))"

definition landing :: "(nat option \<times> int) list \<Rightarrow> once_sys \<Rightarrow> once_sys" where
  "landing ts s = fold (\<lambda>(t, x). case t of None \<Rightarrow> id | Some t \<Rightarrow> set_phase t (Landed x)) ts s"

text \<open>No receipt of a running attempt disappears.\<close>

definition spares_running :: "once_sys \<Rightarrow> receipt_store \<Rightarrow> bool" where
  "spares_running s rs = list_all (\<lambda>(_, a). at_phase a = Running \<longrightarrow>
     getClientVerdict (attempt_key a) rs = getClientVerdict (attempt_key a) (os_receipts s)) (os_attempts s)"

inductive once_step :: "bool \<Rightarrow> (json \<Rightarrow> nat) \<Rightarrow> once_sys \<Rightarrow> once_sys \<Rightarrow> bool" for quiet bytes where
  arrive: "map_of (os_attempts s) t = None \<Longrightarrow> 0 \<notin> set (identityKey identity) \<Longrightarrow> 0 \<le> dk_seq d \<Longrightarrow>
    once_step quiet bytes s (s\<lparr>os_attempts := (t, \<lparr>at_identity = identity, at_dedup = d, at_base = base, at_phase = Asked\<rparr>) # os_attempts s\<rparr>)"
| verdict_hit: "map_of (os_attempts s) t = Some a \<Longrightarrow> at_phase a = Asked \<Longrightarrow> classify_verdict (attempt_key a) (os_receipts s) = Some r \<Longrightarrow>
    once_step quiet bytes s (answered t (attempt_key a) (AnswerReplay r) s)"
| verdict_miss: "map_of (os_attempts s) t = Some a \<Longrightarrow> at_phase a = Asked \<Longrightarrow> classify_verdict (attempt_key a) (os_receipts s) = None \<Longrightarrow>
    once_step quiet bytes s (set_phase t Missed s)"
| floor_hit: "map_of (os_attempts s) t = Some a \<Longrightarrow> at_phase a = Missed \<Longrightarrow> classify_floor (attempt_key a) (os_receipts s) = Some r \<Longrightarrow>
    once_step quiet bytes s (answered t (attempt_key a) (AnswerReplay r) s)"
| floor_miss: "map_of (os_attempts s) t = Some a \<Longrightarrow> at_phase a = Missed \<Longrightarrow> classify_floor (attempt_key a) (os_receipts s) = None \<Longrightarrow>
    once_step quiet bytes s (set_phase t Running s)"
| land: "list_all (\<lambda>(t, u). unit_of s t u) es \<Longrightarrow>
    commit_receipted now guards (map snd es) shardId (os_docs s, os_receipts s) = Inr (tss, docs, rs) \<Longrightarrow>
    once_step quiet bytes s (landing (zip (map fst es) tss)
      (s\<lparr>os_docs := docs, os_receipts := rs, os_landed := os_landed s @ keyed_units (guard_units tss (map snd es))\<rparr>))"
| finish: "map_of (os_attempts s) t = Some a \<Longrightarrow>
    (case outcome of RunThrew e \<Rightarrow> at_phase a \<noteq> Asked \<and> at_phase a \<noteq> Missed
     | RunReturned v committed ts \<Rightarrow> (if committed then at_phase a = Landed ts else at_phase a = Running)) \<Longrightarrow>
    after_run bytes now fails (attempt_key a) outcome (os_receipts s) = (rs, x) \<Longrightarrow>
    once_step quiet bytes s (answered t (attempt_key a) x (s\<lparr>os_receipts := rs\<rparr>))"
| crash: "once_step quiet bytes s (s\<lparr>os_attempts := AList.delete t (os_attempts s)\<rparr>)"
| prune: "fst (pruneClientMutations now identity client ack ttl (os_receipts s)) = rs \<Longrightarrow> (quiet \<longrightarrow> spares_running s rs) \<Longrightarrow>
    once_step quiet bytes s (s\<lparr>os_receipts := rs\<rparr>)"
| sweep: "fst (sweepExpiredClientMutations now beforeMs (os_receipts s)) = rs \<Longrightarrow> (quiet \<longrightarrow> spares_running s rs) \<Longrightarrow>
    once_step quiet bytes s (s\<lparr>os_receipts := rs\<rparr>)"

inductive once_reachable :: "bool \<Rightarrow> (json \<Rightarrow> nat) \<Rightarrow> once_sys \<Rightarrow> bool" for quiet bytes where
  once_start: "once_reachable quiet bytes once_init"
| once_next: "once_reachable quiet bytes s \<Longrightarrow> once_step quiet bytes s s' \<Longrightarrow> once_reachable quiet bytes s'"

section \<open>The guard\<close>

lemma map_of_setObjectKey: "map_of (setObjectKey obj k v) = (map_of obj)(k \<mapsto> v)"
proof (cases "k \<in> fst ` set obj")
  case False
  then have none: "map_of obj k = None" by (simp add: map_of_eq_None_iff)
  have split: "map_of (xs @ (k, v) # ys) = (map_of (xs @ ys))(k \<mapsto> v)" if "map_of (xs @ ys) k = None" for xs ys
    using that by (auto simp: fun_eq_iff map_add_def split: option.splits)
  show ?thesis
    using split[of obj "[]"] split[of "takeWhile (before_index n) obj" "dropWhile (before_index n) obj" for n] none False
    by (simp add: setObjectKey_def split: option.split)
qed (simp add: setObjectKey_def update_conv')

lemma meta_key: "readUnitDedup \<lparr>gu_ts = ts, gu_meta = Some (dedupCommitMeta identity d base)\<rparr> =
    Some (identityKey identity, dk_clientId d, Some (dk_seq d))"
  by (simp add: readUnitDedup_def dedupCommitMeta_def map_of_setObjectKey or_default_def js_def)

lemma keyed_units_Nil [simp]: "keyed_units [] = []"
  by (simp add: keyed_units_def)

lemma keyed_units_Cons: "keyed_units (u # us) =
    (case readUnitDedup u of Some (i, c, Some n) \<Rightarrow> [((i, c, n), gu_ts u)] | _ \<Rightarrow> []) @ keyed_units us"
  by (simp add: keyed_units_def)

definition applied_receipt :: "int \<Rightarrow> int \<Rightarrow> client_receipt" where
  "applied_receipt now ts = \<lparr>rp_verdict = StoredApplied, rp_commitTs = ts, rp_value = None, rp_errorCode = None, rp_createdAt = now\<rparr>"

text \<open>A batch the guard lets pass adds the receipts of its keyed units, none of which were there.\<close>

lemma guard_inserts:
  "receipts_guard now i us rs = Inr rs' \<Longrightarrow> distinct (map fst (keyed_units us)) \<and>
     (\<forall>k \<in> fst ` set (keyed_units us). getClientVerdict k rs = None) \<and> rp_floors rs' = rp_floors rs \<and>
     rp_rows rs' = rp_rows rs @ map (\<lambda>(k, ts). (k, applied_receipt now ts)) (keyed_units us)"
proof (induction us arbitrary: i rs)
  case (Cons u us)
  consider (none) "readUnitDedup u = None" | (key) a c n where "readUnitDedup u = Some (a, c, Some n)" | (nan) a c where "readUnitDedup u = Some (a, c, None)"
    by (metis option.exhaust prod.exhaust)
  then show ?case
  proof cases
    case none
    then show ?thesis using Cons.IH Cons.prems by (simp add: keyed_units_Cons)
  next
    case key
    let ?rs = "insert_receipt (a, c, n) (applied_receipt now (gu_ts u)) rs"
    have fresh: "getClientVerdict (a, c, n) rs = None" and rest: "receipts_guard now (i + 1) us ?rs = Inr rs'"
      using Cons.prems key by (auto simp: applied_receipt_def split: if_splits)
    have "getClientVerdict k ?rs = None \<longleftrightarrow> getClientVerdict k rs = None \<and> k \<noteq> (a, c, n)" for k
      by (auto simp: getClientVerdict_def insert_receipt_def map_add_def split: option.splits)
    then show ?thesis using Cons.IH[OF rest] fresh by (auto simp: keyed_units_Cons key insert_receipt_def)
  qed (use Cons.prems in simp)
qed simp

section \<open>What becomes of a receipt\<close>

definition covered :: "receipt_key \<Rightarrow> receipt_store \<Rightarrow> bool" where
  "covered k rs \<longleftrightarrow> classify_floor k rs \<noteq> None"

definition receipted :: "receipt_key \<Rightarrow> int \<Rightarrow> receipt_store \<Rightarrow> bool" where
  "receipted k ts rs \<longleftrightarrow> (\<exists>r. getClientVerdict k rs = Some r \<and> rp_verdict r = StoredApplied \<and> rp_commitTs r = ts)"

text \<open>Identities carry no NUL and sequence numbers are natural; a key has one row.\<close>

definition key_ok :: "receipt_key \<Rightarrow> bool" where
  "key_ok k \<longleftrightarrow> 0 \<notin> set (fst k) \<and> 0 \<le> snd (snd k)"

definition rows_ok :: "receipt_store \<Rightarrow> bool" where
  "rows_ok rs \<longleftrightarrow> distinct (map fst (rp_rows rs)) \<and> (\<forall>k \<in> fst ` set (rp_rows rs). key_ok k)"

text \<open>A receipt stays, or goes and leaves a floor above it; a floor stays.\<close>

definition keeps_receipts :: "receipt_store \<Rightarrow> receipt_store \<Rightarrow> bool" where
  "keeps_receipts rs rs' \<longleftrightarrow> (\<forall>k. covered k rs \<longrightarrow> covered k rs') \<and>
     (\<forall>k ts. receipted k ts rs \<longrightarrow> receipted k ts rs' \<or> getClientVerdict k rs' = None \<and> covered k rs')"

lemma covered_iff: "covered (i, c, n) rs \<longleftrightarrow> (\<exists>f. getClientFloor i c rs = Some f \<and> n \<le> f)"
  by (auto simp: covered_def classify_floor_def split: option.splits)

lemma verdict_insert: "getClientVerdict k' (insert_receipt k r rs) =
    (case getClientVerdict k' rs of Some x \<Rightarrow> Some x | None \<Rightarrow> if k' = k then Some r else None)"
  by (simp add: getClientVerdict_def insert_receipt_def map_add_def split: option.split)

lemma covered_frame: "rp_floors rs' = rp_floors rs \<Longrightarrow> covered k rs' = covered k rs"
  by (simp add: covered_def classify_floor_def getClientFloor_def)

lemma insert_keeps:
  assumes "getClientVerdict k rs = None" "rows_ok rs" "key_ok k"
  shows "keeps_receipts rs (insert_receipt k r rs) \<and> rows_ok (insert_receipt k r rs)"
proof -
  have "k \<notin> fst ` set (rp_rows rs)" using assms(1) by (simp add: getClientVerdict_def map_of_eq_None_iff)
  then have "rows_ok (insert_receipt k r rs)" using assms(2,3) by (auto simp: rows_ok_def insert_receipt_def)
  moreover have "covered k' (insert_receipt k r rs) = covered k' rs" for k' by (rule covered_frame) (simp add: insert_receipt_def)
  ultimately show ?thesis by (auto simp: keeps_receipts_def receipted_def verdict_insert)
qed

lemma keeps_refl [simp]: "keeps_receipts rs rs"
  by (simp add: keeps_receipts_def)

lemma record_keeps_receipts:
  assumes "rows_ok rs" "key_ok k"
  shows "keeps_receipts rs (recordClientVerdict bytes now k w rs) \<and> rows_ok (recordClientVerdict bytes now k w rs)"
  using assms insert_keeps by (simp add: recordClientVerdict_def)

lemma update_keeps: "rows_ok rs \<Longrightarrow> keeps_receipts rs (updateClientVerdictValue bytes k v rs) \<and> rows_ok (updateClientVerdictValue bytes k v rs)"
proof -
  have "fst ` set (AList.map_entry k f al) = fst ` set al" for f :: "client_receipt \<Rightarrow> client_receipt" and al :: "(receipt_key, client_receipt) jsmap"
    by (metis keys_map_entry list.set_map)
  moreover have "getClientVerdict k' (updateClientVerdictValue bytes k v rs) =
      (if k' = k then map_option (\<lambda>r. r\<lparr>rp_value := cappedValueJson bytes (Some v)\<rparr>) (getClientVerdict k rs) else getClientVerdict k' rs)" for k'
    by (simp add: getClientVerdict_def updateClientVerdictValue_def map_of_map_entry)
  moreover have "covered k' (updateClientVerdictValue bytes k v rs) = covered k' rs" for k'
    by (simp add: covered_def classify_floor_def getClientFloor_def updateClientVerdictValue_def)
  ultimately show "rows_ok rs \<Longrightarrow> ?thesis" by (auto simp: keeps_receipts_def rows_ok_def receipted_def updateClientVerdictValue_def)
qed

lemma after_run_keeps:
  assumes "after_run bytes now fails k outcome rs = (rs', x)" "rows_ok rs" "key_ok k"
  shows "keeps_receipts rs rs' \<and> rows_ok rs'"
  using assms record_keeps_receipts[OF assms(2,3)] update_keeps[OF assms(2), where k = k]
  by (auto simp: after_run_def handleDedupError_def recordZeroWriteApplied_def fillWriteMutationValue_def
      split: run_outcome.splits js_error.splits if_splits option.splits prod.splits)

section \<open>Prunes and sweeps\<close>

lemma raise_covered: "covered (i, c, n) (raise_floor cl m now rs) \<longleftrightarrow> covered (i, c, n) rs \<or> (i, c) = cl \<and> n \<le> m"
  by (auto simp: covered_iff raise_floor_def getClientFloor_def update_conv' split: option.splits)

lemma raise_verdict [simp]: "getClientVerdict k (raise_floor cl m now rs) = getClientVerdict k rs" "rp_rows (raise_floor cl m now rs) = rp_rows rs"
  by (simp_all add: getClientVerdict_def raise_floor_def)

text \<open>Dropping rows a floor covers afterwards loses nothing.\<close>

lemma drop_keeps:
  assumes ok: "rows_ok rs" and rows: "rp_rows rs' = filter (\<lambda>e. \<not> dead e) (rp_rows rs)"
    and floors: "\<And>k. covered k rs \<Longrightarrow> covered k rs'" and gone: "\<And>k r. (k, r) \<in> set (rp_rows rs) \<Longrightarrow> dead (k, r) \<Longrightarrow> covered k rs'"
  shows "keeps_receipts rs rs' \<and> rows_ok rs'"
proof -
  have d: "distinct (map fst (rp_rows rs))" using ok by (simp add: rows_ok_def)
  have v: "getClientVerdict k rs' = (case getClientVerdict k rs of None \<Rightarrow> None | Some r \<Rightarrow> if dead (k, r) then None else Some r)" for k
    using map_of_filter_key[OF d] by (auto simp: getClientVerdict_def rows split: option.split)
  have "receipted k ts rs' \<or> getClientVerdict k rs' = None \<and> covered k rs'" if before: "receipted k ts rs" for k ts
  proof -
    obtain r where r: "getClientVerdict k rs = Some r" "rp_verdict r = StoredApplied" "rp_commitTs r = ts" using before by (auto simp: receipted_def)
    then have "(k, r) \<in> set (rp_rows rs)" by (auto simp: getClientVerdict_def dest: map_of_SomeD)
    then show ?thesis using r gone by (cases "dead (k, r)") (auto simp: receipted_def v)
  qed
  moreover have "rows_ok rs'" using ok by (auto simp: rows_ok_def rows distinct_map_filter)
  ultimately show ?thesis using floors by (simp add: keeps_receipts_def)
qed

lemma max_seq_upper: "n \<in> set ns \<Longrightarrow> \<exists>m. max_seq ns = Some m \<and> n \<le> m"
proof (induction ns rule: rev_induct)
  case (snoc x ns)
  then show ?case by (cases "max_seq ns") (auto simp: max_seq_def)
qed simp

lemma prune_keeps:
  assumes "rows_ok rs"
  shows "keeps_receipts rs (fst (pruneClientMutations now identity client ack ttl rs)) \<and>
    rows_ok (fst (pruneClientMutations now identity client ack ttl rs))"
proof -
  let ?dead = "\<lambda>((i, c, n), r). i = identity \<and> c = client \<and> prunable ack ttl n r"
  let ?rs = "fst (pruneClientMutations now identity client ack ttl rs)"
  let ?candidate = "maxCandidate ack (max_seq (map (\<lambda>((_, _, n), _). n) (filter ?dead (rp_rows rs))))"
  show ?thesis
  proof (rule drop_keeps[OF assms, where dead = ?dead])
    show "rp_rows ?rs = filter (\<lambda>e. \<not> ?dead e) (rp_rows rs)"
      by (auto simp: pruneClientMutations_def Let_def split: option.split)
    have same: "covered k (rs\<lparr>rp_rows := xs\<rparr>) = covered k rs" for k xs by (rule covered_frame) simp
    show "covered k ?rs" if "covered k rs" for k
      using that by (cases k) (auto simp: pruneClientMutations_def Let_def raise_covered same split: option.split)
    fix k r assume row: "(k, r) \<in> set (rp_rows rs)" and dead: "?dead (k, r)"
    obtain n where k: "k = (identity, client, n)" using dead by (cases k) auto
    have "n \<in> set (map (\<lambda>((_, _, n), _). n) (filter ?dead (rp_rows rs)))" using row dead k by force
    then obtain m' where "max_seq (map (\<lambda>((_, _, n), _). n) (filter ?dead (rp_rows rs))) = Some m'" "n \<le> m'"
      using max_seq_upper by blast
    then have "\<exists>m. ?candidate = Some m \<and> n \<le> m" by (cases ack) (auto simp: maxCandidate_def)
    then obtain m where m: "?candidate = Some m" "n \<le> m" by blast
    have "0 \<le> n" using assms row k by (force simp: rows_ok_def key_ok_def)
    show "covered k ?rs"
    proof (cases "\<exists>f. getClientFloor identity client rs = Some f \<and> m \<le> f")
      case True
      then have "covered k rs" using m(2) k by (fastforce simp: covered_iff)
      then show ?thesis using True m(1) by (auto simp: pruneClientMutations_def Let_def same)
    next
      case False
      then have "?rs = raise_floor (identity, client) m now (rs\<lparr>rp_rows := filter (\<lambda>e. \<not> ?dead e) (rp_rows rs)\<rparr>)"
        using m \<open>0 \<le> n\<close> by (auto simp: pruneClientMutations_def Let_def split: option.split)
      then show ?thesis using m(2) by (simp add: k raise_covered)
    qed
  qed
qed

lemma append_NUL: "0 \<notin> set a \<Longrightarrow> 0 \<notin> set b \<Longrightarrow> a @ 0 # c = b @ 0 # d \<Longrightarrow> a = b \<and> c = (d :: jsstring)"
proof (induction a arbitrary: b)
  case Nil
  then show ?case by (cases b) auto
next
  case (Cons x a)
  then show ?case by (cases b) auto
qed

text \<open>What the grouping of a sweep knows: per client, a bound of the sequence numbers met.\<close>

definition groups_ok :: "(jsstring, (jsstring \<times> jsstring) \<times> int) jsmap \<Rightarrow> (receipt_key \<times> client_receipt) list \<Rightarrow> bool" where
  "groups_ok m es \<longleftrightarrow> (\<forall>t i c x. map_of m t = Some ((i, c), x) \<longrightarrow> t = client_text i c \<and> 0 \<notin> set i) \<and>
     (\<forall>i c n r. ((i, c, n), r) \<in> set es \<longrightarrow> (\<exists>x. map_of m (client_text i c) = Some ((i, c), x) \<and> n \<le> x))"

lemma sweep_group_ok:
  assumes "groups_ok m es" "key_ok (fst e)"
  shows "groups_ok (sweep_group m e) (es @ [e])"
proof -
  obtain i c n r where e: "e = ((i, c, n), r)" by (metis prod.exhaust)
  have i: "0 \<notin> set i" using assms(2) by (simp add: e key_ok_def)
  have inj: "i' = i \<and> c' = c" if "client_text i' c' = client_text i c" "0 \<notin> set i'" for i' c'
    using append_NUL[OF that(2) i] that(1) by (simp add: client_text_def)
  have upd: "groups_ok (AList.update (client_text i c) ((i, c), n) m) (es @ [e])"
    if le: "\<And>y. map_of m (client_text i c) = Some ((i, c), y) \<Longrightarrow> y \<le> n"
    unfolding groups_ok_def
  proof (intro conjI allI impI)
    fix a b k s assume in1: "((a, b, k), s) \<in> set (es @ [e])"
    show "\<exists>y. map_of (AList.update (client_text i c) ((i, c), n) m) (client_text a b) = Some ((a, b), y) \<and> k \<le> y"
    proof (cases "((a, b, k), s) \<in> set es")
      case True
      then obtain y where y: "map_of m (client_text a b) = Some ((a, b), y)" "k \<le> y" using assms(1) unfolding groups_ok_def by blast
      then have "0 \<notin> set a" using assms(1) unfolding groups_ok_def by blast
      then show ?thesis using y le inj[of a b] by (cases "client_text a b = client_text i c") (auto simp: update_conv')
    qed (use in1 in \<open>auto simp: e update_conv'\<close>)
  next
    fix t a b x assume "map_of (AList.update (client_text i c) ((i, c), n) m) t = Some ((a, b), x)"
    then show "t = client_text a b" "0 \<notin> set a" using assms(1) i unfolding groups_ok_def by (auto simp: update_conv' split: if_splits)
  qed
  show ?thesis
  proof (cases "map_of m (client_text i c)")
    case None
    then show ?thesis using upd by (simp add: sweep_group_def e)
  next
    case (Some v)
    obtain i' c' x where v: "v = ((i', c'), x)" by (metis prod.exhaust)
    then have "client_text i c = client_text i' c'" "0 \<notin> set i'" using assms(1) Some unfolding groups_ok_def by blast+
    then have same: "i' = i" "c' = c" using inj by auto
    show ?thesis
    proof (cases "n > x")
      case True
      then show ?thesis using upd Some v same by (simp add: sweep_group_def e)
    next
      case False
      then have "sweep_group m e = m" by (simp add: sweep_group_def e Some v)
      then show ?thesis using assms(1) Some v same False unfolding groups_ok_def by (auto simp: e)
    qed
  qed
qed

lemma sweep_groups_ok: "(\<forall>e \<in> set es. key_ok (fst e)) \<Longrightarrow> groups_ok (foldl sweep_group [] es) es"
proof (induction es rule: rev_induct)
  case (snoc e es)
  then show ?case using sweep_group_ok by simp
qed (simp add: groups_ok_def)

lemma raise_all:
  "rp_rows (fold (\<lambda>(_, (c, n)). raise_floor c n now) m rs) = rp_rows rs \<and>
   (covered (i, c, n) (fold (\<lambda>(_, (c, n)). raise_floor c n now) m rs) \<longleftrightarrow>
     covered (i, c, n) rs \<or> (\<exists>t x. (t, ((i, c), x)) \<in> set m \<and> n \<le> x))"
  by (induction m arbitrary: rs) (auto simp: raise_covered split: prod.splits)

lemma sweep_keeps:
  assumes "rows_ok rs"
  shows "keeps_receipts rs (fst (sweepExpiredClientMutations now beforeMs rs)) \<and> rows_ok (fst (sweepExpiredClientMutations now beforeMs rs))"
proof -
  let ?dead = "\<lambda>(_ :: receipt_key, r). rp_createdAt r < beforeMs"
  let ?ds = "filter ?dead (rp_rows rs)"
  let ?rs = "fst (sweepExpiredClientMutations now beforeMs rs)"
  let ?rs1 = "rs\<lparr>rp_rows := filter (\<lambda>(_, r). \<not> rp_createdAt r < beforeMs) (rp_rows rs)\<rparr>"
  have same: "covered k ?rs1 = covered k rs" for k by (rule covered_frame) simp
  have rs: "?rs = (if ?ds = [] then ?rs1 else fold (\<lambda>(_, (c, n)). raise_floor c n now) (foldl sweep_group [] ?ds) ?rs1)"
    by (simp add: sweepExpiredClientMutations_def Let_def)
  show ?thesis
  proof (rule drop_keeps[OF assms, where dead = ?dead])
    show "rp_rows ?rs = filter (\<lambda>e. \<not> ?dead e) (rp_rows rs)" 
    proof -
      have "filter (\<lambda>(_, r). \<not> rp_createdAt r < beforeMs) (rp_rows rs) = filter (\<lambda>e. \<not> ?dead e) (rp_rows rs)" by (simp add: case_prod_unfold)
      then show ?thesis by (simp add: rs raise_all)
    qed
    show "covered k ?rs" if "covered k rs" for k using that same by (cases k) (simp add: rs raise_all)
    fix k r assume row: "(k, r) \<in> set (rp_rows rs)" and dead: "?dead (k, r)"
    obtain i c n where k: "k = (i, c, n)" by (metis prod.exhaust)
    have "\<forall>e \<in> set ?ds. key_ok (fst e)" using assms by (auto simp: rows_ok_def)
    then have "groups_ok (foldl sweep_group [] ?ds) ?ds" by (rule sweep_groups_ok)
    moreover have "((i, c, n), r) \<in> set ?ds" using row dead k by simp
    ultimately obtain x where "map_of (foldl sweep_group [] ?ds) (client_text i c) = Some ((i, c), x)" "n \<le> x"
      unfolding groups_ok_def by meson
    moreover have "?ds \<noteq> []" using row dead by (auto simp: filter_empty_conv)
    ultimately show "covered k ?rs" by (auto simp: rs raise_all k dest: map_of_SomeD)
  qed
qed

section \<open>At most once\<close>

definition once_inv :: "once_sys \<Rightarrow> bool" where
  "once_inv s \<longleftrightarrow> distinct (map fst (os_landed s)) \<and> rows_ok (os_receipts s) \<and>
     (\<forall>t a. map_of (os_attempts s) t = Some a \<longrightarrow> key_ok (attempt_key a)) \<and>
     (\<forall>(k, ts) \<in> set (os_landed s). receipted k ts (os_receipts s) \<or>
        covered k (os_receipts s) \<and> (\<forall>t a. map_of (os_attempts s) t = Some a \<longrightarrow> attempt_key a = k \<longrightarrow> at_phase a \<noteq> Running))"

text \<open>The two ways an invariant state changes: attempts move on, and receipts change.\<close>

lemma attempts_inv:
  assumes "once_inv s" and "os_landed s' = os_landed s" "os_receipts s' = os_receipts s"
    and "\<And>t a. map_of (os_attempts s') t = Some a \<Longrightarrow> key_ok (attempt_key a) \<and>
      (at_phase a = Running \<longrightarrow> \<not> covered (attempt_key a) (os_receipts s) \<or>
        (\<exists>t b. map_of (os_attempts s) t = Some b \<and> attempt_key b = attempt_key a \<and> at_phase b = Running))"
  shows "once_inv s'"
proof -
  have "receipted k ts (os_receipts s) \<or>
      covered k (os_receipts s) \<and> (\<forall>t a. map_of (os_attempts s') t = Some a \<longrightarrow> attempt_key a = k \<longrightarrow> at_phase a \<noteq> Running)"
    if "(k, ts) \<in> set (os_landed s)" for k ts
  proof (cases "receipted k ts (os_receipts s)")
    case False
    then have "covered k (os_receipts s)" "\<And>t a. map_of (os_attempts s) t = Some a \<Longrightarrow> attempt_key a = k \<Longrightarrow> at_phase a \<noteq> Running"
      using assms(1) that unfolding once_inv_def by blast+
    then show ?thesis using assms(4) by blast
  qed simp
  then show ?thesis using assms(1,4) unfolding once_inv_def assms(2,3) by blast
qed

lemma receipts_inv:
  assumes inv: "once_inv s" and keep: "keeps_receipts (os_receipts s) rs" "rows_ok rs"
    and "\<And>t a. map_of (os_attempts s) t = Some a \<Longrightarrow> at_phase a = Running \<Longrightarrow> getClientVerdict (attempt_key a) (os_receipts s) \<noteq> None \<Longrightarrow>
      getClientVerdict (attempt_key a) rs \<noteq> None"
  shows "once_inv (s\<lparr>os_receipts := rs\<rparr>)"
proof -
  have "receipted k ts rs \<or> covered k rs \<and> (\<forall>t a. map_of (os_attempts s) t = Some a \<longrightarrow> attempt_key a = k \<longrightarrow> at_phase a \<noteq> Running)"
    if "(k, ts) \<in> set (os_landed s)" for k ts
  proof (cases "receipted k ts (os_receipts s)")
    case True
    then have some: "getClientVerdict k (os_receipts s) \<noteq> None" by (auto simp: receipted_def)
    have "receipted k ts rs \<or> getClientVerdict k rs = None \<and> covered k rs" using keep(1) True unfolding keeps_receipts_def by blast
    then show ?thesis using assms(4) some by blast
  next
    case False
    then show ?thesis using inv that keep(1) unfolding once_inv_def keeps_receipts_def by blast
  qed
  then have "\<forall>(k, ts) \<in> set (os_landed s). receipted k ts rs \<or>
      covered k rs \<and> (\<forall>t a. map_of (os_attempts s) t = Some a \<longrightarrow> attempt_key a = k \<longrightarrow> at_phase a \<noteq> Running)" by blast
  then show ?thesis using inv keep(2) unfolding once_inv_def by simp
qed

lemma phase_inv:
  assumes "once_inv s" "map_of (os_attempts s) t = Some a" "p = Running \<Longrightarrow> \<not> covered (attempt_key a) (os_receipts s)"
  shows "once_inv (set_phase t p s)"
proof (rule attempts_inv[OF assms(1)])
  fix t' b assume b: "map_of (os_attempts (set_phase t p s)) t' = Some b"
  show "key_ok (attempt_key b) \<and> (at_phase b = Running \<longrightarrow> \<not> covered (attempt_key b) (os_receipts s) \<or>
      (\<exists>t c. map_of (os_attempts s) t = Some c \<and> attempt_key c = attempt_key b \<and> at_phase c = Running))"
  proof (cases "t' = t")
    case True
    then have "b = a\<lparr>at_phase := p\<rparr>" using b assms(2) by (simp add: set_phase_def map_of_map_entry)
    then show ?thesis using assms by (auto simp: once_inv_def attempt_key_def)
  next
    case False
    then show ?thesis using b assms(1) by (auto simp: set_phase_def map_of_map_entry once_inv_def)
  qed
qed (simp_all add: set_phase_def)

lemma drop_inv: "once_inv s \<Longrightarrow> once_inv (s\<lparr>os_attempts := AList.delete t (os_attempts s), os_answers := x\<rparr>)"
  by (rule attempts_inv) (auto simp: delete_conv' once_inv_def split: if_splits)

lemma set_phase_landed:
  "map_of (os_attempts (landing ts s)) t = Some a \<Longrightarrow>
     \<exists>b. map_of (os_attempts s) t = Some b \<and> attempt_key a = attempt_key b \<and> (at_phase a = Running \<longrightarrow> at_phase b = Running)"
proof (induction ts arbitrary: s)
  case (Cons x ts)
  obtain u y where x: "x = (u, y)" by fastforce
  obtain b where b: "map_of (os_attempts (case u of None \<Rightarrow> s | Some t \<Rightarrow> set_phase t (Landed y) s)) t = Some b"
      "attempt_key a = attempt_key b" "at_phase a = Running \<longrightarrow> at_phase b = Running"
    using Cons.IH[of "case u of None \<Rightarrow> s | Some t \<Rightarrow> set_phase t (Landed y) s"] Cons.prems by (auto simp: landing_def x split: option.splits)
  then show ?case
    by (cases u) (auto simp: set_phase_def map_of_map_entry attempt_key_def split: if_splits)
qed (auto simp: landing_def)

lemma landing_frame [simp]: "os_landed (landing ts s) = os_landed s" "os_receipts (landing ts s) = os_receipts s"
proof -
  have "os_landed (landing ts s) = os_landed s \<and> os_receipts (landing ts s) = os_receipts s"
    by (induction ts arbitrary: s) (auto simp: landing_def set_phase_def split: option.splits)
  then show "os_landed (landing ts s) = os_landed s" "os_receipts (landing ts s) = os_receipts s" by simp_all
qed

lemma readUnitDedup_ts: "readUnitDedup \<lparr>gu_ts = x, gu_meta = m\<rparr> = readUnitDedup \<lparr>gu_ts = y, gu_meta = m\<rparr>"
  by (simp add: readUnitDedup_def)

text \<open>Every keyed unit of a commit belongs to a running attempt.\<close>

lemma keyed_unit_running:
  assumes "list_all (\<lambda>(t, u). unit_of s t u) es" "(k, ts) \<in> set (keyed_units (guard_units tss (map snd es)))"
  shows "\<exists>t a. map_of (os_attempts s) t = Some a \<and> attempt_key a = k \<and> at_phase a = Running"
proof -
  obtain g where g: "g \<in> set (guard_units tss (map snd es))" and k: "(k, ts) \<in> set (case readUnitDedup g of Some (i, c, Some n) \<Rightarrow> [((i, c, n), gu_ts g)] | _ \<Rightarrow> [])"
    using assms(2) by (auto simp: keyed_units_def)
  obtain x u where g2: "g = \<lparr>gu_ts = x, gu_meta = cu_meta u\<rparr>" and "u \<in> snd ` set es"
    using g by (auto simp: guard_units_def dest: set_zip_rightD)
  then obtain t where "unit_of s t u" using assms(1) by (auto simp: list_all_iff)
  then show ?thesis
    using k by (cases t) (auto simp: unit_of_def g2 readUnitDedup_ts[of x _ 0] meta_key attempt_key_def receipt_of_def split: option.splits)
qed

lemma land_inv:
  assumes inv: "once_inv s" and units: "list_all (\<lambda>(t, u). unit_of s t u) es"
    and guard: "receipts_guard now 0 (guard_units tss (map snd es)) (os_receipts s) = Inr rs"
  shows "once_inv (landing ts (s\<lparr>os_docs := docs, os_receipts := rs, os_landed := os_landed s @ keyed_units (guard_units tss (map snd es))\<rparr>))"
proof -
  let ?new = "keyed_units (guard_units tss (map snd es))"
  let ?s = "s\<lparr>os_docs := docs, os_receipts := rs, os_landed := os_landed s @ ?new\<rparr>"
  define s1 where "s1 = landing ts ?s"
  have f: "os_landed s1 = os_landed s @ ?new" "os_receipts s1 = rs" by (simp_all add: s1_def)
  note g = guard_inserts[OF guard]
  note fresh = g[THEN conjunct2, THEN conjunct1, rule_format]
  have running: "\<exists>t a. map_of (os_attempts s) t = Some a \<and> attempt_key a = k \<and> at_phase a = Running" if "k \<in> fst ` set ?new" for k
    using keyed_unit_running[OF units, of k _ tss] that by fastforce
  have verdict: "getClientVerdict k rs = (case getClientVerdict k (os_receipts s) of Some r \<Rightarrow> Some r
      | None \<Rightarrow> map_option (applied_receipt now) (map_of ?new k))" for k
    using g by (simp add: getClientVerdict_def map_add_def map_of_map split: option.split)
  have cov: "covered k rs = covered k (os_receipts s)" for k by (rule covered_frame) (use g in simp)
  have old: "k \<notin> fst ` set ?new" if "k \<in> fst ` set (os_landed s)" for k
  proof
    assume k: "k \<in> fst ` set ?new"
    then have "getClientVerdict k (os_receipts s) = None" by (rule fresh)
    then have "\<not> receipted k ts' (os_receipts s)" for ts' by (simp add: receipted_def)
    then show False using that inv running[OF k] unfolding once_inv_def by fastforce
  qed
  have attempts: "\<exists>b. map_of (os_attempts s) t = Some b \<and> attempt_key a = attempt_key b \<and> (at_phase a = Running \<longrightarrow> at_phase b = Running)"
    if "map_of (os_attempts s1) t = Some a" for t a
    using set_phase_landed[OF that[unfolded s1_def]] by simp
  have "receipted k x rs \<or> covered k rs \<and> (\<forall>t a. map_of (os_attempts s1) t = Some a \<longrightarrow> attempt_key a = k \<longrightarrow> at_phase a \<noteq> Running)"
    if "(k, x) \<in> set (os_landed s @ ?new)" for k x
  proof (cases "(k, x) \<in> set ?new")
    case True
    then have "map_of ?new k = Some x" using g by (meson map_of_is_SomeI)
    moreover have "getClientVerdict k (os_receipts s) = None" using True by (intro fresh) force
    ultimately show ?thesis by (simp add: receipted_def verdict applied_receipt_def)
  next
    case False
    then have "(k, x) \<in> set (os_landed s)" using that by simp
    then have "receipted k x (os_receipts s) \<or> covered k (os_receipts s) \<and>
        (\<forall>t a. map_of (os_attempts s) t = Some a \<longrightarrow> attempt_key a = k \<longrightarrow> at_phase a \<noteq> Running)"
      using inv unfolding once_inv_def by blast
    then show ?thesis
    proof
      assume "receipted k x (os_receipts s)"
      then show ?thesis by (auto simp: receipted_def verdict)
    qed (use attempts cov in metis)
  qed
  then have landed: "\<forall>(k, x) \<in> set (os_landed s1). receipted k x (os_receipts s1) \<or>
      covered k (os_receipts s1) \<and> (\<forall>t a. map_of (os_attempts s1) t = Some a \<longrightarrow> attempt_key a = k \<longrightarrow> at_phase a \<noteq> Running)"
    unfolding f by blast
  have "distinct (map fst (os_landed s @ ?new))" using inv g old by (auto simp: once_inv_def)
  moreover have "key_ok (attempt_key a)" if "map_of (os_attempts s1) t = Some a" for t a
    using attempts[OF that] inv by (auto simp: once_inv_def)
  moreover have "rows_ok rs"
  proof -
    have "key_ok k" if "k \<in> fst ` set ?new" for k using running[OF that] inv by (auto simp: once_inv_def)
    moreover have "k \<notin> fst ` set (rp_rows (os_receipts s))" if "k \<in> fst ` set ?new" for k
      using fresh[OF that] by (simp add: getClientVerdict_def map_of_eq_None_iff)
    then have "fst ` set (rp_rows (os_receipts s)) \<inter> fst ` set ?new = {}" by blast
    moreover have keys: "map fst (rp_rows rs) = map fst (rp_rows (os_receipts s)) @ map fst ?new" using g by (simp add: case_prod_unfold)
    moreover have "fst ` set (rp_rows rs) = fst ` set (rp_rows (os_receipts s)) \<union> fst ` set ?new"
      using arg_cong[OF keys, of set] by simp
    moreover have "rows_ok (os_receipts s)" using inv by (simp add: once_inv_def)
    moreover have "distinct (map fst ?new)" using g by blast
    ultimately show ?thesis by (auto simp: rows_ok_def)
  qed
  ultimately have "once_inv s1" using landed unfolding once_inv_def f by blast
  then show ?thesis by (simp only: s1_def)
qed

lemma record_verdicts: "getClientVerdict k' rs \<noteq> None \<Longrightarrow> getClientVerdict k' (recordClientVerdict bytes now k w rs) \<noteq> None"
  by (auto simp: recordClientVerdict_def verdict_insert)

lemma update_verdicts: "getClientVerdict k' rs \<noteq> None \<Longrightarrow> getClientVerdict k' (updateClientVerdictValue bytes k v rs) \<noteq> None"
  by (auto simp: getClientVerdict_def updateClientVerdictValue_def map_of_map_entry)

lemma after_run_verdicts:
  "after_run bytes now fails k outcome rs = (rs', x) \<Longrightarrow> getClientVerdict k' rs \<noteq> None \<Longrightarrow> getClientVerdict k' rs' \<noteq> None"
  using record_verdicts[of k' rs bytes now k] update_verdicts[of k' rs bytes k]
  by (auto simp: after_run_def handleDedupError_def recordZeroWriteApplied_def fillWriteMutationValue_def
      split: run_outcome.splits js_error.splits if_splits option.splits prod.splits)

lemma spares_verdict:
  assumes "spares_running s rs" "map_of (os_attempts s) t = Some a" "at_phase a = Running"
  shows "getClientVerdict (attempt_key a) rs = getClientVerdict (attempt_key a) (os_receipts s)"
proof -
  have "(t, a) \<in> set (os_attempts s)" using assms(2) by (rule map_of_SomeD)
  then show ?thesis using assms(1,3) by (auto simp: spares_running_def list_all_iff)
qed

lemma commit_receipted_guard:
  "commit_receipted now guards units shardId (docs, rs) = Inr (tss, docs', rs') \<Longrightarrow>
     receipts_guard now 0 (guard_units tss units) rs = Inr rs'"
  by (auto simp: commit_receipted_def guard_units_def res_bind_def split: sum.splits prod.splits)

lemma step_inv:
  assumes "once_inv s" "once_step True bytes s s'"
  shows "once_inv s'"
  using assms(2)
proof cases
  case (arrive t identity d base)
  show ?thesis
  proof (rule attempts_inv[OF assms(1)])
    fix t' a assume "map_of (os_attempts s') t' = Some a"
    then show "key_ok (attempt_key a) \<and> (at_phase a = Running \<longrightarrow> \<not> covered (attempt_key a) (os_receipts s) \<or>
        (\<exists>t b. map_of (os_attempts s) t = Some b \<and> attempt_key b = attempt_key a \<and> at_phase b = Running))"
      using arrive assms(1) by (auto simp: once_inv_def attempt_key_def receipt_of_def key_ok_def split: if_splits)
  qed (simp_all add: arrive(1))
next
  case (floor_miss t a)
  then show ?thesis using phase_inv[OF assms(1), of t a Running] by (simp add: covered_def)
next
  case (land es now guards shardId tss docs rs)
  show ?thesis unfolding land(1) by (rule land_inv[OF assms(1) land(2) commit_receipted_guard[OF land(3)]])
next
  case (finish t a outcome now fails rs x)
  have keys: "rows_ok (os_receipts s)" "key_ok (attempt_key a)" using assms(1) finish(2) by (auto simp: once_inv_def)
  have "once_inv (s\<lparr>os_receipts := rs\<rparr>)"
    by (rule receipts_inv[OF assms(1)]) (use after_run_keeps[OF finish(4) keys] after_run_verdicts[OF finish(4)] in blast)+
  then show ?thesis unfolding finish(1) answered_def using drop_inv by fastforce
next
  case (prune now identity client ack ttl rs)
  have keep: "keeps_receipts (os_receipts s) rs \<and> rows_ok rs"
    using prune_keeps[of "os_receipts s" now identity client ack ttl] assms(1) prune(2) by (simp add: once_inv_def)
  show ?thesis unfolding prune(1)
    by (rule receipts_inv[OF assms(1)]) (use keep spares_verdict[of s rs] prune(3) in auto)
next
  case (sweep now beforeMs rs)
  have keep: "keeps_receipts (os_receipts s) rs \<and> rows_ok rs"
    using sweep_keeps[of "os_receipts s" now beforeMs] assms(1) sweep(2) by (simp add: once_inv_def)
  show ?thesis unfolding sweep(1)
    by (rule receipts_inv[OF assms(1)]) (use keep spares_verdict[of s rs] sweep(3) in auto)
next
  case (crash t)
  then show ?thesis using drop_inv[OF assms(1), where t = t and x = "os_answers s"] by simp
qed (use assms(1) phase_inv drop_inv in \<open>auto simp: answered_def\<close>)

lemma reachable_inv: "once_reachable True bytes s \<Longrightarrow> once_inv s"
proof (induction rule: once_reachable.induct)
  case once_start
  then show ?case by (simp add: once_inv_def once_init_def rows_ok_def rp_empty_def)
next
  case (once_next s s')
  then show ?case using step_inv by blast
qed

lemma landed_answered:
  assumes "once_reachable True bytes s"
  shows "distinct (map fst (os_landed s)) \<and>
    (\<forall>(k, ts) \<in> set (os_landed s).
       (\<exists>r. classify_verdict k (os_receipts s) = Some r \<and> rv_verdict r = Applied \<and> rv_commitTs r = Some ts) \<or>
       classify_floor k (os_receipts s) = Some stale_replay)"
proof -
  have "classify_floor k rs = Some stale_replay" if "covered k rs" for k rs
    using that by (auto simp: covered_def classify_floor_def split: option.splits prod.splits if_splits)
  moreover have "\<exists>r. classify_verdict k rs = Some r \<and> rv_verdict r = Applied \<and> rv_commitTs r = Some ts" if "receipted k ts rs" for k ts rs
    using that by (auto simp: receipted_def classify_verdict_def replayFromRecord_def)
  ultimately show ?thesis using reachable_inv[OF assms] unfolding once_inv_def by blast
qed

section \<open>Runs that happen\<close>

text \<open>A key that was never seen, or was forgotten, runs and lands.\<close>

definition running_attempt :: "jsstring option \<Rightarrow> dedup_key \<Rightarrow> attempt" where
  "running_attempt identity d = \<lparr>at_identity = identity, at_dedup = d, at_base = None, at_phase = Running\<rparr>"

lemma starts:
  assumes s: "once_reachable quiet bytes s" and t: "map_of (os_attempts s) t = None"
    and key: "0 \<notin> set (identityKey identity)" "0 \<le> dk_seq d"
    and miss: "classifyDedup identity d (os_receipts s) = None"
  shows "once_reachable quiet bytes (s\<lparr>os_attempts := (t, running_attempt identity d) # os_attempts s\<rparr>)"
proof -
  have miss: "classify_verdict (receipt_of identity d) (os_receipts s) = None" "classify_floor (receipt_of identity d) (os_receipts s) = None"
    using miss by (auto simp: classifyDedup_def split: option.splits)
  let ?a = "\<lambda>p. \<lparr>at_identity = identity, at_dedup = d, at_base = None, at_phase = p\<rparr>"
  let ?s = "\<lambda>p. s\<lparr>os_attempts := (t, ?a p) # os_attempts s\<rparr>"
  have set: "set_phase t p (?s q) = ?s p" for p q by (simp add: set_phase_def)
  have "once_reachable quiet bytes (?s Asked)" using s by (rule once_next) (rule arrive[OF t key])
  then have "once_reachable quiet bytes (set_phase t Missed (?s Asked))"
    by (rule once_next) (rule verdict_miss[where a = "?a Asked"], simp_all add: attempt_key_def miss)
  then have "once_reachable quiet bytes (?s Missed)" by (simp only: set)
  then have "once_reachable quiet bytes (set_phase t Running (?s Missed))"
    by (rule once_next) (rule floor_miss[where a = "?a Missed"], simp_all add: attempt_key_def miss)
  then show ?thesis by (simp only: set running_attempt_def)
qed

lemma commits:
  assumes "gu_meta g = meta" "gu_ts g = maxTimestamp docs + 1" "receipts_guard now 0 [g] rs = Inr rs'"
  shows "\<exists>docs'. commit_receipted now [] [\<lparr>cu_documents = [\<lparr>le_ts = 0, le_id = i, le_value = v, le_prev_ts = None\<rparr>],
    cu_indexUpdates = [], cu_meta = meta\<rparr>] None (docs, rs) = Inr ([maxTimestamp docs + 1], docs', rs')"
proof -
  have g: "g = \<lparr>gu_ts = maxTimestamp docs + 1, gu_meta = meta\<rparr>" using assms(1,2) by simp
  have "\<not> list_ex (same_doc_key \<lparr>dr_table = tb, dr_iid = iid, dr_ts = maxTimestamp docs + 1, dr_prev = p, dr_value = x, dr_shard = sh\<rparr>)
      (ds_documents docs)" for tb iid p x sh
  proof -
    have "dr_ts r \<le> maxTimestamp docs" if "r \<in> set (ds_documents docs)" for r
      using that by (auto simp: maxTimestamp_def)
    then show ?thesis by (fastforce simp: list_ex_iff same_doc_key_def)
  qed
  then show ?thesis using assms(3)
    by (simp add: commit_receipted_def commitWriteBatch_def insertRows_def insert_doc_def row_of_entry_def Let_def
        clientReceiptsGuard_def g)
qed

lemma lands:
  assumes s: "once_reachable quiet bytes s" and t: "map_of (os_attempts s) t = Some a" "at_phase a = Running"
    and fresh: "getClientVerdict (attempt_key a) (os_receipts s) = None"
  shows "\<exists>docs ts. once_reachable quiet bytes (set_phase t (Landed ts) (s\<lparr>os_docs := docs,
    os_receipts := insert_receipt (attempt_key a) (applied_receipt 0 ts) (os_receipts s), os_landed := os_landed s @ [(attempt_key a, ts)]\<rparr>))"
proof -
  let ?meta = "Some (dedupCommitMeta (at_identity a) (at_dedup a) (at_base a))"
  let ?ts = "maxTimestamp (os_docs s) + 1"
  let ?u = "\<lparr>cu_documents = [\<lparr>le_ts = 0, le_id = \<lparr>tableNumber = 1, internalId = []\<rparr>, le_value = None, le_prev_ts = None\<rparr>],
    cu_indexUpdates = [], cu_meta = ?meta\<rparr>"
  have key: "readUnitDedup \<lparr>gu_ts = ?ts, gu_meta = ?meta\<rparr> = Some (identityKey (at_identity a), dk_clientId (at_dedup a), Some (dk_seq (at_dedup a)))"
    by (rule meta_key)
  have "receipts_guard 0 0 [\<lparr>gu_ts = ?ts, gu_meta = ?meta\<rparr>] (os_receipts s) =
      Inr (insert_receipt (attempt_key a) (applied_receipt 0 ?ts) (os_receipts s))"
    using fresh by (simp add: key attempt_key_def receipt_of_def applied_receipt_def)
  then obtain docs where c: "commit_receipted 0 [] [?u] None (os_docs s, os_receipts s) =
      Inr ([?ts], docs, insert_receipt (attempt_key a) (applied_receipt 0 ?ts) (os_receipts s))"
    using commits[where g = "\<lparr>gu_ts = ?ts, gu_meta = ?meta\<rparr>"] by fastforce
  have units: "list_all (\<lambda>(t, u). unit_of s t u) [(Some t, ?u)]" by (simp add: unit_of_def t)
  have landed: "keyed_units (guard_units [?ts] (map snd [(Some t, ?u)])) = [(attempt_key a, ?ts)]"
    by (simp add: guard_units_def keyed_units_Cons key attempt_key_def receipt_of_def)
  have "once_reachable quiet bytes (landing (zip (map fst [(Some t, ?u)]) [?ts]) (s\<lparr>os_docs := docs,
      os_receipts := insert_receipt (attempt_key a) (applied_receipt 0 ?ts) (os_receipts s),
      os_landed := os_landed s @ keyed_units (guard_units [?ts] (map snd [(Some t, ?u)]))\<rparr>))"
    by (rule once_next[OF s land[OF units]]) (use c in \<open>simp only: list.map snd_conv\<close>)
  then show ?thesis unfolding landed by (intro exI[of _ docs] exI[of _ ?ts]) (simp add: landing_def)
qed

section \<open>Properties\<close>

text \<open>C6. In any interleaving of attempts, commits, crashes, prunes and sweeps that deletes no receipt under a
  running attempt, a keyed mutation lands at most once, and sending it again once it has landed is answered
  \<open>applied\<close> with its own timestamp, or \<open>stale\<close>, and never runs it.\<close>

theorem landed_once:
  assumes "once_reachable True bytes s"
  shows "distinct (map fst (os_landed s)) \<and>
    (\<forall>(k, ts) \<in> set (os_landed s).
       (\<exists>r. classify_verdict k (os_receipts s) = Some r \<and> rv_verdict r = Applied \<and> rv_commitTs r = Some ts) \<or>
       classify_floor k (os_receipts s) = Some stale_replay)"
  by (rule landed_answered[OF assms])

definition sample_dedup :: dedup_key where
  "sample_dedup = \<lparr>dk_clientId = js ''c'', dk_seq = 1\<rparr>"

abbreviation sample_key :: receipt_key where
  "sample_key \<equiv> receipt_of None sample_dedup"

abbreviation sample_attempt :: attempt where
  "sample_attempt \<equiv> running_attempt None sample_dedup"

lemma sample_keys [simp]: "attempt_key sample_attempt = sample_key" "0 \<notin> set (identityKey None)" "0 \<le> dk_seq sample_dedup"
  "at_phase sample_attempt = Running" "attempt_key (sample_attempt\<lparr>at_phase := p\<rparr>) = sample_key"
  by (simp_all add: attempt_key_def running_attempt_def identityKey_def sample_dedup_def receipt_of_def)

text \<open>Two attempts with one key run, and one of them lands and answers.\<close>

lemma two_attempts:
  "\<exists>docs ts. once_reachable quiet bytes \<lparr>os_docs = docs,
     os_receipts = updateClientVerdictValue bytes sample_key (convexToJson VNull) (insert_receipt sample_key (applied_receipt 0 ts) rp_empty),
     os_attempts = [(0, sample_attempt)], os_landed = [(sample_key, ts)], os_answers = [(sample_key, AnswerRan VNull ts)]\<rparr>"
proof -
  have miss: "classifyDedup None sample_dedup rp_empty = None"
    by (simp add: classifyDedup_def classify_verdict_def classify_floor_def getClientVerdict_def getClientFloor_def rp_empty_def split: prod.splits)
  let ?s = "\<lambda>as. \<lparr>os_docs = ds_empty, os_receipts = rp_empty, os_attempts = as, os_landed = [], os_answers = []\<rparr>"
  have "once_reachable quiet bytes (?s [])" using once_start by (simp add: once_init_def)
  from starts[OF this, of 0 None sample_dedup] have "once_reachable quiet bytes (?s [(0, sample_attempt)])" using miss by simp
  from starts[OF this, of 1 None sample_dedup] have two: "once_reachable quiet bytes (?s [(1, sample_attempt), (0, sample_attempt)])" using miss by simp
  obtain docs ts where landed: "once_reachable quiet bytes \<lparr>os_docs = docs, os_receipts = insert_receipt sample_key (applied_receipt 0 ts) rp_empty,
      os_attempts = [(1, sample_attempt\<lparr>at_phase := Landed ts\<rparr>), (0, sample_attempt)], os_landed = [(sample_key, ts)], os_answers = []\<rparr>"
    using lands[OF two, of 1 sample_attempt] by (auto simp: set_phase_def getClientVerdict_def rp_empty_def)
  have "once_reachable quiet bytes (answered 1 (attempt_key (sample_attempt\<lparr>at_phase := Landed ts\<rparr>)) (AnswerRan VNull ts) (\<lparr>os_docs = docs,
      os_receipts = updateClientVerdictValue bytes sample_key (convexToJson VNull) (insert_receipt sample_key (applied_receipt 0 ts) rp_empty),
      os_attempts = [(1, sample_attempt\<lparr>at_phase := Landed ts\<rparr>), (0, sample_attempt)], os_landed = [(sample_key, ts)], os_answers = []\<rparr>))"
    using once_next[OF landed finish[where t = 1 and outcome = "RunReturned VNull True ts" and now = 0 and fails = False
      and a = "sample_attempt\<lparr>at_phase := Landed ts\<rparr>" and bytes = bytes]]
    by (simp add: after_run_def fillWriteMutationValue_def)
  then show ?thesis by (auto simp: answered_def)
qed

theorem landed_once_witness:
  "\<exists>s k ts. once_reachable True (\<lambda>_. 0) s \<and> (k, ts) \<in> set (os_landed s) \<and> distinct (map fst (os_landed s)) \<and>
     (\<exists>r. classify_verdict k (os_receipts s) = Some r \<and> rv_verdict r = Applied \<and> rv_commitTs r = Some ts)"
proof -
  obtain docs ts where s: "once_reachable True (\<lambda>_. 0) \<lparr>os_docs = docs,
     os_receipts = updateClientVerdictValue (\<lambda>_. 0) sample_key (convexToJson VNull) (insert_receipt sample_key (applied_receipt 0 ts) rp_empty),
     os_attempts = [(0, sample_attempt)], os_landed = [(sample_key, ts)], os_answers = [(sample_key, AnswerRan VNull ts)]\<rparr>"
    using two_attempts by blast
  have "classify_floor sample_key (updateClientVerdictValue (\<lambda>_. 0) sample_key (convexToJson VNull)
      (insert_receipt sample_key (applied_receipt 0 ts) rp_empty)) = None"
    by (simp add: classify_floor_def getClientFloor_def updateClientVerdictValue_def insert_receipt_def rp_empty_def split: prod.splits)
  then show ?thesis using s landed_once[OF s] by (intro exI conjI[OF s]) auto
qed

text \<open>C24. The guard does not read the floor: a duplicate still running when its key is acknowledged and pruned
  lands a second time, after the client was told the first result.\<close>

theorem pruned_in_flight_lands_twice:
  "\<exists>s k ts ts'. once_reachable False (\<lambda>_. 0) s \<and> os_answers s = [(k, AnswerRan VNull ts)] \<and>
     classify_floor k (os_receipts s) = Some stale_replay \<and> os_landed s = [(k, ts), (k, ts')]"
proof -
  obtain docs ts where "once_reachable False (\<lambda>_. 0) \<lparr>os_docs = docs,
     os_receipts = updateClientVerdictValue (\<lambda>_. 0) sample_key (convexToJson VNull) (insert_receipt sample_key (applied_receipt 0 ts) rp_empty),
     os_attempts = [(0, sample_attempt)], os_landed = [(sample_key, ts)], os_answers = [(sample_key, AnswerRan VNull ts)]\<rparr>" (is "once_reachable _ _ ?s")
    using two_attempts by blast
  then have "once_reachable False (\<lambda>_. 0) (?s\<lparr>os_receipts := fst (pruneClientMutations 0 [] (js ''c'') (Some 1) None (os_receipts ?s))\<rparr>)"
    by (rule once_next) (rule prune, simp_all)
  moreover have "fst (pruneClientMutations 0 [] (js ''c'') (Some 1) None (os_receipts ?s)) = \<lparr>rp_rows = [], rp_floors = [(([], js ''c''), (1, 0))]\<rparr>"
    by (simp add: pruneClientMutations_def updateClientVerdictValue_def insert_receipt_def rp_empty_def receipt_of_def identityKey_def
        sample_dedup_def prunable_def maxCandidate_def max_seq_def getClientFloor_def raise_floor_def)
  ultimately have pruned: "once_reachable False (\<lambda>_. 0) (?s\<lparr>os_receipts := \<lparr>rp_rows = [], rp_floors = [(([], js ''c''), (1, 0))]\<rparr>\<rparr>)" by simp
  obtain s where s: "once_reachable False (\<lambda>_. 0) s" "os_answers s = [(sample_key, AnswerRan VNull ts)]"
      "rp_floors (os_receipts s) = [(([], js ''c''), (1, 0))]" "\<exists>ts'. os_landed s = [(sample_key, ts), (sample_key, ts')]"
    using lands[OF pruned, of 0 sample_attempt] by (fastforce simp: set_phase_def getClientVerdict_def insert_receipt_def)
  moreover have "classify_floor sample_key (os_receipts s) = Some stale_replay"
    using s(3) by (simp add: classify_floor_def receipt_of_def identityKey_def sample_dedup_def getClientFloor_def)
  ultimately show ?thesis by blast
qed

text \<open>C25. A duplicate whose handler throws after the other copy has landed tells the client that the mutation
  failed, although it was applied and stays recorded as applied.\<close>

theorem one_mutation_two_verdicts:
  "\<exists>s k ts e. once_reachable True (\<lambda>_. 0) s \<and> \<not> me_retryable e \<and>
     os_answers s = [(k, AnswerRan VNull ts), (k, AnswerError e)] \<and> os_landed s = [(k, ts)] \<and> os_attempts s = [] \<and>
     map_option rv_verdict (classify_verdict k (os_receipts s)) = Some Applied"
proof -
  obtain docs ts where two: "once_reachable True (\<lambda>_. 0) \<lparr>os_docs = docs,
     os_receipts = updateClientVerdictValue (\<lambda>_. 0) sample_key (convexToJson VNull) (insert_receipt sample_key (applied_receipt 0 ts) rp_empty),
     os_attempts = [(0, sample_attempt)], os_landed = [(sample_key, ts)], os_answers = [(sample_key, AnswerRan VNull ts)]\<rparr>" (is "once_reachable _ _ ?s")
    using two_attempts by blast
  let ?e = "\<lparr>me_error = GenericError ''already exists'', me_retryable = False, me_code = None, me_committedTs = None\<rparr>"
  have "getClientVerdict sample_key (os_receipts ?s) \<noteq> None"
    by (simp add: getClientVerdict_def updateClientVerdictValue_def map_of_map_entry insert_receipt_def rp_empty_def)
  then have "after_run (\<lambda>_. 0) 0 False (attempt_key sample_attempt) (RunThrew ?e) (os_receipts ?s) = (os_receipts ?s, AnswerError ?e)"
    by (simp add: after_run_def handleDedupError_def recordClientVerdict_def)
  then have "once_reachable True (\<lambda>_. 0) (answered 0 (attempt_key sample_attempt) (AnswerError ?e) (?s\<lparr>os_receipts := os_receipts ?s\<rparr>))"
    by (intro once_next[OF two] finish[where outcome = "RunThrew ?e"]) auto
  moreover have "map_option rv_verdict (classify_verdict sample_key (os_receipts ?s)) = Some Applied"
    by (simp add: classify_verdict_def getClientVerdict_def updateClientVerdictValue_def map_of_map_entry insert_receipt_def rp_empty_def
        applied_receipt_def replayFromRecord_def)
  ultimately show ?thesis by (fastforce simp: answered_def)
qed

end
