(* ===== verification/Policy.thy ===== *)
theory Policy
  imports Query_Runtime
begin

text \<open>
  Row policies: \<^verbatim>\<open>packages/executor/src/policy.ts\<close>.  A predicate is a JavaScript object, so a
  \<^typ>\<open>jvalue\<close>; it is compiled to a filter the query engine applies after a scan.  The functions of the
  application that produce predicates, and the reader they are given, work on a state \<^typ>\<open>'s\<close> (the
  transaction).  Clauses the source resolves concurrently are resolved in their order.
\<close>

section \<open>Computations that may throw and leave their effects\<close>

type_synonym ('s, 'a) st_result = "'s \<Rightarrow> 's \<times> 'a result"

definition st_return :: "'a \<Rightarrow> ('s, 'a) st_result" where
  "st_return a = (\<lambda>s. (s, Inr a))"

definition st_throw :: "js_error \<Rightarrow> ('s, 'a) st_result" where
  "st_throw e = (\<lambda>s. (s, Inl e))"

definition st_lift :: "'a result \<Rightarrow> ('s, 'a) st_result" where
  "st_lift r = (\<lambda>s. (s, r))"

definition st_bind :: "('s, 'a) st_result \<Rightarrow> ('a \<Rightarrow> ('s, 'b) st_result) \<Rightarrow> ('s, 'b) st_result" where
  "st_bind m f = (\<lambda>s. case m s of (s', Inl e) \<Rightarrow> (s', Inl e) | (s', Inr a) \<Rightarrow> f a s')"

definition st_guard :: "bool \<Rightarrow> js_error \<Rightarrow> ('s, unit) st_result" where
  "st_guard ok e = (if ok then st_return () else st_throw e)"

fun st_map :: "('a \<Rightarrow> ('s, 'b) st_result) \<Rightarrow> 'a list \<Rightarrow> ('s, 'b list) st_result" where
  "st_map f [] s = (s, Inr [])"
| "st_map f (x # xs) s =
     (case f x s of
        (s1, Inl e) \<Rightarrow> (s1, Inl e)
      | (s1, Inr y) \<Rightarrow> (case st_map f xs s1 of (s2, Inl e) \<Rightarrow> (s2, Inl e) | (s2, Inr ys) \<Rightarrow> (s2, Inr (y # ys))))"

lemma st_simps [simp]:
  "st_return a s = (s, Inr a)" "st_throw e s = (s, Inl e)" "st_lift r s = (s, r)"
  "st_guard True e = st_return ()" "st_guard False e = st_throw e"
  by (simp_all add: st_return_def st_throw_def st_lift_def st_guard_def)

lemma st_bind_Inr_iff: "st_bind m f s = (s', Inr b) \<longleftrightarrow> (\<exists>s1 a. m s = (s1, Inr a) \<and> f a s1 = (s', Inr b))"
  by (auto simp: st_bind_def split: prod.splits sum.splits)

lemma st_guard_Inr_iff: "st_guard ok e s = (s', Inr u) \<longleftrightarrow> ok \<and> s' = s"
  by (auto simp: st_guard_def)

lemma st_map_cong [fundef_cong]:
  assumes "xs = ys" "s = t" "\<And>x u. x \<in> set ys \<Longrightarrow> f x u = g x u"
  shows "st_map f xs s = st_map g ys t"
proof -
  have "st_map f ys t = st_map g ys t" using assms(3)
    by (induction g ys t rule: st_map.induct) (auto split: prod.splits sum.splits)
  then show ?thesis by (simp add: assms(1,2))
qed

lemma st_bind_cong [fundef_cong]:
  assumes "s = t" "m t = m' t" "\<And>a u. m' t = (u, Inr a) \<Longrightarrow> f a u = g a u"
  shows "st_bind m f s = st_bind m' g t"
  using assms by (auto simp: st_bind_def split: prod.splits sum.splits)

text \<open>A computation that keeps what holds of the state, however it ends.\<close>

definition keeps :: "('s \<Rightarrow> bool) \<Rightarrow> ('s, 'a) st_result \<Rightarrow> bool" where
  "keeps I m \<longleftrightarrow> (\<forall>s. I s \<longrightarrow> I (fst (m s)))"

lemma keepsD: "keeps I m \<Longrightarrow> I s \<Longrightarrow> m s = (s', r) \<Longrightarrow> I s'"
  unfolding keeps_def by (metis fst_conv)

lemma keeps_simps [simp, intro]:
  "keeps I (st_return a)" "keeps I (st_throw e)" "keeps I (st_lift r)" "keeps I (st_guard ok e)"
  by (simp_all add: keeps_def st_guard_def)

lemma fst_bind: "fst (st_bind m f s) = (case m s of (s1, Inl e) \<Rightarrow> s1 | (s1, Inr a) \<Rightarrow> fst (f a s1))"
  by (simp add: st_bind_def split: prod.split sum.split)

lemma keeps_bind_at: "I (fst (m s)) \<Longrightarrow> (\<And>s1 a. m s = (s1, Inr a) \<Longrightarrow> I s1 \<Longrightarrow> I (fst (f a s1))) \<Longrightarrow> I (fst (st_bind m f s))"
  by (auto simp: fst_bind split: prod.splits sum.splits)

lemma keeps_bind: "keeps I m \<Longrightarrow> (\<And>a. keeps I (f a)) \<Longrightarrow> keeps I (st_bind m f)"
  unfolding keeps_def by (auto intro: keeps_bind_at)

lemma keeps_map_at: "I s \<Longrightarrow> (\<And>x u. x \<in> set xs \<Longrightarrow> I u \<Longrightarrow> I (fst (f x u))) \<Longrightarrow> I (fst (st_map f xs s))"
proof (induction f xs s rule: st_map.induct)
  case (2 f x xs s)
  have h: "I (fst (f x s))" using "2.prems" by simp
  show ?case
  proof (cases "f x s")
    case (Pair s1 r)
    then show ?thesis using h "2.IH"[OF Pair[symmetric]] "2.prems"(2) by (cases r) (auto split: prod.split sum.split)
  qed
qed simp

lemma st_map_Inr_iff:
  "st_map f xs s = (s', Inr ys) \<Longrightarrow> I s \<Longrightarrow> (\<And>x u. x \<in> set xs \<Longrightarrow> I u \<Longrightarrow> I (fst (f x u))) \<Longrightarrow>
     length ys = length xs \<and> (\<forall>i < length xs. \<exists>u u'. I u \<and> f (xs ! i) u = (u', Inr (ys ! i)))"
proof (induction f xs s arbitrary: ys s' rule: st_map.induct)
  case (2 f x xs s)
  from "2.prems"(1) obtain s1 y ys' where h: "f x s = (s1, Inr y)" "st_map f xs s1 = (s', Inr ys')" "ys = y # ys'"
    by (auto split: prod.splits sum.splits)
  have "I s1" using "2.prems"(3)[of x s] "2.prems"(2) h(1) by simp
  from "2.IH"[OF h(1)[symmetric] refl h(2) this] h "2.prems" show ?case by (fastforce simp: nth_Cons split: nat.splits)
qed simp

section \<open>Predicates\<close>

definition ALWAYS_TRUE :: filter_expr where
  "ALWAYS_TRUE = FAnd []"

definition ALWAYS_FALSE :: filter_expr where
  "ALWAYS_FALSE = FOr []"

definition js_prop :: "jvalue \<Rightarrow> jsstring \<Rightarrow> jvalue option" where
  "js_prop n k = (case n of VObj es \<Rightarrow> map_of es k | _ \<Rightarrow> None)"

text \<open>\<^verbatim>\<open>n[k]\<close> where it is an array.\<close>

definition array_prop :: "jvalue \<Rightarrow> jsstring \<Rightarrow> jvalue list option" where
  "array_prop n k = (case js_prop n k of Some (VArr cs) \<Rightarrow> Some cs | _ \<Rightarrow> None)"

definition bool_value :: "jvalue \<Rightarrow> bool option" where
  "bool_value v = (case v of VBool b \<Rightarrow> Some b | _ \<Rightarrow> None)"

fun number_from :: "nat \<Rightarrow> 'a list \<Rightarrow> (jsstring \<times> 'a) list" where
  "number_from i [] = []"
| "number_from i (x # xs) = (int_dec (int i), x) # number_from (Suc i) xs"

text \<open>\<^verbatim>\<open>Object.entries\<close> of anything but null.\<close>

definition js_entries :: "jvalue \<Rightarrow> (jsstring \<times> jvalue) list" where
  "js_entries n =
     (case n of
        VObj es \<Rightarrow> es
      | VArr xs \<Rightarrow> number_from 0 xs
      | VStr s \<Rightarrow> number_from 0 (map (\<lambda>c. VStr [c]) s)
      | _ \<Rightarrow> [])"

definition js_truthy :: "jvalue \<Rightarrow> bool" where
  "js_truthy v =
     (case v of
        VNull \<Rightarrow> False | VBool b \<Rightarrow> b | VNum n \<Rightarrow> \<not> f64_is_nan n \<and> f64_scaled n \<noteq> 0 | VBigInt i \<Rightarrow> i \<noteq> 0 | VStr s \<Rightarrow> s \<noteq> []
      | _ \<Rightarrow> True)"

definition one_or_and :: "filter_expr list \<Rightarrow> filter_expr" where
  "one_or_and clauses = (case clauses of [] \<Rightarrow> ALWAYS_TRUE | [c] \<Rightarrow> c | _ \<Rightarrow> FAnd clauses)"

definition KNOWN_FIELD_OPS :: "jsstring list" where
  "KNOWN_FIELD_OPS = map js [''eq'', ''ne'', ''lt'', ''lte'', ''gt'', ''gte'', ''in'', ''notIn'', ''isNull'']"

definition RELATION_KEYS :: "jsstring list" where
  "RELATION_KEYS = map js [''some'', ''none'', ''every'', ''is'', ''isNot'']"

definition has_relation_key :: "(jsstring \<times> jvalue) list \<Rightarrow> bool" where
  "has_relation_key ops = list_ex (\<lambda>k. map_of ops k \<noteq> None) RELATION_KEYS"

definition compare_op :: "(jsstring \<times> jvalue) list \<Rightarrow> string \<Rightarrow> comparison_op \<Rightarrow> jsstring \<Rightarrow> filter_expr list" where
  "compare_op ops name op field = (case map_of ops (js name) of None \<Rightarrow> [] | Some v \<Rightarrow> [FCompare op field v])"

definition list_op ::
  "(jsstring \<times> jvalue) list \<Rightarrow> string \<Rightarrow> (filter_expr list \<Rightarrow> filter_expr) \<Rightarrow> comparison_op \<Rightarrow> jsstring \<Rightarrow> filter_expr list result" where
  "list_op ops name junction op field =
     (case map_of ops (js name) of
        None \<Rightarrow> Inr []
      | Some (VArr vs) \<Rightarrow> Inr [junction (map (FCompare op field) vs)]
      | Some _ \<Rightarrow> Inl (TypeError ''map is not a function''))"

definition null_op :: "(jsstring \<times> jvalue) list \<Rightarrow> jsstring \<Rightarrow> filter_expr list" where
  "null_op ops field =
     (case map_of ops (js ''isNull'') of None \<Rightarrow> [] | Some v \<Rightarrow> [FCompare (if js_truthy v then OpEq else OpNeq) field VNull])"

definition compileField :: "jsstring \<Rightarrow> jvalue \<Rightarrow> filter_expr result" where
  "compileField field cond =
     (case cond of
        VObj ops \<Rightarrow>
          if has_relation_key ops then Inl (GenericError ''relation clause keys cannot appear in a field predicate'')
          else if \<not> list_all (\<lambda>(k, _). k \<in> set KNOWN_FIELD_OPS) ops then Inl (GenericError ''unknown field operator(s)'')
          else res_bind (list_op ops ''in'' FOr OpEq field) (\<lambda>ins.
               res_bind (list_op ops ''notIn'' FAnd OpNeq field) (\<lambda>notIns.
                 Inr (one_or_and
                   (compare_op ops ''eq'' OpEq field @ compare_op ops ''ne'' OpNeq field @ compare_op ops ''lt'' OpLt field @
                    compare_op ops ''lte'' OpLte field @ compare_op ops ''gt'' OpGt field @ compare_op ops ''gte'' OpGte field @
                    ins @ notIns @ null_op ops field))))
      | _ \<Rightarrow> Inr (FCompare OpEq field cond))"

lemma size_map_of: "map_of es k = Some v \<Longrightarrow> size v < size (VObj es)"
  by (rule size_VObj_elem) (rule map_of_SomeD)

lemma size_js_prop: "js_prop n k = Some v \<Longrightarrow> size v < size n"
  by (cases n) (auto simp: js_prop_def dest: size_map_of simp del: jvalue.size)

lemma size_array_prop: "array_prop n k = Some cs \<Longrightarrow> c \<in> set cs \<Longrightarrow> size c < size n"
  by (auto simp: array_prop_def dest!: size_js_prop size_VArr_elem simp del: jvalue.size split: option.splits jvalue.splits)

function compileNode :: "jvalue \<Rightarrow> filter_expr result" where
  "compileNode n =
     (if n = VNull then Inl (TypeError ''null'')
      else case array_prop n (js ''AND'') of
        Some cs \<Rightarrow> res_bind (res_map compileNode cs) (\<lambda>fs. Inr (FAnd fs))
      | None \<Rightarrow>
        (case array_prop n (js ''OR'') of
           Some cs \<Rightarrow> res_bind (res_map compileNode cs) (\<lambda>fs. Inr (FOr fs))
         | None \<Rightarrow>
           (case js_prop n (js ''NOT'') of
              Some w \<Rightarrow> res_bind (compileNode w) (\<lambda>f. Inr (FNot f))
            | None \<Rightarrow> res_bind (res_map (\<lambda>(field, cond). compileField field cond) (js_entries n)) (\<lambda>clauses. Inr (one_or_and clauses)))))"
  by pat_completeness auto

termination
proof (relation "measure size")
  show "wf (measure (size :: jvalue \<Rightarrow> nat))" by simp
qed (auto dest: size_js_prop size_array_prop)

declare compileNode.simps [simp del]

datatype policy_predicate = PpUndefined | PpBool bool | PpWhere jvalue

definition compileWhere :: "policy_predicate \<Rightarrow> filter_expr option result" where
  "compileWhere w =
     (case w of
        PpUndefined \<Rightarrow> Inr None
      | PpBool True \<Rightarrow> Inr None
      | PpBool False \<Rightarrow> Inr (Some ALWAYS_FALSE)
      | PpWhere n \<Rightarrow> res_bind (compileNode n) (\<lambda>f. Inr (Some f)))"

definition mergeReadPolicy :: "filter_expr list option \<Rightarrow> filter_expr option \<Rightarrow> filter_expr list" where
  "mergeReadPolicy existing policyExpr =
     (case policyExpr of None \<Rightarrow> or_default existing [] | Some e \<Rightarrow> or_default existing [] @ [e])"

section \<open>Relations\<close>

record relation_registry =
  rr_toMany :: "(jsstring, (jsstring, jsstring \<times> jsstring) jsmap) jsmap"
  rr_toOne :: "(jsstring, (jsstring, jsstring) jsmap) jsmap"

definition MAX_RELATION_DEPTH :: nat where
  "MAX_RELATION_DEPTH = 4"

text \<open>The clause of a relation predicate, in the order the source tests the keys.\<close>

definition relation_clause :: "jvalue \<Rightarrow> (jsstring \<times> jvalue) option" where
  "relation_clause cond =
     (case find (\<lambda>k. js_prop cond k \<noteq> None) RELATION_KEYS of
        None \<Rightarrow> None
      | Some k \<Rightarrow> map_option (\<lambda>leaf. (k, leaf)) (js_prop cond k))"

text \<open>What a JavaScript \<^verbatim>\<open>Set\<close> identifies; two decoded arrays or objects are never the same.\<close>

definition same_value_zero :: "jvalue \<Rightarrow> jvalue \<Rightarrow> bool" where
  "same_value_zero a b =
     (case a of
        VNum x \<Rightarrow> (case b of VNum y \<Rightarrow> compareNumbers x y = CEq | _ \<Rightarrow> False)
      | VArr _ \<Rightarrow> False | VObj _ \<Rightarrow> False | VBytes _ \<Rightarrow> False
      | _ \<Rightarrow> a = b)"

definition js_set_add :: "jvalue \<Rightarrow> jvalue list \<Rightarrow> jvalue list" where
  "js_set_add v ids = (if list_ex (same_value_zero v) ids then ids else ids @ [v])"

definition row_matches :: "filter_expr option \<Rightarrow> document \<Rightarrow> bool" where
  "row_matches leaf row = (case leaf of None \<Rightarrow> True | Some e \<Rightarrow> evaluateFilter row e)"

definition ids_of :: "(document \<Rightarrow> bool) \<Rightarrow> jsstring \<Rightarrow> document list \<Rightarrow> jvalue list" where
  "ids_of P field rows =
     foldl (\<lambda>ids row. if P row then (case map_of row field of None \<Rightarrow> ids | Some v \<Rightarrow> js_set_add v ids) else ids) [] rows"

definition single :: "jsstring \<Rightarrow> jvalue \<Rightarrow> jvalue" where
  "single key v = VObj [(key, v)]"

definition compile_or :: "jvalue \<Rightarrow> filter_expr \<Rightarrow> filter_expr result" where
  "compile_or w d = res_bind (compileWhere (PpWhere w)) (\<lambda>f. Inr (or_default f d))"

definition lookup2 :: "('a, ('b, 'c) jsmap) jsmap \<Rightarrow> 'a \<Rightarrow> 'b \<Rightarrow> 'c option" where
  "lookup2 m a b = (case map_of m a of None \<Rightarrow> None | Some m' \<Rightarrow> map_of m' b)"

lemma size_relation_clause: "relation_clause cond = Some (k, leaf) \<Longrightarrow> size leaf < size cond"
  by (auto simp: relation_clause_def dest: size_js_prop split: option.splits)

lemma size_number_from: "(k, x) \<in> set (number_from i xs) \<Longrightarrow> x \<in> set xs"
  by (induction i xs rule: number_from.induct) auto

lemma size_js_entries: "(k, c) \<in> set (js_entries n) \<Longrightarrow> size c \<le> size n"
  by (cases n) (auto simp: js_entries_def dest!: size_number_from dest: size_VArr_elem size_VObj_elem simp del: jvalue.size(15,16))

type_synonym 's fetch = "jsstring \<Rightarrow> ('s, document list) st_result"

text \<open>\<open>depth\<close> is the nesting of the enclosing relation clauses.\<close>

function resolveNode :: "'s fetch \<Rightarrow> relation_registry \<Rightarrow> nat \<Rightarrow> jsstring \<Rightarrow> jvalue \<Rightarrow> ('s, filter_expr) st_result"
  and resolveClause :: "'s fetch \<Rightarrow> relation_registry \<Rightarrow> nat \<Rightarrow> jsstring \<Rightarrow> jsstring \<Rightarrow> jvalue \<Rightarrow> ('s, filter_expr) st_result" where
  "resolveNode fetch rels depth table n s =
     (if n = VNull then (s, Inl (TypeError ''null''))
      else case array_prop n (js ''AND'') of
        Some cs \<Rightarrow> st_bind (st_map (\<lambda>c. resolveNode fetch rels depth table c) cs) (\<lambda>fs. st_return (FAnd fs)) s
      | None \<Rightarrow>
        (case array_prop n (js ''OR'') of
           Some cs \<Rightarrow> st_bind (st_map (\<lambda>c. resolveNode fetch rels depth table c) cs) (\<lambda>fs. st_return (FOr fs)) s
         | None \<Rightarrow>
           (case js_prop n (js ''NOT'') of
              Some w \<Rightarrow> st_bind (resolveNode fetch rels depth table w) (\<lambda>f. st_return (FNot f)) s
            | None \<Rightarrow> st_bind (st_map (\<lambda>(key, cond). resolveClause fetch rels depth table key cond) (js_entries n))
                        (\<lambda>clauses. st_return (one_or_and clauses)) s)))"
| "resolveClause fetch rels depth table key cond s =
     (case relation_clause cond of
        None \<Rightarrow> (s, compile_or (single key cond) ALWAYS_TRUE)
      | Some (k, leaf) \<Rightarrow>
          (let many = (k \<noteq> js ''is'' \<and> k \<noteq> js ''isNot'')
           in case (if many then lookup2 (rr_toMany rels) table key
                    else map_option (\<lambda>t. (t, js ''_id'')) (lookup2 (rr_toOne rels) table key)) of
                None \<Rightarrow> (s, Inl (GenericError ''unknown relation''))
              | Some (child, field) \<Rightarrow>
                  if \<not> many \<and> child = [] then (s, Inl (GenericError ''unknown relation''))
                  else if depth + 1 > MAX_RELATION_DEPTH then (s, Inl (GenericError ''relation nesting exceeds max depth''))
                  else st_bind (\<lambda>s. case bool_value leaf of
                           Some b \<Rightarrow> (s, Inr (if b then None else Some ALWAYS_FALSE))
                         | None \<Rightarrow> st_bind (resolveNode fetch rels (depth + 1) child leaf) (\<lambda>f. st_return (Some f)) s) (\<lambda>e.
                       st_bind (fetch child) (\<lambda>rows.
                         let ids = VArr (ids_of (\<lambda>row. row_matches e row \<noteq> (k = js ''every'')) field rows);
                             positive = (k = js ''some'' \<or> k = js ''is'');
                             target = (if many then js ''_id'' else key)
                         in st_lift (compile_or (single target (single (js (if positive then ''in'' else ''notIn'')) ids))
                              (if positive then ALWAYS_FALSE else ALWAYS_TRUE)))) s))"
  by pat_completeness auto

termination
proof (relation "measure (\<lambda>x. case x of Inl (fetch, rels, depth, table, n, s) \<Rightarrow> 2 * size n + 1
      | Inr (fetch, rels, depth, table, key, cond, s) \<Rightarrow> 2 * size cond)", goal_cases)
  case 1
  show ?case by simp
qed (auto dest: size_js_prop size_array_prop size_js_entries size_relation_clause)

declare resolveNode.simps [simp del] resolveClause.simps [simp del]

definition resolveWhere :: "'s fetch \<Rightarrow> relation_registry \<Rightarrow> jsstring \<Rightarrow> policy_predicate \<Rightarrow> ('s, filter_expr option) st_result" where
  "resolveWhere fetch rels table w =
     (case w of
        PpUndefined \<Rightarrow> st_return None
      | PpBool True \<Rightarrow> st_return None
      | PpBool False \<Rightarrow> st_return (Some ALWAYS_FALSE)
      | PpWhere n \<Rightarrow> st_bind (resolveNode fetch rels 0 table n) (\<lambda>f. st_return (Some f)))"

text \<open>A table's policy; its functions are the application's and read through the transaction.\<close>

record 's table_policy =
  tp_read :: "('s, policy_predicate) st_result option"
  tp_write :: "(document \<Rightarrow> ('s, bool) st_result) option"

definition resolveReadPolicy :: "'s table_policy \<Rightarrow> 's fetch \<Rightarrow> jsstring \<Rightarrow> relation_registry \<Rightarrow> ('s, filter_expr option) st_result" where
  "resolveReadPolicy policy fetch table rels =
     (case tp_read policy of None \<Rightarrow> st_return None | Some f \<Rightarrow> st_bind f (resolveWhere fetch rels table))"

definition evalReadPolicy :: "'s table_policy \<Rightarrow> ('s, filter_expr option) st_result" where
  "evalReadPolicy policy =
     (case tp_read policy of None \<Rightarrow> st_return None | Some f \<Rightarrow> st_bind f (\<lambda>w. st_lift (compileWhere w)))"

definition evalWritePolicy :: "'s table_policy \<Rightarrow> document \<Rightarrow> ('s, bool) st_result" where
  "evalWritePolicy policy row = (case tp_write policy of None \<Rightarrow> st_return True | Some f \<Rightarrow> f row)"

section \<open>What a predicate says\<close>

text \<open>The meaning of a predicate for a row, over the rows \<open>rows\<close> of every table: read off the policy
  language, with no filter in between.\<close>

definition field_is :: "document \<Rightarrow> jsstring \<Rightarrow> comparison_op \<Rightarrow> jvalue \<Rightarrow> bool" where
  "field_is doc field op v = (case evaluateFieldPath doc field of None \<Rightarrow> False | Some x \<Rightarrow> op_holds op (compareValues x v))"

definition field_op_holds :: "document \<Rightarrow> jsstring \<Rightarrow> jsstring \<Rightarrow> jvalue \<Rightarrow> bool" where
  "field_op_holds doc field k v =
     (if k = js ''in'' then (case v of VArr ws \<Rightarrow> \<exists>w \<in> set ws. field_is doc field OpEq w | _ \<Rightarrow> False)
      else if k = js ''notIn'' then (case v of VArr ws \<Rightarrow> \<forall>w \<in> set ws. field_is doc field OpNeq w | _ \<Rightarrow> False)
      else if k = js ''isNull'' then field_is doc field (if js_truthy v then OpEq else OpNeq) VNull
      else field_is doc field
        (if k = js ''eq'' then OpEq else if k = js ''ne'' then OpNeq else if k = js ''lt'' then OpLt
         else if k = js ''lte'' then OpLte else if k = js ''gt'' then OpGt else OpGte) v)"

definition field_holds :: "document \<Rightarrow> jsstring \<Rightarrow> jvalue \<Rightarrow> bool" where
  "field_holds doc field cond =
     (case cond of
        VObj ops \<Rightarrow> \<forall>k \<in> set KNOWN_FIELD_OPS. case map_of ops k of None \<Rightarrow> True | Some v \<Rightarrow> field_op_holds doc field k v
      | _ \<Rightarrow> field_is doc field OpEq cond)"

definition referenced :: "document \<Rightarrow> jsstring \<Rightarrow> comparison_op \<Rightarrow> document \<Rightarrow> jsstring \<Rightarrow> bool" where
  "referenced doc target op row field =
     (case map_of row field of None \<Rightarrow> op = OpNeq | Some v \<Rightarrow> field_is doc target op v)"

definition leaf_value :: "bool option \<Rightarrow> bool \<Rightarrow> bool" where
  "leaf_value b otherwise = (case b of Some x \<Rightarrow> x | None \<Rightarrow> otherwise)"

function node_holds :: "(jsstring \<Rightarrow> document list) \<Rightarrow> relation_registry \<Rightarrow> jsstring \<Rightarrow> jvalue \<Rightarrow> document \<Rightarrow> bool"
  and clause_holds :: "(jsstring \<Rightarrow> document list) \<Rightarrow> relation_registry \<Rightarrow> jsstring \<Rightarrow> jsstring \<Rightarrow> jvalue \<Rightarrow> document \<Rightarrow> bool" where
  "node_holds rows rels table n doc =
     (case array_prop n (js ''AND'') of
        Some cs \<Rightarrow> \<forall>c \<in> set cs. node_holds rows rels table c doc
      | None \<Rightarrow>
        (case array_prop n (js ''OR'') of
           Some cs \<Rightarrow> \<exists>c \<in> set cs. node_holds rows rels table c doc
         | None \<Rightarrow>
           (case js_prop n (js ''NOT'') of
              Some w \<Rightarrow> \<not> node_holds rows rels table w doc
            | None \<Rightarrow> \<forall>e \<in> set (js_entries n). clause_holds rows rels table (fst e) (snd e) doc)))"
| "clause_holds rows rels table key cond doc =
     (case relation_clause cond of
        None \<Rightarrow> field_holds doc key cond
      | Some (k, leaf) \<Rightarrow>
          (let many = (k \<noteq> js ''is'' \<and> k \<noteq> js ''isNot'')
           in case (if many then lookup2 (rr_toMany rels) table key
                    else map_option (\<lambda>t. (t, js ''_id'')) (lookup2 (rr_toOne rels) table key)) of
                None \<Rightarrow> False
              | Some (child, field) \<Rightarrow>
                  (let target = (if many then js ''_id'' else key);
                       holds = (\<lambda>row. leaf_value (bool_value leaf) (node_holds rows rels child leaf row))
                   in if k = js ''some'' \<or> k = js ''is''
                      then \<exists>row \<in> set (rows child). holds row \<and> referenced doc target OpEq row field
                      else \<forall>row \<in> set (rows child). holds row \<noteq> (k = js ''every'') \<longrightarrow> referenced doc target OpNeq row field)))"
  by pat_completeness auto

termination
proof (relation "measure (\<lambda>x. case x of Inl (rows, rels, table, n, doc) \<Rightarrow> 2 * size n + 1
      | Inr (rows, rels, table, key, cond, doc) \<Rightarrow> 2 * size cond)", goal_cases)
  case 1
  show ?case by simp
qed (auto dest: size_js_prop size_array_prop size_js_entries size_relation_clause)

declare node_holds.simps [simp del] clause_holds.simps [simp del]

lemma size_clause_leaf:
  "e \<in> set es \<Longrightarrow> relation_clause (snd e) = Some (k, leaf) \<Longrightarrow> size leaf < size (VObj es)"
  using size_relation_clause size_VObj_elem[of "fst e" "snd e" es] by (metis less_trans prod.collapse)

text \<open>Predicates of the declared type: objects with distinct keys wherever a predicate is expected.\<close>

function where_ok :: "jvalue \<Rightarrow> bool" where
  "where_ok n =
     (case n of
        VObj es \<Rightarrow> distinct (map fst es) \<and>
          (case array_prop n (js ''AND'') of
             Some cs \<Rightarrow> \<forall>c \<in> set cs. where_ok c
           | None \<Rightarrow>
             (case array_prop n (js ''OR'') of
                Some cs \<Rightarrow> \<forall>c \<in> set cs. where_ok c
              | None \<Rightarrow>
                (case js_prop n (js ''NOT'') of
                   Some w \<Rightarrow> where_ok w
                 | None \<Rightarrow> \<forall>e \<in> set es. case relation_clause (snd e) of
                     None \<Rightarrow> True | Some (k, leaf) \<Rightarrow> bool_value leaf \<noteq> None \<or> where_ok leaf)))
      | _ \<Rightarrow> False)"
  by pat_completeness auto

termination
  by (relation "measure size") (auto dest: size_js_prop size_array_prop size_clause_leaf simp del: jvalue.size)

declare where_ok.simps [simp del]

section \<open>Compiled predicates say the same\<close>

lemma evaluate_one_or_and: "evaluateFilter doc (one_or_and cs) = list_all (evaluateFilter doc) cs"
  by (auto simp: one_or_and_def ALWAYS_TRUE_def split: list.splits)

lemma evaluate_constants [simp]: "evaluateFilter doc ALWAYS_TRUE" "\<not> evaluateFilter doc ALWAYS_FALSE"
  by (simp_all add: ALWAYS_TRUE_def ALWAYS_FALSE_def)

lemma evaluate_compare [simp]: "evaluateFilter doc (FCompare op field v) = field_is doc field op v"
  by (simp add: field_is_def)

declare evaluateFilter.simps(4) [simp del]

lemma compare_op_holds:
  "list_all (evaluateFilter doc) (compare_op ops name op field) =
     (case map_of ops (js name) of None \<Rightarrow> True | Some v \<Rightarrow> field_is doc field op v)"
  by (simp add: compare_op_def split: option.splits)

lemma list_op_holds:
  "list_op ops name FOr OpEq field = Inr fs \<Longrightarrow> list_all (evaluateFilter doc) fs =
     (case map_of ops (js name) of None \<Rightarrow> True | Some v \<Rightarrow> (case v of VArr ws \<Rightarrow> \<exists>w \<in> set ws. field_is doc field OpEq w | _ \<Rightarrow> False))"
  "list_op ops name FAnd OpNeq field = Inr fs \<Longrightarrow> list_all (evaluateFilter doc) fs =
     (case map_of ops (js name) of None \<Rightarrow> True | Some v \<Rightarrow> (case v of VArr ws \<Rightarrow> \<forall>w \<in> set ws. field_is doc field OpNeq w | _ \<Rightarrow> False))"
  by (auto simp: list_op_def list_all_iff list_ex_iff split: option.splits jvalue.splits)

lemma null_op_holds:
  "list_all (evaluateFilter doc) (null_op ops field) =
     (case map_of ops (js ''isNull'') of None \<Rightarrow> True | Some v \<Rightarrow> field_is doc field (if js_truthy v then OpEq else OpNeq) VNull)"
  by (simp add: null_op_def split: option.splits)

lemma known_ops_all:
  "(\<forall>k \<in> set KNOWN_FIELD_OPS. P k) \<longleftrightarrow> P (js ''eq'') \<and> P (js ''ne'') \<and> P (js ''lt'') \<and> P (js ''lte'') \<and> P (js ''gt'') \<and> P (js ''gte'') \<and>
     P (js ''in'') \<and> P (js ''notIn'') \<and> P (js ''isNull'')"
  by (simp add: KNOWN_FIELD_OPS_def)

lemma field_op_names:
  "field_op_holds doc field (js ''in'') v = (case v of VArr ws \<Rightarrow> \<exists>w \<in> set ws. field_is doc field OpEq w | _ \<Rightarrow> False)"
  "field_op_holds doc field (js ''notIn'') v = (case v of VArr ws \<Rightarrow> \<forall>w \<in> set ws. field_is doc field OpNeq w | _ \<Rightarrow> False)"
  "field_op_holds doc field (js ''isNull'') v = field_is doc field (if js_truthy v then OpEq else OpNeq) VNull"
  "field_op_holds doc field (js ''eq'') v = field_is doc field OpEq v" "field_op_holds doc field (js ''ne'') v = field_is doc field OpNeq v"
  "field_op_holds doc field (js ''lt'') v = field_is doc field OpLt v" "field_op_holds doc field (js ''lte'') v = field_is doc field OpLte v"
  "field_op_holds doc field (js ''gt'') v = field_is doc field OpGt v" "field_op_holds doc field (js ''gte'') v = field_is doc field OpGte v"
  by (simp_all add: field_op_holds_def js_def)

lemma compileField_holds: "compileField field cond = Inr f \<Longrightarrow> evaluateFilter doc f = field_holds doc field cond"
proof (cases cond)
  case (VObj ops)
  assume "compileField field cond = Inr f"
  then obtain ins notIns where l: "list_op ops ''in'' FOr OpEq field = Inr ins" "list_op ops ''notIn'' FAnd OpNeq field = Inr notIns"
    and f: "f = one_or_and
       (compare_op ops ''eq'' OpEq field @ compare_op ops ''ne'' OpNeq field @ compare_op ops ''lt'' OpLt field @
        compare_op ops ''lte'' OpLte field @ compare_op ops ''gt'' OpGt field @ compare_op ops ''gte'' OpGte field @
        ins @ notIns @ null_op ops field)"
    by (auto simp: compileField_def VObj res_bind_Inr_iff split: if_splits)
  show ?thesis
    by (simp add: f evaluate_one_or_and list_op_holds(1)[OF l(1)] list_op_holds(2)[OF l(2)] compare_op_holds null_op_holds
        field_holds_def VObj known_ops_all field_op_names cong: option.case_cong)
qed (auto simp: compileField_def field_holds_def)

lemma array_prop_single: "array_prop (single key cond) k = (if key = k then (case cond of VArr cs \<Rightarrow> Some cs | _ \<Rightarrow> None) else None)"
  by (simp add: array_prop_def js_prop_def single_def)

lemma compile_or_single:
  assumes "key \<noteq> js ''AND'' \<or> (\<nexists>cs. cond = VArr cs)" "key \<noteq> js ''OR'' \<or> (\<nexists>cs. cond = VArr cs)" "key \<noteq> js ''NOT''"
  shows "compile_or (single key cond) d = compileField key cond"
proof -
  have a: "array_prop (single key cond) (js ''AND'') = None" "array_prop (single key cond) (js ''OR'') = None"
    "js_prop (single key cond) (js ''NOT'') = None"
    using assms by (auto simp: array_prop_single js_prop_def split: jvalue.splits) (auto simp: single_def)
  show ?thesis
    by (simp add: compile_or_def compileWhere_def compileNode.simps[of "single key cond"] a js_entries_def)
       (cases "compileField key cond"; simp add: single_def js_entries_def one_or_and_def or_default_def)
qed

lemma compile_ids:
  assumes "target \<noteq> js ''NOT''"
  shows "compile_or (single target (single (js ''in'') (VArr ids))) d = Inr (FOr (map (FCompare OpEq target) ids))"
    "compile_or (single target (single (js ''notIn'') (VArr ids))) d = Inr (FAnd (map (FCompare OpNeq target) ids))"
proof -
  have c: "compile_or (single target (single k (VArr ids))) d = compileField target (single k (VArr ids))" for k
    by (rule compile_or_single) (use assms in \<open>simp_all add: single_def\<close>)
  show "compile_or (single target (single (js ''in'') (VArr ids))) d = Inr (FOr (map (FCompare OpEq target) ids))"
    "compile_or (single target (single (js ''notIn'') (VArr ids))) d = Inr (FAnd (map (FCompare OpNeq target) ids))"
    unfolding c by (simp_all add: compileField_def single_def has_relation_key_def RELATION_KEYS_def KNOWN_FIELD_OPS_def js_def
        list_op_def compare_op_def null_op_def one_or_and_def)
qed

lemma same_value_zero_field_is: "same_value_zero a b \<Longrightarrow> field_is doc field op a = field_is doc field op b"
proof -
  assume "same_value_zero a b"
  then have "compareValues a b = CEq" by (cases a) (auto simp: same_value_zero_def split: jvalue.splits)
  then have "compareValues x a = compareValues x b" for x by (rule vals.eq_cong_right)
  then show ?thesis by (simp add: field_is_def split: option.splits)
qed

lemma js_set_add_ex: "(\<exists>v \<in> set (js_set_add w ids). field_is doc t op v) \<longleftrightarrow> field_is doc t op w \<or> (\<exists>v \<in> set ids. field_is doc t op v)"
  using same_value_zero_field_is by (auto simp: js_set_add_def list_ex_iff)

lemma ids_of_ex:
  "(\<exists>v \<in> set (ids_of P field rows). field_is doc t op v) \<longleftrightarrow>
     (\<exists>row \<in> set rows. P row \<and> (case map_of row field of None \<Rightarrow> False | Some v \<Rightarrow> field_is doc t op v))"
  unfolding ids_of_def
  by (induction rows rule: rev_induct) (auto simp: js_set_add_ex split: option.splits)

lemma js_set_add_all: "(\<forall>v \<in> set (js_set_add w ids). field_is doc t op v) \<longleftrightarrow> field_is doc t op w \<and> (\<forall>v \<in> set ids. field_is doc t op v)"
  using same_value_zero_field_is by (auto simp: js_set_add_def list_ex_iff)

lemma ids_of_all:
  "(\<forall>v \<in> set (ids_of P field rows). field_is doc t op v) \<longleftrightarrow>
     (\<forall>row \<in> set rows. P row \<longrightarrow> (case map_of row field of None \<Rightarrow> True | Some v \<Rightarrow> field_is doc t op v))"
  unfolding ids_of_def
  by (induction rows rule: rev_induct) (auto simp: js_set_add_all split: option.splits)

definition clause_ok :: "jsstring \<Rightarrow> jvalue \<Rightarrow> bool" where
  "clause_ok key cond \<longleftrightarrow> (key \<noteq> js ''AND'' \<or> (\<nexists>cs. cond = VArr cs)) \<and> (key \<noteq> js ''OR'' \<or> (\<nexists>cs. cond = VArr cs)) \<and> key \<noteq> js ''NOT'' \<and>
     (case relation_clause cond of None \<Rightarrow> True | Some (k, leaf) \<Rightarrow> bool_value leaf \<noteq> None \<or> where_ok leaf)"

lemma where_ok_children:
  assumes "where_ok n"
  shows "array_prop n (js ''AND'') = Some cs \<Longrightarrow> c \<in> set cs \<Longrightarrow> where_ok c"
    "array_prop n (js ''AND'') = None \<Longrightarrow> array_prop n (js ''OR'') = Some cs \<Longrightarrow> c \<in> set cs \<Longrightarrow> where_ok c"
    "array_prop n (js ''AND'') = None \<Longrightarrow> array_prop n (js ''OR'') = None \<Longrightarrow> js_prop n (js ''NOT'') = Some w \<Longrightarrow> where_ok w"
  using assms where_ok.simps[of n] by (auto split: jvalue.splits)

lemma where_ok_clauses:
  assumes "where_ok n" "array_prop n (js ''AND'') = None" "array_prop n (js ''OR'') = None" "js_prop n (js ''NOT'') = None"
    and "e \<in> set (js_entries n)"
  shows "clause_ok (fst e) (snd e)"
proof -
  obtain es where n: "n = VObj es" and d: "distinct (map fst es)" and
    leaf: "\<forall>e \<in> set es. case relation_clause (snd e) of None \<Rightarrow> True | Some (k, leaf) \<Rightarrow> bool_value leaf \<noteq> None \<or> where_ok leaf"
    using assms where_ok.simps[of n] by (auto split: jvalue.splits)
  have e: "e \<in> set es" using assms(5) by (simp add: n js_entries_def)
  then have m: "map_of es (fst e) = Some (snd e)" using d by (metis map_of_eq_Some_iff prod.collapse)
  then show ?thesis using assms(2-4) leaf e
    by (auto simp: clause_ok_def n array_prop_def js_prop_def)
qed

lemma relation_clause_object: "relation_clause cond = Some (k, leaf) \<Longrightarrow> k \<in> set RELATION_KEYS \<and> (\<nexists>cs. cond = VArr cs)"
  by (auto simp: relation_clause_def find_Some_iff js_prop_def split: option.splits jvalue.splits)

lemma st_map_holds:
  assumes "st_map f xs s = (s', Inr fs)" "I s" "\<And>x u. x \<in> set xs \<Longrightarrow> I u \<Longrightarrow> I (fst (f x u))"
    and "\<And>x u u' g. x \<in> set xs \<Longrightarrow> I u \<Longrightarrow> f x u = (u', Inr g) \<Longrightarrow> evaluateFilter doc g = P x"
  shows "list_all (evaluateFilter doc) fs = (\<forall>x \<in> set xs. P x)" "list_ex (evaluateFilter doc) fs = (\<exists>x \<in> set xs. P x)"
proof -
  have l: "length fs = length xs" and e: "\<forall>i < length xs. evaluateFilter doc (fs ! i) = P (xs ! i)"
    using st_map_Inr_iff[of f xs s s' fs I, OF assms(1-3)] assms(4) by (auto simp: nth_mem) (meson nth_mem)+
  show "list_all (evaluateFilter doc) fs = (\<forall>x \<in> set xs. P x)" using l e by (auto simp: list_all_length Ball_def in_set_conv_nth)
  show "list_ex (evaluateFilter doc) fs = (\<exists>x \<in> set xs. P x)" using l e by (auto simp: list_ex_length Bex_def in_set_conv_nth)
qed

text \<open>In every state of \<open>I\<close> the reader returns the rows \<open>rows\<close>, and stays in \<open>I\<close>.\<close>

definition reads_rows :: "('s \<Rightarrow> bool) \<Rightarrow> 's fetch \<Rightarrow> (jsstring \<Rightarrow> document list) \<Rightarrow> bool" where
  "reads_rows I fetch rows \<longleftrightarrow> (\<forall>t. keeps I (fetch t) \<and> (\<forall>u u' rs. I u \<longrightarrow> fetch t u = (u', Inr rs) \<longrightarrow> rs = rows t))"

lemma return_keeps: "I (fst (m s)) \<Longrightarrow> I (fst (st_bind m (\<lambda>a. st_return (g a)) s))"
  by (rule keeps_bind_at) simp_all

lemma leaf_keeps:
  assumes "I s" "bool_value leaf = None \<Longrightarrow> I (fst (m s))"
  shows "I (fst (case bool_value leaf of Some b \<Rightarrow> (s, Inr (g b)) | None \<Rightarrow> st_bind m (\<lambda>f. st_return (Some f)) s))"
  using assms return_keeps[of I m s Some] by (cases "bool_value leaf") simp_all

lemma map_return_keeps:
  "I s \<Longrightarrow> (\<And>x u. x \<in> set xs \<Longrightarrow> I u \<Longrightarrow> I (fst (f x u))) \<Longrightarrow> I (fst (st_bind (st_map f xs) (\<lambda>ys. st_return (g ys)) s))"
  by (rule keeps_bind_at) (simp_all add: keeps_map_at)

lemma resolve_keeps:
  fixes fetch :: "'s fetch"
  shows "(\<And>t. keeps I (fetch t)) \<Longrightarrow> I s \<Longrightarrow> I (fst (resolveNode fetch rels depth table n s))"
    and "(\<And>t. keeps I (fetch t)) \<Longrightarrow> I s \<Longrightarrow> I (fst (resolveClause fetch rels depth table key cond s))"
proof (induction fetch rels depth table n s and fetch rels depth table key cond s rule: resolveNode_resolveClause.induct)
  case (1 fetch rels depth table n s)
  note eq = resolveNode.simps[of fetch rels depth table n s]
  show ?case
  proof (cases "n = VNull")
    case n: False
    show ?thesis
    proof (cases "array_prop n (js ''AND'')")
      case (Some cs)
      then show ?thesis using n map_return_keeps[of I s cs "resolveNode fetch rels depth table" FAnd] "1.IH"(4)[OF n Some _ "1.prems"(1)] "1.prems"(2)
        by (simp add: eq)
    next
      case a: None
      show ?thesis
      proof (cases "array_prop n (js ''OR'')")
        case (Some cs)
        then show ?thesis using n a map_return_keeps[of I s cs "resolveNode fetch rels depth table" FOr] "1.IH"(3)[OF n a Some _ "1.prems"(1)] "1.prems"(2)
          by (simp add: eq)
      next
        case o: None
        show ?thesis
        proof (cases "js_prop n (js ''NOT'')")
          case (Some w)
          then show ?thesis using n a o return_keeps[of I "resolveNode fetch rels depth table w" s FNot, OF "1.IH"(2)[OF n a o Some "1.prems"]]
            by (simp add: eq)
        next
          case None
          have "I (fst (resolveClause fetch rels depth table (fst e) (snd e) u))" if "e \<in> set (js_entries n)" "I u" for e u
            using "1.IH"(1)[OF n a o None that(1) prod.collapse "1.prems"(1) that(2)] .
          then show ?thesis using n a o None "1.prems"(2)
              map_return_keeps[of I s "js_entries n" "\<lambda>(key, cond). resolveClause fetch rels depth table key cond" one_or_and]
            by (simp add: eq case_prod_beta)
        qed
      qed
    qed
  qed (unfold eq, simp add: "1.prems"(2))
next
  case (2 fetch rels depth table key cond s)
  note eq = resolveClause.simps[of fetch rels depth table key cond s]
  show ?case
  proof (cases "relation_clause cond")
    case (Some kl)
    obtain k leaf where kl: "kl = (k, leaf)" by fastforce
    let ?many = "k \<noteq> js ''is'' \<and> k \<noteq> js ''isNot''"
    let ?target = "if ?many then lookup2 (rr_toMany rels) table key else map_option (\<lambda>t. (t, js ''_id'')) (lookup2 (rr_toOne rels) table key)"
    show ?thesis
    proof (cases ?target)
      case cf: (Some c)
      obtain child field where c: "c = (child, field)" by fastforce
      have leaf: "I (fst (case bool_value leaf of Some b \<Rightarrow> (s, Inr (if b then None else Some ALWAYS_FALSE))
          | None \<Rightarrow> st_bind (resolveNode fetch rels (depth + 1) child leaf) (\<lambda>f. st_return (Some f)) s))"
        if "\<not> (\<not> ?many \<and> child = [])" "\<not> depth + 1 > MAX_RELATION_DEPTH"
        by (rule leaf_keeps[of I s leaf "resolveNode fetch rels (depth + 1) child leaf", OF "2.prems"(2)])
           (rule "2.IH"[OF Some[unfolded kl] refl refl cf[unfolded c] refl that _ "2.prems"])
      have rows: "I (fst (st_bind (fetch child) f u))" if "I u" "\<And>a. keeps I (f a)" for f u
        using keeps_bind[of I "fetch child" f] "2.prems"(1) that unfolding keeps_def by blast
      show ?thesis
      proof (cases "(\<not> ?many \<and> child = []) \<or> depth + 1 > MAX_RELATION_DEPTH")
        case False
        let ?leaf = "\<lambda>s. case bool_value leaf of Some b \<Rightarrow> (s, Inr (if b then None else Some ALWAYS_FALSE))
          | None \<Rightarrow> st_bind (resolveNode fetch rels (depth + 1) child leaf) (\<lambda>f. st_return (Some f)) s"
        define g where "g = (\<lambda>e rows. let ids = VArr (ids_of (\<lambda>row. row_matches e row \<noteq> (k = js ''every'')) field rows);
            positive = (k = js ''some'' \<or> k = js ''is''); target = (if ?many then js ''_id'' else key)
          in st_lift (compile_or (single target (single (js (if positive then ''in'' else ''notIn'')) ids))
               (if positive then ALWAYS_FALSE else ALWAYS_TRUE)) :: ('s, filter_expr) st_result)"
        have "resolveClause fetch rels depth table key cond s = st_bind ?leaf (\<lambda>e. st_bind (fetch child) (g e)) s"
          unfolding eq Some kl option.case prod.case g_def Let_def cf c using False by (simp only: if_False de_Morgan_disj simp_thms)
        moreover have "I (fst (st_bind ?leaf (\<lambda>e. st_bind (fetch child) (g e)) s))"
        proof (rule keeps_bind_at[of I ?leaf s])
          have g: "keeps I (g e a)" for e a by (simp add: g_def Let_def)
          show "I (fst (st_bind (fetch child) (g e) u))" if "I u" for e u by (rule rows[OF that g])
        qed (use leaf False in blast)
        ultimately show ?thesis by simp
      qed (use "2.prems"(2) in \<open>auto simp: eq Some kl cf c Let_def\<close>)
    qed (use "2.prems"(2) in \<open>auto simp: eq Some kl Let_def\<close>)
  qed (use "2.prems"(2) in \<open>simp add: eq\<close>)
qed

lemma leaf_matches:
  assumes "(case bool_value leaf of Some b \<Rightarrow> (u, Inr (if b then None else Some ALWAYS_FALSE))
      | None \<Rightarrow> st_bind (resolveNode fetch rels d child leaf) (\<lambda>f. st_return (Some f)) u) = (u', Inr e)"
    and "\<And>u' f. bool_value leaf = None \<Longrightarrow> resolveNode fetch rels d child leaf u = (u', Inr f) \<Longrightarrow>
      evaluateFilter row f = node_holds rows rels child leaf row"
  shows "row_matches e row = leaf_value (bool_value leaf) (node_holds rows rels child leaf row)"
proof (cases "bool_value leaf")
  case None
  then obtain u1 f where "resolveNode fetch rels d child leaf u = (u1, Inr f)" "e = Some f"
    using assms(1) by (auto simp: st_bind_Inr_iff)
  then show ?thesis using assms(2)[OF None] None by (simp add: row_matches_def leaf_value_def)
qed (use assms(1) in \<open>auto simp: row_matches_def leaf_value_def split: if_splits\<close>)

lemma resolve_exact:
  fixes fetch :: "'s fetch"
  shows "reads_rows I fetch rows \<Longrightarrow> I s \<Longrightarrow> where_ok n \<Longrightarrow> resolveNode fetch rels depth table n s = (s', Inr f) \<Longrightarrow>
      evaluateFilter doc f = node_holds rows rels table n doc"
    and "reads_rows I fetch rows \<Longrightarrow> I s \<Longrightarrow> clause_ok key cond \<Longrightarrow> resolveClause fetch rels depth table key cond s = (s', Inr f) \<Longrightarrow>
      evaluateFilter doc f = clause_holds rows rels table key cond doc"
proof (induction fetch rels depth table n s and fetch rels depth table key cond s arbitrary: doc s' f and doc s' f
    rule: resolveNode_resolveClause.induct)
  case (1 fetch rels depth table n s)
  note res = "1.prems"(4)[unfolded resolveNode.simps[of fetch rels depth table n s]]
  have n: "n \<noteq> VNull" using "1.prems"(3) where_ok.simps[of n] by auto
  note ok = where_ok_children[OF "1.prems"(3)]
  have fetch: "\<And>t. keeps I (fetch t)" using "1.prems"(1) by (simp add: reads_rows_def)
  show ?case
  proof (cases "array_prop n (js ''AND'')")
    case (Some cs)
    then obtain fs s1 where fs: "st_map (resolveNode fetch rels depth table) cs s = (s1, Inr fs)" "f = FAnd fs"
      using res n by (auto simp: st_bind_Inr_iff)
    show ?thesis using st_map_holds(1)[OF fs(1) "1.prems"(2) resolve_keeps(1)[OF fetch], of doc "\<lambda>c. node_holds rows rels table c doc"]
        "1.IH"(4)[OF n Some _ "1.prems"(1)] ok(1)[OF Some]
      by (simp add: fs(2) node_holds.simps[of rows rels table n] Some)
  next
    case a: None
    show ?thesis
    proof (cases "array_prop n (js ''OR'')")
      case (Some cs)
      then obtain fs s1 where fs: "st_map (resolveNode fetch rels depth table) cs s = (s1, Inr fs)" "f = FOr fs"
        using res n a by (auto simp: st_bind_Inr_iff)
      show ?thesis using st_map_holds(2)[OF fs(1) "1.prems"(2) resolve_keeps(1)[OF fetch], of doc "\<lambda>c. node_holds rows rels table c doc"]
          "1.IH"(3)[OF n a Some _ "1.prems"(1)] ok(2)[OF a Some]
        by (simp add: fs(2) node_holds.simps[of rows rels table n] a Some)
    next
      case o: None
      show ?thesis
      proof (cases "js_prop n (js ''NOT'')")
        case (Some w)
        then obtain g s1 where g: "resolveNode fetch rels depth table w s = (s1, Inr g)" "f = FNot g"
          using res n a o by (auto simp: st_bind_Inr_iff)
        show ?thesis using "1.IH"(2)[OF n a o Some "1.prems"(1,2) ok(3)[OF a o Some] g(1)]
          by (simp add: g(2) node_holds.simps[of rows rels table n] a o Some)
      next
        case None
        then obtain fs s1 where fs: "st_map (\<lambda>(key, cond). resolveClause fetch rels depth table key cond) (js_entries n) s = (s1, Inr fs)"
          "f = one_or_and fs"
          using res n a o by (auto simp: st_bind_Inr_iff)
        have "list_all (evaluateFilter doc) fs = (\<forall>e \<in> set (js_entries n). clause_holds rows rels table (fst e) (snd e) doc)"
        proof (rule st_map_holds(1)[OF fs(1), of I])
          fix e u assume e: "e \<in> set (js_entries n)" "I u"
          show "I (fst ((\<lambda>(key, cond). resolveClause fetch rels depth table key cond) e u))"
            using resolve_keeps(2)[of I fetch, OF fetch e(2)] by (simp add: case_prod_beta)
          show "evaluateFilter doc g = clause_holds rows rels table (fst e) (snd e) doc"
            if "(\<lambda>(key, cond). resolveClause fetch rels depth table key cond) e u = (u', Inr g)" for u' g
            using "1.IH"(1)[OF n a o None e(1) prod.collapse "1.prems"(1) e(2) where_ok_clauses[OF "1.prems"(3) a o None e(1)]] that
            by (simp add: case_prod_beta)
        qed (rule "1.prems"(2))
        then show ?thesis by (simp add: fs(2) node_holds.simps[of rows rels table n] a o None evaluate_one_or_and)
      qed
    qed
  qed
next
  case (2 fetch rels depth table key cond s)
  note res = "2.prems"(4)[unfolded resolveClause.simps[of fetch rels depth table key cond s]]
  show ?case
  proof (cases "relation_clause cond")
    case None
    then have "compileField key cond = Inr f" using res "2.prems"(3) compile_or_single[of key cond] by (auto simp: clause_ok_def)
    then show ?thesis by (simp add: compileField_holds clause_holds.simps[of rows rels table key cond] None)
  next
    case (Some kl)
    obtain k leaf where kl: "kl = (k, leaf)" by fastforce
    note rc = Some[unfolded kl]
    define many where "many = (k \<noteq> js ''is'' \<and> k \<noteq> js ''isNot'')"
    define target where "target = (if many then js ''_id'' else key)"
    define positive where "positive = (k = js ''some'' \<or> k = js ''is'')"
    obtain child field where cf: "(if many then lookup2 (rr_toMany rels) table key
        else map_option (\<lambda>t. (t, js ''_id'')) (lookup2 (rr_toOne rels) table key)) = Some (child, field)"
      and guards: "\<not> (\<not> many \<and> child = [])" "\<not> depth + 1 > MAX_RELATION_DEPTH"
      using res by (auto simp: rc many_def[symmetric] Let_def split: option.splits if_splits prod.splits)
    obtain e u rs u' where e: "(case bool_value leaf of Some b \<Rightarrow> (s, Inr (if b then None else Some ALWAYS_FALSE))
        | None \<Rightarrow> st_bind (resolveNode fetch rels (depth + 1) child leaf) (\<lambda>f. st_return (Some f)) s) = (u, Inr e)"
      and rs: "fetch child u = (u', Inr rs)"
      and f: "compile_or (single target (single (js (if positive then ''in'' else ''notIn''))
          (VArr (ids_of (\<lambda>row. row_matches e row \<noteq> (k = js ''every'')) field rs)))) (if positive then ALWAYS_FALSE else ALWAYS_TRUE) = Inr f"
      using res cf guards
      by (auto simp: rc many_def[symmetric] positive_def[symmetric] target_def[symmetric] Let_def st_bind_Inr_iff split: if_splits)
    have "I (fst (case bool_value leaf of Some b \<Rightarrow> (s, Inr (if b then None else Some ALWAYS_FALSE))
        | None \<Rightarrow> st_bind (resolveNode fetch rels (depth + 1) child leaf) (\<lambda>f. st_return (Some f)) s))"
      by (rule leaf_keeps, rule "2.prems"(2), rule resolve_keeps(1)[of I fetch s, OF _ "2.prems"(2)]) (use "2.prems"(1) in \<open>simp add: reads_rows_def\<close>)
    then have rows: "rs = rows child" using rs e "2.prems"(1) by (auto simp: reads_rows_def)
    have t: "target \<noteq> js ''NOT''" using "2.prems"(3) by (simp add: target_def clause_ok_def js_def)
    have leaf_ok: "bool_value leaf \<noteq> None \<or> where_ok leaf" using "2.prems"(3) rc by (simp add: clause_ok_def)
    have m: "row_matches e row = leaf_value (bool_value leaf) (node_holds rows rels child leaf row)" for row
    proof (rule leaf_matches[OF e])
      fix u' g assume b: "bool_value leaf = None" and g: "resolveNode fetch rels (depth + 1) child leaf s = (u', Inr g)"
      then show "evaluateFilter row g = node_holds rows rels child leaf row"
        using "2.IH"[OF rc refl many_def cf refl] guards leaf_ok "2.prems"(1,2) by auto
    qed
    show ?thesis
    proof (cases positive)
      case True
      then have k: "k \<noteq> js ''every''" by (auto simp: positive_def js_def)
      then have "f = FOr (map (FCompare OpEq target) (ids_of (\<lambda>row. row_matches e row) field rs))"
        using f True compile_ids(1)[OF t] by simp
      then show ?thesis using ids_of_ex[of "\<lambda>row. row_matches e row" field rs doc target OpEq]
        by (simp add: clause_holds.simps[of rows rels table key cond] rc many_def[symmetric] cf positive_def[symmetric] True
            target_def[symmetric] list_ex_iff rows m Let_def referenced_def cong: option.case_cong)
    next
      case False
      then have "f = FAnd (map (FCompare OpNeq target) (ids_of (\<lambda>row. row_matches e row \<noteq> (k = js ''every'')) field rs))"
        using f compile_ids(2)[OF t] by simp
      then show ?thesis using ids_of_all[of "\<lambda>row. row_matches e row \<noteq> (k = js ''every'')" field rs doc target OpNeq]
        by (simp add: clause_holds.simps[of rows rels table key cond] rc many_def[symmetric] cf positive_def[symmetric] False
            target_def[symmetric] list_all_iff rows m Let_def referenced_def cong: option.case_cong)
    qed
  qed
qed

definition predicate_ok :: "policy_predicate \<Rightarrow> bool" where
  "predicate_ok w = (case w of PpWhere n \<Rightarrow> where_ok n | _ \<Rightarrow> True)"

definition predicate_holds :: "(jsstring \<Rightarrow> document list) \<Rightarrow> relation_registry \<Rightarrow> jsstring \<Rightarrow> policy_predicate \<Rightarrow> document \<Rightarrow> bool" where
  "predicate_holds rows rels table w doc =
     (case w of PpUndefined \<Rightarrow> True | PpBool b \<Rightarrow> b | PpWhere n \<Rightarrow> node_holds rows rels table n doc)"

lemma resolve_where_exact:
  assumes "reads_rows I fetch rows" "I s" "predicate_ok w" "resolveWhere fetch rels table w s = (s', Inr e)"
  shows "row_matches e doc = predicate_holds rows rels table w doc"
proof (cases w)
  case (PpWhere n)
  then obtain s1 f where "resolveNode fetch rels 0 table n s = (s1, Inr f)" "e = Some f"
    using assms(4) by (auto simp: resolveWhere_def st_bind_Inr_iff)
  then show ?thesis using resolve_exact(1)[OF assms(1,2)] assms(3) PpWhere by (simp add: predicate_ok_def predicate_holds_def row_matches_def)
qed (use assms(4) in \<open>auto simp: resolveWhere_def predicate_holds_def row_matches_def split: bool.splits\<close>)

text \<open>C21. The filter a read policy is resolved to, relation clauses and all, accepts exactly the rows of
  which the predicate holds over the tables it was resolved against.\<close>

theorem resolveWhere_exact:
  assumes "reads_rows I fetch rows" "I s" "predicate_ok w" "resolveWhere fetch rels table w s = (s', Inr e)"
  shows "row_matches e doc = predicate_holds rows rels table w doc"
  by (rule resolve_where_exact[OF assms])

text \<open>Documents shared with somebody: the parents a row of \<open>shares\<close> points at.\<close>

definition sample_relations :: relation_registry where
  "sample_relations = \<lparr>rr_toMany = [(js ''docs'', [(js ''sharedWith'', (js ''shares'', js ''doc''))])], rr_toOne = []\<rparr>"

definition sample_predicate :: policy_predicate where
  "sample_predicate = PpWhere (VObj [(js ''sharedWith'', VObj [(js ''some'', VObj [(js ''user'', VStr (js ''ann''))])])])"

definition sample_rows :: "jsstring \<Rightarrow> document list" where
  "sample_rows t = (if t = js ''shares'' then [[(js ''doc'', VStr (js ''d1'')), (js ''user'', VStr (js ''ann''))]] else [])"

theorem resolveWhere_exact_witness:
  "\<exists>e. snd (resolveWhere (\<lambda>t s. (s, Inr (sample_rows t))) sample_relations (js ''docs'') sample_predicate ()) = Inr e \<and>
     row_matches e [(js ''_id'', VStr (js ''d1''))] \<and> \<not> row_matches e [(js ''_id'', VStr (js ''d2''))]"
proof -
  let ?fetch = "\<lambda>t s :: unit. (s, Inr (sample_rows t) :: document list result)"
  have r: "snd (resolveWhere ?fetch sample_relations (js ''docs'') sample_predicate ()) = Inr (Some (FOr [FCompare OpEq (js ''_id'') (VStr (js ''d1''))]))"
    by code_simp
  have "reads_rows (\<lambda>_. True) ?fetch sample_rows" by (simp add: reads_rows_def keeps_def)
  moreover have "predicate_ok sample_predicate" by code_simp
  moreover obtain s' where "resolveWhere ?fetch sample_relations (js ''docs'') sample_predicate () =
      (s', Inr (Some (FOr [FCompare OpEq (js ''_id'') (VStr (js ''d1''))])))"
    using r by (metis surj_pair snd_conv)
  ultimately have m: "row_matches (Some (FOr [FCompare OpEq (js ''_id'') (VStr (js ''d1''))])) doc =
      predicate_holds sample_rows sample_relations (js ''docs'') sample_predicate doc" for doc
    by (rule resolveWhere_exact[where I = "\<lambda>_. True", OF _ TrueI])
  have "predicate_holds sample_rows sample_relations (js ''docs'') sample_predicate [(js ''_id'', VStr (js ''d1''))]"
    "\<not> predicate_holds sample_rows sample_relations (js ''docs'') sample_predicate [(js ''_id'', VStr (js ''d2''))]"
    by code_simp+
  then show ?thesis using r m by auto
qed

end
