(* ===== verification/Validators.thy ===== *)
theory Validators
  imports Json_Codec
begin

text \<open>
  Document validators: \<^verbatim>\<open>packages/values/src/validator.ts\<close>, their JSON form and its reader
  \<^verbatim>\<open>validator-from-json.ts\<close>, and the table builder of \<^verbatim>\<open>schema.ts\<close>.  A failure carries its
  path and, for the message, what was expected.
\<close>

section \<open>Validators (validator.ts)\<close>

datatype validator =
    VdNull
  | VdBoolean
  | VdFloat64
  | VdInt64
  | VdString
  | VdBytes
  | VdAny
  | VdId jsstring
  | VdLiteral jvalue
  | VdArray validator
  | VdRecord validator validator
  | VdUnion "validator list"
  | VdOptional validator
  | VdObject "(jsstring \<times> validator) list"

datatype expectation =
    ExpectedNull | ExpectedBoolean | ExpectedNumber | ExpectedBigint | ExpectedString | ExpectedBytes
  | ExpectedId jsstring | ExpectedLiteral jvalue | ExpectedArray | ExpectedRecord | NoUnionMember | ExpectedObject
  | MissingField | ExtraField

record validation_failure =
  vf_path :: jsstring
  vf_message :: expectation

definition root_name :: jsstring where
  "root_name = js ''<root>''"

definition joinPath :: "jsstring \<Rightarrow> jsstring \<Rightarrow> jsstring" where
  "joinPath path key = (if path \<noteq> [] then path @ 46 # key else key)"

definition indexPath :: "jsstring \<Rightarrow> nat \<Rightarrow> jsstring" where
  "indexPath path i = (if path \<noteq> [] then path else root_name) @ js ''['' @ int_dec (int i) @ js '']''"

definition failure :: "jsstring \<Rightarrow> expectation \<Rightarrow> validation_failure list" where
  "failure path m = [\<lparr>vf_path = (if path \<noteq> [] then path else root_name), vf_message = m\<rparr>]"

definition isOptional :: "validator \<Rightarrow> bool" where
  "isOptional vd = (case vd of VdOptional _ \<Rightarrow> True | _ \<Rightarrow> False)"

fun indexed :: "nat \<Rightarrow> 'a list \<Rightarrow> (nat \<times> 'a) list" where
  "indexed i [] = []"
| "indexed i (x # xs) = (i, x) # indexed (Suc i) xs"

text \<open>The failures \<^verbatim>\<open>check\<close> pushes, in order.\<close>

fun check :: "validator \<Rightarrow> jvalue \<Rightarrow> jsstring \<Rightarrow> validation_failure list" where
  "check VdNull val path = (if val = VNull then [] else failure path ExpectedNull)"
| "check VdBoolean val path = (case val of VBool _ \<Rightarrow> [] | _ \<Rightarrow> failure path ExpectedBoolean)"
| "check VdFloat64 val path = (case val of VNum _ \<Rightarrow> [] | _ \<Rightarrow> failure path ExpectedNumber)"
| "check VdInt64 val path = (case val of VBigInt _ \<Rightarrow> [] | _ \<Rightarrow> failure path ExpectedBigint)"
| "check VdString val path = (case val of VStr _ \<Rightarrow> [] | _ \<Rightarrow> failure path ExpectedString)"
| "check VdBytes val path = (case val of VBytes _ \<Rightarrow> [] | _ \<Rightarrow> failure path ExpectedBytes)"
| "check VdAny val path = []"
| "check (VdId table) val path = (case val of VStr _ \<Rightarrow> [] | _ \<Rightarrow> failure path (ExpectedId table))"
| "check (VdLiteral l) val path = (if valuesEqual val l then [] else failure path (ExpectedLiteral l))"
| "check (VdArray element) val path =
     (case val of
        VArr xs \<Rightarrow> concat (map (\<lambda>(i, x). check element x (indexPath path i)) (indexed 0 xs))
      | _ \<Rightarrow> failure path ExpectedArray)"
| "check (VdRecord keys vals) val path =
     (case val of
        VObj es \<Rightarrow> concat (map (\<lambda>(k, x). check keys (VStr k) (joinPath path k) @ check vals x (joinPath path k)) es)
      | _ \<Rightarrow> failure path ExpectedRecord)"
| "check (VdUnion members) val path =
     (if list_ex (\<lambda>m. check m val path = []) members then [] else failure path NoUnionMember)"
| "check (VdOptional vd) val path = check vd val path"
| "check (VdObject flds) val path =
     (case val of
        VObj es \<Rightarrow>
          concat (map (\<lambda>(key, vd).
            (case map_of es key of
               None \<Rightarrow> if isOptional vd then [] else [\<lparr>vf_path = joinPath path key, vf_message = MissingField\<rparr>]
             | Some x \<Rightarrow> check vd x (joinPath path key))) flds) @
          concat (map (\<lambda>(key, _). if map_of flds key = None then [\<lparr>vf_path = joinPath path key, vf_message = ExtraField\<rparr>] else []) es)
      | _ \<Rightarrow> failure path ExpectedObject)"

definition validate :: "validator \<Rightarrow> jvalue \<Rightarrow> validation_failure list" where
  "validate vd val = check vd val []"

definition isValid :: "validator \<Rightarrow> jvalue \<Rightarrow> bool" where
  "isValid vd val = (validate vd val = [])"

section \<open>The JSON form (validator.ts, validator-from-json.ts)\<close>

datatype validator_json =
    VjNull | VjBoolean | VjNumber | VjBigint | VjString | VjBytes | VjAny
  | VjLiteral json
  | VjId jsstring
  | VjArray validator_json
  | VjRecord validator_json validator_json
  | VjUnion "validator_json list"
  | VjObject "(jsstring \<times> validator_json \<times> bool) list"

fun validatorToJson :: "validator \<Rightarrow> validator_json" where
  "validatorToJson VdNull = VjNull"
| "validatorToJson VdBoolean = VjBoolean"
| "validatorToJson VdFloat64 = VjNumber"
| "validatorToJson VdInt64 = VjBigint"
| "validatorToJson VdString = VjString"
| "validatorToJson VdBytes = VjBytes"
| "validatorToJson VdAny = VjAny"
| "validatorToJson (VdId table) = VjId table"
| "validatorToJson (VdLiteral l) = VjLiteral (convexToJson l)"
| "validatorToJson (VdArray element) = VjArray (validatorToJson element)"
| "validatorToJson (VdRecord keys vals) = VjRecord (validatorToJson keys) (validatorToJson vals)"
| "validatorToJson (VdUnion members) = VjUnion (map validatorToJson members)"
| "validatorToJson (VdOptional vd) = validatorToJson vd"
| "validatorToJson (VdObject flds) = VjObject (map (\<lambda>(key, vd). (key, validatorToJson vd, isOptional vd)) flds)"

fun validatorFromJson :: "validator_json \<Rightarrow> validator result" where
  "validatorFromJson VjNull = Inr VdNull"
| "validatorFromJson VjBoolean = Inr VdBoolean"
| "validatorFromJson VjNumber = Inr VdFloat64"
| "validatorFromJson VjBigint = Inr VdInt64"
| "validatorFromJson VjString = Inr VdString"
| "validatorFromJson VjBytes = Inr VdBytes"
| "validatorFromJson VjAny = Inr VdAny"
| "validatorFromJson (VjId table) = Inr (VdId table)"
| "validatorFromJson (VjLiteral j) = res_bind (jsonToConvex j) (\<lambda>l. Inr (VdLiteral l))"
| "validatorFromJson (VjArray e) = res_bind (validatorFromJson e) (\<lambda>vd. Inr (VdArray vd))"
| "validatorFromJson (VjRecord k e) =
     res_bind (validatorFromJson k) (\<lambda>keys. res_bind (validatorFromJson e) (\<lambda>vals. Inr (VdRecord keys vals)))"
| "validatorFromJson (VjUnion ms) = res_bind (res_map validatorFromJson ms) (\<lambda>members. Inr (VdUnion members))"
| "validatorFromJson (VjObject fs) =
     res_bind (res_map (\<lambda>(key, f, opt). res_bind (validatorFromJson f) (\<lambda>inner. Inr (key, if opt then VdOptional inner else inner))) fs)
       (\<lambda>flds. Inr (VdObject flds))"

section \<open>What a validator accepts\<close>

text \<open>The values of a validator, without paths or failures.\<close>

fun has_type :: "validator \<Rightarrow> jvalue \<Rightarrow> bool" where
  "has_type VdNull val = (val = VNull)"
| "has_type VdBoolean val = (case val of VBool _ \<Rightarrow> True | _ \<Rightarrow> False)"
| "has_type VdFloat64 val = (case val of VNum _ \<Rightarrow> True | _ \<Rightarrow> False)"
| "has_type VdInt64 val = (case val of VBigInt _ \<Rightarrow> True | _ \<Rightarrow> False)"
| "has_type VdString val = (case val of VStr _ \<Rightarrow> True | _ \<Rightarrow> False)"
| "has_type VdBytes val = (case val of VBytes _ \<Rightarrow> True | _ \<Rightarrow> False)"
| "has_type VdAny val = True"
| "has_type (VdId table) val = (case val of VStr _ \<Rightarrow> True | _ \<Rightarrow> False)"
| "has_type (VdLiteral l) val = (compareValues val l = CEq)"
| "has_type (VdArray element) val = (case val of VArr xs \<Rightarrow> \<forall>x \<in> set xs. has_type element x | _ \<Rightarrow> False)"
| "has_type (VdRecord keys vals) val =
     (case val of VObj es \<Rightarrow> \<forall>(k, x) \<in> set es. has_type keys (VStr k) \<and> has_type vals x | _ \<Rightarrow> False)"
| "has_type (VdUnion members) val = (\<exists>m \<in> set members. has_type m val)"
| "has_type (VdOptional vd) val = has_type vd val"
| "has_type (VdObject flds) val =
     (case val of
        VObj es \<Rightarrow> fst ` set es \<subseteq> fst ` set flds \<and>
          (\<forall>(key, vd) \<in> set flds. case map_of es key of None \<Rightarrow> isOptional vd | Some x \<Rightarrow> has_type vd x)
      | _ \<Rightarrow> False)"

lemma failure_not_Nil [simp]: "failure path m \<noteq> []" "[] \<noteq> failure path m"
  by (simp_all add: failure_def)

lemma indexed_snd: "(\<forall>(i, x) \<in> set (indexed n xs). P x) \<longleftrightarrow> (\<forall>x \<in> set xs. P x)"
  by (induction n xs rule: indexed.induct) auto

lemma check_has_type: "check vd val path = [] \<longleftrightarrow> has_type vd val"
proof (induction vd val path rule: check.induct)
  case (10 element val path)
  show ?case
  proof (cases val)
    case (VArr xs)
    have "check (VdArray element) val path = [] \<longleftrightarrow> (\<forall>(i, x) \<in> set (indexed 0 xs). has_type element x)"
      using 10[OF VArr] by (fastforce simp: VArr)
    then show ?thesis by (simp add: VArr indexed_snd)
  qed simp_all
next
  case (11 keys vals val path)
  then show ?case by (cases val) fastforce+
next
  case (14 flds val path)
  show ?case
  proof (cases val)
    case (VObj es)
    have "(\<forall>(key, vd) \<in> set flds. (case map_of es key of
               None \<Rightarrow> if isOptional vd then [] else [\<lparr>vf_path = joinPath path key, vf_message = MissingField\<rparr>]
             | Some x \<Rightarrow> check vd x (joinPath path key)) = []) \<longleftrightarrow>
        (\<forall>(key, vd) \<in> set flds. case map_of es key of None \<Rightarrow> isOptional vd | Some x \<Rightarrow> has_type vd x)"
      using 14[OF VObj] by (intro ball_cong refl) (auto split: option.splits)
    moreover have "(\<forall>(key, x) \<in> set es. map_of flds key \<noteq> None) \<longleftrightarrow> fst ` set es \<subseteq> fst ` set flds"
      by (force simp: map_of_eq_None_iff)
    ultimately show ?thesis by (auto simp: VObj split: if_splits)
  qed simp_all
qed (auto simp: list_ex_iff valuesEqual_def split: jvalue.splits)

text \<open>Validation reports no failure exactly for the values the validator describes, wherever in a
  document they sit.\<close>

theorem check_exact: "check vd val path = [] \<longleftrightarrow> has_type vd val"
  by (rule check_has_type)

section \<open>The JSON form keeps the validator\<close>

fun literals_ok :: "validator \<Rightarrow> bool" where
  "literals_ok (VdLiteral l) = value_ok l"
| "literals_ok (VdArray e) = literals_ok e"
| "literals_ok (VdRecord k e) = (literals_ok k \<and> literals_ok e)"
| "literals_ok (VdUnion ms) = list_all literals_ok ms"
| "literals_ok (VdOptional e) = literals_ok e"
| "literals_ok (VdObject fs) = list_all (\<lambda>(key, e). literals_ok e) fs"
| "literals_ok _ = True"

text \<open>The validator an exported one is read back as: markers of optionality survive on fields only.\<close>

fun strip :: "validator \<Rightarrow> validator" where
  "strip (VdArray e) = VdArray (strip e)"
| "strip (VdRecord k e) = VdRecord (strip k) (strip e)"
| "strip (VdUnion ms) = VdUnion (map strip ms)"
| "strip (VdOptional e) = strip e"
| "strip (VdObject fs) = VdObject (map (\<lambda>(key, e). (key, if isOptional e then VdOptional (strip e) else strip e)) fs)"
| "strip e = e"

lemma isOptional_strip: "isOptional (strip vd) = False"
  by (induction vd rule: strip.induct) (auto simp: isOptional_def)

lemma res_map_map_Inr: "(\<And>x. x \<in> set xs \<Longrightarrow> f (g x) = Inr (h x)) \<Longrightarrow> res_map f (map g xs) = Inr (map h xs)"
  by (induction xs) auto

lemma read_back: "literals_ok vd \<Longrightarrow> validatorFromJson (validatorToJson vd) = Inr (strip vd)"
proof (induction vd rule: strip.induct)
  case (3 ms)
  then show ?case using res_map_map_Inr[of ms validatorFromJson validatorToJson strip] by (simp add: list_all_iff)
next
  case (5 fs)
  let ?f = "\<lambda>(key, f, opt). res_bind (validatorFromJson f) (\<lambda>inner. Inr (key, if opt then VdOptional inner else inner))"
  have "res_map ?f (map (\<lambda>(key, e). (key, validatorToJson e, isOptional e)) fs) =
      Inr (map (\<lambda>(key, e). (key, if isOptional e then VdOptional (strip e) else strip e)) fs)"
    by (rule res_map_map_Inr) (use 5 in \<open>auto simp: list_all_iff\<close>)
  then show ?case by simp
qed (auto simp: json_roundtrip)

lemma strip_check: "check (strip vd) val path = check vd val path"
proof (induction vd arbitrary: val path rule: strip.induct)
  case (5 fs)
  have m: "map_of (map (\<lambda>(key, e). (key, if isOptional e then VdOptional (strip e) else strip e)) fs) k = None \<longleftrightarrow> map_of fs k = None" for k
    by (induction fs) auto
  have "map (\<lambda>(key, vd). g key (isOptional vd) (check vd)) (map (\<lambda>(key, e). (key, if isOptional e then VdOptional (strip e) else strip e)) fs) =
      map (\<lambda>(key, vd). g key (isOptional vd) (check vd)) fs" for g :: "_ \<Rightarrow> _ \<Rightarrow> _ \<Rightarrow> validation_failure list"
  proof -
    have "check (if isOptional e then VdOptional (strip e) else strip e) = check e" if "(key, e) \<in> set fs" for key e
      using 5[OF that refl] that by (auto simp: fun_eq_iff)
    moreover have "isOptional (if isOptional e then VdOptional (strip e) else strip e) = isOptional e" for e
      using isOptional_strip by (auto simp: isOptional_def)
    ultimately show ?thesis by auto
  qed
  note eq = this[of "\<lambda>key opt chk. case map_of es key of
      None \<Rightarrow> if opt then [] else [\<lparr>vf_path = joinPath path key, vf_message = MissingField\<rparr>] | Some x \<Rightarrow> chk x (joinPath path key)" for es]
  show ?case using eq by (cases val) (simp_all add: m del: map_map)
next
  case (3 ms)
  then show ?case by (auto simp: list_ex_iff)
qed (auto split: jvalue.splits)

text \<open>The engine's copy of a validator, rebuilt from the JSON the schema exports, reports the same
  failures on every val.\<close>

theorem validator_json_roundtrip:
  assumes "literals_ok vd"
  shows "\<exists>vd'. validatorFromJson (validatorToJson vd) = Inr vd' \<and> validate vd' val = validate vd val"
  using read_back[OF assms] by (simp add: validate_def strip_check)

theorem validator_json_roundtrip_witness:
  "\<exists>vd'. validatorFromJson (validatorToJson (VdObject [(js ''tag'', VdOptional (VdLiteral (VStr (js ''a''))))])) = Inr vd' \<and>
     validate vd' (VObj []) = []"
  using validator_json_roundtrip[of "VdObject [(js ''tag'', VdOptional (VdLiteral (VStr (js ''a''))))]" "VObj []"]
  by (simp add: validate_def isOptional_def)

section \<open>Table definitions (schema.ts)\<close>

record index_definition =
  xd_indexDescriptor :: jsstring
  xd_fields :: "jsstring list"
  xd_unique :: bool

record search_index_definition =
  sd_indexDescriptor :: jsstring
  sd_searchField :: jsstring
  sd_filterFields :: "jsstring list"

record vector_index_definition =
  ve_indexDescriptor :: jsstring
  ve_vectorField :: jsstring
  ve_dimensions :: f64
  ve_filterFields :: "jsstring list"

record relation_definition =
  rl_name :: jsstring
  rl_table :: jsstring
  rl_field :: jsstring

record table_definition =
  td_fields :: "(jsstring \<times> validator) list"
  td_indexes :: "index_definition list"
  td_searchIndexes :: "search_index_definition list"
  td_vectorIndexes :: "vector_index_definition list"
  td_shardKey :: "jsstring option"
  td_global :: bool
  td_relations :: "relation_definition list"

definition defineTable :: "(jsstring \<times> validator) list \<Rightarrow> table_definition" where
  "defineTable flds = \<lparr>td_fields = flds, td_indexes = [], td_searchIndexes = [], td_vectorIndexes = [], td_shardKey = None,
     td_global = False, td_relations = []\<rparr>"

definition td_index :: "jsstring \<Rightarrow> jsstring list \<Rightarrow> bool \<Rightarrow> table_definition \<Rightarrow> table_definition" where
  "td_index name flds unique t =
     t\<lparr>td_indexes := td_indexes t @ [\<lparr>xd_indexDescriptor = name, xd_fields = flds, xd_unique = unique\<rparr>]\<rparr>"

definition td_searchIndex :: "jsstring \<Rightarrow> jsstring \<Rightarrow> jsstring list \<Rightarrow> table_definition \<Rightarrow> table_definition" where
  "td_searchIndex name field filters t =
     t\<lparr>td_searchIndexes := td_searchIndexes t @ [\<lparr>sd_indexDescriptor = name, sd_searchField = field, sd_filterFields = filters\<rparr>]\<rparr>"

definition td_vectorIndex :: "jsstring \<Rightarrow> jsstring \<Rightarrow> f64 \<Rightarrow> jsstring list \<Rightarrow> table_definition \<Rightarrow> table_definition" where
  "td_vectorIndex name field dimensions filters t =
     t\<lparr>td_vectorIndexes := td_vectorIndexes t @
       [\<lparr>ve_indexDescriptor = name, ve_vectorField = field, ve_dimensions = dimensions, ve_filterFields = filters\<rparr>]\<rparr>"

definition td_setShardKey :: "jsstring \<Rightarrow> table_definition \<Rightarrow> table_definition result" where
  "td_setShardKey field t =
     (if td_global t then Inl (GenericError ''a table cannot be both .shardKey() and .global()'') else Inr (t\<lparr>td_shardKey := Some field\<rparr>))"

definition td_setGlobal :: "table_definition \<Rightarrow> table_definition result" where
  "td_setGlobal t =
     (if td_shardKey t \<noteq> None then Inl (GenericError ''a table cannot be both .global() and .shardKey()'') else Inr (t\<lparr>td_global := True\<rparr>))"

definition td_relation :: "jsstring \<Rightarrow> jsstring \<Rightarrow> jsstring \<Rightarrow> table_definition \<Rightarrow> table_definition" where
  "td_relation name table field t =
     t\<lparr>td_relations := td_relations t @ [\<lparr>rl_name = name, rl_table = table, rl_field = field\<rparr>]\<rparr>"

record table_definition_json =
  tj_documentType :: validator_json
  tj_indexes :: "index_definition list"
  tj_searchIndexes :: "search_index_definition list"
  tj_vectorIndexes :: "vector_index_definition list"
  tj_shardKey :: "jsstring option"
  tj_global :: bool
  tj_relations :: "relation_definition list"

definition td_export :: "table_definition \<Rightarrow> table_definition_json" where
  "td_export t = \<lparr>tj_documentType = validatorToJson (VdObject (td_fields t)), tj_indexes = td_indexes t,
     tj_searchIndexes = td_searchIndexes t, tj_vectorIndexes = td_vectorIndexes t, tj_shardKey = td_shardKey t,
     tj_global = td_global t, tj_relations = td_relations t\<rparr>"

record schema_json =
  sj_tables :: "(jsstring, table_definition_json) jsmap"
  sj_schemaValidation :: bool

definition schema_export :: "(jsstring \<times> table_definition) list \<Rightarrow> bool option \<Rightarrow> schema_json" where
  "schema_export tables schemaValidation =
     \<lparr>sj_tables = map (\<lambda>(name, t). (name, td_export t)) tables,
      sj_schemaValidation = (case schemaValidation of None \<Rightarrow> True | Some b \<Rightarrow> b)\<rparr>"

text \<open>However it is built, a table is never both sharded and global.\<close>

inductive table_built :: "table_definition \<Rightarrow> bool" where
  "table_built (defineTable flds)"
| "table_built t \<Longrightarrow> table_built (td_index name flds u t)"
| "table_built t \<Longrightarrow> table_built (td_searchIndex name f fs t)"
| "table_built t \<Longrightarrow> table_built (td_vectorIndex name f d fs t)"
| "table_built t \<Longrightarrow> td_setShardKey f t = Inr t' \<Longrightarrow> table_built t'"
| "table_built t \<Longrightarrow> td_setGlobal t = Inr t' \<Longrightarrow> table_built t'"
| "table_built t \<Longrightarrow> table_built (td_relation name tb f t)"

lemma sharded_not_global: "table_built t \<Longrightarrow> td_shardKey t = None \<or> \<not> td_global t"
  by (induction rule: table_built.induct)
     (auto simp: defineTable_def td_index_def td_searchIndex_def td_vectorIndex_def td_setShardKey_def td_setGlobal_def td_relation_def
       split: if_splits)

end
