(* ===== verification/Table_Registry.thy ===== *)
theory Table_Registry
  imports Sharding
begin

text \<open>
  \<^verbatim>\<open>packages/id-codec/src/table-registry.ts\<close>: the in-memory registry that gives each table
  its stable number, and the full names of component tables.
\<close>

datatype table_visibility = UserTable | SystemTable
datatype table_state = ActiveTable | CreatingTable | DeletingTable

record table_info =
  ti_name :: jsstring
  ti_number :: int
  ti_visibility :: table_visibility
  ti_state :: table_state
  ti_shardKey :: "jsstring option"

record table_registry =
  byName :: "(jsstring, table_info) jsmap"
  byNumber :: "(int, table_info) jsmap"
  nextUser :: int
  nextSystem :: int

definition SYSTEM_TABLE_NUMBER_MIN :: int where "SYSTEM_TABLE_NUMBER_MIN = 1"
definition SYSTEM_TABLE_NUMBER_MAX :: int where "SYSTEM_TABLE_NUMBER_MAX = 9999"
definition USER_TABLE_NUMBER_START :: int where "USER_TABLE_NUMBER_START = 10001"

definition isSystemTableName :: "jsstring \<Rightarrow> bool" where
  "isSystemTableName name = (name \<noteq> [] \<and> hd name = 95)"

definition getFullTableName :: "jsstring \<Rightarrow> jsstring \<Rightarrow> jsstring" where
  "getFullTableName name componentPath =
     (if componentPath \<noteq> [] then componentPath @ slash # name else name)"

text \<open>Component path and name: the split at the last slash.\<close>

definition parseFullTableName :: "jsstring \<Rightarrow> jsstring \<times> jsstring" where
  "parseFullTableName fullName =
     (if slash \<notin> set fullName then ([], fullName)
      else (let name = rev (takeWhile (\<lambda>c. c \<noteq> slash) (rev fullName))
            in (take (length fullName - length name - 1) fullName, name)))"

definition registry_empty :: table_registry where
  "registry_empty = \<lparr>byName = [], byNumber = [], nextUser = USER_TABLE_NUMBER_START,
     nextSystem = SYSTEM_TABLE_NUMBER_MIN\<rparr>"

definition getByName :: "table_registry \<Rightarrow> jsstring \<Rightarrow> table_info option" where
  "getByName r name = map_of (byName r) name"

definition getByNumber :: "table_registry \<Rightarrow> int \<Rightarrow> table_info option" where
  "getByNumber r n = map_of (byNumber r) n"

definition registry_list :: "table_registry \<Rightarrow> table_info list" where
  "registry_list r = map snd (byName r)"

definition default_visibility :: "jsstring \<Rightarrow> table_visibility option \<Rightarrow> table_visibility" where
  "default_visibility name v =
     (case v of Some x \<Rightarrow> x | None \<Rightarrow> if isSystemTableName name then SystemTable else UserTable)"

definition allocate ::
  "table_registry \<Rightarrow> jsstring \<Rightarrow> table_visibility option \<Rightarrow> jsstring option \<Rightarrow> (table_info \<times> table_registry) result" where
  "allocate r name visOpt shardKey =
     (case map_of (byName r) name of
        Some existing \<Rightarrow> Inr (existing, r)
      | None \<Rightarrow>
          (let visibility = default_visibility name visOpt
           in res_bind
                (if visibility = SystemTable
                 then (if nextSystem r > SYSTEM_TABLE_NUMBER_MAX then Inl (GenericError ''exhausted system table numbers'')
                       else Inr (nextSystem r, r\<lparr>nextSystem := nextSystem r + 1\<rparr>))
                 else Inr (nextUser r, r\<lparr>nextUser := nextUser r + 1\<rparr>))
                (\<lambda>(n, r1).
                  (let info = \<lparr>ti_name = name, ti_number = n, ti_visibility = visibility, ti_state = ActiveTable,
                               ti_shardKey = shardKey\<rparr>
                   in Inr (info, r1\<lparr>byName := AList.update name info (byName r1),
                                    byNumber := AList.update n info (byNumber r1)\<rparr>)))))"

definition preassign ::
  "table_registry \<Rightarrow> jsstring \<Rightarrow> int \<Rightarrow> table_visibility option \<Rightarrow> jsstring option \<Rightarrow> table_state option \<Rightarrow>
     table_info \<times> table_registry" where
  "preassign r name n visOpt shardKey st =
     (case map_of (byName r) name of
        Some existing \<Rightarrow> (existing, r)
      | None \<Rightarrow>
          (let visibility = default_visibility name visOpt;
               info = \<lparr>ti_name = name, ti_number = n, ti_visibility = visibility,
                       ti_state = (case st of Some s \<Rightarrow> s | None \<Rightarrow> ActiveTable), ti_shardKey = shardKey\<rparr>;
               r1 = r\<lparr>byName := AList.update name info (byName r), byNumber := AList.update n info (byNumber r)\<rparr>
           in (info, if visibility = SystemTable then r1\<lparr>nextSystem := max (nextSystem r1) (n + 1)\<rparr>
                     else r1\<lparr>nextUser := max (nextUser r1) (n + 1)\<rparr>)))"

section \<open>Invariant\<close>

definition in_band :: "table_visibility \<Rightarrow> int \<Rightarrow> bool" where
  "in_band v n = (if v = SystemTable then SYSTEM_TABLE_NUMBER_MIN \<le> n \<and> n \<le> SYSTEM_TABLE_NUMBER_MAX
                  else USER_TABLE_NUMBER_START \<le> n)"

definition next_of :: "table_registry \<Rightarrow> table_visibility \<Rightarrow> int" where
  "next_of r v = (if v = SystemTable then nextSystem r else nextUser r)"

text \<open>An entry sits where its name and its number say, in its band and below the next number.\<close>

definition entry_ok :: "table_registry \<Rightarrow> table_info \<Rightarrow> bool" where
  "entry_ok r i \<longleftrightarrow>
     map_of (byName r) (ti_name i) = Some i \<and> map_of (byNumber r) (ti_number i) = Some i \<and>
     in_band (ti_visibility i) (ti_number i) \<and> ti_number i < next_of r (ti_visibility i)"

definition registry_ok :: "table_registry \<Rightarrow> bool" where
  "registry_ok r \<longleftrightarrow>
     jsmap_ok (byName r) \<and> jsmap_ok (byNumber r) \<and>
     SYSTEM_TABLE_NUMBER_MIN \<le> nextSystem r \<and> USER_TABLE_NUMBER_START \<le> nextUser r \<and>
     (\<forall>t i. map_of (byName r) t = Some i \<longrightarrow> ti_name i = t \<and> entry_ok r i) \<and>
     (\<forall>n i. map_of (byNumber r) n = Some i \<longrightarrow> ti_number i = n \<and> entry_ok r i)"

lemma registry_ok_empty: "registry_ok registry_empty"
  by (simp add: registry_ok_def registry_empty_def)

lemma registry_ok_add:
  assumes ok: "registry_ok r" and fresh: "map_of (byName r) name = None" "map_of (byNumber r) n = None"
    and band: "in_band v n" and le: "nextSystem r \<le> ns" "nextUser r \<le> nu"
    and lt: "n < (if v = SystemTable then ns else nu)"
    and i: "ti_name i = name" "ti_number i = n" "ti_visibility i = v"
    and r': "byName r' = AList.update name i (byName r)" "byNumber r' = AList.update n i (byNumber r)"
      "nextUser r' = nu" "nextSystem r' = ns"
  shows "registry_ok r'"
proof -
  have "entry_ok r' i" using band lt by (simp add: entry_ok_def i r' next_of_def split: if_splits)
  moreover have "entry_ok r' j" if "entry_ok r j" for j
  proof -
    have "ti_name j \<noteq> name" "ti_number j \<noteq> n" using that fresh by (auto simp: entry_ok_def)
    moreover have "next_of r v \<le> next_of r' v" for v using le by (simp add: next_of_def r')
    ultimately show ?thesis using that unfolding entry_ok_def r' by (auto intro: order_less_le_trans)
  qed
  ultimately show ?thesis using ok le unfolding registry_ok_def by (simp add: i r')
qed

lemma next_fresh:
  assumes "registry_ok r"
  shows "nextSystem r \<le> SYSTEM_TABLE_NUMBER_MAX \<Longrightarrow> map_of (byNumber r) (nextSystem r) = None"
    and "map_of (byNumber r) (nextUser r) = None"
proof -
  have b: "in_band (ti_visibility i) n" "n < next_of r (ti_visibility i)" if "map_of (byNumber r) n = Some i" for n i
    using assms that unfolding registry_ok_def entry_ok_def by auto
  have lo: "USER_TABLE_NUMBER_START \<le> nextUser r" using assms unfolding registry_ok_def by blast
  show "map_of (byNumber r) (nextSystem r) = None" if "nextSystem r \<le> SYSTEM_TABLE_NUMBER_MAX"
    using b[of "nextSystem r"] that
    by (cases "map_of (byNumber r) (nextSystem r)")
      (auto simp: in_band_def next_of_def SYSTEM_TABLE_NUMBER_MAX_def USER_TABLE_NUMBER_START_def split: if_splits)
  show "map_of (byNumber r) (nextUser r) = None"
    using b[of "nextUser r"] lo
    by (cases "map_of (byNumber r) (nextUser r)")
      (auto simp: in_band_def next_of_def SYSTEM_TABLE_NUMBER_MAX_def USER_TABLE_NUMBER_START_def split: if_splits)
qed

text \<open>Allocation keeps the registry consistent and never disturbs an existing table; a name not
  yet known gets a number no table has, in the band of its visibility.\<close>

theorem allocate_correct:
  assumes "registry_ok r" and "allocate r name vis sk = Inr (i, r')"
  shows "registry_ok r' \<and> getByName r' name = Some i \<and> getByNumber r' (ti_number i) = Some i \<and>
    (\<forall>t. t \<noteq> name \<longrightarrow> getByName r' t = getByName r t) \<and>
    (getByName r name = None \<longrightarrow> getByNumber r (ti_number i) = None \<and> in_band (ti_visibility i) (ti_number i)) \<and>
    (\<forall>j. getByName r name = Some j \<longrightarrow> i = j \<and> r' = r)"
proof (cases "map_of (byName r) name")
  case (Some j)
  then have "entry_ok r j" "ti_name j = name" using assms(1) unfolding registry_ok_def by blast+
  then show ?thesis using assms Some by (auto simp: allocate_def getByName_def getByNumber_def entry_ok_def)
next
  case None
  let ?v = "default_visibility name vis"
  note fr = next_fresh[OF assms(1)]
  have lo: "SYSTEM_TABLE_NUMBER_MIN \<le> nextSystem r" "USER_TABLE_NUMBER_START \<le> nextUser r"
    using assms(1) unfolding registry_ok_def by blast+
  show ?thesis
  proof (cases "?v = SystemTable")
    case True
    then have n: "nextSystem r \<le> SYSTEM_TABLE_NUMBER_MAX"
      using assms(2) None by (auto simp: allocate_def Let_def split: if_splits)
    note ok = registry_ok_add[OF assms(1) None fr(1)[OF n], of SystemTable "nextSystem r + 1" "nextUser r" i r']
    show ?thesis using assms(2) None True n lo fr(1)[OF n] ok
      by (auto simp: allocate_def Let_def in_band_def getByName_def getByNumber_def split: if_splits)
  next
    case False
    note ok = registry_ok_add[OF assms(1) None fr(2), of UserTable "nextSystem r" "nextUser r + 1" i r']
    have v: "?v = UserTable" using False by (cases ?v) auto
    show ?thesis using assms(2) None v lo fr(2) ok
      by (auto simp: allocate_def Let_def in_band_def getByName_def getByNumber_def split: if_splits)
  qed
qed

theorem allocate_correct_witness:
  "\<exists>i r'. allocate registry_empty (js ''_storage'') None None = Inr (i, r') \<and> registry_ok r' \<and>
     getByName r' (js ''_storage'') = Some i \<and> in_band (ti_visibility i) (ti_number i)"
proof -
  obtain i r' where a: "allocate registry_empty (js ''_storage'') None None = Inr (i, r')"
    by (auto simp: allocate_def registry_empty_def default_visibility_def Let_def SYSTEM_TABLE_NUMBER_MIN_def
        SYSTEM_TABLE_NUMBER_MAX_def isSystemTableName_def js_def)
  have "getByName registry_empty (js ''_storage'') = None" by (simp add: registry_empty_def getByName_def)
  then show ?thesis using allocate_correct[OF registry_ok_empty a] a by blast
qed

text \<open>Seeding a name at a live number of its own band keeps the registry consistent, so that no
  later allocation can mint that number again.\<close>

theorem preassign_correct:
  assumes "registry_ok r" and "preassign r name n vis sk st = (i, r')"
    and "getByNumber r n = None" and "in_band (default_visibility name vis) n"
  shows "registry_ok r' \<and> getByName r' name = Some i \<and>
    (getByName r name = None \<longrightarrow> getByNumber r' n = Some i \<and> n < next_of r' (ti_visibility i)) \<and>
    (\<forall>j. getByName r name = Some j \<longrightarrow> i = j \<and> r' = r)"
proof (cases "map_of (byName r) name")
  case (Some j)
  then show ?thesis using assms by (auto simp: preassign_def getByName_def)
next
  case None
  let ?v = "default_visibility name vis"
  have num: "map_of (byNumber r) n = None" using assms(3) by (simp add: getByNumber_def)
  note ok = registry_ok_add[OF assms(1) None num assms(4),
      of "if ?v = SystemTable then max (nextSystem r) (n + 1) else nextSystem r"
         "if ?v = SystemTable then nextUser r else max (nextUser r) (n + 1)" i r']
  show ?thesis using assms(2) None ok
    by (auto simp: preassign_def Let_def getByName_def getByNumber_def next_of_def split: if_splits)
qed

theorem preassign_correct_witness:
  "\<exists>i r'. preassign registry_empty (js ''_storage'') 20 None None None = (i, r') \<and> registry_ok r' \<and>
     getByNumber r' 20 = Some i \<and> 20 < next_of r' (ti_visibility i)"
proof -
  obtain i r' where a: "preassign registry_empty (js ''_storage'') 20 None None None = (i, r')" by fastforce
  have "in_band (default_visibility (js ''_storage'') None) 20"
    by (simp add: default_visibility_def isSystemTableName_def js_def in_band_def SYSTEM_TABLE_NUMBER_MIN_def
        SYSTEM_TABLE_NUMBER_MAX_def)
  then show ?thesis using preassign_correct[OF registry_ok_empty a] a
    by (simp add: registry_empty_def getByName_def getByNumber_def)
qed

lemma parse_getFullTableName:
  assumes "slash \<notin> set name" shows "parseFullTableName (getFullTableName name p) = (p, name)"
proof -
  have "takeWhile (\<lambda>c. c \<noteq> slash) (rev name @ slash # r) = rev name" for r
    using assms by (subst takeWhile_append2) auto
  then show ?thesis using assms by (simp add: getFullTableName_def parseFullTableName_def Let_def)
qed

end
