(* ===== verification/Catalog.thy ===== *)
theory Catalog
  imports Policy Validators Transactor Sharding Table_Registry
begin

text \<open>
  What the kernel consults and stages besides the transaction: \<^verbatim>\<open>executor/src/profile.ts\<close> (what a
  function may do), \<^verbatim>\<open>catalog.ts\<close> (tables and indexes by name), \<^verbatim>\<open>global-txn.ts\<close> (a mutation's writes of
  global tables over the D1 store, whose two reads are parameters).
\<close>

section \<open>Profiles\<close>

datatype udf_type = UdfQuery | UdfMutation | UdfAction | UdfHttpAction
datatype capability_mode = Forbidden | Seeded | Native

record udf_capabilities =
  cap_dbRead :: bool
  cap_dbWrite :: bool
  cap_random :: capability_mode
  cap_clock :: capability_mode
  cap_network :: capability_mode

fun profileFor :: "udf_type \<Rightarrow> udf_capabilities" where
  "profileFor UdfQuery = \<lparr>cap_dbRead = True, cap_dbWrite = False, cap_random = Seeded, cap_clock = Forbidden, cap_network = Forbidden\<rparr>"
| "profileFor UdfMutation = \<lparr>cap_dbRead = True, cap_dbWrite = True, cap_random = Seeded, cap_clock = Forbidden, cap_network = Forbidden\<rparr>"
| "profileFor UdfAction = \<lparr>cap_dbRead = False, cap_dbWrite = False, cap_random = Native, cap_clock = Native, cap_network = Native\<rparr>"
| "profileFor UdfHttpAction = \<lparr>cap_dbRead = False, cap_dbWrite = False, cap_random = Native, cap_clock = Native, cap_network = Native\<rparr>"

section \<open>Tables and indexes by name\<close>

datatype table_mode = RootTable | ShardTable | GlobalTable

record table_meta =
  tm_name :: jsstring
  tm_tableNumber :: int
  tm_documentValidator :: "validator option"
  tm_schemaValidation :: bool
  tm_shardKey :: "jsstring option"
  tm_mode :: table_mode

record index_catalog =
  ct_tables :: "(jsstring, table_meta) jsmap"
  ct_tablesByNumber :: "(int, table_meta) jsmap"
  ct_indexes :: "(jsstring, index_spec) jsmap"
  ct_indexesByTable :: "(jsstring, index_spec list) jsmap"

definition newCatalog :: index_catalog where
  "newCatalog = \<lparr>ct_tables = [], ct_tablesByNumber = [], ct_indexes = [], ct_indexesByTable = []\<rparr>"

definition document_validator :: "bool \<Rightarrow> validator_json option \<Rightarrow> validator option result" where
  "document_validator enabled documentType =
     (case documentType of
        Some (VjObject fs) \<Rightarrow> if enabled then res_bind (validatorFromJson (VjObject fs)) (\<lambda>v. Inr (Some v)) else Inr None
      | _ \<Rightarrow> Inr None)"

text \<open>An empty shard key is falsy.\<close>

definition truthy_key :: "jsstring option \<Rightarrow> jsstring option" where
  "truthy_key k = (if k = Some [] then None else k)"

definition table_meta_of ::
  "jsstring \<Rightarrow> int \<Rightarrow> validator option \<Rightarrow> bool \<Rightarrow> jsstring option \<Rightarrow> bool \<Rightarrow> table_meta" where
  "table_meta_of name n vd enabled shardKey global =
     \<lparr>tm_name = name, tm_tableNumber = n, tm_documentValidator = vd, tm_schemaValidation = enabled, tm_shardKey = shardKey,
      tm_mode = (if global then GlobalTable else if truthy_key shardKey \<noteq> None then ShardTable else RootTable)\<rparr>"

definition put_table :: "table_meta \<Rightarrow> index_catalog \<Rightarrow> index_catalog" where
  "put_table meta c =
     c\<lparr>ct_tables := AList.update (tm_name meta) meta (ct_tables c),
       ct_tablesByNumber := AList.update (tm_tableNumber meta) meta (ct_tablesByNumber c),
       ct_indexesByTable := (if map_of (ct_indexesByTable c) (tm_name meta) = None
                             then AList.update (tm_name meta) [] (ct_indexesByTable c) else ct_indexesByTable c)\<rparr>"

definition addTable ::
  "jsstring \<Rightarrow> int \<Rightarrow> validator_json option \<Rightarrow> bool option \<Rightarrow> jsstring option \<Rightarrow> bool \<Rightarrow> index_catalog \<Rightarrow> index_catalog result" where
  "addTable name n documentType schemaValidation shardKey global c =
     (let enabled = (schemaValidation \<noteq> Some False)
      in res_bind (document_validator enabled documentType) (\<lambda>vd.
           Inr (put_table (table_meta_of name n vd enabled shardKey global) c)))"

definition index_name :: "jsstring \<Rightarrow> jsstring \<Rightarrow> jsstring" where
  "index_name table index = table @ 46 # index"

definition addIndex :: "index_spec \<Rightarrow> index_catalog \<Rightarrow> index_catalog" where
  "addIndex spec c =
     (let c1 = (if map_of (ct_tables c) (is_table spec) = None
                then put_table (table_meta_of (is_table spec) (is_tableNumber spec) None True None False) c else c)
      in c1\<lparr>ct_indexes := AList.update (index_name (is_table spec) (is_index spec)) spec (ct_indexes c1),
            ct_indexesByTable := AList.map_entry (is_table spec) (\<lambda>specs. specs @ [spec]) (ct_indexesByTable c1)\<rparr>)"

definition getTable :: "index_catalog \<Rightarrow> jsstring \<Rightarrow> table_meta option" where
  "getTable c name = map_of (ct_tables c) name"

definition getTableByNumber :: "index_catalog \<Rightarrow> int \<Rightarrow> table_meta option" where
  "getTableByNumber c n = map_of (ct_tablesByNumber c) n"

definition getIndex :: "index_catalog \<Rightarrow> jsstring \<Rightarrow> jsstring \<Rightarrow> index_spec option" where
  "getIndex c table index = map_of (ct_indexes c) (index_name table index)"

definition indexesForTable :: "index_catalog \<Rightarrow> jsstring \<Rightarrow> index_spec list" where
  "indexesForTable c table = or_default (map_of (ct_indexesByTable c) table) []"

section \<open>Writes of global tables\<close>

datatype global_write_op =
    GlobalInsert jsstring document
  | GlobalReplace jsstring jsstring document
  | GlobalDelete jsstring jsstring

text \<open>The D1 store: a row by id, and the rows of an equality query with their ids.\<close>

record d1_store =
  d1_get :: "jsstring \<Rightarrow> jsstring \<Rightarrow> document option result"
  d1_queryByIndex :: "jsstring \<Rightarrow> jsstring \<Rightarrow> document \<Rightarrow> int option \<Rightarrow> (jsstring \<times> document) list result"

record global_txn =
  gt_ops :: "global_write_op list"
  gt_overlay :: "(jsstring, document option) jsmap"

definition newGlobalTxn :: global_txn where
  "newGlobalTxn = \<lparr>gt_ops = [], gt_overlay = []\<rparr>"

definition global_prefix :: "jsstring \<Rightarrow> jsstring" where
  "global_prefix table = table @ [0]"

definition global_key :: "jsstring \<Rightarrow> jsstring \<Rightarrow> jsstring" where
  "global_key table did = global_prefix table @ did"

definition stage_global :: "global_write_op \<Rightarrow> jsstring \<Rightarrow> document option \<Rightarrow> global_txn \<Rightarrow> global_txn" where
  "stage_global op k doc g = g\<lparr>gt_ops := gt_ops g @ [op], gt_overlay := AList.update k doc (gt_overlay g)\<rparr>"

text \<open>The kernel stages inserts with the id it minted.\<close>

definition stageInsert :: "jsstring \<Rightarrow> jsstring \<Rightarrow> document \<Rightarrow> global_txn \<Rightarrow> global_txn" where
  "stageInsert table did doc = stage_global (GlobalInsert table doc) (global_key table did) (Some doc)"

definition stageReplace :: "jsstring \<Rightarrow> jsstring \<Rightarrow> document \<Rightarrow> global_txn \<Rightarrow> global_txn" where
  "stageReplace table did doc =
     stage_global (GlobalReplace table did doc) (global_key table did) (Some (setObjectKey doc (js ''_id'') (VStr did)))"

definition stageDelete :: "jsstring \<Rightarrow> jsstring \<Rightarrow> global_txn \<Rightarrow> global_txn" where
  "stageDelete table did = stage_global (GlobalDelete table did) (global_key table did) None"

definition global_get :: "d1_store \<Rightarrow> jsstring \<Rightarrow> jsstring \<Rightarrow> global_txn \<Rightarrow> document option result" where
  "global_get d table did g =
     (case map_of (gt_overlay g) (global_key table did) of Some doc \<Rightarrow> Inr doc | None \<Rightarrow> d1_get d table did)"

text \<open>\<^verbatim>\<open>===\<close> of a property with a decoded value.\<close>

definition strict_equal :: "jvalue option \<Rightarrow> jvalue \<Rightarrow> bool" where
  "strict_equal a b =
     (case a of
        None \<Rightarrow> False
      | Some (VNum x) \<Rightarrow> (case b of VNum y \<Rightarrow> \<not> f64_is_nan x \<and> compareNumbers x y = CEq | _ \<Rightarrow> False)
      | Some (VArr _) \<Rightarrow> False
      | Some (VObj _) \<Rightarrow> False
      | Some (VBytes _) \<Rightarrow> False
      | Some v \<Rightarrow> v = b)"

definition global_matches :: "document \<Rightarrow> document \<Rightarrow> bool" where
  "global_matches eqs doc = list_all (\<lambda>(f, v). strict_equal (map_of doc f) v) eqs"

text \<open>\<^verbatim>\<open>xs.slice(0, n)\<close>.\<close>

definition slice_to :: "int \<Rightarrow> 'a list \<Rightarrow> 'a list" where
  "slice_to n xs = take (nat (if n < 0 then int (length xs) + n else n)) xs"

definition staged_rows :: "jsstring \<Rightarrow> document \<Rightarrow> (jsstring, document option) jsmap \<Rightarrow> document list" where
  "staged_rows table eqs overlay =
     concat (map (\<lambda>(k, doc). case doc of
         None \<Rightarrow> []
       | Some d \<Rightarrow> if take (length (global_prefix table)) k = global_prefix table \<and> global_matches eqs d then [d] else []) overlay)"

definition global_queryByIndex ::
  "d1_store \<Rightarrow> jsstring \<Rightarrow> jsstring \<Rightarrow> document \<Rightarrow> int option \<Rightarrow> global_txn \<Rightarrow> document list result" where
  "global_queryByIndex d table index eqs limit g =
     res_bind (d1_queryByIndex d table index eqs (map_option (\<lambda>n. n + int (length (gt_ops g))) limit)) (\<lambda>base.
       (let survivors = map snd (filter (\<lambda>(did, _). map_of (gt_overlay g) (global_key table did) = None) base);
            rows = staged_rows table eqs (gt_overlay g) @ survivors
        in Inr (case limit of None \<Rightarrow> rows | Some n \<Rightarrow> slice_to n rows)))"

definition hasWrites :: "global_txn \<Rightarrow> bool" where
  "hasWrites g = (gt_ops g \<noteq> [])"

end
