(* ===== verification/Kernel.thy ===== *)
theory Kernel
  imports Catalog
begin

text \<open>
  The syscalls of \<^verbatim>\<open>packages/executor/src/kernel.ts\<close>: what \<^verbatim>\<open>ctx.db\<close> does on behalf of a function.  A request
  is the parsed argument of a syscall, a response the parsed result.  The context is split in what an
  invocation fixes (\<open>kernel_env\<close>) and what its calls change (\<open>kernel_state\<close>); the rule context of the policies
  is a value of type \<open>'rc\<close> the application builds once per run (\<^verbatim>\<open>executor.ts\<close>).
\<close>

section \<open>State and context\<close>

record write_stores =
  ws_local :: bool
  ws_global :: bool

record collect_trace =
  kt_keyspace :: jsstring
  kt_bounds :: serialized_key_range
  kt_filters :: "filter_expr list"
  kt_order :: scan_order
  kt_fields :: "jsstring list"
  kt_docs :: "json list"
  kt_hadReadPolicy :: bool
  kt_hadLimit :: bool
  kt_token :: jsstring

record paginate_trace =
  pt_keyspace :: jsstring
  pt_bounds :: serialized_key_range
  pt_filters :: "filter_expr list"
  pt_order :: scan_order
  pt_fields :: "jsstring list"
  pt_hadReadPolicy :: bool
  pt_token :: jsstring
  pt_nextCursor :: "jsstring option"
  pt_hasMore :: bool
  pt_scanCapped :: bool

record 'rc kernel_state =
  ks_txn :: txn_ctx
  ks_logs :: "json list"
  ks_collectTrace :: "collect_trace list"
  ks_paginateTrace :: "paginate_trace list"
  ks_globalTxn :: "global_txn option"
  ks_writeStores :: "write_stores option"
  ks_globalReads :: "jsstring list"
  ks_ruleContext :: "'rc result option"
  ks_tokenSeq :: int

text \<open>\<open>ke_traced\<close> and \<open>ke_trackGlobals\<close>: the executor armed the traces, the set of global reads.\<close>

record 'rc kernel_env =
  ke_store :: doc_store
  ke_d1 :: d1_store
  ke_profile :: udf_capabilities
  ke_catalog :: index_catalog
  ke_namespace :: jsstring
  ke_privileged :: bool
  ke_policies :: "(jsstring, 'rc kernel_state table_policy) jsmap"
  ke_buildRule :: "('rc kernel_state, 'rc) st_result option"
  ke_relations :: relation_registry
  ke_shardId :: jsstring
  ke_numShards :: int
  ke_shardDeclared :: bool
  ke_snapshotTs :: int
  ke_traced :: bool
  ke_trackGlobals :: bool

type_synonym ('rc, 'a) kernel = "('rc kernel_state, 'a) st_result"

definition forbidden :: js_error where "forbidden = ConcileError ''ForbiddenOperationError''"
definition function_not_found :: js_error where "function_not_found = ConcileError ''FunctionNotFoundError''"
definition document_not_found :: js_error where "document_not_found = ConcileError ''DocumentNotFoundError''"
definition invalid_client_id :: js_error where "invalid_client_id = ConcileError ''InvalidClientIdError''"
definition id_already_in_use :: js_error where "id_already_in_use = ConcileError ''IdAlreadyInUseError''"
definition document_validation :: js_error where "document_validation = ConcileError ''DocumentValidationError''"
definition cross_store_write :: js_error where "cross_store_write = GenericError ''CrossStoreWriteError''"

definition on_txn :: "(txn_ctx \<Rightarrow> txn_ctx \<times> 'a result) \<Rightarrow> ('rc, 'a) kernel" where
  "on_txn f s = (let (c, r) = f (ks_txn s) in (s\<lparr>ks_txn := c\<rparr>, r))"

definition upd_txn :: "(txn_ctx \<Rightarrow> txn_ctx) \<Rightarrow> ('rc, unit) kernel" where
  "upd_txn f s = (s\<lparr>ks_txn := f (ks_txn s)\<rparr>, Inr ())"

definition upd :: "('rc kernel_state \<Rightarrow> 'rc kernel_state) \<Rightarrow> ('rc, unit) kernel" where
  "upd f s = (f s, Inr ())"

text \<open>\<^verbatim>\<open>Number(bigint)\<close>.\<close>

definition number_of_int :: "int \<Rightarrow> f64" where
  "number_of_int i =
     (if i = 0 then 0
      else (let p = round53 (nat \<bar>i\<bar>); e = bitlen p - 1;
                mag = (if e > 1023 then 2047 * 2 ^ 52 else (e + 1023) * 2 ^ 52 + (p * 2 ^ 52 div 2 ^ e - 2 ^ 52))
            in word_of_nat (mag + (if i < 0 then 2 ^ 63 else 0))))"

section \<open>Guards\<close>

text \<open>The rule context, built on the first use and kept, a failure included.\<close>

definition rule_context :: "('rc, 'rc) kernel \<Rightarrow> ('rc, 'rc) kernel" where
  "rule_context build s =
     (case ks_ruleContext s of
        Some r \<Rightarrow> (s, r)
      | None \<Rightarrow> (let (s1, r) = build s in (s1\<lparr>ks_ruleContext := Some r\<rparr>, r)))"

text \<open>The policy consulted for a table, when policies are enforced at all.\<close>

definition policy_of :: "'rc kernel_env \<Rightarrow> jsstring \<Rightarrow> (('rc, 'rc) kernel \<times> 'rc kernel_state table_policy) option" where
  "policy_of env table =
     (if ke_privileged env then None
      else case ke_buildRule env of None \<Rightarrow> None | Some build \<Rightarrow> map_option (\<lambda>p. (build, p)) (map_of (ke_policies env) table))"

definition read_policy_of :: "'rc kernel_env \<Rightarrow> jsstring \<Rightarrow> (('rc, 'rc) kernel \<times> 'rc kernel_state table_policy) option" where
  "read_policy_of env table =
     (case policy_of env table of Some (b, p) \<Rightarrow> (if Option.is_none (tp_read p) then None else Some (b, p)) | None \<Rightarrow> None)"

definition write_policy_of :: "'rc kernel_env \<Rightarrow> jsstring \<Rightarrow> (('rc, 'rc) kernel \<times> 'rc kernel_state table_policy) option" where
  "write_policy_of env table =
     (case policy_of env table of Some (b, p) \<Rightarrow> (if Option.is_none (tp_write p) then None else Some (b, p)) | None \<Rightarrow> None)"

definition enforceWrite :: "'rc kernel_env \<Rightarrow> jsstring \<Rightarrow> document \<Rightarrow> ('rc, unit) kernel" where
  "enforceWrite env table row =
     (case write_policy_of env table of
        None \<Rightarrow> st_return ()
      | Some (build, policy) \<Rightarrow>
          st_bind (rule_context build) (\<lambda>_. st_bind (evalWritePolicy policy row) (\<lambda>ok. st_guard ok forbidden)))"

definition full_name :: "'rc kernel_env \<Rightarrow> jsstring \<Rightarrow> jsstring" where
  "full_name env name = (if ke_privileged env then name else getFullTableName name (ke_namespace env))"

definition requireTable :: "'rc kernel_env \<Rightarrow> jsstring \<Rightarrow> table_meta result" where
  "requireTable env name =
     (case getTable (ke_catalog env) (full_name env name) of None \<Rightarrow> Inl function_not_found | Some meta \<Rightarrow> Inr meta)"

definition markWrite :: "(write_stores \<Rightarrow> write_stores) \<Rightarrow> ('rc, unit) kernel" where
  "markWrite mark s =
     (case ks_writeStores s of
        None \<Rightarrow> (s, Inr ())
      | Some w \<Rightarrow>
          (let w' = mark w
           in (s\<lparr>ks_writeStores := Some w'\<rparr>, if ws_local w' \<and> ws_global w' then Inl cross_store_write else Inr ())))"

abbreviation mark_local :: "write_stores \<Rightarrow> write_stores" where
  "mark_local \<equiv> ws_local_update (\<lambda>_. True)"

abbreviation mark_global :: "write_stores \<Rightarrow> write_stores" where
  "mark_global \<equiv> ws_global_update (\<lambda>_. True)"

definition requireGlobalTxn :: "('rc, global_txn) kernel" where
  "requireGlobalTxn s = (s, case ks_globalTxn s of None \<Rightarrow> Inl forbidden | Some g \<Rightarrow> Inr g)"

definition stage_in_global :: "(global_txn \<Rightarrow> global_txn) \<Rightarrow> ('rc, unit) kernel" where
  "stage_in_global f = upd (\<lambda>s. s\<lparr>ks_globalTxn := map_option f (ks_globalTxn s)\<rparr>)"

definition recordGlobalRead :: "'rc kernel_env \<Rightarrow> jsstring \<Rightarrow> ('rc, unit) kernel" where
  "recordGlobalRead env table =
     (if ke_trackGlobals env then upd (\<lambda>s. s\<lparr>ks_globalReads := set_add table (ks_globalReads s)\<rparr>) else st_return ())"

definition validateDocumentForWrite :: "table_meta \<Rightarrow> document \<Rightarrow> unit result" where
  "validateDocumentForWrite meta value1 =
     (case tm_documentValidator meta of
        None \<Rightarrow> Inr ()
      | Some vd \<Rightarrow> (if validate vd (VObj value1) = [] then Inr () else Inl document_validation))"

definition requireOwnTable :: "'rc kernel_env \<Rightarrow> jsstring \<Rightarrow> unit result" where
  "requireOwnTable env fullName =
     (if ke_privileged env \<or> fst (parseFullTableName fullName) = ke_namespace env then Inr () else Inl forbidden)"

section \<open>Shard ownership\<close>

datatype write_op = InsertOp | ReplaceOp | DeleteOp

definition shard_key :: "table_meta \<Rightarrow> jsstring option" where
  "shard_key meta = truthy_key (tm_shardKey meta)"

text \<open>The encoding of a property that may be missing: \<^verbatim>\<open>undefined\<close> is no index value.\<close>

definition encode_field :: "jvalue option \<Rightarrow> bytes result" where
  "encode_field v = (case v of None \<Rightarrow> Inl (TypeError ''cannot encode index value of type undefined'') | Some x \<Rightarrow> encodeIndexKey [x])"

text \<open>\<open>shardIdForKeyValue\<close> returns (\<open>shard_of_total\<close> in \<open>Kernel_Props\<close>): its divergence needs no value.\<close>

definition shard_of_value :: "jvalue option \<Rightarrow> int \<Rightarrow> jsstring result" where
  "shard_of_value v n =
     (case v of
        None \<Rightarrow> Inl (TypeError ''cannot encode index value of type undefined'')
      | Some x \<Rightarrow> (case shardIdForKeyValue x n of Some r \<Rightarrow> r | None \<Rightarrow> Inl (GenericError ''no result'')))"

definition shardOfDoc :: "'rc kernel_env \<Rightarrow> jsstring \<Rightarrow> document \<Rightarrow> jsstring result" where
  "shardOfDoc env shardKey doc = shard_of_value (map_of doc shardKey) (ke_numShards env)"

definition own_shard :: "'rc kernel_env \<Rightarrow> jsstring result \<Rightarrow> unit result" where
  "own_shard env shard = res_bind shard (\<lambda>d. if d = ke_shardId env then Inr () else Inl forbidden)"

definition enforceShardWrite :: "'rc kernel_env \<Rightarrow> table_meta \<Rightarrow> document \<Rightarrow> write_op \<Rightarrow> unit result" where
  "enforceShardWrite env meta doc op =
     (case shard_key meta of
        None \<Rightarrow> (if op \<noteq> InsertOp \<and> ke_shardId env \<noteq> DEFAULT_SHARD then Inl forbidden else Inr ())
      | Some shardKey \<Rightarrow>
          (if \<not> ke_privileged env \<and> \<not> ke_shardDeclared env then Inl forbidden
           else own_shard env (shardOfDoc env shardKey doc)))"

definition enforceShardKeyImmutable :: "'rc kernel_env \<Rightarrow> table_meta \<Rightarrow> document \<Rightarrow> document \<Rightarrow> unit result" where
  "enforceShardKeyImmutable env meta oldDoc newDoc =
     (case shard_key meta of
        None \<Rightarrow> Inr ()
      | Some shardKey \<Rightarrow>
          (if ke_privileged env then Inr ()
           else res_bind (encode_field (map_of oldDoc shardKey)) (\<lambda>before.
                res_bind (encode_field (map_of newDoc shardKey)) (\<lambda>after.
                  if indexKeysEqual before after then Inr () else Inl forbidden))))"

definition enforceShardGet :: "'rc kernel_env \<Rightarrow> table_meta \<Rightarrow> document \<Rightarrow> unit result" where
  "enforceShardGet env meta doc =
     (case shard_key meta of
        None \<Rightarrow> Inr ()
      | Some shardKey \<Rightarrow>
          (if ke_privileged env \<or> \<not> ke_shardDeclared env then Inr () else own_shard env (shardOfDoc env shardKey doc)))"

record range_json =
  rj_field :: jsstring
  rj_operator :: query_operator
  rj_value :: json

definition enforceShardScan :: "'rc kernel_env \<Rightarrow> table_meta option \<Rightarrow> index_spec \<Rightarrow> range_json list \<Rightarrow> unit result" where
  "enforceShardScan env meta indexSpec rng =
     (if \<not> ke_shardDeclared env \<or> ke_privileged env then Inr ()
      else case (case meta of None \<Rightarrow> None | Some m \<Rightarrow> shard_key m) of
        None \<Rightarrow> Inr ()
      | Some shardKey \<Rightarrow>
          (if is_fields indexSpec = [] \<or> hd (is_fields indexSpec) \<noteq> shardKey then Inl forbidden
           else case find (\<lambda>r. rj_field r = shardKey \<and> rj_operator r = QEq) rng of
             None \<Rightarrow> Inl forbidden
           | Some eq \<Rightarrow> res_bind (jsonToConvex (rj_value eq)) (\<lambda>v. own_shard env (shard_of_value (Some v) (ke_numShards env)))))"

definition recordScanReads :: "'rc kernel_env \<Rightarrow> table_meta option \<Rightarrow> key_range list \<Rightarrow> ('rc, unit) kernel" where
  "recordScanReads env meta ranges =
     (let unvalidated = (ke_shardDeclared env \<and> \<not> ke_privileged env \<and> (case meta of None \<Rightarrow> True | Some m \<Rightarrow> shard_key m = None))
      in upd_txn (fold (if unvalidated then recordReadUnvalidated else recordRead) ranges))"

section \<open>Index maintenance\<close>

definition index_space :: "index_spec \<Rightarrow> jsstring" where
  "index_space idx = indexKeyspaceId (encodeStorageTableId (is_tableNumber idx)) (is_index idx)"

definition key_writes :: "jsstring \<Rightarrow> bytes option \<Rightarrow> key_range list" where
  "key_writes ks k = (case k of None \<Rightarrow> [] | Some b \<Rightarrow> [mk_range ks b (Some (keySuccessor b))])"

definition maintainIndexes ::
  "'rc kernel_env \<Rightarrow> jsstring \<Rightarrow> document option \<Rightarrow> document option \<Rightarrow> internal_document_id \<Rightarrow> ('rc, unit) kernel" where
  "maintainIndexes env table oldDoc newDoc i =
     (let indexes = indexesForTable (ke_catalog env) table
      in st_bind (st_lift (computeIndexUpdates indexes oldDoc newDoc i)) (\<lambda>updates.
         st_bind (upd_txn (stageIndexUpdates updates)) (\<lambda>_.
         st_bind (st_map (\<lambda>idx.
             st_bind (st_lift (extract_opt oldDoc (is_fields idx))) (\<lambda>oldKey.
             st_bind (upd_txn (fold recordWrite (key_writes (index_space idx) oldKey))) (\<lambda>_.
             st_bind (st_lift (extract_opt newDoc (is_fields idx))) (\<lambda>newKey.
               upd_txn (fold recordWrite (key_writes (index_space idx) newKey)))))) indexes)
           (\<lambda>_. st_return ()))))"

section \<open>Queries\<close>

record query_spec =
  qs_table :: jsstring
  qs_index :: jsstring
  qs_range :: "range_json list option"
  qs_order :: "scan_order option"
  qs_filters :: "(comparison_op \<times> jsstring \<times> json) list option"
  qs_limit :: "int option"

definition doc_json :: "document \<Rightarrow> json" where
  "doc_json d = convexToJson (VObj d)"

definition response :: "(string \<times> json) list \<Rightarrow> json" where
  "response es = json_text (JObj (map (\<lambda>(k, v). (js k, v)) es))"

definition decode_range :: "range_json list \<Rightarrow> range_expression list result" where
  "decode_range rs = res_map (\<lambda>r. res_bind (jsonToConvex (rj_value r)) (\<lambda>v.
     Inr \<lparr>re_field = rj_field r, re_operator = rj_operator r, re_value = v\<rparr>)) rs"

definition decode_filters :: "(comparison_op \<times> jsstring \<times> json) list \<Rightarrow> filter_expr list result" where
  "decode_filters fs = res_map (\<lambda>(op, field, j). res_bind (jsonToConvex j) (\<lambda>v. Inr (FCompare op field v))) fs"

text \<open>\<^verbatim>\<open>xs?.map(...)\<close>.\<close>

definition decode_opt :: "('a list \<Rightarrow> 'b list result) \<Rightarrow> 'a list option \<Rightarrow> 'b list option result" where
  "decode_opt f xs = (case xs of None \<Rightarrow> Inr None | Some ys \<Rightarrow> res_bind (f ys) (\<lambda>zs. Inr (Some zs)))"

definition decode_query :: "index_spec \<Rightarrow> query_spec \<Rightarrow> query result" where
  "decode_query indexSpec spec =
     res_bind (decode_opt decode_range (qs_range spec)) (\<lambda>rng.
     res_bind (decode_opt decode_filters (qs_filters spec)) (\<lambda>filters.
       Inr \<lparr>q_index = indexSpec, q_range = rng, q_order = qs_order spec, q_filters = filters, q_limit = qs_limit spec\<rparr>))"

definition requireIndex :: "'rc kernel_env \<Rightarrow> query_spec \<Rightarrow> index_spec result" where
  "requireIndex env spec =
     (case getIndex (ke_catalog env) (full_name env (qs_table spec)) (qs_index spec) of
        None \<Rightarrow> Inl function_not_found | Some idx \<Rightarrow> Inr idx)"

definition nextCollectToken :: "('rc, jsstring) kernel" where
  "nextCollectToken s = (let n = ks_tokenSeq s + 1 in (s\<lparr>ks_tokenSeq := n\<rparr>, Inr (js ''ct'' @ int_dec n)))"

definition trace_token :: "'rc kernel_env \<Rightarrow> ('rc, jsstring option) kernel" where
  "trace_token env = (if ke_traced env then st_bind nextCollectToken (\<lambda>t. st_return (Some t)) else st_return None)"

definition index_ranges :: "key_range list \<Rightarrow> key_range list" where
  "index_ranges rs = filter (\<lambda>r. take 6 (keyspace r) = js ''index:'') rs"

text \<open>A policy merge: \<open>None\<close> when the table has no read policy to merge.\<close>

type_synonym 'rc policy_merge = "jsstring \<Rightarrow> ('rc, filter_expr option) kernel option"

definition merged_query :: "'rc policy_merge \<Rightarrow> jsstring \<Rightarrow> query \<Rightarrow> ('rc, query) kernel" where
  "merged_query merge table q =
     (case merge table of
        None \<Rightarrow> st_return q
      | Some resolve \<Rightarrow> st_bind resolve (\<lambda>e. st_return (q\<lparr>q_filters := Some (mergeReadPolicy (q_filters q) e)\<rparr>)))"

definition scan_query :: "'rc kernel_env \<Rightarrow> table_meta option \<Rightarrow> query \<Rightarrow> ('rc, collect_result) kernel" where
  "scan_query env meta q s =
     (let overlay = pendingIndexOverlay (is_indexId (q_index q)) (ks_txn s)
      in st_bind (st_lift (collect (ke_store env) q (ke_snapshotTs env) (Some overlay))) (\<lambda>r.
         st_bind (recordScanReads env meta (rs_toArray (cr_readSet r))) (\<lambda>_. st_return r)) s)"

definition trace_collect :: "'rc kernel_env \<Rightarrow> query_spec \<Rightarrow> query \<Rightarrow> bool \<Rightarrow> collect_result \<Rightarrow> jsstring option \<Rightarrow> ('rc, unit) kernel" where
  "trace_collect env spec q had r token =
     (case (token, index_ranges (rs_toArray (cr_readSet r))) of
        (Some t, [rng]) \<Rightarrow> upd (\<lambda>s. s\<lparr>ks_collectTrace := ks_collectTrace s @
          [\<lparr>kt_keyspace = keyspace rng, kt_bounds = serializeKeyRange rng, kt_filters = or_default (q_filters q) [],
            kt_order = or_default (qs_order spec) Asc, kt_fields = is_fields (q_index q), kt_docs = map doc_json (cr_documents r),
            kt_hadReadPolicy = had, kt_hadLimit = (qs_limit spec \<noteq> None), kt_token = t\<rparr>]\<rparr>)
      | _ \<Rightarrow> st_return ())"

definition token_field :: "string \<Rightarrow> jsstring option \<Rightarrow> (string \<times> json) list" where
  "token_field name token = (case token of None \<Rightarrow> [] | Some t \<Rightarrow> [(name, JStr t)])"

definition docs_response :: "document list \<Rightarrow> jsstring option \<Rightarrow> json" where
  "docs_response docs token = response ((''docs'', JArr (map doc_json docs)) # token_field ''collectToken'' token)"

definition local_query :: "'rc kernel_env \<Rightarrow> 'rc policy_merge \<Rightarrow> query_spec \<Rightarrow> index_spec \<Rightarrow> table_meta option \<Rightarrow> ('rc, json) kernel" where
  "local_query env merge spec indexSpec meta =
     (let table = full_name env (qs_table spec)
      in st_bind (st_lift (enforceShardScan env meta indexSpec (or_default (qs_range spec) []))) (\<lambda>_.
         st_bind (st_lift (decode_query indexSpec spec)) (\<lambda>q.
         st_bind (merged_query merge table q) (\<lambda>mq.
         st_bind (scan_query env meta mq) (\<lambda>r.
         st_bind (trace_token env) (\<lambda>token.
         st_bind (trace_collect env spec q (\<not> Option.is_none (merge table)) r token) (\<lambda>_.
           st_return (docs_response (cr_documents r) token))))))))"

definition eq_object :: "range_json list \<Rightarrow> document result" where
  "eq_object rs = res_bind (decode_range rs) (\<lambda>es. Inr (obj_from (map (\<lambda>e. (re_field e, re_value e)) es)))"

definition global_query :: "'rc kernel_env \<Rightarrow> query_spec \<Rightarrow> ('rc, json) kernel" where
  "global_query env spec =
     (let table = full_name env (qs_table spec); rng = or_default (qs_range spec) []
      in st_bind (st_guard (Option.is_none (read_policy_of env table)) forbidden) (\<lambda>_.
         st_bind requireGlobalTxn (\<lambda>g.
         st_bind (st_guard (list_all (\<lambda>r. rj_operator r = QEq) rng \<and> or_default (qs_filters spec) [] = []) forbidden) (\<lambda>_.
         st_bind (st_lift (eq_object rng)) (\<lambda>eqs.
         st_bind (st_lift (global_queryByIndex (ke_d1 env) table (qs_index spec) eqs (qs_limit spec) g)) (\<lambda>rows.
         st_bind (recordGlobalRead env table) (\<lambda>_.
           st_return (docs_response rows None))))))))"

definition db_query :: "'rc kernel_env \<Rightarrow> 'rc policy_merge \<Rightarrow> query_spec \<Rightarrow> ('rc, json) kernel" where
  "db_query env merge spec =
     st_bind (st_lift (requireIndex env spec)) (\<lambda>indexSpec.
       (case getTable (ke_catalog env) (full_name env (qs_table spec)) of
          None \<Rightarrow> local_query env merge spec indexSpec None
        | Some meta \<Rightarrow> (if tm_mode meta = GlobalTable then global_query env spec
                       else local_query env merge spec indexSpec (Some meta))))"

section \<open>Read policies\<close>

text \<open>The context of the rule reader (\<^verbatim>\<open>executor.ts\<close>): no policies, no traces, no writes.\<close>

definition base_env :: "'rc kernel_env \<Rightarrow> 'rc kernel_env" where
  "base_env env = env\<lparr>ke_profile := profileFor UdfQuery, ke_policies := [], ke_buildRule := None,
     ke_relations := \<lparr>rr_toMany = [], rr_toOne = []\<rparr>, ke_traced := False, ke_trackGlobals := False\<rparr>"

definition by_creation :: "jsstring \<Rightarrow> query_spec" where
  "by_creation table = \<lparr>qs_table = table, qs_index = js ''by_creation'', qs_range = Some [], qs_order = Some Asc,
     qs_filters = Some [], qs_limit = None\<rparr>"

text \<open>\<^verbatim>\<open>QueryBuilder.collect\<close> (\<^verbatim>\<open>guest.ts\<close>): the documents of a response.\<close>

definition as_document :: "jvalue \<Rightarrow> document result" where
  "as_document v = (case v of VObj es \<Rightarrow> Inr es | _ \<Rightarrow> Inl (TypeError ''not a document''))"

definition response_docs :: "json \<Rightarrow> document list result" where
  "response_docs j =
     (case j of
        JObj es \<Rightarrow> (case map_of es (js ''docs'') of
            Some (JArr xs) \<Rightarrow> res_map (\<lambda>d. res_bind (jsonToConvex d) as_document) xs
          | _ \<Rightarrow> Inl (TypeError ''docs''))
      | _ \<Rightarrow> Inl (TypeError ''docs''))"

definition rule_fetch :: "'rc kernel_env \<Rightarrow> 'rc kernel_state fetch" where
  "rule_fetch env table =
     st_bind (db_query (base_env env) (\<lambda>_. None) (by_creation table)) (\<lambda>j. st_lift (response_docs j))"

definition read_merge :: "'rc kernel_env \<Rightarrow> 'rc policy_merge" where
  "read_merge env table =
     map_option (\<lambda>(build, policy). st_bind (rule_context build) (\<lambda>_.
       resolveReadPolicy policy (rule_fetch env) table (ke_relations env))) (read_policy_of env table)"

definition handleDbQuery :: "'rc kernel_env \<Rightarrow> query_spec \<Rightarrow> ('rc, json) kernel" where
  "handleDbQuery env spec = db_query env (read_merge env) spec"

definition trace_page :: "'rc kernel_env \<Rightarrow> query_spec \<Rightarrow> query \<Rightarrow> bool \<Rightarrow> paginated_result \<Rightarrow> jsstring option \<Rightarrow> ('rc, unit) kernel" where
  "trace_page env spec q had r token =
     (case (token, index_ranges (rs_toArray (pr_readSet r))) of
        (Some t, [rng]) \<Rightarrow> upd (\<lambda>s. s\<lparr>ks_paginateTrace := ks_paginateTrace s @
          [\<lparr>pt_keyspace = keyspace rng, pt_bounds = pr_pageBounds r, pt_filters = or_default (q_filters q) [],
            pt_order = or_default (qs_order spec) Asc, pt_fields = is_fields (q_index q), pt_hadReadPolicy = had, pt_token = t,
            pt_nextCursor = pr_nextCursor r, pt_hasMore = pr_hasMore r, pt_scanCapped = pr_scanCapped r\<rparr>]\<rparr>)
      | _ \<Rightarrow> st_return ())"

definition scan_page_query ::
  "'rc kernel_env \<Rightarrow> table_meta option \<Rightarrow> query \<Rightarrow> page_opts \<Rightarrow> ('rc, paginated_result) kernel" where
  "scan_page_query env meta q opts s =
     (let overlay = pendingIndexOverlay (is_indexId (q_index q)) (ks_txn s)
      in st_bind (st_lift (paginate (ke_store env) q (ke_snapshotTs env) opts (Some overlay))) (\<lambda>r.
         st_bind (recordScanReads env meta (rs_toArray (pr_readSet r))) (\<lambda>_. st_return r)) s)"

definition page_response :: "paginated_result \<Rightarrow> jsstring option \<Rightarrow> json" where
  "page_response r token = response
     ([(''page'', JArr (map doc_json (pr_page r))),
       (''nextCursor'', case pr_nextCursor r of None \<Rightarrow> JNull | Some c \<Rightarrow> JStr c),
       (''hasMore'', JBool (pr_hasMore r)), (''scanCapped'', JBool (pr_scanCapped r))] @ token_field ''__brandToken'' token)"

text \<open>The limit of a paginated query is not read.\<close>

definition handleDbPaginate :: "'rc kernel_env \<Rightarrow> query_spec \<Rightarrow> page_opts \<Rightarrow> ('rc, json) kernel" where
  "handleDbPaginate env spec opts =
     (let table = full_name env (qs_table spec); meta = getTable (ke_catalog env) table; merge = read_merge env
      in st_bind (st_lift (requireIndex env spec)) (\<lambda>indexSpec.
         st_bind (st_guard (map_option tm_mode meta \<noteq> Some GlobalTable) forbidden) (\<lambda>_.
         st_bind (st_lift (enforceShardScan env meta indexSpec (or_default (qs_range spec) []))) (\<lambda>_.
         st_bind (st_lift (decode_query indexSpec (spec\<lparr>qs_limit := None\<rparr>))) (\<lambda>q.
         st_bind (merged_query merge table q) (\<lambda>mq.
         st_bind (scan_page_query env meta mq opts) (\<lambda>r.
         st_bind (trace_token env) (\<lambda>token.
         st_bind (trace_page env spec q (\<not> Option.is_none (merge table)) r token) (\<lambda>_.
           st_return (page_response r token))))))))))"

section \<open>Documents by id\<close>

text \<open>The table a document id names, in the caller's namespace.\<close>

definition table_of_id :: "'rc kernel_env \<Rightarrow> jsstring \<Rightarrow> (internal_document_id \<times> table_meta) result" where
  "table_of_id env did =
     res_bind (decodeDocumentId did) (\<lambda>i.
       (case getTableByNumber (ke_catalog env) (tableNumber i) of
          None \<Rightarrow> Inl function_not_found
        | Some meta \<Rightarrow> res_bind (requireOwnTable env (tm_name meta)) (\<lambda>_. Inr (i, meta))))"

definition doc_response :: "document option \<Rightarrow> json" where
  "doc_response doc = (case doc of None \<Rightarrow> JNull | Some d \<Rightarrow> json_text (doc_json d))"

definition global_get_syscall :: "'rc kernel_env \<Rightarrow> table_meta \<Rightarrow> jsstring \<Rightarrow> ('rc, json) kernel" where
  "global_get_syscall env meta did =
     st_bind (st_guard (Option.is_none (read_policy_of env (tm_name meta))) forbidden) (\<lambda>_.
     st_bind requireGlobalTxn (\<lambda>g.
     st_bind (recordGlobalRead env (tm_name meta)) (\<lambda>_.
     st_bind (st_lift (global_get (ke_d1 env) (tm_name meta) did g)) (\<lambda>doc. st_return (doc_response doc)))))"

definition guarded_doc :: "'rc kernel_env \<Rightarrow> table_meta \<Rightarrow> document \<Rightarrow> ('rc, document option) kernel" where
  "guarded_doc env meta doc =
     st_bind (st_lift (enforceShardGet env meta doc)) (\<lambda>_.
       (case read_merge env (tm_name meta) of
          None \<Rightarrow> st_return (Some doc)
        | Some resolve \<Rightarrow> st_bind resolve (\<lambda>e. st_return (if row_matches e doc then Some doc else None))))"

definition handleDbGet :: "'rc kernel_env \<Rightarrow> jsstring \<Rightarrow> ('rc, json) kernel" where
  "handleDbGet env did =
     st_bind (st_lift (table_of_id env did)) (\<lambda>(i, meta).
       if tm_mode meta = GlobalTable then global_get_syscall env meta did
       else st_bind (on_txn (ctx_get (ke_store env) i)) (\<lambda>found.
         st_bind (case found of None \<Rightarrow> st_return None | Some doc \<Rightarrow> guarded_doc env meta doc) (\<lambda>doc.
           st_return (doc_response doc))))"

section \<open>Inserts\<close>

text \<open>\<^verbatim>\<open>{ ...v }\<close>, after a destructuring that throws for null.\<close>

definition spread :: "jvalue \<Rightarrow> (jsstring \<times> jvalue) list result" where
  "spread v = (if v = VNull then Inl (TypeError ''cannot destructure null'') else Inr (js_entries v))"

definition omit :: "string list \<Rightarrow> document \<Rightarrow> document" where
  "omit names es = filter (\<lambda>(k, _). k \<notin> js ` set names) es"

definition stamp :: "document \<Rightarrow> jsstring \<Rightarrow> jvalue \<Rightarrow> document" where
  "stamp es did creation = setObjectKey (setObjectKey es (js ''_id'') (VStr did)) (js ''_creationTime'') creation"

definition creation_time :: "'rc kernel_env \<Rightarrow> jvalue" where
  "creation_time env = VNum (number_of_int (ke_snapshotTs env))"

definition id_response :: "jsstring \<Rightarrow> json" where
  "id_response did = response [(''id'', JStr did)]"

definition global_insert :: "'rc kernel_env \<Rightarrow> bytes \<Rightarrow> table_meta \<Rightarrow> jvalue \<Rightarrow> ('rc, json) kernel" where
  "global_insert env rnd meta converted =
     st_bind (st_guard (Option.is_none (write_policy_of env (tm_name meta))) forbidden) (\<lambda>_.
     st_bind requireGlobalTxn (\<lambda>_.
     st_bind (st_lift (spread converted)) (\<lambda>es.
     st_bind (st_guard (map_of es (js ''_id'') = None) invalid_client_id) (\<lambda>_.
     st_bind (st_lift (validateDocumentForWrite meta es)) (\<lambda>_.
     st_bind (st_lift (encodeInternalDocumentId (newDocumentId (tm_tableNumber meta) rnd))) (\<lambda>did.
     st_bind (markWrite mark_global) (\<lambda>_.
     st_bind (stage_in_global (stageInsert (tm_name meta) did (stamp es did (creation_time env)))) (\<lambda>_.
       st_return (id_response did)))))))))"

definition supplied_id :: "'rc kernel_env \<Rightarrow> table_meta \<Rightarrow> jvalue \<Rightarrow> internal_document_id result" where
  "supplied_id env meta v =
     (case v of
        VStr did \<Rightarrow>
          (case decodeDocumentId did of
             Inl _ \<Rightarrow> Inl invalid_client_id
           | Inr i \<Rightarrow> (if tableNumber i \<noteq> tm_tableNumber meta \<or> shard_key meta \<noteq> None \<or> ke_shardId env \<noteq> DEFAULT_SHARD
                      then Inl invalid_client_id else Inr i))
      | _ \<Rightarrow> Inl invalid_client_id)"

definition insert_id :: "'rc kernel_env \<Rightarrow> bytes \<Rightarrow> table_meta \<Rightarrow> jvalue option \<Rightarrow> ('rc, internal_document_id) kernel" where
  "insert_id env rnd meta supplied =
     (case supplied of
        None \<Rightarrow> st_return (newDocumentId (tm_tableNumber meta) rnd)
      | Some v \<Rightarrow>
          st_bind (st_lift (supplied_id env meta v)) (\<lambda>i.
          st_bind (on_txn (ctx_get (ke_store env) i)) (\<lambda>found.
          st_bind (st_guard (found = None) id_already_in_use) (\<lambda>_. st_return i))))"

definition local_insert :: "'rc kernel_env \<Rightarrow> bytes \<Rightarrow> table_meta \<Rightarrow> jvalue \<Rightarrow> ('rc, json) kernel" where
  "local_insert env rnd meta converted =
     st_bind (st_lift (spread converted)) (\<lambda>es.
       (let userValue = omit [''_id''] es
        in st_bind (st_lift (validateDocumentForWrite meta userValue)) (\<lambda>_.
           st_bind (insert_id env rnd meta (map_of es (js ''_id''))) (\<lambda>i.
           st_bind (st_lift (encodeInternalDocumentId i)) (\<lambda>docId.
             (let doc = stamp userValue docId (creation_time env)
              in st_bind (st_lift (enforceShardWrite env meta doc InsertOp)) (\<lambda>_.
                 st_bind (enforceWrite env (tm_name meta) doc) (\<lambda>_.
                 st_bind (markWrite mark_local) (\<lambda>_.
                 st_bind (on_txn (ctx_put i doc)) (\<lambda>_.
                 st_bind (maintainIndexes env (tm_name meta) None (Some doc) i) (\<lambda>_.
                   st_return (id_response docId))))))))))))"

text \<open>The random bytes of a minted id are \<open>rnd\<close>.  A table is stored under its own name, so the meta's name is
  the full name it was looked up by.\<close>

definition handleDbInsert :: "'rc kernel_env \<Rightarrow> bytes \<Rightarrow> jsstring \<Rightarrow> json \<Rightarrow> ('rc, json) kernel" where
  "handleDbInsert env rnd table j =
     st_bind (st_guard (cap_dbWrite (ke_profile env)) forbidden) (\<lambda>_.
     st_bind (st_lift (requireTable env table)) (\<lambda>meta.
     st_bind (st_lift (jsonToConvex j)) (\<lambda>converted.
       if tm_mode meta = GlobalTable then global_insert env rnd meta converted
       else local_insert env rnd meta converted)))"

section \<open>Replaces and deletes\<close>

text \<open>\<^verbatim>\<open>old._creationTime ?? Number(ctx.snapshotTs)\<close>.\<close>

definition kept_creation :: "'rc kernel_env \<Rightarrow> document \<Rightarrow> jvalue" where
  "kept_creation env old =
     (case map_of old (js ''_creationTime'') of
        None \<Rightarrow> creation_time env
      | Some v \<Rightarrow> (if v = VNull then creation_time env else v))"

definition SYSTEM_FIELDS :: "string list" where
  "SYSTEM_FIELDS = [''_id'', ''_creationTime'']"

definition global_replace :: "'rc kernel_env \<Rightarrow> table_meta \<Rightarrow> jsstring \<Rightarrow> json \<Rightarrow> ('rc, json) kernel" where
  "global_replace env meta did j =
     st_bind (st_guard (Option.is_none (write_policy_of env (tm_name meta))) forbidden) (\<lambda>_.
     st_bind requireGlobalTxn (\<lambda>g.
     st_bind (st_lift (global_get (ke_d1 env) (tm_name meta) did g)) (\<lambda>found.
       (case found of
          None \<Rightarrow> st_throw document_not_found
        | Some old \<Rightarrow>
            st_bind (st_lift (jsonToConvex j)) (\<lambda>converted.
            st_bind (st_lift (spread converted)) (\<lambda>es.
              (let userFields = omit SYSTEM_FIELDS es
               in st_bind (st_lift (validateDocumentForWrite meta userFields)) (\<lambda>_.
                  st_bind (markWrite mark_global) (\<lambda>_.
                  st_bind (stage_in_global (stageReplace (tm_name meta) did (stamp userFields did (kept_creation env old)))) (\<lambda>_.
                    st_return (response [])))))))))))"

definition local_replace :: "'rc kernel_env \<Rightarrow> internal_document_id \<Rightarrow> table_meta \<Rightarrow> jsstring \<Rightarrow> json \<Rightarrow> ('rc, json) kernel" where
  "local_replace env i meta did j =
     st_bind (on_txn (ctx_get (ke_store env) i)) (\<lambda>found.
       (case found of
          None \<Rightarrow> st_throw document_not_found
        | Some oldDoc \<Rightarrow>
            st_bind (enforceWrite env (tm_name meta) oldDoc) (\<lambda>_.
            st_bind (st_lift (jsonToConvex j)) (\<lambda>converted.
            st_bind (st_lift (spread converted)) (\<lambda>es.
            st_bind (st_lift (validateDocumentForWrite meta (omit SYSTEM_FIELDS es))) (\<lambda>_.
              (let newDoc = stamp es did (kept_creation env oldDoc)
               in st_bind (st_lift (enforceShardKeyImmutable env meta oldDoc newDoc)) (\<lambda>_.
                  st_bind (st_lift (enforceShardWrite env meta newDoc ReplaceOp)) (\<lambda>_.
                  st_bind (enforceWrite env (tm_name meta) newDoc) (\<lambda>_.
                  st_bind (markWrite mark_local) (\<lambda>_.
                  st_bind (on_txn (ctx_put i newDoc)) (\<lambda>_.
                  st_bind (maintainIndexes env (tm_name meta) (Some oldDoc) (Some newDoc) i) (\<lambda>_.
                    st_return (response []))))))))))))))"

definition handleDbReplace :: "'rc kernel_env \<Rightarrow> jsstring \<Rightarrow> json \<Rightarrow> ('rc, json) kernel" where
  "handleDbReplace env did j =
     st_bind (st_guard (cap_dbWrite (ke_profile env)) forbidden) (\<lambda>_.
     st_bind (st_lift (table_of_id env did)) (\<lambda>(i, meta).
       if tm_mode meta = GlobalTable then global_replace env meta did j else local_replace env i meta did j))"

definition global_delete_syscall :: "'rc kernel_env \<Rightarrow> table_meta \<Rightarrow> jsstring \<Rightarrow> ('rc, json) kernel" where
  "global_delete_syscall env meta did =
     st_bind (st_guard (Option.is_none (write_policy_of env (tm_name meta))) forbidden) (\<lambda>_.
     st_bind (markWrite mark_global) (\<lambda>_.
     st_bind requireGlobalTxn (\<lambda>_.
     st_bind (stage_in_global (stageDelete (tm_name meta) did)) (\<lambda>_. st_return (response [])))))"

definition local_delete :: "'rc kernel_env \<Rightarrow> internal_document_id \<Rightarrow> table_meta \<Rightarrow> ('rc, json) kernel" where
  "local_delete env i meta =
     st_bind (on_txn (ctx_get (ke_store env) i)) (\<lambda>oldDoc.
     st_bind (case oldDoc of
         None \<Rightarrow> st_return ()
       | Some doc \<Rightarrow> st_bind (st_lift (enforceShardWrite env meta doc DeleteOp)) (\<lambda>_. enforceWrite env (tm_name meta) doc)) (\<lambda>_.
     st_bind (markWrite mark_local) (\<lambda>_.
     st_bind (on_txn (ctx_delete i)) (\<lambda>_.
     st_bind (maintainIndexes env (tm_name meta) oldDoc None i) (\<lambda>_. st_return (response []))))))"

definition handleDbDelete :: "'rc kernel_env \<Rightarrow> jsstring \<Rightarrow> ('rc, json) kernel" where
  "handleDbDelete env did =
     st_bind (st_guard (cap_dbWrite (ke_profile env)) forbidden) (\<lambda>_.
     st_bind (st_lift (table_of_id env did)) (\<lambda>(i, meta).
       if tm_mode meta = GlobalTable then global_delete_syscall env meta did else local_delete env i meta))"

section \<open>The router\<close>

datatype syscall =
    DbGet jsstring
  | DbInsert jsstring json
  | DbReplace jsstring json
  | DbDelete jsstring
  | DbQuery query_spec
  | DbPaginate query_spec page_opts
  | ConsoleLog json
  | UnknownOp jsstring

definition handleConsoleLog :: "json \<Rightarrow> ('rc, json) kernel" where
  "handleConsoleLog j = st_bind (upd (\<lambda>s. s\<lparr>ks_logs := ks_logs s @ [j]\<rparr>)) (\<lambda>_. st_return JNull)"

fun dispatch :: "'rc kernel_env \<Rightarrow> bytes \<Rightarrow> syscall \<Rightarrow> ('rc, json) kernel" where
  "dispatch env rnd (DbGet did) = handleDbGet env did"
| "dispatch env rnd (DbInsert table j) = handleDbInsert env rnd table j"
| "dispatch env rnd (DbReplace did j) = handleDbReplace env did j"
| "dispatch env rnd (DbDelete did) = handleDbDelete env did"
| "dispatch env rnd (DbQuery spec) = handleDbQuery env spec"
| "dispatch env rnd (DbPaginate spec opts) = handleDbPaginate env spec opts"
| "dispatch env rnd (ConsoleLog j) = handleConsoleLog j"
| "dispatch env rnd (UnknownOp op) = st_throw function_not_found"

end
