(* ===== verification/Kernel_Runs.thy ===== *)
theory Kernel_Runs
  imports Kernel
begin

text \<open>
  What a function's syscalls keep true.  Two contracts: what every reading syscall keeps
  (\<open>reader_invariant\<close>) and what every syscall keeps (\<open>writer_invariant\<close>); each is interpreted on the
  properties of the transaction that the theorems of this development rest on.
\<close>

section \<open>Reasoning about computations that may throw\<close>

definition valid :: "('s \<Rightarrow> bool) \<Rightarrow> ('s, 'a) st_result \<Rightarrow> ('a \<Rightarrow> 's \<Rightarrow> bool) \<Rightarrow> ('s \<Rightarrow> bool) \<Rightarrow> bool" where
  "valid P m Q E \<longleftrightarrow> (\<forall>s. P s \<longrightarrow> (case m s of (s', Inl e) \<Rightarrow> E s' | (s', Inr a) \<Rightarrow> Q a s'))"

text \<open>A result the computation may return.\<close>

definition returns :: "('s, 'a) st_result \<Rightarrow> 'a \<Rightarrow> bool" where
  "returns m a \<longleftrightarrow> (\<exists>s s'. m s = (s', Inr a))"

lemma valid_bind: "valid P m Q E \<Longrightarrow> (\<And>a. valid (Q a) (f a) R E) \<Longrightarrow> valid P (st_bind m f) R E"
  unfolding valid_def st_bind_def by (fastforce split: prod.splits sum.splits)

lemma valid_bind_lift: "(\<And>a. r = Inr a \<Longrightarrow> valid P (f a) R E) \<Longrightarrow> (\<And>s. P s \<Longrightarrow> E s) \<Longrightarrow> valid P (st_bind (st_lift r) f) R E"
  by (cases r) (simp_all add: valid_def st_bind_def)

lemma valid_bind_guard: "(ok \<Longrightarrow> valid P (f ()) R E) \<Longrightarrow> (\<And>s. P s \<Longrightarrow> E s) \<Longrightarrow> valid P (st_bind (st_guard ok e) f) R E"
  by (cases ok) (simp_all add: valid_def st_bind_def)

lemma valid_bind_keeps:
  "keeps P m \<Longrightarrow> (\<And>s. P s \<Longrightarrow> E s) \<Longrightarrow> (\<And>a. returns m a \<Longrightarrow> valid P (f a) R E) \<Longrightarrow> valid P (st_bind m f) R E"
proof (rule valid_bind[where Q = "\<lambda>a s. P s \<and> returns m a"])
  assume k: "keeps P m" and e: "\<And>s. P s \<Longrightarrow> E s"
  show "valid P m (\<lambda>a s. P s \<and> returns m a) E"
    unfolding valid_def using k e by (auto simp: returns_def dest: keepsD[OF k] split: prod.split sum.split)
next
  fix a assume "\<And>a. returns m a \<Longrightarrow> valid P (f a) R E"
  then show "valid (\<lambda>s. P s \<and> returns m a) (f a) R E" by (cases "returns m a") (simp_all add: valid_def)
qed

lemma bind_return [simp]: "st_bind (st_return a) f = f a"
  by (simp add: st_bind_def fun_eq_iff)

lemma bind_lift_Inr [simp]: "st_bind (st_lift (Inr a)) f = f a"
  by (simp add: st_bind_def fun_eq_iff)

lemma bind_assoc: "st_bind (st_bind m f) g = st_bind m (\<lambda>a. st_bind (f a) g)"
  by (simp add: st_bind_def fun_eq_iff split: prod.split sum.split)

lemma valid_throw: "(\<And>s. P s \<Longrightarrow> E s) \<Longrightarrow> valid P (st_throw e) Q E"
  by (simp add: valid_def)

lemma valid_return: "(\<And>s. P s \<Longrightarrow> Q a s) \<Longrightarrow> valid P (st_return a) Q E"
  by (simp add: valid_def)

lemma valid_pure: "(p \<Longrightarrow> valid P m Q E) \<Longrightarrow> valid (\<lambda>s. P s \<and> p) m Q E"
  by (simp add: valid_def)

lemma valid_weaken: "valid P' m Q E \<Longrightarrow> (\<And>s. P s \<Longrightarrow> P' s) \<Longrightarrow> valid P m Q E"
  by (simp add: valid_def)

lemma keeps_valid: "keeps I m \<longleftrightarrow> valid I m (\<lambda>_. I) I"
proof -
  have "(case m s of (s', Inl e) \<Rightarrow> I s' | (s', Inr a) \<Rightarrow> I s') = I (fst (m s))" for s by (simp split: prod.split sum.split)
  then show ?thesis by (simp add: keeps_def valid_def)
qed

lemma valid_return_keeps: "valid P m (\<lambda>_. I) I \<Longrightarrow> valid P (st_bind m (\<lambda>_. st_return a)) (\<lambda>_. I) I"
  by (rule valid_bind) (auto intro: valid_return)

lemma keeps_bind_lift: "(\<And>a. r = Inr a \<Longrightarrow> keeps I (f a)) \<Longrightarrow> keeps I (st_bind (st_lift r) f)"
  unfolding keeps_valid by (rule valid_bind_lift)

lemma keeps_bind_guard: "(ok \<Longrightarrow> keeps I (f ())) \<Longrightarrow> keeps I (st_bind (st_guard ok e) f)"
  unfolding keeps_valid by (rule valid_bind_guard)

lemma bind_throw [simp]: "st_bind (st_throw e) f = st_throw e"
  by (simp add: st_bind_def fun_eq_iff)

lemma keeps_if: "(b \<Longrightarrow> keeps I m) \<Longrightarrow> (\<not> b \<Longrightarrow> keeps I n) \<Longrightarrow> keeps I (if b then m else n)"
  by simp

lemma keeps_option: "(x = None \<Longrightarrow> keeps I m) \<Longrightarrow> (\<And>a. x = Some a \<Longrightarrow> keeps I (f a)) \<Longrightarrow> keeps I (case x of None \<Rightarrow> m | Some a \<Rightarrow> f a)"
  by (cases x) simp_all

lemma keeps_prod: "(\<And>a b. keeps I (f a b)) \<Longrightarrow> keeps I (case p of (a, b) \<Rightarrow> f a b)"
  by (cases p) simp

lemma keeps_Let: "keeps I (f x) \<Longrightarrow> keeps I (let y = x in f y)"
  by simp

lemma keeps_map: "(\<And>x. x \<in> set xs \<Longrightarrow> keeps I (f x)) \<Longrightarrow> keeps I (st_map f xs)"
  unfolding keeps_def by (auto intro: keeps_map_at)

lemmas keeps_rules = keeps_simps keeps_bind_lift keeps_bind_guard keeps_if keeps_option keeps_prod keeps_Let keeps_map keeps_bind

section \<open>What the readers keep\<close>

definition policies_keep :: "('rc kernel_state \<Rightarrow> bool) \<Rightarrow> 'rc kernel_env \<Rightarrow> bool" where
  "policies_keep I env \<longleftrightarrow> (\<forall>b. ke_buildRule env = Some b \<longrightarrow> keeps I b) \<and>
     (\<forall>(t, p) \<in> set (ke_policies env). (\<forall>f. tp_read p = Some f \<longrightarrow> keeps I f) \<and> (\<forall>f row. tp_write p = Some f \<longrightarrow> keeps I (f row)))"

text \<open>The value a read by id returns in a transaction.\<close>

definition current :: "doc_store \<Rightarrow> internal_document_id \<Rightarrow> txn_ctx \<Rightarrow> document option result" where
  "current st i c =
     (case uw_get i (tx_staged c) of
        Some w \<Rightarrow> Inr (lw_value w)
      | None \<Rightarrow> res_bind (ds_get st i (Some (tx_snapshotTs c))) (\<lambda>d. Inr (map_option ld_value d)))"

lemma ctx_get_frame [simp]:
  "tx_staged (fst (ctx_get st i c)) = tx_staged c" "tx_snapshotTs (fst (ctx_get st i c)) = tx_snapshotTs c"
  "tx_indexUpdates (fst (ctx_get st i c)) = tx_indexUpdates c" "tx_writeRanges (fst (ctx_get st i c)) = tx_writeRanges c"
  by (simp_all add: ctx_get_def countRead_def Let_def split: option.split)

lemma ctx_get_current: "ctx_get st i c = (c', Inr v) \<Longrightarrow> current st i c' = Inr v"
  by (auto simp: ctx_get_def countRead_def current_def Let_def split: option.splits if_splits)

lemma record_frame [simp]:
  "tx_staged (recordRead r c) = tx_staged c" "tx_snapshotTs (recordRead r c) = tx_snapshotTs c"
  "tx_indexUpdates (recordRead r c) = tx_indexUpdates c"
  "tx_staged (recordReadUnvalidated r c) = tx_staged c" "tx_snapshotTs (recordReadUnvalidated r c) = tx_snapshotTs c"
  "tx_indexUpdates (recordReadUnvalidated r c) = tx_indexUpdates c"
  by (simp_all add: recordRead_def recordReadUnvalidated_def)

lemma current_frame [simp]:
  "current st i (fst (ctx_get st j c)) = current st i c" "current st i (recordRead r c) = current st i c"
  "current st i (recordReadUnvalidated r c) = current st i c"
  by (simp_all add: current_def cong: option.case_cong)

text \<open>The application's policy code reaches the engine only through read-only syscalls, in its own namespace or
  the caller's.\<close>

definition reader_step :: "'rc kernel_env \<Rightarrow> 'rc kernel_state \<Rightarrow> 'rc kernel_state \<Rightarrow> bool" where
  "reader_step env s s' \<longleftrightarrow>
     (\<exists>ns priv rnd req. s' = fst (dispatch ((base_env env)\<lparr>ke_namespace := ns, ke_privileged := priv\<rparr>) rnd req s))"

definition reads_through :: "'rc kernel_env \<Rightarrow> ('rc, 'a) kernel \<Rightarrow> bool" where
  "reads_through env m \<longleftrightarrow> (\<forall>s. (reader_step env)\<^sup>*\<^sup>* s (fst (m s)))"

definition policies_read :: "'rc kernel_env \<Rightarrow> bool" where
  "policies_read env \<longleftrightarrow> (\<forall>b. ke_buildRule env = Some b \<longrightarrow> reads_through env b) \<and>
     (\<forall>(t, p) \<in> set (ke_policies env). (\<forall>f. tp_read p = Some f \<longrightarrow> reads_through env f) \<and>
        (\<forall>f row. tp_write p = Some f \<longrightarrow> reads_through env (f row)))"

locale reader_invariant =
  fixes st :: doc_store and I :: "'rc kernel_state \<Rightarrow> bool"
  assumes frame: "I s \<Longrightarrow> ks_txn s' = ks_txn s \<Longrightarrow> ks_globalTxn s' = ks_globalTxn s \<Longrightarrow> I s'"
    and get: "I s \<Longrightarrow> I (s\<lparr>ks_txn := fst (ctx_get st i (ks_txn s))\<rparr>)"
    and read: "I s \<Longrightarrow> I (s\<lparr>ks_txn := recordRead r (ks_txn s)\<rparr>)"
    and read_unvalidated: "I s \<Longrightarrow> I (s\<lparr>ks_txn := recordReadUnvalidated r (ks_txn s)\<rparr>)"
begin

lemma upd_keeps: "(\<And>s. ks_txn (f s) = ks_txn s \<and> ks_globalTxn (f s) = ks_globalTxn s) \<Longrightarrow> keeps I (upd f)"
  by (auto simp: keeps_def upd_def intro: frame)

lemma get_keeps: "keeps I (on_txn (ctx_get st i))"
  using get by (simp add: keeps_def on_txn_def case_prod_beta)

lemma rule_context_keeps:
  assumes "keeps I b" shows "keeps I (rule_context b)"
  unfolding keeps_def
proof (intro allI impI)
  fix s assume "I s"
  then show "I (fst (rule_context b s))" using assms frame[of "fst (b s)"]
    by (cases "ks_ruleContext s") (simp_all add: rule_context_def keeps_def case_prod_beta)
qed

lemma fold_keeps: "I s \<Longrightarrow> (\<And>s r. I s \<Longrightarrow> I (s\<lparr>ks_txn := f r (ks_txn s)\<rparr>)) \<Longrightarrow> I (s\<lparr>ks_txn := fold f rs (ks_txn s)\<rparr>)"
proof (induction rs arbitrary: s)
  case (Cons r rs)
  then have "I (s\<lparr>ks_txn := f r (ks_txn s)\<rparr>)" by blast
  from Cons.IH[OF this Cons.prems(2)] show ?case by simp
qed (auto intro: frame)

lemma record_keeps: "keeps I (recordScanReads env meta ranges)"
  using fold_keeps read read_unvalidated by (auto simp: recordScanReads_def keeps_def upd_txn_def Let_def)

lemma merged_keeps: "(\<And>m. merge table = Some m \<Longrightarrow> keeps I m) \<Longrightarrow> keeps I (merged_query merge table q)"
  by (auto simp: merged_query_def intro!: keeps_rules)

lemma scan_keeps: "keeps I (scan_query env meta q)" "keeps I (scan_page_query env meta q opts)"
proof -
  have k: "keeps I (st_bind (st_lift x) (\<lambda>r. st_bind (recordScanReads env meta (g r)) (\<lambda>_. st_return r)))" for x and g :: "'d \<Rightarrow> _"
    by (intro keeps_rules record_keeps)
  show "keeps I (scan_query env meta q)" "keeps I (scan_page_query env meta q opts)"
    unfolding keeps_def scan_query_def scan_page_query_def Let_def
    using k[unfolded keeps_def, of _ "\<lambda>r. rs_toArray (cr_readSet r)"] k[unfolded keeps_def, of _ "\<lambda>r. rs_toArray (pr_readSet r)"] by blast+
qed

lemma trace_keeps: "keeps I (trace_token env)" "keeps I (trace_collect env spec q had r t)" "keeps I (trace_page env spec q had p t)"
proof -
  have "keeps I nextCollectToken" by (auto simp: keeps_def nextCollectToken_def Let_def intro: frame)
  then show "keeps I (trace_token env)" by (auto simp: trace_token_def intro!: keeps_rules)
qed (auto simp: trace_collect_def trace_page_def intro!: upd_keeps split: option.split list.split)

lemma global_keeps: "keeps I requireGlobalTxn" "keeps I (recordGlobalRead env table)"
  by (auto simp: keeps_def requireGlobalTxn_def recordGlobalRead_def upd_def intro: frame)

lemmas reader_rules = keeps_rules merged_keeps scan_keeps trace_keeps global_keeps

lemma db_query_keeps: "(\<And>table m. merge table = Some m \<Longrightarrow> keeps I m) \<Longrightarrow> keeps I (db_query env merge spec)"
  unfolding db_query_def local_query_def global_query_def Let_def by (intro reader_rules)

lemma rule_fetch_keeps: "keeps I (rule_fetch env table)"
  unfolding rule_fetch_def by (intro keeps_rules db_query_keeps) simp

lemma resolve_read_keeps:
  "(\<And>f. tp_read p = Some f \<Longrightarrow> keeps I f) \<Longrightarrow> (\<And>t. keeps I (fetch t)) \<Longrightarrow> keeps I (resolveReadPolicy p fetch table rels)"
proof -
  assume a: "\<And>f. tp_read p = Some f \<Longrightarrow> keeps I f" and f: "\<And>t. keeps I (fetch t)"
  have "keeps I (resolveNode fetch rels 0 table n)" for n
    unfolding keeps_def using resolve_keeps(1)[of I fetch] f by blast
  then have "keeps I (resolveWhere fetch rels table w)" for w
    by (auto simp: resolveWhere_def intro!: keeps_rules split: policy_predicate.split bool.split)
  then show ?thesis using a by (auto simp: resolveReadPolicy_def intro!: keeps_rules split: option.split)
qed

lemma policies_keepD:
  assumes "policies_keep I env" "policy_of env table = Some (b, p)"
  shows "keeps I b" "tp_read p = Some f \<Longrightarrow> keeps I f" "tp_write p = Some g \<Longrightarrow> keeps I (g row)"
  using assms by (auto simp: policy_of_def policies_keep_def split: if_splits option.splits dest!: map_of_SomeD)

lemma read_merge_keeps: "policies_keep I env \<Longrightarrow> read_merge env table = Some m \<Longrightarrow> keeps I m"
  by (auto simp: read_merge_def read_policy_of_def split: option.splits if_splits
      intro!: keeps_rules rule_context_keeps resolve_read_keeps rule_fetch_keeps dest: policies_keepD)

lemma enforceWrite_keeps: "policies_keep I env \<Longrightarrow> keeps I (enforceWrite env table row)"
  by (auto simp: enforceWrite_def write_policy_of_def evalWritePolicy_def split: option.splits if_splits
      intro!: keeps_rules rule_context_keeps dest: policies_keepD)

lemma reads_keep:
  assumes "policies_keep I env" "ke_store env = st"
  shows "keeps I (handleDbQuery env spec)" "keeps I (handleDbPaginate env spec opts)" "keeps I (handleDbGet env did)"
    "keeps I (handleConsoleLog j)"
proof -
  note m = read_merge_keeps[OF assms(1)]
  show "keeps I (handleDbQuery env spec)" unfolding handleDbQuery_def by (rule db_query_keeps) (rule m)
  show "keeps I (handleDbPaginate env spec opts)" unfolding handleDbPaginate_def Let_def by (intro reader_rules m)
  have "keeps I (guarded_doc env meta doc)" for meta doc unfolding guarded_doc_def by (intro reader_rules m)
  then show "keeps I (handleDbGet env did)"
    unfolding handleDbGet_def global_get_syscall_def assms(2) by (intro reader_rules get_keeps)
  show "keeps I (handleConsoleLog j)" unfolding handleConsoleLog_def by (intro reader_rules upd_keeps) simp
qed

lemma reader_dispatch:
  assumes "policies_keep I env" "ke_store env = st" "\<not> cap_dbWrite (ke_profile env)"
  shows "keeps I (dispatch env rnd req)"
  using reads_keep[OF assms(1,2)] assms(3)
  by (cases req) (simp_all add: handleDbInsert_def handleDbReplace_def handleDbDelete_def)

lemma reads_through_keeps:
  assumes "reads_through env m" "ke_store env = st"
  shows "keeps I m"
proof -
  have step: "I s'" if "reader_step env s s'" "I s" for s s'
    using that reader_dispatch assms(2) by (auto simp: reader_step_def base_env_def policies_keep_def keeps_def)
  have "I s'" if "(reader_step env)\<^sup>*\<^sup>* s s'" "I s" for s s'
    using that by (induction rule: rtranclp_induct) (auto intro: step)
  then show ?thesis using assms(1) unfolding reads_through_def keeps_def by blast
qed

lemma policies_read_keep: "policies_read env \<Longrightarrow> ke_store env = st \<Longrightarrow> policies_keep I env"
  by (fastforce simp: policies_read_def policies_keep_def intro: reads_through_keeps)

text \<open>Reads leave in place what a transaction currently holds for a document.\<close>

lemma with_current: "reader_invariant st (\<lambda>s. I s \<and> (b \<or> current st i (ks_txn s) = v))"
  by unfold_locales (auto intro: frame get read read_unvalidated)

lemma mark_keeps: "keeps I (markWrite mark)"
  by (auto simp: keeps_def markWrite_def Let_def intro: frame split: option.split)

end

section \<open>What a write establishes\<close>

text \<open>The write policy of the table, if enforced, was consulted for the row and said yes.\<close>

definition accepted :: "'rc kernel_env \<Rightarrow> jsstring \<Rightarrow> document \<Rightarrow> bool" where
  "accepted env table row \<longleftrightarrow> returns (enforceWrite env table row) ()"

definition doc_ok :: "'rc kernel_env \<Rightarrow> table_meta \<Rightarrow> document \<Rightarrow> bool" where
  "doc_ok env meta doc \<longleftrightarrow> accepted env (tm_name meta) doc \<and> (\<exists>op. enforceShardWrite env meta doc op = Inr ()) \<and>
     (\<exists>es. validateDocumentForWrite meta es = Inr () \<and> omit SYSTEM_FIELDS es = omit SYSTEM_FIELDS doc)"

definition write_ok :: "'rc kernel_env \<Rightarrow> bytes \<Rightarrow> 'rc kernel_state \<Rightarrow> internal_document_id \<Rightarrow> document option \<Rightarrow> bool" where
  "write_ok env rnd s i v \<longleftrightarrow> 0 \<le> tableNumber i \<and>
     (\<exists>meta. getTableByNumber (ke_catalog env) (tableNumber i) = Some meta \<and>
        (\<forall>doc. v = Some doc \<longrightarrow> doc_ok env meta doc) \<and>
        (i = newDocumentId (tableNumber i) rnd \<or>
         (\<exists>found. current (ke_store env) i (ks_txn s) = Inr found \<and> (\<forall>old. found = Some old \<longrightarrow> accepted env (tm_name meta) old))))"

text \<open>Tables are stored under their names and numbers.\<close>

definition catalog_ok :: "index_catalog \<Rightarrow> bool" where
  "catalog_ok c \<longleftrightarrow> (\<forall>name m. getTable c name = Some m \<longrightarrow> tm_name m = name \<and> getTableByNumber c (tm_tableNumber m) = Some m)"

lemma omit_set: "k \<in> js ` set names \<Longrightarrow> omit names (setObjectKey es k v) = omit names es"
proof -
  assume k: "k \<in> js ` set names"
  have "omit names (AList.update k v es) = omit names es" by (induction es) (use k in \<open>auto simp: omit_def\<close>)
  moreover have "omit names (takeWhile P es @ (k, v) # dropWhile P es) = omit names es" for P
    using k filter_append[of "\<lambda>(k, _). k \<notin> js ` set names" "takeWhile P es" "dropWhile P es"] by (simp add: omit_def)
  ultimately show ?thesis using k by (auto simp: setObjectKey_def omit_def split: option.split)
qed

lemma omit_stamp [simp]: "omit SYSTEM_FIELDS (stamp es did v) = omit SYSTEM_FIELDS es"
  by (simp add: stamp_def omit_set SYSTEM_FIELDS_def)

lemma omit_omit [simp]: "omit SYSTEM_FIELDS (omit SYSTEM_FIELDS es) = omit SYSTEM_FIELDS es"
  by (simp add: omit_def)

lemma decoded_nonneg: "decodeDocumentId did = Inr i \<Longrightarrow> 0 \<le> tableNumber i"
  by (auto simp: decodeDocumentId_def Let_def split: sum.splits if_splits prod.splits)

lemma encoded_nonneg: "encodeInternalDocumentId i = Inr did \<Longrightarrow> 0 \<le> tableNumber i"
  by (auto simp: encodeInternalDocumentId_def encodeDocumentId_def varintEncode_def res_bind_Inr_iff split: if_splits)

section \<open>What every syscall keeps\<close>

locale writer_invariant = reader_invariant "ke_store env" I
  for env :: "'rc kernel_env" and rnd :: bytes and I :: "'rc kernel_state \<Rightarrow> bool" +
  assumes stage: "I s \<Longrightarrow> I (s\<lparr>ks_txn := stageIndexUpdates us (ks_txn s)\<rparr>)"
    and range_write: "I s \<Longrightarrow> I (s\<lparr>ks_txn := recordWrite r (ks_txn s)\<rparr>)"
    and global_write: "I s \<Longrightarrow> I (s\<lparr>ks_globalTxn := g\<rparr>)"
    and doc_write: "I s \<Longrightarrow> write_ok env rnd s i v \<Longrightarrow> I (s\<lparr>ks_txn := fst (ctx_write i v (ks_txn s))\<rparr>)"
begin

definition holding :: "bool \<Rightarrow> internal_document_id \<Rightarrow> document option result \<Rightarrow> 'rc kernel_state \<Rightarrow> bool" where
  "holding b i v s \<longleftrightarrow> I s \<and> (b \<or> current (ke_store env) i (ks_txn s) = v)"

lemma holding_reader: "reader_invariant (ke_store env) (holding b i v)"
  using with_current unfolding holding_def .

lemmas holding_keeps = reader_invariant.enforceWrite_keeps[OF holding_reader reader_invariant.policies_read_keep[OF holding_reader _ refl]]
  reader_invariant.mark_keeps[OF holding_reader]

lemma holdingD: "holding b i v s \<Longrightarrow> I s"
  by (simp add: holding_def)

lemma get_holding: "valid I (on_txn (ctx_get (ke_store env) i)) (\<lambda>found. holding b i (Inr found)) I"
proof -
  have "I (s\<lparr>ks_txn := c\<rparr>) \<and> (\<forall>v. r = Inr v \<longrightarrow> current (ke_store env) i c = Inr v)"
    if "I s" "ctx_get (ke_store env) i (ks_txn s) = (c, r)" for s c r
    using get[OF that(1), of i] ctx_get_current that(2) by (metis fst_conv)
  then show ?thesis by (auto simp: valid_def on_txn_def holding_def split: prod.splits sum.splits)
qed

lemma write_valid:
  assumes "0 \<le> tableNumber i" "getTableByNumber (ke_catalog env) (tableNumber i) = Some meta"
    and "\<And>doc. v = Some doc \<Longrightarrow> doc_ok env meta doc" "\<And>old. found = Some old \<Longrightarrow> accepted env (tm_name meta) old"
  shows "valid (holding (i = newDocumentId (tableNumber i) rnd) i (Inr found)) (on_txn (ctx_write i v)) (\<lambda>_. I) I"
proof -
  have "I (s\<lparr>ks_txn := fst (ctx_write i v (ks_txn s))\<rparr>)" if "holding (i = newDocumentId (tableNumber i) rnd) i (Inr found) s" for s
    using that assms doc_write[of s i v] by (auto simp: holding_def write_ok_def)
  then show ?thesis by (auto simp: valid_def on_txn_def split: prod.split sum.split) (metis fst_conv)+
qed

lemma maintain_keeps: "keeps I (maintainIndexes env table oldDoc newDoc i)"
proof -
  have s: "keeps I (upd_txn (stageIndexUpdates us))" for us using stage by (simp add: keeps_def upd_txn_def)
  have w: "keeps I (upd_txn (fold recordWrite rs))" for rs
    using fold_keeps[of _ recordWrite rs] range_write by (simp add: keeps_def upd_txn_def)
  show ?thesis unfolding maintainIndexes_def Let_def by (intro keeps_rules s w)
qed

lemma write_chain:
  assumes "0 \<le> tableNumber i" "getTableByNumber (ke_catalog env) (tableNumber i) = Some meta"
    and "\<And>doc. v = Some doc \<Longrightarrow> doc_ok env meta doc" "\<And>old. found = Some old \<Longrightarrow> accepted env (tm_name meta) old"
  shows "valid (holding (i = newDocumentId (tableNumber i) rnd) i (Inr found))
    (st_bind (markWrite mark) (\<lambda>_. st_bind (on_txn (ctx_write i v)) (\<lambda>_.
       st_bind (maintainIndexes env table oldDoc v i) (\<lambda>_. st_return a)))) (\<lambda>_. I) I"
  by (rule valid_bind_keeps[OF holding_keeps(2) holdingD], assumption, rule valid_bind[OF write_valid[OF assms]])
     (auto simp flip: keeps_valid intro!: keeps_rules maintain_keeps)

lemma enforce_chain:
  assumes "policies_read env" "accepted env table row \<Longrightarrow> valid (holding b i v) m R I"
  shows "valid (holding b i v) (st_bind (enforceWrite env table row) (\<lambda>_. m)) R I"
  by (rule valid_bind_keeps[OF holding_keeps(1)[OF assms(1)] holdingD]) (use assms in \<open>simp_all add: accepted_def\<close>)

lemma local_delete_keeps:
  assumes pol: "policies_read env"
    and meta: "0 \<le> tableNumber i" "getTableByNumber (ke_catalog env) (tableNumber i) = Some meta"
  shows "keeps I (local_delete env i meta)"
  unfolding keeps_valid local_delete_def
proof (rule valid_bind[OF get_holding])
  fix found
  have w: "ctx_delete i = ctx_write i None" by (simp add: ctx_delete_def fun_eq_iff)
  note chain = write_chain[OF meta, of None found]
  show "valid (holding (i = newDocumentId (tableNumber i) rnd) i (Inr found))
    (st_bind (case found of None \<Rightarrow> st_return () | Some doc \<Rightarrow> st_bind (st_lift (enforceShardWrite env meta doc DeleteOp)) (\<lambda>_. enforceWrite env (tm_name meta) doc)) (\<lambda>_.
     st_bind (markWrite mark_local) (\<lambda>_. st_bind (on_txn (ctx_delete i)) (\<lambda>_.
       st_bind (maintainIndexes env (tm_name meta) found None i) (\<lambda>_. st_return (response [])))))) (\<lambda>_. I) I"
  proof (cases found)
    case (Some doc)
    then show ?thesis unfolding w using chain
      by (simp add: bind_assoc) (intro valid_bind_lift enforce_chain[OF pol] holdingD; simp)
  qed (use chain in \<open>simp add: w\<close>)
qed

lemma local_replace_keeps:
  assumes pol: "policies_read env"
    and meta: "0 \<le> tableNumber i" "getTableByNumber (ke_catalog env) (tableNumber i) = Some meta"
  shows "keeps I (local_replace env i meta did j)"
  unfolding keeps_valid local_replace_def Let_def
proof (rule valid_bind[OF get_holding[where b = "i = newDocumentId (tableNumber i) rnd"]])
  fix found
  show "valid (holding (i = newDocumentId (tableNumber i) rnd) i (Inr found)) (case found of None \<Rightarrow> st_throw document_not_found
    | Some oldDoc \<Rightarrow> st_bind (enforceWrite env (tm_name meta) oldDoc) (\<lambda>_. st_bind (st_lift (jsonToConvex j)) (\<lambda>converted.
        st_bind (st_lift (spread converted)) (\<lambda>es. st_bind (st_lift (validateDocumentForWrite meta (omit SYSTEM_FIELDS es))) (\<lambda>_.
        st_bind (st_lift (enforceShardKeyImmutable env meta oldDoc (stamp es did (kept_creation env oldDoc)))) (\<lambda>_.
        st_bind (st_lift (enforceShardWrite env meta (stamp es did (kept_creation env oldDoc)) ReplaceOp)) (\<lambda>_.
        st_bind (enforceWrite env (tm_name meta) (stamp es did (kept_creation env oldDoc))) (\<lambda>_. st_bind (markWrite mark_local) (\<lambda>_.
        st_bind (on_txn (ctx_put i (stamp es did (kept_creation env oldDoc)))) (\<lambda>_.
        st_bind (maintainIndexes env (tm_name meta) (Some oldDoc) (Some (stamp es did (kept_creation env oldDoc))) i) (\<lambda>_.
          st_return (response [])))))))))))) (\<lambda>_. I) I"
  proof (cases found)
    case (Some oldDoc)
    let ?new = "\<lambda>es. stamp es did (kept_creation env oldDoc)"
    have w: "ctx_put i d = ctx_write i (Some d)" for d by (simp add: ctx_put_def fun_eq_iff)
    have ok: "doc_ok env meta (?new es)"
      if "validateDocumentForWrite meta (omit SYSTEM_FIELDS es) = Inr u" "enforceShardWrite env meta (?new es) ReplaceOp = Inr u'"
        "accepted env (tm_name meta) (?new es)" for es u u'
      using that unfolding doc_ok_def by (metis (full_types) omit_omit omit_stamp unit.exhaust)
    show ?thesis unfolding Some option.case w
    proof (intro enforce_chain[OF pol] valid_bind_lift)
      fix es u u' u'' assume a: "accepted env (tm_name meta) oldDoc" "validateDocumentForWrite meta (omit SYSTEM_FIELDS es) = Inr u"
        "enforceShardWrite env meta (?new es) ReplaceOp = Inr u''" "accepted env (tm_name meta) (?new es)"
      show "valid (holding (i = newDocumentId (tableNumber i) rnd) i (Inr (Some oldDoc))) (st_bind (markWrite mark_local) (\<lambda>_.
          st_bind (on_txn (ctx_write i (Some (?new es)))) (\<lambda>_. st_bind (maintainIndexes env (tm_name meta) (Some oldDoc) (Some (?new es)) i)
            (\<lambda>_. st_return (response []))))) (\<lambda>_. I) I"
        by (rule write_chain[OF meta]) (use a ok in auto)
    qed (erule holdingD)+
  qed (auto intro: valid_throw holdingD)
qed

lemma insert_id_valid:
  "valid I (insert_id env rnd meta supplied)
     (\<lambda>i s. holding (i = newDocumentId (tableNumber i) rnd) i (Inr None) s \<and> tableNumber i = tm_tableNumber meta) I"
proof (cases supplied)
  case None
  then show ?thesis by (auto simp: insert_id_def holding_def newDocumentId_def intro!: valid_return)
next
  case (Some v)
  have i: "tableNumber i = tm_tableNumber meta" if "supplied_id env meta v = Inr i" for i
    using that by (auto simp: supplied_id_def split: jvalue.splits sum.splits if_splits)
  show ?thesis unfolding insert_id_def Some option.case
  proof (intro valid_bind_lift, goal_cases)
    case (1 i)
    show ?case
      by (rule valid_bind[OF get_holding[where b = "i = newDocumentId (tableNumber i) rnd"]])
         (auto intro!: valid_bind_guard valid_return simp: i[OF 1] dest: holdingD)
  qed
qed

lemma local_insert_keeps:
  assumes pol: "policies_read env" and meta: "getTableByNumber (ke_catalog env) (tm_tableNumber meta) = Some meta"
  shows "keeps I (local_insert env rnd meta converted)"
  unfolding keeps_valid local_insert_def Let_def
proof (intro valid_bind_lift)
  fix es u assume user: "validateDocumentForWrite meta (omit [''_id''] es) = Inr u"
  let ?doc = "\<lambda>docId. stamp (omit [''_id''] es) docId (creation_time env)"
  have w: "ctx_put i d = ctx_write i (Some d)" for i d by (simp add: ctx_put_def fun_eq_iff)
  have ok: "doc_ok env meta (?doc did)" if "enforceShardWrite env meta (?doc did) InsertOp = Inr u'" "accepted env (tm_name meta) (?doc did)" for did u'
    using that user unfolding doc_ok_def by (metis (full_types) omit_stamp unit.exhaust)
  show "valid I (st_bind (insert_id env rnd meta (map_of es (js ''_id''))) (\<lambda>i. st_bind (st_lift (encodeInternalDocumentId i)) (\<lambda>docId.
      st_bind (st_lift (enforceShardWrite env meta (?doc docId) InsertOp)) (\<lambda>_. st_bind (enforceWrite env (tm_name meta) (?doc docId)) (\<lambda>_.
      st_bind (markWrite mark_local) (\<lambda>_. st_bind (on_txn (ctx_put i (?doc docId))) (\<lambda>_.
      st_bind (maintainIndexes env (tm_name meta) None (Some (?doc docId)) i) (\<lambda>_. st_return (id_response docId)))))))))
    (\<lambda>_. I) I"
  proof (rule valid_bind[OF insert_id_valid], rule valid_pure, unfold w, intro valid_bind_lift enforce_chain[OF pol])
    fix i did u' assume tn: "tableNumber i = tm_tableNumber meta" and enc: "encodeInternalDocumentId i = Inr did"
      and a: "enforceShardWrite env meta (?doc did) InsertOp = Inr u'" "accepted env (tm_name meta) (?doc did)"
    show "valid (holding (i = newDocumentId (tableNumber i) rnd) i (Inr None)) (st_bind (markWrite mark_local) (\<lambda>_.
        st_bind (on_txn (ctx_write i (Some (?doc did)))) (\<lambda>_. st_bind (maintainIndexes env (tm_name meta) None (Some (?doc did)) i)
          (\<lambda>_. st_return (id_response did))))) (\<lambda>_. I) I"
      by (rule write_chain[OF encoded_nonneg[OF enc]]) (use meta tn ok[OF a] in auto)
  qed (erule holdingD)+
qed

lemma global_write_keeps:
  "keeps I (global_insert env rnd meta converted)" "keeps I (global_replace env meta did j)" "keeps I (global_delete_syscall env meta did)"
proof -
  have g: "keeps I (stage_in_global f)" for f using global_write by (simp add: stage_in_global_def keeps_def upd_def)
  show "keeps I (global_insert env rnd meta converted)" unfolding global_insert_def by (intro reader_rules mark_keeps g)
  show "keeps I (global_replace env meta did j)" unfolding global_replace_def Let_def by (intro reader_rules mark_keeps g)
  show "keeps I (global_delete_syscall env meta did)" unfolding global_delete_syscall_def by (intro reader_rules mark_keeps g)
qed

lemma dispatch_keeps:
  assumes catalog: "catalog_ok (ke_catalog env)" and policies: "policies_read env"
  shows "keeps I (dispatch env rnd req)"
proof -
  note p = policies_read_keep[OF policies refl]
  have t: "0 \<le> tableNumber i \<and> getTableByNumber (ke_catalog env) (tableNumber i) = Some meta" if "table_of_id env did = Inr (i, meta)" for did i meta
    using that decoded_nonneg by (auto simp: table_of_id_def res_bind_Inr_iff split: option.splits)
  have n: "getTableByNumber (ke_catalog env) (tm_tableNumber meta) = Some meta" if "requireTable env table = Inr meta" for table meta
    using that catalog by (auto simp: requireTable_def catalog_ok_def split: option.splits)
  have ins: "keeps I (handleDbInsert env rnd table j)" for table j
    unfolding handleDbInsert_def by (intro keeps_rules global_write_keeps local_insert_keeps[OF policies] n)
  have rep: "keeps I (handleDbReplace env did j)" for did j unfolding handleDbReplace_def
  proof (intro keeps_bind_guard keeps_bind_lift)
    fix a assume "table_of_id env did = Inr a"
    then show "keeps I (case a of (i, meta) \<Rightarrow> if tm_mode meta = GlobalTable then global_replace env meta did j else local_replace env i meta did j)"
      using t[of did] local_replace_keeps[OF policies] global_write_keeps(2) by (cases a) simp
  qed
  have del: "keeps I (handleDbDelete env did)" for did unfolding handleDbDelete_def
  proof (intro keeps_bind_guard keeps_bind_lift)
    fix a assume "table_of_id env did = Inr a"
    then show "keeps I (case a of (i, meta) \<Rightarrow> if tm_mode meta = GlobalTable then global_delete_syscall env meta did else local_delete env i meta)"
      using t[of did] local_delete_keeps[OF policies] global_write_keeps(3) by (cases a) simp
  qed
  show ?thesis by (cases req) (simp_all add: reads_keep[OF p refl] ins rep del)
qed

end

end
