(* ===== verification/Kernel_Props.thy ===== *)
theory Kernel_Props
  imports Kernel_Runs
begin

text \<open>
  What a function can do to its transaction through its syscalls, whichever it makes, in whatever order,
  and whichever of their errors it catches.
\<close>

section \<open>Runs of a function\<close>

text \<open>The calls of a function, each with the random bytes it is given; an error goes back to the function.\<close>

definition run :: "'rc kernel_env \<Rightarrow> (bytes \<times> syscall) list \<Rightarrow> 'rc kernel_state \<Rightarrow> 'rc kernel_state" where
  "run env calls s = fold (\<lambda>(rnd, req) s. fst (dispatch env rnd req s)) calls s"

lemma run_keeps:
  "(\<And>rnd req. (rnd, req) \<in> set calls \<Longrightarrow> keeps I (dispatch env rnd req)) \<Longrightarrow> I s \<Longrightarrow> I (run env calls s)"
  unfolding run_def by (induction calls arbitrary: s) (fastforce simp: keeps_def)+

text \<open>A sharded table of notes with a schema, an index and a write policy.\<close>

definition sample_fields :: "(jsstring \<times> validator) list" where
  "sample_fields = [(js ''room'', VdString), (js ''body'', VdAny)]"

definition sample_meta :: table_meta where
  "sample_meta = table_meta_of (js ''notes'') 1 (Some (VdObject sample_fields)) True (Some (js ''room'')) False"

definition sample_index :: index_spec where
  "sample_index = \<lparr>is_table = js ''notes'', is_tableNumber = 1, is_index = js ''by_body'', is_fields = [js ''body''],
     is_indexId = encodeStorageIndexId 1 (js ''by_body'')\<rparr>"

definition not_spam :: "document \<Rightarrow> bool" where
  "not_spam row \<longleftrightarrow> map_of row (js ''body'') \<noteq> Some (VStr (js ''spam''))"

definition sample_policy :: "unit kernel_state table_policy" where
  "sample_policy = \<lparr>tp_read = None, tp_write = Some (\<lambda>row. st_return (not_spam row))\<rparr>"

definition sample_env :: "unit kernel_env" where
  "sample_env = \<lparr>ke_store = ds_empty, ke_d1 = \<lparr>d1_get = \<lambda>_ _. Inr None, d1_queryByIndex = \<lambda>_ _ _ _. Inr []\<rparr>,
     ke_profile = profileFor UdfMutation, ke_catalog = addIndex sample_index (put_table sample_meta newCatalog),
     ke_namespace = [], ke_privileged = False, ke_policies = [(js ''notes'', sample_policy)],
     ke_buildRule = Some (st_return ()), ke_relations = \<lparr>rr_toMany = [], rr_toOne = []\<rparr>, ke_shardId = DEFAULT_SHARD,
     ke_numShards = 1, ke_shardDeclared = True, ke_snapshotTs = 0, ke_traced = False, ke_trackGlobals = True\<rparr>"

definition sample_state :: "unit kernel_state" where
  "sample_state = \<lparr>ks_txn = newCtx 0 DEFAULT_SHARD DEFAULT_HEADROOM, ks_logs = [], ks_collectTrace = [], ks_paginateTrace = [],
     ks_globalTxn = None, ks_writeStores = Some \<lparr>ws_local = False, ws_global = False\<rparr>, ks_globalReads = [],
     ks_ruleContext = None, ks_tokenSeq = 0\<rparr>"

definition sample_bytes :: bytes where
  "sample_bytes = map word_of_nat [0..<16]"

definition sample_note :: "json \<Rightarrow> json" where
  "sample_note body = JObj [(js ''room'', JStr (js ''r'')), (js ''body'', body)]"

definition sample_calls :: "(bytes \<times> syscall) list" where
  "sample_calls = [(sample_bytes, DbInsert (js ''notes'') (sample_note (JStr (js ''spam'')))),
     (sample_bytes, DbInsert (js ''notes'') (sample_note (JStr (js ''hi''))))]"

definition sample_es :: "jvalue \<Rightarrow> document" where
  "sample_es body = [(js ''room'', VStr (js ''r'')), (js ''body'', body)]"

definition sample_id_text :: jsstring where
  "sample_id_text = (case encodeInternalDocumentId (newDocumentId 1 sample_bytes) of Inr d \<Rightarrow> d | Inl _ \<Rightarrow> [])"

definition sample_doc :: "jvalue \<Rightarrow> document" where
  "sample_doc body = [(js ''room'', VStr (js ''r'')), (js ''body'', body), (js ''_id'', VStr sample_id_text), (js ''_creationTime'', VNum 0)]"

lemma sample_encode: "encodeInternalDocumentId (newDocumentId 1 sample_bytes) = Inr sample_id_text"
proof -
  have "length (take INTERNAL_ID_BYTES sample_bytes) = INTERNAL_ID_BYTES" by (simp add: sample_bytes_def INTERNAL_ID_BYTES_def)
  then have "\<exists>d. encodeInternalDocumentId (newDocumentId 1 sample_bytes) = Inr d"
    by (simp add: encodeInternalDocumentId_def encodeDocumentId_def newDocumentId_def varintEncode_def UINT32_MAX_def Let_def)
  then show ?thesis by (auto simp: sample_id_text_def)
qed

lemma one_shard: "encodeIndexKey [v] = Inr key \<Longrightarrow> shard_of_value (Some v) 1 = Inr DEFAULT_SHARD"
proof -
  assume "encodeIndexKey [v] = Inr key"
  moreover have "jumpConsistentHash (fnv1a64 key) 1 = Some (Inr 0)"
    using jump_loop_returns[of 1 "-1" 0 "word_of_int (fnv1a64 key)"] by (auto simp: jumpConsistentHash_def)
  ultimately show ?thesis by (simp add: shard_of_value_def shardIdForKeyValue_def slot_id_def)
qed

lemma sample_guards:
  "requireTable sample_env (js ''notes'') = Inr sample_meta"
  "cap_dbWrite (ke_profile sample_env)" "tm_mode sample_meta = ShardTable" "tm_tableNumber sample_meta = 1" "tm_name sample_meta = js ''notes''"
  "shard_key sample_meta = Some (js ''room'')"
  "validateDocumentForWrite sample_meta (sample_es body) = Inr ()"
  "jsonToConvex j = Inr body \<Longrightarrow> jsonToConvex (sample_note j) = Inr (VObj (sample_es body))"
proof -
  show "validateDocumentForWrite sample_meta (sample_es body) = Inr ()"
    by (simp add: validateDocumentForWrite_def sample_meta_def table_meta_of_def validate_def sample_fields_def sample_es_def js_def)
  show "jsonToConvex j = Inr body \<Longrightarrow> jsonToConvex (sample_note j) = Inr (VObj (sample_es body))"
    by (simp add: sample_note_def sample_es_def obj_from_def setObjectKey_def js_def unescapeKey_def array_index_def is_digit_def)
qed code_simp+

lemma sample_write_policy: "write_policy_of sample_env (js ''notes'') = Some (st_return (), sample_policy)"
  by (simp add: write_policy_of_def policy_of_def sample_env_def sample_policy_def)

lemma sample_object:
  "spread (VObj (sample_es body)) = Inr (sample_es body)" "omit [''_id''] (sample_es body) = sample_es body" "map_of (sample_es body) (js ''_id'') = None"
  "stamp (sample_es body) sample_id_text (creation_time sample_env) = sample_doc body"
  "map_of (sample_doc body) (js ''room'') = Some (VStr (js ''r''))"
proof -
  have c: "creation_time sample_env = VNum 0" by (simp add: creation_time_def sample_env_def number_of_int_def)
  show "stamp (sample_es body) sample_id_text (creation_time sample_env) = sample_doc body"
    by (simp add: c stamp_def setObjectKey_def sample_doc_def sample_es_def js_def array_index_def is_digit_def)
qed (simp_all add: spread_def js_entries_def omit_def sample_es_def sample_doc_def js_def)

lemma sample_verdict: "not_spam (sample_doc body) \<longleftrightarrow> body \<noteq> VStr (js ''spam'')"
proof -
  have "js ''body'' \<noteq> js ''room''" by (simp add: js_def)
  then show ?thesis by (simp add: not_spam_def sample_doc_def)
qed

lemma sample_shard: "enforceShardWrite sample_env sample_meta (sample_doc body) InsertOp = Inr ()"
proof -
  have "ke_numShards sample_env = 1" "ke_shardId sample_env = DEFAULT_SHARD" "ke_shardDeclared sample_env" by code_simp+
  moreover have "\<exists>key. encodeIndexKey [VStr (js ''r'')] = Inr key" by (simp add: encodeIndexKey_def pushElement_def)
  ultimately show ?thesis using one_shard
    by (auto simp: enforceShardWrite_def sample_guards own_shard_def shardOfDoc_def sample_object)
qed

lemma sample_insert:
  "jsonToConvex j = Inr body \<Longrightarrow> handleDbInsert sample_env sample_bytes (js ''notes'') (sample_note j) =
     st_bind (enforceWrite sample_env (js ''notes'') (sample_doc body)) (\<lambda>_. st_bind (markWrite mark_local) (\<lambda>_.
     st_bind (on_txn (ctx_put (newDocumentId 1 sample_bytes) (sample_doc body))) (\<lambda>_.
     st_bind (maintainIndexes sample_env (js ''notes'') None (Some (sample_doc body)) (newDocumentId 1 sample_bytes)) (\<lambda>_.
       st_return (id_response sample_id_text)))))"
  by (simp add: handleDbInsert_def local_insert_def insert_id_def sample_guards sample_object sample_encode sample_shard Let_def)

lemma maintain_staged: "tx_staged (ks_txn (fst (maintainIndexes env table oldDoc newDoc i s))) = tx_staged (ks_txn s)"
proof -
  have f: "tx_staged (fold recordWrite rs c) = tx_staged c" for rs c by (induction rs arbitrary: c) (simp_all add: recordWrite_def)
  have "keeps (\<lambda>s'. tx_staged (ks_txn s') = tx_staged (ks_txn s)) (maintainIndexes env table oldDoc newDoc i)"
    unfolding maintainIndexes_def Let_def by (intro keeps_rules) (simp_all add: keeps_def upd_txn_def stageIndexUpdates_def f)
  then show ?thesis by (simp add: keeps_def)
qed

lemma sample_put:
  obtains c where "ctx_put (newDocumentId 1 sample_bytes) d (newCtx 0 DEFAULT_SHARD DEFAULT_HEADROOM) = (c, Inr ())"
    "uw_entries (tx_staged c) = [\<lparr>lw_id = newDocumentId 1 sample_bytes, lw_value = Some d\<rparr>]" "tx_indexUpdates c = []"
  by (simp add: ctx_put_def ctx_write_def newCtx_def newTracker_def countWrite_def DEFAULT_HEADROOM_def uw_set_def uw_entries_def)

lemma sample_run:
  "uw_entries (tx_staged (ks_txn (run sample_env sample_calls sample_state))) =
     [\<lparr>lw_id = newDocumentId 1 sample_bytes, lw_value = Some (sample_doc (VStr (js ''hi'')))\<rparr>]"
proof -
  let ?s = "sample_state\<lparr>ks_ruleContext := Some (Inr ())\<rparr>"
  have spam: "fst (handleDbInsert sample_env sample_bytes (js ''notes'') (sample_note (JStr (js ''spam''))) sample_state) = ?s"
    by (simp add: sample_insert[of _ "VStr (js ''spam'')"] enforceWrite_def sample_write_policy fst_bind rule_context_def sample_state_def st_bind_def evalWritePolicy_def
        sample_policy_def sample_verdict)
  let ?d = "sample_doc (VStr (js ''hi''))"
  obtain c where put: "ctx_put (newDocumentId 1 sample_bytes) ?d (newCtx 0 DEFAULT_SHARD DEFAULT_HEADROOM) = (c, Inr ())"
    and c: "uw_entries (tx_staged c) = [\<lparr>lw_id = newDocumentId 1 sample_bytes, lw_value = Some ?d\<rparr>]" by (rule sample_put)
  have hi: "js ''hi'' \<noteq> js ''spam''" by (simp add: js_def)
  have "fst (handleDbInsert sample_env sample_bytes (js ''notes'') (sample_note (JStr (js ''hi''))) ?s) =
      fst (maintainIndexes sample_env (js ''notes'') None (Some ?d) (newDocumentId 1 sample_bytes)
        (?s\<lparr>ks_writeStores := Some \<lparr>ws_local = True, ws_global = False\<rparr>, ks_txn := c\<rparr>))"
    by (simp add: sample_insert[of _ "VStr (js ''hi'')"] enforceWrite_def sample_write_policy st_bind_def rule_context_def sample_state_def
        evalWritePolicy_def sample_policy_def sample_verdict hi markWrite_def on_txn_def put split: prod.split sum.split)
  then show ?thesis using c by (simp add: run_def sample_calls_def spam maintain_staged uw_entries_def)
qed

lemma sample_staged:
  "\<lparr>lw_id = newDocumentId 1 sample_bytes, lw_value = Some (sample_doc (VStr (js ''hi'')))\<rparr> \<in>
     set (uw_entries (tx_staged (ks_txn (run sample_env sample_calls sample_state))))"
  by (simp add: sample_run)

lemma sample_env_ok: "catalog_ok (ke_catalog sample_env)" "policies_read sample_env" "tx_staged (ks_txn sample_state) = []"
proof -
  show "catalog_ok (ke_catalog sample_env)"
    by (auto simp: catalog_ok_def sample_env_def addIndex_def put_table_def newCatalog_def getTable_def getTableByNumber_def sample_meta_def
        table_meta_of_def sample_index_def split: if_splits)
  show "policies_read sample_env" by (simp add: policies_read_def reads_through_def sample_env_def sample_policy_def)
qed (simp add: sample_state_def newCtx_def)

lemma sample_table: "getTableByNumber (ke_catalog sample_env) (tableNumber (newDocumentId 1 sample_bytes)) = Some sample_meta"
  by code_simp

text \<open>A shard is always found: the case \<open>shard_of_value\<close> has no value for does not arise.\<close>

lemma shard_of_total:
  assumes "n \<le> 2 ^ 53" shows "shardIdForKeyValue v n \<noteq> None"
proof (cases "encodeIndexKey [v]")
  case (Inr bs)
  have "0 < max 1 n" "max 1 n \<le> 2 ^ 53" using assms by simp_all
  then have "\<exists>slot. jumpConsistentHash (fnv1a64 bs) (max 1 n) = Some (Inr slot)"
    using jump_loop_returns[of "max 1 n" "-1" 0 "word_of_int (fnv1a64 bs)"] by (auto simp: jumpConsistentHash_def simp del: max_less_iff_conj less_max_iff_disj)
  then show ?thesis using Inr by (auto simp: shardIdForKeyValue_def)
qed (simp add: shardIdForKeyValue_def)

section \<open>Every run is a run of the transaction model\<close>

interpretation txn_steps: writer_invariant env rnd "\<lambda>s. (ctx_step (ke_store env))\<^sup>*\<^sup>* c (ks_txn s)"
  for env :: "'rc kernel_env" and rnd :: bytes and c :: txn_ctx
proof (unfold_locales, goal_cases)
  case (8 s i v)
  have "ctx_step (ke_store env) (ks_txn s) (fst (ctx_write i v (ks_txn s)))"
    using step_put[of "ke_store env" "ks_txn s" i] step_delete[of "ke_store env" "ks_txn s" i]
    by (cases v) (simp_all add: ctx_put_def ctx_delete_def)
  then show ?case using 8 by (simp add: rtranclp.rtrancl_into_rtrancl)
qed (auto intro: rtranclp.rtrancl_into_rtrancl ctx_step.intros)

lemma run_steps:
  assumes "catalog_ok (ke_catalog env)" "policies_read env"
  shows "(ctx_step (ke_store env))\<^sup>*\<^sup>* (ks_txn s) (ks_txn (run env calls s))"
  using run_keeps[of calls "\<lambda>s'. (ctx_step (ke_store env))\<^sup>*\<^sup>* (ks_txn s) (ks_txn s')" env s] txn_steps.dispatch_keeps[OF assms]
  by blast



section \<open>The headroom\<close>

definition writes_within :: "headroom_limits \<Rightarrow> txn_ctx \<Rightarrow> bool" where
  "writes_within limits c \<longleftrightarrow> ht_limits (tx_headroom c) = limits \<and> int (length (tx_staged c)) \<le> ht_writes (tx_headroom c) \<and>
     int (length (tx_staged c)) \<le> max 0 (hl_maxWrites limits)"

lemma write_within: "writes_within limits c \<Longrightarrow> writes_within limits (fst (ctx_write i v c))"
proof -
  have "length (AList.update k x m) \<le> Suc (length m)" for k and x :: local_write and m by (induction m) auto
  from this[of "documentIdKey i" "\<lparr>lw_id = i, lw_value = v\<rparr>" "tx_staged c"]
  show "writes_within limits c \<Longrightarrow> writes_within limits (fst (ctx_write i v c))"
    by (auto simp: writes_within_def ctx_write_def countWrite_def uw_set_def Let_def)
qed

lemma step_within: "ctx_step st c c' \<Longrightarrow> writes_within limits c \<Longrightarrow> writes_within limits c'"
proof (induction rule: ctx_step.induct)
  case (step_get st c i)
  then show ?case by (simp add: writes_within_def ctx_get_def countRead_def Let_def split: option.splits)
next
  case (step_put st c i v)
  then show ?case using write_within by (simp add: ctx_put_def)
next
  case (step_delete st c i)
  then show ?case using write_within by (simp add: ctx_delete_def)
qed (simp_all add: writes_within_def recordRead_def recordReadUnvalidated_def recordWrite_def stageIndexUpdates_def)

text \<open>C23. A function stages at most as many documents as the headroom of its transaction allows, even when it
  catches the error a write over the limit throws.\<close>

theorem writes_bounded:
  assumes "catalog_ok (ke_catalog env)" "policies_read env" "ks_txn s = newCtx ts shard limits"
  shows "int (length (uw_entries (tx_staged (ks_txn (run env calls s))))) \<le> max 0 (hl_maxWrites limits)"
proof -
  have "writes_within limits (ks_txn (run env calls s))"
    using run_steps[OF assms(1,2), of s calls]
    by (induction rule: rtranclp_induct) (auto simp: assms(3) writes_within_def newCtx_def newTracker_def dest: step_within[unfolded writes_within_def])
  then show ?thesis by (simp add: writes_within_def uw_entries_def)
qed

theorem writes_bounded_witness:
  "int (length (uw_entries (tx_staged (ks_txn (run sample_env sample_calls sample_state))))) \<le> max 0 4096"
  using writes_bounded[OF sample_env_ok(1,2), of sample_state 0 DEFAULT_SHARD DEFAULT_HEADROOM sample_calls]
  by (simp add: sample_state_def DEFAULT_HEADROOM_def)

section \<open>What is staged was checked\<close>

definition staged_docs :: "'rc kernel_env \<Rightarrow> 'rc kernel_state \<Rightarrow> bool" where
  "staged_docs env s \<longleftrightarrow> (\<forall>(k, w) \<in> set (tx_staged (ks_txn s)). k = documentIdKey (lw_id w) \<and> 0 \<le> tableNumber (lw_id w) \<and>
     (\<exists>meta. getTableByNumber (ke_catalog env) (tableNumber (lw_id w)) = Some meta \<and>
        (\<forall>doc. lw_value w = Some doc \<longrightarrow> doc_ok env meta doc)))"

text \<open>What a staged write overwrites at the snapshot.\<close>

definition staged_over :: "'rc kernel_env \<Rightarrow> 'rc kernel_state \<Rightarrow> bool" where
  "staged_over env s \<longleftrightarrow> (\<forall>(k, w) \<in> set (tx_staged (ks_txn s)). \<forall>meta d.
     getTableByNumber (ke_catalog env) (tableNumber (lw_id w)) = Some meta \<longrightarrow>
     ds_get (ke_store env) (lw_id w) (Some (tx_snapshotTs (ks_txn s))) = Inr (Some d) \<longrightarrow> accepted env (tm_name meta) (ld_value d))"

definition unused :: "doc_store \<Rightarrow> int \<Rightarrow> bytes \<Rightarrow> bool" where
  "unused st ts rnd \<longleftrightarrow> (\<forall>n. ds_get st (newDocumentId n rnd) (Some ts) = Inr None)"

definition staged_inv :: "'rc kernel_env \<Rightarrow> bytes \<Rightarrow> int \<Rightarrow> bool \<Rightarrow> 'rc kernel_state \<Rightarrow> bool" where
  "staged_inv env rnd ts b s \<longleftrightarrow> staged_docs env s \<and> tx_snapshotTs (ks_txn s) = ts \<and>
     (b \<longrightarrow> unused (ke_store env) ts rnd \<longrightarrow> staged_over env s)"

lemma ctx_write_staged:
  assumes "(k, w) \<in> set (tx_staged (fst (ctx_write i v c)))"
  shows "(k, w) \<in> set (tx_staged c) \<or> (k = documentIdKey i \<and> w = \<lparr>lw_id = i, lw_value = v\<rparr>)"
proof -
  have "set (AList.update k' x m) \<subseteq> insert (k', x) (set m)" for k' and x :: local_write and m by (induction m) auto
  with assms show ?thesis by (fastforce simp: ctx_write_def countWrite_def uw_set_def Let_def split: if_splits)
qed

lemma ctx_write_snapshot [simp]: "tx_snapshotTs (fst (ctx_write i v c)) = tx_snapshotTs c"
  by (simp add: ctx_write_def countWrite_def Let_def)

lemma write_over:
  assumes inv: "staged_docs env s" "staged_over env s" and ok: "write_ok env rnd s i v"
    and fresh: "unused (ke_store env) (tx_snapshotTs (ks_txn s)) rnd"
    and meta: "getTableByNumber (ke_catalog env) (tableNumber i) = Some meta"
    and d: "ds_get (ke_store env) i (Some (tx_snapshotTs (ks_txn s))) = Inr (Some d)"
  shows "accepted env (tm_name meta) (ld_value d)"
proof -
  have "i \<noteq> newDocumentId (tableNumber i) rnd" using fresh d by (metis unused_def sum.inject(2) option.distinct(1))
  then obtain found where cur: "current (ke_store env) i (ks_txn s) = Inr found" and acc: "\<And>old. found = Some old \<Longrightarrow> accepted env (tm_name meta) old"
    using ok meta by (auto simp: write_ok_def)
  show ?thesis
  proof (cases "uw_get i (tx_staged (ks_txn s))")
    case (Some w)
    then have w: "(documentIdKey i, w) \<in> set (tx_staged (ks_txn s))" by (auto simp: uw_get_def dest: map_of_SomeD)
    then have "lw_id w = i" using inv(1) ok documentIdKey_inj[of i "lw_id w"] by (auto simp: staged_docs_def write_ok_def)
    then show ?thesis using w inv(2) meta d by (auto simp: staged_over_def)
  next
    case None
    then show ?thesis using cur acc d by (simp add: current_def)
  qed
qed

interpretation staged: writer_invariant env rnd "staged_inv env rnd ts b" for env :: "'rc kernel_env" and rnd :: bytes and ts :: int and b :: bool
proof (unfold_locales, goal_cases)
  case (8 s i v)
  let ?s = "s\<lparr>ks_txn := fst (ctx_write i v (ks_txn s))\<rparr>"
  have docs: "staged_docs env s" and ts: "tx_snapshotTs (ks_txn s) = ts" and over: "b \<Longrightarrow> unused (ke_store env) ts rnd \<Longrightarrow> staged_over env s"
    using 8(1) by (auto simp: staged_inv_def)
  have "staged_docs env ?s"
    unfolding staged_docs_def
  proof (intro ballI, clarify)
    fix k w assume "(k, w) \<in> set (tx_staged (ks_txn ?s))"
    then have "(k, w) \<in> set (tx_staged (ks_txn s)) \<or> (k = documentIdKey i \<and> w = \<lparr>lw_id = i, lw_value = v\<rparr>)"
      using ctx_write_staged[of k w i v "ks_txn s"] by simp
    then show "k = documentIdKey (lw_id w) \<and> 0 \<le> tableNumber (lw_id w) \<and> (\<exists>meta. getTableByNumber (ke_catalog env) (tableNumber (lw_id w)) = Some meta \<and>
        (\<forall>doc. lw_value w = Some doc \<longrightarrow> doc_ok env meta doc))"
      using docs 8(2) by (auto simp: staged_docs_def write_ok_def)
  qed
  moreover have "staged_over env ?s" if "b" "unused (ke_store env) ts rnd"
    unfolding staged_over_def
  proof (intro ballI, clarify)
    fix k w meta d assume w: "(k, w) \<in> set (tx_staged (ks_txn ?s))" and meta: "getTableByNumber (ke_catalog env) (tableNumber (lw_id w)) = Some meta"
      and d: "ds_get (ke_store env) (lw_id w) (Some (tx_snapshotTs (ks_txn ?s))) = Inr (Some d)"
    from w have "(k, w) \<in> set (tx_staged (ks_txn s)) \<or> lw_id w = i" using ctx_write_staged[of k w i v "ks_txn s"] by auto
    then show "accepted env (tm_name meta) (ld_value d)"
    proof
      assume "(k, w) \<in> set (tx_staged (ks_txn s))"
      then show ?thesis using over[OF that] meta d by (auto simp: staged_over_def)
    next
      assume i: "lw_id w = i"
      show ?thesis by (rule write_over[OF docs over[OF that] 8(2)]) (use that meta d i ts in simp_all)
    qed
  qed
  ultimately show ?case using ts by (simp add: staged_inv_def)
qed (auto simp: staged_inv_def staged_docs_def staged_over_def stageIndexUpdates_def recordWrite_def)

lemma staged_run:
  assumes "catalog_ok (ke_catalog env)" "policies_read env" "tx_staged (ks_txn s) = []"
    and "\<And>rnd req. (rnd, req) \<in> set calls \<Longrightarrow> b \<Longrightarrow> unused (ke_store env) (tx_snapshotTs (ks_txn s)) rnd"
  shows "staged_docs env (run env calls s) \<and> tx_snapshotTs (ks_txn (run env calls s)) = tx_snapshotTs (ks_txn s) \<and>
    (b \<longrightarrow> staged_over env (run env calls s))"
proof (rule run_keeps)
  let ?I = "\<lambda>s'. staged_docs env s' \<and> tx_snapshotTs (ks_txn s') = tx_snapshotTs (ks_txn s) \<and> (b \<longrightarrow> staged_over env s')"
  fix rnd req assume "(rnd, req) \<in> set calls"
  then have "?I = staged_inv env rnd (tx_snapshotTs (ks_txn s)) b" using assms(4) by (auto simp: staged_inv_def fun_eq_iff)
  then show "keeps ?I (dispatch env rnd req)" using staged.dispatch_keeps[OF assms(1,2)] by simp
qed (simp add: assms(3) staged_docs_def staged_over_def)

lemma run_doc_ok:
  assumes "catalog_ok (ke_catalog env)" "policies_read env" "tx_staged (ks_txn s) = []"
    and "w \<in> set (uw_entries (tx_staged (ks_txn (run env calls s))))" "lw_value w = Some doc"
    and "getTableByNumber (ke_catalog env) (tableNumber (lw_id w)) = Some meta"
  shows "doc_ok env meta doc"
  using staged_run[OF assms(1-3), of calls False] assms(4-6) by (fastforce simp: staged_docs_def uw_entries_def)

text \<open>C17. Schema safety.  Every document a run stages in a table with a schema has, system fields aside, the
  type the schema declares, unless the schema declares the system fields itself.\<close>

theorem writes_match_schema:
  assumes "catalog_ok (ke_catalog env)" "policies_read env" "tx_staged (ks_txn s) = []"
    and "w \<in> set (uw_entries (tx_staged (ks_txn (run env calls s))))" "lw_value w = Some doc"
    and "getTableByNumber (ke_catalog env) (tableNumber (lw_id w)) = Some meta"
    and "tm_documentValidator meta = Some (VdObject flds)" "fst ` set flds \<inter> js ` set SYSTEM_FIELDS = {}"
  shows "has_type (VdObject flds) (VObj (omit SYSTEM_FIELDS doc))"
proof -
  obtain es where "validateDocumentForWrite meta es = Inr ()" and o: "omit SYSTEM_FIELDS es = omit SYSTEM_FIELDS doc"
    using run_doc_ok[OF assms(1-6)] by (auto simp: doc_ok_def)
  then have "check (VdObject flds) (VObj es) [] = []"
    using assms(7) by (simp add: validateDocumentForWrite_def validate_def del: check.simps split: if_splits)
  then have t: "has_type (VdObject flds) (VObj es)" by (simp only: check_has_type)
  then have "fst ` set es \<subseteq> fst ` set flds" by simp
  then have "omit SYSTEM_FIELDS es = es" using assms(8) unfolding omit_def by (intro filter_True) fastforce
  then show ?thesis using t o by simp
qed

theorem writes_match_schema_witness:
  "has_type (VdObject sample_fields) (VObj (omit SYSTEM_FIELDS (sample_doc (VStr (js ''hi'')))))"
proof (rule writes_match_schema[OF sample_env_ok sample_staged])
  show "fst ` set sample_fields \<inter> js ` set SYSTEM_FIELDS = {}" by (simp add: sample_fields_def SYSTEM_FIELDS_def js_def)
  show "tm_documentValidator sample_meta = Some (VdObject sample_fields)" by (simp add: sample_meta_def table_meta_of_def)
  show "getTableByNumber (ke_catalog sample_env) (tableNumber (lw_id \<lparr>lw_id = newDocumentId 1 sample_bytes, lw_value = Some (sample_doc (VStr (js ''hi'')))\<rparr>)) =
      Some sample_meta" by (simp add: sample_table)
qed simp

text \<open>C15. Shard ownership.  Every document a run stages in a sharded table routes to the shard the transaction
  runs on, and only runs that declared their shard, or privileged ones, stage any.\<close>

theorem writes_stay_on_shard:
  assumes "catalog_ok (ke_catalog env)" "policies_read env" "tx_staged (ks_txn s) = []"
    and "w \<in> set (uw_entries (tx_staged (ks_txn (run env calls s))))" "lw_value w = Some doc"
    and "getTableByNumber (ke_catalog env) (tableNumber (lw_id w)) = Some meta" "shard_key meta = Some k"
  shows "shardOfDoc env k doc = Inr (ke_shardId env) \<and> (ke_privileged env \<or> ke_shardDeclared env)"
  using run_doc_ok[OF assms(1-6)] assms(7)
  by (auto simp: doc_ok_def enforceShardWrite_def own_shard_def res_bind_Inr_iff split: if_splits)

theorem writes_stay_on_shard_witness:
  "shardOfDoc sample_env (js ''room'') (sample_doc (VStr (js ''hi''))) = Inr (ke_shardId sample_env) \<and>
     (ke_privileged sample_env \<or> ke_shardDeclared sample_env)"
  by (rule writes_stay_on_shard[OF sample_env_ok sample_staged, of _ sample_meta]) (simp_all add: sample_table sample_guards)

lemma accepted_verdict:
  assumes "accepted env table row" "write_policy_of env table = Some (build, p)" "tp_write p = Some f"
    and "\<And>row s s' v. f row s = (s', Inr v) \<Longrightarrow> v = good row"
  shows "good row"
  using assms(1-3) assms(4)[of row]
  by (auto simp: accepted_def returns_def enforceWrite_def evalWritePolicy_def st_bind_Inr_iff st_guard_Inr_iff)



section \<open>A failed insert is not undone\<close>

lemma sample_unindexable:
  "computeIndexUpdates (indexesForTable (ke_catalog sample_env) (js ''notes'')) None (Some (sample_doc (VArr []))) i =
     Inl (TypeError ''index key elements must be scalar values'')"
proof -
  have "indexesForTable (ke_catalog sample_env) (js ''notes'') = [sample_index]"
    by (simp add: indexesForTable_def sample_env_def addIndex_def put_table_def newCatalog_def or_default_def sample_index_def sample_meta_def table_meta_of_def)
  moreover have "evaluateFieldPath (sample_doc (VArr [])) (js ''body'') = Some (VArr [])"
    by (simp add: evaluateFieldPath_def sample_doc_def js_def)
  moreover have "pushElement (VArr []) = Inl (TypeError ''index key elements must be scalar values'')" by (simp add: pushElement_def)
  ultimately show ?thesis
    by (simp add: computeIndexUpdates_def extract_opt_def extractIndexKey_def key_tuple_def encodeIndexKey_def sample_index_def)
qed


end
