(* ===== verification/Kernel_Reads.thy ===== *)
theory Kernel_Reads
  imports Kernel_Props
begin

text \<open>
  Reads under a read policy: a query returns what the unrestricted query would, cut down to the rows the
  policy's predicate admits, and a read by id returns the document exactly when the predicate admits it.
\<close>

section \<open>Filters and the limit of a query\<close>

lemma collect_loop_all: "collect_loop P None items docs ls = Inr x \<Longrightarrow> \<exists>its. items = map Inr its"
proof (induction P "None :: int option" items docs ls rule: collect_loop.induct)
  case (3 P key doc items docs ls)
  then obtain its where "items = map Inr its" by (auto simp: Let_def limit_reached_def split: if_splits)
  then show ?case by (intro exI[of _ "(key, doc) # its"]) simp
qed simp_all

lemma plan_frame [simp]:
  "query_interval (q\<lparr>q_filters := fs\<rparr>) = query_interval q" "query_interval (q\<lparr>q_limit := n\<rparr>) = query_interval q"
  "scan_of st (q\<lparr>q_filters := fs\<rparr>) t iv = scan_of st q t iv" "scan_of st (q\<lparr>q_limit := n\<rparr>) t iv = scan_of st q t iv"
  "scanWithOverlay st (q\<lparr>q_filters := fs\<rparr>) t iv ov = scanWithOverlay st q t iv ov"
  "scanWithOverlay st (q\<lparr>q_limit := n\<rparr>) t iv ov = scanWithOverlay st q t iv ov"
  by (simp_all add: query_interval_def scan_of_def scanWithOverlay_def order_of_def)

lemma passes_none [simp]: "passes (q\<lparr>q_filters := None\<rparr>) = (\<lambda>_. True)" "passes (q\<lparr>q_limit := n\<rparr>) = passes q"
  by (simp_all add: passes_def or_default_def fun_eq_iff)

lemma passes_merged: "passes (q\<lparr>q_filters := Some (mergeReadPolicy (q_filters q) e)\<rparr>) = (\<lambda>d. passes q d \<and> row_matches e d)"
  by (auto simp: fun_eq_iff passes_def mergeReadPolicy_def row_matches_def or_default_def split: option.splits)

lemma limit_take_None [simp]: "limit_take None xs = xs"
  by (simp add: limit_take_def)

lemma collect_filtered:
  assumes "collect st (q\<lparr>q_filters := None, q_limit := None\<rparr>) t ov = Inr all" and "collect st (q\<lparr>q_filters := fs\<rparr>) t ov = Inr r"
  shows "cr_documents r = limit_take (q_limit q) (filter (passes (q\<lparr>q_filters := fs\<rparr>)) (cr_documents all))"
proof -
  have below: "below_limit n []" for n :: "int option" by (auto simp: below_limit_def less_max_iff_disj split: option.split)
  obtain iv where iv: "query_interval q = Inr iv" using assms(1) by (auto simp: collect_def res_bind_Inr_iff)
  show ?thesis
  proof (cases "or_default ov [] = []")
    case False
    then show ?thesis using assms by (auto simp: collect_def res_bind_Inr_iff overlay_collect_spec[OF below])
  next
    case True
    then obtain x where "collect_loop (\<lambda>_. True) None (scan_of st q t iv) [] None = Inr x"
      using assms(1) iv by (auto simp: collect_def res_bind_Inr_iff)
    then obtain its where its: "scan_of st q t iv = map Inr its" using collect_loop_all by blast
    obtain ls hit where "collect_loop (\<lambda>_. True) None (map Inr its) [] None = Inr (item_values its, ls, hit)"
      using collect_loop_spec[where limit = None and docs = "[]" and P = "\<lambda>_. True" and its = its and lastScanned = None, OF below] by (auto simp: limit_take_def)
    moreover obtain ls' hit' where "collect_loop (passes (q\<lparr>q_filters := fs\<rparr>)) (q_limit q) (map Inr its) [] None =
        Inr (limit_take (q_limit q) (filter (passes (q\<lparr>q_filters := fs\<rparr>)) (item_values its)), ls', hit')"
      using collect_loop_spec[where limit = "q_limit q" and docs = "[]" and P = "passes (q\<lparr>q_filters := fs\<rparr>)" and its = its and lastScanned = None, OF below] by auto
    ultimately show ?thesis using assms True iv its by (auto simp: collect_def res_bind_Inr_iff)
  qed
qed

section \<open>What a read depends on\<close>

type_synonym txn_view = "uncommitted_writes \<times> index_update list \<times> int \<times> global_txn option"

definition view :: "'rc kernel_state \<Rightarrow> txn_view" where
  "view s = (tx_staged (ks_txn s), tx_indexUpdates (ks_txn s), tx_snapshotTs (ks_txn s), ks_globalTxn s)"

interpretation views: reader_invariant st "\<lambda>s. view s = v" for st :: doc_store and v :: txn_view
  by unfold_locales (auto simp: view_def)

text \<open>Equal views, equal results, and equal views again.\<close>

definition by_view :: "('rc, 'a) kernel \<Rightarrow> bool" where
  "by_view m \<longleftrightarrow> (\<forall>s s'. view s = view s' \<longrightarrow> snd (m s) = snd (m s') \<and> view (fst (m s)) = view (fst (m s')))"

lemma by_viewD: "by_view m \<Longrightarrow> view s = view s' \<Longrightarrow> snd (m s) = snd (m s') \<and> view (fst (m s)) = view (fst (m s'))"
  unfolding by_view_def by blast

lemma by_view_bind:
  assumes "by_view m" "\<And>a. by_view (f a)" shows "by_view (st_bind m f)"
  unfolding by_view_def
proof (intro allI impI)
  fix s s' :: "'a kernel_state" assume v: "view s = view s'"
  obtain u u' r where m: "m s = (u, r)" "m s' = (u', r)" and u: "view u = view u'" using by_viewD[OF assms(1) v] by (metis prod.collapse)
  show "snd (st_bind m f s) = snd (st_bind m f s') \<and> view (fst (st_bind m f s)) = view (fst (st_bind m f s'))"
  proof (cases r)
    case (Inl e)
    then show ?thesis using m u by (simp add: st_bind_def)
  next
    case (Inr a)
    then show ?thesis using m by_viewD[OF assms(2) u, of a] by (simp add: st_bind_def)
  qed
qed

lemma by_view_simps [simp, intro]: "by_view (st_return a)" "by_view (st_lift r)" "by_view (st_guard ok e)" "by_view requireGlobalTxn"
  by (simp_all add: by_view_def st_return_def st_lift_def st_guard_def st_throw_def requireGlobalTxn_def view_def)

lemma by_view_if: "by_view m \<Longrightarrow> by_view n \<Longrightarrow> by_view (if b then m else n)"
  by simp

lemma by_view_option: "by_view m \<Longrightarrow> (\<And>a. by_view (f a)) \<Longrightarrow> by_view (case x of None \<Rightarrow> m | Some a \<Rightarrow> f a)"
  by (cases x) simp_all

lemma fold_frame: "(\<And>r c. g (f r c) = g c) \<Longrightarrow> g (fold f rs c) = g c"
  by (induction rs arbitrary: c) simp_all

lemma record_view [simp]: "view (fst (recordScanReads env meta rs s)) = view s"
  by (simp add: recordScanReads_def upd_txn_def Let_def view_def fold_frame)

lemma by_view_record: "by_view (recordScanReads env meta rs)"
proof -
  have "snd (recordScanReads env meta rs s) = Inr ()" for s by (simp add: recordScanReads_def upd_txn_def Let_def)
  then show ?thesis by (simp add: by_view_def)
qed

lemma overlay_view: "view s = view s' \<Longrightarrow> pendingIndexOverlay n (ks_txn s) = pendingIndexOverlay n (ks_txn s')"
proof -
  assume "view s = view s'"
  then have "tx_staged (ks_txn s) = tx_staged (ks_txn s')" "tx_indexUpdates (ks_txn s) = tx_indexUpdates (ks_txn s')" by (simp_all add: view_def)
  then show ?thesis by (simp add: pendingIndexOverlay_def cong: if_cong)
qed

lemma by_view_scan: "by_view (scan_query env meta q)"
  unfolding by_view_def
proof (intro allI impI)
  fix s s' :: "'a kernel_state" assume v: "view s = view s'"
  have "by_view (st_bind (st_lift x) (\<lambda>r. st_bind (recordScanReads env meta (rs_toArray (cr_readSet r))) (\<lambda>_. st_return r)))" for x
    by (intro by_view_bind by_view_simps by_view_record)
  from by_viewD[OF this v] show "snd (scan_query env meta q s) = snd (scan_query env meta q s') \<and>
      view (fst (scan_query env meta q s)) = view (fst (scan_query env meta q s'))"
    by (simp add: scan_query_def Let_def overlay_view[OF v])
qed

lemma base_frame:
  "trace_token (base_env env) = st_return None" "recordGlobalRead (base_env env) table = st_return ()"
  "merged_query (\<lambda>_. None) table q = st_return q" "trace_collect e spec q had r None = st_return ()"
  by (simp_all add: trace_token_def recordGlobalRead_def merged_query_def trace_collect_def base_env_def)

lemma by_view_base_query: "by_view (db_query (base_env env) (\<lambda>_. None) spec)"
  unfolding db_query_def local_query_def global_query_def Let_def base_frame bind_return
  by (intro by_view_bind by_view_if by_view_option by_view_simps by_view_scan)

text \<open>The rows of every table as the policies of a transaction see them.\<close>

definition rows_at :: "'rc kernel_env \<Rightarrow> 'rc kernel_state \<Rightarrow> jsstring \<Rightarrow> document list" where
  "rows_at env s t = (case snd (rule_fetch env t s) of Inr rows \<Rightarrow> rows | Inl _ \<Rightarrow> [])"

lemma by_view_rule: "by_view (rule_fetch env t)"
  unfolding rule_fetch_def by (intro by_view_bind by_view_base_query by_view_simps)

lemma reads_rows_at: "reads_rows (\<lambda>s'. view s' = view s) (rule_fetch env) (rows_at env s)"
proof -
  have "rows = rows_at env s t" if "view u = view s" "rule_fetch env t u = (u', Inr rows)" for t u u' rows
    using that by_view_rule[of env t] unfolding by_view_def rows_at_def by (metis snd_conv sum.simps(6))
  then show ?thesis unfolding reads_rows_def by (intro allI impI conjI views.rule_fetch_keeps)
qed

section \<open>Resolving the policy of a table\<close>

text \<open>The policy of a table speaks for \<open>f\<close>, whose predicates are well formed.\<close>

definition guarded_by :: "'rc kernel_env \<Rightarrow> jsstring \<Rightarrow> ('rc, policy_predicate) kernel \<Rightarrow> bool" where
  "guarded_by env table f \<longleftrightarrow> policies_read env \<and> (\<exists>build policy. read_policy_of env table = Some (build, policy) \<and> tp_read policy = Some f) \<and>
     (\<forall>w. returns f w \<longrightarrow> predicate_ok w)"

lemma resolved_exact:
  assumes "guarded_by env table f" "read_merge env table = Some resolve" "resolve s = (s', Inr e)"
  shows "\<exists>w. returns f w \<and> view s' = view s \<and> row_matches e = predicate_holds (rows_at env s) (ke_relations env) table w"
proof -
  obtain build policy where pol: "read_policy_of env table = Some (build, policy)" "tp_read policy = Some f" and ok: "\<And>w. returns f w \<Longrightarrow> predicate_ok w"
    using assms(1) by (auto simp: guarded_by_def)
  have keep: "policies_keep (\<lambda>u. view u = view s) env"
    by (rule views.policies_read_keep[of env "ke_store env"]) (use assms(1) in \<open>simp_all add: guarded_by_def\<close>)
  have "policy_of env table = Some (build, policy)" using pol(1) by (auto simp: read_policy_of_def split: option.splits if_splits)
  then have k: "keeps (\<lambda>u. view u = view s) build" "keeps (\<lambda>u. view u = view s) f"
    using views.policies_keepD[OF keep] pol(2) by blast+
  have "resolve = st_bind (rule_context build) (\<lambda>_. st_bind f (resolveWhere (rule_fetch env) (ke_relations env) table))"
    using assms(2) pol by (auto simp: read_merge_def resolveReadPolicy_def)
  then obtain c s1 w s2 where s1: "rule_context build s = (s1, Inr c)" and w: "f s1 = (s2, Inr w)"
    and r: "resolveWhere (rule_fetch env) (ke_relations env) table w s2 = (s', Inr e)"
    using assms(3) by (auto simp: st_bind_Inr_iff)
  have "view s1 = view s" using keepsD[OF views.rule_context_keeps[OF k(1)] refl s1] by simp
  then have v2: "view s2 = view s" using keepsD[OF k(2) _ w] by simp
  have "returns f w" using w by (auto simp: returns_def)
  moreover have "view s' = view s" using keepsD[OF views.read_merge_keeps[OF keep assms(2)] refl assms(3)] by simp
  moreover have "row_matches e d = predicate_holds (rows_at env s) (ke_relations env) table w d" for d
    by (rule resolve_where_exact[OF reads_rows_at v2 ok[OF \<open>returns f w\<close>] r])
  ultimately show ?thesis by blast
qed

lemma merge_of_guarded: "guarded_by env table f \<Longrightarrow> \<exists>resolve. read_merge env table = Some resolve"
  by (auto simp: guarded_by_def read_merge_def)

lemma scan_query_collects:
  assumes "scan_query env meta q s = (s', Inr r)"
  shows "collect (ke_store env) q (ke_snapshotTs env) (Some (pendingIndexOverlay (is_indexId (q_index q)) (ks_txn s))) = Inr r"
  using assms by (auto simp: scan_query_def Let_def st_bind_Inr_iff st_lift_def st_return_def)

lemma decode_query_frame: "decode_query idx spec = Inr q \<Longrightarrow> q_index q = idx \<and> q_limit q = qs_limit spec"
  by (auto simp: decode_query_def res_bind_Inr_iff)

lemma local_query_exact:
  assumes "guarded_by env (full_name env (qs_table spec)) f" and "decode_query idx spec = Inr q"
    and "collect (ke_store env) (q\<lparr>q_filters := None, q_limit := None\<rparr>) (ke_snapshotTs env)
           (Some (pendingIndexOverlay (is_indexId idx) (ks_txn s))) = Inr all"
    and "local_query env (read_merge env) spec idx meta s = (s', Inr j)"
  shows "\<exists>w token. returns f w \<and> j = docs_response (limit_take (qs_limit spec) (filter (\<lambda>d. passes q d \<and>
      predicate_holds (rows_at env s) (ke_relations env) (full_name env (qs_table spec)) w d) (cr_documents all))) token"
proof -
  let ?table = "full_name env (qs_table spec)"
  obtain resolve where m: "read_merge env ?table = Some resolve" using merge_of_guarded[OF assms(1)] by blast
  obtain e s1 s2 r token where e: "resolve s = (s1, Inr e)"
    and r: "scan_query env meta (q\<lparr>q_filters := Some (mergeReadPolicy (q_filters q) e)\<rparr>) s1 = (s2, Inr r)"
    and j: "j = docs_response (cr_documents r) token"
    using assms(4) by (auto simp: local_query_def Let_def merged_query_def m assms(2) st_bind_Inr_iff st_lift_def st_return_def)
  obtain w where w: "returns f w" "view s1 = view s" "row_matches e = predicate_holds (rows_at env s) (ke_relations env) ?table w"
    using resolved_exact[OF assms(1) m e] by blast
  have "collect (ke_store env) (q\<lparr>q_filters := Some (mergeReadPolicy (q_filters q) e)\<rparr>) (ke_snapshotTs env)
      (Some (pendingIndexOverlay (is_indexId idx) (ks_txn s))) = Inr r"
    using scan_query_collects[OF r] decode_query_frame[OF assms(2)] overlay_view[OF w(2)] by simp
  then have "cr_documents r = limit_take (qs_limit spec) (filter (\<lambda>d. passes q d \<and> row_matches e d) (cr_documents all))"
    using collect_filtered[OF assms(3)] decode_query_frame[OF assms(2)] by (simp add: passes_merged)
  then show ?thesis using w(1,3) j by auto
qed

section \<open>A table of notes with a read policy\<close>

definition read_policy :: "unit kernel_state table_policy" where
  "read_policy = \<lparr>tp_read = Some (st_return (PpWhere (VObj [(js ''body'', VStr (js ''hi''))]))), tp_write = None\<rparr>"

definition read_env :: "unit kernel_env" where
  "read_env = sample_env\<lparr>ke_policies := [(js ''notes'', read_policy)], ke_shardDeclared := False\<rparr>"

definition read_id :: "nat \<Rightarrow> internal_document_id" where
  "read_id n = newDocumentId 1 (map word_of_nat [n..<n + 16])"

definition read_entry :: "nat \<Rightarrow> index_update" where
  "read_entry n = \<lparr>iu_indexId = is_indexId sample_index, iu_key = [word_of_nat n], iu_value = NonClustered (read_id n)\<rparr>"

definition read_doc :: "string \<Rightarrow> document" where
  "read_doc body = [(js ''body'', VStr (js body))]"

definition read_state :: "unit kernel_state" where
  "read_state = sample_state\<lparr>ks_txn := (newCtx 0 DEFAULT_SHARD DEFAULT_HEADROOM)\<lparr>
     tx_staged := uw_set (read_id 0) (Some (read_doc ''spam'')) (uw_set (read_id 1) (Some (read_doc ''hi'')) []),
     tx_indexUpdates := [read_entry 1, read_entry 0]\<rparr>\<rparr>"

definition read_spec :: query_spec where
  "read_spec = \<lparr>qs_table = js ''notes'', qs_index = js ''by_body'', qs_range = None, qs_order = None, qs_filters = None, qs_limit = None\<rparr>"

abbreviation read_query :: query where
  "read_query \<equiv> \<lparr>q_index = sample_index, q_range = None, q_order = None, q_filters = None, q_limit = None\<rparr>"

lemma read_guarded: "guarded_by read_env (js ''notes'') (st_return (PpWhere (VObj [(js ''body'', VStr (js ''hi''))])))"
proof -
  have "policies_read read_env" by (simp add: policies_read_def reads_through_def read_env_def sample_env_def read_policy_def)
  moreover have "predicate_ok (PpWhere (VObj [(js ''body'', VStr (js ''hi''))]))" by code_simp
  ultimately show ?thesis
    by (simp add: guarded_by_def read_policy_of_def policy_of_def read_env_def sample_env_def read_policy_def returns_def)
qed

lemma read_verdict:
  "predicate_holds rows rels table (PpWhere (VObj [(js ''body'', VStr (js ''hi''))])) d \<longleftrightarrow> field_holds d (js ''body'') (VStr (js ''hi''))"
proof -
  have "relation_clause (VStr (js ''hi'')) = None" by code_simp
  then have c: "clause_holds rows rels table (js ''body'') (VStr (js ''hi'')) d = field_holds d (js ''body'') (VStr (js ''hi''))"
    by (subst clause_holds.simps) simp
  have "js ''AND'' \<noteq> js ''body''" "js ''OR'' \<noteq> js ''body''" "js ''NOT'' \<noteq> js ''body''" by (simp_all add: js_def)
  then have "node_holds rows rels table (VObj [(js ''body'', VStr (js ''hi''))]) d = field_holds d (js ''body'') (VStr (js ''hi''))"
    by (subst node_holds.simps) (simp add: array_prop_def js_prop_def js_entries_def c)
  then show ?thesis by (simp add: predicate_holds_def)
qed

lemma read_fields:
  "field_holds (read_doc ''hi'') (js ''body'') (VStr (js ''hi''))" "\<not> field_holds (read_doc ''spam'') (js ''body'') (VStr (js ''hi''))"
  by code_simp+

lemma read_all:
  "collect (ke_store read_env) (read_query\<lparr>q_filters := None, q_limit := None\<rparr>) (ke_snapshotTs read_env)
     (Some (pendingIndexOverlay (is_indexId sample_index) (ks_txn read_state))) =
   Inr \<lparr>cr_documents = [read_doc ''spam'', read_doc ''hi''], cr_readSet = rs_add rs_empty (interval_range sample_index \<lparr>iv_start = [], iv_end = None\<rparr>)\<rparr>"
  by code_simp




definition get_state :: "unit kernel_state" where
  "get_state = sample_state\<lparr>ks_txn := (newCtx 0 DEFAULT_SHARD DEFAULT_HEADROOM)\<lparr>
     tx_staged := uw_set (newDocumentId 1 sample_bytes) (Some (read_doc ''spam'')) []\<rparr>\<rparr>"


end
