(* ===== verification/Sharded_Transactor.thy ===== *)
theory Sharded_Transactor
  imports Transactor
begin

text \<open>
  \<^verbatim>\<open>packages/transactor/src/sharded-transactor.ts\<close> and
  \<^verbatim>\<open>async-mutex.ts\<close>: one writer per shard, created on first use, every learned timestamp
  fanned to all of them, and the non-blocking exclusive run of the idle-frontier closer.
\<close>

section \<open>The mutex (async-mutex.ts)\<close>

text \<open>The promise chain runs holders first come, first served; \<open>waiters\<close> counts those running or in
  line.  A body runs when it is at the head.\<close>

record async_mutex =
  mx_waiters :: int
  mx_line :: "nat list"

definition newMutex :: async_mutex where
  "newMutex = \<lparr>mx_waiters = 0, mx_line = []\<rparr>"

definition isLocked :: "async_mutex \<Rightarrow> bool" where
  "isLocked m = (mx_waiters m > 0)"

definition mutex_enter :: "nat \<Rightarrow> async_mutex \<Rightarrow> async_mutex" where
  "mutex_enter holder m = \<lparr>mx_waiters = mx_waiters m + 1, mx_line = mx_line m @ [holder]\<rparr>"

definition mutex_running :: "async_mutex \<Rightarrow> nat option" where
  "mutex_running m = (case mx_line m of [] \<Rightarrow> None | h # _ \<Rightarrow> Some h)"

definition mutex_release :: "async_mutex \<Rightarrow> async_mutex" where
  "mutex_release m = \<lparr>mx_waiters = mx_waiters m - 1, mx_line = tl (mx_line m)\<rparr>"

definition tryRunExclusive :: "nat \<Rightarrow> async_mutex \<Rightarrow> bool \<times> async_mutex" where
  "tryRunExclusive holder m = (if isLocked m then (False, m) else (True, mutex_enter holder m))"

definition mutex_ok :: "async_mutex \<Rightarrow> bool" where
  "mutex_ok m = (mx_waiters m = int (length (mx_line m)))"

lemma mutex_ok_steps:
  "mutex_ok newMutex" "mutex_ok m \<Longrightarrow> mutex_ok (mutex_enter h m)"
  "mutex_ok m \<Longrightarrow> mx_line m \<noteq> [] \<Longrightarrow> mutex_ok (mutex_release m)"
  by (auto simp: mutex_ok_def newMutex_def mutex_enter_def mutex_release_def of_nat_diff Suc_le_eq)

lemma tryRunExclusive_free:
  "mutex_ok m \<Longrightarrow> tryRunExclusive h m = (r, m') \<Longrightarrow> r \<longleftrightarrow> mutex_running m' = Some h \<and> mx_line m = []"
  by (cases "mx_line m") (auto simp: tryRunExclusive_def isLocked_def mutex_ok_def mutex_enter_def mutex_running_def split: if_splits)

section \<open>Shards\<close>

record sharded_options =
  so_headroom :: "headroom_limits option"
  so_seedTs :: "int option"

record sharded_transactor =
  sh_shards :: "(jsstring, shard_writer) jsmap"
  sh_creating :: "jsstring list"
  sh_observedHighWater :: int
  sh_options :: sharded_options

definition newSharded :: "sharded_options \<Rightarrow> sharded_transactor" where
  "newSharded opts = \<lparr>sh_shards = [], sh_creating = [], sh_observedHighWater = 0, sh_options = opts\<rparr>"

definition sh_observeTimestamp :: "int \<Rightarrow> sharded_transactor \<Rightarrow> sharded_transactor" where
  "sh_observeTimestamp ts t =
     t\<lparr>sh_observedHighWater := (if ts > sh_observedHighWater t then ts else sh_observedHighWater t),
       sh_shards := map (\<lambda>(k, w). (k, w\<lparr>sw_oracle := Doc_Store.observeTimestamp ts (sw_oracle w)\<rparr>)) (sh_shards t)\<rparr>"

text \<open>Creation reads the store's newest timestamp (unless a seed is set) and finishes later, with the
  answer; \<open>creating\<close> holds the shards in between, so a shard is created once.  A failed read
  takes the shard out again.\<close>

definition begin_create :: "jsstring \<Rightarrow> sharded_transactor \<Rightarrow> sharded_transactor" where
  "begin_create shardId t =
     (if map_of (sh_shards t) shardId \<noteq> None \<or> shardId \<in> set (sh_creating t) then t
      else t\<lparr>sh_creating := sh_creating t @ [shardId]\<rparr>)"

definition createShard :: "jsstring \<Rightarrow> int result \<Rightarrow> sharded_transactor \<Rightarrow> sharded_transactor" where
  "createShard shardId storeMax t =
     (case (case so_seedTs (sh_options t) of Some s \<Rightarrow> Inr s | None \<Rightarrow> storeMax) of
        Inl e \<Rightarrow> t\<lparr>sh_creating := filter (\<lambda>s. s \<noteq> shardId) (sh_creating t)\<rparr>
      | Inr storeSeed \<Rightarrow>
          (let seedTs = (if storeSeed > sh_observedHighWater t then storeSeed else sh_observedHighWater t);
               writer = newWriter (newOracle seedTs) shardId
                          (case so_headroom (sh_options t) of Some h \<Rightarrow> h | None \<Rightarrow> DEFAULT_HEADROOM)
           in t\<lparr>sh_shards := AList.update shardId writer (sh_shards t)\<rparr>))"

text \<open>A commit on a shard, from its landing on: the writer publishes, with \<open>observeTimestamp\<close> as its
  hook before anyone can see the payload.\<close>

definition put_writer :: "jsstring \<Rightarrow> shard_writer \<Rightarrow> sharded_transactor \<Rightarrow> sharded_transactor" where
  "put_writer shardId w t = t\<lparr>sh_shards := AList.update shardId w (sh_shards t)\<rparr>"

definition sh_publish :: "jsstring \<Rightarrow> range_set \<Rightarrow> int \<Rightarrow> sharded_transactor \<Rightarrow> sharded_transactor" where
  "sh_publish shardId writes ts t =
     (case map_of (sh_shards t) shardId of
        None \<Rightarrow> t
      | Some w \<Rightarrow>
          (let w1 = w\<lparr>sw_recentCommits := sw_recentCommits w @ [\<lparr>rc_ts = ts, rc_writes = writes\<rparr>]\<rparr>;
               w2 = w1\<lparr>sw_oracle := Doc_Store.publishCommitted ts (sw_oracle w1)\<rparr>;
               t1 = sh_observeTimestamp ts (put_writer shardId w2 t)
           in case map_of (sh_shards t1) shardId of None \<Rightarrow> t1 | Some w3 \<Rightarrow> put_writer shardId (prune w3) t1))"

text \<open>The rest of a writer's own work leaves its oracle alone.\<close>

inductive sh_step :: "sharded_transactor \<Rightarrow> sharded_transactor \<Rightarrow> bool" where
  sh_begin_create: "sh_step t (begin_create shardId t)"
| sh_create: "shardId \<in> set (sh_creating t) \<Longrightarrow> map_of (sh_shards t) shardId = None \<Longrightarrow> sh_step t (createShard shardId storeMax t)"
| sh_commit: "sh_step t (sh_publish shardId writes ts t)"
| sh_observe: "sh_step t (sh_observeTimestamp ts t)"
| sh_local: "map_of (sh_shards t) shardId = Some w \<Longrightarrow> sw_oracle w' = sw_oracle w \<Longrightarrow> sh_step t (put_writer shardId w' t)"

definition high_water_ok :: "sharded_transactor \<Rightarrow> bool" where
  "high_water_ok t \<longleftrightarrow> (\<forall>k w. map_of (sh_shards t) k = Some w \<longrightarrow> sh_observedHighWater t \<le> or_lastCommitted (sw_oracle w))"

lemma map_of_observe [simp]: "map_of (sh_shards (sh_observeTimestamp ts t)) k =
    map_option (\<lambda>w. w\<lparr>sw_oracle := Doc_Store.observeTimestamp ts (sw_oracle w)\<rparr>) (map_of (sh_shards t) k)"
  by (simp add: sh_observeTimestamp_def map_of_map)

lemma put_writer_simps [simp]:
  "map_of (sh_shards (put_writer k w t)) k' = (if k' = k then Some w else map_of (sh_shards t) k')"
  "sh_observedHighWater (put_writer k w t) = sh_observedHighWater t"
  by (simp_all add: put_writer_def)

lemma observe_high [simp]: "sh_observedHighWater (sh_observeTimestamp ts t) = max (sh_observedHighWater t) ts"
  by (simp add: sh_observeTimestamp_def max_def)

lemma sh_publish_high [simp]: "map_of (sh_shards t) shardId = Some w \<Longrightarrow>
    sh_observedHighWater (sh_publish shardId writes ts t) = max (sh_observedHighWater t) ts"
  by (simp add: sh_publish_def Let_def)

lemma sh_step_high:
  "sh_step t t' \<Longrightarrow> high_water_ok t \<Longrightarrow> high_water_ok t' \<and> sh_observedHighWater t \<le> sh_observedHighWater t'"
proof (induction rule: sh_step.induct)
  case (sh_begin_create t shardId)
  then show ?case by (simp add: begin_create_def high_water_ok_def)
next
  case (sh_create shardId t storeMax)
  then show ?case
    by (auto simp: createShard_def high_water_ok_def newWriter_def newOracle_def Let_def split: sum.splits option.splits)
next
  case (sh_commit t shardId writes ts)
  show ?case
  proof (cases "map_of (sh_shards t) shardId")
    case (Some w)
    then show ?thesis using sh_commit
      by (fastforce simp: sh_publish_def Let_def high_water_ok_def max_def split: option.splits if_splits)
  qed (use sh_commit in \<open>simp add: sh_publish_def\<close>)
next
  case (sh_observe t ts)
  then show ?case by (auto simp: high_water_ok_def le_max_iff_disj)
next
  case (sh_local t shardId w w')
  then show ?case by (auto simp: high_water_ok_def)
qed

lemma sh_steps_high:
  "sh_step\<^sup>*\<^sup>* t t' \<Longrightarrow> high_water_ok t \<Longrightarrow> high_water_ok t' \<and> sh_observedHighWater t \<le> sh_observedHighWater t'"
  by (induction rule: rtranclp_induct) (use sh_step_high in \<open>auto intro: order_trans\<close>)

lemma high_water_new: "high_water_ok (newSharded opts)"
  by (simp add: high_water_ok_def newSharded_def)

text \<open>Queries on any shard see every commit: once a commit is published on some shard, every shard's
  oracle, of writers there already and of writers created at any later time, is at its timestamp or
  past it, for ever.\<close>

theorem sharded_commit_observed_everywhere:
  assumes "sh_step\<^sup>*\<^sup>* (newSharded opts) t" and "map_of (sh_shards t) shardId = Some w"
    and "sh_step\<^sup>*\<^sup>* (sh_publish shardId writes ts t) t'" and "map_of (sh_shards t') k = Some w'"
  shows "ts \<le> or_lastCommitted (sw_oracle w')"
proof -
  have "high_water_ok t" using sh_steps_high[OF assms(1) high_water_new] by simp
  then have "high_water_ok (sh_publish shardId writes ts t)" using sh_step_high[OF sh_commit] by blast
  then have "high_water_ok t'" "ts \<le> sh_observedHighWater t'"
    using sh_steps_high[OF assms(3)] assms(2) by auto
  then show ?thesis using assms(4) unfolding high_water_ok_def by (meson order_trans)
qed

theorem sharded_commit_observed_everywhere_witness:
  "\<exists>t' w'. createShard [50] (Inr 3) (begin_create [50] (sh_publish [49] rs_empty 7
      (createShard [49] (Inr 3) (begin_create [49] (newSharded \<lparr>so_headroom = None, so_seedTs = None\<rparr>))))) = t' \<and>
    map_of (sh_shards t') [50] = Some w' \<and> 7 \<le> or_lastCommitted (sw_oracle w')"
proof -
  let ?o = "\<lparr>so_headroom = None, so_seedTs = None\<rparr>"
  define a where "a = begin_create [49] (newSharded ?o)"
  define b where "b = createShard [49] (Inr 3) a"
  define p where "p = sh_publish [49] rs_empty 7 b"
  define q where "q = begin_create [50] p"
  define r where "r = createShard [50] (Inr 3) q"
  have a: "a = \<lparr>sh_shards = [], sh_creating = [[49]], sh_observedHighWater = 0, sh_options = ?o\<rparr>"
    by (simp add: a_def begin_create_def newSharded_def)
  have b: "b = \<lparr>sh_shards = [([49], newWriter (newOracle 3) [49] DEFAULT_HEADROOM)], sh_creating = [[49]],
      sh_observedHighWater = 0, sh_options = ?o\<rparr>"
    by (simp add: b_def a createShard_def Let_def)
  have p: "sh_shards p = [([49], newWriter (newOracle 7) [49] DEFAULT_HEADROOM)]" "sh_creating p = [[49]]"
    "sh_options p = ?o" "sh_observedHighWater p = 7"
    by (simp_all add: p_def b sh_publish_def Let_def put_writer_def sh_observeTimestamp_def
        newWriter_def newOracle_def prune_def minActiveSnapshot_def Doc_Store.publishCommitted_def Doc_Store.observeTimestamp_def)
  have q: "sh_shards q = [([49], newWriter (newOracle 7) [49] DEFAULT_HEADROOM)]" "sh_creating q = [[49], [50]]"
    "sh_options q = ?o" "sh_observedHighWater q = 7"
    by (simp_all add: q_def p begin_create_def)
  have "sh_step (newSharded ?o) a" unfolding a_def by (rule sh_begin_create)
  moreover have "sh_step a b" unfolding b_def by (rule sh_create) (simp_all add: a)
  ultimately have run1: "sh_step\<^sup>*\<^sup>* (newSharded ?o) b" by (meson r_into_rtranclp rtranclp_trans)
  have "sh_step p q" unfolding q_def by (rule sh_begin_create)
  moreover have "sh_step q r" unfolding r_def by (rule sh_create) (simp_all add: q)
  ultimately have run2: "sh_step\<^sup>*\<^sup>* (sh_publish [49] rs_empty 7 b) r" unfolding p_def[symmetric] by (meson r_into_rtranclp rtranclp_trans)
  obtain w' where w': "map_of (sh_shards r) [50] = Some w'" by (simp add: r_def createShard_def q Let_def)
  have "7 \<le> or_lastCommitted (sw_oracle w')"
    by (rule sharded_commit_observed_everywhere[OF run1 _ run2 w']) (simp add: b)
  then show ?thesis using w' unfolding r_def q_def p_def b_def a_def by blast
qed

end
