(* ===== verification/Group_Commit.thy ===== *)
theory Group_Commit
  imports Sharded_Transactor "HOL-Library.Multiset" "HOL-Library.Sublist"
begin

text \<open>
  The group-commit path of \<^verbatim>\<open>packages/transactor/src/shard-writer.ts\<close>: staging into a pending
  batch under the mutex, and the committer loop that detaches the batch, flushes it off the mutex
  with guard-rejected units split out, and publishes what landed.  A promise is a number; settling a
  caller's promise is an entry of \<open>gw_results\<close>, waking a batch's waiters one of \<open>gw_promoted\<close>.
\<close>

section \<open>Batches\<close>

record 'v staged_unit =
  su_caller :: nat
  su_documents :: "document_log_entry list"
  su_indexUpdates :: "index_write list"
  su_meta :: "commit_meta option"
  su_origin :: "jsstring option"
  su_writeRanges :: range_set
  su_shardId :: jsstring
  su_value :: 'v

record 'v batch =
  ba_promise :: nat
  ba_units :: "'v staged_unit list"
  ba_writesUnion :: range_set
  ba_writtenDocKeys :: "jsstring list"

definition newBatch :: "nat \<Rightarrow> 'v batch" where
  "newBatch p = \<lparr>ba_promise = p, ba_units = [], ba_writesUnion = rs_empty, ba_writtenDocKeys = []\<rparr>"

record 'v group_writer =
  gw_writer :: shard_writer
  gw_pendingBatch :: "'v batch option"
  gw_flushingBatch :: "'v batch option"
  gw_committerRunning :: bool
  gw_lastBatchSize :: int
  gw_maxBatchSize :: int
  gw_flushCount :: int
  gw_nextPromise :: nat
  gw_promoted :: "nat list"
  gw_results :: "(nat \<times> 'v commit_result result) list"

definition newGroupWriter :: "shard_writer \<Rightarrow> 'v group_writer" where
  "newGroupWriter w =
     \<lparr>gw_writer = w, gw_pendingBatch = None, gw_flushingBatch = None, gw_committerRunning = False, gw_lastBatchSize = 0,
      gw_maxBatchSize = 0, gw_flushCount = 0, gw_nextPromise = 0, gw_promoted = [], gw_results = []\<rparr>"

definition hasInFlightWork :: "'v group_writer \<Rightarrow> bool" where
  "hasInFlightWork g = (gw_flushingBatch g \<noteq> None \<or>
     (case gw_pendingBatch g of None \<Rightarrow> False | Some b \<Rightarrow> ba_units b \<noteq> []))"

definition groupCommitStats :: "'v group_writer list \<Rightarrow> int \<times> int \<times> int" where
  "groupCommitStats ws = foldl (\<lambda>(l, m, f) w. (max l (gw_lastBatchSize w), max m (gw_maxBatchSize w), f + gw_flushCount w)) (0, 0, 0) ws"

definition tryRunExclusiveOnShard :: "'v group_writer \<Rightarrow> nat \<Rightarrow> async_mutex \<Rightarrow> bool \<times> async_mutex" where
  "tryRunExclusiveOnShard g holder m = (if hasInFlightWork g then (False, m) else tryRunExclusive holder m)"

section \<open>Staging\<close>

datatype stage_outcome = Staged | Cut nat
datatype stage_error = Conflict "nat option" | StageError js_error

fun find_cut :: "'v batch option \<Rightarrow> 'v batch option \<Rightarrow> jsstring list \<Rightarrow> nat option" where
  "find_cut flushing pending [] = None"
| "find_cut flushing pending (key # keys) =
     (case flushing of
        Some b \<Rightarrow> if key \<in> set (ba_writtenDocKeys b) then Some (ba_promise b)
                  else (case pending of
                          Some b \<Rightarrow> if key \<in> set (ba_writtenDocKeys b) then Some (ba_promise b) else find_cut flushing pending keys
                        | None \<Rightarrow> find_cut flushing pending keys)
      | None \<Rightarrow> (case pending of
                   Some b \<Rightarrow> if key \<in> set (ba_writtenDocKeys b) then Some (ba_promise b) else find_cut flushing pending keys
                 | None \<Rightarrow> find_cut flushing pending keys))"

definition batch_conflict :: "range_set \<Rightarrow> 'v batch option \<Rightarrow> bool" where
  "batch_conflict reads b = (case b of None \<Rightarrow> False | Some b \<Rightarrow> rs_intersects reads (ba_writesUnion b))"

definition add_unit :: "'v staged_unit \<Rightarrow> jsstring list \<Rightarrow> 'v batch \<Rightarrow> 'v batch" where
  "add_unit u docKeys b =
     b\<lparr>ba_units := ba_units b @ [u], ba_writtenDocKeys := fold set_add docKeys (ba_writtenDocKeys b),
       ba_writesUnion := foldl rs_add (ba_writesUnion b) (rs_toArray (su_writeRanges u))\<rparr>"

definition ensureCommitter :: "'v group_writer \<Rightarrow> 'v group_writer" where
  "ensureCommitter g = (if gw_committerRunning g then g else g\<lparr>gw_committerRunning := True\<rparr>)"

definition append_unit :: "'v staged_unit \<Rightarrow> jsstring list \<Rightarrow> 'v group_writer \<Rightarrow> 'v group_writer" where
  "append_unit u docKeys g =
     (case gw_pendingBatch g of
        Some b \<Rightarrow> ensureCommitter (g\<lparr>gw_pendingBatch := Some (add_unit u docKeys b)\<rparr>)
      | None \<Rightarrow> ensureCommitter (g\<lparr>gw_pendingBatch := Some (add_unit u docKeys (newBatch (gw_nextPromise g))),
                                   gw_nextPromise := gw_nextPromise g + 1\<rparr>))"

definition staged_keys :: "txn_ctx \<Rightarrow> jsstring list" where
  "staged_keys c = map (\<lambda>w. documentIdKey (lw_id w)) (uw_entries (tx_staged c))"

definition stageUnit ::
  "doc_store \<Rightarrow> nat \<Rightarrow> txn_ctx \<Rightarrow> int \<Rightarrow> jsstring \<Rightarrow> 'v \<Rightarrow> commit_meta option \<Rightarrow> jsstring option \<Rightarrow> 'v group_writer \<Rightarrow>
     'v group_writer \<times> (stage_error + stage_outcome)" where
  "stageUnit st caller c snapshotTs shardId v meta origin g =
     (if ring_conflict (sw_recentCommits (gw_writer g)) snapshotTs (tx_validatedReads c) then (g, Inl (Conflict None))
      else if batch_conflict (tx_validatedReads c) (gw_flushingBatch g)
        then (g, Inl (Conflict (map_option ba_promise (gw_flushingBatch g))))
      else if batch_conflict (tx_validatedReads c) (gw_pendingBatch g)
        then (g, Inl (Conflict (map_option ba_promise (gw_pendingBatch g))))
      else (case find_cut (gw_flushingBatch g) (gw_pendingBatch g) (staged_keys c) of
              Some p \<Rightarrow> (g, Inr (Cut p))
            | None \<Rightarrow>
                (case log_entries st (uw_entries (tx_staged c)) of
                   Inl e \<Rightarrow> (g, Inl (StageError e))
                 | Inr documents \<Rightarrow>
                     (append_unit \<lparr>su_caller = caller, su_documents = documents, su_indexUpdates = index_writes (tx_indexUpdates c),
                        su_meta = meta, su_origin = origin, su_writeRanges = tx_writeRanges c, su_shardId = shardId, su_value = v\<rparr>
                        (staged_keys c) g, Inr Staged))))"

section \<open>A transaction on the group-commit path\<close>

text \<open>One attempt of \<open>runInTransactionGrouped\<close>: it begins, its function runs, and then it stages,
  restages after the promise it was told to wait for, awaits its completion, replays or ends.  The
  snapshot is released where the attempt is left.\<close>

datatype 'v grouped_next =
    G_Return "'v commit_result"
  | G_Restage nat
  | G_Await
  | G_Replay "nat option"
  | G_Throw js_error

definition grouped_begin :: "run_options \<Rightarrow> 'v group_writer \<Rightarrow> 'v group_writer \<times> txn_ctx" where
  "grouped_begin opts g =
     (let w = gw_writer g;
          snapshotTs = or_lastCommitted (sw_oracle w);
          limits = \<lparr>hl_maxReads = or_default (ro_maxReads opts) (hl_maxReads (sw_headroom w)),
                    hl_maxWrites = or_default (ro_maxWrites opts) (hl_maxWrites (sw_headroom w))\<rparr>
      in (g\<lparr>gw_writer := retain snapshotTs w\<rparr>, newCtx snapshotTs (or_default (ro_shardId opts) (sw_shardId w)) limits))"

definition grouped_catch :: "run_options \<Rightarrow> nat \<Rightarrow> js_error \<Rightarrow> nat option \<Rightarrow> 'v grouped_next" where
  "grouped_catch opts attempt e wait =
     (if e = OccConflictError \<and> int attempt < or_default (ro_maxRetries opts) 8 then G_Replay wait else G_Throw e)"

definition grouped_stage ::
  "run_options \<Rightarrow> nat \<Rightarrow> doc_store \<Rightarrow> nat \<Rightarrow> txn_ctx \<Rightarrow> 'v \<Rightarrow> 'v group_writer \<Rightarrow> 'v group_writer \<times> 'v grouped_next" where
  "grouped_stage opts attempt st caller c v g =
     (if uw_size (tx_staged c) = 0
      then (g, G_Return \<lparr>co_value = v, co_committed = False, co_commitTs = tx_snapshotTs c, co_shardId = tx_shardId c, co_oplog = None\<rparr>)
      else (case stageUnit st caller c (tx_snapshotTs c) (tx_shardId c) v (ro_meta opts) (ro_origin opts) g of
              (g', Inr Staged) \<Rightarrow> (g', G_Await)
            | (g', Inr (Cut p)) \<Rightarrow> (g', G_Restage p)
            | (g', Inl (Conflict wait)) \<Rightarrow> (g', grouped_catch opts attempt OccConflictError wait)
            | (g', Inl (StageError e)) \<Rightarrow> (g', grouped_catch opts attempt e None)))"

definition grouped_complete :: "run_options \<Rightarrow> nat \<Rightarrow> 'v commit_result result \<Rightarrow> 'v grouped_next" where
  "grouped_complete opts attempt r = (case r of Inr v \<Rightarrow> G_Return v | Inl e \<Rightarrow> grouped_catch opts attempt e None)"

definition grouped_finally :: "txn_ctx \<Rightarrow> 'v group_writer \<Rightarrow> 'v group_writer" where
  "grouped_finally c g = g\<lparr>gw_writer := release (tx_snapshotTs c) (gw_writer g)\<rparr>"

section \<open>The committer loop\<close>

definition detachBatch :: "'v group_writer \<Rightarrow> 'v group_writer \<times> 'v batch option" where
  "detachBatch g =
     (case gw_pendingBatch g of
        None \<Rightarrow> (g\<lparr>gw_committerRunning := False\<rparr>, None)
      | Some b \<Rightarrow>
          if ba_units b = [] then (g\<lparr>gw_committerRunning := False\<rparr>, None)
          else (g\<lparr>gw_pendingBatch := None, gw_flushingBatch := Some b, gw_lastBatchSize := int (length (ba_units b)),
                  gw_maxBatchSize := (if int (length (ba_units b)) > gw_maxBatchSize g then int (length (ba_units b)) else gw_maxBatchSize g),
                  gw_flushCount := gw_flushCount g + 1\<rparr>, Some b))"

record 'v flush_outcome =
  fo_landed :: "('v staged_unit \<times> int) list"
  fo_guardRejected :: "('v staged_unit \<times> js_error) list"
  fo_chunkUnits :: "'v staged_unit list"
  fo_chunkErr :: "js_error option"

definition MAX_SPLIT_RETRIES :: nat where
  "MAX_SPLIT_RETRIES = 3"

definition unit_rows :: "'v staged_unit \<Rightarrow> commit_unit" where
  "unit_rows u = \<lparr>cu_documents = su_documents u, cu_indexUpdates = su_indexUpdates u, cu_meta = su_meta u\<rparr>"

text \<open>The first argument is what is left of the split budget.\<close>

fun flush_loop ::
  "nat \<Rightarrow> commit_guard list \<Rightarrow> jsstring \<Rightarrow> 'v staged_unit list \<Rightarrow> ('v staged_unit \<times> js_error) list \<Rightarrow> doc_store \<Rightarrow>
     'v flush_outcome \<times> doc_store" where
  "flush_loop budget guards shardId remaining rejected st =
     (case commitWriteBatch guards (map unit_rows remaining) (Some shardId) st of
        Inr (tss, st') \<Rightarrow>
          (\<lparr>fo_landed = zip remaining tss, fo_guardRejected = rejected, fo_chunkUnits = [], fo_chunkErr = None\<rparr>, st')
      | Inl err \<Rightarrow>
          (case (err, budget) of
             (CommitGuardRejection i detail, Suc budget') \<Rightarrow>
               if 0 \<le> i \<and> i < int (length remaining) then
                 (let remaining' = take (nat i) remaining @ drop (Suc (nat i)) remaining;
                      rejected' = rejected @ [(remaining ! nat i, err)]
                  in if remaining' = []
                     then (\<lparr>fo_landed = [], fo_guardRejected = rejected', fo_chunkUnits = [], fo_chunkErr = None\<rparr>, st)
                     else flush_loop budget' guards shardId remaining' rejected' st)
               else (\<lparr>fo_landed = [], fo_guardRejected = rejected, fo_chunkUnits = remaining, fo_chunkErr = Some err\<rparr>, st)
           | _ \<Rightarrow> (\<lparr>fo_landed = [], fo_guardRejected = rejected, fo_chunkUnits = remaining, fo_chunkErr = Some err\<rparr>, st)))"

declare flush_loop.simps [simp del]

definition flushWithSplit :: "commit_guard list \<Rightarrow> jsstring \<Rightarrow> 'v staged_unit list \<Rightarrow> doc_store \<Rightarrow> 'v flush_outcome \<times> doc_store" where
  "flushWithSplit guards shardId units st = flush_loop MAX_SPLIT_RETRIES guards shardId units [] st"

definition settle :: "nat \<Rightarrow> 'v commit_result result \<Rightarrow> 'v group_writer \<Rightarrow> 'v group_writer" where
  "settle caller r g = g\<lparr>gw_results := gw_results g @ [(caller, r)]\<rparr>"

text \<open>Publishing the landed units in order.  An error of \<open>build_oplog\<close> escapes the section.\<close>

fun publish_landed ::
  "(int \<Rightarrow> shard_writer \<Rightarrow> shard_writer) \<Rightarrow> ('v staged_unit \<times> int) list \<Rightarrow> 'v group_writer \<Rightarrow> 'v group_writer \<times> js_error option" where
  "publish_landed onCommitted [] g = (g, None)"
| "publish_landed onCommitted ((u, ts) # landed) g =
     (let w = gw_writer g;
          w1 = w\<lparr>sw_recentCommits := sw_recentCommits w @ [\<lparr>rc_ts = ts, rc_writes = su_writeRanges u\<rparr>]\<rparr>;
          w2 = w1\<lparr>sw_oracle := Doc_Store.publishCommitted ts (sw_oracle w1)\<rparr>;
          g1 = g\<lparr>gw_writer := onCommitted ts w2\<rparr>
      in case build_oplog ts (su_shardId u) (su_writeRanges u) (su_origin u) (su_documents u) of
           Inl e \<Rightarrow> (g1, Some e)
         | Inr oplog \<Rightarrow>
             publish_landed onCommitted landed
               (settle (su_caller u) (Inr \<lparr>co_value = su_value u, co_committed = True, co_commitTs = ts,
                  co_shardId = su_shardId u, co_oplog = Some oplog\<rparr>) g1))"

definition publishBatch ::
  "(int \<Rightarrow> shard_writer \<Rightarrow> shard_writer) \<Rightarrow> 'v batch \<Rightarrow> 'v flush_outcome \<Rightarrow> 'v group_writer \<Rightarrow> 'v group_writer \<times> js_error option" where
  "publishBatch onCommitted b outcome g =
     (case publish_landed onCommitted (fo_landed outcome) g of
        (g1, Some e) \<Rightarrow> (g1, Some e)
      | (g1, None) \<Rightarrow>
          (let g2 = (if fo_landed outcome \<noteq> [] then g1\<lparr>gw_writer := prune (gw_writer g1)\<rparr> else g1);
               g3 = foldl (\<lambda>g (u, err). settle (su_caller u) (Inl err) g) g2 (fo_guardRejected outcome);
               g4 = foldl (\<lambda>g u. settle (su_caller u)
                       (Inl (case fo_chunkErr outcome of Some e \<Rightarrow> e | None \<Rightarrow> GenericError ''null'')) g) g3 (fo_chunkUnits outcome)
           in (g4\<lparr>gw_flushingBatch := None, gw_promoted := gw_promoted g4 @ [ba_promise b]\<rparr>, None)))"

section \<open>Staging validates against both buffers\<close>

lemma find_cut_Some: "find_cut f q ks = Some p \<Longrightarrow> \<exists>b. (f = Some b \<or> q = Some b) \<and> p = ba_promise b"
  by (induction f q ks rule: find_cut.induct) (auto split: option.splits if_splits)

lemma append_unit_pending:
  "gw_committerRunning (append_unit u ks g)"
  "\<exists>b. gw_pendingBatch (append_unit u ks g) = Some b \<and> ba_units b = (case gw_pendingBatch g of None \<Rightarrow> [] | Some p \<Rightarrow> ba_units p) @ [u]"
  by (auto simp: append_unit_def ensureCommitter_def add_unit_def newBatch_def split: option.splits)

lemma append_unit_flushing [simp]: "gw_flushingBatch (append_unit u ks g) = gw_flushingBatch g"
  by (simp add: append_unit_def ensureCommitter_def split: option.splits)

lemma stageUnit_outcome:
  assumes "stageUnit st caller c snap shard v meta origin g = (g', r)"
  shows "case r of
      Inr Staged \<Rightarrow> \<not> ring_conflict (sw_recentCommits (gw_writer g)) snap (tx_validatedReads c) \<and>
          \<not> batch_conflict (tx_validatedReads c) (gw_flushingBatch g) \<and> \<not> batch_conflict (tx_validatedReads c) (gw_pendingBatch g) \<and>
          (\<exists>u ks. g' = append_unit u ks g \<and> su_caller u = caller \<and> su_value u = v)
    | Inr (Cut p) \<Rightarrow> g' = g \<and> (\<exists>b. (gw_flushingBatch g = Some b \<or> gw_pendingBatch g = Some b) \<and> p = ba_promise b)
    | Inl (Conflict w) \<Rightarrow> g' = g \<and> (\<forall>p. w = Some p \<longrightarrow> (\<exists>b. (gw_flushingBatch g = Some b \<or> gw_pendingBatch g = Some b) \<and>
          rs_intersects (tx_validatedReads c) (ba_writesUnion b) \<and> p = ba_promise b))
    | Inl (StageError e) \<Rightarrow> g' = g"
proof (cases "ring_conflict (sw_recentCommits (gw_writer g)) snap (tx_validatedReads c) \<or>
    batch_conflict (tx_validatedReads c) (gw_flushingBatch g) \<or> batch_conflict (tx_validatedReads c) (gw_pendingBatch g)")
  case True
  then show ?thesis using assms by (auto simp: stageUnit_def batch_conflict_def split: if_splits option.splits)
next
  case False
  then have nc: "\<not> ring_conflict (sw_recentCommits (gw_writer g)) snap (tx_validatedReads c)"
    "\<not> batch_conflict (tx_validatedReads c) (gw_flushingBatch g)" "\<not> batch_conflict (tx_validatedReads c) (gw_pendingBatch g)"
    by blast+
  show ?thesis
  proof (cases "find_cut (gw_flushingBatch g) (gw_pendingBatch g) (staged_keys c)")
    case (Some p)
    then show ?thesis using assms nc find_cut_Some[OF Some] by (auto simp: stageUnit_def)
  next
    case None
    let ?u = "\<lambda>docs. \<lparr>su_caller = caller, su_documents = docs, su_indexUpdates = index_writes (tx_indexUpdates c),
      su_meta = meta, su_origin = origin, su_writeRanges = tx_writeRanges c, su_shardId = shard, su_value = v\<rparr>"
    show ?thesis
    proof (cases "log_entries st (uw_entries (tx_staged c))")
      case (Inl e)
      then show ?thesis using assms nc None by (auto simp: stageUnit_def)
    next
      case (Inr docs)
      then have "g' = append_unit (?u docs) (staged_keys c) g" "r = Inr Staged" using assms nc None by (auto simp: stageUnit_def)
      moreover have "su_caller (?u docs) = caller \<and> su_value (?u docs) = v" by simp
      ultimately show ?thesis using nc by (simp only: sum.case stage_outcome.case) blast
    qed
  qed
qed

text \<open>Staging validates against both buffers: a transaction whose validated reads meet the writes of
  the flushing or the pending batch, or of a commit newer than its snapshot, never enters the batch,
  and while it may retry it is told to wait for exactly that batch (for none where the conflict
  is with the ring).  One that stages is appended last and starts the committer.\<close>

theorem grouped_stage_validates:
  assumes "uw_size (tx_staged c) \<noteq> 0" "int attempt < or_default (ro_maxRetries opts) 8"
  shows "(case grouped_stage opts attempt st caller c v g of
       (g', G_Await) \<Rightarrow> \<not> ring_conflict (sw_recentCommits (gw_writer g)) (tx_snapshotTs c) (tx_validatedReads c) \<and>
          \<not> batch_conflict (tx_validatedReads c) (gw_flushingBatch g) \<and> \<not> batch_conflict (tx_validatedReads c) (gw_pendingBatch g) \<and>
          gw_committerRunning g' \<and> gw_flushingBatch g' = gw_flushingBatch g \<and>
          (\<exists>b u. gw_pendingBatch g' = Some b \<and> su_caller u = caller \<and> su_value u = v \<and>
             ba_units b = (case gw_pendingBatch g of None \<Rightarrow> [] | Some p \<Rightarrow> ba_units p) @ [u])
     | (g', G_Replay (Some p)) \<Rightarrow> g' = g \<and> (\<exists>b. (gw_flushingBatch g = Some b \<or> gw_pendingBatch g = Some b) \<and>
          rs_intersects (tx_validatedReads c) (ba_writesUnion b) \<and> p = ba_promise b)
     | (g', G_Replay None) \<Rightarrow> g' = g
     | (g', G_Restage p) \<Rightarrow> g' = g \<and> (\<exists>b. (gw_flushingBatch g = Some b \<or> gw_pendingBatch g = Some b) \<and> p = ba_promise b)
     | (g', G_Throw e) \<Rightarrow> g' = g
     | (g', G_Return r) \<Rightarrow> False)"
proof (cases "stageUnit st caller c (tx_snapshotTs c) (tx_shardId c) v (ro_meta opts) (ro_origin opts) g")
  case (Pair g' r)
  note out = stageUnit_outcome[OF Pair] and def = grouped_stage_def[of opts attempt st caller c v g, unfolded Pair]
  show ?thesis
  proof (cases r)
    case (Inl e)
    then show ?thesis using out assms unfolding def by (cases e) (auto simp: grouped_catch_def split: option.splits)
  next
    case (Inr x)
    show ?thesis
    proof (cases x)
      case Staged
      then obtain u ks where "g' = append_unit u ks g" "su_caller u = caller" "su_value u = v" using out Inr by auto
      then show ?thesis using out assms append_unit_pending[of u ks g] unfolding def Inr Staged by auto
    next
      case (Cut p)
      then show ?thesis using out assms unfolding def Inr by auto
    qed
  qed
qed

theorem grouped_stage_validates_witness:
  "\<exists>g' b u. grouped_stage \<lparr>ro_shardId = None, ro_maxRetries = None, ro_maxReads = None, ro_maxWrites = None, ro_meta = None,
       ro_origin = None\<rparr> 0 ds_empty 7 sample_ctx () (newGroupWriter (newWriter (newOracle 0) DEFAULT_SHARD DEFAULT_HEADROOM)) = (g', G_Await) \<and>
     gw_committerRunning g' \<and> gw_pendingBatch g' = Some b \<and> ba_units b = [u] \<and> su_caller u = 7"
proof -
  let ?o = "\<lparr>ro_shardId = None, ro_maxRetries = None, ro_maxReads = None, ro_maxWrites = None, ro_meta = None, ro_origin = None\<rparr>"
  let ?g = "newGroupWriter (newWriter (newOracle 0) DEFAULT_SHARD DEFAULT_HEADROOM)"
  have st: "tx_staged sample_ctx = [(documentIdKey sample_id, \<lparr>lw_id = sample_id, lw_value = Some []\<rparr>)]"
    by (simp add: sample_ctx_def newCtx_def ctx_get_def ctx_put_def ctx_write_def countRead_def countWrite_def Let_def
        newTracker_def DEFAULT_HEADROOM_def uw_get_def uw_set_def)
  obtain g' where g': "grouped_stage ?o 0 ds_empty 7 sample_ctx () ?g = (g', G_Await)"
    by (auto simp: grouped_stage_def st uw_size_def stageUnit_def newGroupWriter_def newWriter_def ring_conflict_def batch_conflict_def
        staged_keys_def uw_entries_def log_entries_def ds_get_def doc_rows_def ds_empty_def newest_def)
  have "uw_size (tx_staged sample_ctx) \<noteq> 0" by (simp add: st uw_size_def)
  from grouped_stage_validates[OF this, where attempt = 0 and opts = ?o and st = ds_empty and caller = 7 and v = "()" and g = ?g] g'
  show ?thesis by (auto simp: or_default_def newGroupWriter_def)
qed

section \<open>Splitting keeps every unit exactly once\<close>

lemma drop_one: "i < length xs \<Longrightarrow> mset (take i xs @ drop (Suc i) xs) + {#xs ! i#} = mset xs"
  by (metis Cons_nth_drop_Suc add_mset_add_single append_take_drop_id mset.simps(2) mset_append union_mset_add_mset_right)

lemma subseq_drop_one: "subseq (take i xs @ drop (Suc i) xs) xs"
proof (induction xs arbitrary: i)
  case (Cons x xs)
  show ?case using Cons by (cases i) auto
qed simp

lemma commit_units_length: "commit_units shard us st = Inr (tss, st') \<Longrightarrow> length tss = length us"
  by (induction us arbitrary: st tss) (auto simp: Let_def res_bind_Inr_iff)

lemma flush_loop_spec:
  "flush_loop budget guards shardId remaining rejected st = (res, st') \<Longrightarrow>
   mset (map fst (fo_landed res) @ map fst (fo_guardRejected res) @ fo_chunkUnits res) = mset (remaining @ map fst rejected) \<and>
   subseq (map fst (fo_landed res) @ fo_chunkUnits res) remaining \<and> (fo_landed res = [] \<or> fo_chunkUnits res = []) \<and>
   length (fo_guardRejected res) \<le> length rejected + budget \<and>
   (\<forall>(u, e) \<in> set (fo_guardRejected res). (u, e) \<in> set rejected \<or> (\<exists>i d. e = CommitGuardRejection i d)) \<and>
   (if fo_landed res = [] then st' = st
    else commitWriteBatch guards (map (\<lambda>x. unit_rows (fst x)) (fo_landed res)) (Some shardId) st = Inr (map snd (fo_landed res), st'))"
proof (induction budget guards shardId remaining rejected st rule: flush_loop.induct)
  case (1 budget guards shardId remaining rejected st)
  show ?case
  proof (cases "commitWriteBatch guards (map unit_rows remaining) (Some shardId) st")
    case (Inr x)
    obtain tss st1 where x: "x = (tss, st1)" by fastforce
    have len: "length tss = length remaining"
      using commit_units_length[OF commitWriteBatch_units[OF Inr[unfolded x]]] by simp
    have r: "res = \<lparr>fo_landed = zip remaining tss, fo_guardRejected = rejected, fo_chunkUnits = [], fo_chunkErr = None\<rparr>" "st' = st1"
      using "1.prems" by (simp_all add: flush_loop.simps[of budget guards] Inr x)
    have z: "map fst (zip remaining tss) = remaining" "map snd (zip remaining tss) = tss"
      "map (\<lambda>x. unit_rows (fst x)) (zip remaining tss) = map unit_rows remaining"
      using len by (simp_all add: map_map[symmetric, of unit_rows fst, unfolded comp_def] del: map_map)
    have "st1 = st" if "remaining = []" using Inr that by (simp add: x commitWriteBatch_def)
    then show ?thesis using z len Inr by (auto simp: r x)
  next
    case (Inl err)
    note unf = "1.prems"[unfolded flush_loop.simps[of budget guards shardId remaining rejected st] Inl sum.case]
    show ?thesis
    proof (cases "\<exists>i d b. err = CommitGuardRejection i d \<and> budget = Suc b \<and> 0 \<le> i \<and> i < int (length remaining)")
      case False
      then have "res = \<lparr>fo_landed = [], fo_guardRejected = rejected, fo_chunkUnits = remaining, fo_chunkErr = Some err\<rparr> \<and> st' = st"
        using "1.prems" by (auto simp: flush_loop.simps[of budget guards] Inl split: js_error.splits nat.splits if_splits)
      then show ?thesis by (auto simp: ac_simps)
    next
      case True
      then obtain i d b where e: "err = CommitGuardRejection i d" "budget = Suc b" "0 \<le> i" "i < int (length remaining)" by blast
      let ?rem = "take (nat i) remaining @ drop (Suc (nat i)) remaining" and ?rej = "rejected @ [(remaining ! nat i, err)]"
      have m: "mset ?rem + {#remaining ! nat i#} = mset remaining" by (rule drop_one) (use e in linarith)
      then have m': "mset (?rem @ map fst ?rej) = mset (remaining @ map fst rejected)" by (simp add: ac_simps)
      have sub: "subseq ?rem remaining" by (rule subseq_drop_one)
      show ?thesis
      proof (cases "?rem = []")
        case empty: True
        then have "res = \<lparr>fo_landed = [], fo_guardRejected = ?rej, fo_chunkUnits = [], fo_chunkErr = None\<rparr>" "st' = st"
          using unf e by (simp_all add: Let_def)
        then show ?thesis using m' empty e(1,2) by auto
      next
        case rest: False
        have run: "flush_loop b guards shardId ?rem ?rej st = (res, st')"
          using unf e rest by (simp add: Let_def split: if_splits)
        note ih = "1.IH"[OF Inl _ e(1) e(2) _ refl refl rest run]
        have "mset (map fst (fo_landed res) @ map fst (fo_guardRejected res) @ fo_chunkUnits res) = mset (remaining @ map fst rejected)"
          "subseq (map fst (fo_landed res) @ fo_chunkUnits res) remaining" "fo_landed res = [] \<or> fo_chunkUnits res = []"
          "length (fo_guardRejected res) \<le> length rejected + budget"
          "\<forall>(u, e) \<in> set (fo_guardRejected res). (u, e) \<in> set rejected \<or> (\<exists>i d. e = CommitGuardRejection i d)"
          "if fo_landed res = [] then st' = st
           else commitWriteBatch guards (map (\<lambda>x. unit_rows (fst x)) (fo_landed res)) (Some shardId) st = Inr (map snd (fo_landed res), st')"
          using ih e m' subseq_order.trans[OF _ sub] by auto
        then show ?thesis by blast
      qed
    qed
  qed
qed

text \<open>Group commit settles every unit of a batch exactly once: it lands, or a guard rejected it, or
  it is in the failed chunk.  At most three are split out, the landed ones are the whole survivors in
  their order and are exactly one store transaction with one timestamp each, and where none landed
  the store is untouched.\<close>

theorem flushWithSplit_partitions:
  assumes "flushWithSplit guards shardId units st = (res, st')"
  shows "mset (map fst (fo_landed res) @ map fst (fo_guardRejected res) @ fo_chunkUnits res) = mset units \<and>
    subseq (map fst (fo_landed res) @ fo_chunkUnits res) units \<and> (fo_landed res = [] \<or> fo_chunkUnits res = []) \<and>
    length (fo_guardRejected res) \<le> 3 \<and> (\<forall>(u, e) \<in> set (fo_guardRejected res). \<exists>i d. e = CommitGuardRejection i d) \<and>
    (if fo_landed res = [] then st' = st
     else commitWriteBatch guards (map (\<lambda>x. unit_rows (fst x)) (fo_landed res)) (Some shardId) st = Inr (map snd (fo_landed res), st'))"
  using flush_loop_spec[OF assms[unfolded flushWithSplit_def]] by (auto simp: MAX_SPLIT_RETRIES_def)

definition sample_unit :: "unit staged_unit" where
  "sample_unit = \<lparr>su_caller = 0, su_documents = [\<lparr>le_ts = 0, le_id = sample_id, le_value = None, le_prev_ts = None\<rparr>],
     su_indexUpdates = [], su_meta = None, su_origin = None, su_writeRanges = rs_empty, su_shardId = DEFAULT_SHARD, su_value = ()\<rparr>"

definition reject_second :: commit_guard where
  "reject_second units shard = (if length units > 1 then Some (CommitGuardRejection 1 ''duplicate'') else None)"

theorem flushWithSplit_partitions_witness:
  "\<exists>res st'. flushWithSplit [reject_second] DEFAULT_SHARD [sample_unit, sample_unit\<lparr>su_caller := 1\<rparr>] ds_empty = (res, st') \<and>
     length (fo_guardRejected res) \<le> 3 \<and>
     mset (map fst (fo_landed res) @ map fst (fo_guardRejected res) @ fo_chunkUnits res) = {#sample_unit, sample_unit\<lparr>su_caller := 1\<rparr>#}"
proof -
  obtain res st' where r: "flushWithSplit [reject_second] DEFAULT_SHARD [sample_unit, sample_unit\<lparr>su_caller := 1\<rparr>] ds_empty = (res, st')"
    by fastforce
  show ?thesis using flushWithSplit_partitions[OF r] r by auto
qed

section \<open>The revision chain never forks\<close>

record 'v group_sys =
  gs_group :: "'v group_writer"
  gs_store :: doc_store
  gs_outcome :: "'v flush_outcome option"
  gs_dead :: bool

text \<open>Stagers run at any time; the committer loop detaches, flushes and publishes.  Where publishing
  throws, the loop is gone with its batch still marked as flushing.\<close>

definition staged_ok :: "txn_ctx \<Rightarrow> bool" where
  "staged_ok c \<longleftrightarrow> tx_staged c \<noteq> [] \<and> jsmap_ok (tx_staged c) \<and> (\<forall>(k, w) \<in> set (tx_staged c). k = documentIdKey (lw_id w))"

inductive group_step ::
  "commit_guard list \<Rightarrow> jsstring \<Rightarrow> (int \<Rightarrow> shard_writer \<Rightarrow> shard_writer) \<Rightarrow> 'v group_sys \<Rightarrow> 'v group_sys \<Rightarrow> bool"
  for guards shardId hook where
  g_stage: "staged_ok c \<Longrightarrow> stageUnit (gs_store s) caller c snap shard v meta origin (gs_group s) = (g', r) \<Longrightarrow>
    group_step guards shardId hook s (s\<lparr>gs_group := g'\<rparr>)"
| g_detach: "\<not> gs_dead s \<Longrightarrow> gw_flushingBatch (gs_group s) = None \<Longrightarrow> gs_outcome s = None \<Longrightarrow> detachBatch (gs_group s) = (g', b) \<Longrightarrow>
    group_step guards shardId hook s (s\<lparr>gs_group := g'\<rparr>)"
| g_flush: "\<not> gs_dead s \<Longrightarrow> gw_flushingBatch (gs_group s) = Some b \<Longrightarrow> gs_outcome s = None \<Longrightarrow>
    flushWithSplit guards shardId (ba_units b) (gs_store s) = (res, st') \<Longrightarrow>
    group_step guards shardId hook s (s\<lparr>gs_store := st', gs_outcome := Some res\<rparr>)"
| g_publish: "\<not> gs_dead s \<Longrightarrow> gw_flushingBatch (gs_group s) = Some b \<Longrightarrow> gs_outcome s = Some res \<Longrightarrow>
    publishBatch hook b res (gs_group s) = (g', None) \<Longrightarrow>
    group_step guards shardId hook s (s\<lparr>gs_group := g', gs_outcome := None\<rparr>)"
| g_publish_throws: "\<not> gs_dead s \<Longrightarrow> gw_flushingBatch (gs_group s) = Some b \<Longrightarrow> gs_outcome s = Some res \<Longrightarrow>
    publishBatch hook b res (gs_group s) = (g', Some e) \<Longrightarrow>
    group_step guards shardId hook s (s\<lparr>gs_group := g', gs_dead := True\<rparr>)"

definition group_init :: "shard_writer \<Rightarrow> doc_store \<Rightarrow> 'v group_sys" where
  "group_init w st = \<lparr>gs_group = newGroupWriter w, gs_store = st, gs_outcome = None, gs_dead = False\<rparr>"

definition batch_entries :: "'v batch option \<Rightarrow> document_log_entry list" where
  "batch_entries b = (case b of None \<Rightarrow> [] | Some b \<Rightarrow> concat (map su_documents (ba_units b)))"

definition batch_ok :: "'v batch option \<Rightarrow> bool" where
  "batch_ok b = (case b of None \<Rightarrow> True | Some b \<Rightarrow> \<forall>u \<in> set (ba_units b). su_documents u \<noteq> [] \<and>
     (\<forall>e \<in> set (su_documents u). documentIdKey (le_id e) \<in> set (ba_writtenDocKeys b)))"

definition chained :: "doc_store \<Rightarrow> document_log_entry \<Rightarrow> bool" where
  "chained st e \<longleftrightarrow> (\<exists>p. ds_get st (le_id e) None = Inr p \<and> le_prev_ts e = map_option ld_ts p)"

definition group_inv :: "'v group_sys \<Rightarrow> bool" where
  "group_inv s \<longleftrightarrow> ds_ok (gs_store s) \<and> batch_ok (gw_flushingBatch (gs_group s)) \<and> batch_ok (gw_pendingBatch (gs_group s)) \<and>
     distinct (map le_id (batch_entries (gw_flushingBatch (gs_group s)) @ batch_entries (gw_pendingBatch (gs_group s)))) \<and>
     (\<forall>e \<in> set (batch_entries (gw_pendingBatch (gs_group s))). chained (gs_store s) e) \<and>
     (gs_outcome s = None \<longrightarrow> (\<forall>e \<in> set (batch_entries (gw_flushingBatch (gs_group s))). chained (gs_store s) e))"

lemma batch_entries_None [simp]: "batch_entries None = []" "batch_ok None"
  by (simp_all add: batch_entries_def batch_ok_def)

lemma find_cut_None:
  "find_cut f p keys = None \<Longrightarrow> k \<in> set keys \<Longrightarrow>
   (\<forall>b. f = Some b \<longrightarrow> k \<notin> set (ba_writtenDocKeys b)) \<and> (\<forall>b. p = Some b \<longrightarrow> k \<notin> set (ba_writtenDocKeys b))"
  by (induction f p keys rule: find_cut.induct) (auto split: option.splits if_splits)

lemma batch_keys: "batch_ok (Some b) \<Longrightarrow> e \<in> set (batch_entries (Some b)) \<Longrightarrow> documentIdKey (le_id e) \<in> set (ba_writtenDocKeys b)"
  by (auto simp: batch_ok_def batch_entries_def)

lemma set_fold_set_add [simp]: "set (fold set_add ks xs) = set ks \<union> set xs"
  by (induction ks arbitrary: xs) auto

lemma add_unit_entries:
  "batch_entries (Some (add_unit u ks b)) = batch_entries (Some b) @ su_documents u"
  "batch_ok (Some b) \<Longrightarrow> su_documents u \<noteq> [] \<Longrightarrow> \<forall>e \<in> set (su_documents u). documentIdKey (le_id e) \<in> set ks \<Longrightarrow>
   batch_ok (Some (add_unit u ks b))"
  by (auto simp: batch_entries_def batch_ok_def add_unit_def)

lemma new_batch_entries [simp]: "batch_entries (Some (newBatch n)) = []" "batch_ok (Some (newBatch n))"
  by (simp_all add: batch_entries_def batch_ok_def newBatch_def)

lemma append_unit_parts:
  "gw_flushingBatch (append_unit u ks g) = gw_flushingBatch g"
  "batch_entries (gw_pendingBatch (append_unit u ks g)) = batch_entries (gw_pendingBatch g) @ su_documents u"
  "batch_ok (gw_pendingBatch g) \<Longrightarrow> su_documents u \<noteq> [] \<Longrightarrow> \<forall>e \<in> set (su_documents u). documentIdKey (le_id e) \<in> set ks \<Longrightarrow>
   batch_ok (gw_pendingBatch (append_unit u ks g))"
  by (auto simp: append_unit_def ensureCommitter_def add_unit_entries split: option.splits)

lemma ds_get_batch_other:
  assumes "ds_ok st" "list_all unit_ok us" "commitWriteBatch guards us shardId st = Inr (tss, st')"
    and "\<forall>u \<in> set us. \<forall>e \<in> set (cu_documents u). le_id e \<noteq> i"
  shows "ds_get st' i None = ds_get st i None"
proof -
  have "filter (\<lambda>r. dr_table r = encodeStorageTableId (tableNumber i) \<and> dr_iid r = internalId i) (units_rows sh tss us) = []" for sh
    using assms(4) storage_ids[of _ i] by (fastforce simp: filter_empty_conv units_rows_def row_of_entry_def dest!: set_zip_rightD)
  then have "doc_rows st' (encodeStorageTableId (tableNumber i)) (internalId i) None = doc_rows st (encodeStorageTableId (tableNumber i)) (internalId i) None"
    using commit_spec[OF assms(1-3), of "\<lambda>_. True"] by (simp add: doc_rows_def visible_def)
  then show ?thesis by (simp add: ds_get_def)
qed

lemma log_entries_chained:
  assumes "log_entries st ws = Inr es"
  shows "map le_id es = map lw_id ws" "\<forall>e \<in> set es. chained st e"
proof -
  have "list_all2 (\<lambda>w e. le_id e = lw_id w \<and> chained st e) ws es"
    using assms unfolding log_entries_def res_map_Inr_iff
    by (rule list_all2_mono) (auto simp: res_bind_Inr_iff chained_def)
  then show "map le_id es = map lw_id ws" "\<forall>e \<in> set es. chained st e"
    by (induction rule: list_all2_induct) auto
qed

lemma staged_entries:
  assumes "staged_ok c" "log_entries st (uw_entries (tx_staged c)) = Inr es"
  shows "es \<noteq> []" "distinct (map le_id es)" "\<forall>e \<in> set es. documentIdKey (le_id e) \<in> set (staged_keys c)" "\<forall>e \<in> set es. chained st e"
proof -
  note le = log_entries_chained[OF assms(2)]
  have ids: "map le_id es = map (\<lambda>x. lw_id (snd x)) (tx_staged c)" using le(1) by (simp add: uw_entries_def)
  show "es \<noteq> []" using ids assms(1) by (auto simp: staged_ok_def)
  have keys: "map fst (tx_staged c) = map documentIdKey (map (\<lambda>x. lw_id (snd x)) (tx_staged c))"
    using assms(1) by (auto simp: staged_ok_def)
  then show "distinct (map le_id es)" using assms(1) unfolding ids by (metis distinct_map jsmap_ok_def staged_ok_def)
  have "staged_keys c = map documentIdKey (map le_id es)" by (simp add: ids staged_keys_def uw_entries_def)
  then show "\<forall>e \<in> set es. documentIdKey (le_id e) \<in> set (staged_keys c)" by auto
  show "\<forall>e \<in> set es. chained st e" by (rule le(2))
qed

lemma stageUnit_cases:
  assumes "stageUnit st caller c snap shard v meta origin g = (g', r)"
  obtains "g' = g"
  | u where "g' = append_unit u (staged_keys c) g" "log_entries st (uw_entries (tx_staged c)) = Inr (su_documents u)"
      "find_cut (gw_flushingBatch g) (gw_pendingBatch g) (staged_keys c) = None"
  using assms by (auto simp: stageUnit_def split: if_splits option.splits sum.splits) (metis staged_unit.select_convs(2))

lemma not_in_batch:
  assumes "find_cut f p keys = None" "k \<in> set keys" "batch_ok f" "batch_ok p" "e \<in> set (batch_entries f @ batch_entries p)"
  shows "documentIdKey (le_id e) \<noteq> k"
proof
  assume eq: "documentIdKey (le_id e) = k"
  obtain b where b: "f = Some b \<and> e \<in> set (batch_entries f) \<or> p = Some b \<and> e \<in> set (batch_entries p)"
    using assms(5) by (cases f; cases p) auto
  then have "k \<in> set (ba_writtenDocKeys b)" using batch_keys[of b e] assms(3,4) eq by auto
  then show False using find_cut_None[OF assms(1,2)] b by auto
qed

lemma publish_landed_batches:
  "publish_landed hook landed g = (g', e) \<Longrightarrow>
   gw_flushingBatch g' = gw_flushingBatch g \<and> gw_pendingBatch g' = gw_pendingBatch g"
  by (induction hook landed g rule: publish_landed.induct) (auto simp: Let_def settle_def split: sum.splits)

lemma settle_batches [simp]:
  "gw_pendingBatch (settle n r g) = gw_pendingBatch g" "gw_flushingBatch (settle n r g) = gw_flushingBatch g"
  by (simp_all add: settle_def)

lemma foldl_settle_batches [simp]:
  "gw_pendingBatch (foldl (\<lambda>g x. settle (f x) (h x) g) g xs) = gw_pendingBatch g"
  "gw_pendingBatch (foldl (\<lambda>g (y, z). settle (f' y) (h' z) g) g ys) = gw_pendingBatch g"
  by (induction xs arbitrary: g, auto) (induction ys arbitrary: g, auto)

lemma publishBatch_batches:
  assumes "publishBatch hook b res g = (g', e)"
  shows "gw_pendingBatch g' = gw_pendingBatch g" "gw_flushingBatch g' = (if e = None then None else gw_flushingBatch g)"
proof -
  obtain g1 e1 where g1: "publish_landed hook (fo_landed res) g = (g1, e1)" by fastforce
  show "gw_pendingBatch g' = gw_pendingBatch g" "gw_flushingBatch g' = (if e = None then None else gw_flushingBatch g)"
    using assms publish_landed_batches[OF g1] by (auto simp: publishBatch_def Let_def g1 split: option.splits)
qed

lemma chained_flush:
  assumes "ds_ok st" "flushWithSplit guards shardId (ba_units b) st = (res, st')" "batch_ok (Some b)"
  shows "ds_ok st' \<and> (\<forall>e. le_id e \<notin> le_id ` set (batch_entries (Some b)) \<longrightarrow> chained st' e = chained st e)"
proof (cases "fo_landed res = []")
  case True
  then show ?thesis using flush_loop_spec[OF assms(2)[unfolded flushWithSplit_def]] assms(1) by auto
next
  case False
  let ?us = "map (\<lambda>x. unit_rows (fst x)) (fo_landed res)"
  have c: "commitWriteBatch guards ?us (Some shardId) st = Inr (map snd (fo_landed res), st')"
    and m: "mset (map fst (fo_landed res) @ map fst (fo_guardRejected res) @ fo_chunkUnits res) = mset (ba_units b)"
    using flush_loop_spec[OF assms(2)[unfolded flushWithSplit_def]] False by auto
  have sub: "fst ` set (fo_landed res) \<subseteq> set (ba_units b)" using mset_eq_setD[OF m] by auto
  have ok: "list_all unit_ok ?us" using sub assms(3) by (fastforce simp: list_all_iff unit_ok_def unit_rows_def batch_ok_def)
  have docs: "\<forall>u \<in> set ?us. \<forall>e \<in> set (cu_documents u). le_id e \<noteq> i" if "i \<notin> le_id ` set (batch_entries (Some b))" for i
    using sub that by (fastforce simp: unit_rows_def batch_entries_def)
  have "chained st' e = chained st e" if "le_id e \<notin> le_id ` set (batch_entries (Some b))" for e
    unfolding chained_def ds_get_batch_other[OF assms(1) ok c docs[OF that]] ..
  then show ?thesis using commit_spec[OF assms(1) ok c, of "\<lambda>_. True"] by blast
qed

lemma group_inv_init: "ds_ok st \<Longrightarrow> group_inv (group_init w st)"
  by (simp add: group_inv_def group_init_def newGroupWriter_def)

lemma group_inv_step:
  assumes "group_step guards shardId hook s s'" "group_inv s"
  shows "group_inv s'"
  using assms
proof (cases rule: group_step.cases)
  case (g_stage c caller snap shard v meta origin g' r)
  let ?f = "gw_flushingBatch (gs_group s)" and ?p = "gw_pendingBatch (gs_group s)"
  note inv = assms(2)[unfolded group_inv_def]
  from g_stage(3) show ?thesis
  proof (cases rule: stageUnit_cases)
    case 1
    then show ?thesis using g_stage(1) assms(2) by (simp add: group_inv_def)
  next
    case (2 u)
    note es = staged_entries[OF g_stage(2) 2(2)]
    note ap = append_unit_parts
    have "le_id e \<noteq> le_id e'"
      if "e \<in> set (batch_entries ?f @ batch_entries ?p)" "e' \<in> set (su_documents u)" for e e'
      using not_in_batch[OF 2(3) _ _ _ that(1)] es(3) that(2) inv by metis
    then have "le_id ` set (batch_entries ?f @ batch_entries ?p) \<inter> le_id ` set (su_documents u) = {}"
      by (intro equals0I) (elim IntE imageE, simp)
    then have d: "distinct (map le_id (batch_entries ?f @ batch_entries ?p @ su_documents u))"
      using inv es(2) by (simp add: image_Un Int_Un_distrib Int_Un_distrib2 Int_commute)
    have "batch_ok (gw_pendingBatch (append_unit u (staged_keys c) (gs_group s)))" using inv es by (simp add: ap)
    moreover have "\<forall>e \<in> set (batch_entries ?p @ su_documents u). chained (gs_store s) e" using inv es by auto
    ultimately show ?thesis using inv d by (simp add: group_inv_def g_stage(1) 2(1) ap)
  qed
next
  case (g_detach g' b)
  then show ?thesis using assms(2)
    by (auto simp: group_inv_def detachBatch_def split: option.splits if_splits)
next
  case (g_flush b res st')
  note inv = assms(2)[unfolded group_inv_def g_flush(3)]
  have "ds_ok st' \<and> (\<forall>e. le_id e \<notin> le_id ` set (batch_entries (Some b)) \<longrightarrow> chained st' e = chained (gs_store s) e)"
    by (rule chained_flush[OF _ g_flush(5)]) (use inv in auto)
  moreover have "\<forall>e \<in> set (batch_entries (gw_pendingBatch (gs_group s))). le_id e \<notin> le_id ` set (batch_entries (Some b))"
    using inv by (auto simp: disjoint_iff image_iff)
  ultimately show ?thesis using inv unfolding g_flush(1) by (auto simp: group_inv_def g_flush(3))
next
  case (g_publish b res g')
  show ?thesis using assms(2) publishBatch_batches[OF g_publish(5)] unfolding g_publish(1) by (auto simp: group_inv_def)
next
  case (g_publish_throws b res g' e)
  show ?thesis using assms(2) publishBatch_batches[OF g_publish_throws(5)] unfolding g_publish_throws(1)
    by (auto simp: group_inv_def g_publish_throws(4))
qed

lemma group_inv_reachable:
  "(group_step guards shardId hook)\<^sup>*\<^sup>* (group_init w st) s \<Longrightarrow> ds_ok st \<Longrightarrow> group_inv s"
  by (induction rule: rtranclp_induct) (auto intro: group_inv_init group_inv_step)

text \<open>C12. However stagers and the committer loop interleave, the batch about to be flushed writes every
  document at most once, and each entry carries the timestamp of the document's current revision as
  its predecessor (none where there is none): no flush forks a revision chain.\<close>

theorem group_commit_chain:
  assumes "ds_ok st" "(group_step guards shardId hook)\<^sup>*\<^sup>* (group_init w st) s"
    and "gw_flushingBatch (gs_group s) = Some b" "gs_outcome s = None"
  shows "distinct (map le_id (concat (map su_documents (ba_units b)))) \<and>
    (\<forall>e \<in> set (concat (map su_documents (ba_units b))).
       \<exists>p. ds_get (gs_store s) (le_id e) None = Inr p \<and> le_prev_ts e = map_option ld_ts p)"
  using group_inv_reachable[OF assms(2,1)] assms(3,4) by (auto simp: group_inv_def batch_entries_def chained_def)

theorem group_commit_chain_witness:
  "\<exists>s b. (group_step [] DEFAULT_SHARD (\<lambda>_ w. w))\<^sup>*\<^sup>* (group_init (newWriter (newOracle 0) DEFAULT_SHARD DEFAULT_HEADROOM) ds_empty) s \<and>
     gw_flushingBatch (gs_group (s :: unit group_sys)) = Some b \<and> length (ba_units b) = 1 \<and>
     distinct (map le_id (concat (map su_documents (ba_units b))))"
proof -
  let ?s = "group_init (newWriter (newOracle 0) DEFAULT_SHARD DEFAULT_HEADROOM) ds_empty :: unit group_sys"
  let ?r = "stageUnit ds_empty 0 sample_ctx 0 DEFAULT_SHARD () None None (gs_group ?s)"
  let ?s1 = "?s\<lparr>gs_group := fst ?r\<rparr>"
  let ?d = "detachBatch (gs_group ?s1)"
  let ?s2 = "?s1\<lparr>gs_group := fst ?d\<rparr>"
  have st: "tx_staged sample_ctx = [(documentIdKey sample_id, \<lparr>lw_id = sample_id, lw_value = Some []\<rparr>)]" "tx_indexUpdates sample_ctx = []"
    by (simp_all add: sample_ctx_def newCtx_def ctx_get_def ctx_put_def ctx_write_def countRead_def countWrite_def Let_def
        newTracker_def DEFAULT_HEADROOM_def uw_get_def uw_set_def)
  have dead: "\<not> gs_dead ?s" "\<not> gs_dead ?s1" "gs_outcome ?s1 = None" "gs_outcome ?s2 = None" "gw_flushingBatch (gs_group ?s1) = None"
    by (auto simp: group_init_def newGroupWriter_def append_unit_parts stageUnit_def batch_conflict_def ring_conflict_def newWriter_def
        split: option.splits sum.splits if_splits)
  have "group_step [] DEFAULT_SHARD (\<lambda>_ w. w) ?s ?s1"
    by (rule g_stage[of sample_ctx _ 0 0 DEFAULT_SHARD "()" None None _ "snd ?r"])
       (simp_all add: staged_ok_def st jsmap_ok_def group_init_def)
  moreover have "group_step [] DEFAULT_SHARD (\<lambda>_ w. w) ?s1 ?s2"
    by (rule g_detach[of _ _ "snd ?d"]) (use dead in simp_all)
  ultimately have reach: "(group_step [] DEFAULT_SHARD (\<lambda>_ w. w))\<^sup>*\<^sup>* ?s ?s2"
    by (meson converse_rtranclp_into_rtranclp rtranclp.rtrancl_refl)
  obtain b where b: "gw_flushingBatch (gs_group ?s2) = Some b" "length (ba_units b) = 1"
    by (auto simp: group_init_def newGroupWriter_def stageUnit_def ring_conflict_def newWriter_def newOracle_def batch_conflict_def st
        staged_keys_def uw_entries_def log_entries_def ds_get_def doc_rows_def ds_empty_def newest_def append_unit_def
        ensureCommitter_def add_unit_def newBatch_def detachBatch_def)
  show ?thesis using group_commit_chain[OF ds_ok_empty reach b(1) dead(4)] reach b by blast
qed

end
