(* ===== verification/Sync_Props.thy ===== *)
theory Sync_Props
  imports Sync_Handler "HOL-Library.Sublist"
begin

text \<open>
  What the reactive tier promises: contiguous version brackets on every session, the client reducer
  of \<^verbatim>\<open>packages/sync/src/client-reducer.ts\<close> that checks them, the origin's frontier, and the
  reconnect that skips a query.
\<close>

section \<open>Version brackets\<close>

text \<open>The version after a list of frames, where every transition starts at the version before it.\<close>

fun bracket_end :: "state_version \<Rightarrow> server_message list \<Rightarrow> state_version option" where
  "bracket_end v [] = Some v"
| "bracket_end v (Transition s e mods # msgs) = (if versionsEqual s v then bracket_end e msgs else None)"
| "bracket_end v (_ # msgs) = bracket_end v msgs"

definition session_ok :: "session \<Rightarrow> bool" where
  "session_ok se \<longleftrightarrow> bracket_end INITIAL_VERSION (se_sent se) = Some (se_version se)"

definition handler_ok :: "handler \<Rightarrow> bool" where
  "handler_ok h \<longleftrightarrow> jsmap_ok (hd_sessions h) \<and>
     (\<forall>sid se. map_of (hd_sessions h) sid = Some se \<longrightarrow> session_ok se \<and> se_sessionId se = sid)"

lemma versionsEqual_iff [simp]: "versionsEqual a b \<longleftrightarrow> a = b"
  by (auto simp: versionsEqual_def)

definition is_transition :: "server_message \<Rightarrow> bool" where
  "is_transition m = (case m of Transition _ _ _ \<Rightarrow> True | _ \<Rightarrow> False)"

lemma bracket_end_append: "bracket_end v (xs @ ys) = Option.bind (bracket_end v xs) (\<lambda>v'. bracket_end v' ys)"
  by (induction v xs rule: bracket_end.induct) auto

lemma session_ok_new: "session_ok (newSession sid)"
  by (simp add: session_ok_def newSession_def)

lemma session_ok_send: "session_ok se \<Longrightarrow> \<not> is_transition m \<Longrightarrow> session_ok (send m se)"
  by (cases m) (auto simp: session_ok_def send_def bracket_end_append is_transition_def)

lemma session_ok_transition: "session_ok se \<Longrightarrow> session_ok (transition v mods se)"
  by (simp add: session_ok_def transition_def send_def bracket_end_append)

lemma send_simps [simp]:
  "se_sessionId (send m se) = se_sessionId se" "se_version (send m se) = se_version se"
  "se_sessionId (transition v mods se) = se_sessionId se" "se_version (transition v mods se) = v"
  "se_supportsQueryDiff (transition v mods se) = se_supportsQueryDiff se"
  by (simp_all add: send_def transition_def)

lemma session_ok_fields [simp]:
  "session_ok (se\<lparr>se_identity := i\<rparr>) = session_ok se" "session_ok (se\<lparr>se_privileged := b\<rparr>) = session_ok se"
  "session_ok (se\<lparr>se_supportsQueryDiff := b\<rparr>) = session_ok se"
  by (simp_all add: session_ok_def)

lemma handler_ok_put: "handler_ok h \<Longrightarrow> session_ok se \<Longrightarrow> handler_ok (put_session se h)"
  by (auto simp: handler_ok_def put_session_def split: option.splits)

lemma handler_ok_sessions: "hd_sessions h' = hd_sessions h \<Longrightarrow> handler_ok h' = handler_ok h"
  by (simp add: handler_ok_def)

lemma put_session_other [simp]:
  "hd_subscriptions (put_session se h) = hd_subscriptions h" "hd_resumeRegistry (put_session se h) = hd_resumeRegistry h"
  "hd_byIdRowMap (put_session se h) = hd_byIdRowMap h" "hd_pendingFrontiers (put_session se h) = hd_pendingFrontiers h"
  "hd_originResponseGates (put_session se h) = hd_originResponseGates h"
  by (simp_all add: put_session_def split: option.splits)

lemma put_session_map: "map_of (hd_sessions (put_session se h)) sid =
    (if sid = se_sessionId se \<and> map_of (hd_sessions h) sid \<noteq> None then Some se else map_of (hd_sessions h) sid)"
  by (auto simp: put_session_def split: option.splits)

text \<open>The parts of the handler that compute answers leave the sessions alone.\<close>

named_theorems sessions_simps

lemma row_map_sessions [sessions_simps]: "hd_sessions (set_row_map k m h) = hd_sessions h" "hd_sessions (delete_row_map k h) = hd_sessions h"
  "hd_sessions (retain_resume k h) = hd_sessions h" "hd_sessions (fst (add_subscription s h)) = hd_sessions h"
  "hd_sessions (fst (upsert_resume k r t b h)) = hd_sessions h" "hd_sessions (releaseOriginResponseGate ts h) = hd_sessions h"
  "hd_sessions (registerOriginResponseGate ts origin h) = hd_sessions h" "hd_sessions (clearByIdRowMapForSession sid h) = hd_sessions h"
  by (simp_all add: set_row_map_def delete_row_map_def retain_resume_def add_subscription_def upsert_resume_def case_prod_beta
      releaseOriginResponseGate_def registerOriginResponseGate_def clearByIdRowMapForSession_def split: option.splits)

lemma add_subscription_sessions: "add_subscription s h = (h', e) \<Longrightarrow> hd_sessions h' = hd_sessions h"
  using sessions_simps(4)[of s h] by simp

lemma upsert_resume_sessions: "upsert_resume k r t b h = (h', e) \<Longrightarrow> hd_sessions h' = hd_sessions h"
  using sessions_simps(5)[of k r t b h] by simp

lemma answer_query_sessions [sessions_simps]: "hd_sessions (fst (answer_query env se q r byId h)) = hd_sessions h"
  by (simp add: answer_query_def Let_def case_prod_beta sessions_simps split: option.splits sum.splits bool.splits)

lemma fresh_subscribe_sessions [sessions_simps]: "hd_sessions (fst (fresh_subscribe env se q h)) = hd_sessions h"
  by (auto simp: fresh_subscribe_def Let_def sessions_simps dest!: add_subscription_sessions upsert_resume_sessions
      split: sum.splits prod.splits option.splits)

lemma subscribe_one_sessions [sessions_simps]: "hd_sessions (fst (subscribe_one env se q h)) = hd_sessions h"
  by (auto simp: subscribe_one_def Let_def case_prod_beta sessions_simps dest: add_subscription_sessions
      split: prod.splits option.splits if_splits)

lemma subscribe_all_sessions [sessions_simps]: "hd_sessions (fst (subscribe_all env se qs h)) = hd_sessions h"
  by (induction qs arbitrary: h) (simp_all add: case_prod_beta Let_def sessions_simps)

lemma unsubscribe_sessions [sessions_simps]: "hd_sessions (fold (unsubscribe_one env se) ids h) = hd_sessions h"
  by (induction ids arbitrary: h) (simp_all add: unsubscribe_one_def Let_def)

lemma range_diff_sessions [sessions_simps]: "hd_sessions (fst (range_diff sub rng wds h)) = hd_sessions h"
  by (simp add: range_diff_def Let_def sessions_simps split: sum.splits prod.splits)

lemma byId_diff_sessions [sessions_simps]: "hd_sessions (fst (byId_diff sub b wds h)) = hd_sessions h"
  by (simp add: byId_diff_def Let_def case_prod_beta sessions_simps)

lemma rerun_sessions [sessions_simps]: "hd_sessions (fst (rerun env se wi sub h)) = hd_sessions h"
  by (auto simp: rerun_def Let_def sessions_simps dest!: add_subscription_sessions upsert_resume_sessions
      split: sum.splits prod.splits option.splits if_splits)

lemma update_one_sessions [sessions_simps]: "hd_sessions (fst (update_one env se wi sub h)) = hd_sessions h"
  by (auto simp: update_one_def Let_def case_prod_beta sessions_simps split: option.splits bool.splits)

lemma update_all_sessions [sessions_simps]: "hd_sessions (fst (update_all env se wi subs h)) = hd_sessions h"
  by (induction subs arbitrary: h) (simp_all add: case_prod_beta Let_def sessions_simps)

lemma reauth_one_sessions [sessions_simps]: "hd_sessions (fst (reauth_one env se sub h)) = hd_sessions h"
proof (cases "execSub env se (sb_udfPath sub) (sb_args sub)")
  case (Inr r)
  show ?thesis
  proof (cases "classifyByIdRead (qr_value r) (qr_readRanges r)")
    case cl: (Inr byId)
    let ?key = "regKey (se_identity se) (sb_udfPath sub) (en_stringify env (sb_args sub))"
    obtain h1 e1 where up: "upsert_resume ?key r (sv_ts (se_version se)) byId h = (h1, e1)" by fastforce
    show ?thesis
    proof (cases e1)
      case None
      define h2 where "h2 = (if sb_resumeKey sub = Some ?key then h1
           else (let h1' = retain_resume ?key h1
                 in case sb_resumeKey sub of
                      None \<Rightarrow> h1'
                    | Some old \<Rightarrow> if old = [] then h1'
                        else h1'\<lparr>hd_resumeRegistry := rg_release old (en_now env) (hd_resumeRegistry h1')\<rparr>))"
      have h2: "hd_sessions h2 = hd_sessions h"
        using upsert_resume_sessions[OF up] by (simp add: h2_def Let_def sessions_simps split: option.splits)
      obtain h3 e3 where add: "add_subscription ((refreshed sub r byId)\<lparr>sb_resumeKey := Some ?key\<rparr>) h2 = (h3, e3)" by fastforce
      have h3: "hd_sessions h3 = hd_sessions h" using add_subscription_sessions[OF add] h2 by simp
      show ?thesis unfolding reauth_one_def Inr sum.case cl Let_def up prod.case None option.case h2_def[symmetric, unfolded Let_def] add
        by (cases e3; cases byId; cases "se_supportsQueryDiff se") (simp_all add: h3 sessions_simps case_prod_beta)
    qed (use upsert_resume_sessions[OF up] in \<open>simp add: reauth_one_def Inr cl Let_def up\<close>)
  qed (simp add: reauth_one_def Inr Let_def)
qed (simp add: reauth_one_def Let_def)

lemma reauth_all_sessions [sessions_simps]: "hd_sessions (fst (reauth_all env se subs h)) = hd_sessions h"
  by (induction subs arbitrary: h) (simp_all add: case_prod_beta Let_def sessions_simps)

section \<open>Every step keeps the brackets\<close>

lemma handler_okD: "handler_ok h \<Longrightarrow> map_of (hd_sessions h) sid = Some se \<Longrightarrow> session_ok se \<and> se_sessionId se = sid"
  by (simp add: handler_ok_def)

lemma handler_ok_notify_session: "handler_ok h \<Longrightarrow> handler_ok (notify_session env wi e h)"
proof (cases "map_of (hd_sessions h) (fst e)")
  case (Some se)
  assume ok: "handler_ok h"
  have "handler_ok (fst (update_all env se wi (snd e) h))"
    using ok handler_ok_sessions[OF update_all_sessions] by blast
  then show ?thesis using handler_okD[OF ok Some]
    by (simp add: notify_session_def Some sendSessionTransition_def Let_def case_prod_beta handler_ok_put session_ok_transition)
qed (simp add: notify_session_def)

lemma handler_ok_frontier: "handler_ok h \<Longrightarrow> map_of (hd_sessions h) sid = Some se \<Longrightarrow> handler_ok (put_session (emitEmptyFrontier ts se) h)"
  using handler_okD[of h sid se] by (simp add: handler_ok_put session_ok_transition emitEmptyFrontier_def)

lemma handler_ok_pending [simp]: "handler_ok (h\<lparr>hd_pendingFrontiers := x\<rparr>) = handler_ok h"
  by (rule handler_ok_sessions) simp

lemma handler_ok_frontiers: "handler_ok h \<Longrightarrow> handler_ok (notify_frontiers wi origin bs h)"
proof -
  assume ok: "handler_ok h"
  have adv: "handler_ok (advanceOriginFrontier origin bs ts h)" for ts
    using ok by (auto simp: advanceOriginFrontier_def Let_def handler_ok_frontier split: option.splits)
  have "handler_ok (sweep_frontier d bs e h)" if "handler_ok h" for d e h
    using that by (auto simp: sweep_frontier_def Let_def handler_ok_frontier split: option.splits prod.splits)
  then have "handler_ok (fold (sweep_frontier d bs) es h)" if "handler_ok h" for d es h
    using that by (induction es arbitrary: h) auto
  then show ?thesis using ok adv by (simp add: notify_frontiers_def sweepPendingFrontiers_def)
qed

lemma handler_ok_notify:
  assumes "handler_ok h" "doNotifyWrites env ex wi origin h = Inr h'"
  shows "handler_ok h'"
proof -
  obtain h1 bs where b: "notify_begin env ex wi origin h = Inr (h1, bs)" and
    h': "h' = notify_frontiers wi origin bs (notify_origin env wi (origin_diff_capable origin bs h1) origin bs
           (notify_others env wi (origin_diff_capable origin bs h1) origin bs h1))"
    using assms(2) by (auto simp: doNotifyWrites_def Let_def res_bind_Inr_iff)
  have "hd_sessions h1 = hd_sessions h" using b by (auto simp: notify_begin_def res_bind_Inr_iff)
  then have "handler_ok h1" using assms(1) handler_ok_sessions by blast
  moreover have "handler_ok (fold (\<lambda>e h. if d \<and> Some (fst e) = origin then h else notify_session env wi e h) es h)"
    if "handler_ok h" for d es h using that by (induction es arbitrary: h) (auto simp: handler_ok_notify_session)
  moreover have "handler_ok (notify_origin env wi d origin bs h)" if "handler_ok h" for d h
    using that by (auto simp: notify_origin_def handler_ok_notify_session split: option.splits)
  ultimately show ?thesis by (simp add: h' notify_others_def handler_ok_frontiers)
qed

lemma handler_ok_modify: "handler_ok h \<Longrightarrow> session_ok se \<Longrightarrow> handler_ok (fst (doModifyQuerySet env adds removes se h))"
proof -
  assume ok: "handler_ok h" "session_ok se"
  have "handler_ok (fold (unsubscribe_one env se) removes (fst (subscribe_all env se adds h)))"
    using ok(1) handler_ok_sessions[OF unsubscribe_sessions] handler_ok_sessions[OF subscribe_all_sessions] by blast
  then show ?thesis using ok(2)
    by (simp add: doModifyQuerySet_def Let_def case_prod_beta handler_ok_put session_ok_transition)
qed

lemma handler_ok_setAuth: "handler_ok h \<Longrightarrow> session_ok se \<Longrightarrow> handler_ok (handleSetAuth env token se h)"
proof -
  assume ok: "handler_ok h" "session_ok se"
  have "handler_ok (put_session (se\<lparr>se_identity := token\<rparr>) h)" using ok by (simp add: handler_ok_put)
  then have "handler_ok (fst (reauth_all env (se\<lparr>se_identity := token\<rparr>)
      (forSession (se_sessionId se) (hd_subscriptions h)) (put_session (se\<lparr>se_identity := token\<rparr>) h)))"
    using handler_ok_sessions[OF reauth_all_sessions] by blast
  then show ?thesis using ok(2) by (simp add: handleSetAuth_def Let_def case_prod_beta handler_ok_put session_ok_transition)
qed

lemma handler_ok_mutation:
  "handler_ok h \<Longrightarrow> session_ok se \<Longrightarrow> handler_ok (fst (processMutation auto reqId outcome se h))"
proof -
  assume ok: "handler_ok h" "session_ok se"
  have rel: "handler_ok (releaseOriginResponseGate ts h) = handler_ok h" for ts h
    by (rule handler_ok_sessions) (simp add: sessions_simps)
  have snd: "\<not> is_transition (MutationFailed a b c)" "\<not> is_transition (MutationSucceeded d e f g i)" for a b c d e f g i
    by (simp_all add: is_transition_def)
  show ?thesis using ok
    by (simp add: processMutation_def Let_def rel snd handler_ok_put session_ok_send split: sum.splits option.splits run_mutation_result.splits)
qed

text \<open>One step: a connection, a message of a live session, a query-set change that waited behind the
  session's disconnect, a notification, or the gate of a commit.\<close>

inductive hd_step :: "handler \<Rightarrow> handler \<Rightarrow> bool" where
  hd_step_connect: "map_of (hd_sessions h) sid = None \<Longrightarrow> hd_step h (hd_connect sid h)"
| hd_step_disconnect: "hd_step h (hd_disconnect now sid h)"
| hd_step_modify: "map_of (hd_sessions h) sid = Some se \<Longrightarrow> hd_step h (fst (doModifyQuerySet env adds removes se h))"
| hd_step_modify_late: "map_of (hd_sessions h) (se_sessionId se) = None \<Longrightarrow> hd_step h (fst (doModifyQuerySet env adds removes se h))"
| hd_step_notify: "doNotifyWrites env ex wi origin h = Inr h' \<Longrightarrow> hd_step h h'"
| hd_step_auth: "map_of (hd_sessions h) sid = Some se \<Longrightarrow> hd_step h (handleSetAuth env token se h)"
| hd_step_admin: "map_of (hd_sessions h) sid = Some se \<Longrightarrow> hd_step h (handleSetAdminAuth verify key se h)"
| hd_step_mutation: "map_of (hd_sessions h) sid = Some se \<Longrightarrow> hd_step h (fst (processMutation auto reqId outcome se h))"
| hd_step_hello: "map_of (hd_sessions h) sid = Some se \<Longrightarrow> hd_step h (handleConnect diff resuming classify dep held acked se h)"
| hd_step_publish: "hd_step h (publishEphemeral topic event from h)"
| hd_step_gate: "hd_step h (registerOriginResponseGate ts origin h)"

lemma put_session_absent: "map_of (hd_sessions h) (se_sessionId se) = None \<Longrightarrow> put_session se h = h"
  by (simp add: put_session_def)

lemma handler_ok_step: "hd_step h h' \<Longrightarrow> handler_ok h \<Longrightarrow> handler_ok h'"
proof (induction rule: hd_step.induct)
  case (hd_step_connect h sid)
  then show ?case by (simp add: hd_connect_def handler_ok_def session_ok_new) (simp add: newSession_def)
next
  case (hd_step_disconnect h now sid)
  then show ?case by (simp add: hd_disconnect_def Let_def clearByIdRowMapForSession_def handler_ok_def)
next
  case (hd_step_modify_late h se env adds removes)
  let ?h = "fold (unsubscribe_one env se) removes (fst (subscribe_all env se adds h))"
  have "hd_sessions ?h = hd_sessions h" by (simp add: sessions_simps)
  then show ?case using hd_step_modify_late handler_ok_sessions[of ?h h]
    by (simp add: doModifyQuerySet_def Let_def case_prod_beta put_session_absent)
next
  case (hd_step_publish h topic event fr)
  then show ?case
    by (auto simp: publishEphemeral_def handler_ok_def jsmap_ok_def comp_def case_prod_beta map_of_map is_transition_def session_ok_send)
next
  case (hd_step_gate h ts origin)
  then show ?case using handler_ok_sessions[of "registerOriginResponseGate ts origin h" h] by (simp add: sessions_simps)
next
  case (hd_step_hello h sid se diff resuming classify dep held acked)
  then show ?case using handler_okD[of h sid se]
    by (simp add: handleConnect_def Let_def handler_ok_put session_ok_send is_transition_def split: bool.splits option.splits)
qed (simp_all add: handler_ok_modify handler_ok_notify handler_ok_setAuth handler_ok_mutation handleSetAdminAuth_def handler_ok_put
     handler_okD)

lemma handler_ok_new: "handler_ok newHandler"
  by (simp add: handler_ok_def newHandler_def)

lemma handler_ok_reachable: "hd_step\<^sup>*\<^sup>* newHandler h \<Longrightarrow> handler_ok h"
  by (induction rule: rtranclp_induct) (auto intro: handler_ok_step handler_ok_new)

section \<open>The client reducer (client-reducer.ts)\<close>

datatype mutation_outcome = OutcomeOk "json option" | OutcomeFailed "js_error + jsstring"

record sync_client_state =
  cl_version :: state_version
  cl_queries :: "(int, json) jsmap"
  cl_needsResync :: bool
  cl_mutationResults :: "(jsstring, mutation_outcome) jsmap"
  cl_broadcasts :: "(jsstring \<times> json) list"

definition createClientState :: sync_client_state where
  "createClientState = \<lparr>cl_version = INITIAL_VERSION, cl_queries = [], cl_needsResync = False, cl_mutationResults = [], cl_broadcasts = []\<rparr>"

definition apply_modification :: "state_modification \<Rightarrow> (int, json) jsmap \<Rightarrow> (int, json) jsmap" where
  "apply_modification md queries =
     (case md of
        QueryUpdated q v _ \<Rightarrow> AList.update q v queries
      | QueryRemoved q \<Rightarrow> AList.delete q queries
      | _ \<Rightarrow> queries)"

definition applyServerMessage :: "sync_client_state \<Rightarrow> server_message \<Rightarrow> sync_client_state" where
  "applyServerMessage state msg =
     (case msg of
        Transition startVersion endVersion modifications \<Rightarrow>
          if \<not> versionsEqual startVersion (cl_version state) then state\<lparr>cl_needsResync := True\<rparr>
          else state\<lparr>cl_queries := fold apply_modification modifications (cl_queries state), cl_version := endVersion\<rparr>
      | MutationSucceeded requestId v ts replayed missing \<Rightarrow>
          state\<lparr>cl_mutationResults := AList.update requestId (OutcomeOk v) (cl_mutationResults state)\<rparr>
      | MutationFailed requestId e code \<Rightarrow>
          state\<lparr>cl_mutationResults := AList.update requestId (OutcomeFailed e) (cl_mutationResults state)\<rparr>
      | Broadcast topic event \<Rightarrow> state\<lparr>cl_broadcasts := cl_broadcasts state @ [(topic, event)]\<rparr>
      | _ \<Rightarrow> state)"

lemma client_follows_brackets:
  "bracket_end (cl_version c) msgs = Some v \<Longrightarrow>
   cl_version (foldl applyServerMessage c msgs) = v \<and> cl_needsResync (foldl applyServerMessage c msgs) = cl_needsResync c"
  by (induction "cl_version c" msgs arbitrary: c rule: bracket_end.induct)
     (auto simp: applyServerMessage_def split: if_splits)

text \<open>C34. In every reachable state of the handler, a client that received every frame of its session
  has applied them all without asking for a resync, and is at the session's version.\<close>

theorem client_follows_session:
  assumes "hd_step\<^sup>*\<^sup>* newHandler h" "map_of (hd_sessions h) sid = Some se"
  shows "cl_version (foldl applyServerMessage createClientState (se_sent se)) = se_version se \<and>
    \<not> cl_needsResync (foldl applyServerMessage createClientState (se_sent se))"
proof -
  have "bracket_end INITIAL_VERSION (se_sent se) = Some (se_version se)"
    using handler_okD[OF handler_ok_reachable[OF assms(1)] assms(2)] by (simp add: session_ok_def)
  then show ?thesis using client_follows_brackets[of createClientState "se_sent se"] by (simp add: createClientState_def)
qed

definition sample_env :: handler_env where
  "sample_env = \<lparr>en_runQuery = (\<lambda>_ _ _. Inr \<lparr>qr_value = VBool True, qr_tables = [js ''notes''], qr_readRanges = [], qr_globalTables = [],
       qr_diffableRange = None, qr_diffablePage = None\<rparr>),
     en_runAdminQuery = (\<lambda>_ _. Inl (GenericError ''none'')), en_hashValue = (\<lambda>_. []), en_stringify = (\<lambda>_. []), en_rowId = (\<lambda>_. []), en_now = 0\<rparr>"

theorem client_follows_session_witness:
  "\<exists>h se. hd_step\<^sup>*\<^sup>* newHandler h \<and> map_of (hd_sessions h) [49] = Some se \<and> length (se_sent se) = 1 \<and>
     cl_version (foldl applyServerMessage createClientState (se_sent se)) = \<lparr>sv_querySet = 1, sv_ts = 0\<rparr>"
proof -
  let ?h1 = "hd_connect [49] newHandler" and ?se = "newSession [49]"
  let ?r = "doModifyQuerySet sample_env [] [] ?se ?h1"
  have m: "map_of (hd_sessions ?h1) [49] = Some ?se" by (simp add: hd_connect_def newHandler_def)
  have "hd_step newHandler ?h1" by (rule hd_step_connect) (simp add: newHandler_def)
  moreover have "hd_step ?h1 (fst ?r)" by (rule hd_step_modify[OF m])
  ultimately have reach: "hd_step\<^sup>*\<^sup>* newHandler (fst ?r)" by simp
  obtain se where se: "map_of (hd_sessions (fst ?r)) [49] = Some se" "length (se_sent se) = 1" "se_version se = \<lparr>sv_querySet = 1, sv_ts = 0\<rparr>"
    using m by (simp add: doModifyQuerySet_def Let_def put_session_map newSession_def transition_def send_def INITIAL_VERSION_def)
  show ?thesis using client_follows_session[OF reach se(1)] reach se by metis
qed

section \<open>Dropped frames\<close>

definition forward :: "server_message \<Rightarrow> bool" where
  "forward m = (case m of Transition s e _ \<Rightarrow> compareStateVersion s e = CLt | _ \<Rightarrow> True)"

definition version_less :: "state_version \<Rightarrow> state_version \<Rightarrow> bool" where
  "version_less a b = (compareStateVersion a b = CLt)"

lemma version_less_trans: "version_less a b \<Longrightarrow> version_less b c \<Longrightarrow> version_less a c"
  by (auto simp: version_less_def compareStateVersion_def split: if_splits)

lemma version_less_irrefl: "\<not> version_less a a"
  by (simp add: version_less_def compareStateVersion_def)

lemma starts_above:
  assumes "bracket_end v msgs = Some v'" "list_all forward msgs" "Transition s e mods \<in> set msgs"
  shows "s = v \<or> version_less v s"
  using assms
proof (induction v msgs rule: bracket_end.induct)
  case (2 v s' e' mods' msgs)
  then have h: "s' = v" "bracket_end e' msgs = Some v'" "version_less v e'"
    by (auto simp: forward_def version_less_def split: if_splits)
  show ?case
  proof (cases "Transition s e mods \<in> set msgs")
    case True
    then have "s = e' \<or> version_less e' s" using 2 h by auto
    then show ?thesis using h(3) version_less_trans by blast
  qed (use "2.prems" h in auto)
qed auto

lemma resync_sticky: "cl_needsResync c \<Longrightarrow> cl_needsResync (foldl applyServerMessage c msgs)"
proof (induction msgs arbitrary: c)
  case (Cons m msgs)
  have "cl_needsResync (applyServerMessage c m)" using Cons.prems by (cases m) (auto simp: applyServerMessage_def)
  then show ?case using Cons.IH by simp
qed simp

lemma no_transition_version: "\<forall>y \<in> set ys. \<not> is_transition y \<Longrightarrow> cl_version (foldl applyServerMessage c ys) = cl_version c"
proof (induction ys arbitrary: c)
  case (Cons y ys)
  then have "cl_version (applyServerMessage c y) = cl_version c"
    by (cases y) (auto simp: applyServerMessage_def is_transition_def)
  then show ?case using Cons by simp
qed simp

lemma first_transition:
  assumes "filter is_transition xs \<noteq> []"
  obtains ys s e m zs where "xs = ys @ Transition s e m # zs" "\<forall>y \<in> set ys. \<not> is_transition y"
proof -
  have "\<exists>x \<in> set xs. is_transition x" using assms by (simp add: filter_empty_conv)
  from split_list_first_prop[OF this]
  obtain ys x zs where "xs = ys @ x # zs" "is_transition x" "\<forall>y \<in> set ys. \<not> is_transition y" by blast
  then show thesis using that by (cases x) (auto simp: is_transition_def)
qed

lemma received_prefix:
  assumes "subseq received sent" "bracket_end (cl_version c) sent = Some v" "list_all forward sent"
    and "\<not> cl_needsResync (foldl applyServerMessage c received)"
  shows "prefix (filter is_transition received) (filter is_transition sent)"
  using assms
proof (induction sent arbitrary: received c rule: list.induct)
  case (Cons m sent)
  show ?case
  proof (cases received)
    case (Cons x xs)
    note received = this
    show ?thesis
    proof (cases "x = m \<and> subseq xs sent")
      case True
      have c: "bracket_end (cl_version (applyServerMessage c m)) sent = Some v"
        using Cons.prems(2) by (cases m) (auto simp: applyServerMessage_def split: if_splits)
      have "prefix (filter is_transition xs) (filter is_transition sent)"
        by (rule Cons.IH[OF _ c]) (use True Cons.prems received in auto)
      then show ?thesis using True received by simp
    next
      case False
      then have sub: "subseq received sent" using Cons.prems(1) received by (auto elim: list_emb.cases)
      show ?thesis
      proof (cases m)
        case (Transition s e mods)
        have h: "s = cl_version c" "bracket_end e sent = Some v" "version_less (cl_version c) e"
          using Cons.prems(2,3) Transition by (auto simp: forward_def version_less_def split: if_splits)
        have "filter is_transition received = []"
        proof (rule ccontr)
          assume "filter is_transition received \<noteq> []"
          then obtain ys s' e' m' zs where rec: "received = ys @ Transition s' e' m' # zs" "\<forall>y \<in> set ys. \<not> is_transition y"
            by (rule first_transition)
          have "cl_version (foldl applyServerMessage c ys) = cl_version c" by (rule no_transition_version[OF rec(2)])
          moreover have "Transition s' e' m' \<in> set sent" using sub rec(1) by (metis in_set_conv_decomp subseq_order.trans subseq_singleton_left)
          then have "version_less (cl_version c) s'"
            using starts_above[OF h(2)] Cons.prems(3) h(3) version_less_trans by (metis list.pred_inject(2))
          then have "s' \<noteq> cl_version c" using version_less_irrefl by metis
          ultimately have "cl_needsResync (applyServerMessage (foldl applyServerMessage c ys) (Transition s' e' m'))"
            by (simp add: applyServerMessage_def)
          then show False using Cons.prems(4) resync_sticky by (simp add: rec(1))
        qed
        then show ?thesis by simp
      qed (use Cons.IH[OF sub _ _ Cons.prems(4)] Cons.prems(2,3) in \<open>auto simp: is_transition_def\<close>)
    qed
  qed simp
qed (auto dest: list_emb_Nil2)

text \<open>Where every transition a session was sent moves its version forward, a client that received any
  subsequence of the frames and did not ask for a resync has received a prefix of the transitions: no
  transition in between is missing.\<close>

theorem missed_frame_detected:
  assumes "hd_step\<^sup>*\<^sup>* newHandler h" "map_of (hd_sessions h) sid = Some se" "list_all forward (se_sent se)"
    and "subseq received (se_sent se)" "\<not> cl_needsResync (foldl applyServerMessage createClientState received)"
  shows "prefix (filter is_transition received) (filter is_transition (se_sent se))"
proof -
  have "bracket_end (cl_version createClientState) (se_sent se) = Some (se_version se)"
    using handler_okD[OF handler_ok_reachable[OF assms(1)] assms(2)] by (simp add: session_ok_def createClientState_def)
  then show ?thesis by (rule received_prefix[OF assms(4) _ assms(3,5)])
qed

theorem missed_frame_detected_witness:
  "\<exists>h se. hd_step\<^sup>*\<^sup>* newHandler h \<and> map_of (hd_sessions h) [49] = Some se \<and> length (se_sent se) = 1 \<and>
     prefix (filter is_transition []) (filter is_transition (se_sent se))"
proof -
  let ?h1 = "hd_connect [49] newHandler" and ?se = "newSession [49]"
  let ?r = "doModifyQuerySet sample_env [] [] ?se ?h1"
  have m: "map_of (hd_sessions ?h1) [49] = Some ?se" by (simp add: hd_connect_def newHandler_def)
  have "hd_step newHandler ?h1" by (rule hd_step_connect) (simp add: newHandler_def)
  moreover have "hd_step ?h1 (fst ?r)" by (rule hd_step_modify[OF m])
  ultimately have reach: "hd_step\<^sup>*\<^sup>* newHandler (fst ?r)" by simp
  obtain se where se: "map_of (hd_sessions (fst ?r)) [49] = Some se" "length (se_sent se) = 1" "list_all forward (se_sent se)"
    using m by (simp add: doModifyQuerySet_def Let_def put_session_map newSession_def transition_def send_def INITIAL_VERSION_def
        forward_def compareStateVersion_def)
  show ?thesis using missed_frame_detected[OF reach se(1,3), of "[]"] reach se by (auto simp: createClientState_def)
qed

lemma sendSessionTransition_sent:
  assumes "map_of (hd_sessions h) (se_sessionId se) \<noteq> None"
  shows "map_of (hd_sessions (sendSessionTransition env wi subs se h)) (se_sessionId se) =
    Some (transition \<lparr>sv_querySet = sv_querySet (se_version se), sv_ts = (if si_global wi then sv_ts (se_version se) else si_commitTs wi)\<rparr>
      (snd (update_all env se wi subs h)) se)"
  using assms by (simp add: sendSessionTransition_def Let_def case_prod_beta put_session_map update_all_sessions)

text \<open>The transition of a global-table invalidation starts and ends at the same version, so a client
  that misses it accepts the next frame of the session without asking for a resync: the update is
  lost silently.\<close>

theorem global_frame_drop_silent:
  assumes "map_of (hd_sessions h) (se_sessionId se) \<noteq> None" "si_global wi"
    and "cl_version c = se_version se" "\<not> cl_needsResync c"
  shows "\<exists>mods. map_option se_sent (map_of (hd_sessions (sendSessionTransition env wi subs se h)) (se_sessionId se)) =
      Some (se_sent se @ [Transition (se_version se) (se_version se) mods]) \<and>
    \<not> cl_needsResync (applyServerMessage c (Transition (se_version se) endv later))"
  using sendSessionTransition_sent[OF assms(1), of env wi subs] assms
  by (simp add: transition_def send_def applyServerMessage_def)

definition sample_global :: sync_invalidation where
  "sample_global = \<lparr>si_tables = [js ''notes''], si_ranges = [], si_commitTs = 0, si_writtenDocs = None, si_global = True\<rparr>"

theorem global_frame_drop_silent_witness:
  "\<exists>mods. map_option se_sent (map_of (hd_sessions (sendSessionTransition sample_env sample_global [sample_sub] (newSession [49])
        (hd_connect [49] newHandler))) [49]) = Some [Transition INITIAL_VERSION INITIAL_VERSION mods]"
proof -
  have "map_of (hd_sessions (hd_connect [49] newHandler)) (se_sessionId (newSession [49])) \<noteq> None"
    by (simp add: hd_connect_def newHandler_def newSession_def)
  from global_frame_drop_silent[OF this, of sample_global createClientState sample_env "[sample_sub]" INITIAL_VERSION "[]"]
  show ?thesis by (simp add: sample_global_def createClientState_def newSession_def)
qed

section \<open>Frontiers\<close>

text \<open>The timestamp a session's client has been moved to.\<close>

definition ts_of :: "handler \<Rightarrow> jsstring \<Rightarrow> int option" where
  "ts_of h sid = map_option (\<lambda>se. sv_ts (se_version se)) (map_of (hd_sessions h) sid)"

lemma ts_of_put: "ts_of (put_session se h) sid =
    (if sid = se_sessionId se \<and> ts_of h sid \<noteq> None then Some (sv_ts (se_version se)) else ts_of h sid)"
  by (auto simp: ts_of_def put_session_map)

lemma ts_of_sessions: "hd_sessions h' = hd_sessions h \<Longrightarrow> ts_of h' = ts_of h"
  by (simp add: ts_of_def fun_eq_iff)

lemma ts_of_notify_session:
  assumes "handler_ok h"
  shows "ts_of (notify_session env wi e h) sid =
    (if sid = fst e \<and> \<not> si_global wi then map_option (\<lambda>_. si_commitTs wi) (ts_of h sid) else ts_of h sid)"
proof (cases "map_of (hd_sessions h) (fst e)")
  case None
  then have "ts_of h (fst e) = None" by (simp add: ts_of_def)
  then show ?thesis by (auto simp: notify_session_def None)
next
  case (Some se)
  have "ts_of (fst (update_all env se wi (snd e) h)) = ts_of h" by (rule ts_of_sessions[OF update_all_sessions])
  moreover have "ts_of h (fst e) = Some (sv_ts (se_version se))" by (simp add: ts_of_def Some)
  ultimately show ?thesis using handler_okD[OF assms Some]
    by (simp add: notify_session_def Some sendSessionTransition_def Let_def case_prod_beta ts_of_put)
qed

lemma ts_of_notify_others:
  assumes "handler_ok h"
  shows "ts_of (notify_others env wi d origin es h) sid =
    (if (\<exists>e \<in> set es. fst e = sid) \<and> \<not> (d \<and> Some sid = origin) \<and> \<not> si_global wi
     then map_option (\<lambda>_. si_commitTs wi) (ts_of h sid) else ts_of h sid)"
  using assms
proof (induction es arbitrary: h)
  case (Cons e es)
  let ?h = "if d \<and> Some (fst e) = origin then h else notify_session env wi e h"
  have ok: "handler_ok ?h" using Cons.prems by (simp add: handler_ok_notify_session)
  have "ts_of ?h sid = (if sid = fst e \<and> \<not> (d \<and> Some sid = origin) \<and> \<not> si_global wi
      then map_option (\<lambda>_. si_commitTs wi) (ts_of h sid) else ts_of h sid)"
    using ts_of_notify_session[OF Cons.prems, of env wi e sid] by auto
  then show ?case using Cons.IH[OF ok] by (auto simp: notify_others_def option.map_comp comp_def)
qed (simp add: notify_others_def)

lemma handler_ok_notify_others: "handler_ok h \<Longrightarrow> handler_ok (notify_others env wi d origin es h)"
  unfolding notify_others_def by (induction es arbitrary: h) (auto simp: handler_ok_notify_session)

lemma ts_of_notify_origin:
  assumes "handler_ok h"
  shows "ts_of (notify_origin env wi d origin bs h) sid =
    (if d \<and> origin = Some sid \<and> map_of bs sid \<noteq> None \<and> \<not> si_global wi
     then map_option (\<lambda>_. si_commitTs wi) (ts_of h sid) else ts_of h sid)"
  by (auto simp: notify_origin_def ts_of_notify_session[OF assms] split: option.splits)

lemma ts_of_pending [simp]: "ts_of (h\<lparr>hd_pendingFrontiers := x\<rparr>) = ts_of h"
  by (rule ts_of_sessions) simp

lemma ts_of_emit:
  assumes "handler_ok h" "map_of (hd_sessions h) k = Some se"
  shows "ts_of (put_session (emitEmptyFrontier t se) h) sid = (if sid = k then Some t else ts_of h sid)"
  using handler_okD[OF assms] assms(2) by (simp add: ts_of_put emitEmptyFrontier_def) (simp add: ts_of_def)

definition at_least :: "int option \<Rightarrow> int \<Rightarrow> bool" where
  "at_least o_ts t \<longleftrightarrow> (\<exists>t'. o_ts = Some t' \<and> t \<le> t')"

lemma sweep_frontier_steps:
  assumes "handler_ok h"
  shows "handler_ok (sweep_frontier d bs e h)" "at_least (ts_of h sid) t \<Longrightarrow> at_least (ts_of (sweep_frontier d bs e h) sid) t"
proof -
  obtain k f where e: "e = (k, f)" by fastforce
  have emit: "handler_ok (put_session (emitEmptyFrontier f se) h)"
    "at_least (ts_of h sid) t \<Longrightarrow> at_least (ts_of (put_session (emitEmptyFrontier f se) h) sid) t"
    if "map_of (hd_sessions h) k = Some se" "sv_ts (se_version se) < f" for se
    using that ts_of_emit[OF assms that(1)] handler_ok_frontier[OF assms that(1)] by (auto simp: at_least_def ts_of_def)
  show "handler_ok (sweep_frontier d bs e h)" "at_least (ts_of h sid) t \<Longrightarrow> at_least (ts_of (sweep_frontier d bs e h) sid) t"
    using assms emit by (auto simp: sweep_frontier_def e Let_def split: option.splits)
qed

lemma sweep_frontiers_at_least:
  "handler_ok h \<Longrightarrow> at_least (ts_of h sid) t \<Longrightarrow> at_least (ts_of (fold (sweep_frontier d bs) es h) sid) t"
  by (induction es arbitrary: h) (simp_all add: sweep_frontier_steps)

lemma group_subs_ok: "jsmap_ok (group_subs ex origin subs)"
proof -
  have "jsmap_ok (fold (\<lambda>sub m. if ex \<and> Some (sb_sessionId sub) = origin then m
     else AList.update (sb_sessionId sub) ((case map_of m (sb_sessionId sub) of None \<Rightarrow> [] | Some l \<Rightarrow> l) @ [sub]) m) subs m)"
    if "jsmap_ok m" for m using that by (induction subs arbitrary: m) auto
  then show ?thesis by (simp add: group_subs_def)
qed

lemma advance_origin_reaches:
  assumes "handler_ok h" "sid \<noteq> []" "ts_of h sid \<noteq> None" "map_of bs sid \<noteq> None \<Longrightarrow> at_least (ts_of h sid) t"
  shows "handler_ok (advanceOriginFrontier (Some sid) bs t h) \<and> at_least (ts_of (advanceOriginFrontier (Some sid) bs t h) sid) t"
proof (cases "map_of bs sid = None")
  case False
  then show ?thesis using assms by (simp add: advanceOriginFrontier_def)
next
  case True
  obtain se where se: "map_of (hd_sessions h) sid = Some se" using assms(3) by (auto simp: ts_of_def)
  have "handler_ok (put_session (emitEmptyFrontier f se) h)" for f by (rule handler_ok_frontier[OF assms(1) se])
  then show ?thesis
    using assms(1,2) ts_of_emit[OF assms(1) se, of t sid] True se by (auto simp: advanceOriginFrontier_def Let_def at_least_def ts_of_def)
qed

text \<open>C14. A global-table invalidation moves no session's timestamp.  After a local commit's notification
  the session it came from, if it is still connected, is at or past the commit's timestamp, whatever
  it subscribes to.\<close>

theorem notify_frontier:
  assumes "hd_step\<^sup>*\<^sup>* newHandler h" "doNotifyWrites env ex wi origin h = Inr h'"
  shows "(if si_global wi then ts_of h' = ts_of h
    else \<forall>sid. origin = Some sid \<and> sid \<noteq> [] \<and> map_of (hd_sessions h) sid \<noteq> None \<longrightarrow> at_least (ts_of h' sid) (si_commitTs wi))"
proof -
  obtain h1 bs where b: "notify_begin env ex wi origin h = Inr (h1, bs)" and
    h': "h' = notify_frontiers wi origin bs (notify_origin env wi (origin_diff_capable origin bs h1) origin bs
           (notify_others env wi (origin_diff_capable origin bs h1) origin bs h1))"
    using assms(2) by (auto simp: doNotifyWrites_def Let_def res_bind_Inr_iff)
  define d where "d = origin_diff_capable origin bs h1"
  define h2 where "h2 = notify_others env wi d origin bs h1"
  define h3 where "h3 = notify_origin env wi d origin bs h2"
  have s1: "hd_sessions h1 = hd_sessions h" and bs: "jsmap_ok bs"
    using b group_subs_ok by (auto simp: notify_begin_def res_bind_Inr_iff)
  have ok1: "handler_ok h1" using handler_ok_reachable[OF assms(1)] handler_ok_sessions[OF s1] by blast
  have ok2: "handler_ok h2" unfolding h2_def by (rule handler_ok_notify_others[OF ok1])
  have ok3: "handler_ok h3" using ok2 by (auto simp: h3_def notify_origin_def handler_ok_notify_session split: option.splits)
  note t2 = ts_of_notify_others[OF ok1, of env wi d origin bs, folded h2_def]
  note t3 = ts_of_notify_origin[OF ok2, of env wi d origin bs, folded h3_def]
  have t1: "ts_of h1 = ts_of h" by (rule ts_of_sessions[OF s1])
  show ?thesis
  proof (cases "si_global wi")
    case True
    then have "ts_of h' = ts_of h" using t1 t2 t3 by (simp add: h' d_def[symmetric] h2_def[symmetric] h3_def[symmetric] notify_frontiers_def fun_eq_iff)
    then show ?thesis using True by simp
  next
    case local: False
    have "at_least (ts_of h' sid) (si_commitTs wi)" if o: "origin = Some sid" "sid \<noteq> []" "map_of (hd_sessions h) sid \<noteq> None" for sid
    proof -
      let ?h4 = "advanceOriginFrontier origin bs (si_commitTs wi) h3"
      have "ts_of h sid \<noteq> None" using o(3) by (auto simp: ts_of_def)
      moreover have "\<exists>e \<in> set bs. fst e = sid" if "map_of bs sid \<noteq> None" using that by (metis map_of_eq_None_iff image_iff)
      ultimately have "handler_ok ?h4 \<and> at_least (ts_of ?h4 sid) (si_commitTs wi)"
        unfolding o(1) using t3[of sid] t2[of sid] t1 local o(1)
        by (intro advance_origin_reaches[OF ok3 o(2)]) (auto simp: at_least_def split: if_splits)
      then show ?thesis
        using sweep_frontiers_at_least[of ?h4 sid "si_commitTs wi" "si_commitTs wi" bs] local
        by (simp add: h' d_def[symmetric] h2_def[symmetric] h3_def[symmetric] notify_frontiers_def sweepPendingFrontiers_def)
    qed
    then show ?thesis using local by simp
  qed
qed

theorem notify_frontier_witness:
  "\<exists>h'. doNotifyWrites sample_env False (sample_global\<lparr>si_global := False, si_commitTs := 7\<rparr>) (Some [49]) (hd_connect [49] newHandler) = Inr h' \<and>
     at_least (ts_of h' [49]) 7"
proof -
  let ?h = "hd_connect [49] newHandler" and ?wi = "sample_global\<lparr>si_global := False, si_commitTs := 7\<rparr>"
  obtain h' where r: "doNotifyWrites sample_env False ?wi (Some [49]) ?h = Inr h'"
    by (simp add: doNotifyWrites_def notify_begin_def sample_global_def advanceOnCommit_def rx_match_def findAffectedByRanges_def Let_def
        case_prod_beta)
  have "hd_step newHandler ?h" by (rule hd_step_connect) (simp add: newHandler_def)
  then have "hd_step\<^sup>*\<^sup>* newHandler ?h" by simp
  from notify_frontier[OF this r] show ?thesis using r by (auto simp: sample_global_def hd_connect_def)
qed

section \<open>Reconnecting\<close>

definition ranges_decode :: "serialized_key_range list \<Rightarrow> bool" where
  "ranges_decode rs = (case res_map deserializeKeyRange rs of Inl _ \<Rightarrow> False | Inr _ \<Rightarrow> True)"

lemma rx_index_error: "snd (rx_index key rs tables ix) = None \<longleftrightarrow> ranges_decode rs"
  by (cases "res_map deserializeKeyRange rs") (auto simp: rx_index_def ranges_decode_def Let_def)

lemma add_subscription_error: "snd (add_subscription sub h) = None \<longleftrightarrow> ranges_decode (sb_readRanges sub)"
  unfolding rx_index_error[symmetric, of _ "subKey (sb_sessionId sub) (sb_queryId sub)" "sb_tables sub"
      "sm_index (sm_removeKey (subKey (sb_sessionId sub) (sb_queryId sub)) (hd_subscriptions h))"]
  by (simp add: add_subscription_def sm_add_def Let_def case_prod_beta split: option.splits)

lemma add_subscription_registry: "hd_resumeRegistry (fst (add_subscription sub h)) = hd_resumeRegistry h"
  by (simp add: add_subscription_def case_prod_beta)

text \<open>The entry a fresh subscription leaves where there was none.\<close>

lemma upsert_resume_new:
  assumes "rg_lookup key (hd_resumeRegistry h) = None"
  shows "rg_lookup key (hd_resumeRegistry (retain_resume key (fst (upsert_resume key r ts byId h)))) =
      Some \<lparr>lk_readRanges = qr_readRanges r, lk_tables = qr_tables r, lk_globalTables = qr_globalTables r, lk_lastInvalidatedTs = ts,
            lk_wasDiffable = (fresh_range r \<noteq> None \<or> byId \<noteq> None)\<rparr>"
  using assms by (simp add: rg_lookup_def retain_resume_def rg_retain_def upsert_resume_def rg_upsert_def rg_unindex_def Let_def case_prod_beta)

lemma answer_query_registry: "hd_resumeRegistry (fst (answer_query env se q r byId h)) = hd_resumeRegistry h"
  by (auto simp: answer_query_def Let_def set_row_map_def case_prod_beta split: option.splits sum.splits bool.splits)

lemma can_skip_answer:
  assumes "rq_sinceTs q = Some sinceTs"
    and "rg_lookup (regKey (se_identity se) (rq_udfPath q) (en_stringify env (rq_args q))) (hd_resumeRegistry h) = Some e"
    and "can_skip (Some e) sinceTs" "ranges_decode (lk_readRanges e)"
  shows "snd (subscribe_one env se q h) = QueryUnchanged (rq_queryId q)"
proof -
  let ?sub = "skipped_subscription se q e (regKey (se_identity se) (rq_udfPath q) (en_stringify env (rq_args q)))"
  have "snd (add_subscription ?sub h) = None" using assms(4) by (simp add: add_subscription_error skipped_subscription_def)
  then show ?thesis using assms(1-3) by (simp add: subscribe_one_def Let_def case_prod_beta split: prod.splits)
qed

text \<open>C36. Whoever subscribes first registers the query as current through its own session's timestamp, which
  is zero on a new session.  Another client of the same query whose cached result differs from
  the one just computed is then told on resubscribing that its result is unchanged, because the
  timestamp it resumes from is not below that zero.\<close>

theorem resume_keeps_stale_result:
  assumes "rg_lookup (regKey (se_identity b) (rq_udfPath qb) (en_stringify env (rq_args qb))) (hd_resumeRegistry h) = None"
    and "execSub env b (rq_udfPath qb) (rq_args qb) = Inr r" "qr_globalTables r = []" "qr_diffableRange r = None" "qr_diffablePage r = None"
    and "classifyByIdRead (qr_value r) (qr_readRanges r) = Inr None"
    and "subscribe_one env b qb h = (h1, QueryUpdated i value (Some hash))"
    and "se_identity a = se_identity b" "rq_udfPath qa = rq_udfPath qb" "rq_args qa = rq_args qb"
    and "rq_sinceTs qa = Some sinceTs" "sv_ts (se_version b) \<le> sinceTs" "rq_resultHash qa \<noteq> Some hash"
  shows "snd (subscribe_one env a qa h1) = QueryUnchanged (rq_queryId qa)"
proof -
  define key where "key = regKey (se_identity b) (rq_udfPath qb) (en_stringify env (rq_args qb))"
  define sub where "sub = new_subscription b qb r None key"
  obtain h2 e2 where add: "add_subscription sub h = (h2, e2)" by fastforce
  obtain h3 e3 where up: "upsert_resume key r (sv_ts (se_version b)) None h2 = (h3, e3)" by fastforce
  have fresh: "subscribe_one env b qb h = (let (h', res) = fresh_subscribe env b qb h
      in (h', case res of Inl e \<Rightarrow> QueryFailed (rq_queryId qb) e | Inr m \<Rightarrow> m))"
    using assms(1) by (simp add: subscribe_one_def Let_def split: option.splits)
  then have e: "e2 = None" "e3 = None" and h1: "h1 = fst (answer_query env b qb r None (retain_resume key h3))"
    using assms(2,6,7) by (auto simp: fresh_subscribe_def key_def[symmetric] sub_def[symmetric] add up split: prod.splits sum.splits option.splits)
  have dec: "ranges_decode (qr_readRanges r)"
    using add e(1) add_subscription_error[of sub h] by (simp add: sub_def new_subscription_def)
  have none: "rg_lookup key (hd_resumeRegistry h2) = None"
    using assms(1) add_subscription_registry[of sub h] by (simp add: add key_def)
  have "rg_lookup key (hd_resumeRegistry h1) = Some \<lparr>lk_readRanges = qr_readRanges r, lk_tables = qr_tables r,
      lk_globalTables = qr_globalTables r, lk_lastInvalidatedTs = sv_ts (se_version b), lk_wasDiffable = False\<rparr>"
    using upsert_resume_new[OF none, of r "sv_ts (se_version b)" None] assms(4,5) by (simp add: h1 answer_query_registry up fresh_range_def)
  then show ?thesis
    using assms(3,8-12) dec by (intro can_skip_answer[of qa sinceTs]) (auto simp: can_skip_def key_def)
qed

text \<open>A query whose result changed from true to false at timestamp 7: the client that saw true at 5 keeps it.\<close>

definition sample_env_after :: handler_env where
  "sample_env_after = sample_env\<lparr>en_runQuery := (\<lambda>_ _ _. Inr \<lparr>qr_value = VBool False, qr_tables = [js ''notes''], qr_readRanges = [],
     qr_globalTables = [], qr_diffableRange = None, qr_diffablePage = None\<rparr>),
     en_hashValue := (\<lambda>j. if j = JBool True then [49] else [48])\<rparr>"

definition sample_query :: query_request where
  "sample_query = \<lparr>rq_queryId = 0, rq_udfPath = [49], rq_args = JNull, rq_resultHash = None, rq_sinceTs = None\<rparr>"

theorem resume_keeps_stale_result_witness:
  "snd (subscribe_one sample_env_after (newSession [50]) sample_query (hd_connect [50] (hd_connect [49] newHandler))) =
     QueryUpdated 0 (JBool False) (Some [48]) \<and>
   snd (subscribe_one sample_env_after (newSession [49]) (sample_query\<lparr>rq_resultHash := Some [49], rq_sinceTs := Some 5\<rparr>)
     (fst (subscribe_one sample_env_after (newSession [50]) sample_query (hd_connect [50] (hd_connect [49] newHandler))))) = QueryUnchanged 0"
proof -
  let ?h = "hd_connect [50] (hd_connect [49] newHandler)" and ?b = "newSession [50]"
  have unchanged: "hd_resumeRegistry ?h = newResumeRegistry" by (simp add: hd_connect_def newHandler_def)
  obtain h1 m where r: "subscribe_one sample_env_after ?b sample_query ?h = (h1, m)" by fastforce
  have "snd (subscribe_one sample_env_after ?b sample_query ?h) = QueryUpdated 0 (JBool False) (Some [48])"
    by code_simp
  then have m: "m = QueryUpdated 0 (JBool False) (Some [48])" by (simp add: r)
  have "snd (subscribe_one sample_env_after (newSession [49]) (sample_query\<lparr>rq_resultHash := Some [49], rq_sinceTs := Some 5\<rparr>) h1) = QueryUnchanged 0"
    by (rule resume_keeps_stale_result[OF _ _ _ _ _ _ r[unfolded m],
          where r = "\<lparr>qr_value = VBool False, qr_tables = [js ''notes''], qr_readRanges = [], qr_globalTables = [],
            qr_diffableRange = None, qr_diffablePage = None\<rparr>" and sinceTs = 5, THEN trans])
       (simp_all add: unchanged rg_lookup_def newResumeRegistry_def sample_query_def sample_env_after_def execSub_def newSession_def
          js_def classifyByIdRead_def INITIAL_VERSION_def starts_with_def)
  then show ?thesis by (simp add: r m)
qed

end
