(* ===== verification/Flow_Control.thy ===== *)
theory Flow_Control
  imports Sync_Props
begin

text \<open>
  \<^verbatim>\<open>packages/sync/src/session-controllers.ts\<close>: the outbound queue of one session, which drops
  what a slow client cannot take, and the heartbeat that reaps a connection nobody answers on.  The
  socket is the caller's: \<open>so_buffered\<close> and \<open>so_send\<close> are its \<^verbatim>\<open>bufferedAmount\<close> and \<^verbatim>\<open>send\<close>
  on a state \<^typ>\<open>'s\<close> that may change in any way between two calls.  The clock is read once per call.
  \<open>bp_out\<close> is the history of the frames given to \<^verbatim>\<open>socket.send\<close> and \<open>bp_terminations\<close> counts
  the calls of \<^verbatim>\<open>onOverflow\<close>.
\<close>

section \<open>The outbound queue\<close>

definition DEFAULT_HIGH_WATER :: int where
  "DEFAULT_HIGH_WATER = 1024 * 1024"

definition DEFAULT_MAX_QUEUED :: int where
  "DEFAULT_MAX_QUEUED = 200"

definition DEFAULT_SLOW_CLIENT_MS :: int where
  "DEFAULT_SLOW_CLIENT_MS = 30000"

record backpressure_options =
  bo_highWaterBytes :: "int option"
  bo_maxQueuedFrames :: "int option"
  bo_slowClientTimeoutMs :: "int option"
  bo_maxUndroppableQueuedFrames :: "int option"

record backpressure_limits =
  bl_highWaterBytes :: int
  bl_maxQueuedFrames :: int
  bl_slowClientTimeoutMs :: int
  bl_maxUndroppableQueuedFrames :: int

definition backpressureLimits :: "backpressure_options \<Rightarrow> backpressure_limits" where
  "backpressureLimits opts =
     (let maxQueued = or_default (bo_maxQueuedFrames opts) DEFAULT_MAX_QUEUED
      in \<lparr>bl_highWaterBytes = or_default (bo_highWaterBytes opts) DEFAULT_HIGH_WATER, bl_maxQueuedFrames = maxQueued,
          bl_slowClientTimeoutMs = or_default (bo_slowClientTimeoutMs opts) DEFAULT_SLOW_CLIENT_MS,
          bl_maxUndroppableQueuedFrames = or_default (bo_maxUndroppableQueuedFrames opts) maxQueued\<rparr>)"

record 'f queued_frame =
  qf_data :: 'f
  qf_undroppable :: bool

record ('f, 's) sync_socket =
  so_buffered :: "'s \<Rightarrow> int"
  so_send :: "'f \<Rightarrow> 's \<Rightarrow> 's"

record 'f backpressure =
  bp_queue :: "'f queued_frame list"
  bp_droppedFrames :: int
  bp_undroppableQueuedCount :: int
  bp_overflowed :: bool
  bp_backpressureSince :: "int option"
  bp_droppedThisEpisode :: bool
  bp_terminations :: nat
  bp_out :: "'f queued_frame list"

definition newBackpressure :: "'f backpressure" where
  "newBackpressure = \<lparr>bp_queue = [], bp_droppedFrames = 0, bp_undroppableQueuedCount = 0, bp_overflowed = False,
     bp_backpressureSince = None, bp_droppedThisEpisode = False, bp_terminations = 0, bp_out = []\<rparr>"

definition markEpisodeDropped :: "'f backpressure \<Rightarrow> 'f backpressure" where
  "markEpisodeDropped c = c\<lparr>bp_droppedThisEpisode := True\<rparr>"

definition countDrop :: "'f backpressure \<Rightarrow> 'f backpressure" where
  "countDrop c = markEpisodeDropped (c\<lparr>bp_droppedFrames := bp_droppedFrames c + 1\<rparr>)"

definition dropQueue :: "'f backpressure \<Rightarrow> 'f backpressure" where
  "dropQueue c =
     (let survivors = filter qf_undroppable (bp_queue c);
          droppedCount = int (length (bp_queue c)) - int (length survivors)
      in if droppedCount = 0 then c
         else markEpisodeDropped (c\<lparr>bp_droppedFrames := bp_droppedFrames c + droppedCount, bp_queue := survivors\<rparr>))"

definition overflow :: "'f backpressure \<Rightarrow> 'f backpressure" where
  "overflow c = (if bp_overflowed c then c else c\<lparr>bp_overflowed := True, bp_terminations := bp_terminations c + 1\<rparr>)"

text \<open>What the delivery loop sends, what it leaves, and the socket after it.\<close>

fun drain_frames ::
  "('f, 's) sync_socket \<Rightarrow> int \<Rightarrow> 'f queued_frame list \<Rightarrow> 's \<Rightarrow> 'f queued_frame list \<times> 'f queued_frame list \<times> 's" where
  "drain_frames so highWater [] s = ([], [], s)"
| "drain_frames so highWater (f # fs) s =
     (if so_buffered so s < highWater
      then (let (out, rest, s') = drain_frames so highWater fs (so_send so (qf_data f) s) in (f # out, rest, s'))
      else ([], f # fs, s))"

definition since :: "int \<Rightarrow> 'f backpressure \<Rightarrow> int" where
  "since now c = (case bp_backpressureSince c of None \<Rightarrow> now | Some t \<Rightarrow> t)"

definition bp_flush ::
  "('f, 's) sync_socket \<Rightarrow> backpressure_limits \<Rightarrow> int \<Rightarrow> 'f backpressure \<times> 's \<Rightarrow> 'f backpressure \<times> 's" where
  "bp_flush so lim now = (\<lambda>(c, s).
     (let (out, rest, s') = drain_frames so (bl_highWaterBytes lim) (bp_queue c) s;
          c1 = c\<lparr>bp_queue := rest, bp_out := bp_out c @ out,
                 bp_undroppableQueuedCount := bp_undroppableQueuedCount c - int (length (filter qf_undroppable out))\<rparr>
      in if rest = [] \<and> so_buffered so s' < bl_highWaterBytes lim
         then (c1\<lparr>bp_backpressureSince := None, bp_droppedThisEpisode := False\<rparr>, s')
         else (let c2 = c1\<lparr>bp_backpressureSince := Some (since now c1)\<rparr>
               in (if rest \<noteq> [] \<and> now - since now c1 \<ge> bl_slowClientTimeoutMs lim then dropQueue c2 else c2, s'))))"

definition bp_push :: "'f queued_frame \<Rightarrow> 'f backpressure \<Rightarrow> 'f backpressure" where
  "bp_push f c = c\<lparr>bp_queue := bp_queue c @ [f]\<rparr>"

definition bp_send ::
  "('f, 's) sync_socket \<Rightarrow> backpressure_limits \<Rightarrow> int \<Rightarrow> 'f queued_frame \<Rightarrow> 'f backpressure \<times> 's \<Rightarrow> 'f backpressure \<times> 's" where
  "bp_send so lim now f cs =
     (let (c, s) = bp_flush so lim now cs
      in if bp_queue c = [] \<and> so_buffered so s < bl_highWaterBytes lim
         then (c\<lparr>bp_out := bp_out c @ [f]\<rparr>, so_send so (qf_data f) s)
         else if qf_undroppable f
         then (if bp_undroppableQueuedCount c \<ge> bl_maxUndroppableQueuedFrames lim then (overflow c, s)
               else ((bp_push f c)\<lparr>bp_undroppableQueuedCount := bp_undroppableQueuedCount c + 1\<rparr>, s))
         else (let c1 = c\<lparr>bp_backpressureSince := Some (since now c)\<rparr>
               in if now - since now c \<ge> bl_slowClientTimeoutMs lim then (countDrop (dropQueue c1), s)
                  else if int (length (bp_queue c)) \<ge> bl_maxQueuedFrames lim then (countDrop c1, s)
                  else (bp_push f c1, s)))"

section \<open>Histories of a session's queue\<close>

datatype ('f, 's) bp_event = Handed int "'f queued_frame" | Swept int | SocketMoved 's

fun bp_run :: "('f, 's) sync_socket \<Rightarrow> backpressure_limits \<Rightarrow> ('f, 's) bp_event \<Rightarrow> 'f backpressure \<times> 's \<Rightarrow> 'f backpressure \<times> 's" where
  "bp_run so lim (Handed now f) cs = bp_send so lim now f cs"
| "bp_run so lim (Swept now) cs = bp_flush so lim now cs"
| "bp_run so lim (SocketMoved s) cs = (fst cs, s)"

fun handed :: "('f, 's) bp_event list \<Rightarrow> 'f queued_frame list" where
  "handed [] = []"
| "handed (Handed now f # es) = f # handed es"
| "handed (_ # es) = handed es"

text \<open>The controller against the frames it was handed: order, responses and counts.\<close>


definition bp_kept :: "'f backpressure \<Rightarrow> 'f queued_frame list" where
  "bp_kept c = bp_out c @ bp_queue c"

definition bp_account :: "'f queued_frame list \<Rightarrow> 'f backpressure \<Rightarrow> bool" where
  "bp_account fs c \<longleftrightarrow> subseq (bp_kept c) fs \<and>
     (\<not> bp_overflowed c \<longrightarrow> filter qf_undroppable (bp_kept c) = filter qf_undroppable fs \<and>
        bp_droppedFrames c + int (length (bp_kept c)) = int (length fs)) \<and>
     bp_terminations c = (if bp_overflowed c then 1 else 0)"

definition bp_bounded :: "backpressure_limits \<Rightarrow> 'f backpressure \<Rightarrow> bool" where
  "bp_bounded lim c \<longleftrightarrow>
     bp_undroppableQueuedCount c = int (length (filter qf_undroppable (bp_queue c))) \<and>
     bp_undroppableQueuedCount c \<le> max 0 (bl_maxUndroppableQueuedFrames lim) \<and>
     int (length (filter (\<lambda>f. \<not> qf_undroppable f) (bp_queue c))) \<le> max 0 (bl_maxQueuedFrames lim)"

lemma drain_frames_append: "drain_frames so hw q s = (out, rest, s') \<Longrightarrow> q = out @ rest"
  by (induction so hw q s arbitrary: out rest s' rule: drain_frames.induct) (auto split: if_splits prod.splits)

lemma drain_frames_low: "\<forall>s. so_buffered so s < hw \<Longrightarrow> fst (snd (drain_frames so hw q s)) = []"
  by (induction so hw q s rule: drain_frames.induct) (auto simp: case_prod_beta)

lemma bp_simps [simp]:
  "bp_kept (markEpisodeDropped c) = bp_kept c" "bp_kept (countDrop c) = bp_kept c" "bp_kept (overflow c) = bp_kept c"
  "bp_kept (bp_push f c) = bp_kept c @ [f]" "bp_kept (c\<lparr>bp_backpressureSince := x\<rparr>) = bp_kept c"
  "bp_kept (c\<lparr>bp_droppedThisEpisode := e\<rparr>) = bp_kept c" "bp_kept (c\<lparr>bp_undroppableQueuedCount := n\<rparr>) = bp_kept c"
  by (simp_all add: bp_kept_def markEpisodeDropped_def countDrop_def overflow_def bp_push_def)

lemma bp_account_fields [simp]:
  "bp_account fs (c\<lparr>bp_backpressureSince := x\<rparr>) = bp_account fs c" "bp_account fs (c\<lparr>bp_droppedThisEpisode := e\<rparr>) = bp_account fs c"
  "bp_account fs (c\<lparr>bp_undroppableQueuedCount := n\<rparr>) = bp_account fs c"
  by (simp_all add: bp_account_def)

lemma bp_bounded_fields [simp]:
  "bp_bounded lim (c\<lparr>bp_backpressureSince := x\<rparr>) = bp_bounded lim c" "bp_bounded lim (c\<lparr>bp_droppedThisEpisode := e\<rparr>) = bp_bounded lim c"
  "bp_bounded lim (countDrop c) = bp_bounded lim c" "bp_bounded lim (overflow c) = bp_bounded lim c"
  by (simp_all add: bp_bounded_def countDrop_def markEpisodeDropped_def overflow_def)

lemma subseq_filter_kept: "subseq (xs @ ys) fs \<Longrightarrow> subseq (xs @ filter P ys) fs"
  by (rule subseq_order.trans[of _ "xs @ ys"]) (simp_all add: list_emb_append_mono)

lemma bp_account_dropQueue: "bp_account fs c \<Longrightarrow> bp_account fs (dropQueue c)"
  unfolding bp_account_def bp_kept_def dropQueue_def markEpisodeDropped_def Let_def
  by (auto simp: subseq_filter_kept)

lemma bp_bounded_dropQueue: "bp_bounded lim c \<Longrightarrow> bp_bounded lim (dropQueue c)"
  unfolding bp_bounded_def dropQueue_def markEpisodeDropped_def Let_def by auto

text \<open>A sweep keeps both.\<close>

lemma bp_flush_steps:
  assumes "bp_account fs c" "bp_bounded lim c"
  shows "bp_account fs (fst (bp_flush so lim now (c, s))) \<and> bp_bounded lim (fst (bp_flush so lim now (c, s)))"
proof -
  obtain out rest s' where d: "drain_frames so (bl_highWaterBytes lim) (bp_queue c) s = (out, rest, s')" by (metis prod_cases3)
  note q = drain_frames_append[OF d]
  define c1 where "c1 = c\<lparr>bp_queue := rest, bp_out := bp_out c @ out,
    bp_undroppableQueuedCount := bp_undroppableQueuedCount c - int (length (filter qf_undroppable out))\<rparr>"
  have a: "bp_account fs c1" using assms(1) q by (simp add: bp_account_def bp_kept_def c1_def)
  have b: "bp_bounded lim c1" using assms(2) q by (simp add: bp_bounded_def c1_def)
  let ?c2 = "c1\<lparr>bp_backpressureSince := Some (since now c1)\<rparr>"
  have "fst (bp_flush so lim now (c, s)) = (if rest = [] \<and> so_buffered so s' < bl_highWaterBytes lim
      then c1\<lparr>bp_backpressureSince := None, bp_droppedThisEpisode := False\<rparr>
      else if rest \<noteq> [] \<and> now - since now c1 \<ge> bl_slowClientTimeoutMs lim then dropQueue ?c2 else ?c2)"
    by (simp add: bp_flush_def d c1_def Let_def)
  then show ?thesis using a b bp_account_dropQueue[of fs ?c2] bp_bounded_dropQueue[of lim ?c2] by simp
qed

lemma bp_account_append:
  assumes "bp_account fs c"
  shows "bp_queue c = [] \<Longrightarrow> bp_account (fs @ [f]) (c\<lparr>bp_out := bp_out c @ [f]\<rparr>)"
    and "bp_account (fs @ [f]) (bp_push f c)"
    and "\<not> qf_undroppable f \<Longrightarrow> bp_account (fs @ [f]) (countDrop c)"
    and "bp_account (fs @ [f]) (overflow c)"
  using assms
  by (auto simp: bp_account_def bp_kept_def bp_push_def countDrop_def markEpisodeDropped_def overflow_def
      simp flip: append_assoc intro: list_emb_append2 list_emb_append_mono)

lemma bp_bounded_push:
  assumes "bp_bounded lim c"
  shows "qf_undroppable f \<Longrightarrow> bp_undroppableQueuedCount c < bl_maxUndroppableQueuedFrames lim \<Longrightarrow>
      bp_bounded lim ((bp_push f c)\<lparr>bp_undroppableQueuedCount := bp_undroppableQueuedCount c + 1\<rparr>)"
    and "\<not> qf_undroppable f \<Longrightarrow> int (length (bp_queue c)) < bl_maxQueuedFrames lim \<Longrightarrow> bp_bounded lim (bp_push f c)"
  using assms sum_length_filter_compl[of qf_undroppable "bp_queue c"] by (auto simp: bp_bounded_def bp_push_def)

text \<open>So does a frame handed over.\<close>

lemma bp_send_steps:
  assumes "bp_account fs c" "bp_bounded lim c"
  shows "bp_account (fs @ [f]) (fst (bp_send so lim now f (c, s))) \<and> bp_bounded lim (fst (bp_send so lim now f (c, s)))"
proof -
  obtain c1 s1 where f: "bp_flush so lim now (c, s) = (c1, s1)" by fastforce
  have ab: "bp_account fs c1" "bp_bounded lim c1" using bp_flush_steps[OF assms, of so now s] by (simp_all add: f)
  let ?c2 = "c1\<lparr>bp_backpressureSince := Some (since now c1)\<rparr>"
  have ab2: "bp_account fs ?c2" "bp_bounded lim ?c2" using ab by simp_all
  have "bp_bounded lim (c1\<lparr>bp_out := bp_out c1 @ [f]\<rparr>)" using ab(2) by (simp add: bp_bounded_def)
  then show ?thesis
    using bp_account_append[OF ab(1), of f] bp_account_append[OF ab2(1), of f] bp_account_append(3)[OF bp_account_dropQueue[OF ab2(1)], of f]
      ab(2) bp_bounded_push[OF ab(2), of f] bp_bounded_push[OF ab2(2), of f] bp_bounded_dropQueue[OF ab2(2)]
    by (simp add: bp_send_def f Let_def)
qed

lemma handed_append: "handed (es @ es') = handed es @ handed es'"
  by (induction es rule: handed.induct) simp_all

lemma bp_history:
  "bp_account (handed es) (fst (fold (bp_run so lim) es (newBackpressure, s))) \<and>
   bp_bounded lim (fst (fold (bp_run so lim) es (newBackpressure, s)))"
proof (induction es rule: rev_induct)
  case Nil
  show ?case by (simp add: bp_account_def bp_bounded_def newBackpressure_def bp_kept_def)
next
  case (snoc e es)
  obtain c s1 where c: "fold (bp_run so lim) es (newBackpressure, s) = (c, s1)" by fastforce
  have ab: "bp_account (handed es) c" "bp_bounded lim c" using snoc by (simp_all add: c)
  show ?case using ab bp_flush_steps[OF ab] bp_send_steps[OF ab] by (cases e) (simp_all add: handed_append c)
qed

text \<open>C35. Whatever the socket and the clock do, what leaves a session and what it still queues is, in order,
  some of the frames it was handed; unless it was terminated (once) for too many queued responses,
  every response is among them and every missing frame was counted as dropped.  The queue never
  outgrows the two caps.\<close>

theorem backpressure_queue_sound:
  "\<exists>c. c = fst (fold (bp_run so lim) es (newBackpressure, s)) \<and> subseq (bp_out c @ bp_queue c) (handed es) \<and>
    (bp_overflowed c \<or> (filter qf_undroppable (bp_out c @ bp_queue c) = filter qf_undroppable (handed es) \<and>
       bp_droppedFrames c + int (length (bp_out c @ bp_queue c)) = int (length (handed es)))) \<and>
    bp_terminations c = (if bp_overflowed c then 1 else 0) \<and>
    int (length (bp_queue c)) \<le> max 0 (bl_maxQueuedFrames lim) + max 0 (bl_maxUndroppableQueuedFrames lim)"
proof -
  let ?c = "fst (fold (bp_run so lim) es (newBackpressure, s))"
  have "bp_account (handed es) ?c" "bp_bounded lim ?c" using bp_history[of es so lim s] by blast+
  then show ?thesis using sum_length_filter_compl[of qf_undroppable "bp_queue ?c"]
    by (auto simp: bp_account_def bp_kept_def bp_bounded_def)
qed

text \<open>The caps are not kept apart: when as many responses are queued as the cap on droppable frames, a
  droppable frame is dropped although none is queued.\<close>

theorem responses_squeeze_out_transitions:
  assumes "\<not> so_buffered so s < bl_highWaterBytes lim" "\<not> qf_undroppable f"
    and "bp_queue c \<noteq> []" "list_all qf_undroppable (bp_queue c)" "int (length (bp_queue c)) = bl_maxQueuedFrames lim"
  shows "bp_queue (fst (bp_send so lim now f (c, s))) = bp_queue c \<and> bp_out (fst (bp_send so lim now f (c, s))) = bp_out c \<and>
    bp_droppedFrames (fst (bp_send so lim now f (c, s))) = bp_droppedFrames c + 1"
proof -
  have d: "drain_frames so (bl_highWaterBytes lim) (bp_queue c) s = ([], bp_queue c, s)" using assms(1) by (cases "bp_queue c") simp_all
  have q: "filter qf_undroppable (bp_queue c) = bp_queue c" using assms(4) by (simp add: list_all_iff)
  have drop: "dropQueue c' = c'" if "bp_queue c' = bp_queue c" for c' :: "'a backpressure" using that q by (simp add: dropQueue_def Let_def)
  show ?thesis using assms by (simp add: bp_send_def bp_flush_def d drop Let_def countDrop_def markEpisodeDropped_def)
qed

definition busy_socket :: "('f, unit) sync_socket" where
  "busy_socket = \<lparr>so_buffered = (\<lambda>_. 100), so_send = (\<lambda>_ s. s)\<rparr>"

definition small_limits :: backpressure_limits where
  "small_limits = backpressureLimits \<lparr>bo_highWaterBytes = Some 10, bo_maxQueuedFrames = Some 1, bo_slowClientTimeoutMs = None,
     bo_maxUndroppableQueuedFrames = None\<rparr>"

theorem responses_squeeze_out_transitions_witness:
  "bp_droppedFrames (fst (bp_send busy_socket small_limits 0 \<lparr>qf_data = (2 :: nat), qf_undroppable = False\<rparr>
     (bp_send busy_socket small_limits 0 \<lparr>qf_data = 1, qf_undroppable = True\<rparr> (newBackpressure, ())))) = 1"
proof -
  obtain c s where c: "bp_send busy_socket small_limits 0 \<lparr>qf_data = (1 :: nat), qf_undroppable = True\<rparr> (newBackpressure, ()) = (c, s)"
    "bp_queue c = [\<lparr>qf_data = 1, qf_undroppable = True\<rparr>]" "bp_droppedFrames c = 0"
    by (simp add: bp_send_def bp_flush_def busy_socket_def small_limits_def backpressureLimits_def or_default_def newBackpressure_def bp_push_def)
  show ?thesis
    using responses_squeeze_out_transitions[of busy_socket s small_limits "\<lparr>qf_data = 2, qf_undroppable = False\<rparr>" c 0] c
    by (simp add: busy_socket_def small_limits_def backpressureLimits_def or_default_def)
qed

text \<open>A socket that keeps room is given everything that was queued, and the episode ends.\<close>

lemma recovered_socket_drains:
  assumes "\<forall>s. so_buffered so s < bl_highWaterBytes lim"
  shows "bp_queue (fst (bp_flush so lim now (c, s))) = []" "bp_out (fst (bp_flush so lim now (c, s))) = bp_out c @ bp_queue c"
    "\<not> bp_droppedThisEpisode (fst (bp_flush so lim now (c, s)))"
proof -
  obtain out rest s' where d: "drain_frames so (bl_highWaterBytes lim) (bp_queue c) s = (out, rest, s')" by (metis prod_cases3)
  have r: "rest = []" using drain_frames_low[OF assms, of "bp_queue c" s] by (simp add: d)
  have f: "fst (bp_flush so lim now (c, s)) = c\<lparr>bp_queue := [], bp_out := bp_out c @ out,
      bp_undroppableQueuedCount := bp_undroppableQueuedCount c - int (length (filter qf_undroppable out)),
      bp_backpressureSince := None, bp_droppedThisEpisode := False\<rparr>"
    using assms by (simp add: bp_flush_def d r)
  have "bp_queue c = out" using drain_frames_append[OF d] r by simp
  then show "bp_queue (fst (bp_flush so lim now (c, s))) = []" "bp_out (fst (bp_flush so lim now (c, s))) = bp_out c @ bp_queue c"
    "\<not> bp_droppedThisEpisode (fst (bp_flush so lim now (c, s)))"
    by (simp_all add: f)
qed

section \<open>The sync tier on a slow connection\<close>

definition is_response :: "server_message \<Rightarrow> bool" where
  "is_response m = (case m of MutationSucceeded _ _ _ _ _ \<Rightarrow> True | MutationFailed _ _ _ \<Rightarrow> True | ActionSucceeded _ _ \<Rightarrow> True
                            | ActionFailed _ _ \<Rightarrow> True | _ \<Rightarrow> False)"

text \<open>How the handler hands a message over; a frame stands for the message it encodes.\<close>

definition frame_of :: "server_message \<Rightarrow> server_message queued_frame" where
  "frame_of m = \<lparr>qf_data = m, qf_undroppable = is_response m\<rparr>"

lemma subseq_frames:
  assumes "subseq xs (map frame_of ms)"
  shows "subseq (map qf_data xs) ms" "xs = map frame_of (map qf_data xs)"
proof -
  have "subseq (map qf_data xs) (map qf_data (map frame_of ms))" using assms by (rule subseq_map)
  then show "subseq (map qf_data xs) ms" by (simp add: comp_def frame_of_def)
  have "set xs \<subseteq> set (map frame_of ms)" using assms by (metis subseq_conv_nths set_nths_subset)
  then have "\<forall>x \<in> set xs. frame_of (qf_data x) = x" by (auto simp: frame_of_def)
  then have "map (\<lambda>x. frame_of (qf_data x)) xs = xs" by (intro map_idI) blast
  then show "xs = map frame_of (map qf_data xs)" by (simp only: map_map comp_def)
qed

lemma filter_frames: "filter qf_undroppable (map frame_of ms) = map frame_of (filter is_response ms)"
  by (induction ms) (simp_all add: frame_of_def)



section \<open>The heartbeat\<close>

definition DEFAULT_MISSED_PONG_LIMIT :: int where
  "DEFAULT_MISSED_PONG_LIMIT = 2"

record heartbeat =
  hb_timer :: bool
  hb_missed :: int
  hb_dead :: bool
  hb_pings :: nat
  hb_onDead :: nat

definition newHeartbeat :: heartbeat where
  "newHeartbeat = \<lparr>hb_timer = False, hb_missed = 0, hb_dead = False, hb_pings = 0, hb_onDead = 0\<rparr>"

definition hb_start :: "bool \<Rightarrow> heartbeat \<Rightarrow> heartbeat" where
  "hb_start canPing b = (if \<not> canPing then b else if hb_timer b then b else b\<lparr>hb_missed := 0, hb_dead := False, hb_timer := True\<rparr>)"

definition hb_stop :: "heartbeat \<Rightarrow> heartbeat" where
  "hb_stop b = b\<lparr>hb_timer := False\<rparr>"

definition hb_noteActivity :: "heartbeat \<Rightarrow> heartbeat" where
  "hb_noteActivity b = b\<lparr>hb_missed := 0\<rparr>"

definition hb_fireDead :: "heartbeat \<Rightarrow> heartbeat" where
  "hb_fireDead b = (if hb_dead b then b else (hb_stop (b\<lparr>hb_dead := True\<rparr>))\<lparr>hb_onDead := hb_onDead b + 1\<rparr>)"

text \<open>The timer's callback; a stopped timer does not call it.\<close>

definition hb_tick :: "int \<Rightarrow> heartbeat \<Rightarrow> heartbeat" where
  "hb_tick limit b =
     (if \<not> hb_timer b then b
      else (let b1 = b\<lparr>hb_pings := hb_pings b + 1, hb_missed := hb_missed b + 1\<rparr>
            in if hb_missed b1 \<ge> limit then hb_fireDead b1 else b1))"

lemma hb_stopped: "\<not> hb_timer b \<Longrightarrow> (hb_tick limit ^^ n) b = b"
  by (induction n) (simp_all add: hb_tick_def)

lemma hb_silent:
  assumes "hb_timer b" "\<not> hb_dead b" "0 \<le> hb_missed b" "hb_missed b < limit"
  shows "hb_onDead ((hb_tick limit ^^ n) b) = hb_onDead b + (if int n \<ge> limit - hb_missed b then 1 else 0) \<and>
    hb_pings ((hb_tick limit ^^ n) b) = hb_pings b + nat (min (int n) (limit - hb_missed b))"
  using assms
proof (induction n arbitrary: b)
  case (Suc n)
  show ?case
  proof (cases "hb_missed b + 1 \<ge> limit")
    case True
    then have "\<not> hb_timer (hb_tick limit b)" using Suc.prems by (simp add: hb_tick_def hb_fireDead_def hb_stop_def)
    then have eq: "(hb_tick limit ^^ Suc n) b = hb_tick limit b" by (simp add: funpow_swap1 hb_stopped)
    show ?thesis unfolding eq using True Suc.prems by (simp add: hb_tick_def hb_fireDead_def hb_stop_def)
  next
    case False
    then have t: "hb_tick limit b = b\<lparr>hb_pings := hb_pings b + 1, hb_missed := hb_missed b + 1\<rparr>" using Suc.prems by (simp add: hb_tick_def)
    have eq: "(hb_tick limit ^^ Suc n) b = (hb_tick limit ^^ n) (hb_tick limit b)" by (simp add: funpow_swap1)
    show ?thesis unfolding eq using Suc.IH[of "hb_tick limit b"] Suc.prems False by (auto simp: t)
  qed
qed simp

text \<open>A ping that is answered before the next one.\<close>

definition answered_tick :: "int \<Rightarrow> heartbeat \<Rightarrow> heartbeat" where
  "answered_tick limit b = hb_noteActivity (hb_tick limit b)"

definition beating :: "int \<Rightarrow> heartbeat \<Rightarrow> bool" where
  "beating limit b \<longleftrightarrow> hb_missed b = 0 \<and> hb_onDead b = (if hb_timer b then 0 else 1) \<and> (hb_timer b \<longrightarrow> \<not> hb_dead b)"

lemma answered_tick_beating:
  assumes "1 \<le> limit" "beating limit b"
  shows "beating limit (answered_tick limit b)" "hb_timer (answered_tick limit b) = (hb_timer b \<and> limit \<noteq> 1)"
  using assms by (auto simp: answered_tick_def beating_def hb_tick_def hb_noteActivity_def hb_fireDead_def hb_stop_def Let_def)

lemma hb_answered:
  assumes "1 \<le> limit" "beating limit b" "hb_timer b"
  shows "beating limit ((answered_tick limit ^^ n) b) \<and> hb_timer ((answered_tick limit ^^ n) b) = (n = 0 \<or> limit \<noteq> 1)"
  using assms by (induction n) (auto simp: answered_tick_beating)

text \<open>A silent connection is reaped when its limit-th ping has just been sent, so it has left only
  limit minus one of them a full interval without an answer; one that answers every ping before the
  next is never reaped, unless the limit is one or less, when the first ping reaps it.\<close>

theorem heartbeat_reaps:
  assumes "1 \<le> limit"
  shows "hb_onDead ((hb_tick limit ^^ n) (hb_start True newHeartbeat)) = (if int n \<ge> limit then 1 else 0) \<and>
    hb_pings ((hb_tick limit ^^ n) (hb_start True newHeartbeat)) = min n (nat limit) \<and>
    hb_onDead ((answered_tick limit ^^ Suc n) (hb_start True newHeartbeat)) = (if limit = 1 then 1 else 0)"
proof -
  let ?b = "hb_start True newHeartbeat"
  have b: "hb_timer ?b" "\<not> hb_dead ?b" "hb_missed ?b = 0" "hb_onDead ?b = 0" "hb_pings ?b = 0" by (simp_all add: hb_start_def newHeartbeat_def)
  have "hb_onDead ((answered_tick limit ^^ Suc n) ?b) = (if limit = 1 then 1 else 0)"
    using hb_answered[OF assms, of ?b "Suc n"] b by (simp add: beating_def del: funpow.simps)
  moreover have "nat (min (int n) limit) = min n (nat limit)" using assms by (simp add: min_def le_nat_iff)
  ultimately show ?thesis using hb_silent[of ?b limit n] b assms by (simp del: funpow.simps split: if_splits)
qed

theorem heartbeat_reaps_witness:
  "hb_onDead ((hb_tick DEFAULT_MISSED_PONG_LIMIT ^^ 2) (hb_start True newHeartbeat)) = 1 \<and>
   hb_pings ((hb_tick DEFAULT_MISSED_PONG_LIMIT ^^ 2) (hb_start True newHeartbeat)) = 2"
  using heartbeat_reaps[of DEFAULT_MISSED_PONG_LIMIT 2] by (simp add: DEFAULT_MISSED_PONG_LIMIT_def)

end
