(* ===== verification/Object_Store.thy ===== *)
theory Object_Store
  imports Doc_Store "HOL-Library.Product_Lexorder"
begin

text \<open>
  The bucket a shard is kept in: \<^verbatim>\<open>packages/objectstore/src/types.ts\<close> with the adapter of
  \<^verbatim>\<open>objectstore-fs/src/fs-objectstore.ts\<close>, and \<^verbatim>\<open>segment.ts\<close>, \<^verbatim>\<open>snapshot.ts\<close>, \<^verbatim>\<open>manifest.ts\<close>, \<^verbatim>\<open>consumers.ts\<close>,
  \<^verbatim>\<open>apply-snapshot.ts\<close> of \<^verbatim>\<open>ee/packages/objectstore-substrate/src\<close>.  The model is one shard's part of the
  bucket, so a key is what follows the shard's prefix.  JSON text stands for the tree it denotes and a
  decimal string for its integer; the content hash an etag is made of is the argument \<open>contentEtag\<close>.
\<close>

section \<open>Segments (segment.ts)\<close>

record wire_id =
  wi_tableNumber :: int
  wi_internalId :: jsstring

record wire_log_entry =
  wl_ts :: int
  wl_id :: wire_id
  wl_value :: "json option"
  wl_prev_ts :: "int option"

datatype wire_index_value = WireDeleted | WireNonClustered wire_id

record wire_index_write =
  wx_ts :: int
  wx_indexId :: jsstring
  wx_key :: jsstring
  wx_value :: wire_index_value

definition encodeId :: "internal_document_id \<Rightarrow> wire_id" where
  "encodeId i = \<lparr>wi_tableNumber = tableNumber i, wi_internalId = bytesToBase64 (internalId i)\<rparr>"

definition decodeId :: "wire_id \<Rightarrow> internal_document_id result" where
  "decodeId w = res_bind (base64ToBytes (wi_internalId w)) (\<lambda>b. Inr \<lparr>tableNumber = wi_tableNumber w, internalId = b\<rparr>)"

definition encodeDocumentLogEntry :: "document_log_entry \<Rightarrow> wire_log_entry" where
  "encodeDocumentLogEntry e =
     \<lparr>wl_ts = le_ts e, wl_id = encodeId (le_id e), wl_value = map_option serializeValue (le_value e), wl_prev_ts = le_prev_ts e\<rparr>"

definition decodeDocumentLogEntry :: "wire_log_entry \<Rightarrow> document_log_entry result" where
  "decodeDocumentLogEntry w =
     res_bind (decodeId (wl_id w)) (\<lambda>i.
     res_bind (case wl_value w of None \<Rightarrow> Inr None | Some j \<Rightarrow> res_bind (parseValue j) (\<lambda>d. Inr (Some d))) (\<lambda>v.
       Inr \<lparr>le_ts = wl_ts w, le_id = i, le_value = v, le_prev_ts = wl_prev_ts w\<rparr>))"

definition encodeIndexWrite :: "index_write \<Rightarrow> wire_index_write" where
  "encodeIndexWrite w =
     \<lparr>wx_ts = iw_ts w, wx_indexId = iu_indexId (iw_update w), wx_key = bytesToBase64 (iu_key (iw_update w)),
      wx_value = (case iu_value (iw_update w) of Deleted \<Rightarrow> WireDeleted | NonClustered d \<Rightarrow> WireNonClustered (encodeId d))\<rparr>"

definition decodeIndexWrite :: "wire_index_write \<Rightarrow> index_write result" where
  "decodeIndexWrite w =
     res_bind (base64ToBytes (wx_key w)) (\<lambda>k.
     res_bind (case wx_value w of WireDeleted \<Rightarrow> Inr Deleted | WireNonClustered d \<Rightarrow> res_bind (decodeId d) (\<lambda>d. Inr (NonClustered d))) (\<lambda>v.
       Inr \<lparr>iw_ts = wx_ts w, iw_update = \<lparr>iu_indexId = wx_indexId w, iu_key = k, iu_value = v\<rparr>\<rparr>))"

record segment_payload =
  sp_documents :: "document_log_entry list"
  sp_indexUpdates :: "index_write list"

record wire_segment =
  ws_documents :: "wire_log_entry list"
  ws_indexUpdates :: "wire_index_write list"

definition encodeSegment :: "segment_payload \<Rightarrow> wire_segment" where
  "encodeSegment p = \<lparr>ws_documents = map encodeDocumentLogEntry (sp_documents p), ws_indexUpdates = map encodeIndexWrite (sp_indexUpdates p)\<rparr>"

definition decodeSegment :: "wire_segment \<Rightarrow> segment_payload result" where
  "decodeSegment w =
     res_bind (res_map decodeDocumentLogEntry (ws_documents w)) (\<lambda>ds.
     res_bind (res_map decodeIndexWrite (ws_indexUpdates w)) (\<lambda>ix. Inr \<lparr>sp_documents = ds, sp_indexUpdates = ix\<rparr>))"

section \<open>Snapshots (snapshot.ts)\<close>

record snapshot_payload =
  sn_frontierTs :: int
  sn_segBase :: int
  sn_rows :: segment_payload

record wire_snapshot =
  wn_frontierTs :: int
  wn_segBase :: int
  wn_rows :: wire_segment

definition encodeSnapshot :: "snapshot_payload \<Rightarrow> wire_snapshot" where
  "encodeSnapshot p = \<lparr>wn_frontierTs = sn_frontierTs p, wn_segBase = sn_segBase p, wn_rows = encodeSegment (sn_rows p)\<rparr>"

definition decodeSnapshot :: "wire_snapshot \<Rightarrow> snapshot_payload result" where
  "decodeSnapshot w = res_bind (decodeSegment (wn_rows w)) (\<lambda>p.
     Inr \<lparr>sn_frontierTs = wn_frontierTs w, sn_segBase = wn_segBase w, sn_rows = p\<rparr>)"

section \<open>The manifest (manifest.ts)\<close>

record manifest =
  mf_epoch :: int
  mf_frontierTs :: int
  mf_tsCounter :: int
  mf_segments :: "int list"
  mf_nextSeqno :: int
  mf_writerId :: jsstring
  mf_leaseExpiresAt :: int
  mf_snapshotTs :: "int option"
  mf_snapshotSegBase :: "int option"

definition emptyManifest :: manifest where
  "emptyManifest = \<lparr>mf_epoch = 0, mf_frontierTs = 0, mf_tsCounter = 0, mf_segments = [], mf_nextSeqno = 0, mf_writerId = [],
     mf_leaseExpiresAt = 0, mf_snapshotTs = None, mf_snapshotSegBase = None\<rparr>"

section \<open>Objects (types.ts, fs-objectstore.ts)\<close>

datatype object_key = ManifestKey | SegmentKey int | SnapshotKey int | ConsumerKey jsstring

datatype object_body = ManifestBody manifest | SegmentBody wire_segment | SnapshotBody wire_snapshot | WatermarkBody int

type_synonym object_bucket = "(object_key, object_body) jsmap"

text \<open>Keep-first: a present object stays.\<close>

definition putImmutable :: "object_key \<Rightarrow> object_body \<Rightarrow> object_bucket \<Rightarrow> object_bucket" where
  "putImmutable k body b = (if map_of b k \<noteq> None then b else AList.update k body b)"

text \<open>\<open>None\<close> is a \<^verbatim>\<open>CasConflict\<close>.\<close>

definition casPut :: "(object_body \<Rightarrow> 'e) \<Rightarrow> object_key \<Rightarrow> object_body \<Rightarrow> 'e option \<Rightarrow> object_bucket \<Rightarrow> (object_bucket \<times> 'e) option" where
  "casPut contentEtag k body ifMatch b =
     (if (case ifMatch of
            None \<Rightarrow> map_of b k \<noteq> None
          | Some e \<Rightarrow> (case map_of b k of None \<Rightarrow> True | Some cur \<Rightarrow> contentEtag cur \<noteq> e))
      then None else Some (AList.update k body b, contentEtag body))"

definition get_object :: "(object_body \<Rightarrow> 'e) \<Rightarrow> object_key \<Rightarrow> object_bucket \<Rightarrow> (object_body \<times> 'e) option" where
  "get_object contentEtag k b = map_option (\<lambda>body. (body, contentEtag body)) (map_of b k)"

definition delete_object :: "object_key \<Rightarrow> object_bucket \<Rightarrow> object_bucket" where
  "delete_object k b = AList.delete k b"

definition readManifest :: "(object_body \<Rightarrow> 'e) \<Rightarrow> object_bucket \<Rightarrow> (manifest \<times> 'e) option" where
  "readManifest contentEtag b = (case get_object contentEtag ManifestKey b of Some (ManifestBody m, e) \<Rightarrow> Some (m, e) | _ \<Rightarrow> None)"

definition createManifest :: "(object_body \<Rightarrow> 'e) \<Rightarrow> object_bucket \<Rightarrow> (object_bucket \<times> manifest \<times> 'e) option" where
  "createManifest contentEtag b = map_option (\<lambda>(b', e). (b', emptyManifest, e)) (casPut contentEtag ManifestKey (ManifestBody emptyManifest) None b)"

definition casManifest :: "(object_body \<Rightarrow> 'e) \<Rightarrow> manifest \<Rightarrow> 'e \<Rightarrow> object_bucket \<Rightarrow> (object_bucket \<times> 'e) option" where
  "casManifest contentEtag m ifMatch b = casPut contentEtag ManifestKey (ManifestBody m) (Some ifMatch) b"

definition writeSnapshot :: "snapshot_payload \<Rightarrow> object_bucket \<Rightarrow> object_bucket" where
  "writeSnapshot p b = putImmutable (SnapshotKey (sn_frontierTs p)) (SnapshotBody (encodeSnapshot p)) b"

text \<open>\<open>Inr None\<close> when there is no such object.\<close>

definition readSnapshot :: "object_bucket \<Rightarrow> int \<Rightarrow> snapshot_payload option result" where
  "readSnapshot b t = (case map_of b (SnapshotKey t) of
     Some (SnapshotBody w) \<Rightarrow> res_bind (decodeSnapshot w) (\<lambda>p. Inr (Some p)) | _ \<Rightarrow> Inr None)"

definition readConsumerWatermarks :: "object_bucket \<Rightarrow> (jsstring \<times> int) list" where
  "readConsumerWatermarks b = List.map_filter (\<lambda>(k, body). case (k, body) of (ConsumerKey c, WatermarkBody n) \<Rightarrow> Some (c, n) | _ \<Rightarrow> None) b"

definition publishConsumerWatermark :: "(object_body \<Rightarrow> 'e) \<Rightarrow> jsstring \<Rightarrow> int \<Rightarrow> object_bucket \<Rightarrow> object_bucket" where
  "publishConsumerWatermark contentEtag c n b =
     (case casPut contentEtag (ConsumerKey c) (WatermarkBody n) (map_option snd (get_object contentEtag (ConsumerKey c) b)) b of
        None \<Rightarrow> b | Some (b', _) \<Rightarrow> b')"

section \<open>The current state of a local store (sqlite-docstore.ts)\<close>

definition newest_docs :: "doc_row list \<Rightarrow> doc_row list" where
  "newest_docs rows = filter (\<lambda>r. \<forall>r' \<in> set rows. dr_table r' = dr_table r \<and> dr_iid r' = dr_iid r \<longrightarrow> dr_ts r' \<le> dr_ts r) rows"

definition newest_idxs :: "idx_row list \<Rightarrow> idx_row list" where
  "newest_idxs rows = filter (\<lambda>r. \<forall>r' \<in> set rows. ir_index r' = ir_index r \<and> ir_key r' = ir_key r \<longrightarrow> ir_ts r' \<le> ir_ts r) rows"

definition dump_doc :: "doc_row \<Rightarrow> document_log_entry result" where
  "dump_doc r =
     res_bind (decodeStorageTableId (dr_table r)) (\<lambda>tn.
     res_bind (case dr_value r of None \<Rightarrow> Inr None | Some j \<Rightarrow> res_bind (parseValue j) (\<lambda>d. Inr (Some d))) (\<lambda>v.
       Inr \<lparr>le_ts = dr_ts r, le_id = \<lparr>tableNumber = tn, internalId = dr_iid r\<rparr>, le_value = v, le_prev_ts = dr_prev r\<rparr>))"

definition dump_idx :: "idx_row \<Rightarrow> index_write result" where
  "dump_idx r =
     res_bind (if ir_deleted r then Inr Deleted
               else (case ir_doc r of
                  None \<Rightarrow> Inl (GenericError ''invalid storage table id'')
                | Some (t, iid) \<Rightarrow> res_bind (decodeStorageTableId t) (\<lambda>tn. Inr (NonClustered \<lparr>tableNumber = tn, internalId = iid\<rparr>)))) (\<lambda>v.
       Inr \<lparr>iw_ts = ir_ts r, iw_update = \<lparr>iu_indexId = ir_index r, iu_key = ir_key r, iu_value = v\<rparr>\<rparr>)"

definition dumpCurrentState :: "doc_store \<Rightarrow> segment_payload result" where
  "dumpCurrentState st =
     res_bind (res_map dump_doc (sort_key (\<lambda>r. (dr_table r, dr_iid r)) (filter (\<lambda>r. dr_value r \<noteq> None) (newest_docs (ds_documents st))))) (\<lambda>docs.
     res_bind (res_map dump_idx (sort_key (\<lambda>r. (ir_index r, ir_key r)) (newest_idxs (ds_indexes st)))) (\<lambda>ix.
       Inr \<lparr>sp_documents = docs, sp_indexUpdates = ix\<rparr>))"

section \<open>Restoring a snapshot (apply-snapshot.ts)\<close>

definition applySnapshotState :: "doc_store \<Rightarrow> segment_payload \<Rightarrow> int \<Rightarrow> (doc_store \<times> document_log_entry list) result" where
  "applySnapshotState local snap frontierTs =
     (let snapshotIds = map (\<lambda>d. documentIdKey (le_id d)) (sp_documents snap)
      in res_bind (dumpCurrentState local) (\<lambda>currentState.
           (let dropped = filter (\<lambda>d. documentIdKey (le_id d) \<notin> set snapshotIds) (sp_documents currentState);
                deletedDocs = map (\<lambda>d. \<lparr>le_ts = frontierTs, le_id = le_id d, le_value = None, le_prev_ts = Some (le_ts d)\<rparr>) dropped
            in res_bind (if dropped = [] then Inr local else ds_write deletedDocs [] Overwrite None local) (\<lambda>local1.
               res_bind (ds_write (sp_documents snap) (sp_indexUpdates snap) Overwrite None local1) (\<lambda>local2. Inr (local2, deletedDocs))))))"

end
