(* ===== verification/Object_Doc_Store.thy ===== *)
theory Object_Doc_Store
  imports Object_Store
begin

text \<open>
  \<^verbatim>\<open>ObjectStoreDocStore\<close> (\<^verbatim>\<open>ee/packages/objectstore-substrate/src/object-doc-store.ts\<close>): a local store that
  materializes a shard's segments, and the operations that commit to the bucket first.  Each operation is
  cut where it awaits the bucket; what it remembers there is its \<open>pending_op\<close>, and the instance's mutex
  lets one run at a time.  A request to the bucket may throw, whether or not it took effect.
\<close>

section \<open>An instance\<close>

record 'e object_doc_store =
  ob_local :: doc_store
  ob_manifest :: manifest
  ob_etag :: 'e
  ob_nextSeqno :: int
  ob_poisoned :: bool
  ob_held :: "(int \<times> jsstring) option"
  ob_sinceSnapshot :: nat

definition SNAPSHOT_EVERY :: nat where
  "SNAPSHOT_EVERY = 8"

text \<open>Did a request return, or throw, and had it taken effect then?\<close>

datatype request = Returns | Throws bool

datatype 'e cas_reply = CasOk 'e | CasLost | CasThrew

definition cas_request :: "(object_body \<Rightarrow> 'e) \<Rightarrow> request \<Rightarrow> manifest \<Rightarrow> 'e \<Rightarrow> object_bucket \<Rightarrow> object_bucket \<times> 'e cas_reply" where
  "cas_request contentEtag rq m ifMatch b =
     (case (rq, casManifest contentEtag m ifMatch b) of
        (Returns, None) \<Rightarrow> (b, CasLost)
      | (Returns, Some (b', e)) \<Rightarrow> (b', CasOk e)
      | (Throws True, Some (b', _)) \<Rightarrow> (b', CasThrew)
      | (Throws _, _) \<Rightarrow> (b, CasThrew))"

definition put_request :: "request \<Rightarrow> object_key \<Rightarrow> object_body \<Rightarrow> object_bucket \<Rightarrow> object_bucket" where
  "put_request rq k body b = (if rq = Throws False then b else putImmutable k body b)"

section \<open>Materializing\<close>

record materializing =
  mz_manifest :: manifest
  mz_applied :: int
  mz_snapshot :: "int option"
  mz_todo :: "int list"

definition begin_materialize :: "manifest \<Rightarrow> int \<Rightarrow> materializing" where
  "begin_materialize m nextSeqno =
     (let appliedThrough = nextSeqno - 1
      in \<lparr>mz_manifest = m, mz_applied = appliedThrough,
          mz_snapshot = (case (mf_snapshotTs m, mf_snapshotSegBase m) of
             (Some t, Some base) \<Rightarrow> (if base > appliedThrough then Some t else None) | _ \<Rightarrow> None),
          mz_todo = mf_segments m\<rparr>)"

definition restore_snapshot :: "object_bucket \<Rightarrow> int \<Rightarrow> doc_store \<Rightarrow> doc_store result" where
  "restore_snapshot b t local =
     res_bind (readSnapshot b t) (\<lambda>snap.
       (case snap of
          None \<Rightarrow> Inl (GenericError ''missing snapshot'')
        | Some p \<Rightarrow> res_bind (applySnapshotState local (sn_rows p) (sn_frontierTs p)) (\<lambda>(local', _). Inr local')))"

definition replay_segment :: "object_bucket \<Rightarrow> int \<Rightarrow> doc_store \<Rightarrow> doc_store result" where
  "replay_segment b n local =
     (case map_of b (SegmentKey n) of
        Some (SegmentBody w) \<Rightarrow> res_bind (decodeSegment w) (\<lambda>p. ds_write (sp_documents p) (sp_indexUpdates p) Overwrite None local)
      | _ \<Rightarrow> Inl (GenericError ''missing segment''))"

text \<open>One object read and applied; \<open>None\<close> when nothing is left.\<close>

definition materialize_step :: "object_bucket \<Rightarrow> materializing \<Rightarrow> doc_store \<Rightarrow> (materializing \<times> doc_store) result option" where
  "materialize_step b mz local =
     (case mz_snapshot mz of
        Some t \<Rightarrow> Some (res_bind (restore_snapshot b t local) (\<lambda>local'.
          Inr (mz\<lparr>mz_snapshot := None, mz_applied := (case mf_snapshotSegBase (mz_manifest mz) of None \<Rightarrow> mz_applied mz | Some base \<Rightarrow> base)\<rparr>, local')))
      | None \<Rightarrow> (case mz_todo mz of
          [] \<Rightarrow> None
        | n # ns \<Rightarrow>
            Some (if n \<le> mz_applied mz then Inr (mz\<lparr>mz_todo := ns\<rparr>, local)
             else res_bind (replay_segment b n local) (\<lambda>local'. Inr (mz\<lparr>mz_todo := ns, mz_applied := n\<rparr>, local')))))"

text \<open>All of it, on a bucket nobody writes meanwhile.\<close>

fun materialize_run :: "nat \<Rightarrow> object_bucket \<Rightarrow> materializing \<Rightarrow> doc_store \<Rightarrow> doc_store result" where
  "materialize_run 0 b mz local = Inr local"
| "materialize_run (Suc k) b mz local =
     (case materialize_step b mz local of
        None \<Rightarrow> Inr local
      | Some r \<Rightarrow> res_bind r (\<lambda>(mz', local'). materialize_run k b mz' local'))"

definition materializeTo :: "object_bucket \<Rightarrow> manifest \<Rightarrow> int \<Rightarrow> doc_store \<Rightarrow> doc_store result" where
  "materializeTo b m nextSeqno local = materialize_run (Suc (length (mf_segments m))) b (begin_materialize m nextSeqno) local"

section \<open>Opening\<close>

text \<open>Losing the race to create the manifest, an opener reads the winner's.\<close>

definition openManifest :: "(object_body \<Rightarrow> 'e) \<Rightarrow> object_bucket \<Rightarrow> (object_bucket \<times> manifest \<times> 'e) option" where
  "openManifest contentEtag b =
     (case readManifest contentEtag b of
        Some (m, e) \<Rightarrow> Some (b, m, e)
      | None \<Rightarrow> createManifest contentEtag b)"

definition new_instance :: "doc_store \<Rightarrow> manifest \<Rightarrow> 'e \<Rightarrow> 'e object_doc_store" where
  "new_instance local m e = \<lparr>ob_local = local, ob_manifest = m, ob_etag = e, ob_nextSeqno = 0, ob_poisoned = False,
     ob_held = None, ob_sinceSnapshot = 0\<rparr>"

section \<open>The lease\<close>

record acquire_opts =
  ao_writerId :: jsstring
  ao_leaseTtlMs :: int
  ao_now :: int

definition lease_refused :: "acquire_opts \<Rightarrow> manifest \<Rightarrow> bool" where
  "lease_refused opts m \<longleftrightarrow> mf_writerId m \<noteq> [] \<and> ao_now opts \<le> mf_leaseExpiresAt m \<and> mf_writerId m \<noteq> ao_writerId opts"

definition claimed :: "acquire_opts \<Rightarrow> manifest \<Rightarrow> manifest" where
  "claimed opts m = m\<lparr>mf_epoch := mf_epoch m + 1, mf_writerId := ao_writerId opts,
     mf_leaseExpiresAt := ao_now opts + ao_leaseTtlMs opts,
     mf_nextSeqno := (if mf_epoch m > 0 then mf_nextSeqno m + 1 else mf_nextSeqno m)\<rparr>"

text \<open>After the catch-up: the claim, whose loss leaves the instance as the catch-up left it.\<close>

definition claim :: "(object_body \<Rightarrow> 'e) \<Rightarrow> request \<Rightarrow> acquire_opts \<Rightarrow> manifest \<Rightarrow> 'e \<Rightarrow> 'e object_doc_store \<Rightarrow> object_bucket \<Rightarrow>
    object_bucket \<times> 'e object_doc_store" where
  "claim contentEtag rq opts m etag ob b =
     (let ob1 = ob\<lparr>ob_nextSeqno := mf_nextSeqno m\<rparr>; next = claimed opts m
      in case cas_request contentEtag rq next etag b of
           (b', CasOk e) \<Rightarrow> (b', ob1\<lparr>ob_manifest := next, ob_etag := e, ob_held := Some (mf_epoch next, ao_writerId opts),
             ob_poisoned := False, ob_nextSeqno := mf_nextSeqno next\<rparr>)
         | (b', CasLost) \<Rightarrow> (b', ob1)
         | (b', CasThrew) \<Rightarrow> (b', ob1\<lparr>ob_poisoned := True\<rparr>))"

definition renewed :: "int \<Rightarrow> manifest \<Rightarrow> manifest" where
  "renewed expires m = m\<lparr>mf_leaseExpiresAt := expires\<rparr>"

definition ob_heartbeat :: "(object_body \<Rightarrow> 'e) \<Rightarrow> request \<Rightarrow> int \<Rightarrow> int \<Rightarrow> 'e object_doc_store \<Rightarrow> object_bucket \<Rightarrow>
    object_bucket \<times> 'e object_doc_store \<times> unit result" where
  "ob_heartbeat contentEtag rq now leaseTtlMs ob b =
     (let fenced = Inl (GenericError ''FencedError'')
      in if ob_held ob = None \<or> ob_poisoned ob then (b, ob, fenced)
         else (let next = renewed (now + leaseTtlMs) (ob_manifest ob)
           in case cas_request contentEtag rq next (ob_etag ob) b of
                (b', CasOk e) \<Rightarrow> (b', ob\<lparr>ob_manifest := next, ob_etag := e\<rparr>, Inr ())
              | (b', _) \<Rightarrow> (b', ob\<lparr>ob_poisoned := True, ob_held := None\<rparr>, fenced)))"

definition ob_release :: "'e object_doc_store \<Rightarrow> 'e object_doc_store" where
  "ob_release ob = ob\<lparr>ob_held := None\<rparr>"

definition ob_relinquish :: "(object_body \<Rightarrow> 'e) \<Rightarrow> request \<Rightarrow> 'e object_doc_store \<Rightarrow> object_bucket \<Rightarrow> object_bucket \<times> 'e object_doc_store" where
  "ob_relinquish contentEtag rq ob b =
     (if ob_held ob = None then (b, ob)
      else (let next = (ob_manifest ob)\<lparr>mf_writerId := [], mf_leaseExpiresAt := 0\<rparr>
        in case cas_request contentEtag rq next (ob_etag ob) b of
             (b', CasOk e) \<Rightarrow> (b', ob\<lparr>ob_manifest := next, ob_etag := e, ob_held := None\<rparr>)
           | (b', _) \<Rightarrow> (b', ob\<lparr>ob_held := None\<rparr>)))"

section \<open>Committing\<close>

text \<open>Each unit with its timestamp.\<close>

definition stamp_units :: "int \<Rightarrow> commit_unit list \<Rightarrow> segment_payload list" where
  "stamp_units floor units = map2 (\<lambda>i u.
     \<lparr>sp_documents = map (\<lambda>d. d\<lparr>le_ts := floor + int i + 1\<rparr>) (cu_documents u),
      sp_indexUpdates = map (\<lambda>w. w\<lparr>iw_ts := floor + int i + 1\<rparr>) (cu_indexUpdates u)\<rparr>) [0..<length units] units"

definition payload_of :: "segment_payload list \<Rightarrow> segment_payload" where
  "payload_of us = \<lparr>sp_documents = concat (map sp_documents us), sp_indexUpdates = concat (map sp_indexUpdates us)\<rparr>"

record prepared_commit =
  pp_seqno :: int
  pp_units :: "segment_payload list"
  pp_tsList :: "int list"
  pp_next :: manifest
  pp_shard :: "jsstring option"

datatype commit_start = CommitDone "int list" | CommitRefused js_error bool | CommitGo prepared_commit

text \<open>\<open>CommitRefused e p\<close> throws \<open>e\<close>; \<open>p\<close> says whether the instance is poisoned for it.\<close>

definition ob_prepare :: "commit_unit list \<Rightarrow> jsstring option \<Rightarrow> 'e object_doc_store \<Rightarrow> commit_start" where
  "ob_prepare units shardId ob =
     (case ob_held ob of
        None \<Rightarrow> CommitRefused (GenericError ''not the lease owner'') False
      | Some (epoch, _) \<Rightarrow>
          if units = [] then CommitDone []
          else if ob_poisoned ob then CommitRefused (GenericError ''poisoned'') False
          else if mf_epoch (ob_manifest ob) \<noteq> epoch then CommitRefused (GenericError ''FencedError'') True
          else
            (let floor = max (mf_tsCounter (ob_manifest ob)) (maxTimestamp (ob_local ob));
                 tsList = map (\<lambda>i. floor + int i + 1) [0..<length units];
                 maxTs = last tsList;
                 seqno = ob_nextSeqno ob
             in CommitGo \<lparr>pp_seqno = seqno, pp_units = stamp_units floor units, pp_tsList = tsList,
                  pp_next = (ob_manifest ob)\<lparr>mf_epoch := epoch, mf_frontierTs := maxTs, mf_tsCounter := maxTs,
                    mf_segments := mf_segments (ob_manifest ob) @ [seqno], mf_nextSeqno := seqno + 1\<rparr>,
                  pp_shard = shardId\<rparr>))"

definition commit_body :: "prepared_commit \<Rightarrow> object_body" where
  "commit_body pp = SegmentBody (encodeSegment (payload_of (pp_units pp)))"

fun apply_units :: "segment_payload list \<Rightarrow> jsstring option \<Rightarrow> doc_store \<Rightarrow> doc_store result" where
  "apply_units [] shardId local = Inr local"
| "apply_units (u # us) shardId local =
     res_bind (ds_write (sp_documents u) (sp_indexUpdates u) Overwrite shardId local) (apply_units us shardId)"

text \<open>After the segment is put.  \<open>fault\<close> is a fault of the local store after so many units.\<close>

definition ob_finish :: "(object_body \<Rightarrow> 'e) \<Rightarrow> request \<Rightarrow> nat option \<Rightarrow> prepared_commit \<Rightarrow> 'e object_doc_store \<Rightarrow> object_bucket \<Rightarrow>
    object_bucket \<times> 'e object_doc_store \<times> int list result" where
  "ob_finish contentEtag rq fault pp ob b =
     (case cas_request contentEtag rq (pp_next pp) (ob_etag ob) b of
        (b', CasLost) \<Rightarrow> (b', ob\<lparr>ob_poisoned := True, ob_held := None\<rparr>, Inl (GenericError ''FencedError''))
      | (b', CasThrew) \<Rightarrow> (b', ob\<lparr>ob_poisoned := True\<rparr>, Inl (GenericError ''cas''))
      | (b', CasOk e) \<Rightarrow>
          (let us = (case fault of None \<Rightarrow> pp_units pp | Some k \<Rightarrow> take k (pp_units pp));
               broken = \<lambda>local. (b', ob\<lparr>ob_local := local, ob_poisoned := True\<rparr>, Inl (GenericError ''post-commit local apply failed''))
           in case apply_units us (pp_shard pp) (ob_local ob) of
                Inl _ \<Rightarrow> broken (ob_local ob)
              | Inr local \<Rightarrow>
                  if fault \<noteq> None then broken local
                  else (b', ob\<lparr>ob_local := local, ob_manifest := pp_next pp, ob_etag := e, ob_nextSeqno := pp_seqno pp + 1,
                      ob_sinceSnapshot := ob_sinceSnapshot ob + 1\<rparr>, Inr (pp_tsList pp))))"

section \<open>Snapshots\<close>

definition snapshotted :: "manifest \<Rightarrow> int \<Rightarrow> manifest" where
  "snapshotted m segBase = m\<lparr>mf_snapshotTs := Some (mf_frontierTs m), mf_snapshotSegBase := Some segBase,
     mf_segments := filter (\<lambda>s. s > segBase) (mf_segments m)\<rparr>"

text \<open>\<open>Inr None\<close> when there is nothing to snapshot.\<close>

definition ob_dump :: "'e object_doc_store \<Rightarrow> snapshot_payload option result" where
  "ob_dump ob =
     (if ob_poisoned ob then Inl (GenericError ''poisoned'')
      else if ob_nextSeqno ob = 0 then Inr None
      else res_bind (dumpCurrentState (ob_local ob)) (\<lambda>dump.
        Inr (Some \<lparr>sn_frontierTs = mf_frontierTs (ob_manifest ob), sn_segBase = ob_nextSeqno ob - 1, sn_rows = dump\<rparr>)))"

definition ob_snapshot :: "(object_body \<Rightarrow> 'e) \<Rightarrow> request \<Rightarrow> 'e object_doc_store \<Rightarrow> object_bucket \<Rightarrow> object_bucket \<times> 'e object_doc_store" where
  "ob_snapshot contentEtag rq ob b =
     (let next = snapshotted (ob_manifest ob) (ob_nextSeqno ob - 1)
      in case cas_request contentEtag rq next (ob_etag ob) b of
           (b', CasOk e) \<Rightarrow> (b', ob\<lparr>ob_manifest := next, ob_etag := e, ob_sinceSnapshot := 0\<rparr>)
         | (b', _) \<Rightarrow> (b', ob\<lparr>ob_poisoned := True\<rparr>))"

definition snapshot_due :: "'e object_doc_store \<Rightarrow> bool" where
  "snapshot_due ob \<longleftrightarrow> \<not> ob_poisoned ob \<and> \<not> ob_sinceSnapshot ob < SNAPSHOT_EVERY"

section \<open>Collecting garbage\<close>

text \<open>The floor of the segments to delete and the snapshot to keep, from the manifest read anew.\<close>

definition ob_gc :: "(object_body \<Rightarrow> 'e) \<Rightarrow> 'e object_doc_store \<Rightarrow> object_bucket \<Rightarrow> ('e object_doc_store \<times> (int \<times> int) option) result" where
  "ob_gc contentEtag ob b =
     (if ob_poisoned ob then Inl (GenericError ''poisoned'')
      else (case ob_held ob of
         None \<Rightarrow> Inr (ob, None)
       | Some (epoch, _) \<Rightarrow>
           (case readManifest contentEtag b of
              None \<Rightarrow> Inl (GenericError ''no manifest'')
            | Some (m, e) \<Rightarrow>
                if mf_epoch m \<noteq> epoch then Inr (ob\<lparr>ob_poisoned := True, ob_held := None\<rparr>, None)
                else
                  (let ob1 = ob\<lparr>ob_manifest := m, ob_etag := e\<rparr>
                   in case mf_snapshotTs m of
                        None \<Rightarrow> Inr (ob1, None)
                      | Some keepSnap \<Rightarrow>
                          (let segBase = (case mf_snapshotSegBase m of None \<Rightarrow> 0 | Some base \<Rightarrow> base);
                               watermarks = map snd (readConsumerWatermarks b);
                               floor = (if watermarks = [] then segBase else min segBase (Min (set watermarks)))
                           in Inr (ob1, Some (floor, keepSnap)))))))"

definition collectable :: "int \<Rightarrow> int \<Rightarrow> object_key \<Rightarrow> bool" where
  "collectable floor keepSnap k = (case k of SegmentKey n \<Rightarrow> n \<le> floor | SnapshotKey t \<Rightarrow> t < keepSnap | _ \<Rightarrow> False)"

section \<open>Instances over one bucket\<close>

datatype 'e pending_op =
    Idle
  | Opening materializing
  | Acquiring acquire_opts 'e materializing
  | Committing prepared_commit
  | Snapshotting
  | Sweeping int int

text \<open>Replaying the history of commits, each of a seqno, its frontier and its rows, from an empty store.\<close>

type_synonym commit_log = "(int \<times> int \<times> segment_payload) list"

definition replay_log :: "commit_log \<Rightarrow> doc_store result" where
  "replay_log log = apply_units (map (\<lambda>(_, _, p). p) log) None ds_empty"

text \<open>\<open>sh_log\<close> records what the manifest took, \<open>sh_acked\<close> what commits answered.\<close>

record 'e shard_sys =
  sh_bucket :: object_bucket
  sh_nodes :: "(nat, 'e object_doc_store \<times> 'e pending_op) jsmap"
  sh_log :: commit_log
  sh_acked :: "(int list \<times> segment_payload list) list"

definition sh_init :: "'e shard_sys" where
  "sh_init = \<lparr>sh_bucket = [], sh_nodes = [], sh_log = [], sh_acked = []\<rparr>"

definition set_node :: "nat \<Rightarrow> 'e object_doc_store \<Rightarrow> 'e pending_op \<Rightarrow> 'e shard_sys \<Rightarrow> 'e shard_sys" where
  "set_node i ob p s = s\<lparr>sh_nodes := AList.update i (ob, p) (sh_nodes s)\<rparr>"

definition drop_node :: "nat \<Rightarrow> 'e shard_sys \<Rightarrow> 'e shard_sys" where
  "drop_node i s = s\<lparr>sh_nodes := AList.delete i (sh_nodes s)\<rparr>"

text \<open>Units the transactor stages: a document or index key at most once, values that have a JSON form.\<close>

definition unit_wf :: "commit_unit \<Rightarrow> bool" where
  "unit_wf u \<longleftrightarrow> distinct (map le_id (cu_documents u)) \<and>
     list_all (\<lambda>e. 0 \<le> tableNumber (le_id e) \<and> (case le_value e of None \<Rightarrow> True | Some d \<Rightarrow> value_ok (VObj d))) (cu_documents u) \<and>
     distinct (map (\<lambda>w. (iu_indexId (iw_update w), iu_key (iw_update w))) (cu_indexUpdates u))"

definition holds_lease :: "'e object_doc_store \<Rightarrow> bool" where
  "holds_lease ob \<longleftrightarrow> ob_held ob \<noteq> None \<and> \<not> ob_poisoned ob"

definition cas_lands :: "(object_body \<Rightarrow> 'e) \<Rightarrow> request \<Rightarrow> manifest \<Rightarrow> 'e \<Rightarrow> object_bucket \<Rightarrow> bool" where
  "cas_lands contentEtag rq m ifMatch b \<longleftrightarrow> rq \<noteq> Throws False \<and> casManifest contentEtag m ifMatch b \<noteq> None"

text \<open>Any process may open, crash and be restarted on the local store it left (an operation that never
  continues is a crash).  \<open>careful\<close> runs keep three rules: a segment that was put is not reported as
  failed, an instance that holds the lease does not acquire it again, and only a holder snapshots.\<close>

inductive shard_step :: "bool \<Rightarrow> (object_body \<Rightarrow> 'e) \<Rightarrow> 'e shard_sys \<Rightarrow> 'e shard_sys \<Rightarrow> bool" for careful contentEtag where
  open_start: "openManifest contentEtag (sh_bucket s) = Some (b, m, e) \<Longrightarrow>
    local = ds_empty \<or> (\<exists>ob p. map_of (sh_nodes s) i = Some (ob, p) \<and> local = ob_local ob) \<Longrightarrow>
    shard_step careful contentEtag s (set_node i (new_instance local m e) (Opening (begin_materialize m 0)) (s\<lparr>sh_bucket := b\<rparr>))"
| open_read: "map_of (sh_nodes s) i = Some (ob, Opening mz) \<Longrightarrow>
    materialize_step (sh_bucket s) mz (ob_local ob) = Some (Inr (mz', local)) \<Longrightarrow>
    shard_step careful contentEtag s (set_node i (ob\<lparr>ob_local := local\<rparr>) (Opening mz') s)"
| open_done: "map_of (sh_nodes s) i = Some (ob, Opening mz) \<Longrightarrow> materialize_step (sh_bucket s) mz (ob_local ob) = None \<Longrightarrow>
    shard_step careful contentEtag s (set_node i (ob\<lparr>ob_nextSeqno := mf_nextSeqno (mz_manifest mz)\<rparr>) Idle s)"
| acquire_start: "map_of (sh_nodes s) i = Some (ob, Idle) \<Longrightarrow> (careful \<longrightarrow> \<not> holds_lease ob) \<Longrightarrow>
    readManifest contentEtag (sh_bucket s) = Some (m, e) \<Longrightarrow> \<not> lease_refused opts m \<Longrightarrow>
    shard_step careful contentEtag s (set_node i ob (Acquiring opts e (begin_materialize m (ob_nextSeqno ob))) s)"
| acquire_read: "map_of (sh_nodes s) i = Some (ob, Acquiring opts e mz) \<Longrightarrow>
    materialize_step (sh_bucket s) mz (ob_local ob) = Some (Inr (mz', local)) \<Longrightarrow>
    shard_step careful contentEtag s (set_node i (ob\<lparr>ob_local := local\<rparr>) (Acquiring opts e mz') s)"
| acquire_fail: "map_of (sh_nodes s) i = Some (ob, Acquiring opts e mz) \<Longrightarrow> shard_step careful contentEtag s (set_node i ob Idle s)"
| acquire_claim: "map_of (sh_nodes s) i = Some (ob, Acquiring opts e mz) \<Longrightarrow> materialize_step (sh_bucket s) mz (ob_local ob) = None \<Longrightarrow>
    claim contentEtag rq opts (mz_manifest mz) e ob (sh_bucket s) = (b, ob') \<Longrightarrow>
    shard_step careful contentEtag s (set_node i ob' Idle (s\<lparr>sh_bucket := b\<rparr>))"
| heartbeat: "map_of (sh_nodes s) i = Some (ob, Idle) \<Longrightarrow> ob_heartbeat contentEtag rq now leaseTtlMs ob (sh_bucket s) = (b, ob', r) \<Longrightarrow>
    shard_step careful contentEtag s (set_node i ob' Idle (s\<lparr>sh_bucket := b\<rparr>))"
| relinquish: "map_of (sh_nodes s) i = Some (ob, Idle) \<Longrightarrow> ob_relinquish contentEtag rq ob (sh_bucket s) = (b, ob') \<Longrightarrow>
    shard_step careful contentEtag s (set_node i ob' Idle (s\<lparr>sh_bucket := b\<rparr>))"
| release: "map_of (sh_nodes s) i = Some (ob, Idle) \<Longrightarrow> shard_step careful contentEtag s (set_node i (ob_release ob) Idle s)"
| commit_refused: "map_of (sh_nodes s) i = Some (ob, Idle) \<Longrightarrow> ob_prepare units shardId ob = CommitRefused err p \<Longrightarrow>
    shard_step careful contentEtag s (set_node i (ob\<lparr>ob_poisoned := ob_poisoned ob \<or> p\<rparr>) Idle s)"
| commit_put: "map_of (sh_nodes s) i = Some (ob, Idle) \<Longrightarrow> list_all unit_wf units \<Longrightarrow> ob_prepare units shardId ob = CommitGo pp \<Longrightarrow>
    (careful \<longrightarrow> rq \<noteq> Throws True) \<Longrightarrow>
    shard_step careful contentEtag s (set_node i ob (if rq = Returns then Committing pp else Idle)
      (s\<lparr>sh_bucket := put_request rq (SegmentKey (pp_seqno pp)) (commit_body pp) (sh_bucket s)\<rparr>))"
| commit_finish: "map_of (sh_nodes s) i = Some (ob, Committing pp) \<Longrightarrow>
    ob_finish contentEtag rq fault pp ob (sh_bucket s) = (b, ob', r) \<Longrightarrow>
    shard_step careful contentEtag s (set_node i ob' Idle (s\<lparr>sh_bucket := b,
      sh_log := sh_log s @ (if cas_lands contentEtag rq (pp_next pp) (ob_etag ob) (sh_bucket s)
        then [(pp_seqno pp, mf_frontierTs (pp_next pp), payload_of (pp_units pp))] else []),
      sh_acked := sh_acked s @ (case r of Inl _ \<Rightarrow> [] | Inr tss \<Rightarrow> [(tss, pp_units pp)])\<rparr>))"
| snapshot_put: "map_of (sh_nodes s) i = Some (ob, Idle) \<Longrightarrow> (careful \<longrightarrow> holds_lease ob) \<Longrightarrow> ob_dump ob = Inr (Some p) \<Longrightarrow>
    shard_step careful contentEtag s (set_node i ob (if rq = Returns then Snapshotting else Idle)
      (s\<lparr>sh_bucket := put_request rq (SnapshotKey (sn_frontierTs p)) (SnapshotBody (encodeSnapshot p)) (sh_bucket s)\<rparr>))"
| snapshot_cas: "map_of (sh_nodes s) i = Some (ob, Snapshotting) \<Longrightarrow> ob_snapshot contentEtag rq ob (sh_bucket s) = (b, ob') \<Longrightarrow>
    shard_step careful contentEtag s (set_node i ob' Idle (s\<lparr>sh_bucket := b\<rparr>))"
| gc_start: "map_of (sh_nodes s) i = Some (ob, Idle) \<Longrightarrow> ob_gc contentEtag ob (sh_bucket s) = Inr (ob', r) \<Longrightarrow>
    shard_step careful contentEtag s (set_node i ob' (case r of None \<Rightarrow> Idle | Some (floor, keepSnap) \<Rightarrow> Sweeping floor keepSnap) s)"
| gc_delete: "map_of (sh_nodes s) i = Some (ob, Sweeping floor keepSnap) \<Longrightarrow> collectable floor keepSnap k \<Longrightarrow>
    shard_step careful contentEtag s (s\<lparr>sh_bucket := delete_object k (sh_bucket s)\<rparr>)"
| gc_done: "map_of (sh_nodes s) i = Some (ob, Sweeping floor keepSnap) \<Longrightarrow> shard_step careful contentEtag s (set_node i ob Idle s)"
| publish: "shard_step careful contentEtag s (s\<lparr>sh_bucket := publishConsumerWatermark contentEtag c n (sh_bucket s)\<rparr>)"
| unpublish: "shard_step careful contentEtag s (s\<lparr>sh_bucket := delete_object (ConsumerKey c) (sh_bucket s)\<rparr>)"

end
