(* ===== verification/Versioned_Rows.thy ===== *)
theory Versioned_Rows
  imports Concile_Prelude
begin

text \<open>
  Sets of versioned rows, a key, a timestamp and a value or a tombstone: what a log says is live at a
  time, when a store that holds some of its rows says the same, and what writing rows over others keeps.
\<close>

type_synonym ('k, 'v) vrows = "('k \<times> int \<times> 'v option) set"

definition live_at :: "('k, 'v) vrows \<Rightarrow> int \<Rightarrow> 'k \<Rightarrow> int \<Rightarrow> 'v \<Rightarrow> bool" where
  "live_at L t k ts v \<longleftrightarrow> (k, ts, Some v) \<in> L \<and> ts \<le> t \<and> (\<forall>ts' p. (k, ts', p) \<in> L \<longrightarrow> ts' \<le> t \<longrightarrow> ts' \<le> ts)"

definition unambiguous :: "('k, 'v) vrows \<Rightarrow> bool" where
  "unambiguous L \<longleftrightarrow> (\<forall>k ts p p'. (k, ts, p) \<in> L \<longrightarrow> (k, ts, p') \<in> L \<longrightarrow> p = p')"

text \<open>A store is sound when its live rows are the log's and its tombstones mark times the key is dead at;
  it covers the log up to a time when nothing that happened by then is missing.\<close>

definition sound :: "('k, 'v) vrows \<Rightarrow> ('k, 'v) vrows \<Rightarrow> bool" where
  "sound L S \<longleftrightarrow> (\<forall>k ts v. (k, ts, Some v) \<in> S \<longrightarrow> (k, ts, Some v) \<in> L) \<and>
     (\<forall>k ts ts' v. (k, ts, None) \<in> S \<longrightarrow> \<not> live_at L ts k ts' v)"

definition up_to :: "('k, 'v) vrows \<Rightarrow> int \<Rightarrow> ('k, 'v) vrows \<Rightarrow> bool" where
  "up_to L U S \<longleftrightarrow> (\<forall>k ts v. live_at L U k ts v \<longrightarrow> (k, ts, Some v) \<in> S) \<and>
     (\<forall>k ts v ts' p. (k, ts, Some v) \<in> S \<longrightarrow> (k, ts', p) \<in> L \<longrightarrow> ts < ts' \<longrightarrow> ts' \<le> U \<longrightarrow> (\<exists>ts'' p'. (k, ts'', p') \<in> S \<and> ts < ts''))"

definition no_later :: "int \<Rightarrow> ('k, 'v) vrows \<Rightarrow> bool" where
  "no_later t S \<longleftrightarrow> (\<forall>k ts p. (k, ts, p) \<in> S \<longrightarrow> ts \<le> t)"

definition after :: "int \<Rightarrow> ('k, 'v) vrows \<Rightarrow> bool" where
  "after t N \<longleftrightarrow> (\<forall>k ts p. (k, ts, p) \<in> N \<longrightarrow> t < ts)"

definition written :: "('k, 'v) vrows \<Rightarrow> ('k, 'v) vrows \<Rightarrow> ('k, 'v) vrows \<Rightarrow> bool" where
  "written S N S' \<longleftrightarrow> N \<subseteq> S' \<and> S' \<subseteq> S \<union> N \<and> (\<forall>k ts p. (k, ts, p) \<in> S \<longrightarrow> (\<exists>p'. (k, ts, p') \<in> S'))"

lemma unambiguousD: "unambiguous L \<Longrightarrow> (k, ts, p) \<in> L \<Longrightarrow> (k, ts, p') \<in> L \<Longrightarrow> p = p'"
  unfolding unambiguous_def by blast

lemma soundD:
  "sound L S \<Longrightarrow> (k, ts, Some v) \<in> S \<Longrightarrow> (k, ts, Some v) \<in> L"
  "sound L S \<Longrightarrow> (k, ts, None) \<in> S \<Longrightarrow> \<not> live_at L ts k ts' v"
  unfolding sound_def by blast+

lemma up_toD:
  "up_to L U S \<Longrightarrow> live_at L U k ts v \<Longrightarrow> (k, ts, Some v) \<in> S"
  "up_to L U S \<Longrightarrow> (k, ts, Some v) \<in> S \<Longrightarrow> (k, ts', p) \<in> L \<Longrightarrow> ts < ts' \<Longrightarrow> ts' \<le> U \<Longrightarrow> \<exists>ts'' p'. (k, ts'', p') \<in> S \<and> ts < ts''"
  unfolding up_to_def by blast+

lemma no_laterD: "no_later t S \<Longrightarrow> (k, ts, p) \<in> S \<Longrightarrow> ts \<le> t"
  unfolding no_later_def by blast

lemma afterD: "after t N \<Longrightarrow> (k, ts, p) \<in> N \<Longrightarrow> t < ts"
  unfolding after_def by blast

lemma no_later_mono: "no_later t S \<Longrightarrow> t \<le> t' \<Longrightarrow> no_later t' S"
  unfolding no_later_def by (blast intro: order_trans)

lemma no_later_written: "written S N S' \<Longrightarrow> no_later t S \<Longrightarrow> no_later t N \<Longrightarrow> no_later t S'"
  unfolding written_def no_later_def by blast

lemma sound_written: "written S N S' \<Longrightarrow> sound L S \<Longrightarrow> sound L N \<Longrightarrow> sound L S'"
  unfolding written_def sound_def by blast

lemma sound_subset: "unambiguous L \<Longrightarrow> N \<subseteq> L \<Longrightarrow> sound L N"
  unfolding sound_def live_at_def by (metis unambiguous_def option.distinct(1) order_antisym order_refl subset_eq)

lemma live_at_mono: "live_at L t k ts v \<Longrightarrow> ts \<le> t' \<Longrightarrow> t' \<le> t \<Longrightarrow> live_at L t' k ts v"
  unfolding live_at_def by (meson order_trans)

text \<open>What a sound store has of a live row is that row.\<close>

lemma sound_row: "unambiguous L \<Longrightarrow> sound L S \<Longrightarrow> live_at L t k ts v \<Longrightarrow> (k, ts, p) \<in> S \<Longrightarrow> p = Some v"
proof (cases p)
  case None
  assume "sound L S" "live_at L t k ts v" "(k, ts, p) \<in> S"
  then show ?thesis using None soundD(2) live_at_mono[of L t k ts v ts] by (fastforce simp: live_at_def)
next
  case (Some w)
  assume "unambiguous L" "sound L S" "live_at L t k ts v" "(k, ts, p) \<in> S"
  then show ?thesis using Some soundD(1) unambiguousD unfolding live_at_def by metis
qed

lemma up_to_written:
  assumes w: "written S N S'" and L: "unambiguous L" "sound L S'" and c: "up_to L U S"
    and new: "\<And>k ts v ts' p. (k, ts, Some v) \<in> N \<Longrightarrow> (k, ts', p) \<in> L \<Longrightarrow> ts < ts' \<Longrightarrow> ts' \<le> U \<Longrightarrow>
      \<exists>ts'' p'. (k, ts'', p') \<in> S \<union> N \<and> ts < ts''"
  shows "up_to L U S'"
  unfolding up_to_def
proof (intro conjI allI impI)
  fix k ts v assume l: "live_at L U k ts v"
  then obtain p where "(k, ts, p) \<in> S'" using up_toD(1)[OF c] w unfolding written_def by blast
  then show "(k, ts, Some v) \<in> S'" using sound_row[OF L l] by blast
next
  fix k ts v ts' p assume a: "(k, ts, Some v) \<in> S'" "(k, ts', p) \<in> L" "ts < ts'" "ts' \<le> U"
  have "\<exists>ts'' p'. (k, ts'', p') \<in> S \<union> N \<and> ts < ts''"
  proof (cases "(k, ts, Some v) \<in> S")
    case True
    then show ?thesis using up_toD(2)[OF c True a(2-4)] by blast
  next
    case False
    then have "(k, ts, Some v) \<in> N" using a(1) w unfolding written_def by blast
    then show ?thesis by (rule new[OF _ a(2-4)])
  qed
  then show "\<exists>ts'' p'. (k, ts'', p') \<in> S' \<and> ts < ts''" using w unfolding written_def by blast
qed

text \<open>The next stretch of the log, written whole.\<close>

lemma up_to_tail:
  assumes w: "written S N S'" and L: "unambiguous L" "sound L S'" and c: "up_to L U S" and U: "U \<le> U'"
    and N: "N \<subseteq> L" "\<And>k ts p. (k, ts, p) \<in> L \<Longrightarrow> U < ts \<Longrightarrow> ts \<le> U' \<Longrightarrow> (k, ts, p) \<in> N"
      "after U N"
  shows "up_to L U' S'"
  unfolding up_to_def
proof (intro conjI allI impI)
  fix k ts v assume l: "live_at L U' k ts v"
  show "(k, ts, Some v) \<in> S'"
  proof (cases "U < ts")
    case True
    then show ?thesis using l N(2) w unfolding live_at_def written_def by blast
  next
    case False
    then have "live_at L U k ts v" using live_at_mono[OF l _ U] by simp
    then obtain p where "(k, ts, p) \<in> S'" using up_toD(1)[OF c] w unfolding written_def by blast
    then show ?thesis using sound_row[OF L l] by blast
  qed
next
  fix k ts v ts' p assume a: "(k, ts, Some v) \<in> S'" "(k, ts', p) \<in> L" "ts < ts'" "ts' \<le> U'"
  show "\<exists>ts'' p'. (k, ts'', p') \<in> S' \<and> ts < ts''"
  proof (cases "U < ts'")
    case True
    then show ?thesis using N(2)[OF a(2) _ a(4)] w a(3) unfolding written_def by blast
  next
    case False
    then have le: "ts' \<le> U" by simp
    then have "(k, ts, Some v) \<in> S" using a(1,3) afterD[OF N(3)] w unfolding written_def by fastforce
    then show ?thesis using up_toD(2)[OF c _ a(2,3) le] w unfolding written_def by blast
  qed
qed

text \<open>A snapshot of the log at a time, laid over a store whose live keys it lacks are buried first.\<close>

lemma up_to_snapshot:
  assumes w: "written S T S1" "written S1 X S2" and L: "unambiguous L" "sound L S2"
    and X: "X = {(k, ts, Some v) |k ts v. live_at L F k ts v}"
    and T: "\<And>k ts v. (k, ts, Some v) \<in> S \<Longrightarrow> ts < F \<Longrightarrow> (\<forall>ts' p. (k, ts', p) \<in> S \<longrightarrow> ts' \<le> ts) \<Longrightarrow> (\<forall>ts' v'. \<not> live_at L F k ts' v') \<Longrightarrow> (k, F, None) \<in> T"
      "\<And>k ts p. (k, ts, p) \<in> T \<Longrightarrow> p = None"
  shows "up_to L F S2"
  unfolding up_to_def
proof (intro conjI allI impI)
  fix k ts v assume "live_at L F k ts v"
  then show "(k, ts, Some v) \<in> S2" using w(2) X unfolding written_def by blast
next
  fix k ts v ts' p assume a: "(k, ts, Some v) \<in> S2" "(k, ts', p) \<in> L" "ts < ts'" "ts' \<le> F"
  have keep: "\<exists>p'. (k, t, p') \<in> S2" if "(k, t, p) \<in> S \<union> T" for t p
    using that w unfolding written_def by blast
  have "\<not> live_at L F k ts v" using a(2-4) unfolding live_at_def by fastforce
  then have "(k, ts, Some v) \<notin> X" unfolding X by simp
  then have "(k, ts, Some v) \<in> S1" using a(1) w(2) unfolding written_def by blast
  moreover have "(k, ts, Some v) \<notin> T" using T(2) by blast
  ultimately have S: "(k, ts, Some v) \<in> S" using w(1) unfolding written_def by blast
  show "\<exists>ts'' p'. (k, ts'', p') \<in> S2 \<and> ts < ts''"
  proof (cases "\<exists>t p. (k, t, p) \<in> S \<and> ts < t")
    case True
    then show ?thesis using keep by blast
  next
    case False
    then have top: "\<forall>ts' p. (k, ts', p) \<in> S \<longrightarrow> ts' \<le> ts" by (metis linorder_not_less)
    show ?thesis
    proof (cases "\<exists>t v'. live_at L F k t v'")
      case True
      then obtain t v' where l: "live_at L F k t v'" by blast
      then have "ts' \<le> t" using a unfolding live_at_def by blast
      then have "ts < t" using a(3) by simp
      moreover have "(k, t, Some v') \<in> S2" using l w(2) X unfolding written_def by blast
      ultimately show ?thesis by blast
    next
      case False
      then have "(k, F, None) \<in> T" using T(1)[OF S _ top] a(3,4) by simp
      then obtain p' where "(k, F, p') \<in> S2" using keep[of F None] by blast
      moreover have "ts < F" using a(3,4) by simp
      ultimately show ?thesis by blast
    qed
  qed
qed

text \<open>A sound store that covers everything shows the log.\<close>

lemma covered_view:
  assumes "unambiguous L" "sound L S" "up_to L T S" "no_later T S"
  shows "live_at S T k ts v \<longleftrightarrow> live_at L T k ts v"
proof
  assume l: "live_at S T k ts v"
  then have S: "(k, ts, Some v) \<in> S" and top: "\<And>ts' p. (k, ts', p) \<in> S \<Longrightarrow> ts' \<le> ts"
    using no_laterD[OF assms(4)] unfolding live_at_def by blast+
  have "(k, ts, Some v) \<in> L" using soundD(1)[OF assms(2) S] .
  moreover have "ts' \<le> ts" if m: "(k, ts', p) \<in> L" "ts' \<le> T" for ts' p
  proof (rule ccontr)
    assume "\<not> ts' \<le> ts"
    then have "\<exists>ts'' p'. (k, ts'', p') \<in> S \<and> ts < ts''" by (intro up_toD(2)[OF assms(3) S m(1) _ m(2)]) simp
    then show False using top by fastforce
  qed
  ultimately show "live_at L T k ts v" using no_laterD[OF assms(4) S] unfolding live_at_def by blast
next
  assume l: "live_at L T k ts v"
  have S: "(k, ts, Some v) \<in> S" by (rule up_toD(1)[OF assms(3) l])
  moreover have "ts' \<le> ts" if "(k, ts', p) \<in> S" for ts' p
  proof (rule ccontr)
    assume gt: "\<not> ts' \<le> ts"
    have le: "ts' \<le> T" by (rule no_laterD[OF assms(4) that])
    have top: "\<And>t p. (k, t, p) \<in> L \<Longrightarrow> t \<le> T \<Longrightarrow> t \<le> ts" using l unfolding live_at_def by blast
    show False
    proof (cases p)
      case None
      then have "\<not> live_at L ts' k ts v" using soundD(2)[OF assms(2)] that by blast
      moreover have "live_at L ts' k ts v" using live_at_mono[OF l] gt le by simp
      ultimately show False by blast
    next
      case (Some w)
      then show False using soundD(1)[OF assms(2)] that top le gt by blast
    qed
  qed
  ultimately show "live_at S T k ts v" using no_laterD[OF assms(4) S] unfolding live_at_def by blast
qed

text \<open>The log grows by later rows.\<close>

lemma live_at_grow: "no_later B L \<Longrightarrow> after B N \<Longrightarrow> t \<le> B \<Longrightarrow> live_at (L \<union> N) t k ts v \<longleftrightarrow> live_at L t k ts v"
  unfolding live_at_def after_def by fastforce

lemma sound_grow:
  assumes "sound L S" "no_later B L" "after B N" "no_later B S"
  shows "sound (L \<union> N) S"
  unfolding sound_def
proof (intro conjI allI impI)
  fix k ts v assume "(k, ts, Some v) \<in> S"
  then show "(k, ts, Some v) \<in> L \<union> N" using soundD(1)[OF assms(1)] by blast
next
  fix k ts ts' v assume S: "(k, ts, None) \<in> S"
  show "\<not> live_at (L \<union> N) ts k ts' v"
    using soundD(2)[OF assms(1) S] live_at_grow[OF assms(2,3) no_laterD[OF assms(4) S]] by blast
qed

lemma up_to_grow:
  assumes "up_to L U S" "no_later B L" "after B N" "U \<le> B"
  shows "up_to (L \<union> N) U S"
  unfolding up_to_def
proof (intro conjI allI impI)
  fix k ts v assume "live_at (L \<union> N) U k ts v"
  then show "(k, ts, Some v) \<in> S" using up_toD(1)[OF assms(1)] live_at_grow[OF assms(2,3,4)] by blast
next
  fix k ts v ts' p assume a: "(k, ts, Some v) \<in> S" "(k, ts', p) \<in> L \<union> N" "ts < ts'" "ts' \<le> U"
  then have "(k, ts', p) \<in> L" using afterD[OF assms(3)] assms(4) by fastforce
  then show "\<exists>ts'' p'. (k, ts'', p') \<in> S \<and> ts < ts''" by (rule up_toD(2)[OF assms(1) a(1) _ a(3,4)])
qed

lemma unambiguous_grow: "unambiguous L \<Longrightarrow> unambiguous N \<Longrightarrow> no_later B L \<Longrightarrow> after B N \<Longrightarrow> unambiguous (L \<union> N)"
  unfolding unambiguous_def no_later_def after_def by (metis Un_iff linorder_not_less)

lemma up_to_none: "after U L \<Longrightarrow> up_to L U S"
  unfolding up_to_def live_at_def after_def by (metis linorder_not_less)

text \<open>A finite set of rows without tombstones has something live once it has something.\<close>

lemma some_live:
  assumes "finite L" "\<And>k ts. (k, ts, None) \<notin> L" "(k, ts, p) \<in> L" "ts \<le> t"
  shows "\<exists>ts' v. live_at L t k ts' v"
proof -
  let ?T = "{ts. \<exists>p. (k, ts, p) \<in> L \<and> ts \<le> t}"
  have "?T \<subseteq> (\<lambda>(_, ts, _). ts) ` L" by force
  then have fin: "finite ?T" using assms(1) finite_subset by blast
  have "ts \<in> ?T" using assms(3,4) by blast
  then have m: "Max ?T \<in> ?T" "\<And>x. x \<in> ?T \<Longrightarrow> x \<le> Max ?T" using Max_in[OF fin] Max_ge[OF fin] by blast+
  then obtain q where q: "(k, Max ?T, q) \<in> L" "Max ?T \<le> t" by blast
  then obtain v where "q = Some v" using assms(2) by (cases q) auto
  then have "live_at L t k (Max ?T) v" unfolding live_at_def using q m(2) by blast
  then show ?thesis by blast
qed

end
