(* ===== verification/Object_Rows.thy ===== *)
theory Object_Rows
  imports Object_Doc_Store Versioned_Rows
begin

text \<open>
  Local stores, segments and snapshots as versioned rows (without the shard column, which only the local
  tables carry): what a write, the codecs, the dump and the restoring of a snapshot do to them.
\<close>

type_synonym doc_key = "jsstring \<times> bytes"
type_synonym doc_val = "int option \<times> json"
type_synonym idx_val = "(jsstring \<times> bytes) option \<times> bool"

section \<open>Rows\<close>

definition vdoc :: "doc_row \<Rightarrow> doc_key \<times> int \<times> doc_val option" where
  "vdoc r = ((dr_table r, dr_iid r), dr_ts r, map_option (Pair (dr_prev r)) (dr_value r))"

definition vidx :: "idx_row \<Rightarrow> doc_key \<times> int \<times> idx_val option" where
  "vidx r = ((ir_index r, ir_key r), ir_ts r, Some (ir_doc r, ir_deleted r))"

definition vdocs :: "doc_store \<Rightarrow> (doc_key, doc_val) vrows" where
  "vdocs st = vdoc ` set (ds_documents st)"

definition vidxs :: "doc_store \<Rightarrow> (doc_key, idx_val) vrows" where
  "vidxs st = vidx ` set (ds_indexes st)"

definition pdocs :: "segment_payload \<Rightarrow> (doc_key, doc_val) vrows" where
  "pdocs p = (\<lambda>e. vdoc (row_of_entry DEFAULT_SHARD e)) ` set (sp_documents p)"

definition pidxs :: "segment_payload \<Rightarrow> (doc_key, idx_val) vrows" where
  "pidxs p = (\<lambda>w. vidx (row_of_update DEFAULT_SHARD w)) ` set (sp_indexUpdates p)"

definition doc_key :: "doc_row \<Rightarrow> jsstring \<times> bytes \<times> int" where
  "doc_key r = (dr_table r, dr_iid r, dr_ts r)"

definition keys_ok :: "doc_store \<Rightarrow> bool" where
  "keys_ok st \<longleftrightarrow> distinct (map doc_key (ds_documents st)) \<and> distinct (map idx_key (ds_indexes st))"

lemma vdoc_shard: "vdoc (row_of_entry shard e) = vdoc (row_of_entry DEFAULT_SHARD e)"
  by (simp add: vdoc_def row_of_entry_def)

lemma vidx_shard: "vidx (row_of_update shard w) = vidx (row_of_update DEFAULT_SHARD w)"
  by (simp add: vidx_def row_of_update_def)

lemma vdocs_empty [simp]: "vdocs ds_empty = {}" "vidxs ds_empty = {}" "keys_ok ds_empty"
  by (simp_all add: vdocs_def vidxs_def keys_ok_def ds_empty_def)

lemma distinct_key: "distinct (map f xs) \<Longrightarrow> x \<in> set xs \<Longrightarrow> y \<in> set xs \<Longrightarrow> f x = f y \<Longrightarrow> x = y"
  by (simp add: distinct_map inj_on_def)

lemma unambiguous_keys:
  assumes "keys_ok st" shows "unambiguous (vdocs st)" "unambiguous (vidxs st)"
proof -
  have d: "distinct (map doc_key (ds_documents st))" "distinct (map idx_key (ds_indexes st))" using assms by (simp_all add: keys_ok_def)
  show "unambiguous (vdocs st)" unfolding unambiguous_def vdocs_def
  proof (intro allI impI)
    fix k ts p p' assume "(k, ts, p) \<in> vdoc ` set (ds_documents st)" "(k, ts, p') \<in> vdoc ` set (ds_documents st)"
    then obtain r r' where r: "r \<in> set (ds_documents st)" "r' \<in> set (ds_documents st)" and e: "(k, ts, p) = vdoc r" "(k, ts, p') = vdoc r'" by (elim imageE)
    have "doc_key r = doc_key r'" using e by (simp add: vdoc_def doc_key_def)
    then have "r = r'" by (rule distinct_key[OF d(1) r])
    then show "p = p'" using e by (metis prod.inject)
  qed
  show "unambiguous (vidxs st)" unfolding unambiguous_def vidxs_def
  proof (intro allI impI)
    fix k ts p p' assume "(k, ts, p) \<in> vidx ` set (ds_indexes st)" "(k, ts, p') \<in> vidx ` set (ds_indexes st)"
    then obtain r r' where r: "r \<in> set (ds_indexes st)" "r' \<in> set (ds_indexes st)" and e: "(k, ts, p) = vidx r" "(k, ts, p') = vidx r'" by (elim imageE)
    have "idx_key r = idx_key r'" using e by (simp add: vidx_def idx_key_def)
    then have "r = r'" by (rule distinct_key[OF d(2) r])
    then show "p = p'" using e by (metis prod.inject)
  qed
qed

section \<open>Writes\<close>

definition over :: "('r \<Rightarrow> 'k) \<Rightarrow> 'r \<Rightarrow> 'r list \<Rightarrow> 'r list" where
  "over key r rows = filter (\<lambda>x. key x \<noteq> key r) rows @ [r]"

lemma over_fold:
  "distinct (map key rows) \<Longrightarrow> distinct (map key (fold (over key) rs rows)) \<and>
     set (fold (over key) rs rows) \<subseteq> set rows \<union> set rs \<and> key ` set (fold (over key) rs rows) = key ` set rows \<union> key ` set rs \<and>
     (\<forall>x \<in> set (fold (over key) rs rows). key x \<in> key ` set rs \<longrightarrow> x \<in> set rs)"
proof (induction rs arbitrary: rows)
  case (Cons r rs)
  have "distinct (map key (over key r rows))" using Cons.prems by (auto simp: over_def distinct_map inj_on_def)
  note ih = Cons.IH[OF this]
  have o1: "set (over key r rows) \<subseteq> insert r (set rows)" "key ` set (over key r rows) = insert (key r) (key ` set rows)"
      "\<And>x. x \<in> set (over key r rows) \<Longrightarrow> key x = key r \<Longrightarrow> x = r"
    by (auto simp: over_def)
  have "x \<in> set (r # rs)" if x: "x \<in> set (fold (over key) rs (over key r rows))" "key x \<in> key ` set (r # rs)" for x
  proof (cases "key x \<in> key ` set rs")
    case True
    then show ?thesis using ih x(1) by simp
  next
    case False
    then have "x \<notin> set rs" by blast
    moreover have "key x = key r" using False x(2) by simp
    moreover have "x \<in> set (over key r rows) \<union> set rs" using ih x(1) by blast
    ultimately show ?thesis using o1(3)[of x] by simp
  qed
  moreover have "set (fold (over key) rs (over key r rows)) \<subseteq> set rows \<union> set (r # rs)" using ih o1(1) by fastforce
  moreover have "key ` set (fold (over key) rs (over key r rows)) = key ` set rows \<union> key ` set (r # rs)" using ih o1(2) by simp
  ultimately show ?case using ih by simp
qed simp

text \<open>A view of rows that a key determines among the new ones.\<close>

lemma over_written:
  fixes v :: "'r \<Rightarrow> 'k \<times> int \<times> 'v option"
  assumes "distinct (map key rows)" "unambiguous (v ` set rs)" and kv: "\<And>x y. key x = key y \<longleftrightarrow> fst (v x) = fst (v y) \<and> fst (snd (v x)) = fst (snd (v y))"
  shows "written (v ` set rows) (v ` set rs) (v ` set (fold (over key) rs rows))"
proof -
  let ?out = "fold (over key) rs rows"
  note o = over_fold[OF assms(1), of rs]
  have "v r \<in> v ` set ?out" if r: "r \<in> set rs" for r
  proof -
    have "key r \<in> key ` set ?out" using o r by blast
    then obtain x where x: "x \<in> set ?out" "key x = key r" by force
    then have "x \<in> set rs" using o r by (metis image_eqI)
    then have "v x = v r" using x(2) kv[of x r] unambiguousD[OF assms(2), of "fst (v x)" "fst (snd (v x))" "snd (snd (v x))" "snd (snd (v r))"] r
      by (metis (no_types, lifting) image_eqI prod.collapse)
    then show ?thesis using x(1) by (metis image_eqI)
  qed
  moreover have "\<exists>p'. (k, ts, p') \<in> v ` set ?out" if m: "(k, ts, p) \<in> v ` set rows" for k ts p
  proof -
    from m obtain r where r: "r \<in> set rows" "(k, ts, p) = v r" by (elim imageE)
    then have "key r \<in> key ` set ?out" using o by blast
    then obtain x where "x \<in> set ?out" "key x = key r" by force
    then have "v x = (k, ts, snd (snd (v x)))" "x \<in> set ?out" using kv[of x r] r(2) by (metis fst_conv prod.collapse snd_conv)+
    then show ?thesis by (metis image_eqI)
  qed
  moreover have "v ` set ?out \<subseteq> v ` set rows \<union> v ` set rs" using o by blast
  ultimately show ?thesis unfolding written_def by blast
qed

lemma insert_docs_over: "insert_docs Overwrite rs rows = Inr (fold (over doc_key) rs rows)"
proof (induction rs arbitrary: rows)
  case (Cons r rs)
  have "filter (\<lambda>x. \<not> same_doc_key r x) rows @ [r] = over doc_key r rows"
    unfolding over_def by (intro arg_cong2[where f = append] filter_cong) (auto simp: same_doc_key_def doc_key_def)
  moreover have "\<not> list_ex (same_doc_key r) rows \<Longrightarrow> filter (\<lambda>x. \<not> same_doc_key r x) rows = rows"
    by (simp add: list_ex_iff)
  ultimately have "insert_doc Overwrite r rows = Inr (over doc_key r rows)"
    unfolding insert_doc_def by (cases "list_ex (same_doc_key r) rows") simp_all
  then show ?case using Cons by simp
qed simp

lemma insert_idx_over: "insert_idx = over idx_key"
  unfolding fun_eq_iff insert_idx_def over_def
  by (intro allI arg_cong2[where f = append] filter_cong) (auto simp: same_idx_key_def idx_key_def)

lemma ds_write_rows:
  assumes "keys_ok st" "unambiguous (pdocs p)" "unambiguous (pidxs p)"
  obtains st' where "ds_write (sp_documents p) (sp_indexUpdates p) Overwrite shardId st = Inr st'" "keys_ok st'"
    "written (vdocs st) (pdocs p) (vdocs st')" "written (vidxs st) (pidxs p) (vidxs st')"
proof -
  define sh where "sh = (case shardId of Some s \<Rightarrow> s | None \<Rightarrow> DEFAULT_SHARD)"
  let ?d = "map (row_of_entry sh) (sp_documents p)" and ?x = "map (row_of_update sh) (sp_indexUpdates p)"
  have p: "vdoc ` set ?d = pdocs p" "vidx ` set ?x = pidxs p" by (simp_all add: pdocs_def pidxs_def image_image vdoc_shard[of sh] vidx_shard[of sh])
  have k: "distinct (map doc_key (ds_documents st))" "distinct (map idx_key (ds_indexes st))" using assms(1) by (simp_all add: keys_ok_def)
  define st' where "st' = st\<lparr>ds_documents := fold (over doc_key) ?d (ds_documents st), ds_indexes := fold (over idx_key) ?x (ds_indexes st)\<rparr>"
  show ?thesis
  proof (rule that)
    show "ds_write (sp_documents p) (sp_indexUpdates p) Overwrite shardId st = Inr st'"
      unfolding ds_write_def sh_def[symmetric] insertRows_def insert_docs_over insert_idx_over st'_def by simp
    show "keys_ok st'" using over_fold[OF k(1)] over_fold[OF k(2)] by (simp add: keys_ok_def st'_def)
    have kd: "doc_key x = doc_key y \<longleftrightarrow> fst (vdoc x) = fst (vdoc y) \<and> fst (snd (vdoc x)) = fst (snd (vdoc y))" for x y
      by (auto simp: doc_key_def vdoc_def)
    have kx: "idx_key x = idx_key y \<longleftrightarrow> fst (vidx x) = fst (vidx y) \<and> fst (snd (vidx x)) = fst (snd (vidx y))" for x y
      by (auto simp: idx_key_def vidx_def)
    have v: "vdocs st' = vdoc ` set (fold (over doc_key) ?d (ds_documents st))" "vidxs st' = vidx ` set (fold (over idx_key) ?x (ds_indexes st))"
      by (simp_all add: vdocs_def vidxs_def st'_def)
    show "written (vdocs st) (pdocs p) (vdocs st')"
      unfolding v p[symmetric] unfolding vdocs_def by (rule over_written[OF k(1) _ kd]) (use assms(2) in \<open>simp only: p\<close>)
    show "written (vidxs st) (pidxs p) (vidxs st')"
      unfolding v p[symmetric] unfolding vidxs_def by (rule over_written[OF k(2) _ kx]) (use assms(3) in \<open>simp only: p\<close>)
  qed
qed

section \<open>Codecs\<close>

definition entry_wf :: "document_log_entry \<Rightarrow> bool" where
  "entry_wf e \<longleftrightarrow> 0 \<le> tableNumber (le_id e) \<and> (case le_value e of None \<Rightarrow> True | Some d \<Rightarrow> value_ok (VObj d))"

definition payload_wf :: "segment_payload \<Rightarrow> bool" where
  "payload_wf p \<longleftrightarrow> (\<forall>e \<in> set (sp_documents p). entry_wf e) \<and> unambiguous (pdocs p) \<and> unambiguous (pidxs p)"

definition norm_entry :: "document_log_entry \<Rightarrow> document_log_entry" where
  "norm_entry e = e\<lparr>le_value := map_option norm_doc (le_value e)\<rparr>"

lemma norm_zero_idem: "norm_zero (norm_zero v) = norm_zero v"
proof (induction v)
  case (VNum n)
  then show ?case by (simp add: f64_neg_zero_def)
next
  case (VArr vs)
  then show ?case by simp
next
  case (VObj es)
  then show ?case by (auto simp: map_idI)
qed simp_all

lemma serialize_norm: "value_ok (VObj d) \<Longrightarrow> serializeValue (norm_doc d) = serializeValue d"
proof -
  assume d: "value_ok (VObj d)"
  have n: "VObj (norm_doc d) = norm_zero (VObj d)" by (simp add: norm_doc_def)
  note a = json_text_convexToJson[OF d]
  show ?thesis
    unfolding serializeValue_def n a[THEN conjunct1] json_text_convexToJson[OF a[THEN conjunct2], THEN conjunct1] norm_zero_idem ..
qed

lemma norm_ok: "value_ok (VObj d) \<Longrightarrow> value_ok (VObj (norm_doc d))"
  using json_text_convexToJson[of "VObj d"] by (simp add: norm_doc_def)

lemma norm_entry_row: "entry_wf e \<Longrightarrow> row_of_entry sh (norm_entry e) = row_of_entry sh e"
  by (auto simp: norm_entry_def row_of_entry_def entry_wf_def serialize_norm simp del: value_ok.simps split: option.splits)

lemma decodeId_encodeId: "decodeId (encodeId i) = Inr i"
  by (simp add: decodeId_def encodeId_def base64ToBytes_def bytesToBase64_def)

lemma decode_entry: "entry_wf e \<Longrightarrow> decodeDocumentLogEntry (encodeDocumentLogEntry e) = Inr (norm_entry e)"
  by (auto simp: decodeDocumentLogEntry_def encodeDocumentLogEntry_def decodeId_encodeId norm_entry_def entry_wf_def parse_serialize
      simp del: value_ok.simps split: option.splits)

lemma decode_index: "decodeIndexWrite (encodeIndexWrite w) = Inr w"
  by (simp add: decodeIndexWrite_def encodeIndexWrite_def decodeId_encodeId base64ToBytes_def bytesToBase64_def split: index_value.split)

lemma res_map_all: "(\<And>x. x \<in> set xs \<Longrightarrow> f x = Inr (g x)) \<Longrightarrow> res_map f xs = Inr (map g xs)"
  by (induction xs) auto

text \<open>What a segment decodes to has the rows that were encoded.\<close>

lemma segment_roundtrip:
  assumes "payload_wf p"
  obtains p' where "decodeSegment (encodeSegment p) = Inr p'" "pdocs p' = pdocs p" "pidxs p' = pidxs p" "payload_wf p'"
proof -
  have wf: "\<And>e. e \<in> set (sp_documents p) \<Longrightarrow> entry_wf e" using assms by (simp add: payload_wf_def)
  define p' where "p' = \<lparr>sp_documents = map norm_entry (sp_documents p), sp_indexUpdates = sp_indexUpdates p\<rparr>"
  have "res_map decodeDocumentLogEntry (map encodeDocumentLogEntry (sp_documents p)) = Inr (map norm_entry (sp_documents p))"
    using res_map_all[of "sp_documents p" "\<lambda>e. decodeDocumentLogEntry (encodeDocumentLogEntry e)" norm_entry] wf decode_entry
    by (simp add: res_map_Inr_iff list_all2_map1)
  moreover have "res_map decodeIndexWrite (map encodeIndexWrite (sp_indexUpdates p)) = Inr (sp_indexUpdates p)"
    by (simp add: res_map_Inr_iff list_all2_map1 decode_index list.rel_refl)
  ultimately have dec: "decodeSegment (encodeSegment p) = Inr p'" by (simp add: decodeSegment_def encodeSegment_def p'_def)
  have rows: "pdocs p' = pdocs p" "pidxs p' = pidxs p"
    using wf by (auto simp: pdocs_def pidxs_def p'_def image_image norm_entry_row)
  have "entry_wf (norm_entry e)" if "entry_wf e" for e
    using that norm_ok by (auto simp: entry_wf_def norm_entry_def simp del: value_ok.simps split: option.splits)
  then have "payload_wf p'" using assms wf rows by (auto simp: payload_wf_def p'_def)
  then show ?thesis using that dec rows by blast
qed

section \<open>The dump\<close>

definition docs_wf :: "(doc_key, doc_val) vrows \<Rightarrow> bool" where
  "docs_wf L \<longleftrightarrow> (\<forall>k ts prev j. (k, ts, Some (prev, j)) \<in> L \<longrightarrow>
     (\<exists>tn d. fst k = encodeStorageTableId tn \<and> 0 \<le> tn \<and> value_ok (VObj d) \<and> j = serializeValue d))"

definition idxs_wf :: "(doc_key, idx_val) vrows \<Rightarrow> bool" where
  "idxs_wf L \<longleftrightarrow> (\<forall>k ts. (k, ts, None) \<notin> L) \<and> (\<forall>k ts d del. (k, ts, Some (d, del)) \<in> L \<longrightarrow>
     (del \<longleftrightarrow> d = None) \<and> (\<forall>t iid. d = Some (t, iid) \<longrightarrow> (\<exists>tn. t = encodeStorageTableId tn)))"

lemma payload_docs_wf: "payload_wf p \<Longrightarrow> docs_wf (pdocs p)"
  unfolding docs_wf_def pdocs_def
proof (intro allI impI)
  fix k ts prev j assume p: "payload_wf p" "(k, ts, Some (prev, j)) \<in> (\<lambda>e. vdoc (row_of_entry DEFAULT_SHARD e)) ` set (sp_documents p)"
  then obtain e where e: "e \<in> set (sp_documents p)" "(k, ts, Some (prev, j)) = vdoc (row_of_entry DEFAULT_SHARD e)" by (elim imageE)
  then obtain d where d: "le_value e = Some d" "j = serializeValue d" by (cases "le_value e") (auto simp: vdoc_def row_of_entry_def)
  have "entry_wf e" using p(1) e(1) by (simp add: payload_wf_def)
  then have "0 \<le> tableNumber (le_id e)" "value_ok (VObj d)" using d(1) by (simp_all add: entry_wf_def)
  moreover have "fst k = encodeStorageTableId (tableNumber (le_id e))" using e(2) by (simp add: vdoc_def row_of_entry_def)
  ultimately show "\<exists>tn d. fst k = encodeStorageTableId tn \<and> 0 \<le> tn \<and> value_ok (VObj d) \<and> j = serializeValue d" using d(2) by blast
qed

lemma payload_idxs_wf: "idxs_wf (pidxs p)"
  by (auto simp: idxs_wf_def pidxs_def vidx_def row_of_update_def split: index_value.splits)

lemma wf_mono: "docs_wf L \<Longrightarrow> sound L S \<Longrightarrow> docs_wf S"
  unfolding docs_wf_def by (meson soundD(1))

lemma idxs_wf_mono: "idxs_wf L \<Longrightarrow> S \<subseteq> L \<Longrightarrow> idxs_wf S"
  unfolding idxs_wf_def by blast

text \<open>What a dump makes of a row, from its view.\<close>

definition entry_of :: "doc_key \<times> int \<times> doc_val option \<Rightarrow> document_log_entry result" where
  "entry_of = (\<lambda>((t, iid), ts, v). case v of
     None \<Rightarrow> Inl (GenericError [])
   | Some (prev, j) \<Rightarrow> res_bind (decodeStorageTableId t) (\<lambda>tn. res_bind (parseValue j) (\<lambda>d.
       Inr \<lparr>le_ts = ts, le_id = \<lparr>tableNumber = tn, internalId = iid\<rparr>, le_value = Some d, le_prev_ts = prev\<rparr>)))"

definition update_of :: "doc_key \<times> int \<times> idx_val option \<Rightarrow> index_write result" where
  "update_of = (\<lambda>((ix, key), ts, v). case v of
     None \<Rightarrow> Inl (GenericError [])
   | Some (d, del) \<Rightarrow> dump_idx \<lparr>ir_index = ix, ir_key = key, ir_ts = ts, ir_doc = d, ir_deleted = del, ir_shard = []\<rparr>)"

lemma dump_doc_view: "dr_value r \<noteq> None \<Longrightarrow> dump_doc r = entry_of (vdoc r)"
  by (auto simp: dump_doc_def entry_of_def vdoc_def res_bind_def split: sum.splits)

lemma dump_idx_view: "dump_idx r = update_of (vidx r)"
  by (simp add: dump_idx_def update_of_def vidx_def)

lemma entry_of_wf:
  assumes "docs_wf L" "(k, ts, Some v) \<in> L"
  obtains e where "entry_of (k, ts, Some v) = Inr e" "entry_wf e" "vdoc (row_of_entry sh e) = (k, ts, Some v)"
proof -
  obtain prev j where v: "v = (prev, j)" by (cases v)
  obtain tn d where d: "fst k = encodeStorageTableId tn" "0 \<le> tn" "value_ok (VObj d)" "j = serializeValue d"
    using assms unfolding docs_wf_def v by blast
  define e where "e = \<lparr>le_ts = ts, le_id = \<lparr>tableNumber = tn, internalId = snd k\<rparr>, le_value = Some (norm_doc d), le_prev_ts = prev\<rparr>"
  have "decodeStorageTableId (fst k) = Inr tn" by (simp add: decodeStorageTableId_iff d(1))
  then have "entry_of (k, ts, Some v) = Inr e" using d by (simp add: entry_of_def v e_def parse_serialize split_beta del: value_ok.simps)
  moreover have "entry_wf e" using d norm_ok by (simp add: entry_wf_def e_def del: value_ok.simps)
  moreover have "vdoc (row_of_entry sh e) = (k, ts, Some v)"
    using d by (simp add: vdoc_def row_of_entry_def e_def v serialize_norm del: value_ok.simps) (metis prod.collapse)
  ultimately show ?thesis using that by blast
qed

lemma update_of_wf:
  assumes "idxs_wf L" "(k, ts, Some v) \<in> L"
  obtains w where "update_of (k, ts, Some v) = Inr w" "vidx (row_of_update sh w) = (k, ts, Some v)"
proof -
  obtain d del where v: "v = (d, del)" by (cases v)
  have del: "del \<longleftrightarrow> d = None" and t: "\<And>t iid. d = Some (t, iid) \<Longrightarrow> \<exists>tn. t = encodeStorageTableId tn"
    using assms unfolding idxs_wf_def v by blast+
  show ?thesis
  proof (cases d)
    case None
    show ?thesis
      by (rule that[of "\<lparr>iw_ts = ts, iw_update = \<lparr>iu_indexId = fst k, iu_key = snd k, iu_value = Deleted\<rparr>\<rparr>"])
        (use None del in \<open>simp_all add: update_of_def dump_idx_def v vidx_def row_of_update_def split_beta\<close>)
  next
    case (Some x)
    then obtain tn where "x = (encodeStorageTableId tn, snd x)" using t by (metis prod.collapse)
    then obtain iid where x: "d = Some (encodeStorageTableId tn, iid)" using Some by metis
    have "decodeStorageTableId (encodeStorageTableId tn) = Inr tn" by (simp add: decodeStorageTableId_iff)
    then show ?thesis
      by (intro that[of "\<lparr>iw_ts = ts, iw_update = \<lparr>iu_indexId = fst k, iu_key = snd k, iu_value = NonClustered \<lparr>tableNumber = tn, internalId = iid\<rparr>\<rparr>\<rparr>"])
        (use x del in \<open>simp_all add: update_of_def dump_idx_def v vidx_def row_of_update_def split_beta\<close>)
  qed
qed

definition doc_rows_now :: "doc_store \<Rightarrow> doc_row list" where
  "doc_rows_now st = sort_key (\<lambda>r. (dr_table r, dr_iid r)) (filter (\<lambda>r. dr_value r \<noteq> None) (newest_docs (ds_documents st)))"

definition idx_rows_now :: "doc_store \<Rightarrow> idx_row list" where
  "idx_rows_now st = sort_key (\<lambda>r. (ir_index r, ir_key r)) (newest_idxs (ds_indexes st))"

lemma dump_rows: "dumpCurrentState st =
    res_bind (res_map entry_of (map vdoc (doc_rows_now st))) (\<lambda>ds.
    res_bind (res_map update_of (map vidx (idx_rows_now st))) (\<lambda>ix. Inr \<lparr>sp_documents = ds, sp_indexUpdates = ix\<rparr>))"
proof -
  have m: "res_map f (map g xs) = res_map (\<lambda>x. f (g x)) xs" for f :: "'b \<Rightarrow> 'c result" and g :: "'a \<Rightarrow> 'b" and xs by (induction xs) simp_all
  have "res_map dump_doc (doc_rows_now st) = res_map (\<lambda>r. entry_of (vdoc r)) (doc_rows_now st)"
    by (rule res_map_cong) (auto simp: doc_rows_now_def dump_doc_view)
  moreover have "res_map dump_idx (idx_rows_now st) = res_map (\<lambda>r. update_of (vidx r)) (idx_rows_now st)"
    by (rule res_map_cong) (auto simp: dump_idx_view)
  ultimately show ?thesis unfolding dumpCurrentState_def doc_rows_now_def[symmetric] idx_rows_now_def[symmetric] m by simp
qed

text \<open>The rows a dump goes through are the live ones, each key once, in key order.\<close>

lemma doc_rows_now_set:
  assumes "no_later T (vdocs st)"
  shows "vdoc ` set (doc_rows_now st) = {(k, ts, Some v) |k ts v. live_at (vdocs st) T k ts v}" (is "?A = ?B")
proof
  show "?A \<subseteq> ?B"
  proof
    fix x assume "x \<in> ?A"
    then obtain r where r: "r \<in> set (doc_rows_now st)" "x = vdoc r" by (elim imageE)
    then have m: "r \<in> set (ds_documents st)" "dr_value r \<noteq> None"
        "\<And>r'. r' \<in> set (ds_documents st) \<Longrightarrow> dr_table r' = dr_table r \<Longrightarrow> dr_iid r' = dr_iid r \<Longrightarrow> dr_ts r' \<le> dr_ts r"
      by (auto simp: doc_rows_now_def newest_docs_def)
    then obtain v where v: "x = ((dr_table r, dr_iid r), dr_ts r, Some v)" using r(2) by (auto simp: vdoc_def)
    have "((dr_table r, dr_iid r), dr_ts r, Some v) \<in> vdocs st" unfolding vdocs_def using m(1) r(2) v by (metis image_eqI)
    moreover have "ts' \<le> dr_ts r" if "((dr_table r, dr_iid r), ts', p) \<in> vdocs st" for ts' p
    proof -
      from that obtain r' where "r' \<in> set (ds_documents st)" "((dr_table r, dr_iid r), ts', p) = vdoc r'" unfolding vdocs_def by (elim imageE)
      then show ?thesis using m(3)[of r'] by (simp add: vdoc_def)
    qed
    ultimately have "live_at (vdocs st) T (dr_table r, dr_iid r) (dr_ts r) v" using no_laterD[OF assms] unfolding live_at_def by blast
    then show "x \<in> ?B" using v by blast
  qed
next
  show "?B \<subseteq> ?A"
  proof
    fix x assume "x \<in> ?B"
    then obtain k ts v where x: "x = (k, ts, Some v)" and l: "live_at (vdocs st) T k ts v" by blast
    then have "(k, ts, Some v) \<in> vdoc ` set (ds_documents st)" by (simp add: live_at_def vdocs_def)
    then obtain r where r: "r \<in> set (ds_documents st)" "(k, ts, Some v) = vdoc r" by (elim imageE)
    have "dr_ts r' \<le> dr_ts r" if r': "r' \<in> set (ds_documents st)" "dr_table r' = dr_table r" "dr_iid r' = dr_iid r" for r'
    proof -
      have m: "vdoc r' \<in> vdocs st" using r'(1) by (simp add: vdocs_def)
      then have "(k, dr_ts r', snd (snd (vdoc r'))) \<in> vdocs st" using r'(2,3) r(2) by (simp add: vdoc_def)
      moreover have "dr_ts r' \<le> T" using no_laterD[OF assms] m by (simp add: vdoc_def)
      ultimately have "dr_ts r' \<le> ts" using l unfolding live_at_def by blast
      then show ?thesis using r(2) by (simp add: vdoc_def)
    qed
    moreover have "dr_value r \<noteq> None" using r(2) by (cases "dr_value r") (simp_all add: vdoc_def)
    ultimately have "r \<in> set (doc_rows_now st)" using r(1) by (simp add: doc_rows_now_def newest_docs_def)
    then show "x \<in> ?A" using r(2) x by (metis image_eqI)
  qed
qed

lemma idx_rows_now_set:
  assumes "no_later T (vidxs st)"
  shows "vidx ` set (idx_rows_now st) = {(k, ts, Some v) |k ts v. live_at (vidxs st) T k ts v}" (is "?A = ?B")
proof
  show "?A \<subseteq> ?B"
  proof
    fix x assume "x \<in> ?A"
    then obtain r where r: "r \<in> set (idx_rows_now st)" "x = vidx r" by (elim imageE)
    then have m: "r \<in> set (ds_indexes st)"
        "\<And>r'. r' \<in> set (ds_indexes st) \<Longrightarrow> ir_index r' = ir_index r \<Longrightarrow> ir_key r' = ir_key r \<Longrightarrow> ir_ts r' \<le> ir_ts r"
      by (auto simp: idx_rows_now_def newest_idxs_def)
    then obtain v where v: "x = ((ir_index r, ir_key r), ir_ts r, Some v)" using r(2) by (auto simp: vidx_def)
    have "((ir_index r, ir_key r), ir_ts r, Some v) \<in> vidxs st" unfolding vidxs_def using m(1) r(2) v by (metis image_eqI)
    moreover have "ts' \<le> ir_ts r" if "((ir_index r, ir_key r), ts', p) \<in> vidxs st" for ts' p
    proof -
      from that obtain r' where "r' \<in> set (ds_indexes st)" "((ir_index r, ir_key r), ts', p) = vidx r'" unfolding vidxs_def by (elim imageE)
      then show ?thesis using m(2)[of r'] by (simp add: vidx_def)
    qed
    ultimately have "live_at (vidxs st) T (ir_index r, ir_key r) (ir_ts r) v" using no_laterD[OF assms] unfolding live_at_def by blast
    then show "x \<in> ?B" using v by blast
  qed
next
  show "?B \<subseteq> ?A"
  proof
    fix x assume "x \<in> ?B"
    then obtain k ts v where x: "x = (k, ts, Some v)" and l: "live_at (vidxs st) T k ts v" by blast
    then have "(k, ts, Some v) \<in> vidx ` set (ds_indexes st)" by (simp add: live_at_def vidxs_def)
    then obtain r where r: "r \<in> set (ds_indexes st)" "(k, ts, Some v) = vidx r" by (elim imageE)
    have "ir_ts r' \<le> ir_ts r" if r': "r' \<in> set (ds_indexes st)" "ir_index r' = ir_index r" "ir_key r' = ir_key r" for r'
    proof -
      have m: "vidx r' \<in> vidxs st" using r'(1) by (simp add: vidxs_def)
      then have "(k, ir_ts r', snd (snd (vidx r'))) \<in> vidxs st" using r'(2,3) r(2) by (simp add: vidx_def)
      moreover have "ir_ts r' \<le> T" using no_laterD[OF assms] m by (simp add: vidx_def)
      ultimately have "ir_ts r' \<le> ts" using l unfolding live_at_def by blast
      then show ?thesis using r(2) by (simp add: vidx_def)
    qed
    then have "r \<in> set (idx_rows_now st)" using r(1) by (auto simp: idx_rows_now_def newest_idxs_def)
    then show "x \<in> ?A" using r(2) x by (metis image_eqI)
  qed
qed

lemma rows_now_sorted:
  assumes "keys_ok st"
  shows "sorted (map fst (map vdoc (doc_rows_now st)))" "distinct (map fst (map vdoc (doc_rows_now st)))"
    "sorted (map fst (map vidx (idx_rows_now st)))" "distinct (map fst (map vidx (idx_rows_now st)))"
proof -
  have f: "map fst (map vdoc xs) = map (\<lambda>r. (dr_table r, dr_iid r)) xs" "map fst (map vidx ys) = map (\<lambda>r. (ir_index r, ir_key r)) ys" for xs ys
    by (simp_all add: vdoc_def vidx_def)
  show "sorted (map fst (map vdoc (doc_rows_now st)))" "sorted (map fst (map vidx (idx_rows_now st)))"
    unfolding f by (simp_all add: doc_rows_now_def idx_rows_now_def)
  have d: "distinct (map doc_key (ds_documents st))" "distinct (map idx_key (ds_indexes st))" using assms by (simp_all add: keys_ok_def)
  have "inj_on (\<lambda>r. (dr_table r, dr_iid r)) (set (doc_rows_now st))"
  proof (rule inj_onI)
    fix x y assume m: "x \<in> set (doc_rows_now st)" "y \<in> set (doc_rows_now st)" "(dr_table x, dr_iid x) = (dr_table y, dr_iid y)"
    then have "dr_ts x = dr_ts y" by (auto simp: doc_rows_now_def newest_docs_def intro: order_antisym)
    then show "x = y" using m distinct_key[OF d(1), of x y] by (auto simp: doc_rows_now_def newest_docs_def doc_key_def)
  qed
  moreover have "distinct (doc_rows_now st)" using d(1) by (auto simp: doc_rows_now_def newest_docs_def distinct_map)
  ultimately show "distinct (map fst (map vdoc (doc_rows_now st)))" unfolding f distinct_map by blast
  have "inj_on (\<lambda>r. (ir_index r, ir_key r)) (set (idx_rows_now st))"
  proof (rule inj_onI)
    fix x y assume m: "x \<in> set (idx_rows_now st)" "y \<in> set (idx_rows_now st)" "(ir_index x, ir_key x) = (ir_index y, ir_key y)"
    then have "ir_ts x = ir_ts y" by (auto simp: idx_rows_now_def newest_idxs_def intro: order_antisym)
    then show "x = y" using m distinct_key[OF d(2), of x y] by (auto simp: idx_rows_now_def newest_idxs_def idx_key_def)
  qed
  moreover have "distinct (idx_rows_now st)" using d(2) by (auto simp: idx_rows_now_def newest_idxs_def distinct_map)
  ultimately show "distinct (map fst (map vidx (idx_rows_now st)))" unfolding f distinct_map by blast
qed

lemma sorted_by_key:
  "sorted (map fst xs) \<Longrightarrow> distinct (map fst xs) \<Longrightarrow> sorted (map fst ys) \<Longrightarrow> distinct (map fst ys) \<Longrightarrow> set xs = set ys \<Longrightarrow> xs = ys"
  for xs ys :: "('a :: linorder \<times> 'b) list"
  by (rule map_sorted_distinct_set_unique[of fst]) (auto simp: distinct_map)

text \<open>Stores that show the same dump the same.\<close>

lemma dump_eq:
  assumes "keys_ok st1" "keys_ok st2" "no_later T (vdocs st1)" "no_later T (vdocs st2)" "no_later T (vidxs st1)" "no_later T (vidxs st2)"
    and "\<And>k ts v. live_at (vdocs st1) T k ts v \<longleftrightarrow> live_at (vdocs st2) T k ts v"
    and "\<And>k ts v. live_at (vidxs st1) T k ts v \<longleftrightarrow> live_at (vidxs st2) T k ts v"
  shows "dumpCurrentState st1 = dumpCurrentState st2"
proof -
  have "map vdoc (doc_rows_now st1) = map vdoc (doc_rows_now st2)"
    by (rule sorted_by_key) (simp_all only: rows_now_sorted[OF assms(1)] rows_now_sorted[OF assms(2)] set_map
        doc_rows_now_set[OF assms(3)] doc_rows_now_set[OF assms(4)] assms(7))
  moreover have "map vidx (idx_rows_now st1) = map vidx (idx_rows_now st2)"
    by (rule sorted_by_key) (simp_all only: rows_now_sorted[OF assms(1)] rows_now_sorted[OF assms(2)] set_map
        idx_rows_now_set[OF assms(5)] idx_rows_now_set[OF assms(6)] assms(8))
  ultimately show ?thesis by (simp only: dump_rows)
qed

text \<open>A dump holds the rows that are live.\<close>

lemma dump_spec:
  assumes "keys_ok st" "docs_wf (vdocs st)" "idxs_wf (vidxs st)" "no_later T (vdocs st)" "no_later T (vidxs st)"
  obtains p where "dumpCurrentState st = Inr p" "payload_wf p" "pdocs p = {(k, ts, Some v) |k ts v. live_at (vdocs st) T k ts v}"
    "pidxs p = {(k, ts, Some v) |k ts v. live_at (vidxs st) T k ts v}"
proof -
  define D where "D = map vdoc (doc_rows_now st)"
  define X where "X = map vidx (idx_rows_now st)"
  have D: "set D = {(k, ts, Some v) |k ts v. live_at (vdocs st) T k ts v}" and X: "set X = {(k, ts, Some v) |k ts v. live_at (vidxs st) T k ts v}"
    unfolding D_def X_def set_map by (rule doc_rows_now_set[OF assms(4)], rule idx_rows_now_set[OF assms(5)])
  have "\<exists>e. entry_of x = Inr e \<and> entry_wf e \<and> vdoc (row_of_entry DEFAULT_SHARD e) = x" if m: "x \<in> set D" for x
  proof -
    obtain k ts v where x: "x = (k, ts, Some v)" "(k, ts, Some v) \<in> vdocs st" using m D unfolding live_at_def by blast
    show ?thesis unfolding x(1) by (rule entry_of_wf[OF assms(2) x(2), of DEFAULT_SHARD]) blast
  qed
  then obtain e where e: "\<And>x. x \<in> set D \<Longrightarrow> entry_of x = Inr (e x) \<and> entry_wf (e x) \<and> vdoc (row_of_entry DEFAULT_SHARD (e x)) = x" by metis
  have "\<exists>w. update_of x = Inr w \<and> vidx (row_of_update DEFAULT_SHARD w) = x" if m: "x \<in> set X" for x
  proof -
    obtain k ts v where x: "x = (k, ts, Some v)" "(k, ts, Some v) \<in> vidxs st" using m X unfolding live_at_def by blast
    show ?thesis unfolding x(1) by (rule update_of_wf[OF assms(3) x(2), of DEFAULT_SHARD]) blast
  qed
  then obtain w where w: "\<And>x. x \<in> set X \<Longrightarrow> update_of x = Inr (w x) \<and> vidx (row_of_update DEFAULT_SHARD (w x)) = x" by metis
  define p where "p = \<lparr>sp_documents = map e D, sp_indexUpdates = map w X\<rparr>"
  have "dumpCurrentState st = Inr p"
    using res_map_all[of D entry_of e] res_map_all[of X update_of w] e w unfolding dump_rows D_def[symmetric] X_def[symmetric] p_def by simp
  moreover have rows: "pdocs p = set D" "pidxs p = set X"
    using e w by (simp_all add: pdocs_def pidxs_def p_def image_image)
  moreover have "payload_wf p"
  proof -
    have "unambiguous (set D)" "unambiguous (set X)"
      using unambiguous_keys[OF assms(1)] unfolding D X unambiguous_def live_at_def by blast+
    then show ?thesis using e rows by (simp add: payload_wf_def p_def)
  qed
  ultimately show ?thesis using that D X by simp
qed

section \<open>Restoring a snapshot\<close>

lemma vidxs_some: "(k, ts, None) \<notin> vidxs st"
  by (auto simp: vidxs_def vidx_def)

lemma sound_vidxs: "unambiguous L \<Longrightarrow> sound L (vidxs st) \<longleftrightarrow> vidxs st \<subseteq> L"
proof
  assume s: "sound L (vidxs st)"
  show "vidxs st \<subseteq> L"
  proof
    fix x assume x: "x \<in> vidxs st"
    obtain k ts p where xp: "x = (k, ts, p)" by (cases x)
    then obtain v where "p = Some v" using x vidxs_some[of k ts st] by (cases p) auto
    then show "x \<in> L" using soundD(1)[OF s, of k ts v] x xp by simp
  qed
qed (rule sound_subset)

lemma ekey_eq: "0 \<le> tableNumber a \<Longrightarrow> 0 \<le> tableNumber b \<Longrightarrow>
    documentIdKey a = documentIdKey b \<longleftrightarrow> (encodeStorageTableId (tableNumber a), internalId a) = (encodeStorageTableId (tableNumber b), internalId b)"
  using documentIdKey_inj[of a b] by (cases a, cases b) (auto simp: encodeStorageTableId_def)

lemma entry_view: "vdoc (row_of_entry sh e) = ((encodeStorageTableId (tableNumber (le_id e)), internalId (le_id e)), le_ts e,
    map_option (\<lambda>d. (le_prev_ts e, serializeValue d)) (le_value e))"
  by (simp add: vdoc_def row_of_entry_def option.map_comp o_def)

text \<open>The tombstones for what a snapshot dropped.\<close>

lemma buried_rows:
  assumes cur: "payload_wf cur" "pdocs cur = {(k, ts, Some v) |k ts v. live_at S T k ts v}"
    and p: "payload_wf p" "pdocs p = {(k, ts, Some v) |k ts v. live_at L F k ts v}"
    and b: "b = \<lparr>sp_documents = map (\<lambda>d. \<lparr>le_ts = F, le_id = le_id d, le_value = None, le_prev_ts = Some (le_ts d)\<rparr>)
      (filter (\<lambda>d. documentIdKey (le_id d) \<notin> set (map (\<lambda>d. documentIdKey (le_id d)) (sp_documents p))) (sp_documents cur)), sp_indexUpdates = []\<rparr>"
  shows "pdocs b = {(k, F, None) |k. (\<exists>ts v. live_at S T k ts v) \<and> (\<forall>ts v. \<not> live_at L F k ts v)}" "pidxs b = {}"
proof -
  let ?key = "\<lambda>d. (encodeStorageTableId (tableNumber (le_id d)), internalId (le_id d))"
  have wf: "0 \<le> tableNumber (le_id d)" if "d \<in> set (sp_documents cur) \<union> set (sp_documents p)" for d
    using that cur(1) p(1) by (auto simp: payload_wf_def entry_wf_def)
  have gone: "documentIdKey (le_id d) \<notin> set (map (\<lambda>d. documentIdKey (le_id d)) (sp_documents p)) \<longleftrightarrow> ?key d \<notin> ?key ` set (sp_documents p)"
    if d: "d \<in> set (sp_documents cur)" for d
  proof -
    have "documentIdKey (le_id d) = documentIdKey (le_id e) \<longleftrightarrow> ?key d = ?key e" if "e \<in> set (sp_documents p)" for e
      by (rule ekey_eq) (use d that wf in blast)+
    then show ?thesis by fastforce
  qed
  have keys: "?key ` set (sp_documents q) = fst ` pdocs q" for q by (simp add: pdocs_def image_image entry_view)
  have snap: "?key ` set (sp_documents p) = {k. \<exists>ts v. live_at L F k ts v}" unfolding keys p(2) by force
  have now: "?key ` set (sp_documents cur) = {k. \<exists>ts v. live_at S T k ts v}" unfolding keys cur(2) by force
  have "pdocs b = (\<lambda>d. (?key d, F, None)) ` {d \<in> set (sp_documents cur). ?key d \<notin> ?key ` set (sp_documents p)}"
  proof -
    have "{d \<in> set (sp_documents cur). documentIdKey (le_id d) \<notin> set (map (\<lambda>d. documentIdKey (le_id d)) (sp_documents p))} =
        {d \<in> set (sp_documents cur). ?key d \<notin> ?key ` set (sp_documents p)}"
      using gone by blast
    then show ?thesis by (simp add: b pdocs_def image_image entry_view)
  qed
  also have "\<dots> = (\<lambda>k. (k, F, None)) ` (?key ` set (sp_documents cur) - ?key ` set (sp_documents p))" by blast
  also have "\<dots> = {(k, F, None) |k. (\<exists>ts v. live_at S T k ts v) \<and> (\<forall>ts v. \<not> live_at L F k ts v)}" unfolding snap now by blast
  finally show "pdocs b = {(k, F, None) |k. (\<exists>ts v. live_at S T k ts v) \<and> (\<forall>ts v. \<not> live_at L F k ts v)}" .
  show "pidxs b = {}" by (simp add: b pidxs_def)
qed

definition follows :: "(doc_key, doc_val) vrows \<Rightarrow> (doc_key, idx_val) vrows \<Rightarrow> int \<Rightarrow> doc_store \<Rightarrow> bool" where
  "follows LD LX T st \<longleftrightarrow> keys_ok st \<and> sound LD (vdocs st) \<and> sound LX (vidxs st) \<and> no_later T (vdocs st) \<and> no_later T (vidxs st)"

definition has_all :: "(doc_key, doc_val) vrows \<Rightarrow> (doc_key, idx_val) vrows \<Rightarrow> int \<Rightarrow> doc_store \<Rightarrow> bool" where
  "has_all LD LX U st \<longleftrightarrow> up_to LD U (vdocs st) \<and> up_to LX U (vidxs st)"

definition log_wf :: "(doc_key, doc_val) vrows \<Rightarrow> (doc_key, idx_val) vrows \<Rightarrow> int \<Rightarrow> bool" where
  "log_wf LD LX T \<longleftrightarrow> unambiguous LD \<and> unambiguous LX \<and> finite LX \<and> docs_wf LD \<and> idxs_wf LX \<and> no_later T LD \<and> no_later T LX"

definition snapshot_of :: "(doc_key, doc_val) vrows \<Rightarrow> (doc_key, idx_val) vrows \<Rightarrow> int \<Rightarrow> segment_payload \<Rightarrow> bool" where
  "snapshot_of LD LX F p \<longleftrightarrow> payload_wf p \<and> pdocs p = {(k, ts, Some v) |k ts v. live_at LD F k ts v} \<and>
     pidxs p = {(k, ts, Some v) |k ts v. live_at LX F k ts v}"

lemma live_sound: "unambiguous L \<Longrightarrow> N = {(k, ts, Some v) |k ts v. live_at L F k ts v} \<Longrightarrow> sound L N"
  by (rule sound_subset) (auto simp: live_at_def)

lemma live_upto: "N = {(k, ts, Some v) |k ts v. live_at L F k ts v} \<Longrightarrow> F \<le> T \<Longrightarrow> no_later T N"
  unfolding no_later_def live_at_def by fastforce

text \<open>A live row is not superseded before its time.\<close>

lemma live_fresh: "live_at L F k ts v \<Longrightarrow> (k, ts', p) \<in> L \<Longrightarrow> ts < ts' \<Longrightarrow> ts' \<le> U \<Longrightarrow> U \<le> F \<Longrightarrow> False"
  unfolding live_at_def by fastforce

lemma restore_spec:
  assumes log: "log_wf LD LX T" and st: "follows LD LX T st" and p: "snapshot_of LD LX F p" and F: "F \<le> T"
  obtains st' ds where "applySnapshotState st p F = Inr (st', ds)" "follows LD LX T st'" "has_all LD LX F st'"
    "\<And>U. U \<le> F \<Longrightarrow> has_all LD LX U st \<Longrightarrow> has_all LD LX U st'"
proof -
  note log' = log[unfolded log_wf_def] and st' = st[unfolded follows_def] and p' = p[unfolded snapshot_of_def]
  have s: "unambiguous LD" "unambiguous LX" "finite LX" "keys_ok st" "sound LD (vdocs st)" "sound LX (vidxs st)" "no_later T (vdocs st)" "no_later T (vidxs st)"
    using log' st' by blast+
  have X: "pdocs p = {(k, ts, Some v) |k ts v. live_at LD F k ts v}" "pidxs p = {(k, ts, Some v) |k ts v. live_at LX F k ts v}" "payload_wf p"
    using p' by blast+
  have wf: "docs_wf (vdocs st)" "idxs_wf (vidxs st)"
    using wf_mono[OF _ s(5)] idxs_wf_mono[OF _ sound_vidxs[OF s(2), THEN iffD1, OF s(6)]] log' by blast+
  obtain cur where cur: "dumpCurrentState st = Inr cur" "payload_wf cur" "pdocs cur = {(k, ts, Some v) |k ts v. live_at (vdocs st) T k ts v}"
    by (rule dump_spec[OF s(4) wf s(7,8)])
  define dropped where "dropped = filter (\<lambda>d. documentIdKey (le_id d) \<notin> set (map (\<lambda>d. documentIdKey (le_id d)) (sp_documents p))) (sp_documents cur)"
  define dead where "dead = map (\<lambda>d. \<lparr>le_ts = F, le_id = le_id d, le_value = None, le_prev_ts = Some (le_ts d)\<rparr>) dropped"
  define b where "b = \<lparr>sp_documents = dead, sp_indexUpdates = []\<rparr>"
  have b: "pdocs b = {(k, F, None) |k. (\<exists>ts v. live_at (vdocs st) T k ts v) \<and> (\<forall>ts v. \<not> live_at LD F k ts v)}" "pidxs b = {}"
    using buried_rows[OF cur(2,3) X(3,1) b_def[unfolded dead_def dropped_def]] by blast+
  have sb: "unambiguous (pdocs b)" "unambiguous (pidxs b)" unfolding b unambiguous_def by blast+
  obtain st1 where st1: "ds_write dead [] Overwrite None st = Inr st1" "keys_ok st1" "written (vdocs st) (pdocs b) (vdocs st1)"
      "written (vidxs st) (pidxs b) (vidxs st1)"
    using ds_write_rows[OF s(4) sb, where shardId = None] by (auto simp: b_def)
  define local1 where "local1 = (if dropped = [] then st else st1)"
  have l1: "keys_ok local1" "written (vdocs st) (pdocs b) (vdocs local1)" "written (vidxs st) {} (vidxs local1)"
    "(if dropped = [] then Inr st else ds_write dead [] Overwrite None st) = Inr local1"
  proof -
    have "dropped = [] \<Longrightarrow> pdocs b = {}" by (simp add: pdocs_def b_def dead_def)
    then show "keys_ok local1" "written (vdocs st) (pdocs b) (vdocs local1)" "written (vidxs st) {} (vidxs local1)"
      using s(4) st1 b(2) by (auto simp: local1_def written_def)
    show "(if dropped = [] then Inr st else ds_write dead [] Overwrite None st) = Inr local1" using st1(1) by (simp add: local1_def)
  qed
  have sp: "unambiguous (pdocs p)" "unambiguous (pidxs p)" using X(3) by (simp_all add: payload_wf_def)
  obtain st2 where st2: "ds_write (sp_documents p) (sp_indexUpdates p) Overwrite None local1 = Inr st2" "keys_ok st2"
      "written (vdocs local1) (pdocs p) (vdocs st2)" "written (vidxs local1) (pidxs p) (vidxs st2)"
    by (rule ds_write_rows[OF l1(1) sp])
  have res: "applySnapshotState st p F = Inr (st2, dead)"
    unfolding applySnapshotState_def Let_def cur(1) res_bind_simps dropped_def[symmetric] dead_def[symmetric] l1(4) st2(1) ..
  have sd: "sound LD (pdocs b)" unfolding sound_def b by blast
  have sd1: "sound LD (vdocs local1)" by (rule sound_written[OF l1(2) s(5) sd])
  have sx1: "sound LX (vidxs local1)" by (rule sound_written[OF l1(3) s(6)]) (simp add: sound_def)
  have sd2: "sound LD (vdocs st2)" by (rule sound_written[OF st2(3) sd1 live_sound[OF s(1) X(1)]])
  have sx2: "sound LX (vidxs st2)" by (rule sound_written[OF st2(4) sx1 live_sound[OF s(2) X(2)]])
  have "no_later T (vdocs local1)" by (rule no_later_written[OF l1(2) s(7)]) (use F in \<open>auto simp: no_later_def b\<close>)
  then have "no_later T (vdocs st2)" by (rule no_later_written[OF st2(3) _ live_upto[OF X(1) F]])
  moreover have "no_later T (vidxs local1)" by (rule no_later_written[OF l1(3) s(8)]) (simp add: no_later_def)
  then have "no_later T (vidxs st2)" by (rule no_later_written[OF st2(4) _ live_upto[OF X(2) F]])
  ultimately have fol: "follows LD LX T st2" using st2(2) sd2 sx2 by (simp add: follows_def)
  have top: "live_at (vdocs st) T k ts v" if "(k, ts, Some v) \<in> vdocs st" "\<forall>ts' p. (k, ts', p) \<in> vdocs st \<longrightarrow> ts' \<le> ts" for k ts v
    using that no_laterD[OF s(7)] unfolding live_at_def by blast
  have "up_to LD F (vdocs st2)"
  proof (rule up_to_snapshot[OF l1(2) st2(3) s(1) sd2 X(1)])
    fix k ts v assume "(k, ts, Some v) \<in> vdocs st" "ts < F" "\<forall>ts' p. (k, ts', p) \<in> vdocs st \<longrightarrow> ts' \<le> ts" "\<forall>ts' v'. \<not> live_at LD F k ts' v'"
    then show "(k, F, None) \<in> pdocs b" using top unfolding b by blast
  next
    fix k ts q assume "(k, ts, q) \<in> pdocs b" then show "q = None" unfolding b by blast
  qed
  moreover have "up_to LX F (vidxs st2)"
  proof (rule up_to_snapshot[OF l1(3) st2(4) s(2) sx2 X(2)])
    fix k ts v assume a: "(k, ts, Some v) \<in> vidxs st" "ts < F" "\<forall>ts' v'. \<not> live_at LX F k ts' v'"
    have "(k, ts, Some v) \<in> LX" using soundD(1)[OF s(6) a(1)] .
    then have "\<exists>ts' v. live_at LX F k ts' v"
      by (intro some_live[OF s(3)]) (use a(2) log' in \<open>auto simp: idxs_wf_def\<close>)
    then show "(k, F, None) \<in> {}" using a(3) by blast
  qed simp
  ultimately have all: "has_all LD LX F st2" by (simp add: has_all_def)
  have keep: "has_all LD LX U st2" if U: "U \<le> F" and h: "has_all LD LX U st" for U
  proof -
    have "up_to LD U (vdocs local1)"
      by (rule up_to_written[OF l1(2) s(1) sd1]) (use h in \<open>auto simp: has_all_def b\<close>)
    then have "up_to LD U (vdocs st2)"
    proof (rule up_to_written[OF st2(3) s(1) sd2])
      fix k ts v ts' q assume a: "(k, ts, Some v) \<in> pdocs p" "(k, ts', q) \<in> LD" "ts < ts'" "ts' \<le> U"
      have "live_at LD F k ts v" using a(1) unfolding X(1) by blast
      then show "\<exists>ts'' p'. (k, ts'', p') \<in> vdocs local1 \<union> pdocs p \<and> ts < ts''" using live_fresh[OF _ a(2-4) U] by blast
    qed
    moreover have "up_to LX U (vidxs local1)"
      by (rule up_to_written[OF l1(3) s(2) sx1]) (use h in \<open>auto simp: has_all_def\<close>)
    then have "up_to LX U (vidxs st2)"
    proof (rule up_to_written[OF st2(4) s(2) sx2])
      fix k ts v ts' q assume a: "(k, ts, Some v) \<in> pidxs p" "(k, ts', q) \<in> LX" "ts < ts'" "ts' \<le> U"
      have "live_at LX F k ts v" using a(1) unfolding X(2) by blast
      then show "\<exists>ts'' p'. (k, ts'', p') \<in> vidxs local1 \<union> pidxs p \<and> ts < ts''" using live_fresh[OF _ a(2-4) U] by blast
    qed
    ultimately show ?thesis by (simp add: has_all_def)
  qed
  show ?thesis by (rule that[OF res fol all keep])
qed

end
