(* ===== verification/Object_Log.thy ===== *)
theory Object_Log
  imports Object_Rows
begin

text \<open>
  The history of commits as versioned rows, a manifest against the history, the objects a bucket keeps of
  it, and materializing: what a store that reads a manifest's snapshot and segments ends up with.
\<close>

lemma after_mono: "after t N \<Longrightarrow> t' \<le> t \<Longrightarrow> after t' N"
  unfolding after_def by fastforce

section \<open>The history\<close>

definition seqnos :: "commit_log \<Rightarrow> int list" where
  "seqnos log = map fst log"

definition log_docs :: "commit_log \<Rightarrow> (doc_key, doc_val) vrows" where
  "log_docs log = (\<Union>(_, _, p) \<in> set log. pdocs p)"

definition log_idxs :: "commit_log \<Rightarrow> (doc_key, idx_val) vrows" where
  "log_idxs log = (\<Union>(_, _, p) \<in> set log. pidxs p)"

definition comes_after :: "int \<Rightarrow> segment_payload \<Rightarrow> bool" where
  "comes_after f p \<longleftrightarrow> after f (pdocs p) \<and> after f (pidxs p)"

definition logged_ok :: "int \<times> int \<times> segment_payload \<Rightarrow> bool" where
  "logged_ok = (\<lambda>(q, f, p). 0 \<le> q \<and> 0 < f \<and> payload_wf p \<and> comes_after 0 p \<and> no_later f (pdocs p) \<and> no_later f (pidxs p))"

definition precedes :: "int \<times> int \<times> segment_payload \<Rightarrow> int \<times> int \<times> segment_payload \<Rightarrow> bool" where
  "precedes = (\<lambda>(q, f, _) (q', f', p'). q < q' \<and> f < f' \<and> comes_after f p')"

definition history_ok :: "commit_log \<Rightarrow> bool" where
  "history_ok log \<longleftrightarrow> sorted_wrt precedes log \<and> list_all logged_ok log"

text \<open>The frontier of the commits below a seqno.\<close>

definition front :: "commit_log \<Rightarrow> int \<Rightarrow> int" where
  "front log n = Max (insert 0 {f. \<exists>q p. (q, f, p) \<in> set log \<and> q < n})"

lemma log_docsI: "(q, f, p) \<in> set log \<Longrightarrow> pdocs p \<subseteq> log_docs log" "(q, f, p) \<in> set log \<Longrightarrow> pidxs p \<subseteq> log_idxs log"
  unfolding log_docs_def log_idxs_def by blast+

lemma log_docsE:
  assumes "x \<in> log_docs log" obtains q f p where "(q, f, p) \<in> set log" "x \<in> pdocs p"
  using assms unfolding log_docs_def by blast

lemma log_idxsE:
  assumes "x \<in> log_idxs log" obtains q f p where "(q, f, p) \<in> set log" "x \<in> pidxs p"
  using assms unfolding log_idxs_def by blast

lemma log_entry: "history_ok log \<Longrightarrow> x \<in> set log \<Longrightarrow> logged_ok x"
  by (simp add: history_ok_def list_all_iff)

lemma log_entryD:
  assumes "history_ok log" "(q, f, p) \<in> set log"
  shows "0 \<le> q" "0 < f" "payload_wf p" "comes_after 0 p" "no_later f (pdocs p)" "no_later f (pidxs p)"
  using log_entry[OF assms] by (simp_all add: logged_ok_def)

lemma sorted_wrt_cases: "sorted_wrt R xs \<Longrightarrow> x \<in> set xs \<Longrightarrow> y \<in> set xs \<Longrightarrow> x = y \<or> R x y \<or> R y x"
  by (induction xs) auto

lemma log_before:
  assumes "history_ok log" "(q, f, p) \<in> set log" "(q', f', p') \<in> set log"
  shows "q < q' \<Longrightarrow> f < f' \<and> comes_after f p'" "q = q' \<Longrightarrow> f = f' \<and> p = p'"
  using sorted_wrt_cases[of precedes log "(q, f, p)" "(q', f', p')"] assms by (auto simp: history_ok_def precedes_def)

lemma front_finite: "finite {f. \<exists>q p. (q, f, p) \<in> set log \<and> q < n}"
proof (rule finite_subset)
  show "{f. \<exists>q p. (q, f, p) \<in> set log \<and> q < n} \<subseteq> (\<lambda>(_, f, _). f) ` set log" by force
  show "finite ((\<lambda>(_, f, _). f) ` set log)" by simp
qed

lemma front_nonneg [simp]: "0 \<le> front log n"
  unfolding front_def by (rule Max_ge) (simp_all only: finite_insert front_finite insertI1)

lemma front_ge: "(q, f, p) \<in> set log \<Longrightarrow> q < n \<Longrightarrow> f \<le> front log n"
  unfolding front_def
proof (rule Max_ge)
  show "finite (insert 0 {f. \<exists>q p. (q, f, p) \<in> set log \<and> q < n})" by (simp only: finite_insert front_finite)
qed blast

lemma front_in: "front log n = 0 \<or> (\<exists>q p. (q, front log n, p) \<in> set log \<and> q < n)"
proof -
  have "front log n \<in> insert 0 {f. \<exists>q p. (q, f, p) \<in> set log \<and> q < n}"
    unfolding front_def by (rule Max_in) (simp_all only: finite_insert front_finite insert_not_empty not_False_eq_True)
  then show ?thesis by blast
qed

lemma front_mono: "n \<le> n' \<Longrightarrow> front log n \<le> front log n'"
  using front_in[of log n] front_ge[of _ _ _ log n'] by fastforce

lemma front_cong: "(\<And>q. q \<in> set (seqnos log) \<Longrightarrow> q < n \<longleftrightarrow> q < n') \<Longrightarrow> front log n = front log n'"
proof -
  assume a: "\<And>q. q \<in> set (seqnos log) \<Longrightarrow> q < n \<longleftrightarrow> q < n'"
  have "q < n \<longleftrightarrow> q < n'" if "(q, f, p) \<in> set log" for q f p using a[of q] that by (force simp: seqnos_def)
  then have "{f. \<exists>q p. (q, f, p) \<in> set log \<and> q < n} = {f. \<exists>q p. (q, f, p) \<in> set log \<and> q < n'}" by blast
  then show ?thesis by (simp add: front_def)
qed

lemma front_none: "(\<And>q. q \<in> set (seqnos log) \<Longrightarrow> n \<le> q) \<Longrightarrow> front log n = 0"
  using front_in[of log n] by (force simp: seqnos_def)

lemma front_at:
  assumes "history_ok log" "(n, f, p) \<in> set log" shows "front log (n + 1) = f"
proof (rule antisym)
  show "f \<le> front log (n + 1)" using front_ge[OF assms(2)] by simp
  have "0 < f" using log_entry[OF assms] by (simp add: logged_ok_def)
  moreover have "f' \<le> f" if "(q, f', p') \<in> set log" "q < n + 1" for q f' p'
    using log_before[OF assms(1) that(1) assms(2)] that(2) by (cases "q < n") auto
  ultimately show "front log (n + 1) \<le> f" using front_in[of log "n + 1"] by fastforce
qed

lemma front_append: "n \<le> q \<Longrightarrow> front (log @ [(q, f, p)]) n = front log n"
proof -
  assume "n \<le> q"
  then have "{f'. \<exists>q' p'. (q', f', p') \<in> set (log @ [(q, f, p)]) \<and> q' < n} = {f'. \<exists>q' p'. (q', f', p') \<in> set log \<and> q' < n}" by auto
  then show ?thesis by (simp add: front_def)
qed

lemma log_no_later:
  assumes "history_ok log" "\<forall>q \<in> set (seqnos log). q < n"
  shows "no_later (front log n) (log_docs log)" "no_later (front log n) (log_idxs log)"
proof -
  have le: "f \<le> front log n" if "(q, f, p) \<in> set log" for q f p
    by (rule front_ge[OF that]) (use that assms(2) in \<open>force simp: seqnos_def\<close>)
  show "no_later (front log n) (log_docs log)"
    unfolding no_later_def
  proof (intro allI impI)
    fix k ts r assume "(k, ts, r) \<in> log_docs log"
    then obtain q f p where x: "(q, f, p) \<in> set log" "(k, ts, r) \<in> pdocs p" by (rule log_docsE)
    show "ts \<le> front log n" using no_laterD[OF log_entryD(5)[OF assms(1) x(1)] x(2)] le[OF x(1)] by (rule order_trans)
  qed
  show "no_later (front log n) (log_idxs log)"
    unfolding no_later_def
  proof (intro allI impI)
    fix k ts r assume "(k, ts, r) \<in> log_idxs log"
    then obtain q f p where x: "(q, f, p) \<in> set log" "(k, ts, r) \<in> pidxs p" by (rule log_idxsE)
    show "ts \<le> front log n" using no_laterD[OF log_entryD(6)[OF assms(1) x(1)] x(2)] le[OF x(1)] by (rule order_trans)
  qed
qed

lemma log_after:
  assumes "history_ok log" shows "after 0 (log_docs log)" "after 0 (log_idxs log)"
  using log_entryD(4)[OF assms] unfolding after_def comes_after_def by (blast elim: log_docsE log_idxsE)+

lemma log_apart:
  assumes "history_ok log" "(q, f, p) \<in> set log" "(q', f', p') \<in> set log"
  shows "(k, ts, r) \<in> pdocs p \<Longrightarrow> (k, ts, r') \<in> pdocs p' \<Longrightarrow> q = q'" "(k, ts, i) \<in> pidxs p \<Longrightarrow> (k, ts, i') \<in> pidxs p' \<Longrightarrow> q = q'"
proof -
  have e: "no_later f (pdocs p)" "no_later f (pidxs p)" "no_later f' (pdocs p')" "no_later f' (pidxs p')"
    using log_entry[OF assms(1,2)] log_entry[OF assms(1,3)] by (simp_all add: logged_ok_def)
  have o: "q < q' \<Longrightarrow> after f (pdocs p') \<and> after f (pidxs p')" "q' < q \<Longrightarrow> after f' (pdocs p) \<and> after f' (pidxs p)"
    using log_before(1)[OF assms(1)] assms(2,3) by (auto simp: comes_after_def)
  show "(k, ts, r) \<in> pdocs p \<Longrightarrow> (k, ts, r') \<in> pdocs p' \<Longrightarrow> q = q'"
    using e(1,3) o no_laterD afterD by (metis linorder_neqE_linordered_idom linorder_not_less)
  show "(k, ts, i) \<in> pidxs p \<Longrightarrow> (k, ts, i') \<in> pidxs p' \<Longrightarrow> q = q'"
    using e(2,4) o no_laterD afterD by (metis linorder_neqE_linordered_idom linorder_not_less)
qed

lemma log_single: "history_ok log \<Longrightarrow> unambiguous (log_docs log)" "history_ok log \<Longrightarrow> unambiguous (log_idxs log)"
proof -
  assume l: "history_ok log"
  have w: "unambiguous (pdocs p) \<and> unambiguous (pidxs p)" if "(q, f, p) \<in> set log" for q f p
    using log_entry[OF l that] by (simp add: logged_ok_def payload_wf_def)
  show "unambiguous (log_docs log)" unfolding unambiguous_def
    by (intro allI impI) (elim log_docsE, metis log_apart(1)[OF l] log_before(2)[OF l] unambiguousD w)
  show "unambiguous (log_idxs log)" unfolding unambiguous_def
    by (intro allI impI) (elim log_idxsE, metis log_apart(2)[OF l] log_before(2)[OF l] unambiguousD w)
qed

lemma log_log_wf:
  assumes "history_ok log" "\<forall>q \<in> set (seqnos log). q < n"
  shows "log_wf (log_docs log) (log_idxs log) (front log n)"
proof -
  have "docs_wf (pdocs p)" if "(q, f, p) \<in> set log" for q f p
    by (rule payload_docs_wf) (use log_entry[OF assms(1) that] in \<open>simp add: logged_ok_def\<close>)
  then have "docs_wf (log_docs log)" unfolding docs_wf_def by (blast elim: log_docsE)
  moreover have "idxs_wf (log_idxs log)" using payload_idxs_wf unfolding idxs_wf_def by (blast elim: log_idxsE)
  moreover have "finite (log_idxs log)" by (auto simp: log_idxs_def pidxs_def)
  ultimately show ?thesis using log_single[OF assms(1)] log_no_later[OF assms] by (simp add: log_wf_def)
qed

text \<open>The commit that is next above a seqno holds what happened between the two frontiers.\<close>

lemma next_rows:
  assumes "history_ok log" "(n, f, p) \<in> set log" "a < n" "\<And>q. q \<in> set (seqnos log) \<Longrightarrow> a < q \<Longrightarrow> n \<le> q"
  shows "comes_after (front log (a + 1)) p" "front log (a + 1) \<le> f"
    "(k, ts, r) \<in> log_docs log \<Longrightarrow> front log (a + 1) < ts \<Longrightarrow> ts \<le> f \<Longrightarrow> (k, ts, r) \<in> pdocs p"
    "(k, ts, i) \<in> log_idxs log \<Longrightarrow> front log (a + 1) < ts \<Longrightarrow> ts \<le> f \<Longrightarrow> (k, ts, i) \<in> pidxs p"
proof -
  have e: "0 < f" "comes_after 0 p" using log_entry[OF assms(1,2)] by (simp_all add: logged_ok_def)
  show "comes_after (front log (a + 1)) p"
    using front_in[of log "a + 1"] log_before(1)[OF assms(1) _ assms(2)] assms(3) e(2) by fastforce
  show "front log (a + 1) \<le> f"
    using front_in[of log "a + 1"] log_before(1)[OF assms(1) _ assms(2)] assms(3) e(1) by fastforce
  have q: "q = n" if "(q, f', p') \<in> set log" "front log (a + 1) < ts" "ts \<le> f" "ts \<le> f'" "n < q \<Longrightarrow> f < ts" for q f' p'
  proof -
    have "\<not> q < a + 1" using front_ge[OF that(1), of "a + 1"] that(2,4) by fastforce
    moreover have "q \<in> set (seqnos log)" using that(1) by (force simp: seqnos_def)
    ultimately show ?thesis using assms(4)[of q] that(3,5) by fastforce
  qed
  show "(k, ts, r) \<in> pdocs p" if m: "(k, ts, r) \<in> log_docs log" "front log (a + 1) < ts" "ts \<le> f"
  proof -
    obtain q f' p' where x: "(q, f', p') \<in> set log" "(k, ts, r) \<in> pdocs p'" by (rule log_docsE[OF m(1)])
    have "ts \<le> f'" using log_entry[OF assms(1) x(1)] no_laterD x(2) by (fastforce simp: logged_ok_def)
    moreover have "n < q \<Longrightarrow> f < ts" using log_before(1)[OF assms(1,2) x(1)] afterD x(2) by (fastforce simp: comes_after_def)
    ultimately have "q = n" using q[OF x(1) m(2,3)] by blast
    then show ?thesis using log_before(2)[OF assms(1) x(1) assms(2)] x(2) by blast
  qed
  show "(k, ts, i) \<in> pidxs p" if m: "(k, ts, i) \<in> log_idxs log" "front log (a + 1) < ts" "ts \<le> f"
  proof -
    obtain q f' p' where x: "(q, f', p') \<in> set log" "(k, ts, i) \<in> pidxs p'" by (rule log_idxsE[OF m(1)])
    have "ts \<le> f'" using log_entry[OF assms(1) x(1)] no_laterD x(2) by (fastforce simp: logged_ok_def)
    moreover have "n < q \<Longrightarrow> f < ts" using log_before(1)[OF assms(1,2) x(1)] afterD x(2) by (fastforce simp: comes_after_def)
    ultimately have "q = n" using q[OF x(1) m(2,3)] by blast
    then show ?thesis using log_before(2)[OF assms(1) x(1) assms(2)] x(2) by blast
  qed
qed

section \<open>Growing\<close>

lemma log_snoc:
  assumes "history_ok log" "\<forall>x \<in> set (seqnos log). x < n" "n \<le> q" "front log n < f" "payload_wf p"
    "comes_after (front log n) p" "no_later f (pdocs p)" "no_later f (pidxs p)" "0 \<le> n"
  shows "history_ok (log @ [(q, f, p)])"
proof -
  have "precedes (q', f', p') (q, f, p)" if x: "(q', f', p') \<in> set log" for q' f' p'
  proof -
    have "q' < n" using x assms(2) by (force simp: seqnos_def)
    moreover have f: "f' \<le> front log n" by (rule front_ge[OF x \<open>q' < n\<close>])
    moreover have "comes_after f' p" using assms(6) after_mono[OF _ f, of "pdocs p"] after_mono[OF _ f, of "pidxs p"] by (simp add: comes_after_def)
    ultimately show ?thesis using assms(3,4) by (simp add: precedes_def)
  qed
  moreover have "logged_ok (q, f, p)"
    unfolding logged_ok_def comes_after_def prod.case
    using assms(3-9) front_nonneg[of log n] after_mono[OF _ front_nonneg, of log n "pdocs p"] after_mono[OF _ front_nonneg, of log n "pidxs p"]
    unfolding comes_after_def by linarith
  ultimately show ?thesis using assms(1) by (simp add: history_ok_def sorted_wrt_append split_paired_all)
qed

lemma log_docs_snoc [simp]: "log_docs (log @ [(q, f, p)]) = log_docs log \<union> pdocs p" "log_idxs (log @ [(q, f, p)]) = log_idxs log \<union> pidxs p"
  by (auto simp: log_docs_def log_idxs_def)

lemma seqnos_snoc [simp]: "seqnos (log @ [(q, f, p)]) = seqnos log @ [q]"
  by (simp add: seqnos_def)

lemma follows_grow:
  assumes "follows LD LX T st" "no_later B LD" "no_later B LX" "after B ND" "after B NX" "T \<le> B" "T \<le> T'"
  shows "follows (LD \<union> ND) (LX \<union> NX) T' st"
proof -
  have s: "no_later B (vdocs st)" "no_later B (vidxs st)" "no_later T' (vdocs st)" "no_later T' (vidxs st)"
    using assms(1,6,7) by (auto simp: follows_def intro: no_later_mono)
  then show ?thesis using assms sound_grow[OF _ assms(2,4) s(1)] sound_grow[OF _ assms(3,5) s(2)] unfolding follows_def by simp
qed

lemma has_all_grow:
  assumes "has_all LD LX U st" "no_later B LD" "no_later B LX" "after B ND" "after B NX" "U \<le> B"
  shows "has_all (LD \<union> ND) (LX \<union> NX) U st"
  using assms up_to_grow[of LD U "vdocs st" B ND] up_to_grow[of LX U "vidxs st" B NX] unfolding has_all_def by simp

lemma snapshot_of_grow:
  assumes "snapshot_of LD LX t p" "no_later B LD" "no_later B LX" "after B ND" "after B NX" "t \<le> B"
  shows "snapshot_of (LD \<union> ND) (LX \<union> NX) t p"
  using assms live_at_grow[of B LD ND t] live_at_grow[of B LX NX t] unfolding snapshot_of_def by simp

lemma has_all_0: "after 0 LD \<Longrightarrow> after 0 LX \<Longrightarrow> has_all LD LX 0 st"
  by (simp add: has_all_def up_to_none)

section \<open>Manifests and objects\<close>

definition seg_base :: "manifest \<Rightarrow> int" where
  "seg_base m = (case mf_snapshotSegBase m of None \<Rightarrow> -1 | Some base \<Rightarrow> base)"

definition manifest_ok :: "commit_log \<Rightarrow> manifest \<Rightarrow> bool" where
  "manifest_ok log m \<longleftrightarrow>
     mf_segments m = filter (\<lambda>n. seg_base m < n \<and> n < mf_nextSeqno m) (seqnos log) \<and>
     mf_frontierTs m = front log (mf_nextSeqno m) \<and> mf_tsCounter m = mf_frontierTs m \<and>
     0 \<le> mf_nextSeqno m \<and> 0 \<le> mf_epoch m \<and> -1 \<le> seg_base m \<and> seg_base m < mf_nextSeqno m \<and>
     (case mf_snapshotTs m of
        None \<Rightarrow> mf_snapshotSegBase m = None
      | Some t \<Rightarrow> (\<exists>base. mf_snapshotSegBase m = Some base \<and> t = front log (base + 1)))"

definition segs_ok :: "commit_log \<Rightarrow> int \<Rightarrow> object_bucket \<Rightarrow> bool" where
  "segs_ok log base b \<longleftrightarrow> (\<forall>(q, f, p) \<in> set log. map_of b (SegmentKey q) = Some (SegmentBody (encodeSegment p)) \<or>
     map_of b (SegmentKey q) = None \<and> q \<le> base)"

definition snaps_ok :: "commit_log \<Rightarrow> int \<Rightarrow> object_bucket \<Rightarrow> bool" where
  "snaps_ok log T b \<longleftrightarrow> (\<forall>t body. map_of b (SnapshotKey t) = Some body \<longrightarrow> t \<le> T \<and>
     (\<exists>p. body = SnapshotBody (encodeSnapshot p) \<and> sn_frontierTs p = t \<and> snapshot_of (log_docs log) (log_idxs log) t (sn_rows p)))"

lemma segs_okD: "segs_ok log base b \<Longrightarrow> (q, f, p) \<in> set log \<Longrightarrow>
    map_of b (SegmentKey q) = Some (SegmentBody (encodeSegment p)) \<or> map_of b (SegmentKey q) = None \<and> q \<le> base"
  unfolding segs_ok_def by blast

lemma manifest_base: "manifest_ok log m \<Longrightarrow> mf_snapshotTs m = Some t \<Longrightarrow>
    mf_snapshotSegBase m = Some (seg_base m) \<and> t = front log (seg_base m + 1)"
  by (auto simp: manifest_ok_def seg_base_def)

lemma manifest_no_base: "manifest_ok log m \<Longrightarrow> mf_snapshotTs m = None \<Longrightarrow> mf_snapshotSegBase m = None \<and> seg_base m = -1"
  by (auto simp: manifest_ok_def seg_base_def)

lemma snapshot_read:
  assumes "snapshot_of LD LX t (sn_rows p)" "sn_frontierTs p = t"
  obtains p' where "decodeSnapshot (encodeSnapshot p) = Inr p'" "sn_frontierTs p' = t" "snapshot_of LD LX t (sn_rows p')"
proof -
  have "payload_wf (sn_rows p)" using assms(1) by (simp add: snapshot_of_def)
  then obtain r where r: "decodeSegment (encodeSegment (sn_rows p)) = Inr r" "pdocs r = pdocs (sn_rows p)" "pidxs r = pidxs (sn_rows p)" "payload_wf r"
    by (rule segment_roundtrip)
  show ?thesis
    by (rule that[of "p\<lparr>sn_rows := r\<rparr>"]) (use r assms in \<open>simp_all add: decodeSnapshot_def encodeSnapshot_def snapshot_of_def\<close>)
qed

lemma restore_snapshot_ok:
  assumes log: "log_wf (log_docs log) (log_idxs log) T" and st: "follows (log_docs log) (log_idxs log) T local" and b: "snaps_ok log T b"
    and "map_of b (SnapshotKey t) \<noteq> None"
  obtains local' where "restore_snapshot b t local = Inr local'" "follows (log_docs log) (log_idxs log) T local'"
    "has_all (log_docs log) (log_idxs log) t local'"
    "\<And>U. U \<le> t \<Longrightarrow> has_all (log_docs log) (log_idxs log) U local \<Longrightarrow> has_all (log_docs log) (log_idxs log) U local'"
proof -
  obtain p where p: "map_of b (SnapshotKey t) = Some (SnapshotBody (encodeSnapshot p))" "sn_frontierTs p = t"
      "snapshot_of (log_docs log) (log_idxs log) t (sn_rows p)" "t \<le> T"
    using assms(4) b unfolding snaps_ok_def by blast
  obtain p' where p': "decodeSnapshot (encodeSnapshot p) = Inr p'" "sn_frontierTs p' = t" "snapshot_of (log_docs log) (log_idxs log) t (sn_rows p')"
    by (rule snapshot_read[OF p(3,2)])
  obtain st' ds where r: "applySnapshotState local (sn_rows p') t = Inr (st', ds)" "follows (log_docs log) (log_idxs log) T st'"
      "has_all (log_docs log) (log_idxs log) t st'" "\<And>U. U \<le> t \<Longrightarrow> has_all (log_docs log) (log_idxs log) U local \<Longrightarrow> has_all (log_docs log) (log_idxs log) U st'"
    by (rule restore_spec[OF log st p'(3) p(4)]) blast
  have "restore_snapshot b t local = Inr st'"
    using p(1) p' r(1) by (simp add: restore_snapshot_def readSnapshot_def)
  then show ?thesis using that r(2-4) by blast
qed

lemma replay_segment_ok:
  assumes "history_ok log" "(n, f, p) \<in> set log" "keys_ok local" "map_of b (SegmentKey n) = Some (SegmentBody (encodeSegment p))"
  obtains local' where "replay_segment b n local = Inr local'" "keys_ok local'"
    "written (vdocs local) (pdocs p) (vdocs local')" "written (vidxs local) (pidxs p) (vidxs local')"
proof -
  obtain p' where p': "decodeSegment (encodeSegment p) = Inr p'" "pdocs p' = pdocs p" "pidxs p' = pidxs p" "payload_wf p'"
    by (rule segment_roundtrip[OF log_entryD(3)[OF assms(1,2)]])
  then have "unambiguous (pdocs p')" "unambiguous (pidxs p')" by (simp_all add: payload_wf_def)
  then obtain local' where "ds_write (sp_documents p') (sp_indexUpdates p') Overwrite None local = Inr local'" "keys_ok local'"
      "written (vdocs local) (pdocs p') (vdocs local')" "written (vidxs local) (pidxs p') (vidxs local')"
    by (rule ds_write_rows[OF assms(3)])
  then show ?thesis using that[of local'] assms(4) p' by (simp add: replay_segment_def)
qed

text \<open>Writing rows of the history over a store that follows it.\<close>

lemma follows_written:
  assumes log: "log_wf LD LX T" and st: "follows LD LX T st" and "keys_ok st'" "written (vdocs st) N (vdocs st')" "written (vidxs st) M (vidxs st')"
    and N: "N \<subseteq> LD" "M \<subseteq> LX"
  shows "follows LD LX T st'"
proof -
  have l: "unambiguous LD" "unambiguous LX" "no_later T LD" "no_later T LX" using log by (simp_all add: log_wf_def)
  have s: "sound LD (vdocs st)" "sound LX (vidxs st)" "no_later T (vdocs st)" "no_later T (vidxs st)" using st by (simp_all add: follows_def)
  have "no_later T N" "no_later T M" using l(3,4) N unfolding no_later_def by blast+
  then show ?thesis
    using assms(3) sound_written[OF assms(4) s(1) sound_subset[OF l(1) N(1)]] sound_written[OF assms(5) s(2) sound_subset[OF l(2) N(2)]]
      no_later_written[OF assms(4) s(3)] no_later_written[OF assms(5) s(4)] by (simp add: follows_def)
qed

lemma has_all_later:
  assumes "log_wf LD LX T" "follows LD LX T st'" "has_all LD LX U st" "written (vdocs st) N (vdocs st')" "written (vidxs st) M (vidxs st')"
    "after U N" "after U M"
  shows "has_all LD LX U st'"
  unfolding has_all_def
proof
  have l: "unambiguous LD" "unambiguous LX" "sound LD (vdocs st')" "sound LX (vidxs st')" using assms(1,2) by (simp_all add: log_wf_def follows_def)
  show "up_to LD U (vdocs st')"
    by (rule up_to_written[OF assms(4) l(1,3)]) (use assms(3,6) in \<open>auto simp: has_all_def dest: afterD\<close>)
  show "up_to LX U (vidxs st')"
    by (rule up_to_written[OF assms(5) l(2,4)]) (use assms(3,7) in \<open>auto simp: has_all_def dest: afterD\<close>)
qed

lemma has_all_tail:
  assumes "log_wf LD LX T" "follows LD LX T st'" "has_all LD LX U st" "written (vdocs st) N (vdocs st')" "written (vidxs st) M (vidxs st')"
    "U \<le> U'" "N \<subseteq> LD" "M \<subseteq> LX" "after U N" "after U M"
    "\<And>k ts r. (k, ts, r) \<in> LD \<Longrightarrow> U < ts \<Longrightarrow> ts \<le> U' \<Longrightarrow> (k, ts, r) \<in> N"
    "\<And>k ts r. (k, ts, r) \<in> LX \<Longrightarrow> U < ts \<Longrightarrow> ts \<le> U' \<Longrightarrow> (k, ts, r) \<in> M"
  shows "has_all LD LX U' st'"
  unfolding has_all_def
proof
  have l: "unambiguous LD" "unambiguous LX" "sound LD (vdocs st')" "sound LX (vidxs st')" using assms(1,2) by (simp_all add: log_wf_def follows_def)
  show "up_to LD U' (vdocs st')"
    by (rule up_to_tail[OF assms(4) l(1,3) _ assms(6,7,11,9)]) (use assms(3) in \<open>simp_all add: has_all_def\<close>)
  show "up_to LX U' (vidxs st')"
    by (rule up_to_tail[OF assms(5) l(2,4) _ assms(6,8,12,10)]) (use assms(3) in \<open>simp_all add: has_all_def\<close>)
qed

section \<open>Materializing\<close>

definition mz_ok :: "commit_log \<Rightarrow> materializing \<Rightarrow> doc_store \<Rightarrow> bool" where
  "mz_ok log mz local \<longleftrightarrow> (let m = mz_manifest mz; a = mz_applied mz in
     manifest_ok log m \<and> -1 \<le> a \<and> a < mf_nextSeqno m \<and> has_all (log_docs log) (log_idxs log) (front log (a + 1)) local \<and>
     (case mz_snapshot mz of
        Some t \<Rightarrow> mf_snapshotTs m = Some t \<and> a < seg_base m \<and> mz_todo mz = mf_segments m
      | None \<Rightarrow> filter (\<lambda>n. a < n) (mz_todo mz) = filter (\<lambda>n. a < n \<and> n < mf_nextSeqno m) (seqnos log)))"

lemma mz_begin:
  assumes "manifest_ok log m" "0 \<le> n" "n \<le> mf_nextSeqno m" "has_all (log_docs log) (log_idxs log) (front log n) local"
  shows "mz_ok log (begin_materialize m n) local"
proof -
  have seg: "mf_segments m = filter (\<lambda>n. seg_base m < n \<and> n < mf_nextSeqno m) (seqnos log)" using assms(1) by (simp add: manifest_ok_def)
  have skip: "filter (\<lambda>x. n - 1 < x) (mf_segments m) = filter (\<lambda>x. n - 1 < x \<and> x < mf_nextSeqno m) (seqnos log)" if "seg_base m \<le> n - 1"
    unfolding seg filter_filter by (rule filter_cong) (use that in auto)
  show ?thesis
  proof (cases "mf_snapshotTs m")
    case None
    then show ?thesis using manifest_no_base[OF assms(1)] assms skip by (simp add: mz_ok_def begin_materialize_def)
  next
    case (Some t)
    then show ?thesis using manifest_base[OF assms(1) Some] assms skip by (auto simp: mz_ok_def begin_materialize_def Let_def)
  qed
qed

lemma filter_sorted_head: "sorted_wrt (<) xs \<Longrightarrow> filter P xs = y # ys \<Longrightarrow> x \<in> set xs \<Longrightarrow> P x \<Longrightarrow> y \<le> (x :: int)"
  by (induction xs) (auto split: if_splits)

lemma seqnos_sorted: "history_ok log \<Longrightarrow> sorted_wrt (<) (seqnos log)"
  unfolding history_ok_def seqnos_def sorted_wrt_map by (auto elim!: sorted_wrt_mono_rel[rotated] simp: precedes_def)

text \<open>The next segment to replay is the next commit.\<close>

lemma mz_next:
  assumes "history_ok log" "mz_ok log mz local" "mz_snapshot mz = None" "mz_todo mz = n # ns" "mz_applied mz < n"
  obtains f p where "(n, f, p) \<in> set log" "n < mf_nextSeqno (mz_manifest mz)"
    "\<And>q. q \<in> set (seqnos log) \<Longrightarrow> mz_applied mz < q \<Longrightarrow> n \<le> q"
    "filter (\<lambda>q. n < q) ns = filter (\<lambda>q. n < q \<and> q < mf_nextSeqno (mz_manifest mz)) (seqnos log)"
proof -
  let ?a = "mz_applied mz" and ?N = "mf_nextSeqno (mz_manifest mz)"
  have eq: "n # filter (\<lambda>q. ?a < q) ns = filter (\<lambda>q. ?a < q \<and> q < ?N) (seqnos log)"
    using assms(2-5) by (simp add: mz_ok_def Let_def)
  have "n \<in> set (filter (\<lambda>q. ?a < q \<and> q < ?N) (seqnos log))" unfolding eq[symmetric] by simp
  then have n: "n \<in> set (seqnos log)" "n < ?N" by simp_all
  then obtain f p where e: "(n, f, p) \<in> set log" by (auto simp: seqnos_def)
  have le: "n \<le> q" if "q \<in> set (seqnos log)" "?a < q" for q
  proof (cases "q < ?N")
    case True
    then show ?thesis using filter_sorted_head[OF seqnos_sorted[OF assms(1)] eq[symmetric] that(1)] that(2) by blast
  qed (use n(2) in simp)
  have "filter (\<lambda>q. n < q) (n # filter (\<lambda>q. ?a < q) ns) = filter (\<lambda>q. n < q) ns"
    unfolding filter.simps filter_filter using assms(5) by (auto intro: filter_cong)
  moreover have "filter (\<lambda>q. n < q) (filter (\<lambda>q. ?a < q \<and> q < ?N) (seqnos log)) = filter (\<lambda>q. n < q \<and> q < ?N) (seqnos log)"
    unfolding filter_filter using assms(5) by (auto intro: filter_cong)
  ultimately show ?thesis using that[OF e n(2) le] eq by simp
qed

lemma mz_step_ok:
  assumes log: "history_ok log" "\<forall>q \<in> set (seqnos log). q < N" and st: "follows (log_docs log) (log_idxs log) (front log N) local"
    and b: "segs_ok log base b" "snaps_ok log (front log N) b" and mz: "mz_ok log mz local"
    and step: "materialize_step b mz local = Some (Inr (mz', local'))"
  shows "follows (log_docs log) (log_idxs log) (front log N) local'" (is ?F) "mz_ok log mz' local'" (is ?M)
    "mz_manifest mz' = mz_manifest mz" (is ?E) "mz_applied mz \<le> mz_applied mz'" (is ?A)
    "\<And>U. U \<le> front log (mz_applied mz + 1) \<Longrightarrow> has_all (log_docs log) (log_idxs log) U local \<Longrightarrow> has_all (log_docs log) (log_idxs log) U local'"
    (is "PROP ?K")
    "length (mz_todo mz') + (if mz_snapshot mz' = None then 0 else 1) < length (mz_todo mz) + (if mz_snapshot mz = None then 0 else 1)" (is ?L)
proof -
  note wf = log_log_wf[OF log]
  note mz' = mz[unfolded mz_ok_def Let_def]
  have all: "?F \<and> ?M \<and> ?E \<and> ?A \<and> (\<forall>U. U \<le> front log (mz_applied mz + 1) \<longrightarrow> has_all (log_docs log) (log_idxs log) U local \<longrightarrow>
      has_all (log_docs log) (log_idxs log) U local') \<and> ?L"
  proof (cases "mz_snapshot mz")
    case (Some t)
    let ?m = "mz_manifest mz"
    have t: "mf_snapshotTs ?m = Some t" "mz_applied mz < seg_base ?m" "mz_todo mz = mf_segments ?m" "manifest_ok log ?m" using mz' Some by auto
    note base = manifest_base[OF t(4,1)]
    have res: "restore_snapshot b t local = Inr local'" and m': "mz' = mz\<lparr>mz_snapshot := None, mz_applied := seg_base ?m\<rparr>"
      using step Some base by (auto simp: materialize_step_def res_bind_def split: sum.splits)
    have "map_of b (SnapshotKey t) \<noteq> None"
      using res by (cases "map_of b (SnapshotKey t)") (simp_all add: restore_snapshot_def readSnapshot_def)
    then have r: "follows (log_docs log) (log_idxs log) (front log N) local'" "has_all (log_docs log) (log_idxs log) t local'"
        "\<And>U. U \<le> t \<Longrightarrow> has_all (log_docs log) (log_idxs log) U local \<Longrightarrow> has_all (log_docs log) (log_idxs log) U local'"
      using restore_snapshot_ok[OF wf st b(2), of t] res by (metis sum.inject(2))+
    have "filter (\<lambda>n. seg_base ?m < n) (mf_segments ?m) = filter (\<lambda>n. seg_base ?m < n \<and> n < mf_nextSeqno ?m) (seqnos log)"
      using t(4) by (auto simp: manifest_ok_def intro: filter_cong)
    then have "mz_ok log mz' local'" using t r(2) base by (simp add: m' mz_ok_def manifest_ok_def)
    moreover have "front log (mz_applied mz + 1) \<le> t" using base t(2) by (auto intro: front_mono)
    ultimately show ?thesis using r t(2) Some by (auto simp: m')
  next
    case None
    then obtain n ns where todo: "mz_todo mz = n # ns" using step by (cases "mz_todo mz") (simp_all add: materialize_step_def)
    show ?thesis
    proof (cases "n \<le> mz_applied mz")
      case True
      then show ?thesis using step None todo st mz' by (auto simp: materialize_step_def mz_ok_def)
    next
      case False
      then have n: "mz_applied mz < n" by simp
      obtain f p where e: "(n, f, p) \<in> set log" "n < mf_nextSeqno (mz_manifest mz)"
          "\<And>q. q \<in> set (seqnos log) \<Longrightarrow> mz_applied mz < q \<Longrightarrow> n \<le> q"
          "filter (\<lambda>q. n < q) ns = filter (\<lambda>q. n < q \<and> q < mf_nextSeqno (mz_manifest mz)) (seqnos log)"
        using mz_next[OF log(1) mz None todo n] by metis
      note rows = next_rows[OF log(1) e(1) n e(3)]
      have res: "replay_segment b n local = Inr local'" and m': "mz' = mz\<lparr>mz_todo := ns, mz_applied := n\<rparr>"
        using step None todo n by (auto simp: materialize_step_def res_bind_def split: sum.splits)
      then have "map_of b (SegmentKey n) \<noteq> None" by (cases "map_of b (SegmentKey n)") (simp_all add: replay_segment_def)
      then have "map_of b (SegmentKey n) = Some (SegmentBody (encodeSegment p))" using segs_okD[OF b(1) e(1)] by (elim disjE conjE) simp_all
      moreover have "keys_ok local" using st by (simp add: follows_def)
      ultimately have w: "keys_ok local'" "written (vdocs local) (pdocs p) (vdocs local')" "written (vidxs local) (pidxs p) (vidxs local')"
        using replay_segment_ok[OF log(1) e(1)] res by (metis sum.inject(2))+
      note sub = log_docsI[OF e(1)]
      have fol: ?F by (rule follows_written[OF wf st w sub])
      have ca: "after (front log (mz_applied mz + 1)) (pdocs p)" "after (front log (mz_applied mz + 1)) (pidxs p)"
        using rows(1) by (simp_all add: comes_after_def)
      have h: "has_all (log_docs log) (log_idxs log) (front log (mz_applied mz + 1)) local" using mz' by blast
      have "has_all (log_docs log) (log_idxs log) f local'"
        by (rule has_all_tail[OF wf fol h w(2,3) rows(2) sub ca rows(3,4)])
      then have "mz_ok log mz' local'" using mz' e(2,4) n None by (simp add: m' mz_ok_def front_at[OF log(1) e(1)])
      moreover have "has_all (log_docs log) (log_idxs log) U local'" if "U \<le> front log (mz_applied mz + 1)" "has_all (log_docs log) (log_idxs log) U local" for U
        by (rule has_all_later[OF wf fol that(2) w(2,3)]) (use ca after_mono that(1) in blast)+
      ultimately show ?thesis using fol n None todo by (simp add: m')
    qed
  qed
  show ?F ?M ?E ?A ?L using all by blast+
  show "U \<le> front log (mz_applied mz + 1) \<Longrightarrow> has_all (log_docs log) (log_idxs log) U local \<Longrightarrow> has_all (log_docs log) (log_idxs log) U local'" for U
    using all by blast
qed

text \<open>Done, it has everything the manifest has.\<close>

lemma mz_done:
  assumes "mz_ok log mz local" "materialize_step b mz local = None"
  shows "has_all (log_docs log) (log_idxs log) (front log (mf_nextSeqno (mz_manifest mz))) local"
proof -
  have n: "mz_snapshot mz = None" "mz_todo mz = []" using assms(2) by (auto simp: materialize_step_def split: option.splits list.splits)
  then have "filter (\<lambda>n. mz_applied mz < n \<and> n < mf_nextSeqno (mz_manifest mz)) (seqnos log) = []"
    and a: "mz_applied mz < mf_nextSeqno (mz_manifest mz)" and h: "has_all (log_docs log) (log_idxs log) (front log (mz_applied mz + 1)) local"
    using assms(1) by (simp_all add: mz_ok_def Let_def)
  then have "front log (mz_applied mz + 1) = front log (mf_nextSeqno (mz_manifest mz))"
    by (intro front_cong) (auto simp: filter_empty_conv)
  then show ?thesis using h by simp
qed

text \<open>It does not fail while the objects the manifest names are there.\<close>

lemma mz_progress:
  assumes log: "history_ok log" "\<forall>q \<in> set (seqnos log). q < N" and st: "follows (log_docs log) (log_idxs log) (front log N) local"
    and b: "segs_ok log (seg_base (mz_manifest mz)) b" "snaps_ok log (front log N) b" and mz: "mz_ok log mz local"
    and snap: "\<And>t. mf_snapshotTs (mz_manifest mz) = Some t \<Longrightarrow> map_of b (SnapshotKey t) \<noteq> None"
    and base: "mz_snapshot mz = None \<Longrightarrow> seg_base (mz_manifest mz) \<le> mz_applied mz"
  shows "materialize_step b mz local = None \<or> (\<exists>mz' local'. materialize_step b mz local = Some (Inr (mz', local')))"
proof (cases "mz_snapshot mz")
  case (Some t)
  then have "map_of b (SnapshotKey t) \<noteq> None" using mz snap by (simp add: mz_ok_def Let_def)
  then obtain local' where "restore_snapshot b t local = Inr local'" by (rule restore_snapshot_ok[OF log_log_wf[OF log] st b(2)])
  then show ?thesis using Some by (simp add: materialize_step_def)
next
  case None
  show ?thesis
  proof (cases "mz_todo mz")
    case (Cons n ns)
    show ?thesis
    proof (cases "n \<le> mz_applied mz")
      case False
      then obtain f p where e: "(n, f, p) \<in> set log" using mz_next[OF log(1) mz None Cons] by (metis linorder_not_less)
      then have "map_of b (SegmentKey n) = Some (SegmentBody (encodeSegment p))" using segs_okD[OF b(1) e] base[OF None] False by force
      moreover have "keys_ok local" using st by (simp add: follows_def)
      ultimately obtain local' where "replay_segment b n local = Inr local'" using replay_segment_ok[OF log(1) e] by metis
      then show ?thesis using None Cons False by (simp add: materialize_step_def)
    qed (use None Cons in \<open>simp add: materialize_step_def\<close>)
  qed (use None in \<open>simp add: materialize_step_def\<close>)
qed

end
