(* ===== verification/Object_Commits.thy ===== *)
theory Object_Commits
  imports Object_Log
begin

text \<open>
  What a prepared commit puts in its segment and in the local store, materializing a whole bucket, and
  what a store, a manifest and the objects keep of the history when one more commit is added to it.
\<close>

section \<open>Writing several payloads\<close>

lemma written_trans:
  assumes "written S N S1" "written S1 N' S2" "unambiguous (N \<union> N')" "unambiguous S1"
  shows "written S (N \<union> N') S2"
  unfolding written_def
proof (intro conjI allI impI)
  have "x \<in> S2" if "x \<in> N" for x
  proof -
    obtain k ts p where x: "x = (k, ts, p)" by (cases x)
    have S1: "(k, ts, p) \<in> S1" using assms(1) that x unfolding written_def by blast
    then obtain p' where p': "(k, ts, p') \<in> S2" using assms(2) unfolding written_def by blast
    then have "(k, ts, p') \<in> S1 \<or> (k, ts, p') \<in> N'" using assms(2) unfolding written_def by blast
    then have "p' = p" using unambiguousD[OF assms(4) S1] unambiguousD[OF assms(3)] that x by blast
    then show ?thesis using p' x by simp
  qed
  then show "N \<union> N' \<subseteq> S2" using assms(2) unfolding written_def by blast
  show "S2 \<subseteq> S \<union> (N \<union> N')" using assms(1,2) unfolding written_def by blast
  show "\<exists>p'. (k, ts, p') \<in> S2" if "(k, ts, p) \<in> S" for k ts p using that assms(1,2) unfolding written_def by meson
qed

lemma written_refl: "written S {} S"
  unfolding written_def by blast

definition udocs :: "segment_payload list \<Rightarrow> (doc_key, doc_val) vrows" where
  "udocs us = (\<Union>u \<in> set us. pdocs u)"

definition uidxs :: "segment_payload list \<Rightarrow> (doc_key, idx_val) vrows" where
  "uidxs us = (\<Union>u \<in> set us. pidxs u)"

lemma udocs_simps [simp]: "udocs [] = {}" "udocs (u # us) = pdocs u \<union> udocs us" "uidxs [] = {}" "uidxs (u # us) = pidxs u \<union> uidxs us"
  by (simp_all add: udocs_def uidxs_def)

lemma unambiguous_mono: "unambiguous L \<Longrightarrow> N \<subseteq> L \<Longrightarrow> unambiguous N"
  unfolding unambiguous_def by blast

lemma apply_units_rows:
  assumes "keys_ok st" "unambiguous (udocs us)" "unambiguous (uidxs us)"
  obtains st' where "apply_units us shardId st = Inr st'" "keys_ok st'" "written (vdocs st) (udocs us) (vdocs st')" "written (vidxs st) (uidxs us) (vidxs st')"
  using assms
proof (induction us arbitrary: st thesis)
  case Nil
  then show ?case by (simp add: written_refl)
next
  case (Cons u us)
  have u: "unambiguous (pdocs u)" "unambiguous (pidxs u)" "unambiguous (udocs us)" "unambiguous (uidxs us)"
    using Cons.prems(3,4) unambiguous_mono[of "pdocs u \<union> udocs us"] unambiguous_mono[of "pidxs u \<union> uidxs us"] by simp_all
  obtain st1 where st1: "ds_write (sp_documents u) (sp_indexUpdates u) Overwrite shardId st = Inr st1" "keys_ok st1"
      "written (vdocs st) (pdocs u) (vdocs st1)" "written (vidxs st) (pidxs u) (vidxs st1)"
    by (rule ds_write_rows[OF Cons.prems(2) u(1,2)])
  obtain st' where st': "apply_units us shardId st1 = Inr st'" "keys_ok st'" "written (vdocs st1) (udocs us) (vdocs st')" "written (vidxs st1) (uidxs us) (vidxs st')"
    by (rule Cons.IH[OF _ st1(2) u(3,4)])
  show ?case
    by (rule Cons.prems(1)[of st'])
      (use st1 st' Cons.prems(3,4) written_trans[OF st1(3) st'(3)] written_trans[OF st1(4) st'(4)] unambiguous_keys[OF st1(2)] in simp_all)
qed

lemma payload_of_rows: "pdocs (payload_of us) = udocs us" "pidxs (payload_of us) = uidxs us"
  by (auto simp: payload_of_def pdocs_def pidxs_def udocs_def uidxs_def)

section \<open>Prepared commits\<close>

lemma storage_id_inj: "encodeStorageTableId a = encodeStorageTableId b \<Longrightarrow> a = b"
  using decodeStorageTableId_iff by (metis sum.inject(2))

lemma stamped_unit_single:
  assumes "unit_wf u" and d: "sp_documents p = map (\<lambda>d. d\<lparr>le_ts := ts\<rparr>) (cu_documents u)" "sp_indexUpdates p = map (\<lambda>w. w\<lparr>iw_ts := ts\<rparr>) (cu_indexUpdates u)"
  shows "unambiguous (pdocs p)" "unambiguous (pidxs p)"
proof -
  have u: "distinct (map le_id (cu_documents u))" "distinct (map (\<lambda>w. (iu_indexId (iw_update w), iu_key (iw_update w))) (cu_indexUpdates u))"
    using assms(1) by (simp_all add: unit_wf_def)
  show "unambiguous (pdocs p)" unfolding unambiguous_def
  proof (intro allI impI)
    fix k t r r' assume "(k, t, r) \<in> pdocs p" "(k, t, r') \<in> pdocs p"
    then obtain e e' where e: "e \<in> set (cu_documents u)" "e' \<in> set (cu_documents u)"
        "(k, t, r) = vdoc (row_of_entry DEFAULT_SHARD (e\<lparr>le_ts := ts\<rparr>))" "(k, t, r') = vdoc (row_of_entry DEFAULT_SHARD (e'\<lparr>le_ts := ts\<rparr>))"
      unfolding pdocs_def d(1) by auto
    then have "le_id e = le_id e'" by (simp add: entry_view) (metis internal_document_id.equality old.unit.exhaust storage_id_inj)
    then have "e = e'" by (rule distinct_key[OF u(1) e(1,2)])
    then show "r = r'" using e(3,4) by (metis prod.inject)
  qed
  show "unambiguous (pidxs p)" unfolding unambiguous_def
  proof (intro allI impI)
    fix k t r r' assume "(k, t, r) \<in> pidxs p" "(k, t, r') \<in> pidxs p"
    then obtain e e' where e: "e \<in> set (cu_indexUpdates u)" "e' \<in> set (cu_indexUpdates u)"
        "(k, t, r) = vidx (row_of_update DEFAULT_SHARD (e\<lparr>iw_ts := ts\<rparr>))" "(k, t, r') = vidx (row_of_update DEFAULT_SHARD (e'\<lparr>iw_ts := ts\<rparr>))"
      unfolding pidxs_def d(2) by auto
    then have "(iu_indexId (iw_update e), iu_key (iw_update e)) = (iu_indexId (iw_update e'), iu_key (iw_update e'))"
      by (simp add: vidx_def row_of_update_def split: index_value.splits)
    then have "e = e'" by (rule distinct_key[OF u(2) e(1,2)])
    then show "r = r'" using e(3,4) by (metis prod.inject)
  qed
qed

definition stamped :: "int \<Rightarrow> commit_unit \<Rightarrow> segment_payload" where
  "stamped ts u = \<lparr>sp_documents = map (\<lambda>d. d\<lparr>le_ts := ts\<rparr>) (cu_documents u), sp_indexUpdates = map (\<lambda>w. w\<lparr>iw_ts := ts\<rparr>) (cu_indexUpdates u)\<rparr>"

lemma stamp_units_nth: "length (stamp_units floor units) = length units"
  "i < length units \<Longrightarrow> stamp_units floor units ! i = stamped (floor + int i + 1) (units ! i)"
  by (simp_all add: stamp_units_def stamped_def)

lemma stamped_payload_rows:
  assumes "unit_wf u"
  shows "payload_wf (stamped ts u)" "(k, t, r) \<in> pdocs (stamped ts u) \<Longrightarrow> t = ts" "(k, t, i) \<in> pidxs (stamped ts u) \<Longrightarrow> t = ts"
proof -
  have "entry_wf e" if "e \<in> set (sp_documents (stamped ts u))" for e
    using assms that by (auto simp: unit_wf_def list_all_iff stamped_def entry_wf_def)
  then show "payload_wf (stamped ts u)"
    using stamped_unit_single[OF assms, of "stamped ts u" ts] by (simp add: payload_wf_def stamped_def)
  show "(k, t, r) \<in> pdocs (stamped ts u) \<Longrightarrow> t = ts" by (auto simp: pdocs_def stamped_def entry_view)
  show "(k, t, i) \<in> pidxs (stamped ts u) \<Longrightarrow> t = ts" by (auto simp: pidxs_def stamped_def vidx_def row_of_update_def)
qed

lemma stamp_units_rows:
  assumes "list_all unit_wf units"
  shows "payload_wf (payload_of (stamp_units floor units))" "comes_after floor (payload_of (stamp_units floor units))"
    "no_later (floor + int (length units)) (pdocs (payload_of (stamp_units floor units)))"
    "no_later (floor + int (length units)) (pidxs (payload_of (stamp_units floor units)))"
proof -
  let ?us = "stamp_units floor units"
  have at: "\<exists>i < length units. u = stamped (floor + int i + 1) (units ! i) \<and> unit_wf (units ! i)" if "u \<in> set ?us" for u
    using that assms by (auto simp: in_set_conv_nth stamp_units_nth list_all_length)
  have ts: "\<exists>i < length units. t = floor + int i + 1 \<and> (k, t, r) \<in> pdocs (?us ! i)" if "(k, t, r) \<in> udocs ?us" for k t r
  proof -
    from that obtain i where i: "i < length units" "(k, t, r) \<in> pdocs (?us ! i)"
      unfolding udocs_def by (auto simp: in_set_conv_nth stamp_units_nth(1))
    then show ?thesis using stamped_payload_rows(2)[of "units ! i" k t r "floor + int i + 1"] assms by (auto simp: stamp_units_nth list_all_length)
  qed
  have tx: "\<exists>i < length units. t = floor + int i + 1 \<and> (k, t, r) \<in> pidxs (?us ! i)" if "(k, t, r) \<in> uidxs ?us" for k t r
  proof -
    from that obtain i where i: "i < length units" "(k, t, r) \<in> pidxs (?us ! i)"
      unfolding uidxs_def by (auto simp: in_set_conv_nth stamp_units_nth(1))
    then show ?thesis using stamped_payload_rows(3)[of "units ! i" k t r "floor + int i + 1"] assms by (auto simp: stamp_units_nth list_all_length)
  qed
  have wf: "unambiguous (pdocs (?us ! i)) \<and> unambiguous (pidxs (?us ! i))" if "i < length units" for i
    using that stamped_payload_rows(1)[of "units ! i" "floor + int i + 1"] assms by (simp add: stamp_units_nth list_all_length payload_wf_def)
  have "unambiguous (udocs ?us)" unfolding unambiguous_def
  proof (intro allI impI)
    fix k t r r' assume "(k, t, r) \<in> udocs ?us" "(k, t, r') \<in> udocs ?us"
    then obtain i where "i < length units" "(k, t, r) \<in> pdocs (?us ! i)" "(k, t, r') \<in> pdocs (?us ! i)" using ts[of k t r] ts[of k t r'] by force
    then show "r = r'" using unambiguousD wf by metis
  qed
  moreover have "unambiguous (uidxs ?us)" unfolding unambiguous_def
  proof (intro allI impI)
    fix k t r r' assume "(k, t, r) \<in> uidxs ?us" "(k, t, r') \<in> uidxs ?us"
    then obtain i where "i < length units" "(k, t, r) \<in> pidxs (?us ! i)" "(k, t, r') \<in> pidxs (?us ! i)" using tx[of k t r] tx[of k t r'] by force
    then show "r = r'" using unambiguousD wf by metis
  qed
  moreover have "entry_wf e" if "e \<in> set (sp_documents (payload_of ?us))" for e
  proof -
    from that obtain u where "u \<in> set ?us" "e \<in> set (sp_documents u)" by (auto simp: payload_of_def)
    then show ?thesis using at stamped_payload_rows(1) unfolding payload_wf_def by metis
  qed
  ultimately show "payload_wf (payload_of ?us)" by (simp add: payload_wf_def payload_of_rows)
  show "comes_after floor (payload_of ?us)" "no_later (floor + int (length units)) (pdocs (payload_of ?us))"
    "no_later (floor + int (length units)) (pidxs (payload_of ?us))"
    unfolding payload_of_rows comes_after_def after_def no_later_def using ts tx by fastforce+
qed

text \<open>The frontier of a commit is above the one before it, and its rows lie between.\<close>

lemma prepare_spec:
  assumes "ob_prepare units shardId ob = CommitGo pp" "list_all unit_wf units"
  obtains f where "pp_seqno pp = ob_nextSeqno ob" "pp_next pp = (ob_manifest ob)\<lparr>mf_frontierTs := f, mf_tsCounter := f,
      mf_segments := mf_segments (ob_manifest ob) @ [ob_nextSeqno ob], mf_nextSeqno := ob_nextSeqno ob + 1\<rparr>"
    "mf_tsCounter (ob_manifest ob) < f" "payload_wf (payload_of (pp_units pp))" "comes_after (mf_tsCounter (ob_manifest ob)) (payload_of (pp_units pp))"
    "no_later f (pdocs (payload_of (pp_units pp)))" "no_later f (pidxs (payload_of (pp_units pp)))" "holds_lease ob"
proof -
  obtain ep w where h: "ob_held ob = Some (ep, w)" using assms(1) by (auto simp: ob_prepare_def split: option.splits)
  define floor where "floor = max (mf_tsCounter (ob_manifest ob)) (maxTimestamp (ob_local ob))"
  have ne: "units \<noteq> []" "\<not> ob_poisoned ob" "mf_epoch (ob_manifest ob) = ep" and
    pp: "pp = \<lparr>pp_seqno = ob_nextSeqno ob, pp_units = stamp_units floor units, pp_tsList = map (\<lambda>i. floor + int i + 1) [0..<length units],
      pp_next = (ob_manifest ob)\<lparr>mf_epoch := ep, mf_frontierTs := last (map (\<lambda>i. floor + int i + 1) [0..<length units]),
        mf_tsCounter := last (map (\<lambda>i. floor + int i + 1) [0..<length units]),
        mf_segments := mf_segments (ob_manifest ob) @ [ob_nextSeqno ob], mf_nextSeqno := ob_nextSeqno ob + 1\<rparr>, pp_shard = shardId\<rparr>"
    using assms(1) h by (auto simp: ob_prepare_def floor_def[symmetric] Let_def split: if_splits)
  have last: "last (map (\<lambda>i. floor + int i + 1) [0..<length units]) = floor + int (length units)"
    using ne(1) by (cases "length units") (simp_all add: last_map)
  have e: "(ob_manifest ob)\<lparr>mf_epoch := ep\<rparr> = ob_manifest ob" using ne(3) by (cases "ob_manifest ob") simp
  have floor: "mf_tsCounter (ob_manifest ob) \<le> floor" by (simp add: floor_def)
  note r = stamp_units_rows[OF assms(2), of floor]
  show ?thesis
  proof (rule that[of "floor + int (length units)"])
    show "comes_after (mf_tsCounter (ob_manifest ob)) (payload_of (pp_units pp))"
      using r(2) floor unfolding comes_after_def pp by (auto intro: after_mono)
    show "holds_lease ob" using h ne by (simp add: holds_lease_def)
    show "mf_tsCounter (ob_manifest ob) < floor + int (length units)" using floor ne(1) by (cases units) simp_all
  qed (use r e in \<open>simp_all add: pp last\<close>)
qed

section \<open>The whole bucket\<close>

lemma mz_begin_empty:
  assumes "history_ok log" "manifest_ok log m"
  shows "mz_ok log (begin_materialize m 0) local"
proof (rule mz_begin[OF assms(2)])
  have "front log 0 = 0" by (rule front_none) (use log_entryD(1)[OF assms(1)] in \<open>auto simp: seqnos_def\<close>)
  then show "has_all (log_docs log) (log_idxs log) (front log 0) local" using has_all_0[OF log_after[OF assms(1)]] by simp
qed (use assms(2) in \<open>simp_all add: manifest_ok_def\<close>)

lemma materialize_run_ok:
  assumes log: "history_ok log" "\<forall>q \<in> set (seqnos log). q < N" and st: "follows (log_docs log) (log_idxs log) (front log N) local"
    and b: "segs_ok log (seg_base m) b" "snaps_ok log (front log N) b" and mz: "mz_ok log mz local" "mz_manifest mz = m"
    and snap: "\<And>t. mf_snapshotTs m = Some t \<Longrightarrow> map_of b (SnapshotKey t) \<noteq> None"
    and base: "mz_snapshot mz = None \<Longrightarrow> seg_base m \<le> mz_applied mz"
    and fuel: "length (mz_todo mz) + (if mz_snapshot mz = None then 0 else 1) \<le> k"
  obtains local' where "materialize_run k b mz local = Inr local'" "follows (log_docs log) (log_idxs log) (front log N) local'"
    "has_all (log_docs log) (log_idxs log) (front log (mf_nextSeqno m)) local'"
  using st mz base fuel
proof (induction k arbitrary: mz local thesis)
  case 0
  then have "materialize_step b mz local = None" by (auto simp: materialize_step_def split: if_splits)
  then show ?case using 0 mz_done[of log mz local b] by simp
next
  case (Suc k)
  show ?case
  proof (cases "materialize_step b mz local")
    case None
    then show ?thesis using Suc.prems(1)[of local] Suc.prems(2-4) mz_done[OF Suc.prems(3) None] by simp
  next
    case (Some r)
    then obtain mz' local' where step: "materialize_step b mz local = Some (Inr (mz', local'))"
      using mz_progress[OF log Suc.prems(2) _ b(2) Suc.prems(3)] b(1) snap Suc.prems(4,5) by auto
    note s = mz_step_ok[OF log Suc.prems(2) b Suc.prems(3) step]
    have "seg_base m \<le> mz_applied mz'" if "mz_snapshot mz' = None"
    proof (cases "mz_snapshot mz")
      case None
      then show ?thesis using Suc.prems(5) s(4) by simp
    next
      case (Some t)
      then have t: "mf_snapshotTs m = Some t" "manifest_ok log m" using Suc.prems(3,4) by (simp_all add: mz_ok_def Let_def)
      show ?thesis using step Some manifest_base[OF t(2,1)] Suc.prems(4) by (auto simp: materialize_step_def res_bind_def split: sum.splits)
    qed
    then obtain l where "materialize_run k b mz' local' = Inr l" "follows (log_docs log) (log_idxs log) (front log N) l"
        "has_all (log_docs log) (log_idxs log) (front log (mf_nextSeqno m)) l"
      using Suc.IH[OF _ s(1,2)] s(3,6) Suc.prems(4,6) by (metis add_le_cancel_right less_le_trans linorder_not_less not_less_eq_eq)
    then show ?thesis using Suc.prems(1)[of l] step by simp
  qed
qed

lemma replay_log_ok:
  assumes "history_ok log" "\<forall>q \<in> set (seqnos log). q < N"
  obtains st where "replay_log log = Inr st" "follows (log_docs log) (log_idxs log) (front log N) st"
    "has_all (log_docs log) (log_idxs log) (front log N) st"
proof -
  let ?us = "map (\<lambda>(_, _, p). p) log"
  have u: "udocs ?us = log_docs log" "uidxs ?us = log_idxs log"
    by (auto simp: udocs_def uidxs_def log_docs_def log_idxs_def split_beta)
  obtain st where st: "apply_units ?us None ds_empty = Inr st" "keys_ok st" "written {} (log_docs log) (vdocs st)" "written {} (log_idxs log) (vidxs st)"
    by (rule apply_units_rows[of ds_empty ?us None]) (use log_single[OF assms(1)] in \<open>simp_all add: u\<close>)
  have rows: "vdocs st = log_docs log" "vidxs st = log_idxs log" using st(3,4) unfolding written_def by blast+
  have wf: "log_wf (log_docs log) (log_idxs log) (front log N)" by (rule log_log_wf[OF assms])
  have "follows (log_docs log) (log_idxs log) (front log N) st"
    using st(2) wf by (simp add: follows_def rows log_wf_def sound_subset)
  moreover have "has_all (log_docs log) (log_idxs log) (front log N) st"
    by (auto simp: has_all_def rows up_to_def live_at_def)
  ultimately show ?thesis using that st(1) by (simp add: replay_log_def)
qed

lemma dump_same:
  assumes "follows LD LX T st1" "follows LD LX T st2" "has_all LD LX T st1" "has_all LD LX T st2" "unambiguous LD" "unambiguous LX"
  shows "dumpCurrentState st1 = dumpCurrentState st2"
  using assms unfolding follows_def has_all_def by (intro dump_eq[of _ _ T]) (simp_all add: covered_view)

end
