(* ===== verification/Object_Invariant.thy ===== *)
theory Object_Invariant
  imports Object_Commits
begin

text \<open>
  The invariant of careful runs: what the bucket keeps of the history, what each instance has of it and
  holds of the lease, and what an operation under way relies on; with how each part carries over when the
  manifest moves.
\<close>

section \<open>The bucket\<close>

definition bucket_ok :: "manifest \<Rightarrow> commit_log \<Rightarrow> object_bucket \<Rightarrow> bool" where
  "bucket_ok m log b \<longleftrightarrow> history_ok log \<and> (\<forall>q \<in> set (seqnos log). q < mf_nextSeqno m) \<and> manifest_ok log m \<and>
     segs_ok log (seg_base m) b \<and> snaps_ok log (mf_frontierTs m) b \<and>
     (\<forall>t. mf_snapshotTs m = Some t \<longrightarrow> map_of b (SnapshotKey t) \<noteq> None) \<and>
     (\<forall>q. map_of b (SegmentKey q) \<noteq> None \<longrightarrow> q \<le> mf_nextSeqno m \<and> 0 < mf_epoch m)"

lemma bucket_okD:
  assumes "bucket_ok m log b"
  shows "history_ok log" "\<forall>q \<in> set (seqnos log). q < mf_nextSeqno m" "manifest_ok log m" "segs_ok log (seg_base m) b"
    "snaps_ok log (mf_frontierTs m) b" "mf_snapshotTs m = Some t \<Longrightarrow> map_of b (SnapshotKey t) \<noteq> None"
    "map_of b (SegmentKey q) \<noteq> None \<Longrightarrow> q \<le> mf_nextSeqno m \<and> 0 < mf_epoch m"
  using assms unfolding bucket_ok_def by blast+

lemma manifest_okD:
  assumes "manifest_ok log m"
  shows "mf_frontierTs m = front log (mf_nextSeqno m)" "mf_tsCounter m = mf_frontierTs m" "0 \<le> mf_nextSeqno m" "0 \<le> mf_epoch m"
    "seg_base m < mf_nextSeqno m" "-1 \<le> seg_base m"
  using assms unfolding manifest_ok_def by blast+

lemma store_log_wf: "bucket_ok m log b \<Longrightarrow> log_wf (log_docs log) (log_idxs log) (mf_frontierTs m)"
  using log_log_wf[OF bucket_okD(1,2)] manifest_okD(1)[OF bucket_okD(3)] by metis

lemma snapshot_before: "bucket_ok m log b \<Longrightarrow> mf_snapshotTs m = Some t \<Longrightarrow> t \<le> mf_frontierTs m"
  using bucket_okD(3)[of m log b] manifest_base[of log m t] manifest_okD(1,5)[of log m] front_mono[of "seg_base m + 1" "mf_nextSeqno m" log] by simp

definition same_objects :: "object_bucket \<Rightarrow> object_bucket \<Rightarrow> bool" where
  "same_objects b b' \<longleftrightarrow> (\<forall>k. map_of b' (SegmentKey k) = map_of b (SegmentKey k)) \<and> (\<forall>t. map_of b' (SnapshotKey t) = map_of b (SnapshotKey t))"

lemma same_objects_refl [simp]: "same_objects b b"
  by (simp add: same_objects_def)

lemma same_objects_manifest [simp]: "same_objects b (AList.update ManifestKey body b)"
  by (simp add: same_objects_def)

lemma store_same: "same_objects b b' \<Longrightarrow> bucket_ok m log b \<Longrightarrow> bucket_ok m log b'"
  by (simp add: same_objects_def bucket_ok_def segs_ok_def snaps_ok_def)

section \<open>The manifest moves\<close>

definition grows :: "commit_log \<Rightarrow> manifest \<Rightarrow> commit_log \<Rightarrow> manifest \<Rightarrow> bool" where
  "grows log m log' m' \<longleftrightarrow> mf_frontierTs m \<le> mf_frontierTs m' \<and> mf_nextSeqno m \<le> mf_nextSeqno m' \<and> mf_epoch m \<le> mf_epoch m' \<and>
     seg_base m \<le> seg_base m' \<and> (\<forall>t. mf_snapshotTs m = Some t \<longrightarrow> (\<exists>t'. mf_snapshotTs m' = Some t' \<and> t \<le> t')) \<and>
     (log' = log \<or> (\<exists>f p. log' = log @ [(mf_nextSeqno m, f, p)] \<and> comes_after (mf_frontierTs m) p))"

lemma growsE:
  assumes "grows log m log' m'"
  obtains "log' = log" | f p where "log' = log @ [(mf_nextSeqno m, f, p)]" "comes_after (mf_frontierTs m) p"
  using assms unfolding grows_def by blast

lemma grows_front: "grows log m log' m' \<Longrightarrow> n \<le> mf_nextSeqno m \<Longrightarrow> front log' n = front log n"
  by (erule growsE) (simp_all add: front_append)

lemma grows_below: "grows log m log' m' \<Longrightarrow> n \<le> mf_nextSeqno m \<Longrightarrow> filter (\<lambda>q. P q \<and> q < n) (seqnos log') = filter (\<lambda>q. P q \<and> q < n) (seqnos log)"
  by (erule growsE) simp_all

lemma grows_follows:
  assumes "bucket_ok m log b" "grows log m log' m'" "follows (log_docs log) (log_idxs log) T st" "T \<le> mf_frontierTs m" "T \<le> T'"
  shows "follows (log_docs log') (log_idxs log') T' st"
proof -
  have l: "no_later (mf_frontierTs m) (log_docs log)" "no_later (mf_frontierTs m) (log_idxs log)" using store_log_wf[OF assms(1)] by (simp_all add: log_wf_def)
  from assms(2) show ?thesis
  proof (cases rule: growsE)
    case 1
    have "after (mf_frontierTs m) {}" "after (mf_frontierTs m) {}" by (simp_all add: after_def)
    then show ?thesis using follows_grow[OF assms(3) l _ _ assms(4,5), of "{}" "{}"] 1 by (simp add: after_def)
  next
    case (2 f p)
    then show ?thesis using follows_grow[OF assms(3) l _ _ assms(4,5), of "pdocs p" "pidxs p"] by (simp add: comes_after_def)
  qed
qed

lemma grows_has_all:
  assumes "bucket_ok m log b" "grows log m log' m'" "has_all (log_docs log) (log_idxs log) U st" "U \<le> mf_frontierTs m"
  shows "has_all (log_docs log') (log_idxs log') U st"
proof -
  have l: "no_later (mf_frontierTs m) (log_docs log)" "no_later (mf_frontierTs m) (log_idxs log)" using store_log_wf[OF assms(1)] by (simp_all add: log_wf_def)
  from assms(2) show ?thesis
  proof (cases rule: growsE)
    case 1
    then show ?thesis using assms(3) by simp
  next
    case (2 f p)
    then show ?thesis using has_all_grow[OF assms(3) l _ _ assms(4), of "pdocs p" "pidxs p"] by (simp add: comes_after_def)
  qed
qed

lemma grows_snaps:
  assumes "bucket_ok m log b" "grows log m log' m'"
  shows "snaps_ok log' (mf_frontierTs m') b"
  unfolding snaps_ok_def
proof (intro allI impI)
  fix t body assume "map_of b (SnapshotKey t) = Some body"
  then obtain p where p: "t \<le> mf_frontierTs m" "body = SnapshotBody (encodeSnapshot p)" "sn_frontierTs p = t"
      "snapshot_of (log_docs log) (log_idxs log) t (sn_rows p)"
    using bucket_okD(5)[OF assms(1)] unfolding snaps_ok_def by blast
  have l: "no_later (mf_frontierTs m) (log_docs log)" "no_later (mf_frontierTs m) (log_idxs log)" using store_log_wf[OF assms(1)] by (simp_all add: log_wf_def)
  have "snapshot_of (log_docs log') (log_idxs log') t (sn_rows p)"
    using assms(2)
  proof (cases rule: growsE)
    case 1
    then show ?thesis using p(4) by simp
  next
    case (2 f p')
    then show ?thesis using snapshot_of_grow[OF p(4) l _ _ p(1), of "pdocs p'" "pidxs p'"] by (simp add: comes_after_def)
  qed
  moreover have "t \<le> mf_frontierTs m'" using p(1) assms(2) by (simp add: grows_def)
  ultimately show "t \<le> mf_frontierTs m' \<and> (\<exists>p. body = SnapshotBody (encodeSnapshot p) \<and> sn_frontierTs p = t \<and>
      snapshot_of (log_docs log') (log_idxs log') t (sn_rows p))" using p by blast
qed

lemma grows_manifest:
  assumes "grows log m log' m'" "manifest_ok log m0" "mf_nextSeqno m0 \<le> mf_nextSeqno m"
  shows "manifest_ok log' m0"
proof -
  have "front log' (seg_base m0 + 1) = front log (seg_base m0 + 1)" "front log' (mf_nextSeqno m0) = front log (mf_nextSeqno m0)"
    using manifest_okD(5)[OF assms(2)] assms(3) grows_front[OF assms(1)] by simp_all
  then show ?thesis using assms(2) grows_below[OF assms(1,3), of "\<lambda>n. seg_base m0 < n"]
    by (auto simp: manifest_ok_def seg_base_def split: option.splits)
qed

lemma grows_mz:
  assumes "bucket_ok m log b" "grows log m log' m'" "mz_ok log mz st" "mf_nextSeqno (mz_manifest mz) \<le> mf_nextSeqno m"
  shows "mz_ok log' mz st"
proof -
  have a: "mz_applied mz + 1 \<le> mf_nextSeqno m" using assms(3,4) by (simp add: mz_ok_def Let_def)
  have "front log (mz_applied mz + 1) \<le> mf_frontierTs m"
    using front_mono[OF a] manifest_okD(1)[OF bucket_okD(3)[OF assms(1)]] by simp
  then show ?thesis
    using assms(3) grows_has_all[OF assms(1,2)] grows_front[OF assms(2) a] grows_manifest[OF assms(2) _ assms(4)]
      grows_below[OF assms(2,4), of "\<lambda>n. mz_applied mz < n"]
    by (auto simp: mz_ok_def Let_def split: option.splits)
qed

section \<open>Instances\<close>

definition own_store :: "commit_log \<Rightarrow> 'e object_doc_store \<Rightarrow> bool" where
  "own_store log ob \<longleftrightarrow> mf_frontierTs (ob_manifest ob) = front log (ob_nextSeqno ob) \<and>
     follows (log_docs log) (log_idxs log) (mf_frontierTs (ob_manifest ob)) (ob_local ob)"

definition lease_ok :: "commit_log \<Rightarrow> manifest \<Rightarrow> 'e object_doc_store \<Rightarrow> bool" where
  "lease_ok log m ob \<longleftrightarrow> (\<forall>ep w. ob_held ob = Some (ep, w) \<longrightarrow> 1 \<le> ep \<and> ep \<le> mf_epoch m \<and> mf_epoch (ob_manifest ob) = ep \<and>
     (\<not> ob_poisoned ob \<longrightarrow> own_store log ob \<and>
       (if ep = mf_epoch m then ob_manifest ob = m \<and> ob_nextSeqno ob = mf_nextSeqno m
        else ob_nextSeqno ob < mf_nextSeqno m \<and> ob_nextSeqno ob \<notin> set (seqnos log))))"

definition node_ok :: "(object_body \<Rightarrow> 'e) \<Rightarrow> commit_log \<Rightarrow> manifest \<Rightarrow> 'e object_doc_store \<Rightarrow> bool" where
  "node_ok contentEtag log m ob \<longleftrightarrow> ob_etag ob = contentEtag (ManifestBody (ob_manifest ob)) \<and>
     follows (log_docs log) (log_idxs log) (mf_frontierTs m) (ob_local ob) \<and> 0 \<le> ob_nextSeqno ob \<and> ob_nextSeqno ob \<le> mf_nextSeqno m \<and>
     has_all (log_docs log) (log_idxs log) (front log (ob_nextSeqno ob)) (ob_local ob) \<and> lease_ok log m ob"

definition current_owner :: "manifest \<Rightarrow> 'e object_doc_store \<Rightarrow> bool" where
  "current_owner m ob \<longleftrightarrow> (\<exists>w. ob_held ob = Some (mf_epoch m, w)) \<and> \<not> ob_poisoned ob"

definition catching_up :: "commit_log \<Rightarrow> manifest \<Rightarrow> 'e object_doc_store \<Rightarrow> materializing \<Rightarrow> bool" where
  "catching_up log m ob mz \<longleftrightarrow> mz_ok log mz (ob_local ob) \<and> mf_nextSeqno (mz_manifest mz) \<le> mf_nextSeqno m \<and> ob_nextSeqno ob \<le> mz_applied mz + 1"

definition prepared_from :: "'e object_doc_store \<Rightarrow> prepared_commit \<Rightarrow> bool" where
  "prepared_from ob pp \<longleftrightarrow> (\<exists>units shardId. list_all unit_wf units \<and> ob_prepare units shardId ob = CommitGo pp)"

fun pending_ok :: "(object_body \<Rightarrow> 'e) \<Rightarrow> commit_log \<Rightarrow> manifest \<Rightarrow> 'e object_doc_store \<Rightarrow> 'e pending_op \<Rightarrow> bool" where
  "pending_ok contentEtag log m ob Idle \<longleftrightarrow> True"
| "pending_ok contentEtag log m ob (Opening mz) \<longleftrightarrow> ob_held ob = None \<and> catching_up log m ob mz"
| "pending_ok contentEtag log m ob (Acquiring opts e mz) \<longleftrightarrow> \<not> holds_lease ob \<and> e = contentEtag (ManifestBody (mz_manifest mz)) \<and> catching_up log m ob mz"
| "pending_ok contentEtag log m ob (Committing pp) \<longleftrightarrow> prepared_from ob pp"
| "pending_ok contentEtag log m ob Snapshotting \<longleftrightarrow> holds_lease ob \<and> ob_nextSeqno ob \<noteq> 0"
| "pending_ok contentEtag log m ob (Sweeping floor keepSnap) \<longleftrightarrow> (\<exists>t. mf_snapshotTs m = Some t \<and> floor \<le> seg_base m \<and> keepSnap \<le> t)"

text \<open>What the current owner relies on in the bucket.\<close>

fun objects_ok :: "manifest \<Rightarrow> object_bucket \<Rightarrow> 'e pending_op \<Rightarrow> bool" where
  "objects_ok m b (Committing pp) \<longleftrightarrow> map_of b (SegmentKey (mf_nextSeqno m)) = Some (commit_body pp)"
| "objects_ok m b Snapshotting \<longleftrightarrow> map_of b (SegmentKey (mf_nextSeqno m)) = None \<and> map_of b (SnapshotKey (mf_frontierTs m)) \<noteq> None"
| "objects_ok m b _ \<longleftrightarrow> map_of b (SegmentKey (mf_nextSeqno m)) = None"

definition member_ok :: "(object_body \<Rightarrow> 'e) \<Rightarrow> commit_log \<Rightarrow> manifest \<Rightarrow> object_bucket \<Rightarrow> 'e object_doc_store \<Rightarrow> 'e pending_op \<Rightarrow> bool" where
  "member_ok contentEtag log m b ob p \<longleftrightarrow> node_ok contentEtag log m ob \<and> pending_ok contentEtag log m ob p \<and> (current_owner m ob \<longrightarrow> objects_ok m b p)"

lemma lease_okD:
  assumes "lease_ok log m ob" "ob_held ob = Some (ep, w)"
  shows "1 \<le> ep" "ep \<le> mf_epoch m" "mf_epoch (ob_manifest ob) = ep" "\<not> ob_poisoned ob \<Longrightarrow> own_store log ob"
    "\<not> ob_poisoned ob \<Longrightarrow> ep = mf_epoch m \<Longrightarrow> ob_manifest ob = m \<and> ob_nextSeqno ob = mf_nextSeqno m"
    "\<not> ob_poisoned ob \<Longrightarrow> ep \<noteq> mf_epoch m \<Longrightarrow> ob_nextSeqno ob < mf_nextSeqno m \<and> ob_nextSeqno ob \<notin> set (seqnos log)"
  using assms unfolding lease_ok_def by simp_all

lemma node_okD:
  assumes "node_ok contentEtag log m ob"
  shows "ob_etag ob = contentEtag (ManifestBody (ob_manifest ob))" "follows (log_docs log) (log_idxs log) (mf_frontierTs m) (ob_local ob)"
    "0 \<le> ob_nextSeqno ob" "ob_nextSeqno ob \<le> mf_nextSeqno m" "has_all (log_docs log) (log_idxs log) (front log (ob_nextSeqno ob)) (ob_local ob)"
    "lease_ok log m ob"
  using assms unfolding node_ok_def by blast+

lemma lease_none [simp]: "ob_held ob = None \<Longrightarrow> lease_ok log m ob" "ob_held ob = None \<Longrightarrow> \<not> current_owner m ob" "ob_held ob = None \<Longrightarrow> \<not> holds_lease ob"
  by (simp_all add: lease_ok_def current_owner_def holds_lease_def)

lemma poisoned_none [simp]: "ob_poisoned ob \<Longrightarrow> \<not> current_owner m ob" "ob_poisoned ob \<Longrightarrow> \<not> holds_lease ob"
  by (simp_all add: current_owner_def holds_lease_def)

lemma pending_holds: "pending_ok contentEtag log m ob (Committing pp) \<Longrightarrow> holds_lease ob"
  unfolding pending_ok.simps prepared_from_def by (auto elim: prepare_spec)

text \<open>An instance that is not the one moving the manifest.\<close>

lemma other_node:
  assumes "bucket_ok m log b" "grows log m log' m'" "node_ok contentEtag log m ob"
    and other: "\<And>ep w. ob_held ob = Some (ep, w) \<Longrightarrow> ep \<noteq> mf_epoch m' \<and> (ep = mf_epoch m \<longrightarrow> mf_nextSeqno m < mf_nextSeqno m' \<and> log' = log)"
  shows "node_ok contentEtag log' m' ob"
proof -
  note n = node_okD[OF assms(3)] and front = manifest_okD(1)[OF bucket_okD(3)[OF assms(1)]]
  have g: "mf_frontierTs m \<le> mf_frontierTs m'" "mf_nextSeqno m \<le> mf_nextSeqno m'" "mf_epoch m \<le> mf_epoch m'"
    using assms(2) by (simp_all add: grows_def)
  have le: "front log (ob_nextSeqno ob) \<le> mf_frontierTs m" using front_mono[OF n(4)] front by simp
  note f = grows_front[OF assms(2) n(4)]
  have "lease_ok log' m' ob"
    unfolding lease_ok_def
  proof (intro allI impI)
    fix ep w assume h: "ob_held ob = Some (ep, w)"
    note l = lease_okD[OF n(6) h]
    have "own_store log' ob" if "own_store log ob"
    proof -
      have s: "mf_frontierTs (ob_manifest ob) = front log (ob_nextSeqno ob)" "follows (log_docs log) (log_idxs log) (mf_frontierTs (ob_manifest ob)) (ob_local ob)"
        using that unfolding own_store_def by blast+
      have "follows (log_docs log') (log_idxs log') (mf_frontierTs (ob_manifest ob)) (ob_local ob)"
        by (rule grows_follows[OF assms(1,2) s(2) _ order_refl]) (use s(1) le in simp)
      then show ?thesis using s(1) f by (simp add: own_store_def)
    qed
    moreover have "ob_nextSeqno ob < mf_nextSeqno m' \<and> ob_nextSeqno ob \<notin> set (seqnos log')" if "\<not> ob_poisoned ob"
    proof (cases "ep = mf_epoch m")
      case True
      then show ?thesis using l(5)[OF that True] other[OF h] bucket_okD(2)[OF assms(1)] by auto
    next
      case False
      then show ?thesis using l(6)[OF that False] g(2) assms(2) by (auto elim!: growsE)
    qed
    ultimately show "1 \<le> ep \<and> ep \<le> mf_epoch m' \<and> mf_epoch (ob_manifest ob) = ep \<and> (\<not> ob_poisoned ob \<longrightarrow> own_store log' ob \<and>
       (if ep = mf_epoch m' then ob_manifest ob = m' \<and> ob_nextSeqno ob = mf_nextSeqno m'
        else ob_nextSeqno ob < mf_nextSeqno m' \<and> ob_nextSeqno ob \<notin> set (seqnos log')))"
      using l(1-4) g(3) other[OF h] by simp
  qed
  then show ?thesis
    using n g le f grows_follows[OF assms(1,2) n(2) order_refl g(1)] grows_has_all[OF assms(1,2) n(5) le] by (simp add: node_ok_def)
qed

lemma other_pending:
  assumes "bucket_ok m log b" "grows log m log' m'" "pending_ok contentEtag log m ob p"
  shows "pending_ok contentEtag log' m' ob p"
proof -
  have c: "catching_up log' m' ob mz" if "catching_up log m ob mz" for mz
    using that assms(2) grows_mz[OF assms(1,2)] by (auto simp: catching_up_def grows_def)
  show ?thesis
  proof (cases p)
    case (Sweeping floor keepSnap)
    then show ?thesis using assms(2,3) by (fastforce simp: grows_def)
  qed (use assms(3) c in auto)
qed

lemma other_member:
  assumes "bucket_ok m log b" "grows log m log' m'" "member_ok contentEtag log m b0 ob p"
    and other: "\<And>ep w. ob_held ob = Some (ep, w) \<Longrightarrow> ep \<noteq> mf_epoch m' \<and> (ep = mf_epoch m \<longrightarrow> mf_nextSeqno m < mf_nextSeqno m' \<and> log' = log)"
  shows "member_ok contentEtag log' m' b' ob p"
proof -
  have "\<not> current_owner m' ob" using other by (auto simp: current_owner_def)
  moreover have n: "node_ok contentEtag log m ob" and p: "pending_ok contentEtag log m ob p" using assms(3) by (simp_all add: member_ok_def)
  have "node_ok contentEtag log' m' ob" by (rule other_node[OF assms(1,2) n]) (rule other)
  moreover have "pending_ok contentEtag log' m' ob p" by (rule other_pending[OF assms(1,2) p])
  ultimately show ?thesis by (simp add: member_ok_def)
qed

lemma member_bucket:
  assumes "member_ok contentEtag log m b ob p" "map_of b' (SegmentKey (mf_nextSeqno m)) = map_of b (SegmentKey (mf_nextSeqno m))"
    "map_of b (SnapshotKey (mf_frontierTs m)) \<noteq> None \<Longrightarrow> map_of b' (SnapshotKey (mf_frontierTs m)) \<noteq> None"
  shows "member_ok contentEtag log m b' ob p"
  using assms by (cases p) (auto simp: member_ok_def)

lemma member_same: "member_ok contentEtag log m b ob p \<Longrightarrow> same_objects b b' \<Longrightarrow> member_ok contentEtag log m b' ob p"
  by (erule member_bucket) (simp_all add: same_objects_def)

section \<open>Compare and swap\<close>

lemma cas_request_cases:
  assumes "cas_request contentEtag rq next etag b = (b', r)" "inj contentEtag" "map_of b ManifestKey = Some (ManifestBody m)"
    "etag = contentEtag (ManifestBody m0)"
  obtains (landed) "m0 = m" "b' = AList.update ManifestKey (ManifestBody next) b" "cas_lands contentEtag rq next etag b"
      "r = CasOk (contentEtag (ManifestBody next)) \<or> r = CasThrew"
  | (missed) "b' = b" "\<not> cas_lands contentEtag rq next etag b" "r = CasLost \<or> r = CasThrew"
proof -
  have eq: "contentEtag (ManifestBody m) = etag \<longleftrightarrow> m0 = m" using assms(2,4) by (auto dest: injD)
  have c: "casManifest contentEtag next etag b =
      (if m0 = m then Some (AList.update ManifestKey (ManifestBody next) b, contentEtag (ManifestBody next)) else None)"
    using eq assms(3) by (simp add: casManifest_def casPut_def)
  show ?thesis
  proof (cases "m0 = m \<and> rq \<noteq> Throws False")
    case True
    then show ?thesis using landed assms(1) c by (auto simp: cas_request_def cas_lands_def split: request.splits bool.splits)
  next
    case False
    then show ?thesis using missed assms(1) c by (auto simp: cas_request_def cas_lands_def split: request.splits bool.splits if_splits)
  qed
qed

section \<open>The instances together\<close>

definition nodes_ok :: "(object_body \<Rightarrow> 'e) \<Rightarrow> commit_log \<Rightarrow> manifest \<Rightarrow> object_bucket \<Rightarrow> (nat, 'e object_doc_store \<times> 'e pending_op) jsmap \<Rightarrow> bool" where
  "nodes_ok contentEtag log m b nodes \<longleftrightarrow> (\<forall>i ob p. map_of nodes i = Some (ob, p) \<longrightarrow> member_ok contentEtag log m b ob p) \<and>
     (\<forall>i j oi pi oj pj ep w w'. map_of nodes i = Some (oi, pi) \<longrightarrow> map_of nodes j = Some (oj, pj) \<longrightarrow>
        ob_held oi = Some (ep, w) \<longrightarrow> ob_held oj = Some (ep, w') \<longrightarrow> i = j)"

lemma nodes_okD:
  assumes "nodes_ok contentEtag log m b nodes"
  shows "map_of nodes i = Some (ob, p) \<Longrightarrow> member_ok contentEtag log m b ob p"
    "map_of nodes i = Some (oi, pi) \<Longrightarrow> map_of nodes j = Some (oj, pj) \<Longrightarrow> ob_held oi = Some (ep, w) \<Longrightarrow> ob_held oj = Some (ep, w') \<Longrightarrow> i = j"
  using assms unfolding nodes_ok_def by blast+

lemma nodes_step:
  assumes "nodes_ok contentEtag log m b nodes" "\<And>j oj pj. j \<noteq> i \<Longrightarrow> map_of nodes j = Some (oj, pj) \<Longrightarrow> member_ok contentEtag log' m' b' oj pj"
    "member_ok contentEtag log' m' b' ob' p'"
    and held: "\<And>j oj pj ep w w'. j \<noteq> i \<Longrightarrow> map_of nodes j = Some (oj, pj) \<Longrightarrow> ob_held ob' = Some (ep, w) \<Longrightarrow> ob_held oj \<noteq> Some (ep, w')"
  shows "nodes_ok contentEtag log' m' b' (AList.update i (ob', p') nodes)"
  unfolding nodes_ok_def
proof (intro conjI allI impI)
  fix j ob p assume "map_of (AList.update i (ob', p') nodes) j = Some (ob, p)"
  then show "member_ok contentEtag log' m' b' ob p" using assms(2)[of j ob p] assms(3) by (simp split: if_splits)
next
  fix j k oj pj ok pk ep w w'
  assume a: "map_of (AList.update i (ob', p') nodes) j = Some (oj, pj)" "map_of (AList.update i (ob', p') nodes) k = Some (ok, pk)"
    "ob_held oj = Some (ep, w)" "ob_held ok = Some (ep, w')"
  show "j = k"
    using a held[of j oj pj ep w' w] held[of k ok pk ep w w'] nodes_okD(2)[OF assms(1), of j oj pj k ok pk ep w w'] by (auto split: if_splits)
qed

text \<open>Holding what it held, or nothing, an instance keeps leases apart.\<close>

lemma held_kept:
  assumes "nodes_ok contentEtag log m b nodes" "map_of nodes i = Some (ob, p)" "ob_held ob' = None \<or> ob_held ob' = ob_held ob"
    "j \<noteq> i" "map_of nodes j = Some (oj, pj)" "ob_held ob' = Some (ep, w)"
  shows "ob_held oj \<noteq> Some (ep, w')"
  using nodes_okD(2)[OF assms(1,2,5), of ep w w'] assms(3,4,6) by auto

lemma others_kept:
  assumes "nodes_ok contentEtag log m b nodes" "map_of nodes i = Some (ob, p)" "ob_held ob = Some (mf_epoch m, w)"
    "bucket_ok m log b" "grows log m log' m'" "mf_epoch m' = mf_epoch m" "j \<noteq> i" "map_of nodes j = Some (oj, pj)"
  shows "member_ok contentEtag log' m' b' oj pj"
  by (rule other_member[OF assms(4,5) nodes_okD(1)[OF assms(1,8)]]) (use nodes_okD(2)[OF assms(1,2,8) assms(3)] assms(6,7) in auto)

definition shard_inv :: "(object_body \<Rightarrow> 'e) \<Rightarrow> 'e shard_sys \<Rightarrow> bool" where
  "shard_inv contentEtag s \<longleftrightarrow> (\<exists>m. (map_of (sh_bucket s) ManifestKey = Some (ManifestBody m) \<or>
        map_of (sh_bucket s) ManifestKey = None \<and> m = emptyManifest \<and> sh_nodes s = []) \<and>
     bucket_ok m (sh_log s) (sh_bucket s) \<and> nodes_ok contentEtag (sh_log s) m (sh_bucket s) (sh_nodes s) \<and>
     (\<forall>(_, us) \<in> set (sh_acked s). \<exists>q f. (q, f, payload_of us) \<in> set (sh_log s)))"

text \<open>What a step may assume: the manifest, its store and its members.\<close>

definition inv_at :: "(object_body \<Rightarrow> 'e) \<Rightarrow> manifest \<Rightarrow> 'e shard_sys \<Rightarrow> bool" where
  "inv_at contentEtag m s \<longleftrightarrow> map_of (sh_bucket s) ManifestKey = Some (ManifestBody m) \<and> bucket_ok m (sh_log s) (sh_bucket s) \<and>
     nodes_ok contentEtag (sh_log s) m (sh_bucket s) (sh_nodes s) \<and> (\<forall>(_, us) \<in> set (sh_acked s). \<exists>q f. (q, f, payload_of us) \<in> set (sh_log s))"

lemma inv_atI: "inv_at contentEtag m s \<Longrightarrow> shard_inv contentEtag s"
  unfolding inv_at_def shard_inv_def by blast

lemma inv_atD:
  assumes "inv_at contentEtag m s"
  shows "map_of (sh_bucket s) ManifestKey = Some (ManifestBody m)" "bucket_ok m (sh_log s) (sh_bucket s)"
    "nodes_ok contentEtag (sh_log s) m (sh_bucket s) (sh_nodes s)" "\<forall>(_, us) \<in> set (sh_acked s). \<exists>q f. (q, f, payload_of us) \<in> set (sh_log s)"
    "map_of (sh_nodes s) i = Some (ob, p) \<Longrightarrow> member_ok contentEtag (sh_log s) m (sh_bucket s) ob p"
  using assms nodes_okD(1) unfolding inv_at_def by blast+

lemma inv_with_node:
  assumes "shard_inv contentEtag s" "map_of (sh_nodes s) i = Some x"
  obtains m where "inv_at contentEtag m s"
  using assms unfolding shard_inv_def inv_at_def by fastforce

lemma node_step_inv:
  assumes "inv_at contentEtag m s" "map_of (sh_nodes s) i = Some (ob, p)"
    "member_ok contentEtag (sh_log s) m (sh_bucket s) ob' p'" "ob_held ob' = None \<or> ob_held ob' = ob_held ob"
  shows "shard_inv contentEtag (set_node i ob' p' s)"
proof (rule inv_atI)
  have "nodes_ok contentEtag (sh_log s) m (sh_bucket s) (AList.update i (ob', p') (sh_nodes s))"
    by (rule nodes_step[OF inv_atD(3)[OF assms(1)] nodes_okD(1)[OF inv_atD(3)[OF assms(1)]] assms(3) held_kept[OF inv_atD(3)[OF assms(1)] assms(2,4)]])
  then show "inv_at contentEtag m (set_node i ob' p' s)" using assms(1) by (simp add: inv_at_def set_node_def)
qed

lemma bucket_step_inv:
  assumes "inv_at contentEtag m s" "map_of (sh_nodes s) i = Some (ob, p)"
    "member_ok contentEtag (sh_log s) m b ob' p'" "ob_held ob' = None \<or> ob_held ob' = ob_held ob"
    "\<And>j oj pj. j \<noteq> i \<Longrightarrow> map_of (sh_nodes s) j = Some (oj, pj) \<Longrightarrow> member_ok contentEtag (sh_log s) m b oj pj"
    "bucket_ok m (sh_log s) b" "map_of b ManifestKey = map_of (sh_bucket s) ManifestKey"
  shows "shard_inv contentEtag (set_node i ob' p' (s\<lparr>sh_bucket := b\<rparr>))"
proof (rule inv_atI)
  have "nodes_ok contentEtag (sh_log s) m b (AList.update i (ob', p') (sh_nodes s))"
    by (rule nodes_step[OF inv_atD(3)[OF assms(1)] assms(5) assms(3) held_kept[OF inv_atD(3)[OF assms(1)] assms(2,4)]])
  then show "inv_at contentEtag m (set_node i ob' p' (s\<lparr>sh_bucket := b\<rparr>))" using assms(1,6,7) by (simp add: inv_at_def set_node_def)
qed

text \<open>The manifest moved by the instance that holds its epoch.\<close>

lemma manifest_step_inv:
  assumes inv: "inv_at contentEtag m s" and i: "map_of (sh_nodes s) i = Some (ob, p)" and "ob_held ob = Some (mf_epoch m, w)"
    and "grows (sh_log s) m log' m'" "mf_epoch m' = mf_epoch m" "bucket_ok m' log' b'" "map_of b' ManifestKey = Some (ManifestBody m')"
    and "member_ok contentEtag log' m' b' ob' p'" "ob_held ob' = None \<or> ob_held ob' = ob_held ob"
    and "sh_bucket s' = b'" "sh_nodes s' = AList.update i (ob', p') (sh_nodes s)" "sh_log s' = log'"
    and "\<forall>(_, us) \<in> set (sh_acked s'). \<exists>q f. (q, f, payload_of us) \<in> set log'"
  shows "shard_inv contentEtag s'"
proof (rule inv_atI)
  note n = inv_atD(3)[OF inv]
  have "nodes_ok contentEtag log' m' b' (AList.update i (ob', p') (sh_nodes s))"
    by (rule nodes_step[OF n others_kept[OF n i assms(3) inv_atD(2)[OF inv] assms(4,5)] assms(8) held_kept[OF n i assms(9)]])
  then show "inv_at contentEtag m' s'" using assms by (simp add: inv_at_def)
qed

end
