(* ===== verification/Object_Steps.thy ===== *)
theory Object_Steps
  imports Object_Invariant
begin

text \<open>Every step of a careful run keeps the invariant, operation by operation.\<close>

section \<open>Giving up the lease\<close>

lemma lease_weaken:
  assumes "lease_ok log m ob" "\<not> holds_lease ob'" "ob_held ob' = None \<or> ob_held ob' = ob_held ob \<and> ob_manifest ob' = ob_manifest ob"
  shows "lease_ok log m ob'"
proof (cases "ob_held ob'")
  case (Some h)
  then have h: "ob_held ob = Some h" "ob_manifest ob' = ob_manifest ob" "ob_poisoned ob'" using assms(2,3) by (auto simp: holds_lease_def)
  show ?thesis unfolding lease_ok_def using lease_okD(1-3)[OF assms(1)] h Some by auto
qed simp

lemma not_holding: "\<not> holds_lease ob \<Longrightarrow> \<not> current_owner m ob"
  by (auto simp: holds_lease_def current_owner_def)

lemma member_demoted:
  assumes "member_ok contentEtag log m b ob p" "\<not> holds_lease ob'" "ob_held ob' = None \<or> ob_held ob' = ob_held ob"
    "ob_manifest ob' = ob_manifest ob" "ob_etag ob' = ob_etag ob" "ob_nextSeqno ob' = ob_nextSeqno ob" "ob_local ob' = ob_local ob"
  shows "member_ok contentEtag log m b ob' Idle"
proof -
  have n: "node_ok contentEtag log m ob" using assms(1) by (simp add: member_ok_def)
  have "lease_ok log m ob'" by (rule lease_weaken[OF node_okD(6)[OF n] assms(2)]) (use assms(3,4) in auto)
  then show ?thesis using n assms not_holding[OF assms(2)] by (simp add: member_ok_def node_ok_def)
qed

lemma member_release: "member_ok contentEtag log m b ob p \<Longrightarrow> member_ok contentEtag log m b (ob\<lparr>ob_held := None\<rparr>) Idle"
  by (erule member_demoted) simp_all

lemma member_poison: "member_ok contentEtag log m b ob p \<Longrightarrow> member_ok contentEtag log m b (ob\<lparr>ob_poisoned := True\<rparr>) Idle"
  by (erule member_demoted) simp_all

lemma member_fence: "member_ok contentEtag log m b ob p \<Longrightarrow> member_ok contentEtag log m b (ob\<lparr>ob_poisoned := True, ob_held := None\<rparr>) Idle"
  by (erule member_demoted) simp_all

lemma member_node: "member_ok contentEtag log m b ob p \<Longrightarrow> node_ok contentEtag log m ob"
  by (simp add: member_ok_def)

lemma inv_release:
  assumes "shard_inv contentEtag s" "map_of (sh_nodes s) i = Some (ob, Idle)"
  shows "shard_inv contentEtag (set_node i (ob_release ob) Idle s)"
proof -
  obtain m where inv: "inv_at contentEtag m s" by (rule inv_with_node[OF assms])
  show ?thesis
    by (rule node_step_inv[OF inv assms(2)]) (simp_all add: ob_release_def member_release[OF inv_atD(5)[OF inv assms(2)]])
qed

lemma inv_commit_refused:
  assumes "shard_inv contentEtag s" "map_of (sh_nodes s) i = Some (ob, Idle)"
  shows "shard_inv contentEtag (set_node i (ob\<lparr>ob_poisoned := ob_poisoned ob \<or> p\<rparr>) Idle s)"
proof -
  obtain m where inv: "inv_at contentEtag m s" by (rule inv_with_node[OF assms])
  note mem = inv_atD(5)[OF inv assms(2)]
  have same: "ob\<lparr>ob_poisoned := ob_poisoned ob\<rparr> = ob" by simp
  have "member_ok contentEtag (sh_log s) m (sh_bucket s) (ob\<lparr>ob_poisoned := ob_poisoned ob \<or> p\<rparr>) Idle"
    using mem member_poison[OF mem] by (cases p) (simp_all only: simp_thms same)
  then show ?thesis by (rule node_step_inv[OF inv assms(2)]) simp
qed

lemma inv_idle:
  assumes "shard_inv contentEtag s" "map_of (sh_nodes s) i = Some (ob, p)" "\<not> holds_lease ob \<or> (\<exists>floor keepSnap. p = Sweeping floor keepSnap)"
  shows "shard_inv contentEtag (set_node i ob Idle s)"
proof -
  obtain m where inv: "inv_at contentEtag m s" by (rule inv_with_node[OF assms(1,2)])
  have "member_ok contentEtag (sh_log s) m (sh_bucket s) ob Idle"
    using inv_atD(5)[OF inv assms(2)] assms(3) not_holding by (auto simp: member_ok_def)
  then show ?thesis by (rule node_step_inv[OF inv assms(2)]) simp
qed

section \<open>Opening and catching up\<close>

lemma follows_empty: "follows LD LX T ds_empty"
  by (simp add: follows_def sound_def no_later_def)

lemma openManifest_inv:
  assumes "openManifest contentEtag b = Some (b', m', e)"
    and "map_of b ManifestKey = Some (ManifestBody m) \<or> map_of b ManifestKey = None \<and> m = emptyManifest"
  shows "m' = m" "e = contentEtag (ManifestBody m)" "map_of b' ManifestKey = Some (ManifestBody m)" "same_objects b b'"
  using assms
  by (auto simp: openManifest_def readManifest_def get_object_def createManifest_def casPut_def split: option.splits object_body.splits if_splits)

lemma nodes_same: "nodes_ok contentEtag log m b nodes \<Longrightarrow> same_objects b b' \<Longrightarrow> nodes_ok contentEtag log m b' nodes"
  unfolding nodes_ok_def using member_same by blast

lemma catching_begin:
  assumes "bucket_ok m log b" "0 \<le> ob_nextSeqno ob" "ob_nextSeqno ob \<le> mf_nextSeqno m" "has_all (log_docs log) (log_idxs log) (front log (ob_nextSeqno ob)) (ob_local ob)"
  shows "catching_up log m ob (begin_materialize m (ob_nextSeqno ob))"
  using mz_begin[OF bucket_okD(3)[OF assms(1)] assms(2-4)] by (simp add: catching_up_def) (simp add: begin_materialize_def Let_def)

lemma inv_open_start:
  assumes inv: "shard_inv contentEtag s" and o: "openManifest contentEtag (sh_bucket s) = Some (b, m', e)"
    and loc: "local = ds_empty \<or> (\<exists>ob p. map_of (sh_nodes s) i = Some (ob, p) \<and> local = ob_local ob)"
  shows "shard_inv contentEtag (set_node i (new_instance local m' e) (Opening (begin_materialize m' 0)) (s\<lparr>sh_bucket := b\<rparr>))"
proof -
  obtain m where m: "map_of (sh_bucket s) ManifestKey = Some (ManifestBody m) \<or> map_of (sh_bucket s) ManifestKey = None \<and> m = emptyManifest \<and> sh_nodes s = []"
    and st: "bucket_ok m (sh_log s) (sh_bucket s)" and n: "nodes_ok contentEtag (sh_log s) m (sh_bucket s) (sh_nodes s)"
    and a: "\<forall>(_, us) \<in> set (sh_acked s). \<exists>q f. (q, f, payload_of us) \<in> set (sh_log s)"
    using inv unfolding shard_inv_def by blast
  have "map_of (sh_bucket s) ManifestKey = Some (ManifestBody m) \<or> map_of (sh_bucket s) ManifestKey = None \<and> m = emptyManifest" using m by blast
  note om = openManifest_inv[OF o this]
  let ?ob = "new_instance local m' e"
  have fol: "follows (log_docs (sh_log s)) (log_idxs (sh_log s)) (mf_frontierTs m) local"
    using loc follows_empty node_okD(2)[OF member_node[OF nodes_okD(1)[OF n]]] by blast
  note l = bucket_okD(1)[OF st]
  have "front (sh_log s) 0 = 0" by (rule front_none) (use log_entryD(1)[OF l] in \<open>auto simp: seqnos_def\<close>)
  then have all: "has_all (log_docs (sh_log s)) (log_idxs (sh_log s)) (front (sh_log s) 0) local" using has_all_0[OF log_after[OF l]] by simp
  have N: "0 \<le> mf_nextSeqno m" using manifest_okD(3)[OF bucket_okD(3)[OF st]] .
  have "catching_up (sh_log s) m ?ob (begin_materialize m 0)"
    using catching_begin[OF st, of ?ob] N all by (simp add: new_instance_def)
  then have mem: "member_ok contentEtag (sh_log s) m b ?ob (Opening (begin_materialize m' 0))"
    using om(1,2) fol all N by (simp add: member_ok_def node_ok_def new_instance_def)
  have "nodes_ok contentEtag (sh_log s) m b (AList.update i (?ob, Opening (begin_materialize m' 0)) (sh_nodes s))"
    by (rule nodes_step[OF n member_same[OF nodes_okD(1)[OF n] om(4)] mem]) (simp_all add: new_instance_def)
  then have "inv_at contentEtag m (set_node i ?ob (Opening (begin_materialize m' 0)) (s\<lparr>sh_bucket := b\<rparr>))"
    using om(3) a store_same[OF om(4) st] by (simp add: inv_at_def set_node_def)
  then show ?thesis by (rule inv_atI)
qed

lemma catching_step:
  assumes st: "bucket_ok m log b" and n: "node_ok contentEtag log m ob" and c: "catching_up log m ob mz" and "\<not> holds_lease ob"
    and step: "materialize_step b mz (ob_local ob) = Some (Inr (mz', local))"
  shows "node_ok contentEtag log m (ob\<lparr>ob_local := local\<rparr>)" "catching_up log m (ob\<lparr>ob_local := local\<rparr>) mz'" "mz_manifest mz' = mz_manifest mz"
proof -
  note f = manifest_okD(1)[OF bucket_okD(3)[OF st]] and d = node_okD[OF n]
  have mz: "mz_ok log mz (ob_local ob)" "mf_nextSeqno (mz_manifest mz) \<le> mf_nextSeqno m" "ob_nextSeqno ob \<le> mz_applied mz + 1"
    using c by (simp_all add: catching_up_def)
  note s = mz_step_ok[OF bucket_okD(1,2)[OF st] d(2)[unfolded f] bucket_okD(4)[OF st] bucket_okD(5)[OF st, unfolded f] mz(1) step]
  have "has_all (log_docs log) (log_idxs log) (front log (ob_nextSeqno ob)) local" by (rule s(5)[OF front_mono[OF mz(3)] d(5)])
  moreover have "lease_ok log m (ob\<lparr>ob_local := local\<rparr>)"
    by (rule lease_weaken[OF d(6)]) (use assms(4) in \<open>auto simp: holds_lease_def\<close>)
  ultimately show "node_ok contentEtag log m (ob\<lparr>ob_local := local\<rparr>)" using d s(1) f by (simp add: node_ok_def)
  show "catching_up log m (ob\<lparr>ob_local := local\<rparr>) mz'" using s(2-4) mz by (simp add: catching_up_def)
  show "mz_manifest mz' = mz_manifest mz" by (rule s(3))
qed

lemma inv_open_read:
  assumes "shard_inv contentEtag s" "map_of (sh_nodes s) i = Some (ob, Opening mz)"
    "materialize_step (sh_bucket s) mz (ob_local ob) = Some (Inr (mz', local))"
  shows "shard_inv contentEtag (set_node i (ob\<lparr>ob_local := local\<rparr>) (Opening mz') s)"
proof -
  obtain m where inv: "inv_at contentEtag m s" by (rule inv_with_node[OF assms(1,2)])
  note mem = inv_atD(5)[OF inv assms(2), unfolded member_ok_def pending_ok.simps]
  have h: "ob_held ob = None" and n: "node_ok contentEtag (sh_log s) m ob" and c: "catching_up (sh_log s) m ob mz" using mem by blast+
  have "member_ok contentEtag (sh_log s) m (sh_bucket s) (ob\<lparr>ob_local := local\<rparr>) (Opening mz')"
    using catching_step[OF inv_atD(2)[OF inv] n c lease_none(3)[OF h] assms(3)] h by (simp add: member_ok_def)
  then show ?thesis by (rule node_step_inv[OF inv assms(2)]) simp
qed

lemma inv_acquire_read:
  assumes "shard_inv contentEtag s" "map_of (sh_nodes s) i = Some (ob, Acquiring opts e mz)"
    "materialize_step (sh_bucket s) mz (ob_local ob) = Some (Inr (mz', local))"
  shows "shard_inv contentEtag (set_node i (ob\<lparr>ob_local := local\<rparr>) (Acquiring opts e mz') s)"
proof -
  obtain m where inv: "inv_at contentEtag m s" by (rule inv_with_node[OF assms(1,2)])
  note mem = inv_atD(5)[OF inv assms(2), unfolded member_ok_def pending_ok.simps]
  have h: "\<not> holds_lease ob" and n: "node_ok contentEtag (sh_log s) m ob" and c: "catching_up (sh_log s) m ob mz" using mem by blast+
  from h have h': "\<not> holds_lease (ob\<lparr>ob_local := local\<rparr>)" by (simp add: holds_lease_def)
  have "member_ok contentEtag (sh_log s) m (sh_bucket s) (ob\<lparr>ob_local := local\<rparr>) (Acquiring opts e mz')"
    using catching_step[OF inv_atD(2)[OF inv] n c h assms(3)] mem h' not_holding[OF h'] by (simp add: member_ok_def)
  then show ?thesis by (rule node_step_inv[OF inv assms(2)]) simp
qed

lemma inv_open_done:
  assumes "shard_inv contentEtag s" "map_of (sh_nodes s) i = Some (ob, Opening mz)" "materialize_step (sh_bucket s) mz (ob_local ob) = None"
  shows "shard_inv contentEtag (set_node i (ob\<lparr>ob_nextSeqno := mf_nextSeqno (mz_manifest mz)\<rparr>) Idle s)"
proof -
  obtain m where inv: "inv_at contentEtag m s" by (rule inv_with_node[OF assms(1,2)])
  note mem = inv_atD(5)[OF inv assms(2), unfolded member_ok_def pending_ok.simps]
  then have mz: "mz_ok (sh_log s) mz (ob_local ob)" "mf_nextSeqno (mz_manifest mz) \<le> mf_nextSeqno m" "ob_held ob = None" by (simp_all add: catching_up_def)
  have "0 \<le> mf_nextSeqno (mz_manifest mz)" using mz(1) manifest_okD(3) by (auto simp: mz_ok_def Let_def)
  then have "member_ok contentEtag (sh_log s) m (sh_bucket s) (ob\<lparr>ob_nextSeqno := mf_nextSeqno (mz_manifest mz)\<rparr>) Idle"
    using mem mz(2,3) mz_done[OF mz(1) assms(3)] by (simp add: member_ok_def node_ok_def)
  then show ?thesis by (rule node_step_inv[OF inv assms(2)]) simp
qed

lemma inv_acquire_start:
  assumes "shard_inv contentEtag s" "map_of (sh_nodes s) i = Some (ob, Idle)" "\<not> holds_lease ob" "readManifest contentEtag (sh_bucket s) = Some (m', e)"
  shows "shard_inv contentEtag (set_node i ob (Acquiring opts e (begin_materialize m' (ob_nextSeqno ob))) s)"
proof -
  obtain m where inv: "inv_at contentEtag m s" by (rule inv_with_node[OF assms(1,2)])
  note mem = inv_atD(5)[OF inv assms(2)]
  note n = node_okD[OF member_node[OF mem]]
  have m: "m' = m" "e = contentEtag (ManifestBody m)" using assms(4) inv_atD(1)[OF inv] by (auto simp: readManifest_def get_object_def)
  have "catching_up (sh_log s) m ob (begin_materialize m (ob_nextSeqno ob))" by (rule catching_begin[OF inv_atD(2)[OF inv] n(3-5)])
  moreover have "mz_manifest (begin_materialize m (ob_nextSeqno ob)) = m" by (simp add: begin_materialize_def Let_def)
  ultimately have "member_ok contentEtag (sh_log s) m (sh_bucket s) ob (Acquiring opts e (begin_materialize m' (ob_nextSeqno ob)))"
    using mem assms(3) not_holding[OF assms(3)] m by (simp add: member_ok_def)
  then show ?thesis by (rule node_step_inv[OF inv assms(2)]) simp
qed

section \<open>Claiming the lease\<close>

lemma claimed_sel [simp]:
  "mf_epoch (claimed opts m) = mf_epoch m + 1" "mf_frontierTs (claimed opts m) = mf_frontierTs m" "mf_tsCounter (claimed opts m) = mf_tsCounter m"
  "mf_segments (claimed opts m) = mf_segments m" "mf_nextSeqno (claimed opts m) = (if 0 < mf_epoch m then mf_nextSeqno m + 1 else mf_nextSeqno m)"
  "mf_snapshotTs (claimed opts m) = mf_snapshotTs m" "seg_base (claimed opts m) = seg_base m" "mf_snapshotSegBase (claimed opts m) = mf_snapshotSegBase m"
  by (simp_all add: claimed_def seg_base_def)

lemma claimed_store:
  assumes "bucket_ok m log b" shows "bucket_ok (claimed opts m) log b" "grows log m log (claimed opts m)"
proof -
  note d = bucket_okD[OF assms] and md = manifest_okD[OF bucket_okD(3)[OF assms]]
  have "filter (\<lambda>n. seg_base m < n \<and> n < mf_nextSeqno (claimed opts m)) (seqnos log) = filter (\<lambda>n. seg_base m < n \<and> n < mf_nextSeqno m) (seqnos log)"
    by (rule filter_cong) (use d(2) in auto)
  moreover have "front log (mf_nextSeqno (claimed opts m)) = front log (mf_nextSeqno m)" by (rule front_cong) (use d(2) in auto)
  ultimately have "manifest_ok log (claimed opts m)" using d(3) by (simp add: manifest_ok_def split: option.splits)
  moreover have "q \<le> mf_nextSeqno (claimed opts m) \<and> 0 < mf_epoch m + 1" if "map_of b (SegmentKey q) \<noteq> None" for q using d(7)[OF that] by simp
  moreover have "\<forall>q \<in> set (seqnos log). q < mf_nextSeqno (claimed opts m)" using d(2) by force
  ultimately show "bucket_ok (claimed opts m) log b"
    using d(1,4,5,6) by (simp add: bucket_ok_def del: claimed_sel(5))
  show "grows log m log (claimed opts m)" by (simp add: grows_def)
qed

text \<open>After a catch-up, with the lease or poisoned or as before.\<close>

lemma caught_up:
  assumes inv: "inv_at contentEtag m s" and i: "map_of (sh_nodes s) i = Some (ob, Acquiring opts e mz)"
    and "materialize_step (sh_bucket s) mz (ob_local ob) = None"
  shows "member_ok contentEtag (sh_log s) m (sh_bucket s) (ob\<lparr>ob_nextSeqno := mf_nextSeqno (mz_manifest mz)\<rparr>) Idle"
    "\<not> holds_lease ob" "e = contentEtag (ManifestBody (mz_manifest mz))"
proof -
  note mem = inv_atD(5)[OF inv i, unfolded member_ok_def pending_ok.simps]
  have h: "\<not> holds_lease ob" and e: "e = contentEtag (ManifestBody (mz_manifest mz))" and n: "node_ok contentEtag (sh_log s) m ob"
    and mz: "mz_ok (sh_log s) mz (ob_local ob)" "mf_nextSeqno (mz_manifest mz) \<le> mf_nextSeqno m" using mem by (simp_all add: catching_up_def)
  let ?ob = "ob\<lparr>ob_nextSeqno := mf_nextSeqno (mz_manifest mz)\<rparr>"
  have h': "\<not> holds_lease ?ob" using h by (simp add: holds_lease_def)
  have "lease_ok (sh_log s) m ?ob" by (rule lease_weaken[OF node_okD(6)[OF n] h']) simp
  moreover have "0 \<le> mf_nextSeqno (mz_manifest mz)" using mz(1) manifest_okD(3) by (auto simp: mz_ok_def Let_def)
  ultimately show "member_ok contentEtag (sh_log s) m (sh_bucket s) ?ob Idle"
    using node_okD[OF n] mz(2) mz_done[OF mz(1) assms(3)] not_holding[OF h'] by (simp add: member_ok_def node_ok_def)
  show "\<not> holds_lease ob" "e = contentEtag (ManifestBody (mz_manifest mz))" by (rule h, rule e)
qed

lemma others_claimed:
  assumes "nodes_ok contentEtag log m b nodes" "bucket_ok m log b" "map_of nodes j = Some (oj, pj)"
  shows "member_ok contentEtag log (claimed opts m) b' oj pj" "ob_held oj \<noteq> Some (mf_epoch m + 1, w')"
proof -
  note mem = nodes_okD(1)[OF assms(1,3)]
  note l = lease_okD[OF node_okD(6)[OF member_node[OF mem]]]
  show "member_ok contentEtag log (claimed opts m) b' oj pj"
    by (rule other_member[OF assms(2) claimed_store(2)[OF assms(2)] mem]) (use l(1,2) in force)
  show "ob_held oj \<noteq> Some (mf_epoch m + 1, w')" using l(2)[of "mf_epoch m + 1" w'] by auto
qed

lemma claim_member:
  assumes st: "bucket_ok m log b" and mem: "member_ok contentEtag log m b ob Idle" and "ob_nextSeqno ob = mf_nextSeqno m" "same_objects b b'"
  shows "member_ok contentEtag log (claimed opts m) b' (ob\<lparr>ob_manifest := claimed opts m, ob_etag := contentEtag (ManifestBody (claimed opts m)),
      ob_held := Some (mf_epoch (claimed opts m), ao_writerId opts), ob_poisoned := False, ob_nextSeqno := mf_nextSeqno (claimed opts m)\<rparr>) Idle"
proof -
  let ?m = "claimed opts m"
  note n = node_okD[OF member_node[OF mem]] and d = bucket_okD[OF st]
  have f: "front log (mf_nextSeqno ?m) = front log (mf_nextSeqno m)" by (rule front_cong) (use d(2) in auto)
  have fm: "mf_frontierTs m = front log (mf_nextSeqno m)" by (rule manifest_okD(1)[OF d(3)])
  have "map_of b (SegmentKey (mf_nextSeqno ?m)) = None" using d(7)[of "mf_nextSeqno ?m"] by (cases "0 < mf_epoch m") force+
  then have "map_of b' (SegmentKey (mf_nextSeqno ?m)) = None" using assms(4) unfolding same_objects_def by metis
  moreover have "1 \<le> mf_epoch ?m" "0 \<le> mf_nextSeqno ?m" using manifest_okD(3,4)[OF d(3)] by simp_all
  ultimately show ?thesis
    using n assms(3) f fm by (simp add: member_ok_def node_ok_def lease_ok_def own_store_def del: claimed_sel(1,5))
qed

lemma inv_acquire_claim:
  assumes inv: "shard_inv contentEtag s" and i: "map_of (sh_nodes s) i = Some (ob, Acquiring opts e mz)" and inj: "inj contentEtag"
    and done_: "materialize_step (sh_bucket s) mz (ob_local ob) = None"
    and c: "claim contentEtag rq opts (mz_manifest mz) e ob (sh_bucket s) = (b, ob')"
  shows "shard_inv contentEtag (set_node i ob' Idle (s\<lparr>sh_bucket := b\<rparr>))"
proof -
  obtain m where inv: "inv_at contentEtag m s" by (rule inv_with_node[OF inv i])
  note caught = caught_up[OF inv i done_] and st = inv_atD(2)[OF inv] and n = inv_atD(3)[OF inv]
  let ?ob1 = "ob\<lparr>ob_nextSeqno := mf_nextSeqno (mz_manifest mz)\<rparr>"
  obtain r where r: "cas_request contentEtag rq (claimed opts (mz_manifest mz)) e (sh_bucket s) = (b, r)"
    using c by (auto simp: claim_def Let_def split: prod.splits cas_reply.splits)
  from r inj inv_atD(1)[OF inv] caught(3) show ?thesis
  proof (cases rule: cas_request_cases)
    case landed
    have same: "same_objects (sh_bucket s) b" unfolding landed(2) by simp
    have mem: "member_ok contentEtag (sh_log s) (claimed opts m) b ob' Idle"
      using landed(4)
    proof
      assume "r = CasOk (contentEtag (ManifestBody (claimed opts (mz_manifest mz))))"
      then show ?thesis using claim_member[OF st caught(1)[unfolded landed(1)] _ same, of opts] c r landed(1)
        by (simp add: claim_def Let_def)
    next
      assume "r = CasThrew"
      then have ob': "ob' = ?ob1\<lparr>ob_poisoned := True\<rparr>" using c r by (simp add: claim_def Let_def)
      show ?thesis unfolding ob'
        by (rule other_member[OF st claimed_store(2)[OF st] member_poison[OF caught(1)]])
          (use lease_okD(1,2)[OF node_okD(6)[OF member_node[OF caught(1)]]] in force)
    qed
    have "nodes_ok contentEtag (sh_log s) (claimed opts m) b (AList.update i (ob', Idle) (sh_nodes s))"
    proof (rule nodes_step[OF n others_claimed(1)[OF n st] mem])
      fix j oj pj ep w w' assume j: "j \<noteq> i" "map_of (sh_nodes s) j = Some (oj, pj)" and h: "ob_held ob' = Some (ep, w)"
      have "ob_held ob' = ob_held ob \<or> ep = mf_epoch m + 1" using h landed(1,4) c r by (auto simp: claim_def Let_def)
      then show "ob_held oj \<noteq> Some (ep, w')" using others_claimed(2)[OF n st j(2)] nodes_okD(2)[OF n i j(2), of ep w w'] h j(1) by auto
    qed
    then have "inv_at contentEtag (claimed opts m) (set_node i ob' Idle (s\<lparr>sh_bucket := b\<rparr>))"
      using store_same[OF same claimed_store(1)[OF st]] inv_atD(4)[OF inv] landed(1,2) by (simp add: inv_at_def set_node_def)
    then show ?thesis by (rule inv_atI)
  next
    case missed
    have "ob' = ?ob1 \<or> ob' = ?ob1\<lparr>ob_poisoned := True\<rparr>" using missed(3) c r by (auto simp: claim_def Let_def)
    then have mem: "member_ok contentEtag (sh_log s) m (sh_bucket s) ob' Idle" and h: "ob_held ob' = ob_held ob"
      using caught(1) member_poison[OF caught(1)] by auto
    have "shard_inv contentEtag (set_node i ob' Idle s)" by (rule node_step_inv[OF inv i mem]) (simp add: h)
    then show ?thesis by (simp add: missed(1))
  qed
qed

section \<open>Renewing the lease, and giving it back\<close>

text \<open>Only the lease's owner and its end change.\<close>

definition retouched :: "manifest \<Rightarrow> manifest \<Rightarrow> bool" where
  "retouched m m' \<longleftrightarrow> (\<exists>w e. m' = m\<lparr>mf_writerId := w, mf_leaseExpiresAt := e\<rparr>)"

lemma retouched_sel:
  "retouched m m' \<Longrightarrow> mf_epoch m' = mf_epoch m \<and> mf_frontierTs m' = mf_frontierTs m \<and> mf_tsCounter m' = mf_tsCounter m \<and> mf_segments m' = mf_segments m \<and>
     mf_nextSeqno m' = mf_nextSeqno m \<and> mf_snapshotTs m' = mf_snapshotTs m \<and> mf_snapshotSegBase m' = mf_snapshotSegBase m \<and> seg_base m' = seg_base m"
  by (auto simp: retouched_def seg_base_def)

lemma retouched_store:
  assumes "retouched m m'" shows "bucket_ok m log b \<Longrightarrow> bucket_ok m' log b" "grows log m log m'"
proof -
  have sel: "mf_epoch m' = mf_epoch m" "mf_frontierTs m' = mf_frontierTs m" "mf_tsCounter m' = mf_tsCounter m" "mf_segments m' = mf_segments m"
    "mf_nextSeqno m' = mf_nextSeqno m" "mf_snapshotTs m' = mf_snapshotTs m" "mf_snapshotSegBase m' = mf_snapshotSegBase m" "seg_base m' = seg_base m"
    using retouched_sel[OF assms] by blast+
  have "bucket_ok m log b \<longleftrightarrow> bucket_ok m' log b" unfolding bucket_ok_def manifest_ok_def by (simp only: sel)
  then show "bucket_ok m log b \<Longrightarrow> bucket_ok m' log b" by blast
  show "grows log m log m'" unfolding grows_def by (simp add: sel)
qed

lemma own_store_eq:
  assumes "own_store log ob" "mf_frontierTs (ob_manifest ob') = mf_frontierTs (ob_manifest ob)" "ob_nextSeqno ob' = ob_nextSeqno ob" "ob_local ob' = ob_local ob"
  shows "own_store log ob'"
  using assms(1) unfolding own_store_def assms(2-4) .

lemma retouch_inv:
  assumes inv: "inv_at contentEtag m s" and i: "map_of (sh_nodes s) i = Some (ob, Idle)" and h: "ob_held ob = Some (ep, w)" and m: "ob_manifest ob = m"
    and t: "retouched m m'" and ob': "ob' = ob\<lparr>ob_manifest := m', ob_etag := contentEtag (ManifestBody m')\<rparr> \<and> \<not> ob_poisoned ob \<or>
      ob_held ob' = None \<and> (\<exists>mm. ob_manifest ob' = mm \<and> ob_etag ob' = contentEtag (ManifestBody mm)) \<and> ob_nextSeqno ob' = ob_nextSeqno ob \<and> ob_local ob' = ob_local ob"
  shows "shard_inv contentEtag (set_node i ob' Idle (s\<lparr>sh_bucket := AList.update ManifestKey (ManifestBody m') (sh_bucket s)\<rparr>))"
proof -
  note mem = inv_atD(5)[OF inv i] and st = inv_atD(2)[OF inv]
  note n = node_okD[OF member_node[OF mem]] and sel = retouched_sel[OF t]
  note l = lease_okD[OF n(6) h]
  have ep: "ep = mf_epoch m" using l(3) m by simp
  let ?b = "AList.update ManifestKey (ManifestBody m') (sh_bucket s)"
  have "member_ok contentEtag (sh_log s) m' ?b ob' Idle"
    using ob'
  proof
    assume o: "ob' = ob\<lparr>ob_manifest := m', ob_etag := contentEtag (ManifestBody m')\<rparr> \<and> \<not> ob_poisoned ob"
    then have own: "own_store (sh_log s) ob'" by (intro own_store_eq[OF l(4)]) (use m sel in simp_all)
    moreover have "map_of (sh_bucket s) (SegmentKey (mf_nextSeqno m)) = None"
      using mem o h ep by (simp add: member_ok_def current_owner_def)
    moreover have "lease_ok (sh_log s) m' ob'" using own l(1,2,5) o h sel ep by (simp add: lease_ok_def)
    ultimately show ?thesis using n o sel by (simp add: member_ok_def node_ok_def)
  next
    assume o: "ob_held ob' = None \<and> (\<exists>mm. ob_manifest ob' = mm \<and> ob_etag ob' = contentEtag (ManifestBody mm)) \<and> ob_nextSeqno ob' = ob_nextSeqno ob \<and> ob_local ob' = ob_local ob"
    then show ?thesis using n sel by (simp add: member_ok_def node_ok_def)
  qed
  moreover have "ob_held ob' = None \<or> ob_held ob' = ob_held ob" using ob' by auto
  ultimately show ?thesis
    by (intro manifest_step_inv[OF inv i h[unfolded ep] retouched_store(2)[OF t] _ store_same[OF same_objects_manifest retouched_store(1)[OF t st]]])
      (use inv_atD(4)[OF inv] sel in \<open>simp_all add: set_node_def\<close>)
qed

lemma inv_heartbeat:
  assumes "shard_inv contentEtag s" "map_of (sh_nodes s) i = Some (ob, Idle)" "inj contentEtag"
    "ob_heartbeat contentEtag rq now leaseTtlMs ob (sh_bucket s) = (b, ob', r)"
  shows "shard_inv contentEtag (set_node i ob' Idle (s\<lparr>sh_bucket := b\<rparr>))"
proof -
  obtain m where inv: "inv_at contentEtag m s" by (rule inv_with_node[OF assms(1,2)])
  note mem = inv_atD(5)[OF inv assms(2)]
  show ?thesis
  proof (cases "ob_held ob = None \<or> ob_poisoned ob")
    case True
    then have "b = sh_bucket s" "ob' = ob" using assms(4) by (auto simp: ob_heartbeat_def Let_def)
    then show ?thesis using node_step_inv[OF inv assms(2) mem] by simp
  next
    case False
    then obtain ep w where h: "ob_held ob = Some (ep, w)" "\<not> ob_poisoned ob" by auto
    let ?next = "renewed (now + leaseTtlMs) (ob_manifest ob)"
    obtain r' where r: "cas_request contentEtag rq ?next (ob_etag ob) (sh_bucket s) = (b, r')"
      using assms(4) False by (auto simp: ob_heartbeat_def Let_def split: prod.splits cas_reply.splits)
    from r assms(3) inv_atD(1)[OF inv] node_okD(1)[OF member_node[OF mem]] show ?thesis
    proof (cases rule: cas_request_cases)
      case landed
      have t: "retouched m ?next" unfolding landed(1) retouched_def renewed_def by (cases m) auto
      show ?thesis unfolding landed(2)
        by (rule retouch_inv[OF inv assms(2) h(1) landed(1) t])
          (use landed(4) assms(4) h r node_okD(1)[OF member_node[OF mem]] in \<open>auto simp: ob_heartbeat_def Let_def\<close>)
    next
      case missed
      then have o: "ob' = ob\<lparr>ob_poisoned := True, ob_held := None\<rparr>" using assms(4) h r by (auto simp: ob_heartbeat_def Let_def)
      have "shard_inv contentEtag (set_node i ob' Idle s)"
        unfolding o by (rule node_step_inv[OF inv assms(2) member_fence[OF mem]]) simp
      then show ?thesis by (simp add: missed(1))
    qed
  qed
qed

lemma inv_relinquish:
  assumes "shard_inv contentEtag s" "map_of (sh_nodes s) i = Some (ob, Idle)" "inj contentEtag"
    "ob_relinquish contentEtag rq ob (sh_bucket s) = (b, ob')"
  shows "shard_inv contentEtag (set_node i ob' Idle (s\<lparr>sh_bucket := b\<rparr>))"
proof -
  obtain m where inv: "inv_at contentEtag m s" by (rule inv_with_node[OF assms(1,2)])
  note mem = inv_atD(5)[OF inv assms(2)]
  show ?thesis
  proof (cases "ob_held ob")
    case None
    then have "b = sh_bucket s" "ob' = ob" using assms(4) by (auto simp: ob_relinquish_def)
    then show ?thesis using node_step_inv[OF inv assms(2) mem] by simp
  next
    case (Some h)
    obtain ep w where h: "ob_held ob = Some (ep, w)" using Some by (cases h) auto
    let ?next = "(ob_manifest ob)\<lparr>mf_writerId := [], mf_leaseExpiresAt := 0\<rparr>"
    obtain r' where r: "cas_request contentEtag rq ?next (ob_etag ob) (sh_bucket s) = (b, r')"
      using assms(4) h by (auto simp: ob_relinquish_def Let_def split: prod.splits cas_reply.splits)
    from r assms(3) inv_atD(1)[OF inv] node_okD(1)[OF member_node[OF mem]] show ?thesis
    proof (cases rule: cas_request_cases)
      case landed
      have t: "retouched m ?next" unfolding landed(1) retouched_def by blast
      show ?thesis unfolding landed(2)
        by (rule retouch_inv[OF inv assms(2) h landed(1) t])
          (use landed(4) assms(4) h r node_okD(1)[OF member_node[OF mem]] in \<open>auto simp: ob_relinquish_def Let_def\<close>)
    next
      case missed
      then have o: "ob' = ob\<lparr>ob_held := None\<rparr>" using assms(4) h r by (auto simp: ob_relinquish_def Let_def)
      have "shard_inv contentEtag (set_node i ob' Idle s)"
        unfolding o by (rule node_step_inv[OF inv assms(2) member_release[OF mem]]) simp
      then show ?thesis by (simp add: missed(1))
    qed
  qed
qed

section \<open>Committing\<close>

lemma holder:
  assumes "holds_lease ob" obtains ep w where "ob_held ob = Some (ep, w)" "\<not> ob_poisoned ob"
  using assms by (auto simp: holds_lease_def)

lemma holder_seqno:
  assumes "bucket_ok m log b" "lease_ok log m ob" "holds_lease ob"
  shows "ob_nextSeqno ob \<notin> set (seqnos log)" "ob_nextSeqno ob \<le> mf_nextSeqno m" "0 < mf_epoch m"
    "\<not> current_owner m ob \<Longrightarrow> ob_nextSeqno ob < mf_nextSeqno m"
    "current_owner m ob \<Longrightarrow> ob_manifest ob = m \<and> ob_nextSeqno ob = mf_nextSeqno m"
proof -
  obtain ep w where h: "ob_held ob = Some (ep, w)" "\<not> ob_poisoned ob" by (rule holder[OF assms(3)])
  note l = lease_okD[OF assms(2) h(1)]
  have c: "current_owner m ob \<longleftrightarrow> ep = mf_epoch m" using h by (simp add: current_owner_def)
  have "mf_nextSeqno m \<notin> set (seqnos log)" using bucket_okD(2)[OF assms(1)] by auto
  then show "ob_nextSeqno ob \<notin> set (seqnos log)" "ob_nextSeqno ob \<le> mf_nextSeqno m"
    using l(5,6)[OF h(2)] by (cases "ep = mf_epoch m"; force)+
  show "0 < mf_epoch m" using l(1,2) by simp
  show "\<not> current_owner m ob \<Longrightarrow> ob_nextSeqno ob < mf_nextSeqno m" using l(6)[OF h(2)] c by blast
  show "current_owner m ob \<Longrightarrow> ob_manifest ob = m \<and> ob_nextSeqno ob = mf_nextSeqno m" using l(5)[OF h(2)] c by blast
qed

lemma put_segment_store:
  assumes "bucket_ok m log b" "q \<notin> set (seqnos log)" "q \<le> mf_nextSeqno m" "0 < mf_epoch m"
  shows "bucket_ok m log (putImmutable (SegmentKey q) body b)"
proof -
  have "segs_ok log (seg_base m) (putImmutable (SegmentKey q) body b)"
    unfolding segs_ok_def
  proof (intro ballI, unfold split_paired_all prod.case)
    fix q' f p assume e: "(q', f, p) \<in> set log"
    then have "q' \<noteq> q" using assms(2) by (force simp: seqnos_def)
    then have "map_of (putImmutable (SegmentKey q) body b) (SegmentKey q') = map_of b (SegmentKey q')" by (simp add: putImmutable_def)
    then show "map_of (putImmutable (SegmentKey q) body b) (SegmentKey q') = Some (SegmentBody (encodeSegment p)) \<or>
        map_of (putImmutable (SegmentKey q) body b) (SegmentKey q') = None \<and> q' \<le> seg_base m"
      using segs_okD[OF bucket_okD(4)[OF assms(1)] e] by simp
  qed
  moreover have "snaps_ok log (mf_frontierTs m) (putImmutable (SegmentKey q) body b)"
    using bucket_okD(5)[OF assms(1)] by (simp add: snaps_ok_def putImmutable_def)
  moreover have "q' \<le> mf_nextSeqno m \<and> 0 < mf_epoch m" if "map_of (putImmutable (SegmentKey q) body b) (SegmentKey q') \<noteq> None" for q'
    using that bucket_okD(7)[OF assms(1), of q'] assms(3,4) by (cases "q' = q") (auto simp: putImmutable_def split: if_splits)
  moreover have "map_of (putImmutable (SegmentKey q) body b) (SnapshotKey t) = map_of b (SnapshotKey t)" for t
    by (simp add: putImmutable_def)
  ultimately show ?thesis using bucket_okD(1-3,6)[OF assms(1)] by (simp add: bucket_ok_def)
qed

lemma two_owners:
  assumes "nodes_ok contentEtag log m b nodes" "map_of nodes i = Some (oi, pi)" "map_of nodes j = Some (oj, pj)" "current_owner m oi" "current_owner m oj"
  shows "i = j"
  using assms nodes_okD(2)[OF assms(1-3)] by (auto simp: current_owner_def)

lemma member_not_owner: "member_ok contentEtag log m b ob p \<Longrightarrow> \<not> current_owner m ob \<Longrightarrow> member_ok contentEtag log m b' ob p"
  by (simp add: member_ok_def)

lemma inv_commit_put:
  assumes "shard_inv contentEtag s" "map_of (sh_nodes s) i = Some (ob, Idle)" "list_all unit_wf units" "ob_prepare units shardId ob = CommitGo pp"
    and rq: "rq \<noteq> Throws True"
  shows "shard_inv contentEtag (set_node i ob (if rq = Returns then Committing pp else Idle)
      (s\<lparr>sh_bucket := put_request rq (SegmentKey (pp_seqno pp)) (commit_body pp) (sh_bucket s)\<rparr>))"
proof -
  obtain m where inv: "inv_at contentEtag m s" by (rule inv_with_node[OF assms(1,2)])
  note mem = inv_atD(5)[OF inv assms(2)] and st = inv_atD(2)[OF inv] and n = inv_atD(3)[OF inv]
  show ?thesis
  proof (cases "rq = Returns")
    case False
    then have "rq = Throws False" using rq by (cases rq) auto
    then show ?thesis using node_step_inv[OF inv assms(2) mem] by (simp add: put_request_def)
  next
    case True
    have pp: "pp_seqno pp = ob_nextSeqno ob" "holds_lease ob" using prepare_spec[OF assms(4,3)] by metis+
    note h = holder_seqno[OF st node_okD(6)[OF member_node[OF mem]] pp(2)]
    let ?b = "putImmutable (SegmentKey (ob_nextSeqno ob)) (commit_body pp) (sh_bucket s)"
    have "bucket_ok m (sh_log s) ?b" by (rule put_segment_store[OF st h(1-3)])
    moreover have "member_ok contentEtag (sh_log s) m ?b ob (Committing pp)"
      using mem h(5) assms(3,4) by (auto simp: member_ok_def prepared_from_def putImmutable_def)
    moreover have "member_ok contentEtag (sh_log s) m ?b oj pj" if j: "j \<noteq> i" "map_of (sh_nodes s) j = Some (oj, pj)" for j oj pj
    proof (cases "current_owner m ob")
      case True
      then have "\<not> current_owner m oj" using two_owners[OF n assms(2) j(2)] j(1) by blast
      then show ?thesis using member_not_owner[OF inv_atD(5)[OF inv j(2)]] by blast
    next
      case False
      then have "ob_nextSeqno ob \<noteq> mf_nextSeqno m" using h(4) by simp
      then show ?thesis by (intro member_bucket[OF inv_atD(5)[OF inv j(2)]]) (simp_all add: putImmutable_def)
    qed
    ultimately have "shard_inv contentEtag (set_node i ob (Committing pp) (s\<lparr>sh_bucket := ?b\<rparr>))"
      by (intro bucket_step_inv[OF inv assms(2)]) (simp_all add: putImmutable_def)
    then show ?thesis using True pp(1) by (simp add: put_request_def)
  qed
qed

lemma after_subset: "after t N \<Longrightarrow> M \<subseteq> N \<Longrightarrow> after t M"
  unfolding after_def by blast

text \<open>A commit that the manifest takes.\<close>

definition committed :: "int \<Rightarrow> manifest \<Rightarrow> manifest" where
  "committed f m = m\<lparr>mf_frontierTs := f, mf_tsCounter := f, mf_segments := mf_segments m @ [mf_nextSeqno m], mf_nextSeqno := mf_nextSeqno m + 1\<rparr>"

lemma committed_sel [simp]:
  "mf_epoch (committed f m) = mf_epoch m" "mf_frontierTs (committed f m) = f" "mf_tsCounter (committed f m) = f"
  "mf_segments (committed f m) = mf_segments m @ [mf_nextSeqno m]" "mf_nextSeqno (committed f m) = mf_nextSeqno m + 1"
  "mf_snapshotTs (committed f m) = mf_snapshotTs m" "mf_snapshotSegBase (committed f m) = mf_snapshotSegBase m" "seg_base (committed f m) = seg_base m"
  by (simp_all add: committed_def seg_base_def)

lemma committed_log:
  assumes "bucket_ok m log b" "mf_tsCounter m < f" "payload_wf p" "comes_after (mf_tsCounter m) p" "no_later f (pdocs p)" "no_later f (pidxs p)"
  shows "history_ok (log @ [(mf_nextSeqno m, f, p)])" "grows log m (log @ [(mf_nextSeqno m, f, p)]) (committed f m)"
    "manifest_ok (log @ [(mf_nextSeqno m, f, p)]) (committed f m)"
proof -
  note d = bucket_okD[OF assms(1)] and md = manifest_okD[OF bucket_okD(3)[OF assms(1)]]
  have t: "mf_tsCounter m = front log (mf_nextSeqno m)" using md(1,2) by simp
  let ?log = "log @ [(mf_nextSeqno m, f, p)]"
  show l: "history_ok ?log" by (rule log_snoc[OF d(1,2)]) (use assms(2-6) t md(3) in simp_all)
  show g: "grows log m ?log (committed f m)" using assms(2,4) md(2) by (auto simp: grows_def)
  have "front ?log (mf_nextSeqno m + 1) = f" by (rule front_at[OF l, where p = p]) simp
  moreover have "front ?log (seg_base m + 1) = front log (seg_base m + 1)" by (rule grows_front[OF g]) (use md(5) in simp)
  moreover have "filter (\<lambda>n. seg_base m < n \<and> n < mf_nextSeqno m + 1) (seqnos log) = filter (\<lambda>n. seg_base m < n \<and> n < mf_nextSeqno m) (seqnos log)"
    by (rule filter_cong) (use d(2) in auto)
  ultimately show "manifest_ok ?log (committed f m)"
    using d(3) md(3,5) by (auto simp: manifest_ok_def seg_base_def split: option.splits)
qed

lemma committed_store:
  assumes st: "bucket_ok m log b" and "mf_tsCounter m < f" "payload_wf p" "comes_after (mf_tsCounter m) p" "no_later f (pdocs p)" "no_later f (pidxs p)"
    and seg: "map_of b (SegmentKey (mf_nextSeqno m)) = Some (SegmentBody (encodeSegment p))"
  shows "bucket_ok (committed f m) (log @ [(mf_nextSeqno m, f, p)]) b"
proof -
  note c = committed_log[OF assms(1-6)] and d = bucket_okD[OF st]
  have "segs_ok (log @ [(mf_nextSeqno m, f, p)]) (seg_base m) b" using d(4) seg by (auto simp: segs_ok_def)
  moreover have "q \<le> mf_nextSeqno m + 1 \<and> 0 < mf_epoch m" if "map_of b (SegmentKey q) \<noteq> None" for q using d(7)[OF that] by simp
  moreover have "\<forall>q \<in> set (seqnos log). q < mf_nextSeqno m + 1" using d(2) by auto
  ultimately show ?thesis using c grows_snaps[OF st c(2)] d(6) by (simp add: bucket_ok_def)
qed

text \<open>Its rows, all or only some of the units, in the local store.\<close>

lemma committed_local:
  assumes st: "bucket_ok m log b" and n: "node_ok contentEtag log m ob" and "ob_nextSeqno ob = mf_nextSeqno m"
    and p: "mf_tsCounter m < f" "payload_wf (payload_of us)" "comes_after (mf_tsCounter m) (payload_of us)"
      "no_later f (pdocs (payload_of us))" "no_later f (pidxs (payload_of us))"
    and log': "log' = log @ [(mf_nextSeqno m, f, payload_of us)]" and us: "set us' \<subseteq> set us"
  obtains local' where "apply_units us' shardId (ob_local ob) = Inr local'" "follows (log_docs log') (log_idxs log') f local'"
    "has_all (log_docs log') (log_idxs log') (front log (mf_nextSeqno m)) local'"
    "us' = us \<Longrightarrow> has_all (log_docs log') (log_idxs log') f local'"
proof -
  note c = committed_log[OF st p, folded log'] and d = bucket_okD[OF st] and md = manifest_okD[OF bucket_okD(3)[OF st]]
  have t: "mf_frontierTs m = front log (mf_nextSeqno m)" "mf_tsCounter m = front log (mf_nextSeqno m)" using md(1,2) by simp_all
  have sub: "udocs us' \<subseteq> pdocs (payload_of us)" "uidxs us' \<subseteq> pidxs (payload_of us)"
    using us unfolding payload_of_rows udocs_def uidxs_def by blast+
  have unambiguous: "unambiguous (udocs us')" "unambiguous (uidxs us')"
    using p(2) unambiguous_mono[OF _ sub(1)] unambiguous_mono[OF _ sub(2)] by (simp_all add: payload_wf_def)
  note no = node_okD[OF n]
  have "keys_ok (ob_local ob)" using no(2) by (simp add: follows_def)
  then obtain local' where w: "apply_units us' shardId (ob_local ob) = Inr local'" "keys_ok local'"
      "written (vdocs (ob_local ob)) (udocs us') (vdocs local')" "written (vidxs (ob_local ob)) (uidxs us') (vidxs local')"
    by (rule apply_units_rows[OF _ unambiguous])
  have "front log' (mf_nextSeqno m + 1) = f" unfolding log' by (rule front_at[OF c(1)[unfolded log'], where p = "payload_of us"]) simp
  moreover have "\<forall>q \<in> set (seqnos log'). q < mf_nextSeqno m + 1" using d(2) by (auto simp: log')
  ultimately have wf: "log_wf (log_docs log') (log_idxs log') f" using log_log_wf[OF c(1)] by metis
  have fol0: "follows (log_docs log') (log_idxs log') f (ob_local ob)"
    using grows_follows[OF st c(2) no(2) order_refl] p(1) md(2) by simp
  have in_log: "pdocs (payload_of us) \<subseteq> log_docs log'" "pidxs (payload_of us) \<subseteq> log_idxs log'" by (simp_all add: log')
  have fol: "follows (log_docs log') (log_idxs log') f local'"
    by (rule follows_written[OF wf fol0 w(2-4)]) (use sub in_log in blast)+
  have h: "has_all (log_docs log') (log_idxs log') (front log (mf_nextSeqno m)) (ob_local ob)"
    by (rule grows_has_all[OF st c(2)]) (use no(5) assms(3) t in simp_all)
  have af: "after (front log (mf_nextSeqno m)) (udocs us')" "after (front log (mf_nextSeqno m)) (uidxs us')"
    using p(3) sub t by (auto simp: comes_after_def intro: after_subset)
  have "has_all (log_docs log') (log_idxs log') f local'" if "us' = us"
  proof (rule has_all_tail[OF wf fol h w(3,4) _ _ _ af])
    have nl: "no_later (front log (mf_nextSeqno m)) (log_docs log)" "no_later (front log (mf_nextSeqno m)) (log_idxs log)" by (rule log_no_later[OF d(1,2)])+
    show "front log (mf_nextSeqno m) \<le> f" using p(1) t by simp
    show "udocs us' \<subseteq> log_docs log'" "uidxs us' \<subseteq> log_idxs log'" using sub in_log by blast+
    show "(k, ts, r) \<in> udocs us'" if "(k, ts, r) \<in> log_docs log'" "front log (mf_nextSeqno m) < ts" for k ts r
      using that no_laterD[OF nl(1)] \<open>us' = us\<close> by (fastforce simp: log' payload_of_rows)
    show "(k, ts, r) \<in> uidxs us'" if "(k, ts, r) \<in> log_idxs log'" "front log (mf_nextSeqno m) < ts" for k ts r
      using that no_laterD[OF nl(2)] \<open>us' = us\<close> by (fastforce simp: log' payload_of_rows)
  qed
  then show ?thesis using that[OF w(1) fol has_all_later[OF wf fol h w(3,4) af]] by blast
qed

text \<open>The writer after its compare and swap took: done, or poisoned by a lost answer or a local fault.\<close>

definition finished :: "(object_body \<Rightarrow> 'e) \<Rightarrow> prepared_commit \<Rightarrow> 'e object_doc_store \<Rightarrow> 'e object_doc_store \<Rightarrow> bool" where
  "finished contentEtag pp ob ob' \<longleftrightarrow>
     (\<exists>local. apply_units (pp_units pp) (pp_shard pp) (ob_local ob) = Inr local \<and>
        ob' = ob\<lparr>ob_local := local, ob_manifest := pp_next pp, ob_etag := contentEtag (ManifestBody (pp_next pp)),
          ob_nextSeqno := pp_seqno pp + 1, ob_sinceSnapshot := ob_sinceSnapshot ob + 1\<rparr>) \<or>
     (\<exists>k local. apply_units (take k (pp_units pp)) (pp_shard pp) (ob_local ob) = Inr local \<and> ob' = ob\<lparr>ob_local := local, ob_poisoned := True\<rparr>)"

lemma finished_member:
  assumes st: "bucket_ok m log b" and n: "node_ok contentEtag log m ob" and o: "current_owner m ob"
    and pp: "pp_seqno pp = mf_nextSeqno m" "pp_next pp = committed f m"
    and p: "mf_tsCounter m < f" "payload_wf (payload_of (pp_units pp))" "comes_after (mf_tsCounter m) (payload_of (pp_units pp))"
      "no_later f (pdocs (payload_of (pp_units pp)))" "no_later f (pidxs (payload_of (pp_units pp)))"
    and log': "log' = log @ [(mf_nextSeqno m, f, payload_of (pp_units pp))]" and fin: "finished contentEtag pp ob ob'" and same: "same_objects b b'"
  shows "member_ok contentEtag log' (committed f m) b' ob' Idle" "ob_held ob' = ob_held ob"
proof -
  obtain w where h: "ob_held ob = Some (mf_epoch m, w)" "\<not> ob_poisoned ob" using o by (auto simp: current_owner_def)
  note no = node_okD[OF n]
  note l = lease_okD[OF no(6) h(1)] and c = committed_log[OF st p, folded log']
  have ob: "ob_nextSeqno ob = mf_nextSeqno m" using l(5)[OF h(2)] by simp
  have fr: "front log' (mf_nextSeqno m) = front log (mf_nextSeqno m)" by (rule grows_front[OF c(2)]) simp
  have f: "front log' (mf_nextSeqno m + 1) = f"
    unfolding log' by (rule front_at[OF c(1)[unfolded log'], where p = "payload_of (pp_units pp)"]) simp
  show "ob_held ob' = ob_held ob" using fin by (auto simp: finished_def)
  from fin show "member_ok contentEtag log' (committed f m) b' ob' Idle" unfolding finished_def
  proof (elim disjE exE conjE)
    fix local assume a: "apply_units (pp_units pp) (pp_shard pp) (ob_local ob) = Inr local" and ob': "ob' = ob\<lparr>ob_local := local, ob_manifest := pp_next pp,
      ob_etag := contentEtag (ManifestBody (pp_next pp)), ob_nextSeqno := pp_seqno pp + 1, ob_sinceSnapshot := ob_sinceSnapshot ob + 1\<rparr>"
    have loc: "follows (log_docs log') (log_idxs log') f local" "has_all (log_docs log') (log_idxs log') f local"
      using committed_local[OF st n ob p log', of "pp_units pp" "pp_shard pp"] a by (metis order_refl sum.inject(2))+
    have "map_of b (SegmentKey (mf_nextSeqno m + 1)) = None" using bucket_okD(7)[OF st, of "mf_nextSeqno m + 1"] by force
    then have "map_of b' (SegmentKey (mf_nextSeqno m + 1)) = None" using same by (simp add: same_objects_def)
    then show ?thesis
      using loc h l(1) manifest_okD(3)[OF bucket_okD(3)[OF st]] f by (simp add: ob' pp member_ok_def node_ok_def lease_ok_def own_store_def)
  next
    fix k local assume a: "apply_units (take k (pp_units pp)) (pp_shard pp) (ob_local ob) = Inr local" and ob': "ob' = ob\<lparr>ob_local := local, ob_poisoned := True\<rparr>"
    have loc: "follows (log_docs log') (log_idxs log') f local" "has_all (log_docs log') (log_idxs log') (front log (mf_nextSeqno m)) local"
      using committed_local[OF st n ob p log' set_take_subset, of k "pp_shard pp"] a by (metis sum.inject(2))+
    then show ?thesis using h l(1,3) no(1,3) ob fr by (simp add: ob' member_ok_def node_ok_def lease_ok_def)
  qed
qed

lemma ob_finish_landed:
  assumes "ob_finish contentEtag rq fault pp ob b = (b', ob', r)"
    and c: "cas_request contentEtag rq (pp_next pp) (ob_etag ob) b = (b1, cr)" "cr = CasOk (contentEtag (ManifestBody (pp_next pp))) \<or> cr = CasThrew"
    and total: "\<And>k. \<exists>local. apply_units (take k (pp_units pp)) (pp_shard pp) (ob_local ob) = Inr local"
  shows "b' = b1" "finished contentEtag pp ob ob'"
proof -
  show "b' = b1" using assms(1,2,3) by (auto simp: ob_finish_def Let_def split: sum.splits if_splits)
  from c(2) show "finished contentEtag pp ob ob'"
  proof
    assume ok: "cr = CasOk (contentEtag (ManifestBody (pp_next pp)))"
    show ?thesis
    proof (cases fault)
      case None
      obtain local where "apply_units (pp_units pp) (pp_shard pp) (ob_local ob) = Inr local" using total[of "length (pp_units pp)"] by auto
      then show ?thesis using assms(1) c(1) ok None by (auto simp: ob_finish_def finished_def Let_def)
    next
      case (Some k)
      obtain local where "apply_units (take k (pp_units pp)) (pp_shard pp) (ob_local ob) = Inr local" using total[of k] by auto
      then show ?thesis using assms(1) c(1) ok Some by (auto simp: ob_finish_def finished_def Let_def)
    qed
  next
    assume "cr = CasThrew"
    then have "ob' = ob\<lparr>ob_local := ob_local ob, ob_poisoned := True\<rparr>" using assms(1) c(1) by (simp add: ob_finish_def)
    then have "apply_units (take 0 (pp_units pp)) (pp_shard pp) (ob_local ob) = Inr (ob_local ob) \<and> ob' = ob\<lparr>ob_local := ob_local ob, ob_poisoned := True\<rparr>" by simp
    then show ?thesis unfolding finished_def by blast
  qed
qed

lemma inv_commit_finish:
  assumes "shard_inv contentEtag s" "map_of (sh_nodes s) i = Some (ob, Committing pp)" "inj contentEtag"
    and fin: "ob_finish contentEtag rq fault pp ob (sh_bucket s) = (b, ob', r)"
  shows "shard_inv contentEtag (set_node i ob' Idle (s\<lparr>sh_bucket := b,
      sh_log := sh_log s @ (if cas_lands contentEtag rq (pp_next pp) (ob_etag ob) (sh_bucket s)
        then [(pp_seqno pp, mf_frontierTs (pp_next pp), payload_of (pp_units pp))] else []),
      sh_acked := sh_acked s @ (case r of Inl _ \<Rightarrow> [] | Inr tss \<Rightarrow> [(tss, pp_units pp)])\<rparr>))"
proof -
  obtain m where inv: "inv_at contentEtag m s" by (rule inv_with_node[OF assms(1,2)])
  note mem = inv_atD(5)[OF inv assms(2)] and st = inv_atD(2)[OF inv]
  note n = member_node[OF mem]
  obtain units shardId where pr: "list_all unit_wf units" "ob_prepare units shardId ob = CommitGo pp"
    using mem by (auto simp: member_ok_def prepared_from_def)
  obtain f where p: "pp_seqno pp = ob_nextSeqno ob" "pp_next pp = (ob_manifest ob)\<lparr>mf_frontierTs := f, mf_tsCounter := f,
      mf_segments := mf_segments (ob_manifest ob) @ [ob_nextSeqno ob], mf_nextSeqno := ob_nextSeqno ob + 1\<rparr>"
    "mf_tsCounter (ob_manifest ob) < f" "payload_wf (payload_of (pp_units pp))" "comes_after (mf_tsCounter (ob_manifest ob)) (payload_of (pp_units pp))"
    "no_later f (pdocs (payload_of (pp_units pp)))" "no_later f (pidxs (payload_of (pp_units pp)))" "holds_lease ob"
    by (rule prepare_spec[OF pr(2,1)])
  obtain b1 cr where c: "cas_request contentEtag rq (pp_next pp) (ob_etag ob) (sh_bucket s) = (b1, cr)" by (cases "cas_request contentEtag rq (pp_next pp) (ob_etag ob) (sh_bucket s)")
  from c assms(3) inv_atD(1)[OF inv] node_okD(1)[OF n] show ?thesis
  proof (cases rule: cas_request_cases)
    case missed
    have r: "\<exists>e. r = Inl e" "b = sh_bucket s" "ob' = ob\<lparr>ob_poisoned := True, ob_held := None\<rparr> \<or> ob' = ob\<lparr>ob_poisoned := True\<rparr>"
      using missed(1,3) fin c by (auto simp: ob_finish_def)
    have m: "member_ok contentEtag (sh_log s) m (sh_bucket s) ob' Idle" "ob_held ob' = None \<or> ob_held ob' = ob_held ob"
      using r(3) member_fence[OF mem] member_poison[OF mem] by auto
    have "shard_inv contentEtag (set_node i ob' Idle s)" by (rule node_step_inv[OF inv assms(2) m])
    then show ?thesis using r(1,2) missed(2) by (auto simp: set_node_def)
  next
    case landed
    obtain ep w where h: "ob_held ob = Some (ep, w)" "\<not> ob_poisoned ob" by (rule holder[OF p(8)])
    have ep: "ep = mf_epoch m" using lease_okD(3)[OF node_okD(6)[OF n] h(1)] landed(1) by simp
    then have o: "current_owner m ob" using h by (simp add: current_owner_def)
    have q: "ob_nextSeqno ob = mf_nextSeqno m" using holder_seqno(5)[OF st node_okD(6)[OF n] p(8) o] by simp
    have next_: "pp_next pp = committed f m" using p(2) q landed(1) by (simp add: committed_def)
    note p' = p(3-7)[unfolded landed(1)]
    let ?log = "sh_log s @ [(mf_nextSeqno m, f, payload_of (pp_units pp))]"
    have seg: "map_of (sh_bucket s) (SegmentKey (mf_nextSeqno m)) = Some (SegmentBody (encodeSegment (payload_of (pp_units pp))))"
      using mem o by (simp add: member_ok_def commit_body_def)
    have "\<exists>local. apply_units (take k (pp_units pp)) (pp_shard pp) (ob_local ob) = Inr local" for k
      using committed_local[OF st n q p' refl set_take_subset] by metis
    note fl = ob_finish_landed[OF fin c landed(4) this]
    have same: "same_objects (sh_bucket s) b" unfolding fl(1) landed(2) by simp
    note fm = finished_member[OF st n o _ next_ p' refl fl(2) same]
    have acked: "\<forall>(_, us) \<in> set (sh_acked s @ (case r of Inl _ \<Rightarrow> [] | Inr tss \<Rightarrow> [(tss, pp_units pp)])). \<exists>q f. (q, f, payload_of us) \<in> set ?log"
      using inv_atD(4)[OF inv] by (cases r) fastforce+
    show ?thesis
      by (rule manifest_step_inv[OF inv assms(2) h(1)[unfolded ep] committed_log(2)[OF st p'] _ store_same[OF same committed_store[OF st p' seg]] _ fm(1)])
        (use fm(2) p(1) q next_ fl(1) landed(2,3) acked in \<open>simp_all add: set_node_def\<close>)
  qed
qed

section \<open>Snapshots\<close>

lemma dump_snapshot:
  assumes "log_wf LD LX T'" "follows LD LX T st" "has_all LD LX T st"
  obtains p where "dumpCurrentState st = Inr p" "snapshot_of LD LX T p"
proof -
  have l: "unambiguous LD" "unambiguous LX" "docs_wf LD" "idxs_wf LX" using assms(1) by (simp_all add: log_wf_def)
  have s: "keys_ok st" "sound LD (vdocs st)" "sound LX (vidxs st)" "no_later T (vdocs st)" "no_later T (vidxs st)" using assms(2) by (simp_all add: follows_def)
  have c: "up_to LD T (vdocs st)" "up_to LX T (vidxs st)" using assms(3) by (simp_all add: has_all_def)
  obtain p where "dumpCurrentState st = Inr p" "payload_wf p" "pdocs p = {(k, ts, Some v) |k ts v. live_at (vdocs st) T k ts v}"
      "pidxs p = {(k, ts, Some v) |k ts v. live_at (vidxs st) T k ts v}"
    by (rule dump_spec[OF s(1) wf_mono[OF l(3) s(2)] idxs_wf_mono[OF l(4) sound_vidxs[OF l(2), THEN iffD1, OF s(3)]] s(4,5)])
  then show ?thesis using that covered_view[OF l(1) s(2) c(1) s(4)] covered_view[OF l(2) s(3) c(2) s(5)] by (simp add: snapshot_of_def)
qed

lemma put_snapshot_store:
  assumes "bucket_ok m log b" "t \<le> mf_frontierTs m" "sn_frontierTs p = t" "snapshot_of (log_docs log) (log_idxs log) t (sn_rows p)"
  shows "bucket_ok m log (putImmutable (SnapshotKey t) (SnapshotBody (encodeSnapshot p)) b)"
proof -
  let ?b = "putImmutable (SnapshotKey t) (SnapshotBody (encodeSnapshot p)) b"
  have seg: "map_of ?b (SegmentKey q) = map_of b (SegmentKey q)" for q by (simp add: putImmutable_def)
  have "snaps_ok log (mf_frontierTs m) ?b"
    unfolding snaps_ok_def
  proof (intro allI impI)
    fix t' body assume "map_of ?b (SnapshotKey t') = Some body"
    then have "map_of b (SnapshotKey t') = Some body \<or> t' = t \<and> body = SnapshotBody (encodeSnapshot p)"
      by (auto simp: putImmutable_def split: if_splits)
    then show "t' \<le> mf_frontierTs m \<and> (\<exists>p. body = SnapshotBody (encodeSnapshot p) \<and> sn_frontierTs p = t' \<and>
        snapshot_of (log_docs log) (log_idxs log) t' (sn_rows p))"
      using bucket_okD(5)[OF assms(1)] assms(2-4) unfolding snaps_ok_def by blast
  qed
  moreover have "map_of b (SnapshotKey t') \<noteq> None \<Longrightarrow> map_of ?b (SnapshotKey t') \<noteq> None" for t' by (simp add: putImmutable_def)
  ultimately show ?thesis using assms(1) seg unfolding bucket_ok_def segs_ok_def by simp
qed

lemma inv_snapshot_put:
  assumes "shard_inv contentEtag s" "map_of (sh_nodes s) i = Some (ob, Idle)" "holds_lease ob" "ob_dump ob = Inr (Some p)"
  shows "shard_inv contentEtag (set_node i ob (if rq = Returns then Snapshotting else Idle)
      (s\<lparr>sh_bucket := put_request rq (SnapshotKey (sn_frontierTs p)) (SnapshotBody (encodeSnapshot p)) (sh_bucket s)\<rparr>))"
proof -
  obtain m where inv: "inv_at contentEtag m s" by (rule inv_with_node[OF assms(1,2)])
  note mem = inv_atD(5)[OF inv assms(2)] and st = inv_atD(2)[OF inv] and n = inv_atD(3)[OF inv]
  note no = node_okD[OF member_node[OF mem]]
  obtain ep w where h: "ob_held ob = Some (ep, w)" "\<not> ob_poisoned ob" by (rule holder[OF assms(3)])
  let ?t = "mf_frontierTs (ob_manifest ob)"
  have own: "?t = front (sh_log s) (ob_nextSeqno ob)" "follows (log_docs (sh_log s)) (log_idxs (sh_log s)) ?t (ob_local ob)"
    using lease_okD(4)[OF no(6) h(1,2)] unfolding own_store_def by blast+
  obtain d where d: "dumpCurrentState (ob_local ob) = Inr d" "snapshot_of (log_docs (sh_log s)) (log_idxs (sh_log s)) ?t d"
    by (rule dump_snapshot[OF store_log_wf[OF st] own(2)]) (use no(5) own(1) in simp)
  have p: "sn_frontierTs p = ?t" "sn_rows p = d" "ob_nextSeqno ob \<noteq> 0" using assms(4) d(1) h(2) by (auto simp: ob_dump_def split: if_splits)
  have le: "?t \<le> mf_frontierTs m" using front_mono[OF no(4)] own(1) manifest_okD(1)[OF bucket_okD(3)[OF st]] by simp
  let ?b = "put_request rq (SnapshotKey ?t) (SnapshotBody (encodeSnapshot p)) (sh_bucket s)"
  have put: "?b = sh_bucket s \<or> ?b = putImmutable (SnapshotKey ?t) (SnapshotBody (encodeSnapshot p)) (sh_bucket s)" by (simp add: put_request_def)
  then have "bucket_ok m (sh_log s) ?b" using st put_snapshot_store[OF st le p(1)] d(2) p(2) by auto
  moreover have seg: "map_of ?b (SegmentKey q) = map_of (sh_bucket s) (SegmentKey q)" and man: "map_of ?b ManifestKey = map_of (sh_bucket s) ManifestKey"
    and sn: "map_of (sh_bucket s) (SnapshotKey t') \<noteq> None \<Longrightarrow> map_of ?b (SnapshotKey t') \<noteq> None" for q t'
    using put by (auto simp: putImmutable_def)
  moreover have "member_ok contentEtag (sh_log s) m ?b ob (if rq = Returns then Snapshotting else Idle)"
  proof (cases "rq = Returns")
    case True
    have "map_of ?b (SnapshotKey ?t) \<noteq> None" unfolding True by (simp add: put_request_def putImmutable_def)
    then show ?thesis
      using mem seg True assms(3) p(3) holder_seqno(5)[OF st no(6) assms(3)] by (auto simp: member_ok_def)
  qed (use member_bucket[OF mem seg sn] in simp)
  ultimately show ?thesis unfolding p(1)
    by (intro bucket_step_inv[OF inv assms(2) _ _ member_bucket[OF inv_atD(5)[OF inv] seg sn]]) simp_all
qed

lemma snapshotted_store:
  assumes st: "bucket_ok m log b" and n: "mf_nextSeqno m \<noteq> 0" and sn: "map_of b (SnapshotKey (mf_frontierTs m)) \<noteq> None"
  shows "bucket_ok (snapshotted m (mf_nextSeqno m - 1)) log b" "grows log m log (snapshotted m (mf_nextSeqno m - 1))"
proof -
  let ?m = "snapshotted m (mf_nextSeqno m - 1)"
  note d = bucket_okD[OF st] and md = manifest_okD[OF bucket_okD(3)[OF st]]
  have sel: "mf_epoch ?m = mf_epoch m" "mf_frontierTs ?m = mf_frontierTs m" "mf_tsCounter ?m = mf_tsCounter m" "mf_nextSeqno ?m = mf_nextSeqno m"
    "mf_segments ?m = filter (\<lambda>s. mf_nextSeqno m - 1 < s) (mf_segments m)" "mf_snapshotTs ?m = Some (mf_frontierTs m)"
    "mf_snapshotSegBase ?m = Some (mf_nextSeqno m - 1)" "seg_base ?m = mf_nextSeqno m - 1"
    by (simp_all add: snapshotted_def seg_base_def)
  have "filter (\<lambda>s. mf_nextSeqno m - 1 < s) (mf_segments m) = filter (\<lambda>n. mf_nextSeqno m - 1 < n \<and> n < mf_nextSeqno m) (seqnos log)"
    using d(3) md(5) by (auto simp: manifest_ok_def intro: filter_cong)
  then have "manifest_ok log ?m" using d(3) md n by (simp add: manifest_ok_def sel)
  moreover have "segs_ok log (mf_nextSeqno m - 1) b" using d(4) md(5) by (fastforce simp: segs_ok_def)
  ultimately show "bucket_ok ?m log b" using d(1,2,5,7) sn by (simp add: bucket_ok_def sel)
  show "grows log m log ?m" using md(5) snapshot_before[OF st] by (simp add: grows_def sel)
qed

lemma inv_snapshot_cas:
  assumes "shard_inv contentEtag s" "map_of (sh_nodes s) i = Some (ob, Snapshotting)" "inj contentEtag"
    "ob_snapshot contentEtag rq ob (sh_bucket s) = (b, ob')"
  shows "shard_inv contentEtag (set_node i ob' Idle (s\<lparr>sh_bucket := b\<rparr>))"
proof -
  obtain m where inv: "inv_at contentEtag m s" by (rule inv_with_node[OF assms(1,2)])
  note mem = inv_atD(5)[OF inv assms(2)] and st = inv_atD(2)[OF inv]
  note no = node_okD[OF member_node[OF mem]]
  have h: "holds_lease ob" "ob_nextSeqno ob \<noteq> 0" using mem by (simp_all add: member_ok_def)
  let ?next = "snapshotted (ob_manifest ob) (ob_nextSeqno ob - 1)"
  obtain r where c: "cas_request contentEtag rq ?next (ob_etag ob) (sh_bucket s) = (b, r)"
    using assms(4) by (auto simp: ob_snapshot_def Let_def split: prod.splits cas_reply.splits)
  from c assms(3) inv_atD(1)[OF inv] no(1) show ?thesis
  proof (cases rule: cas_request_cases)
    case missed
    then have o: "ob' = ob\<lparr>ob_poisoned := True\<rparr>" using assms(4) c by (auto simp: ob_snapshot_def Let_def)
    have "shard_inv contentEtag (set_node i ob' Idle s)" unfolding o by (rule node_step_inv[OF inv assms(2) member_poison[OF mem]]) simp
    then show ?thesis by (simp add: missed(1))
  next
    case landed
    obtain ep w where e: "ob_held ob = Some (ep, w)" "\<not> ob_poisoned ob" by (rule holder[OF h(1)])
    note l = lease_okD[OF no(6) e(1)]
    have ep: "ep = mf_epoch m" using l(3) landed(1) by simp
    then have o: "current_owner m ob" using e by (simp add: current_owner_def)
    have q: "ob_nextSeqno ob = mf_nextSeqno m" using holder_seqno(5)[OF st no(6) h(1) o] by simp
    let ?m = "snapshotted m (mf_nextSeqno m - 1)"
    have sn: "map_of (sh_bucket s) (SnapshotKey (mf_frontierTs m)) \<noteq> None" "map_of (sh_bucket s) (SegmentKey (mf_nextSeqno m)) = None"
      using mem o by (simp_all add: member_ok_def)
    note ss = snapshotted_store[OF st h(2)[unfolded q] sn(1)]
    have sel: "mf_epoch ?m = mf_epoch m" "mf_frontierTs ?m = mf_frontierTs m" "mf_nextSeqno ?m = mf_nextSeqno m" by (simp_all add: snapshotted_def)
    have own: "own_store (sh_log s) ob" by (rule l(4)[OF e(2)])
    have "member_ok contentEtag (sh_log s) ?m (sh_bucket s) ob' Idle"
      using landed(4)
    proof
      assume "r = CasOk (contentEtag (ManifestBody ?next))"
      then have ob': "ob' = ob\<lparr>ob_manifest := ?m, ob_etag := contentEtag (ManifestBody ?m), ob_sinceSnapshot := 0\<rparr>"
        using assms(4) c landed(1) q by (simp add: ob_snapshot_def Let_def)
      then have "own_store (sh_log s) ob'" by (intro own_store_eq[OF own]) (use landed(1) sel in simp_all)
      then have "lease_ok (sh_log s) ?m ob'" using e l(1) ep q sel by (simp add: lease_ok_def ob')
      then show ?thesis using no q sel sn(2) by (simp add: member_ok_def node_ok_def ob')
    next
      assume "r = CasThrew"
      then have ob': "ob' = ob\<lparr>ob_poisoned := True\<rparr>" using assms(4) c by (simp add: ob_snapshot_def Let_def)
      have "lease_ok (sh_log s) ?m ob'" using e l(1-3) sel by (simp add: lease_ok_def ob')
      then show ?thesis using no sel by (simp add: member_ok_def node_ok_def ob')
    qed
    then have mem': "member_ok contentEtag (sh_log s) ?m b ob' Idle" by (rule member_same) (simp add: landed(2))
    have "ob_held ob' = ob_held ob" using landed(4) assms(4) c by (auto simp: ob_snapshot_def Let_def)
    then show ?thesis
      by (intro manifest_step_inv[OF inv assms(2) e(1)[unfolded ep] ss(2) _ store_same[OF same_objects_manifest ss(1)] _ mem'[unfolded landed(2)]])
        (use inv_atD(4)[OF inv] sel landed(1,2) q in \<open>simp_all add: set_node_def\<close>)
  qed
qed

section \<open>Garbage and watermarks\<close>

lemma inv_gc_start:
  assumes "shard_inv contentEtag s" "map_of (sh_nodes s) i = Some (ob, Idle)" "ob_gc contentEtag ob (sh_bucket s) = Inr (ob', r)"
  shows "shard_inv contentEtag (set_node i ob' (case r of None \<Rightarrow> Idle | Some (floor, keepSnap) \<Rightarrow> Sweeping floor keepSnap) s)"
proof -
  obtain m where inv: "inv_at contentEtag m s" by (rule inv_with_node[OF assms(1,2)])
  note mem = inv_atD(5)[OF inv assms(2)] and no = node_okD[OF member_node[OF inv_atD(5)[OF inv assms(2)]]]
  have rd: "readManifest contentEtag (sh_bucket s) = Some (m, contentEtag (ManifestBody m))"
    using inv_atD(1)[OF inv] by (simp add: readManifest_def get_object_def)
  have live: "\<not> ob_poisoned ob" using assms(3) by (auto simp: ob_gc_def)
  show ?thesis
  proof (cases "\<exists>w. ob_held ob = Some (mf_epoch m, w)")
    case False
    then have "ob' = ob \<and> r = None \<or> ob' = ob\<lparr>ob_poisoned := True, ob_held := None\<rparr> \<and> r = None"
      using assms(3) live rd by (auto simp: ob_gc_def split: option.splits if_splits)
    then show ?thesis using node_step_inv[OF inv assms(2) mem] node_step_inv[OF inv assms(2) member_fence[OF mem]] by auto
  next
    case True
    then obtain w where h: "ob_held ob = Some (mf_epoch m, w)" by blast
    have m: "ob_manifest ob = m" using lease_okD(5)[OF no(6) h live refl] by simp
    have same: "ob\<lparr>ob_manifest := m, ob_etag := contentEtag (ManifestBody m)\<rparr> = ob" using m no(1) by simp
    have ob': "ob' = ob" using assms(3) live rd h same by (auto simp: ob_gc_def Let_def split: option.splits)
    have "member_ok contentEtag (sh_log s) m (sh_bucket s) ob (case r of None \<Rightarrow> Idle | Some (floor, keepSnap) \<Rightarrow> Sweeping floor keepSnap)"
    proof (cases "mf_snapshotTs m")
      case None
      then have "r = None" using assms(3) live rd h by (auto simp: ob_gc_def Let_def)
      then show ?thesis using mem by simp
    next
      case (Some t)
      note base = manifest_base[OF bucket_okD(3)[OF inv_atD(2)[OF inv]] Some]
      obtain floor where r: "r = Some (floor, t)" "floor \<le> seg_base m"
        using assms(3) live rd h Some base by (auto simp: ob_gc_def Let_def)
      then show ?thesis using mem Some by (auto simp: member_ok_def)
    qed
    then show ?thesis unfolding ob' by (rule node_step_inv[OF inv assms(2)]) simp
  qed
qed

lemma inv_gc_delete:
  assumes "shard_inv contentEtag s" "map_of (sh_nodes s) i = Some (ob, Sweeping floor keepSnap)" "collectable floor keepSnap k"
  shows "shard_inv contentEtag (s\<lparr>sh_bucket := delete_object k (sh_bucket s)\<rparr>)"
proof -
  obtain m where inv: "inv_at contentEtag m s" by (rule inv_with_node[OF assms(1,2)])
  note st = inv_atD(2)[OF inv]
  obtain t where t: "mf_snapshotTs m = Some t" "floor \<le> seg_base m" "keepSnap \<le> t" using inv_atD(5)[OF inv assms(2)] by (auto simp: member_ok_def)
  let ?b = "delete_object k (sh_bucket s)"
  have kept: "k \<noteq> ManifestKey" "k \<noteq> SnapshotKey t" "k \<noteq> SnapshotKey (mf_frontierTs m)" "k \<noteq> SegmentKey (mf_nextSeqno m)"
    using assms(3) t snapshot_before[OF st t(1)] manifest_okD(5)[OF bucket_okD(3)[OF st]] by (auto simp: collectable_def)
  have seg: "q \<le> seg_base m" if "k = SegmentKey q" for q using that assms(3) t(2) by (simp add: collectable_def)
  have "segs_ok (sh_log s) (seg_base m) ?b"
    unfolding segs_ok_def
  proof (intro ballI, unfold split_paired_all prod.case)
    fix q f p assume e: "(q, f, p) \<in> set (sh_log s)"
    show "map_of ?b (SegmentKey q) = Some (SegmentBody (encodeSegment p)) \<or> map_of ?b (SegmentKey q) = None \<and> q \<le> seg_base m"
      using segs_okD[OF bucket_okD(4)[OF st] e] seg[of q] by (cases "k = SegmentKey q") (simp_all add: delete_object_def)
  qed
  moreover have "snaps_ok (sh_log s) (mf_frontierTs m) ?b" using bucket_okD(5)[OF st] by (simp add: snaps_ok_def delete_object_def)
  moreover have "q \<le> mf_nextSeqno m \<and> 0 < mf_epoch m" if "map_of ?b (SegmentKey q) \<noteq> None" for q
    by (rule bucket_okD(7)[OF st]) (use that in \<open>simp add: delete_object_def split: if_splits\<close>)
  moreover have "map_of ?b (SnapshotKey t) \<noteq> None" using bucket_okD(6)[OF st t(1)] kept(2) by (simp add: delete_object_def)
  ultimately have "bucket_ok m (sh_log s) ?b" using bucket_okD(1-3)[OF st] t(1) by (simp add: bucket_ok_def)
  moreover have "member_ok contentEtag (sh_log s) m ?b oj pj" if "map_of (sh_nodes s) j = Some (oj, pj)" for j oj pj
    by (rule member_bucket[OF inv_atD(5)[OF inv that]]) (use kept in \<open>simp_all add: delete_object_def\<close>)
  moreover have "map_of ?b ManifestKey = Some (ManifestBody m)" using inv_atD(1)[OF inv] kept(1) by (simp add: delete_object_def)
  ultimately have "inv_at contentEtag m (s\<lparr>sh_bucket := ?b\<rparr>)"
    using inv_atD(4)[OF inv] nodes_okD(2)[OF inv_atD(3)[OF inv]] unfolding inv_at_def nodes_ok_def by simp
  then show ?thesis by (rule inv_atI)
qed

lemma inv_consumers:
  assumes "shard_inv contentEtag s" "same_objects (sh_bucket s) b" "map_of b ManifestKey = map_of (sh_bucket s) ManifestKey"
  shows "shard_inv contentEtag (s\<lparr>sh_bucket := b\<rparr>)"
proof -
  obtain m where m: "map_of (sh_bucket s) ManifestKey = Some (ManifestBody m) \<or> map_of (sh_bucket s) ManifestKey = None \<and> m = emptyManifest \<and> sh_nodes s = []"
    and st: "bucket_ok m (sh_log s) (sh_bucket s)" and n: "nodes_ok contentEtag (sh_log s) m (sh_bucket s) (sh_nodes s)"
    and a: "\<forall>(_, us) \<in> set (sh_acked s). \<exists>q f. (q, f, payload_of us) \<in> set (sh_log s)"
    using assms(1) unfolding shard_inv_def by blast
  show ?thesis unfolding shard_inv_def
    by (rule exI[of _ m]) (use m a store_same[OF assms(2) st] nodes_same[OF n assms(2)] assms(3) in simp)
qed

lemma publish_same:
  "same_objects b (publishConsumerWatermark contentEtag c n b)" "map_of (publishConsumerWatermark contentEtag c n b) ManifestKey = map_of b ManifestKey"
  "same_objects b (delete_object (ConsumerKey c) b)" "map_of (delete_object (ConsumerKey c) b) ManifestKey = map_of b ManifestKey"
  by (auto simp: publishConsumerWatermark_def casPut_def same_objects_def delete_object_def split: option.splits if_splits)

section \<open>All steps\<close>

lemma inv_init: "shard_inv contentEtag sh_init"
proof -
  have "front [] n = 0" for n by (simp add: front_def)
  then have "bucket_ok emptyManifest [] []"
    by (simp add: bucket_ok_def history_ok_def seqnos_def manifest_ok_def emptyManifest_def seg_base_def segs_ok_def snaps_ok_def)
  then show ?thesis by (simp add: shard_inv_def sh_init_def nodes_ok_def)
qed

lemma inv_step:
  assumes "shard_step True contentEtag s s'" "shard_inv contentEtag s" "inj contentEtag"
  shows "shard_inv contentEtag s'"
  using assms(1,2)
proof (cases rule: shard_step.cases)
  case (acquire_fail i ob opts e mz)
  then show ?thesis using inv_idle[OF assms(2)] inv_with_node[OF assms(2)] inv_atD(5) by (metis member_ok_def pending_ok.simps(3))
next
  case (gc_done i ob floor keepSnap)
  then show ?thesis using inv_idle[OF assms(2)] by blast
qed (use assms(2,3) in \<open>blast intro: inv_open_start inv_open_read inv_open_done inv_acquire_start inv_acquire_read inv_acquire_claim
  inv_heartbeat inv_relinquish inv_release inv_commit_refused inv_commit_put inv_commit_finish inv_snapshot_put inv_snapshot_cas
  inv_gc_start inv_gc_delete inv_consumers publish_same\<close>)+

lemma inv_reachable:
  assumes "(shard_step True contentEtag)\<^sup>*\<^sup>* sh_init s" "inj contentEtag"
  shows "shard_inv contentEtag s"
  using assms(1)
proof (induction rule: rtranclp_induct)
  case base
  show ?case by (rule inv_init)
next
  case (step s s')
  show ?case by (rule inv_step[OF step(2) step(3) assms(2)])
qed

end
