(* ===== verification/Object_Doc_Props.thy ===== *)
theory Object_Doc_Props
  imports Object_Steps
begin

text \<open>
  What instances over one bucket promise: an acknowledged commit is part of the history, the bucket
  restores the history, and a commit lands only from an instance that holds everything before it; and what
  a put whose response is lost does to the commit after it.
\<close>

section \<open>The bucket and the history\<close>

lemma readManifest_Some: "readManifest contentEtag b = Some (m, e) \<Longrightarrow> map_of b ManifestKey = Some (ManifestBody m) \<and> e = contentEtag (ManifestBody m)"
  by (auto simp: readManifest_def get_object_def split: option.splits object_body.splits)

lemma reachable_inv_at:
  assumes "(shard_step True contentEtag)\<^sup>*\<^sup>* sh_init s" "inj contentEtag" "readManifest contentEtag (sh_bucket s) = Some (m, e)"
  shows "inv_at contentEtag m s"
  using inv_reachable[OF assms(1,2)] readManifest_Some[OF assms(3)] by (auto simp: shard_inv_def inv_at_def)

text \<open>A store that follows the history and has all of it dumps as a replay of the history does.\<close>

lemma replay_dump:
  assumes "bucket_ok m log b" "follows (log_docs log) (log_idxs log) (mf_frontierTs m) st" "has_all (log_docs log) (log_idxs log) (mf_frontierTs m) st"
  obtains st' p where "replay_log log = Inr st'" "dumpCurrentState st = Inr p" "dumpCurrentState st' = Inr p"
proof -
  note front = manifest_okD(1)[OF bucket_okD(3)[OF assms(1)]] and wf = store_log_wf[OF assms(1)]
  obtain st' where st': "replay_log log = Inr st'" "follows (log_docs log) (log_idxs log) (mf_frontierTs m) st'"
      "has_all (log_docs log) (log_idxs log) (mf_frontierTs m) st'"
    using replay_log_ok[OF bucket_okD(1,2)[OF assms(1)]] front by metis
  obtain p where "dumpCurrentState st = Inr p" by (rule dump_snapshot[OF wf assms(2,3)])
  moreover have "dumpCurrentState st = dumpCurrentState st'"
    by (rule dump_same[OF assms(2) st'(2) assms(3) st'(3)]) (use wf in \<open>simp_all add: log_wf_def\<close>)
  ultimately show thesis using that st'(1) by simp
qed

lemma bucket_restores:
  assumes "bucket_ok m log b"
  obtains st st' p where "materializeTo b m 0 ds_empty = Inr st" "replay_log log = Inr st'" "dumpCurrentState st = Inr p" "dumpCurrentState st' = Inr p"
proof -
  note s = bucket_okD[OF assms] and mo = manifest_okD[OF bucket_okD(3)[OF assms]]
  have mz: "mz_ok log (begin_materialize m 0) ds_empty" by (rule mz_begin_empty[OF s(1,3)])
  have base: "mz_snapshot (begin_materialize m 0) = None \<Longrightarrow> seg_base m \<le> mz_applied (begin_materialize m 0)"
    using s(3) by (auto simp: begin_materialize_def seg_base_def manifest_ok_def Let_def split: option.splits if_splits)
  have fuel: "length (mz_todo (begin_materialize m 0)) + (if mz_snapshot (begin_materialize m 0) = None then 0 else 1) \<le> Suc (length (mf_segments m))"
    and m: "mz_manifest (begin_materialize m 0) = m"
    by (simp_all add: begin_materialize_def Let_def)
  obtain st where st: "materializeTo b m 0 ds_empty = Inr st" "follows (log_docs log) (log_idxs log) (mf_frontierTs m) st"
      "has_all (log_docs log) (log_idxs log) (mf_frontierTs m) st"
    unfolding materializeTo_def mo(1)
    by (rule materialize_run_ok[OF s(1,2) follows_empty s(4) s(5)[unfolded mo(1)] mz m s(6) base fuel])
  show thesis by (rule replay_dump[OF assms st(2,3)]) (use that st(1) in blast)
qed

text \<open>C7. Acknowledged commits survive in the bucket.  In every run of any number of instances over one
  bucket (opening, crashing, taking the lease over, committing, snapshotting, collecting garbage, requests
  that throw with or without having taken effect), each acknowledged commit is an entry of the shard's
  history, and an instance that opens on an empty local store gets from the manifest's snapshot and segments
  exactly the documents and index entries that replaying the whole history gives.  Three kinds of steps are
  left out: a segment put that takes effect though it throws, an acquire by an instance that holds the lease,
  and a snapshot by an instance that does not; the first is what \<open>lost_put_swaps_commit\<close> is about.\<close>

theorem committed_writes_survive:
  assumes "(shard_step True contentEtag)\<^sup>*\<^sup>* sh_init s" "inj contentEtag" "readManifest contentEtag (sh_bucket s) = Some (m, e)"
  shows "(\<forall>(tss, us) \<in> set (sh_acked s). \<exists>q f. (q, f, payload_of us) \<in> set (sh_log s)) \<and>
    (\<exists>st st' p. materializeTo (sh_bucket s) m 0 ds_empty = Inr st \<and> replay_log (sh_log s) = Inr st' \<and>
       dumpCurrentState st = Inr p \<and> dumpCurrentState st' = Inr p)"
proof -
  note inv = reachable_inv_at[OF assms]
  obtain st st' p where "materializeTo (sh_bucket s) m 0 ds_empty = Inr st" "replay_log (sh_log s) = Inr st'"
      "dumpCurrentState st = Inr p" "dumpCurrentState st' = Inr p"
    by (rule bucket_restores[OF inv_atD(2)[OF inv]])
  then show ?thesis using inv_atD(4)[OF inv] by blast
qed

section \<open>The owner\<close>

lemma owner_has_all:
  assumes "inv_at contentEtag m s" "map_of (sh_nodes s) i = Some (ob, p)" "ob_held ob = Some (mf_epoch m, w)" "\<not> ob_poisoned ob"
  obtains st' p where "replay_log (sh_log s) = Inr st'" "dumpCurrentState (ob_local ob) = Inr p" "dumpCurrentState st' = Inr p"
    "ob_manifest ob = m" "ob_nextSeqno ob = mf_nextSeqno m"
proof -
  note st = inv_atD(2)[OF assms(1)]
  have n: "node_ok contentEtag (sh_log s) m ob" using inv_atD(5)[OF assms(1,2)] by (simp add: member_ok_def)
  have o: "ob_manifest ob = m" "ob_nextSeqno ob = mf_nextSeqno m" using lease_okD(5)[OF node_okD(6)[OF n] assms(3,4)] by simp_all
  show thesis
    by (rule replay_dump[OF st node_okD(2)[OF n]]) (use that o node_okD(5)[OF n] manifest_okD(1)[OF bucket_okD(3)[OF st]] in auto)
qed

text \<open>C8. Fencing.  In the same runs, whenever the compare-and-swap of a commit under way would take effect, the
  committing instance holds the lease at the manifest's epoch and no other instance does, its local store
  has every document and index entry of the history before it, and the segment object the manifest will
  refer to holds this commit's own rows: a stalled former owner's commit never lands, and no earlier owner's
  orphan is taken for the new owner's segment.\<close>

theorem landing_commit_is_current:
  assumes "(shard_step True contentEtag)\<^sup>*\<^sup>* sh_init s" "inj contentEtag" "readManifest contentEtag (sh_bucket s) = Some (m, e)"
    "map_of (sh_nodes s) i = Some (ob, Committing pp)" "cas_lands contentEtag rq (pp_next pp) (ob_etag ob) (sh_bucket s)"
  shows "(\<exists>w. ob_held ob = Some (mf_epoch m, w) \<and>
      (\<forall>j ob' p' w'. map_of (sh_nodes s) j = Some (ob', p') \<longrightarrow> ob_held ob' = Some (mf_epoch m, w') \<longrightarrow> j = i)) \<and>
    (\<exists>st p. replay_log (sh_log s) = Inr st \<and> dumpCurrentState st = Inr p \<and> dumpCurrentState (ob_local ob) = Inr p) \<and>
    pp_seqno pp = mf_nextSeqno m \<and> map_of (sh_bucket s) (SegmentKey (pp_seqno pp)) = Some (commit_body pp)"
proof -
  note inv = reachable_inv_at[OF assms(1-3)]
  note mem = inv_atD(5)[OF inv assms(4)]
  have n: "node_ok contentEtag (sh_log s) m ob" using mem by (simp add: member_ok_def)
  obtain units shardId where pr: "list_all unit_wf units" "ob_prepare units shardId ob = CommitGo pp"
    using mem by (auto simp: member_ok_def prepared_from_def)
  have p: "pp_seqno pp = ob_nextSeqno ob" "holds_lease ob" using prepare_spec[OF pr(2,1)] by metis+
  obtain ep w where h: "ob_held ob = Some (ep, w)" "\<not> ob_poisoned ob" by (rule holder[OF p(2)])
  have "ob_manifest ob = m"
    using assms(5,2) readManifest_Some[OF assms(3)] node_okD(1)[OF n]
    by (auto simp: cas_lands_def casManifest_def casPut_def dest: injD split: if_splits)
  then have ep: "ep = mf_epoch m" using lease_okD(3)[OF node_okD(6)[OF n] h(1)] by simp
  obtain st' q where c: "replay_log (sh_log s) = Inr st'" "dumpCurrentState (ob_local ob) = Inr q" "dumpCurrentState st' = Inr q"
      "ob_nextSeqno ob = mf_nextSeqno m"
    by (rule owner_has_all[OF inv assms(4) h(1)[unfolded ep] h(2)])
  have "map_of (sh_bucket s) (SegmentKey (mf_nextSeqno m)) = Some (commit_body pp)"
    using mem h ep by (simp add: member_ok_def current_owner_def)
  moreover have "j = i" if "map_of (sh_nodes s) j = Some (ob', p')" "ob_held ob' = Some (mf_epoch m, w')" for j ob' p' w'
    by (rule nodes_okD(2)[OF inv_atD(3)[OF inv] that(1) assms(4) that(2) h(1)[unfolded ep]])
  ultimately show ?thesis using h(1) ep c p(1) by auto
qed

section \<open>A first commit\<close>

definition demo_opts :: acquire_opts where
  "demo_opts = \<lparr>ao_writerId = [119], ao_leaseTtlMs = 10, ao_now = 0\<rparr>"

definition demo_unit :: "int \<Rightarrow> commit_unit" where
  "demo_unit n = \<lparr>cu_documents = [\<lparr>le_ts = 0, le_id = \<lparr>tableNumber = 1, internalId = [7]\<rparr>, le_value = Some [([110], VBigInt n)],
     le_prev_ts = None\<rparr>], cu_indexUpdates = [], cu_meta = None\<rparr>"

text \<open>The first instance on a fresh bucket, once it owns the shard.\<close>

definition demo_owner :: "object_body object_doc_store" where
  "demo_owner = \<lparr>ob_local = ds_empty, ob_manifest = claimed demo_opts emptyManifest, ob_etag = ManifestBody (claimed demo_opts emptyManifest),
     ob_nextSeqno = 0, ob_poisoned = False, ob_held = Some (1, [119]), ob_sinceSnapshot = 0\<rparr>"

definition demo_owned :: "object_body shard_sys" where
  "demo_owned = \<lparr>sh_bucket = [(ManifestKey, ManifestBody (claimed demo_opts emptyManifest))], sh_nodes = [(0, (demo_owner, Idle))], sh_log = [], sh_acked = []\<rparr>"

definition demo_commit :: "int \<Rightarrow> prepared_commit" where
  "demo_commit n = \<lparr>pp_seqno = 0, pp_units = stamp_units 0 [demo_unit n], pp_tsList = [1],
     pp_next = (claimed demo_opts emptyManifest)\<lparr>mf_frontierTs := 1, mf_tsCounter := 1, mf_segments := [0], mf_nextSeqno := 1\<rparr>, pp_shard = None\<rparr>"

definition demo_committing :: "object_body shard_sys" where
  "demo_committing = demo_owned\<lparr>sh_bucket := [(ManifestKey, ManifestBody (claimed demo_opts emptyManifest)), (SegmentKey 0, commit_body (demo_commit 5))],
     sh_nodes := [(0, (demo_owner, Committing (demo_commit 5)))]\<rparr>"

lemma demo_unit_wf: "int64_range n \<Longrightarrow> unit_wf (demo_unit n)"
  by (simp add: unit_wf_def demo_unit_def obj_ok_def)

lemma demo_prepare: "ob_prepare [demo_unit n] None demo_owner = CommitGo (demo_commit n)"
  by (simp add: ob_prepare_def demo_owner_def demo_commit_def claimed_def demo_opts_def emptyManifest_def maxTimestamp_def ds_empty_def Let_def)

lemma demo_run: "(shard_step True id)\<^sup>*\<^sup>* sh_init demo_owned"
proof -
  let ?n = "new_instance ds_empty emptyManifest (ManifestBody emptyManifest)"
  let ?mz = "begin_materialize emptyManifest 0" and ?b = "[(ManifestKey, ManifestBody emptyManifest)]"
  have 1: "shard_step True id sh_init (set_node 0 ?n (Opening ?mz) (sh_init\<lparr>sh_bucket := ?b\<rparr>))" (is "shard_step _ _ _ ?s1")
    by (rule open_start) (simp_all add: openManifest_def readManifest_def get_object_def createManifest_def casPut_def sh_init_def)
  have 2: "shard_step True id ?s1 (set_node 0 (?n\<lparr>ob_nextSeqno := mf_nextSeqno (mz_manifest ?mz)\<rparr>) Idle ?s1)" (is "shard_step _ _ _ ?s2")
    by (rule open_done) (simp_all add: set_node_def materialize_step_def begin_materialize_def emptyManifest_def)
  have 3: "shard_step True id ?s2 (set_node 0 (?n\<lparr>ob_nextSeqno := mf_nextSeqno (mz_manifest ?mz)\<rparr>) (Acquiring demo_opts (ManifestBody emptyManifest) ?mz) ?s2)"
    (is "shard_step _ _ _ ?s3")
    using acquire_start[of ?s2 0 "?n\<lparr>ob_nextSeqno := mf_nextSeqno (mz_manifest ?mz)\<rparr>" True id emptyManifest "ManifestBody emptyManifest" demo_opts]
    by (simp add: set_node_def holds_lease_def new_instance_def readManifest_def get_object_def lease_refused_def begin_materialize_def emptyManifest_def sh_init_def)
  have "demo_owned = set_node 0 demo_owner Idle (?s3\<lparr>sh_bucket := sh_bucket demo_owned\<rparr>)"
    by (simp add: demo_owned_def set_node_def sh_init_def)
  moreover have "casManifest id (claimed demo_opts emptyManifest) (ManifestBody emptyManifest) ?b =
      Some (sh_bucket demo_owned, ManifestBody (claimed demo_opts emptyManifest))"
    by (simp add: casManifest_def casPut_def demo_owned_def)
  then have "claim id Returns demo_opts emptyManifest (ManifestBody emptyManifest) (?n\<lparr>ob_nextSeqno := mf_nextSeqno (mz_manifest ?mz)\<rparr>) ?b =
      (sh_bucket demo_owned, demo_owner)"
    by (simp add: claim_def cas_request_def demo_owner_def new_instance_def Let_def) (simp add: claimed_def emptyManifest_def demo_opts_def)
  then have "shard_step True id ?s3 (set_node 0 demo_owner Idle (?s3\<lparr>sh_bucket := sh_bucket demo_owned\<rparr>))"
    by (intro acquire_claim[where rq = Returns and mz = ?mz and opts = demo_opts and e = "ManifestBody emptyManifest"])
      (simp_all add: set_node_def sh_init_def materialize_step_def begin_materialize_def emptyManifest_def)
  ultimately have 4: "shard_step True id ?s3 demo_owned" by simp
  show ?thesis using 1 2 3 4 by (meson rtranclp.rtrancl_into_rtrancl rtranclp.rtrancl_refl)
qed

lemma demo_put: "shard_step True id demo_owned demo_committing"
  using commit_put[of demo_owned 0 demo_owner "[demo_unit 5]" None "demo_commit 5" True Returns id] demo_prepare[of 5] demo_unit_wf[of 5]
  by (simp add: demo_owned_def demo_committing_def set_node_def put_request_def putImmutable_def int64_range_def demo_commit_def)


lemma owner_prepares:
  assumes "ob_held ob = Some (ep, w)" "\<not> ob_poisoned ob" "mf_epoch (ob_manifest ob) = ep" "units \<noteq> []"
  obtains pp where "ob_prepare units shardId ob = CommitGo pp" "pp_shard pp = shardId"
  using assms by (auto simp: ob_prepare_def Let_def)

lemma owner_finishes:
  assumes "bucket_ok m log b" "node_ok contentEtag log m ob" "ob_manifest ob = m" "ob_nextSeqno ob = mf_nextSeqno m"
    "map_of b' ManifestKey = Some (ManifestBody m)" "ob_prepare units shardId ob = CommitGo pp" "list_all unit_wf units"
  obtains local where "ob_finish contentEtag Returns None pp ob b' =
    (AList.update ManifestKey (ManifestBody (pp_next pp)) b', ob\<lparr>ob_local := local, ob_manifest := pp_next pp,
       ob_etag := contentEtag (ManifestBody (pp_next pp)), ob_nextSeqno := pp_seqno pp + 1, ob_sinceSnapshot := ob_sinceSnapshot ob + 1\<rparr>, Inr (pp_tsList pp))"
proof -
  obtain f where p: "mf_tsCounter m < f" "payload_wf (payload_of (pp_units pp))" "comes_after (mf_tsCounter m) (payload_of (pp_units pp))"
      "no_later f (pdocs (payload_of (pp_units pp)))" "no_later f (pidxs (payload_of (pp_units pp)))"
    by (rule prepare_spec[OF assms(6,7), unfolded assms(3)])
  obtain local where l: "apply_units (pp_units pp) (pp_shard pp) (ob_local ob) = Inr local"
    using committed_local[OF assms(1,2,4) p refl order_refl] by metis
  have "casManifest contentEtag (pp_next pp) (ob_etag ob) b' =
      Some (AList.update ManifestKey (ManifestBody (pp_next pp)) b', contentEtag (ManifestBody (pp_next pp)))"
    using assms(3,5) node_okD(1)[OF assms(2)] by (simp add: casManifest_def casPut_def)
  then show thesis using that l by (simp add: ob_finish_def cas_request_def Let_def)
qed

text \<open>A segment put whose response is lost makes the next commit's bytes the wrong ones.  From every state of
  those runs in which an instance owns the shard and is idle, and for any two batches it could commit: put
  the first batch's segment with the response lost (the commit throws, the instance is not poisoned and its
  seqno stays), then commit the second batch.  The second batch is acknowledged and the manifest names its
  segment, but that object keeps the first batch's bytes, which is what every later instance replays.\<close>

lemma lost_put_swaps_commit:
  assumes "(shard_step True contentEtag)\<^sup>*\<^sup>* sh_init s" "inj contentEtag" "readManifest contentEtag (sh_bucket s) = Some (m, e)"
    "map_of (sh_nodes s) i = Some (ob, Idle)" "ob_held ob = Some (mf_epoch m, w)" "\<not> ob_poisoned ob"
    "list_all unit_wf units1" "units1 \<noteq> []" "list_all unit_wf units2" "units2 \<noteq> []"
  shows "\<exists>pp1 pp2 s'. ob_prepare units1 shardId ob = CommitGo pp1 \<and> ob_prepare units2 shardId ob = CommitGo pp2 \<and>
    (shard_step False contentEtag)\<^sup>*\<^sup>* s s' \<and> sh_acked s' = sh_acked s @ [(pp_tsList pp2, pp_units pp2)] \<and>
    readManifest contentEtag (sh_bucket s') = Some (pp_next pp2, contentEtag (ManifestBody (pp_next pp2))) \<and>
    pp_seqno pp2 \<in> set (mf_segments (pp_next pp2)) \<and> map_of (sh_bucket s') (SegmentKey (pp_seqno pp2)) = Some (commit_body pp1)"
proof -
  note inv = reachable_inv_at[OF assms(1-3)]
  note st = inv_atD(2)[OF inv] and mem = inv_atD(5)[OF inv assms(4)]
  have n: "node_ok contentEtag (sh_log s) m ob" using mem by (simp add: member_ok_def)
  have o: "ob_manifest ob = m" "ob_nextSeqno ob = mf_nextSeqno m" using lease_okD(5)[OF node_okD(6)[OF n] assms(5,6)] by simp_all
  have free: "map_of (sh_bucket s) (SegmentKey (mf_nextSeqno m)) = None" using mem assms(5,6) by (simp add: member_ok_def current_owner_def)
  obtain pp1 where p1: "ob_prepare units1 shardId ob = CommitGo pp1" by (rule owner_prepares[OF assms(5,6) _ assms(8)]) (simp_all add: o)
  obtain pp2 where p2: "ob_prepare units2 shardId ob = CommitGo pp2" by (rule owner_prepares[OF assms(5,6) _ assms(10)]) (simp_all add: o)
  have q: "pp_seqno pp1 = mf_nextSeqno m" by (rule prepare_spec[OF p1 assms(7)]) (simp add: o)
  have q': "pp_seqno pp2 = mf_nextSeqno m" "mf_nextSeqno m \<in> set (mf_segments (pp_next pp2))"
    by (rule prepare_spec[OF p2 assms(9)], simp add: o)+
  let ?b = "AList.update (SegmentKey (mf_nextSeqno m)) (commit_body pp1) (sh_bucket s)"
  let ?s1 = "set_node i ob Idle (s\<lparr>sh_bucket := ?b\<rparr>)" and ?s2 = "set_node i ob (Committing pp2) (set_node i ob Idle (s\<lparr>sh_bucket := ?b\<rparr>))"
  have 1: "shard_step False contentEtag s ?s1"
    using commit_put[OF assms(4,7) p1, of False "Throws True" contentEtag] free q by (simp add: put_request_def putImmutable_def)
  have 2: "shard_step False contentEtag ?s1 ?s2"
    using commit_put[of ?s1 i ob units2 shardId pp2 False Returns contentEtag] assms(9) p2 q'(1)
    by (simp add: put_request_def putImmutable_def set_node_def)
  have b: "map_of ?b ManifestKey = Some (ManifestBody m)" using inv_atD(1)[OF inv] by simp
  obtain ob' where f: "ob_finish contentEtag Returns None pp2 ob ?b = (AList.update ManifestKey (ManifestBody (pp_next pp2)) ?b, ob', Inr (pp_tsList pp2))"
    using owner_finishes[OF st n o b p2 assms(9)] by metis
  obtain s3 where 3: "shard_step False contentEtag ?s2 s3" "sh_bucket s3 = AList.update ManifestKey (ManifestBody (pp_next pp2)) ?b"
      "sh_acked s3 = sh_acked s @ [(pp_tsList pp2, pp_units pp2)]"
    using commit_finish[of ?s2 i ob pp2 contentEtag Returns None _ ob' "Inr (pp_tsList pp2)" False] f by (simp add: set_node_def)
  have "(shard_step False contentEtag)\<^sup>*\<^sup>* s s3" using 1 2 3(1) by (meson rtranclp.rtrancl_into_rtrancl rtranclp.rtrancl_refl)
  moreover have "readManifest contentEtag (sh_bucket s3) = Some (pp_next pp2, contentEtag (ManifestBody (pp_next pp2)))"
    using 3(2) by (simp add: readManifest_def get_object_def)
  moreover have "map_of (sh_bucket s3) (SegmentKey (pp_seqno pp2)) = Some (commit_body pp1)" using 3(2) q'(1) by simp
  ultimately show ?thesis using p1 p2 3(3) q' by auto
qed

section \<open>Witnesses\<close>

lemma demo_reach: "(shard_step True id)\<^sup>*\<^sup>* sh_init demo_committing"
  using demo_run demo_put by (rule rtranclp.rtrancl_into_rtrancl)

lemma demo_manifest: "readManifest id (sh_bucket demo_owned) = Some (claimed demo_opts emptyManifest, ManifestBody (claimed demo_opts emptyManifest))"
    "readManifest id (sh_bucket demo_committing) = Some (claimed demo_opts emptyManifest, ManifestBody (claimed demo_opts emptyManifest))"
  by (simp_all add: readManifest_def get_object_def demo_owned_def demo_committing_def)

lemma demo_acked:
  obtains s m e where "(shard_step True id)\<^sup>*\<^sup>* sh_init s" "sh_acked s = [([1], pp_units (demo_commit 5))]" "readManifest id (sh_bucket s) = Some (m, e)"
proof -
  let ?m = "claimed demo_opts emptyManifest"
  have inv: "inv_at id ?m demo_committing" by (rule reachable_inv_at[OF demo_reach inj_on_id demo_manifest(2)])
  have i: "map_of (sh_nodes demo_committing) 0 = Some (demo_owner, Committing (demo_commit 5))" by (simp add: demo_committing_def)
  have n: "node_ok id (sh_log demo_committing) ?m demo_owner" using inv_atD(5)[OF inv i] by (simp add: member_ok_def)
  have o: "ob_manifest demo_owner = ?m" "ob_nextSeqno demo_owner = mf_nextSeqno ?m" by (simp_all add: demo_owner_def claimed_def emptyManifest_def)
  obtain ob' where f: "ob_finish id Returns None (demo_commit 5) demo_owner (sh_bucket demo_committing) =
      (AList.update ManifestKey (ManifestBody (pp_next (demo_commit 5))) (sh_bucket demo_committing), ob', Inr (pp_tsList (demo_commit 5)))"
    using owner_finishes[OF inv_atD(2)[OF inv] n o inv_atD(1)[OF inv] demo_prepare[of 5]] demo_unit_wf[of 5] by (auto simp: int64_range_def)
  let ?s = "set_node 0 ob' Idle (demo_committing\<lparr>sh_bucket := AList.update ManifestKey (ManifestBody (pp_next (demo_commit 5))) (sh_bucket demo_committing),
      sh_log := sh_log demo_committing @ (if cas_lands id Returns (pp_next (demo_commit 5)) (ob_etag demo_owner) (sh_bucket demo_committing)
        then [(pp_seqno (demo_commit 5), mf_frontierTs (pp_next (demo_commit 5)), payload_of (pp_units (demo_commit 5)))] else []),
      sh_acked := sh_acked demo_committing @ [(pp_tsList (demo_commit 5), pp_units (demo_commit 5))]\<rparr>)"
  have "shard_step True id demo_committing ?s" using commit_finish[OF i f, of True] by simp
  then have "(shard_step True id)\<^sup>*\<^sup>* sh_init ?s" by (rule rtranclp.rtrancl_into_rtrancl[OF demo_reach])
  moreover have "sh_acked ?s = [([1], pp_units (demo_commit 5))]" by (simp add: set_node_def demo_committing_def demo_owned_def demo_commit_def)
  moreover have "readManifest id (sh_bucket ?s) = Some (pp_next (demo_commit 5), ManifestBody (pp_next (demo_commit 5)))"
    by (simp add: set_node_def readManifest_def get_object_def)
  ultimately show thesis by (rule that)
qed

lemma committed_writes_survive_witness:
  "\<exists>(s :: object_body shard_sys) st p. sh_acked s = [([1], pp_units (demo_commit 5))] \<and> (\<exists>q f. (q, f, payload_of (pp_units (demo_commit 5))) \<in> set (sh_log s)) \<and>
     replay_log (sh_log s) = Inr st \<and> dumpCurrentState st = Inr p"
proof -
  obtain s m e where s: "(shard_step True id)\<^sup>*\<^sup>* sh_init s" "sh_acked s = [([1], pp_units (demo_commit 5))]" "readManifest id (sh_bucket s) = Some (m, e)"
    by (rule demo_acked)
  show ?thesis using committed_writes_survive[OF s(1) inj_on_id s(3)] s(2) by auto
qed

lemma landing_commit_is_current_witness:
  "map_of (sh_bucket demo_committing) (SegmentKey 0) = Some (commit_body (demo_commit 5)) \<and>
   (\<exists>st p. replay_log (sh_log demo_committing) = Inr st \<and> dumpCurrentState st = Inr p \<and> dumpCurrentState (ob_local demo_owner) = Inr p)"
proof -
  have i: "map_of (sh_nodes demo_committing) 0 = Some (demo_owner, Committing (demo_commit 5))" by (simp add: demo_committing_def)
  have "cas_lands id Returns (pp_next (demo_commit 5)) (ob_etag demo_owner) (sh_bucket demo_committing)"
    by (simp add: cas_lands_def casManifest_def casPut_def demo_committing_def demo_owner_def)
  from landing_commit_is_current[OF demo_reach inj_on_id demo_manifest(2) i this] show ?thesis
    by (simp add: demo_commit_def)
qed

lemma lost_put_swaps_commit_witness:
  "\<exists>(pp1 :: prepared_commit) (pp2 :: prepared_commit) s'. (shard_step False id)\<^sup>*\<^sup>* demo_owned s' \<and> sh_acked s' = [(pp_tsList pp2, pp_units pp2)] \<and>
     map_of (sh_bucket s') (SegmentKey (pp_seqno pp2)) = Some (commit_body pp1)"
proof -
  have o: "map_of (sh_nodes demo_owned) 0 = Some (demo_owner, Idle)" "ob_held demo_owner = Some (mf_epoch (claimed demo_opts emptyManifest), [119])"
    "\<not> ob_poisoned demo_owner" "sh_acked demo_owned = []" by (simp_all add: demo_owned_def demo_owner_def claimed_def emptyManifest_def)
  have u: "list_all unit_wf [demo_unit 1]" "list_all unit_wf [demo_unit 2]" "[demo_unit 1] \<noteq> []" "[demo_unit 2] \<noteq> []"
    using demo_unit_wf[of 1] demo_unit_wf[of 2] by (simp_all add: int64_range_def)
  obtain pp1 pp2 :: prepared_commit and s' where "(shard_step False id)\<^sup>*\<^sup>* demo_owned s'" "sh_acked s' = sh_acked demo_owned @ [(pp_tsList pp2, pp_units pp2)]"
      "map_of (sh_bucket s') (SegmentKey (pp_seqno pp2)) = Some (commit_body pp1)"
    using lost_put_swaps_commit[OF demo_run inj_on_id demo_manifest(1) o(1-3) u(1,3,2,4), of None] by blast
  then show ?thesis using o(4) by (intro exI conjI) simp_all
qed

end
