(* ===== verification/Spec2Isabelle.thy ===== *)
theory Spec2Isabelle
  imports Optimistic_Props Exactly_Once Kernel_Reads Validators Policy Interval_Index Table_Registry Doc_Store Query_Runtime Transactor Sharded_Transactor Group_Commit Flow_Control  Object_Doc_Props
begin

text \<open>
  Concile is a reactive document database with functions that run next to the data.  A client calls
  functions over a socket; a mutation runs as a transaction of the engine, and every live query whose read
  set a commit touches is run again, or patched, and pushed to its subscribers.  This development models the
  engine and the reactive tier, from the byte encoding of keys to the frames a client receives, and what a
  client may rely on.

  \<^bold>\<open>How the program's parts meet.\<close>  Values have a JSON form and an order-preserving byte encoding.  A query
  names an index and constraints; the planner turns them into an interval of encoded keys, the query engine
  walks the store's index over it, with the transaction's own staged writes laid on top, and records the key
  ranges it consumed.  A transaction collects reads and writes through the kernel's syscalls, which check
  validators, row policies, shard ownership and headroom.  The transactor validates the read set against
  recent commits and hands the batch to the document store, which stamps it.  A commit's written keys go to
  the subscription index, the resume registry and the row differ; the sync handler turns what they answer
  into versioned transitions per session, which an outbound queue carries to the client, and the client's
  reducer applies them.  A mutation may carry a client's dedup key, and then leaves a receipt.

  \<^bold>\<open>Theories and sources\<close> (paths under \<^verbatim>\<open>packages/\<close> unless they say otherwise).

  \<^item> \<^verbatim>\<open>Concile_Prelude\<close>, \<^verbatim>\<open>Js_Runtime\<close>, \<^verbatim>\<open>Js_Numbers\<close>: comparison results and the \<open>comparator\<close> interface, results
    that may throw, insertion-ordered maps; strings as UTF-16 code units, decimal numerals, UTF-8, base 64,
    doubles as 64-bit patterns.
  \<^item> \<^verbatim>\<open>Js_Values\<close>, \<^verbatim>\<open>Json_Codec\<close>: \<^verbatim>\<open>values/src/value.ts\<close>, \<^verbatim>\<open>json.ts\<close>.  The value order is a total preorder; the codec
    returns every value it encodes.
  \<^item> \<^verbatim>\<open>Index_Keys\<close>, \<^verbatim>\<open>Key_Ranges\<close>, \<^verbatim>\<open>Interval_Index\<close>: \<^verbatim>\<open>index-key-codec/src\<close>.  Byte order of encoded tuples is value
    order; ranges, keyspaces and their serial form; the interval treap as a refinement of a list scanned
    linearly.
  \<^item> \<^verbatim>\<open>Doc_Ids\<close>, \<^verbatim>\<open>Sharding\<close>, \<^verbatim>\<open>Table_Registry\<close>: \<^verbatim>\<open>id-codec/src\<close>.  Document ids and their checksum, jump hash,
    slots and routers, storage ids, the table registry.
  \<^item> \<^verbatim>\<open>Query_Engine\<close>, \<^verbatim>\<open>Query_Runtime\<close>: \<^verbatim>\<open>query-engine/src\<close>.  Filters, index maintenance, planning; \<open>collect\<close> and
    \<open>paginate\<close> over store and overlay, and the soundness of the read sets they record.
  \<^item> \<^verbatim>\<open>Doc_Store\<close>: \<^verbatim>\<open>docstore/src/types.ts\<close>, \<^verbatim>\<open>timestamp-oracle.ts\<close> and the rows of
    \<^verbatim>\<open>docstore-sqlite/src/sqlite-docstore.ts\<close>; the \<open>mvcc_store\<close> contract and its instance.
  \<^item> \<^verbatim>\<open>Transactor\<close>, \<^verbatim>\<open>Group_Commit\<close>, \<^verbatim>\<open>Sharded_Transactor\<close>: \<^verbatim>\<open>transactor/src\<close>.  Headroom, staged writes, the
    transaction context, optimistic validation and the single-commit path with its retries; the group-commit
    pipeline of stagers and committer with its split retry; several shards over one store.
  \<^item> \<^verbatim>\<open>Validators\<close>, \<^verbatim>\<open>Policy\<close>, \<^verbatim>\<open>Catalog\<close>, \<^verbatim>\<open>Kernel\<close>, \<^verbatim>\<open>Kernel_Runs\<close>, \<^verbatim>\<open>Kernel_Props\<close>, \<^verbatim>\<open>Kernel_Reads\<close>:
    \<^verbatim>\<open>values/src/validator.ts\<close>, \<^verbatim>\<open>schema.ts\<close> and \<^verbatim>\<open>executor/src/policy.ts\<close>, \<^verbatim>\<open>catalog.ts\<close>, \<^verbatim>\<open>profile.ts\<close>,
    \<^verbatim>\<open>global-txn.ts\<close>, \<^verbatim>\<open>kernel.ts\<close>.  A function's run is a sequence of syscalls whose errors it may catch; the
    contracts \<open>reader_invariant\<close> and \<open>writer_invariant\<close> say what a syscall must keep for a run to keep it.
  \<^item> \<^verbatim>\<open>Differ\<close>, \<^verbatim>\<open>Subscriptions\<close>, \<^verbatim>\<open>Resume\<close>, \<^verbatim>\<open>Sync_Handler\<close>, \<^verbatim>\<open>Sync_Props\<close>, \<^verbatim>\<open>Flow_Control\<close>: \<^verbatim>\<open>sync/src\<close>.
    Classification and incremental diffs, the subscription indexes, the resume registry, the handler with its
    frontiers and version brackets, the outbound queue, the heartbeat and the reference client reducer.
  \<^item> \<^verbatim>\<open>Receipts\<close>, \<^verbatim>\<open>Exactly_Once\<close>: \<^verbatim>\<open>runtime-embedded/src/client-dedup.ts\<close>, the receipt tables of
    \<^verbatim>\<open>sqlite-docstore.ts\<close> and the mutation path of \<^verbatim>\<open>runtime.ts\<close>; attempts as a step relation.
  \<^item> \<^verbatim>\<open>Optimistic\<close>, \<^verbatim>\<open>Optimistic_Client\<close>, \<^verbatim>\<open>Optimistic_Frames\<close>, \<^verbatim>\<open>Optimistic_Props\<close>: \<^verbatim>\<open>client/src/mutation-log.ts\<close>,
    \<^verbatim>\<open>layered-store.ts\<close>, \<^verbatim>\<open>optimistic-store.ts\<close>, \<^verbatim>\<open>delivery-policy.ts\<close>, \<^verbatim>\<open>reconcile.ts\<close> and the part of \<^verbatim>\<open>client.ts\<close>
    without a durable outbox.  What a recompose shows and tells, and the client as a step relation: a frame is
    atomic, a promise is accounted for, a waiting layer has a timer.
  \<^item> \<^verbatim>\<open>Object_Store\<close>, \<^verbatim>\<open>Object_Doc_Store\<close>, \<^verbatim>\<open>Object_Doc_Props\<close> over \<^verbatim>\<open>Versioned_Rows\<close>, \<^verbatim>\<open>Object_Rows\<close>, \<^verbatim>\<open>Object_Log\<close>,
    \<^verbatim>\<open>Object_Commits\<close>, \<^verbatim>\<open>Object_Invariant\<close>, \<^verbatim>\<open>Object_Steps\<close>: \<^verbatim>\<open>ee/packages/objectstore-substrate/src\<close> (segments, snapshots,
    manifest, watermarks, \<^verbatim>\<open>object-doc-store.ts\<close>) and \<^verbatim>\<open>packages/objectstore-fs\<close>.  Instances over one bucket as a step
    relation with lost requests and crashes; a store is compared with the history as a set of versioned rows,
    and the invariant of careful runs gives that acknowledged commits survive and that only the owner commits.

  \<^bold>\<open>State and operations.\<close>  A class is a record of its fields and each method a function from the old record to
  the new one; a \<^verbatim>\<open>Map\<close> is an association list in insertion order; an enum or tagged union is a datatype; a
  throw is the left side of a \<open>result\<close>, and so is a rejected promise.  Code between two awaits is one step.
  Where several calls interleave (transactions, stagers and committer, attempts to run a mutation) the steps
  are an inductive relation, and properties are invariants of its reachable states.

  \<^bold>\<open>Locales.\<close>  \<open>comparator\<close> (three-way comparison functions) is interpreted on the code's three comparators,
  \<open>overlap_index\<close> on the treap, \<open>mvcc_store\<close> on the SQLite store, \<open>reader_invariant\<close> and \<open>writer_invariant\<close> on the
  kernel with the transaction model, the staged-write invariants and the transaction's view.

  \<^bold>\<open>Bounds.\<close>  JavaScript numbers are 64-bit patterns in values and integers where the code only counts;
  the jump hash is total up to \<open>2 ^ 53\<close> buckets, a varint takes at most five bytes, a page walk gets as much fuel
  as the store has index rows, a split retry recurses at most three deep, relation policies four deep.
  Headroom (4096 writes by default) and the receipt cap (64 KiB) are the code's constants.

  \<^bold>\<open>Parameters.\<close>  The D1 store of global tables, the socket's acceptance of a frame and its buffered amount, the
  random bytes of a minted id and of a treap's priorities, a policy's functions, the wall clock, the byte
  length of a JSON text and the content hash of an object (injective where a theorem needs it) are arguments of the definitions that use them.
  An optimistic updater is any strategy that reads and writes its view; \<^verbatim>\<open>JSON.stringify\<close> is an argument there.

  \<^bold>\<open>Not modelled.\<close>  User functions themselves (a run is any sequence of syscalls), and with them the executor's
  run loop, its seeded clock and logs; HTTP routing, the storage of files, component composition; the
  Postgres, D1 and Durable Object stores, which implement the contract of \<^verbatim>\<open>Doc_Store\<close> in SQL dialects; the
  Cloudflare hosts and the fleet of \<^verbatim>\<open>ee/packages\<close>, actions and ephemeral broadcasts, the client's durable outbox and its React bindings, the scheduler, trigger, workflow, authentication and notification components; the command line, code generation, deploys, the
  terminal interface and the dev server, which are I/O and text.
\<close>

end
